(* ===== verification/Prelude.thy ===== *)
theory Prelude
  imports "HOL-Library.Word"
begin

text \<open>
  The vocabulary every theory of the development shares.

  \<^item> \<open>kres\<close>: what a piece of kernel code does.  \<open>Ok x\<close> is a normal return, \<open>Panic msg\<close>
    is a call of \<open>panic(msg)\<close> (which never returns), \<open>Spin\<close> is a loop that this CPU alone
    cannot leave (the spin on a spinlock that another CPU holds), and \<open>Asleep c\<close> is a call of \<open>sleep\<close> on the channel \<open>c\<close>, where the
    code cannot go on until another process acts.  \<open>kbind\<close> runs one piece of code after
    another and stops at the first outcome that is not a return.
  \<^item> \<open>chan\<close>: the addresses the kernel sleeps on.  Distinct objects have distinct addresses,
    so a wait channel is a constructor applied to the index of the object.
  \<^item> the named collections \<open>kres_simps\<close> and the lemmas on list updates that the
    components use.
\<close>

named_theorems kres_simps \<open>computation rules of the kernel result monad\<close>

section \<open>Wait channels\<close>

datatype chan =
    NoChan
  | ChTicks
  | ChProc nat
  | ChTid "32 word"
  | ChLog
  | ChBuf nat
  | ChInode nat
  | ChPipeRead nat
  | ChPipeWrite nat
  | ChConsole

section \<open>Results of kernel code\<close>

datatype 'a kres = Ok 'a | Panic string | Spin | Asleep chan

definition kbind :: "'a kres \<Rightarrow> ('a \<Rightarrow> 'b kres) \<Rightarrow> 'b kres" where
  "kbind m f = (case m of
     Ok x \<Rightarrow> f x | Panic msg \<Rightarrow> Panic msg | Spin \<Rightarrow> Spin | Asleep c \<Rightarrow> Asleep c)"

lemma kbind_Ok [simp, kres_simps]: "kbind (Ok x) f = f x"
  by (simp add: kbind_def)

lemma kbind_Panic [simp, kres_simps]: "kbind (Panic msg) f = Panic msg"
  by (simp add: kbind_def)

lemma kbind_Spin [simp, kres_simps]: "kbind Spin f = Spin"
  by (simp add: kbind_def)

lemma kbind_Asleep [simp, kres_simps]: "kbind (Asleep c) f = Asleep c"
  by (simp add: kbind_def)

lemma kbind_eq_Ok_iff: "kbind m f = Ok y \<longleftrightarrow> (\<exists>x. m = Ok x \<and> f x = Ok y)"
  by (cases m) auto

lemma kbind_OkE [elim]:
  assumes "kbind m f = Ok y"
  obtains x where "m = Ok x" and "f x = Ok y"
  using assms by (auto simp: kbind_eq_Ok_iff)

lemma kbind_eq_Panic_iff:
  "kbind m f = Panic msg \<longleftrightarrow> m = Panic msg \<or> (\<exists>x. m = Ok x \<and> f x = Panic msg)"
  by (cases m) auto

lemma kbind_assoc: "kbind (kbind m f) g = kbind m (\<lambda>x. kbind (f x) g)"
  by (cases m) auto

lemma kbind_cong [fundef_cong]:
  "m = m' \<Longrightarrow> (\<And>x. m' = Ok x \<Longrightarrow> f x = f' x) \<Longrightarrow> kbind m f = kbind m' f'"
  by (cases m') auto

text \<open>A \<open>for\<close> loop: \<open>kfold f xs s\<close> runs \<open>f\<close> for the values \<open>xs\<close> of its counter.\<close>

fun kfold :: "('b \<Rightarrow> 's \<Rightarrow> 's kres) \<Rightarrow> 'b list \<Rightarrow> 's \<Rightarrow> 's kres" where
  "kfold f [] s = Ok s"
| "kfold f (x # xs) s = kbind (f x s) (kfold f xs)"

section \<open>Bytes and little-endian words\<close>

type_synonym byte = "8 word"
type_synonym u32 = "32 word"

text \<open>
  \<open>le_word b0 b1 b2 b3\<close> is the 32-bit integer whose bytes in memory are \<open>b0\<close> to \<open>b3\<close> (the
  processor is little-endian), \<open>word_byte i w\<close> the byte number \<open>i\<close> of \<open>w\<close>.
\<close>

unbundle bit_operations_syntax

definition le_word :: "byte \<Rightarrow> byte \<Rightarrow> byte \<Rightarrow> byte \<Rightarrow> u32" where
  "le_word b0 b1 b2 b3 =
     ucast b0 OR push_bit 8 (ucast b1) OR push_bit 16 (ucast b2) OR push_bit 24 (ucast b3)"

definition word_byte :: "nat \<Rightarrow> u32 \<Rightarrow> byte" where
  "word_byte i w = ucast (drop_bit (8 * i) w)"

lemma le_word_word_byte [simp]:
  "le_word (word_byte 0 w) (word_byte (Suc 0) w) (word_byte 2 w) (word_byte 3 w) = w"
proof (rule bit_word_eqI)
  fix n assume "n < LENGTH(32)"
  then consider "n < 8" | "8 \<le> n" "n < 16" | "16 \<le> n" "n < 24" | "24 \<le> n" "n < 32"
    by force
  then show "bit (le_word (word_byte 0 w) (word_byte (Suc 0) w) (word_byte 2 w) (word_byte 3 w)) n
      = bit w n"
    by cases (auto simp: le_word_def word_byte_def bit_simps)
qed

lemma word_byte_le_word [simp]:
  "word_byte 0 (le_word b0 b1 b2 b3) = b0"
  "word_byte (Suc 0) (le_word b0 b1 b2 b3) = b1"
  "word_byte 2 (le_word b0 b1 b2 b3) = b2"
  "word_byte 3 (le_word b0 b1 b2 b3) = b3"
  by (rule bit_word_eqI; auto simp: le_word_def word_byte_def bit_simps dest: bit_imp_le_length)+

section \<open>Lists\<close>

lemma upt_conv_Cons_if: "[i..<n] = (if i < n then i # [Suc i..<n] else [])"
  by (simp add: upt_conv_Cons)

lemma map_upt_shift: "map (\<lambda>i. f (Suc i)) [0..<n] = map f [Suc 0..<Suc n]"
  by (simp add: map_Suc_upt [symmetric] del: upt_Suc)

lemma map_upd_notin [simp]: "i \<notin> set xs \<Longrightarrow> map (f(i := v)) xs = map f xs"
  by (induction xs) auto

lemma find_cong_set: "(\<And>x. x \<in> set xs \<Longrightarrow> P x = Q x) \<Longrightarrow> find P xs = find Q xs"
  by (induction xs) auto

lemma find_Some_D: "find P xs = Some x \<Longrightarrow> x \<in> set xs \<and> P x"
  by (induction xs) (auto split: if_splits)

lemma find_None_D: "find P xs = None \<Longrightarrow> x \<in> set xs \<Longrightarrow> \<not> P x"
  by (induction xs) (auto split: if_splits)

lemma find_unique:
  assumes "x \<in> set xs" and "P x" and "\<And>y. y \<in> set xs \<Longrightarrow> P y \<Longrightarrow> y = x"
  shows "find P xs = Some x"
proof (cases "find P xs")
  case None
  with assms(1,2) show ?thesis by (blast dest: find_None_D)
next
  case (Some y)
  then have "y = x" by (blast intro: assms(3) dest: find_Some_D)
  with Some show ?thesis by simp
qed

lemma length_le_card_bound:
  assumes "distinct xs" and "set xs \<subseteq> {..<n}" and "p < n" and "p \<notin> set xs"
  shows "length xs < n"
proof -
  have "set xs \<subseteq> {..<n} - {p}" using assms by auto
  then have "card (set xs) \<le> card ({..<n} - {p})" by (intro card_mono) auto
  then have "length xs \<le> n - 1" using assms by (simp add: distinct_card)
  then show ?thesis using \<open>p < n\<close> by simp
qed

end
