(* ===== verification/Mlfq_Queue.thy ===== *)
theory Mlfq_Queue
  imports Prelude "HOL-Library.Multiset"
begin

text \<open>
  The run queues of the multi-level feedback queue (project 1): \<open>struct queue\<close> of \<open>proc.h\<close>
  and \<open>enqueue\<close>, \<open>dequeue\<close>, \<open>remove\<close>, \<open>insertqueue\<close> of \<open>proc.c\<close>.  The array \<open>procs\<close> of
  pointers into \<open>ptable.proc\<close> is a function from array index to process index; the loops
  that shift it are recursive functions with the same index arithmetic.  \<open>qlist\<close> reads the
  live part of the array as a list, and the laws of the locale \<open>sched_queue\<close> say that the
  array operations implement the list operations; everything the scheduler needs of a queue
  is derived from these laws.
\<close>

section \<open>The array queue\<close>

definition NPROC :: nat where
  "NPROC = 64"

record queue =
  qprocs :: "nat \<Rightarrow> nat"
  qsize :: nat
  timequantum :: nat

function shift_down :: "(nat \<Rightarrow> nat) \<Rightarrow> nat \<Rightarrow> nat \<Rightarrow> (nat \<Rightarrow> nat)" where
  "shift_down a i n = (if i < n then shift_down (a(i := a (i + 1))) (i + 1) n else a)"
  by pat_completeness auto
termination
  by (relation "measure (\<lambda>(a, i, n). n - i)") auto

fun shift_up :: "(nat \<Rightarrow> nat) \<Rightarrow> nat \<Rightarrow> (nat \<Rightarrow> nat)" where
  "shift_up a 0 = a"
| "shift_up a (Suc i) = shift_up (a(Suc i := a i)) i"

function find_pid :: "(nat \<Rightarrow> int) \<Rightarrow> (nat \<Rightarrow> nat) \<Rightarrow> int \<Rightarrow> nat \<Rightarrow> nat \<Rightarrow> nat" where
  "find_pid pid_of a pid i n =
     (if i < n then (if pid_of (a i) = pid then i else find_pid pid_of a pid (i + 1) n) else i)"
  by pat_completeness auto
termination
  by (relation "measure (\<lambda>(pid_of, a, pid, i, n). n - i)") auto

declare shift_down.simps [simp del] find_pid.simps [simp del]

definition enqueue :: "queue \<Rightarrow> nat \<Rightarrow> queue" where
  "enqueue q p =
     (if qsize q < NPROC
      then q\<lparr>qprocs := (qprocs q)(qsize q := p), qsize := qsize q + 1\<rparr> else q)"

definition dequeue :: "queue \<Rightarrow> queue" where
  "dequeue q =
     (if 0 < qsize q
      then q\<lparr>qprocs := shift_down (qprocs q) 0 (qsize q - 1), qsize := qsize q - 1\<rparr> else q)"

definition removeq :: "(nat \<Rightarrow> int) \<Rightarrow> queue \<Rightarrow> int \<Rightarrow> queue" where
  "removeq pid_of q pid =
     (let i = find_pid pid_of (qprocs q) pid 0 (qsize q) in
      if i < qsize q
      then q\<lparr>qprocs := shift_down (qprocs q) i (qsize q - 1), qsize := qsize q - 1\<rparr> else q)"

definition insertqueue :: "queue \<Rightarrow> nat \<Rightarrow> queue" where
  "insertqueue q p =
     (if qsize q < NPROC
      then q\<lparr>qprocs := (shift_up (qprocs q) (qsize q))(0 := p), qsize := qsize q + 1\<rparr> else q)"

section \<open>The queue as a list\<close>

definition qlist :: "queue \<Rightarrow> nat list" where
  "qlist q = map (qprocs q) [0..<qsize q]"

definition qwf :: "queue \<Rightarrow> bool" where
  "qwf q \<longleftrightarrow> qsize q \<le> NPROC"

lemma length_qlist [simp]: "length (qlist q) = qsize q"
  by (simp add: qlist_def)

lemma nth_qlist [simp]: "i < qsize q \<Longrightarrow> qlist q ! i = qprocs q i"
  by (simp add: qlist_def)

lemma shift_down_apply:
  "shift_down a i n k = (if i \<le> k \<and> k < n then a (k + 1) else a k)"
proof (induction "n - i" arbitrary: a i)
  case 0
  then show ?case by (subst shift_down.simps) auto
next
  case (Suc d)
  then have "i < n" and "d = n - Suc i" by auto
  with Suc.hyps(1) [of "i + 1" "a(i := a (i + 1))"] show ?case
    by (subst shift_down.simps) auto
qed

lemma shift_up_apply: "shift_up a n k = (if 0 < k \<and> k \<le> n then a (k - 1) else a k)"
proof (induction n arbitrary: a k)
  case (Suc n)
  show ?case by (cases k) (auto simp: Suc.IH Suc_le_eq not_less dest: le_antisym)
qed simp

lemma find_pid_spec:
  "i \<le> n \<Longrightarrow> find_pid pid_of a pid i n =
     (case find (\<lambda>k. pid_of (a k) = pid) [i..<n] of None \<Rightarrow> n | Some k \<Rightarrow> k)"
  by (induction pid_of a pid i n rule: find_pid.induct)
     (subst find_pid.simps, auto simp: upt_conv_Cons)

lemma find_pid_bounds:
  "i \<le> n \<Longrightarrow> i \<le> find_pid pid_of a pid i n \<and> find_pid pid_of a pid i n \<le> n"
  by (induction pid_of a pid i n rule: find_pid.induct) (subst (1 2) find_pid.simps, auto)

lemma find_pid_hit:
  "find_pid pid_of a pid i n < n \<Longrightarrow> pid_of (a (find_pid pid_of a pid i n)) = pid"
  by (induction pid_of a pid i n rule: find_pid.induct)
     (metis find_pid.simps)

lemma find_pid_before:
  "i \<le> k \<Longrightarrow> k < find_pid pid_of a pid i n \<Longrightarrow> pid_of (a k) \<noteq> pid"
proof (induction pid_of a pid i n rule: find_pid.induct)
  case (1 pid_of a pid i n)
  then show ?case
    using find_pid.simps [of pid_of a pid i n] by (cases "k = i"; auto split: if_splits)
qed

lemma qsize_ops [simp]:
  "qsize (enqueue q p) = (if qsize q < NPROC then qsize q + 1 else qsize q)"
  "qsize (dequeue q) = qsize q - 1"
  "qsize (insertqueue q p) = (if qsize q < NPROC then qsize q + 1 else qsize q)"
  by (simp_all add: enqueue_def dequeue_def insertqueue_def)

lemma timequantum_ops [simp]:
  "timequantum (enqueue q p) = timequantum q"
  "timequantum (dequeue q) = timequantum q"
  "timequantum (insertqueue q p) = timequantum q"
  "timequantum (removeq f q k) = timequantum q"
  by (simp_all add: enqueue_def dequeue_def insertqueue_def removeq_def Let_def)

lemma qlist_enqueue: "qsize q < NPROC \<Longrightarrow> qlist (enqueue q p) = qlist q @ [p]"
  by (simp add: qlist_def enqueue_def)

lemma qlist_enqueue_full: "\<not> qsize q < NPROC \<Longrightarrow> qlist (enqueue q p) = qlist q"
  by (simp add: enqueue_def)

lemma qlist_dequeue: "qlist (dequeue q) = tl (qlist q)"
proof (rule nth_equalityI)
  fix i assume "i < length (qlist (dequeue q))"
  then show "qlist (dequeue q) ! i = tl (qlist q) ! i"
    by (simp add: nth_tl) (auto simp: dequeue_def shift_down_apply)
qed simp

lemma qlist_insertqueue: "qsize q < NPROC \<Longrightarrow> qlist (insertqueue q p) = p # qlist q"
proof (rule nth_equalityI)
  fix i assume "qsize q < NPROC" "i < length (qlist (insertqueue q p))"
  then show "qlist (insertqueue q p) ! i = (p # qlist q) ! i"
    by (cases i) (auto simp: insertqueue_def shift_up_apply)
qed simp

lemma qlist_insertqueue_full: "\<not> qsize q < NPROC \<Longrightarrow> qlist (insertqueue q p) = qlist q"
  by (simp add: insertqueue_def)

text \<open>\<open>remove\<close> takes the first process with the given pid out of the queue, and nothing else.\<close>

fun remove_first :: "('a \<Rightarrow> bool) \<Rightarrow> 'a list \<Rightarrow> 'a list" where
  "remove_first P [] = []"
| "remove_first P (x # xs) = (if P x then xs else x # remove_first P xs)"

lemma remove_first_nth:
  "k < length xs \<Longrightarrow> P (xs ! k) \<Longrightarrow> (\<And>j. j < k \<Longrightarrow> \<not> P (xs ! j)) \<Longrightarrow>
     remove_first P xs = take k xs @ drop (Suc k) xs"
proof (induction xs arbitrary: k)
  case (Cons x xs)
  show ?case
  proof (cases k)
    case 0
    then show ?thesis using Cons.prems by simp
  next
    case (Suc m)
    have "\<not> P x" using Cons.prems(3) [of 0] Suc by simp
    moreover have "\<And>j. j < m \<Longrightarrow> \<not> P (xs ! j)"
      using Cons.prems(3) [of "Suc _"] Suc by simp
    ultimately show ?thesis using Cons Suc by simp
  qed
qed simp

lemma remove_first_id: "(\<And>x. x \<in> set xs \<Longrightarrow> \<not> P x) \<Longrightarrow> remove_first P xs = xs"
  by (induction xs) auto

lemma qlist_removeq: "qlist (removeq pid_of q pid) = remove_first (\<lambda>p. pid_of p = pid) (qlist q)"
proof -
  define k where "k = find_pid pid_of (qprocs q) pid 0 (qsize q)"
  show ?thesis
  proof (cases "k < qsize q")
    case True
    have hit: "pid_of (qlist q ! k) = pid" and before: "\<And>j. j < k \<Longrightarrow> pid_of (qlist q ! j) \<noteq> pid"
      using True find_pid_hit [of pid_of "qprocs q" pid 0 "qsize q"]
        find_pid_before [of 0 _ pid_of "qprocs q" pid "qsize q"]
      by (auto simp: k_def)
    have "remove_first (\<lambda>p. pid_of p = pid) (qlist q) = take k (qlist q) @ drop (Suc k) (qlist q)"
      using True hit before by (intro remove_first_nth) auto
    also have "\<dots> = qlist (removeq pid_of q pid)"
    proof (rule nth_equalityI)
      fix i assume "i < length (take k (qlist q) @ drop (Suc k) (qlist q))"
      then show "(take k (qlist q) @ drop (Suc k) (qlist q)) ! i = qlist (removeq pid_of q pid) ! i"
        using True by (auto simp: nth_append removeq_def k_def [symmetric] Let_def shift_down_apply)
    qed (use True in \<open>simp add: removeq_def k_def [symmetric] Let_def\<close>)
    finally show ?thesis by simp
  next
    case False
    then have k: "k = qsize q" using find_pid_bounds [of 0 "qsize q" pid_of "qprocs q" pid] by (simp add: k_def)
    have "\<And>p. p \<in> set (qlist q) \<Longrightarrow> pid_of p \<noteq> pid"
      using find_pid_before [of 0 _ pid_of "qprocs q" pid "qsize q"] k
      by (auto simp: k_def in_set_conv_nth) blast
    then show ?thesis using False
      by (simp add: removeq_def k_def [symmetric] remove_first_id Let_def)
  qed
qed

section \<open>The queue interface\<close>

text \<open>
  What the scheduler assumes of a queue: a bounded sequence with insertion at either end and
  removal at the front, the insertions being lost when the queue is full.
\<close>

locale sched_queue =
  fixes seq :: "'q \<Rightarrow> 'p list"
    and wf :: "'q \<Rightarrow> bool"
    and cap :: nat
    and enq :: "'q \<Rightarrow> 'p \<Rightarrow> 'q"
    and deq :: "'q \<Rightarrow> 'q"
    and front :: "'q \<Rightarrow> 'p \<Rightarrow> 'q"
  assumes wf_length: "wf q \<Longrightarrow> length (seq q) \<le> cap"
    and seq_enq: "length (seq q) < cap \<Longrightarrow> seq (enq q p) = seq q @ [p]"
    and enq_full: "\<not> length (seq q) < cap \<Longrightarrow> seq (enq q p) = seq q"
    and seq_deq: "seq (deq q) = tl (seq q)"
    and seq_front: "length (seq q) < cap \<Longrightarrow> seq (front q p) = p # seq q"
    and front_full: "\<not> length (seq q) < cap \<Longrightarrow> seq (front q p) = seq q"
    and wf_enq: "wf q \<Longrightarrow> wf (enq q p)"
    and wf_deq: "wf q \<Longrightarrow> wf (deq q)"
    and wf_front: "wf q \<Longrightarrow> wf (front q p)"
begin

lemma fits:
  assumes "distinct (seq q)" and "set (seq q) \<subseteq> S" and "finite S" and "card S \<le> cap"
    and "p \<in> S" and "p \<notin> set (seq q)"
  shows "length (seq q) < cap"
proof -
  have "set (seq q) \<subset> S" using assms(2,5,6) by auto
  then have "card (set (seq q)) < card S" using assms(3) by (intro psubset_card_mono)
  then show ?thesis using assms(1,4) by (simp add: distinct_card)
qed

lemma seq_foldl_enq:
  "length (seq q) + length ps \<le> cap \<Longrightarrow> seq (foldl enq q ps) = seq q @ ps"
  by (induction ps arbitrary: q) (auto simp: seq_enq)

lemma seq_deq_funpow: "seq ((deq ^^ n) q) = drop n (seq q)"
  by (induction n arbitrary: q) (auto simp: seq_deq drop_Suc tl_drop)

lemma fifo:
  assumes "seq q = []" and "length ps \<le> cap" and "n < length ps"
  shows "hd (seq ((deq ^^ n) (foldl enq q ps))) = ps ! n"
  using assms by (simp add: seq_deq_funpow seq_foldl_enq hd_drop_conv_nth)

lemma rotate:
  assumes "wf q" and "seq q \<noteq> []"
  shows "seq (enq (deq q) (hd (seq q))) = rotate1 (seq q)"
proof -
  have "length (seq (deq q)) < cap"
    using wf_length [OF assms(1)] assms(2) by (cases "seq q") (auto simp: seq_deq)
  then show ?thesis using assms(2) by (cases "seq q") (auto simp: seq_enq seq_deq)
qed

lemma mset_enq: "length (seq q) < cap \<Longrightarrow> mset (seq (enq q p)) = add_mset p (mset (seq q))"
  by (simp add: seq_enq)

lemma mset_deq: "seq q \<noteq> [] \<Longrightarrow> mset (seq q) = add_mset (hd (seq q)) (mset (seq (deq q)))"
  by (cases "seq q") (auto simp: seq_deq)

end

text \<open>A queue that can also drop the first element with a given key.\<close>

locale keyed_queue = sched_queue +
  fixes rem :: "('p \<Rightarrow> 'k) \<Rightarrow> 'q \<Rightarrow> 'k \<Rightarrow> 'q"
  assumes seq_rem: "seq (rem key q k) = remove_first (\<lambda>p. key p = k) (seq q)"
    and wf_rem: "wf q \<Longrightarrow> wf (rem key q k)"
begin

lemma rem_unique:
  assumes "distinct (seq q)" and "p \<in> set (seq q)" and "inj_on key (set (seq q))"
  shows "seq (rem key q (key p)) = filter (\<lambda>x. x \<noteq> p) (seq q)"
proof -
  have "inj_on key (set xs) \<Longrightarrow> distinct xs \<Longrightarrow> p \<in> set xs \<Longrightarrow>
      remove_first (\<lambda>x. key x = key p) xs = filter (\<lambda>x. x \<noteq> p) xs" for xs
  proof (induction xs)
    case (Cons x xs)
    show ?case
    proof (cases "x = p")
      case True
      then have "p \<notin> set xs" using Cons.prems by auto
      then have "filter (\<lambda>x. x \<noteq> p) xs = xs" by (intro filter_True) auto
      then show ?thesis using True by simp
    next
      case False
      then have "key x \<noteq> key p" using Cons.prems by (auto simp: inj_on_def)
      then show ?thesis using False Cons by (auto simp: inj_on_def)
    qed
  qed simp
  then show ?thesis using assms by (simp add: seq_rem)
qed

end

interpretation mq: keyed_queue qlist qwf NPROC enqueue dequeue insertqueue removeq
proof unfold_locales
  fix q :: queue and f :: "nat \<Rightarrow> int" and k
  assume "qwf q"
  then show "qwf (removeq f q k)"
    by (auto simp: qwf_def removeq_def Let_def)
qed (auto simp: qwf_def qlist_enqueue qlist_enqueue_full qlist_dequeue qlist_insertqueue
      qlist_insertqueue_full qlist_removeq)

lemmas queue_laws = mq.seq_enq mq.seq_deq mq.seq_front mq.seq_rem mq.wf_enq mq.wf_deq mq.wf_front
  mq.wf_rem

text \<open>
  C28.  The array queue is a bounded list: \<open>enqueue\<close> appends and \<open>insertqueue\<close> puts in front, both
  doing nothing when all 64 places are taken; \<open>dequeue\<close> drops the head; \<open>remove\<close> drops exactly the
  process whose pid is given; a dequeue and an enqueue of the head rotate the queue; processes
  leave in the order in which they entered; and no operation makes the queue longer than the array.
\<close>

theorem queue_operations:
  assumes "qwf q"
  shows "qlist (enqueue q p) = (if length (qlist q) < 64 then qlist q @ [p] else qlist q)
    \<and> qlist (dequeue q) = tl (qlist q)
    \<and> qlist (insertqueue q p) = (if length (qlist q) < 64 then p # qlist q else qlist q)
    \<and> (distinct (qlist q) \<and> inj_on pid_of (set (qlist q)) \<and> p \<in> set (qlist q)
         \<longrightarrow> qlist (removeq pid_of q (pid_of p)) = filter (\<lambda>x. x \<noteq> p) (qlist q))
    \<and> (qlist q \<noteq> [] \<longrightarrow> qlist (enqueue (dequeue q) (hd (qlist q))) = rotate1 (qlist q))
    \<and> (qlist q = [] \<and> length ps \<le> 64 \<and> n < length ps
         \<longrightarrow> hd (qlist ((dequeue ^^ n) (foldl enqueue q ps))) = ps ! n)
    \<and> (\<forall>r\<in>{enqueue q p, dequeue q, insertqueue q p, removeq pid_of q k}. length (qlist r) \<le> 64)"
proof -
  have "length (qlist r) \<le> 64" if "r \<in> {enqueue q p, dequeue q, insertqueue q p, removeq pid_of q k}" for r
  proof -
    have "qwf r" using that assms mq.wf_enq mq.wf_deq mq.wf_front mq.wf_rem by blast
    then show ?thesis using mq.wf_length [of r] by (simp add: NPROC_def)
  qed
  then show ?thesis
    using mq.seq_enq [of q p] mq.enq_full [of q p] mq.seq_front [of q p] mq.front_full [of q p]
      mq.rem_unique [of q p pid_of] mq.rotate [OF assms] mq.fifo [of q ps n] mq.seq_deq [of q]
    unfolding NPROC_def by (simp del: length_qlist qsize_ops)
qed

lemma queue_operations_witness:
  "qlist (removeq int \<lparr>qprocs = (\<lambda>i. i + 3), qsize = 3, timequantum = 4\<rparr> (int 4)) = [3, 5]"
  using queue_operations [of "\<lparr>qprocs = (\<lambda>i. i + 3), qsize = 3, timequantum = 4\<rparr>" 4 int]
  by (simp add: qwf_def NPROC_def qlist_def upt_rec inj_on_def)

end
