(* ===== verification/Spinlock.thy ===== *)
theory Spinlock
  imports Prelude
begin

text \<open>
  \<open>spinlock.c\<close> (the same file in all three projects) and the per-CPU state of \<open>proc.h\<close> it
  works on.  The record \<open>cpu\<close> holds the fields of \<open>struct cpu\<close> that the code reads back
  (\<open>ncli\<close>, \<open>intena\<close>, \<open>proc\<close>), the position \<open>cpuid\<close> of the structure in \<open>cpus[]\<close>, and the
  processor's interrupt flag \<open>FL_IF\<close>.  \<open>lk->cpu\<close>, a pointer into \<open>cpus[]\<close> or 0, is an
  optional index.  The call-stack recording for debugging (\<open>lk->pcs\<close>) and the memory
  barriers are left out.
\<close>

section \<open>Per-CPU state and locks\<close>

record cpu =
  cpuid :: nat
  ncli :: int
  intena :: bool
  ifl :: bool
  cproc :: "nat option"

record spinlock =
  locked :: bool
  lkcpu :: "nat option"

definition initlock :: spinlock where
  "initlock = \<lparr>locked = False, lkcpu = None\<rparr>"

section \<open>Interrupt nesting\<close>

definition pushcli :: "cpu \<Rightarrow> cpu" where
  "pushcli c = (let eflags = ifl c; c = c\<lparr>ifl := False\<rparr>;
     c = (if ncli c = 0 then c\<lparr>intena := eflags\<rparr> else c)
     in c\<lparr>ncli := ncli c + 1\<rparr>)"

definition popcli :: "cpu \<Rightarrow> cpu kres" where
  "popcli c = (if ifl c then Panic ''popcli - interruptible''
     else (let c = c\<lparr>ncli := ncli c - 1\<rparr> in
       if ncli c < 0 then Panic ''popcli''
       else if ncli c = 0 \<and> intena c then Ok (c\<lparr>ifl := True\<rparr>)
       else Ok c))"

section \<open>Locks\<close>

definition holding :: "spinlock \<Rightarrow> cpu \<Rightarrow> (bool \<times> cpu) kres" where
  "holding lk c = (let c = pushcli c; r = (locked lk \<and> lkcpu lk = Some (cpuid c))
     in kbind (popcli c) (\<lambda>c. Ok (r, c)))"

text \<open>
  \<open>acquire\<close> in its three parts: up to the loop, one round of the loop (the atomic exchange gives the old
  value of \<open>locked\<close>), and the line behind the loop.  \<open>release\<close> likewise: up to \<open>lk->cpu = 0\<close>, the store to \<open>locked\<close>,
  and \<open>popcli\<close>.  The functions run the parts in a row; between them other CPUs may run, which the machine
  below shows.  A loop that cannot end because another CPU holds the lock is the result \<open>Spin\<close>.
\<close>

definition acquire_enter :: "spinlock \<Rightarrow> cpu \<Rightarrow> cpu kres" where
  "acquire_enter lk c = kbind (holding lk (pushcli c)) (\<lambda>(r, c). if r then Panic ''acquire'' else Ok c)"

definition xchg_locked :: "spinlock \<Rightarrow> bool \<times> spinlock" where
  "xchg_locked lk = (locked lk, lk\<lparr>locked := True\<rparr>)"

definition acquire_record :: "spinlock \<Rightarrow> cpu \<Rightarrow> spinlock" where
  "acquire_record lk c = lk\<lparr>lkcpu := Some (cpuid c)\<rparr>"

definition acquire :: "spinlock \<Rightarrow> cpu \<Rightarrow> (spinlock \<times> cpu) kres" where
  "acquire lk c = kbind (acquire_enter lk c) (\<lambda>c.
     let (old, lk) = xchg_locked lk in if old then Spin else Ok (acquire_record lk c, c))"

definition release_enter :: "spinlock \<Rightarrow> cpu \<Rightarrow> (spinlock \<times> cpu) kres" where
  "release_enter lk c = kbind (holding lk c) (\<lambda>(r, c). if \<not> r then Panic ''release'' else Ok (lk\<lparr>lkcpu := None\<rparr>, c))"

definition release_store :: "spinlock \<Rightarrow> spinlock" where
  "release_store lk = lk\<lparr>locked := False\<rparr>"

definition release :: "spinlock \<Rightarrow> cpu \<Rightarrow> (spinlock \<times> cpu) kres" where
  "release lk c = kbind (release_enter lk c) (\<lambda>(lk, c).
     let lk = release_store lk in kbind (popcli c) (\<lambda>c. Ok (lk, c)))"

section \<open>Computation rules\<close>

text \<open>
  \<open>cpu_wf\<close> is the state every CPU is in: the nesting depth is not negative, and interrupts
  are off inside a critical section.  On such a CPU the code of this file computes as the
  following rules say.
\<close>

definition cpu_wf :: "cpu \<Rightarrow> bool" where
  "cpu_wf c \<longleftrightarrow> 0 \<le> ncli c \<and> (0 < ncli c \<longrightarrow> \<not> ifl c)"

definition holds :: "spinlock \<Rightarrow> cpu \<Rightarrow> bool" where
  "holds lk c \<longleftrightarrow> locked lk \<and> lkcpu lk = Some (cpuid c)"

lemma pushcli_simps [simp]:
  "cpuid (pushcli c) = cpuid c" "ncli (pushcli c) = ncli c + 1" "\<not> ifl (pushcli c)"
  "cproc (pushcli c) = cproc c"
  "intena (pushcli c) = (if ncli c = 0 then ifl c else intena c)"
  by (simp_all add: pushcli_def Let_def)

lemma cpu_wf_pushcli [simp, intro]: "cpu_wf c \<Longrightarrow> cpu_wf (pushcli c)"
  by (simp add: cpu_wf_def)

lemma popcli_pushcli:
  assumes "cpu_wf c"
  shows "popcli (pushcli c) = Ok (if ncli c = 0 then c\<lparr>intena := ifl c\<rparr> else c)"
  using assms by (cases c) (auto simp: popcli_def pushcli_def Let_def cpu_wf_def)

lemma holding_eq:
  assumes "cpu_wf c"
  shows "holding lk c = Ok (holds lk c, if ncli c = 0 then c\<lparr>intena := ifl c\<rparr> else c)"
  using popcli_pushcli [OF assms] by (simp add: holding_def Let_def holds_def)

lemma holding_pushcli:
  "cpu_wf c \<Longrightarrow> holding lk (pushcli c) = Ok (holds lk c, pushcli c)"
  by (auto simp: holding_eq holds_def cpu_wf_def)

lemmas acquire_simps = acquire_def acquire_enter_def xchg_locked_def acquire_record_def
lemmas release_simps = release_def release_enter_def release_store_def

lemma acquire_free:
  assumes "cpu_wf c" and "\<not> locked lk"
  shows "acquire lk c = Ok (lk\<lparr>locked := True, lkcpu := Some (cpuid c)\<rparr>, pushcli c)"
  using assms by (simp add: acquire_simps holding_pushcli holds_def)

lemma acquire_held: "cpu_wf c \<Longrightarrow> holds lk c \<Longrightarrow> acquire lk c = Panic ''acquire''"
  by (simp add: acquire_simps holding_pushcli)

lemma acquire_other:
  "cpu_wf c \<Longrightarrow> locked lk \<Longrightarrow> lkcpu lk \<noteq> Some (cpuid c) \<Longrightarrow> acquire lk c = Spin"
  by (simp add: acquire_simps holding_pushcli holds_def)

lemma popcli_in:
  assumes "0 < ncli c" and "\<not> ifl c"
  shows "popcli c = Ok (c\<lparr>ncli := ncli c - 1, ifl := (ncli c = 1 \<and> intena c)\<rparr>)"
  using assms by (cases c) (auto simp: popcli_def Let_def)

lemma release_held:
  assumes "holds lk c" and "0 < ncli c" and "\<not> ifl c"
  shows "release lk c = Ok (lk\<lparr>lkcpu := None, locked := False\<rparr>,
    c\<lparr>ncli := ncli c - 1, ifl := (ncli c = 1 \<and> intena c)\<rparr>)"
  using assms by (simp add: release_simps holding_eq cpu_wf_def popcli_in)

lemma release_not_held: "cpu_wf c \<Longrightarrow> \<not> holds lk c \<Longrightarrow> release lk c = Panic ''release''"
  by (simp add: release_simps holding_eq)

lemmas lock_rules = acquire_free acquire_held acquire_other release_held release_not_held

text \<open>
  A critical section: what is left of the CPU after one \<open>acquire\<close> and the matching
  \<open>release\<close> is \<open>touch c\<close>, the CPU with at most its scratch field \<open>intena\<close> rewritten.
\<close>

definition touch :: "cpu \<Rightarrow> cpu" where
  "touch c = (if ncli c = 0 then c\<lparr>intena := ifl c\<rparr> else c)"

lemma touch_simps [simp]:
  "cpuid (touch c) = cpuid c" "ncli (touch c) = ncli c" "ifl (touch c) = ifl c"
  "cproc (touch c) = cproc c" "touch (touch c) = touch c" "cpu_wf (touch c) = cpu_wf c"
  by (simp_all add: touch_def cpu_wf_def)

lemma popcli_pushcli_touch: "cpu_wf c \<Longrightarrow> popcli (pushcli c) = Ok (touch c)"
  by (simp add: popcli_pushcli touch_def)

lemma release_pushcli:
  assumes "cpu_wf c" and "locked lk" and "lkcpu lk = Some (cpuid c)"
  shows "release lk (pushcli c) = Ok (lk\<lparr>lkcpu := None, locked := False\<rparr>, touch c)"
  using assms by (simp add: release_simps holding_pushcli holds_def popcli_pushcli_touch)

lemma pushcli_cproc [simp]: "pushcli (c\<lparr>cproc := p\<rparr>) = (pushcli c)\<lparr>cproc := p\<rparr>"
  by (simp add: pushcli_def Let_def)

lemma cpu_wf_cproc [simp]: "cpu_wf (c\<lparr>cproc := p\<rparr>) = cpu_wf c"
  by (simp add: cpu_wf_def)

text \<open>
  A free lock is the lock \<open>initlock\<close> leaves, a lock held by the CPU \<open>c\<close> is \<open>taken c\<close>; with
  these two rules the simplifier runs through critical sections, nested or not.
\<close>

definition taken :: "cpu \<Rightarrow> spinlock" where
  "taken c = \<lparr>locked = True, lkcpu = Some (cpuid c)\<rparr>"

lemma taken_pushcli [simp]: "taken (pushcli c) = taken c" "taken (touch c) = taken c"
  by (simp_all add: taken_def)

lemma taken_cproc [simp]: "taken (c\<lparr>cproc := p\<rparr>) = taken c"
  by (simp add: taken_def)

lemma holds_taken [simp]: "holds (taken c) c"
  by (simp add: holds_def taken_def)

lemma touch_pushcli [simp]: "cpu_wf c \<Longrightarrow> touch (pushcli c) = pushcli c"
  by (simp add: touch_def cpu_wf_def)

lemma acquire_initlock [simp]: "cpu_wf c \<Longrightarrow> acquire initlock c = Ok (taken c, pushcli c)"
  by (simp add: acquire_free initlock_def taken_def)

lemma release_taken [simp]: "cpu_wf c \<Longrightarrow> release (taken c) (pushcli c) = Ok (initlock, touch c)"
  by (simp add: release_pushcli taken_def initlock_def)

section \<open>Several CPUs and several locks\<close>

text \<open>
  The machine: a CPU and a lock per index.  \<open>phase\<close> is where a CPU is in \<open>acquire\<close> or \<open>release\<close>: in the loop,
  behind the exchange that ended it, behind \<open>lk->cpu = 0\<close>, behind the store; \<open>Outside\<close> is all other code.  A step is one
  part of an operation, so the CPUs take turns between them, and a CPU in the loop is a state of the machine.
  Two components only record what happened: \<open>owns_locks\<close> are the locks for which the exchange of the CPU gave 0 and
  that it has not stored 0 to since, that is its critical sections, and \<open>depth\<close> counts the calls of \<open>pushcli\<close> that
  other code made (as \<open>myproc\<close> and \<open>switchuvm\<close> do).  Outside every critical section the interrupt flag may change.
\<close>

datatype phase = Outside | Looping nat | Claimed nat | Freeing nat | Freed nat

record smp =
  cpus :: "nat \<Rightarrow> cpu"
  locks :: "nat \<Rightarrow> spinlock"
  phase :: "nat \<Rightarrow> phase"
  owns_locks :: "nat \<Rightarrow> nat set"
  depth :: "nat \<Rightarrow> nat"

definition smp_init :: smp where
  "smp_init = \<lparr>cpus = (\<lambda>i. \<lparr>cpuid = i, ncli = 0, intena = False, ifl = False, cproc = None\<rparr>),
     locks = (\<lambda>_. initlock), phase = (\<lambda>_. Outside), owns_locks = (\<lambda>_. {}), depth = (\<lambda>_. 0)\<rparr>"

inductive smp_step :: "smp \<Rightarrow> smp \<Rightarrow> bool" where
  smp_enter: "phase m i = Outside \<Longrightarrow> acquire_enter (locks m j) (cpus m i) = Ok c \<Longrightarrow>
     smp_step m (m\<lparr>cpus := (cpus m)(i := c), phase := (phase m)(i := Looping j)\<rparr>)"
| smp_again: "phase m i = Looping j \<Longrightarrow> xchg_locked (locks m j) = (True, lk) \<Longrightarrow>
     smp_step m (m\<lparr>locks := (locks m)(j := lk)\<rparr>)"
| smp_claim: "phase m i = Looping j \<Longrightarrow> xchg_locked (locks m j) = (False, lk) \<Longrightarrow>
     smp_step m (m\<lparr>locks := (locks m)(j := lk), phase := (phase m)(i := Claimed j),
       owns_locks := (owns_locks m)(i := insert j (owns_locks m i))\<rparr>)"
| smp_record: "phase m i = Claimed j \<Longrightarrow>
     smp_step m (m\<lparr>locks := (locks m)(j := acquire_record (locks m j) (cpus m i)), phase := (phase m)(i := Outside)\<rparr>)"
| smp_release: "phase m i = Outside \<Longrightarrow> release_enter (locks m j) (cpus m i) = Ok (lk, c) \<Longrightarrow>
     smp_step m (m\<lparr>cpus := (cpus m)(i := c), locks := (locks m)(j := lk), phase := (phase m)(i := Freeing j)\<rparr>)"
| smp_store: "phase m i = Freeing j \<Longrightarrow>
     smp_step m (m\<lparr>locks := (locks m)(j := release_store (locks m j)), phase := (phase m)(i := Freed j),
       owns_locks := (owns_locks m)(i := owns_locks m i - {j})\<rparr>)"
| smp_leave: "phase m i = Freed j \<Longrightarrow> popcli (cpus m i) = Ok c \<Longrightarrow>
     smp_step m (m\<lparr>cpus := (cpus m)(i := c), phase := (phase m)(i := Outside)\<rparr>)"
| smp_push: "phase m i = Outside \<Longrightarrow>
     smp_step m (m\<lparr>cpus := (cpus m)(i := pushcli (cpus m i)), depth := (depth m)(i := depth m i + 1)\<rparr>)"
| smp_pop: "phase m i = Outside \<Longrightarrow> 0 < depth m i \<Longrightarrow> popcli (cpus m i) = Ok c \<Longrightarrow>
     smp_step m (m\<lparr>cpus := (cpus m)(i := c), depth := (depth m)(i := depth m i - 1)\<rparr>)"
| smp_ifl: "phase m i = Outside \<Longrightarrow> ncli (cpus m i) = 0 \<Longrightarrow>
     smp_step m (m\<lparr>cpus := (cpus m)(i := (cpus m i)\<lparr>ifl := b\<rparr>)\<rparr>)"

inductive smp_reachable :: "smp \<Rightarrow> bool" where
  smp_start: "smp_reachable smp_init"
| smp_next: "smp_reachable m \<Longrightarrow> smp_step m m' \<Longrightarrow> smp_reachable m'"

text \<open>The calls of \<open>pushcli\<close> that \<open>acquire\<close> has made for a lock it does not own yet, or \<open>release\<close> has not undone yet.\<close>

definition pending :: "phase \<Rightarrow> nat" where
  "pending ph = (case ph of Looping _ \<Rightarrow> 1 | Freed _ \<Rightarrow> 1 | _ \<Rightarrow> 0)"

lemma pending_simps [simp]:
  "pending Outside = 0" "pending (Looping j) = 1" "pending (Claimed j) = 0" "pending (Freeing j) = 0" "pending (Freed j) = 1"
  by (simp_all add: pending_def)

fun phase_ok :: "phase \<Rightarrow> nat set \<Rightarrow> bool" where
  "phase_ok (Looping j) A \<longleftrightarrow> j \<notin> A"
| "phase_ok (Claimed j) A \<longleftrightarrow> j \<in> A"
| "phase_ok (Freeing j) A \<longleftrightarrow> j \<in> A"
| "phase_ok _ A \<longleftrightarrow> True"

lemma phase_okD: "phase_ok ph A \<Longrightarrow> j \<notin> A \<Longrightarrow> ph \<noteq> Claimed j \<and> ph \<noteq> Freeing j"
  by auto

definition smp_cpu_ok :: "smp \<Rightarrow> nat \<Rightarrow> bool" where
  "smp_cpu_ok m i \<longleftrightarrow> cpuid (cpus m i) = i \<and> finite (owns_locks m i)
     \<and> ncli (cpus m i) = int (card (owns_locks m i) + depth m i + pending (phase m i))
     \<and> (0 < ncli (cpus m i) \<longrightarrow> \<not> ifl (cpus m i))
     \<and> phase_ok (phase m i) (owns_locks m i)"

definition smp_lock_ok :: "smp \<Rightarrow> nat \<Rightarrow> bool" where
  "smp_lock_ok m j \<longleftrightarrow> (locked (locks m j) \<longleftrightarrow> (\<exists>i. j \<in> owns_locks m i))
     \<and> (\<forall>i k. j \<in> owns_locks m i \<longrightarrow> j \<in> owns_locks m k \<longrightarrow> i = k)
     \<and> (\<forall>i. lkcpu (locks m j) = Some i \<longleftrightarrow> j \<in> owns_locks m i \<and> phase m i \<noteq> Claimed j \<and> phase m i \<noteq> Freeing j)"

definition smp_wf :: "smp \<Rightarrow> bool" where
  "smp_wf m \<longleftrightarrow> (\<forall>i. smp_cpu_ok m i) \<and> (\<forall>j. smp_lock_ok m j)"

lemma smp_wf_init: "smp_wf smp_init"
  by (simp add: smp_wf_def smp_cpu_ok_def smp_lock_ok_def smp_init_def initlock_def)

lemma smp_wf_cpu_wf: "smp_wf m \<Longrightarrow> cpu_wf (cpus m i)"
  by (simp add: smp_wf_def smp_cpu_ok_def cpu_wf_def)

lemma smp_holds: "smp_wf m \<Longrightarrow> phase m i = Outside \<Longrightarrow> holds (locks m j) (cpus m i) \<longleftrightarrow> j \<in> owns_locks m i"
  by (auto simp: smp_wf_def smp_cpu_ok_def smp_lock_ok_def holds_def)

lemma acquire_enter_eq: "cpu_wf c \<Longrightarrow> acquire_enter lk c = (if holds lk c then Panic ''acquire'' else Ok (pushcli c))"
  by (simp add: acquire_enter_def holding_pushcli)

lemma release_enter_eq:
  "cpu_wf c \<Longrightarrow> release_enter lk c = (if holds lk c then Ok (lk\<lparr>lkcpu := None\<rparr>, touch c) else Panic ''release'')"
  by (simp add: release_enter_def holding_eq touch_def)

lemma popcli_eq:
  "cpu_wf c \<Longrightarrow> 0 < ncli c \<Longrightarrow> popcli c = Ok (c\<lparr>ncli := ncli c - 1, ifl := (ncli c = 1 \<and> intena c)\<rparr>)"
  by (simp add: popcli_in cpu_wf_def)

text \<open>A step of CPU \<open>i\<close> on lock \<open>j\<close> leaves the other CPUs and locks as they were.\<close>

lemma smp_wf_update:
  assumes "smp_wf m" and "smp_cpu_ok m' i" and "smp_lock_ok m' j"
    and "\<And>k. k \<noteq> i \<Longrightarrow> cpus m' k = cpus m k \<and> phase m' k = phase m k \<and> owns_locks m' k = owns_locks m k \<and> depth m' k = depth m k"
    and "\<And>l. l \<noteq> j \<Longrightarrow> locks m' l = locks m l"
    and "\<And>l. l \<noteq> j \<Longrightarrow> l \<in> owns_locks m' i \<longleftrightarrow> l \<in> owns_locks m i"
    and "\<And>l. l \<noteq> j \<Longrightarrow> phase m' i \<noteq> Claimed l \<and> phase m' i \<noteq> Freeing l \<and> phase m i \<noteq> Claimed l \<and> phase m i \<noteq> Freeing l"
  shows "smp_wf m'"
proof -
  have "smp_cpu_ok m' k" for k
  proof (cases "k = i")
    case False
    then show ?thesis using assms(1) assms(4) [OF False] by (simp add: smp_wf_def smp_cpu_ok_def)
  qed (use assms(2) in simp)
  moreover have "smp_lock_ok m' l" for l
  proof (cases "l = j")
    case False
    have o: "l \<in> owns_locks m' k \<longleftrightarrow> l \<in> owns_locks m k" for k using assms(4) assms(6) [OF False] by (cases "k = i") auto
    have "phase m' k \<noteq> Claimed l \<and> phase m' k \<noteq> Freeing l \<longleftrightarrow> phase m k \<noteq> Claimed l \<and> phase m k \<noteq> Freeing l" for k
      using assms(4) assms(7) [OF False] by (cases "k = i") auto
    then show ?thesis using assms(1) assms(5) [OF False] o by (simp add: smp_wf_def smp_lock_ok_def)
  qed (use assms(3) in simp)
  ultimately show ?thesis by (simp add: smp_wf_def)
qed

lemma smp_wf_step: "smp_step m m' \<Longrightarrow> smp_wf m \<Longrightarrow> smp_wf m'"
proof (induction rule: smp_step.induct)
  case (smp_enter m i j c)
  note wf = smp_enter.prems and c = smp_wf_cpu_wf [OF smp_enter.prems, of i]
  have e: "j \<notin> owns_locks m i" "c = pushcli (cpus m i)"
    using smp_enter.hyps acquire_enter_eq [OF c, of "locks m j"] smp_holds [OF wf smp_enter.hyps(1), of j] by (auto split: if_splits)
  show ?case
    by (rule smp_wf_update [OF wf, of _ i j])
      (use wf e smp_enter.hyps(1) in \<open>auto simp: smp_wf_def smp_cpu_ok_def smp_lock_ok_def\<close>)
next
  case (smp_again m i j lk)
  then have "lk = locks m j" by (auto simp: xchg_locked_def)
  then show ?case using smp_again.prems by simp
next
  case (smp_claim m i j lk)
  note wf = smp_claim.prems
  have e: "lk = (locks m j)\<lparr>locked := True\<rparr>" "\<not> locked (locks m j)" using smp_claim.hyps by (auto simp: xchg_locked_def)
  have n: "j \<notin> owns_locks m k" for k using wf e(2) by (auto simp: smp_wf_def smp_lock_ok_def)
  show ?case
    by (rule smp_wf_update [OF wf, of _ i j])
      (use wf e n smp_claim.hyps(1) in \<open>auto simp: smp_wf_def smp_cpu_ok_def smp_lock_ok_def\<close>)
next
  case (smp_record m i j)
  note wf = smp_record.prems
  have o: "j \<in> owns_locks m i" "cpuid (cpus m i) = i" using wf smp_record.hyps by (auto simp: smp_wf_def smp_cpu_ok_def dest!: spec [of _ i])
  have u: "j \<in> owns_locks m k \<longleftrightarrow> k = i" for k using wf o by (auto simp: smp_wf_def smp_lock_ok_def)
  have ph: "phase m k \<noteq> Claimed j \<and> phase m k \<noteq> Freeing j" if "k \<noteq> i" for k
    using wf u [of k] that phase_okD [of "phase m k" "owns_locks m k" j] by (simp add: smp_wf_def smp_cpu_ok_def)
  show ?case
    by (rule smp_wf_update [OF wf, of _ i j])
      (use wf o u ph smp_record.hyps in \<open>auto simp: smp_wf_def smp_cpu_ok_def smp_lock_ok_def acquire_record_def\<close>)
next
  case (smp_release m i j lk c)
  note wf = smp_release.prems and c = smp_wf_cpu_wf [OF smp_release.prems, of i]
  have e: "j \<in> owns_locks m i" "c = touch (cpus m i)" "lk = (locks m j)\<lparr>lkcpu := None\<rparr>"
    using smp_release.hyps release_enter_eq [OF c, of "locks m j"] smp_holds [OF wf smp_release.hyps(1), of j] by (auto split: if_splits)
  have u: "j \<in> owns_locks m k \<longleftrightarrow> k = i" for k using wf e(1) by (auto simp: smp_wf_def smp_lock_ok_def)
  show ?case
    by (rule smp_wf_update [OF wf, of _ i j])
      (use wf e u smp_release.hyps(1) in \<open>auto simp: smp_wf_def smp_cpu_ok_def smp_lock_ok_def\<close>)
next
  case (smp_store m i j)
  note wf = smp_store.prems
  have o: "j \<in> owns_locks m i" "finite (owns_locks m i)" using wf smp_store.hyps by (auto simp: smp_wf_def smp_cpu_ok_def dest!: spec [of _ i])
  have u: "j \<in> owns_locks m k \<longleftrightarrow> k = i" for k using wf o by (auto simp: smp_wf_def smp_lock_ok_def)
  have card: "card (owns_locks m i) = Suc (card (owns_locks m i - {j}))" using card.remove [OF o(2,1)] .
  show ?case
    by (rule smp_wf_update [OF wf, of _ i j])
      (use wf o u card smp_store.hyps in \<open>auto simp: smp_wf_def smp_cpu_ok_def smp_lock_ok_def release_store_def\<close>)
next
  case (smp_leave m i j c)
  note wf = smp_leave.prems and c = smp_wf_cpu_wf [OF smp_leave.prems, of i]
  have "0 < ncli (cpus m i)" using wf smp_leave.hyps(1) by (simp add: smp_wf_def smp_cpu_ok_def)
  then have e: "c = (cpus m i)\<lparr>ncli := ncli (cpus m i) - 1, ifl := (ncli (cpus m i) = 1 \<and> intena (cpus m i))\<rparr>"
    using smp_leave.hyps(2) popcli_eq [OF c] by simp
  show ?case
    by (rule smp_wf_update [OF wf, of _ i j])
      (use wf e smp_leave.hyps(1) in \<open>auto simp: smp_wf_def smp_cpu_ok_def smp_lock_ok_def\<close>)
next
  case (smp_push m i)
  note wf = smp_push.prems
  show ?case
    by (rule smp_wf_update [OF wf, of _ i 0])
      (use wf smp_push.hyps in \<open>auto simp: smp_wf_def smp_cpu_ok_def smp_lock_ok_def\<close>)
next
  case (smp_pop m i c)
  note wf = smp_pop.prems and c = smp_wf_cpu_wf [OF smp_pop.prems, of i]
  have "0 < ncli (cpus m i)" using wf smp_pop.hyps(2) by (simp add: smp_wf_def smp_cpu_ok_def)
  then have e: "c = (cpus m i)\<lparr>ncli := ncli (cpus m i) - 1, ifl := (ncli (cpus m i) = 1 \<and> intena (cpus m i))\<rparr>"
    using smp_pop.hyps(3) popcli_eq [OF c] by simp
  show ?case
    by (rule smp_wf_update [OF wf, of _ i 0])
      (use wf e smp_pop.hyps in \<open>auto simp: smp_wf_def smp_cpu_ok_def smp_lock_ok_def\<close>)
next
  case (smp_ifl m i b)
  note wf = smp_ifl.prems
  show ?case
    by (rule smp_wf_update [OF wf, of _ i 0])
      (use wf smp_ifl.hyps in \<open>auto simp: smp_wf_def smp_cpu_ok_def smp_lock_ok_def\<close>)
qed

lemma smp_reachable_wf: "smp_reachable m \<Longrightarrow> smp_wf m"
  by (induction rule: smp_reachable.induct) (auto intro: smp_wf_init smp_wf_step)

section \<open>Correctness of the locks\<close>

text \<open>
  C16.  Mutual exclusion and interrupt nesting, for any number of CPUs and locks and in every reachable state, the states
  in the middle of \<open>acquire\<close> and \<open>release\<close> included: no two CPUs are past the loop of \<open>acquire\<close> for the same
  lock, and \<open>locked\<close> is set exactly while one is; the nesting count of a CPU is the number of locks it owns, and of
  its other calls of \<open>pushcli\<close>, and one more while it spins in \<open>acquire\<close> and before the \<open>popcli\<close> of \<open>release\<close>; while the
  count is positive, interrupts are off.  \<open>acquire\<close> panics exactly for a lock the CPU owns already and \<open>release\<close> exactly for one it
  does not own, and the \<open>popcli\<close> of \<open>release\<close> never panics.
\<close>

theorem lock_discipline:
  assumes "smp_reachable m"
  shows "(locked (locks m j) \<longleftrightarrow> (\<exists>i. j \<in> owns_locks m i)) \<and> (j \<in> owns_locks m i \<and> j \<in> owns_locks m k \<longrightarrow> i = k)
    \<and> ncli (cpus m i) = int (card (owns_locks m i) + depth m i + pending (phase m i))
    \<and> (0 < ncli (cpus m i) \<longrightarrow> \<not> ifl (cpus m i))
    \<and> (phase m i = Outside \<longrightarrow>
         acquire_enter (locks m j) (cpus m i) = (if j \<in> owns_locks m i then Panic ''acquire'' else Ok (pushcli (cpus m i)))
         \<and> release_enter (locks m j) (cpus m i) =
             (if j \<in> owns_locks m i then Ok ((locks m j)\<lparr>lkcpu := None\<rparr>, cpus m i) else Panic ''release''))
    \<and> (phase m i = Freed j \<or> 0 < depth m i \<longrightarrow>
         popcli (cpus m i) = Ok ((cpus m i)\<lparr>ncli := ncli (cpus m i) - 1, ifl := (ncli (cpus m i) = 1 \<and> intena (cpus m i))\<rparr>))"
proof -
  note wf = smp_reachable_wf [OF assms] and c = smp_wf_cpu_wf [OF smp_reachable_wf [OF assms], of i]
  have i: "ncli (cpus m i) = int (card (owns_locks m i) + depth m i + pending (phase m i))" "finite (owns_locks m i)"
    using wf by (simp_all add: smp_wf_def smp_cpu_ok_def)
  have "touch (cpus m i) = cpus m i" if "j \<in> owns_locks m i"
  proof -
    have "0 < card (owns_locks m i)" using i(2) that by (auto simp: card_gt_0_iff)
    then show ?thesis using i(1) by (simp add: touch_def)
  qed
  then have e: "phase m i = Outside \<longrightarrow>
       acquire_enter (locks m j) (cpus m i) = (if j \<in> owns_locks m i then Panic ''acquire'' else Ok (pushcli (cpus m i)))
       \<and> release_enter (locks m j) (cpus m i) = (if j \<in> owns_locks m i then Ok ((locks m j)\<lparr>lkcpu := None\<rparr>, cpus m i) else Panic ''release'')"
    using smp_holds [OF wf, of i j] by (simp add: acquire_enter_eq [OF c] release_enter_eq [OF c])
  have pop: "phase m i = Freed j \<or> 0 < depth m i \<longrightarrow>
       popcli (cpus m i) = Ok ((cpus m i)\<lparr>ncli := ncli (cpus m i) - 1, ifl := (ncli (cpus m i) = 1 \<and> intena (cpus m i))\<rparr>)"
    using i(1) popcli_eq [OF c] by auto
  have l: "locked (locks m j) \<longleftrightarrow> (\<exists>i. j \<in> owns_locks m i)" "j \<in> owns_locks m i \<and> j \<in> owns_locks m k \<longrightarrow> i = k"
    using wf by (auto simp: smp_wf_def smp_lock_ok_def)
  have "0 < ncli (cpus m i) \<longrightarrow> \<not> ifl (cpus m i)" using wf by (simp add: smp_wf_def smp_cpu_ok_def)
  then show ?thesis using l i(1) e pop by blast
qed

text \<open>The concrete machine of the witness: CPU 0 has taken lock 5, and CPU 1 spins for it.\<close>

definition smp_spin :: smp where
  "smp_spin = smp_init\<lparr>cpus := (cpus smp_init)(0 := pushcli (cpus smp_init 0), 1 := pushcli (cpus smp_init 1)),
     locks := (locks smp_init)(5 := \<lparr>locked = True, lkcpu = Some 0\<rparr>),
     phase := (\<lambda>_. Outside)(1 := Looping 5), owns_locks := (\<lambda>_. {})(0 := {5})\<rparr>"

lemma smp_spin_reachable: "smp_reachable smp_spin"
proof -
  let ?c = "\<lambda>i. pushcli (cpus smp_init i)"
  have w: "cpu_wf (cpus smp_init i)" "\<not> holds initlock (cpus smp_init i)" for i
    by (simp_all add: smp_init_def cpu_wf_def holds_def initlock_def)
  have e: "acquire_enter lk (cpus smp_init i) = Ok (?c i)" if "\<not> holds lk (cpus smp_init i)" for i lk
    using acquire_enter_eq [OF w(1)] that by simp
  have i: "phase smp_init = (\<lambda>_. Outside)" "locks smp_init = (\<lambda>_. initlock)" "owns_locks smp_init = (\<lambda>_. {})"
    by (simp_all add: smp_init_def)
  let ?m1 = "smp_init\<lparr>cpus := (cpus smp_init)(0 := ?c 0), phase := (phase smp_init)(0 := Looping 5)\<rparr>"
  have 1: "smp_reachable ?m1"
    using w(2) by (intro smp_next [OF smp_start smp_enter] e) (simp_all add: i)
  let ?m2 = "?m1\<lparr>locks := (locks ?m1)(5 := initlock\<lparr>locked := True\<rparr>), phase := (phase ?m1)(0 := Claimed 5),
       owns_locks := (owns_locks ?m1)(0 := insert 5 (owns_locks ?m1 0))\<rparr>"
  have 2: "smp_reachable ?m2"
    by (rule smp_next [OF 1 smp_claim]) (simp_all add: i xchg_locked_def initlock_def)
  let ?m3 = "?m2\<lparr>locks := (locks ?m2)(5 := acquire_record (locks ?m2 5) (cpus ?m2 0)), phase := (phase ?m2)(0 := Outside)\<rparr>"
  have 3: "smp_reachable ?m3" by (rule smp_next [OF 2 smp_record]) simp
  have m3: "cpus ?m3 1 = cpus smp_init 1" "\<not> holds (locks ?m3 5) (cpus smp_init 1)"
    by (simp_all add: smp_init_def holds_def acquire_record_def)
  let ?m4 = "?m3\<lparr>cpus := (cpus ?m3)(1 := ?c 1), phase := (phase ?m3)(1 := Looping 5)\<rparr>"
  have 4: "smp_reachable ?m4"
    by (rule smp_next [OF 3 smp_enter]) (use e [OF m3(2)] m3(1) in \<open>simp_all add: i\<close>)
  have "?m4 = smp_spin"
    by (simp add: smp_spin_def i acquire_record_def initlock_def fun_upd_idem) (simp add: smp_init_def)
  then show ?thesis using 4 by simp
qed

lemma lock_discipline_witness:
  "5 \<in> owns_locks smp_spin 0 \<and> ncli (cpus smp_spin 0) = 1 \<and> \<not> ifl (cpus smp_spin 0)
   \<and> phase smp_spin 1 = Looping 5 \<and> 5 \<notin> owns_locks smp_spin 1 \<and> ncli (cpus smp_spin 1) = 1
   \<and> acquire_enter (locks smp_spin 5) (cpus smp_spin 0) = Panic ''acquire''"
proof -
  have s: "5 \<in> owns_locks smp_spin 0" "phase smp_spin 0 = Outside" "phase smp_spin 1 = Looping 5" "owns_locks smp_spin 0 = {5}"
    "owns_locks smp_spin 1 = {}" "depth smp_spin i = 0" for i
    by (simp_all add: smp_spin_def smp_init_def)
  show ?thesis using lock_discipline [OF smp_spin_reachable, of 5 0 1] lock_discipline [OF smp_spin_reachable, of 5 1 0] s by simp
qed

end
