(* ===== verification/Kalloc.thy ===== *)
theory Kalloc
  imports Spinlock "HOL-Library.Multiset"
begin

text \<open>
  The machine every kernel runs on, and \<open>kalloc.c\<close>, the physical page allocator (the same
  file in all three projects).  The record \<open>machine\<close> holds the CPU that executes the code,
  the byte-addressed memory \<open>ram\<close>, indexed by kernel virtual addresses, and the allocator's
  structure \<open>kmem\<close>; the kernels of the projects extend it with their tables.  The free list is
  threaded through the free pages themselves, as in the code: \<open>r->next\<close> is the 32-bit word at
  the start of the page.  \<open>kend\<close> is the linker symbol \<open>end\<close>, fixed by \<open>kernel.ld\<close>.
\<close>

section \<open>Memory\<close>

type_synonym memory = "u32 \<Rightarrow> byte"

definition load32 :: "memory \<Rightarrow> u32 \<Rightarrow> u32" where
  "load32 m a = le_word (m a) (m (a + 1)) (m (a + 2)) (m (a + 3))"

definition store32 :: "memory \<Rightarrow> u32 \<Rightarrow> u32 \<Rightarrow> memory" where
  "store32 m a v = m(a := word_byte 0 v, a + 1 := word_byte (Suc 0) v,
     a + 2 := word_byte 2 v, a + 3 := word_byte 3 v)"

definition memset :: "memory \<Rightarrow> u32 \<Rightarrow> byte \<Rightarrow> u32 \<Rightarrow> memory" where
  "memset m dst c n = (\<lambda>a. if a - dst < n then c else m a)"

lemma load32_store32 [simp]: "load32 (store32 m a v) a = v"
  by (simp add: load32_def store32_def)

text \<open>The \<open>n\<close> bytes from \<open>a\<close> on, as a set of addresses.\<close>

definition region :: "u32 \<Rightarrow> u32 \<Rightarrow> u32 set" where
  "region a n = {x. x - a < n}"

lemma store32_other:
  "x \<notin> region a 4 \<Longrightarrow> store32 m a v x = m x"
  by (auto simp: store32_def region_def)

lemma memset_other: "x \<notin> region a n \<Longrightarrow> memset m a c n x = m x"
  by (simp add: memset_def region_def)

lemma load32_cong:
  "(\<And>x. x \<in> region a 4 \<Longrightarrow> m x = m' x) \<Longrightarrow> load32 m a = load32 m' a"
  by (simp add: load32_def region_def)

section \<open>The machine\<close>

record machine =
  cpu :: cpu
  ram :: memory
  kmem_lock :: spinlock
  kmem_use_lock :: bool
  kmem_freelist :: u32
  kend :: u32

definition PGSIZE :: u32 where "PGSIZE = 4096"
definition KERNBASE :: u32 where "KERNBASE = 0x80000000"
definition PHYSTOP :: u32 where "PHYSTOP = 0xE000000"

definition V2P :: "u32 \<Rightarrow> u32" where "V2P a = a - KERNBASE"
definition P2V :: "u32 \<Rightarrow> u32" where "P2V a = a + KERNBASE"
definition PGROUNDUP :: "u32 \<Rightarrow> u32" where "PGROUNDUP sz = (sz + PGSIZE - 1) AND NOT (PGSIZE - 1)"
definition PGROUNDDOWN :: "u32 \<Rightarrow> u32" where "PGROUNDDOWN a = a AND NOT (PGSIZE - 1)"

section \<open>The allocator\<close>

definition acquire_kmem :: "'a machine_scheme \<Rightarrow> 'a machine_scheme kres" where
  "acquire_kmem s =
     kbind (acquire (kmem_lock s) (cpu s)) (\<lambda>(lk, c). Ok (s\<lparr>kmem_lock := lk, cpu := c\<rparr>))"

definition release_kmem :: "'a machine_scheme \<Rightarrow> 'a machine_scheme kres" where
  "release_kmem s =
     kbind (release (kmem_lock s) (cpu s)) (\<lambda>(lk, c). Ok (s\<lparr>kmem_lock := lk, cpu := c\<rparr>))"

definition kfree :: "u32 \<Rightarrow> 'a machine_scheme \<Rightarrow> 'a machine_scheme kres" where
  "kfree v s =
     (if v mod PGSIZE \<noteq> 0 \<or> v < kend s \<or> PHYSTOP \<le> V2P v then Panic ''kfree''
      else let s = s\<lparr>ram := memset (ram s) v 1 PGSIZE\<rparr> in
        kbind (if kmem_use_lock s then acquire_kmem s else Ok s) (\<lambda>s.
        let s = s\<lparr>ram := store32 (ram s) v (kmem_freelist s)\<rparr>;
            s = s\<lparr>kmem_freelist := v\<rparr>
        in if kmem_use_lock s then release_kmem s else Ok s))"

definition kalloc :: "'a machine_scheme \<Rightarrow> (u32 \<times> 'a machine_scheme) kres" where
  "kalloc s =
     kbind (if kmem_use_lock s then acquire_kmem s else Ok s) (\<lambda>s.
     let r = kmem_freelist s;
         s = (if r \<noteq> 0 then s\<lparr>kmem_freelist := load32 (ram s) r\<rparr> else s)
     in kbind (if kmem_use_lock s then release_kmem s else Ok s) (\<lambda>s. Ok (r, s)))"

lemma kfree_Ok_range:
  assumes "kfree v s = Ok s'"
  shows "v mod PGSIZE = 0 \<and> kend s \<le> v \<and> V2P v < PHYSTOP"
  using assms by (auto simp: kfree_def split: if_splits)

function freerange_from :: "u32 \<Rightarrow> u32 \<Rightarrow> 'a machine_scheme \<Rightarrow> 'a machine_scheme kres" where
  "freerange_from p vend s =
     (if p + PGSIZE \<le> vend then kbind (kfree p s) (\<lambda>s. freerange_from (p + PGSIZE) vend s)
      else Ok s)"
  by pat_completeness auto
termination
proof (relation "measure (\<lambda>(p, vend, s). unat (KERNBASE + PHYSTOP + PGSIZE - p))")
  fix p vend :: u32 and s s' :: "'a machine_scheme"
  assume "kfree p s = Ok s'"
  then have "p - KERNBASE < PHYSTOP"
    by (auto dest: kfree_Ok_range simp: V2P_def)
  then have "unat (KERNBASE + PHYSTOP + PGSIZE - (p + PGSIZE)) < unat (KERNBASE + PHYSTOP + PGSIZE - p)"
    by (simp add: KERNBASE_def PHYSTOP_def PGSIZE_def) unat_arith
  then show "((p + PGSIZE, vend, s'), p, vend, s)
      \<in> measure (\<lambda>(p, vend, s). unat (KERNBASE + PHYSTOP + PGSIZE - p))"
    by simp
qed simp

declare freerange_from.simps [simp del]

definition freerange :: "u32 \<Rightarrow> u32 \<Rightarrow> 'a machine_scheme \<Rightarrow> 'a machine_scheme kres" where
  "freerange vstart vend s = freerange_from (PGROUNDUP vstart) vend s"

definition kinit1 :: "u32 \<Rightarrow> u32 \<Rightarrow> 'a machine_scheme \<Rightarrow> 'a machine_scheme kres" where
  "kinit1 vstart vend s =
     (let s = s\<lparr>kmem_lock := initlock\<rparr>; s = s\<lparr>kmem_use_lock := False\<rparr>
      in freerange vstart vend s)"

definition kinit2 :: "u32 \<Rightarrow> u32 \<Rightarrow> 'a machine_scheme \<Rightarrow> 'a machine_scheme kres" where
  "kinit2 vstart vend s =
     kbind (freerange vstart vend s) (\<lambda>s. Ok (s\<lparr>kmem_use_lock := True\<rparr>))"

section \<open>Pages\<close>

definition page_ok :: "'a machine_scheme \<Rightarrow> u32 \<Rightarrow> bool" where
  "page_ok s v \<longleftrightarrow> v mod PGSIZE = 0 \<and> kend s \<le> v \<and> V2P v < PHYSTOP"

lemma page_ok_nonzero: "page_ok s v \<Longrightarrow> v \<noteq> 0"
  by (auto simp: page_ok_def V2P_def KERNBASE_def PHYSTOP_def)

lemma page_ok_cong [simp]:
  "page_ok (s\<lparr>ram := m\<rparr>) v = page_ok s v" "page_ok (s\<lparr>cpu := c\<rparr>) v = page_ok s v"
  "page_ok (s\<lparr>kmem_lock := l\<rparr>) v = page_ok s v" "page_ok (s\<lparr>kmem_freelist := f\<rparr>) v = page_ok s v"
  "page_ok (s\<lparr>kmem_use_lock := b\<rparr>) v = page_ok s v"
  by (simp_all add: page_ok_def)

lemma page_unat: "p mod PGSIZE = 0 \<Longrightarrow> unat p mod 4096 = 0"
proof -
  assume "p mod PGSIZE = 0"
  then have "unat (p mod 4096) = 0" by (simp add: PGSIZE_def)
  then show ?thesis by (simp add: unat_mod_distrib)
qed

lemma unat_page_region:
  assumes "p mod PGSIZE = 0" and "x \<in> region p PGSIZE"
  shows "unat x div 4096 = unat p div 4096"
proof -
  define d where "d = x - p"
  have d: "unat d < 4096" using assms(2)
    by (simp add: region_def d_def PGSIZE_def word_less_nat_alt)
  have p: "unat p mod 4096 = 0" using assms(1) by (rule page_unat)
  then obtain k where k: "unat p = 4096 * k" by (auto simp: mod_eq_0_iff_dvd dvd_def)
  have "unat p < 4294967296" using unsigned_less [of p] by simp
  then have "k < 1048576" using k by linarith
  then have "4096 * k + unat d < 4294967296" using d by linarith
  then have "unat p + unat d < 4294967296" using k by simp
  then have "unat (p + d) = unat p + unat d" by (simp add: unat_word_ariths)
  then show ?thesis using k d by (simp add: d_def)
qed

lemma pages_disjoint:
  assumes "p mod PGSIZE = 0" and "q mod PGSIZE = 0" and "x \<in> region p PGSIZE" and "x \<in> region q PGSIZE"
  shows "p = q"
proof -
  have "unat p mod 4096 = 0" "unat q mod 4096 = 0" using assms(1,2) by (simp_all add: page_unat)
  moreover have "unat p div 4096 = unat q div 4096"
    using assms by (metis unat_page_region)
  ultimately have "unat p = unat q" by (metis mult_div_mod_eq)
  then show ?thesis by (simp add: word_unat_eq_iff)
qed

lemma region4_page: "x \<in> region p 4 \<Longrightarrow> x \<in> region p PGSIZE"
  by (simp add: region_def PGSIZE_def) unat_arith

section \<open>The free list\<close>

fun fl :: "memory \<Rightarrow> u32 \<Rightarrow> u32 list \<Rightarrow> bool" where
  "fl m p [] = (p = 0)"
| "fl m p (x # xs) = (p = x \<and> x \<noteq> 0 \<and> fl m (load32 m x) xs)"

lemma fl_cong: "(\<And>x. x \<in> set xs \<Longrightarrow> load32 m x = load32 m' x) \<Longrightarrow> fl m p xs = fl m' p xs"
  by (induction xs arbitrary: p) auto

definition kmem_ready :: "'a machine_scheme \<Rightarrow> bool" where
  "kmem_ready s \<longleftrightarrow> cpu_wf (cpu s) \<and> kmem_lock s = initlock"

definition kalloc_inv :: "'a machine_scheme \<Rightarrow> u32 list \<Rightarrow> bool" where
  "kalloc_inv s xs \<longleftrightarrow> kmem_ready s \<and> fl (ram s) (kmem_freelist s) xs \<and> distinct xs
     \<and> (\<forall>x\<in>set xs. page_ok s x)"

text \<open>The state the allocator's critical section leaves behind: one rule per operation.\<close>

lemma kfree_run:
  assumes "kmem_ready s" and "page_ok s v"
  shows "kfree v s = Ok (s\<lparr>ram := store32 (memset (ram s) v 1 PGSIZE) v (kmem_freelist s),
      kmem_freelist := v, cpu := if kmem_use_lock s then touch (cpu s) else cpu s\<rparr>)"
  using assms
  by (cases s) (auto simp: kfree_def kmem_ready_def page_ok_def acquire_kmem_def release_kmem_def Let_def)

lemma kfree_bad: "\<not> page_ok s v \<Longrightarrow> kfree v s = Panic ''kfree''"
  by (simp add: kfree_def page_ok_def not_less not_le)

lemma kalloc_run:
  assumes "kmem_ready s"
  shows "kalloc s = Ok (kmem_freelist s,
      s\<lparr>kmem_freelist := if kmem_freelist s \<noteq> 0 then load32 (ram s) (kmem_freelist s) else 0,
        cpu := if kmem_use_lock s then touch (cpu s) else cpu s\<rparr>)"
  using assms
  by (cases s) (auto simp: kalloc_def kmem_ready_def acquire_kmem_def release_kmem_def Let_def)

lemma kfree_frame:
  assumes "a \<notin> region v PGSIZE"
  shows "store32 (memset m v 1 PGSIZE) v w a = m a"
proof -
  have "a \<notin> region v 4" using assms region4_page by blast
  then show ?thesis using assms by (simp add: store32_other memset_other)
qed

lemma load32_other_page:
  assumes "\<And>a. a \<notin> region v PGSIZE \<Longrightarrow> m' a = m a"
    and "x mod PGSIZE = 0" and "v mod PGSIZE = 0" and "x \<noteq> v"
  shows "load32 m' x = load32 m x"
  using assms by (intro load32_cong) (metis pages_disjoint region4_page)

lemma kfree_inv:
  assumes "kalloc_inv s xs" and "page_ok s v" and "v \<notin> set xs"
  shows "\<exists>s'. kfree v s = Ok s' \<and> kalloc_inv s' (v # xs) \<and> kend s' = kend s
    \<and> (\<forall>a. a \<notin> region v PGSIZE \<longrightarrow> ram s' a = ram s a)"
proof -
  let ?m = "store32 (memset (ram s) v 1 PGSIZE) v (kmem_freelist s)"
  have "load32 ?m x = load32 (ram s) x" if "x \<in> set xs" for x
    using assms that
    by (intro load32_other_page [where v = v]) (auto simp: kfree_frame kalloc_inv_def page_ok_def)
  then have "fl ?m (kmem_freelist s) xs"
    using assms(1) fl_cong [of xs ?m "ram s"] by (simp add: kalloc_inv_def)
  then show ?thesis
    using assms by (auto simp: kfree_run kalloc_inv_def kmem_ready_def page_ok_nonzero kfree_frame)
qed

lemma kalloc_inv_Cons:
  assumes "kalloc_inv s (x # xs)"
  shows "\<exists>s'. kalloc s = Ok (x, s') \<and> kalloc_inv s' xs \<and> ram s' = ram s \<and> kend s' = kend s"
  using assms by (auto simp: kalloc_inv_def kalloc_run kmem_ready_def)

lemma kalloc_inv_Nil:
  assumes "kalloc_inv s []"
  shows "\<exists>s'. kalloc s = Ok (0, s') \<and> kalloc_inv s' [] \<and> ram s' = ram s \<and> kend s' = kend s"
  using assms by (auto simp: kalloc_inv_def kalloc_run kmem_ready_def)

section \<open>What the allocator leaves alone\<close>

text \<open>
  Kernel code that only works on memory pages changes the contents of the memory, the head of
  the free list and the scratch field of the CPU, and leaves the locks as they were.
\<close>

definition kframe :: "'a machine_scheme \<Rightarrow> 'a machine_scheme \<Rightarrow> bool" where
  "kframe s s' \<longleftrightarrow> s' = s\<lparr>ram := ram s', cpu := cpu s', kmem_freelist := kmem_freelist s'\<rparr>
     \<and> (cpu s' = cpu s \<or> cpu s' = touch (cpu s))"

lemma kframe_refl [simp, intro]: "kframe s s"
  by (simp add: kframe_def)

lemma kframe_trans [trans]:
  assumes "kframe s s'" and "kframe s' s''"
  shows "kframe s s''"
proof -
  have "s'' = s'\<lparr>ram := ram s'', cpu := cpu s'', kmem_freelist := kmem_freelist s''\<rparr>"
    using assms(2) by (simp add: kframe_def)
  moreover obtain r c f where "s' = s\<lparr>ram := r, cpu := c, kmem_freelist := f\<rparr>"
    using assms(1) unfolding kframe_def by blast
  ultimately have "s'' = s\<lparr>ram := ram s'', cpu := cpu s'', kmem_freelist := kmem_freelist s''\<rparr>"
    by simp
  then show ?thesis using assms by (auto simp: kframe_def)
qed

lemma kframe_ready: "kframe s s' \<Longrightarrow> kmem_ready s \<Longrightarrow> kmem_ready s'"
  unfolding kframe_def kmem_ready_def
  by (metis machine.select_convs(3) machine.surjective machine.update_convs(1,2,5) touch_simps(6))

lemma kframe_ram [simp, intro]: "kframe s (s\<lparr>ram := r\<rparr>)"
  by (simp add: kframe_def)

lemma kalloc_frame: "kmem_ready s \<Longrightarrow> kalloc s = Ok (p, s') \<Longrightarrow> kframe s s'"
  by (auto simp: kalloc_run kframe_def)

lemma kfree_kframe: "kmem_ready s \<Longrightarrow> kfree v s = Ok s' \<Longrightarrow> kframe s s'"
  using kfree_bad [of s v] by (cases "page_ok s v") (auto simp: kfree_run kframe_def)

section \<open>The allocator's interface\<close>

text \<open>
  What the rest of the kernel relies on: a pool of free pages, given as the sequence in which
  they will be handed out.
\<close>

locale page_pool =
  fixes pool :: "'s \<Rightarrow> 'p list \<Rightarrow> bool"
    and page :: "'s \<Rightarrow> 'p \<Rightarrow> bool"
    and null :: 'p
    and alloc :: "'s \<Rightarrow> ('p \<times> 's) kres"
    and free :: "'p \<Rightarrow> 's \<Rightarrow> 's kres"
  assumes pool_distinct: "pool s xs \<Longrightarrow> distinct xs"
    and pool_page: "pool s xs \<Longrightarrow> x \<in> set xs \<Longrightarrow> page s x"
    and page_not_null: "page s x \<Longrightarrow> x \<noteq> null"
    and alloc_Cons: "pool s (x # xs) \<Longrightarrow> \<exists>s'. alloc s = Ok (x, s') \<and> pool s' xs \<and> page s' = page s"
    and alloc_Nil: "pool s [] \<Longrightarrow> \<exists>s'. alloc s = Ok (null, s') \<and> pool s' [] \<and> page s' = page s"
    and free_Cons: "pool s xs \<Longrightarrow> page s x \<Longrightarrow> x \<notin> set xs \<Longrightarrow>
       \<exists>s'. free x s = Ok s' \<and> pool s' (x # xs) \<and> page s' = page s"
begin

lemma alloc_total:
  assumes "pool s xs"
  shows "\<exists>p s'. alloc s = Ok (p, s') \<and> page s' = page s \<and>
    ((p = null \<and> xs = [] \<and> pool s' []) \<or> (page s p \<and> xs = p # tl xs \<and> pool s' (tl xs) \<and> p \<notin> set (tl xs)))"
proof (cases xs)
  case Nil
  then show ?thesis using alloc_Nil assms by fastforce
next
  case (Cons x ys)
  then obtain s' where "alloc s = Ok (x, s')" "pool s' ys" "page s' = page s"
    using alloc_Cons assms by blast
  moreover have "page s x" "x \<notin> set ys"
    using Cons assms pool_page pool_distinct by fastforce+
  ultimately show ?thesis using Cons by auto
qed

lemma alloc_twice:
  assumes "pool s xs" and "alloc s = Ok (p, s1)" and "p \<noteq> null"
    and "alloc s1 = Ok (q, s2)" and "q \<noteq> null"
  shows "p \<noteq> q"
  using alloc_total [OF assms(1)] assms alloc_total [of s1 "tl xs"]
  by (auto, metis list.set_intros(1))

lemma free_alloc:
  assumes "pool s xs" and "page s x" and "x \<notin> set xs"
  shows "\<exists>s' s''. free x s = Ok s' \<and> alloc s' = Ok (x, s'') \<and> pool s'' xs"
  using free_Cons [OF assms] alloc_Cons by blast

end

interpretation km: page_pool kalloc_inv page_ok 0 kalloc kfree
proof unfold_locales
  fix s :: "'a machine_scheme" and x xs
  have pg: "kend s' = kend s \<Longrightarrow> page_ok s' = page_ok s" for s' :: "'a machine_scheme"
    by (simp add: page_ok_def fun_eq_iff)
  show "kalloc_inv s (x # xs) \<Longrightarrow>
      \<exists>s'. kalloc s = Ok (x, s') \<and> kalloc_inv s' xs \<and> page_ok s' = page_ok s"
    using kalloc_inv_Cons [of s x xs] pg by blast
  show "kalloc_inv s [] \<Longrightarrow>
      \<exists>s'. kalloc s = Ok (0, s') \<and> kalloc_inv s' [] \<and> page_ok s' = page_ok s"
    using kalloc_inv_Nil [of s] pg by blast
  show "kalloc_inv s xs \<Longrightarrow> page_ok s x \<Longrightarrow> x \<notin> set xs \<Longrightarrow>
      \<exists>s'. kfree x s = Ok s' \<and> kalloc_inv s' (x # xs) \<and> page_ok s' = page_ok s"
    using kfree_inv [of s xs x] pg by blast
qed (auto simp: kalloc_inv_def page_ok_nonzero)

section \<open>Clients of the allocator\<close>

text \<open>
  The rest of the kernel as a client: it allocates, writes anything into the pages it holds,
  and frees pages it holds.  \<open>kclient s H\<close>: after some such steps from the state \<open>s0\<close> the
  machine is in the state \<open>s\<close> and the client holds the pages \<open>H\<close>.
\<close>

inductive kclient :: "'a machine_scheme \<Rightarrow> 'a machine_scheme \<Rightarrow> u32 list \<Rightarrow> bool"
  for s0 :: "'a machine_scheme" where
  kc_start: "kclient s0 s0 []"
| kc_alloc: "kclient s0 s H \<Longrightarrow> kalloc s = Ok (p, s') \<Longrightarrow>
     kclient s0 s' (if p = 0 then H else p # H)"
| kc_write: "kclient s0 s H \<Longrightarrow> v \<in> set H \<Longrightarrow> a \<in> region v PGSIZE \<Longrightarrow>
     kclient s0 (s\<lparr>ram := (ram s)(a := b)\<rparr>) H"
| kc_free: "kclient s0 s H \<Longrightarrow> v \<in> set H \<Longrightarrow> kfree v s = Ok s' \<Longrightarrow>
     kclient s0 s' (remove1 v H)"

lemma kalloc_inv_write:
  assumes "kalloc_inv s xs" and "page_ok s v" and "v \<notin> set xs" and "a \<in> region v PGSIZE"
  shows "kalloc_inv (s\<lparr>ram := (ram s)(a := b)\<rparr>) xs"
proof -
  have "load32 ((ram s)(a := b)) x = load32 (ram s) x" if "x \<in> set xs" for x
    using assms that
    by (intro load32_other_page [where v = v]) (auto simp: kalloc_inv_def page_ok_def)
  then have "fl ((ram s)(a := b)) (kmem_freelist s) xs"
    using assms(1) fl_cong [of xs "(ram s)(a := b)" "ram s"] by (simp add: kalloc_inv_def)
  then show ?thesis using assms(1) by (simp add: kalloc_inv_def kmem_ready_def)
qed

lemma held_page:
  assumes "kalloc_inv s0 ps" and eq: "mset H + mset xs = mset ps" and v: "v \<in> set H"
  shows "v \<notin> set xs \<and> page_ok s0 v"
proof -
  have eq': "mset (H @ xs) = mset ps" using eq by simp
  have "distinct (H @ xs)"
    using km.pool_distinct [OF assms(1)] mset_eq_imp_distinct_iff [OF eq'] by simp
  moreover have "v \<in> set ps" using mset_eq_setD [OF eq'] v by auto
  ultimately show ?thesis using v km.pool_page [OF assms(1)] by auto
qed

lemma kclient_inv:
  assumes "kclient s0 s H" and "kalloc_inv s0 ps"
  shows "\<exists>xs. kalloc_inv s xs \<and> mset H + mset xs = mset ps \<and> page_ok s = page_ok s0"
  using assms
proof (induction rule: kclient.induct)
  case kc_start
  then show ?case by auto
next
  case (kc_alloc s H p s')
  then obtain xs where xs: "kalloc_inv s xs" "mset H + mset xs = mset ps" "page_ok s = page_ok s0"
    by blast
  from km.alloc_total [OF xs(1)] kc_alloc.hyps(2)
  consider "p = 0" "xs = []" "kalloc_inv s' []" "page_ok s' = page_ok s"
    | "page_ok s p" "xs = p # tl xs" "kalloc_inv s' (tl xs)" "page_ok s' = page_ok s"
    by auto
  then show ?case
  proof cases
    case 1
    then show ?thesis using xs by (intro exI [of _ "[]"]) simp
  next
    case 2
    have "mset (p # H) + mset (tl xs) = mset H + mset (p # tl xs)" by simp
    also have "\<dots> = mset ps" using 2(2) xs(2) by simp
    finally show ?thesis
      using 2 xs(3) page_ok_nonzero [OF 2(1)] by (intro exI [of _ "tl xs"]) simp
  qed
next
  case (kc_write s H v a b)
  then obtain xs where xs: "kalloc_inv s xs" "mset H + mset xs = mset ps" "page_ok s = page_ok s0"
    by blast
  then have v: "v \<notin> set xs" "page_ok s v"
    using held_page [OF kc_write.prems xs(2) kc_write.hyps(2)] by simp_all
  then show ?case
    using kalloc_inv_write [OF xs(1) v(2,1) kc_write.hyps(3)] xs(2,3)
    by (intro exI [of _ xs]) (auto simp: fun_eq_iff)
next
  case (kc_free s H v s')
  then obtain xs where xs: "kalloc_inv s xs" "mset H + mset xs = mset ps" "page_ok s = page_ok s0"
    by blast
  then have v: "v \<notin> set xs" "page_ok s v"
    using held_page [OF kc_free.prems xs(2) kc_free.hyps(2)] by simp_all
  have "mset (remove1 v H) + mset (v # xs) = mset ps"
  proof -
    have "add_mset v (mset (remove1 v H)) = mset H" using kc_free.hyps(2) by simp
    then show ?thesis using xs(2) by (metis mset.simps(2) union_mset_add_mset_left union_mset_add_mset_right)
  qed
  then show ?case using km.free_Cons [OF xs(1) v(2,1)] kc_free.hyps(3) xs(3)
    by (intro exI [of _ "v # xs"]) auto
qed

section \<open>Filling the pool at boot\<close>

declare mod_0_imp_dvd [rule del]

lemma PGROUNDDOWN_take_bit: "PGROUNDDOWN a + take_bit 12 a = a"
proof -
  have m: "(PGSIZE - 1) = mask 12" by (simp add: PGSIZE_def mask_eq_exp_minus_1)
  have "PGROUNDDOWN a = push_bit 12 (drop_bit 12 a)"
    unfolding PGROUNDDOWN_def m by (rule bit_word_eqI) (auto simp: bit_simps)
  then show ?thesis by (simp add: bits_ident)
qed

lemma unat_PGROUNDDOWN: "unat (PGROUNDDOWN a) = unat a div 4096 * 4096"
proof -
  have t: "unat (take_bit 12 a) = unat a mod 4096"
    by (simp add: take_bit_eq_mod unat_mod_distrib)
  then have "take_bit 12 a \<le> a" by (simp add: word_le_nat_alt)
  moreover have "PGROUNDDOWN a = a - take_bit 12 a"
    using PGROUNDDOWN_take_bit [of a] by (simp add: eq_diff_eq)
  ultimately have "unat (PGROUNDDOWN a) = unat a - unat a mod 4096"
    using t by (simp add: unat_sub)
  then show ?thesis by (simp add: minus_mod_eq_div_mult)
qed

lemma PGROUNDDOWN_page [simp]: "PGROUNDDOWN a mod PGSIZE = 0"
proof -
  have "unat (PGROUNDDOWN a mod PGSIZE) = 0"
    by (simp add: unat_mod_distrib unat_PGROUNDDOWN PGSIZE_def)
  then show ?thesis by (simp add: unat_eq_0)
qed

lemma PGROUNDUP_eq: "PGROUNDUP a = PGROUNDDOWN (a + (PGSIZE - 1))"
  by (simp add: PGROUNDUP_def PGROUNDDOWN_def algebra_simps)

lemma unat_PGROUNDUP:
  "unat a < 4294963200 \<Longrightarrow> unat (PGROUNDUP a) = (unat a + 4095) div 4096 * 4096"
  by (simp add: PGROUNDUP_eq unat_PGROUNDDOWN PGSIZE_def unat_word_ariths)

text \<open>The pages \<open>freerange\<close> visits from the page address \<open>p\<close> on, \<open>n\<close> of them.\<close>

definition page_seq :: "u32 \<Rightarrow> nat \<Rightarrow> u32 list" where
  "page_seq p n = map (\<lambda>i. p + of_nat i * PGSIZE) [0..<n]"

lemma page_seq_Suc: "page_seq p (Suc n) = p # page_seq (p + PGSIZE) n"
  by (simp add: page_seq_def map_upt_Suc algebra_simps del: upt_Suc)

lemma page_seq_unat:
  assumes "unat p + n * 4096 < 4294967296" and "i < n"
  shows "unat (p + of_nat i * PGSIZE) = unat p + i * 4096"
proof -
  have "i * 4096 < n * 4096" using assms(2) by simp
  then have *: "unat p + i * 4096 < 4294967296" using assms(1) by linarith
  then have "i < 4294967296" by simp
  then have "unat (of_nat i :: u32) = i" by (simp add: unat_of_nat)
  then show ?thesis using * by (simp add: unat_word_ariths PGSIZE_def)
qed

lemma page_not_later:
  assumes "unat p + Suc n * 4096 < 4294967296"
  shows "p \<notin> set (page_seq (p + PGSIZE) n)"
proof
  assume "p \<in> set (page_seq (p + PGSIZE) n)"
  then obtain i where i: "i < n" "p = p + PGSIZE + of_nat i * PGSIZE" by (auto simp: page_seq_def)
  have "unat (p + of_nat (Suc i) * PGSIZE) = unat p + Suc i * 4096"
    using assms i(1) by (intro page_seq_unat) auto
  moreover have "p + of_nat (Suc i) * PGSIZE = p" using i(2) by (simp add: algebra_simps)
  ultimately show False by simp
qed

lemma kernel_page_ok:
  assumes "p mod PGSIZE = 0" and "kend s \<le> p" and "KERNBASE \<le> p" and "unat p < 2382364672"
  shows "page_ok s p"
proof -
  have "unat (p - KERNBASE) = unat p - 2147483648"
    using assms(3) by (subst unat_sub) (simp_all add: KERNBASE_def)
  then have "V2P p < PHYSTOP"
    using assms(4) by (simp add: V2P_def word_less_nat_alt PHYSTOP_def)
  with assms show ?thesis by (simp add: page_ok_def)
qed

lemma page_step:
  assumes "unat p < 2382364672"
  shows "unat (p + PGSIZE) = unat p + 4096"
  using assms by (simp add: PGSIZE_def unat_word_ariths)

lemma page_aligned_step: "p mod PGSIZE = 0 \<Longrightarrow> (p + PGSIZE) mod PGSIZE = 0"
proof -
  assume "p mod PGSIZE = 0"
  then have p: "unat p mod 4096 = 0" by (rule page_unat)
  have "unat ((p + PGSIZE) mod PGSIZE) = ((unat p + 4096) mod 4294967296) mod 4096"
    by (simp add: PGSIZE_def unat_mod_distrib unat_word_ariths)
  also have "\<dots> = (unat p + 4096) mod 4096" by (rule mod_mod_cancel) simp
  also have "\<dots> = 0" using p by simp
  finally show ?thesis by (simp add: unat_eq_0)
qed

lemma freerange_from_collects:
  assumes "kalloc_inv s xs" and "p mod PGSIZE = 0" and "kend s \<le> p" and "KERNBASE \<le> p"
    and "unat p + n * 4096 \<le> unat vend" and "unat vend < unat p + Suc n * 4096"
    and "unat vend \<le> 2382364672" and "set xs \<inter> set (page_seq p n) = {}"
  shows "\<exists>s'. freerange_from p vend s = Ok s' \<and> kalloc_inv s' (rev (page_seq p n) @ xs)
    \<and> kend s' = kend s"
  using assms
proof (induction n arbitrary: p s xs)
  case 0
  then have "unat p < 2382368768" by simp
  then have "unat (p + PGSIZE) = unat p + 4096" by (simp add: PGSIZE_def unat_word_ariths)
  then have "\<not> p + PGSIZE \<le> vend" using 0 by (simp add: word_le_nat_alt)
  then show ?case using 0 by (subst freerange_from.simps) (simp add: page_seq_def)
next
  case (Suc n)
  have small: "unat p < 2382364672" using Suc.prems by simp
  have step: "unat (p + PGSIZE) = unat p + 4096" by (rule page_step [OF small])
  have "p \<notin> set xs" using Suc.prems(8) by (simp add: page_seq_Suc)
  then obtain s1 where s1: "kfree p s = Ok s1" "kalloc_inv s1 (p # xs)" "kend s1 = kend s"
    using kfree_inv [OF Suc.prems(1) kernel_page_ok [OF Suc.prems(2-4) small]] by blast
  have "p \<notin> set (page_seq (p + PGSIZE) n)"
    using Suc.prems(5,7) by (intro page_not_later) simp
  then have "\<exists>s'. freerange_from (p + PGSIZE) vend s1 = Ok s'
      \<and> kalloc_inv s' (rev (page_seq (p + PGSIZE) n) @ p # xs) \<and> kend s' = kend s1"
    using Suc.prems s1 step
    by (intro Suc.IH) (auto simp: page_aligned_step page_seq_Suc word_le_nat_alt)
  moreover have "p + PGSIZE \<le> vend" using Suc.prems(5) step by (simp add: word_le_nat_alt)
  ultimately show ?case using s1
    by (subst freerange_from.simps) (auto simp: page_seq_Suc)
qed

lemma div_pages: "(p::nat) \<le> b \<Longrightarrow> p + (b - p) div 4096 * 4096 \<le> b \<and> b < p + Suc ((b - p) div 4096) * 4096"
proof -
  define q r where "q = (b - p) div 4096" and "r = (b - p) mod 4096"
  assume "p \<le> b"
  moreover have "q * 4096 + r = b - p" unfolding q_def r_def by (rule div_mult_mod_eq)
  moreover have "r < 4096" by (simp add: r_def)
  ultimately have "p + q * 4096 \<le> b \<and> b < p + Suc q * 4096" by auto
  then show ?thesis by (simp add: q_def)
qed

lemma page_seq_set:
  assumes "p mod PGSIZE = 0" and "unat p \<le> unat vend" and "unat vend \<le> 2382364672"
  shows "set (page_seq p ((unat vend - unat p) div 4096)) =
    {v. v mod PGSIZE = 0 \<and> p \<le> v \<and> unat v + 4096 \<le> unat vend}" (is "set (page_seq p ?n) = ?R")
proof (intro equalityI subsetI)
  have n: "?n * 4096 \<le> unat vend - unat p" by simp
  fix v assume "v \<in> set (page_seq p ?n)"
  then obtain i where i: "i < ?n" "v = p + of_nat i * PGSIZE" by (auto simp: page_seq_def)
  have v: "unat v = unat p + i * 4096"
    unfolding i(2) using i(1) n assms(2,3) by (intro page_seq_unat [where n = ?n]) linarith+
  have "Suc i * 4096 \<le> ?n * 4096" using i(1) by (intro mult_le_mono1) simp
  then have "unat v + 4096 \<le> unat vend" using v n assms(2) by simp
  moreover have "unat (v mod PGSIZE) = 0"
    using v page_unat [OF assms(1)] by (simp add: PGSIZE_def unat_mod_distrib)
  then have "v mod PGSIZE = 0" by (simp add: unat_eq_0)
  ultimately show "v \<in> ?R" using v by (simp add: word_le_nat_alt)
next
  fix v assume v: "v \<in> ?R"
  obtain a b where ab: "unat p = 4096 * a" "unat v = 4096 * b"
    using page_unat [OF assms(1)] page_unat [of v] v by (auto simp: mod_eq_0_iff_dvd dvd_def)
  have le: "a \<le> b" using v ab by (simp add: word_le_nat_alt)
  define i where "i = b - a"
  have i: "i < ?n"
  proof -
    have "4096 * i + 4096 \<le> unat vend - unat p" 
    proof -
      have "4096 * i = 4096 * b - 4096 * a" by (simp add: i_def diff_mult_distrib2)
      moreover have "4096 * a \<le> 4096 * b" using le by simp
      moreover have "4096 * b + 4096 \<le> unat vend" using v ab by simp
      ultimately show ?thesis using ab(1) by linarith
    qed
    then have "(4096 * i + 4096) div 4096 \<le> ?n" by (rule div_le_mono)
    then show ?thesis by simp
  qed
  have "unat (p + of_nat i * PGSIZE) = unat p + i * 4096"
  proof (rule page_seq_unat [OF _ i])
    show "unat p + ?n * 4096 < 4294967296" using div_pages [OF assms(2)] assms(3) by linarith
  qed
  also have "\<dots> = unat v" using ab le by (simp add: i_def)
  finally have "v = p + of_nat i * PGSIZE" by (simp add: word_unat_eq_iff)
  then show "v \<in> set (page_seq p ?n)" using i by (auto simp: page_seq_def)
qed

lemma round_up_le: "(a::nat) \<le> 4096 * m \<Longrightarrow> (a + 4095) div 4096 * 4096 \<le> 4096 * m"
proof -
  assume "a \<le> 4096 * m"
  then have "a + 4095 < Suc m * 4096" by simp
  then have "(a + 4095) div 4096 < Suc m" by (simp only: div_less_iff_less_mult [symmetric] zero_less_numeral)
  then show ?thesis by simp
qed

lemma round_up_bounds: "(a::nat) \<le> (a + 4095) div 4096 * 4096 \<and> (a + 4095) div 4096 * 4096 < a + 4096"
proof -
  have "(a + 4095) div 4096 * 4096 + (a + 4095) mod 4096 = a + 4095" by (rule div_mult_mod_eq)
  moreover have "(a + 4095) mod 4096 < 4096" by simp
  ultimately show ?thesis by linarith
qed

lemma freerange_collects:
  assumes inv: "kalloc_inv s xs" and k: "KERNBASE \<le> kend s" and a: "kend s \<le> a" and b: "a \<le> b"
    and c: "unat b \<le> 2382364672" and xs: "\<forall>x\<in>set xs. unat x < unat a"
  shows "\<exists>s' ys. freerange a b s = Ok s' \<and> kalloc_inv s' ys \<and> kend s' = kend s
    \<and> set ys = set xs \<union> {v. v mod PGSIZE = 0 \<and> a \<le> v \<and> unat v + 4096 \<le> unat b}"
proof -
  define p where "p = PGROUNDUP a"
  have up: "unat p = (unat a + 4095) div 4096 * 4096"
    using b c unfolding p_def by (intro unat_PGROUNDUP) (simp add: word_le_nat_alt)
  have ap: "unat a \<le> unat p" and pa: "unat p < unat a + 4096" unfolding up using round_up_bounds by auto
  have pm: "p mod PGSIZE = 0" by (simp add: p_def PGROUNDUP_eq)
  have p: "kend s \<le> p" "KERNBASE \<le> p" using ap a k by (simp_all add: word_le_nat_alt)
  have iff: "a \<le> v \<longleftrightarrow> p \<le> v" if vm: "v mod PGSIZE = 0" for v
  proof
    assume "a \<le> v"
    obtain m where "unat v = 4096 * m" using page_unat [OF vm] by (auto simp: mod_eq_0_iff_dvd dvd_def)
    moreover have "unat a \<le> unat v" using \<open>a \<le> v\<close> by (simp add: word_le_nat_alt)
    ultimately have "unat p \<le> unat v" unfolding up by (simp add: round_up_le)
    then show "p \<le> v" by (simp add: word_le_nat_alt)
  qed (use ap in \<open>simp add: word_le_nat_alt\<close>)
  show ?thesis
  proof (cases "unat p \<le> unat b")
    case True
    let ?n = "(unat b - unat p) div 4096"
    have R: "set (page_seq p ?n) = {v. v mod PGSIZE = 0 \<and> a \<le> v \<and> unat v + 4096 \<le> unat b}"
      unfolding page_seq_set [OF pm True c]
      by (intro Collect_cong conj_cong refl) (simp_all add: iff)
    obtain s' where s': "freerange_from p b s = Ok s'" "kalloc_inv s' (rev (page_seq p ?n) @ xs)"
        "kend s' = kend s"
    proof (atomize_elim, rule freerange_from_collects [OF inv pm p])
      show "unat p + ?n * 4096 \<le> unat b" "unat b < unat p + Suc ?n * 4096"
        using div_pages [OF True] by simp_all
      show "set xs \<inter> set (page_seq p ?n) = {}" using xs R by (auto simp: word_le_nat_alt)
    qed (rule c)
    have "set (rev (page_seq p ?n) @ xs) =
        set xs \<union> {v. v mod PGSIZE = 0 \<and> a \<le> v \<and> unat v + 4096 \<le> unat b}"
      unfolding set_append set_rev R by (rule Un_commute)
    with s' show ?thesis unfolding freerange_def p_def by blast
  next
    case False
    then have none: "{v. v mod PGSIZE = 0 \<and> a \<le> v \<and> unat v + 4096 \<le> unat b} = {}"
    proof -
      have "\<not> unat v + 4096 \<le> unat b" if vm: "v mod PGSIZE = 0" "a \<le> v" for v
      proof -
        have "p \<le> v" using iff [OF vm(1)] vm(2) by simp
        then show ?thesis using False by (simp add: word_le_nat_alt)
      qed
      then show ?thesis by blast
    qed
    have "unat (p + PGSIZE) = unat p + 4096"
      using pa b c by (simp add: word_le_nat_alt PGSIZE_def unat_word_ariths)
    then have "\<not> p + PGSIZE \<le> b" using False by (simp add: word_le_nat_alt)
    then have "freerange a b s = Ok s"
      unfolding freerange_def p_def [symmetric] by (subst freerange_from.simps) simp
    then show ?thesis using inv none by auto
  qed
qed

lemma page_range_split:
  assumes "a \<le> b" and "b mod PGSIZE = 0" and "b \<le> c"
  shows "{v. v mod PGSIZE = 0 \<and> a \<le> v \<and> unat v + 4096 \<le> unat b}
      \<union> {v. v mod PGSIZE = 0 \<and> b \<le> v \<and> unat v + 4096 \<le> unat c}
    = {v. v mod PGSIZE = 0 \<and> a \<le> v \<and> unat v + 4096 \<le> unat c}"
proof -
  have gap: "unat v + 4096 \<le> unat b" if vb: "v mod PGSIZE = 0" "\<not> b \<le> v" for v
  proof -
    obtain m n where "unat v = 4096 * m" "unat b = 4096 * n"
      using page_unat [OF vb(1)] page_unat [OF assms(2)] by (auto simp: mod_eq_0_iff_dvd dvd_def)
    moreover from this vb(2) have "m < n" by (simp add: word_le_nat_alt)
    ultimately show ?thesis by simp
  qed
  have "unat a \<le> unat b" "unat b \<le> unat c" using assms by (simp_all add: word_le_nat_alt)
  moreover have "a \<le> v" if "b \<le> v" for v using assms(1) that by simp
  ultimately show ?thesis using gap by (auto dest: le_trans)
qed

section \<open>Correctness of the allocator\<close>

text \<open>A machine at boot, and one whose pool holds a single page: the concrete inputs of the witnesses.\<close>

definition boot_machine :: machine where
  "boot_machine = \<lparr>cpu = \<lparr>cpuid = 0, ncli = 0, intena = False, ifl = False, cproc = None\<rparr>,
     ram = (\<lambda>_. 0), kmem_lock = initlock, kmem_use_lock = False, kmem_freelist = 0,
     kend = 0x801154A8\<rparr>"

definition one_page :: machine where
  "one_page = boot_machine\<lparr>kmem_freelist := 0x80400000\<rparr>"

text \<open>
  C4.  Whatever a client does with the pages it holds, the allocator never hands out a page
  twice, never panics on a page it gave out, and reports exhaustion (the null pointer) exactly
  when the client holds every page of the pool.
\<close>

theorem kalloc_client_safe:
  assumes "kclient s0 s H" and "kalloc_inv s0 ps"
  shows "distinct H \<and> set H \<subseteq> set ps \<and> (\<forall>v\<in>set H. \<exists>s'. kfree v s = Ok s')
    \<and> (\<exists>p s'. kalloc s = Ok (p, s') \<and> p \<notin> set H \<and> (p = 0 \<longleftrightarrow> set H = set ps))"
proof -
  obtain xs where xs: "kalloc_inv s xs" "mset H + mset xs = mset ps" "page_ok s = page_ok s0"
    using kclient_inv [OF assms] by blast
  have eq: "mset (H @ xs) = mset ps" using xs(2) by simp
  have dist: "distinct (H @ xs)"
    using km.pool_distinct [OF assms(2)] mset_eq_imp_distinct_iff [OF eq] by simp
  have set: "set H \<union> set xs = set ps" using mset_eq_setD [OF eq] by simp
  have "\<exists>s'. kfree v s = Ok s'" if "v \<in> set H" for v
    using held_page [OF assms(2) xs(2) that] km.free_Cons [OF xs(1)] xs(3) by metis
  moreover have "\<exists>p s'. kalloc s = Ok (p, s') \<and> p \<notin> set H \<and> (p = 0 \<longleftrightarrow> set H = set ps)"
  proof (cases xs)
    case Nil
    have "0 \<notin> set H" using held_page [OF assms(2) xs(2), of 0] page_ok_nonzero by blast
    then show ?thesis using Nil set kalloc_inv_Nil [of s] xs(1) by auto
  next
    case (Cons x ys)
    then have "x \<noteq> 0" "x \<notin> set H" "set H \<noteq> set ps"
      using km.pool_page [OF xs(1), of x] page_ok_nonzero [of s x] dist set by auto
    then show ?thesis using Cons kalloc_inv_Cons [of s x ys] xs(1) by auto
  qed
  ultimately show ?thesis using dist set by auto
qed

lemma kalloc_client_safe_witness:
  "\<exists>s. kalloc one_page = Ok (0x80400000, s) \<and> distinct [0x80400000 :: u32]
    \<and> (\<exists>s'. kfree 0x80400000 s = Ok s') \<and> (\<exists>s'. kalloc s = Ok (0, s'))"
proof -
  have inv: "kalloc_inv one_page [0x80400000]"
    by (simp add: kalloc_inv_def kmem_ready_def one_page_def boot_machine_def page_ok_def V2P_def
        KERNBASE_def PHYSTOP_def PGSIZE_def cpu_wf_def load32_def le_word_def)
  then obtain s where s: "kalloc one_page = Ok (0x80400000, s)"
    using kalloc_inv_Cons by blast
  then have c: "kclient one_page s [0x80400000]"
    using kc_alloc [OF kc_start s] by simp
  show ?thesis using kalloc_client_safe [OF c inv] s by fastforce
qed

text \<open>
  \<open>kinit1\<close> followed by \<open>kinit2\<close>, as \<open>main\<close> calls them: the pool holds exactly the
  page-aligned pages that lie wholly between the end of the kernel and the end of the memory,
  none twice, and the lock is in use from then on.
\<close>

theorem kinit_pool:
  assumes "cpu_wf (cpu s)" and "kmem_freelist s = 0" and "KERNBASE \<le> kend s" and "kend s \<le> a"
    and "a \<le> b" and "b mod PGSIZE = 0" and "b \<le> c" and "c \<le> P2V PHYSTOP"
  shows "\<exists>s' xs. kbind (kinit1 a b s) (kinit2 b c) = Ok s' \<and> kalloc_inv s' xs \<and> kmem_use_lock s'
    \<and> set xs = {v. v mod PGSIZE = 0 \<and> a \<le> v \<and> unat v + 4096 \<le> unat c}"
proof -
  let ?s = "s\<lparr>kmem_lock := initlock, kmem_use_lock := False\<rparr>"
  have top: "unat c \<le> 2382364672" "unat b \<le> 2382364672"
    using assms(7,8) by (simp_all add: word_le_nat_alt P2V_def PHYSTOP_def KERNBASE_def)
  have "kalloc_inv ?s []" using assms(1,2) by (simp add: kalloc_inv_def kmem_ready_def)
  then obtain s1 xs1 where s1: "freerange a b ?s = Ok s1" "kalloc_inv s1 xs1" "kend s1 = kend s"
      "set xs1 = {v. v mod PGSIZE = 0 \<and> a \<le> v \<and> unat v + 4096 \<le> unat b}"
    using freerange_collects [of ?s "[]" a b] assms(3-5) top(2) by auto
  have "\<forall>x\<in>set xs1. unat x < unat b" using s1(4) by auto
  moreover have "kend s1 \<le> b" using assms(4,5) s1(3) by simp
  ultimately obtain s2 xs2 where s2: "freerange b c s1 = Ok s2" "kalloc_inv s2 xs2"
      "set xs2 = set xs1 \<union> {v. v mod PGSIZE = 0 \<and> b \<le> v \<and> unat v + 4096 \<le> unat c}"
    using freerange_collects [OF s1(2), of b c] assms(3,7) s1(3) top(1) by auto
  have "kalloc_inv (s2\<lparr>kmem_use_lock := True\<rparr>) xs2"
    using s2(2) by (simp add: kalloc_inv_def kmem_ready_def)
  moreover have "set xs2 = {v. v mod PGSIZE = 0 \<and> a \<le> v \<and> unat v + 4096 \<le> unat c}"
    unfolding s2(3) s1(4) using assms(5-7) by (intro page_range_split)
  moreover have "kbind (kinit1 a b s) (kinit2 b c) = Ok (s2\<lparr>kmem_use_lock := True\<rparr>)"
    using s1(1) s2(1) by (simp add: kinit1_def kinit2_def)
  ultimately show ?thesis by (intro exI [of _ "s2\<lparr>kmem_use_lock := True\<rparr>"] exI [of _ xs2]) simp
qed

lemma kinit_pool_witness:
  "\<exists>s' xs. kbind (kinit1 0x801154A8 0x80400000 boot_machine) (kinit2 0x80400000 0x8E000000) = Ok s'
    \<and> kalloc_inv s' xs \<and> kmem_use_lock s'
    \<and> set xs = {v. v mod PGSIZE = 0 \<and> 0x801154A8 \<le> v \<and> unat v + 4096 \<le> unat (0x8E000000 :: u32)}"
  by (rule kinit_pool) (simp_all add: boot_machine_def cpu_wf_def KERNBASE_def PHYSTOP_def PGSIZE_def
      P2V_def)

end
