(* ===== verification/Vm.thy ===== *)
theory Vm
  imports Kalloc
begin

text \<open>
  \<open>vm.c\<close> (the same file in all three projects): the two-level page tables of the processes.
  Page directories and page tables are pages of \<open>ram\<close>, read and written with \<open>load32\<close> and
  \<open>store32\<close> at the addresses the code computes; a pointer result is an address, 0 for the
  null pointer.  A loop over an address range whose next address wraps around \<open>2 ^ 32\<close>
  would start again at 0 and never reach its end: that outcome is \<open>Spin\<close>, and it does not arise
  for user addresses, which end at \<open>KERNBASE\<close> (lemma \<open>no_wrap\<close>).  The segment
  registers, the TSS and \<open>%cr3\<close> are hardware state that no code reads back, so \<open>seginit\<close>,
  \<open>switchkvm\<close> and the hardware part of \<open>switchuvm\<close> are left out.  \<open>loaduvm\<close> reads from the file
  system and takes the read as an argument.
\<close>

section \<open>Page table entries\<close>

definition EXTMEM :: u32 where "EXTMEM = 0x100000"
definition DEVSPACE :: u32 where "DEVSPACE = 0xFE000000"
definition KERNLINK :: u32 where "KERNLINK = KERNBASE + EXTMEM"

definition PTE_P :: u32 where "PTE_P = 1"
definition PTE_W :: u32 where "PTE_W = 2"
definition PTE_U :: u32 where "PTE_U = 4"

definition PDX :: "u32 \<Rightarrow> u32" where "PDX va = drop_bit 22 va AND 0x3FF"
definition PTX :: "u32 \<Rightarrow> u32" where "PTX va = drop_bit 12 va AND 0x3FF"
definition PGADDR :: "u32 \<Rightarrow> u32 \<Rightarrow> u32 \<Rightarrow> u32" where
  "PGADDR d t o' = push_bit 22 d OR push_bit 12 t OR o'"
definition PTE_ADDR :: "u32 \<Rightarrow> u32" where "PTE_ADDR pte = pte AND NOT 0xFFF"
definition PTE_FLAGS :: "u32 \<Rightarrow> u32" where "PTE_FLAGS pte = pte AND 0xFFF"

definition present :: "u32 \<Rightarrow> bool" where "present pte \<longleftrightarrow> pte AND PTE_P \<noteq> 0"

definition setw :: "u32 \<Rightarrow> u32 \<Rightarrow> 'a machine_scheme \<Rightarrow> 'a machine_scheme" where
  "setw a v s = s\<lparr>ram := store32 (ram s) a v\<rparr>"

definition memmove_ram :: "u32 \<Rightarrow> (u32 \<Rightarrow> byte) \<Rightarrow> u32 \<Rightarrow> 'a machine_scheme \<Rightarrow> 'a machine_scheme" where
  "memmove_ram dst src n s = s\<lparr>ram := (\<lambda>a. if a - dst < n then src (a - dst) else ram s a)\<rparr>"

section \<open>Walking and mapping\<close>

definition walkpgdir :: "u32 \<Rightarrow> u32 \<Rightarrow> bool \<Rightarrow> 'a machine_scheme \<Rightarrow> (u32 \<times> 'a machine_scheme) kres" where
  "walkpgdir pgdir va alloc s =
     (let pde = pgdir + 4 * PDX va in
      if present (load32 (ram s) pde)
      then Ok (P2V (PTE_ADDR (load32 (ram s) pde)) + 4 * PTX va, s)
      else if \<not> alloc then Ok (0, s)
      else kbind (kalloc s) (\<lambda>(pgtab, s).
        if pgtab = 0 then Ok (0, s)
        else let s = s\<lparr>ram := memset (ram s) pgtab 0 PGSIZE\<rparr>;
                 s = setw pde (V2P pgtab OR PTE_P OR PTE_W OR PTE_U) s
             in Ok (pgtab + 4 * PTX va, s)))"

text \<open>
  The loop of \<open>mappages\<close> runs from \<open>a\<close> to \<open>last\<close>, both page addresses, in steps of a page:
  \<open>n\<close> counts the pages still to come, so \<open>n = 0\<close> is the test \<open>a == last\<close>.
\<close>

fun mappages_loop ::
  "u32 \<Rightarrow> u32 \<Rightarrow> u32 \<Rightarrow> u32 \<Rightarrow> nat \<Rightarrow> 'a machine_scheme \<Rightarrow> (int \<times> 'a machine_scheme) kres" where
  "mappages_loop pgdir a pa perm n s =
     kbind (walkpgdir pgdir a True s) (\<lambda>(pte, s).
       if pte = 0 then Ok (-1, s)
       else if present (load32 (ram s) pte) then Panic ''remap''
       else let s = setw pte (pa OR perm OR PTE_P) s in
         (case n of 0 \<Rightarrow> Ok (0, s)
          | Suc m \<Rightarrow> mappages_loop pgdir (a + PGSIZE) (pa + PGSIZE) perm m s))"

declare mappages_loop.simps [simp del]

definition mappages ::
  "u32 \<Rightarrow> u32 \<Rightarrow> u32 \<Rightarrow> u32 \<Rightarrow> u32 \<Rightarrow> 'a machine_scheme \<Rightarrow> (int \<times> 'a machine_scheme) kres" where
  "mappages pgdir va sz pa perm s =
     (let a = PGROUNDDOWN va; last = PGROUNDDOWN (va + sz - 1)
      in mappages_loop pgdir a pa perm (unat (last - a) div 4096) s)"

section \<open>Growing and shrinking user memory\<close>

lemma no_wrap: "a < lim \<Longrightarrow> lim \<le> KERNBASE \<Longrightarrow> a < a + PGSIZE"
proof -
  assume "a < lim" and "lim \<le> KERNBASE"
  then have "unat a < 2147483648"
    by (simp add: KERNBASE_def word_less_nat_alt word_le_nat_alt)
  then have "unat (a + PGSIZE) = unat a + 4096"
    by (simp add: PGSIZE_def unat_word_ariths)
  then show ?thesis by (simp add: word_less_nat_alt)
qed

lemma wrap_measure: "(a::u32) < b \<Longrightarrow> 4294967296 - unat b < 4294967296 - unat a"
proof -
  assume "a < b"
  moreover have "unat b < 4294967296" using unsigned_less [of b] by simp
  ultimately show ?thesis by (simp add: word_less_nat_alt)
qed

text \<open>
  \<open>deallocuvm\<close> skips the rest of a 4 MB region that has no page table: the address becomes
  the last page of the region, and the increment moves it to the next one.
\<close>

definition next_region :: "u32 \<Rightarrow> u32" where
  "next_region a = PGADDR (PDX a + 1) 0 0 - PGSIZE"

function deallocuvm_from :: "u32 \<Rightarrow> u32 \<Rightarrow> u32 \<Rightarrow> 'a machine_scheme \<Rightarrow> 'a machine_scheme kres" where
  "deallocuvm_from pgdir a oldsz s =
     (if a < oldsz then
        kbind (walkpgdir pgdir a False s) (\<lambda>(pte, s).
          let a' = (if pte = 0 then next_region a else a) in
          kbind (if pte \<noteq> 0 \<and> present (load32 (ram s) pte)
                 then let pa = PTE_ADDR (load32 (ram s) pte) in
                   if pa = 0 then Panic ''kfree''
                   else kbind (kfree (P2V pa) s) (\<lambda>s. Ok (setw pte 0 s))
                 else Ok s) (\<lambda>s.
          if a < a' + PGSIZE then deallocuvm_from pgdir (a' + PGSIZE) oldsz s else Spin))
      else Ok s)"
  by pat_completeness auto
termination
  by (relation "measure (\<lambda>(pgdir, a, oldsz, s). 4294967296 - unat a)")
     (auto intro: wrap_measure)

declare deallocuvm_from.simps [simp del]

definition deallocuvm :: "u32 \<Rightarrow> u32 \<Rightarrow> u32 \<Rightarrow> 'a machine_scheme \<Rightarrow> (u32 \<times> 'a machine_scheme) kres" where
  "deallocuvm pgdir oldsz newsz s =
     (if oldsz \<le> newsz then Ok (oldsz, s)
      else kbind (deallocuvm_from pgdir (PGROUNDUP newsz) oldsz s) (\<lambda>s. Ok (newsz, s)))"

function allocuvm_from ::
  "u32 \<Rightarrow> u32 \<Rightarrow> u32 \<Rightarrow> u32 \<Rightarrow> 'a machine_scheme \<Rightarrow> (u32 \<times> 'a machine_scheme) kres" where
  "allocuvm_from pgdir a oldsz newsz s =
     (if a < newsz then
        kbind (kalloc s) (\<lambda>(mem, s).
          if mem = 0 then kbind (deallocuvm pgdir newsz oldsz s) (\<lambda>(_, s). Ok (0, s))
          else let s = s\<lparr>ram := memset (ram s) mem 0 PGSIZE\<rparr> in
            kbind (mappages pgdir a PGSIZE (V2P mem) (PTE_W OR PTE_U) s) (\<lambda>(r, s).
              if r < 0 then
                kbind (deallocuvm pgdir newsz oldsz s) (\<lambda>(_, s).
                kbind (kfree mem s) (\<lambda>s. Ok (0, s)))
              else if a < a + PGSIZE then allocuvm_from pgdir (a + PGSIZE) oldsz newsz s
              else Spin))
      else Ok (newsz, s))"
  by pat_completeness auto
termination
  by (relation "measure (\<lambda>(pgdir, a, oldsz, newsz, s). 4294967296 - unat a)")
     (auto intro: wrap_measure)

declare allocuvm_from.simps [simp del]

definition allocuvm :: "u32 \<Rightarrow> u32 \<Rightarrow> u32 \<Rightarrow> 'a machine_scheme \<Rightarrow> (u32 \<times> 'a machine_scheme) kres" where
  "allocuvm pgdir oldsz newsz s =
     (if KERNBASE \<le> newsz then Ok (0, s)
      else if newsz < oldsz then Ok (oldsz, s)
      else allocuvm_from pgdir (PGROUNDUP oldsz) oldsz newsz s)"

section \<open>Whole address spaces\<close>

function freevm_tables :: "u32 \<Rightarrow> nat \<Rightarrow> 'a machine_scheme \<Rightarrow> 'a machine_scheme kres" where
  "freevm_tables pgdir i s =
     (if i < 1024 then
        (let pde = load32 (ram s) (pgdir + 4 * of_nat i) in
         kbind (if present pde then kfree (P2V (PTE_ADDR pde)) s else Ok s)
           (\<lambda>s. freevm_tables pgdir (i + 1) s))
      else Ok s)"
  by pat_completeness auto
termination
  by (relation "measure (\<lambda>(pgdir, i, s). 1024 - i)") auto

declare freevm_tables.simps [simp del]

definition freevm :: "u32 \<Rightarrow> 'a machine_scheme \<Rightarrow> 'a machine_scheme kres" where
  "freevm pgdir s =
     (if pgdir = 0 then Panic ''freevm: no pgdir''
      else kbind (deallocuvm pgdir KERNBASE 0 s) (\<lambda>(_, s).
           kbind (freevm_tables pgdir 0 s) (\<lambda>s. kfree pgdir s)))"

text \<open>
  The table \<open>kmap\<close> of the kernel's mappings: virtual address, physical start and end,
  permissions.  \<open>data\<close> is a linker symbol, an argument here.
\<close>

definition kmap :: "u32 \<Rightarrow> (u32 \<times> u32 \<times> u32 \<times> u32) list" where
  "kmap data =
     [(KERNBASE, 0, EXTMEM, PTE_W),
      (KERNLINK, V2P KERNLINK, V2P data, 0),
      (data, V2P data, PHYSTOP, PTE_W),
      (DEVSPACE, DEVSPACE, 0, PTE_W)]"

fun setupkvm_loop :: "u32 \<Rightarrow> (u32 \<times> u32 \<times> u32 \<times> u32) list \<Rightarrow> 'a machine_scheme \<Rightarrow>
    (u32 \<times> 'a machine_scheme) kres" where
  "setupkvm_loop pgdir [] s = Ok (pgdir, s)"
| "setupkvm_loop pgdir ((virt, phys_start, phys_end, perm) # ks) s =
     kbind (mappages pgdir virt (phys_end - phys_start) phys_start perm s) (\<lambda>(r, s).
       if r < 0 then kbind (freevm pgdir s) (\<lambda>s. Ok (0, s))
       else setupkvm_loop pgdir ks s)"

definition setupkvm :: "u32 \<Rightarrow> 'a machine_scheme \<Rightarrow> (u32 \<times> 'a machine_scheme) kres" where
  "setupkvm data s =
     kbind (kalloc s) (\<lambda>(pgdir, s).
       if pgdir = 0 then Ok (0, s)
       else let s = s\<lparr>ram := memset (ram s) pgdir 0 PGSIZE\<rparr> in
         if DEVSPACE < P2V PHYSTOP then Panic ''PHYSTOP too high''
         else setupkvm_loop pgdir (kmap data) s)"

definition inituvm :: "u32 \<Rightarrow> (u32 \<Rightarrow> byte) \<Rightarrow> u32 \<Rightarrow> 'a machine_scheme \<Rightarrow> 'a machine_scheme kres" where
  "inituvm pgdir init sz s =
     (if PGSIZE \<le> sz then Panic ''inituvm: more than a page''
      else kbind (kalloc s) (\<lambda>(mem, s).
        let s = s\<lparr>ram := memset (ram s) mem 0 PGSIZE\<rparr> in
        kbind (mappages pgdir 0 PGSIZE (V2P mem) (PTE_W OR PTE_U) s) (\<lambda>(_, s).
        Ok (memmove_ram mem init sz s))))"

definition clearpteu :: "u32 \<Rightarrow> u32 \<Rightarrow> 'a machine_scheme \<Rightarrow> 'a machine_scheme kres" where
  "clearpteu pgdir uva s =
     kbind (walkpgdir pgdir uva False s) (\<lambda>(pte, s).
       if pte = 0 then Panic ''clearpteu''
       else Ok (setw pte (load32 (ram s) pte AND NOT PTE_U) s))"

text \<open>The \<open>bad\<close> label of \<open>copyuvm\<close>.\<close>

definition copyuvm_bad :: "u32 \<Rightarrow> 'a machine_scheme \<Rightarrow> (u32 \<times> 'a machine_scheme) kres" where
  "copyuvm_bad d s = kbind (freevm d s) (\<lambda>s. Ok (0, s))"

function copyuvm_from ::
  "u32 \<Rightarrow> u32 \<Rightarrow> u32 \<Rightarrow> u32 \<Rightarrow> 'a machine_scheme \<Rightarrow> (u32 \<times> 'a machine_scheme) kres" where
  "copyuvm_from pgdir d i sz s =
     (if i < sz then
        kbind (walkpgdir pgdir i False s) (\<lambda>(pte, s).
          if pte = 0 then Panic ''copyuvm: pte should exist''
          else if \<not> present (load32 (ram s) pte) then Panic ''copyuvm: page not present''
          else let pa = PTE_ADDR (load32 (ram s) pte); flags = PTE_FLAGS (load32 (ram s) pte) in
            kbind (kalloc s) (\<lambda>(mem, s).
              if mem = 0 then copyuvm_bad d s
              else let s = memmove_ram mem (\<lambda>k. ram s (P2V pa + k)) PGSIZE s in
                kbind (mappages d i PGSIZE (V2P mem) flags s) (\<lambda>(r, s).
                  if r < 0 then kbind (kfree mem s) (\<lambda>s. copyuvm_bad d s)
                  else if i < i + PGSIZE then copyuvm_from pgdir d (i + PGSIZE) sz s
                  else Spin)))
      else Ok (d, s))"
  by pat_completeness auto
termination
  by (relation "measure (\<lambda>(pgdir, d, i, sz, s). 4294967296 - unat i)")
     (auto intro: wrap_measure)

declare copyuvm_from.simps [simp del]

definition copyuvm :: "u32 \<Rightarrow> u32 \<Rightarrow> u32 \<Rightarrow> 'a machine_scheme \<Rightarrow> (u32 \<times> 'a machine_scheme) kres" where
  "copyuvm data pgdir sz s =
     kbind (setupkvm data s) (\<lambda>(d, s).
       if d = 0 then Ok (0, s) else copyuvm_from pgdir d 0 sz s)"

section \<open>Access to user memory\<close>

text \<open>
  \<open>uva2ka\<close> dereferences the result of \<open>walkpgdir\<close> without testing it: for an address with no
  page table the code reads the word at address 0, as the model does.
\<close>

definition uva2ka :: "u32 \<Rightarrow> u32 \<Rightarrow> 'a machine_scheme \<Rightarrow> (u32 \<times> 'a machine_scheme) kres" where
  "uva2ka pgdir uva s =
     kbind (walkpgdir pgdir uva False s) (\<lambda>(pte, s).
       let e = load32 (ram s) pte in
       if e AND PTE_P = 0 then Ok (0, s)
       else if e AND PTE_U = 0 then Ok (0, s)
       else Ok (P2V (PTE_ADDR e), s))"

function copyout_loop ::
  "u32 \<Rightarrow> u32 \<Rightarrow> (u32 \<Rightarrow> byte) \<Rightarrow> u32 \<Rightarrow> 'a machine_scheme \<Rightarrow> (int \<times> 'a machine_scheme) kres" where
  "copyout_loop pgdir va buf len s =
     (if len > 0 then
        (let va0 = PGROUNDDOWN va in
         kbind (uva2ka pgdir va0 s) (\<lambda>(pa0, s).
           if pa0 = 0 then Ok (-1, s)
           else let n = PGSIZE - (va - va0); n = (if len < n then len else n);
                    s = memmove_ram (pa0 + (va - va0)) buf n s
                in if 0 < n then copyout_loop pgdir (va0 + PGSIZE) (\<lambda>k. buf (k + n)) (len - n) s
                   else Ok (0, s)))
      else Ok (0, s))"
  by pat_completeness auto
termination
  by (relation "measure (\<lambda>(pgdir, va, buf, len, s). unat len)")
     (auto simp: word_less_nat_alt unat_sub_if_size Let_def split: if_splits)

declare copyout_loop.simps [simp del]

definition copyout ::
  "u32 \<Rightarrow> u32 \<Rightarrow> (u32 \<Rightarrow> byte) \<Rightarrow> u32 \<Rightarrow> 'a machine_scheme \<Rightarrow> (int \<times> 'a machine_scheme) kres" where
  "copyout pgdir va p len s = copyout_loop pgdir va p len s"

section \<open>What the page table code leaves alone\<close>

text \<open>
  Every function above only touches memory pages: \<open>kp s m\<close> says so of a call \<open>m\<close> in the state
  \<open>s\<close> that returns a value, \<open>ku s m\<close> of one that returns none.
\<close>

definition kp :: "'a machine_scheme \<Rightarrow> ('b \<times> 'a machine_scheme) kres \<Rightarrow> bool" where
  "kp s m \<longleftrightarrow> (kmem_ready s \<longrightarrow> (\<forall>x s'. m = Ok (x, s') \<longrightarrow> kframe s s'))"

definition ku :: "'a machine_scheme \<Rightarrow> 'a machine_scheme kres \<Rightarrow> bool" where
  "ku s m \<longleftrightarrow> (kmem_ready s \<longrightarrow> (\<forall>s'. m = Ok s' \<longrightarrow> kframe s s'))"

named_theorems kp_intros \<open>rules for the frame of memory management code\<close>

lemma kp_ret [kp_intros]:
  "kframe s s' \<Longrightarrow> kp s (Ok (x, s'))" "kframe s s' \<Longrightarrow> ku s (Ok s')"
  "kp s (Panic msg)" "ku s (Panic msg)" "kp s Spin" "ku s Spin"
  by (simp_all add: kp_def ku_def)

lemma kp_bind [kp_intros]:
  "kp s m \<Longrightarrow> (\<And>x s1. kframe s s1 \<Longrightarrow> kp s1 (f (x, s1))) \<Longrightarrow> kp s (kbind m f)"
  "kp s m \<Longrightarrow> (\<And>x s1. kframe s s1 \<Longrightarrow> ku s1 (g (x, s1))) \<Longrightarrow> ku s (kbind m g)"
  "ku s n \<Longrightarrow> (\<And>s1. kframe s s1 \<Longrightarrow> kp s1 (h s1)) \<Longrightarrow> kp s (kbind n h)"
  "ku s n \<Longrightarrow> (\<And>s1. kframe s s1 \<Longrightarrow> ku s1 (k s1)) \<Longrightarrow> ku s (kbind n k)"
  unfolding kp_def ku_def kbind_eq_Ok_iff
  by (metis kframe_ready kframe_trans surj_pair, metis kframe_ready kframe_trans surj_pair,
      metis kframe_ready kframe_trans, metis kframe_ready kframe_trans)

lemma kp_shift:
  "kframe s t \<Longrightarrow> kp t m \<Longrightarrow> kp s m" "kframe s t \<Longrightarrow> ku t n \<Longrightarrow> ku s n"
  unfolding kp_def ku_def by (metis kframe_ready kframe_trans)+

lemma kp_kalloc [kp_intros]: "kp s (kalloc s)" "ku s (kfree v s)"
  by (simp_all add: kp_def ku_def kalloc_frame kfree_kframe)

lemma kframe_setw [simp, intro]: "kframe s (setw a v s)" "kframe s (memmove_ram d f n s)"
  by (simp_all add: setw_def memmove_ram_def)

lemma kp_walkpgdir [kp_intros]: "kp s (walkpgdir pgdir va alloc s)"
proof -
  have "kframe u (setw a v (u\<lparr>ram := r\<rparr>))" for u :: "'a machine_scheme" and a v r
    by (simp add: setw_def)
  then show ?thesis
    unfolding walkpgdir_def Let_def by (auto intro!: kp_intros)
qed

lemma kp_mappages_loop [kp_intros]: "kp s (mappages_loop pgdir a pa perm n s)"
proof (induction n arbitrary: a pa s)
  case 0
  then show ?case by (subst mappages_loop.simps) (auto intro!: kp_intros simp: Let_def)
next
  case (Suc n)
  show ?case
    by (subst mappages_loop.simps)
       (auto intro!: kp_intros simp: Let_def intro: kp_shift(1) [OF kframe_setw(1) Suc.IH])
qed

lemma kp_mappages [kp_intros]: "kp s (mappages pgdir va sz pa perm s)"
  unfolding mappages_def Let_def by (intro kp_intros)

lemmas kp_mappages_after [kp_intros] =
  kp_shift(1) [OF kframe_ram kp_mappages] kp_shift(1) [OF kframe_setw(2) kp_mappages]

lemma word_up_induct [case_names up]:
  assumes "\<And>a. (\<And>b. a < b \<Longrightarrow> P b) \<Longrightarrow> P a"
  shows "P (a :: u32)"
proof (induction "4294967296 - unat a" arbitrary: a rule: less_induct)
  case less
  show ?case by (rule assms) (rule less, rule wrap_measure)
qed

lemma ku_deallocuvm_from [kp_intros]: "ku s (deallocuvm_from pgdir a oldsz s)"
proof (induction a arbitrary: s rule: word_up_induct)
  case (up a)
  show ?case
    by (subst deallocuvm_from.simps) (auto intro!: kp_intros up simp: Let_def)
qed

lemma kp_deallocuvm [kp_intros]: "kp s (deallocuvm pgdir oldsz newsz s)"
  unfolding deallocuvm_def by (auto intro!: kp_intros)

lemma kp_allocuvm_from [kp_intros]: "kp s (allocuvm_from pgdir a oldsz newsz s)"
proof (induction a arbitrary: s rule: word_up_induct)
  case (up a)
  show ?case
    by (subst allocuvm_from.simps)
       (auto intro!: kp_intros up simp: Let_def)
qed

lemma kp_allocuvm [kp_intros]: "kp s (allocuvm pgdir oldsz newsz s)"
  unfolding allocuvm_def by (auto intro!: kp_intros)

lemma ku_freevm_tables [kp_intros]: "ku s (freevm_tables pgdir i s)"
proof (induction "1024 - i" arbitrary: i s rule: less_induct)
  case less
  show ?case by (subst freevm_tables.simps) (auto intro!: kp_intros less simp: Let_def)
qed

lemma ku_freevm [kp_intros]: "ku s (freevm pgdir s)"
  unfolding freevm_def by (auto intro!: kp_intros)

lemma kp_setupkvm_loop [kp_intros]: "kp s (setupkvm_loop pgdir ks s)"
  by (induction ks arbitrary: s) (auto intro!: kp_intros)

lemmas kp_setupkvm_loop_after [kp_intros] = kp_shift(1) [OF kframe_ram kp_setupkvm_loop]

lemma kp_setupkvm [kp_intros]: "kp s (setupkvm data s)"
  unfolding setupkvm_def Let_def by (auto intro!: kp_intros)

lemma ku_inituvm [kp_intros]: "ku s (inituvm pgdir init sz s)"
  unfolding inituvm_def Let_def by (auto intro!: kp_intros)

lemma kp_copyuvm_bad [kp_intros]: "kp s (copyuvm_bad d s)"
  unfolding copyuvm_bad_def by (intro kp_intros kframe_refl)

lemma kp_copyuvm_from [kp_intros]: "kp s (copyuvm_from pgdir d i sz s)"
proof (induction i arbitrary: s rule: word_up_induct)
  case (up i)
  show ?case
    by (subst copyuvm_from.simps)
       (auto intro!: kp_intros up simp: Let_def)
qed

lemma kp_copyuvm [kp_intros]: "kp s (copyuvm data pgdir sz s)"
  unfolding copyuvm_def by (auto intro!: kp_intros)

end
