(* ===== verification/Mlfq_Proc.thy ===== *)
theory Mlfq_Proc
  imports Mlfq_Queue Vm
begin

text \<open>
  Project 1, \<open>proc.c\<close>, the timer case of \<open>trap.c\<close> and the calls of \<open>sysproc.c\<close>: processes and
  the multi-level feedback queue scheduler.  The record \<open>mlfq\<close> extends the machine with
  \<open>ptable\<close> (\<open>procs\<close>, \<open>lockproc\<close>, the queues \<open>mlevels\<close>), the spinlocks by name (\<open>slocks\<close>), the
  tick counters and the linker symbols the code stores.  A pointer into \<open>ptable.proc\<close> is an
  index below \<open>NPROC\<close>, a null pointer is \<open>None\<close>.

  \<open>swtch\<close> leaves the current kernel stack, so a function that calls \<open>sched\<close> ends there in the
  model: the result \<open>Switched\<close> is the state at the switch, and what the stack holds, the code
  that runs when the scheduler switches back, is recorded in the process as \<open>pkont\<close> (the
  function that called \<open>sched\<close>) and \<open>pkint\<close> (its saved \<open>intena\<close>).  \<open>resume\<close> runs that code.

  The file system calls of \<open>fork\<close>, \<open>exit\<close>, \<open>userinit\<close> and \<open>forkret\<close> act on the component
  \<open>fsys\<close> only and are passed in the record \<open>fsops\<close>.
\<close>

section \<open>State\<close>

datatype procstate = UNUSED | EMBRYO | SLEEPING | RUNNABLE | RUNNING | ZOMBIE

datatype lockref = LkNull | LkPtable | LkTicks | LkMlfqTicks | LkOther nat

datatype kont =
    KForkret
  | KYield
  | KUnlock
  | KExit
  | KWait
  | KSysSleep u32 u32
  | KSleep lockref

record proc =
  psz :: u32
  pgdir :: u32
  kstack :: u32
  pstate :: procstate
  pid :: int
  parent :: "nat option"
  ptf :: u32
  pcontext :: u32
  pchan :: chan
  killed :: bool
  ofile :: "nat \<Rightarrow> u32"
  cwd :: u32
  pname :: string
  priority :: int
  usedtime :: nat
  level :: nat
  pkont :: kont
  pkint :: bool

record 'f mlfq = machine +
  slocks :: "lockref \<Rightarrow> spinlock"
  procs :: "nat \<Rightarrow> proc"
  lockproc :: "nat option"
  mlevels :: "nat \<Rightarrow> queue"
  initproc :: "nat option"
  nextpid :: int
  ticks :: u32
  mlfqticks :: u32
  firstret :: bool
  kdata :: u32
  ktrapret :: u32
  kforkret :: u32
  fsys :: 'f

record 'f fsops =
  fs_filedup :: "u32 \<Rightarrow> 'f \<Rightarrow> 'f kres"
  fs_idup :: "u32 \<Rightarrow> 'f \<Rightarrow> 'f kres"
  fs_fileclose :: "u32 \<Rightarrow> 'f \<Rightarrow> 'f kres"
  fs_iput :: "u32 \<Rightarrow> 'f \<Rightarrow> 'f kres"
  fs_begin_op :: "'f \<Rightarrow> 'f kres"
  fs_end_op :: "'f \<Rightarrow> 'f kres"
  fs_namei :: "string \<Rightarrow> 'f \<Rightarrow> (u32 \<times> 'f) kres"
  fs_iinit :: "u32 \<Rightarrow> 'f \<Rightarrow> 'f kres"
  fs_initlog :: "u32 \<Rightarrow> 'f \<Rightarrow> 'f kres"

datatype ('a, 's) run = Returned 'a 's | Switched 's

definition KSTACKSIZE :: u32 where "KSTACKSIZE = 4096"
definition NOFILE :: nat where "NOFILE = 16"
definition PASSWORD :: int where "PASSWORD = 2021035487"

definition liftfs :: "('f \<Rightarrow> 'f kres) \<Rightarrow> 'f mlfq \<Rightarrow> 'f mlfq kres" where
  "liftfs f s = kbind (f (fsys s)) (\<lambda>x. Ok (s\<lparr>fsys := x\<rparr>))"

definition updp :: "nat \<Rightarrow> (proc \<Rightarrow> proc) \<Rightarrow> 'f mlfq \<Rightarrow> 'f mlfq" where
  "updp p f s = s\<lparr>procs := (procs s)(p := f (procs s p))\<rparr>"

definition set_state :: "nat \<Rightarrow> procstate \<Rightarrow> 'f mlfq \<Rightarrow> 'f mlfq" where
  "set_state p st s = updp p (pstate_update (\<lambda>_. st)) s"

definition updq :: "nat \<Rightarrow> (queue \<Rightarrow> queue) \<Rightarrow> 'f mlfq \<Rightarrow> 'f mlfq" where
  "updq i f s = s\<lparr>mlevels := (mlevels s)(i := f (mlevels s i))\<rparr>"

definition acquire_lk :: "lockref \<Rightarrow> 'f mlfq \<Rightarrow> 'f mlfq kres" where
  "acquire_lk l s = kbind (acquire (slocks s l) (cpu s))
     (\<lambda>(lk, c). Ok (s\<lparr>slocks := (slocks s)(l := lk), cpu := c\<rparr>))"

definition release_lk :: "lockref \<Rightarrow> 'f mlfq \<Rightarrow> 'f mlfq kres" where
  "release_lk l s = kbind (release (slocks s l) (cpu s))
     (\<lambda>(lk, c). Ok (s\<lparr>slocks := (slocks s)(l := lk), cpu := c\<rparr>))"

definition mycpu :: "'f mlfq \<Rightarrow> 'f mlfq kres" where
  "mycpu s = (if ifl (cpu s) then Panic ''mycpu called with interrupts enabled'' else Ok s)"

definition myproc :: "'f mlfq \<Rightarrow> (nat option \<times> 'f mlfq) kres" where
  "myproc s =
     kbind (mycpu (s\<lparr>cpu := pushcli (cpu s)\<rparr>)) (\<lambda>s.
     let p = cproc (cpu s) in
     kbind (popcli (cpu s)) (\<lambda>c. Ok (p, s\<lparr>cpu := c\<rparr>)))"

text \<open>
  \<open>with_proc\<close> is \<open>struct proc *curproc = myproc()\<close> in code that then dereferences \<open>curproc\<close>: with no
  process on the CPU the null pointer faults in the kernel, and \<open>trap\<close> panics.
\<close>

definition with_proc :: "'f mlfq \<Rightarrow> (nat \<Rightarrow> 'f mlfq \<Rightarrow> 'a kres) \<Rightarrow> 'a kres" where
  "with_proc s f = kbind (myproc s) (\<lambda>(p, s).
     case p of None \<Rightarrow> Panic ''trap'' | Some p \<Rightarrow> f p s)"

section \<open>Process creation\<close>

definition pinit :: "'f mlfq \<Rightarrow> 'f mlfq" where
  "pinit s =
     (let s = s\<lparr>slocks := (slocks s)(LkPtable := initlock)\<rparr>;
          s = s\<lparr>lockproc := None\<rparr>
      in fold (\<lambda>i. updq i (\<lambda>q. q\<lparr>qsize := 0, timequantum := 2 * i + 4\<rparr>)) [0..<3] s)"

definition allocproc_claim :: "'f mlfq \<Rightarrow> (nat option \<times> 'f mlfq) kres" where
  "allocproc_claim s =
     kbind (acquire_lk LkPtable s) (\<lambda>s.
     case find (\<lambda>p. pstate (procs s p) = UNUSED) [0..<NPROC] of
       None \<Rightarrow> kbind (release_lk LkPtable s) (\<lambda>s. Ok (None, s))
     | Some p \<Rightarrow>
         let s = updp p (\<lambda>r. r\<lparr>pstate := EMBRYO, pid := nextpid s, priority := 3,
                             usedtime := 0, level := 0\<rparr>) s;
             s = s\<lparr>nextpid := nextpid s + 1\<rparr>
         in kbind (release_lk LkPtable s) (\<lambda>s. Ok (Some p, s)))"

text \<open>\<open>sizeof\<close> of \<open>struct trapframe\<close> and \<open>struct context\<close>, and the offsets of the fields written.\<close>

definition TF_SIZE :: u32 where "TF_SIZE = 76"
definition CONTEXT_SIZE :: u32 where "CONTEXT_SIZE = 20"
definition TF_EAX :: u32 where "TF_EAX = 28"
definition CONTEXT_EIP :: u32 where "CONTEXT_EIP = 16"

definition allocproc_stack :: "nat \<Rightarrow> 'f mlfq \<Rightarrow> (nat option \<times> 'f mlfq) kres" where
  "allocproc_stack p s =
     kbind (kalloc s) (\<lambda>(k, s).
     let s = updp p (\<lambda>r. r\<lparr>kstack := k\<rparr>) s in
     if k = 0 then Ok (None, set_state p UNUSED s)
     else
       let sp = k + KSTACKSIZE;
           sp = sp - TF_SIZE;
           s = updp p (\<lambda>r. r\<lparr>ptf := sp\<rparr>) s;
           sp = sp - 4;
           s = setw sp (ktrapret s) s;
           sp = sp - CONTEXT_SIZE;
           s = updp p (\<lambda>r. r\<lparr>pcontext := sp\<rparr>) s;
           s = s\<lparr>ram := memset (ram s) sp 0 CONTEXT_SIZE\<rparr>;
           s = setw (sp + CONTEXT_EIP) (kforkret s) s;
           s = updp p (\<lambda>r. r\<lparr>pkont := KForkret\<rparr>) s
       in Ok (Some p, s))"

definition allocproc :: "'f mlfq \<Rightarrow> (nat option \<times> 'f mlfq) kres" where
  "allocproc s = kbind (allocproc_claim s) (\<lambda>(p, s).
     case p of None \<Rightarrow> Ok (None, s) | Some p \<Rightarrow> allocproc_stack p s)"

text \<open>\<open>p->state = RUNNABLE; enqueue(&ptable.L[p->level], p);\<close> as in six places of the code.\<close>

definition make_runnable :: "nat \<Rightarrow> 'f mlfq \<Rightarrow> 'f mlfq" where
  "make_runnable p s =
     (let s = set_state p RUNNABLE s in updq (level (procs s p)) (\<lambda>q. enqueue q p) s)"

definition publish :: "nat \<Rightarrow> 'f mlfq \<Rightarrow> 'f mlfq kres" where
  "publish p s = kbind (acquire_lk LkPtable s) (\<lambda>s. release_lk LkPtable (make_runnable p s))"

definition store16 :: "memory \<Rightarrow> u32 \<Rightarrow> u32 \<Rightarrow> memory" where
  "store16 m a v = m(a := word_byte 0 v, a + 1 := word_byte (Suc 0) v)"

definition userinit_tf :: "u32 \<Rightarrow> memory \<Rightarrow> memory" where
  "userinit_tf tf m =
     (let m = memset m tf 0 TF_SIZE;
          m = store16 m (tf + 60) 0x1B;
          m = store16 m (tf + 44) 0x23;
          m = store16 m (tf + 40) 0x23;
          m = store16 m (tf + 72) 0x23;
          m = store32 m (tf + 64) 0x200;
          m = store32 m (tf + 68) PGSIZE
      in store32 m (tf + 56) 0)"

text \<open>\<open>safestrcpy(s, t, n)\<close> of \<open>string.c\<close>: at most \<open>n - 1\<close> characters are kept.\<close>

definition userinit :: "'f fsops \<Rightarrow> (u32 \<Rightarrow> byte) \<Rightarrow> u32 \<Rightarrow> 'f mlfq \<Rightarrow> 'f mlfq kres" where
  "userinit F initcode initcode_size s =
     kbind (allocproc s) (\<lambda>(p, s).
     let s = s\<lparr>initproc := p\<rparr> in
     case p of None \<Rightarrow> Panic ''trap'' | Some p \<Rightarrow>
     kbind (setupkvm (kdata s) s) (\<lambda>(d, s).
     let s = updp p (\<lambda>r. r\<lparr>pgdir := d\<rparr>) s in
     if d = 0 then Panic ''userinit: out of memory?''
     else kbind (inituvm d initcode initcode_size s) (\<lambda>s.
       let s = updp p (\<lambda>r. r\<lparr>psz := PGSIZE\<rparr>) s;
           s = s\<lparr>ram := userinit_tf (ptf (procs s p)) (ram s)\<rparr>;
           s = updp p (\<lambda>r. r\<lparr>pname := ''initcode''\<rparr>) s
       in kbind (fs_namei F ''/'' (fsys s)) (\<lambda>(d, x).
          publish p (updp p (\<lambda>r. r\<lparr>cwd := d\<rparr>) (s\<lparr>fsys := x\<rparr>))))))"

definition switchuvm :: "nat option \<Rightarrow> 'f mlfq \<Rightarrow> 'f mlfq kres" where
  "switchuvm p s =
     (case p of None \<Rightarrow> Panic ''switchuvm: no process''
      | Some p \<Rightarrow>
        if kstack (procs s p) = 0 then Panic ''switchuvm: no kstack''
        else if pgdir (procs s p) = 0 then Panic ''switchuvm: no pgdir''
        else let s = s\<lparr>cpu := pushcli (cpu s)\<rparr> in
          kbind (mycpu s) (\<lambda>s. kbind (popcli (cpu s)) (\<lambda>c. Ok (s\<lparr>cpu := c\<rparr>))))"

definition growproc :: "int \<Rightarrow> 'f mlfq \<Rightarrow> (int \<times> 'f mlfq) kres" where
  "growproc n s = with_proc s (\<lambda>p s.
     let sz = psz (procs s p); dir = pgdir (procs s p) in
     kbind (if 0 < n then allocuvm dir sz (sz + word_of_int n) s
            else if n < 0 then deallocuvm dir sz (sz + word_of_int n) s
            else Ok (sz, s)) (\<lambda>(sz, s).
     if n \<noteq> 0 \<and> sz = 0 then Ok (-1, s)
     else kbind (switchuvm (Some p) (updp p (\<lambda>r. r\<lparr>psz := sz\<rparr>) s)) (\<lambda>s. Ok (0, s))))"

fun fork_files :: "'f fsops \<Rightarrow> nat \<Rightarrow> nat \<Rightarrow> nat list \<Rightarrow> 'f mlfq \<Rightarrow> 'f mlfq kres" where
  "fork_files F cp np [] s = Ok s"
| "fork_files F cp np (i # is) s =
     (let f = ofile (procs s cp) i in
      if f \<noteq> 0 then kbind (liftfs (fs_filedup F f) s) (\<lambda>s.
        fork_files F cp np is (updp np (\<lambda>r. r\<lparr>ofile := (ofile r)(i := f)\<rparr>) s))
      else fork_files F cp np is s)"

definition fork_copy :: "'f fsops \<Rightarrow> nat \<Rightarrow> nat \<Rightarrow> 'f mlfq \<Rightarrow> 'f mlfq kres" where
  "fork_copy F cp np s =
     (let s = updp np (\<lambda>r. r\<lparr>psz := psz (procs s cp), parent := Some cp\<rparr>) s;
          tf = ptf (procs s np);
          s = memmove_ram tf (\<lambda>k. ram s (ptf (procs s cp) + k)) TF_SIZE s;
          s = setw (tf + TF_EAX) 0 s
      in kbind (fork_files F cp np [0..<NOFILE] s) (\<lambda>s.
         kbind (liftfs (fs_idup F (cwd (procs s cp))) s) (\<lambda>s.
         Ok (updp np (\<lambda>r. r\<lparr>cwd := cwd (procs s cp), pname := take 15 (pname (procs s cp))\<rparr>) s))))"

text \<open>
  \<open>fork_body\<close> is \<open>fork\<close> from the copy of the address space to the copy of the name; it runs without
  \<open>ptable.lock\<close>, on a process table entry that is \<open>EMBRYO\<close>.  Its flag says whether it succeeded.
\<close>

definition fork_body :: "'f fsops \<Rightarrow> nat \<Rightarrow> nat \<Rightarrow> 'f mlfq \<Rightarrow> (bool \<times> 'f mlfq) kres" where
  "fork_body F cp np s =
     kbind (copyuvm (kdata s) (pgdir (procs s cp)) (psz (procs s cp)) s) (\<lambda>(d, s).
     let s = updp np (\<lambda>r. r\<lparr>pgdir := d\<rparr>) s in
     if d = 0 then
       kbind (kfree (kstack (procs s np)) s) (\<lambda>s.
       Ok (False, updp np (\<lambda>r. r\<lparr>kstack := 0, pstate := UNUSED\<rparr>) s))
     else kbind (fork_copy F cp np s) (\<lambda>s. Ok (True, s)))"

definition fork :: "'f fsops \<Rightarrow> 'f mlfq \<Rightarrow> (int \<times> 'f mlfq) kres" where
  "fork F s = with_proc s (\<lambda>cp s.
     kbind (allocproc s) (\<lambda>(np, s).
     case np of None \<Rightarrow> Ok (-1, s) | Some np \<Rightarrow>
     kbind (fork_body F cp np s) (\<lambda>(ok, s).
     if \<not> ok then Ok (-1, s)
     else let pid = pid (procs s np) in kbind (publish np s) (\<lambda>s. Ok (pid, s)))))"

section \<open>Giving up the CPU\<close>

text \<open>
  \<open>sched k\<close>: \<open>k\<close> names the caller, that is, the code after the call.  The result is the
  state at \<open>swtch\<close>.
\<close>

definition sched :: "kont \<Rightarrow> 'f mlfq \<Rightarrow> 'f mlfq kres" where
  "sched k s = with_proc s (\<lambda>p s.
     kbind (holding (slocks s LkPtable) (cpu s)) (\<lambda>(r, c).
     let s = s\<lparr>cpu := c\<rparr> in
     if \<not> r then Panic ''sched ptable.lock''
     else kbind (mycpu s) (\<lambda>s.
       if ncli (cpu s) \<noteq> 1 then Panic ''sched locks''
       else if pstate (procs s p) = RUNNING then Panic ''sched running''
       else if ifl (cpu s) then Panic ''sched interruptible''
       else Ok (updp p (\<lambda>r. r\<lparr>pkont := k, pkint := intena (cpu s)\<rparr>) s))))"

text \<open>\<open>ptable.lockproc && ptable.lockproc->pid == p->pid\<close>\<close>

definition owns_scheduler :: "nat \<Rightarrow> 'f mlfq \<Rightarrow> bool" where
  "owns_scheduler p s = (case lockproc s of None \<Rightarrow> False | Some l \<Rightarrow> pid (procs s l) = pid (procs s p))"

definition yield :: "'f mlfq \<Rightarrow> (unit, 'f mlfq) run kres" where
  "yield s = with_proc s (\<lambda>p s.
     kbind (acquire_lk LkPtable s) (\<lambda>s.
     if owns_scheduler p s then kbind (release_lk LkPtable s) (\<lambda>s. Ok (Returned () s))
     else kbind (sched KYield (make_runnable p s)) (\<lambda>s. Ok (Switched s))))"

definition sleep :: "kont \<Rightarrow> chan \<Rightarrow> lockref \<Rightarrow> 'f mlfq \<Rightarrow> 'f mlfq kres" where
  "sleep k ch lk s =
     kbind (myproc s) (\<lambda>(p, s).
     case p of None \<Rightarrow> Panic ''sleep'' | Some p \<Rightarrow>
     if lk = LkNull then Panic ''sleep without lk''
     else
       kbind (if lk \<noteq> LkPtable then kbind (acquire_lk LkPtable s) (release_lk lk) else Ok s) (\<lambda>s.
       sched k (updp p (\<lambda>r. r\<lparr>pchan := ch, pstate := SLEEPING\<rparr>) s)))"

text \<open>The end of \<open>sched\<close> and of \<open>sleep\<close>, when the process is switched to again.\<close>

definition sched_return :: "nat \<Rightarrow> 'f mlfq \<Rightarrow> 'f mlfq" where
  "sched_return p s = s\<lparr>cpu := (cpu s)\<lparr>intena := pkint (procs s p)\<rparr>\<rparr>"

definition sleep_return :: "nat \<Rightarrow> lockref \<Rightarrow> 'f mlfq \<Rightarrow> 'f mlfq kres" where
  "sleep_return p lk s =
     (let s = updp p (\<lambda>r. r\<lparr>pchan := NoChan\<rparr>) (sched_return p s)
      in if lk \<noteq> LkPtable then kbind (release_lk LkPtable s) (acquire_lk lk) else Ok s)"

definition wakeup1_step :: "chan \<Rightarrow> nat \<Rightarrow> 'f mlfq \<Rightarrow> 'f mlfq" where
  "wakeup1_step ch p s =
     (if pstate (procs s p) = SLEEPING \<and> pchan (procs s p) = ch then make_runnable p s else s)"

definition wakeup1 :: "chan \<Rightarrow> 'f mlfq \<Rightarrow> 'f mlfq" where
  "wakeup1 ch s = fold (wakeup1_step ch) [0..<NPROC] s"

definition wakeup :: "chan \<Rightarrow> 'f mlfq \<Rightarrow> 'f mlfq kres" where
  "wakeup ch s = kbind (acquire_lk LkPtable s) (\<lambda>s. release_lk LkPtable (wakeup1 ch s))"

definition kill :: "int \<Rightarrow> 'f mlfq \<Rightarrow> (int \<times> 'f mlfq) kres" where
  "kill k s =
     kbind (acquire_lk LkPtable s) (\<lambda>s.
     case find (\<lambda>p. pid (procs s p) = k) [0..<NPROC] of
       None \<Rightarrow> kbind (release_lk LkPtable s) (\<lambda>s. Ok (-1, s))
     | Some p \<Rightarrow>
         let s = updp p (\<lambda>r. r\<lparr>killed := True\<rparr>) s;
             s = (if pstate (procs s p) = SLEEPING then make_runnable p s else s)
         in kbind (release_lk LkPtable s) (\<lambda>s. Ok (0, s)))"

section \<open>Exit and wait\<close>

text \<open>The address of \<open>ptable.proc[p]\<close> as a wait channel; a null parent is the null channel.\<close>

definition proc_chan :: "nat option \<Rightarrow> chan" where
  "proc_chan p = (case p of None \<Rightarrow> NoChan | Some p \<Rightarrow> ChProc p)"

fun exit_files :: "'f fsops \<Rightarrow> nat \<Rightarrow> nat list \<Rightarrow> 'f mlfq \<Rightarrow> 'f mlfq kres" where
  "exit_files F cp [] s = Ok s"
| "exit_files F cp (fd # fds) s =
     (if ofile (procs s cp) fd \<noteq> 0
      then kbind (liftfs (fs_fileclose F (ofile (procs s cp) fd)) s) (\<lambda>s.
        exit_files F cp fds (updp cp (\<lambda>r. r\<lparr>ofile := (ofile r)(fd := 0)\<rparr>) s))
      else exit_files F cp fds s)"

definition exit_fs :: "'f fsops \<Rightarrow> nat \<Rightarrow> 'f mlfq \<Rightarrow> 'f mlfq kres" where
  "exit_fs F cp s =
     (if initproc s = Some cp then Panic ''init exiting''
      else kbind (exit_files F cp [0..<NOFILE] s) (\<lambda>s.
        kbind (liftfs (fs_begin_op F) s) (\<lambda>s.
        kbind (liftfs (fs_iput F (cwd (procs s cp))) s) (\<lambda>s.
        kbind (liftfs (fs_end_op F) s) (\<lambda>s.
        Ok (updp cp (\<lambda>r. r\<lparr>cwd := 0\<rparr>) s))))))"

definition reparent_step :: "nat \<Rightarrow> nat \<Rightarrow> 'f mlfq \<Rightarrow> 'f mlfq" where
  "reparent_step cp p s =
     (if parent (procs s p) = Some cp
      then let s = updp p (\<lambda>r. r\<lparr>parent := initproc s\<rparr>) s
           in if pstate (procs s p) = ZOMBIE then wakeup1 (proc_chan (initproc s)) s else s
      else s)"

definition exit_sched :: "nat \<Rightarrow> 'f mlfq \<Rightarrow> 'f mlfq kres" where
  "exit_sched cp s =
     kbind (acquire_lk LkPtable s) (\<lambda>s.
     let s = wakeup1 (proc_chan (parent (procs s cp))) s;
         s = fold (reparent_step cp) [0..<NPROC] s;
         s = set_state cp ZOMBIE s;
         s = (if lockproc s \<noteq> None then s\<lparr>lockproc := None\<rparr> else s)
     in sched KExit s)"

definition exit :: "'f fsops \<Rightarrow> 'f mlfq \<Rightarrow> 'f mlfq kres" where
  "exit F s = with_proc s (\<lambda>cp s. kbind (exit_fs F cp s) (exit_sched cp))"

text \<open>
  \<open>wait_loop\<close> is one round of the loop of \<open>wait\<close>, entered with the lock held.  The first zombie
  child in table order is reaped; the flag \<open>havekids\<close> is only read when there is none.
\<close>

definition wait_loop :: "nat \<Rightarrow> 'f mlfq \<Rightarrow> (int, 'f mlfq) run kres" where
  "wait_loop cp s =
     (case find (\<lambda>p. parent (procs s p) = Some cp \<and> pstate (procs s p) = ZOMBIE) [0..<NPROC] of
        Some p \<Rightarrow>
          let k = pid (procs s p) in
          kbind (kfree (kstack (procs s p)) s) (\<lambda>s.
          let s = updp p (\<lambda>r. r\<lparr>kstack := 0\<rparr>) s in
          kbind (freevm (pgdir (procs s p)) s) (\<lambda>s.
          let s = updp p (\<lambda>r. r\<lparr>pid := 0, parent := None, pname := [], killed := False,
                              pstate := UNUSED\<rparr>) s
          in kbind (release_lk LkPtable s) (\<lambda>s. Ok (Returned k s))))
      | None \<Rightarrow>
          if (\<forall>p\<in>{..<NPROC}. parent (procs s p) \<noteq> Some cp) \<or> killed (procs s cp)
          then kbind (release_lk LkPtable s) (\<lambda>s. Ok (Returned (-1) s))
          else kbind (sleep KWait (ChProc cp) LkPtable s) (\<lambda>s. Ok (Switched s)))"

definition wait :: "'f mlfq \<Rightarrow> (int, 'f mlfq) run kres" where
  "wait s = with_proc s (\<lambda>cp s. kbind (acquire_lk LkPtable s) (wait_loop cp))"

section \<open>Scheduler system calls\<close>

definition getLevel :: "'f mlfq \<Rightarrow> (nat \<times> 'f mlfq) kres" where
  "getLevel s = with_proc s (\<lambda>p s. Ok (level (procs s p), s))"

definition setPriority :: "int \<Rightarrow> int \<Rightarrow> 'f mlfq \<Rightarrow> 'f mlfq" where
  "setPriority k prio s =
     (if prio < 0 \<or> 3 < prio then s
      else case find (\<lambda>p. pid (procs s p) = k) [0..<NPROC] of
        Some p \<Rightarrow> updp p (\<lambda>r. r\<lparr>priority := prio\<rparr>) s
      | None \<Rightarrow> s)"

definition schedulerLock :: "'f fsops \<Rightarrow> int \<Rightarrow> 'f mlfq \<Rightarrow> (unit, 'f mlfq) run kres" where
  "schedulerLock F password s = with_proc s (\<lambda>p s.
     if password \<noteq> PASSWORD then kbind (exit F s) (\<lambda>s. Ok (Switched s))
     else kbind (acquire_lk LkPtable s) (\<lambda>s.
       if lockproc s \<noteq> None then kbind (release_lk LkPtable s) (\<lambda>s. Ok (Returned () s))
       else
         let s = s\<lparr>lockproc := Some p\<rparr> in
         kbind (release_lk LkPtable s) (\<lambda>s.
         kbind (acquire_lk LkMlfqTicks s) (\<lambda>s.
         let s = s\<lparr>mlfqticks := 0\<rparr> in
         kbind (release_lk LkMlfqTicks s) (\<lambda>s. Ok (Returned () s))))))"

definition schedulerUnlock :: "'f fsops \<Rightarrow> int \<Rightarrow> 'f mlfq \<Rightarrow> (unit, 'f mlfq) run kres" where
  "schedulerUnlock F password s = with_proc s (\<lambda>p s.
     if password \<noteq> PASSWORD then kbind (exit F s) (\<lambda>s. Ok (Switched s))
     else kbind (acquire_lk LkPtable s) (\<lambda>s.
       case lockproc s of
         None \<Rightarrow> kbind (release_lk LkPtable s) (\<lambda>s. Ok (Returned () s))
       | Some l \<Rightarrow>
         if pid (procs s l) \<noteq> pid (procs s p)
         then kbind (release_lk LkPtable s) (\<lambda>s. Ok (Returned () s))
         else
           let s = s\<lparr>lockproc := None\<rparr>;
               s = updp p (\<lambda>r. r\<lparr>level := 0, usedtime := 0, priority := 3, pstate := RUNNABLE\<rparr>) s;
               s = updq 0 (\<lambda>q. insertqueue q p) s
           in kbind (sched KUnlock s) (\<lambda>s. Ok (Switched s))))"

section \<open>The scheduler\<close>

definition pick_head :: "'f mlfq \<Rightarrow> nat option" where
  "pick_head s = (case find (\<lambda>i. 0 < qsize (mlevels s i)) [0..<3] of
     None \<Rightarrow> None | Some i \<Rightarrow> Some (qprocs (mlevels s i) 0))"

definition pick_min :: "'f mlfq \<Rightarrow> nat \<Rightarrow> nat" where
  "pick_min s p = fold (\<lambda>i p.
     let q = qprocs (mlevels s 2) i in
     if priority (procs s q) < priority (procs s p) then q else p) [1..<qsize (mlevels s 2)] p"

definition pick :: "'f mlfq \<Rightarrow> nat option" where
  "pick s = (case pick_head s of None \<Rightarrow> None
     | Some p \<Rightarrow> Some (if level (procs s p) = 2 then pick_min s p else p))"

definition unqueue :: "nat \<Rightarrow> 'f mlfq \<Rightarrow> 'f mlfq" where
  "unqueue p s =
     (if level (procs s p) = 2
      then updq 2 (\<lambda>q. removeq (\<lambda>x. pid (procs s x)) q (pid (procs s p))) s
      else updq (level (procs s p)) dequeue s)"

definition charge :: "nat \<Rightarrow> 'f mlfq \<Rightarrow> 'f mlfq" where
  "charge p s =
     (let s = updp p (\<lambda>r. r\<lparr>usedtime := usedtime r + 1\<rparr>) s in
      if timequantum (mlevels s (level (procs s p))) \<le> usedtime (procs s p) then
        (if level (procs s p) < 2
         then updp p (\<lambda>r. r\<lparr>usedtime := 0, level := level r + 1\<rparr>) s
         else updp p (\<lambda>r. r\<lparr>usedtime := 0,
                priority := if 0 < priority r then priority r - 1 else priority r\<rparr>) s)
      else s)"

text \<open>
  One round of \<open>mlfqscheduler\<close> up to the context switch, and what follows when the process
  switches back.
\<close>

definition scheduler_iter :: "'f mlfq \<Rightarrow> (nat option \<times> 'f mlfq) kres" where
  "scheduler_iter s =
     (let s = s\<lparr>cpu := (cpu s)\<lparr>ifl := True\<rparr>\<rparr> in
      kbind (acquire_lk LkPtable s) (\<lambda>s.
      case pick s of
        None \<Rightarrow> kbind (release_lk LkPtable s) (\<lambda>s. Ok (None, s))
      | Some p \<Rightarrow>
          let s = s\<lparr>cpu := (cpu s)\<lparr>cproc := Some p\<rparr>\<rparr> in
          kbind (switchuvm (Some p) s) (\<lambda>s.
          let s = set_state p RUNNING s; s = unqueue p s; s = charge p s in Ok (Some p, s))))"

definition scheduler_back :: "'f mlfq \<Rightarrow> 'f mlfq kres" where
  "scheduler_back s = release_lk LkPtable (s\<lparr>cpu := (cpu s)\<lparr>cproc := None\<rparr>\<rparr>)"

definition forkret :: "'f fsops \<Rightarrow> 'f mlfq \<Rightarrow> 'f mlfq kres" where
  "forkret F s =
     kbind (release_lk LkPtable s) (\<lambda>s.
     if firstret s then
       let s = s\<lparr>firstret := False\<rparr> in
       kbind (liftfs (fs_iinit F 1) s) (\<lambda>s. liftfs (fs_initlog F 1) s)
     else Ok s)"

section \<open>Timer\<close>

function boost_loop :: "nat \<Rightarrow> nat \<Rightarrow> 'f mlfq \<Rightarrow> 'f mlfq" where
  "boost_loop i k s =
     (if k < qsize (mlevels s i) then
        (let p = qprocs (mlevels s i) 0;
             s = updp p (\<lambda>r. r\<lparr>priority := 3, usedtime := 0, level := 0\<rparr>) s;
             s = (if 0 < i then updq 0 (\<lambda>q. enqueue q p) (updq i dequeue s) else s)
         in boost_loop i (k + 1) s)
      else s)"
  by pat_completeness auto
termination
  by (relation "measure (\<lambda>(i, k, s). qsize (mlevels s i) - k)") (auto simp: updp_def updq_def)

declare boost_loop.simps [simp del]

definition priorityboosting :: "'f mlfq \<Rightarrow> 'f mlfq kres" where
  "priorityboosting s =
     kbind (acquire_lk LkPtable s) (\<lambda>s.
     let s = fold (\<lambda>i. boost_loop i 0) [0..<3] s;
         s = (case lockproc s of None \<Rightarrow> s
              | Some p \<Rightarrow> updp p (\<lambda>r. r\<lparr>level := 0, usedtime := 0, priority := 3\<rparr>)
                           (s\<lparr>lockproc := None\<rparr>))
     in release_lk LkPtable s)"

text \<open>The timer interrupt on CPU 0, before \<open>yield\<close>.\<close>

definition timer_tick :: "'f mlfq \<Rightarrow> 'f mlfq kres" where
  "timer_tick s =
     kbind (acquire_lk LkTicks s) (\<lambda>s.
     kbind (acquire_lk LkMlfqTicks s) (\<lambda>s.
     let s = s\<lparr>ticks := ticks s + 1\<rparr>;
         s = s\<lparr>mlfqticks := (mlfqticks s + 1) mod 100\<rparr> in
     kbind (if mlfqticks s = 0 then priorityboosting s else Ok s) (\<lambda>s.
     kbind (wakeup ChTicks s) (\<lambda>s.
     kbind (release_lk LkMlfqTicks s) (release_lk LkTicks)))))"

definition sys_sleep_loop :: "u32 \<Rightarrow> u32 \<Rightarrow> nat \<Rightarrow> 'f mlfq \<Rightarrow> (int, 'f mlfq) run kres" where
  "sys_sleep_loop t0 n cp s =
     (if ticks s - t0 < n then
        if killed (procs s cp) then kbind (release_lk LkTicks s) (\<lambda>s. Ok (Returned (-1) s))
        else kbind (sleep (KSysSleep t0 n) ChTicks LkTicks s) (\<lambda>s. Ok (Switched s))
      else kbind (release_lk LkTicks s) (\<lambda>s. Ok (Returned 0 s)))"

definition sys_sleep :: "u32 \<Rightarrow> 'f mlfq \<Rightarrow> (int, 'f mlfq) run kres" where
  "sys_sleep n s =
     kbind (acquire_lk LkTicks s) (\<lambda>s. with_proc s (\<lambda>cp s. sys_sleep_loop (ticks s) n cp s))"

definition sys_uptime :: "'f mlfq \<Rightarrow> (u32 \<times> 'f mlfq) kres" where
  "sys_uptime s =
     kbind (acquire_lk LkTicks s) (\<lambda>s.
     let x = ticks s in kbind (release_lk LkTicks s) (\<lambda>s. Ok (x, s)))"

definition sys_sbrk :: "int \<Rightarrow> 'f mlfq \<Rightarrow> (int \<times> 'f mlfq) kres" where
  "sys_sbrk n s = with_proc s (\<lambda>cp s.
     let addr = psz (procs s cp) in
     kbind (growproc n s) (\<lambda>(r, s). Ok (if r < 0 then -1 else sint addr, s)))"

section \<open>Switching back to a process\<close>

text \<open>
  \<open>KSleep lk\<close> stands for every other caller of \<open>sleep\<close> (the file system, pipes, the console):
  it ends its critical section on \<open>lk\<close>; if it sleeps again, that is another call of \<open>sleep\<close>.
\<close>

definition resume :: "'f fsops \<Rightarrow> nat \<Rightarrow> 'f mlfq \<Rightarrow> (int, 'f mlfq) run kres" where
  "resume F p s =
     (case pkont (procs s p) of
        KForkret \<Rightarrow> kbind (forkret F s) (\<lambda>s. Ok (Returned 0 s))
      | KYield \<Rightarrow> kbind (release_lk LkPtable (sched_return p s)) (\<lambda>s. Ok (Returned 0 s))
      | KUnlock \<Rightarrow> kbind (release_lk LkPtable (sched_return p s)) (\<lambda>s. Ok (Returned 0 s))
      | KExit \<Rightarrow> Panic ''zombie exit''
      | KWait \<Rightarrow> kbind (sleep_return p LkPtable s) (wait_loop p)
      | KSysSleep t0 n \<Rightarrow> kbind (sleep_return p LkTicks s) (sys_sleep_loop t0 n p)
      | KSleep lk \<Rightarrow> kbind (sleep_return p lk s) (\<lambda>s.
          kbind (release_lk lk s) (\<lambda>s. Ok (Returned 0 s))))"

text \<open>After a handler: the process goes on, or the scheduler does.\<close>

definition settle :: "('a, 'f mlfq) run \<Rightarrow> 'f mlfq kres" where
  "settle r = (case r of Returned _ s \<Rightarrow> Ok s | Switched s \<Rightarrow> scheduler_back s)"

definition dispatch :: "'f fsops \<Rightarrow> 'f mlfq \<Rightarrow> 'f mlfq kres" where
  "dispatch F s = kbind (scheduler_iter s) (\<lambda>(p, s).
     case p of None \<Rightarrow> Ok s | Some p \<Rightarrow> kbind (resume F p s) settle)"

section \<open>The trap handler\<close>

datatype trapno = TSyscall | TLock | TUnlock | TTimer | TDevice | TSpurious | TOther

text \<open>The tests of \<open>trap\<close> after the \<open>switch\<close>; \<open>user\<close> is \<open>(tf->cs&3) == DPL_USER\<close>.\<close>

definition trap_killed :: "'f fsops \<Rightarrow> bool \<Rightarrow> 'f mlfq \<Rightarrow> (unit, 'f mlfq) run kres" where
  "trap_killed F user s = kbind (myproc s) (\<lambda>(p, s).
     if (case p of None \<Rightarrow> False | Some p \<Rightarrow> killed (procs s p)) \<and> user
     then kbind (exit F s) (\<lambda>s. Ok (Switched s)) else Ok (Returned () s))"

definition run_bind :: "('a, 's) run kres \<Rightarrow> ('s \<Rightarrow> ('b, 's) run kres) \<Rightarrow> ('b, 's) run kres" where
  "run_bind m f = kbind m (\<lambda>r. case r of Returned _ s \<Rightarrow> f s | Switched s \<Rightarrow> Ok (Switched s))"

definition trap_tail :: "'f fsops \<Rightarrow> bool \<Rightarrow> trapno \<Rightarrow> 'f mlfq \<Rightarrow> (unit, 'f mlfq) run kres" where
  "trap_tail F user t s =
     run_bind (trap_killed F user s) (\<lambda>s. kbind (myproc s) (\<lambda>(p, s).
     run_bind (if (case p of None \<Rightarrow> False | Some p \<Rightarrow> pstate (procs s p) = RUNNING) \<and> t = TTimer
               then yield s else Ok (Returned () s)) (trap_killed F user)))"

text \<open>
  \<open>syscall_body\<close> is the call of \<open>syscall\<close>, \<open>device\<close> the interrupt routine of a device, \<open>tf\<close> the address
  of the trap frame, \<open>user\<close> and \<open>t\<close> its privilege level and trap number.
\<close>

definition trap :: "'f fsops \<Rightarrow> ('f mlfq \<Rightarrow> (unit, 'f mlfq) run kres) \<Rightarrow> ('f mlfq \<Rightarrow> 'f mlfq kres) \<Rightarrow>
    u32 \<Rightarrow> bool \<Rightarrow> trapno \<Rightarrow> 'f mlfq \<Rightarrow> (unit, 'f mlfq) run kres" where
  "trap F syscall_body device tf user t s =
     (case t of
        TSyscall \<Rightarrow> with_proc s (\<lambda>p s.
          if killed (procs s p) then kbind (exit F s) (\<lambda>s. Ok (Switched s))
          else run_bind (syscall_body (updp p (\<lambda>r. r\<lparr>ptf := tf\<rparr>) s)) (\<lambda>s. with_proc s (\<lambda>p s.
            if killed (procs s p) then kbind (exit F s) (\<lambda>s. Ok (Switched s)) else Ok (Returned () s))))
      | TLock \<Rightarrow> run_bind (schedulerLock F PASSWORD s) (trap_tail F user t)
      | TUnlock \<Rightarrow> run_bind (schedulerUnlock F PASSWORD s) (trap_tail F user t)
      | TTimer \<Rightarrow> kbind (if cpuid (cpu s) = 0 then timer_tick s else Ok s) (trap_tail F user t)
      | TDevice \<Rightarrow> kbind (device s) (trap_tail F user t)
      | TSpurious \<Rightarrow> trap_tail F user t s
      | TOther \<Rightarrow> kbind (myproc s) (\<lambda>(p, s).
          case p of None \<Rightarrow> Panic ''trap''
          | Some p \<Rightarrow> if \<not> user then Panic ''trap''
                      else trap_tail F user t (updp p (\<lambda>r. r\<lparr>killed := True\<rparr>) s)))"

end
