(* ===== verification/Mlfq_Inv.thy ===== *)
theory Mlfq_Inv
  imports Mlfq_Proc
begin

text \<open>
  The scheduler's invariant and its preservation by every critical section of \<open>proc.c\<close>.

  \<open>queues_ok L P\<close> relates the three queues to the process table: a process is in a queue iff it is
  \<open>RUNNABLE\<close>, then in the queue of its level and in no other, once.  \<open>mlfq_inv\<close> adds the ranges of the
  scheduling fields, the process numbers, the running process and the lock holder;
  \<open>quiet\<close> says that no spinlock is held, which is the state between two handlers.
\<close>

section \<open>Queues and process table\<close>

definition queues_ok :: "(nat \<Rightarrow> queue) \<Rightarrow> (nat \<Rightarrow> proc) \<Rightarrow> bool" where
  "queues_ok L P \<longleftrightarrow>
     (\<forall>i<3. timequantum (L i) = 2 * i + 4 \<and> qwf (L i) \<and> distinct (qlist (L i)))
     \<and> (\<forall>i<3. \<forall>p\<in>set (qlist (L i)). p < NPROC \<and> level (P p) = i \<and> pstate (P p) = RUNNABLE)
     \<and> (\<forall>p<NPROC. pstate (P p) = RUNNABLE \<longrightarrow> level (P p) < 3 \<and> p \<in> set (qlist (L (level (P p)))))"

lemma queues_okI:
  assumes "\<And>i. i < 3 \<Longrightarrow> timequantum (L i) = 2 * i + 4 \<and> qwf (L i) \<and> distinct (qlist (L i))"
    and "\<And>i p. i < 3 \<Longrightarrow> p \<in> set (qlist (L i)) \<Longrightarrow> p < NPROC \<and> level (P p) = i \<and> pstate (P p) = RUNNABLE"
    and "\<And>p. p < NPROC \<Longrightarrow> pstate (P p) = RUNNABLE \<Longrightarrow> level (P p) < 3 \<and> p \<in> set (qlist (L (level (P p))))"
  shows "queues_ok L P"
  using assms unfolding queues_ok_def by blast

lemma queues_okD:
  assumes "queues_ok L P" and "i < 3"
  shows "timequantum (L i) = 2 * i + 4" "qwf (L i)" "distinct (qlist (L i))"
    and "p \<in> set (qlist (L i)) \<Longrightarrow> p < NPROC \<and> level (P p) = i \<and> pstate (P p) = RUNNABLE"
  using assms by (auto simp: queues_ok_def)

lemma queues_ok_runnable:
  "queues_ok L P \<Longrightarrow> p < NPROC \<Longrightarrow> pstate (P p) = RUNNABLE \<Longrightarrow>
     level (P p) < 3 \<and> p \<in> set (qlist (L (level (P p))))"
  by (auto simp: queues_ok_def)

text \<open>A queue never overflows: \<open>enqueue\<close> and \<open>insertqueue\<close> never drop a process.\<close>

lemma queues_ok_room:
  assumes "queues_ok L P" and "i < 3" and "p < NPROC" and "p \<notin> set (qlist (L i))"
  shows "qsize (L i) < NPROC"
  using mq.fits [of "L i" "{..<NPROC}" p] assms queues_okD [OF assms(1,2)]
  by (auto simp: subset_iff)

lemma queues_ok_add:
  assumes ok: "queues_ok L P" and p: "p < NPROC" "pstate (P p) \<noteq> RUNNABLE"
    and r: "pstate r = RUNNABLE" "level r = i" "i < 3"
    and q: "set (qlist q) = insert p (set (qlist (L i)))" "distinct (qlist q)" "qwf q"
      "timequantum q = timequantum (L i)"
  shows "queues_ok (L(i := q)) (P(p := r))"
proof -
  have "p \<notin> set (qlist (L j))" if "j < 3" for j
    using queues_okD(4) [OF ok that] p by auto
  then have out: "\<And>j. j < 3 \<Longrightarrow> p \<notin> set (qlist (L j))" by blast
  show ?thesis
  proof (rule queues_okI)
    fix x assume x: "x < NPROC" "pstate ((P(p := r)) x) = RUNNABLE"
    show "level ((P(p := r)) x) < 3 \<and> x \<in> set (qlist ((L(i := q)) (level ((P(p := r)) x))))"
      using queues_ok_runnable [OF ok, of x] x r q(1) by (cases "x = p"; cases "level (P x) = i") auto
  qed (use p r q queues_okD [OF ok] out in \<open>auto split: if_splits\<close>)
qed

lemma queues_ok_enqueue:
  assumes "queues_ok L P" and "p < NPROC" and "pstate (P p) \<noteq> RUNNABLE"
    and "pstate r = RUNNABLE" and "level r = i" and "i < 3"
  shows "queues_ok (L(i := enqueue (L i) p)) (P(p := r))"
    and "qlist (enqueue (L i) p) = qlist (L i) @ [p]"
proof -
  have p: "p \<notin> set (qlist (L i))" using queues_okD(4) [OF assms(1,6)] assms(3) by auto
  have room: "qsize (L i) < NPROC" by (rule queues_ok_room [OF assms(1,6,2) p])
  then show q: "qlist (enqueue (L i) p) = qlist (L i) @ [p]" by (simp add: queue_laws)
  show "queues_ok (L(i := enqueue (L i) p)) (P(p := r))"
    using p queues_okD(2,3) [OF assms(1,6)] room
    by (intro queues_ok_add [OF assms(1-6)]) (auto simp: q queue_laws)
qed

lemma queues_ok_front:
  assumes "queues_ok L P" and "p < NPROC" and "pstate (P p) \<noteq> RUNNABLE"
    and "pstate r = RUNNABLE" and "level r = i" and "i < 3"
  shows "queues_ok (L(i := insertqueue (L i) p)) (P(p := r))"
    and "qlist (insertqueue (L i) p) = p # qlist (L i)"
proof -
  have p: "p \<notin> set (qlist (L i))" using queues_okD(4) [OF assms(1,6)] assms(3) by auto
  have room: "qsize (L i) < NPROC" by (rule queues_ok_room [OF assms(1,6,2) p])
  then show q: "qlist (insertqueue (L i) p) = p # qlist (L i)" by (simp add: queue_laws)
  show "queues_ok (L(i := insertqueue (L i) p)) (P(p := r))"
    using p queues_okD(2,3) [OF assms(1,6)] room
    by (intro queues_ok_add [OF assms(1-6)]) (auto simp: q queue_laws)
qed

lemma queues_ok_take:
  assumes ok: "queues_ok L P" and i: "i < 3" and p: "p \<in> set (qlist (L i))"
    and r: "pstate r \<noteq> RUNNABLE"
    and q: "set (qlist q) = set (qlist (L i)) - {p}" "distinct (qlist q)" "qwf q"
      "timequantum q = timequantum (L i)"
  shows "queues_ok (L(i := q)) (P(p := r))"
proof -
  have "level (P p) = i" "p < NPROC" using queues_okD(4) [OF ok i p] by auto
  moreover have "p \<notin> set (qlist (L j))" if "j < 3" "j \<noteq> i" for j
    using queues_okD(4) [OF ok that(1), of p] calculation that by auto
  ultimately have out: "\<And>j. j < 3 \<Longrightarrow> j \<noteq> i \<Longrightarrow> p \<notin> set (qlist (L j))" and "level (P p) = i"
    by blast+
  show ?thesis
  proof (rule queues_okI)
    fix j :: nat assume "j < 3"
    then show "timequantum ((L(i := q)) j) = 2 * j + 4 \<and> qwf ((L(i := q)) j) \<and> distinct (qlist ((L(i := q)) j))"
      using queues_okD(1-3) [OF ok] q i by auto
  next
    fix j x :: nat assume j: "j < 3" "x \<in> set (qlist ((L(i := q)) j))"
    then have "x \<noteq> p" "x \<in> set (qlist (L j))" using out [OF j(1)] q(1) by (auto split: if_splits)
    then show "x < NPROC \<and> level ((P(p := r)) x) = j \<and> pstate ((P(p := r)) x) = RUNNABLE"
      using queues_okD(4) [OF ok j(1)] by simp
  next
    fix x assume x: "x < NPROC" "pstate ((P(p := r)) x) = RUNNABLE"
    then have "x \<noteq> p" using r by auto
    then show "level ((P(p := r)) x) < 3 \<and> x \<in> set (qlist ((L(i := q)) (level ((P(p := r)) x))))"
      using queues_ok_runnable [OF ok, of x] x q(1) by auto
  qed
qed

lemma queues_ok_idle:
  assumes "queues_ok L P" and "pstate (P p) \<noteq> RUNNABLE" and "pstate r \<noteq> RUNNABLE"
  shows "queues_ok L (P(p := r))"
proof -
  have "p \<notin> set (qlist (L j))" if "j < 3" for j
    using queues_okD(4) [OF assms(1) that] assms(2) by auto
  then show ?thesis
    using assms(2,3) queues_okD [OF assms(1)] queues_ok_runnable [OF assms(1)]
    by (intro queues_okI) (auto split: if_splits)
qed

lemma queues_ok_same:
  assumes "queues_ok L P" and "pstate r = pstate (P p)" and "level r = level (P p)"
  shows "queues_ok L (P(p := r))"
  using assms(2,3) queues_okD [OF assms(1)] queues_ok_runnable [OF assms(1)]
  by (intro queues_okI) (auto split: if_splits)

lemma queues_ok_cong:
  "(\<And>p. pstate (P' p) = pstate (P p) \<and> level (P' p) = level (P p)) \<Longrightarrow> queues_ok L P' = queues_ok L P"
  by (simp add: queues_ok_def)

section \<open>The invariant\<close>

definition proc_ok :: "int \<Rightarrow> proc \<Rightarrow> bool" where
  "proc_ok n r \<longleftrightarrow> level r < 3 \<and> usedtime r < 2 * level r + 4 \<and> 0 \<le> priority r \<and> priority r \<le> 3
     \<and> 0 \<le> pid r \<and> pid r < n \<and> (pstate r \<noteq> UNUSED \<longrightarrow> 0 < pid r)
     \<and> (pstate r \<in> {SLEEPING, RUNNABLE, RUNNING} \<longrightarrow> kstack r \<noteq> 0 \<and> pgdir r \<noteq> 0 \<and> pkont r \<noteq> KExit)
     \<and> (pstate r = EMBRYO \<and> kstack r \<noteq> 0 \<longrightarrow> pkont r \<noteq> KExit) \<and> (pstate r = UNUSED \<longrightarrow> kstack r = 0)"

definition pids_ok :: "(nat \<Rightarrow> proc) \<Rightarrow> bool" where
  "pids_ok P \<longleftrightarrow> (\<forall>p<NPROC. \<forall>q<NPROC. pid (P p) = pid (P q) \<and> pid (P p) \<noteq> 0 \<longrightarrow> p = q)"

definition holder_ok :: "(nat \<Rightarrow> proc) \<Rightarrow> nat option \<Rightarrow> bool" where
  "holder_ok P h \<longleftrightarrow> (\<forall>l. h = Some l \<longrightarrow> l < NPROC \<and> pstate (P l) \<in> {SLEEPING, RUNNABLE, RUNNING})"

definition core_ok :: "(nat \<Rightarrow> queue) \<Rightarrow> (nat \<Rightarrow> proc) \<Rightarrow> int \<Rightarrow> nat option \<Rightarrow> bool" where
  "core_ok L P n h \<longleftrightarrow> queues_ok L P \<and> (\<forall>p<NPROC. proc_ok n (P p)) \<and> pids_ok P \<and> holder_ok P h \<and> 0 < n"

definition core_inv :: "'f mlfq \<Rightarrow> bool" where
  "core_inv s \<longleftrightarrow> core_ok (mlevels s) (procs s) (nextpid s) (lockproc s)"

definition running :: "nat set \<Rightarrow> (nat \<Rightarrow> proc) \<Rightarrow> nat option \<Rightarrow> bool" where
  "running R P c \<longleftrightarrow> (\<forall>p. c = Some p \<longrightarrow> p < NPROC \<and> p \<notin> R) \<and> (\<forall>p<NPROC. pstate (P p) = RUNNING \<longleftrightarrow> c = Some p \<or> p \<in> R)"

definition mlfq_inv :: "nat set \<Rightarrow> 'f mlfq \<Rightarrow> bool" where
  "mlfq_inv R s \<longleftrightarrow> core_inv s \<and> running R (procs s) (cproc (cpu s))"

section \<open>Lock states\<close>

text \<open>\<open>lkst s H\<close>: this CPU holds exactly the spinlocks \<open>H\<close>, and nobody holds another one.\<close>

definition lkst :: "'f mlfq \<Rightarrow> lockref list \<Rightarrow> bool" where
  "lkst s H \<longleftrightarrow> (\<forall>l. slocks s l = (if l \<in> set H then taken (cpu s) else initlock))
     \<and> ncli (cpu s) = int (length H) \<and> (H \<noteq> [] \<longrightarrow> \<not> ifl (cpu s)) \<and> distinct H \<and> kmem_lock s = initlock"

definition popped :: "cpu \<Rightarrow> cpu" where
  "popped c = c\<lparr>ncli := ncli c - 1, ifl := (ncli c = 1 \<and> intena c)\<rparr>"

lemma popped_simps [simp]: "cproc (popped c) = cproc c" "cpuid (popped c) = cpuid c"
  "taken (popped c) = taken c" "ncli (popped c) = ncli c - 1"
  by (simp_all add: popped_def taken_def)

lemma lkst_cpu_wf: "lkst s H \<Longrightarrow> cpu_wf (cpu s)"
  by (auto simp: lkst_def cpu_wf_def)

lemma lkst_kmem: "lkst s H \<Longrightarrow> kmem_ready s"
  by (simp add: kmem_ready_def lkst_cpu_wf) (simp add: lkst_def)

lemma taken_intena [simp]: "taken (c\<lparr>intena := b\<rparr>) = taken c" "taken (c\<lparr>ifl := b\<rparr>) = taken c"
  by (simp_all add: taken_def)

lemma lkst_simps [simp]:
  "lkst (s\<lparr>procs := P\<rparr>) H = lkst s H" "lkst (s\<lparr>mlevels := L\<rparr>) H = lkst s H"
  "lkst (s\<lparr>lockproc := l\<rparr>) H = lkst s H" "lkst (s\<lparr>nextpid := n\<rparr>) H = lkst s H"
  "lkst (s\<lparr>ticks := t\<rparr>) H = lkst s H" "lkst (s\<lparr>mlfqticks := t\<rparr>) H = lkst s H"
  "lkst (s\<lparr>firstret := f\<rparr>) H = lkst s H" "lkst (s\<lparr>fsys := x\<rparr>) H = lkst s H"
  "lkst (s\<lparr>initproc := q\<rparr>) H = lkst s H" "lkst (s\<lparr>ram := m\<rparr>) H = lkst s H"
  "lkst (s\<lparr>kmem_freelist := a\<rparr>) H = lkst s H"
  "lkst (s\<lparr>cpu := touch (cpu s)\<rparr>) H = lkst s H"
  by (simp_all add: lkst_def)

lemma lkst_cpu [simp]:
  "lkst (s\<lparr>cpu := c\<lparr>intena := b\<rparr>\<rparr>) H = lkst (s\<lparr>cpu := c\<rparr>) H"
  "lkst (s\<lparr>cpu := c\<lparr>cproc := p\<rparr>\<rparr>) H = lkst (s\<lparr>cpu := c\<rparr>) H"
  by (simp_all add: lkst_def)

lemma lkst_updp [simp]: "lkst (updp p f s) H = lkst s H" "lkst (updq i g s) H = lkst s H"
  by (simp_all add: updp_def updq_def)

lemma acquire_lk_run:
  assumes "lkst s H" and "l \<notin> set H"
  shows "acquire_lk l s = Ok (s\<lparr>slocks := (slocks s)(l := taken (cpu s)), cpu := pushcli (cpu s)\<rparr>)"
    and "lkst (s\<lparr>slocks := (slocks s)(l := taken (cpu s)), cpu := pushcli (cpu s)\<rparr>) (l # H)"
proof -
  have "slocks s l = initlock" using assms by (simp add: lkst_def)
  then show "acquire_lk l s = Ok (s\<lparr>slocks := (slocks s)(l := taken (cpu s)), cpu := pushcli (cpu s)\<rparr>)"
    using lkst_cpu_wf [OF assms(1)] by (simp add: acquire_lk_def)
qed (use assms in \<open>auto simp: lkst_def\<close>)

lemma release_lk_run:
  assumes "lkst s H" and "l \<in> set H"
  shows "release_lk l s = Ok (s\<lparr>slocks := (slocks s)(l := initlock), cpu := popped (cpu s)\<rparr>)"
    and "lkst (s\<lparr>slocks := (slocks s)(l := initlock), cpu := popped (cpu s)\<rparr>) (remove1 l H)"
proof -
  have l: "slocks s l = taken (cpu s)" and n: "0 < ncli (cpu s)" "\<not> ifl (cpu s)"
    using assms by (auto simp: lkst_def)
  have "release (slocks s l) (cpu s) = Ok (initlock, popped (cpu s))"
    unfolding l using release_held [OF holds_taken n]
    by (simp add: initlock_def taken_def popped_def)
  then show "release_lk l s = Ok (s\<lparr>slocks := (slocks s)(l := initlock), cpu := popped (cpu s)\<rparr>)"
    by (simp add: release_lk_def)
  have "length H = 1 \<Longrightarrow> remove1 l H = []" using assms(2) by (cases H) auto
  moreover have "0 < length H" using assms(2) by (cases H) auto
  ultimately show "lkst (s\<lparr>slocks := (slocks s)(l := initlock), cpu := popped (cpu s)\<rparr>) (remove1 l H)"
    using assms by (auto simp: lkst_def length_remove1 popped_def taken_def Suc_le_eq)
qed

lemma myproc_run:
  assumes "lkst s H"
  shows "myproc s = Ok (cproc (cpu s), s\<lparr>cpu := touch (cpu s)\<rparr>)"
  using popcli_pushcli_touch [OF lkst_cpu_wf [OF assms]] by (simp add: myproc_def mycpu_def)

lemma with_proc_run:
  "lkst s H \<Longrightarrow> cproc (cpu s) = Some p \<Longrightarrow> with_proc s f = f p (s\<lparr>cpu := touch (cpu s)\<rparr>)"
  by (simp add: with_proc_def myproc_run)

lemma sched_run:
  assumes "lkst s [LkPtable]" and "cproc (cpu s) = Some p" and "pstate (procs s p) \<noteq> RUNNING"
  shows "sched k s = Ok (updp p (\<lambda>r. r\<lparr>pkont := k, pkint := intena (cpu s)\<rparr>) s)"
proof -
  have s: "slocks s LkPtable = taken (cpu s)" "ncli (cpu s) = 1" "\<not> ifl (cpu s)" "touch (cpu s) = cpu s"
    using assms(1) by (auto simp: lkst_def touch_def)
  have "holding (taken (cpu s)) (cpu s) = Ok (True, cpu s)"
    using s lkst_cpu_wf [OF assms(1)] by (simp add: holding_eq)
  then show ?thesis using assms s by (simp add: sched_def with_proc_run mycpu_def)
qed

section \<open>Operations on the queues\<close>

lemma core_okD:
  assumes "core_ok L P n h"
  shows "queues_ok L P" "p < NPROC \<Longrightarrow> proc_ok n (P p)" "pids_ok P" "holder_ok P h" "0 < n"
  using assms by (auto simp: core_ok_def)

lemma pids_ok_upd: "pid r = pid (P p) \<Longrightarrow> pids_ok (P(p := r)) = pids_ok P"
proof -
  assume "pid r = pid (P p)"
  then have "pid ((P(p := r)) x) = pid (P x)" for x by simp
  then show ?thesis unfolding pids_ok_def by simp
qed

lemma core_okI:
  assumes "queues_ok L (P(p := r))" and "core_ok L' P n h" and "proc_ok n r" and "pid r = pid (P p)"
    and "holder_ok (P(p := r)) h'"
  shows "core_ok L (P(p := r)) n h'"
  using assms by (simp add: core_ok_def pids_ok_upd)

lemma holder_ok_upd:
  "holder_ok P h \<Longrightarrow> pstate r \<in> {SLEEPING, RUNNABLE, RUNNING} \<Longrightarrow> holder_ok (P(p := r)) h"
  by (simp add: holder_ok_def)

lemma holder_ok_None [simp]: "holder_ok P None"
  by (simp add: holder_ok_def)

text \<open>Changing fields other than state, level and pid.\<close>

lemma core_ok_same:
  assumes c: "core_ok L P n h" and "p < NPROC \<Longrightarrow> proc_ok n r"
    and r: "pstate r = pstate (P p)" "level r = level (P p)" "pid r = pid (P p)"
  shows "core_ok L (P(p := r)) n h"
proof -
  have "holder_ok (P(p := r)) h" using core_okD(4) [OF c] r by (auto simp: holder_ok_def)
  then show ?thesis
    using c assms(2) queues_ok_same [OF core_okD(1) [OF c] r(1,2)] by (simp add: core_ok_def pids_ok_upd r(3))
qed

lemma core_ok_runnable:
  assumes c: "core_ok L P n h" and p: "p < NPROC" "pstate (P p) \<noteq> RUNNABLE"
    and r: "r = (P p)\<lparr>pstate := RUNNABLE\<rparr>" and live: "kstack (P p) \<noteq> 0" "pgdir (P p) \<noteq> 0"
    and st: "pstate (P p) \<in> {EMBRYO, SLEEPING, RUNNING}"
  shows "core_ok (L(level r := enqueue (L (level r)) p)) (P(p := r)) n h"
proof (rule core_okI [OF _ c])
  have ok: "proc_ok n (P p)" using core_okD(2) [OF c p(1)] .
  then show "proc_ok n r" using live st unfolding r by (auto simp: proc_ok_def)
  show "queues_ok (L(level r := enqueue (L (level r)) p)) (P(p := r))"
    using ok p unfolding r by (intro queues_ok_enqueue [OF core_okD(1) [OF c]]) (auto simp: proc_ok_def)
  show "holder_ok (P(p := r)) h" using core_okD(4) [OF c] unfolding r by (intro holder_ok_upd) auto
qed (simp add: r)

lemma make_runnable_inv:
  assumes "core_inv s" and "p < NPROC" and "pstate (procs s p) \<in> {EMBRYO, SLEEPING, RUNNING}"
    and "kstack (procs s p) \<noteq> 0" and "pgdir (procs s p) \<noteq> 0"
  shows "core_inv (make_runnable p s)"
proof -
  have "core_ok ((mlevels s)(level (procs s p) := enqueue (mlevels s (level (procs s p))) p))
      ((procs s)(p := (procs s p)\<lparr>pstate := RUNNABLE\<rparr>)) (nextpid s) (lockproc s)"
    using core_ok_runnable [of "mlevels s" "procs s" "nextpid s" "lockproc s" p "(procs s p)\<lparr>pstate := RUNNABLE\<rparr>"]
      assms by (fastforce simp: core_inv_def)
  then show ?thesis
    by (simp add: core_inv_def make_runnable_def set_state_def updp_def updq_def Let_def)
qed

lemma make_runnable_simps [simp]:
  "procs (make_runnable p s) = (procs s)(p := (procs s p)\<lparr>pstate := RUNNABLE\<rparr>)"
  "cpu (make_runnable p s) = cpu s" "lockproc (make_runnable p s) = lockproc s"
  "nextpid (make_runnable p s) = nextpid s" "initproc (make_runnable p s) = initproc s"
  "lkst (make_runnable p s) H = lkst s H"
  "slocks (make_runnable p s) = slocks s"
  by (simp_all add: make_runnable_def set_state_def updp_def updq_def Let_def lkst_def)

lemma core_inv_simps [simp]:
  "core_inv (s\<lparr>cpu := c\<rparr>) = core_inv s" "core_inv (s\<lparr>slocks := l\<rparr>) = core_inv s"
  "core_inv (s\<lparr>ticks := t\<rparr>) = core_inv s" "core_inv (s\<lparr>mlfqticks := t\<rparr>) = core_inv s"
  "core_inv (s\<lparr>firstret := f\<rparr>) = core_inv s" "core_inv (s\<lparr>fsys := x\<rparr>) = core_inv s"
  "core_inv (s\<lparr>ram := m\<rparr>) = core_inv s" "core_inv (s\<lparr>kmem_freelist := a\<rparr>) = core_inv s"
  by (simp_all add: core_inv_def)

lemma core_inv_updp:
  assumes "core_inv s" and "pstate (f (procs s p)) = pstate (procs s p)"
    and "level (f (procs s p)) = level (procs s p)" and "pid (f (procs s p)) = pid (procs s p)"
    and "p < NPROC \<Longrightarrow> proc_ok (nextpid s) (procs s p) \<Longrightarrow> proc_ok (nextpid s) (f (procs s p))"
  shows "core_inv (updp p f s)"
  using assms core_okD(2) by (auto simp: core_inv_def updp_def intro!: core_ok_same)

lemma updp_simps [simp]:
  "procs (updp p f s) = (procs s)(p := f (procs s p))" "cpu (updp p f s) = cpu s"
  "mlevels (updp p f s) = mlevels s" "lockproc (updp p f s) = lockproc s" "nextpid (updp p f s) = nextpid s"
  "slocks (updp p f s) = slocks s" "initproc (updp p f s) = initproc s"
  by (simp_all add: updp_def)

text \<open>A process that is not in a queue stops being schedulable.\<close>

lemma core_ok_idle:
  assumes c: "core_ok L P n h" and p: "p < NPROC" "pstate (P p) \<noteq> RUNNABLE" and r: "pstate r \<noteq> RUNNABLE"
    "proc_ok n r" "pid r = pid (P p)" and h: "holder_ok (P(p := r)) h'"
  shows "core_ok L (P(p := r)) n h'"
  using assms queues_ok_idle [OF core_okD(1) [OF c]] by (intro core_okI [OF _ c]) auto

section \<open>Running and switching\<close>

text \<open>
  \<open>rest R s\<close>: between two handlers, with no spinlock held.  \<open>at_switch R s\<close>: at the context switch
  from a process to the scheduler, which takes over \<open>ptable.lock\<close>.
\<close>

definition rest :: "nat set \<Rightarrow> 'f mlfq \<Rightarrow> bool" where
  "rest R s \<longleftrightarrow> mlfq_inv R s \<and> lkst s []"

definition at_switch :: "nat set \<Rightarrow> 'f mlfq \<Rightarrow> bool" where
  "at_switch R s \<longleftrightarrow> core_inv s \<and> running R (procs s) None \<and> lkst s [LkPtable]"

definition run_ok :: "nat set \<Rightarrow> ('a, 'f mlfq) run \<Rightarrow> bool" where
  "run_ok R r = (case r of Returned _ s \<Rightarrow> rest R s | Switched s \<Rightarrow> at_switch R s)"

lemma run_ok_simps [simp]:
  "run_ok R (Returned a s) = rest R s" "run_ok R (Switched s) = at_switch R s"
  by (simp_all add: run_ok_def)

lemma scheduler_back_ok:
  assumes "at_switch R s"
  shows "\<exists>s'. scheduler_back s = Ok s' \<and> rest R s' \<and> cproc (cpu s') = None \<and> procs s' = procs s
    \<and> mlevels s' = mlevels s \<and> lockproc s' = lockproc s"
proof -
  let ?s = "s\<lparr>cpu := (cpu s)\<lparr>cproc := None\<rparr>\<rparr>"
  have l: "lkst ?s [LkPtable]" using assms by (simp add: at_switch_def lkst_def)
  show ?thesis
    using release_lk_run [OF l, of LkPtable] assms
    by (auto simp: scheduler_back_def rest_def mlfq_inv_def at_switch_def)
qed

lemma settle_ok: "run_ok R r \<Longrightarrow> \<exists>s'. settle r = Ok s' \<and> rest R s'"
  using scheduler_back_ok by (cases r) (auto simp: settle_def)

text \<open>\<open>sched\<close> itself, called with the process no longer running.\<close>

lemma sched_ok:
  assumes "core_inv s" and "running R (procs s) None" and l: "lkst s [LkPtable]" and p: "cproc (cpu s) = Some p"
    and "p < NPROC" and "k \<noteq> KExit \<or> pstate (procs s p) = ZOMBIE" and n: "pstate (procs s p) \<noteq> RUNNING"
  shows "\<exists>s'. sched k s = Ok s' \<and> at_switch R s' \<and> mlevels s' = mlevels s \<and> lockproc s' = lockproc s
    \<and> procs s' = (procs s)(p := (procs s p)\<lparr>pkont := k, pkint := intena (cpu s)\<rparr>)"
proof -
  let ?t = "updp p (\<lambda>r. r\<lparr>pkont := k, pkint := intena (cpu s)\<rparr>) s"
  have "core_inv ?t" using assms(1,6) by (intro core_inv_updp) (auto simp: proc_ok_def)
  moreover have "running R (procs ?t) None" using assms(2) n by (auto simp: running_def)
  ultimately show ?thesis using sched_run [OF l p n, of k] l by (simp add: at_switch_def)
qed

lemma running_cproc: "running R P (Some p) \<Longrightarrow> p < NPROC \<and> pstate (P p) = RUNNING"
  by (auto simp: running_def)

lemma running_stop: "running R P (Some p) \<Longrightarrow> pstate r \<noteq> RUNNING \<Longrightarrow> running R (P(p := r)) None"
  by (auto simp: running_def)

lemma running_idle:
  "running R P c \<Longrightarrow> pstate (P p) \<noteq> RUNNING \<Longrightarrow> pstate r \<noteq> RUNNING \<Longrightarrow> running R (P(p := r)) c"
  by (auto simp: running_def)

lemma running_same: "running R P c \<Longrightarrow> pstate r = pstate (P p) \<Longrightarrow> running R (P(p := r)) c"
  by (auto simp: running_def)

lemma running_start:
  "running R P None \<Longrightarrow> p < NPROC \<Longrightarrow> pstate (P p) \<noteq> RUNNING \<Longrightarrow> pstate r = RUNNING \<Longrightarrow> running R (P(p := r)) (Some p)"
  by (auto simp: running_def)

lemma restD:
  assumes "rest R s"
  shows "core_inv s" "running R (procs s) (cproc (cpu s))" "lkst s []"
  using assms by (auto simp: rest_def mlfq_inv_def)

lemma rest_proc:
  assumes "rest R s" and "cproc (cpu s) = Some p"
  shows "p < NPROC \<and> pstate (procs s p) = RUNNING \<and> kstack (procs s p) \<noteq> 0 \<and> pgdir (procs s p) \<noteq> 0
    \<and> proc_ok (nextpid s) (procs s p)"
proof -
  have "p < NPROC" "pstate (procs s p) = RUNNING"
    using running_cproc restD(2) [OF assms(1)] assms(2) by auto
  then show ?thesis using core_okD(2) restD(1) [OF assms(1)] by (fastforce simp: core_inv_def proc_ok_def)
qed

text \<open>\<open>ptable.lock\<close> taken from a state of rest.\<close>

definition in_ptable :: "'f mlfq \<Rightarrow> 'f mlfq" where
  "in_ptable s = s\<lparr>slocks := (slocks s)(LkPtable := taken (cpu s)), cpu := pushcli (cpu s)\<rparr>"

lemma in_ptable_simps [simp]:
  "procs (in_ptable s) = procs s" "mlevels (in_ptable s) = mlevels s" "lockproc (in_ptable s) = lockproc s"
  "nextpid (in_ptable s) = nextpid s" "cproc (cpu (in_ptable s)) = cproc (cpu s)"
  "core_inv (in_ptable s) = core_inv s" "initproc (in_ptable s) = initproc s"
  "ticks (in_ptable s) = ticks s" "mlfqticks (in_ptable s) = mlfqticks s"
  by (simp_all add: in_ptable_def)

lemma owns_scheduler_cong [simp]:
  "owns_scheduler p (in_ptable s) = owns_scheduler p s" "owns_scheduler p (s\<lparr>cpu := c\<rparr>) = owns_scheduler p s"
  by (simp_all add: owns_scheduler_def split: option.split)

lemma acquire_ptable:
  assumes "lkst s H" and "LkPtable \<notin> set H"
  shows "acquire_lk LkPtable s = Ok (in_ptable s)" and "lkst (in_ptable s) (LkPtable # H)"
  using acquire_lk_run [OF assms] by (simp_all add: in_ptable_def)

definition out_ptable :: "'f mlfq \<Rightarrow> 'f mlfq" where
  "out_ptable s = s\<lparr>slocks := (slocks s)(LkPtable := initlock), cpu := popped (cpu s)\<rparr>"

lemma out_ptable_simps [simp]:
  "procs (out_ptable s) = procs s" "mlevels (out_ptable s) = mlevels s" "lockproc (out_ptable s) = lockproc s"
  "nextpid (out_ptable s) = nextpid s" "cproc (cpu (out_ptable s)) = cproc (cpu s)"
  "core_inv (out_ptable s) = core_inv s" "initproc (out_ptable s) = initproc s"
  "ticks (out_ptable s) = ticks s" "mlfqticks (out_ptable s) = mlfqticks s"
  by (simp_all add: out_ptable_def)

lemma release_ptable:
  assumes "lkst s (LkPtable # H)"
  shows "release_lk LkPtable s = Ok (out_ptable s)" and "lkst (out_ptable s) H"
  using release_lk_run [OF assms, of LkPtable] by (simp_all add: out_ptable_def)

lemma yield_ok:
  assumes r: "rest R s" and p: "cproc (cpu s) = Some p"
  shows "\<exists>r. yield s = Ok r \<and> run_ok R r"
proof -
  let ?t = "s\<lparr>cpu := touch (cpu s)\<rparr>"
  have t: "lkst ?t []" using restD(3) [OF r] by simp
  note acq = acquire_ptable [OF t]
  have y: "yield s = kbind (acquire_lk LkPtable ?t) (\<lambda>s.
     if owns_scheduler p s then kbind (release_lk LkPtable s) (\<lambda>s. Ok (Returned () s))
     else kbind (sched KYield (make_runnable p s)) (\<lambda>s. Ok (Switched s)))"
    using with_proc_run [OF restD(3) [OF r] p] by (simp add: yield_def)
  note P = rest_proc [OF r p]
  have run: "running R ((procs s)(p := (procs s p)\<lparr>pstate := RUNNABLE\<rparr>)) None"
    using running_stop [of R "procs s" p] restD(2) [OF r] p by simp
  have m: "core_inv (make_runnable p (in_ptable ?t))" "lkst (make_runnable p (in_ptable ?t)) [LkPtable]"
    using P restD(1) [OF r] acq by (auto intro!: make_runnable_inv)
  show ?thesis
  proof (cases "owns_scheduler p s")
    case True
    then have "yield s = Ok (Returned () (out_ptable (in_ptable ?t)))"
      using acq release_ptable [OF acq(2)] by (simp add: y)
    then show ?thesis using release_ptable [OF acq(2)] restD [OF r]
      by (simp add: rest_def mlfq_inv_def)
  next
    case False
    then show ?thesis
      using acq sched_ok [OF m(1) _ m(2), of R p KYield] P p run by (auto simp: y)
  qed
qed

lemma mlfq_inv_simps [simp]:
  "mlfq_inv R (in_ptable s) = mlfq_inv R s" "mlfq_inv R (out_ptable s) = mlfq_inv R s"
  "mlfq_inv R (s\<lparr>cpu := touch (cpu s)\<rparr>) = mlfq_inv R s"
  by (simp_all add: mlfq_inv_def)

lemma rest_touch [simp]: "rest R s \<Longrightarrow> rest R (s\<lparr>cpu := touch (cpu s)\<rparr>)"
  by (simp add: rest_def)

lemma rest_out_ptable: "mlfq_inv R s \<Longrightarrow> lkst s [LkPtable] \<Longrightarrow> rest R (out_ptable s)"
  using release_ptable [of s "[]"] by (simp add: rest_def)

lemma sched_stop_ok:
  assumes inv: "mlfq_inv R s" and l: "lkst s [LkPtable]" and p: "cproc (cpu s) = Some p"
    and r: "pstate r \<notin> {RUNNING, RUNNABLE}" "proc_ok (nextpid s) r" "pid r = pid (procs s p)"
    and h: "holder_ok ((procs s)(p := r)) h" and k: "k \<noteq> KExit \<or> pstate r = ZOMBIE"
  shows "\<exists>s'. sched k (s\<lparr>procs := (procs s)(p := r), lockproc := h\<rparr>) = Ok s' \<and> at_switch R s'
    \<and> lockproc s' = h \<and> pstate (procs s' p) = pstate r"
proof -
  let ?s = "s\<lparr>procs := (procs s)(p := r), lockproc := h\<rparr>"
  have run: "running R (procs s) (Some p)" using inv p by (simp add: mlfq_inv_def)
  have c: "core_ok (mlevels s) (procs s) (nextpid s) (lockproc s)"
    using inv by (simp add: mlfq_inv_def core_inv_def)
  have "core_inv ?s"
    using r h running_cproc [OF run] by (simp add: core_inv_def core_ok_idle [OF c])
  moreover have "running R (procs ?s) None" using running_stop [OF run] r(1) by simp
  moreover have "lkst ?s [LkPtable]" using l by simp
  ultimately show ?thesis using sched_ok [of ?s R p k] p k r(1) running_cproc [OF run] by auto
qed

lemma sleep_ok:
  assumes inv: "mlfq_inv R s" and l: "lkst s [lk]" and lk: "lk \<noteq> LkNull" and p: "cproc (cpu s) = Some p"
    and k: "k \<noteq> KExit"
  shows "\<exists>s'. sleep k ch lk s = Ok s' \<and> at_switch R s'"
proof -
  let ?t = "s\<lparr>cpu := touch (cpu s)\<rparr>"
  obtain u where u: "(if lk \<noteq> LkPtable then kbind (acquire_lk LkPtable ?t) (release_lk lk) else Ok ?t) = Ok u"
    "mlfq_inv R u" "lkst u [LkPtable]" "cproc (cpu u) = Some p" "procs u = procs s" "lockproc u = lockproc s"
    "nextpid u = nextpid s"
  proof (cases "lk = LkPtable")
    case True
    then show ?thesis using that [of ?t] inv l p by simp
  next
    case False
    have t: "lkst ?t [lk]" using l by simp
    note a = acquire_ptable [OF t]
    have "LkPtable \<notin> set [lk]" using False by simp
    note a = a [OF this]
    note b = release_lk_run [OF a(2), of lk]
    show ?thesis
      using False a b inv p
      by (intro that [of "(in_ptable ?t)\<lparr>slocks := (slocks (in_ptable ?t))(lk := initlock),
            cpu := popped (cpu (in_ptable ?t))\<rparr>"]) (auto simp: mlfq_inv_def)
  qed
  let ?r = "(procs s p)\<lparr>pchan := ch, pstate := SLEEPING\<rparr>"
  have run: "running R (procs s) (Some p)" using inv p by (simp add: mlfq_inv_def)
  have c: "core_ok (mlevels s) (procs s) (nextpid s) (lockproc s)"
    using inv by (simp add: mlfq_inv_def core_inv_def)
  have "proc_ok (nextpid s) ?r"
    using core_okD(2) [OF c, of p] running_cproc [OF run] by (auto simp: proc_ok_def)
  moreover have "holder_ok ((procs s)(p := ?r)) (lockproc s)"
    using core_okD(4) [OF c] by (intro holder_ok_upd) auto
  moreover have e: "u\<lparr>procs := P, lockproc := lockproc u\<rparr> = u\<lparr>procs := P\<rparr>" for P by (cases u) simp
  ultimately obtain s' where "sched k (u\<lparr>procs := (procs u)(p := ?r)\<rparr>) = Ok s'" "at_switch R s'"
    using sched_stop_ok [OF u(2,3,4), of ?r "lockproc u" k, unfolded e] u(5-7) k by auto
  then show ?thesis
    using u(1,5) lk p by (simp add: sleep_def myproc_run [OF l] updp_def)
qed

section \<open>Waking processes up\<close>

lemma wakeup1_step_inv:
  assumes "core_inv s" and "p < NPROC"
  shows "core_inv (wakeup1_step ch p s)"
proof -
  have "proc_ok (nextpid s) (procs s p)" using core_okD(2) assms by (auto simp: core_inv_def)
  then show ?thesis using assms make_runnable_inv [OF assms]
    by (auto simp: wakeup1_step_def proc_ok_def)
qed

definition woken :: "proc \<Rightarrow> proc \<Rightarrow> bool" where
  "woken r r' \<longleftrightarrow> r' = r \<or> pstate r = SLEEPING \<and> r' = r\<lparr>pstate := RUNNABLE\<rparr>"

lemma woken_trans: "woken r r' \<Longrightarrow> woken r' r'' \<Longrightarrow> woken r r''"
  by (auto simp: woken_def)

lemma wokenD:
  assumes "woken r r'"
  shows "parent r' = parent r" "pid r' = pid r" "pstate r \<noteq> SLEEPING \<Longrightarrow> r' = r"
    "pstate r' = RUNNING \<longleftrightarrow> pstate r = RUNNING"
  using assms by (auto simp: woken_def)

definition wake_frame :: "'f mlfq \<Rightarrow> 'f mlfq \<Rightarrow> bool" where
  "wake_frame s s' \<longleftrightarrow> s' = s\<lparr>procs := procs s', mlevels := mlevels s'\<rparr> \<and> (\<forall>p. woken (procs s p) (procs s' p))"

lemma wake_frame_refl [simp]: "wake_frame s s"
  by (simp add: wake_frame_def woken_def)

lemma wake_frame_trans:
  assumes "wake_frame s s'" and "wake_frame s' s''"
  shows "wake_frame s s''"
proof -
  have "s'' = s'\<lparr>procs := procs s'', mlevels := mlevels s''\<rparr>" using assms(2) by (simp add: wake_frame_def)
  also have "\<dots> = (s\<lparr>procs := procs s', mlevels := mlevels s'\<rparr>)\<lparr>procs := procs s'', mlevels := mlevels s''\<rparr>"
    using assms(1) unfolding wake_frame_def by (intro arg_cong [where f = "\<lambda>x. x\<lparr>procs := procs s'', mlevels := mlevels s''\<rparr>"]) simp
  also have "\<dots> = s\<lparr>procs := procs s'', mlevels := mlevels s''\<rparr>" by simp
  finally have "s'' = s\<lparr>procs := procs s'', mlevels := mlevels s''\<rparr>" .
  moreover have "woken (procs s p) (procs s'' p)" for p
    using assms unfolding wake_frame_def by (blast intro: woken_trans)
  ultimately show ?thesis unfolding wake_frame_def by blast
qed

lemma make_runnable_frame: "pstate (procs s p) = SLEEPING \<Longrightarrow> wake_frame s (make_runnable p s)"
  unfolding wake_frame_def
  by (auto simp: woken_def) (simp add: make_runnable_def set_state_def updp_def updq_def Let_def)

lemma wakeup1_fold:
  "core_inv s \<Longrightarrow> (\<And>p. p \<in> set ps \<Longrightarrow> p < NPROC) \<Longrightarrow>
     core_inv (fold (wakeup1_step ch) ps s) \<and> wake_frame s (fold (wakeup1_step ch) ps s)"
proof (induction ps arbitrary: s)
  case (Cons p ps)
  have "wake_frame s (wakeup1_step ch p s)"
    by (auto simp: wakeup1_step_def make_runnable_frame)
  moreover have "core_inv (wakeup1_step ch p s)" using Cons.prems by (simp add: wakeup1_step_inv)
  ultimately show ?case using Cons.IH [of "wakeup1_step ch p s"] Cons.prems(2) wake_frame_trans by auto
qed simp

lemma wakeup1_inv:
  assumes "core_inv s"
  shows "core_inv (wakeup1 ch s)" and "wake_frame s (wakeup1 ch s)"
  using wakeup1_fold [OF assms, of "[0..<NPROC]" ch] by (simp_all add: wakeup1_def)

lemma wake_frame_same:
  assumes w: "wake_frame s s'"
  shows "cpu s' = cpu s" "slocks s' = slocks s" "lockproc s' = lockproc s" "nextpid s' = nextpid s"
    "initproc s' = initproc s" "lkst s' H = lkst s H"
    "ticks s' = ticks s" "mlfqticks s' = mlfqticks s"
    "woken (procs s p) (procs s' p)"
proof -
  have e: "s' = s\<lparr>procs := procs s', mlevels := mlevels s'\<rparr>" using w by (simp add: wake_frame_def)
  show "cpu s' = cpu s" "slocks s' = slocks s" "lockproc s' = lockproc s" "nextpid s' = nextpid s"
    "initproc s' = initproc s" "lkst s' H = lkst s H"
    "ticks s' = ticks s" "mlfqticks s' = mlfqticks s"
    by (subst e, simp)+
qed (use w in \<open>simp add: wake_frame_def\<close>)

lemma wake_frame_running:
  assumes "wake_frame s s'" and "running R (procs s) c"
  shows "running R (procs s') c"
  using assms(2) wokenD(4) [OF wake_frame_same(9) [OF assms(1)]] by (simp add: running_def)

lemma wakeup_ok:
  assumes inv: "mlfq_inv R s" and l: "lkst s H" "LkPtable \<notin> set H"
  shows "\<exists>s'. wakeup ch s = Ok s' \<and> mlfq_inv R s' \<and> lkst s' H \<and> cproc (cpu s') = cproc (cpu s)"
proof -
  note a = acquire_ptable [OF l]
  have c: "core_inv (in_ptable s)" using inv by (simp add: mlfq_inv_def)
  note w = wakeup1_inv [OF c, of ch]
  have l2: "lkst (wakeup1 ch (in_ptable s)) (LkPtable # H)"
    using a(2) wake_frame_same(6) [OF w(2)] by simp
  note b = release_ptable [OF l2]
  have "running R (procs (wakeup1 ch (in_ptable s))) (cproc (cpu s))"
    using wake_frame_running [OF w(2)] inv by (simp add: mlfq_inv_def)
  then show ?thesis
    using a b w wake_frame_same(1) [OF w(2)] by (simp add: wakeup_def mlfq_inv_def)
qed

lemma mlfq_inv_updp:
  assumes "mlfq_inv R s" and "pstate (f (procs s p)) = pstate (procs s p)"
    and "level (f (procs s p)) = level (procs s p)" and "pid (f (procs s p)) = pid (procs s p)"
    and "p < NPROC \<Longrightarrow> proc_ok (nextpid s) (procs s p) \<Longrightarrow> proc_ok (nextpid s) (f (procs s p))"
  shows "mlfq_inv R (updp p f s)"
  using assms by (auto simp: mlfq_inv_def intro!: core_inv_updp running_same)

lemma in_range: "find P [0..<NPROC] = Some p \<Longrightarrow> p < NPROC \<and> P p"
  using find_Some_D [of P "[0..<NPROC]" p] by simp

lemma kill_ok:
  assumes r: "rest R s"
  shows "\<exists>v s'. kill k s = Ok (v, s') \<and> rest R s' \<and> cproc (cpu s') = cproc (cpu s)"
proof -
  note a = acquire_ptable [OF restD(3) [OF r], simplified]
  have inv: "mlfq_inv R (in_ptable s)" using r by (simp add: rest_def)
  show ?thesis
  proof (cases "find (\<lambda>p. pid (procs s p) = k) [0..<NPROC]")
    case None
    then show ?thesis
      using a release_ptable [OF a(2)] rest_out_ptable [OF inv a(2)] by (simp add: kill_def)
  next
    case (Some p)
    let ?u = "updp p (\<lambda>r. r\<lparr>killed := True\<rparr>) (in_ptable s)"
    let ?v = "if pstate (procs ?u p) = SLEEPING then make_runnable p ?u else ?u"
    have p: "p < NPROC" using in_range [OF Some] by simp
    have u: "mlfq_inv R ?u" "lkst ?u [LkPtable]"
      using a inv by (auto intro!: mlfq_inv_updp simp: proc_ok_def)
    have ok: "proc_ok (nextpid s) (procs s p)"
      using core_okD(2) [of _ _ _ _ p] inv p by (auto simp: mlfq_inv_def core_inv_def)
    have "mlfq_inv R ?v"
    proof (cases "pstate (procs ?u p) = SLEEPING")
      case True
      then have "core_inv (make_runnable p ?u)"
        using u p ok by (intro make_runnable_inv) (auto simp: mlfq_inv_def proc_ok_def)
      then show ?thesis using True inv by (auto simp: mlfq_inv_def intro!: running_idle)
    qed (use u in simp)
    moreover have "lkst ?v [LkPtable]" using u by simp
    ultimately have "release_lk LkPtable ?v = Ok (out_ptable ?v)" "rest R (out_ptable ?v)"
      using release_ptable(1) [of ?v "[]"] rest_out_ptable [of R ?v] by auto
    then show ?thesis using a Some by (auto simp: kill_def Let_def)
  qed
qed

lemma setPriority_ok:
  assumes "rest R s"
  shows "rest R (setPriority k n s) \<and> cproc (cpu (setPriority k n s)) = cproc (cpu s)"
proof -
  have "mlfq_inv R (updp p (\<lambda>r. r\<lparr>priority := n\<rparr>) s)" if "0 \<le> n" "n \<le> 3" for p
    using assms that by (auto intro!: mlfq_inv_updp simp: rest_def proc_ok_def)
  then show ?thesis using assms
    by (auto simp: setPriority_def rest_def not_less split: option.split)
qed

section \<open>Scheduler lock and unlock\<close>

lemma same_pid:
  assumes "core_inv s" and "p < NPROC" and "q < NPROC" and "pid (procs s p) = pid (procs s q)"
    and "pstate (procs s p) \<noteq> UNUSED"
  shows "p = q"
proof -
  have "pids_ok (procs s)" "0 < pid (procs s p)"
    using assms core_okD(2) by (auto simp: core_inv_def core_ok_def proc_ok_def)
  then show ?thesis using assms by (auto simp: pids_ok_def)
qed

text \<open>The process that calls is the holder iff the pids agree.\<close>

lemma owns_scheduler_iff:
  assumes "mlfq_inv R s" and "cproc (cpu s) = Some p"
  shows "owns_scheduler p s \<longleftrightarrow> lockproc s = Some p"
proof -
  have p: "p < NPROC" "pstate (procs s p) = RUNNING"
    using assms running_cproc by (auto simp: mlfq_inv_def)
  have "pid (procs s l) = pid (procs s p) \<longleftrightarrow> l = p" if h: "lockproc s = Some l" for l
  proof -
    have "l < NPROC" using assms(1) h by (auto simp: mlfq_inv_def core_inv_def core_ok_def holder_ok_def)
    then show ?thesis using same_pid [of s p l] assms(1) p by (auto simp: mlfq_inv_def)
  qed
  then show ?thesis by (auto simp: owns_scheduler_def split: option.splits)
qed

lemma schedulerLock_ok:
  assumes r: "rest R s" and p: "cproc (cpu s) = Some p"
  shows "\<exists>s'. schedulerLock F PASSWORD s = Ok (Returned () s') \<and> rest R s' \<and> cproc (cpu s') = Some p
    \<and> (lockproc s = None \<longrightarrow> lockproc s' = Some p \<and> mlfqticks s' = 0)
    \<and> (lockproc s \<noteq> None \<longrightarrow> lockproc s' = lockproc s \<and> mlfqticks s' = mlfqticks s)"
proof -
  let ?t = "s\<lparr>cpu := touch (cpu s)\<rparr>"
  have t: "lkst ?t []" using restD(3) [OF r] by simp
  note a = acquire_ptable [OF t, simplified]
  have inv: "mlfq_inv R (in_ptable ?t)" using r by (simp add: rest_def)
  have y: "schedulerLock F PASSWORD s = kbind (acquire_lk LkPtable ?t) (\<lambda>s.
       if lockproc s \<noteq> None then kbind (release_lk LkPtable s) (\<lambda>s. Ok (Returned () s))
       else
         let s = s\<lparr>lockproc := Some p\<rparr> in
         kbind (release_lk LkPtable s) (\<lambda>s.
         kbind (acquire_lk LkMlfqTicks s) (\<lambda>s.
         let s = s\<lparr>mlfqticks := 0\<rparr> in
         kbind (release_lk LkMlfqTicks s) (\<lambda>s. Ok (Returned () s)))))"
    using with_proc_run [OF restD(3) [OF r] p] by (simp add: schedulerLock_def)
  show ?thesis
  proof (cases "lockproc s")
    case (Some l)
    then show ?thesis
      using a release_ptable [OF a(2)] rest_out_ptable [OF inv a(2)] p by (simp add: y)
  next
    case None
    let ?u = "(in_ptable ?t)\<lparr>lockproc := Some p\<rparr>"
    have P: "p < NPROC \<and> pstate (procs s p) = RUNNING" using rest_proc [OF r p] by simp
    have u: "mlfq_inv R ?u" "lkst ?u [LkPtable]"
      using inv P a by (auto simp: mlfq_inv_def core_inv_def core_ok_def holder_ok_def)
    note b = release_ptable [OF u(2)]
    let ?v = "out_ptable ?u"
    have v: "mlfq_inv R ?v" "lkst ?v []" using u b by simp_all
    note c = acquire_lk_run [OF v(2), of LkMlfqTicks, simplified]
    let ?w = "(?v\<lparr>slocks := (slocks ?v)(LkMlfqTicks := taken (cpu ?v)), cpu := pushcli (cpu ?v)\<rparr>)\<lparr>mlfqticks := 0\<rparr>"
    have w: "mlfq_inv R ?w" "lkst ?w [LkMlfqTicks]" using v c(2) by (simp_all add: mlfq_inv_def)
    note d = release_lk_run [OF w(2), of LkMlfqTicks, simplified]
    have "schedulerLock F PASSWORD s = Ok (Returned () (?w\<lparr>slocks := (slocks ?w)(LkMlfqTicks := initlock), cpu := popped (cpu ?w)\<rparr>))"
      using a(1) b(1) c(1) d(1) None by (simp add: y)
    moreover have "rest R (?w\<lparr>slocks := (slocks ?w)(LkMlfqTicks := initlock), cpu := popped (cpu ?w)\<rparr>)"
      using w(1) d(2) by (simp add: rest_def mlfq_inv_def)
    ultimately show ?thesis using None p by simp
  qed
qed

lemma schedulerUnlock_ok:
  assumes r: "rest R s" and p: "cproc (cpu s) = Some p"
  shows "\<exists>r. schedulerUnlock F PASSWORD s = Ok r \<and> run_ok R r
    \<and> (lockproc s = Some p \<longrightarrow> (\<exists>s'. r = Switched s' \<and> lockproc s' = None
         \<and> qlist (mlevels s' 0) = p # qlist (mlevels s 0)
         \<and> (let r = procs s' p in level r = 0 \<and> usedtime r = 0 \<and> priority r = 3 \<and> pstate r = RUNNABLE)))
    \<and> (lockproc s \<noteq> Some p \<longrightarrow> (\<exists>s'. r = Returned () s' \<and> procs s' = procs s \<and> mlevels s' = mlevels s
         \<and> lockproc s' = lockproc s \<and> cproc (cpu s') = Some p))"
proof -
  let ?t = "s\<lparr>cpu := touch (cpu s)\<rparr>"
  have t: "lkst ?t []" using restD(3) [OF r] by simp
  note a = acquire_ptable [OF t, simplified]
  have inv: "mlfq_inv R (in_ptable ?t)" using r by (simp add: rest_def)
  note own = owns_scheduler_iff [OF inv, of p, simplified, OF p]
  have y: "schedulerUnlock F PASSWORD s = kbind (acquire_lk LkPtable ?t) (\<lambda>s.
       if \<not> owns_scheduler p s then kbind (release_lk LkPtable s) (\<lambda>s. Ok (Returned () s))
       else
           let s = s\<lparr>lockproc := None\<rparr>;
               s = updp p (\<lambda>r. r\<lparr>level := 0, usedtime := 0, priority := 3, pstate := RUNNABLE\<rparr>) s;
               s = updq 0 (\<lambda>q. insertqueue q p) s
           in kbind (sched KUnlock s) (\<lambda>s. Ok (Switched s)))"
    using a(1)
    by (simp add: schedulerUnlock_def with_proc_run [OF restD(3) [OF r] p] owns_scheduler_def
        split: option.split)
  show ?thesis
  proof (cases "lockproc s = Some p")
    case False
    then show ?thesis
      using a release_ptable [OF a(2)] rest_out_ptable [OF inv a(2)] p own by (simp add: y)
  next
    case True
    let ?r = "(procs s p)\<lparr>level := 0, usedtime := 0, priority := 3, pstate := RUNNABLE\<rparr>"
    let ?u = "updq 0 (\<lambda>q. insertqueue q p) (updp p (\<lambda>r. r\<lparr>level := 0, usedtime := 0, priority := 3, pstate := RUNNABLE\<rparr>)
       ((in_ptable ?t)\<lparr>lockproc := None\<rparr>))"
    note P = rest_proc [OF r p]
    have c: "core_ok (mlevels s) (procs s) (nextpid s) (lockproc s)" using restD(1) [OF r] by (simp add: core_inv_def)
    have st: "pstate (procs s p) \<noteq> RUNNABLE" "pstate ?r = RUNNABLE" "level ?r = 0" "(0::nat) < 3" "p < NPROC"
      using P by simp_all
    note F = queues_ok_front [OF core_okD(1) [OF c] st(5,1-4)]
    have "core_ok ((mlevels s)(0 := insertqueue (mlevels s 0) p)) ((procs s)(p := ?r)) (nextpid s) None"
      using P by (intro core_okI [OF F(1) c]) (auto simp: proc_ok_def)
    then have u: "core_inv ?u" by (simp add: core_inv_def updq_def)
    have l: "lkst ?u [LkPtable]" using a(2) by simp
    have run: "running R (procs ?u) None"
      using running_stop [of R "procs s" p ?r] restD(2) [OF r] p by (simp add: updq_def)
    obtain s' where "sched KUnlock ?u = Ok s'" "at_switch R s'" "mlevels s' = mlevels ?u" "lockproc s' = None"
        "procs s' = (procs ?u)(p := (procs ?u p)\<lparr>pkont := KUnlock, pkint := intena (cpu ?u)\<rparr>)"
      using sched_ok [OF u run l, of p KUnlock] P p by (auto simp: updq_def)
    then show ?thesis
      using a own True F(2) by (simp add: y Let_def) (simp add: updq_def)
  qed
qed

section \<open>Exit and wait\<close>

text \<open>\<open>calm R H p s\<close>: the invariant in the middle of a handler of process \<open>p\<close> that holds \<open>H\<close>.\<close>

definition calm :: "nat set \<Rightarrow> lockref list \<Rightarrow> nat option \<Rightarrow> 'f mlfq \<Rightarrow> bool" where
  "calm R H p s \<longleftrightarrow> mlfq_inv R s \<and> lkst s H \<and> cproc (cpu s) = p"

lemma calm_rest: "rest R s \<and> cproc (cpu s) = p \<longleftrightarrow> calm R [] p s"
  by (auto simp: calm_def rest_def)

lemma calm_restD: "calm R [] p s \<Longrightarrow> rest R s"
  by (simp add: calm_def rest_def)

lemma calm_ptable:
  assumes "calm R [] p s"
  shows "acquire_lk LkPtable s = Ok (in_ptable s)" "calm R [LkPtable] p (in_ptable s)"
  using assms acquire_ptable [of s "[]"] by (auto simp: calm_def)

lemma calm_release:
  assumes "calm R [LkPtable] p s"
  shows "release_lk LkPtable s = Ok (out_ptable s)" "calm R [] p (out_ptable s)"
  using assms release_ptable [of s "[]"] by (auto simp: calm_def)

lemma calm_myproc:
  assumes "calm R H p s"
  shows "myproc s = Ok (p, s\<lparr>cpu := touch (cpu s)\<rparr>)" "calm R H p (s\<lparr>cpu := touch (cpu s)\<rparr>)"
  using assms myproc_run [of s H] by (auto simp: calm_def)

lemma calm_with_proc: "calm R H (Some p) s \<Longrightarrow> with_proc s f = f p (s\<lparr>cpu := touch (cpu s)\<rparr>)"
  using with_proc_run [of s H p f] by (simp add: calm_def)

lemma calm_wakeup1: "calm R H p s \<Longrightarrow> calm R H p (wakeup1 ch s)"
proof -
  assume c: "calm R H p s"
  then have "core_inv s" by (simp add: calm_def mlfq_inv_def)
  note w = wakeup1_inv [OF this, of ch]
  show ?thesis
    using c w(1) wake_frame_same(1,6) [OF w(2)] wake_frame_running [OF w(2)]
    by (auto simp: calm_def mlfq_inv_def)
qed

lemma calm_updp:
  assumes "calm R H c s" and "pstate (f (procs s p)) = pstate (procs s p)"
    and "level (f (procs s p)) = level (procs s p)" and "pid (f (procs s p)) = pid (procs s p)"
    and "p < NPROC \<Longrightarrow> proc_ok (nextpid s) (procs s p) \<Longrightarrow> proc_ok (nextpid s) (f (procs s p))"
  shows "calm R H c (updp p f s)"
  using assms mlfq_inv_updp [of R s f p] by (simp add: calm_def)

lemma calm_proc:
  assumes "calm R H (Some p) s"
  shows "p < NPROC" "pstate (procs s p) = RUNNING" "proc_ok (nextpid s) (procs s p)"
proof -
  show p: "p < NPROC" "pstate (procs s p) = RUNNING"
    using assms running_cproc by (auto simp: calm_def mlfq_inv_def)
  show "proc_ok (nextpid s) (procs s p)"
    using assms p core_okD(2) by (auto simp: calm_def mlfq_inv_def core_inv_def)
qed

lemma calm_reparent: "calm R H c s \<Longrightarrow> calm R H c (reparent_step cp p s)"
  by (auto simp: reparent_step_def Let_def proc_ok_def intro!: calm_wakeup1 calm_updp)

lemma calm_fold: "(\<And>x s. calm R H c s \<Longrightarrow> calm R H c (f x s)) \<Longrightarrow> calm R H c s \<Longrightarrow> calm R H c (fold f xs s)"
  by (induction xs arbitrary: s) auto

lemma exit_sched_ok:
  assumes c: "calm R [] (Some cp) s"
  shows "\<exists>s'. exit_sched cp s = Ok s' \<and> at_switch R s' \<and> lockproc s' = None \<and> pstate (procs s' cp) = ZOMBIE"
proof -
  note a = calm_ptable [OF c]
  define u where "u = fold (reparent_step cp) [0..<NPROC]
    (wakeup1 (proc_chan (parent (procs (in_ptable s) cp))) (in_ptable s))"
  have u: "calm R [LkPtable] (Some cp) u"
    unfolding u_def by (intro calm_fold calm_reparent calm_wakeup1 a(2))
  let ?r = "(procs u cp)\<lparr>pstate := ZOMBIE\<rparr>"
  have "proc_ok (nextpid u) ?r" using calm_proc [OF u] by (auto simp: proc_ok_def)
  then have "\<exists>s'. sched KExit (u\<lparr>procs := (procs u)(cp := ?r), lockproc := None\<rparr>) = Ok s' \<and> at_switch R s'
      \<and> lockproc s' = None \<and> pstate (procs s' cp) = ZOMBIE"
    using sched_stop_ok [of R u cp ?r None KExit] u by (simp add: calm_def)
  moreover have "(if lockproc (set_state cp ZOMBIE u) \<noteq> None then (set_state cp ZOMBIE u)\<lparr>lockproc := None\<rparr>
      else set_state cp ZOMBIE u) = u\<lparr>procs := (procs u)(cp := ?r), lockproc := None\<rparr>"
    by (cases u) (auto simp: set_state_def updp_def)
  moreover have "exit_sched cp s = sched KExit (if lockproc (set_state cp ZOMBIE u) \<noteq> None
      then (set_state cp ZOMBIE u)\<lparr>lockproc := None\<rparr> else set_state cp ZOMBIE u)"
    using a(1) by (simp add: exit_sched_def u_def Let_def)
  ultimately show ?thesis by simp
qed

section \<open>Memory management and the invariant\<close>

lemma kframe_mlfq:
  assumes "kframe s (s' :: 'f mlfq)"
  shows "procs s' = procs s" "mlevels s' = mlevels s" "lockproc s' = lockproc s" "nextpid s' = nextpid s"
    "initproc s' = initproc s" "kdata s' = kdata s" "cproc (cpu s') = cproc (cpu s)" "fsys s' = fsys s"
    "core_inv s' = core_inv s" "lkst s' H = lkst s H" "mlfq_inv R s' = mlfq_inv R s" "calm R H p s' = calm R H p s"
proof -
  obtain r c f where e: "s' = s\<lparr>ram := r, cpu := c, kmem_freelist := f\<rparr>" and c: "c = cpu s \<or> c = touch (cpu s)"
    using assms unfolding kframe_def by (metis machine.surjective machine.update_convs(1,2,5))
  show "procs s' = procs s" "mlevels s' = mlevels s" "lockproc s' = lockproc s" "nextpid s' = nextpid s"
    "initproc s' = initproc s" "kdata s' = kdata s" "fsys s' = fsys s" "core_inv s' = core_inv s"
    by (simp_all add: e)
  show p: "cproc (cpu s') = cproc (cpu s)" using c by (auto simp: e)
  show l: "lkst s' H = lkst s H" using c by (auto simp: e lkst_def)
  show m: "mlfq_inv R s' = mlfq_inv R s" using p by (simp add: mlfq_inv_def e)
  show "calm R H p s' = calm R H p s" using p l m by (simp add: calm_def)
qed

lemma calm_ready: "calm R H p s \<Longrightarrow> kmem_ready s"
  by (auto simp: calm_def intro: lkst_kmem)

lemma calm_kp:
  assumes "calm R H p s" and "kp s m" and "m = Ok (x, s')"
  shows "calm R H p s'" "procs s' = procs s" "nextpid s' = nextpid s"
  using kframe_mlfq [of s s'] assms calm_ready [OF assms(1)] by (auto simp: kp_def)

lemma calm_ku:
  assumes "calm R H p s" and "ku s m" and "m = Ok s'"
  shows "calm R H p s'" "procs s' = procs s" "nextpid s' = nextpid s"
  using kframe_mlfq [of s s'] assms calm_ready [OF assms(1)] by (auto simp: ku_def)

lemma core_ok_new:
  assumes c: "core_ok L P n h" and p: "p < NPROC" "pstate (P p) = UNUSED"
    and r: "pstate r = EMBRYO" "pid r = n" "proc_ok (n + 1) r"
  shows "core_ok L (P(p := r)) (n + 1) h"
proof -
  have lt: "pid (P q) < n" "0 < n" if "q < NPROC" for q
    using core_okD(2,5) [OF c] that by (auto simp: proc_ok_def)
  have "pids_ok (P(p := r))"
    using core_okD(3) [OF c] lt r(2) unfolding pids_ok_def by (metis fun_upd_apply less_irrefl)
  moreover have "queues_ok L (P(p := r))"
    using core_okD(1) [OF c] p r by (intro queues_ok_idle) auto
  moreover have "holder_ok (P(p := r)) h" using core_okD(4) [OF c] p by (auto simp: holder_ok_def)
  moreover have "proc_ok (n + 1) (P q)" if "q < NPROC" for q
    using core_okD(2) [OF c that] by (auto simp: proc_ok_def)
  ultimately show ?thesis using r(3) lt(2) p(1) core_okD(5) [OF c] by (auto simp: core_ok_def)
qed

lemma allocproc_claim_ok:
  assumes c: "calm R [] c s"
  shows "\<exists>po s'. allocproc_claim s = Ok (po, s') \<and> calm R [] c s' \<and>
    (\<forall>p. po = Some p \<longrightarrow> p < NPROC \<and> pstate (procs s p) = UNUSED \<and> pstate (procs s' p) = EMBRYO
       \<and> pid (procs s' p) = nextpid s \<and> priority (procs s' p) = 3 \<and> usedtime (procs s' p) = 0
       \<and> level (procs s' p) = 0 \<and> kstack (procs s' p) = 0) \<and>
    (po = None \<longrightarrow> (\<forall>p<NPROC. pstate (procs s p) \<noteq> UNUSED))"
proof -
  note a = calm_ptable [OF c]
  show ?thesis
  proof (cases "find (\<lambda>p. pstate (procs s p) = UNUSED) [0..<NPROC]")
    case None
    then have "\<forall>p<NPROC. pstate (procs s p) \<noteq> UNUSED" using find_None_D [OF None] by auto
    then show ?thesis using a calm_release [OF a(2)] None by (simp add: allocproc_claim_def)
  next
    case (Some p)
    note p = in_range [OF Some]
    let ?f = "\<lambda>r. r\<lparr>pstate := EMBRYO, pid := nextpid s, priority := 3, usedtime := 0, level := 0\<rparr>"
    let ?u = "(updp p ?f (in_ptable s))\<lparr>nextpid := nextpid s + 1\<rparr>"
    have core: "core_ok (mlevels s) (procs s) (nextpid s) (lockproc s)"
      using c by (simp add: calm_def mlfq_inv_def core_inv_def)
    have k: "kstack (procs s p) = 0" "0 < nextpid s" using core_okD(2,5) [OF core] p by (auto simp: proc_ok_def)
    have "core_ok (mlevels s) ((procs s)(p := ?f (procs s p))) (nextpid s + 1) (lockproc s)"
      using p k by (intro core_ok_new [OF core]) (auto simp: proc_ok_def)
    moreover have "running R ((procs s)(p := ?f (procs s p))) c"
      using c p by (intro running_idle) (auto simp: calm_def mlfq_inv_def)
    ultimately have u: "calm R [LkPtable] c ?u"
      using a(2) by (simp add: calm_def mlfq_inv_def core_inv_def)
    show ?thesis using a(1) Some calm_release [OF u] p k by (simp add: allocproc_claim_def Let_def)
  qed
qed

lemma calm_abort:
  assumes c: "calm R H c s" and p: "p < NPROC" "pstate (procs s p) = EMBRYO"
  shows "calm R H c (updp p (\<lambda>r. r\<lparr>kstack := 0, pstate := UNUSED\<rparr>) s)"
proof -
  let ?r = "(procs s p)\<lparr>kstack := 0, pstate := UNUSED\<rparr>"
  have core: "core_ok (mlevels s) (procs s) (nextpid s) (lockproc s)"
    using c by (simp add: calm_def mlfq_inv_def core_inv_def)
  have "holder_ok ((procs s)(p := ?r)) (lockproc s)"
    using core_okD(4) [OF core] p by (auto simp: holder_ok_def)
  then have "core_ok (mlevels s) ((procs s)(p := ?r)) (nextpid s) (lockproc s)"
    using p core_okD(2) [OF core p(1)] by (intro core_ok_idle [OF core]) (auto simp: proc_ok_def)
  moreover have "running R ((procs s)(p := ?r)) c"
    using c p by (intro running_idle) (auto simp: calm_def mlfq_inv_def)
  ultimately show ?thesis using c by (simp add: calm_def mlfq_inv_def core_inv_def)
qed

text \<open>An \<open>EMBRYO\<close> entry is private: the fields the code fills in do not matter to the others.\<close>

lemma calm_embryo:
  assumes c: "calm R H c s" and p: "pstate (procs s p) = EMBRYO"
    and f: "pstate (f (procs s p)) = EMBRYO" "level (f (procs s p)) = level (procs s p)"
      "pid (f (procs s p)) = pid (procs s p)" "usedtime (f (procs s p)) = usedtime (procs s p)"
      "priority (f (procs s p)) = priority (procs s p)"
      "kstack (f (procs s p)) \<noteq> 0 \<Longrightarrow> kstack (procs s p) \<noteq> 0 \<and> pkont (f (procs s p)) = pkont (procs s p)
         \<or> pkont (f (procs s p)) \<noteq> KExit"
  shows "calm R H c (updp p f s)"
  using p f by (intro calm_updp [OF c]) (auto simp: proc_ok_def)

lemma calm_ram: "calm R H c (s\<lparr>ram := m\<rparr>) = calm R H c s"
  by (rule kframe_mlfq(12)) simp

lemma calm_fsys: "calm R H c (s\<lparr>fsys := x\<rparr>) = calm R H c s"
  by (simp add: calm_def mlfq_inv_def)

lemma calm_setw [simp]: "calm R H c (setw a v s) = calm R H c s" "procs (setw a v s) = procs s"
  "calm R H c (memmove_ram d g n s) = calm R H c s" "procs (memmove_ram d g n s) = procs s"
  by (simp_all add: setw_def memmove_ram_def calm_ram)

definition embryo :: "nat \<Rightarrow> 'f mlfq \<Rightarrow> bool" where
  "embryo p s \<longleftrightarrow> p < NPROC \<and> pstate (procs s p) = EMBRYO \<and> kstack (procs s p) \<noteq> 0"

lemma allocproc_stack_ok:
  assumes c: "calm R [] c s" and p: "p < NPROC" "pstate (procs s p) = EMBRYO" "kstack (procs s p) = 0"
  shows "\<exists>po s'. allocproc_stack p s = Ok (po, s') \<and> calm R [] c s' \<and>
    (po = None \<or> po = Some p \<and> embryo p s')"
proof -
  obtain k s1 where k: "kalloc s = Ok (k, s1)" using kalloc_run [OF calm_ready [OF c]] by blast
  note s1 = calm_kp [OF c kp_kalloc(1) k]
  show ?thesis
  proof (cases "k = 0")
    case True
    have "set_state p UNUSED (updp p (\<lambda>r. r\<lparr>kstack := k\<rparr>) s1) = updp p (\<lambda>r. r\<lparr>kstack := 0, pstate := UNUSED\<rparr>) s1"
      using True by (simp add: set_state_def updp_def)
    moreover have "calm R [] c (updp p (\<lambda>r. r\<lparr>kstack := 0, pstate := UNUSED\<rparr>) s1)"
      using s1 p by (intro calm_abort) auto
    ultimately show ?thesis using k True by (simp add: allocproc_stack_def)
  next
    case False
    define sp where "sp = k + KSTACKSIZE - TF_SIZE"
    let ?g = "\<lambda>r. r\<lparr>kstack := k, ptf := sp, pcontext := sp - 4 - CONTEXT_SIZE, pkont := KForkret\<rparr>"
    obtain m where "allocproc_stack p s = Ok (Some p, updp p ?g (s1\<lparr>ram := m\<rparr>))"
      using k False by (simp add: allocproc_stack_def Let_def updp_def setw_def sp_def)
    moreover have "calm R [] c (updp p ?g (s1\<lparr>ram := m\<rparr>))"
      using s1 p by (intro calm_embryo) (auto simp: calm_ram)
    ultimately show ?thesis using p False s1 by (auto simp: embryo_def)
  qed
qed

lemma allocproc_ok:
  assumes c: "calm R [] c s"
  shows "\<exists>po s'. allocproc s = Ok (po, s') \<and> calm R [] c s' \<and> (\<forall>p. po = Some p \<longrightarrow> embryo p s')"
proof -
  obtain po s1 where s1: "allocproc_claim s = Ok (po, s1)" "calm R [] c s1"
      "\<forall>p. po = Some p \<longrightarrow> p < NPROC \<and> pstate (procs s1 p) = EMBRYO \<and> kstack (procs s1 p) = 0"
    using allocproc_claim_ok [OF c] by fastforce
  show ?thesis
  proof (cases po)
    case None
    then show ?thesis using s1 by (simp add: allocproc_def)
  next
    case (Some p)
    then have "\<exists>po s'. allocproc_stack p s1 = Ok (po, s') \<and> calm R [] c s' \<and> (po = None \<or> po = Some p \<and> embryo p s')"
      using s1 by (intro allocproc_stack_ok) auto
    then show ?thesis using s1(1) Some by (auto simp: allocproc_def)
  qed
qed

lemma publish_ok:
  assumes c: "calm R [] c s" and p: "embryo p s" "pgdir (procs s p) \<noteq> 0"
  shows "\<exists>s'. publish p s = Ok s' \<and> calm R [] c s' \<and> pstate (procs s' p) = RUNNABLE
    \<and> qlist (mlevels s' (level (procs s p))) = qlist (mlevels s (level (procs s p))) @ [p]"
proof -
  note a = calm_ptable [OF c]
  let ?u = "make_runnable p (in_ptable s)"
  have P: "p < NPROC" "pstate (procs s p) = EMBRYO" using p by (simp_all add: embryo_def)
  have "core_inv ?u" using c p by (intro make_runnable_inv) (auto simp: calm_def mlfq_inv_def embryo_def)
  moreover have "running R (procs ?u) c"
    using c P by (auto simp: calm_def mlfq_inv_def intro!: running_idle)
  ultimately have u: "calm R [LkPtable] c ?u" using a(2) by (simp add: calm_def mlfq_inv_def)
  have core: "core_ok (mlevels s) (procs s) (nextpid s) (lockproc s)"
    using c by (simp add: calm_def mlfq_inv_def core_inv_def)
  have "level (procs s p) < 3" using core_okD(2) [OF core P(1)] by (simp add: proc_ok_def)
  then have q: "qlist (enqueue (mlevels s (level (procs s p))) p) = qlist (mlevels s (level (procs s p))) @ [p]"
    using P by (intro queues_ok_enqueue(2) [OF core_okD(1) [OF core],
          where r = "(procs s p)\<lparr>pstate := RUNNABLE\<rparr>"]) auto
  show ?thesis
    using a(1) calm_release [OF u] q
    by (simp add: publish_def) (simp add: make_runnable_def updq_def set_state_def Let_def)
qed

lemma liftfs_Ok: "liftfs f s = Ok s' \<Longrightarrow> \<exists>x. s' = s\<lparr>fsys := x\<rparr>"
  by (auto simp: liftfs_def kbind_eq_Ok_iff)

lemma fork_files_frame:
  "fork_files F cp np is s = Ok s' \<Longrightarrow> calm R H c s \<Longrightarrow> embryo np s \<and> pgdir (procs s np) \<noteq> 0 \<Longrightarrow>
     calm R H c s' \<and> embryo np s' \<and> pgdir (procs s' np) \<noteq> 0"
proof (induction F cp np "is" s rule: fork_files.induct)
  case (2 F cp np i "is" s)
  show ?case
  proof (cases "ofile (procs s cp) i = 0")
    case True
    then show ?thesis using 2 by simp
  next
    case False
    then obtain t where t: "liftfs (fs_filedup F (ofile (procs s cp) i)) s = Ok t"
        "fork_files F cp np is (updp np (\<lambda>r. r\<lparr>ofile := (ofile r)(i := ofile (procs s cp) i)\<rparr>) t) = Ok s'"
      using 2(3) by (auto simp: kbind_eq_Ok_iff Let_def)
    then obtain x where x: "t = s\<lparr>fsys := x\<rparr>" using liftfs_Ok by blast
    let ?t = "updp np (\<lambda>r. r\<lparr>ofile := (ofile r)(i := ofile (procs s cp) i)\<rparr>) (s\<lparr>fsys := x\<rparr>)"
    have "calm R H c ?t" using 2(4,5) by (intro calm_embryo) (auto simp: calm_fsys embryo_def)
    moreover have "embryo np ?t \<and> pgdir (procs ?t np) \<noteq> 0" using 2(5) by (simp add: embryo_def)
    ultimately show ?thesis using 2(1) [OF refl _ t(1)] False x t(2) by simp
  qed
qed simp

lemma fork_copy_frame:
  assumes e: "fork_copy F cp np s = Ok s'" and c: "calm R H c s" "embryo np s" "pgdir (procs s np) \<noteq> 0"
  shows "calm R H c s' \<and> embryo np s' \<and> pgdir (procs s' np) \<noteq> 0"
proof -
  let ?u = "updp np (\<lambda>r. r\<lparr>psz := psz (procs s cp), parent := Some cp\<rparr>) s"
  have u: "calm R H c ?u" using c by (intro calm_embryo) (auto simp: embryo_def)
  obtain m t x where t: "fork_files F cp np [0..<NOFILE] (?u\<lparr>ram := m\<rparr>) = Ok t"
      "s' = updp np (\<lambda>r. r\<lparr>cwd := cwd (procs t cp), pname := take 15 (pname (procs t cp))\<rparr>) (t\<lparr>fsys := x\<rparr>)"
    using e by (auto simp: fork_copy_def Let_def kbind_eq_Ok_iff setw_def memmove_ram_def dest!: liftfs_Ok)
  have "calm R H c t \<and> embryo np t \<and> pgdir (procs t np) \<noteq> 0"
    using fork_files_frame [OF t(1)] u c by (auto simp: calm_ram embryo_def)
  then show ?thesis unfolding t(2) by (auto simp: embryo_def calm_fsys intro!: calm_embryo)
qed

lemma fork_body_frame:
  assumes e: "fork_body F cp np s = Ok (ok, s')" and c: "calm R [] c s" "embryo np s"
  shows "calm R [] c s' \<and> (ok \<longrightarrow> embryo np s' \<and> pgdir (procs s' np) \<noteq> 0)
    \<and> (\<not> ok \<longrightarrow> pstate (procs s' np) = UNUSED)"
proof -
  obtain d s1 where d: "copyuvm (kdata s) (pgdir (procs s cp)) (psz (procs s cp)) s = Ok (d, s1)"
    using e by (auto simp: fork_body_def kbind_eq_Ok_iff)
  note s1 = calm_kp [OF c(1) kp_copyuvm d]
  let ?u = "updp np (\<lambda>r. r\<lparr>pgdir := d\<rparr>) s1"
  have u: "calm R [] c ?u" "embryo np ?u"
    using c(2) s1 by (auto simp: embryo_def intro!: calm_embryo)
  show ?thesis
  proof (cases "d = 0")
    case True
    then obtain s2 where s2: "kfree (kstack (procs ?u np)) ?u = Ok s2" "\<not> ok"
        "s' = updp np (\<lambda>r. r\<lparr>kstack := 0, pstate := UNUSED\<rparr>) s2"
      using e d by (auto simp: fork_body_def kbind_eq_Ok_iff Let_def)
    note k = calm_ku [OF u(1) kp_kalloc(2) s2(1)]
    have "calm R [] c s'" unfolding s2(3) using k u(2) by (intro calm_abort) (auto simp: embryo_def)
    then show ?thesis using s2 by simp
  next
    case False
    then have s2: "fork_copy F cp np ?u = Ok s'" "ok"
      using e d by (auto simp: fork_body_def kbind_eq_Ok_iff Let_def)
    then show ?thesis using fork_copy_frame [OF s2(1) u] False by simp
  qed
qed

lemma exit_files_frame:
  "exit_files F cp fds s = Ok s' \<Longrightarrow> calm R H c s \<Longrightarrow> calm R H c s'"
proof (induction F cp fds s rule: exit_files.induct)
  case (2 F cp fd fds s)
  show ?case
  proof (cases "ofile (procs s cp) fd = 0")
    case True
    then show ?thesis using 2 by simp
  next
    case False
    then obtain t where t: "liftfs (fs_fileclose F (ofile (procs s cp) fd)) s = Ok t"
        "exit_files F cp fds (updp cp (\<lambda>r. r\<lparr>ofile := (ofile r)(fd := 0)\<rparr>) t) = Ok s'"
      using 2(3) by (auto simp: kbind_eq_Ok_iff)
    obtain x where x: "t = s\<lparr>fsys := x\<rparr>" using liftfs_Ok [OF t(1)] by blast
    have "calm R H c (updp cp (\<lambda>r. r\<lparr>ofile := (ofile r)(fd := 0)\<rparr>) t)"
      using 2(4) by (intro calm_updp) (auto simp: x calm_fsys proc_ok_def)
    then show ?thesis using 2(1) [OF False t(1)] t(2) by simp
  qed
qed simp

lemma exit_fs_frame:
  assumes "exit_fs F cp s = Ok s'" and "calm R H c s"
  shows "calm R H c s'"
proof -
  obtain t x where t: "exit_files F cp [0..<NOFILE] s = Ok t"
      "s' = updp cp (\<lambda>r. r\<lparr>cwd := 0\<rparr>) (t\<lparr>fsys := x\<rparr>)"
    using assms(1) by (auto simp: exit_fs_def kbind_eq_Ok_iff dest!: liftfs_Ok split: if_splits)
  have "calm R H c t" by (rule exit_files_frame [OF t(1) assms(2)])
  then show ?thesis unfolding t(2) by (intro calm_updp) (auto simp: calm_fsys proc_ok_def)
qed

lemma switchuvm_ok:
  assumes "calm R H c s" and "kstack (procs s p) \<noteq> 0" and "pgdir (procs s p) \<noteq> 0"
  shows "switchuvm (Some p) s = Ok (s\<lparr>cpu := touch (cpu s)\<rparr>)"
  using assms lkst_cpu_wf [of s H] by (simp add: switchuvm_def mycpu_def popcli_pushcli_touch calm_def)

lemma growproc_frame:
  assumes e: "growproc n s = Ok (v, s')" and c: "calm R [] (Some p) s"
  shows "calm R [] (Some p) s'"
proof -
  let ?t = "s\<lparr>cpu := touch (cpu s)\<rparr>"
  have t: "calm R [] (Some p) ?t" using calm_myproc(2) [OF c] .
  obtain sz s1 where sz: "(if 0 < n then allocuvm (pgdir (procs s p)) (psz (procs s p)) (psz (procs s p) + word_of_int n) ?t
      else if n < 0 then deallocuvm (pgdir (procs s p)) (psz (procs s p)) (psz (procs s p) + word_of_int n) ?t
      else Ok (psz (procs s p), ?t)) = Ok (sz, s1)"
    and e2: "(if n \<noteq> 0 \<and> sz = 0 then Ok (-1, s1)
      else kbind (switchuvm (Some p) (updp p (\<lambda>r. r\<lparr>psz := sz\<rparr>) s1)) (\<lambda>s. Ok (0, s))) = Ok (v, s')"
    using e by (auto simp: growproc_def calm_with_proc [OF c] Let_def kbind_eq_Ok_iff split: if_splits)
  have "kp ?t (if 0 < n then allocuvm (pgdir (procs s p)) (psz (procs s p)) (psz (procs s p) + word_of_int n) ?t
      else if n < 0 then deallocuvm (pgdir (procs s p)) (psz (procs s p)) (psz (procs s p) + word_of_int n) ?t
      else Ok (psz (procs s p), ?t))"
    by (auto intro!: kp_intros)
  note s1 = calm_kp [OF t this sz]
  have u: "calm R [] (Some p) (updp p (\<lambda>r. r\<lparr>psz := sz\<rparr>) s1)"
    using s1 by (intro calm_updp) (auto simp: proc_ok_def)
  have "kstack (procs s1 p) \<noteq> 0" "pgdir (procs s1 p) \<noteq> 0"
    using calm_proc [OF s1(1)] by (auto simp: proc_ok_def)
  then show ?thesis
    using e2 s1 switchuvm_ok [OF u] calm_myproc(2) [OF u] by (auto split: if_splits)
qed

lemma calm_sleep:
  assumes "calm R [lk] (Some p) s" and "lk \<noteq> LkNull" and "k \<noteq> KExit"
  shows "\<exists>s'. sleep k ch lk s = Ok s' \<and> at_switch R s'"
  using assms sleep_ok by (auto simp: calm_def)

lemma core_ok_reap:
  assumes c: "core_ok L P n h" and p: "p < NPROC" "pstate (P p) = ZOMBIE"
    and r: "pstate r = UNUSED" "pid r = 0" "proc_ok n r"
  shows "core_ok L (P(p := r)) n h"
proof -
  have "pids_ok (P(p := r))"
    using core_okD(3) [OF c] r(2) unfolding pids_ok_def by (metis fun_upd_apply)
  moreover have "queues_ok L (P(p := r))" using core_okD(1) [OF c] p r by (intro queues_ok_idle) auto
  moreover have "holder_ok (P(p := r)) h" using core_okD(4) [OF c] p by (auto simp: holder_ok_def)
  ultimately show ?thesis using c r(3) by (auto simp: core_ok_def)
qed

lemma wait_loop_frame:
  assumes e: "wait_loop cp s = Ok r" and c: "calm R [LkPtable] (Some cp) s"
  shows "run_ok R r"
proof (cases "find (\<lambda>p. parent (procs s p) = Some cp \<and> pstate (procs s p) = ZOMBIE) [0..<NPROC]")
  case (Some p)
  note p = in_range [OF Some]
  obtain s1 where s1: "kfree (kstack (procs s p)) s = Ok s1" using e Some
    by (auto simp: wait_loop_def Let_def kbind_eq_Ok_iff)
  note k1 = calm_ku [OF c kp_kalloc(2) s1]
  let ?t = "updp p (\<lambda>r. r\<lparr>kstack := 0\<rparr>) s1"
  have t: "calm R [LkPtable] (Some cp) ?t" using k1 p by (intro calm_updp) (auto simp: proc_ok_def)
  obtain s2 where s2: "freevm (pgdir (procs s p)) ?t = Ok s2" using e Some s1 k1
    by (auto simp: wait_loop_def Let_def kbind_eq_Ok_iff)
  note k2 = calm_ku [OF t ku_freevm s2]
  let ?f = "\<lambda>r. r\<lparr>pid := 0, parent := None, pname := [], killed := False, pstate := UNUSED\<rparr>"
  have core: "core_ok (mlevels s2) (procs s2) (nextpid s2) (lockproc s2)"
    using k2(1) by (simp add: calm_def mlfq_inv_def core_inv_def)
  have st: "pstate (procs s2 p) = ZOMBIE" "kstack (procs s2 p) = 0" using k1 k2 p by auto
  then have "core_ok (mlevels s2) ((procs s2)(p := ?f (procs s2 p))) (nextpid s2) (lockproc s2)"
    using p core_okD(2) [OF core, of p] core_okD(5) [OF core] by (intro core_ok_reap [OF core]) (auto simp: proc_ok_def)
  moreover have "running R ((procs s2)(p := ?f (procs s2 p))) (Some cp)"
    using k2(1) st by (intro running_idle) (auto simp: calm_def mlfq_inv_def)
  ultimately have u: "calm R [LkPtable] (Some cp) (updp p ?f s2)"
    using k2(1) by (simp add: calm_def mlfq_inv_def core_inv_def)
  have "r = Returned (pid (procs s p)) (out_ptable (updp p ?f s2))"
    using e Some s1 s2 k1(2) calm_release(1) [OF u] by (simp add: wait_loop_def Let_def)
  then show ?thesis using calm_release(2) [OF u] by (simp add: calm_restD)
next
  case None
  obtain s' where s': "sleep KWait (ChProc cp) LkPtable s = Ok s'" "at_switch R s'"
    using calm_sleep [OF c] by blast
  have "calm R [] (Some cp) (out_ptable s)" "release_lk LkPtable s = Ok (out_ptable s)"
    using calm_release [OF c] by simp_all
  then show ?thesis using e None s' by (auto simp: wait_loop_def calm_restD split: if_splits)
qed

section \<open>Switching back to a process\<close>

lemma calm_acquire:
  assumes "calm R H p s" and "l \<notin> set H"
  shows "\<exists>s'. acquire_lk l s = Ok s' \<and> calm R (l # H) p s' \<and> procs s' = procs s \<and> mlevels s' = mlevels s
    \<and> lockproc s' = lockproc s \<and> ticks s' = ticks s \<and> mlfqticks s' = mlfqticks s"
  using acquire_lk_run [of s H l] assms by (auto simp: calm_def mlfq_inv_def)

lemma calm_release_lk:
  assumes "calm R H p s" and "l \<in> set H"
  shows "\<exists>s'. release_lk l s = Ok s' \<and> calm R (remove1 l H) p s' \<and> procs s' = procs s \<and> mlevels s' = mlevels s
    \<and> lockproc s' = lockproc s \<and> ticks s' = ticks s \<and> mlfqticks s' = mlfqticks s"
  using release_lk_run [of s H l] assms by (auto simp: calm_def mlfq_inv_def)

lemma calm_sched_return: "calm R [LkPtable] p s \<Longrightarrow> calm R [LkPtable] p (sched_return q s)"
  by (auto simp: calm_def sched_return_def mlfq_inv_def lkst_def)

lemma calm_intena [simp]: "calm R H p (s\<lparr>cpu := cpu s\<lparr>intena := b\<rparr>\<rparr>) = calm R H p s"
  by (auto simp: calm_def mlfq_inv_def lkst_def)

lemma sleep_return_ok:
  assumes "calm R [LkPtable] c s"
  shows "\<exists>s'. sleep_return p lk s = Ok s' \<and> calm R [lk] c s' \<and> ticks s' = ticks s"
proof -
  let ?t = "updp p (\<lambda>r. r\<lparr>pchan := NoChan\<rparr>) (sched_return p s)"
  have t: "calm R [LkPtable] c ?t"
    using calm_sched_return [OF assms] by (intro calm_updp) (auto simp: proc_ok_def)
  have t': "ticks ?t = ticks s" by (simp add: updp_def sched_return_def)
  show ?thesis
  proof (cases "lk = LkPtable")
    case True
    then show ?thesis using t t' by (auto simp: sleep_return_def Let_def)
  next
    case False
    obtain u where u: "release_lk LkPtable ?t = Ok u" "calm R [] c u" "ticks u = ticks ?t"
      using calm_release_lk [OF t, of LkPtable] by auto
    obtain v where "acquire_lk lk u = Ok v" "calm R [lk] c v" "ticks v = ticks u"
      using calm_acquire [OF u(2), of lk] by auto
    then show ?thesis using False t' u by (auto simp: sleep_return_def Let_def)
  qed
qed

lemma sys_sleep_loop_ok:
  assumes c: "calm R [LkTicks] (Some cp) s"
  shows "\<exists>r. sys_sleep_loop t0 n cp s = Ok r \<and> run_ok R r"
proof -
  obtain s1 where s1: "release_lk LkTicks s = Ok s1" "calm R [] (Some cp) s1"
    using calm_release_lk [OF c, of LkTicks] by auto
  obtain s2 where s2: "sleep (KSysSleep t0 n) ChTicks LkTicks s = Ok s2" "at_switch R s2"
    using calm_sleep [OF c] by blast
  show ?thesis using s1 s2 by (simp add: sys_sleep_loop_def calm_restD)
qed

lemma forkret_frame:
  assumes "forkret F s = Ok s'" and "calm R [LkPtable] c s"
  shows "calm R [] c s'"
proof -
  obtain x b where "s' = (out_ptable s)\<lparr>firstret := b, fsys := x\<rparr>"
  proof (cases "firstret s")
    case True
    then show ?thesis using that assms calm_release(1) [OF assms(2)]
      by (auto simp: forkret_def kbind_eq_Ok_iff out_ptable_def dest!: liftfs_Ok)
  next
    case False
    then show ?thesis using that [of "fsys s" False] assms calm_release(1) [OF assms(2)]
      by (cases s) (auto simp: forkret_def kbind_eq_Ok_iff out_ptable_def)
  qed
  then show ?thesis using calm_release(2) [OF assms(2)] by (auto simp: calm_def mlfq_inv_def)
qed

lemma resume_frame:
  assumes e: "resume F p s = Ok r" and c: "calm R [LkPtable] (Some p) s"
  shows "run_ok R r"
proof (cases "pkont (procs s p)")
  case KForkret
  then obtain s' where "forkret F s = Ok s'" "r = Returned 0 s'"
    using e by (auto simp: resume_def kbind_eq_Ok_iff)
  then show ?thesis using calm_restD [OF forkret_frame [OF _ c]] by simp
next
  case KYield
  then show ?thesis using e calm_release [OF calm_sched_return [OF c, of p]]
    by (auto simp: resume_def kbind_eq_Ok_iff calm_restD)
next
  case KUnlock
  then show ?thesis using e calm_release [OF calm_sched_return [OF c, of p]]
    by (auto simp: resume_def kbind_eq_Ok_iff calm_restD)
next
  case KExit
  then show ?thesis using e by (simp add: resume_def)
next
  case KWait
  obtain s1 where s1: "sleep_return p LkPtable s = Ok s1" "calm R [LkPtable] (Some p) s1"
    using sleep_return_ok [OF c] by blast
  then show ?thesis using e KWait wait_loop_frame [OF _ s1(2)] by (simp add: resume_def)
next
  case (KSysSleep t0 n)
  obtain s1 where s1: "sleep_return p LkTicks s = Ok s1" "calm R [LkTicks] (Some p) s1"
    using sleep_return_ok [OF c] by blast
  then show ?thesis using e KSysSleep sys_sleep_loop_ok [OF s1(2), of t0 n] by (auto simp: resume_def)
next
  case (KSleep lk)
  obtain s1 where s1: "sleep_return p lk s = Ok s1" "calm R [lk] (Some p) s1"
    using sleep_return_ok [OF c] by blast
  obtain s2 where "release_lk lk s1 = Ok s2" "calm R [] (Some p) s2"
    using calm_release_lk [OF s1(2), of lk] by auto
  then show ?thesis using e KSleep s1 by (auto simp: resume_def calm_restD)
qed

end
