(* ===== verification/Mlfq_Sched.thy ===== *)
theory Mlfq_Sched
  imports Mlfq_Inv
begin

text \<open>
  The choice of the scheduler and the bookkeeping around it: \<open>pick\<close> as a function of the three
  queues read as lists, the dispatch of a process, and priority boosting with its exact effect on
  the queues.
\<close>

section \<open>The choice\<close>

text \<open>The first element of a list with the least key.\<close>

fun first_min :: "('a \<Rightarrow> int) \<Rightarrow> 'a \<Rightarrow> 'a list \<Rightarrow> 'a" where
  "first_min f b [] = b"
| "first_min f b (y # ys) = first_min f (if f y < f b then y else b) ys"

lemma first_min_fold: "fold (\<lambda>y b. if f y < f b then y else b) ys b = first_min f b ys"
  by (induction ys arbitrary: b) auto

lemma first_min_in: "first_min f b ys \<in> insert b (set ys)"
  by (induction ys arbitrary: b) force+

lemma first_min_le: "f (first_min f b ys) \<le> f b \<and> (\<forall>y\<in>set ys. f (first_min f b ys) \<le> f y)"
proof (induction ys arbitrary: b)
  case (Cons y ys)
  show ?case using Cons [of "if f y < f b then y else b"] by (auto split: if_splits)
qed simp

lemma first_min_first:
  "\<exists>us vs. b # ys = us @ first_min f b ys # vs \<and> (\<forall>u\<in>set us. f (first_min f b ys) < f u)"
proof (induction ys arbitrary: b)
  case Nil
  show ?case by (intro exI [of _ "[]"]) simp
next
  case (Cons y ys)
  show ?case
  proof (cases "f y < f b")
    case True
    obtain us vs where "y # ys = us @ first_min f y ys # vs" "\<forall>u\<in>set us. f (first_min f y ys) < f u"
      using Cons by blast
    moreover have "f (first_min f y ys) < f b" using True first_min_le [of f y ys] by simp
    moreover have m: "first_min f b (y # ys) = first_min f y ys" using True by simp
    ultimately have "b # y # ys = (b # us) @ first_min f b (y # ys) # vs"
      "\<forall>u\<in>set (b # us). f (first_min f b (y # ys)) < f u"
      unfolding m by simp_all
    then show ?thesis by blast
  next
    case False
    obtain us vs where *: "b # ys = us @ first_min f b ys # vs" "\<forall>u\<in>set us. f (first_min f b ys) < f u"
      using Cons by blast
    have m: "first_min f b (y # ys) = first_min f b ys" using False by simp
    show ?thesis
    proof (cases us)
      case Nil
      then have "first_min f b ys = b" using *(1) by (metis append_Nil list.inject)
      then have "b # y # ys = [] @ first_min f b (y # ys) # (y # ys)" unfolding m by simp
      then show ?thesis by fastforce
    next
      case (Cons u us')
      then have "f (first_min f b ys) < f b" using * by simp
      then have "f (first_min f b ys) < f y" using False by simp
      then have "\<forall>u\<in>set (b # y # us'). f (first_min f b (y # ys)) < f u"
        unfolding m using *(2) Cons \<open>f (first_min f b ys) < f b\<close> by simp
      moreover have e: "ys = us' @ first_min f b ys # vs" using *(1) Cons by auto
      have "b # y # ys = (b # y # us') @ first_min f b (y # ys) # vs"
        unfolding m by (simp only: append_Cons e [symmetric])
      ultimately show ?thesis by blast
    qed
  qed
qed

fun chosen :: "(nat \<Rightarrow> proc) \<Rightarrow> nat list \<Rightarrow> nat list \<Rightarrow> nat list \<Rightarrow> nat option" where
  "chosen P (p # ps) l1 l2 = Some p"
| "chosen P [] (p # ps) l2 = Some p"
| "chosen P [] [] (p # ps) = Some (first_min (\<lambda>p. priority (P p)) p ps)"
| "chosen P [] [] [] = None"

lemma qlist_Cons:
  assumes "0 < qsize q"
  shows "qlist q = qprocs q 0 # map (qprocs q) [1..<qsize q]"
  using assms by (simp add: qlist_def upt_conv_Cons)

lemma pick_min_list:
  "0 < qsize (mlevels s 2) \<Longrightarrow> pick_min s (qprocs (mlevels s 2) 0) =
     first_min (\<lambda>p. priority (procs s p)) (hd (qlist (mlevels s 2))) (tl (qlist (mlevels s 2)))"
  by (simp add: pick_min_def qlist_Cons first_min_fold [symmetric] fold_map comp_def Let_def)

lemma pick_chosen:
  assumes "queues_ok (mlevels s) (procs s)"
  shows "pick s = chosen (procs s) (qlist (mlevels s 0)) (qlist (mlevels s 1)) (qlist (mlevels s 2))"
proof -
  have lev: "0 < qsize (mlevels s i) \<Longrightarrow> level (procs s (qprocs (mlevels s i) 0)) = i" if "i < 3" for i
    using queues_okD(4) [OF assms that, of "qprocs (mlevels s i) 0"] by (simp add: qlist_Cons)
  have e: "\<not> 0 < qsize (mlevels s i) \<Longrightarrow> qlist (mlevels s i) = []" for i
    by (simp add: qlist_def)
  have r: "[0..<3] = [0, 1, 2::nat]" by (simp add: upt_rec)
  consider (zero) "0 < qsize (mlevels s 0)"
    | (one) "\<not> 0 < qsize (mlevels s 0)" "0 < qsize (mlevels s 1)"
    | (two) "\<not> 0 < qsize (mlevels s 0)" "\<not> 0 < qsize (mlevels s 1)" "0 < qsize (mlevels s 2)"
    | (none) "\<not> 0 < qsize (mlevels s 0)" "\<not> 0 < qsize (mlevels s 1)" "\<not> 0 < qsize (mlevels s 2)"
    by blast
  then show ?thesis
  proof cases
    case zero
    then show ?thesis using lev [of 0] by (simp add: pick_def pick_head_def r qlist_Cons)
  next
    case one
    then show ?thesis using lev [of 1] e [of 0]
      by (simp add: pick_def pick_head_def r qlist_Cons)
  next
    case two
    then show ?thesis using lev [of 2] e [of 0] e [of 1] pick_min_list [of s]
      by (simp add: pick_def pick_head_def r qlist_Cons)
  next
    case none
    then show ?thesis using e by (simp add: pick_def pick_head_def r)
  qed
qed

lemma chosen_in:
  assumes "queues_ok L P" and "chosen P (qlist (L 0)) (qlist (L 1)) (qlist (L 2)) = Some p"
  shows "level (P p) < 3 \<and> p \<in> set (qlist (L (level (P p))))
    \<and> (level (P p) < 2 \<longrightarrow> p = hd (qlist (L (level (P p)))))"
proof -
  consider q where "qlist (L 0) = p # q"
    | q where "qlist (L 1) = p # q"
    | q qs where "qlist (L 2) = q # qs" "p = first_min (\<lambda>p. priority (P p)) q qs"
    using assms(2) by (auto elim!: chosen.elims)
  then show ?thesis
  proof cases
    case 1
    then show ?thesis using queues_okD(4) [OF assms(1), of 0 p] by simp
  next
    case 2
    then show ?thesis using queues_okD(4) [OF assms(1), of 1 p] by simp
  next
    case 3
    have "p \<in> set (qlist (L 2))" using first_min_in [of _ q qs] 3 by simp
    then show ?thesis using queues_okD(4) [OF assms(1), of 2 p] by simp
  qed
qed

section \<open>Dispatch\<close>

lemma tl_filter_hd: "distinct xs \<Longrightarrow> p \<in> set xs \<Longrightarrow> p = hd xs \<Longrightarrow> tl xs = filter (\<lambda>x. x \<noteq> p) xs"
proof (cases xs)
  case (Cons x ys)
  assume "distinct xs" and "p = hd xs"
  then have "filter (\<lambda>y. y \<noteq> x) ys = ys" using Cons by (intro filter_True) auto
  then show ?thesis using Cons \<open>p = hd xs\<close> by simp
qed simp

text \<open>What is left of the queue of the chosen process, in every level.\<close>

lemma unqueue_list:
  assumes c: "core_inv s" and p: "pick s = Some p" and i: "i = level (procs s p)"
  shows "qlist (mlevels (unqueue p s) i) = filter (\<lambda>x. x \<noteq> p) (qlist (mlevels s i))"
    and "\<And>j. j \<noteq> i \<Longrightarrow> mlevels (unqueue p s) j = mlevels s j"
    and "qwf (mlevels (unqueue p s) i)" and "timequantum (mlevels (unqueue p s) i) = timequantum (mlevels s i)"
proof -
  have q: "queues_ok (mlevels s) (procs s)" using c by (simp add: core_inv_def core_ok_def)
  note in_q = chosen_in [OF q, OF p [unfolded pick_chosen [OF q]]]
  have lt: "level (procs s p) < 3" using in_q by simp
  note D = queues_okD [OF q lt]
  show "\<And>j. j \<noteq> i \<Longrightarrow> mlevels (unqueue p s) j = mlevels s j"
    by (auto simp: unqueue_def updq_def i)
  show "timequantum (mlevels (unqueue p s) i) = timequantum (mlevels s i)"
    by (auto simp: unqueue_def updq_def i)
  show "qwf (mlevels (unqueue p s) i)"
    using D(2) by (auto simp: unqueue_def updq_def i intro: queue_laws)
  show "qlist (mlevels (unqueue p s) i) = filter (\<lambda>x. x \<noteq> p) (qlist (mlevels s i))"
  proof (cases "level (procs s p) = 2")
    case True
    have "inj_on (\<lambda>x. pid (procs s x)) (set (qlist (mlevels s 2)))"
    proof (rule inj_onI)
      fix x y
      assume "x \<in> set (qlist (mlevels s 2))" "y \<in> set (qlist (mlevels s 2))"
      then have "x < NPROC" "y < NPROC" "pstate (procs s x) = RUNNABLE"
        using D(4) [of x] D(4) [of y] unfolding True by auto
      moreover assume "pid (procs s x) = pid (procs s y)"
      ultimately show "x = y" by (intro same_pid [OF c]) auto
    qed
    then show ?thesis
      using mq.rem_unique [of "mlevels s 2" p "\<lambda>x. pid (procs s x)"] D(3) in_q True
      by (simp add: unqueue_def updq_def i)
  next
    case False
    then have "level (procs s p) < 2" using lt by simp
    then have h: "p = hd (qlist (mlevels s i))" "p \<in> set (qlist (mlevels s i))"
      using in_q unfolding i by blast+
    have t: "tl (qlist (mlevels s i)) = filter (\<lambda>x. x \<noteq> p) (qlist (mlevels s i))"
      by (rule tl_filter_hd [OF D(3) [folded i] h(2,1)])
    have "mlevels (unqueue p s) i = dequeue (mlevels s i)" using False by (simp add: unqueue_def updq_def i)
    then show ?thesis using t mq.seq_deq by metis
  qed
qed

text \<open>The accounting of one scheduling round, on the process alone.\<close>

definition charged :: "proc \<Rightarrow> proc" where
  "charged r =
     (if 2 * level r + 4 \<le> usedtime r + 1 then
        (if level r < 2 then r\<lparr>pstate := RUNNING, usedtime := 0, level := level r + 1\<rparr>
         else r\<lparr>pstate := RUNNING, usedtime := 0,
                priority := if 0 < priority r then priority r - 1 else priority r\<rparr>)
      else r\<lparr>pstate := RUNNING, usedtime := usedtime r + 1\<rparr>)"

lemma charged_simps [simp]: "pstate (charged r) = RUNNING" "pid (charged r) = pid r"
  "kstack (charged r) = kstack r" "pgdir (charged r) = pgdir r" "pkont (charged r) = pkont r"
  by (simp_all add: charged_def)

lemma charged_ok: "proc_ok n r \<Longrightarrow> pstate r = RUNNABLE \<Longrightarrow> proc_ok n (charged r)"
  by (auto simp: charged_def proc_ok_def)

definition take_out :: "nat \<Rightarrow> 'f mlfq \<Rightarrow> 'f mlfq" where
  "take_out p s = charge p (unqueue p (set_state p RUNNING s))"

lemma unqueue_set_state: "mlevels (unqueue p (set_state p st s)) = mlevels (unqueue p s)"
proof -
  have "(\<lambda>x. pid (procs (set_state p st s) x)) = (\<lambda>x. pid (procs s x))"
    by (auto simp: set_state_def updp_def)
  moreover have "level (procs (set_state p st s) p) = level (procs s p)"
    "pid (procs (set_state p st s) p) = pid (procs s p)" "mlevels (set_state p st s) = mlevels s"
    by (simp_all add: set_state_def)
  ultimately show ?thesis by (simp add: unqueue_def updq_def)
qed

lemma unqueue_frame:
  "procs (unqueue p s) = procs s" "cpu (unqueue p s) = cpu s" "lockproc (unqueue p s) = lockproc s"
  "nextpid (unqueue p s) = nextpid s" "lkst (unqueue p s) H = lkst s H"
  by (simp_all add: unqueue_def updq_def)

lemma updq_simps [simp]:
  "procs (updq i f s) = procs s" "cpu (updq i f s) = cpu s" "lockproc (updq i f s) = lockproc s"
  "nextpid (updq i f s) = nextpid s" "mlevels (updq i f s) = (mlevels s)(i := f (mlevels s i))"
  by (simp_all add: updq_def)

lemma charge_frame:
  "mlevels (charge p s) = mlevels s" "cpu (charge p s) = cpu s" "lockproc (charge p s) = lockproc s"
  "nextpid (charge p s) = nextpid s" "lkst (charge p s) H = lkst s H"
  by (simp_all add: charge_def Let_def)

lemma charged_running: "charged (r\<lparr>pstate := st\<rparr>) = charged r"
  by (cases r) (simp add: charged_def)

lemma charge_procs:
  assumes "timequantum (mlevels s (level (procs s p))) = 2 * level (procs s p) + 4"
    and "pstate (procs s p) = RUNNING"
  shows "procs (charge p s) = (procs s)(p := charged (procs s p))"
proof -
  obtain r where r: "procs s p = r" by simp
  have "r\<lparr>pstate := RUNNING\<rparr> = r" using assms(2) r by (cases r) simp
  then have "charged r = (if 2 * level r + 4 \<le> usedtime r + 1 then
        (if level r < 2 then r\<lparr>usedtime := 0, level := level r + 1\<rparr>
         else r\<lparr>usedtime := 0, priority := if 0 < priority r then priority r - 1 else priority r\<rparr>)
      else r\<lparr>usedtime := usedtime r + 1\<rparr>)"
    by (simp add: charged_def)
  then show ?thesis using assms(1) r by (simp add: charge_def Let_def)
qed

lemma take_out_ok:
  assumes c: "core_inv s" and r: "running R (procs s) None" and p: "pick s = Some p"
  shows "core_inv (take_out p s) \<and> running R (procs (take_out p s)) (Some p)
    \<and> procs (take_out p s) = (procs s)(p := charged (procs s p))
    \<and> (\<forall>i. i \<noteq> level (procs s p) \<longrightarrow> mlevels (take_out p s) i = mlevels s i)
    \<and> qlist (mlevels (take_out p s) (level (procs s p))) = filter (\<lambda>x. x \<noteq> p) (qlist (mlevels s (level (procs s p))))"
proof -
  let ?i = "level (procs s p)"
  let ?u = "unqueue p (set_state p RUNNING s)"
  have q: "queues_ok (mlevels s) (procs s)" and core: "core_ok (mlevels s) (procs s) (nextpid s) (lockproc s)"
    using c by (simp_all add: core_inv_def core_ok_def)
  note in_q = chosen_in [OF q, OF p [unfolded pick_chosen [OF q]]]
  have i: "?i < 3" and pq: "p \<in> set (qlist (mlevels s ?i))" using in_q by auto
  note P = queues_okD(4) [OF q i pq]
  note U = unqueue_list [OF c p refl]
  have mu: "mlevels ?u = (mlevels s)(?i := mlevels ?u ?i)"
    using U(2) unfolding unqueue_set_state by (auto simp: fun_eq_iff)
  have pr: "procs (take_out p s) = (procs s)(p := charged (procs s p))"
  proof -
    have "timequantum (mlevels ?u (level (procs ?u p))) = 2 * level (procs ?u p) + 4"
      using U(4) queues_okD(1) [OF q i] unfolding unqueue_set_state
      by (simp add: unqueue_frame set_state_def)
    moreover have "pstate (procs ?u p) = RUNNING" by (simp add: unqueue_frame set_state_def)
    ultimately show ?thesis using charge_procs [of ?u p]
      by (simp add: take_out_def unqueue_frame set_state_def charged_running)
  qed
  have ml: "mlevels (take_out p s) = (mlevels s)(?i := mlevels ?u ?i)"
    using mu by (simp add: take_out_def charge_frame)
  have ql: "qlist (mlevels ?u ?i) = filter (\<lambda>x. x \<noteq> p) (qlist (mlevels s ?i))"
    using U(1) by (simp add: unqueue_set_state)
  have "queues_ok ((mlevels s)(?i := mlevels ?u ?i)) ((procs s)(p := charged (procs s p)))"
    using ql U(3,4) queues_okD(3) [OF q i]
    by (intro queues_ok_take [OF q i pq]) (auto simp: unqueue_set_state)
  moreover have "proc_ok (nextpid s) (charged (procs s p))"
    using core_okD(2) [OF core] P by (intro charged_ok) auto
  moreover have "holder_ok ((procs s)(p := charged (procs s p))) (lockproc s)"
    using core_okD(4) [OF core] by (intro holder_ok_upd) auto
  ultimately have "core_ok ((mlevels s)(?i := mlevels ?u ?i)) ((procs s)(p := charged (procs s p)))
      (nextpid s) (lockproc s)"
    by (intro core_okI [OF _ core]) auto
  then have "core_inv (take_out p s)"
    unfolding core_inv_def ml pr by (simp add: take_out_def charge_frame unqueue_frame set_state_def)
  moreover have "running R ((procs s)(p := charged (procs s p))) (Some p)"
    using P by (intro running_start [OF r]) auto
  ultimately show ?thesis using ql unfolding ml pr by simp
qed

lemma pick_cong: "mlevels s' = mlevels s \<Longrightarrow> procs s' = procs s \<Longrightarrow> pick s' = pick s"
  by (simp add: pick_def pick_head_def pick_min_def split: option.split)

lemma set_state_cpu: "set_state p st (s\<lparr>cpu := c\<rparr>) = (set_state p st s)\<lparr>cpu := c\<rparr>"
  by (simp add: set_state_def updp_def)

text \<open>The state in which the scheduler looks at the queues.\<close>

definition looking :: "'f mlfq \<Rightarrow> 'f mlfq" where
  "looking s = in_ptable (s\<lparr>cpu := (cpu s)\<lparr>ifl := True\<rparr>\<rparr>)"

lemma looking_simps [simp]: "procs (looking s) = procs s" "mlevels (looking s) = mlevels s"
  "lockproc (looking s) = lockproc s" "nextpid (looking s) = nextpid s" "core_inv (looking s) = core_inv s"
  "cproc (cpu (looking s)) = cproc (cpu s)"
  by (simp_all add: looking_def)

lemma pick_looking [simp]: "pick (looking s) = pick s"
  by (rule pick_cong) simp_all

lemma lkst_looking:
  assumes "lkst s []"
  shows "acquire_lk LkPtable (s\<lparr>cpu := (cpu s)\<lparr>ifl := True\<rparr>\<rparr>) = Ok (looking s)" "lkst (looking s) [LkPtable]"
proof -
  have "lkst (s\<lparr>cpu := (cpu s)\<lparr>ifl := True\<rparr>\<rparr>) []" using assms by (simp add: lkst_def)
  then show "acquire_lk LkPtable (s\<lparr>cpu := (cpu s)\<lparr>ifl := True\<rparr>\<rparr>) = Ok (looking s)"
    "lkst (looking s) [LkPtable]"
    using acquire_ptable [of "s\<lparr>cpu := (cpu s)\<lparr>ifl := True\<rparr>\<rparr>" "[]"] by (simp_all add: looking_def)
qed

lemma scheduler_iter_none:
  assumes "calm R [] None s" and "pick s = None"
  shows "\<exists>s'. scheduler_iter s = Ok (None, s') \<and> calm R [] None s' \<and> procs s' = procs s
    \<and> mlevels s' = mlevels s \<and> lockproc s' = lockproc s"
proof -
  have l: "calm R [LkPtable] None (looking s)"
    using assms(1) lkst_looking [of s] by (auto simp: calm_def mlfq_inv_def)
  show ?thesis
    using lkst_looking(1) [of s] assms calm_release [OF l]
    by (simp add: scheduler_iter_def calm_def)
qed

lemma scheduler_iter_some:
  assumes c: "calm R [] None s" and p: "pick s = Some p"
  shows "\<exists>s'. scheduler_iter s = Ok (Some p, s') \<and> calm R [LkPtable] (Some p) s'
    \<and> procs s' = (procs s)(p := charged (procs s p))
    \<and> (\<forall>i. i \<noteq> level (procs s p) \<longrightarrow> mlevels s' i = mlevels s i)
    \<and> qlist (mlevels s' (level (procs s p))) = filter (\<lambda>x. x \<noteq> p) (qlist (mlevels s (level (procs s p))))
    \<and> lockproc s' = lockproc s"
proof -
  let ?l = "looking s"
  let ?t = "?l\<lparr>cpu := (cpu ?l)\<lparr>cproc := Some p\<rparr>\<rparr>"
  have l: "lkst ?l [LkPtable]" and inv: "core_inv s" "running R (procs s) None"
    using c lkst_looking(2) by (auto simp: calm_def mlfq_inv_def)
  have t: "lkst ?t [LkPtable]" using l by (simp add: lkst_def)
  have touch: "touch (cpu ?t) = cpu ?t" using t by (simp add: touch_def lkst_def)
  have q: "queues_ok (mlevels s) (procs s)" and core: "core_ok (mlevels s) (procs s) (nextpid s) (lockproc s)"
    using inv by (simp_all add: core_inv_def core_ok_def)
  note in_q = chosen_in [OF q, OF p [unfolded pick_chosen [OF q]]]
  have P: "p < NPROC" "pstate (procs s p) = RUNNABLE"
    using queues_okD(4) [OF q, of _ p] in_q by auto
  then have "kstack (procs s p) \<noteq> 0" "pgdir (procs s p) \<noteq> 0"
    using core_okD(2) [OF core P(1)] by (auto simp: proc_ok_def)
  then have "switchuvm (Some p) ?t = Ok ?t"
    using touch popcli_pushcli_touch [OF lkst_cpu_wf [OF t]]
    by (simp add: switchuvm_def mycpu_def)
  then have it: "scheduler_iter s = Ok (Some p, take_out p ?t)"
    using lkst_looking(1) [of s] c p by (simp add: scheduler_iter_def calm_def take_out_def)
  have "pick ?t = Some p" using p by (subst pick_cong [of _ s]) simp_all
  then have T: "core_inv (take_out p ?t) \<and> running R (procs (take_out p ?t)) (Some p)
    \<and> procs (take_out p ?t) = (procs ?t)(p := charged (procs ?t p))
    \<and> (\<forall>i. i \<noteq> level (procs ?t p) \<longrightarrow> mlevels (take_out p ?t) i = mlevels ?t i)
    \<and> qlist (mlevels (take_out p ?t) (level (procs ?t p))) = filter (\<lambda>x. x \<noteq> p) (qlist (mlevels ?t (level (procs ?t p))))"
    using inv by (intro take_out_ok) simp_all
  have "cpu (take_out p ?t) = cpu ?t" "lkst (take_out p ?t) [LkPtable]" "lockproc (take_out p ?t) = lockproc s"
    using t by (simp_all add: take_out_def charge_frame unqueue_frame set_state_def)
  then show ?thesis using it T by (auto simp: calm_def mlfq_inv_def)
qed

lemma dispatch_frame:
  assumes e: "dispatch F s = Ok s'" and c: "calm R [] None s"
  shows "rest R s'"
proof (cases "pick s")
  case None
  then show ?thesis using scheduler_iter_none [OF c] e by (auto simp: dispatch_def calm_restD)
next
  case (Some p)
  obtain s1 where s1: "scheduler_iter s = Ok (Some p, s1)" "calm R [LkPtable] (Some p) s1"
    using scheduler_iter_some [OF c Some] by blast
  then obtain r where r: "resume F p s1 = Ok r" "settle r = Ok s'"
    using e by (auto simp: dispatch_def kbind_eq_Ok_iff)
  have "run_ok R r" by (rule resume_frame [OF r(1) s1(2)])
  then show ?thesis using settle_ok r(2) by fastforce
qed

end
