(* ===== verification/Mlfq_Boost.thy ===== *)
theory Mlfq_Boost
  imports Mlfq_Sched
begin

text \<open>
  Priority boosting.  The loop of \<open>priorityboosting\<close> counts up to the size of a queue it shrinks,
  so it moves only the first half of \<open>L1\<close> and of \<open>L2\<close> (rounded up), and in \<open>L0\<close> it resets the
  front process only.  \<open>boost_levels\<close> gives the exact result; \<open>boost_safe\<close> is the condition under
  which the invariant survives the reset of the process that holds the scheduler.
\<close>

section \<open>One move\<close>

definition boosted :: "proc \<Rightarrow> proc" where
  "boosted r = r\<lparr>priority := 3, usedtime := 0, level := 0\<rparr>"

lemma boosted_simps [simp]: "pstate (boosted r) = pstate r" "pid (boosted r) = pid r"
  "level (boosted r) = 0" "usedtime (boosted r) = 0" "priority (boosted r) = 3"
  "boosted (boosted r) = boosted r"
  by (simp_all add: boosted_def)

lemma boosted_ok: "proc_ok n r \<Longrightarrow> proc_ok n (boosted r)"
  by (auto simp: proc_ok_def boosted_def)

definition boost_step :: "nat \<Rightarrow> 'f mlfq \<Rightarrow> 'f mlfq" where
  "boost_step i s = (let p = hd (qlist (mlevels s i)) in
     updq 0 (\<lambda>q. enqueue q p) (updq i dequeue (updp p boosted s)))"

lemma boost_loop_step:
  assumes "0 < i"
  shows "boost_loop i k s = (if k < qsize (mlevels s i) then boost_loop i (k + 1) (boost_step i s) else s)"
proof (cases "k < qsize (mlevels s i)")
  case True
  then have "0 < qsize (mlevels s i)" by simp
  then have "hd (qlist (mlevels s i)) = qprocs (mlevels s i) 0" by (simp add: qlist_Cons)
  moreover have "boosted = (\<lambda>r. r\<lparr>priority := 3, usedtime := 0, level := 0\<rparr>)"
    by (simp add: fun_eq_iff boosted_def)
  ultimately show ?thesis using assms by (subst boost_loop.simps) (simp add: boost_step_def Let_def)
qed (subst boost_loop.simps, simp)

lemma boost_step_ok:
  assumes c: "core_inv s" and i: "0 < i" "i < 3" and n: "qlist (mlevels s i) = p # ps"
  shows "core_inv (boost_step i s)" and "qlist (mlevels (boost_step i s) i) = ps"
    and "qlist (mlevels (boost_step i s) 0) = qlist (mlevels s 0) @ [p]"
    and "\<And>j. j \<noteq> i \<Longrightarrow> j \<noteq> 0 \<Longrightarrow> mlevels (boost_step i s) j = mlevels s j"
    and "procs (boost_step i s) = (procs s)(p := boosted (procs s p))"
proof -
  have q: "queues_ok (mlevels s) (procs s)" and core: "core_ok (mlevels s) (procs s) (nextpid s) (lockproc s)"
    using c by (simp_all add: core_inv_def core_ok_def)
  have p: "p \<in> set (qlist (mlevels s i))" by (simp add: n)
  note P = queues_okD(4) [OF q i(2) p]
  let ?L = "(mlevels s)(i := dequeue (mlevels s i))"
  let ?P = "(procs s)(p := (procs s p)\<lparr>pstate := RUNNING\<rparr>)"
  have "distinct (p # ps)" using queues_okD(3) [OF q i(2)] by (simp add: n)
  then have "queues_ok ?L ?P"
    using queues_okD(2) [OF q i(2)] by (intro queues_ok_take [OF q i(2) p]) (auto simp: queue_laws n)
  note E = queues_ok_enqueue [OF this, of p "boosted (procs s p)" 0]
  have "queues_ok (?L(0 := enqueue (?L 0) p)) (?P(p := boosted (procs s p)))"
    and q0: "qlist (enqueue (mlevels s 0) p) = qlist (mlevels s 0) @ [p]"
    using E P i by auto
  then have q': "queues_ok (?L(0 := enqueue (mlevels s 0) p)) ((procs s)(p := boosted (procs s p)))"
    using i by simp
  have "holder_ok ((procs s)(p := boosted (procs s p))) (lockproc s)"
    using core_okD(4) [OF core] P by (intro holder_ok_upd) auto
  then have "core_ok (?L(0 := enqueue (mlevels s 0) p)) ((procs s)(p := boosted (procs s p))) (nextpid s) (lockproc s)"
    using core_okD(2) [OF core] P by (intro core_okI [OF q' core]) (auto intro: boosted_ok)
  then show "core_inv (boost_step i s)" using i by (simp add: core_inv_def boost_step_def n)
  show "qlist (mlevels (boost_step i s) i) = ps" using i by (simp add: boost_step_def n queue_laws)
  show "qlist (mlevels (boost_step i s) 0) = qlist (mlevels s 0) @ [p]"
    using i q0 by (simp add: boost_step_def n)
  show "\<And>j. j \<noteq> i \<Longrightarrow> j \<noteq> 0 \<Longrightarrow> mlevels (boost_step i s) j = mlevels s j"
    by (simp add: boost_step_def Let_def)
  show "procs (boost_step i s) = (procs s)(p := boosted (procs s p))"
    by (simp add: boost_step_def n)
qed

text \<open>What the boosting leaves alone.\<close>

definition boost_frame :: "'f mlfq \<Rightarrow> 'f mlfq \<Rightarrow> bool" where
  "boost_frame s s' \<longleftrightarrow> cpu s' = cpu s \<and> lockproc s' = lockproc s \<and> nextpid s' = nextpid s \<and> ticks s' = ticks s
     \<and> mlfqticks s' = mlfqticks s \<and> (\<forall>H. lkst s' H = lkst s H)"

lemma boost_frame_refl [simp]: "boost_frame s s"
  by (simp add: boost_frame_def)

lemma boost_frame_trans: "boost_frame s s' \<Longrightarrow> boost_frame s' s'' \<Longrightarrow> boost_frame s s''"
  by (simp add: boost_frame_def)

lemma boost_frame_step: "boost_frame s (boost_step i s)" "boost_frame s (updp p f s)"
  by (simp_all add: boost_frame_def boost_step_def Let_def) (simp_all add: updp_def updq_def)

section \<open>The loops\<close>

definition half :: "nat \<Rightarrow> nat" where "half n = (n + 1) div 2"

lemma boost_loop_ok:
  assumes "core_inv s" and "0 < i" and "i < 3" and "m = half (qsize (mlevels s i) - k)"
  shows "let s' = boost_loop i k s in core_inv s' \<and> boost_frame s s'
    \<and> qlist (mlevels s' i) = drop m (qlist (mlevels s i))
    \<and> qlist (mlevels s' 0) = qlist (mlevels s 0) @ take m (qlist (mlevels s i))
    \<and> (\<forall>j. j \<noteq> i \<and> j \<noteq> 0 \<longrightarrow> mlevels s' j = mlevels s j)
    \<and> procs s' = (\<lambda>p. if p \<in> set (take m (qlist (mlevels s i))) then boosted (procs s p) else procs s p)"
  using assms
proof (induction "qsize (mlevels s i) - k" arbitrary: s k m rule: less_induct)
  case less
  show ?case
  proof (cases "k < qsize (mlevels s i)")
    case False
    then show ?thesis using less.prems by (simp add: boost_loop_step half_def)
  next
    case True
    then obtain p ps where n: "qlist (mlevels s i) = p # ps"
      by (cases "qlist (mlevels s i)") (auto simp: length_qlist [symmetric] simp del: length_qlist)
    note S = boost_step_ok [OF less.prems(1-3) n]
    let ?t = "boost_step i s"
    define m' where "m' = half (qsize (mlevels ?t i) - (k + 1))"
    have sz: "qsize (mlevels s i) = Suc (length ps)" "qsize (mlevels ?t i) = length ps"
      using n S(2) by (simp_all add: length_qlist [symmetric] del: length_qlist)
    have m: "m = Suc m'" using True less.prems(4) sz by (simp add: m'_def half_def) presburger
    have IH: "let s' = boost_loop i (k + 1) ?t in core_inv s' \<and> boost_frame ?t s'
      \<and> qlist (mlevels s' i) = drop m' (qlist (mlevels ?t i))
      \<and> qlist (mlevels s' 0) = qlist (mlevels ?t 0) @ take m' (qlist (mlevels ?t i))
      \<and> (\<forall>j. j \<noteq> i \<and> j \<noteq> 0 \<longrightarrow> mlevels s' j = mlevels ?t j)
      \<and> procs s' = (\<lambda>p. if p \<in> set (take m' (qlist (mlevels ?t i))) then boosted (procs ?t p) else procs ?t p)"
      using True sz less.prems(2,3) by (intro less.hyps S(1)) (simp_all add: m'_def)
    have "boost_frame ?t (boost_loop i (k + 1) ?t)" using IH by (simp add: Let_def)
    then have f: "boost_frame s (boost_loop i (k + 1) ?t)" by (rule boost_frame_trans [OF boost_frame_step(1)])
    have "boost_loop i k s = boost_loop i (k + 1) ?t" using True less.prems(2) by (simp add: boost_loop_step)
    then show ?thesis using IH f S n m by (auto simp: Let_def fun_eq_iff)
  qed
qed

text \<open>In \<open>L0\<close> every round resets the same process, the front one.\<close>

lemma boost_loop_zero:
  "boost_loop 0 k s =
     (if k < qsize (mlevels s 0) then updp (hd (qlist (mlevels s 0))) boosted s else s)"
proof (induction "qsize (mlevels s 0) - k" arbitrary: s k rule: less_induct)
  case less
  show ?case
  proof (cases "k < qsize (mlevels s 0)")
    case True
    let ?p = "hd (qlist (mlevels s 0))"
    have p: "qprocs (mlevels s 0) 0 = ?p" using True by (simp add: qlist_Cons)
    have b: "(\<lambda>r. r\<lparr>priority := 3, usedtime := 0, level := 0\<rparr>) = boosted"
      by (simp add: fun_eq_iff boosted_def)
    have "boost_loop 0 k s = boost_loop 0 (k + 1) (updp ?p boosted s)"
      using True p b by (subst boost_loop.simps) (simp add: Let_def)
    also have "\<dots> = updp ?p boosted s"
    proof (cases "k + 1 < qsize (mlevels s 0)")
      case True
      then have "boost_loop 0 (k + 1) (updp ?p boosted s) = updp ?p boosted (updp ?p boosted s)"
        using less [of "updp ?p boosted s" "k + 1"] by simp
      then show ?thesis by (simp add: updp_def)
    qed (subst boost_loop.simps, simp)
    finally show ?thesis using True by simp
  qed (subst boost_loop.simps, simp)
qed

section \<open>The whole boost\<close>

text \<open>The processes \<open>priorityboosting\<close> touches, in the order in which they end up in \<open>L0\<close>.\<close>

definition boost_moved :: "nat list \<Rightarrow> nat list" where
  "boost_moved xs = take (half (length xs)) xs"

definition boost_left :: "nat list \<Rightarrow> nat list" where
  "boost_left xs = drop (half (length xs)) xs"

definition boost_touched :: "'f mlfq \<Rightarrow> nat set" where
  "boost_touched s = set (take 1 (qlist (mlevels s 0))) \<union> set (boost_moved (qlist (mlevels s 1)))
     \<union> set (boost_moved (qlist (mlevels s 2)))"

definition boost_levels :: "'f mlfq \<Rightarrow> 'f mlfq" where
  "boost_levels s = fold (\<lambda>i. boost_loop i 0) [0..<3] s"

lemma boost_levels_eq: "boost_levels s = boost_loop 2 0 (boost_loop 1 0 (boost_loop 0 0 s))"
proof -
  have "[0..<3] = [0, 1, 2::nat]" by (simp add: upt_rec)
  then show ?thesis by (simp add: boost_levels_def)
qed

lemma boost_levels_ok:
  assumes c: "core_inv s"
  shows "core_inv (boost_levels s)" and "boost_frame s (boost_levels s)"
    and "qlist (mlevels (boost_levels s) 0) =
           qlist (mlevels s 0) @ boost_moved (qlist (mlevels s 1)) @ boost_moved (qlist (mlevels s 2))"
    and "qlist (mlevels (boost_levels s) 1) = boost_left (qlist (mlevels s 1))"
    and "qlist (mlevels (boost_levels s) 2) = boost_left (qlist (mlevels s 2))"
    and "procs (boost_levels s) = (\<lambda>p. if p \<in> boost_touched s then boosted (procs s p) else procs s p)"
proof -
  let ?a = "boost_loop 0 0 s"
  have q: "queues_ok (mlevels s) (procs s)" using c by (simp add: core_inv_def core_ok_def)
  have a: "core_inv ?a \<and> boost_frame s ?a \<and> mlevels ?a = mlevels s
    \<and> procs ?a = (\<lambda>p. if p \<in> set (take 1 (qlist (mlevels s 0))) then boosted (procs s p) else procs s p)"
  proof (cases "qlist (mlevels s 0)")
    case Nil
    then have "qsize (mlevels s 0) = 0" by (simp add: qlist_def)
    then show ?thesis using c Nil by (simp add: boost_loop_zero)
  next
    case (Cons p ps)
    then have "0 < qsize (mlevels s 0)" by (metis length_greater_0_conv length_qlist list.discI)
    then have e: "?a = updp p boosted s" using Cons by (simp add: boost_loop_zero)
    have "p \<in> set (qlist (mlevels s 0))" by (simp add: Cons)
    then have "level (procs s p) = 0" using queues_okD(4) [OF q, of 0 p] by simp
    then have "core_inv (updp p boosted s)" using c by (intro core_inv_updp) (auto intro: boosted_ok)
    then show ?thesis using Cons by (auto simp: e boost_frame_step)
  qed
  let ?b = "boost_loop 1 0 ?a"
  let ?m1 = "half (qsize (mlevels s 1))" and ?m2 = "half (qsize (mlevels s 2))"
  have b: "core_inv ?b \<and> boost_frame ?a ?b
    \<and> qlist (mlevels ?b 1) = drop ?m1 (qlist (mlevels s 1))
    \<and> qlist (mlevels ?b 0) = qlist (mlevels s 0) @ take ?m1 (qlist (mlevels s 1))
    \<and> (\<forall>j. j \<noteq> 1 \<and> j \<noteq> 0 \<longrightarrow> mlevels ?b j = mlevels s j)
    \<and> procs ?b = (\<lambda>p. if p \<in> set (take ?m1 (qlist (mlevels s 1))) then boosted (procs ?a p) else procs ?a p)"
    using boost_loop_ok [of ?a 1 ?m1 0] a by (simp add: Let_def)
  let ?c = "boost_loop 2 0 ?b"
  have c: "core_inv ?c \<and> boost_frame ?b ?c
    \<and> qlist (mlevels ?c 2) = drop ?m2 (qlist (mlevels s 2))
    \<and> qlist (mlevels ?c 0) = qlist (mlevels ?b 0) @ take ?m2 (qlist (mlevels s 2))
    \<and> (\<forall>j. j \<noteq> 2 \<and> j \<noteq> 0 \<longrightarrow> mlevels ?c j = mlevels ?b j)
    \<and> procs ?c = (\<lambda>p. if p \<in> set (take ?m2 (qlist (mlevels s 2))) then boosted (procs ?b p) else procs ?b p)"
    using boost_loop_ok [of ?b 2 ?m2 0] b by (simp add: Let_def)
  show "core_inv (boost_levels s)" using c by (simp add: boost_levels_eq)
  show "boost_frame s (boost_levels s)" using a b c boost_frame_trans unfolding boost_levels_eq by blast
  show "qlist (mlevels (boost_levels s) 0) =
      qlist (mlevels s 0) @ boost_moved (qlist (mlevels s 1)) @ boost_moved (qlist (mlevels s 2))"
    using b c by (simp add: boost_levels_eq boost_moved_def)
  show "qlist (mlevels (boost_levels s) 1) = boost_left (qlist (mlevels s 1))"
    using b c by (simp add: boost_levels_eq boost_left_def)
  show "qlist (mlevels (boost_levels s) 2) = boost_left (qlist (mlevels s 2))"
    using c by (simp add: boost_levels_eq boost_left_def)
  show "procs (boost_levels s) = (\<lambda>p. if p \<in> boost_touched s then boosted (procs s p) else procs s p)"
    using a b c by (auto simp: boost_levels_eq boost_touched_def boost_moved_def fun_eq_iff)
qed

text \<open>The holder of the scheduler is not waiting in the half of a queue that is left behind.\<close>

definition boost_safe :: "'f mlfq \<Rightarrow> bool" where
  "boost_safe s \<longleftrightarrow> (\<forall>l. lockproc s = Some l \<longrightarrow>
     l \<notin> set (boost_left (qlist (mlevels s 1))) \<and> l \<notin> set (boost_left (qlist (mlevels s 2))))"

definition reset_holder :: "'f mlfq \<Rightarrow> 'f mlfq" where
  "reset_holder s = (case lockproc s of None \<Rightarrow> s
     | Some p \<Rightarrow> updp p (\<lambda>r. r\<lparr>level := 0, usedtime := 0, priority := 3\<rparr>) (s\<lparr>lockproc := None\<rparr>))"

lemma boosted_eq: "r\<lparr>level := 0, usedtime := 0, priority := 3\<rparr> = boosted r"
  by (cases r) (simp add: boosted_def)

lemma reset_holder_fields:
  "lockproc (reset_holder s) = None" "mlevels (reset_holder s) = mlevels s" "cpu (reset_holder s) = cpu s"
  "nextpid (reset_holder s) = nextpid s" "lkst (reset_holder s) H = lkst s H"
  "mlfqticks (reset_holder s) = mlfqticks s" "ticks (reset_holder s) = ticks s"
  "procs (reset_holder s) = (\<lambda>p. if lockproc s = Some p then boosted (procs s p) else procs s p)"
  by (auto simp: reset_holder_def boosted_eq split: option.split) (simp_all add: updp_def)

lemma reset_holder_ok:
  assumes c: "core_inv s" and safe: "\<And>l. lockproc s = Some l \<Longrightarrow> pstate (procs s l) = RUNNABLE \<Longrightarrow> level (procs s l) = 0"
  shows "core_inv (reset_holder s)"
proof (cases "lockproc s")
  case None
  then show ?thesis using c by (simp add: reset_holder_def)
next
  case (Some l)
  have core: "core_ok (mlevels s) (procs s) (nextpid s) (lockproc s)" using c by (simp add: core_inv_def)
  have l: "l < NPROC" using core_okD(4) [OF core] Some by (simp add: holder_ok_def)
  have ok: "proc_ok (nextpid s) (boosted (procs s l))" using core_okD(2) [OF core l] by (rule boosted_ok)
  have "core_ok (mlevels s) ((procs s)(l := boosted (procs s l))) (nextpid s) None"
  proof (cases "pstate (procs s l) = RUNNABLE")
    case True
    then have "core_ok (mlevels s) ((procs s)(l := boosted (procs s l))) (nextpid s) (lockproc s)"
      using safe [OF Some] ok by (intro core_ok_same [OF core]) auto
    then show ?thesis by (simp add: core_ok_def)
  next
    case False
    then show ?thesis using ok l by (intro core_ok_idle [OF core]) auto
  qed
  then show ?thesis using Some by (simp add: core_inv_def reset_holder_def boosted_eq)
qed

lemma boost_holder_level:
  assumes c: "core_inv s" and safe: "boost_safe s" and l: "lockproc s = Some l"
    and r: "pstate (procs s l) = RUNNABLE"
  shows "level (procs (boost_levels s) l) = 0"
proof -
  note B = boost_levels_ok [OF c]
  have core: "core_ok (mlevels s) (procs s) (nextpid s) (lockproc s)" using c by (simp add: core_inv_def)
  have lp: "l < NPROC" using core_okD(4) [OF core] l by (simp add: holder_ok_def)
  let ?s = "boost_levels s"
  have q: "queues_ok (mlevels ?s) (procs ?s)" using B(1) by (simp add: core_inv_def core_ok_def)
  have "pstate (procs ?s l) = RUNNABLE" using r by (simp add: B(6))
  then have in_q: "level (procs ?s l) < 3" "l \<in> set (qlist (mlevels ?s (level (procs ?s l))))"
    using queues_ok_runnable [OF q lp] by auto
  have "l \<notin> set (qlist (mlevels ?s 1))" "l \<notin> set (qlist (mlevels ?s 2))"
    using safe l unfolding boost_safe_def B(4) B(5) by blast+
  then have "level (procs ?s l) \<noteq> 1" "level (procs ?s l) \<noteq> 2" using in_q(2) by auto
  then show ?thesis using in_q(1) by simp
qed

lemma priorityboosting_ok:
  assumes c: "calm R H p s" and H: "LkPtable \<notin> set H" and safe: "boost_safe s"
  shows "\<exists>s'. priorityboosting s = Ok s' \<and> calm R H p s' \<and> lockproc s' = None
    \<and> qlist (mlevels s' 0) = qlist (mlevels s 0) @ boost_moved (qlist (mlevels s 1)) @ boost_moved (qlist (mlevels s 2))
    \<and> qlist (mlevels s' 1) = boost_left (qlist (mlevels s 1))
    \<and> qlist (mlevels s' 2) = boost_left (qlist (mlevels s 2))
    \<and> procs s' = (\<lambda>x. if x \<in> boost_touched s \<or> lockproc s = Some x then boosted (procs s x) else procs s x)
    \<and> mlfqticks s' = mlfqticks s"
proof -
  obtain s1 where s1: "acquire_lk LkPtable s = Ok s1" "calm R (LkPtable # H) p s1" "procs s1 = procs s"
      "mlevels s1 = mlevels s" "lockproc s1 = lockproc s" "mlfqticks s1 = mlfqticks s"
    using calm_acquire [OF c H] by blast
  have c1: "core_inv s1" using s1(2) by (simp add: calm_def mlfq_inv_def)
  note B = boost_levels_ok [OF c1]
  let ?b = "boost_levels s1"
  have fr: "cpu ?b = cpu s1" "lockproc ?b = lockproc s" "\<And>H. lkst ?b H = lkst s1 H" "mlfqticks ?b = mlfqticks s"
    using B(2) s1(5,6) by (simp_all add: boost_frame_def)
  have safe1: "boost_safe s1" using safe s1 by (simp add: boost_safe_def)
  let ?r = "reset_holder ?b"
  have cr: "core_inv ?r"
  proof (rule reset_holder_ok [OF B(1)])
    fix l assume l: "lockproc ?b = Some l" "pstate (procs ?b l) = RUNNABLE"
    then have "lockproc s1 = Some l" "pstate (procs s1 l) = RUNNABLE"
      using fr(2) s1(5) by (auto simp: B(6) split: if_splits)
    then show "level (procs ?b l) = 0" by (rule boost_holder_level [OF c1 safe1])
  qed
  have pr: "procs ?r = (\<lambda>x. if x \<in> boost_touched s \<or> lockproc s = Some x then boosted (procs s x) else procs s x)"
    using fr(2) s1(3,4) by (auto simp: reset_holder_fields B(6) boost_touched_def fun_eq_iff)
  have "running R (procs ?r) p"
    using c unfolding pr by (auto simp: calm_def mlfq_inv_def running_def)
  then have r: "calm R (LkPtable # H) p ?r"
    using cr fr s1(2) by (simp add: calm_def mlfq_inv_def reset_holder_fields)
  obtain s2 where s2: "release_lk LkPtable ?r = Ok s2" "calm R H p s2" "procs s2 = procs ?r" "mlevels s2 = mlevels ?r"
      "lockproc s2 = lockproc ?r" "mlfqticks s2 = mlfqticks ?r"
    using calm_release_lk [OF r, of LkPtable] by auto
  have "priorityboosting s = Ok s2"
    using s1(1) s2(1) by (simp add: priorityboosting_def boost_levels_def reset_holder_def Let_def)
  then show ?thesis using s2 pr fr(4) B(3-5) s1(4) by (simp add: reset_holder_fields)
qed

section \<open>The timer tick\<close>

text \<open>The tick about to come is the one that boosts.\<close>

definition boost_due :: "'f mlfq \<Rightarrow> bool" where
  "boost_due s \<longleftrightarrow> (mlfqticks s + 1) mod 100 = 0"

lemma calm_wakeup:
  assumes "calm R H p s" and "LkPtable \<notin> set H"
  shows "\<exists>s'. wakeup ch s = Ok s' \<and> calm R H p s'"
  using wakeup_ok [of R s H ch] assms by (auto simp: calm_def)

lemma timer_tick_ok:
  assumes c: "calm R [] p s" and safe: "boost_due s \<longrightarrow> boost_safe s"
  shows "\<exists>s'. timer_tick s = Ok s' \<and> calm R [] p s'"
proof -
  obtain s1 where s1: "acquire_lk LkTicks s = Ok s1" "calm R [LkTicks] p s1" "mlevels s1 = mlevels s"
      "lockproc s1 = lockproc s" "mlfqticks s1 = mlfqticks s"
    using calm_acquire [OF c, of LkTicks] by auto
  obtain s2 where s2: "acquire_lk LkMlfqTicks s1 = Ok s2" "calm R [LkMlfqTicks, LkTicks] p s2" "mlevels s2 = mlevels s"
      "lockproc s2 = lockproc s" "mlfqticks s2 = mlfqticks s"
    using calm_acquire [OF s1(2), of LkMlfqTicks] s1(3-5) by auto
  let ?t = "s2\<lparr>ticks := ticks s2 + 1, mlfqticks := (mlfqticks s2 + 1) mod 100\<rparr>"
  have t: "calm R [LkMlfqTicks, LkTicks] p ?t" using s2(2) by (auto simp: calm_def mlfq_inv_def)
  obtain s3 where s3: "(if mlfqticks ?t = 0 then priorityboosting ?t else Ok ?t) = Ok s3"
      "calm R [LkMlfqTicks, LkTicks] p s3"
  proof (cases "mlfqticks ?t = 0")
    case True
    then have "boost_safe ?t" using safe s2(3-5) by (simp add: boost_due_def boost_safe_def)
    then show ?thesis using that True priorityboosting_ok [OF t] by auto
  qed (use t that in auto)
  obtain s4 where s4: "wakeup ChTicks s3 = Ok s4" "calm R [LkMlfqTicks, LkTicks] p s4"
    using calm_wakeup [OF s3(2)] by auto
  obtain s5 where s5: "release_lk LkMlfqTicks s4 = Ok s5" "calm R [LkTicks] p s5"
    using calm_release_lk [OF s4(2), of LkMlfqTicks] by auto
  obtain s6 where s6: "release_lk LkTicks s5 = Ok s6" "calm R [] p s6"
    using calm_release_lk [OF s5(2), of LkTicks] by auto
  have "timer_tick s = kbind (if mlfqticks ?t = 0 then priorityboosting ?t else Ok ?t) (\<lambda>s.
      kbind (wakeup ChTicks s) (\<lambda>s. kbind (release_lk LkMlfqTicks s) (release_lk LkTicks)))"
    using s1(1) s2(1) by (simp add: timer_tick_def)
  also have "\<dots> = Ok s6" unfolding s3(1) using s4(1) s5(1) s6(1) by simp
  finally show ?thesis using s6(2) by blast
qed

end
