(* ===== verification/Mlfq_Steps.thy ===== *)
theory Mlfq_Steps
  imports Mlfq_Boost
begin

text \<open>
  The kernel of project 1 on any number of CPUs as a step relation.  A step (\<open>mstep\<close>) is what one CPU does in one
  critical section of \<open>ptable.lock\<close>, with the code of the same call around it that touches only its own process,
  the counters or the file system; the long system calls are several steps (\<open>fork\<close> is claim, stack, body and publish;
  \<open>exit\<close> is the file part and the scheduling part), so the CPUs take turns between them.  Calls with two such
  sections appear both whole, as they run on one CPU, and in parts: the tick as \<open>ms_count\<close>, \<open>ms_boost\<close> and
  \<open>ms_wakeup\<close>, \<open>schedulerLock\<close> as \<open>ms_lock_claim\<close> and \<open>ms_lock_reset\<close>, the return from a sleep as \<open>ms_enter\<close> and
  \<open>ms_sleep_on\<close>.  The parts are allowed at any time, which gives more runs than the kernel has.

  Boosts are steps whether they are safe or not; the first argument of \<open>mstep\<close> records whether the step is a boost
  that strands the holder of the scheduler (\<open>\<not> boost_safe\<close>), and the last one of \<open>mreach\<close> whether one has happened.
\<close>

section \<open>Steps\<close>

definition bss_state :: "'f mlfq \<Rightarrow> bool" where
  "bss_state s \<longleftrightarrow>
     (\<forall>p. pstate (procs s p) = UNUSED \<and> pid (procs s p) = 0 \<and> kstack (procs s p) = 0
        \<and> priority (procs s p) = 0 \<and> usedtime (procs s p) = 0 \<and> level (procs s p) = 0)
     \<and> nextpid s = 1 \<and> initproc s = None \<and> (\<forall>l. slocks s l = initlock) \<and> kmem_lock s = initlock
     \<and> ncli (cpu s) = 0 \<and> cproc (cpu s) = None"

inductive mstep :: "'f fsops \<Rightarrow> bool \<Rightarrow> 'f mlfq \<Rightarrow> 'f mlfq \<Rightarrow> bool" for F :: "'f fsops" where
  ms_userinit: "cproc (cpu s) = None \<Longrightarrow> initproc s = None \<Longrightarrow> userinit F code n s = Ok s' \<Longrightarrow> mstep F False s s'"
| ms_yield: "cproc (cpu s) = Some p \<Longrightarrow> yield s = Ok r \<Longrightarrow> settle r = Ok s' \<Longrightarrow> mstep F False s s'"
| ms_sleep: "cproc (cpu s) = Some p \<Longrightarrow> acquire_lk (LkOther n) s = Ok s1 \<Longrightarrow>
     sleep (KSleep (LkOther n)) ch (LkOther n) s1 = Ok s2 \<Longrightarrow> scheduler_back s2 = Ok s' \<Longrightarrow> mstep F False s s'"
| ms_sys_sleep: "cproc (cpu s) = Some p \<Longrightarrow> sys_sleep n s = Ok r \<Longrightarrow> settle r = Ok s' \<Longrightarrow> mstep F False s s'"
| ms_wakeup: "wakeup ch s = Ok s' \<Longrightarrow> mstep F False s s'"
| ms_kill: "cproc (cpu s) = Some p \<Longrightarrow> kill k s = Ok (v, s') \<Longrightarrow> mstep F False s s'"
| ms_setPriority: "cproc (cpu s) = Some p \<Longrightarrow> mstep F False s (setPriority k n s)"
| ms_lock: "cproc (cpu s) = Some p \<Longrightarrow> schedulerLock F PASSWORD s = Ok r \<Longrightarrow> settle r = Ok s' \<Longrightarrow> mstep F False s s'"
| ms_unlock: "cproc (cpu s) = Some p \<Longrightarrow> schedulerUnlock F PASSWORD s = Ok r \<Longrightarrow> settle r = Ok s' \<Longrightarrow> mstep F False s s'"
| ms_claim: "cproc (cpu s) = Some p \<Longrightarrow> allocproc_claim s = Ok (np, s') \<Longrightarrow> mstep F False s s'"
| ms_stack: "cproc (cpu s) = Some p \<Longrightarrow> np < NPROC \<Longrightarrow> pstate (procs s np) = EMBRYO \<Longrightarrow> kstack (procs s np) = 0 \<Longrightarrow>
     allocproc_stack np s = Ok (v, s') \<Longrightarrow> mstep F False s s'"
| ms_fork_body: "cproc (cpu s) = Some p \<Longrightarrow> embryo np s \<Longrightarrow> fork_body F p np s = Ok (v, s') \<Longrightarrow> mstep F False s s'"
| ms_publish: "cproc (cpu s) = Some p \<Longrightarrow> embryo np s \<Longrightarrow> pgdir (procs s np) \<noteq> 0 \<Longrightarrow>
     publish np s = Ok s' \<Longrightarrow> mstep F False s s'"
| ms_exit_fs: "cproc (cpu s) = Some p \<Longrightarrow> exit_fs F p s = Ok s' \<Longrightarrow> mstep F False s s'"
| ms_exit: "cproc (cpu s) = Some p \<Longrightarrow> exit_sched p s = Ok s1 \<Longrightarrow> scheduler_back s1 = Ok s' \<Longrightarrow> mstep F False s s'"
| ms_wait: "cproc (cpu s) = Some p \<Longrightarrow> wait s = Ok r \<Longrightarrow> settle r = Ok s' \<Longrightarrow> mstep F False s s'"
| ms_growproc: "cproc (cpu s) = Some p \<Longrightarrow> growproc n s = Ok (v, s') \<Longrightarrow> mstep F False s s'"
| ms_tick: "timer_tick s = Ok s' \<Longrightarrow> mstep F (boost_due s \<and> \<not> boost_safe s) s s'"
| ms_count: "mstep F False s (s\<lparr>ticks := ticks s + 1, mlfqticks := (mlfqticks s + 1) mod 100\<rparr>)"
| ms_boost: "priorityboosting s = Ok s' \<Longrightarrow> mstep F (\<not> boost_safe s) s s'"
| ms_lock_claim: "cproc (cpu s) = Some p \<Longrightarrow> acquire_lk LkPtable s = Ok s1 \<Longrightarrow> lockproc s1 = None \<Longrightarrow>
     release_lk LkPtable (s1\<lparr>lockproc := Some p\<rparr>) = Ok s' \<Longrightarrow> mstep F False s s'"
| ms_lock_reset: "mstep F False s (s\<lparr>mlfqticks := 0\<rparr>)"
| ms_enter: "cproc (cpu s) = None \<Longrightarrow> scheduler_iter s = Ok (Some p, s1) \<Longrightarrow>
     s2 \<in> {sched_return p s1, updp p (\<lambda>r. r\<lparr>pchan := NoChan\<rparr>) (sched_return p s1)} \<Longrightarrow>
     release_lk LkPtable s2 = Ok s' \<Longrightarrow> mstep F False s s'"
| ms_sleep_on: "cproc (cpu s) = Some p \<Longrightarrow> acquire_lk LkTicks s = Ok s1 \<Longrightarrow> sys_sleep_loop t0 n p s1 = Ok r \<Longrightarrow>
     settle r = Ok s' \<Longrightarrow> mstep F False s s'"
| ms_dispatch: "cproc (cpu s) = None \<Longrightarrow> dispatch F s = Ok s' \<Longrightarrow> mstep F False s s'"

text \<open>
  The machine: the CPUs \<open>c i\<close> for \<open>i < n\<close>, and the state \<open>s\<close> they share, whose component \<open>cpu\<close> is set to
  the CPU that makes the step.  It starts with \<open>pinit\<close> and no process on any CPU.
\<close>

inductive mreach :: "'f fsops \<Rightarrow> nat \<Rightarrow> (nat \<Rightarrow> cpu) \<Rightarrow> 'f mlfq \<Rightarrow> bool \<Rightarrow> bool" for F :: "'f fsops" and n :: nat where
  mr_boot: "bss_state s \<Longrightarrow> (\<And>i. i < n \<Longrightarrow> ncli (c i) = 0 \<and> cproc (c i) = None) \<Longrightarrow> mreach F n c (pinit s) False"
| mr_step: "mreach F n c s b \<Longrightarrow> i < n \<Longrightarrow> mstep F b' (s\<lparr>cpu := c i\<rparr>) s' \<Longrightarrow> mreach F n (c(i := cpu s')) s' (b \<or> b')"

section \<open>The invariant in every reachable state\<close>

lemma pinit_eq: "pinit s = s\<lparr>slocks := (slocks s)(LkPtable := initlock), lockproc := None,
    mlevels := (mlevels s)(0 := (mlevels s 0)\<lparr>qsize := 0, timequantum := 4\<rparr>,
      1 := (mlevels s 1)\<lparr>qsize := 0, timequantum := 6\<rparr>, 2 := (mlevels s 2)\<lparr>qsize := 0, timequantum := 8\<rparr>)\<rparr>"
proof -
  have "[0..<3] = [0, 1, 2::nat]" by (simp add: upt_rec)
  then show ?thesis by (simp add: pinit_def updq_def fun_upd_twist)
qed

lemma pinit_ok:
  assumes "bss_state s"
  shows "rest {} (pinit s)"
proof -
  have i: "i < 3 \<Longrightarrow> i = 0 \<or> i = 1 \<or> i = 2" for i :: nat by auto
  have "queues_ok (mlevels (pinit s)) (procs (pinit s))"
    using assms by (auto simp: queues_ok_def pinit_eq bss_state_def qlist_def qwf_def dest!: i)
  then show ?thesis using assms
    by (simp add: rest_def mlfq_inv_def core_inv_def core_ok_def)
       (simp add: pinit_eq bss_state_def proc_ok_def pids_ok_def running_def lkst_def)
qed

lemma userinit_ok:
  assumes e: "userinit F code n s = Ok s'" and c: "calm R [] None s"
  shows "calm R [] None s'"
proof -
  obtain po s1 where s1: "allocproc s = Ok (po, s1)" "calm R [] None s1" "\<forall>p. po = Some p \<longrightarrow> embryo p s1"
    using allocproc_ok [OF c] by blast
  then obtain p where p: "po = Some p" using e by (cases po) (auto simp: userinit_def Let_def)
  let ?s1 = "s1\<lparr>initproc := po\<rparr>"
  have c1: "calm R [] None ?s1" "embryo p ?s1"
    using s1 p by (auto simp: calm_def mlfq_inv_def core_inv_def embryo_def)
  obtain d s2 where s2: "setupkvm (kdata ?s1) ?s1 = Ok (d, s2)" "d \<noteq> 0"
    using e s1 p by (auto simp: userinit_def Let_def kbind_eq_Ok_iff split: if_splits)
  note k2 = calm_kp [OF c1(1) kp_setupkvm s2(1)]
  let ?s2 = "updp p (\<lambda>r. r\<lparr>pgdir := d\<rparr>) s2"
  have c2: "calm R [] None ?s2" "embryo p ?s2"
    using k2 c1(2) by (auto simp: embryo_def intro!: calm_embryo)
  obtain s3 where s3: "inituvm d code n ?s2 = Ok s3"
    using e s1 p s2 by (auto simp: userinit_def Let_def kbind_eq_Ok_iff split: if_splits)
  note k3 = calm_ku [OF c2(1) ku_inituvm s3]
  let ?t = "updp p (\<lambda>r. r\<lparr>psz := PGSIZE\<rparr>) s3"
  obtain x w where x: "publish p (updp p (\<lambda>r. r\<lparr>cwd := w\<rparr>) ((updp p (\<lambda>r. r\<lparr>pname := ''initcode''\<rparr>)
      (?t\<lparr>ram := userinit_tf (ptf (procs ?t p)) (ram ?t)\<rparr>))\<lparr>fsys := x\<rparr>)) = Ok s'"
    using e s1(1) p s2 s3 by (auto simp: userinit_def Let_def kbind_eq_Ok_iff)
  let ?u = "updp p (\<lambda>r. r\<lparr>cwd := w\<rparr>) ((updp p (\<lambda>r. r\<lparr>pname := ''initcode''\<rparr>)
      (?t\<lparr>ram := userinit_tf (ptf (procs ?t p)) (ram ?t)\<rparr>))\<lparr>fsys := x\<rparr>)"
  have st: "pstate (procs s3 p) = EMBRYO" "kstack (procs s3 p) \<noteq> 0" "pgdir (procs s3 p) = d" "p < NPROC"
    using k3 c2(2) by (simp_all add: embryo_def)
  have "calm R [] None ?t" using k3 st by (intro calm_embryo) auto
  then have "calm R [] None (updp p (\<lambda>r. r\<lparr>pname := ''initcode''\<rparr>) (?t\<lparr>ram := userinit_tf (ptf (procs ?t p)) (ram ?t)\<rparr>))"
    using st by (intro calm_embryo) (auto simp: calm_ram)
  then have "calm R [] None ?u" using st by (intro calm_embryo) (auto simp: calm_fsys)
  moreover have "embryo p ?u" "pgdir (procs ?u p) \<noteq> 0" using st s2(2) by (simp_all add: embryo_def)
  ultimately show ?thesis using publish_ok x by fastforce
qed

lemma restI: "calm R [] p s \<Longrightarrow> rest R s"
  by (rule calm_restD)

lemma rest_calm: "rest R s \<Longrightarrow> cproc (cpu s) = p \<Longrightarrow> calm R [] p s"
  by (simp add: calm_def rest_def)

lemma sleep_step_ok:
  assumes "calm R [] (Some p) s" and "acquire_lk (LkOther n) s = Ok s1"
    and "sleep (KSleep (LkOther n)) ch (LkOther n) s1 = Ok s2" and "scheduler_back s2 = Ok s'"
  shows "rest R s'"
proof -
  have "calm R [LkOther n] (Some p) s1" using calm_acquire [OF assms(1), of "LkOther n"] assms(2) by auto
  then have "at_switch R s2" using calm_sleep [of R "LkOther n" p s1 "KSleep (LkOther n)" ch] assms(3) by auto
  then show ?thesis using scheduler_back_ok assms(4) by fastforce
qed

lemma sys_sleep_run:
  assumes "calm R [] (Some p) s"
  shows "\<exists>r. sys_sleep n s = Ok r \<and> run_ok R r"
proof -
  obtain s1 where s1: "acquire_lk LkTicks s = Ok s1" "calm R [LkTicks] (Some p) s1"
    using calm_acquire [OF assms, of LkTicks] by auto
  then show ?thesis
    using sys_sleep_loop_ok [OF calm_myproc(2) [OF s1(2)]]
    by (simp add: sys_sleep_def calm_with_proc [OF s1(2)])
qed

lemma sys_sleep_frame: "sys_sleep n s = Ok r \<Longrightarrow> calm R [] (Some p) s \<Longrightarrow> run_ok R r"
  using sys_sleep_run [of R p s n] by auto

lemma wait_frame:
  assumes "wait s = Ok r" and c: "calm R [] (Some p) s"
  shows "run_ok R r"
proof -
  note t = calm_myproc(2) [OF c]
  show ?thesis
    using assms(1) calm_ptable [OF t] wait_loop_frame [of p "in_ptable (s\<lparr>cpu := touch (cpu s)\<rparr>)" r]
    by (simp add: wait_def calm_with_proc [OF c])
qed

lemma wakeup_frame: "wakeup ch s = Ok s' \<Longrightarrow> rest R s \<Longrightarrow> rest R s'"
  using calm_wakeup [OF rest_calm [OF _ refl], of R s ch] by (auto dest: restI)

lemma kill_frame: "kill k s = Ok (v, s') \<Longrightarrow> rest R s \<Longrightarrow> rest R s'"
  using kill_ok [of R s k] by auto

lemma schedulerLock_frame: "schedulerLock F PASSWORD s = Ok r \<Longrightarrow> rest R s \<Longrightarrow> cproc (cpu s) = Some p \<Longrightarrow> run_ok R r"
  using schedulerLock_ok [of R s p F] by auto

lemma schedulerUnlock_frame: "schedulerUnlock F PASSWORD s = Ok r \<Longrightarrow> rest R s \<Longrightarrow> cproc (cpu s) = Some p \<Longrightarrow> run_ok R r"
  using schedulerUnlock_ok [of R s p F] by auto

lemma allocproc_claim_frame: "allocproc_claim s = Ok (np, s') \<Longrightarrow> calm R [] c s \<Longrightarrow> calm R [] c s'"
  using allocproc_claim_ok [of R c s] by auto

lemma settle_rest: "run_ok R r \<Longrightarrow> settle r = Ok s' \<Longrightarrow> rest R s'"
  using settle_ok by fastforce

lemma lock_claim_ok:
  assumes "calm R [] (Some p) s" and "acquire_lk LkPtable s = Ok s1" and "release_lk LkPtable (s1\<lparr>lockproc := Some p\<rparr>) = Ok s'"
  shows "rest R s'"
proof -
  have c1: "calm R [LkPtable] (Some p) s1" using calm_ptable [OF assms(1)] assms(2) by auto
  have "holder_ok (procs s1) (Some p)" using calm_proc [OF c1] by (auto simp: holder_ok_def)
  then have "calm R [LkPtable] (Some p) (s1\<lparr>lockproc := Some p\<rparr>)"
    using c1 by (auto simp: calm_def mlfq_inv_def core_inv_def core_ok_def lkst_def)
  from calm_release [OF this] show ?thesis using assms(3) restI by auto
qed

lemma enter_ok:
  assumes c: "calm R [] None s" and "scheduler_iter s = Ok (Some p, s1)"
    and "s2 \<in> {sched_return p s1, updp p (\<lambda>r. r\<lparr>pchan := NoChan\<rparr>) (sched_return p s1)}"
    and "release_lk LkPtable s2 = Ok s'"
  shows "rest R s'"
proof -
  have "pick s \<noteq> None" using scheduler_iter_none [OF c] assms(2) by auto
  then obtain q where "pick s = Some q" by blast
  then have c1: "calm R [LkPtable] (Some p) s1" using scheduler_iter_some [OF c] assms(2) by fastforce
  note c2 = calm_sched_return [OF c1, of p]
  have "calm R [LkPtable] (Some p) (updp p (\<lambda>r. r\<lparr>pchan := NoChan\<rparr>) (sched_return p s1))"
    using c2 by (intro calm_updp) (auto simp: proc_ok_def)
  then have "calm R [LkPtable] (Some p) s2" using c2 assms(3) by auto
  from calm_release [OF this] show ?thesis using assms(4) restI by auto
qed

lemma sleep_on_ok:
  assumes "calm R [] (Some p) s" and "acquire_lk LkTicks s = Ok s1" and "sys_sleep_loop t0 n p s1 = Ok r"
  shows "run_ok R r"
proof -
  have "calm R [LkTicks] (Some p) s1" using calm_acquire [OF assms(1), of LkTicks] assms(2) by auto
  from sys_sleep_loop_ok [OF this, of t0 n] show ?thesis using assms(3) by auto
qed

lemma mstep_rest: "mstep F b s s' \<Longrightarrow> \<not> b \<Longrightarrow> rest R s \<Longrightarrow> rest R s'"
proof (induction rule: mstep.induct)
  case ms_userinit
  show ?case using ms_userinit.hyps userinit_ok rest_calm [OF ms_userinit.prems(2)] restI by blast
next
  case ms_yield
  show ?case using ms_yield.hyps yield_ok [OF ms_yield.prems(2)] settle_rest by fastforce
next
  case ms_sleep
  show ?case using ms_sleep.hyps sleep_step_ok rest_calm [OF ms_sleep.prems(2)] by blast
next
  case ms_sys_sleep
  show ?case using ms_sys_sleep.hyps sys_sleep_frame rest_calm [OF ms_sys_sleep.prems(2)] settle_rest by blast
next
  case ms_wakeup
  show ?case using ms_wakeup.hyps wakeup_frame ms_wakeup.prems(2) by blast
next
  case ms_kill
  show ?case using ms_kill.hyps kill_frame ms_kill.prems(2) by blast
next
  case ms_setPriority
  show ?case using setPriority_ok [OF ms_setPriority.prems(2)] by simp
next
  case ms_lock
  show ?case using ms_lock.hyps schedulerLock_frame ms_lock.prems(2) settle_rest by blast
next
  case ms_unlock
  show ?case using ms_unlock.hyps schedulerUnlock_frame ms_unlock.prems(2) settle_rest by blast
next
  case ms_claim
  show ?case using ms_claim.hyps allocproc_claim_frame rest_calm [OF ms_claim.prems(2)] restI by blast
next
  case ms_stack
  show ?case using ms_stack.hyps allocproc_stack_ok [OF rest_calm [OF ms_stack.prems(2)]] restI by fastforce
next
  case ms_fork_body
  show ?case using ms_fork_body.hyps fork_body_frame rest_calm [OF ms_fork_body.prems(2)] restI by blast
next
  case ms_publish
  show ?case using ms_publish.hyps publish_ok [OF rest_calm [OF ms_publish.prems(2)]] restI by fastforce
next
  case ms_exit_fs
  show ?case using ms_exit_fs.hyps exit_fs_frame rest_calm [OF ms_exit_fs.prems(2)] restI by blast
next
  case ms_exit
  show ?case using ms_exit.hyps exit_sched_ok [OF rest_calm [OF ms_exit.prems(2)]] scheduler_back_ok by fastforce
next
  case ms_wait
  show ?case using ms_wait.hyps wait_frame rest_calm [OF ms_wait.prems(2)] settle_rest by blast
next
  case ms_growproc
  show ?case using ms_growproc.hyps growproc_frame rest_calm [OF ms_growproc.prems(2)] restI by blast
next
  case (ms_tick s s')
  have "boost_due s \<longrightarrow> boost_safe s" using ms_tick.prems(1) by simp
  from timer_tick_ok [OF rest_calm [OF ms_tick.prems(2) refl] this] show ?case using ms_tick.hyps restI by fastforce
next
  case (ms_count s)
  then show ?case by (simp add: rest_def mlfq_inv_def core_inv_def lkst_def)
next
  case (ms_boost s s')
  have "boost_safe s" using ms_boost.prems(1) by simp
  from priorityboosting_ok [OF rest_calm [OF ms_boost.prems(2) refl] _ this] show ?case using ms_boost.hyps restI by fastforce
next
  case (ms_lock_claim s p s1 s')
  show ?case using lock_claim_ok [OF rest_calm [OF ms_lock_claim.prems(2) ms_lock_claim.hyps(1)] ms_lock_claim.hyps(2,4)] .
next
  case (ms_lock_reset s)
  then show ?case by (simp add: rest_def mlfq_inv_def core_inv_def lkst_def)
next
  case (ms_enter s p s1 s2 s')
  show ?case using enter_ok [OF rest_calm [OF ms_enter.prems(2) ms_enter.hyps(1)] ms_enter.hyps(2-4)] .
next
  case (ms_sleep_on s p s1 t0 n r s')
  show ?case using sleep_on_ok [OF rest_calm [OF ms_sleep_on.prems(2) ms_sleep_on.hyps(1)] ms_sleep_on.hyps(2,3)] ms_sleep_on.hyps(4) settle_rest by blast
next
  case ms_dispatch
  show ?case using ms_dispatch.hyps dispatch_frame rest_calm [OF ms_dispatch.prems(2)] by blast
qed

section \<open>All CPUs\<close>

text \<open>The processes on the other CPUs.\<close>

definition others :: "nat \<Rightarrow> (nat \<Rightarrow> cpu) \<Rightarrow> nat \<Rightarrow> nat set" where
  "others n c i = {p. \<exists>k<n. k \<noteq> i \<and> cproc (c k) = Some p}"

definition all_rest :: "nat \<Rightarrow> (nat \<Rightarrow> cpu) \<Rightarrow> 'f mlfq \<Rightarrow> bool" where
  "all_rest n c s \<longleftrightarrow> (\<forall>i<n. rest (others n c i) (s\<lparr>cpu := c i\<rparr>))"

lemma rest_cpu: "rest R (s\<lparr>cpu := d\<rparr>) \<longleftrightarrow> core_inv s \<and> running R (procs s) (cproc d)
    \<and> (\<forall>l. slocks s l = initlock) \<and> ncli d = 0 \<and> kmem_lock s = initlock"
  by (auto simp: rest_def mlfq_inv_def core_inv_def lkst_def)

lemma all_rest_step:
  assumes "all_rest n c s" and i: "i < n" and s': "rest (others n c i) s'"
  shows "all_rest n (c(i := cpu s')) s'"
proof -
  let ?c = "c(i := cpu s')"
  have s'': "rest (others n c i) (s'\<lparr>cpu := cpu s'\<rparr>)" using s' by simp
  note r = s'' [unfolded rest_cpu]
  have "rest (others n ?c k) (s'\<lparr>cpu := ?c k\<rparr>)" if k: "k < n" for k
  proof (cases "k = i")
    case True
    have "others n ?c i = others n c i" by (auto simp: others_def)
    then show ?thesis using True s'' by simp
  next
    case False
    have old: "rest (others n c k) (s\<lparr>cpu := c k\<rparr>)" using assms(1) k by (simp add: all_rest_def)
    note o = old [unfolded rest_cpu]
    have mine: "p < NPROC \<and> p \<notin> others n c k \<and> p \<in> others n c i" if "cproc (c k) = Some p" for p
      using o that k False by (auto simp: running_def others_def)
    have rest_o: "others n ?c k = {p. cproc (cpu s') = Some p} \<union> {p. \<exists>l<n. l \<noteq> k \<and> l \<noteq> i \<and> cproc (c l) = Some p}"
      using i False by (auto simp: others_def)
    have "others n c i = {p. cproc (c k) = Some p} \<union> {p. \<exists>l<n. l \<noteq> k \<and> l \<noteq> i \<and> cproc (c l) = Some p}"
      using k False by (auto simp: others_def)
    then have "running (others n ?c k) (procs s') (cproc (c k))"
      using r mine unfolding rest_o running_def by (auto simp: others_def)
    then show ?thesis using r o False by (simp add: rest_cpu)
  qed
  then show ?thesis by (simp add: all_rest_def)
qed

lemma mreach_rest: "mreach F n c s b \<Longrightarrow> \<not> b \<Longrightarrow> all_rest n c s"
proof (induction rule: mreach.induct)
  case (mr_boot s c)
  have "others n c i = {}" if "i < n" for i using mr_boot.hyps(2) by (auto simp: others_def)
  then show ?case using mr_boot.hyps(2) pinit_ok [OF mr_boot.hyps(1)]
    by (auto simp: all_rest_def rest_cpu) (auto simp: rest_def mlfq_inv_def core_inv_def lkst_def running_def pinit_eq mr_boot.hyps(1) [unfolded bss_state_def])
next
  case (mr_step c s b i b' s')
  then have "all_rest n c s" "\<not> b'" by auto
  then show ?case using mstep_rest [OF mr_step.hyps(3)] mr_step.hyps(2) by (intro all_rest_step) (auto simp: all_rest_def)
qed

end
