(* ===== verification/Mlfq_Props.thy ===== *)
theory Mlfq_Props
  imports Mlfq_Steps
begin

text \<open>
  The properties of the MLFQ scheduler, over the invariant \<open>rest R\<close> that every reachable state
  satisfies on each CPU, where \<open>R\<close> are the processes that run on the other CPUs, and the concrete states their witnesses evaluate.
\<close>

section \<open>Concrete states\<close>

definition unused_proc :: proc where
  "unused_proc = \<lparr>psz = 0, pgdir = 0, kstack = 0, pstate = UNUSED, pid = 0, parent = None, ptf = 0,
     pcontext = 0, pchan = NoChan, killed = False, ofile = (\<lambda>_. 0), cwd = 0, pname = [], priority = 0,
     usedtime = 0, level = 0, pkont = KForkret, pkint = False\<rparr>"

definition live_proc :: "int \<Rightarrow> procstate \<Rightarrow> nat \<Rightarrow> int \<Rightarrow> proc" where
  "live_proc k st lev prio = unused_proc\<lparr>pgdir := 0x80400000, kstack := 0x80401000, pstate := st, pid := k,
     level := lev, priority := prio\<rparr>"

definition queue_of :: "nat \<Rightarrow> nat list \<Rightarrow> queue" where
  "queue_of tq xs = \<lparr>qprocs = (\<lambda>i. if i < length xs then xs ! i else 0), qsize = length xs, timequantum = tq\<rparr>"

lemma qlist_queue_of [simp]: "qlist (queue_of tq xs) = xs"
  by (rule nth_equalityI) (simp_all add: queue_of_def)

lemma queue_of_simps [simp]: "qsize (queue_of tq xs) = length xs" "timequantum (queue_of tq xs) = tq"
  by (simp_all add: queue_of_def)

definition demo :: "(nat \<Rightarrow> proc) \<Rightarrow> nat list \<Rightarrow> nat list \<Rightarrow> nat list \<Rightarrow> nat option \<Rightarrow> nat option \<Rightarrow> unit mlfq" where
  "demo P l0 l1 l2 holder cur =
     \<lparr>cpu = \<lparr>cpuid = 0, ncli = 0, intena = False, ifl = True, cproc = cur\<rparr>, ram = (\<lambda>_. 0),
      kmem_lock = initlock, kmem_use_lock = True, kmem_freelist = 0, kend = 0x801154A8,
      slocks = (\<lambda>_. initlock), procs = P, lockproc = holder,
      mlevels = (\<lambda>i. if i = 0 then queue_of 4 l0 else if i = 1 then queue_of 6 l1 else queue_of 8 l2),
      initproc = Some 0, nextpid = 10, ticks = 0, mlfqticks = 0, firstret = False, kdata = 0x80108000,
      ktrapret = 0x801058D0, kforkret = 0x80103CD0, fsys = ()\<rparr>"

lemma demo_simps [simp]:
  "procs (demo P l0 l1 l2 h c) = P" "mlevels (demo P l0 l1 l2 h c) 0 = queue_of 4 l0"
  "mlevels (demo P l0 l1 l2 h c) (Suc 0) = queue_of 6 l1" "mlevels (demo P l0 l1 l2 h c) 2 = queue_of 8 l2"
  "lockproc (demo P l0 l1 l2 h c) = h" "cproc (cpu (demo P l0 l1 l2 h c)) = c"
  "nextpid (demo P l0 l1 l2 h c) = 10" "mlfqticks (demo P l0 l1 l2 h c) = 0" "lkst (demo P l0 l1 l2 h c) []"
  "initproc (demo P l0 l1 l2 h c) = Some 0"
  by (simp_all add: demo_def lkst_def)

lemma level_cases: "i < 3 \<Longrightarrow> i = 0 \<or> i = Suc 0 \<or> i = (2::nat)"
  by auto

lemma demo_rest:
  assumes "distinct l0" "distinct l1" "distinct l2" "length l0 \<le> 64" "length l1 \<le> 64" "length l2 \<le> 64"
    and "\<forall>p\<in>set l0. p < 64 \<and> level (P p) = 0 \<and> pstate (P p) = RUNNABLE"
    and "\<forall>p\<in>set l1. p < 64 \<and> level (P p) = 1 \<and> pstate (P p) = RUNNABLE"
    and "\<forall>p\<in>set l2. p < 64 \<and> level (P p) = 2 \<and> pstate (P p) = RUNNABLE"
    and "\<forall>p<64. pstate (P p) = RUNNABLE \<longrightarrow> p \<in> set (if level (P p) = 0 then l0 else if level (P p) = 1 then l1 else l2)"
    and "\<forall>p<64. proc_ok 10 (P p)" and "pids_ok P" and "holder_ok P h" and "running {} P c"
  shows "rest {} (demo P l0 l1 l2 h c)"
proof -
  have "queues_ok (mlevels (demo P l0 l1 l2 h c)) P"
  proof (rule queues_okI)
    fix i :: nat assume "i < 3"
    then show "timequantum (mlevels (demo P l0 l1 l2 h c) i) = 2 * i + 4 \<and> qwf (mlevels (demo P l0 l1 l2 h c) i)
        \<and> distinct (qlist (mlevels (demo P l0 l1 l2 h c) i))"
      using assms(1-6) by (auto simp: qwf_def NPROC_def dest!: level_cases)
  next
    fix i p :: nat
    assume "i < 3" "p \<in> set (qlist (mlevels (demo P l0 l1 l2 h c) i))"
    then show "p < NPROC \<and> level (P p) = i \<and> pstate (P p) = RUNNABLE"
      using assms(7-9) by (auto simp: NPROC_def dest!: level_cases)
  next
    fix p assume p: "p < NPROC" "pstate (P p) = RUNNABLE"
    then have l: "level (P p) < 3" using assms(11) by (simp add: proc_ok_def NPROC_def)
    show "level (P p) < 3 \<and> p \<in> set (qlist (mlevels (demo P l0 l1 l2 h c) (level (P p))))"
      using p l assms(10) level_cases [OF l] by (auto simp: NPROC_def)
  qed
  then show ?thesis
    using assms(11-14) by (simp add: rest_def mlfq_inv_def core_inv_def core_ok_def NPROC_def)
qed

text \<open>Seven processes: 0 in the state \<open>st\<close>, 1 in \<open>L0\<close>, 2 and 3 in \<open>L1\<close>, 4 and 5 in \<open>L2\<close>, 6 asleep.\<close>

definition dprocs :: "procstate \<Rightarrow> nat \<Rightarrow> proc" where
  "dprocs st = (\<lambda>_. unused_proc)(0 := live_proc 1 st 1 3, 1 := live_proc 2 RUNNABLE 0 3,
     2 := live_proc 3 RUNNABLE 1 3, 3 := live_proc 4 RUNNABLE 1 3, 4 := live_proc 5 RUNNABLE 2 2,
     5 := live_proc 6 RUNNABLE 2 1, 6 := (live_proc 7 SLEEPING 1 3)\<lparr>pchan := ChTicks\<rparr>)"

lemma dprocs_pid: "p < 7 \<Longrightarrow> pid (dprocs st p) = int p + 1" "\<not> p < 7 \<Longrightarrow> dprocs st p = unused_proc"
proof -
  assume "p < 7"
  then have "p = 0 \<or> p = 1 \<or> p = 2 \<or> p = 3 \<or> p = 4 \<or> p = 5 \<or> p = 6" by auto
  then show "pid (dprocs st p) = int p + 1" by (auto simp: dprocs_def live_proc_def)
qed (auto simp: dprocs_def)

lemma dprocs_pids_ok: "pids_ok (dprocs st)"
proof -
  have "pid (dprocs st p) = (if p < 7 then int p + 1 else 0)" for p
    by (simp add: dprocs_pid unused_proc_def)
  then show ?thesis by (simp add: pids_ok_def)
qed

lemma dprocs_ok: "st \<noteq> UNUSED \<Longrightarrow> proc_ok 10 (dprocs st p)"
  by (auto simp: dprocs_def live_proc_def unused_proc_def proc_ok_def)

lemma dprocs_running: "running {} (dprocs RUNNING) (Some 0)" "running {} (dprocs SLEEPING) None"
  by (auto simp: running_def dprocs_def live_proc_def unused_proc_def NPROC_def split: if_splits)

lemma dprocs_fields:
  "pstate (dprocs st p) = (if p = 0 then st else if p = 6 then SLEEPING else if p < 6 then RUNNABLE else UNUSED)"
  "level (dprocs st p) = (if p \<in> {0, 2, 3, 6} then 1 else if p \<in> {4, 5} then 2 else 0)"
  by (auto simp: dprocs_def live_proc_def unused_proc_def)

lemma demo_dprocs:
  assumes "st \<in> {RUNNING, SLEEPING}" and "running {} (dprocs st) c" and "holder_ok (dprocs st) h"
  shows "rest {} (demo (dprocs st) [1] [2, 3] [4, 5] h c)"
  using assms dprocs_pids_ok dprocs_ok by (intro demo_rest) (auto simp: dprocs_fields)

lemma demo_running_rest: "h \<in> {None, Some 0, Some 3} \<Longrightarrow> rest {} (demo (dprocs RUNNING) [1] [2, 3] [4, 5] h (Some 0))"
  using dprocs_running(1) by (intro demo_dprocs) (auto simp: holder_ok_def dprocs_fields NPROC_def)

lemma demo_idle_rest: "rest {} (demo (dprocs SLEEPING) [1] [2, 3] [4, 5] None None)"
  using dprocs_running(2) by (intro demo_dprocs) auto

section \<open>The invariant\<close>

lemma count_list_distinct: "distinct xs \<Longrightarrow> count_list xs x = of_bool (x \<in> set xs)"
  by (induction xs) auto


text \<open>Every process is in the queue of its level once if it is \<open>RUNNABLE\<close>, and in no other queue.\<close>

definition queued_once :: "'f mlfq \<Rightarrow> bool" where
  "queued_once s \<longleftrightarrow> (\<forall>p<NPROC. \<forall>i<3. count_list (qlist (mlevels s i)) p = of_bool (pstate (procs s p) = RUNNABLE \<and> level (procs s p) = i))"

lemma rest_queued_once:
  assumes "rest R s"
  shows "queued_once s"
proof -
  have q: "queues_ok (mlevels s) (procs s)" using restD(1) [OF assms] by (simp add: core_inv_def core_ok_def)
  have "count_list (qlist (mlevels s i)) p = of_bool (pstate (procs s p) = RUNNABLE \<and> level (procs s p) = i)"
    if "p < NPROC" "i < 3" for p i
  proof (cases "p \<in> set (qlist (mlevels s i))")
    case True
    then show ?thesis using queues_okD(3,4) [OF q that(2)] by (auto simp: count_list_distinct)
  next
    case False
    then show ?thesis using queues_ok_runnable [OF q that(1)] by (auto simp: count_list_0_iff)
  qed
  then show ?thesis by (simp add: queued_once_def)
qed

lemma queued_once_cpu [simp]: "queued_once (s\<lparr>cpu := d\<rparr>) = queued_once s" "boost_safe (s\<lparr>cpu := d\<rparr>) = boost_safe s"
  by (simp_all add: queued_once_def boost_safe_def)

text \<open>What a boost leaves in \<open>L1\<close> and \<open>L2\<close>, and the level of the holder, whether the boost is safe or not.\<close>

lemma boost_result:
  assumes "rest R s"
  shows "\<exists>s'. priorityboosting s = Ok s' \<and> (\<forall>i\<in>{1, 2}. qlist (mlevels s' i) = boost_left (qlist (mlevels s i)))
    \<and> (\<forall>l. lockproc s = Some l \<longrightarrow> level (procs s' l) = 0)"
proof -
  have l: "lkst s []" and c: "core_inv s" using restD [OF assms(1)] by simp_all
  note a = acquire_ptable [OF l, simplified]
  have c1: "core_inv (in_ptable s)" using c by simp
  note B = boost_levels_ok [OF c1]
  let ?r = "reset_holder (boost_levels (in_ptable s))"
  have lr: "lkst ?r [LkPtable]" using a(2) B(2) by (simp add: reset_holder_fields boost_frame_def)
  have "priorityboosting s = Ok (out_ptable ?r)"
    using a(1) release_ptable(1) [OF lr] by (simp add: priorityboosting_def boost_levels_def reset_holder_def Let_def)
  moreover have "qlist (mlevels (out_ptable ?r) i) = boost_left (qlist (mlevels s i))" if "i \<in> {1, 2}" for i
    using that B(4,5) by (auto simp: reset_holder_fields)
  moreover have "level (procs (out_ptable ?r) l) = 0" if "lockproc s = Some l" for l
    using that B(2) by (simp add: reset_holder_fields boost_frame_def)
  ultimately show ?thesis by blast
qed

lemma boost_safe_iff:
  assumes "rest R s"
  shows "\<exists>s'. priorityboosting s = Ok s' \<and> (queued_once s' \<longleftrightarrow> boost_safe s)"
proof (cases "boost_safe s")
  case True
  have "calm R [] (cproc (cpu s)) s" using assms by (simp add: calm_def rest_def)
  from priorityboosting_ok [OF this _ True] obtain s' where "priorityboosting s = Ok s'" "calm R [] (cproc (cpu s)) s'" by auto
  then show ?thesis using True rest_queued_once calm_restD by blast
next
  case False
  then obtain l i where l: "lockproc s = Some l" and i: "i \<in> {1, 2}" "l \<in> set (boost_left (qlist (mlevels s i)))"
    by (auto simp: boost_safe_def)
  have "l < NPROC" using restD(1) [OF assms] l by (auto simp: core_inv_def core_ok_def holder_ok_def)
  obtain s' where s': "priorityboosting s = Ok s'" "l \<in> set (qlist (mlevels s' i))" "level (procs s' l) = 0"
    using boost_result [OF assms] l i by auto
  have n: "count_list (qlist (mlevels s' i)) l \<noteq> 0" using s'(2) by (simp add: count_list_0_iff)
  have i3: "i < 3" "0 \<noteq> i" using i(1) by auto
  have "\<not> queued_once s'"
  proof
    assume "queued_once s'"
    then have "count_list (qlist (mlevels s' i)) l = of_bool (pstate (procs s' l) = RUNNABLE \<and> level (procs s' l) = i)"
      using \<open>l < NPROC\<close> i3(1) by (simp add: queued_once_def)
    then show False using n i3(2) s'(3) by simp
  qed
  then show ?thesis using s'(1) False by blast
qed

text \<open>
  C1.  On any number of CPUs (the Makefile starts two), with their critical sections in any order, and in every
  reachable state before a boost strands the holder of the scheduler: a process is in the queue of level \<open>i\<close> exactly
  once if it is \<open>RUNNABLE\<close> at level \<open>i\<close>, and not at all otherwise; every process has a level below
  3, has used less than the quantum of its level, and has a priority from 0 to 3; the processes that are
  \<open>RUNNING\<close> are those on the CPUs, each on one; live pids are unique; the holder of the scheduler is
  a live process; and \<open>ptable.lock\<close> is free between two critical sections.  No other step can break this, and a boost
  breaks it exactly when it strands the holder (\<open>\<not> boost_safe\<close>): the holder waits in the part of \<open>L1\<close> or
  \<open>L2\<close> that the boost does not move.  The code does boost in that case, and then nothing is claimed.
\<close>

theorem scheduler_invariant:
  assumes "mreach F n c s False" and "i < n" and "p < NPROC"
  shows "queued_once s
    \<and> level (procs s p) < 3 \<and> usedtime (procs s p) < 2 * level (procs s p) + 4
    \<and> 0 \<le> priority (procs s p) \<and> priority (procs s p) \<le> 3
    \<and> (pstate (procs s p) = RUNNING \<longleftrightarrow> (\<exists>k<n. cproc (c k) = Some p))
    \<and> (\<forall>k<n. cproc (c i) = Some p \<and> cproc (c k) = Some p \<longrightarrow> k = i)
    \<and> (\<forall>q<NPROC. pid (procs s q) = pid (procs s p) \<and> pid (procs s p) \<noteq> 0 \<longrightarrow> q = p)
    \<and> (lockproc s = Some p \<longrightarrow> pstate (procs s p) \<in> {SLEEPING, RUNNABLE, RUNNING})
    \<and> slocks s LkPtable = initlock
    \<and> (\<exists>s'. priorityboosting (s\<lparr>cpu := c i\<rparr>) = Ok s' \<and> (queued_once s' \<longleftrightarrow> boost_safe s))"
proof -
  let ?s = "s\<lparr>cpu := c i\<rparr>"
  have r: "rest (others n c i) ?s" using mreach_rest [OF assms(1)] assms(2) by (simp add: all_rest_def)
  have core: "core_ok (mlevels s) (procs s) (nextpid s) (lockproc s)"
    using restD(1) [OF r] by (simp add: core_inv_def)
  have "queued_once s" using rest_queued_once [OF r] by simp
  moreover have "slocks s LkPtable = initlock" using r by (simp add: rest_cpu)
  moreover have "proc_ok (nextpid s) (procs s p)" using core_okD(2) [OF core assms(3)] .
  moreover have "lockproc s = Some p \<longrightarrow> pstate (procs s p) \<in> {SLEEPING, RUNNABLE, RUNNING}"
    using core_okD(4) [OF core] by (auto simp: holder_ok_def)
  moreover have "\<forall>q<NPROC. pid (procs s q) = pid (procs s p) \<and> pid (procs s p) \<noteq> 0 \<longrightarrow> q = p"
    using core_okD(3) [OF core] assms(3) unfolding pids_ok_def by metis
  moreover have "\<exists>s'. priorityboosting ?s = Ok s' \<and> (queued_once s' \<longleftrightarrow> boost_safe s)"
    using boost_safe_iff [OF r] by simp
  moreover have "pstate (procs s p) = RUNNING \<longleftrightarrow> cproc (c i) = Some p \<or> p \<in> others n c i" "cproc (c i) = Some p \<longrightarrow> p \<notin> others n c i"
    using r assms(3) by (simp_all add: rest_cpu running_def)
  then have "pstate (procs s p) = RUNNING \<longleftrightarrow> (\<exists>k<n. cproc (c k) = Some p)"
    "\<forall>k<n. cproc (c i) = Some p \<and> cproc (c k) = Some p \<longrightarrow> k = i"
    using assms(2) by (auto simp: others_def)
  ultimately show ?thesis by (simp add: proc_ok_def)
qed

lemma scheduler_invariant_witness:
  "\<forall>F. \<exists>c (s :: unit mlfq). mreach F 2 c s False \<and> pstate (procs s 5) = UNUSED \<and> queued_once s
     \<and> usedtime (procs s 5) < 4 + 2 * level (procs s 5)"
proof
  fix F :: "unit fsops"
  let ?b = "(demo (\<lambda>_. unused_proc) [] [] [] None None)\<lparr>nextpid := 1, initproc := None\<rparr>"
  let ?c = "\<lambda>i :: nat. \<lparr>cpuid = i, ncli = 0, intena = False, ifl = True, cproc = None :: nat option\<rparr>"
  have "bss_state ?b" by (simp add: bss_state_def unused_proc_def demo_def)
  then have m: "mreach F 2 ?c (pinit ?b) False" by (rule mr_boot) simp
  have "pstate (procs (pinit ?b) 5) = UNUSED" by (simp add: pinit_eq unused_proc_def)
  then show "\<exists>c (s :: unit mlfq). mreach F 2 c s False \<and> pstate (procs s 5) = UNUSED \<and> queued_once s
      \<and> usedtime (procs s 5) < 4 + 2 * level (procs s 5)"
    using scheduler_invariant [OF m, of 0 5] m by (intro exI [of _ ?c] exI [of _ "pinit ?b"]) (simp add: NPROC_def)
qed



section \<open>The choice of the scheduler\<close>





section \<open>Time quanta\<close>

text \<open>What a fresh process has become after \<open>n\<close> scheduling rounds without a boost.\<close>

definition aged :: "nat \<Rightarrow> nat \<times> nat \<times> int" where
  "aged n = (if n < 4 then (0, n, 3) else if n < 10 then (1, n - 4, 3)
     else (2, (n - 10) mod 8, max 0 (3 - int ((n - 10) div 8))))"

lemma charged_aged:
  assumes "(level r, usedtime r, priority r) = aged n"
  shows "(level (charged r), usedtime (charged r), priority (charged r)) = aged (Suc n)"
proof -
  consider "n < 3" | "n = 3" | "4 \<le> n" "n < 9" | "n = 9" | "10 \<le> n" by linarith
  then show ?thesis
  proof cases
    case 5
    define m where "m = n - 10"
    have m: "Suc n - 10 = Suc m" using 5 by (simp add: m_def)
    have "level r = 2" "usedtime r = m mod 8" "priority r = max 0 (3 - int (m div 8))"
      using assms 5 by (simp_all add: aged_def m_def)
    then show ?thesis using 5 m by (auto simp: charged_def aged_def mod_Suc div_Suc max_def)
  qed (use assms in \<open>auto simp: charged_def aged_def\<close>)
qed

text \<open>
  A run seen from the process \<open>p\<close>: \<open>rounds p n s t\<close>, from the state \<open>s\<close> to the state \<open>t\<close> the
  scheduler dispatched \<open>p\<close> in \<open>n\<close> of its rounds, on any CPU.  Between two rounds anything may happen
  that leaves the scheduling fields of \<open>p\<close> alone: only a boost, \<open>schedulerUnlock\<close>, \<open>setPriority\<close> and
  a new process in the entry of \<open>p\<close> write them.
\<close>

definition sched_fields :: "proc \<Rightarrow> nat \<times> nat \<times> int" where
  "sched_fields r = (level r, usedtime r, priority r)"

inductive rounds :: "nat \<Rightarrow> nat \<Rightarrow> 'f mlfq \<Rightarrow> 'f mlfq \<Rightarrow> bool" for p where
  rounds_none: "rounds p 0 s s"
| rounds_turn: "rounds p n s t \<Longrightarrow> rest R t \<Longrightarrow> cproc (cpu t) = None \<Longrightarrow> scheduler_iter t = Ok (c, u)
    \<Longrightarrow> rounds p (if c = Some p then Suc n else n) s u"
| rounds_other: "rounds p n s t \<Longrightarrow> sched_fields (procs u p) = sched_fields (procs t p) \<Longrightarrow> rounds p n s u"

lemma scheduler_iter_procs:
  assumes "rest R t" and "cproc (cpu t) = None" and "scheduler_iter t = Ok (c, u)"
  shows "procs u p = (if c = Some p then charged (procs t p) else procs t p)"
proof -
  have k: "calm R [] None t" using assms by (simp add: calm_def rest_def)
  show ?thesis
  proof (cases "pick t")
    case None
    then show ?thesis using scheduler_iter_none [OF k] assms(3) by auto
  next
    case (Some q)
    then show ?thesis using scheduler_iter_some [OF k] assms(3) by auto
  qed
qed

lemma rounds_aged:
  assumes "rounds p n s t" and "sched_fields (procs s p) = (0, 0, 3)"
  shows "sched_fields (procs t p) = aged n"
  using assms
proof (induction rule: rounds.induct)
  case (rounds_none s)
  then show ?case by (simp add: aged_def)
next
  case (rounds_turn n s t R c u)
  then have "sched_fields (procs t p) = aged n" by blast
  then show ?case using charged_aged [of "procs t p" n] scheduler_iter_procs [OF rounds_turn.hyps(2-4), of p]
    by (simp add: sched_fields_def)
qed simp

text \<open>
  C17.  The time quanta: a process that starts in \<open>L0\<close> with priority 3 drops to \<open>L1\<close> when the scheduler
  has dispatched it exactly 4 times, to \<open>L2\<close> after 6 more dispatches, and there loses one point of priority every 8
  dispatches, down to 0; \<open>usedtime\<close> counts the dispatches in the current quantum.  The dispatches are rounds of
  \<open>scheduler_iter\<close>, on any CPU, with other processes dispatched and anything else that leaves these fields of the process
  alone in between.
\<close>

theorem quantum_accounting:
  assumes "rounds p n s t"
    and "level (procs s p) = 0" and "usedtime (procs s p) = 0" and "priority (procs s p) = 3"
  shows "level (procs t p) = (if n < 4 then 0 else if n < 10 then 1 else 2)
    \<and> usedtime (procs t p) = (if n < 4 then n else if n < 10 then n - 4 else (n - 10) mod 8)
    \<and> priority (procs t p) = (if n < 10 then 3 else max 0 (3 - int ((n - 10) div 8)))"
  using rounds_aged [OF assms(1)] assms(2-4) by (auto simp: aged_def sched_fields_def)

lemma quantum_accounting_witness:
  "\<exists>u. rounds 1 1 (demo (dprocs SLEEPING) [1] [2, 3] [4, 5] None None) u \<and> usedtime (procs u 1) = 1"
proof -
  let ?s = "demo (dprocs SLEEPING) [1] [2, 3] [4, 5] None None"
  have k: "calm {} [] None ?s" using demo_idle_rest by (simp add: calm_def rest_def)
  have q: "queues_ok (mlevels ?s) (procs ?s)" using demo_idle_rest by (simp add: rest_def mlfq_inv_def core_inv_def core_ok_def)
  have "pick ?s = Some 1" unfolding pick_chosen [OF q] by simp
  from scheduler_iter_some [OF k this] obtain u where u: "scheduler_iter ?s = Ok (Some 1, u)" by blast
  have r: "rounds 1 (if Some (1::nat) = Some 1 then Suc 0 else 0) ?s u"
    by (rule rounds_turn [OF rounds_none demo_idle_rest demo_simps(6) u])
  then have r: "rounds 1 1 ?s u" by simp
  show ?thesis
    using quantum_accounting [OF r] r by (intro exI [of _ u]) (auto simp: dprocs_def live_proc_def unused_proc_def)
qed

section \<open>Giving up the CPU\<close>

text \<open>
  \<open>yield\<close>: the process that holds the scheduler keeps the CPU, and nothing changes; any other
  process goes to the back of the queue of its level, \<open>RUNNABLE\<close>, and the scheduler runs.
\<close>

theorem yield_effect:
  assumes "rest R s" and "cproc (cpu s) = Some p"
  shows "\<exists>r s'. yield s = Ok r \<and> settle r = Ok s' \<and> rest R s' \<and>
    (if lockproc s = Some p
     then cproc (cpu s') = Some p \<and> procs s' = procs s \<and> mlevels s' = mlevels s
     else cproc (cpu s') = None \<and> pstate (procs s' p) = RUNNABLE
       \<and> qlist (mlevels s' (level (procs s p))) = qlist (mlevels s (level (procs s p))) @ [p]
       \<and> (\<forall>q. q \<noteq> p \<longrightarrow> procs s' q = procs s q)
       \<and> (\<forall>i. i \<noteq> level (procs s p) \<longrightarrow> mlevels s' i = mlevels s i))"
proof -
  let ?t = "s\<lparr>cpu := touch (cpu s)\<rparr>"
  have c: "calm R [] (Some p) s" using assms by (simp add: calm_def rest_def)
  note t = calm_myproc(2) [OF c] and a = calm_ptable [OF calm_myproc(2) [OF c]]
  have y: "yield s = (if owns_scheduler p (in_ptable ?t)
      then kbind (release_lk LkPtable (in_ptable ?t)) (\<lambda>s. Ok (Returned () s))
      else kbind (sched KYield (make_runnable p (in_ptable ?t))) (\<lambda>s. Ok (Switched s)))"
    using a(1) by (simp add: yield_def calm_with_proc [OF c])
  have own: "owns_scheduler p (in_ptable ?t) \<longleftrightarrow> lockproc s = Some p"
    using owns_scheduler_iff [of R s p] c by (simp add: calm_def)
  show ?thesis
  proof (cases "lockproc s = Some p")
    case True
    then show ?thesis using y own calm_release [OF a(2)]
      by (simp add: settle_def calm_restD) (simp add: calm_def)
  next
    case False
    note P = calm_proc [OF c]
    let ?u = "make_runnable p (in_ptable ?t)"
    have q: "queues_ok (mlevels s) (procs s)" using assms(1) by (simp add: rest_def mlfq_inv_def core_inv_def core_ok_def)
    have ql: "qlist (enqueue (mlevels s (level (procs s p))) p) = qlist (mlevels s (level (procs s p))) @ [p]"
      using P by (intro queues_ok_enqueue(2) [OF q, where r = "(procs s p)\<lparr>pstate := RUNNABLE\<rparr>"])
        (auto simp: proc_ok_def)
    have u: "core_inv ?u" "running R (procs ?u) None" "lkst ?u [LkPtable]" "cproc (cpu ?u) = Some p"
      "pstate (procs ?u p) \<noteq> RUNNING"
      using P a(2) restD(1,2) [OF assms(1)] assms(2) running_stop [of R "procs s" p]
      by (auto simp: calm_def proc_ok_def intro!: make_runnable_inv)
    obtain v where v: "sched KYield ?u = Ok v" "at_switch R v" "mlevels v = mlevels ?u"
        "procs v = (procs ?u)(p := (procs ?u p)\<lparr>pkont := KYield, pkint := intena (cpu ?u)\<rparr>)"
      using sched_ok [OF u(1-4) P(1) _ u(5), of KYield] by auto
    obtain w where w: "scheduler_back v = Ok w" "rest R w" "cproc (cpu w) = None" "procs w = procs v" "mlevels w = mlevels v"
      using scheduler_back_ok [OF v(2)] by blast
    have "mlevels ?u = (mlevels s)(level (procs s p) := enqueue (mlevels s (level (procs s p))) p)"
      by (simp add: make_runnable_def set_state_def Let_def)
    then show ?thesis using False y own v w ql by (simp add: settle_def)
  qed
qed

lemma yield_effect_witness:
  "\<exists>r s'. yield (demo (dprocs RUNNING) [1] [2, 3] [4, 5] None (Some 0)) = Ok r \<and> settle r = Ok s'
     \<and> qlist (mlevels s' 1) = [2, 3, 0]"
  using yield_effect [OF demo_running_rest demo_simps(6), of None] by (auto simp: dprocs_fields)

section \<open>Priority boosting\<close>

text \<open>
  C18.  What one priority boost does, exactly: the first half (rounded up) of \<open>L1\<close> and then of \<open>L2\<close>
  goes to the back of \<open>L0\<close>, in order, and the second halves stay where they are; the processes that
  move, the front process of \<open>L0\<close> and the holder of the scheduler get level 0, priority 3 and a
  fresh quantum, and no other process changes; the scheduler is unlocked.
\<close>

theorem boost_exact:
  assumes "rest R s" and "boost_safe s"
  shows "\<exists>s'. priorityboosting s = Ok s' \<and> rest R s' \<and> lockproc s' = None
    \<and> qlist (mlevels s' 0) = qlist (mlevels s 0)
        @ take ((qsize (mlevels s 1) + 1) div 2) (qlist (mlevels s 1))
        @ take ((qsize (mlevels s 2) + 1) div 2) (qlist (mlevels s 2))
    \<and> (\<forall>i\<in>{1, 2}. qlist (mlevels s' i) = drop ((qsize (mlevels s i) + 1) div 2) (qlist (mlevels s i)))
    \<and> (\<forall>p. procs s' p =
         (if p \<in> set (take 1 (qlist (mlevels s 0)) @ take ((qsize (mlevels s 1) + 1) div 2) (qlist (mlevels s 1))
                   @ take ((qsize (mlevels s 2) + 1) div 2) (qlist (mlevels s 2))) \<or> lockproc s = Some p
          then (procs s p)\<lparr>priority := 3, usedtime := 0, level := 0\<rparr> else procs s p))"
proof -
  have "calm R [] (cproc (cpu s)) s" using assms(1) by (simp add: calm_def rest_def)
  from priorityboosting_ok [OF this _ assms(2)] obtain s' where s': "priorityboosting s = Ok s'" "calm R [] (cproc (cpu s)) s'"
    "lockproc s' = None"
    "qlist (mlevels s' 0) = qlist (mlevels s 0) @ boost_moved (qlist (mlevels s 1)) @ boost_moved (qlist (mlevels s 2))"
    "qlist (mlevels s' 1) = boost_left (qlist (mlevels s 1))" "qlist (mlevels s' 2) = boost_left (qlist (mlevels s 2))"
    "procs s' = (\<lambda>x. if x \<in> boost_touched s \<or> lockproc s = Some x then boosted (procs s x) else procs s x)"
    by auto
  then show ?thesis
    by (intro exI [of _ s']) (auto simp: calm_restD boost_moved_def boost_left_def boost_touched_def half_def boosted_def)
qed

lemma boost_exact_witness:
  "\<exists>s'. priorityboosting (demo (dprocs RUNNING) [1] [2, 3] [4, 5] None (Some 0)) = Ok s'
     \<and> qlist (mlevels s' 0) = [1, 2, 4] \<and> qlist (mlevels s' 1) = [3] \<and> qlist (mlevels s' 2) = [5]"
  using boost_exact [OF demo_running_rest, of None] by (auto simp: boost_safe_def)

primrec boosts :: "nat \<Rightarrow> 'f mlfq \<Rightarrow> 'f mlfq kres" where
  "boosts 0 s = Ok s"
| "boosts (Suc n) s = kbind (priorityboosting s) (boosts n)"

lemma boosts_ok:
  "calm R [] p s \<Longrightarrow> boost_safe s \<Longrightarrow> \<exists>s'. boosts n s = Ok s' \<and> calm R [] p s'
     \<and> (\<forall>i\<in>{1, 2}. length (qlist (mlevels s' i)) = length (qlist (mlevels s i)) div 2 ^ n)"
proof (induction n arbitrary: s)
  case (Suc n)
  obtain t where t: "priorityboosting s = Ok t" "calm R [] p t" "lockproc t = None"
    "qlist (mlevels t 1) = boost_left (qlist (mlevels s 1))" "qlist (mlevels t 2) = boost_left (qlist (mlevels s 2))"
    using priorityboosting_ok [OF Suc.prems(1) _ Suc.prems(2)] by auto
  have "boost_safe t" using t(3) by (simp add: boost_safe_def)
  then obtain u where u: "boosts n t = Ok u" "calm R [] p u"
      "\<forall>i\<in>{1, 2}. length (qlist (mlevels u i)) = length (qlist (mlevels t i)) div 2 ^ n"
    using Suc.IH [OF t(2)] by blast
  have "length (boost_left xs) = length xs div 2" for xs by (simp add: boost_left_def half_def)
  then have "length (qlist (mlevels t i)) = length (qlist (mlevels s i)) div 2" if "i \<in> {1, 2}" for i
    using t(4,5) that by (auto simp del: length_qlist)
  then show ?case using t(1) u by (auto simp: div_mult2_eq)
qed simp

text \<open>
  C22.  Boosting seven times in a row, with nothing in between, does empty \<open>L1\<close> and \<open>L2\<close>: every
  boost halves what is left, and the queues hold at most \<open>NPROC\<close> = 64 processes.
\<close>

theorem seven_boosts:
  assumes "rest R s" and "boost_safe s"
  shows "\<exists>s'. boosts 7 s = Ok s' \<and> rest R s' \<and> qlist (mlevels s' 1) = [] \<and> qlist (mlevels s' 2) = []
    \<and> (\<forall>p<NPROC. pstate (procs s' p) = RUNNABLE \<longrightarrow> p \<in> set (qlist (mlevels s' 0)) \<and> level (procs s' p) = 0)"
proof -
  have c: "calm R [] (cproc (cpu s)) s" using assms(1) by (simp add: calm_def rest_def)
  obtain s' where s': "boosts 7 s = Ok s'" "calm R [] (cproc (cpu s)) s'"
    "\<forall>i\<in>{1, 2}. length (qlist (mlevels s' i)) = length (qlist (mlevels s i)) div 2 ^ 7"
    using boosts_ok [OF c assms(2), of 7] by blast
  have q: "queues_ok (mlevels s) (procs s)" and q': "queues_ok (mlevels s') (procs s')"
    using c s'(2) by (simp_all add: calm_def mlfq_inv_def core_inv_def core_ok_def)
  have "qsize (mlevels s i) \<le> 64" if "i < 3" for i using queues_okD(2) [OF q that] by (simp add: qwf_def NPROC_def)
  from this [of 1] this [of 2] have e: "qlist (mlevels s' 1) = []" "qlist (mlevels s' 2) = []"
    using s'(3) by (simp_all add: qlist_def)
  have "p \<in> set (qlist (mlevels s' 0)) \<and> level (procs s' p) = 0" if "p < NPROC" "pstate (procs s' p) = RUNNABLE" for p
    using queues_ok_runnable [OF q' that] e by (auto dest!: level_cases)
  then show ?thesis using s' e by (auto simp: calm_restD)
qed

lemma seven_boosts_witness:
  "\<exists>s'. boosts 7 (demo (dprocs RUNNING) [1] [2, 3] [4, 5] (Some 0) (Some 0)) = Ok s' \<and> qlist (mlevels s' 1) = []"
  using seven_boosts [OF demo_running_rest, of "Some 0"] by (auto simp: boost_safe_def boost_left_def half_def)

section \<open>A boost that hits a waiting holder\<close>

lemma rest_queues: "rest R s \<Longrightarrow> queues_ok (mlevels s) (procs s)"
  by (simp add: rest_def mlfq_inv_def core_inv_def core_ok_def)

text \<open>
  C19.  The case that \<open>boost_safe\<close> excludes.  If the holder of the scheduler has slept and waits
  in the second half of \<open>L1\<close> when a boost comes, its level becomes 0 although it stays in \<open>L1\<close>:
  the invariant is broken.
\<close>

theorem boost_strands_holder:
  assumes "rest R s" and "lockproc s = Some l"
    and "l \<in> set (drop ((qsize (mlevels s 1) + 1) div 2) (qlist (mlevels s 1)))"
  shows "\<exists>s'. priorityboosting s = Ok s' \<and> l \<in> set (qlist (mlevels s' 1)) \<and> level (procs s' l) = 0
    \<and> \<not> rest R s'"
proof -
  have l: "lkst s []" and c: "core_inv s" using restD [OF assms(1)] by simp_all
  note a = acquire_ptable [OF l, simplified]
  have c1: "core_inv (in_ptable s)" using c by simp
  note B = boost_levels_ok [OF c1]
  let ?r = "reset_holder (boost_levels (in_ptable s))"
  have lr: "lkst ?r [LkPtable]" using a(2) B(2) by (simp add: reset_holder_fields boost_frame_def)
  note rel = release_ptable [OF lr]
  have "priorityboosting s = Ok (out_ptable ?r)"
    using a(1) rel(1) by (simp add: priorityboosting_def boost_levels_def reset_holder_def Let_def)
  moreover have in1: "l \<in> set (qlist (mlevels (out_ptable ?r) 1))"
    unfolding out_ptable_simps reset_holder_fields B(4) boost_left_def half_def using assms(3) by simp
  moreover have lev: "level (procs (out_ptable ?r) l) = 0"
    using assms(2) B(2) by (simp add: reset_holder_fields boost_frame_def)
  moreover have "\<not> rest R (out_ptable ?r)"
  proof
    assume "rest R (out_ptable ?r)"
    from queues_okD(4) [OF rest_queues [OF this], of 1 l] in1 lev show False by simp
  qed
  ultimately show ?thesis by blast
qed

lemma boost_strands_holder_witness:
  "\<exists>s'. priorityboosting (demo (dprocs RUNNING) [1] [2, 3] [4, 5] (Some 3) (Some 0)) = Ok s'
     \<and> 3 \<in> set (qlist (mlevels s' 1)) \<and> level (procs s' 3) = 0"
  using boost_strands_holder [OF demo_running_rest, of "Some 3" 3] by auto

text \<open>
  The consequence: when such a process comes to the front of \<open>L1\<close> and \<open>L0\<close> is empty, the
  scheduler takes it out of \<open>L0\<close> (which does nothing) and runs it while it stays in \<open>L1\<close>, where the
  scheduler will find it again whatever it does in the meantime.
\<close>

theorem stranded_runs_queued:
  assumes "lkst s []" and "cproc (cpu s) = None" and "qsize (mlevels s 0) = 0"
    and "qlist (mlevels s 1) = l # ls" and "level (procs s l) = 0"
    and "kstack (procs s l) \<noteq> 0" and "pgdir (procs s l) \<noteq> 0"
  shows "\<exists>s'. scheduler_iter s = Ok (Some l, s') \<and> pstate (procs s' l) = RUNNING \<and> cproc (cpu s') = Some l
    \<and> qlist (mlevels s' 1) = l # ls"
proof -
  have r: "[0..<3] = [0, 1, 2::nat]" by (simp add: upt_rec)
  have "0 < qsize (mlevels s 1)" using assms(4) by (metis length_greater_0_conv length_qlist list.discI)
  moreover from this have "qprocs (mlevels s 1) 0 = l" using qlist_Cons [of "mlevels s 1"] assms(4) by simp
  ultimately have p: "pick s = Some l" using assms(3,5) by (simp add: pick_def pick_head_def r)
  let ?t = "(looking s)\<lparr>cpu := (cpu (looking s))\<lparr>cproc := Some l\<rparr>\<rparr>"
  have t: "lkst ?t [LkPtable]" using lkst_looking(2) [OF assms(1)] by (simp add: lkst_def)
  have "touch (cpu ?t) = cpu ?t" using t by (simp add: touch_def lkst_def)
  then have "switchuvm (Some l) ?t = Ok ?t"
    using assms(6,7) popcli_pushcli_touch [OF lkst_cpu_wf [OF t]] by (simp add: switchuvm_def mycpu_def)
  then have it: "scheduler_iter s = Ok (Some l, take_out l ?t)"
    using lkst_looking(1) [OF assms(1)] p by (simp add: scheduler_iter_def take_out_def)
  have "mlevels (take_out l ?t) 1 = mlevels s 1"
    using assms(5) by (simp add: take_out_def charge_frame unqueue_def set_state_def)
  moreover have "pstate (procs (take_out l ?t) l) = RUNNING"
    by (simp add: take_out_def charge_def unqueue_frame set_state_def Let_def)
  ultimately show ?thesis using it assms(4) by (simp add: take_out_def charge_frame unqueue_frame set_state_def)
qed

lemma stranded_runs_queued_witness:
  "\<exists>s'. scheduler_iter (demo ((\<lambda>_. unused_proc)(3 := live_proc 4 RUNNABLE 0 3)) [] [3] [] None None) = Ok (Some 3, s')
     \<and> cproc (cpu s') = Some 3 \<and> qlist (mlevels s' 1) = [3]"
  using stranded_runs_queued [of "demo ((\<lambda>_. unused_proc)(3 := live_proc 4 RUNNABLE 0 3)) [] [3] [] None None" 3 "[]"]
  by (auto simp: live_proc_def unused_proc_def)

section \<open>Scheduler lock\<close>

text \<open>
  C20.  \<open>schedulerLock\<close> then \<open>schedulerUnlock\<close> with the right password.  The lock is taken, and
  the tick counter of the boost reset, only if no process holds it; \<open>schedulerUnlock\<close> by the holder
  puts the process at the front of \<open>L0\<close> with priority 3 and a fresh quantum and goes to the
  scheduler; by any other process it does nothing.
\<close>

theorem scheduler_lock_protocol:
  assumes "rest R s" and "cproc (cpu s) = Some p"
  shows "\<exists>s1 r s2. schedulerLock F PASSWORD s = Ok (Returned () s1) \<and> rest R s1
    \<and> lockproc s1 = (if lockproc s = None then Some p else lockproc s)
    \<and> mlfqticks s1 = (if lockproc s = None then 0 else mlfqticks s)
    \<and> schedulerUnlock F PASSWORD s1 = Ok r \<and> settle r = Ok s2 \<and> rest R s2
    \<and> (if lockproc s1 = Some p
       then lockproc s2 = None \<and> cproc (cpu s2) = None \<and> qlist (mlevels s2 0) = p # qlist (mlevels s1 0)
         \<and> level (procs s2 p) = 0 \<and> usedtime (procs s2 p) = 0 \<and> priority (procs s2 p) = 3
         \<and> pstate (procs s2 p) = RUNNABLE
       else lockproc s2 = lockproc s1 \<and> cproc (cpu s2) = Some p \<and> procs s2 = procs s1 \<and> mlevels s2 = mlevels s1)"
proof -
  obtain s1 where s1: "schedulerLock F PASSWORD s = Ok (Returned () s1)" "rest R s1" "cproc (cpu s1) = Some p"
    "lockproc s1 = (if lockproc s = None then Some p else lockproc s)"
    "mlfqticks s1 = (if lockproc s = None then 0 else mlfqticks s)"
    using schedulerLock_ok [OF assms, of F] by auto
  obtain r where r: "schedulerUnlock F PASSWORD s1 = Ok r" "run_ok R r"
    and hold: "lockproc s1 = Some p \<longrightarrow> (\<exists>s'. r = Switched s' \<and> lockproc s' = None
         \<and> qlist (mlevels s' 0) = p # qlist (mlevels s1 0)
         \<and> (let r = procs s' p in level r = 0 \<and> usedtime r = 0 \<and> priority r = 3 \<and> pstate r = RUNNABLE))"
    and other: "lockproc s1 \<noteq> Some p \<longrightarrow> (\<exists>s'. r = Returned () s' \<and> procs s' = procs s1 \<and> mlevels s' = mlevels s1
         \<and> lockproc s' = lockproc s1 \<and> cproc (cpu s') = Some p)"
    using schedulerUnlock_ok [OF s1(2,3), of F] by blast
  show ?thesis
  proof (cases "lockproc s1 = Some p")
    case True
    then obtain u where u: "r = Switched u" "lockproc u = None" "qlist (mlevels u 0) = p # qlist (mlevels s1 0)"
        "level (procs u p) = 0" "usedtime (procs u p) = 0" "priority (procs u p) = 3" "pstate (procs u p) = RUNNABLE"
      using hold by (auto simp: Let_def)
    obtain v where "scheduler_back u = Ok v" "rest R v" "cproc (cpu v) = None" "procs v = procs u"
        "mlevels v = mlevels u" "lockproc v = lockproc u"
      using scheduler_back_ok [of R u] r(2) u(1) by auto
    then show ?thesis using s1 r True u
      by (intro exI [of _ s1] exI [of _ r] exI [of _ v]) (simp add: settle_def)
  next
    case False
    then obtain u where "r = Returned () u" "procs u = procs s1" "mlevels u = mlevels s1"
        "lockproc u = lockproc s1" "cproc (cpu u) = Some p"
      using other by blast
    then show ?thesis using s1 r False
      by (intro exI [of _ s1] exI [of _ r] exI [of _ u]) (simp add: settle_def)
  qed
qed

lemma scheduler_lock_protocol_witness:
  "\<forall>F. \<exists>s1 r s2. schedulerLock F PASSWORD (demo (dprocs RUNNING) [1] [2, 3] [4, 5] None (Some 0)) = Ok (Returned () s1)
     \<and> lockproc s1 = Some 0 \<and> schedulerUnlock F PASSWORD s1 = Ok r \<and> settle r = Ok s2 \<and> lockproc s2 = None"
  using scheduler_lock_protocol [OF demo_running_rest demo_simps(6), of None] by fastforce

section \<open>Waking up\<close>

definition sleeps_on :: "'f mlfq \<Rightarrow> chan \<Rightarrow> nat \<Rightarrow> bool" where
  "sleeps_on s ch p \<longleftrightarrow> pstate (procs s p) = SLEEPING \<and> pchan (procs s p) = ch"

lemma wakeup1_exact:
  assumes "core_inv s" and "distinct ps" and "\<And>p. p \<in> set ps \<Longrightarrow> p < NPROC"
  shows "(\<forall>p. procs (fold (wakeup1_step ch) ps s) p =
        (if p \<in> set ps \<and> sleeps_on s ch p then (procs s p)\<lparr>pstate := RUNNABLE\<rparr> else procs s p))
    \<and> (\<forall>i<3. qlist (mlevels (fold (wakeup1_step ch) ps s) i) =
        qlist (mlevels s i) @ filter (\<lambda>p. sleeps_on s ch p \<and> level (procs s p) = i) ps)"
  using assms
proof (induction ps arbitrary: s)
  case (Cons p ps)
  let ?t = "wakeup1_step ch p s"
  have p: "p < NPROC" "p \<notin> set ps" using Cons.prems by auto
  have core: "core_ok (mlevels s) (procs s) (nextpid s) (lockproc s)" using Cons.prems(1) by (simp add: core_inv_def)
  have IH: "(\<forall>x. procs (fold (wakeup1_step ch) ps ?t) x =
        (if x \<in> set ps \<and> sleeps_on ?t ch x then (procs ?t x)\<lparr>pstate := RUNNABLE\<rparr> else procs ?t x))
    \<and> (\<forall>i<3. qlist (mlevels (fold (wakeup1_step ch) ps ?t) i) =
        qlist (mlevels ?t i) @ filter (\<lambda>x. sleeps_on ?t ch x \<and> level (procs ?t x) = i) ps)"
    using Cons.prems p(1) by (intro Cons.IH wakeup1_step_inv) auto
  have same: "procs ?t x = procs s x" if "x \<noteq> p" for x
    using that by (simp add: wakeup1_step_def)
  then have so: "sleeps_on ?t ch x = sleeps_on s ch x" if "x \<noteq> p" for x
    using that by (simp add: sleeps_on_def)
  have fl: "filter (\<lambda>x. sleeps_on ?t ch x \<and> level (procs ?t x) = i) ps
      = filter (\<lambda>x. sleeps_on s ch x \<and> level (procs s x) = i) ps" for i
  proof (rule filter_cong [OF refl])
    fix x assume "x \<in> set ps"
    then have "x \<noteq> p" using p(2) by auto
    then show "(sleeps_on ?t ch x \<and> level (procs ?t x) = i) = (sleeps_on s ch x \<and> level (procs s x) = i)"
      by (simp add: same so)
  qed
  show ?case
  proof (cases "sleeps_on s ch p")
    case False
    then have "?t = s" by (auto simp: wakeup1_step_def sleeps_on_def)
    then show ?thesis using IH p(2) False by auto
  next
    case True
    then have t: "?t = make_runnable p s" by (auto simp: wakeup1_step_def sleeps_on_def)
    have "proc_ok (nextpid s) (procs s p)" using core_okD(2) [OF core p(1)] .
    then have q: "qlist (enqueue (mlevels s (level (procs s p))) p) = qlist (mlevels s (level (procs s p))) @ [p]"
      using True p(1) by (intro queues_ok_enqueue(2) [OF core_okD(1) [OF core],
            where r = "(procs s p)\<lparr>pstate := RUNNABLE\<rparr>"]) (auto simp: proc_ok_def sleeps_on_def)
    have ml: "mlevels ?t = (mlevels s)(level (procs s p) := enqueue (mlevels s (level (procs s p))) p)"
      unfolding t by (simp add: make_runnable_def set_state_def Let_def)
    have "procs (fold (wakeup1_step ch) ps ?t) x =
        (if x \<in> set (p # ps) \<and> sleeps_on s ch x then (procs s x)\<lparr>pstate := RUNNABLE\<rparr> else procs s x)" for x
      using IH p(2) True same so by (cases "x = p") (auto simp: t)
    moreover have "qlist (mlevels (fold (wakeup1_step ch) ps ?t) i) =
        qlist (mlevels s i) @ filter (\<lambda>x. sleeps_on s ch x \<and> level (procs s x) = i) (p # ps)" if "i < 3" for i
      using IH that q True by (auto simp: fl ml)
    ultimately show ?thesis by simp
  qed
qed simp

text \<open>
  \<open>wakeup\<close> makes \<open>RUNNABLE\<close> exactly the processes that sleep on the channel, and appends them
  to the queues of their levels, in table order; it never loses one and touches nothing else.
\<close>

theorem wakeup_effect:
  assumes "rest R s"
  shows "\<exists>s'. wakeup ch s = Ok s' \<and> rest R s'
    \<and> (\<forall>p<NPROC. procs s' p =
          (if pstate (procs s p) = SLEEPING \<and> pchan (procs s p) = ch then (procs s p)\<lparr>pstate := RUNNABLE\<rparr>
           else procs s p))
    \<and> (\<forall>i<3. qlist (mlevels s' i) = qlist (mlevels s i)
          @ filter (\<lambda>p. pstate (procs s p) = SLEEPING \<and> pchan (procs s p) = ch \<and> level (procs s p) = i) [0..<NPROC])"
proof -
  note a = acquire_ptable [OF restD(3) [OF assms], simplified]
  let ?w = "wakeup1 ch (in_ptable s)"
  have c: "core_inv (in_ptable s)" using restD(1) [OF assms] by simp
  have "lkst ?w [LkPtable]" using a(2) wake_frame_same(6) [OF wakeup1_inv(2) [OF c]] by simp
  then have w: "wakeup ch s = Ok (out_ptable ?w)" using a(1) release_ptable(1) by (simp add: wakeup_def)
  have E: "(\<forall>p. procs ?w p = (if p \<in> set [0..<NPROC] \<and> sleeps_on (in_ptable s) ch p
        then (procs (in_ptable s) p)\<lparr>pstate := RUNNABLE\<rparr> else procs (in_ptable s) p))
    \<and> (\<forall>i<3. qlist (mlevels ?w i) = qlist (mlevels (in_ptable s) i)
        @ filter (\<lambda>p. sleeps_on (in_ptable s) ch p \<and> level (procs (in_ptable s) p) = i) [0..<NPROC])"
    unfolding wakeup1_def by (rule wakeup1_exact [OF c]) simp_all
  then show ?thesis using w wakeup_frame [OF w assms] by (simp add: sleeps_on_def)
qed

lemma wakeup_effect_witness:
  "\<exists>s'. wakeup ChTicks (demo (dprocs RUNNING) [1] [2, 3] [4, 5] None (Some 0)) = Ok s'
     \<and> pstate (procs s' 6) = RUNNABLE \<and> pstate (procs s' 0) = RUNNING"
proof -
  have "pstate (dprocs RUNNING 6) = SLEEPING \<and> pchan (dprocs RUNNING 6) = ChTicks" "pstate (dprocs RUNNING 0) = RUNNING"
    by (simp_all add: dprocs_def live_proc_def)
  moreover have "(6::nat) < NPROC" "(0::nat) < NPROC" by (simp_all add: NPROC_def)
  ultimately show ?thesis using wakeup_effect [OF demo_running_rest, of None ChTicks] by force
qed

section \<open>Exiting\<close>

text \<open>What the rounds of the reparenting loop of \<open>exit\<close> do to the table.\<close>

definition reparented :: "nat \<Rightarrow> nat list \<Rightarrow> 'f mlfq \<Rightarrow> 'f mlfq \<Rightarrow> bool" where
  "reparented cp ps s t \<longleftrightarrow> initproc t = initproc s \<and> lockproc t = lockproc s \<and> (\<forall>q.
     parent (procs t q) = (if q \<in> set ps \<and> parent (procs s q) = Some cp then initproc s else parent (procs s q))
     \<and> pid (procs t q) = pid (procs s q)
     \<and> (pstate (procs s q) \<noteq> SLEEPING \<longrightarrow> pstate (procs t q) = pstate (procs s q)))"

lemma wakeup1_reparented: "core_inv s \<Longrightarrow> reparented cp [] s (wakeup1 ch s)"
  using wake_frame_same(3,5,9) [OF wakeup1_inv(2), of s] wokenD [of "procs s q" "procs (wakeup1 ch s) q" for q]
  unfolding reparented_def by (metis empty_iff empty_set)

lemma reparent_step_core: "core_inv s \<Longrightarrow> core_inv (reparent_step cp p s)"
  by (auto simp: reparent_step_def Let_def proc_ok_def intro!: wakeup1_inv(1) core_inv_updp)

lemma reparent_step_reparented:
  assumes "core_inv s"
  shows "reparented cp [p] s (reparent_step cp p s)"
proof (cases "parent (procs s p) = Some cp")
  case True
  let ?s = "updp p (\<lambda>r. r\<lparr>parent := initproc s\<rparr>) s"
  have c: "core_inv ?s" using assms by (intro core_inv_updp) (auto simp: proc_ok_def)
  have "reparented cp [p] s ?s" using True by (simp add: reparented_def)
  then show ?thesis
    using True wakeup1_reparented [OF c, of cp "proc_chan (initproc s)"]
    by (auto simp: reparent_step_def Let_def reparented_def)
qed (simp add: reparent_step_def reparented_def)

lemma reparent_fold:
  "core_inv s \<Longrightarrow> distinct ps \<Longrightarrow> reparented cp ps s (fold (reparent_step cp) ps s)"
proof (induction ps arbitrary: s)
  case (Cons p ps)
  have "reparented cp [p] s (reparent_step cp p s)"
      "reparented cp ps (reparent_step cp p s) (fold (reparent_step cp) ps (reparent_step cp p s))"
    using Cons.prems reparent_step_reparented Cons.IH [OF reparent_step_core] by simp_all
  then show ?case using Cons.prems(2) by (auto simp: reparented_def)
qed (simp add: reparented_def)

lemma calm_iff_rest: "calm R [] (Some p) s \<longleftrightarrow> rest R s \<and> cproc (cpu s) = Some p"
  by (auto simp: calm_def rest_def)

text \<open>
  C21.  \<open>exit\<close>, from its \<open>acquire\<close> on, never fails: the process becomes a zombie and leaves the CPU
  for good, its parent is woken if it was waiting, every child is handed to \<open>initproc\<close>, pids do not
  change, and the scheduler lock is released, whoever held it.
\<close>

theorem exit_effect:
  assumes "rest R s" and "cproc (cpu s) = Some p"
  shows "\<exists>s1 s2. exit_sched p s = Ok s1 \<and> scheduler_back s1 = Ok s2 \<and> rest R s2 \<and> cproc (cpu s2) = None
    \<and> pstate (procs s2 p) = ZOMBIE \<and> pkont (procs s2 p) = KExit \<and> lockproc s2 = None
    \<and> (\<forall>q<NPROC. parent (procs s2 q) = (if parent (procs s q) = Some p then initproc s else parent (procs s q))
         \<and> pid (procs s2 q) = pid (procs s q)
         \<and> (q \<noteq> p \<and> pstate (procs s q) \<noteq> SLEEPING \<longrightarrow> pstate (procs s2 q) = pstate (procs s q)))
    \<and> (\<forall>w<NPROC. parent (procs s p) = Some w \<and> pstate (procs s w) = SLEEPING \<and> pchan (procs s w) = ChProc w
         \<longrightarrow> pstate (procs s2 w) = RUNNABLE)"
proof -
  have c: "calm R [] (Some p) s" using assms by (simp add: calm_iff_rest)
  note a = calm_ptable [OF c]
  have ci: "core_inv (in_ptable s)" using restD(1) [OF assms(1)] by simp
  define v where "v = wakeup1 (proc_chan (parent (procs (in_ptable s) p))) (in_ptable s)"
  define u where "u = fold (reparent_step p) [0..<NPROC] v"
  have civ: "core_inv v" unfolding v_def by (rule wakeup1_inv(1) [OF ci])
  have u: "calm R [LkPtable] (Some p) u"
    unfolding u_def v_def by (intro calm_fold calm_reparent calm_wakeup1 a(2))
  let ?t = "u\<lparr>procs := (procs u)(p := (procs u p)\<lparr>pstate := ZOMBIE\<rparr>), lockproc := None\<rparr>"
  obtain s1 where s1: "exit_sched p s = Ok s1" "at_switch R s1" using exit_sched_ok [OF c] by blast
  have "exit_sched p s = sched KExit (if lockproc (set_state p ZOMBIE u) \<noteq> None
      then (set_state p ZOMBIE u)\<lparr>lockproc := None\<rparr> else set_state p ZOMBIE u)"
    using a(1) by (simp add: exit_sched_def u_def v_def Let_def)
  also have "(if lockproc (set_state p ZOMBIE u) \<noteq> None then (set_state p ZOMBIE u)\<lparr>lockproc := None\<rparr>
      else set_state p ZOMBIE u) = ?t"
    by (cases u) (auto simp: set_state_def updp_def)
  also have "sched KExit ?t = Ok (updp p (\<lambda>r. r\<lparr>pkont := KExit, pkint := intena (cpu ?t)\<rparr>) ?t)"
    using u by (intro sched_run) (simp_all add: calm_def)
  finally have e: "s1 = updp p (\<lambda>r. r\<lparr>pkont := KExit, pkint := intena (cpu ?t)\<rparr>) ?t" using s1(1) by simp
  obtain s2 where s2: "scheduler_back s1 = Ok s2" "rest R s2" "cproc (cpu s2) = None" "procs s2 = procs s1"
      "lockproc s2 = lockproc s1"
    using scheduler_back_ok [OF s1(2)] by blast
  have V: "reparented p [] s v"
    using wakeup1_reparented [OF ci, of p "proc_chan (parent (procs (in_ptable s) p))"]
    by (simp add: v_def reparented_def)
  have U: "reparented p [0..<NPROC] v u" unfolding u_def by (rule reparent_fold [OF civ]) simp
  have W: "pstate (procs v w) = RUNNABLE" if "w < NPROC" "parent (procs s p) = Some w"
      "pstate (procs s w) = SLEEPING" "pchan (procs s w) = ChProc w" for w
    using that wakeup1_exact [OF ci, of "[0..<NPROC]" "ChProc w"]
    by (simp add: v_def wakeup1_def sleeps_on_def proc_chan_def)
  have "parent (procs s2 q) = (if parent (procs s q) = Some p then initproc s else parent (procs s q))
       \<and> pid (procs s2 q) = pid (procs s q)
       \<and> (q \<noteq> p \<and> pstate (procs s q) \<noteq> SLEEPING \<longrightarrow> pstate (procs s2 q) = pstate (procs s q))" if "q < NPROC" for q
    using U V that by (simp add: s2(4) e reparented_def)
  moreover have "pstate (procs s2 w) = RUNNABLE" if "w < NPROC" "parent (procs s p) = Some w"
      "pstate (procs s w) = SLEEPING" "pchan (procs s w) = ChProc w" for w
  proof -
    have "w \<noteq> p" using that restD(2) [OF assms(1)] assms(2) by (auto simp: running_def)
    then show ?thesis using U W [OF that] by (simp add: s2(4) e reparented_def)
  qed
  ultimately show ?thesis using s1 s2 by (intro exI [of _ s1] exI [of _ s2]) (simp add: e)
qed

lemma exit_effect_witness:
  "\<exists>s1 s2. exit_sched 0 (demo (dprocs RUNNING) [1] [2, 3] [4, 5] (Some 3) (Some 0)) = Ok s1 \<and> scheduler_back s1 = Ok s2
     \<and> pstate (procs s2 0) = ZOMBIE \<and> lockproc s2 = None"
  using exit_effect [OF demo_running_rest demo_simps(6), of "Some 3"] by auto

end
