(* ===== verification/Bio.thy ===== *)
theory Bio
  imports Prelude
begin

text \<open>
  The buffer cache of project 3: \<open>bio.c\<close>, the sleep locks of \<open>sleeplock.c\<close> that guard the
  buffers, and the memory disk \<open>memide.c\<close> under it.  A pointer to a buffer is its index in
  \<open>bcache.buf\<close>; the index \<open>NBUF\<close> stands for \<open>bcache.head\<close>, so that the code's circular doubly
  linked list is the fields \<open>bprev\<close> and \<open>bnext\<close> of the same array.  The two flag bits are two
  booleans, a block of data is a function from the offset (below \<open>BSIZE\<close>) to the byte.

  A section of code between the acquire and the release of one spinlock never sleeps and is taken
  as one step (theory Spinlock proves the exclusion), so \<open>bcache.lock\<close> and the spinlock inside a
  sleep lock are not part of the state.  A sleep lock that is taken makes the caller sleep:
  the outcome \<open>Asleep\<close>.  \<open>fpid\<close> is \<open>myproc()->pid\<close>.  The component \<open>dwrites\<close> is a ghost: the list
  of the blocks written to the disk, in order, which the crash theorems of theory Log read.
\<close>

definition BSIZE :: nat where "BSIZE = 512"
definition MAXOPBLOCKS :: nat where "MAXOPBLOCKS = 30"
definition NBUF :: nat where "NBUF = MAXOPBLOCKS * 3"

type_synonym block = "nat \<Rightarrow> byte"

section \<open>Sleep locks\<close>

record sleeplock =
  sl_locked :: bool
  sl_pid :: int

definition initsleeplock :: sleeplock where
  "initsleeplock = \<lparr>sl_locked = False, sl_pid = 0\<rparr>"

definition acquiresleep :: "chan \<Rightarrow> int \<Rightarrow> sleeplock \<Rightarrow> sleeplock kres" where
  "acquiresleep ch p lk =
     (if sl_locked lk then Asleep ch else Ok (lk\<lparr>sl_locked := True, sl_pid := p\<rparr>))"

definition releasesleep :: "sleeplock \<Rightarrow> sleeplock" where
  "releasesleep lk = lk\<lparr>sl_locked := False, sl_pid := 0\<rparr>"

definition holdingsleep :: "int \<Rightarrow> sleeplock \<Rightarrow> bool" where
  "holdingsleep p lk \<longleftrightarrow> sl_locked lk \<and> sl_pid lk = p"

section \<open>Buffers\<close>

record buf =
  bvalid :: bool
  bdirty :: bool
  bdev :: u32
  bblockno :: u32
  blk :: sleeplock
  brefcnt :: u32
  bprev :: nat
  bnext :: nat
  bdata :: block

record bcache =
  fpid :: int
  bufs :: "nat \<Rightarrow> buf"
  memdisk :: "u32 \<Rightarrow> block"
  disksize :: u32
  dwrites :: "(u32 \<times> block) list"

definition updb :: "nat \<Rightarrow> (buf \<Rightarrow> buf) \<Rightarrow> 'a bcache_scheme \<Rightarrow> 'a bcache_scheme" where
  "updb b f s = s\<lparr>bufs := (bufs s)(b := f (bufs s b))\<rparr>"

definition setdata :: "nat \<Rightarrow> block \<Rightarrow> 'a bcache_scheme \<Rightarrow> 'a bcache_scheme" where
  "setdata b d = updb b (bdata_update (\<lambda>_. d))"

section \<open>The disk in memory\<close>

definition iderw :: "nat \<Rightarrow> 'a bcache_scheme \<Rightarrow> 'a bcache_scheme kres" where
  "iderw b s =
     (if \<not> holdingsleep (fpid s) (blk (bufs s b)) then Panic ''iderw: buf not locked''
      else if bvalid (bufs s b) \<and> \<not> bdirty (bufs s b) then Panic ''iderw: nothing to do''
      else if bdev (bufs s b) \<noteq> 1 then Panic ''iderw: request not for disk 1''
      else if disksize s \<le> bblockno (bufs s b) then Panic ''iderw: block out of range''
      else let p = bblockno (bufs s b);
               s = (if bdirty (bufs s b)
                    then let s = updb b (bdirty_update (\<lambda>_. False)) s in
                         s\<lparr>memdisk := (memdisk s)(p := bdata (bufs s b)),
                           dwrites := dwrites s @ [(p, bdata (bufs s b))]\<rparr>
                    else setdata b (memdisk s p) s)
           in Ok (updb b (bvalid_update (\<lambda>_. True)) s))"

section \<open>The cache\<close>

text \<open>The buffer is taken out of the circular list and put behind the head.\<close>

definition link_front :: "nat \<Rightarrow> 'a bcache_scheme \<Rightarrow> 'a bcache_scheme" where
  "link_front b s =
     (let s = updb b (bnext_update (\<lambda>_. bnext (bufs s NBUF))) s;
          s = updb b (bprev_update (\<lambda>_. NBUF)) s;
          s = updb (bnext (bufs s NBUF)) (bprev_update (\<lambda>_. b)) s
      in updb NBUF (bnext_update (\<lambda>_. b)) s)"

definition unlink :: "nat \<Rightarrow> 'a bcache_scheme \<Rightarrow> 'a bcache_scheme" where
  "unlink b s =
     (let s = updb (bnext (bufs s b)) (bprev_update (\<lambda>_. bprev (bufs s b))) s
      in updb (bprev (bufs s b)) (bnext_update (\<lambda>_. bnext (bufs s b))) s)"

definition binit :: "'a bcache_scheme \<Rightarrow> 'a bcache_scheme" where
  "binit s =
     (let s = updb NBUF (\<lambda>r. r\<lparr>bprev := NBUF, bnext := NBUF\<rparr>) s
      in fold (\<lambda>b s. link_front b (updb b (blk_update (\<lambda>_. initsleeplock)) s)) [0..<NBUF] s)"

text \<open>
  The loops of \<open>bget\<close> follow \<open>next\<close> or \<open>prev\<close> until they meet the head.  The first argument
  bounds the number of steps; \<open>NBUF + 1\<close> are enough for a list that holds every buffer once
  (lemma \<open>lru_walk_chain\<close>).
\<close>

fun lru_walk :: "nat \<Rightarrow> (nat \<Rightarrow> nat) \<Rightarrow> (nat \<Rightarrow> bool) \<Rightarrow> nat \<Rightarrow> nat option kres" where
  "lru_walk 0 nx P b = Spin"
| "lru_walk (Suc n) nx P b =
     (if b = NBUF then Ok None else if P b then Ok (Some b) else lru_walk n nx P (nx b))"

definition lock_buf :: "nat \<Rightarrow> 'a bcache_scheme \<Rightarrow> (nat \<times> 'a bcache_scheme) kres" where
  "lock_buf b s = kbind (acquiresleep (ChBuf b) (fpid s) (blk (bufs s b)))
     (\<lambda>l. Ok (b, updb b (blk_update (\<lambda>_. l)) s))"

definition bget :: "u32 \<Rightarrow> u32 \<Rightarrow> 'a bcache_scheme \<Rightarrow> (nat \<times> 'a bcache_scheme) kres" where
  "bget dev blockno s =
     kbind (lru_walk (Suc NBUF) (\<lambda>b. bnext (bufs s b))
              (\<lambda>b. bdev (bufs s b) = dev \<and> bblockno (bufs s b) = blockno) (bnext (bufs s NBUF))) (\<lambda>hit.
     case hit of
       Some b \<Rightarrow> lock_buf b (updb b (\<lambda>r. r\<lparr>brefcnt := brefcnt r + 1\<rparr>) s)
     | None \<Rightarrow>
         kbind (lru_walk (Suc NBUF) (\<lambda>b. bprev (bufs s b))
                  (\<lambda>b. brefcnt (bufs s b) = 0 \<and> \<not> bdirty (bufs s b)) (bprev (bufs s NBUF))) (\<lambda>victim.
         case victim of
           Some b \<Rightarrow> lock_buf b (updb b (\<lambda>r. r\<lparr>bdev := dev, bblockno := blockno, bvalid := False,
                                                bdirty := False, brefcnt := 1\<rparr>) s)
         | None \<Rightarrow> Panic ''bget: no buffers''))"

definition bread :: "u32 \<Rightarrow> u32 \<Rightarrow> 'a bcache_scheme \<Rightarrow> (nat \<times> 'a bcache_scheme) kres" where
  "bread dev blockno s = kbind (bget dev blockno s) (\<lambda>(b, s).
     if \<not> bvalid (bufs s b) then kbind (iderw b s) (\<lambda>s. Ok (b, s)) else Ok (b, s))"

definition bwrite :: "nat \<Rightarrow> 'a bcache_scheme \<Rightarrow> 'a bcache_scheme kres" where
  "bwrite b s =
     (if \<not> holdingsleep (fpid s) (blk (bufs s b)) then Panic ''bwrite''
      else iderw b (updb b (bdirty_update (\<lambda>_. True)) s))"

definition brelse :: "nat \<Rightarrow> 'a bcache_scheme \<Rightarrow> 'a bcache_scheme kres" where
  "brelse b s =
     (if \<not> holdingsleep (fpid s) (blk (bufs s b)) then Panic ''brelse''
      else let s = updb b (blk_update releasesleep) s;
               s = updb b (\<lambda>r. r\<lparr>brefcnt := brefcnt r - 1\<rparr>) s
           in Ok (if brefcnt (bufs s b) = 0 then link_front b (unlink b s) else s))"

section \<open>The circular list\<close>

text \<open>\<open>chain nx a xs z\<close>: following \<open>nx\<close> from \<open>a\<close> one meets the elements of \<open>xs\<close> and then \<open>z\<close>.\<close>

fun chain :: "(nat \<Rightarrow> nat) \<Rightarrow> nat \<Rightarrow> nat list \<Rightarrow> nat \<Rightarrow> bool" where
  "chain nx a [] z = (nx a = z)"
| "chain nx a (x # xs) z = (nx a = x \<and> chain nx x xs z)"

lemma chain_append: "chain nx a (xs @ y # ys) z \<longleftrightarrow> chain nx a xs y \<and> chain nx y ys z"
  by (induction xs arbitrary: a) auto

lemma chain_cong: "(\<And>x. x \<in> set (a # xs) \<Longrightarrow> nx x = nx' x) \<Longrightarrow> chain nx a xs z = chain nx' a xs z"
  by (induction xs arbitrary: a) auto

lemma chain_first: "chain nx a xs z \<Longrightarrow> nx a = hd (xs @ [z])"
  by (cases xs) auto

lemma chain_last: "chain nx a xs z \<Longrightarrow> nx (last (a # xs)) = z"
  by (induction xs arbitrary: a) auto

lemma chain_end: "distinct (a # xs) \<Longrightarrow> chain nx a xs z \<Longrightarrow> chain (nx(last (a # xs) := y)) a xs y"
proof (induction xs arbitrary: a)
  case (Cons x xs)
  then show ?case by (auto split: if_splits)
qed simp

lemma chain_drop:
  assumes "chain nx a (us @ b # vs) z" and "distinct (a # us @ b # vs)"
  shows "chain (nx(last (a # us) := nx b)) a (us @ vs) z"
proof (cases vs)
  case Nil
  then show ?thesis using assms chain_end [of a us nx b z] by (simp add: chain_append)
next
  case (Cons v ws)
  have c: "chain nx a us b" "nx b = v" "chain nx v ws z" using assms(1) Cons by (auto simp: chain_append)
  have e: "chain (nx(last (a # us) := v)) a us v" using chain_end [OF _ c(1)] assms(2) by simp
  have "last (a # us) \<in> set (a # us)" by (rule last_in_set) simp
  then have "last (a # us) \<notin> set (v # ws)" using assms(2) Cons by auto
  then have "chain (nx(last (a # us) := v)) v ws z = chain nx v ws z" by (intro chain_cong) auto
  then show ?thesis using c e Cons by (simp add: chain_append)
qed

lemma chain_push: "chain nx a xs z \<Longrightarrow> b \<notin> set (a # xs) \<Longrightarrow> a \<notin> set xs \<Longrightarrow> chain (nx(b := nx a, a := b)) a (b # xs) z"
proof -
  assume c: "chain nx a xs z" and b: "b \<notin> set (a # xs)" and a: "a \<notin> set xs"
  show ?thesis
  proof (cases xs)
    case (Cons x ys)
    have "chain (nx(b := nx a, a := b)) x ys z = chain nx x ys z"
      using a b Cons by (intro chain_cong) auto
    then show ?thesis using b c Cons by auto
  qed (use b c in auto)
qed

lemma chain_snoc:
  assumes "chain nx a xs z" and "distinct (a # xs)" and "b \<notin> set (a # xs)"
  shows "chain (nx(b := y, last (a # xs) := b)) a (xs @ [b]) y"
proof -
  have "chain (nx(last (a # xs) := b)) a xs b" using chain_end [OF assms(2,1)] .
  moreover have "chain (nx(b := y, last (a # xs) := b)) a xs b = chain (nx(last (a # xs) := b)) a xs b"
    using assms(3) by (intro chain_cong) auto
  ultimately show ?thesis using assms(3) by (auto simp: chain_append)
qed

lemma lru_walk_chain:
  "chain nx a xs NBUF \<Longrightarrow> NBUF \<notin> set xs \<Longrightarrow> length xs < n \<Longrightarrow> lru_walk n nx P (nx a) = Ok (find P xs)"
proof (induction xs arbitrary: a n)
  case Nil
  then show ?case by (cases n) auto
next
  case (Cons x xs)
  then obtain m where "n = Suc m" by (cases n) auto
  then show ?case using Cons by auto
qed

definition lru_ok :: "(nat \<Rightarrow> buf) \<Rightarrow> nat list \<Rightarrow> bool" where
  "lru_ok B xs \<longleftrightarrow> distinct xs \<and> set xs = {..<NBUF} \<and> chain (\<lambda>b. bnext (B b)) NBUF xs NBUF
     \<and> chain (\<lambda>b. bprev (B b)) NBUF (rev xs) NBUF"

lemma lru_ok_length: "lru_ok B xs \<Longrightarrow> length xs = NBUF"
  using distinct_card [of xs] by (simp add: lru_ok_def)

lemma lru_ok_walk:
  assumes "lru_ok (bufs s) xs"
  shows "lru_walk (Suc NBUF) (\<lambda>b. bnext (bufs s b)) P (bnext (bufs s NBUF)) = Ok (find P xs)"
    and "lru_walk (Suc NBUF) (\<lambda>b. bprev (bufs s b)) P (bprev (bufs s NBUF)) = Ok (find P (rev xs))"
proof -
  have n: "NBUF \<notin> set xs" "length xs = NBUF" using assms lru_ok_length by (auto simp: lru_ok_def)
  show "lru_walk (Suc NBUF) (\<lambda>b. bnext (bufs s b)) P (bnext (bufs s NBUF)) = Ok (find P xs)"
    using assms n by (intro lru_walk_chain) (simp_all add: lru_ok_def)
  show "lru_walk (Suc NBUF) (\<lambda>b. bprev (bufs s b)) P (bprev (bufs s NBUF)) = Ok (find P (rev xs))"
    using assms n by (intro lru_walk_chain) (simp_all add: lru_ok_def)
qed

lemma lru_ok_cong:
  "(\<And>b. bnext (B' b) = bnext (B b) \<and> bprev (B' b) = bprev (B b)) \<Longrightarrow> lru_ok B' xs = lru_ok B xs"
  by (simp add: lru_ok_def)

text \<open>Releasing a buffer moves it to the front.\<close>

lemma next_updb: "(\<lambda>b. bnext (bufs (updb i (bnext_update (\<lambda>_. v)) s) b)) = (\<lambda>b. bnext (bufs s b))(i := v)"
    "(\<lambda>b. bnext (bufs (updb i (bprev_update (\<lambda>_. v)) s) b)) = (\<lambda>b. bnext (bufs s b))"
    "(\<lambda>b. bprev (bufs (updb i (bprev_update (\<lambda>_. v)) s) b)) = (\<lambda>b. bprev (bufs s b))(i := v)"
    "(\<lambda>b. bprev (bufs (updb i (bnext_update (\<lambda>_. v)) s) b)) = (\<lambda>b. bprev (bufs s b))"
  by (auto simp: updb_def)

text \<open>\<open>relinked B B'\<close>: only the links of the buffers differ.\<close>

definition relinked :: "(nat \<Rightarrow> buf) \<Rightarrow> (nat \<Rightarrow> buf) \<Rightarrow> bool" where
  "relinked B B' \<longleftrightarrow> (\<forall>i. bvalid (B' i) = bvalid (B i) \<and> bdirty (B' i) = bdirty (B i) \<and> bdev (B' i) = bdev (B i)
     \<and> bblockno (B' i) = bblockno (B i) \<and> blk (B' i) = blk (B i) \<and> brefcnt (B' i) = brefcnt (B i)
     \<and> bdata (B' i) = bdata (B i))"

lemma relinkedD:
  assumes "relinked B B'"
  shows "bvalid (B' i) = bvalid (B i)" "bdirty (B' i) = bdirty (B i)" "bdev (B' i) = bdev (B i)"
    "bblockno (B' i) = bblockno (B i)" "blk (B' i) = blk (B i)" "brefcnt (B' i) = brefcnt (B i)"
    "bdata (B' i) = bdata (B i)"
  using assms by (simp_all add: relinked_def)

lemma relinked_step:
  "relinked B (bufs s) \<Longrightarrow> relinked B (bufs (updb b (bnext_update (\<lambda>_. v)) s))"
  "relinked B (bufs s) \<Longrightarrow> relinked B (bufs (updb b (bprev_update (\<lambda>_. v)) s))"
  by (simp_all add: relinked_def updb_def)

lemma relinked_links: "relinked (bufs s) (bufs (link_front b (unlink b s)))"
  unfolding link_front_def unlink_def Let_def
  by (intro relinked_step) (simp add: relinked_def)

text \<open>\<open>bframe s s'\<close>: only the buffers differ.\<close>

definition bframe :: "'a bcache_scheme \<Rightarrow> 'a bcache_scheme \<Rightarrow> bool" where
  "bframe s s' \<longleftrightarrow> s' = s\<lparr>bufs := bufs s'\<rparr>"

lemma bframe_refl [simp]: "bframe s s"
  by (simp add: bframe_def)

lemma bframe_trans: "bframe s s' \<Longrightarrow> bframe s' s'' \<Longrightarrow> bframe s s''"
  unfolding bframe_def by (metis bcache.surjective bcache.update_convs(2))

lemma bframe_updb: "bframe s (updb b f s)"
  by (simp add: bframe_def updb_def)

lemma bframe_step: "bframe s s' \<Longrightarrow> bframe s (updb b f s')"
  by (rule bframe_trans [OF _ bframe_updb])

lemma bframeD:
  assumes "bframe s s'"
  shows "fpid s' = fpid s" "memdisk s' = memdisk s" "disksize s' = disksize s" "dwrites s' = dwrites s"
proof -
  have e: "s' = s\<lparr>bufs := bufs s'\<rparr>" using assms by (simp add: bframe_def)
  show "fpid s' = fpid s" "memdisk s' = memdisk s" "disksize s' = disksize s" "dwrites s' = dwrites s"
    by (subst e, simp)+
qed

lemma link_front_frame: "bframe s (link_front b (unlink b s))"
  unfolding link_front_def unlink_def Let_def by (intro bframe_step bframe_refl)

lemma hd_rev_snoc: "hd (rev us @ [z]) = last (z # us)"
  by (cases us rule: rev_cases) simp_all

lemma lru_link_front:
  assumes "chain (\<lambda>b. bnext (bufs s b)) NBUF xs NBUF" and "chain (\<lambda>b. bprev (bufs s b)) NBUF (rev xs) NBUF"
    and d: "distinct (NBUF # xs)" "b \<notin> set (NBUF # xs)"
  shows "chain (\<lambda>i. bnext (bufs (link_front b s) i)) NBUF (b # xs) NBUF"
    and "chain (\<lambda>i. bprev (bufs (link_front b s) i)) NBUF (rev (b # xs)) NBUF"
proof -
  let ?n = "\<lambda>b. bnext (bufs s b)" and ?p = "\<lambda>b. bprev (bufs s b)"
  have h: "?n NBUF = last (NBUF # rev xs)"
    using chain_first [OF assms(1)] hd_rev_snoc [of "rev xs" NBUF] by simp
  have "last (NBUF # rev xs) \<in> set (NBUF # xs)" using last_in_set [of "NBUF # rev xs"] by auto
  then have b: "b \<noteq> ?n NBUF" "b \<noteq> NBUF" using d(2) by (auto simp: h)
  have n: "(\<lambda>i. bnext (bufs (link_front b s) i)) = ?n(b := ?n NBUF, NBUF := b)"
    using b by (intro ext) (simp add: link_front_def updb_def Let_def)
  show "chain (\<lambda>i. bnext (bufs (link_front b s) i)) NBUF (b # xs) NBUF"
    unfolding n using d by (intro chain_push [OF assms(1)]) auto
  have p: "(\<lambda>i. bprev (bufs (link_front b s) i)) = ?p(b := NBUF, last (NBUF # rev xs) := b)"
    unfolding h [symmetric] using b by (intro ext) (simp add: link_front_def updb_def Let_def)
  show "chain (\<lambda>i. bprev (bufs (link_front b s) i)) NBUF (rev (b # xs)) NBUF"
    unfolding p using d chain_snoc [OF assms(2), of b NBUF] by auto
qed

lemma lru_unlink:
  assumes "lru_ok (bufs s) (us @ b # vs)"
  shows "chain (\<lambda>i. bnext (bufs (unlink b s) i)) NBUF (us @ vs) NBUF"
    and "chain (\<lambda>i. bprev (bufs (unlink b s) i)) NBUF (rev (us @ vs)) NBUF"
proof -
  let ?n = "\<lambda>b. bnext (bufs s b)" and ?p = "\<lambda>b. bprev (bufs s b)"
  have x: "set (us @ b # vs) = {..<NBUF}" "distinct (us @ b # vs)" using assms by (simp_all add: lru_ok_def)
  then have "NBUF \<notin> set (us @ b # vs)" by auto
  with x(2) have d: "distinct (NBUF # us @ b # vs)" by simp
  have c: "chain ?n NBUF (us @ b # vs) NBUF" "chain ?p NBUF (rev vs @ b # rev us) NBUF"
    using assms by (simp_all add: lru_ok_def)
  have nb: "?n b = hd (vs @ [NBUF])" and pb: "?p b = hd (rev us @ [NBUF])"
    using c chain_first [of ?n b vs NBUF] chain_first [of ?p b "rev us" NBUF] by (simp_all add: chain_append)
  have nl: "?n b = last (NBUF # rev vs)" and pl: "?p b = last (NBUF # us)"
    using hd_rev_snoc [of "rev vs" NBUF] hd_rev_snoc [of us NBUF] by (simp_all only: nb pb rev_rev_ident)
  have "last (NBUF # us) \<in> set (NBUF # us)" "last (NBUF # rev vs) \<in> set (NBUF # rev vs)"
    by (rule last_in_set, simp)+
  then have "b \<noteq> last (NBUF # us)" "b \<noteq> last (NBUF # rev vs)" using d by auto
  then have b: "b \<noteq> ?p b" "b \<noteq> ?n b" unfolding pl nl .
  have n: "(\<lambda>i. bnext (bufs (unlink b s) i)) = ?n(last (NBUF # us) := ?n b)"
    unfolding pl [symmetric] using b by (intro ext) (auto simp: unlink_def updb_def Let_def)
  show "chain (\<lambda>i. bnext (bufs (unlink b s) i)) NBUF (us @ vs) NBUF"
    unfolding n by (rule chain_drop [OF c(1) d])
  have p: "(\<lambda>i. bprev (bufs (unlink b s) i)) = ?p(last (NBUF # rev vs) := ?p b)"
    unfolding nl [symmetric] using b by (intro ext) (auto simp: unlink_def updb_def Let_def)
  have "chain (?p(last (NBUF # rev vs) := ?p b)) NBUF (rev vs @ rev us) NBUF"
    using d by (intro chain_drop [OF c(2)]) auto
  then show "chain (\<lambda>i. bprev (bufs (unlink b s) i)) NBUF (rev (us @ vs)) NBUF"
    unfolding p by simp
qed

lemma lru_front:
  assumes "lru_ok (bufs s) (us @ b # vs)"
  shows "lru_ok (bufs (link_front b (unlink b s))) (b # us @ vs)"
proof -
  have x: "set (us @ b # vs) = {..<NBUF}" "distinct (us @ b # vs)" using assms by (simp_all add: lru_ok_def)
  then have d: "distinct (NBUF # us @ vs)" "b \<notin> set (NBUF # us @ vs)" "set (b # us @ vs) = {..<NBUF}" by auto
  show ?thesis
    unfolding lru_ok_def
    using d lru_link_front [OF lru_unlink [OF assms] d(1,2)] by auto
qed

lemma lru_binit: "lru_ok (bufs (binit s)) (rev [0..<NBUF])"
proof -
  let ?z = "updb NBUF (\<lambda>r. r\<lparr>bprev := NBUF, bnext := NBUF\<rparr>) s"
  let ?f = "fold (\<lambda>b s. link_front b (updb b (blk_update (\<lambda>_. initsleeplock)) s))"
  have "n \<le> NBUF \<Longrightarrow> chain (\<lambda>i. bnext (bufs (?f [0..<n] ?z) i)) NBUF (rev [0..<n]) NBUF
      \<and> chain (\<lambda>i. bprev (bufs (?f [0..<n] ?z) i)) NBUF (rev (rev [0..<n])) NBUF" for n
  proof (induction n)
    case (Suc n)
    let ?s = "updb n (blk_update (\<lambda>_. initsleeplock)) (?f [0..<n] ?z)"
    have e: "bnext (bufs ?s i) = bnext (bufs (?f [0..<n] ?z) i)"
      "bprev (bufs ?s i) = bprev (bufs (?f [0..<n] ?z) i)" for i
      by (simp_all add: updb_def)
    have "chain (\<lambda>i. bnext (bufs (link_front n ?s) i)) NBUF (n # rev [0..<n]) NBUF"
      "chain (\<lambda>i. bprev (bufs (link_front n ?s) i)) NBUF (rev (n # rev [0..<n])) NBUF"
      using Suc by (intro lru_link_front; simp add: e)+
    then show ?case by simp
  qed (simp add: updb_def)
  from this [of NBUF] show ?thesis by (auto simp: lru_ok_def binit_def Let_def)
qed

end
