(* ===== verification/Bcache.thy ===== *)
theory Bcache
  imports Bio
begin

text \<open>
  What the buffer cache promises.  The invariant \<open>bc_inv\<close> of the cache of theory Bio, the abstract
  state it stands for (\<open>view\<close>, the contents of every block as the kernel sees them, \<open>held\<close>, the
  blocks whose buffers are locked, and \<open>dirty\<close>, the blocks that are pinned), and the interface
  \<open>block_cache\<close>, whose laws say what the operations do to the abstract state.  The log and the file
  system rest on these laws only.
\<close>

section \<open>The invariant\<close>

definition buf_ok :: "int \<Rightarrow> (u32 \<Rightarrow> block) \<Rightarrow> u32 \<Rightarrow> buf \<Rightarrow> bool" where
  "buf_ok p D n r \<longleftrightarrow>
     (if bdev r = 1
      then bvalid r \<and> bblockno r < n
        \<and> (\<not> bdirty r \<and> \<not> sl_locked (blk r) \<longrightarrow> bdata r = D (bblockno r))
      else \<not> bdirty r \<and> \<not> sl_locked (blk r))
     \<and> brefcnt r = of_bool (sl_locked (blk r)) \<and> (sl_locked (blk r) \<longrightarrow> sl_pid (blk r) = p)"

definition holds_block :: "u32 \<Rightarrow> buf \<Rightarrow> bool" where
  "holds_block b r \<longleftrightarrow> bdev r = 1 \<and> bblockno r = b"

definition bufs_ok :: "int \<Rightarrow> (u32 \<Rightarrow> block) \<Rightarrow> u32 \<Rightarrow> (nat \<Rightarrow> buf) \<Rightarrow> bool" where
  "bufs_ok p D n B \<longleftrightarrow> (\<forall>i<NBUF. buf_ok p D n (B i))
     \<and> (\<forall>i<NBUF. \<forall>j<NBUF. \<forall>b. holds_block b (B i) \<and> holds_block b (B j) \<longrightarrow> i = j)"

definition bc_inv :: "'a bcache_scheme \<Rightarrow> bool" where
  "bc_inv s \<longleftrightarrow> (\<exists>xs. lru_ok (bufs s) xs) \<and> bufs_ok (fpid s) (memdisk s) (disksize s) (bufs s)"

definition slot :: "(nat \<Rightarrow> buf) \<Rightarrow> u32 \<Rightarrow> nat option" where
  "slot B b = find (\<lambda>i. holds_block b (B i)) [0..<NBUF]"

definition view :: "'a bcache_scheme \<Rightarrow> u32 \<Rightarrow> block" where
  "view s b = (case slot (bufs s) b of Some i \<Rightarrow> bdata (bufs s i) | None \<Rightarrow> memdisk s b)"

definition held :: "'a bcache_scheme \<Rightarrow> u32 set" where
  "held s = {b. \<exists>i. slot (bufs s) b = Some i \<and> sl_locked (blk (bufs s i))}"

definition dirty :: "'a bcache_scheme \<Rightarrow> u32 set" where
  "dirty s = {b. \<exists>i. slot (bufs s) b = Some i \<and> bdirty (bufs s i)}"

text \<open>\<open>owns s i b\<close>: the caller has the buffer \<open>i\<close>, locked, and it holds the block \<open>b\<close>.\<close>

definition owns :: "'a bcache_scheme \<Rightarrow> nat \<Rightarrow> u32 \<Rightarrow> bool" where
  "owns s i b \<longleftrightarrow> slot (bufs s) b = Some i \<and> sl_locked (blk (bufs s i))"

lemma owns_held: "b \<in> held s \<longleftrightarrow> (\<exists>i. owns s i b)"
  by (simp add: held_def owns_def)

lemma slot_SomeD: "slot B b = Some i \<Longrightarrow> i < NBUF \<and> holds_block b (B i)"
  unfolding slot_def by (drule find_Some_D) simp

lemma slot_NoneD: "slot B b = None \<Longrightarrow> i < NBUF \<Longrightarrow> \<not> holds_block b (B i)"
  unfolding slot_def by (drule find_None_D [where x = i]) auto

lemma slot_eq:
  assumes "bufs_ok p D n B" and "i < NBUF" and "holds_block b (B i)"
  shows "slot B b = Some i"
  using assms unfolding slot_def bufs_ok_def by (intro find_unique) auto

lemma slot_iff: "bufs_ok p D n B \<Longrightarrow> slot B b = Some i \<longleftrightarrow> i < NBUF \<and> holds_block b (B i)"
  using slot_eq slot_SomeD by blast

lemma slot_cong: "(\<And>i. i < NBUF \<Longrightarrow> holds_block b (B' i) = holds_block b (B i)) \<Longrightarrow> slot B' b = slot B b"
  unfolding slot_def by (intro find_cong_set) auto

lemma find_lru:
  assumes "lru_ok B xs" and "bufs_ok p D n B"
  shows "find (\<lambda>i. holds_block b (B i)) xs = slot B b"
proof (cases "slot B b")
  case None
  then have "find (\<lambda>i. holds_block b (B i)) xs = None"
    using assms(1) slot_NoneD [OF None] by (auto simp: find_None_iff lru_ok_def)
  then show ?thesis using None by simp
next
  case (Some i)
  then have i: "i < NBUF" "holds_block b (B i)" using slot_SomeD by blast+
  have "find (\<lambda>i. holds_block b (B i)) xs = Some i"
    using assms i unfolding lru_ok_def bufs_ok_def by (intro find_unique) auto
  then show ?thesis using Some by simp
qed

text \<open>Replacing the buffer of a block by another one of the same block.\<close>

lemma bufs_ok_same:
  assumes "bufs_ok p D n B" and "slot B b = Some i" and "holds_block b r" and "buf_ok p D' n r"
    and "\<And>j. j < NBUF \<Longrightarrow> j \<noteq> i \<Longrightarrow> buf_ok p D' n (B j)"
  shows "bufs_ok p D' n (B(i := r))" and "slot (B(i := r)) c = slot B c"
proof -
  have i: "i < NBUF" "holds_block b (B i)" using slot_SomeD [OF assms(2)] by auto
  have hb: "holds_block c ((B(i := r)) j) = holds_block c (B j)" for c j
    using i(2) assms(3) by (auto simp: holds_block_def)
  show "bufs_ok p D' n (B(i := r))"
    unfolding bufs_ok_def hb using assms by (auto simp: bufs_ok_def)
  show "slot (B(i := r)) c = slot B c" by (rule slot_cong) (rule hb)
qed

text \<open>Giving the buffer \<open>i\<close> to a block that no buffer holds.\<close>

lemma bufs_ok_install:
  assumes "bufs_ok p D n B" and "slot B b = None" and "i < NBUF" and "holds_block b r" and "buf_ok p D n r"
  shows "bufs_ok p D n (B(i := r))"
    and "slot (B(i := r)) c = (if c = b then Some i else if slot B c = Some i then None else slot B c)"
proof -
  have nb: "j < NBUF \<Longrightarrow> \<not> holds_block b (B j)" for j using slot_NoneD [OF assms(2)] .
  have r: "holds_block c r \<longleftrightarrow> c = b" for c using assms(4) by (auto simp: holds_block_def)
  show ok: "bufs_ok p D n (B(i := r))"
    using assms(1,5) nb r unfolding bufs_ok_def by (auto split: if_splits)
  show "slot (B(i := r)) c = (if c = b then Some i else if slot B c = Some i then None else slot B c)"
  proof (cases "c = b")
    case True
    then show ?thesis using slot_eq [OF ok assms(3)] assms(4) by simp
  next
    case False
    show ?thesis
    proof (cases "slot B c = Some i \<or> slot B c = None")
      case True
      have "\<not> holds_block c ((B(i := r)) j)" if "j < NBUF" for j
      proof
        assume h: "holds_block c ((B(i := r)) j)"
        have "j \<noteq> i"
        proof
          assume "j = i"
          then have "holds_block c r" using h by simp
          then show False using False r by simp
        qed
        moreover from this have "slot B c = Some j" using h that slot_eq [OF assms(1), of j c] by simp
        ultimately show False using True by simp
      qed
      then have "slot (B(i := r)) c = None" by (auto simp: slot_def find_None_iff)
      then show ?thesis using True False by auto
    next
      case no: False
      then obtain j where j: "slot B c = Some j" "j \<noteq> i" by auto
      then have "slot (B(i := r)) c = Some j" using slot_SomeD [OF j(1)] slot_eq [OF ok, of j c] by simp
      then show ?thesis using False j by simp
    qed
  qed
qed

section \<open>The operations\<close>

lemma holds_eq: "(\<lambda>b. bdev (bufs s b) = 1 \<and> bblockno (bufs s b) = c) = (\<lambda>b. holds_block c (bufs s b))"
  by (auto simp: holds_block_def)

lemma finite_held: "finite (held s)" and finite_dirty: "finite (dirty s)"
proof -
  have "held s \<subseteq> (\<lambda>i. bblockno (bufs s i)) ` {..<NBUF}" "dirty s \<subseteq> (\<lambda>i. bblockno (bufs s i)) ` {..<NBUF}"
    by (auto simp: held_def dirty_def holds_block_def dest!: slot_SomeD)
  then show "finite (held s)" "finite (dirty s)" by (auto intro: finite_subset)
qed

text \<open>A clean buffer that nobody uses exists as long as not all are locked or pinned.\<close>

lemma free_buffer:
  assumes ok: "bufs_ok p D n (bufs s)" and room: "card (held s \<union> dirty s) < NBUF"
  shows "\<exists>i<NBUF. brefcnt (bufs s i) = 0 \<and> \<not> bdirty (bufs s i)"
proof (rule ccontr)
  assume none: "\<not> ?thesis"
  have used: "bdev (bufs s i) = 1 \<and> (bdirty (bufs s i) \<or> sl_locked (blk (bufs s i)))" if "i < NBUF" for i
    using none that ok by (auto simp: bufs_ok_def buf_ok_def split: if_splits)
  let ?f = "\<lambda>i. bblockno (bufs s i)"
  have sub: "?f ` {..<NBUF} \<subseteq> held s \<union> dirty s"
  proof
    fix b assume "b \<in> ?f ` {..<NBUF}"
    then obtain i where i: "i < NBUF" "b = ?f i" by auto
    then have "slot (bufs s) b = Some i" using used slot_eq [OF ok i(1)] by (simp add: holds_block_def)
    then show "b \<in> held s \<union> dirty s" using used [OF i(1)] by (auto simp: held_def dirty_def)
  qed
  have inj: "inj_on ?f {..<NBUF}"
    using used ok by (auto simp: inj_on_def bufs_ok_def holds_block_def)
  have "finite (held s \<union> dirty s)" by (simp add: finite_held finite_dirty)
  then have "card (?f ` {..<NBUF}) \<le> card (held s \<union> dirty s)" using sub by (rule card_mono)
  then show False using room card_image [OF inj] by simp
qed

declare lru_walk.simps [simp del]

lemma sleeplock_eta: "(lk :: sleeplock)\<lparr>sl_locked := l, sl_pid := p\<rparr> = \<lparr>sl_locked = l, sl_pid = p\<rparr>"
  by (cases lk) simp

text \<open>\<open>held_by p r\<close>: the buffer \<open>r\<close> after its caller locked it.\<close>

definition held_by :: "int \<Rightarrow> buf \<Rightarrow> buf" where
  "held_by p r = r\<lparr>brefcnt := 1, blk := \<lparr>sl_locked = True, sl_pid = p\<rparr>\<rparr>"

lemma bget_hit:
  assumes inv: "bc_inv s" and i: "slot (bufs s) b = Some i" and l: "\<not> sl_locked (blk (bufs s i))"
  shows "bget 1 b s = Ok (i, updb i (held_by (fpid s)) s)"
proof -
  obtain xs where xs: "lru_ok (bufs s) xs" "bufs_ok (fpid s) (memdisk s) (disksize s) (bufs s)"
    using inv by (auto simp: bc_inv_def)
  have "brefcnt (bufs s i) = 0"
    using xs(2) l slot_SomeD [OF i] by (auto simp: bufs_ok_def buf_ok_def)
  then show ?thesis
    using lru_ok_walk(1) [OF xs(1), of "\<lambda>i. holds_block b (bufs s i)"] find_lru [OF xs, of b] i l
    by (simp add: bget_def holds_eq lock_buf_def acquiresleep_def updb_def held_by_def sleeplock_eta)
qed

lemma bget_miss:
  assumes inv: "bc_inv s" and n: "slot (bufs s) b = None" and room: "card (held s \<union> dirty s) < NBUF"
  shows "\<exists>i<NBUF. brefcnt (bufs s i) = 0 \<and> \<not> bdirty (bufs s i) \<and> \<not> sl_locked (blk (bufs s i))
    \<and> bget 1 b s = Ok (i, updb i (\<lambda>r. held_by (fpid s) (r\<lparr>bdev := 1, bblockno := b, bvalid := False, bdirty := False\<rparr>)) s)"
proof -
  obtain xs where xs: "lru_ok (bufs s) xs" "bufs_ok (fpid s) (memdisk s) (disksize s) (bufs s)"
    using inv by (auto simp: bc_inv_def)
  let ?P = "\<lambda>i. brefcnt (bufs s i) = 0 \<and> \<not> bdirty (bufs s i)"
  obtain j where "j < NBUF" "?P j" using free_buffer [OF xs(2) room] by auto
  then have "find ?P (rev xs) \<noteq> None" using xs(1) by (auto simp: find_None_iff lru_ok_def)
  then obtain i where i: "find ?P (rev xs) = Some i" by auto
  then have p: "i < NBUF" "?P i" using xs(1) find_Some_D [OF i] by (auto simp: lru_ok_def)
  then have l: "\<not> sl_locked (blk (bufs s i))" using xs(2) by (auto simp: bufs_ok_def buf_ok_def split: if_splits)
  have "bget 1 b s = Ok (i, updb i (\<lambda>r. held_by (fpid s) (r\<lparr>bdev := 1, bblockno := b, bvalid := False, bdirty := False\<rparr>)) s)"
    using lru_ok_walk [OF xs(1)] find_lru [OF xs, of b] n i l
    by (simp add: bget_def holds_eq lock_buf_def acquiresleep_def updb_def held_by_def sleeplock_eta)
  then show ?thesis using p l by blast
qed

text \<open>What a change of one buffer does to the abstract state.\<close>

lemma slot_Collect:
  assumes "\<And>c. slot B c = Some i \<longleftrightarrow> c = b"
  shows "{x. \<exists>j. slot B x = Some j \<and> P ((B(i := r)) j)} =
    (if P r then insert b {x. \<exists>j. slot B x = Some j \<and> P (B j)} else {x. \<exists>j. slot B x = Some j \<and> P (B j)} - {b})"
proof (rule set_eqI)
  fix x
  have b: "slot B b = Some i" using assms by simp
  have n: "x \<noteq> b \<Longrightarrow> slot B x = Some j \<Longrightarrow> j \<noteq> i" for j using assms by auto
  show "x \<in> {x. \<exists>j. slot B x = Some j \<and> P ((B(i := r)) j)} \<longleftrightarrow>
    x \<in> (if P r then insert b {x. \<exists>j. slot B x = Some j \<and> P (B j)} else {x. \<exists>j. slot B x = Some j \<and> P (B j)} - {b})"
    using n by (cases "x = b"; cases "slot B x") (auto simp: b)
qed

lemma held_upd:
  assumes "\<And>c. slot B' c = slot (bufs s) c" and "slot (bufs s) b = Some i" and "bufs s' = B'"
    and "B' = (bufs s)(i := r)" and "bufs_ok p D n (bufs s)"
  shows "held s' = (if sl_locked (blk r) then insert b (held s) else held s - {b})"
    and "dirty s' = (if bdirty r then insert b (dirty s) else dirty s - {b})"
proof -
  have u: "slot (bufs s) c = Some i \<longleftrightarrow> c = b" for c
    using slot_iff [OF assms(5), of c i] slot_SomeD [OF assms(2)] assms(2) by (auto simp: holds_block_def)
  have e: "slot ((bufs s)(i := r)) c = slot (bufs s) c" "bufs s' = (bufs s)(i := r)" for c using assms by auto
  show "held s' = (if sl_locked (blk r) then insert b (held s) else held s - {b})"
    "dirty s' = (if bdirty r then insert b (dirty s) else dirty s - {b})"
    using slot_Collect [OF u, where P = "\<lambda>x. sl_locked (blk x)"] slot_Collect [OF u, where P = bdirty]
    by (simp_all only: held_def dirty_def e)
qed

lemma view_upd:
  assumes "\<And>c. slot B' c = slot (bufs s) c" and "slot (bufs s) b = Some i" and "bufs s' = B'"
    and "B' = (bufs s)(i := r)" and "bufs_ok p D n (bufs s)"
    and "\<And>c. c \<noteq> b \<Longrightarrow> memdisk s' c = memdisk s c"
  shows "view s' = (view s)(b := bdata r)"
proof
  fix c
  have u: "slot (bufs s) c = Some i \<longleftrightarrow> c = b" for c
    using slot_iff [OF assms(5), of c i] slot_SomeD [OF assms(2)] assms(2) by (auto simp: holds_block_def)
  have e: "slot ((bufs s)(i := r)) c = slot (bufs s) c" "bufs s' = (bufs s)(i := r)" for c using assms by auto
  show "view s' c = ((view s)(b := bdata r)) c"
  proof (cases "c = b")
    case True
    then show ?thesis using assms(2) by (simp add: view_def e)
  next
    case False
    then have "slot (bufs s) c \<noteq> Some i" using u by simp
    then show ?thesis using False assms(6) [OF False] by (auto simp: view_def e split: option.split)
  qed
qed

text \<open>
  \<open>cstep s s' V H D\<close>: the cache goes from \<open>s\<close> to \<open>s'\<close>, where the blocks are \<open>V\<close>, the locked ones \<open>H\<close>
  and the pinned ones \<open>D\<close>; nothing outside the cache changes.
\<close>

definition cstep :: "'a bcache_scheme \<Rightarrow> 'a bcache_scheme \<Rightarrow> (u32 \<Rightarrow> block) \<Rightarrow> u32 set \<Rightarrow> u32 set \<Rightarrow> bool" where
  "cstep s s' V H D \<longleftrightarrow> bc_inv s' \<and> view s' = V \<and> held s' = H \<and> dirty s' = D
     \<and> fpid s' = fpid s \<and> disksize s' = disksize s \<and> bcache.more s' = bcache.more s"

lemma bc_inv_ok: "bc_inv s \<Longrightarrow> bufs_ok (fpid s) (memdisk s) (disksize s) (bufs s)"
  by (simp add: bc_inv_def)

lemma owns_upd: "(\<And>c. slot B' c = slot (bufs s) c) \<Longrightarrow> bufs s' = B' \<Longrightarrow> B' = (bufs s)(i := r) \<Longrightarrow>
    (j = i \<longrightarrow> sl_locked (blk r) = sl_locked (blk (bufs s i))) \<Longrightarrow> owns s' j c = owns s j c"
  by (auto simp: owns_def)

lemma buf_change:
  assumes inv: "bc_inv s" and i: "slot (bufs s) b = Some i"
    and r: "holds_block b r" "buf_ok (fpid s) D' (disksize s) r" "bprev r = bprev (bufs s i)" "bnext r = bnext (bufs s i)"
    and s': "s' = s\<lparr>bufs := (bufs s)(i := r), memdisk := D', dwrites := W\<rparr>"
    and D': "\<And>c. c \<noteq> b \<Longrightarrow> D' c = memdisk s c"
  shows "cstep s s' ((view s)(b := bdata r)) (if sl_locked (blk r) then insert b (held s) else held s - {b})
      (if bdirty r then insert b (dirty s) else dirty s - {b})"
    and "j \<noteq> i \<or> sl_locked (blk r) = sl_locked (blk (bufs s i)) \<Longrightarrow> owns s' j c = owns s j c"
proof -
  have other: "buf_ok (fpid s) D' (disksize s) (bufs s j)" if "j < NBUF" "j \<noteq> i" for j
  proof -
    have "buf_ok (fpid s) (memdisk s) (disksize s) (bufs s j)" using bc_inv_ok [OF inv] that by (simp add: bufs_ok_def)
    moreover have "bdev (bufs s j) = 1 \<longrightarrow> bblockno (bufs s j) \<noteq> b"
      using slot_eq [OF bc_inv_ok [OF inv], of j b] i that by (auto simp: holds_block_def)
    ultimately show ?thesis using D' by (auto simp: buf_ok_def)
  qed
  note ok = bufs_ok_same [OF bc_inv_ok [OF inv] i r(1,2) other]
  have "lru_ok ((bufs s)(i := r)) xs = lru_ok (bufs s) xs" for xs
    using r(3,4) by (intro lru_ok_cong) auto
  then have "bc_inv s'" using inv ok(1) by (simp add: bc_inv_def s')
  moreover note held_upd [OF ok(2) i _ refl bc_inv_ok [OF inv], of s'] view_upd [OF ok(2) i _ refl bc_inv_ok [OF inv], of s']
  ultimately show "cstep s s' ((view s)(b := bdata r)) (if sl_locked (blk r) then insert b (held s) else held s - {b})
      (if bdirty r then insert b (dirty s) else dirty s - {b})"
    using D' by (simp add: cstep_def s')
  show "owns s' j c = owns s j c" if "j \<noteq> i \<or> sl_locked (blk r) = sl_locked (blk (bufs s i))"
    using that by (intro owns_upd [OF ok(2) _ refl]) (auto simp: s')
qed

lemma view_slot: "slot (bufs s) b = Some i \<Longrightarrow> view s b = bdata (bufs s i)"
  by (simp add: view_def)

lemma owns_data: "owns s i b \<Longrightarrow> bdata (bufs s i) = view s b"
  by (simp add: owns_def view_slot)

lemma owns_buf:
  assumes "bc_inv s" and "owns s i b"
  shows "slot (bufs s) b = Some i" "holds_block b (bufs s i)" "buf_ok (fpid s) (memdisk s) (disksize s) (bufs s i)"
    "sl_locked (blk (bufs s i))" "holdingsleep (fpid s) (blk (bufs s i))" "i < NBUF" "brefcnt (bufs s i) = 1"
    "bvalid (bufs s i)" "bdev (bufs s i) = 1" "bblockno (bufs s i) = b" "b < disksize s"
proof -
  show s: "slot (bufs s) b = Some i" and l: "sl_locked (blk (bufs s i))" using assms(2) by (simp_all add: owns_def)
  show h: "holds_block b (bufs s i)" "i < NBUF" using slot_SomeD [OF s] by auto
  show ok: "buf_ok (fpid s) (memdisk s) (disksize s) (bufs s i)"
    using bc_inv_ok [OF assms(1)] h(2) by (simp add: bufs_ok_def)
  show "bdev (bufs s i) = 1" "bblockno (bufs s i) = b" using h by (simp_all add: holds_block_def)
  then show "bvalid (bufs s i)" "holdingsleep (fpid s) (blk (bufs s i))" "brefcnt (bufs s i) = 1" "b < disksize s"
    using ok l by (simp_all add: buf_ok_def holdingsleep_def)
qed

text \<open>Taking a buffer that holds the block already.\<close>

lemma bread_hit:
  assumes inv: "bc_inv s" and i: "slot (bufs s) b = Some i" and free: "b \<notin> held s"
  shows "\<exists>s'. bread 1 b s = Ok (i, s') \<and> cstep s s' (view s) (insert b (held s)) (dirty s) \<and> owns s' i b
    \<and> (\<forall>j c. owns s j c \<longrightarrow> owns s' j c) \<and> memdisk s' = memdisk s \<and> dwrites s' = dwrites s"
proof -
  have n: "i < NBUF" "holds_block b (bufs s i)" using slot_SomeD [OF i] by auto
  then have ok: "buf_ok (fpid s) (memdisk s) (disksize s) (bufs s i)"
    using bc_inv_ok [OF inv] by (simp add: bufs_ok_def)
  have l: "\<not> sl_locked (blk (bufs s i))" using free i by (auto simp: held_def)
  let ?r = "held_by (fpid s) (bufs s i)"
  let ?s = "s\<lparr>bufs := (bufs s)(i := ?r), memdisk := memdisk s, dwrites := dwrites s\<rparr>"
  have u: "updb i (held_by (fpid s)) s = ?s" by (simp add: updb_def)
  have r: "holds_block b ?r" "buf_ok (fpid s) (memdisk s) (disksize s) ?r"
    using n(2) ok by (auto simp: held_by_def holds_block_def buf_ok_def)
  note ch = buf_change [OF inv i r(1) r(2) _ _ refl, where W = "dwrites s"]
  have "bvalid (bufs s i)" using n(2) ok by (simp add: holds_block_def buf_ok_def)
  then have e: "bread 1 b s = Ok (i, ?s)"
    using bget_hit [OF inv i l] by (simp add: bread_def u) (simp add: held_by_def)
  have "(view s)(b := bdata ?r) = view s" "bdirty ?r = bdirty (bufs s i)"
    using view_slot [OF i] by (auto simp: held_by_def)
  moreover have "(if bdirty (bufs s i) then insert b (dirty s) else dirty s - {b}) = dirty s"
    using i by (auto simp: dirty_def)
  ultimately have "cstep s ?s (view s) (insert b (held s)) (dirty s)"
    using ch(1) by (simp add: held_by_def)
  moreover have "slot (bufs ?s) b = Some i"
    using bufs_ok_same(2) [OF bc_inv_ok [OF inv] i r(1,2), of b] bc_inv_ok [OF inv] i by (simp add: bufs_ok_def)
  then have "owns ?s i b" by (simp add: owns_def held_by_def)
  moreover note this
  moreover have "owns ?s j c" if "owns s j c" for j c
  proof -
    have "j \<noteq> i" using that l by (auto simp: owns_def)
    then show ?thesis using ch(2) [of j c] that by (simp add: held_by_def)
  qed
  ultimately show ?thesis using e by (intro exI [of _ ?s]) simp
qed

text \<open>Taking a buffer from the end of the list for a block that is not cached.\<close>

lemma install_view:
  assumes inv: "bc_inv s" and n: "slot (bufs s) b = None" and i: "i < NBUF"
    and v: "\<not> bdirty (bufs s i)" "\<not> sl_locked (blk (bufs s i))"
    and r: "holds_block b r" "buf_ok (fpid s) (memdisk s) (disksize s) r" "sl_locked (blk r)" "\<not> bdirty r"
      "bdata r = memdisk s b" "bprev r = bprev (bufs s i)" "bnext r = bnext (bufs s i)"
  shows "cstep s (s\<lparr>bufs := (bufs s)(i := r)\<rparr>) (view s) (insert b (held s)) (dirty s)"
    and "owns (s\<lparr>bufs := (bufs s)(i := r)\<rparr>) i b"
    and "owns s j c \<Longrightarrow> owns (s\<lparr>bufs := (bufs s)(i := r)\<rparr>) j c"
proof -
  let ?s = "s\<lparr>bufs := (bufs s)(i := r)\<rparr>"
  note ins = bufs_ok_install [OF bc_inv_ok [OF inv] n i r(1,2)]
  have u: "slot (bufs s) c = Some i \<longleftrightarrow> holds_block c (bufs s i)" for c
    using slot_iff [OF bc_inv_ok [OF inv]] i by blast
  have "lru_ok ((bufs s)(i := r)) xs = lru_ok (bufs s) xs" for xs
    using r(6,7) by (intro lru_ok_cong) auto
  then have "bc_inv ?s" using inv ins(1) by (simp add: bc_inv_def)
  moreover have "view ?s = view s"
  proof
    fix c
    show "view ?s c = view s c"
    proof (cases "slot (bufs s) c = Some i")
      case True
      then have "holds_block c (bufs s i)" using u by simp
      then have "bdata (bufs s i) = memdisk s c"
        using bc_inv_ok [OF inv] i v by (simp add: bufs_ok_def buf_ok_def holds_block_def)
      then show ?thesis using True n ins(2) [of c] by (auto simp: view_def)
    next
      case False
      then show ?thesis using n r(5) ins(2) [of c] by (auto simp: view_def split: option.split)
    qed
  qed
  moreover have "held ?s = insert b (held s)"
    using n r(3) v(2) by (auto simp: held_def ins(2) split: if_splits)
  moreover have "dirty ?s = dirty s"
    using n r(4) v(1) by (auto simp: dirty_def ins(2) split: if_splits)
  ultimately show "cstep s ?s (view s) (insert b (held s)) (dirty s)" by (simp add: cstep_def)
  show "owns ?s i b" using ins(2) [of b] r(3) by (simp add: owns_def)
  show "owns ?s j c" if "owns s j c"
  proof -
    have "c \<noteq> b" "j \<noteq> i" using that n v(2) by (auto simp: owns_def)
    then show ?thesis using that ins(2) [of c] by (simp add: owns_def)
  qed
qed

lemma bread_miss:
  assumes inv: "bc_inv s" and n: "slot (bufs s) b = None" and b: "b < disksize s"
    and room: "card (held s \<union> dirty s) < NBUF"
  shows "\<exists>i s'. bread 1 b s = Ok (i, s') \<and> cstep s s' (view s) (insert b (held s)) (dirty s) \<and> owns s' i b
    \<and> (\<forall>j c. owns s j c \<longrightarrow> owns s' j c) \<and> memdisk s' = memdisk s \<and> dwrites s' = dwrites s"
proof -
  let ?f = "\<lambda>r. held_by (fpid s) (r\<lparr>bdev := 1, bblockno := b, bvalid := False, bdirty := False\<rparr>)"
  obtain i where i: "i < NBUF" "\<not> bdirty (bufs s i)" "\<not> sl_locked (blk (bufs s i))"
      and g: "bget 1 b s = Ok (i, updb i ?f s)"
    using bget_miss [OF inv n room] by blast
  let ?r = "(?f (bufs s i))\<lparr>bdata := memdisk s b, bvalid := True\<rparr>"
  let ?s = "s\<lparr>bufs := (bufs s)(i := ?r)\<rparr>"
  have "bread 1 b s = Ok (i, ?s)"
    using g b by (simp add: bread_def iderw_def held_by_def updb_def setdata_def holdingsleep_def Let_def)
  moreover have "holds_block b ?r" "buf_ok (fpid s) (memdisk s) (disksize s) ?r"
    using b by (auto simp: held_by_def holds_block_def buf_ok_def)
  then have "cstep s ?s (view s) (insert b (held s)) (dirty s)" "owns ?s i b"
      "\<And>j c. owns s j c \<Longrightarrow> owns ?s j c"
    using install_view [OF inv n i, of ?r] by (simp_all add: held_by_def)
  ultimately show ?thesis by (intro exI [of _ i] exI [of _ ?s]) simp
qed

lemma bread_ok:
  assumes "bc_inv s" and "b < disksize s" and "b \<notin> held s" and "b \<in> dirty s \<or> card (held s \<union> dirty s) < NBUF"
  shows "\<exists>i s'. bread 1 b s = Ok (i, s') \<and> cstep s s' (view s) (insert b (held s)) (dirty s) \<and> owns s' i b
    \<and> (\<forall>j c. owns s j c \<longrightarrow> owns s' j c) \<and> memdisk s' = memdisk s \<and> dwrites s' = dwrites s"
proof (cases "slot (bufs s) b")
  case None
  then have "b \<notin> dirty s" by (simp add: dirty_def)
  then show ?thesis using assms None bread_miss by blast
next
  case (Some i)
  then show ?thesis using assms bread_hit by blast
qed

text \<open>Changing the data of a buffer one holds.\<close>

lemma setdata_ok:
  assumes "bc_inv s" and "owns s i b"
  shows "cstep s (setdata i d s) ((view s)(b := d)) (held s) (dirty s)"
    and "owns (setdata i d s) j c = owns s j c"
    and "memdisk (setdata i d s) = memdisk s" "dwrites (setdata i d s) = dwrites s"
proof -
  note o = owns_buf [OF assms]
  let ?r = "(bufs s i)\<lparr>bdata := d\<rparr>"
  have e: "setdata i d s = s\<lparr>bufs := (bufs s)(i := ?r), memdisk := memdisk s, dwrites := dwrites s\<rparr>"
    by (simp add: setdata_def updb_def)
  have r: "holds_block b ?r" "buf_ok (fpid s) (memdisk s) (disksize s) ?r"
    using o by (auto simp: holds_block_def buf_ok_def)
  note ch = buf_change [OF assms(1) o(1) r _ _ e]
  have "b \<in> held s" using assms(2) owns_held by blast
  moreover have "(if bdirty (bufs s i) then insert b (dirty s) else dirty s - {b}) = dirty s"
    using o(1) by (auto simp: dirty_def)
  ultimately show "cstep s (setdata i d s) ((view s)(b := d)) (held s) (dirty s)"
    using ch(1) o(4) by (simp add: insert_absorb)
  show "owns (setdata i d s) j c = owns s j c" using ch(2) [of j c] by simp
  show "memdisk (setdata i d s) = memdisk s" "dwrites (setdata i d s) = dwrites s" by (simp_all add: e)
qed

text \<open>Writing a buffer to the disk, and pinning it.\<close>

lemma bwrite_ok:
  assumes inv: "bc_inv s" and o: "owns s i b"
  shows "\<exists>s'. bwrite i s = Ok s' \<and> cstep s s' (view s) (held s) (dirty s - {b})
    \<and> (\<forall>j c. owns s' j c = owns s j c) \<and> memdisk s' = (memdisk s)(b := view s b)
    \<and> dwrites s' = dwrites s @ [(b, view s b)]"
proof -
  note o' = owns_buf [OF inv o]
  let ?r = "(bufs s i)\<lparr>bdirty := False, bvalid := True\<rparr>"
  let ?s = "s\<lparr>bufs := (bufs s)(i := ?r), memdisk := (memdisk s)(b := view s b), dwrites := dwrites s @ [(b, view s b)]\<rparr>"
  have d: "bdata (bufs s i) = view s b" by (rule owns_data [OF o])
  have "bwrite i s = Ok ?s"
    using o'(5,8-11) d by (simp add: bwrite_def iderw_def updb_def Let_def not_le)
  moreover have r: "holds_block b ?r" "buf_ok (fpid s) ((memdisk s)(b := view s b)) (disksize s) ?r"
    using o' d by (auto simp: holds_block_def buf_ok_def)
  note ch = buf_change [OF inv o'(1) r _ _ refl, where W = "dwrites s @ [(b, view s b)]"]
  have "(view s)(b := bdata ?r) = view s" using d by auto
  moreover have "b \<in> held s" using o owns_held by blast
  ultimately show ?thesis
    using ch(1) ch(2) o'(4) by (intro exI [of _ ?s]) (simp add: insert_absorb)
qed

lemma pin_ok:
  assumes inv: "bc_inv s" and o: "owns s i b"
  shows "cstep s (updb i (bdirty_update (\<lambda>_. True)) s) (view s) (held s) (insert b (dirty s))"
    and "owns (updb i (bdirty_update (\<lambda>_. True)) s) j c = owns s j c"
proof -
  note o' = owns_buf [OF inv o]
  let ?r = "(bufs s i)\<lparr>bdirty := True\<rparr>"
  have e: "updb i (bdirty_update (\<lambda>_. True)) s
      = s\<lparr>bufs := (bufs s)(i := ?r), memdisk := memdisk s, dwrites := dwrites s\<rparr>"
    by (simp add: updb_def)
  have r: "holds_block b ?r" "buf_ok (fpid s) (memdisk s) (disksize s) ?r"
    using o' by (auto simp: holds_block_def buf_ok_def)
  note ch = buf_change [OF inv o'(1) r _ _ e]
  have "(view s)(b := bdata ?r) = view s" using owns_data [OF o] by auto
  moreover have "b \<in> held s" using o owns_held by blast
  ultimately show "cstep s (updb i (bdirty_update (\<lambda>_. True)) s) (view s) (held s) (insert b (dirty s))"
    using ch(1) o'(4) by (simp add: insert_absorb)
  show "owns (updb i (bdirty_update (\<lambda>_. True)) s) j c = owns s j c" using ch(2) [of j c] by simp
qed

text \<open>Giving a buffer back.\<close>

lemma relinked_cstep:
  assumes "bc_inv s" and r: "relinked (bufs s) (bufs s')" and f: "bframe s s'" and "lru_ok (bufs s') xs"
  shows "cstep s s' (view s) (held s) (dirty s)" and "owns s' j c = owns s j c"
proof -
  note rd = relinkedD [OF r] and fd = bframeD [OF f]
  have b: "buf_ok p D n (bufs s' i) = buf_ok p D n (bufs s i)" "holds_block c (bufs s' i) = holds_block c (bufs s i)"
    for p D n i c
    by (simp_all add: buf_ok_def holds_block_def rd)
  then have sl: "slot (bufs s') = slot (bufs s)" by (intro ext slot_cong)
  have "bufs_ok (fpid s) (memdisk s) (disksize s) (bufs s')"
    using bc_inv_ok [OF assms(1)] by (simp add: bufs_ok_def b)
  then have "bc_inv s'" using assms(4) by (auto simp: bc_inv_def fd)
  moreover have "view s' = view s"
    by (rule ext) (auto simp: view_def sl rd fd split: option.split)
  moreover have "held s' = held s" "dirty s' = dirty s" by (simp_all add: held_def dirty_def sl rd)
  moreover have "bcache.more s' = bcache.more s" using f unfolding bframe_def by (metis bcache.select_convs(6) bcache.surjective bcache.update_convs(2))
  ultimately show "cstep s s' (view s) (held s) (dirty s)" by (simp add: cstep_def fd)
  show "owns s' j c = owns s j c" by (simp add: owns_def sl rd)
qed

lemma cstep_trans:
  "cstep s s1 V1 H1 D1 \<Longrightarrow> cstep s1 s2 V2 H2 D2 \<Longrightarrow> cstep s s2 V2 H2 D2"
  by (simp add: cstep_def)

lemma brelse_ok:
  assumes inv: "bc_inv s" and o: "owns s i b" and d: "b \<in> dirty s \<or> view s b = memdisk s b"
  shows "\<exists>s'. brelse i s = Ok s' \<and> cstep s s' (view s) (held s - {b}) (dirty s)
    \<and> (\<forall>j c. c \<noteq> b \<longrightarrow> owns s' j c = owns s j c) \<and> memdisk s' = memdisk s \<and> dwrites s' = dwrites s"
proof -
  note o' = owns_buf [OF inv o]
  let ?r = "(blk_update releasesleep (bufs s i))\<lparr>brefcnt := 0\<rparr>"
  let ?s = "s\<lparr>bufs := (bufs s)(i := ?r), memdisk := memdisk s, dwrites := dwrites s\<rparr>"
  let ?t = "link_front i (unlink i ?s)"
  have dd: "(if bdirty (bufs s i) then insert b (dirty s) else dirty s - {b}) = dirty s"
    using o'(1) by (auto simp: dirty_def)
  have "bdirty (bufs s i) \<longleftrightarrow> b \<in> dirty s" using o'(1) by (auto simp: dirty_def)
  then have r: "holds_block b ?r" "buf_ok (fpid s) (memdisk s) (disksize s) ?r"
    using o' d owns_data [OF o] by (auto simp: holds_block_def buf_ok_def releasesleep_def)
  note ch = buf_change [OF inv o'(1) r _ _ refl, where W = "dwrites s"]
  have "(view s)(b := bdata ?r) = view s" using owns_data [OF o] by auto
  then have c1: "cstep s ?s (view s) (held s - {b}) (dirty s)"
    using ch(1) dd by (simp add: releasesleep_def)
  have e: "brelse i s = Ok ?t"
    using o'(5,7) by (simp add: brelse_def updb_def Let_def)
  obtain xs where xs: "lru_ok (bufs ?s) xs" using c1 by (auto simp: cstep_def bc_inv_def)
  then have "i \<in> set xs" using o'(6) by (simp add: lru_ok_def)
  then obtain us vs where "xs = us @ i # vs" by (meson split_list)
  then have l: "lru_ok (bufs ?t) (i # us @ vs)" using lru_front xs by blast
  have inv1: "bc_inv ?s" using c1 by (simp add: cstep_def)
  note rl = relinked_cstep [OF inv1 relinked_links link_front_frame l]
  have c2: "cstep s ?t (view s) (held s - {b}) (dirty s)"
    using rl(1) c1 by (intro cstep_trans [OF c1]) (simp add: cstep_def)
  have "owns ?t j c = owns s j c" if "c \<noteq> b" for j c
  proof (cases "j = i")
    case False
    then show ?thesis using ch(2) [of j c] rl(2) [of j c] by simp
  next
    case True
    have "slot (bufs s) c \<noteq> Some i"
      using that slot_SomeD [OF o'(1)] slot_SomeD [of "bufs s" c i] by (auto simp: holds_block_def)
    moreover have "slot (bufs ?s) c = slot (bufs s) c"
      using bufs_ok_same(2) [OF bc_inv_ok [OF inv] o'(1) r, of c] bc_inv_ok [OF inv] by (simp add: bufs_ok_def)
    ultimately show ?thesis using rl(2) [of j c] True by (simp add: owns_def)
  qed
  moreover have "memdisk ?t = memdisk s" "dwrites ?t = dwrites s"
    using bframeD [OF link_front_frame, of i ?s] by simp_all
  ultimately show ?thesis using e c2 by blast
qed

section \<open>The interface\<close>

text \<open>The state of the blocks as the clients of the cache see it.\<close>

record 'c blocks =
  ca_view :: "u32 \<Rightarrow> block"
  ca_held :: "u32 set"
  ca_pinned :: "u32 set"
  ca_disk :: "u32 \<Rightarrow> block"
  ca_trace :: "(u32 \<times> block) list"
  ca_size :: u32
  ca_ctx :: 'c

locale block_cache =
  fixes inv :: "'s \<Rightarrow> bool"
    and abs :: "'s \<Rightarrow> 'c blocks"
    and own :: "'s \<Rightarrow> nat \<Rightarrow> u32 \<Rightarrow> bool"
    and cap :: nat
    and get :: "'s \<Rightarrow> nat \<Rightarrow> block"
    and rd :: "u32 \<Rightarrow> 's \<Rightarrow> (nat \<times> 's) kres"
    and put :: "nat \<Rightarrow> block \<Rightarrow> 's \<Rightarrow> 's"
    and wr :: "nat \<Rightarrow> 's \<Rightarrow> 's kres"
    and rel :: "nat \<Rightarrow> 's \<Rightarrow> 's kres"
  assumes clean: "inv s \<Longrightarrow> b \<notin> ca_held (abs s) \<Longrightarrow> b \<notin> ca_pinned (abs s) \<Longrightarrow> ca_view (abs s) b = ca_disk (abs s) b"
    and rd_ok: "inv s \<Longrightarrow> b < ca_size (abs s) \<Longrightarrow> b \<notin> ca_held (abs s) \<Longrightarrow>
      b \<in> ca_pinned (abs s) \<or> card (ca_held (abs s) \<union> ca_pinned (abs s)) < cap \<Longrightarrow>
      \<exists>i s'. rd b s = Ok (i, s') \<and> inv s' \<and> abs s' = (abs s)\<lparr>ca_held := insert b (ca_held (abs s))\<rparr>
        \<and> own s' i b \<and> (\<forall>j c. own s j c \<longrightarrow> own s' j c)"
    and own_get: "own s i b \<Longrightarrow> get s i = ca_view (abs s) b"
    and own_held: "own s i b \<Longrightarrow> b \<in> ca_held (abs s)"
    and put_ok: "inv s \<Longrightarrow> own s i b \<Longrightarrow> inv (put i d s)
        \<and> abs (put i d s) = (abs s)\<lparr>ca_view := (ca_view (abs s))(b := d)\<rparr> \<and> (\<forall>j c. own (put i d s) j c = own s j c)"
    and wr_ok: "inv s \<Longrightarrow> own s i b \<Longrightarrow> \<exists>s'. wr i s = Ok s' \<and> inv s'
        \<and> abs s' = (abs s)\<lparr>ca_pinned := ca_pinned (abs s) - {b}, ca_disk := (ca_disk (abs s))(b := ca_view (abs s) b),
             ca_trace := ca_trace (abs s) @ [(b, ca_view (abs s) b)]\<rparr>
        \<and> (\<forall>j c. own s' j c = own s j c)"
    and rel_ok: "inv s \<Longrightarrow> own s i b \<Longrightarrow> b \<in> ca_pinned (abs s) \<or> ca_view (abs s) b = ca_disk (abs s) b \<Longrightarrow>
      \<exists>s'. rel i s = Ok s' \<and> inv s' \<and> abs s' = (abs s)\<lparr>ca_held := ca_held (abs s) - {b}\<rparr>
        \<and> (\<forall>j c. c \<noteq> b \<longrightarrow> own s' j c = own s j c)"
begin

text \<open>A block is written to another one, and both buffers are given back.\<close>

lemma copy_out:
  assumes "inv s" and i: "own s i a" and j: "own s j b" and "a \<noteq> b"
    and "a \<in> ca_pinned (abs s) \<or> ca_view (abs s) a = ca_disk (abs s) a"
  shows "\<exists>s'. kbind (wr j (put j (get s i) s)) (\<lambda>s. kbind (rel i s) (rel j)) = Ok s' \<and> inv s'
    \<and> abs s' = (abs s)\<lparr>ca_view := (ca_view (abs s))(b := ca_view (abs s) a), ca_held := ca_held (abs s) - {a} - {b},
         ca_pinned := ca_pinned (abs s) - {b}, ca_disk := (ca_disk (abs s))(b := ca_view (abs s) a),
         ca_trace := ca_trace (abs s) @ [(b, ca_view (abs s) a)]\<rparr>
    \<and> (\<forall>k c. c \<noteq> a \<longrightarrow> c \<noteq> b \<longrightarrow> own s' k c = own s k c)"
proof -
  let ?d = "ca_view (abs s) a"
  have p: "inv (put j ?d s)" "abs (put j ?d s) = (abs s)\<lparr>ca_view := (ca_view (abs s))(b := ?d)\<rparr>"
      "\<And>k c. own (put j ?d s) k c = own s k c"
    using put_ok [OF assms(1) j] by blast+
  obtain s1 where s1: "wr j (put j ?d s) = Ok s1" "inv s1"
      "abs s1 = (abs s)\<lparr>ca_view := (ca_view (abs s))(b := ?d), ca_pinned := ca_pinned (abs s) - {b},
         ca_disk := (ca_disk (abs s))(b := ?d), ca_trace := ca_trace (abs s) @ [(b, ?d)]\<rparr>"
      "\<And>k c. own s1 k c = own s k c"
    using wr_ok [OF p(1), of j b] j by (auto simp: p(2,3))
  obtain s2 where s2: "rel i s1 = Ok s2" "inv s2" "abs s2 = (abs s1)\<lparr>ca_held := ca_held (abs s1) - {a}\<rparr>"
      "\<And>k c. c \<noteq> a \<Longrightarrow> own s2 k c = own s1 k c"
    using rel_ok [OF s1(2), of i a] i assms(4,5) by (auto simp: s1(3,4))
  obtain s3 where s3: "rel j s2 = Ok s3" "inv s3" "abs s3 = (abs s2)\<lparr>ca_held := ca_held (abs s2) - {b}\<rparr>"
      "\<And>k c. c \<noteq> b \<Longrightarrow> own s3 k c = own s2 k c"
    using rel_ok [OF s2(2), of j b] j assms(4) by (auto simp: s2(3,4) s1(3,4))
  show ?thesis
    using s1(1) s2(1) s3 own_get [OF i] by (intro exI [of _ s3]) (simp add: s2(3,4) s1(3,4))
qed

text \<open>Two different blocks are read.\<close>

lemma read_two:
  assumes "inv s" and "a < ca_size (abs s)" and "b < ca_size (abs s)" and "a \<noteq> b"
    and "a \<notin> ca_held (abs s)" and "b \<notin> ca_held (abs s)"
    and "a \<in> ca_pinned (abs s) \<or> card (ca_held (abs s) \<union> ca_pinned (abs s)) < cap"
    and "b \<in> ca_pinned (abs s) \<or> card (insert a (ca_held (abs s)) \<union> ca_pinned (abs s)) < cap"
  shows "\<exists>i j s1 s2. rd a s = Ok (i, s1) \<and> rd b s1 = Ok (j, s2) \<and> inv s2
    \<and> abs s1 = (abs s)\<lparr>ca_held := insert a (ca_held (abs s))\<rparr>
    \<and> abs s2 = (abs s)\<lparr>ca_held := insert b (insert a (ca_held (abs s)))\<rparr> \<and> own s2 i a \<and> own s2 j b
    \<and> (\<forall>k c. own s k c \<longrightarrow> own s2 k c)"
proof -
  obtain i s1 where s1: "rd a s = Ok (i, s1)" "inv s1" "abs s1 = (abs s)\<lparr>ca_held := insert a (ca_held (abs s))\<rparr>"
      "own s1 i a" "\<And>j c. own s j c \<Longrightarrow> own s1 j c"
    using rd_ok [OF assms(1,2,5,7)] by blast
  obtain j s2 where "rd b s1 = Ok (j, s2)" "inv s2" "abs s2 = (abs s1)\<lparr>ca_held := insert b (ca_held (abs s1))\<rparr>"
      "own s2 j b" "\<And>j c. own s1 j c \<Longrightarrow> own s2 j c"
    using rd_ok [OF s1(2), of b] assms(3,4,6,8) by (auto simp: s1(3))
  then show ?thesis using s1
    by (intro exI [of _ i] exI [of _ j] exI [of _ s1] exI [of _ s2]) simp
qed

text \<open>A block is read and given back.\<close>

lemma read_back:
  assumes "inv s" and "b < ca_size (abs s)" and "b \<notin> ca_held (abs s)"
    and "b \<in> ca_pinned (abs s) \<or> card (ca_held (abs s) \<union> ca_pinned (abs s)) < cap"
  shows "\<exists>i s1 s2. rd b s = Ok (i, s1) \<and> get s1 i = ca_view (abs s) b \<and> rel i s1 = Ok s2 \<and> inv s2 \<and> abs s2 = abs s
    \<and> abs s1 = (abs s)\<lparr>ca_held := insert b (ca_held (abs s))\<rparr> \<and> (\<forall>j c. own s j c \<longrightarrow> own s2 j c)"
proof -
  obtain i s1 where s1: "rd b s = Ok (i, s1)" "inv s1" "abs s1 = (abs s)\<lparr>ca_held := insert b (ca_held (abs s))\<rparr>"
      "own s1 i b" "\<And>j c. own s j c \<Longrightarrow> own s1 j c"
    using rd_ok [OF assms(1-4)] by blast
  obtain s2 where s2: "rel i s1 = Ok s2" "inv s2" "abs s2 = (abs s1)\<lparr>ca_held := ca_held (abs s1) - {b}\<rparr>"
      "\<And>j c. c \<noteq> b \<Longrightarrow> own s2 j c = own s1 j c"
    using rel_ok [OF s1(2,4)] clean [OF assms(1,3)] by (auto simp: s1(3))
  have "own s2 j c" if "own s j c" for j c
  proof -
    have "c \<noteq> b" using own_held [OF that] assms(3) by auto
    then show ?thesis using s1(5) [OF that] s2(4) by simp
  qed
  moreover have "abs s2 = abs s" using assms(3) by (simp add: s2(3) s1(3))
  ultimately show ?thesis using s1 s2 own_get [OF s1(4)] by (intro exI [of _ i] exI [of _ s1] exI [of _ s2]) simp
qed

text \<open>A block is read, written to the disk with new contents, and given back.\<close>

lemma rewrite:
  assumes "inv s" and "b < ca_size (abs s)" and "b \<notin> ca_held (abs s)"
    and "b \<in> ca_pinned (abs s) \<or> card (ca_held (abs s) \<union> ca_pinned (abs s)) < cap"
  shows "\<exists>i s1 s2 s3. rd b s = Ok (i, s1) \<and> get s1 i = ca_view (abs s) b \<and> abs s1 = (abs s)\<lparr>ca_held := insert b (ca_held (abs s))\<rparr>
    \<and> wr i (put i d s1) = Ok s2 \<and> rel i s2 = Ok s3 \<and> inv s3
    \<and> abs s3 = (abs s)\<lparr>ca_view := (ca_view (abs s))(b := d), ca_pinned := ca_pinned (abs s) - {b},
         ca_disk := (ca_disk (abs s))(b := d), ca_trace := ca_trace (abs s) @ [(b, d)]\<rparr>"
proof -
  obtain i s1 where s1: "rd b s = Ok (i, s1)" "inv s1" "abs s1 = (abs s)\<lparr>ca_held := insert b (ca_held (abs s))\<rparr>"
      "own s1 i b"
    using rd_ok [OF assms] by blast
  have p: "inv (put i d s1)" "abs (put i d s1) = (abs s1)\<lparr>ca_view := (ca_view (abs s1))(b := d)\<rparr>" "own (put i d s1) i b"
    using put_ok [OF s1(2,4)] s1(4) by blast+
  obtain s2 where s2: "wr i (put i d s1) = Ok s2" "inv s2" "own s2 i b"
      "abs s2 = (abs s1)\<lparr>ca_view := (ca_view (abs s1))(b := d), ca_pinned := ca_pinned (abs s1) - {b},
         ca_disk := (ca_disk (abs s1))(b := d), ca_trace := ca_trace (abs s1) @ [(b, d)]\<rparr>"
    using wr_ok [OF p(1,3)] p(3) by (auto simp: p(2))
  obtain s3 where s3: "rel i s2 = Ok s3" "inv s3" "abs s3 = (abs s2)\<lparr>ca_held := ca_held (abs s2) - {b}\<rparr>"
    using rel_ok [OF s2(2,3)] by (auto simp: s2(4))
  have "insert b (ca_held (abs s)) - {b} = ca_held (abs s)" using assms(3) by auto
  then show ?thesis
    using s1 s2 s3 own_get [OF s1(4)]
    by (intro exI [of _ i] exI [of _ s1] exI [of _ s2] exI [of _ s3]) simp
qed

end

definition cache_abs :: "'a bcache_scheme \<Rightarrow> (int \<times> 'a) blocks" where
  "cache_abs s = \<lparr>ca_view = view s, ca_held = held s, ca_pinned = dirty s, ca_disk = memdisk s, ca_trace = dwrites s,
     ca_size = disksize s, ca_ctx = (fpid s, bcache.more s)\<rparr>"

lemma cache_abs_simps [simp]:
  "ca_view (cache_abs s) = view s" "ca_held (cache_abs s) = held s" "ca_pinned (cache_abs s) = dirty s"
  "ca_disk (cache_abs s) = memdisk s" "ca_trace (cache_abs s) = dwrites s" "ca_size (cache_abs s) = disksize s"
  by (simp_all add: cache_abs_def)

lemma cstep_abs:
  "cstep s s' V H D \<Longrightarrow> cache_abs s' = (cache_abs s)\<lparr>ca_view := V, ca_held := H, ca_pinned := D,
     ca_disk := memdisk s', ca_trace := dwrites s'\<rparr> \<and> bc_inv s'"
  by (simp add: cstep_def cache_abs_def)

lemma bc_clean:
  assumes inv: "bc_inv s" and "b \<notin> held s" and "b \<notin> dirty s"
  shows "view s b = memdisk s b"
proof (cases "slot (bufs s) b")
  case (Some i)
  have i: "i < NBUF" "holds_block b (bufs s i)" using slot_SomeD [OF Some] by auto
  then have "buf_ok (fpid s) (memdisk s) (disksize s) (bufs s i)"
    using bc_inv_ok [OF inv] by (simp add: bufs_ok_def)
  moreover have "\<not> bdirty (bufs s i)" "\<not> sl_locked (blk (bufs s i))"
    using assms(2,3) Some by (auto simp: held_def dirty_def)
  ultimately show ?thesis using i(2) Some by (simp add: view_def buf_ok_def holds_block_def)
qed (simp add: view_def)

interpretation bc: block_cache bc_inv cache_abs owns NBUF "\<lambda>s i. bdata (bufs s i)" "bread 1" setdata bwrite brelse
proof
  fix s :: "'a bcache_scheme" and b
  assume "bc_inv s" "b \<notin> ca_held (cache_abs s)" "b \<notin> ca_pinned (cache_abs s)"
  then show "ca_view (cache_abs s) b = ca_disk (cache_abs s) b" by (simp add: bc_clean)
next
  fix s :: "'a bcache_scheme" and b
  assume "bc_inv s" "b < ca_size (cache_abs s)" "b \<notin> ca_held (cache_abs s)"
    "b \<in> ca_pinned (cache_abs s) \<or> card (ca_held (cache_abs s) \<union> ca_pinned (cache_abs s)) < NBUF"
  then obtain i s' where i: "bread 1 b s = Ok (i, s')" and c: "cstep s s' (view s) (insert b (held s)) (dirty s)"
      and o: "owns s' i b" "\<forall>j c. owns s j c \<longrightarrow> owns s' j c" "memdisk s' = memdisk s" "dwrites s' = dwrites s"
    using bread_ok [of s b] by auto
  then show "\<exists>i s'. bread 1 b s = Ok (i, s') \<and> bc_inv s'
      \<and> cache_abs s' = (cache_abs s)\<lparr>ca_held := insert b (ca_held (cache_abs s))\<rparr>
      \<and> owns s' i b \<and> (\<forall>j c. owns s j c \<longrightarrow> owns s' j c)"
    using cstep_abs [OF c] by (intro exI [of _ i] exI [of _ s']) (simp add: cache_abs_def)
next
  fix s :: "'a bcache_scheme" and i b assume "owns s i b"
  then show "bdata (bufs s i) = ca_view (cache_abs s) b" "b \<in> ca_held (cache_abs s)"
    by (auto simp: owns_data owns_held)
next
  fix s :: "'a bcache_scheme" and i b d assume a: "bc_inv s" "owns s i b"
  then show "bc_inv (setdata i d s) \<and> cache_abs (setdata i d s) = (cache_abs s)\<lparr>ca_view := (ca_view (cache_abs s))(b := d)\<rparr>
      \<and> (\<forall>j c. owns (setdata i d s) j c = owns s j c)"
    using cstep_abs [OF setdata_ok(1) [OF a, of d]] setdata_ok(2-4) [OF a, of d] by (simp add: cache_abs_def)
next
  fix s :: "'a bcache_scheme" and i b assume a: "bc_inv s" "owns s i b"
  obtain s' where s': "bwrite i s = Ok s'" and c: "cstep s s' (view s) (held s) (dirty s - {b})"
      and o: "\<forall>j c. owns s' j c = owns s j c" "memdisk s' = (memdisk s)(b := view s b)"
        "dwrites s' = dwrites s @ [(b, view s b)]"
    using bwrite_ok [OF a] by blast
  then show "\<exists>s'. bwrite i s = Ok s' \<and> bc_inv s'
        \<and> cache_abs s' = (cache_abs s)\<lparr>ca_pinned := ca_pinned (cache_abs s) - {b},
             ca_disk := (ca_disk (cache_abs s))(b := ca_view (cache_abs s) b),
             ca_trace := ca_trace (cache_abs s) @ [(b, ca_view (cache_abs s) b)]\<rparr>
        \<and> (\<forall>j c. owns s' j c = owns s j c)"
    using cstep_abs [OF c] by (intro exI [of _ s']) (simp add: cache_abs_def)
next
  fix s :: "'a bcache_scheme" and i b assume a: "bc_inv s" "owns s i b"
    "b \<in> ca_pinned (cache_abs s) \<or> ca_view (cache_abs s) b = ca_disk (cache_abs s) b"
  then obtain s' where s': "brelse i s = Ok s'" and c: "cstep s s' (view s) (held s - {b}) (dirty s)"
      and o: "\<forall>j c. c \<noteq> b \<longrightarrow> owns s' j c = owns s j c" "memdisk s' = memdisk s" "dwrites s' = dwrites s"
    using brelse_ok [of s i b] by auto
  then show "\<exists>s'. brelse i s = Ok s' \<and> bc_inv s'
        \<and> cache_abs s' = (cache_abs s)\<lparr>ca_held := ca_held (cache_abs s) - {b}\<rparr>
        \<and> (\<forall>j c. c \<noteq> b \<longrightarrow> owns s' j c = owns s j c)"
    using cstep_abs [OF c] by (intro exI [of _ s']) (simp add: cache_abs_def)
qed

end
