(* ===== verification/Log.thy ===== *)
theory Log
  imports Bcache
begin

text \<open>
  The write-ahead log of project 3, \<open>log.c\<close>, with the project's \<open>sync\<close>: transactions are committed
  when the log is nearly full or when a process asks for it, not at the end of each one.  The
  fields of \<open>struct log\<close> are the components \<open>log_start\<close> to \<open>lh_block\<close> of the state; the header
  block is encoded in the bytes of its buffer, as in the code.  \<open>log_woken\<close> counts the calls of
  \<open>wakeup(&log)\<close>.  The 91 words of the in-memory header are a counter and a function; the code
  indexes the array below \<open>LOGSIZE\<close> only while the counter is at most \<open>LOGSIZE\<close>, which the
  theorems assume of a header read from the disk.
\<close>

definition LOGSIZE :: nat where "LOGSIZE = MAXOPBLOCKS * 3"

record superblock =
  sb_size :: u32
  sb_nblocks :: u32
  sb_ninodes :: u32
  sb_nlog :: u32
  sb_logstart :: u32
  sb_inodestart :: u32
  sb_bmapstart :: u32

record logd = bcache +
  log_start :: u32
  log_size :: int
  log_outstanding :: int
  log_committing :: bool
  log_dev :: u32
  lh_n :: int
  lh_block :: "nat \<Rightarrow> u32"
  log_woken :: nat

section \<open>Words in a block\<close>

definition get32 :: "block \<Rightarrow> nat \<Rightarrow> u32" where
  "get32 d o' = le_word (d o') (d (o' + 1)) (d (o' + 2)) (d (o' + 3))"

definition put32 :: "block \<Rightarrow> nat \<Rightarrow> u32 \<Rightarrow> block" where
  "put32 d o' v = d(o' := word_byte 0 v, o' + 1 := word_byte (Suc 0) v,
     o' + 2 := word_byte 2 v, o' + 3 := word_byte 3 v)"

lemma get32_put32 [simp]: "get32 (put32 d a v) a = v"
  by (simp add: get32_def put32_def)

lemma put32_other: "k < a \<or> a + 4 \<le> k \<Longrightarrow> put32 d a v k = d k"
  by (auto simp: put32_def)

lemma get32_put32_other: "a + 4 \<le> b \<or> b + 4 \<le> a \<Longrightarrow> get32 (put32 d a v) b = get32 d b"
  by (auto simp: get32_def put32_def)

section \<open>The operations\<close>

definition readsb :: "u32 \<Rightarrow> 'a bcache_scheme \<Rightarrow> (superblock \<times> 'a bcache_scheme) kres" where
  "readsb dev s = kbind (bread dev 1 s) (\<lambda>(b, s).
     let d = bdata (bufs s b);
         sb = \<lparr>sb_size = get32 d 0, sb_nblocks = get32 d 4, sb_ninodes = get32 d 8, sb_nlog = get32 d 12,
               sb_logstart = get32 d 16, sb_inodestart = get32 d 20, sb_bmapstart = get32 d 24\<rparr>
     in kbind (brelse b s) (\<lambda>s. Ok (sb, s)))"

definition install_step :: "nat \<Rightarrow> 'a logd_scheme \<Rightarrow> 'a logd_scheme kres" where
  "install_step tail s =
     kbind (bread (log_dev s) (log_start s + of_nat tail + 1) s) (\<lambda>(l, s).
     kbind (bread (log_dev s) (lh_block s tail) s) (\<lambda>(d, s).
     kbind (bwrite d (setdata d (bdata (bufs s l)) s)) (\<lambda>s.
     kbind (brelse l s) (brelse d))))"

definition install_trans :: "'a logd_scheme \<Rightarrow> 'a logd_scheme kres" where
  "install_trans s = kfold install_step [0..<nat (lh_n s)] s"

definition read_head :: "'a logd_scheme \<Rightarrow> 'a logd_scheme kres" where
  "read_head s = kbind (bread (log_dev s) (log_start s) s) (\<lambda>(b, s).
     let lh = bdata (bufs s b);
         s = s\<lparr>lh_n := sint (get32 lh 0)\<rparr>;
         s = fold (\<lambda>i s. s\<lparr>lh_block := (lh_block s)(i := get32 lh (4 + 4 * i))\<rparr>) [0..<nat (lh_n s)] s
     in brelse b s)"

definition put_head :: "int \<Rightarrow> (nat \<Rightarrow> u32) \<Rightarrow> block \<Rightarrow> block" where
  "put_head n blocks d = fold (\<lambda>i d. put32 d (4 + 4 * i) (blocks i)) [0..<nat n] (put32 d 0 (word_of_int n))"

definition write_head :: "'a logd_scheme \<Rightarrow> 'a logd_scheme kres" where
  "write_head s = kbind (bread (log_dev s) (log_start s) s) (\<lambda>(b, s).
     let s = setdata b (put_head (lh_n s) (lh_block s) (bdata (bufs s b))) s
     in kbind (bwrite b s) (brelse b))"

definition recover_from_log :: "'a logd_scheme \<Rightarrow> 'a logd_scheme kres" where
  "recover_from_log s =
     kbind (read_head s) (\<lambda>s.
     kbind (install_trans s) (\<lambda>s. write_head (s\<lparr>lh_n := 0\<rparr>)))"

definition initlog :: "u32 \<Rightarrow> 'a logd_scheme \<Rightarrow> 'a logd_scheme kres" where
  "initlog dev s =
     (if BSIZE \<le> 4 + 4 * LOGSIZE then Panic ''initlog: too big logheader''
      else kbind (readsb dev s) (\<lambda>(sb, s).
        recover_from_log (s\<lparr>log_start := sb_logstart sb, log_size := sint (sb_nlog sb), log_dev := dev\<rparr>)))"

definition begin_op :: "'a logd_scheme \<Rightarrow> 'a logd_scheme kres" where
  "begin_op s =
     (if log_committing s then Asleep ChLog
      else if int LOGSIZE < lh_n s + (log_outstanding s + 1) * int MAXOPBLOCKS then Asleep ChLog
      else Ok (s\<lparr>log_outstanding := log_outstanding s + 1\<rparr>))"

definition write_log_step :: "nat \<Rightarrow> 'a logd_scheme \<Rightarrow> 'a logd_scheme kres" where
  "write_log_step tail s =
     kbind (bread (log_dev s) (log_start s + of_nat tail + 1) s) (\<lambda>(to, s).
     kbind (bread (log_dev s) (lh_block s tail) s) (\<lambda>(from, s).
     kbind (bwrite to (setdata to (bdata (bufs s from)) s)) (\<lambda>s.
     kbind (brelse from s) (brelse to))))"

definition write_log :: "'a logd_scheme \<Rightarrow> 'a logd_scheme kres" where
  "write_log s = kfold write_log_step [0..<nat (lh_n s)] s"

definition commit :: "'a logd_scheme \<Rightarrow> 'a logd_scheme kres" where
  "commit s =
     (if 0 < lh_n s
      then kbind (write_log s) (\<lambda>s.
           kbind (write_head s) (\<lambda>s.
           kbind (install_trans s) (\<lambda>s. write_head (s\<lparr>lh_n := 0\<rparr>))))
      else Ok s)"

definition sync :: "'a logd_scheme \<Rightarrow> (int \<times> 'a logd_scheme) kres" where
  "sync s =
     (let n = lh_n s in
      kbind (commit (s\<lparr>log_committing := True\<rparr>)) (\<lambda>s.
      Ok (n, s\<lparr>log_committing := False, log_woken := log_woken s + 1\<rparr>)))"

definition end_op :: "'a logd_scheme \<Rightarrow> 'a logd_scheme kres" where
  "end_op s =
     (let s = s\<lparr>log_outstanding := log_outstanding s - 1\<rparr> in
      if log_committing s then Panic ''log.committing''
      else if 0 < log_outstanding s then Ok (s\<lparr>log_woken := log_woken s + 1\<rparr>)
      else if int LOGSIZE < lh_n s + int MAXOPBLOCKS then kbind (sync s) (\<lambda>(_, s). Ok s)
      else Ok s)"

text \<open>The loop of \<open>log_write\<close>: the first index that holds the block, or the number of entries.\<close>

definition log_slot :: "(nat \<Rightarrow> u32) \<Rightarrow> nat \<Rightarrow> u32 \<Rightarrow> nat" where
  "log_slot blocks n b = (case find (\<lambda>i. blocks i = b) [0..<n] of Some i \<Rightarrow> i | None \<Rightarrow> n)"

definition log_write :: "nat \<Rightarrow> 'a logd_scheme \<Rightarrow> 'a logd_scheme kres" where
  "log_write b s =
     (if int LOGSIZE \<le> lh_n s \<or> log_size s - 1 \<le> lh_n s then Panic ''too big a transaction''
      else if log_outstanding s < 1 then Panic ''log_write outside of trans''
      else let i = log_slot (lh_block s) (nat (lh_n s)) (bblockno (bufs s b));
               s = s\<lparr>lh_block := (lh_block s)(i := bblockno (bufs s b))\<rparr>;
               s = (if int i = lh_n s then s\<lparr>lh_n := lh_n s + 1\<rparr> else s)
           in Ok (updb b (bdirty_update (\<lambda>_. True)) s))"

end
