(* ===== verification/Log_Ops.thy ===== *)
theory Log_Ops
  imports Log
begin

text \<open>
  What the operations of the log do to the disk, as lists of block writes: the log blocks, the
  header, the home blocks, the header again.
\<close>

section \<open>Lists of writes\<close>

definition writes :: "(u32 \<times> block) list \<Rightarrow> (u32 \<Rightarrow> block) \<Rightarrow> u32 \<Rightarrow> block" where
  "writes ws D = foldl (\<lambda>D w. D(fst w := snd w)) D ws"

lemma writes_simps [simp]: "writes [] D = D" "writes ((b, d) # ws) D = writes ws (D(b := d))"
  by (simp_all add: writes_def)

lemma writes_append: "writes (vs @ ws) D = writes ws (writes vs D)"
  by (simp add: writes_def)

lemma writes_notin: "b \<notin> fst ` set ws \<Longrightarrow> writes ws D b = D b"
  by (induction ws arbitrary: D) (auto simp: writes_def)

lemma writes_in:
  assumes "b \<in> fst ` set ws" and "\<And>d'. (b, d') \<in> set ws \<Longrightarrow> d' = d"
  shows "writes ws D b = d"
  using assms
proof (induction ws arbitrary: D)
  case (Cons w ws)
  obtain c e where w: "w = (c, e)" by (cases w)
  show ?case
  proof (cases "b \<in> fst ` set ws")
    case True
    then show ?thesis using Cons w by simp
  next
    case False
    then show ?thesis using Cons.prems w writes_notin [OF False] by auto
  qed
qed simp

lemma take_subset_fst: "fst ` set (take k ws) \<subseteq> fst ` set ws"
  by (auto dest: in_set_takeD)

section \<open>Sequences of writes through the cache\<close>

definition copied :: "'a bcache_scheme \<Rightarrow> 'a bcache_scheme \<Rightarrow> (u32 \<times> block) list \<Rightarrow> bool" where
  "copied s s' ws \<longleftrightarrow> bc_inv s' \<and> cache_abs s' = (cache_abs s)\<lparr>ca_view := writes ws (view s),
     ca_disk := writes ws (memdisk s), ca_trace := dwrites s @ ws, ca_pinned := dirty s - fst ` set ws\<rparr>"

lemma copiedD:
  assumes "copied s s' ws"
  shows "bc_inv s'" "view s' = writes ws (view s)" "memdisk s' = writes ws (memdisk s)" "dwrites s' = dwrites s @ ws"
    "dirty s' = dirty s - fst ` set ws" "held s' = held s" "disksize s' = disksize s" "fpid s' = fpid s"
    "bcache.more s' = bcache.more s"
  using assms by (simp_all add: copied_def cache_abs_def)

lemma copied_refl: "bc_inv s \<Longrightarrow> copied s s []"
  by (simp add: copied_def cache_abs_def)

lemma copied_trans: "copied s t vs \<Longrightarrow> copied t u ws \<Longrightarrow> copied s u (vs @ ws)"
  by (auto simp: copied_def cache_abs_def writes_append)

lemma kfold_copied:
  assumes "copied s t ws" and "set (map fst ws) \<subseteq> A"
    and "\<And>x t ws. x \<in> set xs \<Longrightarrow> copied s t ws \<Longrightarrow> set (map fst ws) \<subseteq> A \<Longrightarrow>
      fst (w x) \<in> A \<and> (\<exists>t'. f x t = Ok t' \<and> copied t t' [w x])"
  shows "\<exists>t'. kfold f xs t = Ok t' \<and> copied s t' (ws @ map w xs)"
  using assms
proof (induction xs arbitrary: t ws)
  case (Cons x xs)
  obtain t1 where t1: "f x t = Ok t1" "copied t t1 [w x]" "fst (w x) \<in> A"
    using Cons.prems(3) [of x t ws] Cons.prems(1,2) by auto
  have "copied s t1 (ws @ [w x])" by (rule copied_trans [OF Cons.prems(1) t1(2)])
  then have "\<exists>t'. kfold f xs t1 = Ok t' \<and> copied s t' ((ws @ [w x]) @ map w xs)"
    using Cons.prems(2,3) t1(3) by (intro Cons.IH) auto
  then show ?case using t1(1) by simp
qed simp

text \<open>The fields of the log are outside the cache.\<close>

lemma log_same:
  assumes "bcache.more s' = bcache.more (s :: 'a logd_scheme)"
  shows "log_start s' = log_start s" "log_size s' = log_size s" "log_outstanding s' = log_outstanding s"
    "log_committing s' = log_committing s" "log_dev s' = log_dev s" "lh_n s' = lh_n s" "lh_block s' = lh_block s"
    "log_woken s' = log_woken s" "logd.more s' = logd.more s"
  using assms by (cases s; cases s'; simp)+

lemma bcache_of_log [simp]:
  "bufs (s\<lparr>lh_n := n\<rparr>) = bufs s" "memdisk (s\<lparr>lh_n := n\<rparr>) = memdisk s" "disksize (s\<lparr>lh_n := n\<rparr>) = disksize s"
  by simp_all

lemma view_log [simp]:
  "view (s\<lparr>lh_n := n\<rparr>) = view s" "view (s\<lparr>lh_block := f\<rparr>) = view s" "view (s\<lparr>log_committing := c\<rparr>) = view s"
  "view (s\<lparr>log_outstanding := z\<rparr>) = view s" "view (s\<lparr>log_woken := k\<rparr>) = view s"
  "view (s\<lparr>log_start := x, log_size := z, log_dev := y\<rparr>) = view s"
  by (rule ext, simp add: view_def split: option.split)+

lemma sets_log [simp]:
  "held (s\<lparr>lh_n := n\<rparr>) = held s" "held (s\<lparr>lh_block := f\<rparr>) = held s" "held (s\<lparr>log_committing := c\<rparr>) = held s"
  "held (s\<lparr>log_outstanding := z\<rparr>) = held s" "held (s\<lparr>log_woken := k\<rparr>) = held s"
  "held (s\<lparr>log_start := x, log_size := z, log_dev := y\<rparr>) = held s"
  "dirty (s\<lparr>lh_n := n\<rparr>) = dirty s" "dirty (s\<lparr>lh_block := f\<rparr>) = dirty s" "dirty (s\<lparr>log_committing := c\<rparr>) = dirty s"
  "dirty (s\<lparr>log_outstanding := z\<rparr>) = dirty s" "dirty (s\<lparr>log_woken := k\<rparr>) = dirty s"
  "dirty (s\<lparr>log_start := x, log_size := z, log_dev := y\<rparr>) = dirty s"
  by (simp_all add: held_def dirty_def)

lemma inv_log [simp]:
  "bc_inv (s\<lparr>lh_n := n\<rparr>) = bc_inv s" "bc_inv (s\<lparr>lh_block := f\<rparr>) = bc_inv s" "bc_inv (s\<lparr>log_committing := c\<rparr>) = bc_inv s"
  "bc_inv (s\<lparr>log_outstanding := z\<rparr>) = bc_inv s" "bc_inv (s\<lparr>log_woken := k\<rparr>) = bc_inv s"
  "bc_inv (s\<lparr>log_start := x, log_size := z, log_dev := y\<rparr>) = bc_inv s"
  by (simp_all add: bc_inv_def)

lemma owns_log [simp]:
  "owns (s\<lparr>lh_n := n\<rparr>) i b = owns s i b" "owns (s\<lparr>lh_block := f\<rparr>) i b = owns s i b"
  by (simp_all add: owns_def)

section \<open>The layout of the disk\<close>

text \<open>
  The log is \<open>LOGSIZE\<close> blocks from \<open>log_start\<close>, as \<open>mkfs\<close> lays it out (\<open>nlog\<close> is \<open>LOGSIZE\<close>, the inodes
  follow): the header and at most \<open>LOGSIZE - 1\<close> logged blocks.
\<close>

definition log_region :: "'a logd_scheme \<Rightarrow> u32 set" where
  "log_region s = {b. unat (log_start s) \<le> unat b \<and> unat b < unat (log_start s) + LOGSIZE}"

definition home :: "'a logd_scheme \<Rightarrow> u32 \<Rightarrow> bool" where
  "home s b \<longleftrightarrow> b < disksize s \<and> b \<notin> log_region s \<and> b \<noteq> 1"

definition log_layout :: "'a logd_scheme \<Rightarrow> bool" where
  "log_layout s \<longleftrightarrow> log_dev s = 1 \<and> 1 < unat (log_start s) \<and> unat (log_start s) + LOGSIZE < unat (disksize s)"

definition logged :: "'a logd_scheme \<Rightarrow> u32 set" where
  "logged s = lh_block s ` {..<nat (lh_n s)}"

definition log_wf :: "'a logd_scheme \<Rightarrow> bool" where
  "log_wf s \<longleftrightarrow> log_layout s \<and> 0 \<le> lh_n s \<and> lh_n s < int LOGSIZE \<and> (\<forall>b\<in>logged s. home s b)"

lemma LOGSIZE_eq: "LOGSIZE = 90" "NBUF = 90"
  by (simp_all add: LOGSIZE_def MAXOPBLOCKS_def NBUF_def)

definition log_block :: "'a logd_scheme \<Rightarrow> nat \<Rightarrow> u32" where
  "log_block s i = log_start s + of_nat i + 1"

lemma unat_log_block:
  assumes "log_layout s" and "i < LOGSIZE"
  shows "unat (log_block s i) = unat (log_start s) + i + 1"
proof -
  have "unat (log_start s) + i + 1 < 2 ^ 32"
    using assms unsigned_less [of "disksize s", where 'a = nat] by (simp add: log_layout_def)
  moreover have "log_block s i = of_nat (unat (log_start s) + i + 1)"
    by (simp add: log_block_def add.assoc)
  ultimately show ?thesis by (simp only: unsigned_of_nat of_nat_id) (rule take_bit_nat_eq_self, simp)
qed

lemma log_block_in:
  assumes "log_layout s" and "Suc i < LOGSIZE"
  shows "log_block s i \<in> log_region s" "log_block s i < disksize s" "log_block s i \<noteq> log_start s" "\<not> home s (log_block s i)"
    "log_block s i \<noteq> 1"
proof -
  note u = unat_log_block [OF assms(1) Suc_lessD [OF assms(2)]]
  show r: "log_block s i \<in> log_region s"
    using u assms(2) by (simp add: log_region_def)
  show "log_block s i < disksize s" "log_block s i \<noteq> log_start s" "log_block s i \<noteq> 1"
    using u assms by (auto simp: word_less_nat_alt log_layout_def)
  show "\<not> home s (log_block s i)" using r by (simp add: home_def)
qed

lemma log_start_in:
  assumes "log_layout s"
  shows "log_start s \<in> log_region s" "log_start s < disksize s" "\<not> home s (log_start s)" "log_start s \<noteq> 1"
  using assms LOGSIZE_eq(1) by (auto simp: log_layout_def word_less_nat_alt log_region_def home_def)

lemma log_block_inj: "log_layout s \<Longrightarrow> i < LOGSIZE \<Longrightarrow> j < LOGSIZE \<Longrightarrow> log_block s i = log_block s j \<longleftrightarrow> i = j"
  by (metis unat_log_block add_right_cancel add_left_cancel)

lemma log_wf_index: "log_wf s \<Longrightarrow> i < nat (lh_n s) \<Longrightarrow> Suc i < LOGSIZE"
  by (auto simp: log_wf_def)

section \<open>One copy\<close>

lemma log_region_more:
  assumes "bcache.more t = bcache.more (s :: 'a logd_scheme)" and "disksize t = disksize s"
  shows "log_region t = log_region s" "home t = home s" "log_layout t = log_layout s" "logged t = logged s"
    "log_wf t = log_wf s" "log_block t = log_block s"
  using log_same [OF assms(1)] assms(2)
  by (simp_all add: log_region_def home_def log_layout_def logged_def log_wf_def log_block_def fun_eq_iff)

lemma card_dirty_step:
  assumes "dirty t = dirty s - F" and "card (dirty s) < NBUF" and "b \<in> dirty s \<or> dirty s = {}"
  shows "b \<in> dirty t \<or> card (insert a (dirty t)) < NBUF"
proof (cases "b \<in> dirty t")
  case False
  show ?thesis
  proof (cases "dirty s = {}")
    case True
    then have "dirty t = {}" using assms(1) by auto
    then show ?thesis by (simp add: LOGSIZE_eq)
  next
    case ne: False
    then have "dirty t \<subseteq> dirty s - {b}" using False assms(1) by auto
    moreover have "finite (dirty s)" by (rule finite_dirty)
    ultimately have "card (dirty t) \<le> card (dirty s - {b})" by (intro card_mono) auto
    also have "\<dots> < card (dirty s)"
      using ne assms(3) finite_dirty [of s] by (intro card_Diff1_less) auto
    finally have "card (dirty t) + 1 < NBUF" using assms(2) by simp
    moreover have "card (insert a (dirty t)) \<le> card (dirty t) + 1"
      using finite_dirty [of t] by (simp add: card_insert_if)
    ultimately show ?thesis by simp
  qed
qed simp

lemma copied_step:
  assumes "bc_inv s'" and "held s = {}" and "b \<notin> dirty s \<or> F = {b}"
    and "cache_abs s' = (cache_abs s)\<lparr>ca_view := (view s)(b := d), ca_held := {}, ca_pinned := dirty s - {b},
       ca_disk := (memdisk s)(b := d), ca_trace := dwrites s @ [(b, d)]\<rparr>"
  shows "copied s s' [(b, d)]"
  using assms by (simp add: copied_def cache_abs_def)

lemma no_held: "{a, b} - {a} - {b} = {}" "{a, b} - {b} - {a} = {}"
  by auto

lemma write_log_step_ok:
  assumes inv: "bc_inv s" and wf: "log_wf s" and h: "held s = {}" and i: "i < nat (lh_n s)"
    and c: "card (dirty s) < NBUF" and p: "lh_block s i \<in> dirty s"
  shows "\<exists>s'. write_log_step i s = Ok s' \<and> copied s s' [(log_block s i, view s (lh_block s i))]"
proof -
  have L: "log_layout s" "Suc i < LOGSIZE" "home s (lh_block s i)"
    using wf i by (auto simp: log_wf_def logged_def)
  have dev: "log_dev s = 1" using L(1) by (simp add: log_layout_def)
  note b = log_block_in [OF L(1,2)]
  have ne: "log_block s i \<noteq> lh_block s i" using b(4) L(3) by auto
  have "lh_block s i < disksize s" using L(3) by (simp add: home_def)
  then obtain x y s1 s2 where r: "bread 1 (log_block s i) s = Ok (x, s1)" "bread 1 (lh_block s i) s1 = Ok (y, s2)"
      "bc_inv s2" "cache_abs s1 = (cache_abs s)\<lparr>ca_held := insert (log_block s i) {}\<rparr>"
      "cache_abs s2 = (cache_abs s)\<lparr>ca_held := insert (lh_block s i) (insert (log_block s i) {})\<rparr>"
      "owns s2 x (log_block s i)" "owns s2 y (lh_block s i)"
    using bc.read_two [OF inv, of "log_block s i" "lh_block s i"] b(2) ne h c p by auto
  have s1: "bcache.more s1 = bcache.more s" using r(4) by (simp add: cache_abs_def)
  have v: "view s2 = view s" "dirty s2 = dirty s" "memdisk s2 = memdisk s" "dwrites s2 = dwrites s"
    using r(5) by (simp_all add: cache_abs_def)
  obtain s3 where s3: "kbind (bwrite x (setdata x (bdata (bufs s2 y)) s2)) (\<lambda>s. kbind (brelse y s) (brelse x)) = Ok s3"
      "bc_inv s3" "cache_abs s3 = (cache_abs s)\<lparr>ca_view := (view s)(log_block s i := view s (lh_block s i)), ca_held := {},
         ca_pinned := dirty s - {log_block s i}, ca_disk := (memdisk s)(log_block s i := view s (lh_block s i)),
         ca_trace := dwrites s @ [(log_block s i, view s (lh_block s i))]\<rparr>"
    using bc.copy_out [OF r(3,7,6)] ne p by (auto simp: r(5) no_held)
  have "write_log_step i s = Ok s3"
    using r(1,2) s3(1) log_same(5,7) [OF s1] by (simp add: write_log_step_def dev log_block_def [symmetric])
  then show ?thesis using copied_step [OF s3(2) h _ s3(3), of "{log_block s i}"] by blast
qed

lemma install_step_ok:
  assumes inv: "bc_inv s" and wf: "log_wf s" and h: "held s = {}" and i: "i < nat (lh_n s)"
    and c: "card (dirty s) < NBUF" and p: "lh_block s i \<in> dirty s \<or> card (insert (log_block s i) (dirty s)) < NBUF"
    and nl: "log_block s i \<notin> dirty s"
  shows "\<exists>s'. install_step i s = Ok s' \<and> copied s s' [(lh_block s i, view s (log_block s i))]"
proof -
  have L: "log_layout s" "Suc i < LOGSIZE" "home s (lh_block s i)"
    using wf i by (auto simp: log_wf_def logged_def)
  have dev: "log_dev s = 1" using L(1) by (simp add: log_layout_def)
  note b = log_block_in [OF L(1,2)]
  have ne: "log_block s i \<noteq> lh_block s i" using b(4) L(3) by auto
  have "lh_block s i < disksize s" using L(3) by (simp add: home_def)
  then obtain l d s1 s2 where r: "bread 1 (log_block s i) s = Ok (l, s1)" "bread 1 (lh_block s i) s1 = Ok (d, s2)"
      "bc_inv s2" "cache_abs s1 = (cache_abs s)\<lparr>ca_held := insert (log_block s i) {}\<rparr>"
      "cache_abs s2 = (cache_abs s)\<lparr>ca_held := insert (lh_block s i) (insert (log_block s i) {})\<rparr>"
      "owns s2 l (log_block s i)" "owns s2 d (lh_block s i)"
    using bc.read_two [OF inv, of "log_block s i" "lh_block s i"] b(2) ne h c p by auto
  have s1: "bcache.more s1 = bcache.more s" using r(4) by (simp add: cache_abs_def)
  have v: "view s (log_block s i) = memdisk s (log_block s i)" using bc_clean [OF inv] h nl by simp
  obtain s3 where s3: "kbind (bwrite d (setdata d (bdata (bufs s2 l)) s2)) (\<lambda>s. kbind (brelse l s) (brelse d)) = Ok s3"
      "bc_inv s3" "cache_abs s3 = (cache_abs s)\<lparr>ca_view := (view s)(lh_block s i := view s (log_block s i)), ca_held := {},
         ca_pinned := dirty s - {lh_block s i}, ca_disk := (memdisk s)(lh_block s i := view s (log_block s i)),
         ca_trace := dwrites s @ [(lh_block s i, view s (log_block s i))]\<rparr>"
    using bc.copy_out [OF r(3,6,7)] ne v by (auto simp: r(5) no_held)
  have "install_step i s = Ok s3"
    using r(1,2) s3(1) log_same(5,7) [OF s1] by (simp add: install_step_def dev log_block_def [symmetric])
  then show ?thesis using copied_step [OF s3(2) h _ s3(3), of "{lh_block s i}"] by blast
qed

lemma write_head_ok:
  assumes inv: "bc_inv s" and L: "log_layout s" and h: "held s = {}" and c: "card (dirty s) < NBUF"
  shows "\<exists>s'. write_head s = Ok s' \<and> copied s s' [(log_start s, put_head (lh_n s) (lh_block s) (view s (log_start s)))]"
proof -
  let ?d = "put_head (lh_n s) (lh_block s) (view s (log_start s))"
  have dev: "log_dev s = 1" using L by (simp add: log_layout_def)
  obtain i s1 s2 s3 where r: "bread 1 (log_start s) s = Ok (i, s1)" "bdata (bufs s1 i) = view s (log_start s)"
      "cache_abs s1 = (cache_abs s)\<lparr>ca_held := {log_start s}\<rparr>"
      "bwrite i (setdata i ?d s1) = Ok s2" "brelse i s2 = Ok s3" "bc_inv s3"
      "cache_abs s3 = (cache_abs s)\<lparr>ca_view := (view s)(log_start s := ?d), ca_pinned := dirty s - {log_start s},
         ca_disk := (memdisk s)(log_start s := ?d), ca_trace := dwrites s @ [(log_start s, ?d)]\<rparr>"
    using bc.rewrite [OF inv, of "log_start s" ?d] log_start_in(2) [OF L] h c by auto
  have s1: "bcache.more s1 = bcache.more s" using r(3) by (simp add: cache_abs_def)
  have "write_head s = Ok s3"
    using r(1,2,4,5) log_same(6,7) [OF s1] by (simp add: write_head_def dev Let_def)
  moreover have "copied s s3 [(log_start s, ?d)]"
    using r(6,7) h by (intro copied_step [of _ _ _ "{log_start s}"]) (auto simp: cache_abs_def)
  ultimately show ?thesis by blast
qed

section \<open>Whole passes\<close>

definition to_log :: "'a logd_scheme \<Rightarrow> (u32 \<times> block) list" where
  "to_log s = map (\<lambda>i. (log_block s i, view s (lh_block s i))) [0..<nat (lh_n s)]"

definition to_home :: "'a logd_scheme \<Rightarrow> (u32 \<times> block) list" where
  "to_home s = map (\<lambda>i. (lh_block s i, view s (log_block s i))) [0..<nat (lh_n s)]"

lemma fst_to_log: "log_wf s \<Longrightarrow> b \<in> fst ` set (to_log s) \<Longrightarrow> b \<in> log_region s \<and> b \<noteq> log_start s"
  by (auto simp: to_log_def log_wf_def log_block_in)

lemma fst_to_home: "fst ` set (to_home s) = logged s"
  by (simp add: to_home_def logged_def image_image atLeast0LessThan)

lemma logged_home: "log_wf s \<Longrightarrow> b \<in> logged s \<Longrightarrow> home s b"
  by (simp add: log_wf_def)

lemma copied_log:
  assumes "copied s t ws"
  shows "log_region t = log_region s" "home t = home s" "log_layout t = log_layout s" "logged t = logged s"
    "log_wf t = log_wf s" "log_block t = log_block s" "lh_n t = lh_n s" "lh_block t = lh_block s" "log_start t = log_start s"
  using log_region_more [OF copiedD(9,7) [OF assms]] log_same [OF copiedD(9) [OF assms]] by simp_all

lemma write_log_ok:
  assumes inv: "bc_inv s" and wf: "log_wf s" and h: "held s = {}" and c: "card (dirty s) < NBUF"
    and d: "logged s \<subseteq> dirty s"
  shows "\<exists>s'. write_log s = Ok s' \<and> copied s s' (to_log s)"
proof -
  let ?w = "\<lambda>i. (log_block s i, view s (lh_block s i))"
  have L: "log_layout s" using wf by (simp add: log_wf_def)
  have step: "fst (?w i) \<in> log_region s \<and> (\<exists>t'. write_log_step i t = Ok t' \<and> copied t t' [?w i])"
    if i: "i \<in> set [0..<nat (lh_n s)]" and t: "copied s t ws" and ws: "set (map fst ws) \<subseteq> log_region s" for i t ws
  proof -
    note td = copiedD [OF t] and tl = copied_log [OF t]
    have lh: "lh_block s i \<in> logged s" using i by (auto simp: logged_def)
    have hm: "home s (lh_block s i)" by (rule logged_home [OF wf lh])
    then have n: "lh_block s i \<notin> fst ` set ws" using ws by (auto simp: home_def)
    then have v: "view t (lh_block s i) = view s (lh_block s i)" by (simp add: td(2) writes_notin)
    have "dirty t \<subseteq> dirty s" using td(5) by auto
    then have ct: "card (dirty t) < NBUF" using c card_mono [OF finite_dirty, of "dirty t" s] by simp
    have "lh_block t i \<in> dirty t" using lh d n td(5) by (auto simp: tl)
    then have "\<exists>t'. write_log_step i t = Ok t' \<and> copied t t' [(log_block t i, view t (lh_block t i))]"
      using i wf h ct td(1,6) by (intro write_log_step_ok) (simp_all add: tl)
    moreover have "log_block s i \<in> log_region s"
      using i wf by (intro log_block_in(1) [OF L]) (auto simp: log_wf_def)
    ultimately show ?thesis by (simp add: tl v)
  qed
  show ?thesis
    using kfold_copied [where A = "log_region s" and f = write_log_step and w = ?w and xs = "[0..<nat (lh_n s)]",
        OF copied_refl [OF inv], OF _ step]
    by (simp add: write_log_def to_log_def)
qed

lemma install_trans_ok:
  assumes inv: "bc_inv s" and wf: "log_wf s" and h: "held s = {}" and c: "card (dirty s) < NBUF"
    and d: "dirty s = {} \<or> dirty s = logged s"
  shows "\<exists>s'. install_trans s = Ok s' \<and> copied s s' (to_home s)"
proof -
  let ?w = "\<lambda>i. (lh_block s i, view s (log_block s i))"
  have L: "log_layout s" using wf by (simp add: log_wf_def)
  have step: "fst (?w i) \<in> logged s \<and> (\<exists>t'. install_step i t = Ok t' \<and> copied t t' [?w i])"
    if i: "i \<in> set [0..<nat (lh_n s)]" and t: "copied s t ws" and ws: "set (map fst ws) \<subseteq> logged s" for i t ws
  proof -
    note td = copiedD [OF t] and tl = copied_log [OF t]
    have lh: "lh_block s i \<in> logged s" using i by (auto simp: logged_def)
    have "\<not> home s (log_block s i)" using i wf by (intro log_block_in(4) [OF L]) (auto simp: log_wf_def)
    then have nl: "log_block s i \<notin> logged s" using logged_home [OF wf] by blast
    then have "log_block s i \<notin> fst ` set ws" using ws by auto
    then have v: "view t (log_block s i) = view s (log_block s i)" by (simp add: td(2) writes_notin)
    have "dirty t \<subseteq> dirty s" using td(5) by auto
    then have ct: "card (dirty t) < NBUF" and nd: "log_block s i \<notin> dirty t"
      using c d nl card_mono [OF finite_dirty, of "dirty t" s] by auto
    have "lh_block s i \<in> dirty t \<or> card (insert (log_block s i) (dirty t)) < NBUF"
      using d lh by (intro card_dirty_step [OF td(5) c]) auto
    then have "\<exists>t'. install_step i t = Ok t' \<and> copied t t' [(lh_block t i, view t (log_block t i))]"
      using i wf h ct nd td(1,6) by (intro install_step_ok) (simp_all add: tl)
    then show ?thesis using lh by (simp add: tl v)
  qed
  show ?thesis
    using kfold_copied [where A = "logged s" and f = install_step and w = ?w and xs = "[0..<nat (lh_n s)]",
        OF copied_refl [OF inv], OF _ step]
    by (simp add: install_trans_def to_home_def)
qed

section \<open>The header block\<close>

lemma get32_put32_word: "k \<noteq> a \<Longrightarrow> get32 (put32 d (4 + 4 * a) v) (4 + 4 * k) = get32 d (4 + 4 * k)"
  by (rule get32_put32_other) arith

lemma put_head_fold:
  assumes "distinct xs" and "\<And>i. i \<in> set xs \<Longrightarrow> i < m"
  shows "get32 (fold (\<lambda>i d. put32 d (4 + 4 * i) (B i)) xs d) 0 = get32 d 0"
    and "i \<in> set xs \<Longrightarrow> get32 (fold (\<lambda>i d. put32 d (4 + 4 * i) (B i)) xs d) (4 + 4 * i) = B i"
proof -
  have other: "k \<notin> set xs \<Longrightarrow> get32 (fold (\<lambda>i d. put32 d (4 + 4 * i) (B i)) xs d) (4 + 4 * k) = get32 d (4 + 4 * k)"
    for xs d k
    by (induction xs arbitrary: d) (simp_all add: get32_put32_word)
  show "get32 (fold (\<lambda>i d. put32 d (4 + 4 * i) (B i)) xs d) 0 = get32 d 0"
    by (induction xs arbitrary: d) (auto simp: get32_put32_other)
  show "get32 (fold (\<lambda>i d. put32 d (4 + 4 * i) (B i)) xs d) (4 + 4 * i) = B i" if "i \<in> set xs"
    using that assms(1)
  proof (induction xs arbitrary: d)
    case (Cons x xs)
    then show ?case by (cases "x = i") (auto simp: other)
  qed simp
qed

definition is_head :: "block \<Rightarrow> int \<Rightarrow> (nat \<Rightarrow> u32) \<Rightarrow> bool" where
  "is_head d n B \<longleftrightarrow> get32 d 0 = word_of_int n \<and> (\<forall>i<nat n. get32 d (4 + 4 * i) = B i)"

lemma put_head_is: "is_head (put_head n B d) n B"
  using put_head_fold [of "[0..<nat n]" "nat n"] by (simp add: is_head_def put_head_def)

end
