(* ===== verification/Log_Crash.thy ===== *)
theory Log_Crash
  imports Log_Ops
begin

text \<open>
  The log makes \<open>sync\<close> atomic.  The blocks that a commit writes are known in order; a crash
  leaves a prefix of them on the disk; booting from any prefix installs all of the transaction or
  nothing of it.
\<close>

section \<open>Commit\<close>

definition new_head :: "'a logd_scheme \<Rightarrow> block" where
  "new_head s = put_head (lh_n s) (lh_block s) (view s (log_start s))"

definition end_head :: "'a logd_scheme \<Rightarrow> block" where
  "end_head s = put_head 0 (lh_block s) (new_head s)"

definition install_writes :: "'a logd_scheme \<Rightarrow> (u32 \<times> block) list" where
  "install_writes s = map (\<lambda>i. (lh_block s i, view s (lh_block s i))) [0..<nat (lh_n s)]"

definition commit_writes :: "'a logd_scheme \<Rightarrow> (u32 \<times> block) list" where
  "commit_writes s = to_log s @ [(log_start s, new_head s)] @ install_writes s @ [(log_start s, end_head s)]"

lemma copied_set_n: "copied s t ws \<Longrightarrow> copied (s\<lparr>lh_n := m\<rparr>) (t\<lparr>lh_n := m\<rparr>) ws"
proof -
  assume c: "copied s t ws"
  have "bcache.more (t\<lparr>lh_n := m\<rparr>) = bcache.more (s\<lparr>lh_n := m\<rparr>)"
    using copiedD(9) [OF c] by (cases s; cases t) simp
  then show ?thesis using copiedD [OF c] by (simp add: copied_def cache_abs_def)
qed

lemma writes_to_log:
  assumes "log_wf s" and "i < nat (lh_n s)"
  shows "writes (to_log s) D (log_block s i) = view s (lh_block s i)"
proof (rule writes_in)
  show "log_block s i \<in> fst ` set (to_log s)" using assms(2) by (force simp: to_log_def)
  fix d assume "(log_block s i, d) \<in> set (to_log s)"
  then obtain j where "j < nat (lh_n s)" "log_block s i = log_block s j" "d = view s (lh_block s j)"
    by (auto simp: to_log_def)
  moreover have "nat (lh_n s) \<le> LOGSIZE" using assms(1) by (simp add: log_wf_def nat_le_iff)
  moreover from calculation have "i = j" using assms log_block_inj [of s i j] by (simp add: log_wf_def)
  ultimately show "d = view s (lh_block s i)" by simp
qed

lemma commit_ok:
  assumes inv: "bc_inv s" and wf: "log_wf s" and h: "held s = {}" and d: "dirty s = logged s"
    and c: "card (dirty s) < NBUF" and n: "0 < lh_n s"
  shows "\<exists>s'. commit s = Ok s' \<and> copied (s\<lparr>lh_n := 0\<rparr>) s' (commit_writes s)"
proof -
  have L: "log_layout s" using wf by (simp add: log_wf_def)
  have nr: "b \<in> logged s \<Longrightarrow> b \<notin> log_region s" for b using logged_home [OF wf] by (auto simp: home_def)
  have nstart: "log_start s \<notin> logged s" using log_start_in(1) [OF L] nr by blast
  obtain s1 where s1: "write_log s = Ok s1" "copied s s1 (to_log s)"
    using write_log_ok [OF inv wf h c] d by auto
  note d1 = copiedD [OF s1(2)] and l1 = copied_log [OF s1(2)]
  have dl: "dirty s1 = logged s" using d nr fst_to_log [OF wf] by (auto simp: d1(5))
  have v1: "view s1 (log_start s) = view s (log_start s)"
    using fst_to_log [OF wf] by (auto simp: d1(2) intro!: writes_notin)
  obtain s2 where s2: "write_head s1 = Ok s2" "copied s1 s2 [(log_start s, new_head s)]"
    using write_head_ok [of s1] d1(1,6) L h c d by (auto simp: l1 v1 dl new_head_def)
  note d2 = copiedD [OF s2(2)] and l2 = copied_log [OF s2(2)]
  have dl2: "dirty s2 = logged s" using nstart by (auto simp: d2(5) dl)
  have "to_home s2 = install_writes s"
  proof -
    have "view s2 (log_block s i) = view s (lh_block s i)" if "i < nat (lh_n s)" for i
    proof -
      have "log_block s i \<noteq> log_start s" using that wf by (intro log_block_in(3) [OF L]) (auto simp: log_wf_def)
      then show ?thesis using writes_to_log [OF wf that] by (simp add: d2(2) d1(2))
    qed
    then show ?thesis by (simp add: to_home_def install_writes_def l1 l2)
  qed
  then obtain s3 where s3: "install_trans s2 = Ok s3" "copied s2 s3 (install_writes s)"
    using install_trans_ok [of s2] d2(1,6) d1(6) wf h c d by (auto simp: l1 l2 dl2)
  note d3 = copiedD [OF s3(2)] and l3 = copied_log [OF s3(2)]
  have v3: "view s3 (log_start s) = new_head s"
  proof -
    have "log_start s \<notin> fst ` set (install_writes s)" using nstart by (auto simp: install_writes_def logged_def)
    then show ?thesis by (simp add: d3(2) d2(2) writes_notin)
  qed
  have c3: "copied s s3 (to_log s @ [(log_start s, new_head s)] @ install_writes s)"
    using copied_trans [OF copied_trans [OF s1(2) s2(2)] s3(2)] by simp
  have "log_layout (s3\<lparr>lh_n := 0\<rparr>)" using L by (simp add: log_layout_def l3 [unfolded l2 l1] copiedD(7) [OF c3]
        log_same(5) [OF copiedD(9) [OF c3]])
  moreover have "dirty s3 \<subseteq> dirty s" using copiedD(5) [OF c3] by auto
  then have "card (dirty s3) < NBUF" using c card_mono [OF finite_dirty, of "dirty s3" s] by simp
  ultimately obtain s4 where s4: "write_head (s3\<lparr>lh_n := 0\<rparr>) = Ok s4" "copied (s3\<lparr>lh_n := 0\<rparr>) s4 [(log_start s, end_head s)]"
    using write_head_ok [of "s3\<lparr>lh_n := 0\<rparr>"] copiedD(1,6) [OF c3] h
    by (auto simp: end_head_def v3 copied_log [OF c3])
  have "commit s = Ok s4" using n s1(1) s2(1) s3(1) s4(1) by (simp add: commit_def)
  then show ?thesis using copied_trans [OF copied_set_n [OF c3] s4(2)] by (auto simp: commit_writes_def)
qed

lemma fst_commit_writes: "log_wf s \<Longrightarrow> b \<in> fst ` set (commit_writes s) \<Longrightarrow> b \<in> log_region s \<or> b \<in> logged s"
  using log_start_in(1) [of s] fst_to_log [of s b]
  by (auto simp: commit_writes_def install_writes_def logged_def log_wf_def)

section \<open>Recovery\<close>

lemma readsb_ok:
  assumes inv: "bc_inv s" and "1 < disksize s" and h: "held s = {}" and d: "dirty s = {}"
  shows "\<exists>s'. readsb 1 s = Ok (\<lparr>sb_size = get32 (memdisk s 1) 0, sb_nblocks = get32 (memdisk s 1) 4,
      sb_ninodes = get32 (memdisk s 1) 8, sb_nlog = get32 (memdisk s 1) 12, sb_logstart = get32 (memdisk s 1) 16,
      sb_inodestart = get32 (memdisk s 1) 20, sb_bmapstart = get32 (memdisk s 1) 24\<rparr>, s')
    \<and> bc_inv s' \<and> cache_abs s' = cache_abs s"
proof -
  have v: "view s 1 = memdisk s 1" using bc_clean [OF inv] h d by simp
  obtain i s1 s2 where r: "bread 1 1 s = Ok (i, s1)" "bdata (bufs s1 i) = memdisk s 1" "brelse i s1 = Ok s2" "bc_inv s2"
      "cache_abs s2 = cache_abs s"
    using bc.read_back [OF inv, of 1] assms(2) h d v by (auto simp: LOGSIZE_eq)
  then show ?thesis by (simp add: readsb_def Let_def)
qed

text \<open>The state of the kernel when \<open>initlog\<close> runs: nothing is cached.\<close>

definition boot_cache :: "'a bcache_scheme \<Rightarrow> bool" where
  "boot_cache s \<longleftrightarrow> bc_inv s \<and> held s = {} \<and> dirty s = {}"

lemma read_head_fold:
  "fold (\<lambda>i s. s\<lparr>lh_block := (lh_block s)(i := get32 d (4 + 4 * i))\<rparr>) xs s
    = s\<lparr>lh_block := (\<lambda>i. if i \<in> set xs then get32 d (4 + 4 * i) else lh_block s i)\<rparr>"
  by (induction xs arbitrary: s) (auto simp: fun_eq_iff)

lemma read_head_ok:
  assumes b: "boot_cache s" and L: "log_layout s" and hd: "is_head (memdisk s (log_start s)) n B" "0 \<le> n" "n < int LOGSIZE"
  shows "\<exists>B' s'. read_head s = Ok s' \<and> boot_cache s' \<and> (\<forall>i<nat n. B' i = B i)
    \<and> cache_abs s' = cache_abs (s\<lparr>lh_n := n, lh_block := B'\<rparr>)"
proof -
  have inv: "bc_inv s" "held s = {}" "dirty s = {}" using b by (simp_all add: boot_cache_def)
  have dev: "log_dev s = 1" using L by (simp add: log_layout_def)
  let ?d = "memdisk s (log_start s)"
  obtain i s1 where r: "bread 1 (log_start s) s = Ok (i, s1)" "bc_inv s1" "owns s1 i (log_start s)"
      "cache_abs s1 = (cache_abs s)\<lparr>ca_held := {log_start s}\<rparr>"
    using bc.rd_ok [OF inv(1), of "log_start s"] log_start_in(2) [OF L] inv by (auto simp: LOGSIZE_eq)
  have m: "view s1 = view s" "dirty s1 = {}" "memdisk s1 = memdisk s" "held s1 = {log_start s}"
      "bcache.more s1 = bcache.more s" "fpid s1 = fpid s" "disksize s1 = disksize s" "dwrites s1 = dwrites s"
    using r(4) inv by (simp_all add: cache_abs_def)
  have d: "bdata (bufs s1 i) = ?d"
    using owns_data [OF r(3)] bc_clean [OF inv(1), of "log_start s"] inv by (simp add: m)
  have n: "sint (get32 ?d 0) = n"
  proof -
    have "sint (word_of_int n :: u32) = n"
      using hd(2,3) by (simp add: LOGSIZE_eq signed_of_int signed_take_bit_int_eq_self)
    then show ?thesis using hd(1) by (simp add: is_head_def)
  qed
  define B' where "B' i = (if i \<in> set [0..<nat n] then get32 ?d (4 + 4 * i) else lh_block s i)" for i
  let ?s = "s1\<lparr>lh_n := n, lh_block := B'\<rparr>"
  have o: "bc_inv ?s" "owns ?s i (log_start s)" using r(2,3) by simp_all
  obtain s2 where s2: "brelse i ?s = Ok s2" "bc_inv s2" "cache_abs s2 = (cache_abs ?s)\<lparr>ca_held := held s1 - {log_start s}\<rparr>"
    using bc.rel_ok [OF o] bc_clean [OF inv(1), of "log_start s"] inv by (auto simp: m)
  have "bcache.more ?s = bcache.more (s\<lparr>lh_n := n, lh_block := B'\<rparr>)"
    using m(5) by (cases s; cases s1) simp
  then have "cache_abs s2 = cache_abs (s\<lparr>lh_n := n, lh_block := B'\<rparr>)"
    using s2(3) inv by (simp add: cache_abs_def m)
  moreover have "read_head s = Ok s2"
    using s2(1) log_same(7) [OF m(5)]
    by (simp add: read_head_def r(1) dev d n read_head_fold Let_def B'_def [abs_def] cong: if_cong)
  moreover have "boot_cache s2" using s2 inv by (simp add: boot_cache_def cache_abs_def m)
  moreover have "B' j = B j" if "j < nat n" for j using hd(1) that by (simp add: B'_def is_head_def)
  ultimately show ?thesis by blast
qed

lemma recover_ok:
  assumes b: "boot_cache s" and L: "log_layout s" and hd: "is_head (memdisk s (log_start s)) n B" "0 \<le> n" "n < int LOGSIZE"
    and hm: "\<And>i. i < nat n \<Longrightarrow> home s (B i)"
  shows "\<exists>s'. recover_from_log s = Ok s' \<and> boot_cache s' \<and> log_layout s' \<and> log_start s' = log_start s \<and> lh_n s' = 0
    \<and> disksize s' = disksize s \<and> get32 (memdisk s' (log_start s)) 0 = 0
    \<and> (\<forall>c. c \<noteq> log_start s \<longrightarrow>
         memdisk s' c = writes (map (\<lambda>i. (B i, memdisk s (log_block s i))) [0..<nat n]) (memdisk s) c)"
proof -
  obtain B' r where r: "read_head s = Ok r" "boot_cache r" "\<And>i. i < nat n \<Longrightarrow> B' i = B i"
      "cache_abs r = cache_abs (s\<lparr>lh_n := n, lh_block := B'\<rparr>)"
    using read_head_ok [OF b L hd] by blast
  let ?s = "s\<lparr>lh_n := n, lh_block := B'\<rparr>"
  have m: "bcache.more r = bcache.more ?s" "disksize r = disksize ?s" "memdisk r = memdisk s" "view r = view s"
    using r(4) by (simp_all add: cache_abs_def)
  have inv: "bc_inv r" "held r = {}" "dirty r = {}" using r(2) by (simp_all add: boot_cache_def)
  note f = log_same [OF m(1)] and g = log_region_more [OF m(1,2)]
  have hs: "home ?s = home s" "log_layout ?s = log_layout s" "log_block ?s = log_block s"
    by (simp_all add: home_def log_layout_def log_block_def fun_eq_iff log_region_def)
  have lg: "logged r = B ` {..<nat n}" using r(3) by (auto simp: logged_def f)
  have wf: "log_wf r" using L hd(2,3) hm lg by (auto simp: log_wf_def f g hs)
  obtain s1 where s1: "install_trans r = Ok s1" "copied r s1 (to_home r)"
    using install_trans_ok [OF inv(1) wf inv(2)] inv(3) by (auto simp: LOGSIZE_eq)
  note d1 = copiedD [OF s1(2)] and l1 = copied_log [OF s1(2)]
  have "view r c = memdisk s c" for c using bc_clean [OF inv(1), of c] inv by (simp add: m)
  then have th: "to_home r = map (\<lambda>i. (B i, memdisk s (log_block s i))) [0..<nat n]"
    using r(3) by (simp add: to_home_def f g hs)
  have dr: "dirty s1 = {}" using d1(5) inv(3) by simp
  have L1: "log_layout (s1\<lparr>lh_n := 0\<rparr>)"
    using l1(3) L by (simp add: g hs) (simp add: log_layout_def)
  obtain s2 where s2: "write_head (s1\<lparr>lh_n := 0\<rparr>) = Ok s2"
      "copied (s1\<lparr>lh_n := 0\<rparr>) s2 [(log_start s, put_head 0 (lh_block r) (view s1 (log_start s)))]"
    using write_head_ok [of "s1\<lparr>lh_n := 0\<rparr>"] L1 d1(1,6) inv dr by (auto simp: l1 f LOGSIZE_eq)
  note d2 = copiedD [OF s2(2)] and l2 = copied_log [OF s2(2)]
  have "recover_from_log s = Ok s2" using r(1) s1(1) s2(1) by (simp add: recover_from_log_def)
  moreover have "boot_cache s2" using d2(1,5,6) d1(6) inv dr by (simp add: boot_cache_def)
  moreover have "log_layout s2" using L1 by (simp add: l2)
  moreover have "get32 (memdisk s2 (log_start s)) 0 = 0"
    using put_head_is [of 0 "lh_block r"] by (simp add: d2(3) is_head_def)
  moreover have "memdisk s2 c = writes (map (\<lambda>i. (B i, memdisk s (log_block s i))) [0..<nat n]) (memdisk s) c"
    if "c \<noteq> log_start s" for c
    using that by (simp add: d2(3) d1(3) th m)
  moreover have "disksize s2 = disksize s" "log_start s2 = log_start s" "lh_n s2 = 0"
    using d2(7) d1(7) m(2) by (simp_all add: l2 l1 f)
  ultimately show ?thesis by blast
qed

section \<open>Booting\<close>

text \<open>\<open>s\<close> is the state before the crash: it says where the log is.\<close>

lemma initlog_ok:
  assumes b: "boot_cache s0" and sz: "disksize s0 = disksize s" and L: "log_layout s"
    and st: "get32 (memdisk s0 1) 16 = log_start s"
    and hd: "is_head (memdisk s0 (log_start s)) n B" "0 \<le> n" "n < int LOGSIZE"
    and hm: "\<And>i. i < nat n \<Longrightarrow> home s (B i)"
  shows "\<exists>s'. initlog 1 s0 = Ok s' \<and> boot_cache s' \<and> log_layout s' \<and> log_start s' = log_start s \<and> lh_n s' = 0
    \<and> disksize s' = disksize s \<and> get32 (memdisk s' (log_start s)) 0 = 0
    \<and> (\<forall>c. c \<noteq> log_start s \<longrightarrow>
         memdisk s' c = writes (map (\<lambda>i. (B i, memdisk s0 (log_block s i))) [0..<nat n]) (memdisk s0) c)"
proof -
  have "1 < disksize s0" using L sz by (simp add: log_layout_def word_less_nat_alt)
  then obtain sb s1 where r: "readsb 1 s0 = Ok (sb, s1)" "sb_logstart sb = log_start s" "bc_inv s1" "cache_abs s1 = cache_abs s0"
    using readsb_ok [of s0] b st by (auto simp: boot_cache_def)
  let ?s = "s1\<lparr>log_start := log_start s, log_size := sint (sb_nlog sb), log_dev := 1\<rparr>"
  have m: "memdisk s1 = memdisk s0" "disksize s1 = disksize s" "held s1 = {}" "dirty s1 = {}"
    using r(4) b sz by (simp_all add: cache_abs_def boot_cache_def)
  have "log_region ?s = log_region s" by (simp add: log_region_def)
  then have h: "home ?s = home s" "log_layout ?s = log_layout s" "log_block ?s = log_block s"
    using L by (simp_all add: home_def log_layout_def log_block_def fun_eq_iff m)
  have "boot_cache ?s" using r(3) m by (simp add: boot_cache_def)
  then obtain s' where "recover_from_log ?s = Ok s'" "boot_cache s'" "log_layout s'" "log_start s' = log_start s" "lh_n s' = 0"
      "disksize s' = disksize s" "get32 (memdisk s' (log_start s)) 0 = 0"
      "\<forall>c. c \<noteq> log_start s \<longrightarrow>
         memdisk s' c = writes (map (\<lambda>i. (B i, memdisk s0 (log_block s i))) [0..<nat n]) (memdisk s0) c"
    using recover_ok [of ?s n B] L hd hm by (auto simp: h m)
  then show ?thesis using r(1,2) by (simp add: initlog_def LOGSIZE_eq BSIZE_def)
qed

section \<open>The invariant of the log\<close>

definition log_inv :: "'a logd_scheme \<Rightarrow> bool" where
  "log_inv s \<longleftrightarrow> bc_inv s \<and> log_wf s \<and> log_size s \<le> int LOGSIZE \<and> lh_n s < int LOGSIZE \<and> dirty s = logged s
     \<and> get32 (memdisk s (log_start s)) 0 = 0 \<and> get32 (memdisk s 1) 16 = log_start s"

lemma log_invD:
  assumes "log_inv s"
  shows "bc_inv s" "log_wf s" "log_layout s" "dirty s = logged s" "card (dirty s) < NBUF"
    "is_head (memdisk s (log_start s)) 0 B" "get32 (memdisk s 1) 16 = log_start s" "0 \<le> lh_n s"
proof -
  show d: "bc_inv s" "log_wf s" "log_layout s" "dirty s = logged s" "get32 (memdisk s 1) 16 = log_start s" "0 \<le> lh_n s"
    using assms by (auto simp: log_inv_def log_wf_def)
  show "is_head (memdisk s (log_start s)) 0 B" using assms by (simp add: log_inv_def is_head_def)
  have "card (logged s) \<le> nat (lh_n s)" using card_image_le [of "{..<nat (lh_n s)}" "lh_block s"] by (simp add: logged_def)
  also have "\<dots> < NBUF" using assms by (auto simp: log_inv_def LOGSIZE_eq nat_less_iff)
  finally show "card (dirty s) < NBUF" by (simp add: d)
qed

definition sync_writes :: "'a logd_scheme \<Rightarrow> (u32 \<times> block) list" where
  "sync_writes s = (if 0 < lh_n s then commit_writes s else [])"

lemma writes_install:
  assumes "b \<in> logged s \<or> D b = view s b"
  shows "writes (install_writes s) D b = view s b"
proof (cases "b \<in> logged s")
  case True
  then have "b \<in> fst ` set (install_writes s)" by (force simp: install_writes_def logged_def)
  then show ?thesis by (rule writes_in) (auto simp: install_writes_def)
next
  case False
  then have "b \<notin> fst ` set (install_writes s)" by (auto simp: install_writes_def logged_def)
  then show ?thesis using assms False by (simp add: writes_notin)
qed

lemma sync_ok:
  assumes inv: "log_inv s" and h: "held s = {}"
  shows "\<exists>s'. sync s = Ok (lh_n s, s') \<and> log_inv s' \<and> held s' = {} \<and> lh_n s' = 0 \<and> dwrites s' = dwrites s @ sync_writes s
    \<and> memdisk s' = writes (sync_writes s) (memdisk s) \<and> (\<forall>b. home s b \<longrightarrow> view s' b = view s b \<and> memdisk s' b = view s b)
    \<and> home s' = home s \<and> log_outstanding s' = log_outstanding s \<and> log_size s' = log_size s \<and> \<not> log_committing s'
    \<and> log_woken s' = log_woken s + 1 \<and> logd.more s' = logd.more s \<and> fpid s' = fpid s \<and> disksize s' = disksize s"
proof (cases "0 < lh_n s")
  case False
  then have n: "lh_n s = 0" using log_invD(8) [OF inv] by simp
  then have "dirty s = {}" using log_invD(4) [OF inv] by (simp add: logged_def)
  then have v: "view s b = memdisk s b" for b using bc_clean [OF log_invD(1) [OF inv], of b] h by simp
  let ?s = "s\<lparr>log_committing := False, log_woken := log_woken s + 1\<rparr>"
  have "log_inv ?s" using inv by (simp add: log_inv_def log_wf_def log_layout_def logged_def home_def log_region_def)
  moreover have "sync s = Ok (lh_n s, ?s)" using n by (simp add: sync_def commit_def)
  ultimately show ?thesis
    using n h v by (intro exI [of _ ?s]) (simp add: sync_writes_def home_def log_region_def fun_eq_iff)
next
  case True
  let ?c = "s\<lparr>log_committing := True\<rparr>"
  have c: "log_wf ?c" "logged ?c = logged s" "home ?c = home s" "log_block ?c = log_block s"
    "commit_writes ?c = commit_writes s"
    using log_invD(2) [OF inv]
    by (simp_all add: log_wf_def log_layout_def logged_def home_def log_region_def log_block_def fun_eq_iff
        commit_writes_def to_log_def install_writes_def end_head_def new_head_def)
  obtain t where t: "commit ?c = Ok t" "copied (?c\<lparr>lh_n := 0\<rparr>) t (commit_writes s)"
    using commit_ok [of ?c] log_invD [OF inv] h True c by auto
  note td = copiedD [OF t(2)] and tl = copied_log [OF t(2)] and ts = log_same [OF copiedD(9) [OF t(2)]]
  let ?s = "t\<lparr>log_committing := False, log_woken := log_woken t + 1\<rparr>"
  have L: "log_layout s" and wf: "log_wf s" using log_invD [OF inv] by auto
  have nr: "home s b \<Longrightarrow> b \<notin> log_region s" for b by (simp add: home_def)
  have lg: "logged s \<subseteq> fst ` set (commit_writes s)" by (force simp: commit_writes_def install_writes_def logged_def)
  have dt: "dirty t = {}" using td(5) log_invD(4) [OF inv] lg by auto
  have vb: "writes (commit_writes s) D b = view s b" if hb: "home s b" and D: "b \<in> logged s \<or> D b = view s b" for D b
  proof -
    have n: "b \<notin> fst ` set (to_log s)" "b \<noteq> log_start s"
      using fst_to_log [OF wf] log_start_in(1) [OF L] nr [OF hb] by blast+
    show ?thesis using D n by (simp add: commit_writes_def writes_append writes_install writes_notin)
  qed
  have md: "memdisk t b = view s b" if "home s b" for b
  proof -
    have "b \<in> logged s \<or> memdisk s b = view s b"
      using bc_clean [OF log_invD(1) [OF inv], of b] log_invD(4) [OF inv] h by auto
    then show ?thesis using vb [OF that, of "memdisk s"] by (simp add: td(3))
  qed
  have vt: "view t b = view s b" if "home s b" for b using vb [OF that, of "view s"] by (simp add: td(2))
  have "get32 (memdisk t (log_start s)) 0 = 0"
    using put_head_is [of 0 "lh_block s" "new_head s"]
    by (simp add: td(3) commit_writes_def writes_append is_head_def end_head_def)
  moreover have "memdisk t 1 = memdisk s 1"
  proof -
    have "1 \<notin> log_region s" using L by (simp add: log_region_def log_layout_def)
    then have "1 \<notin> fst ` set (commit_writes s)"
      using fst_commit_writes [OF wf, of 1] logged_home [OF wf, of 1] by (auto simp: home_def)
    then show ?thesis by (simp add: td(3) writes_notin)
  qed
  ultimately have "log_inv ?s"
    using inv td(1,7) dt ts L
    by (simp add: log_inv_def log_wf_def log_layout_def logged_def home_def log_region_def)
  moreover have "sync s = Ok (lh_n s, ?s)" using t(1) by (simp add: sync_def Let_def)
  moreover have "home ?s = home s" using td(7) ts by (simp add: home_def log_region_def fun_eq_iff)
  ultimately show ?thesis
    using td h ts md vt True by (intro exI [of _ ?s]) (simp add: sync_writes_def)
qed

end
