(* ===== verification/Bcache_Props.thy ===== *)
theory Bcache_Props
  imports Bcache
begin

text \<open>
  The buffer cache as a whole: the outcome of each operation in every case, errors included, and
  the state that \<open>binit\<close> makes at boot.
\<close>

section \<open>The cases in which \<open>bread\<close> does not return\<close>

lemma bget_held:
  assumes inv: "bc_inv s" and i: "slot (bufs s) b = Some i" and l: "sl_locked (blk (bufs s i))"
  shows "bget 1 b s = Asleep (ChBuf i)"
proof -
  obtain xs where xs: "lru_ok (bufs s) xs" "bufs_ok (fpid s) (memdisk s) (disksize s) (bufs s)"
    using inv by (auto simp: bc_inv_def)
  show ?thesis
    using lru_ok_walk(1) [OF xs(1), of "\<lambda>i. holds_block b (bufs s i)"] find_lru [OF xs, of b] i l
    by (simp add: bget_def holds_eq lock_buf_def acquiresleep_def updb_def)
qed

text \<open>With as many blocks locked or pinned as there are buffers no buffer can be recycled.\<close>

lemma no_free_buffer:
  assumes ok: "bufs_ok p D n (bufs s)" and full: "NBUF \<le> card (held s \<union> dirty s)" and i: "i < NBUF"
  shows "sl_locked (blk (bufs s i)) \<or> bdirty (bufs s i)"
proof -
  let ?U = "held s \<union> dirty s" and ?f = "\<lambda>b. the (slot (bufs s) b)"
  have u: "slot (bufs s) b = Some (?f b) \<and> (sl_locked (blk (bufs s (?f b))) \<or> bdirty (bufs s (?f b)))" if "b \<in> ?U" for b
    using that by (auto simp: held_def dirty_def)
  have "inj_on ?f ?U"
  proof (rule inj_onI)
    fix b c assume b: "b \<in> ?U" and c: "c \<in> ?U" and e: "?f b = ?f c"
    have "holds_block b (bufs s (?f b))" "holds_block c (bufs s (?f c))"
      using u [OF b] u [OF c] slot_SomeD by blast+
    then show "b = c" using e by (simp add: holds_block_def)
  qed
  then have "card (?f ` ?U) = card ?U" by (rule card_image)
  moreover have sub: "?f ` ?U \<subseteq> {..<NBUF}" using u slot_SomeD by blast
  moreover have "card (?f ` ?U) \<le> NBUF" using card_mono [OF _ sub] by simp
  ultimately have "?f ` ?U = {..<NBUF}" using full by (intro card_subset_eq) auto
  then have "i \<in> ?f ` ?U" using i by simp
  then show ?thesis using u by auto
qed

lemma bget_full:
  assumes inv: "bc_inv s" and n: "b \<notin> held s" "b \<notin> dirty s" and full: "NBUF \<le> card (held s \<union> dirty s)"
  shows "bget 1 b s = Panic ''bget: no buffers''"
proof -
  obtain xs where xs: "lru_ok (bufs s) xs" "bufs_ok (fpid s) (memdisk s) (disksize s) (bufs s)"
    using inv by (auto simp: bc_inv_def)
  note used = no_free_buffer [OF xs(2) full]
  have "slot (bufs s) b = None"
  proof (rule ccontr)
    assume "slot (bufs s) b \<noteq> None"
    then obtain i where i: "slot (bufs s) b = Some i" by auto
    then show False using used slot_SomeD [OF i] n by (auto simp: held_def dirty_def)
  qed
  moreover have "brefcnt (bufs s i) \<noteq> 0 \<or> bdirty (bufs s i)" if "i < NBUF" for i
    using used [OF that] xs(2) that by (auto simp: bufs_ok_def buf_ok_def)
  then have "find (\<lambda>i. brefcnt (bufs s i) = 0 \<and> \<not> bdirty (bufs s i)) (rev xs) = None"
    using xs(1) by (auto simp: find_None_iff lru_ok_def)
  ultimately show ?thesis
    using lru_ok_walk [OF xs(1)] find_lru [OF xs, of b] by (simp add: bget_def holds_eq)
qed

lemma slot_in_range:
  assumes "bc_inv s" and "slot (bufs s) b = Some i"
  shows "b < disksize s"
proof -
  note i = slot_SomeD [OF assms(2)]
  then have "buf_ok (fpid s) (memdisk s) (disksize s) (bufs s i)"
    using bc_inv_ok [OF assms(1)] by (simp add: bufs_ok_def)
  then show ?thesis using i by (auto simp: buf_ok_def holds_block_def)
qed

lemma dirty_in_range: "bc_inv s \<Longrightarrow> b \<in> dirty s \<Longrightarrow> b < disksize s"
  using slot_in_range by (auto simp: dirty_def)

lemma bread_out_of_range:
  assumes inv: "bc_inv s" and b: "disksize s \<le> b" and room: "card (held s \<union> dirty s) < NBUF"
  shows "bread 1 b s = Panic ''iderw: block out of range''"
proof -
  have "slot (bufs s) b = None"
  proof (rule ccontr)
    assume "slot (bufs s) b \<noteq> None"
    then obtain i where i: "slot (bufs s) b = Some i" by auto
    then show False using slot_in_range [OF inv i] b by simp
  qed
  then obtain i where "bget 1 b s = Ok (i, updb i (\<lambda>r. held_by (fpid s) (r\<lparr>bdev := 1, bblockno := b, bvalid := False, bdirty := False\<rparr>)) s)"
    using bget_miss [OF inv _ room] by blast
  then show ?thesis using b by (simp add: bread_def iderw_def updb_def held_by_def holdingsleep_def)
qed

section \<open>Boot\<close>

definition zeroed :: "'a bcache_scheme \<Rightarrow> bool" where
  "zeroed s \<longleftrightarrow> (\<forall>i<NBUF. bdev (bufs s i) = 0 \<and> \<not> bdirty (bufs s i) \<and> brefcnt (bufs s i) = 0)"

lemma relinked_trans: "relinked B C \<Longrightarrow> relinked C D \<Longrightarrow> relinked B D"
  by (simp add: relinked_def)

lemma relinked_front: "relinked (bufs s) (bufs (link_front b s))"
  unfolding link_front_def Let_def by (intro relinked_step) (simp add: relinked_def)

lemma binit_bufs:
  "i < NBUF \<Longrightarrow> bdev (bufs (binit s) i) = bdev (bufs s i) \<and> bdirty (bufs (binit s) i) = bdirty (bufs s i)
     \<and> brefcnt (bufs (binit s) i) = brefcnt (bufs s i) \<and> \<not> sl_locked (blk (bufs (binit s) i))"
proof -
  let ?f = "\<lambda>b s. link_front b (updb b (blk_update (\<lambda>_. initsleeplock)) s)"
  have st: "bdev (bufs (?f b s) i) = bdev (bufs s i) \<and> bdirty (bufs (?f b s) i) = bdirty (bufs s i)
      \<and> brefcnt (bufs (?f b s) i) = brefcnt (bufs s i)
      \<and> blk (bufs (?f b s) i) = (if i = b then initsleeplock else blk (bufs s i))" for b i and s :: "'a bcache_scheme"
    using relinkedD [OF relinked_front, of b "updb b (blk_update (\<lambda>_. initsleeplock)) s" i] by (simp add: updb_def)
  have "bdev (bufs (fold ?f bs s) i) = bdev (bufs s i) \<and> bdirty (bufs (fold ?f bs s) i) = bdirty (bufs s i)
      \<and> brefcnt (bufs (fold ?f bs s) i) = brefcnt (bufs s i)
      \<and> blk (bufs (fold ?f bs s) i) = (if i \<in> set bs then initsleeplock else blk (bufs s i))" for bs i and s :: "'a bcache_scheme"
    by (induction bs arbitrary: s) (auto simp: st)
  moreover assume "i < NBUF"
  ultimately show ?thesis by (simp add: binit_def Let_def updb_def initsleeplock_def)
qed

lemma binit_frame: "bframe s (binit s)"
proof -
  let ?f = "\<lambda>b s. link_front b (updb b (blk_update (\<lambda>_. initsleeplock)) s)"
  have "bframe s t \<Longrightarrow> bframe s (fold ?f bs t)" for bs and t :: "'a bcache_scheme"
  proof (induction bs arbitrary: t)
    case (Cons b bs)
    have "bframe s (?f b t)" unfolding link_front_def Let_def by (intro bframe_step Cons.prems)
    then show ?case using Cons.IH by simp
  qed simp
  then show ?thesis unfolding binit_def Let_def by (simp add: bframe_updb)
qed

lemma binit_ok:
  assumes "zeroed s"
  shows "bc_inv (binit s)" "held (binit s) = {}" "dirty (binit s) = {}" "view (binit s) = memdisk s"
    "bcache.more (binit s) = bcache.more s"
proof -
  note f = bframeD [OF binit_frame, of s]
  have b: "bdev (bufs (binit s) i) = 0" "\<not> bdirty (bufs (binit s) i)" "brefcnt (bufs (binit s) i) = 0"
      "\<not> sl_locked (blk (bufs (binit s) i))" if "i < NBUF" for i
    using binit_bufs [OF that, of s] assms that by (auto simp: zeroed_def)
  show "bc_inv (binit s)"
    using lru_binit [of s] b by (auto simp: bc_inv_def bufs_ok_def buf_ok_def holds_block_def f)
  have "slot (bufs (binit s)) c = None" for c
    using b by (auto simp: slot_def find_None_iff holds_block_def)
  then show "held (binit s) = {}" "dirty (binit s) = {}" "view (binit s) = memdisk s"
    by (auto simp: held_def dirty_def view_def f)
  show "bcache.more (binit s) = bcache.more s"
    using binit_frame [of s] unfolding bframe_def by (metis bcache.select_convs(6) bcache.surjective bcache.update_convs(2))
qed

section \<open>The properties of the buffer cache\<close>

text \<open>
  C30.  The boot of the buffer cache: when no buffer of the static memory is in use, \<open>binit\<close> makes
  the circular list of all buffers, each once, with no block held or pinned, so that the kernel sees
  every block as the disk has it; it writes nothing.
\<close>

theorem cache_boot:
  assumes "zeroed s"
  shows "lru_ok (bufs (binit s)) (rev [0..<NBUF]) \<and> bc_inv (binit s) \<and> held (binit s) = {} \<and> dirty (binit s) = {}
    \<and> view (binit s) = memdisk s \<and> memdisk (binit s) = memdisk s \<and> dwrites (binit s) = dwrites s"
  using binit_ok [OF assms] lru_binit [of s] bframeD [OF binit_frame, of s] by simp

definition zero_buf :: buf where
  "zero_buf = \<lparr>bvalid = False, bdirty = False, bdev = 0, bblockno = 0, blk = \<lparr>sl_locked = False, sl_pid = 0\<rparr>,
     brefcnt = 0, bprev = 0, bnext = 0, bdata = (\<lambda>_. 0)\<rparr>"

definition boot_disk :: bcache where
  "boot_disk = \<lparr>fpid = 1, bufs = (\<lambda>_. zero_buf), memdisk = (\<lambda>_ _. 7), disksize = 1000, dwrites = []\<rparr>"

lemma zeroed_boot_disk: "zeroed boot_disk"
  by (simp add: zeroed_def boot_disk_def zero_buf_def)

lemma cache_boot_witness: "view (binit boot_disk) 5 0 = 7"
  using cache_boot [OF zeroed_boot_disk] by (simp add: boot_disk_def)

text \<open>
  \<open>bread\<close> in every case: a block whose buffer is locked makes the caller sleep; when all
  buffers are locked or pinned and the block is in none, the cache panics; a block beyond the disk
  panics; otherwise a locked buffer with the contents of the block is returned, and nothing else
  that the kernel or the disk shows of the blocks changes.
\<close>

theorem bread_outcomes:
  assumes "bc_inv s"
  shows "if b \<in> held s then \<exists>i. bread 1 b s = Asleep (ChBuf i)
    else if b \<notin> dirty s \<and> NBUF \<le> card (held s \<union> dirty s) then bread 1 b s = Panic ''bget: no buffers''
    else if disksize s \<le> b then bread 1 b s = Panic ''iderw: block out of range''
    else \<exists>i s'. bread 1 b s = Ok (i, s') \<and> bc_inv s' \<and> owns s' i b \<and> bdata (bufs s' i) = view s b
           \<and> cache_abs s' = (cache_abs s)\<lparr>ca_held := insert b (held s)\<rparr>"
proof -
  consider (held) "b \<in> held s" | (full) "b \<notin> held s" "b \<notin> dirty s" "NBUF \<le> card (held s \<union> dirty s)"
    | (range) "b \<notin> held s" "\<not> (b \<notin> dirty s \<and> NBUF \<le> card (held s \<union> dirty s))" "disksize s \<le> b"
    | (ok) "b \<notin> held s" "b \<in> dirty s \<or> card (held s \<union> dirty s) < NBUF" "b < disksize s"
    by fastforce
  then show ?thesis
  proof cases
    case held
    then show ?thesis using bget_held [OF assms] by (auto simp: bread_def held_def)
  next
    case full
    then show ?thesis using bget_full [OF assms] by (simp add: bread_def)
  next
    case range
    then have "b \<notin> dirty s" using dirty_in_range [OF assms, of b] by auto
    then show ?thesis using range bread_out_of_range [OF assms] by simp
  next
    case ok
    then obtain i s' where r: "bread 1 b s = Ok (i, s')" "owns s' i b" "memdisk s' = memdisk s" "dwrites s' = dwrites s"
        and c: "cstep s s' (view s) (insert b (held s)) (dirty s)"
      using bread_ok [OF assms, of b] by blast
    have a: "bc_inv s'" "cache_abs s' = (cache_abs s)\<lparr>ca_held := insert b (held s)\<rparr>"
      using cstep_abs [OF c] r(3,4) by (simp_all add: cache_abs_def)
    then have "view s' = view s" by (simp add: cache_abs_def)
    then have "bdata (bufs s' i) = view s b" using owns_data [OF r(2)] by simp
    then show ?thesis using r a ok by auto
  qed
qed

lemma bread_outcomes_witness:
  "\<exists>i s'. bread 1 5 (binit boot_disk) = Ok (i, s') \<and> bdata (bufs s' i) 0 = 7"
proof -
  note b = binit_ok [OF zeroed_boot_disk]
  have d: "\<not> disksize (binit boot_disk) \<le> 5" "\<not> NBUF \<le> 0"
    using bframeD [OF binit_frame, of boot_disk] by (simp_all add: boot_disk_def NBUF_def MAXOPBLOCKS_def)
  then show ?thesis using bread_outcomes [OF b(1), of 5] b(2-4) by (auto simp: boot_disk_def)
qed

text \<open>
  A caller that holds the buffer of a block can write it, after which the disk has the
  contents of the buffer and the block is no longer pinned, and give it back, which keeps
  all contents; without the lock both operations panic.
\<close>

theorem buffer_release:
  assumes "bc_inv s" and "owns s i b" and "b \<in> dirty s \<or> view s b = memdisk s b" and "\<not> sl_locked (blk (bufs s j))"
  shows "(\<exists>s'. bwrite i s = Ok s' \<and> bc_inv s' \<and> owns s' i b
        \<and> cache_abs s' = (cache_abs s)\<lparr>ca_pinned := dirty s - {b}, ca_disk := (memdisk s)(b := view s b),
            ca_trace := dwrites s @ [(b, view s b)]\<rparr>)
    \<and> (\<exists>s'. brelse i s = Ok s' \<and> bc_inv s' \<and> cache_abs s' = (cache_abs s)\<lparr>ca_held := held s - {b}\<rparr>)
    \<and> bwrite j s = Panic ''bwrite'' \<and> brelse j s = Panic ''brelse''"
proof -
  have "\<exists>s'. bwrite i s = Ok s' \<and> bc_inv s' \<and> owns s' i b
        \<and> cache_abs s' = (cache_abs s)\<lparr>ca_pinned := dirty s - {b}, ca_disk := (memdisk s)(b := view s b),
            ca_trace := dwrites s @ [(b, view s b)]\<rparr>"
    using bc.wr_ok [OF assms(1,2)] assms(2) by auto
  moreover have "\<exists>s'. brelse i s = Ok s' \<and> bc_inv s' \<and> cache_abs s' = (cache_abs s)\<lparr>ca_held := held s - {b}\<rparr>"
    using bc.rel_ok [OF assms(1,2)] assms(3) by auto
  ultimately show ?thesis using assms(4) by (simp add: bwrite_def brelse_def holdingsleep_def)
qed

lemma buffer_release_witness:
  "\<exists>i s' s''. bread 1 5 (binit boot_disk) = Ok (i, s') \<and> brelse i s' = Ok s'' \<and> held s'' = {}"
proof -
  note b = binit_ok [OF zeroed_boot_disk]
  have d: "5 < disksize (binit boot_disk)" "(0::nat) < NBUF"
    using bframeD [OF binit_frame, of boot_disk] by (simp_all add: boot_disk_def NBUF_def MAXOPBLOCKS_def)
  then obtain i s' where r: "bread 1 5 (binit boot_disk) = Ok (i, s')" "bc_inv s'" "owns s' i 5"
      "cache_abs s' = (cache_abs (binit boot_disk))\<lparr>ca_held := {5}\<rparr>"
    using bc.rd_ok [OF b(1), of 5] b(2,3) by auto
  then have v: "view s' = view (binit boot_disk)" "memdisk s' = memdisk (binit boot_disk)" "held s' = {5}"
    by (simp_all add: cache_abs_def)
  have m: "view s' 5 = memdisk s' 5" using v b(4) bframeD(2) [OF binit_frame, of boot_disk] by simp
  have "card (held s' \<union> dirty s') < NBUF" using r(4) v(3) b(3) by (simp add: cache_abs_def NBUF_def MAXOPBLOCKS_def)
  then obtain j where "j < NBUF" "brefcnt (bufs s' j) = 0" using free_buffer [OF bc_inv_ok [OF r(2)]] by blast
  then have "\<not> sl_locked (blk (bufs s' j))" using bc_inv_ok [OF r(2)] by (auto simp: bufs_ok_def buf_ok_def)
  then obtain s'' where "brelse i s' = Ok s''" "cache_abs s'' = (cache_abs s')\<lparr>ca_held := held s' - {5}\<rparr>"
    using buffer_release [OF r(2,3), of j] m by blast
  then show ?thesis using r(1) v(3) by (auto simp: cache_abs_def)
qed

end
