(* ===== verification/Log_Props.thy ===== *)
theory Log_Props
  imports Log_Crash Bcache_Props
begin

text \<open>
  Transactions and crashes.  A client of the log reads blocks, changes blocks it holds and logs
  them, gives blocks back, opens and closes operations and calls \<open>sync\<close>; \<open>lreach s D\<close> says that
  \<open>s\<close> is reached that way and that \<open>D\<close> is what the last commit made durable.
\<close>

section \<open>Logging a block\<close>

lemma log_slot_cases:
  assumes "log_slot B n b = i"
  shows "i < n \<and> B i = b \<or> i = n \<and> b \<notin> B ` {..<n}"
proof (cases "find (\<lambda>i. B i = b) [0..<n]")
  case None
  then have "i = n" using assms by (simp add: log_slot_def)
  moreover have "b \<notin> B ` {..<n}" using None by (auto simp: find_None_iff)
  ultimately show ?thesis by simp
next
  case (Some j)
  then show ?thesis using assms find_Some_D [OF Some] by (auto simp: log_slot_def)
qed

lemma log_write_ok:
  assumes inv: "log_inv s" and o: "owns s i b" and hb: "home s b" and w: "log_write i s = Ok s'"
  shows "log_inv s'" and "cache_abs s' = (cache_abs s)\<lparr>ca_pinned := insert b (dirty s), ca_ctx := (fpid s', bcache.more s')\<rparr>"
    and "\<And>j c. owns s' j c = owns s j c" and "home s' = home s" and "log_outstanding s' = log_outstanding s"
proof -
  have bn: "bblockno (bufs s i) = b" using owns_buf(10) [OF log_invD(1) [OF inv] o] .
  define k where "k = log_slot (lh_block s) (nat (lh_n s)) b"
  define m where "m = (if int k = lh_n s then lh_n s + 1 else lh_n s)"
  let ?t = "s\<lparr>lh_block := (lh_block s)(k := b), lh_n := m\<rparr>"
  have g: "lh_n s < int LOGSIZE" "lh_n s < log_size s - 1" "1 \<le> log_outstanding s"
    using w by (auto simp: log_write_def Let_def split: if_splits)
  have t0: "?t = (if int k = lh_n s then (s\<lparr>lh_block := (lh_block s)(k := b)\<rparr>)\<lparr>lh_n := lh_n s + 1\<rparr> else s\<lparr>lh_block := (lh_block s)(k := b)\<rparr>)"
    by (simp add: m_def)
  have e: "s' = updb i (bdirty_update (\<lambda>_. True)) ?t"
    unfolding t0 using w g by (auto simp: log_write_def Let_def bn k_def [symmetric])
  have inv': "bc_inv ?t" "owns ?t i b" using log_invD(1) [OF inv] o by simp_all
  note p = pin_ok [OF inv']
  have more: "bcache.more s' = bcache.more ?t" "fpid s' = fpid s" "disksize s' = disksize s"
    using p(1) by (simp_all add: e cstep_def)
  have md: "memdisk s' = memdisk s" "dwrites s' = dwrites s" by (simp_all add: e updb_def)
  note f = log_same [OF more(1)]
  have n0: "0 \<le> lh_n s" by (rule log_invD(8) [OF inv])
  have lg: "logged s' = insert b (logged s)"
  proof -
    consider "k < nat (lh_n s)" "lh_block s k = b" | "k = nat (lh_n s)" "b \<notin> lh_block s ` {..<nat (lh_n s)}"
      using log_slot_cases [of "lh_block s" "nat (lh_n s)" b k] by (auto simp: k_def)
    then show ?thesis
    proof cases
      case 1
      then have "lh_block s' = lh_block s" "lh_n s' = lh_n s" using n0 by (auto simp: f m_def)
      then show ?thesis using 1 by (auto simp: logged_def)
    next
      case 2
      then have "lh_block s' = (lh_block s)(nat (lh_n s) := b)" "nat (lh_n s') = Suc (nat (lh_n s))"
        using n0 by (auto simp: f m_def nat_add_distrib)
      then show ?thesis by (auto simp: logged_def lessThan_Suc)
    qed
  qed
  have "cstep ?t s' (view s) (held s) (insert b (dirty s))" using p(1) by (simp add: e)
  then show ca: "cache_abs s' = (cache_abs s)\<lparr>ca_pinned := insert b (dirty s), ca_ctx := (fpid s', bcache.more s')\<rparr>"
    using md by (simp add: cstep_def cache_abs_def)
  have v: "dirty s' = insert b (dirty s)" using ca by (simp add: cache_abs_def)
  have h: "log_region s' = log_region s" "home s' = home s" "log_layout s' = log_layout s"
    using f more(3) by (simp_all add: log_region_def home_def log_layout_def fun_eq_iff)
  have mb: "m \<le> lh_n s + 1" "0 \<le> m" using n0 by (auto simp: m_def)
  have ls: "log_size s \<le> int LOGSIZE" using inv by (simp add: log_inv_def)
  have "log_wf s'" using log_invD(2) [OF inv] hb lg h g mb ls f by (auto simp: log_wf_def)
  moreover have "bc_inv s'" using p(1) by (simp add: e cstep_def)
  ultimately show "log_inv s'"
    using inv md f lg v mb g ls by (auto simp: log_inv_def)
  show "owns s' j c = owns s j c" for j c using p(2) [of j c] by (simp add: e)
  show "home s' = home s" "log_outstanding s' = log_outstanding s" using h f by simp_all
qed

section \<open>Clients\<close>

inductive lstep :: "'a logd_scheme \<Rightarrow> 'a logd_scheme \<Rightarrow> bool" where
  ls_begin: "begin_op s = Ok s' \<Longrightarrow> lstep s s'"
| ls_read: "b < disksize s \<Longrightarrow> b \<notin> held s \<Longrightarrow> b \<in> dirty s \<or> card (held s \<union> dirty s) < NBUF \<Longrightarrow>
     bread 1 b s = Ok (i, s') \<Longrightarrow> lstep s s'"
| ls_write: "owns s i b \<Longrightarrow> home s b \<Longrightarrow> log_write i (setdata i d s) = Ok s' \<Longrightarrow> lstep s s'"
| ls_release: "owns s i b \<Longrightarrow> brelse i s = Ok s' \<Longrightarrow> lstep s s'"

inductive lreach :: "'a logd_scheme \<Rightarrow> (u32 \<Rightarrow> block) \<Rightarrow> bool" where
  lr_start: "log_inv s \<Longrightarrow> held s = {} \<Longrightarrow> lh_n s = 0 \<Longrightarrow> lreach s (memdisk s)"
| lr_step: "lreach s D \<Longrightarrow> lstep s s' \<Longrightarrow> lreach s' D"
| lr_end: "lreach s D \<Longrightarrow> held s = {} \<Longrightarrow> end_op s = Ok s' \<Longrightarrow>
     lreach s' (if log_outstanding s \<le> 1 \<and> int LOGSIZE < lh_n s + int MAXOPBLOCKS then view s else D)"
| lr_sync: "lreach s D \<Longrightarrow> held s = {} \<Longrightarrow> sync s = Ok (n, s') \<Longrightarrow> lreach s' (view s)"

definition durable :: "'a logd_scheme \<Rightarrow> (u32 \<Rightarrow> block) \<Rightarrow> bool" where
  "durable s D \<longleftrightarrow> log_inv s \<and> (\<forall>b. home s b \<longrightarrow> memdisk s b = D b) \<and> (\<forall>b. b \<notin> dirty s \<longrightarrow> view s b = memdisk s b)"

lemma log_inv_cong:
  assumes "log_inv s" and "bc_inv s'" and "bcache.more s' = bcache.more s" and "disksize s' = disksize s"
    and "memdisk s' = memdisk s" and "dirty s' = dirty s"
  shows "log_inv s'" "home s' = home s"
  using assms log_same [OF assms(3)] log_region_more [OF assms(3,4)] by (simp_all add: log_inv_def)

lemma log_inv_fields [simp]:
  "log_inv (s\<lparr>log_outstanding := z\<rparr>) = log_inv s" "home (s\<lparr>log_outstanding := z\<rparr>) = home s"
  "log_inv (s\<lparr>log_woken := k\<rparr>) = log_inv s" "home (s\<lparr>log_woken := k\<rparr>) = home s"
  by (simp_all add: log_inv_def log_wf_def log_layout_def logged_def home_def log_region_def fun_eq_iff)

lemma durable_fields [simp]:
  "durable (s\<lparr>log_outstanding := z\<rparr>) D = durable s D" "durable (s\<lparr>log_woken := k\<rparr>) D = durable s D"
  by (simp_all add: durable_def)

lemma durable_step:
  assumes d: "durable s D" and st: "lstep s s'"
  shows "durable s' D"
  using st
proof (cases rule: lstep.cases)
  case ls_begin
  then show ?thesis using d by (auto simp: begin_op_def split: if_splits)
next
  case (ls_read b i)
  note 2 = ls_read
  have inv: "bc_inv s" using d by (simp add: durable_def log_invD)
  obtain i' t where "bread 1 b s = Ok (i', t)" "bc_inv t" "cache_abs t = (cache_abs s)\<lparr>ca_held := insert b (held s)\<rparr>"
    using bc.rd_ok [OF inv, of b] 2 by auto
  then have "bc_inv s'" "view s' = view s" "dirty s' = dirty s" "memdisk s' = memdisk s" "disksize s' = disksize s"
      "bcache.more s' = bcache.more s"
    using 2(4) by (simp_all add: cache_abs_def)
  then show ?thesis using d log_inv_cong [of s s'] by (simp add: durable_def)
next
  case (ls_write i b e)
  note 3 = ls_write
  have inv: "bc_inv s" and li: "log_inv s" using d by (simp_all add: durable_def log_invD)
  let ?t = "setdata i e s"
  have t: "bc_inv ?t" "cache_abs ?t = (cache_abs s)\<lparr>ca_view := (view s)(b := e)\<rparr>" "owns ?t i b"
    using bc.put_ok [OF inv 3(1), of e] 3(1) by auto
  have "bcache.more ?t = bcache.more s" "disksize ?t = disksize s" "memdisk ?t = memdisk s" "dirty ?t = dirty s"
    and vt: "view ?t = (view s)(b := e)"
    using t(2) by (simp_all add: cache_abs_def)
  then have lt: "log_inv ?t" "home ?t = home s" "dirty ?t = dirty s" "memdisk ?t = memdisk s"
    using log_inv_cong [OF li t(1)] by auto
  have hb: "home ?t b" using 3(2) lt(2) by simp
  note w = log_write_ok [OF lt(1) t(3) hb 3(3)]
  have "view s' = (view s)(b := e)" "memdisk s' = memdisk s" "dirty s' = insert b (dirty s)"
    using w(2) vt lt(3,4) by (simp_all add: cache_abs_def)
  then show ?thesis using d w(1,4) lt(2) by (simp add: durable_def)
next
  case (ls_release i b)
  note 4 = ls_release
  have inv: "bc_inv s" using d by (simp add: durable_def log_invD)
  have "b \<in> dirty s \<or> view s b = memdisk s b" using d by (auto simp: durable_def)
  then obtain t where "brelse i s = Ok t" "bc_inv t" "cache_abs t = (cache_abs s)\<lparr>ca_held := held s - {b}\<rparr>"
    using bc.rel_ok [OF inv 4(1)] by auto
  then have "bc_inv s'" "view s' = view s" "dirty s' = dirty s" "memdisk s' = memdisk s" "disksize s' = disksize s"
      "bcache.more s' = bcache.more s"
    using 4(2) by (simp_all add: cache_abs_def)
  then show ?thesis using d log_inv_cong [of s s'] by (simp add: durable_def)
qed

lemma durable_sync:
  assumes d: "durable s D" and h: "held s = {}" and e: "sync s = Ok (n, s')"
  shows "durable s' (view s)" and "home s' = home s"
proof -
  have li: "log_inv s" using d by (simp add: durable_def)
  obtain t where t: "sync s = Ok (lh_n s, t)" "log_inv t" "held t = {}" "lh_n t = 0"
      "\<forall>b. home s b \<longrightarrow> view t b = view s b \<and> memdisk t b = view s b" "home t = home s"
    using sync_ok [OF li h] by blast
  then have s': "t = s'" using e by simp
  have "view t b = memdisk t b" if "b \<notin> dirty t" for b
    using bc_clean [OF log_invD(1) [OF t(2)], of b] t(3) that by simp
  then show "durable s' (view s)" using t s' by (simp add: durable_def)
  show "home s' = home s" using t(6) s' by simp
qed

lemma lreach_durable: "lreach s D \<Longrightarrow> durable s D"
proof (induction rule: lreach.induct)
  case (lr_start s)
  then have "dirty s = {}" using log_invD(4) [OF lr_start(1)] by (simp add: logged_def)
  then have "view s b = memdisk s b" for b using bc_clean [OF log_invD(1) [OF lr_start(1)], of b] lr_start(2) by simp
  then show ?case using lr_start by (simp add: durable_def)
next
  case (lr_step s D s')
  then show ?case by (auto intro: durable_step)
next
  case (lr_end s D s')
  let ?s = "s\<lparr>log_outstanding := log_outstanding s - 1\<rparr>"
  have d: "durable ?s D" "held ?s = {}" "view ?s = view s" using lr_end by simp_all
  show ?case
  proof (cases "log_outstanding s \<le> 1 \<and> int LOGSIZE < lh_n s + int MAXOPBLOCKS")
    case True
    then obtain n where "sync ?s = Ok (n, s')" using lr_end(3) by (auto simp: end_op_def Let_def split: if_splits)
    then show ?thesis using durable_sync(1) [OF d(1,2)] True d(3) by simp
  next
    case False
    then have "s' = ?s \<or> s' = ?s\<lparr>log_woken := log_woken s + 1\<rparr>"
      using lr_end(3) by (auto simp: end_op_def Let_def split: if_splits)
    moreover have "durable (?s\<lparr>log_woken := log_woken s + 1\<rparr>) D" using d(1) by (simp only: durable_fields)
    ultimately have "durable s' D" using d(1) by auto
    then show ?thesis using False by (simp only: if_False)
  qed
next
  case (lr_sync s D n s')
  then show ?case using durable_sync(1) by blast
qed



section \<open>The properties of the log\<close>


text \<open>The concrete log of the witnesses: a disk of 1000 blocks whose log starts at block 2.\<close>

definition demo_disk :: "u32 \<Rightarrow> block" where
  "demo_disk b = (if b = 1 then put32 (put32 (\<lambda>_. 0) 12 90) 16 2 else (\<lambda>_. 0))"

definition demo_boot :: logd where
  "demo_boot = \<lparr>fpid = 1, bufs = (\<lambda>_. zero_buf), memdisk = demo_disk, disksize = 1000, dwrites = [],
     log_start = 2, log_size = 90, log_outstanding = 0, log_committing = False, log_dev = 1, lh_n = 0,
     lh_block = (\<lambda>_. 0), log_woken = 0\<rparr>"

lemma demo_boot_simps:
  "fpid demo_boot = 1" "memdisk demo_boot = demo_disk" "disksize demo_boot = 1000" "dwrites demo_boot = []"
  "log_start demo_boot = 2" "log_size demo_boot = 90" "log_outstanding demo_boot = 0" "\<not> log_committing demo_boot"
  "log_dev demo_boot = 1" "lh_n demo_boot = 0"
  by (simp_all add: demo_boot_def)


lemma demo_log_inv: "log_inv (binit demo_boot)" "held (binit demo_boot) = {}" "home (binit demo_boot) 200"
  "memdisk (binit demo_boot) = demo_disk" "lh_n (binit demo_boot) = 0" "log_size (binit demo_boot) = 90"
  "log_outstanding (binit demo_boot) = 0" "\<not> log_committing (binit demo_boot)"
proof -
  have z: "zeroed demo_boot" by (simp add: zeroed_def demo_boot_def zero_buf_def)
  note b = binit_ok [OF z] and f = bframeD [OF binit_frame, of demo_boot]
  note l = log_same [OF b(5)]
  have d: "get32 (demo_disk 2) 0 = 0" "get32 (demo_disk 1) 16 = 2"
    by (simp_all add: demo_disk_def) (simp add: get32_def le_word_def)
  show "home (binit demo_boot) 200" "memdisk (binit demo_boot) = demo_disk" "lh_n (binit demo_boot) = 0"
    "log_size (binit demo_boot) = 90" "log_outstanding (binit demo_boot) = 0" "\<not> log_committing (binit demo_boot)"
    "held (binit demo_boot) = {}"
    using b(2) by (simp_all add: home_def log_region_def l f LOGSIZE_eq demo_boot_simps)
  show "log_inv (binit demo_boot)"
    using b d by (simp add: log_inv_def log_wf_def log_layout_def logged_def l f LOGSIZE_eq demo_boot_simps)
qed

lemma demo_transaction:
  "\<exists>s::logd. lreach s demo_disk \<and> held s = {} \<and> view s 200 = (\<lambda>_. 7) \<and> lh_n s = 1 \<and> home s = home (binit demo_boot)
     \<and> disksize s = 1000 \<and> log_outstanding s = 1"
proof -
  define s0 where "s0 = binit demo_boot"
  note d = demo_log_inv [folded s0_def]
  have r0: "lreach s0 demo_disk" using lr_start [OF d(1,2,5)] d(4) by simp
  define s1 where "s1 = s0\<lparr>log_outstanding := 1\<rparr>"
  have b: "begin_op s0 = Ok s1" using d by (simp add: begin_op_def LOGSIZE_eq MAXOPBLOCKS_def s1_def)
  have r1: "lreach s1 demo_disk" by (rule lr_step [OF r0 ls_begin [OF b]])
  have i1: "log_inv s1" "held s1 = {}" "home s1 = home s0" "disksize s1 = disksize s0" "lh_n s1 = 0" "dirty s1 = {}"
      "log_size s1 = 90" "log_outstanding s1 = 1"
    using d(1,2,5,6) log_invD(4) [OF d(1)] by (simp_all add: s1_def logged_def)
  have n: "200 < disksize s1" "200 \<notin> held s1" "200 \<in> dirty s1 \<or> card (held s1 \<union> dirty s1) < NBUF" and sz: "disksize s0 = 1000"
    using i1 d(3) bframeD(3) [OF binit_frame, of demo_boot]
    by (simp_all add: home_def LOGSIZE_eq) (simp add: s0_def demo_boot_simps)
  obtain i s2 where s2: "bread 1 200 s1 = Ok (i, s2)" "owns s2 i 200" "cstep s1 s2 (view s1) {200} {}"
      "memdisk s2 = memdisk s1" "dwrites s2 = dwrites s1"
    using bread_ok [OF log_invD(1) [OF i1(1)] n] i1(2,6) by auto
  note c2 = cstep_abs [OF s2(3)]
  have r2: "lreach s2 demo_disk" by (rule lr_step [OF r1 ls_read [OF n s2(1)]])
  have e2: "bc_inv s2" "log_inv s2" "home s2 = home s0" "disksize s2 = disksize s0" "held s2 = {200}" "bcache.more s2 = bcache.more s1"
    using log_inv_cong [OF i1(1), of s2] s2(3,4) i1(3,4,6) by (simp_all add: cstep_def)
  note l2 = log_same [OF e2(6)]
  define t where "t = setdata i (\<lambda>_. 7) s2"
  note st = setdata_ok [OF e2(1) s2(2), of "\<lambda>_. 7", folded t_def]
  have et: "bcache.more t = bcache.more s2" "view t = (view s2)(200 := (\<lambda>_. 7))" "held t = {200}" "bc_inv t"
      "disksize t = disksize s2" "dirty t = dirty s2"
    using st(1) e2(5) by (simp_all add: cstep_def)
  note lt = log_same [OF et(1)]
  have it: "log_inv t" "home t = home s0" using log_inv_cong [OF e2(2) et(4) et(1,5) _ et(6)] st(3) e2(3) by simp_all
  have ot: "owns t i 200" using st(2) s2(2) by simp
  have q: "lh_n t = 0" "log_size t = 90" "log_outstanding t = 1" using lt l2 i1(5,7,8) by simp_all
  obtain s3 where s3: "log_write i t = Ok s3" "lh_n s3 = 1"
    using q by (simp add: log_write_def LOGSIZE_eq Let_def log_slot_def updb_def)
  note w = log_write_ok [OF it(1) ot _ s3(1)]
  have h: "home t 200" "home s2 200" using it(2) e2(3) d(3) by simp_all
  have r3: "lreach s3 demo_disk" using lr_step [OF r2 ls_write [OF s2(2) h(2)]] s3(1) by (simp add: t_def)
  have e3: "bc_inv s3" "view s3 = view t" "held s3 = {200}" "dirty s3 = insert 200 (dirty t)" "disksize s3 = disksize t" "owns s3 i 200"
    using w(1,2,3) [OF h(1)] log_invD(1) et(3) ot by (simp_all add: cache_abs_def)
  have "200 \<in> dirty s3 \<or> view s3 200 = memdisk s3 200" using e3(4) by simp
  then obtain s4 where s4: "brelse i s3 = Ok s4" "cstep s3 s4 (view s3) {} (dirty s3)"
    using brelse_ok [OF e3(1,6)] e3(3) by auto
  have r4: "lreach s4 demo_disk" by (rule lr_step [OF r3 ls_release [OF e3(6) s4(1)]])
  have m4: "bcache.more s4 = bcache.more s3" "disksize s4 = disksize s3" using s4(2) by (simp_all add: cstep_def)
  have "held s4 = {}" "view s4 200 = (\<lambda>_. 7)" using s4(2) e3(2) et(2) by (simp_all add: cstep_def)
  moreover have "log_outstanding s4 = 1" using log_same(3) [OF m4(1)] w(5) [OF h(1)] q(3) by simp
  moreover have "lh_n s4 = 1" "home s4 = home s0" "disksize s4 = 1000"
    using log_same(6) [OF m4(1)] s3(2) log_region_more(2) [OF m4] w(4) [OF h(1)] it(2) m4(2) e3(5) et(5) e2(4) sz by simp_all
  ultimately show ?thesis using r4 by (intro exI [of _ s4]) (simp add: s0_def)
qed


text \<open>
  C31.  \<open>log_write\<close> on every branch: it panics when the header is full or no operation is open;
  otherwise it pins the buffer, and the header grows by one entry exactly when the block
  was not logged already, so a block is logged once however often it is written.
\<close>

theorem log_write_outcomes:
  assumes "log_inv s" and "owns s i b" and "home s b"
  shows "if log_size s - 1 \<le> lh_n s then log_write i s = Panic ''too big a transaction''
    else if log_outstanding s < 1 then log_write i s = Panic ''log_write outside of trans''
    else \<exists>s'. log_write i s = Ok s' \<and> log_inv s' \<and> lh_n s' = lh_n s + (if b \<in> logged s then 0 else 1)
      \<and> logged s' = insert b (logged s) \<and> view s' = view s \<and> memdisk s' = memdisk s \<and> held s' = held s"
proof -
  have n: "lh_n s < int LOGSIZE" "0 \<le> lh_n s" using assms(1) log_invD(8) by (auto simp: log_inv_def)
  have bn: "bblockno (bufs s i) = b" using owns_buf(10) [OF log_invD(1) [OF assms(1)] assms(2)] .
  show ?thesis
  proof (cases "log_size s - 1 \<le> lh_n s \<or> log_outstanding s < 1")
    case True
    then show ?thesis using n by (auto simp: log_write_def)
  next
    case False
    let ?k = "log_slot (lh_block s) (nat (lh_n s)) b"
    obtain s' where s': "log_write i s = Ok s'" "lh_n s' = (if int ?k = lh_n s then lh_n s + 1 else lh_n s)"
      using False n by (simp add: log_write_def Let_def bn updb_def)
    have k: "?k < nat (lh_n s) \<and> lh_block s ?k = b \<or> ?k = nat (lh_n s) \<and> b \<notin> lh_block s ` {..<nat (lh_n s)}"
      by (rule log_slot_cases) simp
    then have "?k < nat (lh_n s) \<and> b \<in> logged s \<or> ?k = nat (lh_n s) \<and> b \<notin> logged s"
      unfolding logged_def by (metis imageI lessThan_iff)
    then have "int ?k = lh_n s \<longleftrightarrow> b \<notin> logged s" using n by auto
    moreover note w = log_write_ok [OF assms s'(1)]
    moreover have "logged s' = insert b (logged s)"
      using w(1,2) log_invD(4) [OF w(1)] log_invD(4) [OF assms(1)] by (simp add: cache_abs_def)
    ultimately show ?thesis using False s' by (auto simp: cache_abs_def)
  qed
qed

lemma log_write_outcomes_witness:
  "\<exists>i s. log_write i (s :: logd) = Panic ''log_write outside of trans''"
proof -
  define s0 where "s0 = binit demo_boot"
  note d = demo_log_inv [folded s0_def]
  have n: "200 < disksize s0" "200 \<notin> held s0" "200 \<in> dirty s0 \<or> card (held s0 \<union> dirty s0) < NBUF"
    using d(2,3,5) log_invD(4) [OF d(1)] by (simp_all add: home_def LOGSIZE_eq logged_def)
  obtain i s2 where s2: "bread 1 200 s0 = Ok (i, s2)" "owns s2 i 200" "cstep s0 s2 (view s0) (insert 200 (held s0)) (dirty s0)"
      "memdisk s2 = memdisk s0"
    using bread_ok [OF log_invD(1) [OF d(1)] n] by auto
  have e2: "log_inv s2" "home s2 = home s0" "bcache.more s2 = bcache.more s0"
    using log_inv_cong [OF d(1), of s2] s2(3,4) by (simp_all add: cstep_def)
  have "home s2 200" using e2(2) d(3) by simp
  from log_write_outcomes [OF e2(1) s2(2) this] log_same [OF e2(3)] d(5-7)
  show ?thesis by (auto split: if_splits)
qed

text \<open>
  C33.  A wake-up that \<open>end_op\<close> loses.  With one operation open and more than 30 but at most 60
  blocks logged, a process that calls \<open>begin_op\<close> goes to sleep on the log; the operation that then
  ends neither commits nor wakes it, although from then on \<open>begin_op\<close> would let it in.
\<close>

theorem end_op_lost_wakeup:
  assumes "\<not> log_committing s" and "log_outstanding s = 1" and "int MAXOPBLOCKS < lh_n s" and "lh_n s \<le> int LOGSIZE - int MAXOPBLOCKS"
  shows "begin_op s = Asleep ChLog
    \<and> (\<exists>s'. end_op s = Ok s' \<and> log_woken s' = log_woken s \<and> (\<exists>s''. begin_op s' = Ok s''))"
  using assms by (simp add: begin_op_def end_op_def LOGSIZE_def MAXOPBLOCKS_def)

lemma end_op_lost_wakeup_witness:
  "begin_op (demo_boot\<lparr>log_outstanding := 1, lh_n := 31\<rparr>) = Asleep ChLog"
  using end_op_lost_wakeup [of "demo_boot\<lparr>log_outstanding := 1, lh_n := 31\<rparr>"]
  by (simp add: demo_boot_simps LOGSIZE_def MAXOPBLOCKS_def)

text \<open>
  C32.  \<open>sync\<close> commits whatever operations are open.  While another process is inside an operation,
  \<open>sync\<close> makes the blocks it has written so far durable, so that a crash can leave half
  of an operation on the disk, which the log is there to prevent.
\<close>

theorem sync_ignores_open_operations:
  assumes "lreach s D" and "held s = {}" and "0 < log_outstanding s"
  shows "\<exists>s'. sync s = Ok (lh_n s, s') \<and> lreach s' (view s) \<and> log_outstanding s' = log_outstanding s
    \<and> lh_n s' = 0 \<and> (\<forall>b. home s b \<longrightarrow> memdisk s' b = view s b)"
proof -
  have "log_inv s" using lreach_durable [OF assms(1)] by (simp add: durable_def)
  from sync_ok [OF this assms(2)] obtain s' where s': "sync s = Ok (lh_n s, s')" "log_outstanding s' = log_outstanding s"
      "lh_n s' = 0" "\<forall>b. home s b \<longrightarrow> memdisk s' b = view s b" by blast
  then show ?thesis using lr_sync [OF assms(1,2) s'(1)] by blast
qed

lemma sync_ignores_open_operations_witness:
  "\<exists>s :: logd. \<exists>s'. log_outstanding s = 1 \<and> sync s = Ok (1, s') \<and> memdisk s' 200 0 = 7"
proof -
  obtain s :: logd where s: "lreach s demo_disk" "held s = {}" "view s 200 = (\<lambda>_. 7)" "lh_n s = 1" "home s 200" "log_outstanding s = 1"
    using demo_transaction demo_log_inv(3) by auto
  then show ?thesis using sync_ignores_open_operations [OF s(1,2)] by auto
qed

end
