(* ===== verification/Cstring.thy ===== *)
theory Cstring
  imports Prelude
begin

text \<open>
  The string routines of the kernel (\<open>string.c\<close>) and of the user library (\<open>ulib.c\<close>), and the
  number conversions of \<open>printf.c\<close> and of project 2's \<open>pmanager.c\<close>.

  The addresses of \<open>memmove\<close> and \<open>memcmp\<close> are natural numbers: a C object does not wrap around the
  address space.  The other routines see a string as the function from the offset to the byte, which
  for the string at the address \<open>a\<close> of a memory \<open>m\<close> is \<open>\<lambda>i. m (a + i)\<close>.  A loop that ends only at a NUL is a
  \<open>partial_function\<close>: \<open>None\<close> means that it runs on forever.
\<close>

type_synonym bytes = "nat \<Rightarrow> byte"

section \<open>Blocks of memory\<close>

fun copy_up :: "nat \<Rightarrow> nat \<Rightarrow> nat \<Rightarrow> bytes \<Rightarrow> bytes" where
  "copy_up d s 0 m = m"
| "copy_up d s (Suc n) m = copy_up (Suc d) (Suc s) n (m(d := m s))"

fun copy_down :: "nat \<Rightarrow> nat \<Rightarrow> nat \<Rightarrow> bytes \<Rightarrow> bytes" where
  "copy_down d s 0 m = m"
| "copy_down d s (Suc n) m = copy_down (d - 1) (s - 1) n (m(d - 1 := m (s - 1)))"

definition memmove :: "nat \<Rightarrow> nat \<Rightarrow> nat \<Rightarrow> bytes \<Rightarrow> bytes" where
  "memmove dst src n m =
     (if src < dst \<and> dst < src + n then copy_down (dst + n) (src + n) n m else copy_up dst src n m)"

definition memcpy :: "nat \<Rightarrow> nat \<Rightarrow> nat \<Rightarrow> bytes \<Rightarrow> bytes" where
  "memcpy dst src n m = memmove dst src n m"

fun memcmp :: "nat \<Rightarrow> nat \<Rightarrow> nat \<Rightarrow> bytes \<Rightarrow> int" where
  "memcmp s1 s2 0 m = 0"
| "memcmp s1 s2 (Suc n) m = (if m s1 \<noteq> m s2 then uint (m s1) - uint (m s2) else memcmp (Suc s1) (Suc s2) n m)"

text \<open>The \<open>memmove\<close> and the \<open>memset\<close> of \<open>ulib.c\<close>.\<close>

definition memmove_user :: "nat \<Rightarrow> nat \<Rightarrow> int \<Rightarrow> bytes \<Rightarrow> bytes" where
  "memmove_user dst src n m = copy_up dst src (nat n) m"

definition memset_user :: "nat \<Rightarrow> byte \<Rightarrow> nat \<Rightarrow> bytes \<Rightarrow> bytes" where
  "memset_user dst c n m = fold (\<lambda>i m. m(dst + i := c)) [0..<n] m"

section \<open>Strings with a length\<close>

fun strncmp :: "bytes \<Rightarrow> bytes \<Rightarrow> nat \<Rightarrow> int" where
  "strncmp p q 0 = 0"
| "strncmp p q (Suc n) =
     (if p 0 \<noteq> 0 \<and> p 0 = q 0 then strncmp (\<lambda>i. p (Suc i)) (\<lambda>i. q (Suc i)) n else uint (p 0) - uint (q 0))"

fun strncpy_pad :: "nat \<Rightarrow> nat \<Rightarrow> bytes \<Rightarrow> bytes" where
  "strncpy_pad i 0 s = s"
| "strncpy_pad i (Suc n) s = strncpy_pad (Suc i) n (s(i := 0))"

fun strncpy_from :: "bytes \<Rightarrow> nat \<Rightarrow> nat \<Rightarrow> bytes \<Rightarrow> bytes" where
  "strncpy_from t i 0 s = s"
| "strncpy_from t i (Suc n) s =
     (if t i \<noteq> 0 then strncpy_from t (Suc i) n (s(i := t i)) else strncpy_pad (Suc i) n (s(i := t i)))"

definition strncpy :: "bytes \<Rightarrow> bytes \<Rightarrow> int \<Rightarrow> bytes" where
  "strncpy s t n = strncpy_from t 0 (nat n) s"

fun safestrcpy_from :: "bytes \<Rightarrow> nat \<Rightarrow> nat \<Rightarrow> bytes \<Rightarrow> bytes" where
  "safestrcpy_from t i 0 s = s(i := 0)"
| "safestrcpy_from t i (Suc n) s =
     (if t i \<noteq> 0 then safestrcpy_from t (Suc i) n (s(i := t i)) else s(i := t i, Suc i := 0))"

definition safestrcpy :: "bytes \<Rightarrow> bytes \<Rightarrow> int \<Rightarrow> bytes" where
  "safestrcpy s t n = (if n \<le> 0 then s else safestrcpy_from t 0 (nat (n - 1)) s)"

section \<open>Strings up to the NUL\<close>

partial_function (option) strlen_from :: "bytes \<Rightarrow> nat \<Rightarrow> nat option" where
  "strlen_from s n = (if s n \<noteq> 0 then strlen_from s (Suc n) else Some n)"

definition strlen :: "bytes \<Rightarrow> nat option" where
  "strlen s = strlen_from s 0"

partial_function (option) strcpy_from :: "bytes \<Rightarrow> nat \<Rightarrow> bytes \<Rightarrow> bytes option" where
  "strcpy_from t i s = (if t i \<noteq> 0 then strcpy_from t (Suc i) (s(i := t i)) else Some (s(i := t i)))"

definition strcpy :: "bytes \<Rightarrow> bytes \<Rightarrow> bytes option" where
  "strcpy s t = strcpy_from t 0 s"

partial_function (option) strcmp_from :: "bytes \<Rightarrow> bytes \<Rightarrow> nat \<Rightarrow> int option" where
  "strcmp_from p q i = (if p i \<noteq> 0 \<and> p i = q i then strcmp_from p q (Suc i) else Some (uint (p i) - uint (q i)))"

definition strcmp :: "bytes \<Rightarrow> bytes \<Rightarrow> int option" where
  "strcmp p q = strcmp_from p q 0"

text \<open>\<open>strchr\<close> returns the offset of the character, or the inner \<open>None\<close> for a null pointer.\<close>

partial_function (option) strchr_from :: "bytes \<Rightarrow> byte \<Rightarrow> nat \<Rightarrow> nat option option" where
  "strchr_from s c i = (if s i = 0 then Some None else if s i = c then Some (Some i) else strchr_from s c (Suc i))"

definition strchr :: "bytes \<Rightarrow> byte \<Rightarrow> nat option option" where
  "strchr s c = strchr_from s c 0"

text \<open>
  \<open>gets\<close> reads from standard input, here a list of bytes that ends where \<open>read\<close> returns 0.  The result
  is the line with the buffer's NUL left out, and the rest of the input.
\<close>

fun gets_from :: "nat \<Rightarrow> byte list \<Rightarrow> byte list \<times> byte list" where
  "gets_from 0 inp = ([], inp)"
| "gets_from (Suc n) [] = ([], [])"
| "gets_from (Suc n) (c # inp) =
     (if c = 10 \<or> c = 13 then ([c], inp) else let (l, r) = gets_from n inp in (c # l, r))"

definition gets :: "int \<Rightarrow> byte list \<Rightarrow> byte list \<times> byte list" where
  "gets m inp = gets_from (nat (m - 1)) inp"

section \<open>Numbers\<close>

definition digit :: "byte \<Rightarrow> bool" where
  "digit c \<longleftrightarrow> 48 \<le> c \<and> c \<le> 57"

definition digit_val :: "byte \<Rightarrow> u32" where
  "digit_val c = ucast c - 48"

partial_function (option) atoi_from :: "bytes \<Rightarrow> nat \<Rightarrow> u32 \<Rightarrow> u32 option" where
  "atoi_from s i n = (if digit (s i) then atoi_from s (Suc i) (n * 10 + digit_val (s i)) else Some n)"

definition atoi :: "bytes \<Rightarrow> u32 option" where
  "atoi s = atoi_from s 0 0"

text \<open>\<open>stoi\<close> of \<open>pmanager.c\<close>: the inner \<open>None\<close> is the result \<open>-1\<close>.\<close>

partial_function (option) stoi_from :: "bytes \<Rightarrow> nat \<Rightarrow> u32 \<Rightarrow> u32 option option" where
  "stoi_from s i r = (if s i = 0 then Some (Some r) else if \<not> digit (s i) then Some None
     else stoi_from s (Suc i) (r * 10 + digit_val (s i)))"

definition stoi :: "bytes \<Rightarrow> u32 option option" where
  "stoi s = stoi_from s 0 0"

text \<open>\<open>getword\<close> of \<open>pmanager.c\<close>: the word, and the offset behind it; \<open>None\<close> inside for the null pointer.\<close>

partial_function (option) getword_from :: "bytes \<Rightarrow> nat \<Rightarrow> nat \<Rightarrow> bytes \<Rightarrow> (nat \<times> bytes) option" where
  "getword_from b i k w =
     (if b i = 0 then Some (i, w(k := 0))
      else if b i = 32 then Some (Suc i, w(k := 0))
      else getword_from b (Suc i) (Suc k) (w(k := b i)))"

definition getword :: "bytes \<Rightarrow> nat \<Rightarrow> bytes \<Rightarrow> nat \<Rightarrow> (nat \<times> bytes) option option" where
  "getword b i w nword =
     (if b i = 0 then Some None
      else case getword_from b i 0 (\<lambda>k. if k < nword then 0 else w k) of
        None \<Rightarrow> None | Some r \<Rightarrow> Some (Some r))"

text \<open>
  \<open>printint\<close>: the bytes it writes.  The bases used are 10 and 16; for a base below 2 the loop of
  the code does not end, and the model stops after one digit.
\<close>

definition digit_char :: "u32 \<Rightarrow> byte" where
  "digit_char d = (if d < 10 then 48 + ucast d else 55 + ucast d)"

lemma word_div_less: "(1::u32) < b \<Longrightarrow> x \<noteq> 0 \<Longrightarrow> x div b < x"
  by (simp add: word_less_nat_alt unat_div unat_gt_0)

function (sequential) digits_from :: "u32 \<Rightarrow> u32 \<Rightarrow> byte list" where
  "digits_from base x =
     (if x div base \<noteq> 0 \<and> 1 < base then digit_char (x mod base) # digits_from base (x div base)
      else [digit_char (x mod base)])"
  by pat_completeness auto

termination
proof (relation "measure (\<lambda>(b, x). unat x)", simp_all)
  fix b x :: u32 assume "x div b \<noteq> 0 \<and> 1 < b"
  then have "x div b < x" by (intro word_div_less) auto
  then show "unat (x div b) < unat x" by (simp add: word_less_nat_alt)
qed

declare digits_from.simps [simp del]

definition printint :: "u32 \<Rightarrow> u32 \<Rightarrow> bool \<Rightarrow> byte list" where
  "printint xx base sg =
     (let neg = (sg \<and> xx <s 0); x = (if neg then - xx else xx);
          buf = digits_from base x;
          buf = (if neg then buf @ [45] else buf)
      in rev buf)"

text \<open>
  \<open>printf\<close>: \<open>ap\<close> is the stack from the first argument on, \<open>str a\<close> the characters of the string
  at the address \<open>a\<close>; the flag says that the last character was a percent sign.
\<close>

fun printf_from :: "(u32 \<Rightarrow> byte list) \<Rightarrow> (nat \<Rightarrow> u32) \<Rightarrow> byte list \<Rightarrow> bool \<Rightarrow> byte list" where
  "printf_from str ap [] st = []"
| "printf_from str ap (c # fmt) False =
     (if c = 37 then printf_from str ap fmt True else c # printf_from str ap fmt False)"
| "printf_from str ap (c # fmt) True =
     (if c = 100 then printint (ap 0) 10 True @ printf_from str (\<lambda>i. ap (Suc i)) fmt False
      else if c = 120 \<or> c = 112 then printint (ap 0) 16 False @ printf_from str (\<lambda>i. ap (Suc i)) fmt False
      else if c = 115 then (if ap 0 = 0 then [40, 110, 117, 108, 108, 41] else str (ap 0))
                           @ printf_from str (\<lambda>i. ap (Suc i)) fmt False
      else if c = 99 then ucast (ap 0) # printf_from str (\<lambda>i. ap (Suc i)) fmt False
      else if c = 37 then c # printf_from str ap fmt False
      else 37 # c # printf_from str ap fmt False)"

definition printf :: "(u32 \<Rightarrow> byte list) \<Rightarrow> byte list \<Rightarrow> (nat \<Rightarrow> u32) \<Rightarrow> byte list" where
  "printf str fmt ap = printf_from str ap fmt False"

end
