(* ===== verification/Cstring_Props.thy ===== *)
theory Cstring_Props
  imports Cstring
begin

text \<open>
  What the string routines compute: \<open>memmove\<close> is the simultaneous copy whatever the overlap, the
  bounded routines stay inside their buffers, and reading back a number that \<open>printint\<close> wrote
  gives the number.
\<close>

section \<open>Overlapping copies\<close>

lemma copy_up_out: "a < d \<or> d + n \<le> a \<Longrightarrow> copy_up d s n m a = m a"
  by (induction n arbitrary: d s m) auto

lemma copy_up_in: "d \<le> s \<or> s + n \<le> d \<Longrightarrow> k < n \<Longrightarrow> copy_up d s n m (d + k) = m (s + k)"
proof (induction n arbitrary: d s m k)
  case (Suc n)
  show ?case
  proof (cases k)
    case 0
    then show ?thesis by (simp add: copy_up_out)
  next
    case (Suc j)
    have "copy_up (Suc d) (Suc s) n (m(d := m s)) (Suc d + j) = (m(d := m s)) (Suc s + j)"
      using Suc.prems Suc by (intro Suc.IH) auto
    then show ?thesis using Suc.prems Suc by auto
  qed
qed simp

lemma copy_down_out: "a < d \<or> d + n \<le> a \<Longrightarrow> copy_down (d + n) (s + n) n m a = m a"
proof (induction n arbitrary: m)
  case (Suc n)
  then show ?case using Suc.IH [of "m(d + n := m (s + n))"] by auto
qed simp

lemma copy_down_in: "s \<le> d \<Longrightarrow> k < n \<Longrightarrow> copy_down (d + n) (s + n) n m (d + k) = m (s + k)"
proof (induction n arbitrary: m)
  case (Suc n)
  then show ?case using Suc.IH [of "m(d + n := m (s + n))"] copy_down_out [of "d + n" d n s "m(d + n := m (s + n))"]
    by (cases "k = n") auto
qed simp

text \<open>
  C40.  \<open>memmove\<close> copies the bytes the source had before the call, whether it has to go up or down,
  and changes nothing outside the destination; the library version, which always goes up, does the
  same unless the destination starts inside the source.
\<close>

theorem memmove_copies:
  "memmove dst src n m = (\<lambda>a. if dst \<le> a \<and> a < dst + n then m (src + (a - dst)) else m a)
   \<and> (memmove_user dst src (int n) m = memmove dst src n m \<or> src < dst \<and> dst < src + n)"
proof -
  have "memmove dst src n m = (\<lambda>a. if dst \<le> a \<and> a < dst + n then m (src + (a - dst)) else m a)"
  proof
    fix a
    show "memmove dst src n m a = (if dst \<le> a \<and> a < dst + n then m (src + (a - dst)) else m a)"
    proof (cases "dst \<le> a \<and> a < dst + n")
      case True
      then obtain k where "a = dst + k" "k < n" using less_eqE by (metis nat_add_left_cancel_less)
      then show ?thesis by (auto simp: memmove_def copy_up_in copy_down_in)
    next
      case False
      then have "a < dst \<or> dst + n \<le> a" by linarith
      then show ?thesis using False by (auto simp: memmove_def copy_up_out copy_down_out)
    qed
  qed
  then show ?thesis by (auto simp: memmove_user_def memmove_def)
qed

section \<open>Names of bounded length\<close>

text \<open>The characters of a string that is bounded by \<open>n\<close> and ends earlier at a NUL.\<close>

definition chars :: "bytes \<Rightarrow> nat \<Rightarrow> byte list" where
  "chars p n = takeWhile (\<lambda>c. c \<noteq> 0) (map p [0..<n])"

lemma chars_Suc: "chars p (Suc n) = (if p 0 = 0 then [] else p 0 # chars (\<lambda>i. p (Suc i)) n)"
proof -
  have "map p [0..<Suc n] = p 0 # map (\<lambda>i. p (Suc i)) [0..<n]"
    by (simp add: upt_conv_Cons map_upt_shift del: upt_Suc)
  then show ?thesis by (simp add: chars_def del: upt_Suc)
qed

lemma strncmp_chars: "strncmp p q n = 0 \<longleftrightarrow> chars p n = chars q n"
proof (induction p q n rule: strncmp.induct)
  case (2 p q n)
  have "uint (p 0) - uint (q 0) = 0 \<longleftrightarrow> p 0 = q 0" by (simp add: uint_word_arith_bintrs word_uint_eq_iff)
  then show ?case using 2 by (auto simp: chars_Suc)
qed (simp add: chars_def)

lemma strncpy_pad_eq: "strncpy_pad i n s = (\<lambda>k. if i \<le> k \<and> k < i + n then 0 else s k)"
  by (induction n arbitrary: i s) (auto simp: fun_eq_iff)

lemma strncpy_from_low: "k < i \<Longrightarrow> strncpy_from t i n s k = s k"
  by (induction n arbitrary: i s) (auto simp: strncpy_pad_eq)

lemma strncpy_from_high: "i + n \<le> k \<Longrightarrow> strncpy_from t i n s k = s k"
  by (induction n arbitrary: i s) (auto simp: strncpy_pad_eq)

lemma strncpy_from_mid:
  "d < n \<Longrightarrow> strncpy_from t i n s (i + d) = (if \<exists>j\<le>d. t (i + j) = 0 then 0 else t (i + d))"
proof (induction n arbitrary: i s d)
  case (Suc n)
  show ?case
  proof (cases "t i = 0")
    case True
    then have "\<exists>j\<le>d. t (i + j) = 0" by (intro exI [of _ 0]) simp
    then show ?thesis using True Suc.prems by (auto simp: strncpy_pad_eq)
  next
    case False
    show ?thesis
    proof (cases d)
      case 0
      then show ?thesis using False by (simp add: strncpy_from_low)
    next
      case (Suc e)
      have "(\<exists>j\<le>d. t (i + j) = 0) \<longleftrightarrow> (\<exists>j\<le>e. t (Suc i + j) = 0)"
        using False Suc by (metis Nat.add_0_right add_Suc add_Suc_right not0_implies_Suc not_less_eq_eq)
      then show ?thesis using False Suc Suc.IH [of e "Suc i" "s(i := t i)"] Suc.prems by (simp add: fun_upd_def)
    qed
  qed
qed simp

lemma strncpy_eq: "strncpy s t n = (\<lambda>k. if int k < n then (if \<exists>j\<le>k. t j = 0 then 0 else t k) else s k)"
  using strncpy_from_mid [of _ "nat n" t 0 s] strncpy_from_high [of 0 "nat n" _ t s]
  by (auto simp: strncpy_def fun_eq_iff zless_nat_eq_int_zless not_less nat_le_iff)

lemma chars_cong:
  "(\<And>i. i < n \<Longrightarrow> (\<forall>j<i. q j \<noteq> 0) \<Longrightarrow> p i = q i) \<Longrightarrow> chars p n = chars q n"
proof (induction n arbitrary: p q)
  case (Suc n)
  have "p 0 = q 0" using Suc.prems by simp
  moreover have "chars (\<lambda>i. p (Suc i)) n = chars (\<lambda>i. q (Suc i)) n" if "q 0 \<noteq> 0"
  proof (rule Suc.IH)
    fix i assume "i < n" "\<forall>j<i. q (Suc j) \<noteq> 0"
    then have "\<forall>j<Suc i. q j \<noteq> 0" using that less_Suc_eq_0_disj by auto
    then show "p (Suc i) = q (Suc i)" using Suc.prems [of "Suc i"] \<open>i < n\<close> by simp
  qed
  ultimately show ?case by (simp add: chars_Suc)
qed (simp add: chars_def)

lemma chars_strncpy: "chars (strncpy s t (int n)) n = chars t n"
  by (rule chars_cong) (auto simp: strncpy_eq le_less)

lemma safestrcpy_from_out: "k < i \<or> i + n < k \<Longrightarrow> safestrcpy_from t i n s k = s k"
  by (induction n arbitrary: i s) auto

lemma safestrcpy_from_in:
  "\<exists>e\<le>n. safestrcpy_from t i n s (i + e) = 0 \<and> (\<forall>j<e. t (i + j) \<noteq> 0 \<and> safestrcpy_from t i n s (i + j) = t (i + j))
     \<and> (e < n \<longrightarrow> t (i + e) = 0)"
proof (induction n arbitrary: i s)
  case (Suc n)
  show ?case
  proof (cases "t i = 0")
    case True
    then show ?thesis by (intro exI [of _ 0]) simp
  next
    case False
    let ?s = "safestrcpy_from t (Suc i) n (s(i := t i))"
    obtain e where e: "e \<le> n" "?s (Suc i + e) = 0" "\<forall>j<e. t (Suc i + j) \<noteq> 0 \<and> ?s (Suc i + j) = t (Suc i + j)"
        "e < n \<longrightarrow> t (Suc i + e) = 0"
      using Suc.IH by blast
    have z: "?s i = t i" by (simp add: safestrcpy_from_out)
    have "t (i + j) \<noteq> 0 \<and> safestrcpy_from t i (Suc n) s (i + j) = t (i + j)" if "j < Suc e" for j
      using that e(3) z False by (cases j) simp_all
    then show ?thesis using e False by (intro exI [of _ "Suc e"]) simp
  qed
qed simp

text \<open>
  The bounded string copies never leave a destination of \<open>n > 0\<close> bytes.  \<open>safestrcpy\<close> leaves a
  NUL in it behind the longest prefix of the source that fits; \<open>strncpy\<close> fills it up with NULs, and the
  name it stores compares equal to the source under \<open>strncmp\<close> with the same bound.
\<close>

theorem bounded_copies:
  assumes "0 < n"
  shows "(\<forall>k. int k \<ge> n \<longrightarrow> safestrcpy s t n k = s k \<and> strncpy s t n k = s k)
    \<and> (\<exists>e. int e < n \<and> safestrcpy s t n e = 0 \<and> (\<forall>j<e. t j \<noteq> 0 \<and> safestrcpy s t n j = t j)
         \<and> (int e < n - 1 \<longrightarrow> t e = 0))
    \<and> strncmp (strncpy s t n) t (nat n) = 0"
proof -
  obtain m where m: "n = int (Suc m)" using assms by (metis Suc_pred zero_less_imp_eq_int)
  have e: "safestrcpy s t n = safestrcpy_from t 0 m s" by (simp add: safestrcpy_def m)
  have "safestrcpy s t n k = s k \<and> strncpy s t n k = s k" if "int k \<ge> n" for k
    using that safestrcpy_from_out [of k 0 m t s] unfolding e by (simp add: strncpy_eq m)
  moreover have "\<exists>e. int e < n \<and> safestrcpy s t n e = 0 \<and> (\<forall>j<e. t j \<noteq> 0 \<and> safestrcpy s t n j = t j)
         \<and> (int e < n - 1 \<longrightarrow> t e = 0)"
  proof -
    obtain i where "i \<le> m" "safestrcpy_from t 0 m s i = 0" "\<forall>j<i. t j \<noteq> 0 \<and> safestrcpy_from t 0 m s j = t j" "i < m \<longrightarrow> t i = 0"
      using safestrcpy_from_in [of m t 0 s] by auto
    then show ?thesis unfolding e by (intro exI [of _ i]) (simp add: m)
  qed
  moreover have "strncmp (strncpy s t n) t (nat n) = 0"
    using chars_strncpy [of s t "Suc m"] unfolding m nat_int by (simp only: strncmp_chars)
  ultimately show ?thesis by blast
qed

lemma bounded_copies_witness:
  "strncmp (strncpy (\<lambda>_. 7) (\<lambda>i. if i < 20 then 65 else 0) 14) (\<lambda>i. if i < 20 then 65 else 0) 14 = 0"
  using bounded_copies [of 14 "\<lambda>_. 7" "\<lambda>i. if i < 20 then 65 else 0"] by simp

section \<open>Numbers\<close>

text \<open>The string that a list of characters is in memory.\<close>

definition cstr :: "byte list \<Rightarrow> bytes" where
  "cstr xs = (\<lambda>i. if i < length xs then xs ! i else 0)"

lemma stoi_from_cstr:
  assumes "\<forall>c\<in>set ys. digit c"
  shows "stoi_from (cstr (xs @ ys)) (length xs) r = Some (Some (foldl (\<lambda>r c. r * 10 + digit_val c) r ys))"
  using assms
proof (induction ys arbitrary: xs r)
  case Nil
  then show ?case by (subst stoi_from.simps) (simp add: cstr_def)
next
  case (Cons y ys)
  have "y \<noteq> 0" using Cons.prems by (auto simp: digit_def)
  then show ?case using Cons.prems Cons.IH [of "xs @ [y]" "r * 10 + digit_val y"]
    by (subst stoi_from.simps) (simp add: cstr_def nth_append)
qed

lemma digit_char_digit:
  assumes "x < 10"
  shows "digit (digit_char x) \<and> digit_val (digit_char x) = x"
proof -
  have "unat x < 10" using assms by (simp add: word_less_nat_alt)
  then have "x \<in> word_of_nat ` {..<10}" by (intro image_eqI [of _ _ "unat x"]) simp_all
  then show ?thesis by (auto simp: digit_char_def digit_def digit_val_def lessThan_nat_numeral)
qed

lemma digits_value:
  "(\<forall>c\<in>set (digits_from 10 x). digit c) \<and> foldr (\<lambda>c r. r * 10 + digit_val c) (digits_from 10 x) 0 = x"
proof (induction x rule: measure_induct_rule [of unat])
  case (less x)
  have m: "x mod 10 < (10 :: u32)" by (simp add: word_less_nat_alt unat_mod)
  show ?case
  proof (cases "x div 10 = 0")
    case True
    then have "x mod 10 = x" using div_mult_mod_eq [of x 10] by simp
    then show ?thesis using True digit_char_digit [OF m] by (subst (1 2) digits_from.simps) simp
  next
    case False
    then have "x \<noteq> 0" by auto
    then have "unat (x div 10) < unat x" using word_div_less [of 10 x] by (simp add: word_less_nat_alt)
    note IH = less [OF this]
    have "x div 10 * 10 + x mod 10 = x" by (rule div_mult_mod_eq)
    then show ?thesis using False digit_char_digit [OF m] IH by (subst (1 2) digits_from.simps) simp
  qed
qed

lemma digits_length: "10 \<le> b \<Longrightarrow> unat x < 10 ^ Suc k \<Longrightarrow> length (digits_from b x) \<le> Suc k"
proof (induction k arbitrary: x)
  case 0
  have "x div b = 0"
    using 0 by (intro word_unat_eq_iff [THEN iffD2]) (simp add: word_le_nat_alt unat_div)
  then show ?case by (subst digits_from.simps) simp
next
  case (Suc k)
  have "unat x div unat b \<le> unat x div 10" using Suc.prems(1) by (intro div_le_mono2) (auto simp: word_le_nat_alt)
  also have "\<dots> < 10 ^ Suc k" using Suc.prems(2) by (simp add: div_less_iff_less_mult)
  finally have "unat (x div b) < 10 ^ Suc k" by (simp add: unat_div)
  then have "length (digits_from b (x div b)) \<le> Suc k" by (rule Suc.IH [OF Suc.prems(1)])
  then show ?case by (subst digits_from.simps) simp
qed

text \<open>
  Printing and reading a number: what \<open>printint\<close> prints in base ten for a number that is not
  negative, \<open>stoi\<close> reads back as the same number; in base ten and above the output never overflows the
  16 bytes of its buffer.
\<close>

theorem print_number_roundtrip:
  "(\<not> x <s 0 \<longrightarrow> stoi (cstr (printint x 10 True)) = Some (Some x))
   \<and> stoi (cstr (printint x 10 False)) = Some (Some x)
   \<and> (10 \<le> b \<longrightarrow> length (printint x b sg) \<le> 11)"
proof -
  have "stoi (cstr (rev (digits_from 10 x))) = Some (Some x)"
    using stoi_from_cstr [of "rev (digits_from 10 x)" "[]" 0] digits_value [of x]
    by (simp add: stoi_def foldl_conv_foldr)
  moreover have "length (digits_from b y) \<le> 10" if "10 \<le> b" for y
    using digits_length [OF that, of y 9] unsigned_less [of y, where 'a = nat] by simp
  then have "10 \<le> b \<Longrightarrow> length (digits_from b x) \<le> 10 \<and> length (digits_from b (- x)) \<le> 10" by blast
  then have "10 \<le> b \<Longrightarrow> length (digits_from b x) \<le> 11 \<and> length (digits_from b (- x)) \<le> 10" by force
  ultimately show ?thesis by (simp add: printint_def Let_def)
qed

lemma print_number_roundtrip_witness:
  "stoi (cstr (printint 2024 10 True)) = Some (Some 2024) \<and> length (printint 2024 16 False) \<le> 11"
  using print_number_roundtrip [of 2024 16 False] by (simp add: word_sless_alt)

end
