(* ===== verification/Fs.thy ===== *)
theory Fs
  imports Log Cstring
begin

text \<open>
  The file system of project 3, \<open>fs.c\<close>: the free bitmap, inodes with direct, single, double and triple
  indirect blocks, directories and path names, on the log and the buffer cache.

  A pointer to an inode is its index in \<open>icache.inode\<close>, and a null pointer where the code tests for it is
  \<open>None\<close>.  A block of the disk is read and written as the bytes of its buffer, through \<open>get32\<close> and
  \<open>put32\<close> and the 16-bit \<open>get16\<close> and \<open>put16\<close>; the structures \<open>dinode\<close> and \<open>dirent\<close> are given by
  the offsets of their fields.  \<open>cwd\<close> is \<open>myproc()->cwd\<close>; the device functions of \<open>devsw\<close> are components
  of the state, \<open>None\<close> for a null pointer.  A loop that returns from its body runs over the list of its
  counter's values (\<open>kfirst\<close>): the bounds \<open>sb.size\<close>, \<open>sb.ninodes\<close> and \<open>dp->size\<close> do not change in the
  loops, and \<open>sb.size\<close> and \<open>sb.ninodes\<close> are below 2^31, so that the signed counters are natural numbers.
\<close>

definition NINODE :: nat where "NINODE = 50"
definition NDEV :: int where "NDEV = 10"
definition ROOTDEV :: u32 where "ROOTDEV = 1"
definition ROOTINO :: u32 where "ROOTINO = 1"
definition NDIRECT :: nat where "NDIRECT = 6"
definition NINDIRECT :: nat where "NINDIRECT = BSIZE div 4"
definition NDINDIRECT :: nat where "NDINDIRECT = NINDIRECT * NINDIRECT"
definition NTINDIRECT :: nat where "NTINDIRECT = NINDIRECT * NINDIRECT * NINDIRECT"
definition MAXFILE :: nat where "MAXFILE = NDIRECT + NINDIRECT + NDINDIRECT + NTINDIRECT"
definition DINODE :: nat where "DINODE = 64"
definition IPB :: nat where "IPB = BSIZE div DINODE"
definition BPB :: nat where "BPB = BSIZE * 8"
definition DIRSIZ :: nat where "DIRSIZ = 14"
definition DIRENT :: nat where "DIRENT = 16"

type_synonym u16 = "16 word"

definition T_DIR :: u16 where "T_DIR = 1"
definition T_FILE :: u16 where "T_FILE = 2"
definition T_DEV :: u16 where "T_DEV = 3"
definition T_SYM :: u16 where "T_SYM = 4"

record inode =
  i_dev :: u32
  i_inum :: u32
  i_ref :: int
  i_lock :: sleeplock
  i_valid :: bool
  i_path :: bytes
  i_type :: u16
  i_major :: u16
  i_minor :: u16
  i_nlink :: u16
  i_size :: u32
  i_addrs :: "nat \<Rightarrow> u32"

record stat =
  st_type :: u16
  st_dev :: u32
  st_ino :: u32
  st_nlink :: u16
  st_size :: u32

record fsys = logd +
  sb :: superblock
  inodes :: "nat \<Rightarrow> inode"
  cwd :: nat
  dev_read :: "int \<Rightarrow> (u32 \<Rightarrow> int \<times> byte list) option"
  dev_write :: "int \<Rightarrow> (byte list \<Rightarrow> int) option"

definition updi :: "nat \<Rightarrow> (inode \<Rightarrow> inode) \<Rightarrow> 'a fsys_scheme \<Rightarrow> 'a fsys_scheme" where
  "updi ip f s = s\<lparr>inodes := (inodes s)(ip := f (inodes s ip))\<rparr>"

definition BBLOCK :: "nat \<Rightarrow> 'a fsys_scheme \<Rightarrow> u32" where
  "BBLOCK b s = of_nat (b div BPB) + sb_bmapstart (sb s)"

definition IBLOCK :: "u32 \<Rightarrow> 'a fsys_scheme \<Rightarrow> u32" where
  "IBLOCK i s = of_nat (unat i div IPB) + sb_inodestart (sb s)"

section \<open>Fields of blocks\<close>

definition get16 :: "block \<Rightarrow> nat \<Rightarrow> u16" where
  "get16 d a = ucast (d a) OR push_bit 8 (ucast (d (Suc a)))"

definition put16 :: "block \<Rightarrow> nat \<Rightarrow> u16 \<Rightarrow> block" where
  "put16 d a v = d(a := ucast v, Suc a := ucast (drop_bit 8 v))"

text \<open>\<open>dip\<close> is the byte offset of the inode in its block.\<close>

definition dip_of :: "u32 \<Rightarrow> nat" where
  "dip_of i = unat i mod IPB * DINODE"

section \<open>Loops\<close>

fun kfirst :: "('b \<Rightarrow> 's \<Rightarrow> ('r option \<times> 's) kres) \<Rightarrow> 'b list \<Rightarrow> 's \<Rightarrow> ('r option \<times> 's) kres" where
  "kfirst f [] s = Ok (None, s)"
| "kfirst f (x # xs) s = kbind (f x s) (\<lambda>(r, s). case r of Some v \<Rightarrow> Ok (Some v, s) | None \<Rightarrow> kfirst f xs s)"

definition steps :: "nat \<Rightarrow> nat \<Rightarrow> nat list" where
  "steps d n = map (\<lambda>i. i * d) [0..<(n + d - 1) div d]"

section \<open>Blocks\<close>

definition zero_block :: "block \<Rightarrow> block" where
  "zero_block d = (\<lambda>i. if i < BSIZE then 0 else d i)"

definition bzero :: "u32 \<Rightarrow> u32 \<Rightarrow> 'a fsys_scheme \<Rightarrow> 'a fsys_scheme kres" where
  "bzero dev bno s =
     kbind (bread dev bno s) (\<lambda>(bp, s).
     kbind (log_write bp (setdata bp (zero_block (bdata (bufs s bp))) s)) (brelse bp))"

definition bit_of :: "block \<Rightarrow> nat \<Rightarrow> bool" where
  "bit_of d bi \<longleftrightarrow> d (bi div 8) AND push_bit (bi mod 8) 1 \<noteq> 0"

definition balloc_step :: "u32 \<Rightarrow> nat \<Rightarrow> 'a fsys_scheme \<Rightarrow> (u32 option \<times> 'a fsys_scheme) kres" where
  "balloc_step dev b s =
     kbind (bread dev (BBLOCK b s) s) (\<lambda>(bp, s).
     let d = bdata (bufs s bp) in
     case find (\<lambda>bi. \<not> bit_of d bi) [0..<min BPB (unat (sb_size (sb s)) - b)] of
       Some bi \<Rightarrow>
         kbind (log_write bp (setdata bp (d(bi div 8 := d (bi div 8) OR push_bit (bi mod 8) 1)) s)) (\<lambda>s.
         kbind (brelse bp s) (\<lambda>s.
         kbind (bzero dev (of_nat (b + bi)) s) (\<lambda>s. Ok (Some (of_nat (b + bi)), s))))
     | None \<Rightarrow> kbind (brelse bp s) (\<lambda>s. Ok (None, s)))"

definition balloc :: "u32 \<Rightarrow> 'a fsys_scheme \<Rightarrow> (u32 \<times> 'a fsys_scheme) kres" where
  "balloc dev s =
     kbind (kfirst (balloc_step dev) (steps BPB (unat (sb_size (sb s)))) s) (\<lambda>(r, s).
     case r of Some b \<Rightarrow> Ok (b, s) | None \<Rightarrow> Panic ''balloc: out of blocks'')"

definition bfree :: "u32 \<Rightarrow> u32 \<Rightarrow> 'a fsys_scheme \<Rightarrow> 'a fsys_scheme kres" where
  "bfree dev b s =
     kbind (bread dev (BBLOCK (unat b) s) s) (\<lambda>(bp, s).
     let bi = unat b mod BPB; d = bdata (bufs s bp) in
     if \<not> bit_of d bi then Panic ''freeing free block''
     else kbind (log_write bp (setdata bp (d(bi div 8 := d (bi div 8) AND NOT (push_bit (bi mod 8) 1))) s)) (brelse bp))"

section \<open>The inode cache\<close>

definition iinit :: "u32 \<Rightarrow> 'a fsys_scheme \<Rightarrow> 'a fsys_scheme kres" where
  "iinit dev s =
     (let s = fold (\<lambda>i. updi i (i_lock_update (\<lambda>_. initsleeplock))) [0..<NINODE] s in
      kbind (readsb dev s) (\<lambda>(b, s). Ok (s\<lparr>sb := b\<rparr>)))"

definition iget :: "u32 \<Rightarrow> u32 \<Rightarrow> 'a fsys_scheme \<Rightarrow> (nat \<times> 'a fsys_scheme) kres" where
  "iget dev inum s =
     (case find (\<lambda>ip. 0 < i_ref (inodes s ip) \<and> i_dev (inodes s ip) = dev \<and> i_inum (inodes s ip) = inum) [0..<NINODE] of
       Some ip \<Rightarrow> Ok (ip, updi ip (\<lambda>r. r\<lparr>i_ref := i_ref r + 1\<rparr>) s)
     | None \<Rightarrow>
         (case find (\<lambda>ip. i_ref (inodes s ip) = 0) [0..<NINODE] of
           None \<Rightarrow> Panic ''iget: no inodes''
         | Some ip \<Rightarrow> Ok (ip, updi ip (\<lambda>r. r\<lparr>i_dev := dev, i_inum := inum, i_ref := 1, i_valid := False\<rparr>) s)))"

definition idup :: "nat \<Rightarrow> 'a fsys_scheme \<Rightarrow> nat \<times> 'a fsys_scheme" where
  "idup ip s = (ip, updi ip (\<lambda>r. r\<lparr>i_ref := i_ref r + 1\<rparr>) s)"

definition ialloc_step :: "u32 \<Rightarrow> u16 \<Rightarrow> nat \<Rightarrow> 'a fsys_scheme \<Rightarrow> (nat option \<times> 'a fsys_scheme) kres" where
  "ialloc_step dev ty inum s =
     kbind (bread dev (IBLOCK (of_nat inum) s) s) (\<lambda>(bp, s).
     let d = bdata (bufs s bp); dip = dip_of (of_nat inum) in
     if get16 d dip = 0
     then let d = (\<lambda>i. if dip \<le> i \<and> i < dip + DINODE then 0 else d i) in
          kbind (log_write bp (setdata bp (put16 d dip ty) s)) (\<lambda>s.
          kbind (brelse bp s) (\<lambda>s.
          kbind (iget dev (of_nat inum) s) (\<lambda>(ip, s). Ok (Some ip, s))))
     else kbind (brelse bp s) (\<lambda>s. Ok (None, s)))"

definition ialloc :: "u32 \<Rightarrow> u16 \<Rightarrow> 'a fsys_scheme \<Rightarrow> (nat \<times> 'a fsys_scheme) kres" where
  "ialloc dev ty s =
     kbind (kfirst (ialloc_step dev ty) [1..<unat (sb_ninodes (sb s))] s) (\<lambda>(r, s).
     case r of Some ip \<Rightarrow> Ok (ip, s) | None \<Rightarrow> Panic ''ialloc: no inodes'')"

definition put_addrs :: "block \<Rightarrow> nat \<Rightarrow> (nat \<Rightarrow> u32) \<Rightarrow> block" where
  "put_addrs d dip a = fold (\<lambda>i d. put32 d (dip + 28 + 4 * i) (a i)) [0..<NDIRECT + 3] d"

definition put_dinode :: "block \<Rightarrow> nat \<Rightarrow> inode \<Rightarrow> block" where
  "put_dinode d dip r =
     (let d = put16 d dip (i_type r);
          d = put16 d (dip + 2) (i_major r);
          d = put16 d (dip + 4) (i_minor r);
          d = put16 d (dip + 6) (i_nlink r);
          d = put32 d (dip + 8) (i_size r)
      in put_addrs d dip (i_addrs r))"

definition get_dinode :: "block \<Rightarrow> nat \<Rightarrow> inode \<Rightarrow> inode" where
  "get_dinode d dip r = r\<lparr>i_type := get16 d dip, i_major := get16 d (dip + 2), i_minor := get16 d (dip + 4),
     i_nlink := get16 d (dip + 6), i_size := get32 d (dip + 8),
     i_addrs := (\<lambda>i. if i < NDIRECT + 3 then get32 d (dip + 28 + 4 * i) else i_addrs r i)\<rparr>"

definition iupdate :: "nat \<Rightarrow> 'a fsys_scheme \<Rightarrow> 'a fsys_scheme kres" where
  "iupdate ip s =
     kbind (bread (i_dev (inodes s ip)) (IBLOCK (i_inum (inodes s ip)) s) s) (\<lambda>(bp, s).
     let r = inodes s ip in
     kbind (log_write bp (setdata bp (put_dinode (bdata (bufs s bp)) (dip_of (i_inum r)) r) s)) (brelse bp))"

definition ilock :: "nat \<Rightarrow> 'a fsys_scheme \<Rightarrow> 'a fsys_scheme kres" where
  "ilock ip s =
     (if i_ref (inodes s ip) < 1 then Panic ''ilock''
      else kbind (acquiresleep (ChInode ip) (fpid s) (i_lock (inodes s ip))) (\<lambda>l.
      let s = updi ip (i_lock_update (\<lambda>_. l)) s in
      if \<not> i_valid (inodes s ip)
      then kbind (bread (i_dev (inodes s ip)) (IBLOCK (i_inum (inodes s ip)) s) s) (\<lambda>(bp, s).
           let s = updi ip (get_dinode (bdata (bufs s bp)) (dip_of (i_inum (inodes s ip)))) s in
           kbind (brelse bp s) (\<lambda>s.
           let s = updi ip (i_valid_update (\<lambda>_. True)) s in
           if i_type (inodes s ip) = 0 then Panic ''ilock: no type'' else Ok s))
      else Ok s))"

definition iunlock :: "nat \<Rightarrow> 'a fsys_scheme \<Rightarrow> 'a fsys_scheme kres" where
  "iunlock ip s =
     (if \<not> holdingsleep (fpid s) (i_lock (inodes s ip)) \<or> i_ref (inodes s ip) < 1 then Panic ''iunlock''
      else Ok (updi ip (i_lock_update releasesleep) s))"

end
