(* ===== verification/Fs_Data.thy ===== *)
theory Fs_Data
  imports Fs
begin

text \<open>
  The contents of inodes, in \<open>fs.c\<close> of project 3: the map from block numbers of a file to disk
  blocks with its three levels of indirection, truncation, and reading and writing.
\<close>

section \<open>The block map\<close>

text \<open>An entry of \<open>ip->addrs\<close>, and an entry of the locked indirect block \<open>bp\<close>, allocated if it is zero.\<close>

definition addr_entry :: "nat \<Rightarrow> nat \<Rightarrow> 'a fsys_scheme \<Rightarrow> (u32 \<times> 'a fsys_scheme) kres" where
  "addr_entry ip k s =
     (let addr = i_addrs (inodes s ip) k in
      if addr = 0
      then kbind (balloc (i_dev (inodes s ip)) s) (\<lambda>(addr, s).
           Ok (addr, updi ip (\<lambda>r. r\<lparr>i_addrs := (i_addrs r)(k := addr)\<rparr>) s))
      else Ok (addr, s))"

definition ind_entry :: "u32 \<Rightarrow> nat \<Rightarrow> nat \<Rightarrow> 'a fsys_scheme \<Rightarrow> (u32 \<times> 'a fsys_scheme) kres" where
  "ind_entry dev bp k s =
     (let addr = get32 (bdata (bufs s bp)) (4 * k) in
      if addr = 0
      then kbind (balloc dev s) (\<lambda>(addr, s).
           kbind (log_write bp (setdata bp (put32 (bdata (bufs s bp)) (4 * k) addr) s)) (\<lambda>s. Ok (addr, s)))
      else Ok (addr, s))"

text \<open>The way from the top indirect block \<open>addr\<close> of a single, double or triple indirect range.\<close>

definition bmap_single :: "u32 \<Rightarrow> u32 \<Rightarrow> nat \<Rightarrow> 'a fsys_scheme \<Rightarrow> (u32 \<times> 'a fsys_scheme) kres" where
  "bmap_single dev addr k s =
     kbind (bread dev addr s) (\<lambda>(bp, s).
     kbind (ind_entry dev bp k s) (\<lambda>(addr, s).
     kbind (brelse bp s) (\<lambda>s. Ok (addr, s))))"

definition bmap_double :: "u32 \<Rightarrow> u32 \<Rightarrow> nat \<Rightarrow> nat \<Rightarrow> 'a fsys_scheme \<Rightarrow> (u32 \<times> 'a fsys_scheme) kres" where
  "bmap_double dev addr dindex index s =
     kbind (bread dev addr s) (\<lambda>(dbp, s).
     kbind (ind_entry dev dbp dindex s) (\<lambda>(addr, s).
     kbind (bread dev addr s) (\<lambda>(bp, s).
     kbind (ind_entry dev bp index s) (\<lambda>(addr, s).
     kbind (brelse bp s) (\<lambda>s.
     kbind (brelse dbp s) (\<lambda>s. Ok (addr, s)))))))"

definition bmap_triple :: "u32 \<Rightarrow> u32 \<Rightarrow> nat \<Rightarrow> nat \<Rightarrow> nat \<Rightarrow> 'a fsys_scheme \<Rightarrow> (u32 \<times> 'a fsys_scheme) kres" where
  "bmap_triple dev addr tindex dindex index s =
     kbind (bread dev addr s) (\<lambda>(tbp, s).
     kbind (ind_entry dev tbp tindex s) (\<lambda>(addr, s).
     kbind (bread dev addr s) (\<lambda>(dbp, s).
     kbind (ind_entry dev dbp dindex s) (\<lambda>(addr, s).
     kbind (bread dev addr s) (\<lambda>(bp, s).
     kbind (ind_entry dev bp index s) (\<lambda>(addr, s).
     kbind (brelse bp s) (\<lambda>s.
     kbind (brelse dbp s) (\<lambda>s.
     kbind (brelse tbp s) (\<lambda>s. Ok (addr, s))))))))))"

definition bmap :: "nat \<Rightarrow> u32 \<Rightarrow> 'a fsys_scheme \<Rightarrow> (u32 \<times> 'a fsys_scheme) kres" where
  "bmap ip block s =
     (let bn = unat block; dev = i_dev (inodes s ip) in
      if bn < NDIRECT then addr_entry ip bn s
      else let bn = bn - NDIRECT in
      if bn < NINDIRECT
      then kbind (addr_entry ip NDIRECT s) (\<lambda>(addr, s). bmap_single dev addr bn s)
      else let bn = bn - NINDIRECT in
      if bn < NDINDIRECT
      then kbind (addr_entry ip (NDIRECT + 1) s) (\<lambda>(addr, s).
           bmap_double dev addr (bn div NINDIRECT) (bn mod NINDIRECT) s)
      else let bn = bn - NDINDIRECT in
      if bn < NTINDIRECT
      then kbind (addr_entry ip (NDIRECT + 2) s) (\<lambda>(addr, s).
           bmap_triple dev addr (bn div NDINDIRECT) (bn mod NDINDIRECT div NINDIRECT) (bn mod NDINDIRECT mod NINDIRECT) s)
      else Panic ''bmap: out of range'')"

section \<open>Truncation\<close>

text \<open>
  The bodies of the nested loops: \<open>trunc_ind\<close> frees the blocks an indirect block lists and then the
  indirect block itself, \<open>trunc_dind\<close> and \<open>trunc_tind\<close> do so for the two higher levels.
\<close>

definition trunc_entries :: "nat \<Rightarrow> (u32 \<Rightarrow> 'a fsys_scheme \<Rightarrow> 'a fsys_scheme kres) \<Rightarrow> 'a fsys_scheme \<Rightarrow> 'a fsys_scheme kres" where
  "trunc_entries bp free s =
     kfold (\<lambda>j s. let a = get32 (bdata (bufs s bp)) (4 * j) in if a \<noteq> 0 then free a s else Ok s) [0..<NINDIRECT] s"

definition trunc_ind :: "u32 \<Rightarrow> u32 \<Rightarrow> 'a fsys_scheme \<Rightarrow> 'a fsys_scheme kres" where
  "trunc_ind dev addr s =
     kbind (bread dev addr s) (\<lambda>(bp, s).
     kbind (trunc_entries bp (bfree dev) s) (\<lambda>s.
     kbind (brelse bp s) (bfree dev addr)))"

definition trunc_dind :: "u32 \<Rightarrow> u32 \<Rightarrow> 'a fsys_scheme \<Rightarrow> 'a fsys_scheme kres" where
  "trunc_dind dev addr s =
     kbind (bread dev addr s) (\<lambda>(dbp, s).
     kbind (trunc_entries dbp (trunc_ind dev) s) (\<lambda>s.
     kbind (brelse dbp s) (bfree dev addr)))"

definition trunc_tind :: "u32 \<Rightarrow> u32 \<Rightarrow> 'a fsys_scheme \<Rightarrow> 'a fsys_scheme kres" where
  "trunc_tind dev addr s =
     kbind (bread dev addr s) (\<lambda>(tbp, s).
     kbind (trunc_entries tbp (trunc_dind dev) s) (\<lambda>s.
     kbind (brelse tbp s) (bfree dev addr)))"

definition trunc_addr :: "nat \<Rightarrow> (u32 \<Rightarrow> u32 \<Rightarrow> 'a fsys_scheme \<Rightarrow> 'a fsys_scheme kres) \<Rightarrow> nat \<Rightarrow> 'a fsys_scheme \<Rightarrow> 'a fsys_scheme kres" where
  "trunc_addr ip free k s =
     (if i_addrs (inodes s ip) k \<noteq> 0
      then kbind (free (i_dev (inodes s ip)) (i_addrs (inodes s ip) k) s) (\<lambda>s.
           Ok (updi ip (\<lambda>r. r\<lparr>i_addrs := (i_addrs r)(k := 0)\<rparr>) s))
      else Ok s)"

definition itrunc :: "nat \<Rightarrow> 'a fsys_scheme \<Rightarrow> 'a fsys_scheme kres" where
  "itrunc ip s =
     kbind (kfold (trunc_addr ip bfree) [0..<NDIRECT] s) (\<lambda>s.
     kbind (trunc_addr ip trunc_ind NDIRECT s) (\<lambda>s.
     kbind (trunc_addr ip trunc_dind (NDIRECT + 1) s) (\<lambda>s.
     kbind (trunc_addr ip trunc_tind (NDIRECT + 2) s) (\<lambda>s.
     iupdate ip (updi ip (i_size_update (\<lambda>_. 0)) s)))))"

definition iput :: "nat \<Rightarrow> 'a fsys_scheme \<Rightarrow> 'a fsys_scheme kres" where
  "iput ip s =
     kbind (acquiresleep (ChInode ip) (fpid s) (i_lock (inodes s ip))) (\<lambda>l.
     let s = updi ip (i_lock_update (\<lambda>_. l)) s in
     kbind (if i_valid (inodes s ip) \<and> i_nlink (inodes s ip) = 0 \<and> i_ref (inodes s ip) = 1
            then kbind (itrunc ip s) (\<lambda>s.
                 kbind (iupdate ip (updi ip (i_type_update (\<lambda>_. 0)) s)) (\<lambda>s.
                 Ok (updi ip (i_valid_update (\<lambda>_. False)) s)))
            else Ok s) (\<lambda>s.
     let s = updi ip (i_lock_update releasesleep) s in
     Ok (updi ip (\<lambda>r. r\<lparr>i_ref := i_ref r - 1\<rparr>) s)))"

definition iunlockput :: "nat \<Rightarrow> 'a fsys_scheme \<Rightarrow> 'a fsys_scheme kres" where
  "iunlockput ip s = kbind (iunlock ip s) (iput ip)"

section \<open>Reading and writing\<close>

definition stati :: "nat \<Rightarrow> 'a fsys_scheme \<Rightarrow> stat" where
  "stati ip s = (let r = inodes s ip in
     \<lparr>st_type = i_type r, st_dev = i_dev r, st_ino = i_inum r, st_nlink = i_nlink r, st_size = i_size r\<rparr>)"

definition is_dev :: "inode \<Rightarrow> (int \<Rightarrow> 'f option) \<Rightarrow> 'f option" where
  "is_dev r tab = (if sint (i_major r) < 0 \<or> NDEV \<le> sint (i_major r) then None else tab (sint (i_major r)))"

text \<open>
  The offset and the count are numbers below 2^32 here: the callers have checked that their
  sum does not wrap.  Each turn copies at least one byte, so the loops end.
\<close>

definition chunk :: "nat \<Rightarrow> nat \<Rightarrow> nat" where
  "chunk off n = min n (BSIZE - off mod BSIZE)"

lemma chunk_less: "n \<noteq> 0 \<Longrightarrow> n - chunk off n < n"
  by (simp add: chunk_def BSIZE_def)

function (sequential) readi_loop :: "nat \<Rightarrow> nat \<Rightarrow> nat \<Rightarrow> 'a fsys_scheme \<Rightarrow> (byte list \<times> 'a fsys_scheme) kres" where
  "readi_loop ip off n s =
     (if n = 0 then Ok ([], s)
      else kbind (bmap ip (of_nat (off div BSIZE)) s) (\<lambda>(a, s).
           kbind (bread (i_dev (inodes s ip)) a s) (\<lambda>(bp, s).
           let d = map (\<lambda>k. bdata (bufs s bp) (off mod BSIZE + k)) [0..<chunk off n] in
           kbind (brelse bp s) (\<lambda>s.
           kbind (readi_loop ip (off + chunk off n) (n - chunk off n) s) (\<lambda>(r, s). Ok (d @ r, s))))))"
  by pat_completeness auto

termination
  by (relation "measure (\<lambda>(ip, off, n, s). n)") (auto simp: chunk_less)

declare readi_loop.simps [simp del]

definition readi :: "nat \<Rightarrow> u32 \<Rightarrow> u32 \<Rightarrow> 'a fsys_scheme \<Rightarrow> (int \<times> byte list \<times> 'a fsys_scheme) kres" where
  "readi ip off n s =
     (if i_type (inodes s ip) = T_DEV
      then (case is_dev (inodes s ip) (dev_read s) of None \<Rightarrow> Ok (-1, [], s) | Some f \<Rightarrow> (let (r, d) = f n in Ok (r, d, s)))
      else if i_size (inodes s ip) < off \<or> off + n < off then Ok (-1, [], s)
      else let n = (if i_size (inodes s ip) < off + n then i_size (inodes s ip) - off else n) in
           kbind (readi_loop ip (unat off) (unat n) s) (\<lambda>(d, s). Ok (sint n, d, s)))"

text \<open>The source of \<open>writei\<close> is the list of the \<open>n\<close> bytes; the loop returns the offset behind the last one.\<close>

definition splice :: "block \<Rightarrow> nat \<Rightarrow> byte list \<Rightarrow> block" where
  "splice d a xs = (\<lambda>i. if a \<le> i \<and> i < a + length xs then xs ! (i - a) else d i)"

function (sequential) writei_loop :: "nat \<Rightarrow> byte list \<Rightarrow> nat \<Rightarrow> 'a fsys_scheme \<Rightarrow> (nat \<times> 'a fsys_scheme) kres" where
  "writei_loop ip src off s =
     (if src = [] then Ok (off, s)
      else kbind (bmap ip (of_nat (off div BSIZE)) s) (\<lambda>(a, s).
           kbind (bread (i_dev (inodes s ip)) a s) (\<lambda>(bp, s).
           let m = chunk off (length src) in
           kbind (log_write bp (setdata bp (splice (bdata (bufs s bp)) (off mod BSIZE) (take m src)) s)) (\<lambda>s.
           kbind (brelse bp s) (\<lambda>s. writei_loop ip (drop m src) (off + m) s)))))"
  by pat_completeness auto

termination
  by (relation "measure (\<lambda>(ip, src, off, s). length src)") (auto simp: chunk_less)

declare writei_loop.simps [simp del]

definition writei :: "nat \<Rightarrow> byte list \<Rightarrow> u32 \<Rightarrow> 'a fsys_scheme \<Rightarrow> (int \<times> 'a fsys_scheme) kres" where
  "writei ip src off s =
     (let n = of_nat (length src) :: u32 in
      if i_type (inodes s ip) = T_DEV
      then (case is_dev (inodes s ip) (dev_write s) of None \<Rightarrow> Ok (-1, s) | Some f \<Rightarrow> Ok (f src, s))
      else if i_size (inodes s ip) < off \<or> off + n < off then Ok (-1, s)
      else if of_nat (MAXFILE * BSIZE) < off + n then Ok (-1, s)
      else kbind (writei_loop ip src (unat off) s) (\<lambda>(off, s).
           if 0 < n \<and> i_size (inodes s ip) < of_nat off
           then kbind (iupdate ip (updi ip (i_size_update (\<lambda>_. of_nat off)) s)) (\<lambda>s. Ok (sint n, s))
           else Ok (sint n, s)))"

end
