(* ===== verification/Fs_Dir.thy ===== *)
theory Fs_Dir
  imports Fs_Data
begin

text \<open>
  Directories and path names, in \<open>fs.c\<close> of project 3.  A path is the list of the characters before its
  NUL; the buffer of a path element is an array of \<open>DIRSIZ\<close> bytes, which has no NUL when the element
  fills it.  A \<open>dirent\<close> is 16 bytes: the inode number and the name.
\<close>

definition slash :: byte where "slash = 47"

definition namecmp :: "bytes \<Rightarrow> bytes \<Rightarrow> int" where
  "namecmp s t = strncmp s t DIRSIZ"

definition de_inum :: "byte list \<Rightarrow> u16" where
  "de_inum de = ucast (de ! 0) OR push_bit 8 (ucast (de ! 1))"

definition de_name :: "byte list \<Rightarrow> bytes" where
  "de_name de = (\<lambda>i. de ! (2 + i))"

definition mk_dirent :: "u16 \<Rightarrow> bytes \<Rightarrow> byte list" where
  "mk_dirent n nm = ucast n # ucast (drop_bit 8 n) # map nm [0..<DIRSIZ]"

section \<open>Directories\<close>

definition read_dirent :: "string \<Rightarrow> nat \<Rightarrow> nat \<Rightarrow> 'a fsys_scheme \<Rightarrow> (byte list \<times> 'a fsys_scheme) kres" where
  "read_dirent msg dp off s =
     kbind (readi dp (of_nat off) (of_nat DIRENT) s) (\<lambda>(r, de, s).
     if r \<noteq> int DIRENT then Panic msg else Ok (de, s))"

definition dirlookup_step :: "nat \<Rightarrow> bytes \<Rightarrow> nat \<Rightarrow> 'a fsys_scheme \<Rightarrow> ((nat \<times> u32) option \<times> 'a fsys_scheme) kres" where
  "dirlookup_step dp name off s =
     kbind (read_dirent ''dirlookup read'' dp off s) (\<lambda>(de, s).
     if de_inum de = 0 then Ok (None, s)
     else if namecmp name (de_name de) = 0
     then kbind (iget (i_dev (inodes s dp)) (ucast (de_inum de)) s) (\<lambda>(ip, s). Ok (Some (ip, of_nat off), s))
     else Ok (None, s))"

definition dirlookup :: "nat \<Rightarrow> bytes \<Rightarrow> 'a fsys_scheme \<Rightarrow> ((nat \<times> u32) option \<times> 'a fsys_scheme) kres" where
  "dirlookup dp name s =
     (if i_type (inodes s dp) \<noteq> T_DIR then Panic ''dirlookup not DIR''
      else kfirst (dirlookup_step dp name) (steps DIRENT (unat (i_size (inodes s dp)))) s)"

text \<open>The loop of \<open>dirlink\<close> leaves \<open>off\<close> at the first empty entry, or behind the last one.\<close>

definition dirlink_step :: "nat \<Rightarrow> nat \<Rightarrow> 'a fsys_scheme \<Rightarrow> (nat option \<times> 'a fsys_scheme) kres" where
  "dirlink_step dp off s =
     kbind (read_dirent ''dirlink read'' dp off s) (\<lambda>(de, s).
     Ok (if de_inum de = 0 then Some off else None, s))"

definition dirlink :: "nat \<Rightarrow> bytes \<Rightarrow> u32 \<Rightarrow> 'a fsys_scheme \<Rightarrow> (int \<times> 'a fsys_scheme) kres" where
  "dirlink dp name inum s =
     kbind (dirlookup dp name s) (\<lambda>(r, s).
     case r of
       Some (ip, _) \<Rightarrow> kbind (iput ip s) (\<lambda>s. Ok (-1, s))
     | None \<Rightarrow>
         let offs = steps DIRENT (unat (i_size (inodes s dp))) in
         kbind (kfirst (dirlink_step dp) offs s) (\<lambda>(r, s).
         let off = (case r of Some off \<Rightarrow> off | None \<Rightarrow> length offs * DIRENT);
             de = mk_dirent (ucast inum) (strncpy (\<lambda>_. 0) name (int DIRSIZ))
         in kbind (writei dp de (of_nat off) s) (\<lambda>(r, s).
            if r \<noteq> int DIRENT then Panic ''dirlink'' else Ok (0, s))))"

definition sdirlink :: "nat \<Rightarrow> bytes \<Rightarrow> u32 \<Rightarrow> 'a fsys_scheme \<Rightarrow> int \<times> 'a fsys_scheme" where
  "sdirlink dp name inum s = (1, s)"

section \<open>Paths\<close>

definition skipelem :: "byte list \<Rightarrow> bytes \<Rightarrow> (byte list \<times> bytes) option" where
  "skipelem path name =
     (let p = dropWhile (\<lambda>c. c = slash) path in
      if p = [] then None
      else let e = takeWhile (\<lambda>c. c \<noteq> slash) p;
               name = (\<lambda>i. if i < min (length e) DIRSIZ then e ! i
                           else if i = length e \<and> length e < DIRSIZ then 0 else name i)
           in Some (dropWhile (\<lambda>c. c = slash) (drop (length e) p), name))"

lemma skipelem_less:
  assumes "skipelem path name = Some (rest, name')"
  shows "length rest < length path"
proof -
  let ?p = "dropWhile (\<lambda>c. c = slash) path" and ?e = "takeWhile (\<lambda>c. c \<noteq> slash) (dropWhile (\<lambda>c. c = slash) path)"
  have p: "?p \<noteq> []" and rest: "rest = dropWhile (\<lambda>c. c = slash) (drop (length ?e) ?p)"
    using assms by (auto simp: skipelem_def Let_def split: if_splits)
  have "hd ?p \<noteq> slash" using p hd_dropWhile [OF p] by simp
  then have "0 < length ?e" using p by (cases ?p) auto
  then have "length (drop (length ?e) ?p) < length ?p" using p by simp
  moreover have "length rest \<le> length (drop (length ?e) ?p)" unfolding rest by (rule length_dropWhile_le)
  moreover have "length ?p \<le> length path" by (rule length_dropWhile_le)
  ultimately show ?thesis by linarith
qed

function (sequential) namex_loop ::
  "bool \<Rightarrow> byte list \<Rightarrow> bytes \<Rightarrow> nat \<Rightarrow> 'a fsys_scheme \<Rightarrow> ((nat \<times> bytes) option \<times> 'a fsys_scheme) kres" where
  "namex_loop parent path name ip s =
     (case skipelem path name of
        None \<Rightarrow> if parent then kbind (iput ip s) (\<lambda>s. Ok (None, s)) else Ok (Some (ip, name), s)
      | Some (path, name) \<Rightarrow>
          kbind (ilock ip s) (\<lambda>s.
          if i_type (inodes s ip) \<noteq> T_DIR then kbind (iunlockput ip s) (\<lambda>s. Ok (None, s))
          else if parent \<and> path = [] then kbind (iunlock ip s) (\<lambda>s. Ok (Some (ip, name), s))
          else kbind (dirlookup ip name s) (\<lambda>(r, s).
               case r of
                 None \<Rightarrow> kbind (iunlockput ip s) (\<lambda>s. Ok (None, s))
               | Some (nxt, _) \<Rightarrow> kbind (iunlockput ip s) (namex_loop parent path name nxt))))"
  by pat_completeness auto

termination
  by (relation "measure (\<lambda>(parent, path, name, ip, s). length path)") (auto dest: skipelem_less)

declare namex_loop.simps [simp del]

definition namex :: "byte list \<Rightarrow> bool \<Rightarrow> bytes \<Rightarrow> 'a fsys_scheme \<Rightarrow> ((nat \<times> bytes) option \<times> 'a fsys_scheme) kres" where
  "namex path parent name s =
     kbind (if path \<noteq> [] \<and> hd path = slash then iget ROOTDEV ROOTINO s else Ok (idup (cwd s) s)) (\<lambda>(ip, s).
     namex_loop parent path name ip s)"

definition namei :: "byte list \<Rightarrow> 'a fsys_scheme \<Rightarrow> (nat option \<times> 'a fsys_scheme) kres" where
  "namei path s = kbind (namex path False (\<lambda>_. 0) s) (\<lambda>(r, s). Ok (map_option fst r, s))"

definition nameiparent :: "byte list \<Rightarrow> bytes \<Rightarrow> 'a fsys_scheme \<Rightarrow> ((nat \<times> bytes) option \<times> 'a fsys_scheme) kres" where
  "nameiparent path name s = namex path True name s"

end
