(* ===== verification/Pipe.thy ===== *)
theory Pipe
  imports Prelude
begin

text \<open>
  Pipes, \<open>pipe.c\<close>.  The counters \<open>nread\<close> and \<open>nwrite\<close> are 32-bit words that wrap; the buffer is a ring
  of \<open>PIPESIZE\<close> bytes.  A call of \<open>pipewrite\<close> or \<open>piperead\<close> holds the lock of the pipe until it
  returns or sleeps, so the model runs it to that point: \<open>PBlock\<close> means that it sleeps with these bytes
  still to be written (none for a reader), after which it goes on as a call with the rest.
  \<open>PFail\<close> is the result \<open>-1\<close>.  Theory File adds the calls of \<open>wakeup\<close>.
\<close>

definition PIPESIZE :: nat where "PIPESIZE = 512"

record pipe =
  pdata :: "nat \<Rightarrow> byte"
  nread :: u32
  nwrite :: u32
  readopen :: bool
  writeopen :: bool

datatype pres = PDone "byte list" | PFail | PBlock "byte list"

definition pipe_new :: "(nat \<Rightarrow> byte) \<Rightarrow> pipe" where
  "pipe_new d = \<lparr>pdata = d, nread = 0, nwrite = 0, readopen = True, writeopen = True\<rparr>"

definition pipe_shut :: "bool \<Rightarrow> pipe \<Rightarrow> pipe" where
  "pipe_shut writable p = (if writable then p\<lparr>writeopen := False\<rparr> else p\<lparr>readopen := False\<rparr>)"

definition pipe_put :: "byte \<Rightarrow> pipe \<Rightarrow> pipe" where
  "pipe_put c p = p\<lparr>pdata := (pdata p)(unat (nwrite p) mod PIPESIZE := c), nwrite := nwrite p + 1\<rparr>"

fun pipewrite_loop :: "bool \<Rightarrow> byte list \<Rightarrow> pipe \<Rightarrow> pres \<times> pipe" where
  "pipewrite_loop killed [] p = (PDone [], p)"
| "pipewrite_loop killed (c # cs) p =
     (if nwrite p = nread p + of_nat PIPESIZE
      then (if \<not> readopen p \<or> killed then PFail else PBlock (c # cs), p)
      else pipewrite_loop killed cs (pipe_put c p))"

fun piperead_loop :: "nat \<Rightarrow> pipe \<Rightarrow> byte list \<times> pipe" where
  "piperead_loop 0 p = ([], p)"
| "piperead_loop (Suc n) p =
     (if nread p = nwrite p then ([], p)
      else let c = pdata p (unat (nread p) mod PIPESIZE);
               (cs, p) = piperead_loop n (p\<lparr>nread := nread p + 1\<rparr>)
           in (c # cs, p))"

definition piperead_run :: "bool \<Rightarrow> int \<Rightarrow> pipe \<Rightarrow> pres \<times> pipe" where
  "piperead_run killed n p =
     (if nread p = nwrite p \<and> writeopen p then (if killed then PFail else PBlock [], p)
      else let (cs, p) = piperead_loop (nat n) p in (PDone cs, p))"

section \<open>The queue in the ring\<close>

definition pipe_len :: "pipe \<Rightarrow> nat" where
  "pipe_len p = unat (nwrite p - nread p)"

definition pipe_q :: "pipe \<Rightarrow> byte list" where
  "pipe_q p = map (\<lambda>i. pdata p (unat (nread p + of_nat i) mod PIPESIZE)) [0..<pipe_len p]"

definition pipe_wf :: "pipe \<Rightarrow> bool" where
  "pipe_wf p \<longleftrightarrow> pipe_len p \<le> PIPESIZE"

lemma pipe_len_q [simp]: "length (pipe_q p) = pipe_len p"
  by (simp add: pipe_q_def)

text \<open>The index in the ring is the counter modulo a power of two, so wrapping at 2^32 does no harm.\<close>

lemma ring_index: "unat (x + of_nat k :: u32) mod PIPESIZE = (unat x + k) mod PIPESIZE"
proof -
  have "unat (x + of_nat k :: u32) mod PIPESIZE = (unat x + k) mod 2 ^ 32 mod 2 ^ 9"
    by (simp add: unat_word_ariths(1) unsigned_of_nat take_bit_eq_mod PIPESIZE_def mod_add_right_eq)
  also have "\<dots> = (unat x + k) mod 2 ^ 9" by (rule mod_mod_cancel) (simp add: le_imp_power_dvd)
  finally show ?thesis by (simp add: PIPESIZE_def)
qed

lemma ring_inj:
  assumes "i < PIPESIZE" and "j < PIPESIZE"
  shows "unat (x + of_nat i :: u32) mod PIPESIZE = unat (x + of_nat j) mod PIPESIZE \<longleftrightarrow> i = j"
proof -
  have le: "i = j" if "(a + i) mod PIPESIZE = (a + j) mod PIPESIZE" "i \<le> j" "j < PIPESIZE" for i j a :: nat
  proof -
    have "PIPESIZE dvd (a + j) - (a + i)" using that by (subst mod_eq_dvd_iff_nat [symmetric]) auto
    then have "PIPESIZE dvd j - i" by simp
    then show ?thesis using that by (auto dest: dvd_imp_le)
  qed
  show ?thesis unfolding ring_index using le [of "unat x" i j] le [of "unat x" j i] assms by (metis nat_le_linear)
qed

lemma pipe_full: "nwrite p = nread p + of_nat PIPESIZE \<longleftrightarrow> pipe_len p = PIPESIZE"
proof -
  have "nwrite p = nread p + of_nat PIPESIZE \<longleftrightarrow> nwrite p - nread p = of_nat PIPESIZE" by (auto simp: algebra_simps)
  also have "\<dots> \<longleftrightarrow> pipe_len p = PIPESIZE" by (auto simp: pipe_len_def PIPESIZE_def word_unat_eq_iff)
  finally show ?thesis .
qed

lemma pipe_empty: "nread p = nwrite p \<longleftrightarrow> pipe_q p = []"
  by (auto simp: pipe_q_def pipe_len_def unat_eq_0)

lemma pipe_last: "nread p + of_nat (pipe_len p) = nwrite p"
  by (simp add: pipe_len_def)

lemma pipe_put_q:
  assumes "pipe_len p < PIPESIZE"
  shows "pipe_q (pipe_put c p) = pipe_q p @ [c]" "pipe_len (pipe_put c p) = Suc (pipe_len p)"
proof -
  have d: "nwrite p + 1 - nread p = of_nat (Suc (pipe_len p))" using pipe_last [of p] by (simp add: algebra_simps)
  have "unat (of_nat (Suc (pipe_len p)) :: u32) = Suc (pipe_len p)"
    using assms by (simp only: unsigned_of_nat of_nat_id) (rule take_bit_nat_eq_self, simp add: PIPESIZE_def)
  then show l: "pipe_len (pipe_put c p) = Suc (pipe_len p)" by (simp add: pipe_len_def pipe_put_def d del: of_nat_Suc)
  let ?w = "unat (nwrite p) mod PIPESIZE"
  have w: "?w = unat (nread p + of_nat (pipe_len p)) mod PIPESIZE" by (simp add: pipe_last)
  have "((pdata p)(?w := c)) (unat (nread p + of_nat i) mod PIPESIZE) = pdata p (unat (nread p + of_nat i) mod PIPESIZE)"
    if "i < pipe_len p" for i
    using that assms ring_inj [of i "pipe_len p" "nread p"] by (simp add: w)
  then show "pipe_q (pipe_put c p) = pipe_q p @ [c]"
    unfolding pipe_q_def l by (simp add: pipe_put_def w [symmetric])
qed

lemma pipe_get_q:
  assumes "nread p \<noteq> nwrite p"
  shows "pipe_q p = pdata p (unat (nread p) mod PIPESIZE) # pipe_q (p\<lparr>nread := nread p + 1\<rparr>)"
    "pipe_len p = Suc (pipe_len (p\<lparr>nread := nread p + 1\<rparr>))"
proof -
  have "nwrite p - nread p \<noteq> 0" using assms by auto
  then have u: "Suc (unat (nwrite p - nread p - 1)) = unat (nwrite p - nread p)" by (simp add: unat_minus_one unat_gt_0)
  then show l: "pipe_len p = Suc (pipe_len (p\<lparr>nread := nread p + 1\<rparr>))" by (simp add: pipe_len_def diff_diff_eq [symmetric])
  show "pipe_q p = pdata p (unat (nread p) mod PIPESIZE) # pipe_q (p\<lparr>nread := nread p + 1\<rparr>)"
    unfolding pipe_q_def l by (simp add: upt_conv_Cons map_upt_shift [symmetric] algebra_simps del: upt_Suc)
qed

lemma pipewrite_loop_q:
  "pipe_wf p \<Longrightarrow> pipewrite_loop killed cs p = (r, p') \<Longrightarrow>
   pipe_wf p' \<and> nread p' = nread p \<and> readopen p' = readopen p \<and> writeopen p' = writeopen p
   \<and> (\<exists>done rest. cs = done @ rest \<and> pipe_q p' = pipe_q p @ done
      \<and> (if rest = [] then r = PDone []
         else length (pipe_q p') = PIPESIZE \<and> r = (if readopen p \<and> \<not> killed then PBlock rest else PFail)))"
proof (induction cs arbitrary: p)
  case (Cons c cs)
  show ?case
  proof (cases "nwrite p = nread p + of_nat PIPESIZE")
    case True
    then show ?thesis using Cons.prems by (auto simp: pipe_full split: if_splits)
  next
    case False
    then have l: "pipe_len p < PIPESIZE" using Cons.prems(1) by (auto simp: pipe_full pipe_wf_def)
    note q = pipe_put_q [OF l, of c]
    have wf: "pipe_wf (pipe_put c p)" using l q(2) by (simp add: pipe_wf_def)
    have s: "nread (pipe_put c p) = nread p" "readopen (pipe_put c p) = readopen p" "writeopen (pipe_put c p) = writeopen p"
      by (simp_all add: pipe_put_def)
    obtain d rest where "cs = d @ rest" "pipe_q p' = (pipe_q p @ [c]) @ d"
        "if rest = [] then r = PDone []
         else length (pipe_q p') = PIPESIZE \<and> r = (if readopen p \<and> \<not> killed then PBlock rest else PFail)"
        "pipe_wf p' \<and> nread p' = nread p \<and> readopen p' = readopen p \<and> writeopen p' = writeopen p"
      using Cons.IH [OF wf, unfolded s q(1)] Cons.prems(2) False by auto
    then show ?thesis by (intro conjI exI [of _ "c # d"] exI [of _ rest]) simp_all
  qed
qed (auto simp: pipe_wf_def)

lemma piperead_loop_q:
  "piperead_loop n p = (cs, p') \<Longrightarrow> cs = take n (pipe_q p) \<and> pipe_q p' = drop n (pipe_q p) \<and> (pipe_wf p \<longrightarrow> pipe_wf p')
     \<and> nwrite p' = nwrite p \<and> readopen p' = readopen p \<and> writeopen p' = writeopen p"
proof (induction n arbitrary: p cs)
  case (Suc n)
  show ?case
  proof (cases "nread p = nwrite p")
    case True
    then show ?thesis using Suc.prems by (auto simp: pipe_empty)
  next
    case False
    obtain ds where r: "piperead_loop n (p\<lparr>nread := nread p + 1\<rparr>) = (ds, p')"
        "cs = pdata p (unat (nread p) mod PIPESIZE) # ds"
      using Suc.prems False by (auto simp: Let_def split: prod.splits)
    note IH = Suc.IH [OF r(1)] and g = pipe_get_q [OF False]
    have "pipe_wf p \<Longrightarrow> pipe_wf (p\<lparr>nread := nread p + 1\<rparr>)" using g(2) by (simp add: pipe_wf_def)
    then show ?thesis using IH r(2) g(1) by simp
  qed
qed simp

section \<open>The property\<close>

text \<open>
  Any sequence of writer and reader runs.  The second and third component of the relation collect the
  bytes accepted from writers and given to readers.  A writer that gives up with \<open>-1\<close> (killed, or the read end is
  closed) leaves in the ring the bytes it has copied by then; a reader that is killed, and one that goes to sleep, changes nothing.
\<close>

inductive pipe_reach :: "pipe \<Rightarrow> byte list \<Rightarrow> byte list \<Rightarrow> bool" where
  pr_new: "pipe_reach (pipe_new d) [] []"
| pr_write: "pipe_reach p w r \<Longrightarrow> pipewrite_loop killed cs p = (PDone [], p') \<Longrightarrow> pipe_reach p' (w @ cs) r"
| pr_block: "pipe_reach p w r \<Longrightarrow> pipewrite_loop killed (cs @ rest) p = (PBlock rest, p') \<Longrightarrow> pipe_reach p' (w @ cs) r"
| pr_fail: "pipe_reach p w r \<Longrightarrow> pipewrite_loop killed cs p = (PFail, p') \<Longrightarrow>
     pipe_reach p' (w @ take (unat (nwrite p' - nwrite p)) cs) r"
| pr_read: "pipe_reach p w r \<Longrightarrow> piperead_run killed n p = (PDone cs, p') \<Longrightarrow> pipe_reach p' w (r @ cs)"
| pr_shut: "pipe_reach p w r \<Longrightarrow> pipe_reach (pipe_shut b p) w r"

lemma pipe_shut_q [simp]: "pipe_q (pipe_shut b p) = pipe_q p" "pipe_wf (pipe_shut b p) = pipe_wf p"
  by (simp_all add: pipe_shut_def pipe_q_def pipe_wf_def pipe_len_def)

text \<open>The bytes that a call has put into the ring, by the counters.\<close>

lemma pipewrite_count:
  assumes "pipe_wf p" and "pipewrite_loop killed cs p = (r, p')" and "pipe_q p' = pipe_q p @ ds"
  shows "unat (nwrite p' - nwrite p) = length ds"
proof -
  note w = pipewrite_loop_q [OF assms(1,2)]
  have l: "pipe_len p' = pipe_len p + length ds" using arg_cong [OF assms(3), of length] by simp
  have "nread p + of_nat (pipe_len p') = nwrite p'" using pipe_last [of p'] w by simp
  then have "nwrite p' - nwrite p = (nread p + of_nat (pipe_len p + length ds)) - (nread p + of_nat (pipe_len p))"
    unfolding pipe_last l by simp
  then have d: "nwrite p' - nwrite p = of_nat (length ds)" by simp
  have "length ds \<le> PIPESIZE" using w l by (simp add: pipe_wf_def)
  then show ?thesis unfolding d by (simp only: unsigned_of_nat of_nat_id) (rule take_bit_nat_eq_self, simp add: PIPESIZE_def)
qed

lemma pipe_reach_q: "pipe_reach p w r \<Longrightarrow> pipe_wf p \<and> w = r @ pipe_q p"
proof (induction rule: pipe_reach.induct)
  case (pr_new d)
  then show ?case by (simp add: pipe_new_def pipe_wf_def pipe_q_def pipe_len_def)
next
  case (pr_write p w r killed cs p')
  then show ?case using pipewrite_loop_q [of p killed cs "PDone []" p'] by (auto split: if_splits)
next
  case (pr_block p w r killed cs rest p')
  then show ?case using pipewrite_loop_q [of p killed "cs @ rest" "PBlock rest" p'] by (auto split: if_splits)
next
  case (pr_fail p w r killed cs p')
  then have wf: "pipe_wf p" by simp
  obtain ds rest where d: "cs = ds @ rest" "pipe_q p' = pipe_q p @ ds" "pipe_wf p'"
    using pipewrite_loop_q [OF wf pr_fail.hyps(2)] by blast
  then show ?case using pr_fail.IH pipewrite_count [OF wf pr_fail.hyps(2) d(2)] by simp
next
  case (pr_read p w r killed n cs p')
  obtain ds q where "piperead_loop (nat n) p = (ds, q)" by fastforce
  then show ?case using pr_read piperead_loop_q [of "nat n" p ds q]
    by (auto simp: piperead_run_def split: if_splits)
qed simp

text \<open>
  C37.  A pipe is a bounded first-in first-out channel, however its writers and readers take turns and
  although the counters wrap: the bytes handed to readers followed by those in the ring are the
  bytes accepted from writers, in order; at most \<open>PIPESIZE\<close> are waiting; a writer blocks only when the
  ring is full, and a reader only when it is empty and the write end is open.  A writer fails only when the ring
  is full and the read end is closed or the writer killed; the bytes that it has copied before stay in the pipe.
\<close>

theorem pipe_fifo:
  assumes "pipe_reach p w r"
  shows "w = r @ pipe_q p \<and> length (pipe_q p) \<le> PIPESIZE
    \<and> (\<forall>killed cs rest p'. pipewrite_loop killed cs p = (PBlock rest, p') \<longrightarrow>
         length (pipe_q p') = PIPESIZE \<and> (\<exists>done. cs = done @ rest \<and> pipe_q p' = pipe_q p @ done))
    \<and> (\<forall>killed cs p'. pipewrite_loop killed cs p = (PFail, p') \<longrightarrow>
         length (pipe_q p') = PIPESIZE \<and> (killed \<or> \<not> readopen p)
         \<and> (\<exists>done rest. cs = done @ rest \<and> rest \<noteq> [] \<and> pipe_q p' = pipe_q p @ done))
    \<and> piperead_run killed n p =
        (if pipe_q p = [] \<and> writeopen p then (if killed then PFail else PBlock [], p)
         else (PDone (take (nat n) (pipe_q p)), snd (piperead_loop (nat n) p)))"
proof -
  note q = pipe_reach_q [OF assms]
  have "length (pipe_q p') = PIPESIZE \<and> (\<exists>done. cs = done @ rest \<and> pipe_q p' = pipe_q p @ done)"
    if "pipewrite_loop killed cs p = (PBlock rest, p')" for killed cs rest p'
    using pipewrite_loop_q [OF _ that] q by (auto split: if_splits)
  moreover have "length (pipe_q p') = PIPESIZE \<and> (killed \<or> \<not> readopen p)
      \<and> (\<exists>done rest. cs = done @ rest \<and> rest \<noteq> [] \<and> pipe_q p' = pipe_q p @ done)"
    if "pipewrite_loop killed cs p = (PFail, p')" for killed cs p'
    using pipewrite_loop_q [OF _ that] q by (auto split: if_splits)
  moreover obtain ds u where "piperead_loop (nat n) p = (ds, u)" by fastforce
  ultimately show ?thesis using q piperead_loop_q [of "nat n" p ds u]
    by (auto simp: piperead_run_def pipe_empty pipe_wf_def)
qed

lemma pipe_fifo_witness:
  "\<exists>p. pipe_reach p [1, 2, 3] [] \<and> fst (piperead_run False 2 p) = PDone [1, 2]"
proof -
  let ?p = "snd (pipewrite_loop False [1, 2, 3] (pipe_new (\<lambda>_. 0)))"
  have "pipewrite_loop False [1, 2, 3] (pipe_new (\<lambda>_. 0)) = (PDone [], ?p)"
    by (simp add: pipe_new_def pipe_put_def PIPESIZE_def)
  then have r: "pipe_reach ?p [1, 2, 3] []" using pr_write [OF pr_new] by fastforce
  show ?thesis using pipe_fifo [OF r, of False 2] r by (intro exI [of _ ?p]) auto
qed

end
