(* ===== verification/File.thy ===== *)
theory File
  imports Fs_Dir Pipe
begin

text \<open>
  Open files, \<open>file.c\<close> and the rest of \<open>pipe.c\<close>, and the fetching of system call arguments,
  \<open>syscall.c\<close>, of project 3.  The state adds the table of open files, the descriptor table of the current
  process, its user memory (\<open>usz\<close> is \<open>sz\<close>, \<open>uesp\<close> is \<open>tf->esp\<close>), and the pipes.  A pipe lives in a
  page of \<open>kalloc\<close>: \<open>freepages\<close> is the free list, which theory Kalloc shows to behave as a list, and a
  pipe is known by the number of its page.  \<open>wakes\<close> records the calls of \<open>wakeup\<close>.
\<close>

definition NFILE :: nat where "NFILE = 100"
definition NOFILE :: nat where "NOFILE = 16"

datatype ftype = FD_NONE | FD_PIPE | FD_INODE

record file_t =
  f_type :: ftype
  f_ref :: int
  f_readable :: bool
  f_writable :: bool
  f_pipe :: nat
  f_ip :: nat
  f_off :: u32

record fproc = fsys +
  ftable :: "nat \<Rightarrow> file_t"
  ofile :: "nat \<Rightarrow> nat option"
  killed :: bool
  umem :: "u32 \<Rightarrow> byte"
  usz :: u32
  uesp :: u32
  pipes :: "nat \<Rightarrow> pipe"
  freepages :: "nat list"
  wakes :: "chan list"

definition updf :: "nat \<Rightarrow> (file_t \<Rightarrow> file_t) \<Rightarrow> 'a fproc_scheme \<Rightarrow> 'a fproc_scheme" where
  "updf f g s = s\<lparr>ftable := (ftable s)(f := g (ftable s f))\<rparr>"

definition updp :: "nat \<Rightarrow> pipe \<Rightarrow> 'a fproc_scheme \<Rightarrow> 'a fproc_scheme" where
  "updp p q s = s\<lparr>pipes := (pipes s)(p := q)\<rparr>"

definition wake :: "chan \<Rightarrow> 'a fproc_scheme \<Rightarrow> 'a fproc_scheme" where
  "wake ch s = s\<lparr>wakes := wakes s @ [ch]\<rparr>"

section \<open>The arguments of a system call\<close>

definition fetchint :: "u32 \<Rightarrow> 'a fproc_scheme \<Rightarrow> u32 option" where
  "fetchint addr s =
     (if usz s \<le> addr \<or> usz s < addr + 4 then None
      else Some (le_word (umem s addr) (umem s (addr + 1)) (umem s (addr + 2)) (umem s (addr + 3))))"

text \<open>The string without its NUL; the loop of the code runs over the addresses below \<open>sz\<close>.\<close>

definition fetchstr :: "u32 \<Rightarrow> 'a fproc_scheme \<Rightarrow> byte list option" where
  "fetchstr addr s =
     (if usz s \<le> addr then None
      else case find (\<lambda>n. umem s (addr + of_nat n) = 0) [0..<unat (usz s - addr)] of
        Some n \<Rightarrow> Some (map (\<lambda>i. umem s (addr + of_nat i)) [0..<n])
      | None \<Rightarrow> None)"

definition argint :: "nat \<Rightarrow> 'a fproc_scheme \<Rightarrow> u32 option" where
  "argint n s = fetchint (uesp s + 4 + 4 * of_nat n) s"

definition argptr :: "nat \<Rightarrow> u32 \<Rightarrow> 'a fproc_scheme \<Rightarrow> u32 option" where
  "argptr n sz s =
     (case argint n s of
        None \<Rightarrow> None
      | Some i \<Rightarrow> if sz <s 0 \<or> usz s \<le> i \<or> usz s < i + sz then None else Some i)"

definition argstr :: "nat \<Rightarrow> 'a fproc_scheme \<Rightarrow> byte list option" where
  "argstr n s = (case argint n s of None \<Rightarrow> None | Some a \<Rightarrow> fetchstr a s)"

text \<open>Reading and writing the memory of the process, which the kernel does through its pointers.\<close>

definition user_bytes :: "u32 \<Rightarrow> nat \<Rightarrow> 'a fproc_scheme \<Rightarrow> byte list" where
  "user_bytes a n s = map (\<lambda>i. umem s (a + of_nat i)) [0..<n]"

definition user_store :: "u32 \<Rightarrow> byte list \<Rightarrow> 'a fproc_scheme \<Rightarrow> 'a fproc_scheme" where
  "user_store a xs s = s\<lparr>umem := (\<lambda>x. if unat (x - a) < length xs then xs ! unat (x - a) else umem s x)\<rparr>"

section \<open>The file table\<close>

definition filealloc :: "'a fproc_scheme \<Rightarrow> nat option \<times> 'a fproc_scheme" where
  "filealloc s =
     (case find (\<lambda>f. f_ref (ftable s f) = 0) [0..<NFILE] of
        Some f \<Rightarrow> (Some f, updf f (f_ref_update (\<lambda>_. 1)) s)
      | None \<Rightarrow> (None, s))"

definition filedup :: "nat \<Rightarrow> 'a fproc_scheme \<Rightarrow> (nat \<times> 'a fproc_scheme) kres" where
  "filedup f s =
     (if f_ref (ftable s f) < 1 then Panic ''filedup''
      else Ok (f, updf f (\<lambda>r. r\<lparr>f_ref := f_ref r + 1\<rparr>) s))"

definition pipeclose :: "nat \<Rightarrow> bool \<Rightarrow> 'a fproc_scheme \<Rightarrow> 'a fproc_scheme" where
  "pipeclose p writable s =
     (let q = pipe_shut writable (pipes s p);
          s = wake (if writable then ChPipeRead p else ChPipeWrite p) (updp p q s)
      in if \<not> readopen q \<and> \<not> writeopen q then s\<lparr>freepages := p # freepages s\<rparr> else s)"

definition fileclose :: "nat \<Rightarrow> 'a fproc_scheme \<Rightarrow> 'a fproc_scheme kres" where
  "fileclose f s =
     (if f_ref (ftable s f) < 1 then Panic ''fileclose''
      else let s = updf f (\<lambda>r. r\<lparr>f_ref := f_ref r - 1\<rparr>) s in
      if 0 < f_ref (ftable s f) then Ok s
      else let ff = ftable s f;
               s = updf f (\<lambda>r. r\<lparr>f_ref := 0, f_type := FD_NONE\<rparr>) s
      in case f_type ff of
           FD_PIPE \<Rightarrow> Ok (pipeclose (f_pipe ff) (f_writable ff) s)
         | FD_INODE \<Rightarrow> kbind (begin_op s) (\<lambda>s. kbind (iput (f_ip ff) s) end_op)
         | FD_NONE \<Rightarrow> Ok s)"

definition filestat :: "nat \<Rightarrow> 'a fproc_scheme \<Rightarrow> (int \<times> stat option \<times> 'a fproc_scheme) kres" where
  "filestat f s =
     (if f_type (ftable s f) = FD_INODE
      then let ip = f_ip (ftable s f) in
           kbind (ilock ip s) (\<lambda>s.
           let st = stati ip s in
           kbind (iunlock ip s) (\<lambda>s. Ok (0, Some st, s)))
      else Ok (-1, None, s))"

section \<open>Pipes\<close>

definition pipealloc_bad :: "nat option \<Rightarrow> nat option \<Rightarrow> 'a fproc_scheme \<Rightarrow> ((nat \<times> nat) option \<times> 'a fproc_scheme) kres" where
  "pipealloc_bad f0 f1 s =
     kbind (case f0 of Some f \<Rightarrow> fileclose f s | None \<Rightarrow> Ok s) (\<lambda>s.
     kbind (case f1 of Some f \<Rightarrow> fileclose f s | None \<Rightarrow> Ok s) (\<lambda>s. Ok (None, s)))"

definition pipealloc :: "'a fproc_scheme \<Rightarrow> ((nat \<times> nat) option \<times> 'a fproc_scheme) kres" where
  "pipealloc s =
     (case filealloc s of
        (None, s) \<Rightarrow> pipealloc_bad None None s
      | (Some f0, s) \<Rightarrow>
          (case filealloc s of
             (None, s) \<Rightarrow> pipealloc_bad (Some f0) None s
           | (Some f1, s) \<Rightarrow>
               (case freepages s of
                  [] \<Rightarrow> pipealloc_bad (Some f0) (Some f1) s
                | p # ps \<Rightarrow>
                    let s = updp p (pipe_new (pdata (pipes s p))) (s\<lparr>freepages := ps\<rparr>);
                        s = updf f0 (\<lambda>r. r\<lparr>f_type := FD_PIPE, f_readable := True, f_writable := False, f_pipe := p\<rparr>) s;
                        s = updf f1 (\<lambda>r. r\<lparr>f_type := FD_PIPE, f_readable := False, f_writable := True, f_pipe := p\<rparr>) s
                    in Ok (Some (f0, f1), s))))"

text \<open>A call that sleeps goes on with the bytes that are left; the outcome \<open>Asleep\<close> ends the model of it.\<close>

definition pipewrite :: "nat \<Rightarrow> byte list \<Rightarrow> 'a fproc_scheme \<Rightarrow> (int \<times> 'a fproc_scheme) kres" where
  "pipewrite p src s =
     (case pipewrite_loop (killed s) src (pipes s p) of
        (PDone _, q) \<Rightarrow> Ok (int (length src), wake (ChPipeRead p) (updp p q s))
      | (PFail, q) \<Rightarrow> Ok (-1, updp p q s)
      | (PBlock _, q) \<Rightarrow> Asleep (ChPipeWrite p))"

definition piperead :: "nat \<Rightarrow> int \<Rightarrow> 'a fproc_scheme \<Rightarrow> (int \<times> byte list \<times> 'a fproc_scheme) kres" where
  "piperead p n s =
     (case piperead_run (killed s) n (pipes s p) of
        (PDone cs, q) \<Rightarrow> Ok (int (length cs), cs, wake (ChPipeWrite p) (updp p q s))
      | (PFail, q) \<Rightarrow> Ok (-1, [], s)
      | (PBlock _, q) \<Rightarrow> Asleep (ChPipeRead p))"

section \<open>Reading and writing files\<close>

definition fileread :: "nat \<Rightarrow> u32 \<Rightarrow> u32 \<Rightarrow> 'a fproc_scheme \<Rightarrow> (int \<times> 'a fproc_scheme) kres" where
  "fileread f addr n s =
     (let r = ftable s f in
      if \<not> f_readable r then Ok (-1, s)
      else case f_type r of
        FD_PIPE \<Rightarrow> kbind (piperead (f_pipe r) (sint n) s) (\<lambda>(k, d, s). Ok (k, user_store addr d s))
      | FD_INODE \<Rightarrow>
          kbind (ilock (f_ip r) s) (\<lambda>s.
          kbind (readi (f_ip r) (f_off r) n s) (\<lambda>(k, d, s).
          let s = user_store addr d s;
              s = (if 0 < k then updf f (\<lambda>r. r\<lparr>f_off := f_off r + of_int k\<rparr>) s else s)
          in kbind (iunlock (f_ip r) s) (\<lambda>s. Ok (k, s))))
      | FD_NONE \<Rightarrow> Panic ''fileread'')"

definition write_max :: nat where
  "write_max = ((MAXOPBLOCKS - 1 - 1 - 2) div 2) * 512"

text \<open>
  The loop of \<open>filewrite\<close> over the bytes that are left; the result is the number of bytes it
  wrote.  Each turn that goes on has written \<open>n1 > 0\<close> bytes.
\<close>

function (sequential) filewrite_loop :: "nat \<Rightarrow> byte list \<Rightarrow> 'a fproc_scheme \<Rightarrow> (nat \<times> 'a fproc_scheme) kres" where
  "filewrite_loop f src s =
     (if src = [] then Ok (0, s)
      else let n1 = min (length src) write_max; ip = f_ip (ftable s f) in
           kbind (begin_op s) (\<lambda>s.
           kbind (ilock ip s) (\<lambda>s.
           kbind (writei ip (take n1 src) (f_off (ftable s f)) s) (\<lambda>(r, s).
           let s = (if 0 < r then updf f (\<lambda>q. q\<lparr>f_off := f_off q + of_int r\<rparr>) s else s) in
           kbind (iunlock ip s) (\<lambda>s.
           kbind (end_op s) (\<lambda>s.
           if r < 0 then Ok (0, s)
           else if r \<noteq> int n1 then Panic ''short filewrite''
           else kbind (filewrite_loop f (drop n1 src) s) (\<lambda>(k, s). Ok (n1 + k, s))))))))"
  by pat_completeness auto

termination
  by (relation "measure (\<lambda>(f, src, s). length src)") (auto simp: write_max_def MAXOPBLOCKS_def)

declare filewrite_loop.simps [simp del]

definition filewrite :: "nat \<Rightarrow> u32 \<Rightarrow> u32 \<Rightarrow> 'a fproc_scheme \<Rightarrow> (int \<times> 'a fproc_scheme) kres" where
  "filewrite f addr n s =
     (let r = ftable s f; src = user_bytes addr (nat (sint n)) s in
      if \<not> f_writable r then Ok (-1, s)
      else case f_type r of
        FD_PIPE \<Rightarrow> pipewrite (f_pipe r) src s
      | FD_INODE \<Rightarrow>
          kbind (filewrite_loop f src s) (\<lambda>(i, s). Ok (if int i = sint n then sint n else -1, s))
      | FD_NONE \<Rightarrow> Panic ''filewrite'')"

end
