(* ===== verification/Sysfile.thy ===== *)
theory Sysfile
  imports File
begin

text \<open>
  The file system calls of project 3, \<open>sysfile.c\<close>, with symbolic links (\<open>sys_slink\<close>, the loop of
  \<open>sys_open\<close>, \<open>sys_lsopen\<close>).  The result is the value in \<open>%eax\<close> and the state; \<open>sys_open\<close>, whose loop over
  symbolic links may run forever, is a \<open>partial_function\<close> with \<open>None\<close> for that.  \<open>exec\<close> is a
  parameter of \<open>sys_exec\<close>.
\<close>

definition MAXARG :: nat where "MAXARG = 32"
definition O_RDONLY :: u32 where "O_RDONLY = 0"
definition O_WRONLY :: u32 where "O_WRONLY = 1"
definition O_RDWR :: u32 where "O_RDWR = 2"
definition O_CREATE :: u32 where "O_CREATE = 0x200"

type_synonym 'a sysres = "(int \<times> 'a fproc_scheme) kres"

definition end_ret :: "int \<Rightarrow> 'a fproc_scheme \<Rightarrow> 'a sysres" where
  "end_ret r s = kbind (end_op s) (\<lambda>s. Ok (r, s))"

section \<open>Descriptors\<close>

definition argfd :: "nat \<Rightarrow> 'a fproc_scheme \<Rightarrow> (nat \<times> nat) option" where
  "argfd n s =
     (case argint n s of
        None \<Rightarrow> None
      | Some fd \<Rightarrow> if fd <s 0 \<or> of_nat NOFILE \<le>s fd then None
                   else (case ofile s (unat fd) of None \<Rightarrow> None | Some f \<Rightarrow> Some (unat fd, f)))"

definition fdalloc :: "nat \<Rightarrow> 'a fproc_scheme \<Rightarrow> nat option \<times> 'a fproc_scheme" where
  "fdalloc f s =
     (case find (\<lambda>fd. ofile s fd = None) [0..<NOFILE] of
        Some fd \<Rightarrow> (Some fd, s\<lparr>ofile := (ofile s)(fd := Some f)\<rparr>)
      | None \<Rightarrow> (None, s))"

definition sys_dup :: "'a fproc_scheme \<Rightarrow> 'a sysres" where
  "sys_dup s =
     (case argfd 0 s of
        None \<Rightarrow> Ok (-1, s)
      | Some (_, f) \<Rightarrow>
          (case fdalloc f s of
             (None, s) \<Rightarrow> Ok (-1, s)
           | (Some fd, s) \<Rightarrow> kbind (filedup f s) (\<lambda>(_, s). Ok (int fd, s))))"

definition arg_buffer :: "'a fproc_scheme \<Rightarrow> (nat \<times> u32 \<times> u32) option" where
  "arg_buffer s =
     (case argfd 0 s of
        None \<Rightarrow> None
      | Some (_, f) \<Rightarrow>
          (case argint 2 s of
             None \<Rightarrow> None
           | Some n \<Rightarrow> (case argptr 1 n s of None \<Rightarrow> None | Some p \<Rightarrow> Some (f, p, n))))"

definition sys_read :: "'a fproc_scheme \<Rightarrow> 'a sysres" where
  "sys_read s = (case arg_buffer s of None \<Rightarrow> Ok (-1, s) | Some (f, p, n) \<Rightarrow> fileread f p n s)"

definition sys_write :: "'a fproc_scheme \<Rightarrow> 'a sysres" where
  "sys_write s = (case arg_buffer s of None \<Rightarrow> Ok (-1, s) | Some (f, p, n) \<Rightarrow> filewrite f p n s)"

definition sys_close :: "'a fproc_scheme \<Rightarrow> 'a sysres" where
  "sys_close s =
     (case argfd 0 s of
        None \<Rightarrow> Ok (-1, s)
      | Some (fd, f) \<Rightarrow> kbind (fileclose f (s\<lparr>ofile := (ofile s)(fd := None)\<rparr>)) (\<lambda>s. Ok (0, s)))"

text \<open>\<open>struct stat\<close> in user memory: 20 bytes, the shorts padded to words.\<close>

definition stat_bytes :: "(nat \<Rightarrow> byte) \<Rightarrow> stat \<Rightarrow> byte list" where
  "stat_bytes old st =
     (let d = put16 old 0 (st_type st); d = put32 d 4 (st_dev st); d = put32 d 8 (st_ino st);
          d = put16 d 12 (st_nlink st); d = put32 d 16 (st_size st)
      in map d [0..<20])"

definition sys_fstat :: "'a fproc_scheme \<Rightarrow> 'a sysres" where
  "sys_fstat s =
     (case argfd 0 s of
        None \<Rightarrow> Ok (-1, s)
      | Some (_, f) \<Rightarrow>
          (case argptr 1 20 s of
             None \<Rightarrow> Ok (-1, s)
           | Some p \<Rightarrow> kbind (filestat f s) (\<lambda>(r, st, s).
               case st of
                 None \<Rightarrow> Ok (r, s)
               | Some st \<Rightarrow> Ok (r, user_store p (stat_bytes (\<lambda>i. umem s (p + of_nat i)) st) s))))"

section \<open>Links\<close>

definition sys_link_bad :: "nat \<Rightarrow> 'a fproc_scheme \<Rightarrow> 'a sysres" where
  "sys_link_bad ip s =
     kbind (ilock ip s) (\<lambda>s.
     kbind (iupdate ip (updi ip (\<lambda>r. r\<lparr>i_nlink := i_nlink r - 1\<rparr>) s)) (\<lambda>s.
     kbind (iunlockput ip s) (end_ret (-1))))"

definition sys_link :: "'a fproc_scheme \<Rightarrow> 'a sysres" where
  "sys_link s =
     (case argstr 0 s of None \<Rightarrow> Ok (-1, s) | Some old \<Rightarrow>
     (case argstr 1 s of None \<Rightarrow> Ok (-1, s) | Some new \<Rightarrow>
      kbind (begin_op s) (\<lambda>s.
      kbind (namei old s) (\<lambda>(r, s).
      case r of None \<Rightarrow> end_ret (-1) s | Some ip \<Rightarrow>
      kbind (ilock ip s) (\<lambda>s.
      if i_type (inodes s ip) = T_DIR \<or> i_type (inodes s ip) = T_SYM
      then kbind (iunlockput ip s) (end_ret (-1))
      else
        kbind (iupdate ip (updi ip (\<lambda>r. r\<lparr>i_nlink := i_nlink r + 1\<rparr>) s)) (\<lambda>s.
        kbind (iunlock ip s) (\<lambda>s.
        kbind (nameiparent new (\<lambda>_. 0) s) (\<lambda>(r, s).
        case r of None \<Rightarrow> sys_link_bad ip s | Some (dp, name) \<Rightarrow>
        kbind (ilock dp s) (\<lambda>s.
        kbind (if i_dev (inodes s dp) \<noteq> i_dev (inodes s ip) then Ok (-1, s)
               else dirlink dp name (i_inum (inodes s ip)) s) (\<lambda>(r, s).
        if r < 0 then kbind (iunlockput dp s) (sys_link_bad ip)
        else kbind (iunlockput dp s) (\<lambda>s.
             kbind (iput ip s) (end_ret 0))))))))))))"

definition isdirempty_step :: "nat \<Rightarrow> nat \<Rightarrow> 'a fproc_scheme \<Rightarrow> (unit option \<times> 'a fproc_scheme) kres" where
  "isdirempty_step dp off s =
     kbind (read_dirent ''isdirempty: readi'' dp off s) (\<lambda>(de, s).
     Ok (if de_inum de \<noteq> 0 then Some () else None, s))"

definition isdirempty :: "nat \<Rightarrow> 'a fproc_scheme \<Rightarrow> (bool \<times> 'a fproc_scheme) kres" where
  "isdirempty dp s =
     kbind (kfirst (isdirempty_step dp) (drop 2 (steps DIRENT (unat (i_size (inodes s dp))))) s) (\<lambda>(r, s).
     Ok (r = None, s))"

definition dot :: bytes where "dot = (\<lambda>i. if i = 0 then 46 else 0)"
definition dotdot :: bytes where "dotdot = (\<lambda>i. if i < 2 then 46 else 0)"

definition sys_unlink_bad :: "nat \<Rightarrow> 'a fproc_scheme \<Rightarrow> 'a sysres" where
  "sys_unlink_bad dp s = kbind (iunlockput dp s) (end_ret (-1))"

definition sys_unlink :: "'a fproc_scheme \<Rightarrow> 'a sysres" where
  "sys_unlink s =
     (case argstr 0 s of None \<Rightarrow> Ok (-1, s) | Some path \<Rightarrow>
      kbind (begin_op s) (\<lambda>s.
      kbind (nameiparent path (\<lambda>_. 0) s) (\<lambda>(r, s).
      case r of None \<Rightarrow> end_ret (-1) s | Some (dp, name) \<Rightarrow>
      kbind (ilock dp s) (\<lambda>s.
      if namecmp name dot = 0 \<or> namecmp name dotdot = 0 then sys_unlink_bad dp s
      else kbind (dirlookup dp name s) (\<lambda>(r, s).
      case r of None \<Rightarrow> sys_unlink_bad dp s | Some (ip, off) \<Rightarrow>
      kbind (ilock ip s) (\<lambda>s.
      if sint (i_nlink (inodes s ip)) < 1 then Panic ''unlink: nlink < 1''
      else kbind (if i_type (inodes s ip) = T_DIR then isdirempty ip s else Ok (True, s)) (\<lambda>(empty, s).
      if \<not> empty then kbind (iunlockput ip s) (sys_unlink_bad dp)
      else kbind (writei dp (replicate DIRENT 0) off s) (\<lambda>(r, s).
      if r \<noteq> int DIRENT then Panic ''unlink: writei''
      else kbind (if i_type (inodes s ip) = T_DIR
                  then iupdate dp (updi dp (\<lambda>r. r\<lparr>i_nlink := i_nlink r - 1\<rparr>) s) else Ok s) (\<lambda>s.
           kbind (iunlockput dp s) (\<lambda>s.
           kbind (iupdate ip (updi ip (\<lambda>r. r\<lparr>i_nlink := i_nlink r - 1\<rparr>) s)) (\<lambda>s.
           kbind (iunlockput ip s) (end_ret 0))))))))))))"

section \<open>Creating and opening\<close>

definition create_dots :: "nat \<Rightarrow> nat \<Rightarrow> 'a fproc_scheme \<Rightarrow> 'a fproc_scheme kres" where
  "create_dots ip dp s =
     kbind (iupdate dp (updi dp (\<lambda>r. r\<lparr>i_nlink := i_nlink r + 1\<rparr>) s)) (\<lambda>s.
     kbind (dirlink ip dot (i_inum (inodes s ip)) s) (\<lambda>(r, s).
     if r < 0 then Panic ''create dots''
     else kbind (dirlink ip dotdot (i_inum (inodes s dp)) s) (\<lambda>(r, s).
          if r < 0 then Panic ''create dots'' else Ok s)))"

definition create :: "byte list \<Rightarrow> u16 \<Rightarrow> u16 \<Rightarrow> u16 \<Rightarrow> 'a fproc_scheme \<Rightarrow> (nat option \<times> 'a fproc_scheme) kres" where
  "create path ty major minor s =
     kbind (nameiparent path (\<lambda>_. 0) s) (\<lambda>(r, s).
     case r of None \<Rightarrow> Ok (None, s) | Some (dp, name) \<Rightarrow>
     kbind (ilock dp s) (\<lambda>s.
     kbind (dirlookup dp name s) (\<lambda>(r, s).
     case r of
       Some (ip, _) \<Rightarrow>
         kbind (iunlockput dp s) (\<lambda>s.
         kbind (ilock ip s) (\<lambda>s.
         if ty = T_FILE \<and> i_type (inodes s ip) = T_FILE then Ok (Some ip, s)
         else kbind (iunlockput ip s) (\<lambda>s. Ok (None, s))))
     | None \<Rightarrow>
         kbind (ialloc (i_dev (inodes s dp)) ty s) (\<lambda>(ip, s).
         kbind (ilock ip s) (\<lambda>s.
         kbind (iupdate ip (updi ip (\<lambda>r. r\<lparr>i_major := major, i_minor := minor, i_nlink := 1\<rparr>) s)) (\<lambda>s.
         kbind (if ty = T_DIR then create_dots ip dp s else Ok s) (\<lambda>s.
         kbind (dirlink dp name (i_inum (inodes s ip)) s) (\<lambda>(r, s).
         if r < 0 then Panic ''create: dirlink''
         else kbind (iunlockput dp s) (\<lambda>s. Ok (Some ip, s))))))))))"

definition cstring :: "byte list \<Rightarrow> bytes" where
  "cstring xs = (\<lambda>i. if i < length xs then xs ! i else 0)"

definition sys_slink :: "'a fproc_scheme \<Rightarrow> 'a sysres" where
  "sys_slink s =
     (case argstr 0 s of None \<Rightarrow> Ok (-1, s) | Some old \<Rightarrow>
     (case argstr 1 s of None \<Rightarrow> Ok (-1, s) | Some new \<Rightarrow>
      kbind (begin_op s) (\<lambda>s.
      kbind (namei old s) (\<lambda>(r, s).
      case r of None \<Rightarrow> end_ret (-1) s | Some ip \<Rightarrow>
      kbind (ilock ip s) (\<lambda>s.
      if i_type (inodes s ip) = T_DIR then kbind (iunlockput ip s) (end_ret (-1))
      else
        kbind (iunlock ip s) (\<lambda>s.
        kbind (create new T_SYM 0 0 s) (\<lambda>(r, s).
        case r of None \<Rightarrow> end_ret (-1) s | Some np \<Rightarrow>
        let s = updi np (\<lambda>r. r\<lparr>i_path := strncpy (i_path r) (cstring old) (int DIRSIZ)\<rparr>) s in
        kbind (iupdate np s) (\<lambda>s.
        kbind (iunlockput np s) (end_ret 0)))))))))"

text \<open>\<open>ip->path\<close> as a string; its 16 bytes hold a NUL because at most 14 are ever written.\<close>

definition link_path :: "inode \<Rightarrow> byte list" where
  "link_path r = takeWhile (\<lambda>c. c \<noteq> 0) (map (i_path r) [0..<16])"

partial_function (option) follow :: "nat \<Rightarrow> 'a fproc_scheme \<Rightarrow> (nat option \<times> 'a fproc_scheme) kres option" where
  "follow ip s =
     (if i_type (inodes s ip) \<noteq> T_SYM then Some (Ok (Some ip, s))
      else case kbind (namei (link_path (inodes s ip)) s) (\<lambda>(r, s).
             kbind (iunlockput ip s) (\<lambda>s.
             case r of None \<Rightarrow> Ok (None, s) | Some rp \<Rightarrow> kbind (ilock rp s) (\<lambda>s. Ok (Some rp, s)))) of
        Ok (Some rp, s) \<Rightarrow> follow rp s
      | r \<Rightarrow> Some r)"

text \<open>The end of \<open>sys_open\<close> and \<open>sys_lsopen\<close>, with the inode locked.\<close>

definition open_file :: "nat \<Rightarrow> u32 \<Rightarrow> 'a fproc_scheme \<Rightarrow> 'a sysres" where
  "open_file ip omode s =
     (case filealloc s of
        (None, s) \<Rightarrow> kbind (iunlockput ip s) (end_ret (-1))
      | (Some f, s) \<Rightarrow>
          (case fdalloc f s of
             (None, s) \<Rightarrow> kbind (fileclose f s) (\<lambda>s. kbind (iunlockput ip s) (end_ret (-1)))
           | (Some fd, s) \<Rightarrow>
               kbind (iunlock ip s) (\<lambda>s.
               kbind (end_op s) (\<lambda>s.
               Ok (int fd, updf f (\<lambda>r. r\<lparr>f_type := FD_INODE, f_ip := ip, f_off := 0,
                 f_readable := (omode AND O_WRONLY = 0),
                 f_writable := (omode AND O_WRONLY \<noteq> 0 \<or> omode AND O_RDWR \<noteq> 0)\<rparr>) s)))))"

definition open_checked :: "nat \<Rightarrow> u32 \<Rightarrow> 'a fproc_scheme \<Rightarrow> 'a sysres" where
  "open_checked ip omode s =
     (if i_type (inodes s ip) = T_DIR \<and> omode \<noteq> O_RDONLY then kbind (iunlockput ip s) (end_ret (-1))
      else open_file ip omode s)"

definition open_create :: "byte list \<Rightarrow> u32 \<Rightarrow> 'a fproc_scheme \<Rightarrow> 'a sysres" where
  "open_create path omode s =
     kbind (create path T_FILE 0 0 s) (\<lambda>(r, s).
     case r of None \<Rightarrow> end_ret (-1) s | Some ip \<Rightarrow> open_file ip omode s)"

definition open_lookup :: "byte list \<Rightarrow> 'a fproc_scheme \<Rightarrow> (nat option \<times> 'a fproc_scheme) kres" where
  "open_lookup path s =
     kbind (namei path s) (\<lambda>(r, s).
     case r of None \<Rightarrow> Ok (None, s) | Some ip \<Rightarrow> kbind (ilock ip s) (\<lambda>s. Ok (Some ip, s)))"

definition sys_open :: "'a fproc_scheme \<Rightarrow> 'a sysres option" where
  "sys_open s =
     (case argstr 0 s of None \<Rightarrow> Some (Ok (-1, s)) | Some path \<Rightarrow>
     (case argint 1 s of None \<Rightarrow> Some (Ok (-1, s)) | Some omode \<Rightarrow>
     (case begin_op s of
        Ok s \<Rightarrow>
          if omode AND O_CREATE \<noteq> 0 then Some (open_create path omode s)
          else (case open_lookup path s of
             Ok (None, s) \<Rightarrow> Some (end_ret (-1) s)
           | Ok (Some ip, s) \<Rightarrow>
               (case follow ip s of
                  None \<Rightarrow> None
                | Some m \<Rightarrow> Some (kbind m (\<lambda>(r, s). case r of None \<Rightarrow> end_ret (-1) s | Some ip \<Rightarrow> open_checked ip omode s)))
           | Panic msg \<Rightarrow> Some (Panic msg) | Spin \<Rightarrow> Some Spin | Asleep ch \<Rightarrow> Some (Asleep ch))
      | Panic msg \<Rightarrow> Some (Panic msg) | Spin \<Rightarrow> Some Spin | Asleep ch \<Rightarrow> Some (Asleep ch))))"

definition sys_lsopen :: "'a fproc_scheme \<Rightarrow> 'a sysres" where
  "sys_lsopen s =
     (case argstr 0 s of None \<Rightarrow> Ok (-1, s) | Some path \<Rightarrow>
     (case argint 1 s of None \<Rightarrow> Ok (-1, s) | Some omode \<Rightarrow>
      kbind (begin_op s) (\<lambda>s.
      if omode AND O_CREATE \<noteq> 0 then open_create path omode s
      else kbind (open_lookup path s) (\<lambda>(r, s).
           case r of None \<Rightarrow> end_ret (-1) s | Some ip \<Rightarrow> open_checked ip omode s))))"

section \<open>The other calls\<close>

definition sys_mkdir :: "'a fproc_scheme \<Rightarrow> 'a sysres" where
  "sys_mkdir s =
     kbind (begin_op s) (\<lambda>s.
     case argstr 0 s of None \<Rightarrow> end_ret (-1) s | Some path \<Rightarrow>
     kbind (create path T_DIR 0 0 s) (\<lambda>(r, s).
     case r of None \<Rightarrow> end_ret (-1) s | Some ip \<Rightarrow> kbind (iunlockput ip s) (end_ret 0)))"

definition sys_mknod :: "'a fproc_scheme \<Rightarrow> 'a sysres" where
  "sys_mknod s =
     kbind (begin_op s) (\<lambda>s.
     case argstr 0 s of None \<Rightarrow> end_ret (-1) s | Some path \<Rightarrow>
     (case argint 1 s of None \<Rightarrow> end_ret (-1) s | Some major \<Rightarrow>
     (case argint 2 s of None \<Rightarrow> end_ret (-1) s | Some minor \<Rightarrow>
      kbind (create path T_DEV (ucast major) (ucast minor) s) (\<lambda>(r, s).
      case r of None \<Rightarrow> end_ret (-1) s | Some ip \<Rightarrow> kbind (iunlockput ip s) (end_ret 0)))))"

definition sys_chdir :: "'a fproc_scheme \<Rightarrow> 'a sysres" where
  "sys_chdir s =
     kbind (begin_op s) (\<lambda>s.
     case argstr 0 s of None \<Rightarrow> end_ret (-1) s | Some path \<Rightarrow>
     kbind (namei path s) (\<lambda>(r, s).
     case r of None \<Rightarrow> end_ret (-1) s | Some ip \<Rightarrow>
     kbind (ilock ip s) (\<lambda>s.
     if i_type (inodes s ip) \<noteq> T_DIR then kbind (iunlockput ip s) (end_ret (-1))
     else kbind (iunlock ip s) (\<lambda>s.
          kbind (iput (cwd s) s) (\<lambda>s.
          kbind (end_op s) (\<lambda>s. Ok (0, s\<lparr>cwd := ip\<rparr>)))))))"

text \<open>The argument vector of \<open>exec\<close>: strings until a null pointer, at most \<open>MAXARG - 1\<close> of them.\<close>

fun exec_args :: "nat \<Rightarrow> u32 \<Rightarrow> nat \<Rightarrow> 'a fproc_scheme \<Rightarrow> byte list list option" where
  "exec_args 0 uargv i s = None"
| "exec_args (Suc left) uargv i s =
     (case fetchint (uargv + 4 * of_nat i) s of None \<Rightarrow> None | Some uarg \<Rightarrow>
      if uarg = 0 then Some []
      else (case fetchstr uarg s of None \<Rightarrow> None | Some a \<Rightarrow>
            (case exec_args left uargv (Suc i) s of None \<Rightarrow> None | Some r \<Rightarrow> Some (a # r))))"

definition sys_exec :: "(byte list \<Rightarrow> byte list list \<Rightarrow> 'a fproc_scheme \<Rightarrow> 'a sysres) \<Rightarrow> 'a fproc_scheme \<Rightarrow> 'a sysres" where
  "sys_exec exec s =
     (case argstr 0 s of None \<Rightarrow> Ok (-1, s) | Some path \<Rightarrow>
     (case argint 1 s of None \<Rightarrow> Ok (-1, s) | Some uargv \<Rightarrow>
     (case exec_args MAXARG uargv 0 s of None \<Rightarrow> Ok (-1, s) | Some argv \<Rightarrow> exec path argv s)))"

definition sys_pipe_bad :: "nat option \<Rightarrow> nat \<Rightarrow> nat \<Rightarrow> 'a fproc_scheme \<Rightarrow> 'a sysres" where
  "sys_pipe_bad fd0 rfile wfile s =
     (let s = (case fd0 of Some fd \<Rightarrow> s\<lparr>ofile := (ofile s)(fd := None)\<rparr> | None \<Rightarrow> s) in
      kbind (fileclose rfile s) (\<lambda>s. kbind (fileclose wfile s) (\<lambda>s. Ok (-1, s))))"

definition sys_pipe :: "'a fproc_scheme \<Rightarrow> 'a sysres" where
  "sys_pipe s =
     (case argptr 0 8 s of None \<Rightarrow> Ok (-1, s) | Some fd \<Rightarrow>
      kbind (pipealloc s) (\<lambda>(r, s).
      case r of None \<Rightarrow> Ok (-1, s) | Some (rfile, wfile) \<Rightarrow>
      (case fdalloc rfile s of
         (None, s) \<Rightarrow> sys_pipe_bad None rfile wfile s
       | (Some fd0, s) \<Rightarrow>
           (case fdalloc wfile s of
              (None, s) \<Rightarrow> sys_pipe_bad (Some fd0) rfile wfile s
            | (Some fd1, s) \<Rightarrow>
                Ok (0, user_store fd (map (put32 (put32 (\<lambda>_. 0) 0 (of_nat fd0)) 4 (of_nat fd1)) [0..<8]) s)))))"

definition sys_sync :: "'a fproc_scheme \<Rightarrow> 'a sysres" where
  "sys_sync s = sync s"

end
