(* ===== verification/Fs_Enc.thy ===== *)
theory Fs_Enc
  imports Fs_Dir Cstring_Props
begin

text \<open>
  The formats of the file system: inodes and directory entries in the bytes of their blocks, and
  path names.
\<close>

section \<open>Words in blocks\<close>

lemma get16_put16 [simp]: "get16 (put16 d a v) a = v"
proof (rule bit_word_eqI)
  fix n assume "n < LENGTH(16)"
  then consider "n < 8" | "8 \<le> n" "n < 16" by force
  then show "bit (get16 (put16 d a v) a) n = bit v n"
    by cases (auto simp: get16_def put16_def bit_simps)
qed

lemma get16_cong: "d a = d' a \<Longrightarrow> d (Suc a) = d' (Suc a) \<Longrightarrow> get16 d a = get16 d' a"
  by (simp add: get16_def)

lemma get32_cong: "(\<And>k. a \<le> k \<Longrightarrow> k < a + 4 \<Longrightarrow> d k = d' k) \<Longrightarrow> get32 d a = get32 d' a"
  by (simp add: get32_def)

lemma put16_other: "k < a \<or> a + 2 \<le> k \<Longrightarrow> put16 d a v k = d k"
  by (auto simp: put16_def)

text \<open>Field accesses at different offsets do not interfere.\<close>

lemma field_other [simp]:
  "b + 2 \<le> a \<or> a + 2 \<le> b \<Longrightarrow> get16 (put16 d a v) b = get16 d b"
  "b + 2 \<le> a \<or> a + 4 \<le> b \<Longrightarrow> get16 (put32 d a w) b = get16 d b"
  "b + 4 \<le> a \<or> a + 2 \<le> b \<Longrightarrow> get32 (put16 d a v) b = get32 d b"
  "b + 4 \<le> a \<or> a + 4 \<le> b \<Longrightarrow> get32 (put32 d a w) b = get32 d b"
proof -
  show "b + 2 \<le> a \<or> a + 2 \<le> b \<Longrightarrow> get16 (put16 d a v) b = get16 d b" by (rule get16_cong) (auto simp: put16_other)
  show "b + 2 \<le> a \<or> a + 4 \<le> b \<Longrightarrow> get16 (put32 d a w) b = get16 d b" by (rule get16_cong) (auto simp: put32_other)
  show "b + 4 \<le> a \<or> a + 2 \<le> b \<Longrightarrow> get32 (put16 d a v) b = get32 d b" by (rule get32_cong) (auto simp: put16_other)
  show "b + 4 \<le> a \<or> a + 4 \<le> b \<Longrightarrow> get32 (put32 d a w) b = get32 d b" by (rule get32_cong) (auto simp: put32_other)
qed

section \<open>Inodes\<close>

lemma put_addrs_other: "k < dip + 28 \<or> dip + 64 \<le> k \<Longrightarrow> put_addrs d dip a k = d k"
proof -
  assume k: "k < dip + 28 \<or> dip + 64 \<le> k"
  have "n \<le> 9 \<Longrightarrow> fold (\<lambda>i d. put32 d (dip + 28 + 4 * i) (a i)) [0..<n] d k = d k" for n
    by (induction n) (use k in \<open>auto simp: put32_other\<close>)
  from this [of 9] show ?thesis by (simp add: put_addrs_def NDIRECT_def)
qed

lemma put_addrs_get: "i < NDIRECT + 3 \<Longrightarrow> get32 (put_addrs d dip a) (dip + 28 + 4 * i) = a i"
proof -
  have "i < n \<Longrightarrow> get32 (fold (\<lambda>i d. put32 d (dip + 28 + 4 * i) (a i)) [0..<n] d) (dip + 28 + 4 * i) = a i" for n
    by (induction n) (auto simp: less_Suc_eq)
  then show "i < NDIRECT + 3 \<Longrightarrow> ?thesis" by (simp add: put_addrs_def)
qed

lemma put_dinode_other: "k < dip \<or> dip + DINODE \<le> k \<Longrightarrow> put_dinode d dip r k = d k"
  by (auto simp: put_dinode_def Let_def DINODE_def put_addrs_other put16_other put32_other)

lemma get_put_addrs [simp]:
  "b + 2 \<le> dip + 28 \<Longrightarrow> get16 (put_addrs d dip a) b = get16 d b"
  "b + 4 \<le> dip + 28 \<Longrightarrow> get32 (put_addrs d dip a) b = get32 d b"
proof -
  show "b + 2 \<le> dip + 28 \<Longrightarrow> get16 (put_addrs d dip a) b = get16 d b" by (rule get16_cong) (auto simp: put_addrs_other)
  show "b + 4 \<le> dip + 28 \<Longrightarrow> get32 (put_addrs d dip a) b = get32 d b" by (rule get32_cong) (auto simp: put_addrs_other)
qed

lemma get_put_dinode:
  "get_dinode (put_dinode d dip r) dip q = q\<lparr>i_type := i_type r, i_major := i_major r, i_minor := i_minor r,
     i_nlink := i_nlink r, i_size := i_size r, i_addrs := (\<lambda>i. if i < NDIRECT + 3 then i_addrs r i else i_addrs q i)\<rparr>"
  by (simp add: get_dinode_def put_dinode_def Let_def put_addrs_get fun_eq_iff)

lemma get_dinode_cong:
  assumes "\<And>k. dip \<le> k \<Longrightarrow> k < dip + DINODE \<Longrightarrow> d k = d' k"
  shows "get_dinode d dip q = get_dinode d' dip q"
proof -
  have h: "get16 d (dip + j) = get16 d' (dip + j)" if "j < 8" for j
    using that assms by (intro get16_cong) (auto simp: DINODE_def)
  have w: "get32 d (dip + j) = get32 d' (dip + j)" if "j \<le> 60" for j
    using that assms by (intro get32_cong) (auto simp: DINODE_def)
  have "(\<lambda>i. if i < NDIRECT + 3 then get32 d (dip + 28 + 4 * i) else i_addrs q i)
      = (\<lambda>i. if i < NDIRECT + 3 then get32 d' (dip + 28 + 4 * i) else i_addrs q i)"
    using w by (auto simp: NDIRECT_def add.assoc)
  then show ?thesis
    using h [of 0] h [of 2] h [of 4] h [of 6] w [of 8] unfolding get_dinode_def by simp
qed

lemma dip_of_disjoint: "dip_of m \<noteq> dip_of n \<Longrightarrow> dip_of m + DINODE \<le> dip_of n \<or> dip_of n + DINODE \<le> dip_of m"
  by (simp add: dip_of_def DINODE_def) linarith

lemma dip_of_block: "dip_of n + DINODE \<le> BSIZE"
proof -
  have "unat n mod IPB < 8" by (simp add: IPB_def BSIZE_def DINODE_def)
  then show ?thesis by (simp add: dip_of_def DINODE_def BSIZE_def)
qed

section \<open>Directory entries\<close>

lemma mk_dirent_fields:
  "length (mk_dirent n nm) = DIRENT" "de_inum (mk_dirent n nm) = n" "i < DIRSIZ \<Longrightarrow> de_name (mk_dirent n nm) i = nm i"
proof -
  show "length (mk_dirent n nm) = DIRENT" by (simp add: mk_dirent_def DIRENT_def DIRSIZ_def)
  have "get16 (put16 (\<lambda>_. 0) 0 n) 0 = n" by simp
  then show "de_inum (mk_dirent n nm) = n" by (simp add: de_inum_def mk_dirent_def get16_def put16_def)
  show "i < DIRSIZ \<Longrightarrow> de_name (mk_dirent n nm) i = nm i" by (simp add: de_name_def mk_dirent_def)
qed

text \<open>
  The directory entry that \<open>dirlink\<close> writes for a name is found again by \<open>dirlookup\<close>'s
  comparison: it has the inode number, and its name matches exactly the names with the
  same first \<open>DIRSIZ\<close> characters.
\<close>

theorem dirent_roundtrip:
  "de_inum (mk_dirent n (strncpy z name (int DIRSIZ))) = n
   \<and> length (mk_dirent n (strncpy z name (int DIRSIZ))) = DIRENT
   \<and> (namecmp other (de_name (mk_dirent n (strncpy z name (int DIRSIZ)))) = 0 \<longleftrightarrow> chars other DIRSIZ = chars name DIRSIZ)"
proof -
  have "chars (de_name (mk_dirent n (strncpy z name (int DIRSIZ)))) DIRSIZ = chars (strncpy z name (int DIRSIZ)) DIRSIZ"
    by (rule chars_cong) (simp add: mk_dirent_fields)
  then show ?thesis by (simp add: mk_dirent_fields namecmp_def strncmp_chars chars_strncpy)
qed

section \<open>Path names\<close>

fun split_slash :: "byte list \<Rightarrow> byte list list" where
  "split_slash [] = [[]]"
| "split_slash (c # cs) =
     (if c = slash then [] # split_slash cs
      else (case split_slash cs of w # ws \<Rightarrow> (c # w) # ws | [] \<Rightarrow> [[c]]))"

definition elements :: "byte list \<Rightarrow> byte list list" where
  "elements path = filter (\<lambda>e. e \<noteq> []) (split_slash path)"

lemma split_word: "slash \<notin> set e \<Longrightarrow> split_slash (e @ slash # r) = e # split_slash r" "slash \<notin> set e \<Longrightarrow> split_slash e = [e]"
  by (induction e) auto

lemma elements_slashes: "elements (dropWhile (\<lambda>c. c = slash) p) = elements p"
  by (induction p) (auto simp: elements_def)

lemma elements_word:
  assumes "p \<noteq> []" and "hd p \<noteq> slash"
  defines "e \<equiv> takeWhile (\<lambda>c. c \<noteq> slash) p"
  shows "elements p = e # elements (dropWhile (\<lambda>c. c = slash) (drop (length e) p))"
proof -
  have ne: "e \<noteq> []" using assms by (cases p) auto
  have ns: "slash \<notin> set e" by (auto simp: e_def dest: set_takeWhileD)
  have p: "p = e @ drop (length e) p"
    by (metis append_eq_conv_conj e_def takeWhile_dropWhile_id)
  have dw: "drop (length e) p = dropWhile (\<lambda>c. c \<noteq> slash) p" by (simp add: e_def dropWhile_eq_drop)
  show ?thesis
  proof (cases "drop (length e) p")
    case Nil
    note 1 = Nil
    then have "p = e" using p by simp
    then show ?thesis using split_word(2) [OF ns] ne 1 by (simp add: elements_def)
  next
    case (Cons c r)
    then have "c = slash" using hd_dropWhile [of "\<lambda>c. c \<noteq> slash" p] dw by simp
    then have 2: "drop (length e) p = slash # r" using Cons by simp
    then have "elements p = e # elements r" using p split_word(1) [OF ns, of r] ne by (simp add: elements_def)
    moreover have "elements (dropWhile (\<lambda>c. c = slash) (slash # r)) = elements r"
      using elements_slashes [of "slash # r"] by (simp add: elements_def)
    ultimately show ?thesis using 2 by simp
  qed
qed

text \<open>
  C39.  Path names: \<open>skipelem\<close> takes the elements of a path one by one as splitting at the slashes
  gives them, each cut to \<open>DIRSIZ\<close> characters; what it returns has no leading slash, so it is
  empty exactly after the last element, and it is shorter than the path, so that \<open>namex\<close> ends.
\<close>

theorem skipelem_elements:
  assumes "0 \<notin> set path"
  shows "case elements path of
      [] \<Rightarrow> skipelem path name = None
    | e # es \<Rightarrow> \<exists>rest name'. skipelem path name = Some (rest, name') \<and> chars name' DIRSIZ = take DIRSIZ e
        \<and> elements rest = es \<and> (rest = [] \<longleftrightarrow> es = []) \<and> length rest < length path"
proof -
  define p where "p = dropWhile (\<lambda>c. c = slash) path"
  have ep: "elements path = elements p" by (simp add: p_def elements_slashes)
  show ?thesis
  proof (cases "p = []")
    case True
    then show ?thesis using ep by (simp add: skipelem_def p_def [symmetric] elements_def)
  next
    case False
    define e where "e = takeWhile (\<lambda>c. c \<noteq> slash) p"
    define rest where "rest = dropWhile (\<lambda>c. c = slash) (drop (length e) p)"
    have hd: "hd p \<noteq> slash" using hd_dropWhile [of "\<lambda>c. c = slash" path] False by (simp add: p_def)
    have el: "elements path = e # elements rest"
      using elements_word [OF False hd] ep by (simp add: e_def rest_def)
    obtain name' where s: "skipelem path name = Some (rest, name')"
        "name' = (\<lambda>i. if i < min (length e) DIRSIZ then e ! i else if i = length e \<and> length e < DIRSIZ then 0 else name i)"
      using False by (simp add: skipelem_def p_def [symmetric] e_def [symmetric] rest_def [symmetric] Let_def)
    have "0 \<notin> set e" using assms by (auto simp: e_def p_def dest!: set_takeWhileD set_dropWhileD)
    then have nz: "e ! i \<noteq> 0" if "i < length e" for i using that nth_mem by fastforce
    have "chars name' DIRSIZ = take DIRSIZ e"
    proof -
      have "map name' [0..<DIRSIZ] = take DIRSIZ e @ map name' [length e..<DIRSIZ]"
        by (rule nth_equalityI) (auto simp: s(2) nth_append)
      moreover have "takeWhile (\<lambda>c. c \<noteq> 0) (map name' [length e..<DIRSIZ]) = []"
        by (cases "length e < DIRSIZ") (simp_all add: s(2) upt_conv_Cons)
      moreover have "\<forall>c\<in>set (take DIRSIZ e). c \<noteq> 0" using \<open>0 \<notin> set e\<close> by (metis in_set_takeD)
      ultimately show ?thesis by (simp add: chars_def takeWhile_append2)
    qed
    moreover have "rest = [] \<longleftrightarrow> elements rest = []"
    proof
      assume "elements rest = []"
      show "rest = []"
      proof (rule ccontr)
        assume r: "rest \<noteq> []"
        then have "hd rest \<noteq> slash" using hd_dropWhile [of "\<lambda>c. c = slash" "drop (length e) p"] by (simp add: rest_def)
        then show False using elements_word [OF r] \<open>elements rest = []\<close> by simp
      qed
    qed (simp add: elements_def)
    ultimately show ?thesis using el s(1) skipelem_less [OF s(1)] by auto
  qed
qed

lemma skipelem_elements_witness:
  "\<exists>rest name'. skipelem [47, 47, 97, 47, 98] (\<lambda>_. 0) = Some (rest, name') \<and> chars name' DIRSIZ = [97]
     \<and> elements rest = [[98]]"
  using skipelem_elements [of "[47, 47, 97, 47, 98]" "\<lambda>_. 0"] by (auto simp: elements_def slash_def DIRSIZ_def)

end
