(* ===== verification/Fs_Ops.thy ===== *)
theory Fs_Ops
  imports Fs_Enc Log_Props
begin

text \<open>
  The file system inside a transaction.  \<open>txn s\<close> says that an operation is open and that blocks which
  the log has not pinned are as on the disk; \<open>fstep s s' V H k\<close> that the code went from \<open>s\<close> to \<open>s'\<close>, where
  the blocks are \<open>V\<close> and the locked ones \<open>H\<close>, that it logged at most \<open>k\<close> new blocks and wrote nothing to
  the disk.  The three laws \<open>get_block\<close>, \<open>put_block\<close> and \<open>release_block\<close> carry the theorems about
  the functions of \<open>fs.c\<close>.
\<close>

definition txn :: "'a logd_scheme \<Rightarrow> bool" where
  "txn s \<longleftrightarrow> log_inv s \<and> 1 \<le> log_outstanding s \<and> (\<forall>b. b \<notin> dirty s \<longrightarrow> view s b = memdisk s b)"

definition fstep :: "'a logd_scheme \<Rightarrow> 'a logd_scheme \<Rightarrow> (u32 \<Rightarrow> block) \<Rightarrow> u32 set \<Rightarrow> nat \<Rightarrow> bool" where
  "fstep s s' V H k \<longleftrightarrow> txn s' \<and> view s' = V \<and> held s' = H \<and> lh_n s \<le> lh_n s' \<and> lh_n s' \<le> lh_n s + int k
     \<and> log_size s' = log_size s \<and> home s' = home s \<and> disksize s' = disksize s \<and> fpid s' = fpid s
     \<and> memdisk s' = memdisk s \<and> logd.more s' = logd.more s"

text \<open>Room for \<open>k\<close> more locked or logged blocks, in the log and in the cache.\<close>

definition room :: "'a logd_scheme \<Rightarrow> nat \<Rightarrow> bool" where
  "room s k \<longleftrightarrow> lh_n s + int (card (held s)) + int k < log_size s - 1"

lemma fstepD:
  assumes "fstep s s' V H k"
  shows "txn s'" "view s' = V" "held s' = H" "lh_n s \<le> lh_n s'" "lh_n s' \<le> lh_n s + int k" "log_size s' = log_size s"
    "home s' = home s" "disksize s' = disksize s" "fpid s' = fpid s" "memdisk s' = memdisk s" "logd.more s' = logd.more s"
  using assms by (simp_all add: fstep_def)

lemma fstep_refl: "txn s \<Longrightarrow> fstep s s (view s) (held s) 0"
  by (simp add: fstep_def)

lemma fstep_trans: "fstep s t V H j \<Longrightarrow> fstep t u W G k \<Longrightarrow> fstep s u W G (j + k)"
  by (simp add: fstep_def)

lemma fstep_mono: "fstep s t V H j \<Longrightarrow> j \<le> k \<Longrightarrow> fstep s t V H k"
  by (simp add: fstep_def)

lemma room_mono: "room s k \<Longrightarrow> j \<le> k \<Longrightarrow> room s j"
  by (simp add: room_def)

lemma room_step: "fstep s t V H j \<Longrightarrow> room s k \<Longrightarrow> j + card H + n \<le> card (held s) + k \<Longrightarrow> room t n"
  by (simp add: room_def fstep_def)

lemma txnD:
  assumes "txn s"
  shows "log_inv s" "bc_inv s" "1 \<le> log_outstanding s" "\<And>b. b \<in> dirty s \<or> view s b = memdisk s b"
  using assms log_invD(1) by (auto simp: txn_def)

lemma card_used:
  assumes "txn s" and "room s k"
  shows "card (held s \<union> dirty s) + k < NBUF" "lh_n s < log_size s - 1"
proof -
  have li: "log_inv s" using assms(1) by (simp add: txn_def)
  have "card (logged s) \<le> nat (lh_n s)" using card_image_le [of "{..<nat (lh_n s)}" "lh_block s"] by (simp add: logged_def)
  then have "card (held s \<union> dirty s) \<le> card (held s) + nat (lh_n s)"
    using card_Un_le [of "held s" "dirty s"] log_invD(4) [OF li] by simp
  moreover have "log_size s \<le> 90" using li by (simp add: log_inv_def LOGSIZE_eq)
  ultimately show "card (held s \<union> dirty s) + k < NBUF"
    using assms(2) log_invD(8) [OF li] unfolding room_def LOGSIZE_eq by linarith
  show "lh_n s < log_size s - 1" using assms(2) by (simp add: room_def)
qed

section \<open>The laws\<close>

lemma log_write_more:
  assumes "log_write i s = Ok s'"
  shows "log_size s' = log_size s" "logd.more s' = logd.more s" "fpid s' = fpid s" "disksize s' = disksize s"
    "memdisk s' = memdisk s"
  using assms by (auto simp: log_write_def Let_def updb_def split: if_splits)

lemma get_block:
  assumes t: "txn s" and r: "room s 1" and b: "b < disksize s" "b \<notin> held s"
  shows "\<exists>i s'. bread 1 b s = Ok (i, s') \<and> owns s' i b \<and> bdata (bufs s' i) = view s b
    \<and> fstep s s' (view s) (insert b (held s)) 0 \<and> (\<forall>j c. owns s j c \<longrightarrow> owns s' j c)"
proof -
  note x = txnD [OF t]
  have "card (held s \<union> dirty s) < NBUF" using card_used(1) [OF t r] by simp
  then obtain i s' where s': "bread 1 b s = Ok (i, s')" "cstep s s' (view s) (insert b (held s)) (dirty s)" "owns s' i b"
      "\<forall>j c. owns s j c \<longrightarrow> owns s' j c" "memdisk s' = memdisk s"
    using bread_ok [OF x(2) b] by blast
  have c: "bc_inv s'" "view s' = view s" "held s' = insert b (held s)" "dirty s' = dirty s" "fpid s' = fpid s"
      "disksize s' = disksize s" "bcache.more s' = bcache.more s"
    using s'(2) by (simp_all add: cstep_def)
  note l = log_same [OF c(7)] and li = log_inv_cong [OF x(1) c(1,7,6) s'(5) c(4)]
  have "fstep s s' (view s) (insert b (held s)) 0"
    using t c l li s'(5) by (simp add: fstep_def txn_def)
  moreover have "bdata (bufs s' i) = view s b" using owns_data [OF s'(3)] c(2) by simp
  ultimately show ?thesis using s' by blast
qed

lemma put_block:
  assumes t: "txn s" and n: "lh_n s < log_size s - 1" and o: "owns s i b" and h: "home s b"
  shows "\<exists>s'. log_write i (setdata i d s) = Ok s' \<and> fstep s s' ((view s)(b := d)) (held s) 1
    \<and> (\<forall>j c. owns s' j c = owns s j c)"
proof -
  note x = txnD [OF t]
  let ?t = "setdata i d s"
  note sd = setdata_ok [OF x(2) o, of d]
  have c: "bc_inv ?t" "view ?t = (view s)(b := d)" "held ?t = held s" "dirty ?t = dirty s" "fpid ?t = fpid s"
      "disksize ?t = disksize s" "bcache.more ?t = bcache.more s"
    using sd(1) by (simp_all add: cstep_def)
  note l = log_same [OF c(7)] and li = log_inv_cong [OF x(1) c(1,7,6) sd(3) c(4)]
  have ot: "owns ?t i b" using sd(2) o by simp
  have ht: "home ?t b" using h li(2) by simp
  have "lh_n ?t < int LOGSIZE" using li(1) by (simp add: log_inv_def)
  then obtain s' where w: "log_write i ?t = Ok s'" "lh_n s' = lh_n s \<or> lh_n s' = lh_n s + 1"
    using n x(3) l by (auto simp: log_write_def Let_def updb_def)
  note lw = log_write_ok [OF li(1) ot ht w(1)]
  have k: "view s' = (view s)(b := d)" "held s' = held s" "dirty s' = insert b (dirty s)" "memdisk s' = memdisk s"
      "disksize s' = disksize s" "fpid s' = fpid s"
    using lw(2) c sd(3) log_write_more [OF w(1)] by (simp_all add: cache_abs_def)
  have m: "log_size s' = log_size s" "logd.more s' = logd.more s"
    using log_write_more [OF w(1)] l by simp_all
  have "fstep s s' ((view s)(b := d)) (held s) 1"
    using lw(1,4,5) k m w(2) li(2) l(3) x(3,4) by (auto simp: fstep_def txn_def)
  then show ?thesis using w(1) lw(3) sd(2) by auto
qed

lemma release_block:
  assumes t: "txn s" and o: "owns s i b"
  shows "\<exists>s'. brelse i s = Ok s' \<and> fstep s s' (view s) (held s - {b}) 0 \<and> (\<forall>j c. c \<noteq> b \<longrightarrow> owns s' j c = owns s j c)"
proof -
  note x = txnD [OF t]
  obtain s' where s': "brelse i s = Ok s'" "cstep s s' (view s) (held s - {b}) (dirty s)" "memdisk s' = memdisk s"
      "\<forall>j c. c \<noteq> b \<longrightarrow> owns s' j c = owns s j c"
    using brelse_ok [OF x(2) o x(4)] by blast
  have c: "bc_inv s'" "view s' = view s" "held s' = held s - {b}" "dirty s' = dirty s" "fpid s' = fpid s"
      "disksize s' = disksize s" "bcache.more s' = bcache.more s"
    using s'(2) by (simp_all add: cstep_def)
  note l = log_same [OF c(7)] and li = log_inv_cong [OF x(1) c(1,7,6) s'(3) c(4)]
  have "fstep s s' (view s) (held s - {b}) 0"
    using t c l li s'(3) by (simp add: fstep_def txn_def)
  then show ?thesis using s' by blast
qed

lemma fs_same:
  assumes "fstep s s' V H k"
  shows "sb s' = sb (s :: 'a fsys_scheme)" "inodes s' = inodes s" "cwd s' = cwd s" "dev_read s' = dev_read s"
    "dev_write s' = dev_write s" "BBLOCK n s' = BBLOCK n s" "IBLOCK m s' = IBLOCK m s"
proof -
  have "logd.more s' = logd.more s" using assms by (rule fstepD)
  then show "sb s' = sb s" "inodes s' = inodes s" "cwd s' = cwd s" "dev_read s' = dev_read s" "dev_write s' = dev_write s"
    by (cases s; cases s'; simp)+
  then show "BBLOCK n s' = BBLOCK n s" "IBLOCK m s' = IBLOCK m s" by (simp_all add: BBLOCK_def IBLOCK_def)
qed

lemma home_size: "home s b \<Longrightarrow> b < disksize s"
  by (simp add: home_def)

text \<open>Changing one block: \<open>bread\<close>, a change of the data, \<open>log_write\<close>, \<open>brelse\<close>.\<close>

lemma edit_block:
  assumes t: "txn s" and r: "room s 2" and b: "home s b" "b \<notin> held s"
  shows "\<exists>i s1 s2 s3. bread 1 b s = Ok (i, s1) \<and> bdata (bufs s1 i) = view s b \<and> owns s1 i b
    \<and> fstep s s1 (view s) (insert b (held s)) 0
    \<and> log_write i (setdata i d s1) = Ok s2 \<and> brelse i s2 = Ok s3
    \<and> fstep s s3 ((view s)(b := d)) (held s) 1 \<and> (\<forall>j c. owns s j c \<longrightarrow> owns s3 j c)"
proof -
  obtain i s1 where g: "bread 1 b s = Ok (i, s1)" "owns s1 i b" "bdata (bufs s1 i) = view s b"
      "fstep s s1 (view s) (insert b (held s)) 0" "\<forall>j c. owns s j c \<longrightarrow> owns s1 j c"
    using get_block [OF t room_mono [OF r] home_size [OF b(1)] b(2)] by auto
  note f = fstepD [OF g(4)]
  have "lh_n s1 < log_size s1 - 1" using f(4-6) r by (simp add: room_def)
  then obtain s2 where w: "log_write i (setdata i d s1) = Ok s2" "fstep s1 s2 ((view s1)(b := d)) (held s1) 1"
      "\<forall>j c. owns s2 j c = owns s1 j c"
    using put_block [OF f(1) _ g(2), of d] b f(7) by auto
  have o2: "owns s2 i b" using w(3) g(2) by simp
  obtain s3 where e: "brelse i s2 = Ok s3" "fstep s2 s3 (view s2) (held s2 - {b}) 0" "\<forall>j c. c \<noteq> b \<longrightarrow> owns s3 j c = owns s2 j c"
    using release_block [OF fstepD(1) [OF w(2)] o2] by blast
  have "held s2 - {b} = held s" using fstepD(3) [OF w(2)] f(3) b(2) by auto
  then have st: "fstep s s3 ((view s)(b := d)) (held s) 1"
    using fstep_trans [OF g(4) fstep_trans [OF w(2) e(2)]] fstepD(2) [OF w(2)] f(2) by simp
  have "owns s3 j c" if "owns s j c" for j c
  proof -
    have "c \<noteq> b" using that b(2) owns_held by blast
    then show ?thesis using e(3) w(3) g(5) that by simp
  qed
  then show ?thesis using g w(1) e(1) st by blast
qed

text \<open>Looking at one block: \<open>bread\<close> and \<open>brelse\<close>.\<close>

lemma peek_block:
  assumes t: "txn s" and r: "room s 1" and b: "b < disksize s" "b \<notin> held s"
  shows "\<exists>i s1 s2. bread 1 b s = Ok (i, s1) \<and> bdata (bufs s1 i) = view s b \<and> fstep s s1 (view s) (insert b (held s)) 0
    \<and> brelse i s1 = Ok s2 \<and> fstep s s2 (view s) (held s) 0 \<and> (\<forall>j c. owns s j c \<longrightarrow> owns s2 j c)"
proof -
  obtain i s1 where g: "bread 1 b s = Ok (i, s1)" "owns s1 i b" "bdata (bufs s1 i) = view s b"
      "fstep s s1 (view s) (insert b (held s)) 0" "\<forall>j c. owns s j c \<longrightarrow> owns s1 j c"
    using get_block [OF t r b] by auto
  obtain s2 where e: "brelse i s1 = Ok s2" "fstep s1 s2 (view s1) (held s1 - {b}) 0" "\<forall>j c. c \<noteq> b \<longrightarrow> owns s2 j c = owns s1 j c"
    using release_block [OF fstepD(1) [OF g(4)] g(2)] by blast
  have "held s1 - {b} = held s" using fstepD(3) [OF g(4)] b(2) by auto
  then have st: "fstep s s2 (view s) (held s) 0"
    using fstep_trans [OF g(4) e(2)] fstepD(2) [OF g(4)] by simp
  have "owns s2 j c" if "owns s j c" for j c
  proof -
    have "c \<noteq> b" using that b(2) owns_held by blast
    then show ?thesis using e(3) g(5) that by simp
  qed
  then show ?thesis using g e st by blast
qed

section \<open>The bitmap\<close>

lemma bzero_ok:
  assumes "txn s" and "room s 2" and "home s b" and "b \<notin> held s"
  shows "\<exists>s'. bzero 1 b s = Ok s' \<and> fstep s s' ((view s)(b := zero_block (view s b))) (held s) 1
    \<and> (\<forall>j c. owns s j c \<longrightarrow> owns s' j c)"
proof -
  obtain i s1 s2 s3 where e: "bread 1 b s = Ok (i, s1)" "bdata (bufs s1 i) = view s b"
      "log_write i (setdata i (zero_block (view s b)) s1) = Ok s2" "brelse i s2 = Ok s3"
      "fstep s s3 ((view s)(b := zero_block (view s b))) (held s) 1" "\<forall>j c. owns s j c \<longrightarrow> owns s3 j c"
    using edit_block [OF assms, of "zero_block (view s b)"] by blast
  then show ?thesis by (simp add: bzero_def)
qed

definition used :: "(u32 \<Rightarrow> block) \<Rightarrow> 'a fsys_scheme \<Rightarrow> nat \<Rightarrow> bool" where
  "used V s b \<longleftrightarrow> bit_of (V (BBLOCK b s)) (b mod BPB)"

definition fs_blocks :: "'a fsys_scheme \<Rightarrow> nat" where
  "fs_blocks s = unat (sb_size (sb s))"

text \<open>
  The blocks of the bitmap are home blocks; a block that is not in use is one too, and is not a
  block of the bitmap.  (\<open>mkfs\<close> marks the blocks before the data area as used.)
\<close>

definition fs_layout :: "(u32 \<Rightarrow> block) \<Rightarrow> 'a fsys_scheme \<Rightarrow> bool" where
  "fs_layout V s \<longleftrightarrow> (\<forall>b<fs_blocks s. home s (BBLOCK b s)
     \<and> (\<not> used V s b \<longrightarrow> home s (of_nat b) \<and> (\<forall>c<fs_blocks s. of_nat b \<noteq> BBLOCK c s)))"

lemma BBLOCK_group: "BBLOCK (g * BPB) s = BBLOCK b s" if "g = b div BPB"
  using that by (simp add: BBLOCK_def BPB_def BSIZE_def)

lemma BPB_pos [simp]: "0 < BPB"
  by (simp add: BPB_def BSIZE_def)

lemma group_used:
  assumes "bi < BPB"
  shows "BBLOCK (g * BPB + bi) s = BBLOCK (g * BPB) s" "used V s (g * BPB + bi) = bit_of (V (BBLOCK (g * BPB) s)) bi"
proof -
  have "(g * BPB + bi) div BPB = g" "(g * BPB + bi) mod BPB = bi" "g * BPB div BPB = g" using assms by simp_all
  then show "BBLOCK (g * BPB + bi) s = BBLOCK (g * BPB) s" "used V s (g * BPB + bi) = bit_of (V (BBLOCK (g * BPB) s)) bi"
    by (simp_all add: BBLOCK_def used_def)
qed

text \<open>A group without a free block is passed over.\<close>

lemma balloc_step_full:
  assumes t: "txn s" and r: "room s 1" and g: "g * BPB < fs_blocks s" and h: "home s (BBLOCK (g * BPB) s)" "BBLOCK (g * BPB) s \<notin> held s"
    and full: "\<And>bi. bi < BPB \<Longrightarrow> g * BPB + bi < fs_blocks s \<Longrightarrow> used (view s) s (g * BPB + bi)"
  shows "\<exists>s'. balloc_step 1 (g * BPB) s = Ok (None, s') \<and> fstep s s' (view s) (held s) 0 \<and> (\<forall>j c. owns s j c \<longrightarrow> owns s' j c)"
proof -
  obtain i s1 s2 where p: "bread 1 (BBLOCK (g * BPB) s) s = Ok (i, s1)" "bdata (bufs s1 i) = view s (BBLOCK (g * BPB) s)"
      "fstep s s1 (view s) (insert (BBLOCK (g * BPB) s) (held s)) 0" "brelse i s1 = Ok s2" "fstep s s2 (view s) (held s) 0"
      "\<forall>j c. owns s j c \<longrightarrow> owns s2 j c"
    using peek_block [OF t r home_size [OF h(1)] h(2)] by blast
  have "find (\<lambda>bi. \<not> bit_of (view s (BBLOCK (g * BPB) s)) bi) [0..<min BPB (fs_blocks s - g * BPB)] = None"
    using full group_used(2) [of _ "view s" s g] by (simp add: find_None_iff less_diff_conv add.commute [of _ "g * BPB"])
  then show ?thesis using p fs_same(1) [OF p(3)] by (simp add: balloc_step_def fs_blocks_def)
qed

definition set_bit_in :: "block \<Rightarrow> nat \<Rightarrow> block" where
  "set_bit_in d bi = d(bi div 8 := d (bi div 8) OR push_bit (bi mod 8) 1)"

text \<open>What \<open>balloc\<close> does to the blocks when it takes the block \<open>b\<close>.\<close>

definition alloc_view :: "(u32 \<Rightarrow> block) \<Rightarrow> 'a fsys_scheme \<Rightarrow> nat \<Rightarrow> u32 \<Rightarrow> block" where
  "alloc_view V s b = (let V = V(BBLOCK b s := set_bit_in (V (BBLOCK b s)) (b mod BPB)) in V(of_nat b := zero_block (V (of_nat b))))"

lemma find_append: "find P (xs @ ys) = (case find P xs of None \<Rightarrow> find P ys | Some x \<Rightarrow> Some x)"
  by (induction xs) auto

lemma find_upt_first: "bi < n \<Longrightarrow> P bi \<Longrightarrow> (\<And>j. j < bi \<Longrightarrow> \<not> P j) \<Longrightarrow> find P [0..<n] = Some bi"
proof (induction n)
  case (Suc n)
  show ?case
  proof (cases "bi < n")
    case True
    then show ?thesis using Suc by (simp add: find_append split: option.split)
  next
    case False
    then have "bi = n" using Suc.prems(1) by simp
    then have "find P [0..<n] = None" using Suc.prems(3) by (auto simp: find_None_iff)
    then show ?thesis using Suc.prems(2) \<open>bi = n\<close> by (simp add: find_append)
  qed
qed simp

lemma balloc_step_free:
  assumes t: "txn s" and r: "room s 3" and L: "fs_layout (view s) s" and b: "b < fs_blocks s" "\<not> used (view s) s b"
    and first: "\<And>c. b div BPB * BPB \<le> c \<Longrightarrow> c < b \<Longrightarrow> used (view s) s c" and h: "BBLOCK b s \<notin> held s" "of_nat b \<notin> held s"
  shows "\<exists>s'. balloc_step 1 (b div BPB * BPB) s = Ok (Some (of_nat b), s') \<and> fstep s s' (alloc_view (view s) s b) (held s) 2
    \<and> (\<forall>j c. owns s j c \<longrightarrow> owns s' j c)"
proof -
  define g bi where "g = b div BPB" and "bi = b mod BPB"
  have e: "b = g * BPB + bi" "bi < BPB" "g * BPB \<le> b" by (simp_all add: g_def bi_def)
  note gu = group_used(1) [OF e(2), of g s, folded e(1)] and gb = group_used(2) [OF e(2), of "view s" s g, folded e(1)]
  have hb: "home s (BBLOCK b s)" "home s (of_nat b)" "of_nat b \<noteq> BBLOCK b s" using L b by (auto simp: fs_layout_def)
  let ?d = "set_bit_in (view s (BBLOCK b s)) bi"
  obtain i s1 s2 s3 where p: "bread 1 (BBLOCK b s) s = Ok (i, s1)" "bdata (bufs s1 i) = view s (BBLOCK b s)"
      "fstep s s1 (view s) (insert (BBLOCK b s) (held s)) 0" "log_write i (setdata i ?d s1) = Ok s2" "brelse i s2 = Ok s3"
      "fstep s s3 ((view s)(BBLOCK b s := ?d)) (held s) 1" "\<forall>j c. owns s j c \<longrightarrow> owns s3 j c"
    using edit_block [OF t room_mono [OF r] hb(1) h(1), of ?d] by auto
  note f3 = fstepD [OF p(6)]
  have "room s3 2" using room_step [OF p(6) r] by simp
  then obtain s4 where z: "bzero 1 (of_nat b) s3 = Ok s4"
      "fstep s3 s4 ((view s3)(of_nat b := zero_block (view s3 (of_nat b)))) (held s3) 1" "\<forall>j c. owns s3 j c \<longrightarrow> owns s4 j c"
    using bzero_ok [OF f3(1), of "of_nat b"] hb(2) h(2) f3(3,7) by auto
  have fd: "find (\<lambda>bi. \<not> bit_of (view s (BBLOCK b s)) bi) [0..<min BPB (fs_blocks s - g * BPB)] = Some bi"
  proof (rule find_upt_first)
    show "bi < min BPB (fs_blocks s - g * BPB)" unfolding min_less_iff_conj using b(1) e(1,2) by linarith
    show "\<not> bit_of (view s (BBLOCK b s)) bi" using b(2) unfolding gb gu .
    fix j assume j: "j < bi"
    have "b div BPB * BPB \<le> g * BPB + j" "g * BPB + j < b" using j e(1) unfolding g_def by linarith+
    then have "used (view s) s (g * BPB + j)" by (rule first)
    then show "\<not> \<not> bit_of (view s (BBLOCK b s)) j" using group_used(2) [of j "view s" s g] j e(2) unfolding gu by simp
  qed
  have "balloc_step 1 (g * BPB) s = Ok (Some (of_nat b), s4)"
    using p(1,2,4,5) fd z(1) fs_same(1) [OF p(3)]
    by (simp add: balloc_step_def fs_blocks_def set_bit_in_def gu [symmetric] e(1) [symmetric])
  moreover have "fstep s s4 (alloc_view (view s) s b) (held s) 2"
    using fstep_trans [OF p(6) z(2)] f3(2,3) by (simp add: alloc_view_def Let_def bi_def numeral_2_eq_2)
  ultimately show ?thesis using p(7) z(3) by (auto simp: g_def)
qed

lemma bit_of_bit: "bit_of d j \<longleftrightarrow> bit (d (j div 8)) (j mod 8)"
  by (simp add: bit_of_def and_exp_eq_0_iff_not_bit)

lemma same_bit: "j div 8 = k div 8 \<Longrightarrow> j mod 8 = k mod 8 \<Longrightarrow> j = (k :: nat)"
  by (metis div_mult_mod_eq)

lemma bit_set_bit: "bit_of (set_bit_in d k) j \<longleftrightarrow> j = k \<or> bit_of d j"
  using same_bit [of j k] by (auto simp: bit_of_bit set_bit_in_def bit_simps)

definition clear_bit_in :: "block \<Rightarrow> nat \<Rightarrow> block" where
  "clear_bit_in d bi = d(bi div 8 := d (bi div 8) AND NOT (push_bit (bi mod 8) 1))"

lemma bit_clear_bit: "bit_of (clear_bit_in d k) j \<longleftrightarrow> j \<noteq> k \<and> bit_of d j"
proof -
  have "j mod 8 < 8" by simp
  then show ?thesis
    using same_bit [of j k] by (auto simp: bit_of_bit clear_bit_in_def bit_simps)
qed

text \<open>The blocks in use, as a set, before and after an allocation.\<close>

lemma BBLOCK_inj:
  assumes "unat (sb_bmapstart (sb s)) + fs_blocks s < 2 ^ 32" and "b < fs_blocks s" and "c < fs_blocks s"
  shows "BBLOCK b s = BBLOCK c s \<longleftrightarrow> b div BPB = c div BPB"
proof -
  have "b div BPB \<le> b" "c div BPB \<le> c" by simp_all
  then have "b div BPB < 2 ^ 32" "c div BPB < 2 ^ 32" using assms by linarith+
  then show ?thesis by (simp add: BBLOCK_def word_of_nat_eq_iff take_bit_nat_eq_self)
qed

lemma used_alloc:
  assumes L: "fs_layout V s" and n: "unat (sb_bmapstart (sb s)) + fs_blocks s < 2 ^ 32" and b: "b < fs_blocks s" "\<not> used V s b"
    and c: "c < fs_blocks s"
  shows "used (alloc_view V s b) s c \<longleftrightarrow> c = b \<or> used V s c"
proof -
  have "of_nat b \<noteq> BBLOCK c s" using L b c by (simp add: fs_layout_def)
  then have e: "used (alloc_view V s b) s c
      \<longleftrightarrow> bit_of ((V(BBLOCK b s := set_bit_in (V (BBLOCK b s)) (b mod BPB))) (BBLOCK c s)) (c mod BPB)"
    by (simp add: used_def alloc_view_def Let_def)
  show ?thesis
  proof (cases "BBLOCK c s = BBLOCK b s")
    case True
    then have "c div BPB = b div BPB" using BBLOCK_inj [OF n c b(1)] by simp
    then have "c mod BPB = b mod BPB \<longleftrightarrow> c = b" by (metis div_mult_mod_eq)
    then show ?thesis unfolding e using True by (simp add: bit_set_bit used_def)
  next
    case False
    then show ?thesis unfolding e using b by (auto simp: used_def)
  qed
qed

definition quiet :: "'a logd_scheme \<Rightarrow> 'a logd_scheme \<Rightarrow> bool" where
  "quiet s s' \<longleftrightarrow> fstep s s' (view s) (held s) 0 \<and> (\<forall>j c. owns s j c \<longrightarrow> owns s' j c)"

lemma quiet_refl: "txn s \<Longrightarrow> quiet s s"
  by (simp add: quiet_def fstep_refl)

lemma quiet_trans: "quiet s t \<Longrightarrow> quiet t u \<Longrightarrow> quiet s u"
  using fstep_trans [of s t _ _ 0 u _ _ 0] by (auto simp: quiet_def fstepD(2,3))

lemma quiet_keeps:
  assumes "quiet s (t :: 'a fsys_scheme)"
  shows "txn t" "view t = view s" "held t = held s" "home t = home s" "fs_blocks t = fs_blocks s" "BBLOCK b t = BBLOCK b s"
    "used V t = used V s" "room t k = room s k" "fs_layout V t = fs_layout V s" "alloc_view V t = alloc_view V s"
proof -
  have q: "fstep s t (view s) (held s) 0" using assms by (simp add: quiet_def)
  show f: "txn t" "view t = view s" "held t = held s" "home t = home s" using fstepD [OF q] by simp_all
  show B: "fs_blocks t = fs_blocks s" "BBLOCK b t = BBLOCK b s" for b using fs_same [OF q] by (simp_all add: fs_blocks_def)
  show u: "used V t = used V s" for V by (simp add: used_def B fun_eq_iff)
  show "room t k = room s k" using fstepD(3-6) [OF q] by (simp add: room_def)
  show "fs_layout V t = fs_layout V s" by (simp add: fs_layout_def B u f)
  show "alloc_view V t = alloc_view V s" by (simp add: alloc_view_def B fun_eq_iff)
qed

text \<open>No buffer of the bitmap and of a free block is in use by the caller.\<close>

definition bitmap_free :: "'a fsys_scheme \<Rightarrow> bool" where
  "bitmap_free s \<longleftrightarrow> (\<forall>b<fs_blocks s. BBLOCK b s \<notin> held s \<and> (\<not> used (view s) s b \<longrightarrow> of_nat b \<notin> held s))"

lemma kfirst_full:
  assumes "txn s" and "room s 1" and "fs_layout (view s) s" and "bitmap_free s"
    and "\<And>g bi. g \<in> set gs \<Longrightarrow> bi < BPB \<Longrightarrow> g * BPB + bi < fs_blocks s \<Longrightarrow> used (view s) s (g * BPB + bi)"
    and "\<And>g. g \<in> set gs \<Longrightarrow> g * BPB < fs_blocks s"
  shows "\<exists>s'. kfirst (balloc_step 1) (map (\<lambda>g. g * BPB) gs @ ys) s = kfirst (balloc_step 1) ys s' \<and> quiet s s'"
  using assms
proof (induction gs arbitrary: s)
  case Nil
  then show ?case using quiet_refl by auto
next
  case (Cons g gs)
  have g: "g * BPB < fs_blocks s" using Cons.prems(6) by simp
  have "home s (BBLOCK (g * BPB) s)" "BBLOCK (g * BPB) s \<notin> held s"
    using Cons.prems(3,4) g by (auto simp: fs_layout_def bitmap_free_def)
  then obtain s1 where s1: "balloc_step 1 (g * BPB) s = Ok (None, s1)" "quiet s s1"
    using balloc_step_full [OF Cons.prems(1,2) g] Cons.prems(5) by (auto simp: quiet_def)
  note k = quiet_keeps [OF s1(2)]
  obtain s2 where "kfirst (balloc_step 1) (map (\<lambda>g. g * BPB) gs @ ys) s1 = kfirst (balloc_step 1) ys s2" "quiet s1 s2"
    using Cons.IH [of s1] Cons.prems k by (auto simp: bitmap_free_def)
  then show ?case using s1 quiet_trans by auto
qed

lemma steps_groups:
  assumes "b < n"
  shows "steps BPB n = map (\<lambda>g. g * BPB) [0..<b div BPB] @ b div BPB * BPB # map (\<lambda>g. g * BPB) [Suc (b div BPB)..<(n + BPB - 1) div BPB]"
proof -
  have "b div BPB < (n + BPB - 1) div BPB"
    using assms div_le_mono [of "b + BPB" "n + BPB - 1" BPB] div_add_self2 [of BPB b] by (simp add: Suc_le_eq)
  then have "[0..<(n + BPB - 1) div BPB] = [0..<b div BPB] @ b div BPB # [Suc (b div BPB)..<(n + BPB - 1) div BPB]"
    by (metis less_imp_le upt_add_eq_append upt_conv_Cons le_add_diff_inverse zero_le)
  then show ?thesis by (simp add: steps_def)
qed

lemma group_below: "g < (n + BPB - 1) div BPB \<Longrightarrow> g * BPB < n"
  by (simp add: BPB_def BSIZE_def less_eq_div_iff_mult_less_eq Suc_le_eq [symmetric])

end
