(* ===== verification/Fs_Alloc.thy ===== *)
theory Fs_Alloc
  imports Fs_Ops
begin

text \<open>
  The allocator of disk blocks: \<open>balloc\<close> takes the first free block of the bitmap, \<open>bfree\<close> gives one
  back, and the concrete file system on which the theorems about \<open>fs.c\<close> are tried.
\<close>

section \<open>A concrete file system\<close>

definition zero_inode :: inode where
  "zero_inode = \<lparr>i_dev = 0, i_inum = 0, i_ref = 0, i_lock = initsleeplock, i_valid = False, i_path = (\<lambda>_. 0), i_type = 0,
     i_major = 0, i_minor = 0, i_nlink = 0, i_size = 0, i_addrs = (\<lambda>_. 0)\<rparr>"

definition demo_inode :: inode where
  "demo_inode = zero_inode\<lparr>i_dev := 1, i_inum := 5, i_ref := 1, i_valid := True, i_type := T_FILE, i_nlink := 1, i_size := 1500,
     i_addrs := (\<lambda>k. if k < 3 then 300 + of_nat k else 0)\<rparr>"

definition demo_bitmap :: block where
  "demo_bitmap i = (if i < 38 then 255 else 0)"

definition demo_fs :: fsys where
  "demo_fs = \<lparr>fpid = 1, bufs = (\<lambda>_. zero_buf), memdisk = demo_disk(200 := demo_bitmap), disksize = 1000, dwrites = [],
     log_start = 2, log_size = 90, log_outstanding = 1, log_committing = False, log_dev = 1, lh_n = 0,
     lh_block = (\<lambda>_. 0), log_woken = 0,
     sb = \<lparr>sb_size = 1000, sb_nblocks = 0, sb_ninodes = 50, sb_nlog = 90, sb_logstart = 2, sb_inodestart = 100, sb_bmapstart = 200\<rparr>,
     inodes = (\<lambda>ip. if ip = 7 then demo_inode else zero_inode), cwd = 0, dev_read = (\<lambda>_. None), dev_write = (\<lambda>_. None)\<rparr>"

definition demo_start :: fsys where
  "demo_start = binit demo_fs"

lemma demo_fs_simps:
  "disksize demo_fs = 1000" "log_start demo_fs = 2" "log_size demo_fs = 90" "log_outstanding demo_fs = 1"
  "log_dev demo_fs = 1" "lh_n demo_fs = 0" "memdisk demo_fs = demo_disk(200 := demo_bitmap)" "fpid demo_fs = 1"
  by (simp_all add: demo_fs_def)

lemma fs_binit: "sb (binit s) = sb s" "inodes (binit s) = inodes s" if "zeroed s" for s :: "'a fsys_scheme"
proof -
  have "bcache.more (binit s) = bcache.more s" by (rule binit_ok(5) [OF that])
  then show "sb (binit s) = sb s" "inodes (binit s) = inodes s" by (cases "binit s"; cases s; simp)+
qed

lemma demo_start_ok:
  "txn demo_start" "held demo_start = {}" "lh_n demo_start = 0" "log_size demo_start = 90" "disksize demo_start = 1000"
  "view demo_start = demo_disk(200 := demo_bitmap)" "log_start demo_start = 2" "sb demo_start = sb demo_fs"
  "inodes demo_start = inodes demo_fs"
proof -
  have z: "zeroed demo_fs" by (simp add: zeroed_def demo_fs_def zero_buf_def)
  note b = binit_ok [OF z] and f = bframeD [OF binit_frame, of demo_fs]
  note l = log_same [OF b(5)]
  have d: "get32 ((demo_disk(200 := demo_bitmap)) 2) 0 = 0" "get32 ((demo_disk(200 := demo_bitmap)) 1) 16 = 2"
    by (simp_all add: demo_disk_def) (simp add: get32_def le_word_def)
  have "log_inv (binit demo_fs)"
    using b d by (simp add: log_inv_def log_wf_def log_layout_def logged_def l f LOGSIZE_eq demo_fs_simps)
  then show "txn demo_start"
    using b by (simp add: txn_def demo_start_def l f demo_fs_simps)
  show "held demo_start = {}" "lh_n demo_start = 0" "log_size demo_start = 90" "disksize demo_start = 1000"
    "view demo_start = demo_disk(200 := demo_bitmap)" "log_start demo_start = 2" "sb demo_start = sb demo_fs"
    "inodes demo_start = inodes demo_fs"
    using b(2,4) fs_binit [OF z] by (simp_all add: demo_start_def l f demo_fs_simps)
qed

lemma demo_home: "home demo_start b \<longleftrightarrow> b < 1000 \<and> b \<noteq> 1 \<and> (unat b < 2 \<or> 92 \<le> unat b)"
  by (auto simp: home_def log_region_def demo_start_ok LOGSIZE_eq)

lemma demo_blocks: "fs_blocks demo_start = 1000" "b < 1000 \<Longrightarrow> BBLOCK b demo_start = 200"
  by (simp_all add: fs_blocks_def BBLOCK_def demo_start_ok demo_fs_def BPB_def BSIZE_def)

lemma demo_used: "b < 1000 \<Longrightarrow> used (view demo_start) demo_start b \<longleftrightarrow> b < 304"
proof -
  assume b: "b < 1000"
  have m: "bit (255 :: byte) (b mod 8)"
  proof -
    have e: "(255 :: byte) = mask 8" by (simp add: mask_eq_exp_minus_1)
    have "b mod 8 < 8" by simp
    then show ?thesis unfolding e bit_mask_iff by simp
  qed
  have "b div 8 < 38 \<longleftrightarrow> b < 304" by (simp add: div_less_iff_less_mult)
  then show ?thesis using b m
    by (simp add: used_def demo_blocks demo_start_ok bit_of_bit demo_bitmap_def BPB_def BSIZE_def)
qed

lemma demo_layout: "fs_layout (view demo_start) demo_start" "bitmap_free demo_start" "room demo_start 50"
proof -
  have "home demo_start (of_nat b) \<and> of_nat b \<noteq> (200 :: u32)" if "b < 1000" "304 \<le> b" for b
  proof -
    have "unat (of_nat b :: u32) = b"
      using that by (simp only: unsigned_of_nat of_nat_id) (rule take_bit_nat_eq_self, simp)
    then show ?thesis using that by (auto simp: demo_home word_less_nat_alt)
  qed
  moreover have "home demo_start 200" by (simp add: demo_home)
  ultimately show "fs_layout (view demo_start) demo_start"
    using demo_used by (simp add: fs_layout_def demo_blocks)
  show "bitmap_free demo_start" "room demo_start 50" by (simp_all add: bitmap_free_def room_def demo_start_ok)
qed

section \<open>The properties\<close>

text \<open>
  C36.  \<open>balloc\<close> in a transaction with room for two blocks: it takes the first block that the bitmap
  has free, marks exactly that one as used, zeroes it and changes no other block of the disk;
  when every block is in use it panics.
\<close>

theorem balloc_first_fit:
  assumes "txn s" and "room s 3" and "fs_layout (view s) s" and "bitmap_free s"
    and "unat (sb_bmapstart (sb s)) + fs_blocks s < 2 ^ 32"
  shows "case find (\<lambda>b. \<not> used (view s) s b) [0..<fs_blocks s] of
      None \<Rightarrow> balloc 1 s = Panic ''balloc: out of blocks''
    | Some b \<Rightarrow> \<exists>s'. balloc 1 s = Ok (of_nat b, s') \<and> fstep s s' (alloc_view (view s) s b) (held s) 2
        \<and> (\<forall>j c. owns s j c \<longrightarrow> owns s' j c)
        \<and> (\<forall>c<fs_blocks s. used (view s') s c \<longleftrightarrow> c = b \<or> used (view s) s c)
        \<and> (\<forall>d. d \<noteq> of_nat b \<and> d \<noteq> BBLOCK b s \<longrightarrow> view s' d = view s d)"
proof (cases "find (\<lambda>b. \<not> used (view s) s b) [0..<fs_blocks s]")
  case None
  then have full: "c < fs_blocks s \<Longrightarrow> used (view s) s c" for c by (auto simp: find_None_iff)
  obtain s' where "kfirst (balloc_step 1) (steps BPB (fs_blocks s)) s = kfirst (balloc_step 1) [] s'"
    using kfirst_full [OF assms(1) room_mono [OF assms(2)] assms(3,4), of "[0..<(fs_blocks s + BPB - 1) div BPB]" "[]"]
      full group_below by (auto simp: steps_def)
  then show ?thesis using None by (simp add: balloc_def fs_blocks_def)
next
  case (Some b)
  then have b: "b < fs_blocks s" "\<not> used (view s) s b" using find_Some_D [OF Some] by auto
  have below: "used (view s) s c" if "c < b" for c
    using that Some b(1) by (auto simp: find_Some_iff)
  have first: "used (view s) s (g * BPB + bi)" if "g < b div BPB" "bi < BPB" for g bi
  proof -
    have "g * BPB + bi < Suc g * BPB" using that(2) by simp
    also have "\<dots> \<le> b div BPB * BPB" using that(1) by (intro mult_right_mono) auto
    also have "\<dots> \<le> b" by simp
    finally show ?thesis by (rule below)
  qed
  have low: "g * BPB < fs_blocks s" if "g < b div BPB" for g
    using that b(1) div_times_less_eq_dividend [of b BPB] mult_less_mono1 [OF that BPB_pos] by linarith
  let ?ys = "b div BPB * BPB # map (\<lambda>g. g * BPB) [Suc (b div BPB)..<(fs_blocks s + BPB - 1) div BPB]"
  obtain s1 where s1: "kfirst (balloc_step 1) (steps BPB (fs_blocks s)) s = kfirst (balloc_step 1) ?ys s1" "quiet s s1"
    using kfirst_full [OF assms(1) room_mono [OF assms(2)] assms(3,4), of "[0..<b div BPB]" ?ys] first low
    unfolding steps_groups [OF b(1)] by auto
  note k = quiet_keeps [OF s1(2)]
  obtain s2 where s2: "balloc_step 1 (b div BPB * BPB) s1 = Ok (Some (of_nat b), s2)"
      "fstep s1 s2 (alloc_view (view s) s b) (held s) 2" "\<forall>j c. owns s1 j c \<longrightarrow> owns s2 j c"
    using balloc_step_free [of s1 b] k b below assms(2,3,4) by (auto simp: bitmap_free_def)
  have st: "fstep s s2 (alloc_view (view s) s b) (held s) 2"
    using fstep_trans [OF conjunct1 [OF s1(2) [unfolded quiet_def]] s2(2)] by (simp only: add_0)
  have "used (view s2) s c \<longleftrightarrow> c = b \<or> used (view s) s c" if "c < fs_blocks s" for c
    using used_alloc [OF assms(3,5) b that] fstepD(2) [OF st] by simp
  moreover have "view s2 d = view s d" if "d \<noteq> of_nat b" "d \<noteq> BBLOCK b s" for d
    using that fstepD(2) [OF st] by (simp add: alloc_view_def Let_def)
  moreover have "balloc 1 s = Ok (of_nat b, s2)"
    using s1(1) s2(1) by (simp add: balloc_def fs_blocks_def)
  ultimately show ?thesis using Some st s1(2) s2(3) by (auto simp: quiet_def)
qed

lemma balloc_first_fit_witness: "\<exists>s'. balloc 1 demo_start = Ok (304, s')"
proof -
  have "find (\<lambda>b. \<not> used (view demo_start) demo_start b) [0..<fs_blocks demo_start] = Some 304"
    by (rule find_upt_first) (simp_all add: demo_blocks demo_used)
  moreover have "unat (sb_bmapstart (sb demo_start)) + fs_blocks demo_start < 2 ^ 32"
    by (simp add: demo_blocks demo_start_ok demo_fs_def)
  ultimately show ?thesis
    using balloc_first_fit [OF demo_start_ok(1) room_mono [OF demo_layout(3)] demo_layout(1,2)] by auto
qed

text \<open>
  \<open>bfree\<close> gives back exactly the block it is called for: the bit of the block is cleared and no
  other block of the disk changes; for a block that is free already it panics.
\<close>

theorem bfree_effect:
  assumes "txn s" and "room s 2" and "fs_layout (view s) s" and "bitmap_free s"
    and "unat (sb_bmapstart (sb s)) + fs_blocks s < 2 ^ 32" and "unat b < fs_blocks s"
  shows "if used (view s) s (unat b)
    then \<exists>s'. bfree 1 b s = Ok s' \<and> held s' = held s \<and> memdisk s' = memdisk s \<and> lh_n s' \<le> lh_n s + 1
      \<and> (\<forall>c<fs_blocks s. used (view s') s c \<longleftrightarrow> c \<noteq> unat b \<and> used (view s) s c)
      \<and> (\<forall>d. d \<noteq> BBLOCK (unat b) s \<longrightarrow> view s' d = view s d)
    else bfree 1 b s = Panic ''freeing free block''"
proof -
  let ?B = "BBLOCK (unat b) s" and ?bi = "unat b mod BPB"
  let ?d = "clear_bit_in (view s ?B) ?bi"
  have h: "home s ?B" "?B \<notin> held s" using assms(3,4,6) by (auto simp: fs_layout_def bitmap_free_def)
  obtain i s1 s2 s3 where p: "bread 1 ?B s = Ok (i, s1)" "bdata (bufs s1 i) = view s ?B"
      "log_write i (setdata i ?d s1) = Ok s2" "brelse i s2 = Ok s3" "fstep s s3 ((view s)(?B := ?d)) (held s) 1"
    using edit_block [OF assms(1,2) h, of ?d] by blast
  show ?thesis
  proof (cases "used (view s) s (unat b)")
    case True
    then have "bfree 1 b s = Ok s3" using p by (simp add: bfree_def used_def clear_bit_in_def Let_def)
    moreover have "used (view s3) s c \<longleftrightarrow> c \<noteq> unat b \<and> used (view s) s c" if c: "c < fs_blocks s" for c
    proof (cases "BBLOCK c s = ?B")
      case same: True
      then have "c div BPB = unat b div BPB" using BBLOCK_inj [OF assms(5) c assms(6)] by simp
      then have "c mod BPB = ?bi \<longleftrightarrow> c = unat b" by (metis div_mult_mod_eq)
      then show ?thesis using same fstepD(2) [OF p(5)] by (simp add: used_def bit_clear_bit)
    next
      case False
      then show ?thesis using fstepD(2) [OF p(5)] by (auto simp: used_def)
    qed
    ultimately show ?thesis using True fstepD [OF p(5)] by auto
  next
    case False
    then show ?thesis using p by (simp add: bfree_def used_def Let_def)
  qed
qed

lemma bfree_effect_witness:
  "(\<exists>s'. bfree 1 300 demo_start = Ok s') \<and> bfree 1 500 demo_start = Panic ''freeing free block''"
proof -
  have n: "unat (sb_bmapstart (sb demo_start)) + fs_blocks demo_start < 2 ^ 32"
    by (simp add: demo_blocks demo_start_ok demo_fs_def)
  note w = bfree_effect [OF demo_start_ok(1) room_mono [OF demo_layout(3)] demo_layout(1,2) n]
  show ?thesis using w [of 300] w [of 500] by (auto simp: demo_blocks demo_used)
qed

end
