(* ===== verification/Fs_File.thy ===== *)
theory Fs_File
  imports Fs_Alloc
begin

text \<open>
  The contents of a file.  \<open>faddr V r bn\<close> follows the pointers of the inode \<open>r\<close> to the disk block of the
  block number \<open>bn\<close>, through up to three levels of indirect blocks, \<open>inds V r bn\<close>; \<open>file_byte\<close> is the
  byte of the file at an offset.  The theorems say that \<open>bmap\<close> computes \<open>faddr\<close>, and that \<open>readi\<close> and
  \<open>writei\<close> read and write \<open>file_byte\<close>.
\<close>

definition ptr :: "(u32 \<Rightarrow> block) \<Rightarrow> u32 \<Rightarrow> nat \<Rightarrow> u32" where
  "ptr V a k = get32 (V a) (4 * k)"

definition inds :: "(u32 \<Rightarrow> block) \<Rightarrow> inode \<Rightarrow> nat \<Rightarrow> u32 list" where
  "inds V r bn =
     (if bn < NDIRECT then []
      else let bn = bn - NDIRECT in
      if bn < NINDIRECT then [i_addrs r NDIRECT]
      else let bn = bn - NINDIRECT in
      if bn < NDINDIRECT then let a = i_addrs r (NDIRECT + 1) in [a, ptr V a (bn div NINDIRECT)]
      else let bn = bn - NDINDIRECT; a = i_addrs r (NDIRECT + 2); b = ptr V a (bn div NDINDIRECT) in
           [a, b, ptr V b (bn mod NDINDIRECT div NINDIRECT)])"

definition faddr :: "(u32 \<Rightarrow> block) \<Rightarrow> inode \<Rightarrow> nat \<Rightarrow> u32" where
  "faddr V r bn =
     (if bn < NDIRECT then i_addrs r bn
      else let bn = bn - NDIRECT in
      if bn < NINDIRECT then ptr V (i_addrs r NDIRECT) bn
      else let bn = bn - NINDIRECT in
      if bn < NDINDIRECT then ptr V (ptr V (i_addrs r (NDIRECT + 1)) (bn div NINDIRECT)) (bn mod NINDIRECT)
      else let bn = bn - NDINDIRECT; a = i_addrs r (NDIRECT + 2); b = ptr V a (bn div NDINDIRECT) in
           ptr V (ptr V b (bn mod NDINDIRECT div NINDIRECT)) (bn mod NDINDIRECT mod NINDIRECT))"

text \<open>The block number is mapped: no pointer on the way is zero, and the way does not cross itself.\<close>

definition mapped :: "'a fsys_scheme \<Rightarrow> inode \<Rightarrow> nat \<Rightarrow> bool" where
  "mapped s r bn \<longleftrightarrow> bn < MAXFILE \<and> faddr (view s) r bn \<noteq> 0 \<and> distinct (inds (view s) r bn)
     \<and> (\<forall>a\<in>set (inds (view s) r bn). a \<noteq> 0 \<and> a < disksize s \<and> a \<notin> held s)"

section \<open>The block map\<close>

lemma addr_entry_hit: "i_addrs (inodes s ip) k \<noteq> 0 \<Longrightarrow> addr_entry ip k s = Ok (i_addrs (inodes s ip) k, s)"
  by (simp add: addr_entry_def)

lemma level_hit:
  assumes t: "txn s" and r: "room s 1" and a: "a < disksize s" "a \<notin> held s" and p: "ptr (view s) a k \<noteq> 0"
  shows "\<exists>bp s1. bread 1 a s = Ok (bp, s1) \<and> ind_entry 1 bp k s1 = Ok (ptr (view s) a k, s1) \<and> owns s1 bp a
    \<and> fstep s s1 (view s) (insert a (held s)) 0 \<and> (\<forall>j c. owns s j c \<longrightarrow> owns s1 j c)"
proof -
  obtain bp s1 where g: "bread 1 a s = Ok (bp, s1)" "owns s1 bp a" "bdata (bufs s1 bp) = view s a"
      "fstep s s1 (view s) (insert a (held s)) 0" "\<forall>j c. owns s j c \<longrightarrow> owns s1 j c"
    using get_block [OF t r a] by auto
  then show ?thesis using p by (intro exI [of _ bp] exI [of _ s1]) (simp add: ind_entry_def ptr_def)
qed

text \<open>Releasing the block that was taken last brings back the set of held blocks.\<close>

lemma level_release:
  assumes t: "txn s" and f: "fstep s s1 (view s) (insert a (held s)) 0" and a: "a \<notin> held s"
    and o: "owns s1 bp a" "\<forall>j c. owns s j c \<longrightarrow> owns s1 j c"
  shows "\<exists>s2. brelse bp s1 = Ok s2 \<and> quiet s s2"
proof -
  obtain s2 where e: "brelse bp s1 = Ok s2" "fstep s1 s2 (view s1) (held s1 - {a}) 0" "\<forall>j c. c \<noteq> a \<longrightarrow> owns s2 j c = owns s1 j c"
    using release_block [OF fstepD(1) [OF f] o(1)] by blast
  have "held s1 - {a} = held s" using fstepD(3) [OF f] a by auto
  then have "fstep s s2 (view s) (held s) 0" using fstep_trans [OF f e(2)] fstepD(2) [OF f] by simp
  moreover have "owns s2 j c" if "owns s j c" for j c
  proof -
    have "c \<noteq> a" using that a owns_held by blast
    then show ?thesis using e(3) o(2) that by simp
  qed
  ultimately show ?thesis using e(1) by (auto simp: quiet_def)
qed

text \<open>Once \<open>s1\<close> holds \<open>a\<close>, what is quiet from \<open>s1\<close> on can be released as well.\<close>

lemma quiet_held:
  assumes "fstep s s1 (view s) (insert a (held s)) 0" and "quiet s1 s2" and "\<forall>j c. owns s j c \<longrightarrow> owns s1 j c" and "owns s1 bp a"
  shows "fstep s s2 (view s) (insert a (held s)) 0" "owns s2 bp a" "\<forall>j c. owns s j c \<longrightarrow> owns s2 j c"
proof -
  have q: "fstep s1 s2 (view s) (insert a (held s)) 0" using assms(2) fstepD(2,3) [OF assms(1)] by (simp add: quiet_def)
  then show "fstep s s2 (view s) (insert a (held s)) 0" using fstep_trans [OF assms(1) q] by simp
  show "owns s2 bp a" "\<forall>j c. owns s j c \<longrightarrow> owns s2 j c" using assms(2-4) by (auto simp: quiet_def)
qed

lemma room_held: "fstep s s1 (view s) (insert a (held s)) 0 \<Longrightarrow> a \<notin> held s \<Longrightarrow> room s (Suc k) \<Longrightarrow> room s1 k"
  using finite_held [of s] by (simp add: room_def fstep_def)

text \<open>The three indirect parts of \<open>bmap\<close>.\<close>

lemma hit1:
  assumes t: "txn s" and r: "room s 1" and a: "a < disksize s" "a \<notin> held s" and p: "ptr (view s) a k \<noteq> 0"
  shows "\<exists>s'. bmap_single 1 a k s = Ok (ptr (view s) a k, s') \<and> quiet s s'"
proof -
  obtain bp s1 where l: "bread 1 a s = Ok (bp, s1)" "ind_entry 1 bp k s1 = Ok (ptr (view s) a k, s1)" "owns s1 bp a"
      "fstep s s1 (view s) (insert a (held s)) 0" "\<forall>j c. owns s j c \<longrightarrow> owns s1 j c"
    using level_hit [OF assms] by blast
  obtain s2 where "brelse bp s1 = Ok s2" "quiet s s2" using level_release [OF t l(4) a(2) l(3,5)] by blast
  then show ?thesis using l(1,2) by (simp add: bmap_single_def)
qed

lemma hit2:
  assumes t: "txn s" and r: "room s 2" and a: "a < disksize s" "a \<notin> held s" and p: "ptr (view s) a k \<noteq> 0"
    and b: "ptr (view s) a k < disksize s" "ptr (view s) a k \<notin> held s" "ptr (view s) a k \<noteq> a"
    and q: "ptr (view s) (ptr (view s) a k) j \<noteq> 0"
  shows "\<exists>s'. bmap_double 1 a k j s = Ok (ptr (view s) (ptr (view s) a k) j, s') \<and> quiet s s'"
proof -
  obtain dbp s1 where l: "bread 1 a s = Ok (dbp, s1)" "ind_entry 1 dbp k s1 = Ok (ptr (view s) a k, s1)" "owns s1 dbp a"
      "fstep s s1 (view s) (insert a (held s)) 0" "\<forall>j c. owns s j c \<longrightarrow> owns s1 j c"
    using level_hit [OF t room_mono [OF r] a p] by auto
  note f = fstepD [OF l(4)]
  have "room s1 1" using room_held [OF l(4) a(2), of 1] r by (simp add: numeral_2_eq_2)
  then obtain bp s2 where m: "bread 1 (ptr (view s) a k) s1 = Ok (bp, s2)"
      "ind_entry 1 bp j s2 = Ok (ptr (view s1) (ptr (view s) a k) j, s2)" "owns s2 bp (ptr (view s) a k)"
      "fstep s1 s2 (view s1) (insert (ptr (view s) a k) (held s1)) 0" "\<forall>j c. owns s1 j c \<longrightarrow> owns s2 j c"
    using level_hit [OF f(1), of "ptr (view s) a k" j] b q f(2,3,8) by auto
  obtain s3 where e: "brelse bp s2 = Ok s3" "quiet s1 s3"
    using level_release [OF f(1) m(4) _ m(3,5)] b f(3) by auto
  note h = quiet_held [OF l(4) e(2) l(5) l(3)]
  obtain s4 where "brelse dbp s3 = Ok s4" "quiet s s4" using level_release [OF t h(1) a(2) h(2,3)] by blast
  then show ?thesis using l(1,2) m(1,2) e(1) f(2) by (simp add: bmap_double_def)
qed

lemma hit3:
  assumes t: "txn s" and r: "room s 3" and a: "a < disksize s" "a \<notin> held s" and p: "ptr (view s) a k \<noteq> 0"
    and b: "ptr (view s) a k < disksize s" "ptr (view s) a k \<notin> held s" "ptr (view s) a k \<noteq> a"
    and q: "ptr (view s) (ptr (view s) a k) j \<noteq> 0"
    and c: "ptr (view s) (ptr (view s) a k) j < disksize s" "ptr (view s) (ptr (view s) a k) j \<notin> held s"
      "ptr (view s) (ptr (view s) a k) j \<noteq> a" "ptr (view s) (ptr (view s) a k) j \<noteq> ptr (view s) a k"
    and w: "ptr (view s) (ptr (view s) (ptr (view s) a k) j) i \<noteq> 0"
  shows "\<exists>s'. bmap_triple 1 a k j i s = Ok (ptr (view s) (ptr (view s) (ptr (view s) a k) j) i, s') \<and> quiet s s'"
proof -
  obtain tbp s1 where l: "bread 1 a s = Ok (tbp, s1)" "ind_entry 1 tbp k s1 = Ok (ptr (view s) a k, s1)" "owns s1 tbp a"
      "fstep s s1 (view s) (insert a (held s)) 0" "\<forall>j c. owns s j c \<longrightarrow> owns s1 j c"
    using level_hit [OF t room_mono [OF r] a p] by auto
  note f = fstepD [OF l(4)]
  have "room s1 2" using room_held [OF l(4) a(2), of 2] r by (simp add: numeral_3_eq_3 numeral_2_eq_2)
  then obtain s2 where m: "bmap_double 1 (ptr (view s) a k) j i s1 = Ok (ptr (view s) (ptr (view s) (ptr (view s) a k) j) i, s2)" "quiet s1 s2"
    using hit2 [OF f(1), of "ptr (view s) a k" j i] b q c w f(2,3,8) by auto
  note h = quiet_held [OF l(4) m(2) l(5) l(3)]
  obtain s3 where e: "brelse tbp s2 = Ok s3" "quiet s s3" using level_release [OF t h(1) a(2) h(2,3)] by blast
  have "bmap_triple 1 a k j i s = kbind (bmap_double 1 (ptr (view s) a k) j i s1) (\<lambda>(addr, s). kbind (brelse tbp s) (\<lambda>s. Ok (addr, s)))"
    using l(1,2) by (simp add: bmap_triple_def bmap_double_def kbind_assoc case_prod_beta')
  then show ?thesis using m(1) e by simp
qed

lemma bmap_hit:
  assumes t: "txn s" and r: "room s 3" and d: "i_dev (inodes s ip) = 1" and m: "mapped s (inodes s ip) (unat bn)"
  shows "\<exists>s'. bmap ip bn s = Ok (faddr (view s) (inodes s ip) (unat bn), s') \<and> quiet s s'"
proof -
  let ?r = "inodes s ip" and ?n = "unat bn"
  have q: "quiet s s" by (rule quiet_refl [OF t])
  define n1 where "n1 = ?n - NDIRECT"
  define n2 where "n2 = n1 - NINDIRECT"
  define n3 where "n3 = n2 - NDINDIRECT"
  have lim: "?n < NDIRECT + NINDIRECT + NDINDIRECT + NTINDIRECT" using m by (simp add: mapped_def MAXFILE_def)
  have top: "n3 < NTINDIRECT" if "\<not> ?n < NDIRECT" "\<not> n1 < NINDIRECT" "\<not> n2 < NDINDIRECT"
    using lim that unfolding n1_def n2_def n3_def by linarith
  consider "?n < NDIRECT" | "\<not> ?n < NDIRECT" "n1 < NINDIRECT" | "\<not> ?n < NDIRECT" "\<not> n1 < NINDIRECT" "n2 < NDINDIRECT"
    | "\<not> ?n < NDIRECT" "\<not> n1 < NINDIRECT" "\<not> n2 < NDINDIRECT" "n3 < NTINDIRECT"
    using top by blast
  then show ?thesis
  proof cases
    case 1
    then show ?thesis using m q by (simp add: bmap_def mapped_def faddr_def addr_entry_hit Let_def)
  next
    case 2
    then show ?thesis using hit1 [OF t room_mono [OF r], of "i_addrs ?r NDIRECT" n1] m d
      by (simp add: bmap_def mapped_def faddr_def inds_def addr_entry_hit Let_def n1_def)
  next
    case 3
    then show ?thesis using hit2 [OF t room_mono [OF r], of "i_addrs ?r (NDIRECT + 1)" "n2 div NINDIRECT" "n2 mod NINDIRECT"] m d
      by (auto simp: bmap_def mapped_def faddr_def inds_def addr_entry_hit Let_def n1_def n2_def)
  next
    case 4
    then show ?thesis
      using hit3 [OF t r, of "i_addrs ?r (NDIRECT + 2)" "n3 div NDINDIRECT" "n3 mod NDINDIRECT div NINDIRECT" "n3 mod NDINDIRECT mod NINDIRECT"] m d
      by (auto simp: bmap_def mapped_def faddr_def inds_def addr_entry_hit Let_def n1_def n2_def n3_def)
  qed
qed

section \<open>Reading\<close>

definition file_byte :: "(u32 \<Rightarrow> block) \<Rightarrow> inode \<Rightarrow> nat \<Rightarrow> byte" where
  "file_byte V r k = V (faddr V r (k div BSIZE)) (k mod BSIZE)"

text \<open>The first \<open>N\<close> blocks of the file are mapped, to blocks that nobody holds.\<close>

definition readable :: "'a fsys_scheme \<Rightarrow> inode \<Rightarrow> nat \<Rightarrow> bool" where
  "readable s r N \<longleftrightarrow> (\<forall>bn<N. mapped s r bn \<and> faddr (view s) r bn < disksize s \<and> faddr (view s) r bn \<notin> held s)"

lemma quiet_more:
  assumes "quiet s (t :: 'a fsys_scheme)"
  shows "disksize t = disksize s" "inodes t = inodes s" "mapped t r bn = mapped s r bn" "readable t r N = readable s r N"
    "file_byte (view t) r = file_byte (view s) r" "memdisk t = memdisk s" "sb t = sb s" "dev_read t = dev_read s" "dev_write t = dev_write s"
proof -
  have q: "fstep s t (view s) (held s) 0" using assms by (simp add: quiet_def)
  note f = fstepD [OF q]
  show "disksize t = disksize s" "inodes t = inodes s" "memdisk t = memdisk s" "sb t = sb s" "dev_read t = dev_read s"
    "dev_write t = dev_write s"
    using f fs_same [OF q] by simp_all
  show "mapped t r bn = mapped s r bn" for bn by (simp add: mapped_def f(2,3,8))
  then show "readable t r N = readable s r N" by (simp add: readable_def f(2,3,8))
  show "file_byte (view t) r = file_byte (view s) r" by (simp add: f(2))
qed

lemma chunk_bound: "off mod BSIZE + chunk off n \<le> BSIZE" "chunk off n \<le> n" "0 < n \<Longrightarrow> 0 < chunk off n"
proof -
  have "off mod BSIZE < BSIZE" by (simp add: BSIZE_def)
  then show "off mod BSIZE + chunk off n \<le> BSIZE" "chunk off n \<le> n" "0 < n \<Longrightarrow> 0 < chunk off n"
    by (auto simp: chunk_def)
qed

lemma in_chunk:
  assumes "j < chunk off n"
  shows "(off + j) div BSIZE = off div BSIZE" "(off + j) mod BSIZE = off mod BSIZE + j"
proof -
  have lt: "off mod BSIZE + j < BSIZE" using chunk_bound(1) [of off n] assms by linarith
  have e: "off + j = off mod BSIZE + j + off div BSIZE * BSIZE" by simp
  have nz: "BSIZE \<noteq> 0" by (simp add: BSIZE_def)
  have "(off + j) div BSIZE = off div BSIZE + (off mod BSIZE + j) div BSIZE"
    by (subst e) (rule div_mult_self1 [OF nz])
  then show "(off + j) div BSIZE = off div BSIZE" using lt by simp
  have "(off + j) mod BSIZE = (off mod BSIZE + j) mod BSIZE" by (subst e) (rule mod_mult_self1)
  then show "(off + j) mod BSIZE = off mod BSIZE + j" using lt by simp
qed

lemma block_no: "off < N * BSIZE \<Longrightarrow> off div BSIZE < N"
  by (simp add: less_mult_imp_div_less)

lemma MAXFILE_val: "MAXFILE = 2113670"
  by (simp add: MAXFILE_def NDIRECT_def NINDIRECT_def NDINDIRECT_def NTINDIRECT_def BSIZE_def)

lemma unat_block_no: "bn < MAXFILE \<Longrightarrow> unat (of_nat bn :: u32) = bn"
  by (simp only: unsigned_of_nat of_nat_id) (rule take_bit_nat_eq_self, simp add: MAXFILE_val)

lemma sint_small:
  assumes "unat (w :: u32) < 2 ^ 31"
  shows "sint w = int (unat w)"
proof -
  have u: "int (unat w) < int (2 ^ 31)" using assms by (simp only: of_nat_less_iff)
  have "int (unat w) < 2 ^ 31" using u by simp
  moreover have "- (2 ^ 31) \<le> int (unat w)" by (rule order_trans [OF _ of_nat_0_le_iff]) simp
  ultimately have "signed_take_bit 31 (int (unat w)) = int (unat w)" by (intro signed_take_bit_int_eq_self)
  then show ?thesis by (simp add: sint_uint)
qed

lemma readi_loop_ok:
  "txn s \<Longrightarrow> room s 3 \<Longrightarrow> i_dev (inodes s ip) = 1 \<Longrightarrow> readable s (inodes s ip) N \<Longrightarrow> off + n \<le> N * BSIZE \<Longrightarrow>
   \<exists>s'. readi_loop ip off n s = Ok (map (file_byte (view s) (inodes s ip)) [off..<off + n], s') \<and> quiet s s'"
proof (induction n arbitrary: off s rule: less_induct)
  case (less n)
  let ?r = "inodes s ip" and ?bn = "off div BSIZE" and ?m = "chunk off n"
  show ?case
  proof (cases "n = 0")
    case True
    then show ?thesis using quiet_refl [OF less.prems(1)] by (subst readi_loop.simps) auto
  next
    case False
    have bn: "?bn < N" using less.prems(5) False by (intro block_no) simp
    then have m: "mapped s ?r ?bn" "faddr (view s) ?r ?bn < disksize s" "faddr (view s) ?r ?bn \<notin> held s"
      using less.prems(4) by (auto simp: readable_def)
    have u: "unat (of_nat ?bn :: u32) = ?bn" using m(1) by (intro unat_block_no) (simp add: mapped_def)
    have "mapped s ?r (unat (of_nat ?bn :: u32))" using m(1) by (simp only: u)
    from bmap_hit [OF less.prems(1-3) this]
    obtain s1 where b: "bmap ip (of_nat ?bn) s = Ok (faddr (view s) ?r ?bn, s1)" "quiet s s1"
      unfolding u by blast
    note k1 = quiet_keeps [OF b(2)] and o1 = quiet_more [OF b(2)]
    have "room s1 1" using room_mono [OF less.prems(2), of 1] k1(8) by simp
    then obtain bp s2 s3 where p: "bread 1 (faddr (view s) ?r ?bn) s1 = Ok (bp, s2)"
        "bdata (bufs s2 bp) = view s1 (faddr (view s) ?r ?bn)" "brelse bp s2 = Ok s3" "fstep s1 s3 (view s1) (held s1) 0"
        "\<forall>j c. owns s1 j c \<longrightarrow> owns s3 j c"
      using peek_block [OF k1(1), of "faddr (view s) ?r ?bn"] m(2,3) k1(3) o1(1) by auto
    have q: "quiet s s3" using quiet_trans [OF b(2)] p(4,5) by (simp add: quiet_def)
    note k = quiet_keeps [OF q] and o' = quiet_more [OF q]
    have "off + ?m + (n - ?m) \<le> N * BSIZE" using less.prems(5) chunk_bound(2) [of off n] by simp
    moreover have "n - ?m < n" using False by (intro chunk_less)
    ultimately obtain s4 where r: "readi_loop ip (off + ?m) (n - ?m) s3
          = Ok (map (file_byte (view s) ?r) [off + ?m..<off + ?m + (n - ?m)], s4)" "quiet s3 s4"
      using less.IH [of "n - ?m" s3 "off + ?m", unfolded k o'] less.prems(2-4) k(1) by blast
    have "map (\<lambda>j. bdata (bufs s2 bp) (off mod BSIZE + j)) [0..<?m] = map (file_byte (view s) ?r) [off..<off + ?m]"
      by (rule nth_equalityI) (auto simp: p(2) k1(2) file_byte_def in_chunk)
    moreover have "[off..<off + n] = [off..<off + ?m] @ [off + ?m..<off + ?m + (n - ?m)]"
      using chunk_bound(2) [of off n] upt_add_eq_append [of off "off + ?m" "n - ?m"] by simp
    ultimately have "readi_loop ip off n s = Ok (map (file_byte (view s) ?r) [off..<off + n], s4)"
      using False b(1) p(1,3) r(1) o1(2) less.prems(3) by (subst readi_loop.simps) (simp add: Let_def)
    then show ?thesis using quiet_trans [OF q r(2)] by blast
  qed
qed

text \<open>
  C35.  \<open>readi\<close> of a file whose blocks are allocated: an offset behind the end, or a count that wraps,
  gives \<open>-1\<close>; otherwise it returns the bytes of the file from the offset on, up to the count or the
  end of the file, whichever comes first, through all levels of indirection, and changes nothing.
\<close>

theorem readi_contents:
  assumes "txn s" and "room s 3" and "i_dev (inodes s ip) = 1" and "i_type (inodes s ip) \<noteq> T_DEV"
    and "readable s (inodes s ip) N" and "unat (i_size (inodes s ip)) \<le> N * BSIZE" and "unat n < 2 ^ 31"
  shows "if i_size (inodes s ip) < off \<or> off + n < off then readi ip off n s = Ok (-1, [], s)
    else \<exists>s'. readi ip off n s = Ok (int (min (unat n) (unat (i_size (inodes s ip)) - unat off)),
           map (file_byte (view s) (inodes s ip)) [unat off..<min (unat off + unat n) (unat (i_size (inodes s ip)))], s') \<and> quiet s s'"
proof (cases "i_size (inodes s ip) < off \<or> off + n < off")
  case True
  then show ?thesis using assms(4) by (auto simp: readi_def)
next
  case False
  let ?r = "inodes s ip"
  let ?n = "if i_size ?r < off + n then i_size ?r - off else n"
  have sum: "unat (off + n) = unat off + unat n"
  proof (rule ccontr)
    assume c: "unat (off + n) \<noteq> unat off + unat n"
    then have "unat (off + n) = unat off + unat n - 2 ^ 32" by (simp add: unat_plus_if' split: if_splits)
    moreover have "unat n < 2 ^ 32" "2 ^ 32 \<le> unat off + unat n"
      using unsigned_less [of n] c by (simp_all add: unat_plus_if' split: if_splits)
    ultimately have "unat (off + n) < unat off" by linarith
    then show False using False by (simp add: word_less_nat_alt)
  qed
  have le: "unat off \<le> unat (i_size ?r)" using False by (simp add: word_less_nat_alt not_less)
  have u: "unat ?n = min (unat n) (unat (i_size ?r) - unat off)"
    using sum le by (auto simp: word_less_nat_alt unat_sub word_le_nat_alt)
  then have "unat ?n < 2 ^ 31" using assms(7) by linarith
  then have si: "sint ?n = int (unat ?n)" by (rule sint_small)
  have hi: "unat off + unat ?n \<le> N * BSIZE" using u le assms(6) by linarith
  have e: "unat off + unat ?n = min (unat off + unat n) (unat (i_size ?r))" using u le by linarith
  obtain s' where "readi_loop ip (unat off) (unat ?n) s = Ok (map (file_byte (view s) ?r) [unat off..<unat off + unat ?n], s')"
      "quiet s s'"
    using readi_loop_ok [OF assms(1-3,5) hi] by blast
  then have "readi ip off n s = Ok (int (unat ?n), map (file_byte (view s) ?r) [unat off..<unat off + unat ?n], s')"
    using False assms(4) si by (simp add: readi_def Let_def)
  then have "readi ip off n s = Ok (int (min (unat n) (unat (i_size ?r) - unat off)),
      map (file_byte (view s) ?r) [unat off..<min (unat off + unat n) (unat (i_size ?r))], s')"
    by (simp only: e) (simp only: u)
  then show ?thesis using False \<open>quiet s s'\<close> by auto
qed

lemma demo_readable: "readable demo_start demo_inode 3"
  by (auto simp: readable_def mapped_def faddr_def inds_def demo_start_ok demo_inode_def NDIRECT_def MAXFILE_val less_Suc_eq
      numeral_3_eq_3)

lemma readi_contents_witness:
  "readi 7 1600 10 demo_start = Ok (-1, [], demo_start) \<and> (\<exists>d s'. readi 7 1490 100 demo_start = Ok (10, d, s'))"
proof -
  have i: "inodes demo_start 7 = demo_inode" by (simp add: demo_start_ok demo_fs_def)
  have d: "i_dev demo_inode = 1" "i_type demo_inode \<noteq> T_DEV" "i_size demo_inode = 1500"
    by (simp_all add: demo_inode_def T_FILE_def T_DEV_def)
  note r = readi_contents [OF demo_start_ok(1) room_mono [OF demo_layout(3)], of 7 3, unfolded i d(3)]
  show ?thesis
    using r [of 10 1600] r [of 100 1490] d demo_readable by (auto simp: BSIZE_def)
qed

end
