(* ===== verification/Fs_Write.thy ===== *)
theory Fs_Write
  imports Fs_File
begin

text \<open>
  Writing in place: \<open>writei\<close> on blocks that the file has already.  The file is \<open>writable\<close> when its
  blocks are home blocks, all different, and none of them is an indirect block on the way to another.
\<close>

definition writable :: "'a fsys_scheme \<Rightarrow> inode \<Rightarrow> nat \<Rightarrow> bool" where
  "writable s r N \<longleftrightarrow> readable s r N \<and> (\<forall>bn<N. home s (faddr (view s) r bn))
     \<and> inj_on (faddr (view s) r) {..<N} \<and> (\<forall>bn<N. \<forall>cn<N. faddr (view s) r bn \<notin> set (inds (view s) r cn))"

lemma faddr_cong:
  assumes "\<And>a. a \<in> set (inds V r bn) \<Longrightarrow> W a = V a"
  shows "faddr W r bn = faddr V r bn" "inds W r bn = inds V r bn"
proof -
  show "inds W r bn = inds V r bn" using assms by (auto simp: inds_def Let_def ptr_def split: if_splits)
  then show "faddr W r bn = faddr V r bn" using assms by (auto simp: faddr_def inds_def Let_def ptr_def split: if_splits)
qed

text \<open>One block of the file changes: the way to every block stays, and so does every other block.\<close>

lemma writable_step:
  assumes w: "writable s r N" and bn: "bn < N" and f: "fstep s t ((view s)(faddr (view s) r bn := d)) (held s) k"
  shows "writable t r N" "cn < N \<Longrightarrow> faddr (view t) r cn = faddr (view s) r cn"
    "c < N * BSIZE \<Longrightarrow> file_byte (view t) r c = (if c div BSIZE = bn then d (c mod BSIZE) else file_byte (view s) r c)"
proof -
  note g = fstepD [OF f]
  have out: "W a = V a" if "cn < N" "a \<in> set (inds (view s) r cn)" "W = (view s)(faddr (view s) r bn := d)" "V = view s" for W V a cn
    using w bn that by (auto simp: writable_def)
  have c: "faddr (view t) r cn = faddr (view s) r cn" "inds (view t) r cn = inds (view s) r cn" if "cn < N" for cn
    using faddr_cong [of "view s" r cn "view t"] out [OF that] g(2) by auto
  then show "cn < N \<Longrightarrow> faddr (view t) r cn = faddr (view s) r cn" by simp
  have "inj_on (faddr (view t) r) {..<N}" using w c(1) by (auto simp: writable_def inj_on_def)
  moreover have "readable t r N" using w c g(3,8) by (auto simp: writable_def readable_def mapped_def)
  moreover have "\<forall>b<N. home t (faddr (view t) r b)" "\<forall>b<N. \<forall>cn<N. faddr (view t) r b \<notin> set (inds (view t) r cn)"
    using w c g(7) by (auto simp: writable_def)
  ultimately show "writable t r N" by (simp add: writable_def)
  show "file_byte (view t) r c = (if c div BSIZE = bn then d (c mod BSIZE) else file_byte (view s) r c)" if "c < N * BSIZE"
  proof -
    have cn: "c div BSIZE < N" by (rule block_no [OF that])
    have "faddr (view s) r (c div BSIZE) = faddr (view s) r bn \<longleftrightarrow> c div BSIZE = bn"
      using w cn bn by (auto simp: writable_def inj_on_def)
    then show ?thesis using c(1) [OF cn] g(2) by (auto simp: file_byte_def)
  qed
qed

lemma BSIZE_nz: "BSIZE \<noteq> 0"
  by (simp add: BSIZE_def)

lemma block_at: "(q * BSIZE + n mod BSIZE) div BSIZE = q"
  by (simp add: BSIZE_def)

text \<open>The bytes of a file after a write of \<open>src\<close> at \<open>off\<close>.\<close>

definition file_written :: "(nat \<Rightarrow> byte) \<Rightarrow> nat \<Rightarrow> byte list \<Rightarrow> nat \<Rightarrow> byte" where
  "file_written f off src c = (if off \<le> c \<and> c < off + length src then src ! (c - off) else f c)"

lemma written_step:
  assumes "m = chunk off (length src)"
  shows "file_written (\<lambda>c. if c div BSIZE = off div BSIZE then splice (\<lambda>i. f (c div BSIZE * BSIZE + i)) (off mod BSIZE) (take m src) (c mod BSIZE) else f c)
      (off + m) (drop m src) = file_written f off src"
proof
  fix c
  have m: "m \<le> length src" "off mod BSIZE + m \<le> BSIZE" using chunk_bound [of off "length src"] assms by simp_all
  have c: "c = c div BSIZE * BSIZE + c mod BSIZE" "c mod BSIZE < BSIZE" by (simp_all add: BSIZE_def)
  have o: "off = off div BSIZE * BSIZE + off mod BSIZE" "off mod BSIZE < BSIZE" by (simp_all add: BSIZE_def)
  show "file_written (\<lambda>c. if c div BSIZE = off div BSIZE then splice (\<lambda>i. f (c div BSIZE * BSIZE + i)) (off mod BSIZE) (take m src) (c mod BSIZE) else f c)
      (off + m) (drop m src) c = file_written f off src c"
  proof (cases "off \<le> c \<and> c < off + m")
    case True
    then have j: "c - off < chunk off (length src)" "off + (c - off) = c" using assms by auto
    then have "c div BSIZE = off div BSIZE" "c mod BSIZE = off mod BSIZE + (c - off)" using in_chunk [OF j(1)] by simp_all
    then show ?thesis using True m by (auto simp: file_written_def splice_def min_def)
  next
    case False
    have "\<not> (off mod BSIZE \<le> c mod BSIZE \<and> c mod BSIZE < off mod BSIZE + m)" if "c div BSIZE = off div BSIZE"
      using False c(1) o(1) that by (metis add_le_cancel_left add_less_cancel_left add.assoc)
    moreover have "off div BSIZE * BSIZE + c mod BSIZE = c" if "c div BSIZE = off div BSIZE" using c(1) that by simp
    ultimately have "(if c div BSIZE = off div BSIZE then splice (\<lambda>i. f (c div BSIZE * BSIZE + i)) (off mod BSIZE) (take m src) (c mod BSIZE) else f c) = f c"
      using m(1) by (auto simp: splice_def min_def)
    then show ?thesis using False m(1) by (auto simp: file_written_def)
  qed
qed

lemma written_cong: "(\<And>c. c < n \<Longrightarrow> f c = g c) \<Longrightarrow> c < n \<Longrightarrow> file_written f off src c = file_written g off src c"
  by (simp add: file_written_def)

lemma writei_step:
  assumes t: "txn s" and r: "room s 4" and d: "i_dev (inodes s ip) = 1" and w: "writable s (inodes s ip) N"
    and src: "src \<noteq> []" "off + length src \<le> N * BSIZE" and m: "m = chunk off (length src)"
  shows "\<exists>t. writei_loop ip src off s = writei_loop ip (drop m src) (off + m) t \<and> inodes t = inodes s
    \<and> fstep s t (view t) (held s) 1 \<and> writable t (inodes s ip) N \<and> (\<forall>j c. owns s j c \<longrightarrow> owns t j c)
    \<and> (\<forall>cn<N. faddr (view t) (inodes s ip) cn = faddr (view s) (inodes s ip) cn)
    \<and> (\<forall>c<N * BSIZE. file_written (file_byte (view t) (inodes s ip)) (off + m) (drop m src) c
          = file_written (file_byte (view s) (inodes s ip)) off src c)
    \<and> (\<forall>a. a \<notin> faddr (view s) (inodes s ip) ` {..<N} \<longrightarrow> view t a = view s a)"
proof -
  let ?r = "inodes s ip" and ?bn = "off div BSIZE"
  let ?a = "faddr (view s) ?r ?bn"
  let ?d = "splice (view s ?a) (off mod BSIZE) (take m src)"
  have "0 < length src" using src(1) by simp
  then have bn: "?bn < N" using src(2) by (intro block_no) linarith
  then have a: "mapped s ?r ?bn" "?a < disksize s" "?a \<notin> held s" "home s ?a"
    using w by (auto simp: writable_def readable_def)
  have u: "unat (of_nat ?bn :: u32) = ?bn" using a(1) by (intro unat_block_no) (simp add: mapped_def)
  have "mapped s ?r (unat (of_nat ?bn :: u32))" using a(1) by (simp only: u)
  from bmap_hit [OF t room_mono [OF r] d this]
  obtain s1 where b: "bmap ip (of_nat ?bn) s = Ok (?a, s1)" "quiet s s1" unfolding u by auto
  note k = quiet_keeps [OF b(2)] and o = quiet_more [OF b(2)]
  have "room s1 2" "home s1 ?a" "?a \<notin> held s1" using room_mono [OF r, of 2] k a by simp_all
  then obtain i s2 s3 s4 where e: "bread 1 ?a s1 = Ok (i, s2)" "bdata (bufs s2 i) = view s1 ?a"
      "log_write i (setdata i ?d s2) = Ok s3" "brelse i s3 = Ok s4" "fstep s1 s4 ((view s1)(?a := ?d)) (held s1) 1"
      "\<forall>j c. owns s1 j c \<longrightarrow> owns s4 j c"
    using edit_block [OF k(1), of ?a ?d] by blast
  have st: "fstep s s4 ((view s)(?a := ?d)) (held s) 1"
    using fstep_trans [OF conjunct1 [OF b(2) [unfolded quiet_def]] e(5)] k(2,3) by (simp only: add_0)
  note x = writable_step [OF w bn st] and f = fstepD [OF st]
  have "writei_loop ip src off s = writei_loop ip (drop m src) (off + m) s4"
    using src(1) b(1) e(1-4) k(2) o(2) d m by (subst writei_loop.simps) (simp add: Let_def)
  moreover have "inodes s4 = inodes s" using fs_same(2) [OF st] .
  moreover have "fstep s s4 (view s4) (held s) 1" using st f(2) by simp
  moreover have "\<forall>j c. owns s j c \<longrightarrow> owns s4 j c" using b(2) e(6) by (auto simp: quiet_def)
  moreover have "file_written (file_byte (view s4) ?r) (off + m) (drop m src) c = file_written (file_byte (view s) ?r) off src c"
    if c: "c < N * BSIZE" for c
  proof -
    let ?g = "\<lambda>n. if n div BSIZE = ?bn
        then splice (\<lambda>i. file_byte (view s) ?r (n div BSIZE * BSIZE + i)) (off mod BSIZE) (take m src) (n mod BSIZE) else file_byte (view s) ?r n"
    have g: "file_byte (view s4) ?r n = ?g n" if "n < N * BSIZE" for n
      using x(3) [OF that] block_at [of ?bn n] by (simp add: splice_def file_byte_def)
    have "file_written (file_byte (view s4) ?r) (off + m) (drop m src) c = file_written ?g (off + m) (drop m src) c"
      by (rule written_cong [OF _ c]) (rule g)
    also have "\<dots> = file_written (file_byte (view s) ?r) off src c" by (rule fun_cong [OF written_step [OF m]])
    finally show ?thesis .
  qed
  moreover have "view s4 a = view s a" if "a \<notin> faddr (view s) ?r ` {..<N}" for a
    using that bn f(2) by auto
  ultimately show ?thesis using x(1,2) by blast
qed

lemma writei_loop_ok:
  "txn s \<Longrightarrow> room s (3 + k) \<Longrightarrow> i_dev (inodes s ip) = 1 \<Longrightarrow> writable s (inodes s ip) N \<Longrightarrow> off + length src \<le> N * BSIZE \<Longrightarrow>
   (src \<noteq> [] \<Longrightarrow> off + length src \<le> (off div BSIZE + k) * BSIZE) \<Longrightarrow>
   \<exists>t. writei_loop ip src off s = Ok (off + length src, t) \<and> fstep s t (view t) (held s) k \<and> writable t (inodes s ip) N
    \<and> (\<forall>j c. owns s j c \<longrightarrow> owns t j c)
    \<and> (\<forall>c<N * BSIZE. file_byte (view t) (inodes s ip) c = file_written (file_byte (view s) (inodes s ip)) off src c)
    \<and> (\<forall>a. a \<notin> faddr (view s) (inodes s ip) ` {..<N} \<longrightarrow> view t a = view s a)"
proof (induction "length src" arbitrary: src off s k rule: less_induct)
  case less
  let ?r = "inodes s ip" and ?m = "chunk off (length src)"
  show ?case
  proof (cases "src = []")
    case True
    then show ?thesis using fstep_mono [OF fstep_refl [OF less.prems(1)], of k] less.prems(4)
      by (subst writei_loop.simps) (auto simp: file_written_def)
  next
    case False
    then have len: "0 < length src" by simp
    have lim: "off + length src \<le> (off div BSIZE + k) * BSIZE" by (rule less.prems(6) [OF False])
    have k: "0 < k"
    proof (rule ccontr)
      assume "\<not> 0 < k"
      then have "off + length src \<le> off div BSIZE * BSIZE" using lim by simp
      then show False using len div_times_less_eq_dividend [of off BSIZE] by linarith
    qed
    have r: "room s 4" using room_mono [OF less.prems(2), of 4] k by simp
    obtain t where t: "writei_loop ip src off s = writei_loop ip (drop ?m src) (off + ?m) t" "inodes t = inodes s"
        "fstep s t (view t) (held s) 1" "writable t ?r N" "\<forall>j c. owns s j c \<longrightarrow> owns t j c"
        "\<forall>cn<N. faddr (view t) ?r cn = faddr (view s) ?r cn"
        "\<forall>c<N * BSIZE. file_written (file_byte (view t) ?r) (off + ?m) (drop ?m src) c = file_written (file_byte (view s) ?r) off src c"
        "\<forall>a. a \<notin> faddr (view s) ?r ` {..<N} \<longrightarrow> view t a = view s a"
      using writei_step [OF less.prems(1) r less.prems(3,4) False less.prems(5) refl] by blast
    note f = fstepD [OF t(3)]
    have ch: "?m \<le> length src" "0 < ?m" using chunk_bound(2) [of off "length src"] chunk_bound(3) [OF len, of off] by simp_all
    have sum: "off + ?m + length (drop ?m src) = off + length src" using ch by simp
    have lim': "off + ?m + length (drop ?m src) \<le> ((off + ?m) div BSIZE + (k - 1)) * BSIZE" if "drop ?m src \<noteq> []"
    proof -
      have "?m = BSIZE - off mod BSIZE" using that by (auto simp: chunk_def min_def split: if_splits)
      moreover have "off mod BSIZE < BSIZE" by (simp add: BSIZE_def)
      ultimately have "off + ?m = (off div BSIZE + 1) * BSIZE"
        using div_mult_mod_eq [of off BSIZE] unfolding distrib_right mult_1 by linarith
      then have "(off + ?m) div BSIZE = off div BSIZE + 1" using nonzero_mult_div_cancel_right [OF BSIZE_nz, of "off div BSIZE + 1"] by simp
      then show ?thesis using lim k sum by (simp add: algebra_simps)
    qed
    have rt: "room t (3 + (k - 1))" using room_step [OF t(3) less.prems(2)] k by simp
    obtain u where u: "writei_loop ip (drop ?m src) (off + ?m) t = Ok (off + ?m + length (drop ?m src), u)"
        "fstep t u (view u) (held t) (k - 1)" "writable u ?r N" "\<forall>j c. owns t j c \<longrightarrow> owns u j c"
        "\<forall>c<N * BSIZE. file_byte (view u) ?r c = file_written (file_byte (view t) ?r) (off + ?m) (drop ?m src) c"
        "\<forall>a. a \<notin> faddr (view t) ?r ` {..<N} \<longrightarrow> view u a = view t a"
      using less.hyps [of "drop ?m src" t "k - 1" "off + ?m", unfolded t(2) sum] ch f(1) rt less.prems(3,5) t(4) lim' len
      unfolding sum by auto
    have img: "faddr (view t) ?r ` {..<N} = faddr (view s) ?r ` {..<N}" using t(6) by (intro image_cong) auto
    have "fstep s u (view u) (held s) k" using fstep_trans [OF t(3) u(2)] k f(3) by simp
    moreover have "writei_loop ip src off s = Ok (off + length src, u)" using t(1) u(1) sum by simp
    moreover have "\<forall>a. a \<notin> faddr (view s) ?r ` {..<N} \<longrightarrow> view u a = view s a" using t(8) u(6) img by simp
    ultimately show ?thesis using t(5,7) u(3,4,5) by auto
  qed
qed

text \<open>
  C34.  A write with \<open>writei\<close> inside a file whose blocks are allocated, no block of which is also used
  as an indirect block of it, and the \<open>readi\<close> of the same range after it: the write returns the number
  of bytes, the read gives back the bytes that were written, every other byte of the file and every
  block of the disk that does not belong to the file keep their contents, and the inode is unchanged.
\<close>

theorem write_then_read:
  fixes s :: "'a fsys_scheme" and off :: u32
  assumes "txn s" and "room s (3 + k)" and "i_dev (inodes s ip) = 1" and "i_type (inodes s ip) \<noteq> T_DEV"
    and "writable s (inodes s ip) N" and "unat (i_size (inodes s ip)) \<le> N * BSIZE" and "N \<le> MAXFILE"
    and "unat off + length src \<le> unat (i_size (inodes s ip))"
    and "unat off + length src \<le> (unat off div BSIZE + k) * BSIZE"
  shows "\<exists>t u. writei ip src off s = Ok (int (length src), t) \<and> readi ip off (of_nat (length src)) t = Ok (int (length src), src, u)
    \<and> inodes t = inodes s
    \<and> (\<forall>c<N * BSIZE. file_byte (view t) (inodes s ip) c
          = (if unat off \<le> c \<and> c < unat off + length src then src ! (c - unat off) else file_byte (view s) (inodes s ip) c))
    \<and> (\<forall>a. a \<notin> faddr (view s) (inodes s ip) ` {..<N} \<longrightarrow> view t a = view s a)"
proof -
  let ?r = "inodes s ip" and ?n = "of_nat (length src) :: u32"
  have N: "N * BSIZE \<le> MAXFILE * BSIZE" "MAXFILE * BSIZE < 2 ^ 31" using assms(7) by (simp_all add: MAXFILE_val BSIZE_def)
  then have small: "unat off + length src < 2 ^ 31" using assms(6,8) by linarith
  then have n: "unat ?n = length src" by (simp only: unsigned_of_nat of_nat_id) (rule take_bit_nat_eq_self, simp)
  have si: "sint ?n = int (length src)" using sint_small [of ?n] small n by simp
  have sum: "unat (off + ?n) = unat off + length src" using small n by (simp add: unat_plus_if')
  have mx: "unat (of_nat (MAXFILE * BSIZE) :: u32) = MAXFILE * BSIZE" by (simp add: MAXFILE_val BSIZE_def)
  have ok: "\<not> i_size ?r < off" "\<not> off + ?n < off" "\<not> of_nat (MAXFILE * BSIZE) < off + ?n" "\<not> i_size ?r < off + ?n"
    unfolding word_less_nat_alt sum mx using assms(6,8) N by linarith+
  have hi: "unat off + length src \<le> N * BSIZE" using assms(6,8) by linarith
  obtain t where t: "writei_loop ip src (unat off) s = Ok (unat off + length src, t)" "fstep s t (view t) (held s) k"
      "writable t ?r N" "\<forall>c<N * BSIZE. file_byte (view t) ?r c = file_written (file_byte (view s) ?r) (unat off) src c"
      "\<forall>a. a \<notin> faddr (view s) ?r ` {..<N} \<longrightarrow> view t a = view s a"
    using writei_loop_ok [OF assms(1,2,3,5) hi] assms(9) by blast
  note i = fs_same(2) [OF t(2)]
  have "off + ?n = of_nat (unat off + length src)" by simp
  then have "\<not> i_size ?r < of_nat (unat off + length src)" using ok(4) by simp
  then have w: "writei ip src off s = Ok (int (length src), t)"
    using assms(4) ok t(1) i si by (simp add: writei_def Let_def)
  have "room t 3" using room_step [OF t(2) assms(2)] by simp
  then obtain u where "readi_loop ip (unat off) (length src) t = Ok (map (file_byte (view t) ?r) [unat off..<unat off + length src], u)"
    using readi_loop_ok [OF fstepD(1) [OF t(2)], of ip N "unat off" "length src"] assms(3) t(3) hi by (auto simp: writable_def i)
  moreover have "map (file_byte (view t) ?r) [unat off..<unat off + length src] = src"
    using t(4) hi by (intro nth_equalityI) (auto simp: file_written_def)
  ultimately have "readi ip off ?n t = Ok (int (length src), src, u)"
    using assms(4) ok i n si by (simp add: readi_def Let_def)
  then show ?thesis using w i t(4,5) by (auto simp: file_written_def)
qed

lemma demo_writable: "writable demo_start demo_inode 3"
proof -
  have a: "faddr (view demo_start) demo_inode bn = 300 + of_nat bn \<and> inds (view demo_start) demo_inode bn = []" if "bn < 3" for bn
    using that by (simp add: faddr_def inds_def demo_inode_def NDIRECT_def)
  have b: "home demo_start (300 + of_nat bn)" "cn < 3 \<Longrightarrow> (300 + of_nat bn = 300 + (of_nat cn :: u32)) = (bn = cn)" if "bn < 3" for bn cn
    using that by (auto simp: demo_home less_Suc_eq numeral_3_eq_3)
  show ?thesis using a b demo_readable by (auto simp: writable_def inj_on_def)
qed

lemma write_then_read_witness:
  "\<exists>t u. writei 7 [65, 66, 67] 510 demo_start = Ok (3, t) \<and> readi 7 510 3 t = Ok (3, [65, 66, 67], u)"
proof -
  have i: "inodes demo_start 7 = demo_inode" by (simp add: demo_start_ok demo_fs_def)
  have d: "i_dev demo_inode = 1" "i_type demo_inode \<noteq> T_DEV" "i_size demo_inode = 1500"
    by (simp_all add: demo_inode_def T_FILE_def T_DEV_def)
  note r = write_then_read [OF demo_start_ok(1) room_mono [OF demo_layout(3)], of 2 7 3 510 "[65, 66, 67]", unfolded i d(3)]
  show ?thesis using r d demo_writable by (auto simp: BSIZE_def MAXFILE_val)
qed

end
