(* ===== verification/Fs_Inode.thy ===== *)
theory Fs_Inode
  imports Fs_Alloc
begin

text \<open>
  The inode on disk and in the cache: what \<open>iupdate\<close> stores through the log is what \<open>ilock\<close> loads when the
  entry of the cache has been recycled, by the format of \<open>struct dinode\<close>.
\<close>

section \<open>Changes of the inode cache\<close>

lemma updi_blocks [simp]:
  "view (updi k f s) = view s" "held (updi k f s) = held s" "dirty (updi k f s) = dirty s"
  "bc_inv (updi k f s) = bc_inv s" "owns (updi k f s) i b = owns s i b"
proof -
  show "view (updi k f s) = view s"
    by (rule ext) (simp add: updi_def view_def split: option.split)
qed (simp_all add: updi_def held_def dirty_def bc_inv_def owns_def)

lemma updi_fields [simp]:
  "disksize (updi k f s) = disksize s" "bufs (updi k f s) = bufs s" "memdisk (updi k f s) = memdisk s"
  "fpid (updi k f s) = fpid s" "sb (updi k f s) = sb s" "IBLOCK n (updi k f s) = IBLOCK n s"
  "inodes (updi k f s) = (inodes s)(k := f (inodes s k))"
  by (simp_all add: updi_def IBLOCK_def)

lemma fs_more:
  assumes "bcache.more s' = bcache.more (s :: 'a fsys_scheme)"
  shows "inodes s' = inodes s" "sb s' = sb s"
  using assms by (cases s; cases s'; simp)+

text \<open>Two inodes do not share bytes: the block and the place in it determine the number.\<close>

lemma inode_place:
  assumes "m \<noteq> n"
  shows "IBLOCK m s \<noteq> IBLOCK n s \<or> dip_of m \<noteq> dip_of n"
proof (rule ccontr)
  assume "\<not> ?thesis"
  then have b: "(of_nat (unat m div IPB) :: u32) = of_nat (unat n div IPB)" and d: "unat m mod IPB = unat n mod IPB"
    by (simp_all add: IBLOCK_def dip_of_def DINODE_def)
  have "unat m div IPB < 2 ^ 32" "unat n div IPB < 2 ^ 32"
    using unsigned_less [of m, where 'a = nat] unsigned_less [of n, where 'a = nat]
    by (auto intro: le_less_trans [OF div_le_dividend])
  then have "unat m div IPB = unat n div IPB"
    using b by (simp add: word_of_nat_eq_iff take_bit_nat_eq_self)
  then have "unat m = unat n" using d by (metis div_mult_mod_eq)
  then show False using assms unsigned_word_eqI by blast
qed

section \<open>Storing and loading\<close>

text \<open>The inode of the number \<open>m\<close> as the blocks have it, and agreement in the fields of \<open>struct dinode\<close>.\<close>

definition disk_inode :: "'a fsys_scheme \<Rightarrow> u32 \<Rightarrow> inode" where
  "disk_inode s m = get_dinode (view s (IBLOCK m s)) (dip_of m) zero_inode"

definition same_dinode :: "inode \<Rightarrow> inode \<Rightarrow> bool" where
  "same_dinode a b \<longleftrightarrow> i_type a = i_type b \<and> i_major a = i_major b \<and> i_minor a = i_minor b \<and> i_nlink a = i_nlink b
     \<and> i_size a = i_size b \<and> (\<forall>i<NDIRECT + 3. i_addrs a i = i_addrs b i)"

text \<open>
  \<open>recycled t n k\<close>: in \<open>t\<close> the entry \<open>k\<close> of the inode cache is one that \<open>iget\<close> has just taken for the
  inode \<open>n\<close>, and its block can be read.
\<close>

definition recycled :: "'a fsys_scheme \<Rightarrow> u32 \<Rightarrow> nat \<Rightarrow> bool" where
  "recycled t n k \<longleftrightarrow> bc_inv t \<and> IBLOCK n t < disksize t \<and> IBLOCK n t \<notin> held t
     \<and> (IBLOCK n t \<in> dirty t \<or> card (held t \<union> dirty t) < NBUF)
     \<and> (\<forall>b. b \<notin> dirty t \<and> b \<notin> held t \<longrightarrow> view t b = memdisk t b)
     \<and> i_dev (inodes t k) = 1 \<and> i_inum (inodes t k) = n \<and> 1 \<le> i_ref (inodes t k) \<and> \<not> i_valid (inodes t k)
     \<and> \<not> sl_locked (i_lock (inodes t k))"

lemma ilock_loads:
  assumes "recycled t n k"
  shows "ilock k t = Panic ''ilock: no type'' \<and> get16 (view t (IBLOCK n t)) (dip_of n) = 0
    \<or> (\<exists>u. ilock k t = Ok u \<and> view u = view t \<and> held u = held t \<and> (\<forall>j. j \<noteq> k \<longrightarrow> inodes u j = inodes t j)
         \<and> get16 (view t (IBLOCK n t)) (dip_of n) \<noteq> 0
         \<and> inodes u k = (get_dinode (view t (IBLOCK n t)) (dip_of n)
             (inodes t k\<lparr>i_lock := \<lparr>sl_locked = True, sl_pid = fpid t\<rparr>\<rparr>))\<lparr>i_valid := True\<rparr>)"
proof -
  note r = assms [unfolded recycled_def]
  let ?b = "IBLOCK n t"
  let ?l = "\<lparr>sl_locked = True, sl_pid = fpid t\<rparr>"
  let ?t = "updi k (i_lock_update (\<lambda>_. ?l)) t"
  have l: "acquiresleep (ChInode k) (fpid t) (i_lock (inodes t k)) = Ok ?l"
    using r by (cases "i_lock (inodes t k)") (simp add: acquiresleep_def)
  obtain i s1 where s1: "bread 1 ?b ?t = Ok (i, s1)" "bc_inv s1" "owns s1 i ?b"
      "cache_abs s1 = (cache_abs ?t)\<lparr>ca_held := insert ?b (held ?t)\<rparr>"
    using bc.rd_ok [of ?t ?b] r by auto
  have m: "view s1 = view t" "dirty s1 = dirty t" "held s1 = insert ?b (held t)" "memdisk s1 = memdisk t"
      "bcache.more s1 = bcache.more ?t" "fpid s1 = fpid t"
    using s1(4) by (simp_all add: cache_abs_def)
  note f = fs_more [OF m(5)]
  have d: "bdata (bufs s1 i) = view t ?b" using owns_data [OF s1(3)] m(1) by simp
  let ?s = "updi k (get_dinode (view t ?b) (dip_of n)) s1"
  have o: "bc_inv ?s" "owns ?s i ?b" using s1 by simp_all
  have cl: "?b \<in> dirty ?s \<or> view ?s ?b = memdisk ?s ?b" using r m by auto
  obtain s2 where s2: "brelse i ?s = Ok s2" "cache_abs s2 = (cache_abs ?s)\<lparr>ca_held := held ?s - {?b}\<rparr>"
    using bc.rel_ok [OF o] cl by auto
  have m2: "view s2 = view t" "held s2 = held t" "bcache.more s2 = bcache.more ?s"
    using s2(2) m r by (auto simp: cache_abs_def)
  note f2 = fs_more [OF m2(3)]
  let ?g = "get_dinode (view t ?b) (dip_of n) (inodes ?t k)"
  have i2: "inodes s2 = (inodes ?t)(k := ?g)" by (simp add: f2 f)
  have g: "i_type ?g = get16 (view t ?b) (dip_of n)" by (simp add: get_dinode_def)
  have "ilock k t = (let s = updi k (i_valid_update (\<lambda>_. True)) s2 in
      if i_type (inodes s k) = 0 then Panic ''ilock: no type'' else Ok s)"
    using r l s1(1) s2(1) d f by (simp add: ilock_def)
  then show ?thesis
    by (auto simp: i2 m2 get_dinode_def)
qed

text \<open>
  C38.  The inode on disk.  Inside a transaction with room in the log, \<open>iupdate\<close> stores an inode in its block
  through the log, so that a \<open>sync\<close> puts the block on the disk; no other block and no other inode changes.  In
  any later state in which the block has that contents (from the cache, or from the disk after a crash),
  \<open>ilock\<close> on a recycled entry of the cache loads the same type, numbers, link count, size and addresses,
  or panics when the type is 0; but the path of a symbolic link is neither stored nor loaded.
\<close>

theorem inode_roundtrip:
  assumes "txn s" and "room s 2" and "i_dev (inodes s ip) = 1" and "n = i_inum (inodes s ip)"
    and "home s (IBLOCK n s)" and "IBLOCK n s \<notin> held s"
  shows "\<exists>s1. iupdate ip s = Ok s1 \<and> fstep s s1 (view s1) (held s) 1
    \<and> (\<forall>b. b \<noteq> IBLOCK n s \<longrightarrow> view s1 b = view s b) \<and> (\<forall>m. m \<noteq> n \<longrightarrow> disk_inode s1 m = disk_inode s m)
    \<and> (held s = {} \<longrightarrow> (\<exists>k s2. sync s1 = Ok (k, s2) \<and> memdisk s2 (IBLOCK n s) = view s1 (IBLOCK n s)))
    \<and> (\<forall>t k. recycled (t :: 'a fsys_scheme) n k \<and> view t (IBLOCK n t) = view s1 (IBLOCK n s) \<longrightarrow>
         (if i_type (inodes s ip) = 0 then ilock k t = Panic ''ilock: no type''
          else \<exists>u. ilock k t = Ok u \<and> same_dinode (inodes u k) (inodes s ip) \<and> i_path (inodes u k) = i_path (inodes t k)
            \<and> i_valid (inodes u k) \<and> i_inum (inodes u k) = n \<and> view u = view t
            \<and> (\<forall>j. j \<noteq> k \<longrightarrow> inodes u j = inodes t j)))"
proof -
  let ?b = "IBLOCK n s"
  let ?r = "inodes s ip"
  let ?d = "put_dinode (view s ?b) (dip_of n) ?r"
  obtain i s1 s2 s3 where e: "bread 1 ?b s = Ok (i, s1)" "bdata (bufs s1 i) = view s ?b"
      "fstep s s1 (view s) (insert ?b (held s)) 0" "log_write i (setdata i ?d s1) = Ok s2" "brelse i s2 = Ok s3"
      "fstep s s3 ((view s)(?b := ?d)) (held s) 1"
    using edit_block [OF assms(1,2,5,6), of ?d] by blast
  note f = fs_same [OF e(3)] and g = fs_same [OF e(6)] and D = fstepD [OF e(6)]
  have up: "iupdate ip s = Ok s3" using e(1,2,4,5) f assms(3,4) by (simp add: iupdate_def)
  have other: "disk_inode s3 m = disk_inode s m" if "m \<noteq> n" for m
  proof (cases "IBLOCK m s = ?b")
    case True
    then have "dip_of m \<noteq> dip_of n" using inode_place [OF that, of s] by simp
    then have "dip_of m + DINODE \<le> dip_of n \<or> dip_of n + DINODE \<le> dip_of m" by (rule dip_of_disjoint)
    then have "get_dinode ?d (dip_of m) zero_inode = get_dinode (view s ?b) (dip_of m) zero_inode"
      by (intro get_dinode_cong put_dinode_other) auto
    then show ?thesis using True by (simp add: disk_inode_def g D(2))
  next
    case False
    then show ?thesis by (simp add: disk_inode_def g D(2))
  qed
  have sync: "\<exists>k t. sync s3 = Ok (k, t) \<and> memdisk t ?b = view s3 ?b" if "held s = {}"
    using sync_ok [of s3] D(1,3,7) that assms(5) by (auto simp: txn_def)
  have load: "if i_type ?r = 0 then ilock k t = Panic ''ilock: no type''
      else \<exists>u. ilock k t = Ok u \<and> same_dinode (inodes u k) ?r \<and> i_path (inodes u k) = i_path (inodes t k)
        \<and> i_valid (inodes u k) \<and> i_inum (inodes u k) = n \<and> view u = view t \<and> (\<forall>j. j \<noteq> k \<longrightarrow> inodes u j = inodes t j)"
    if t: "recycled t n k" "view t (IBLOCK n t) = view s3 ?b" for t :: "'a fsys_scheme" and k
  proof -
    have v: "view t (IBLOCK n t) = ?d" using t(2) D(2) by simp
    note get = get_put_dinode [of "view s ?b" "dip_of n" ?r]
    have ty: "get16 ?d (dip_of n) = i_type ?r"
      using arg_cong [OF get [of ?r], of i_type] by (simp add: get_dinode_def)
    show ?thesis using ilock_loads [OF t(1)] t(1)
      by (auto simp: v ty get same_dinode_def recycled_def)
  qed
  have st: "fstep s s3 (view s3) (held s) 1" using e(6) D(2) by simp
  have same: "view s3 b = view s b" if "b \<noteq> ?b" for b using that D(2) by simp
  show ?thesis
    by (rule exI [of _ s3], intro conjI) (use up st other sync load same in blast)+
qed

lemma inode_roundtrip_witness:
  "\<exists>s1 u. iupdate 7 demo_start = Ok s1
     \<and> ilock 7 (updi 7 (\<lambda>r. r\<lparr>i_valid := False, i_size := 0, i_type := 0\<rparr>) s1) = Ok u
     \<and> i_size (inodes u 7) = 1500 \<and> i_type (inodes u 7) = T_FILE"
proof -
  let ?f = "\<lambda>r. r\<lparr>i_valid := False, i_size := 0, i_type := 0\<rparr>"
  have r: "inodes demo_start 7 = demo_inode" by (simp add: demo_start_ok demo_fs_def)
  have b: "IBLOCK 5 demo_start = 100"
    by (simp add: IBLOCK_def IPB_def BSIZE_def DINODE_def demo_start_ok demo_fs_def)
  have rm: "room demo_start 2" by (simp add: room_def demo_start_ok)
  have h: "i_dev (inodes demo_start 7) = 1" "5 = i_inum (inodes demo_start 7)" "home demo_start (IBLOCK 5 demo_start)"
      "IBLOCK 5 demo_start \<notin> held demo_start"
    using r by (simp_all add: b demo_home demo_start_ok(2)) (simp_all add: demo_inode_def)
  obtain s1 where s1: "iupdate 7 demo_start = Ok s1" "fstep demo_start s1 (view s1) (held demo_start) 1"
    and reload: "\<forall>t k. recycled (t :: fsys) 5 k \<and> view t (IBLOCK 5 t) = view s1 (IBLOCK 5 demo_start) \<longrightarrow>
         (if i_type (inodes demo_start 7) = 0 then ilock k t = Panic ''ilock: no type''
          else \<exists>u. ilock k t = Ok u \<and> same_dinode (inodes u k) (inodes demo_start 7) \<and> i_path (inodes u k) = i_path (inodes t k)
            \<and> i_valid (inodes u k) \<and> i_inum (inodes u k) = 5 \<and> view u = view t
            \<and> (\<forall>j. j \<noteq> k \<longrightarrow> inodes u j = inodes t j))"
    using inode_roundtrip [OF demo_start_ok(1) rm h] by blast
  note f = fs_same [OF s1(2)] and D = fstepD [OF s1(2)]
  let ?t = "updi 7 ?f s1"
  have i1: "inodes s1 7 = demo_inode" using f(2) r by simp
  have "room s1 1" using room_step [OF s1(2) rm, of 1] by simp
  then have "card (held s1 \<union> dirty s1) < NBUF" using card_used(1) [OF D(1)] by fastforce
  moreover have "bc_inv s1" "\<And>b. b \<in> dirty s1 \<or> view s1 b = memdisk s1 b" using txnD [OF D(1)] by auto
  ultimately have "recycled ?t 5 7"
    using D f i1 b by (auto simp: recycled_def demo_start_ok) (auto simp: demo_inode_def zero_inode_def initsleeplock_def)
  moreover have "view ?t (IBLOCK 5 ?t) = view s1 (IBLOCK 5 demo_start)" by (simp add: f)
  moreover have "i_type (inodes demo_start 7) = T_FILE" "i_size (inodes demo_start 7) = 1500"
    by (simp_all add: r) (simp_all add: demo_inode_def)
  moreover have "T_FILE \<noteq> 0" by (simp add: T_FILE_def)
  ultimately obtain u where "ilock 7 ?t = Ok u" "same_dinode (inodes u 7) (inodes demo_start 7)"
    using reload by (metis (no_types, lifting))
  then show ?thesis using s1(1) \<open>i_type (inodes demo_start 7) = T_FILE\<close> \<open>i_size (inodes demo_start 7) = 1500\<close>
    by (auto simp: same_dinode_def)
qed

end
