(* ===== verification/Lwp.thy ===== *)
theory Lwp
  imports Mlfq_Proc
begin

text \<open>
  Project 2, \<open>proc.c\<close>: processes whose threads are light-weight processes.  Every thread is an entry
  of \<open>ptable\<close>; the threads of a process share the pid and the page table, and \<open>mainthread\<close> (\<open>lmain\<close>)
  points to the entry that holds the size of the address space and the memory limit.  The names of
  the functions carry the suffix \<open>_lwp\<close> where project 1 has a function of the same name.

  The record \<open>lwp\<close> extends the machine with \<open>ptable\<close>, the spinlocks, the counters and the linker
  symbols, as \<open>mlfq\<close> does for project 1; pointers into \<open>ptable.proc\<close>, \<open>swtch\<close> and the file system calls
  are modelled as there.  A null \<open>mainthread\<close> is a fault like every null pointer; it is that of the
  first process, which calls neither \<open>sbrk\<close> nor \<open>thread_create\<close>.
\<close>

section \<open>State\<close>

datatype lkont =
    LForkret
  | LYield
  | LExit
  | LWait
  | LJoin u32 u32
  | LSysSleep u32 u32
  | LSleep lockref

record lproc =
  lsz :: u32
  lpgdir :: u32
  lkstack :: u32
  lstate :: procstate
  lpid :: int
  lparent :: "nat option"
  ltf :: u32
  lcontext :: u32
  lchan :: chan
  lkilled :: bool
  lofile :: "nat \<Rightarrow> u32"
  lcwd :: u32
  lname :: string
  llimit :: int
  lstksz :: u32
  lmain :: "nat option"
  ltid :: u32
  lretval :: u32
  lkont :: lkont
  lkint :: bool

record 'f lwp = machine +
  llocks :: "lockref \<Rightarrow> spinlock"
  lprocs :: "nat \<Rightarrow> lproc"
  linit :: "nat option"
  lnextpid :: int
  lnexttid :: u32
  lticks :: u32
  lfirst :: bool
  ldata :: u32
  ltrapret :: u32
  lforkret :: u32
  lfs :: 'f

definition updl :: "nat \<Rightarrow> (lproc \<Rightarrow> lproc) \<Rightarrow> 'f lwp \<Rightarrow> 'f lwp" where
  "updl p f s = s\<lparr>lprocs := (lprocs s)(p := f (lprocs s p))\<rparr>"

definition lift_lfs :: "('f \<Rightarrow> 'f kres) \<Rightarrow> 'f lwp \<Rightarrow> 'f lwp kres" where
  "lift_lfs f s = kbind (f (lfs s)) (\<lambda>x. Ok (s\<lparr>lfs := x\<rparr>))"

definition acquire_l :: "lockref \<Rightarrow> 'f lwp \<Rightarrow> 'f lwp kres" where
  "acquire_l l s = kbind (acquire (llocks s l) (cpu s))
     (\<lambda>(lk, c). Ok (s\<lparr>llocks := (llocks s)(l := lk), cpu := c\<rparr>))"

definition release_l :: "lockref \<Rightarrow> 'f lwp \<Rightarrow> 'f lwp kres" where
  "release_l l s = kbind (release (llocks s l) (cpu s))
     (\<lambda>(lk, c). Ok (s\<lparr>llocks := (llocks s)(l := lk), cpu := c\<rparr>))"

definition mycpu_lwp :: "'f lwp \<Rightarrow> 'f lwp kres" where
  "mycpu_lwp s = (if ifl (cpu s) then Panic ''mycpu called with interrupts enabled'' else Ok s)"

definition myproc_lwp :: "'f lwp \<Rightarrow> (nat option \<times> 'f lwp) kres" where
  "myproc_lwp s =
     kbind (mycpu_lwp (s\<lparr>cpu := pushcli (cpu s)\<rparr>)) (\<lambda>s.
     let p = cproc (cpu s) in
     kbind (popcli (cpu s)) (\<lambda>c. Ok (p, s\<lparr>cpu := c\<rparr>)))"

definition with_lwp :: "'f lwp \<Rightarrow> (nat \<Rightarrow> 'f lwp \<Rightarrow> 'a kres) \<Rightarrow> 'a kres" where
  "with_lwp s f = kbind (myproc_lwp s) (\<lambda>(p, s).
     case p of None \<Rightarrow> Panic ''trap'' | Some p \<Rightarrow> f p s)"

section \<open>User memory\<close>

text \<open>
  The kernel reads and writes the memory of the running process through its page table; an access
  to a page that is not mapped, or a write to one that is not writable, faults.
\<close>

definition user_addr :: "u32 \<Rightarrow> u32 \<Rightarrow> u32 \<Rightarrow> 'a machine_scheme \<Rightarrow> u32 kres" where
  "user_addr dir perm va s =
     kbind (walkpgdir dir va False s) (\<lambda>(pte, s).
     let e = load32 (ram s) pte in
     if pte = 0 \<or> e AND perm \<noteq> perm then Panic ''trap''
     else Ok (P2V (PTE_ADDR e) + (va AND 0xFFF)))"

definition user_store32 :: "u32 \<Rightarrow> u32 \<Rightarrow> u32 \<Rightarrow> 'a machine_scheme \<Rightarrow> 'a machine_scheme kres" where
  "user_store32 dir va v s =
     kfold (\<lambda>i s. kbind (user_addr dir (PTE_P OR PTE_W) (va + of_nat i) s) (\<lambda>a.
       Ok (s\<lparr>ram := (ram s)(a := word_byte i v)\<rparr>))) [0..<4] s"

section \<open>Process creation\<close>

definition pinit_lwp :: "'f lwp \<Rightarrow> 'f lwp" where
  "pinit_lwp s = s\<lparr>llocks := (llocks s)(LkPtable := initlock)\<rparr>"

definition claim_lwp :: "'f lwp \<Rightarrow> (nat option \<times> 'f lwp) kres" where
  "claim_lwp s =
     kbind (acquire_l LkPtable s) (\<lambda>s.
     case find (\<lambda>p. lstate (lprocs s p) = UNUSED) [0..<NPROC] of
       None \<Rightarrow> kbind (release_l LkPtable s) (\<lambda>s. Ok (None, s))
     | Some p \<Rightarrow> kbind (release_l LkPtable (updl p (\<lambda>r. r\<lparr>lstate := EMBRYO\<rparr>) s)) (\<lambda>s. Ok (Some p, s)))"

definition kstack_lwp :: "nat \<Rightarrow> 'f lwp \<Rightarrow> (nat option \<times> 'f lwp) kres" where
  "kstack_lwp p s =
     kbind (kalloc s) (\<lambda>(k, s).
     let s = updl p (\<lambda>r. r\<lparr>lkstack := k\<rparr>) s in
     if k = 0 then Ok (None, updl p (\<lambda>r. r\<lparr>lstate := UNUSED\<rparr>) s)
     else
       let sp = k + KSTACKSIZE;
           sp = sp - TF_SIZE;
           s = updl p (\<lambda>r. r\<lparr>ltf := sp\<rparr>) s;
           sp = sp - 4;
           s = setw sp (ltrapret s) s;
           sp = sp - CONTEXT_SIZE;
           s = updl p (\<lambda>r. r\<lparr>lcontext := sp\<rparr>) s;
           s = s\<lparr>ram := memset (ram s) sp 0 CONTEXT_SIZE\<rparr>;
           s = setw (sp + CONTEXT_EIP) (lforkret s) s;
           s = updl p (\<lambda>r. r\<lparr>lkont := LForkret\<rparr>) s
       in Ok (Some p, s))"

definition allocproc_lwp :: "'f lwp \<Rightarrow> (nat option \<times> 'f lwp) kres" where
  "allocproc_lwp s = kbind (claim_lwp s) (\<lambda>(p, s). case p of None \<Rightarrow> Ok (None, s) | Some p \<Rightarrow> kstack_lwp p s)"

definition publish_lwp :: "nat \<Rightarrow> 'f lwp \<Rightarrow> 'f lwp kres" where
  "publish_lwp p s = kbind (acquire_l LkPtable s) (\<lambda>s. release_l LkPtable (updl p (\<lambda>r. r\<lparr>lstate := RUNNABLE\<rparr>) s))"

definition userinit_lwp :: "'f fsops \<Rightarrow> (u32 \<Rightarrow> byte) \<Rightarrow> u32 \<Rightarrow> 'f lwp \<Rightarrow> 'f lwp kres" where
  "userinit_lwp F initcode initcode_size s =
     kbind (allocproc_lwp s) (\<lambda>(p, s).
     let s = s\<lparr>linit := p\<rparr> in
     case p of None \<Rightarrow> Panic ''trap'' | Some p \<Rightarrow>
     kbind (setupkvm (ldata s) s) (\<lambda>(d, s).
     let s = updl p (\<lambda>r. r\<lparr>lpgdir := d\<rparr>) s in
     if d = 0 then Panic ''userinit: out of memory?''
     else kbind (inituvm d initcode initcode_size s) (\<lambda>s.
       let s = updl p (\<lambda>r. r\<lparr>lsz := PGSIZE\<rparr>) s;
           s = s\<lparr>ram := userinit_tf (ltf (lprocs s p)) (ram s)\<rparr>;
           s = updl p (\<lambda>r. r\<lparr>lname := ''initcode''\<rparr>) s
       in kbind (fs_namei F ''/'' (lfs s)) (\<lambda>(d, x).
          publish_lwp p (updl p (\<lambda>r. r\<lparr>lcwd := d\<rparr>) (s\<lparr>lfs := x\<rparr>))))))"

definition switchuvm_lwp :: "nat option \<Rightarrow> 'f lwp \<Rightarrow> 'f lwp kres" where
  "switchuvm_lwp p s =
     (case p of None \<Rightarrow> Panic ''switchuvm: no process''
      | Some p \<Rightarrow>
        if lkstack (lprocs s p) = 0 then Panic ''switchuvm: no kstack''
        else if lpgdir (lprocs s p) = 0 then Panic ''switchuvm: no pgdir''
        else let s = s\<lparr>cpu := pushcli (cpu s)\<rparr> in
          kbind (mycpu_lwp s) (\<lambda>s. kbind (popcli (cpu s)) (\<lambda>c. Ok (s\<lparr>cpu := c\<rparr>))))"

definition resize :: "int \<Rightarrow> u32 \<Rightarrow> u32 \<Rightarrow> 'a machine_scheme \<Rightarrow> (u32 \<times> 'a machine_scheme) kres" where
  "resize n dir sz s =
     (if 0 < n then allocuvm dir sz (sz + word_of_int n) s
      else if n < 0 then deallocuvm dir sz (sz + word_of_int n) s
      else Ok (sz, s))"

text \<open>The two early returns and the one of a failed \<open>allocuvm\<close> leave \<open>ptable.lock\<close> locked, as in the code.\<close>

definition growproc_lwp :: "int \<Rightarrow> 'f lwp \<Rightarrow> (int \<times> 'f lwp) kres" where
  "growproc_lwp n s = with_lwp s (\<lambda>p s.
     kbind (acquire_l LkPtable s) (\<lambda>s.
     case lmain (lprocs s p) of None \<Rightarrow> Panic ''trap'' | Some m \<Rightarrow>
     let sz = lsz (lprocs s m); lim = llimit (lprocs s m); dir = lpgdir (lprocs s p) in
     if lim \<noteq> 0 \<and> word_of_int lim < sz + word_of_int n then Ok (-1, s)
     else kbind (resize n dir sz s) (\<lambda>(sz, s).
       if n \<noteq> 0 \<and> sz = 0 then Ok (-1, s)
       else kbind (release_l LkPtable (updl m (\<lambda>r. r\<lparr>lsz := sz\<rparr>) s)) (\<lambda>s.
            kbind (switchuvm_lwp (Some p) s) (\<lambda>s. Ok (0, s))))))"

text \<open>The loop of \<open>fork\<close> and \<open>thread_create\<close> that duplicates the open files of \<open>cp\<close> in \<open>np\<close>.\<close>

definition dup_files :: "'f fsops \<Rightarrow> nat \<Rightarrow> nat \<Rightarrow> 'f lwp \<Rightarrow> 'f lwp kres" where
  "dup_files F cp np s = kfold (\<lambda>i s.
     let f = lofile (lprocs s cp) i in
     if f \<noteq> 0 then kbind (lift_lfs (fs_filedup F f) s) (\<lambda>s. Ok (updl np (\<lambda>r. r\<lparr>lofile := (lofile r)(i := f)\<rparr>) s))
     else Ok s) [0..<NOFILE] s"

definition fork_copy_lwp :: "'f fsops \<Rightarrow> nat \<Rightarrow> nat \<Rightarrow> 'f lwp \<Rightarrow> 'f lwp kres" where
  "fork_copy_lwp F cp np s =
     (let s = updl np (\<lambda>r. r\<lparr>lsz := lsz (lprocs s cp), lparent := Some cp\<rparr>) s;
          tf = ltf (lprocs s np);
          s = memmove_ram tf (\<lambda>k. ram s (ltf (lprocs s cp) + k)) TF_SIZE s;
          s = updl np (\<lambda>r. r\<lparr>lmain := Some np, lpid := lnextpid s\<rparr>) s;
          s = s\<lparr>lnextpid := lnextpid s + 1\<rparr>;
          s = updl np (\<lambda>r. r\<lparr>ltid := 0, lstksz := lstksz (lprocs s cp), llimit := 0\<rparr>) s;
          s = setw (tf + TF_EAX) 0 s
      in kbind (dup_files F cp np s) (\<lambda>s.
         kbind (lift_lfs (fs_idup F (lcwd (lprocs s cp))) s) (\<lambda>s.
         Ok (updl np (\<lambda>r. r\<lparr>lcwd := lcwd (lprocs s cp), lname := take 15 (lname (lprocs s cp))\<rparr>) s))))"

definition fork_lwp :: "'f fsops \<Rightarrow> 'f lwp \<Rightarrow> (int \<times> 'f lwp) kres" where
  "fork_lwp F s = with_lwp s (\<lambda>cp s.
     kbind (allocproc_lwp s) (\<lambda>(np, s).
     case np of None \<Rightarrow> Ok (-1, s) | Some np \<Rightarrow>
     kbind (copyuvm (ldata s) (lpgdir (lprocs s cp)) (lsz (lprocs s cp)) s) (\<lambda>(d, s).
     let s = updl np (\<lambda>r. r\<lparr>lpgdir := d\<rparr>) s in
     if d = 0 then
       kbind (kfree (lkstack (lprocs s np)) s) (\<lambda>s.
       Ok (-1, updl np (\<lambda>r. r\<lparr>lkstack := 0, lstate := UNUSED\<rparr>) s))
     else kbind (fork_copy_lwp F cp np s) (\<lambda>s.
       let pid = lpid (lprocs s np) in kbind (publish_lwp np s) (\<lambda>s. Ok (pid, s))))))"

section \<open>Giving up the CPU\<close>

definition sched_lwp :: "lkont \<Rightarrow> 'f lwp \<Rightarrow> 'f lwp kres" where
  "sched_lwp k s = with_lwp s (\<lambda>p s.
     kbind (holding (llocks s LkPtable) (cpu s)) (\<lambda>(r, c).
     let s = s\<lparr>cpu := c\<rparr> in
     if \<not> r then Panic ''sched ptable.lock''
     else kbind (mycpu_lwp s) (\<lambda>s.
       if ncli (cpu s) \<noteq> 1 then Panic ''sched locks''
       else if lstate (lprocs s p) = RUNNING then Panic ''sched running''
       else if ifl (cpu s) then Panic ''sched interruptible''
       else Ok (updl p (\<lambda>r. r\<lparr>lkont := k, lkint := intena (cpu s)\<rparr>) s))))"

definition yield_lwp :: "'f lwp \<Rightarrow> 'f lwp kres" where
  "yield_lwp s =
     kbind (acquire_l LkPtable s) (\<lambda>s. with_lwp s (\<lambda>p s.
     sched_lwp LYield (updl p (\<lambda>r. r\<lparr>lstate := RUNNABLE\<rparr>) s)))"

definition sleep_lwp :: "lkont \<Rightarrow> chan \<Rightarrow> lockref \<Rightarrow> 'f lwp \<Rightarrow> 'f lwp kres" where
  "sleep_lwp k ch lk s =
     kbind (myproc_lwp s) (\<lambda>(p, s).
     case p of None \<Rightarrow> Panic ''sleep'' | Some p \<Rightarrow>
     if lk = LkNull then Panic ''sleep without lk''
     else
       kbind (if lk \<noteq> LkPtable then kbind (acquire_l LkPtable s) (release_l lk) else Ok s) (\<lambda>s.
       sched_lwp k (updl p (\<lambda>r. r\<lparr>lchan := ch, lstate := SLEEPING\<rparr>) s)))"

definition sched_return_lwp :: "nat \<Rightarrow> 'f lwp \<Rightarrow> 'f lwp" where
  "sched_return_lwp p s = s\<lparr>cpu := (cpu s)\<lparr>intena := lkint (lprocs s p)\<rparr>\<rparr>"

definition sleep_return_lwp :: "nat \<Rightarrow> lockref \<Rightarrow> 'f lwp \<Rightarrow> 'f lwp kres" where
  "sleep_return_lwp p lk s =
     (let s = updl p (\<lambda>r. r\<lparr>lchan := NoChan\<rparr>) (sched_return_lwp p s)
      in if lk \<noteq> LkPtable then kbind (release_l LkPtable s) (acquire_l lk) else Ok s)"

definition wake :: "chan \<Rightarrow> lproc \<Rightarrow> lproc" where
  "wake ch r = (if lstate r = SLEEPING \<and> lchan r = ch then r\<lparr>lstate := RUNNABLE\<rparr> else r)"

definition wakeup1_lwp :: "chan \<Rightarrow> 'f lwp \<Rightarrow> 'f lwp" where
  "wakeup1_lwp ch s = fold (\<lambda>p. updl p (wake ch)) [0..<NPROC] s"

definition wakeup_lwp :: "chan \<Rightarrow> 'f lwp \<Rightarrow> 'f lwp kres" where
  "wakeup_lwp ch s = kbind (acquire_l LkPtable s) (\<lambda>s. release_l LkPtable (wakeup1_lwp ch s))"

definition kill_lwp :: "int \<Rightarrow> 'f lwp \<Rightarrow> (int \<times> 'f lwp) kres" where
  "kill_lwp k s =
     kbind (acquire_l LkPtable s) (\<lambda>s.
     case find (\<lambda>p. lpid (lprocs s p) = k) [0..<NPROC] of
       None \<Rightarrow> kbind (release_l LkPtable s) (\<lambda>s. Ok (-1, s))
     | Some p \<Rightarrow>
         let s = updl p (\<lambda>r. r\<lparr>lkilled := True, lstate := if lstate r = SLEEPING then RUNNABLE else lstate r\<rparr>) s
         in kbind (release_l LkPtable s) (\<lambda>s. Ok (0, s)))"

section \<open>The scheduler\<close>

text \<open>
  The inner loop of \<open>scheduler\<close> runs over the table with \<open>ptable.lock\<close> held and goes on behind the
  process that ran last.  \<open>scheduler_from k\<close> is the loop from the index \<open>k\<close> to the switch, or to the
  release of the lock behind the last entry; \<open>scheduler_start\<close> begins the next round of the outer loop.
\<close>

definition scheduler_from :: "nat \<Rightarrow> 'f lwp \<Rightarrow> (nat option \<times> 'f lwp) kres" where
  "scheduler_from k s =
     (case find (\<lambda>p. lstate (lprocs s p) = RUNNABLE) [k..<NPROC] of
        None \<Rightarrow> kbind (release_l LkPtable s) (\<lambda>s. Ok (None, s))
      | Some p \<Rightarrow>
          kbind (switchuvm_lwp (Some p) (s\<lparr>cpu := (cpu s)\<lparr>cproc := Some p\<rparr>\<rparr>)) (\<lambda>s.
          Ok (Some p, updl p (\<lambda>r. r\<lparr>lstate := RUNNING\<rparr>) s)))"

definition scheduler_start :: "'f lwp \<Rightarrow> (nat option \<times> 'f lwp) kres" where
  "scheduler_start s = kbind (acquire_l LkPtable (s\<lparr>cpu := (cpu s)\<lparr>ifl := True\<rparr>\<rparr>)) (scheduler_from 0)"

definition scheduler_next :: "nat \<Rightarrow> 'f lwp \<Rightarrow> (nat option \<times> 'f lwp) kres" where
  "scheduler_next p s = scheduler_from (Suc p) (s\<lparr>cpu := (cpu s)\<lparr>cproc := None\<rparr>\<rparr>)"

definition forkret_lwp :: "'f fsops \<Rightarrow> 'f lwp \<Rightarrow> 'f lwp kres" where
  "forkret_lwp F s =
     kbind (release_l LkPtable s) (\<lambda>s.
     if lfirst s then
       let s = s\<lparr>lfirst := False\<rparr> in
       kbind (lift_lfs (fs_iinit F 1) s) (\<lambda>s. lift_lfs (fs_initlog F 1) s)
     else Ok s)"

section \<open>Exit and wait\<close>

definition exit_fs_lwp :: "'f fsops \<Rightarrow> nat \<Rightarrow> 'f lwp \<Rightarrow> 'f lwp kres" where
  "exit_fs_lwp F cp s =
     (if linit s = Some cp then Panic ''init exiting''
      else kbind (kfold (\<lambda>fd s.
          let f = lofile (lprocs s cp) fd in
          if f \<noteq> 0 then kbind (lift_lfs (fs_fileclose F f) s) (\<lambda>s. Ok (updl cp (\<lambda>r. r\<lparr>lofile := (lofile r)(fd := 0)\<rparr>) s))
          else Ok s) [0..<NOFILE] s) (\<lambda>s.
        kbind (lift_lfs (fs_begin_op F) s) (\<lambda>s.
        kbind (lift_lfs (fs_iput F (lcwd (lprocs s cp))) s) (\<lambda>s.
        kbind (lift_lfs (fs_end_op F) s) (\<lambda>s.
        Ok (updl cp (\<lambda>r. r\<lparr>lcwd := 0\<rparr>) s))))))"

definition cleaned :: "lproc \<Rightarrow> lproc" where
  "cleaned r = r\<lparr>lkstack := 0, lpid := 0, ltid := 0, lparent := None, lname := [], lkilled := False, lstate := UNUSED, lretval := 0\<rparr>"

definition cleanthread :: "nat \<Rightarrow> 'f lwp \<Rightarrow> 'f lwp kres" where
  "cleanthread p s =
     (if lstate (lprocs s p) = ZOMBIE
      then kbind (kfree (lkstack (lprocs s p)) s) (\<lambda>s.
           kbind (deallocuvm (lpgdir (lprocs s p)) (lsz (lprocs s p)) (lsz (lprocs s p) + 2 * PGSIZE) s) (\<lambda>(_, s).
           Ok (updl p cleaned s)))
      else Ok s)"

text \<open>The loop of \<open>exit\<close> and of \<open>cleanforexec\<close> over the other threads of the process.\<close>

definition kill_threads :: "nat \<Rightarrow> 'f lwp \<Rightarrow> 'f lwp kres" where
  "kill_threads cp s = kfold (\<lambda>p s.
     if lpid (lprocs s p) = lpid (lprocs s cp) \<and> p \<noteq> cp
     then cleanthread p (updl p (\<lambda>r. r\<lparr>lstate := ZOMBIE\<rparr>) s) else Ok s) [0..<NPROC] s"

definition reparent_lwp :: "nat \<Rightarrow> nat \<Rightarrow> 'f lwp \<Rightarrow> 'f lwp" where
  "reparent_lwp cp p s =
     (if lparent (lprocs s p) = Some cp
      then let s = updl p (\<lambda>r. r\<lparr>lparent := linit s\<rparr>) s
           in if lstate (lprocs s p) = ZOMBIE then wakeup1_lwp (proc_chan (linit s)) s else s
      else s)"

definition exit_sched_lwp :: "nat \<Rightarrow> 'f lwp \<Rightarrow> 'f lwp kres" where
  "exit_sched_lwp cp s =
     kbind (acquire_l LkPtable s) (\<lambda>s.
     kbind (kill_threads cp s) (\<lambda>s.
     let s = wakeup1_lwp (proc_chan (lparent (lprocs s cp))) s;
         s = fold (reparent_lwp cp) [0..<NPROC] s;
         s = updl cp (\<lambda>r. r\<lparr>lstate := ZOMBIE\<rparr>) s
     in sched_lwp LExit s))"

definition exit_lwp :: "'f fsops \<Rightarrow> 'f lwp \<Rightarrow> 'f lwp kres" where
  "exit_lwp F s = with_lwp s (\<lambda>cp s. kbind (exit_fs_lwp F cp s) (exit_sched_lwp cp))"

definition reaped :: "lproc \<Rightarrow> lproc" where
  "reaped r = r\<lparr>lpid := 0, lparent := None, lname := [], lkilled := False, lstate := UNUSED\<rparr>"

definition wait_loop_lwp :: "nat \<Rightarrow> 'f lwp \<Rightarrow> (int, 'f lwp) run kres" where
  "wait_loop_lwp cp s =
     (case find (\<lambda>p. lparent (lprocs s p) = Some cp \<and> lstate (lprocs s p) = ZOMBIE) [0..<NPROC] of
        Some p \<Rightarrow>
          let k = lpid (lprocs s p) in
          kbind (kfree (lkstack (lprocs s p)) s) (\<lambda>s.
          let s = updl p (\<lambda>r. r\<lparr>lkstack := 0\<rparr>) s in
          kbind (freevm (lpgdir (lprocs s p)) s) (\<lambda>s.
          kbind (release_l LkPtable (updl p reaped s)) (\<lambda>s. Ok (Returned k s))))
      | None \<Rightarrow>
          if (\<forall>p\<in>{..<NPROC}. lparent (lprocs s p) \<noteq> Some cp) \<or> lkilled (lprocs s cp)
          then kbind (release_l LkPtable s) (\<lambda>s. Ok (Returned (-1) s))
          else kbind (sleep_lwp LWait (ChProc cp) LkPtable s) (\<lambda>s. Ok (Switched s)))"

definition wait_lwp :: "'f lwp \<Rightarrow> (int, 'f lwp) run kres" where
  "wait_lwp s = with_lwp s (\<lambda>cp s. kbind (acquire_l LkPtable s) (wait_loop_lwp cp))"

end
