(* ===== verification/Lwp_Threads.thy ===== *)
theory Lwp_Threads
  imports Lwp
begin

text \<open>
  Project 2: the process manager calls and the threads of \<open>proc.c\<close>, the system calls of \<open>sysproc.c\<close>
  with their arguments fetched from the user stack (\<open>syscall.c\<close>), and what happens when a process is
  switched back to.
\<close>

section \<open>The process manager\<close>

text \<open>\<open>showprocs\<close>: name, pid, stack pages, size and limit of every process it prints.\<close>

definition showprocs :: "'f lwp \<Rightarrow> ((string \<times> int \<times> u32 \<times> u32 \<times> int) list \<times> 'f lwp) kres" where
  "showprocs s =
     kbind (acquire_l LkPtable s) (\<lambda>s.
     let out = map (\<lambda>p. let r = lprocs s p in (lname r, lpid r, lstksz r, lsz r, llimit r))
                 (filter (\<lambda>p. ltid (lprocs s p) = 0 \<and> lstate (lprocs s p) \<in> {RUNNABLE, RUNNING, SLEEPING}) [0..<NPROC])
     in kbind (release_l LkPtable s) (\<lambda>s. Ok (out, s)))"

definition setmemorylimit :: "int \<Rightarrow> int \<Rightarrow> 'f lwp \<Rightarrow> (int \<times> 'f lwp) kres" where
  "setmemorylimit k limit s =
     (if limit < 0 then Ok (-1, s)
      else kbind (acquire_l LkPtable s) (\<lambda>s.
      case find (\<lambda>p. lpid (lprocs s p) = k) [0..<NPROC] of
        None \<Rightarrow> kbind (release_l LkPtable s) (\<lambda>s. Ok (-1, s))
      | Some p \<Rightarrow>
          if word_of_int limit < lsz (lprocs s p) then kbind (release_l LkPtable s) (\<lambda>s. Ok (-1, s))
          else kbind (release_l LkPtable (updl p (\<lambda>r. r\<lparr>llimit := limit\<rparr>) s)) (\<lambda>s. Ok (0, s))))"

definition cleanforexec :: "'f lwp \<Rightarrow> 'f lwp kres" where
  "cleanforexec s = with_lwp s (\<lambda>cp s.
     if ltid (lprocs s cp) = 0 then Ok s
     else kbind (acquire_l LkPtable s) (\<lambda>s. kbind (kill_threads cp s) (release_l LkPtable)))"

section \<open>Threads\<close>

text \<open>The two words that \<open>thread_create\<close> copies to the stack of the thread.\<close>

definition ustack_bytes :: "u32 list \<Rightarrow> u32 \<Rightarrow> byte" where
  "ustack_bytes ws k = word_byte (unat k mod 4) (if unat k div 4 < length ws then ws ! (unat k div 4) else 0)"

definition TF_EIP :: u32 where "TF_EIP = 56"
definition TF_ESP :: u32 where "TF_ESP = 68"

text \<open>\<open>thread_create\<close> up to the memory limit: what the entry \<open>np\<close> takes over from \<open>cp\<close> and the main thread.\<close>

definition thread_entry :: "nat \<Rightarrow> nat \<Rightarrow> nat \<Rightarrow> 'f lwp \<Rightarrow> 'f lwp" where
  "thread_entry cp m np s =
     (let s = updl np (\<lambda>r. r\<lparr>lpgdir := lpgdir (lprocs s m)\<rparr>) s;
          s = updl np (\<lambda>r. r\<lparr>lsz := lsz (lprocs s m)\<rparr>) s;
          s = updl np (\<lambda>r. r\<lparr>lparent := Some cp\<rparr>) s;
          s = memmove_ram (ltf (lprocs s np)) (\<lambda>k. ram s (ltf (lprocs s cp) + k)) TF_SIZE s;
          s = updl np (\<lambda>r. r\<lparr>lmain := Some m\<rparr>) s;
          s = updl np (\<lambda>r. r\<lparr>lpid := lpid (lprocs s m)\<rparr>) s;
          s = updl np (\<lambda>r. r\<lparr>ltid := lnexttid s\<rparr>) s;
          s = s\<lparr>lnexttid := lnexttid s + 1\<rparr>;
          s = updl np (\<lambda>r. r\<lparr>lretval := 0\<rparr>) s
      in updl np (\<lambda>r. r\<lparr>lparent := lparent (lprocs s m)\<rparr>) s)"

text \<open>The two words on its stack, and where it starts; the flag says whether the copy succeeded.\<close>

definition thread_args :: "nat \<Rightarrow> u32 \<Rightarrow> u32 \<Rightarrow> 'f lwp \<Rightarrow> (bool \<times> 'f lwp) kres" where
  "thread_args np start arg s =
     (let s = setw (ltf (lprocs s np) + TF_ESP) (lsz (lprocs s np) - 8) s in
      kbind (copyout (lpgdir (lprocs s np)) (load32 (ram s) (ltf (lprocs s np) + TF_ESP)) (ustack_bytes [0xFFFFFFFF, arg]) 8 s) (\<lambda>(r, s).
      if r = -1 then Ok (False, s)
      else Ok (True, setw (ltf (lprocs s np) + TF_EIP) start s)))"

text \<open>
  The test of the memory limit, and then the user stack of the thread: two pages at the top of the address space,
  the lower one without user access, and the new size of the process.  No lock is held from the one to the
  other.  The flag says whether there was memory for the stack.
\<close>

definition thread_over :: "nat \<Rightarrow> 'f lwp \<Rightarrow> bool" where
  "thread_over m s \<longleftrightarrow> llimit (lprocs s m) \<noteq> 0 \<and> word_of_int (llimit (lprocs s m)) < lsz (lprocs s m) + 2 * PGSIZE"

definition thread_pages :: "nat \<Rightarrow> nat \<Rightarrow> u32 \<Rightarrow> u32 \<Rightarrow> 'f lwp \<Rightarrow> (bool \<times> 'f lwp) kres" where
  "thread_pages m np start arg s =
     kbind (allocuvm (lpgdir (lprocs s np)) (lsz (lprocs s np)) (lsz (lprocs s np) + 2 * PGSIZE) s) (\<lambda>(sz, s).
     let s = updl np (\<lambda>r. r\<lparr>lsz := sz\<rparr>) s in
     if sz = 0 then Ok (False, s)
     else kbind (clearpteu (lpgdir (lprocs s np)) (lsz (lprocs s np) - 2 * PGSIZE) s) (\<lambda>s.
     thread_args np start arg (updl m (\<lambda>r. r\<lparr>lsz := lsz (lprocs s np)\<rparr>) s)))"

definition thread_stack :: "nat \<Rightarrow> nat \<Rightarrow> u32 \<Rightarrow> u32 \<Rightarrow> 'f lwp \<Rightarrow> (bool \<times> 'f lwp) kres" where
  "thread_stack m np start arg s = (if thread_over m s then Ok (False, s) else thread_pages m np start arg s)"

definition thread_start :: "'f fsops \<Rightarrow> u32 \<Rightarrow> nat \<Rightarrow> nat \<Rightarrow> nat \<Rightarrow> 'f lwp \<Rightarrow> (int \<times> 'f lwp) kres" where
  "thread_start F thread cp m np s =
     kbind (dup_files F m np s) (\<lambda>s.
     kbind (lift_lfs (fs_idup F (lcwd (lprocs s m))) s) (\<lambda>s.
     let s = updl np (\<lambda>r. r\<lparr>lcwd := lcwd (lprocs s m), lname := take 15 (lname (lprocs s m))\<rparr>) s in
     kbind (acquire_l LkPtable s) (\<lambda>s.
     kbind (user_store32 (lpgdir (lprocs s cp)) thread (ltid (lprocs s np)) s) (\<lambda>s.
     kbind (release_l LkPtable (updl np (\<lambda>r. r\<lparr>lstate := RUNNABLE\<rparr>) s)) (\<lambda>s. Ok (0, s))))))"

definition thread_create :: "'f fsops \<Rightarrow> u32 \<Rightarrow> u32 \<Rightarrow> u32 \<Rightarrow> 'f lwp \<Rightarrow> (int \<times> 'f lwp) kres" where
  "thread_create F thread start arg s = with_lwp s (\<lambda>cp s.
     let mt = lmain (lprocs s cp) in
     kbind (allocproc_lwp s) (\<lambda>(np, s).
     case np of None \<Rightarrow> Ok (-1, s) | Some np \<Rightarrow>
     (case mt of None \<Rightarrow> Panic ''trap'' | Some m \<Rightarrow>
     kbind (thread_stack m np start arg (thread_entry cp m np s)) (\<lambda>(ok, s).
     if \<not> ok then Ok (-1, s) else thread_start F thread cp m np s))))"

text \<open>The wait channel \<open>(void*)tid\<close>; the number 0 is the null channel.\<close>

definition tid_chan :: "u32 \<Rightarrow> chan" where
  "tid_chan t = (if t = 0 then NoChan else ChTid t)"

definition thread_exit_sched :: "u32 \<Rightarrow> nat \<Rightarrow> 'f lwp \<Rightarrow> 'f lwp kres" where
  "thread_exit_sched retval cp s =
     kbind (acquire_l LkPtable s) (\<lambda>s.
     let s = updl cp (\<lambda>r. r\<lparr>lretval := retval\<rparr>) s;
         s = wakeup1_lwp (tid_chan (ltid (lprocs s cp))) s;
         s = updl cp (\<lambda>r. r\<lparr>lstate := ZOMBIE\<rparr>) s
     in sched_lwp LExit s)"

definition thread_exit :: "'f fsops \<Rightarrow> u32 \<Rightarrow> 'f lwp \<Rightarrow> 'f lwp kres" where
  "thread_exit F retval s = with_lwp s (\<lambda>cp s. kbind (exit_fs_lwp F cp s) (thread_exit_sched retval cp))"

text \<open>One round of the loop of \<open>thread_join\<close>; \<open>rp\<close> is the user address \<open>retval\<close>.\<close>

definition join_loop :: "u32 \<Rightarrow> u32 \<Rightarrow> nat \<Rightarrow> 'f lwp \<Rightarrow> (int, 'f lwp) run kres" where
  "join_loop thread rp cp s =
     (case find (\<lambda>p. ltid (lprocs s p) = thread \<and> lstate (lprocs s p) = ZOMBIE) [0..<NPROC] of
        Some p \<Rightarrow>
          kbind (user_store32 (lpgdir (lprocs s cp)) rp (lretval (lprocs s p)) s) (\<lambda>s.
          kbind (cleanthread p s) (\<lambda>s.
          kbind (release_l LkPtable s) (\<lambda>s. Ok (Returned 0 s))))
      | None \<Rightarrow>
          if (\<forall>p\<in>{..<NPROC}. ltid (lprocs s p) \<noteq> thread) \<or> lkilled (lprocs s cp)
          then kbind (release_l LkPtable s) (\<lambda>s. Ok (Returned (-1) s))
          else kbind (sleep_lwp (LJoin thread rp) (tid_chan thread) LkPtable s) (\<lambda>s. Ok (Switched s)))"

definition thread_join :: "u32 \<Rightarrow> u32 \<Rightarrow> 'f lwp \<Rightarrow> (int, 'f lwp) run kres" where
  "thread_join thread rp s = with_lwp s (\<lambda>cp s. kbind (acquire_l LkPtable s) (join_loop thread rp cp))"

section \<open>System calls\<close>

text \<open>\<open>fetchint\<close> reads the user memory of the running process; a negative result of the code is \<open>None\<close>.\<close>

definition user_load32 :: "u32 \<Rightarrow> u32 \<Rightarrow> 'a machine_scheme \<Rightarrow> u32 kres" where
  "user_load32 dir va s =
     kbind (user_addr dir PTE_P va s) (\<lambda>a0. kbind (user_addr dir PTE_P (va + 1) s) (\<lambda>a1.
     kbind (user_addr dir PTE_P (va + 2) s) (\<lambda>a2. kbind (user_addr dir PTE_P (va + 3) s) (\<lambda>a3.
     Ok (le_word (ram s a0) (ram s a1) (ram s a2) (ram s a3))))))"

definition fetchint_lwp :: "u32 \<Rightarrow> 'f lwp \<Rightarrow> (u32 option \<times> 'f lwp) kres" where
  "fetchint_lwp addr s = with_lwp s (\<lambda>p s.
     if lsz (lprocs s p) \<le> addr \<or> lsz (lprocs s p) < addr + 4 then Ok (None, s)
     else kbind (user_load32 (lpgdir (lprocs s p)) addr s) (\<lambda>v. Ok (Some v, s)))"

definition argint_lwp :: "nat \<Rightarrow> 'f lwp \<Rightarrow> (u32 option \<times> 'f lwp) kres" where
  "argint_lwp n s = with_lwp s (\<lambda>p s.
     fetchint_lwp (load32 (ram s) (ltf (lprocs s p) + TF_ESP) + 4 + 4 * of_nat n) s)"

definition argptr_lwp :: "nat \<Rightarrow> int \<Rightarrow> 'f lwp \<Rightarrow> (u32 option \<times> 'f lwp) kres" where
  "argptr_lwp n len s = with_lwp s (\<lambda>p s.
     kbind (argint_lwp n s) (\<lambda>(i, s). case i of None \<Rightarrow> Ok (None, s) | Some i \<Rightarrow>
     if len < 0 \<or> lsz (lprocs s p) \<le> i \<or> lsz (lprocs s p) < i + word_of_int len then Ok (None, s) else Ok (Some i, s)))"

text \<open>\<open>with_arg (argint_lwp n) s f\<close> returns \<open>-1\<close> when the argument cannot be fetched.\<close>

definition with_arg :: "('f lwp \<Rightarrow> ('a option \<times> 'f lwp) kres) \<Rightarrow> 'f lwp \<Rightarrow> ('a \<Rightarrow> 'f lwp \<Rightarrow> (int, 'f lwp) run kres) \<Rightarrow> (int, 'f lwp) run kres" where
  "with_arg a s f = kbind (a s) (\<lambda>(v, s). case v of None \<Rightarrow> Ok (Returned (-1) s) | Some v \<Rightarrow> f v s)"

definition ret :: "(int \<times> 's) kres \<Rightarrow> (int, 's) run kres" where
  "ret m = kbind m (\<lambda>(r, s). Ok (Returned r s))"

definition sys_fork_lwp :: "'f fsops \<Rightarrow> 'f lwp \<Rightarrow> (int, 'f lwp) run kres" where
  "sys_fork_lwp F s = ret (fork_lwp F s)"

definition sys_exit_lwp :: "'f fsops \<Rightarrow> 'f lwp \<Rightarrow> (int, 'f lwp) run kres" where
  "sys_exit_lwp F s = kbind (exit_lwp F s) (\<lambda>s. Ok (Switched s))"

definition sys_wait_lwp :: "'f lwp \<Rightarrow> (int, 'f lwp) run kres" where
  "sys_wait_lwp s = wait_lwp s"

definition sys_kill_lwp :: "'f lwp \<Rightarrow> (int, 'f lwp) run kres" where
  "sys_kill_lwp s = with_arg (argint_lwp 0) s (\<lambda>k s. ret (kill_lwp (sint k) s))"

definition sys_getpid_lwp :: "'f lwp \<Rightarrow> (int, 'f lwp) run kres" where
  "sys_getpid_lwp s = with_lwp s (\<lambda>p s. Ok (Returned (lpid (lprocs s p)) s))"

definition sys_sbrk_lwp :: "'f lwp \<Rightarrow> (int, 'f lwp) run kres" where
  "sys_sbrk_lwp s = with_arg (argint_lwp 0) s (\<lambda>n s. with_lwp s (\<lambda>p s.
     case lmain (lprocs s p) of None \<Rightarrow> Panic ''trap'' | Some m \<Rightarrow>
     let addr = lsz (lprocs s m) in
     kbind (growproc_lwp (sint n) s) (\<lambda>(r, s). Ok (Returned (if r < 0 then -1 else sint addr) s))))"

definition sleep_loop_lwp :: "u32 \<Rightarrow> u32 \<Rightarrow> nat \<Rightarrow> 'f lwp \<Rightarrow> (int, 'f lwp) run kres" where
  "sleep_loop_lwp t0 n cp s =
     (if lticks s - t0 < n then
        if lkilled (lprocs s cp) then kbind (release_l LkTicks s) (\<lambda>s. Ok (Returned (-1) s))
        else kbind (sleep_lwp (LSysSleep t0 n) ChTicks LkTicks s) (\<lambda>s. Ok (Switched s))
      else kbind (release_l LkTicks s) (\<lambda>s. Ok (Returned 0 s)))"

definition sys_sleep_lwp :: "'f lwp \<Rightarrow> (int, 'f lwp) run kres" where
  "sys_sleep_lwp s = with_arg (argint_lwp 0) s (\<lambda>n s.
     kbind (acquire_l LkTicks s) (\<lambda>s. let t0 = lticks s in
     if lticks s - t0 < n then with_lwp s (sleep_loop_lwp t0 n) else kbind (release_l LkTicks s) (\<lambda>s. Ok (Returned 0 s))))"

definition sys_uptime_lwp :: "'f lwp \<Rightarrow> (int, 'f lwp) run kres" where
  "sys_uptime_lwp s =
     kbind (acquire_l LkTicks s) (\<lambda>s.
     let x = lticks s in kbind (release_l LkTicks s) (\<lambda>s. Ok (Returned (sint x) s)))"

definition sys_showprocs :: "'f lwp \<Rightarrow> (int, 'f lwp) run kres" where
  "sys_showprocs s = kbind (showprocs s) (\<lambda>(_, s). Ok (Returned 0 s))"

definition sys_setmemorylimit :: "'f lwp \<Rightarrow> (int, 'f lwp) run kres" where
  "sys_setmemorylimit s = with_arg (argint_lwp 0) s (\<lambda>k s. with_arg (argint_lwp 1) s (\<lambda>l s.
     ret (setmemorylimit (sint k) (sint l) s)))"

definition sys_thread_create :: "'f fsops \<Rightarrow> 'f lwp \<Rightarrow> (int, 'f lwp) run kres" where
  "sys_thread_create F s =
     with_arg (argptr_lwp 0 4) s (\<lambda>thread s. with_arg (argptr_lwp 1 1) s (\<lambda>start s. with_arg (argptr_lwp 2 1) s (\<lambda>arg s.
     ret (thread_create F thread start arg s))))"

definition sys_thread_exit :: "'f fsops \<Rightarrow> 'f lwp \<Rightarrow> (int, 'f lwp) run kres" where
  "sys_thread_exit F s = with_arg (argptr_lwp 0 4) s (\<lambda>retval s.
     kbind (thread_exit F retval s) (\<lambda>s. Ok (Switched s)))"

definition sys_thread_join :: "'f lwp \<Rightarrow> (int, 'f lwp) run kres" where
  "sys_thread_join s = with_arg (argint_lwp 0) s (\<lambda>thread s. with_arg (argptr_lwp 1 4) s (\<lambda>rp s.
     thread_join thread rp s))"

section \<open>Switching back to a process\<close>

definition resume_lwp :: "'f fsops \<Rightarrow> nat \<Rightarrow> 'f lwp \<Rightarrow> (int, 'f lwp) run kres" where
  "resume_lwp F p s =
     (case lkont (lprocs s p) of
        LForkret \<Rightarrow> kbind (forkret_lwp F s) (\<lambda>s. Ok (Returned 0 s))
      | LYield \<Rightarrow> kbind (release_l LkPtable (sched_return_lwp p s)) (\<lambda>s. Ok (Returned 0 s))
      | LExit \<Rightarrow> Panic ''zombie exit''
      | LWait \<Rightarrow> kbind (sleep_return_lwp p LkPtable s) (wait_loop_lwp p)
      | LJoin thread rp \<Rightarrow> kbind (sleep_return_lwp p LkPtable s) (join_loop thread rp p)
      | LSysSleep t0 n \<Rightarrow> kbind (sleep_return_lwp p LkTicks s) (sleep_loop_lwp t0 n p)
      | LSleep lk \<Rightarrow> kbind (sleep_return_lwp p lk s) (\<lambda>s.
          kbind (release_l lk s) (\<lambda>s. Ok (Returned 0 s))))"

end
