(* ===== verification/Lwp_Exec.thy ===== *)
theory Lwp_Exec
  imports Lwp_Threads
begin

text \<open>
  Project 2, \<open>exec.c\<close>, with \<open>loaduvm\<close> of \<open>vm.c\<close>: replacing the program of a process, with a stack of one
  page (\<open>exec\<close>) or of \<open>stacksize\<close> pages (\<open>exec2\<close>), after the other threads of the process have been
  removed.  The inode operations are those of the record \<open>execops\<close>; an inode is its address, and
  \<open>readi\<close> gives its result and the bytes it stores.  The strings of \<open>argv\<close> are lists of bytes without
  their NUL.
\<close>

record 'f execops =
  ex_ilock :: "u32 \<Rightarrow> 'f \<Rightarrow> 'f kres"
  ex_iunlockput :: "u32 \<Rightarrow> 'f \<Rightarrow> 'f kres"
  ex_readi :: "u32 \<Rightarrow> u32 \<Rightarrow> u32 \<Rightarrow> 'f \<Rightarrow> (int \<times> byte list \<times> 'f) kres"

definition read_inode :: "'f execops \<Rightarrow> u32 \<Rightarrow> u32 \<Rightarrow> u32 \<Rightarrow> 'f lwp \<Rightarrow> (int \<times> byte list \<times> 'f lwp) kres" where
  "read_inode E ip off n s = kbind (ex_readi E ip off n (lfs s)) (\<lambda>(r, d, x). Ok (r, d, s\<lparr>lfs := x\<rparr>))"

definition byte_at :: "byte list \<Rightarrow> nat \<Rightarrow> byte" where
  "byte_at d k = (if k < length d then d ! k else 0)"

definition word_at :: "byte list \<Rightarrow> nat \<Rightarrow> u32" where
  "word_at d k = le_word (byte_at d k) (byte_at d (k + 1)) (byte_at d (k + 2)) (byte_at d (k + 3))"

text \<open>The fields of \<open>struct elfhdr\<close> and \<open>struct proghdr\<close> that \<open>exec\<close> uses.\<close>

definition ELF_MAGIC :: u32 where "ELF_MAGIC = 0x464C457F"
definition ELF_SIZE :: u32 where "ELF_SIZE = 52"
definition PH_SIZE :: u32 where "PH_SIZE = 32"
definition ELF_PROG_LOAD :: u32 where "ELF_PROG_LOAD = 1"

definition elf_magic :: "byte list \<Rightarrow> u32" where "elf_magic d = word_at d 0"
definition elf_entry :: "byte list \<Rightarrow> u32" where "elf_entry d = word_at d 24"
definition elf_phoff :: "byte list \<Rightarrow> u32" where "elf_phoff d = word_at d 28"
definition elf_phnum :: "byte list \<Rightarrow> nat" where "elf_phnum d = unat (byte_at d 44) + 256 * unat (byte_at d 45)"

definition ph_type :: "byte list \<Rightarrow> u32" where "ph_type d = word_at d 0"
definition ph_off :: "byte list \<Rightarrow> u32" where "ph_off d = word_at d 4"
definition ph_vaddr :: "byte list \<Rightarrow> u32" where "ph_vaddr d = word_at d 8"
definition ph_filesz :: "byte list \<Rightarrow> u32" where "ph_filesz d = word_at d 16"
definition ph_memsz :: "byte list \<Rightarrow> u32" where "ph_memsz d = word_at d 20"

section \<open>Loading the program\<close>

function loaduvm_from :: "'f execops \<Rightarrow> u32 \<Rightarrow> u32 \<Rightarrow> u32 \<Rightarrow> u32 \<Rightarrow> u32 \<Rightarrow> u32 \<Rightarrow> 'f lwp \<Rightarrow> (int \<times> 'f lwp) kres" where
  "loaduvm_from E dir addr ip off sz i s =
     (if i < sz then
        kbind (walkpgdir dir (addr + i) False s) (\<lambda>(pte, s).
        if pte = 0 then Panic ''loaduvm: address should exist''
        else
          let pa = PTE_ADDR (load32 (ram s) pte);
              n = (if sz - i < PGSIZE then sz - i else PGSIZE) in
          kbind (read_inode E ip (off + i) n s) (\<lambda>(r, d, s).
          let s = memmove_ram (P2V pa) (\<lambda>k. byte_at d (unat k)) (of_nat (length d)) s in
          if word_of_int r \<noteq> n then Ok (-1, s)
          else if i < i + PGSIZE then loaduvm_from E dir addr ip off sz (i + PGSIZE) s
          else Spin))
      else Ok (0, s))"
  by pat_completeness auto
termination
  by (relation "measure (\<lambda>(E, dir, addr, ip, off, sz, i, s). 4294967296 - unat i)") (auto intro: wrap_measure)

declare loaduvm_from.simps [simp del]

definition loaduvm :: "'f execops \<Rightarrow> u32 \<Rightarrow> u32 \<Rightarrow> u32 \<Rightarrow> u32 \<Rightarrow> u32 \<Rightarrow> 'f lwp \<Rightarrow> (int \<times> 'f lwp) kres" where
  "loaduvm E dir addr ip off sz s =
     (if addr mod PGSIZE \<noteq> 0 then Panic ''loaduvm: addr must be page aligned'' else loaduvm_from E dir addr ip off sz 0 s)"

text \<open>The loop over the program headers: the new size, or \<open>None\<close> for \<open>goto bad\<close>.\<close>

fun load_segments :: "'f execops \<Rightarrow> u32 \<Rightarrow> u32 \<Rightarrow> nat \<Rightarrow> u32 \<Rightarrow> u32 \<Rightarrow> 'f lwp \<Rightarrow> (u32 option \<times> 'f lwp) kres" where
  "load_segments E ip dir 0 off sz s = Ok (Some sz, s)"
| "load_segments E ip dir (Suc n) off sz s =
     kbind (read_inode E ip off PH_SIZE s) (\<lambda>(r, ph, s).
     if r \<noteq> int (unat PH_SIZE) then Ok (None, s)
     else if ph_type ph \<noteq> ELF_PROG_LOAD then load_segments E ip dir n (off + PH_SIZE) sz s
     else if ph_memsz ph < ph_filesz ph then Ok (None, s)
     else if ph_vaddr ph + ph_memsz ph < ph_vaddr ph then Ok (None, s)
     else kbind (allocuvm dir sz (ph_vaddr ph + ph_memsz ph) s) (\<lambda>(sz, s).
       if sz = 0 then Ok (None, s)
       else if ph_vaddr ph mod PGSIZE \<noteq> 0 then Ok (None, s)
       else kbind (loaduvm E dir (ph_vaddr ph) ip (ph_off ph) (ph_filesz ph) s) (\<lambda>(r, s).
         if r < 0 then Ok (None, s) else load_segments E ip dir n (off + PH_SIZE) sz s)))"

section \<open>The stack\<close>

text \<open>The loop that pushes the argument strings: the stack pointer and the addresses, or \<open>None\<close> for \<open>goto bad\<close>.\<close>

definition EXEC_MAXARG :: nat where "EXEC_MAXARG = 32"

fun push_args :: "u32 \<Rightarrow> byte list list \<Rightarrow> u32 \<Rightarrow> u32 list \<Rightarrow> 'f lwp \<Rightarrow> ((u32 \<times> u32 list) option \<times> 'f lwp) kres" where
  "push_args dir [] sp us s = Ok (Some (sp, us), s)"
| "push_args dir (a # as) sp us s =
     (if EXEC_MAXARG \<le> length us then Ok (None, s)
      else let n = of_nat (length a) + 1; sp = (sp - n) AND NOT 3 in
        kbind (copyout dir sp (\<lambda>k. byte_at a (unat k)) n s) (\<lambda>(r, s).
        if r < 0 then Ok (None, s) else push_args dir as sp (us @ [sp]) s))"

text \<open>The fake return address, \<open>argc\<close>, \<open>argv\<close>, the pointers and the null pointer behind them.\<close>

definition exec_ustack :: "u32 \<Rightarrow> u32 list \<Rightarrow> u32 list" where
  "exec_ustack sp us = [0xFFFFFFFF, of_nat (length us), sp - (of_nat (length us) + 1) * 4] @ us @ [0]"

definition exec_stack :: "u32 \<Rightarrow> u32 \<Rightarrow> byte list list \<Rightarrow> u32 \<Rightarrow> 'f lwp \<Rightarrow> ((u32 \<times> u32) option \<times> 'f lwp) kres" where
  "exec_stack dir stacksize argv sz s =
     (let sz = PGROUNDUP sz in
      kbind (allocuvm dir sz (sz + (stacksize + 1) * PGSIZE) s) (\<lambda>(sz, s).
      if sz = 0 then Ok (None, s)
      else kbind (clearpteu dir (sz - (stacksize + 1) * PGSIZE) s) (\<lambda>s.
      kbind (push_args dir argv sz [] s) (\<lambda>(x, s). case x of None \<Rightarrow> Ok (None, s) | Some (sp, us) \<Rightarrow>
      let ustack = exec_ustack sp us; n = 4 * of_nat (length ustack); sp = sp - n in
      kbind (copyout dir sp (ustack_bytes ustack) n s) (\<lambda>(r, s).
      if r < 0 then Ok (None, s) else Ok (Some (sz, sp), s))))))"

section \<open>exec\<close>

definition exec_bad :: "'f fsops \<Rightarrow> 'f execops \<Rightarrow> u32 \<Rightarrow> u32 \<Rightarrow> 'f lwp \<Rightarrow> (int \<times> 'f lwp) kres" where
  "exec_bad F E dir ip s =
     kbind (if dir \<noteq> 0 then freevm dir s else Ok s) (\<lambda>s.
     kbind (if ip \<noteq> 0 then kbind (lift_lfs (ex_iunlockput E ip) s) (lift_lfs (fs_end_op F)) else Ok s) (\<lambda>s.
     Ok (-1, s)))"

text \<open>The name of the program: the path behind its last slash.\<close>

definition last_elem :: "string \<Rightarrow> string" where
  "last_elem path = rev (takeWhile (\<lambda>c. c \<noteq> CHR ''/'') (rev path))"

definition exec_commit :: "string \<Rightarrow> u32 \<Rightarrow> u32 \<Rightarrow> u32 \<Rightarrow> u32 \<Rightarrow> u32 \<Rightarrow> nat \<Rightarrow> 'f lwp \<Rightarrow> (int \<times> 'f lwp) kres" where
  "exec_commit path dir sz entry sp stacksize cp s =
     (let s = updl cp (\<lambda>r. r\<lparr>lname := take 15 (last_elem path)\<rparr>) s;
          oldpgdir = lpgdir (lprocs s cp);
          s = updl cp (\<lambda>r. r\<lparr>lpgdir := dir, lsz := sz\<rparr>) s;
          s = setw (ltf (lprocs s cp) + TF_EIP) entry s;
          s = setw (ltf (lprocs s cp) + TF_ESP) sp s;
          s = updl cp (\<lambda>r. r\<lparr>lstksz := stacksize\<rparr>) s
      in kbind (switchuvm_lwp (Some cp) s) (\<lambda>s. kbind (freevm oldpgdir s) (\<lambda>s. Ok (0, s))))"

text \<open>The common body of \<open>exec\<close> and \<open>exec2\<close>; \<open>ok\<close> is the test of the stack size.\<close>

definition exec_body :: "'f fsops \<Rightarrow> 'f execops \<Rightarrow> bool \<Rightarrow> string \<Rightarrow> byte list list \<Rightarrow> u32 \<Rightarrow> 'f lwp \<Rightarrow> (int \<times> 'f lwp) kres" where
  "exec_body F E ok path argv stacksize s = with_lwp s (\<lambda>cp s.
     kbind (lift_lfs (fs_begin_op F) s) (\<lambda>s.
     kbind (fs_namei F path (lfs s)) (\<lambda>(ip, x).
     let s = s\<lparr>lfs := x\<rparr> in
     if ip = 0 then kbind (lift_lfs (fs_end_op F) s) (\<lambda>s. Ok (-1, s))
     else kbind (lift_lfs (ex_ilock E ip) s) (\<lambda>s.
     if \<not> ok then exec_bad F E 0 ip s
     else kbind (read_inode E ip 0 ELF_SIZE s) (\<lambda>(r, elf, s).
     if r \<noteq> int (unat ELF_SIZE) \<or> elf_magic elf \<noteq> ELF_MAGIC then exec_bad F E 0 ip s
     else kbind (setupkvm (ldata s) s) (\<lambda>(dir, s).
     if dir = 0 then exec_bad F E 0 ip s
     else kbind (load_segments E ip dir (elf_phnum elf) (elf_phoff elf) 0 s) (\<lambda>(sz, s).
     case sz of None \<Rightarrow> exec_bad F E dir ip s | Some sz \<Rightarrow>
     kbind (lift_lfs (ex_iunlockput E ip) s) (\<lambda>s.
     kbind (lift_lfs (fs_end_op F) s) (\<lambda>s.
     kbind (cleanforexec s) (\<lambda>s.
     kbind (exec_stack dir stacksize argv sz s) (\<lambda>(x, s).
     case x of None \<Rightarrow> exec_bad F E dir 0 s
     | Some (sz, sp) \<Rightarrow> exec_commit path dir sz (elf_entry elf) sp stacksize cp s)))))))))))"

definition exec :: "'f fsops \<Rightarrow> 'f execops \<Rightarrow> string \<Rightarrow> byte list list \<Rightarrow> 'f lwp \<Rightarrow> (int \<times> 'f lwp) kres" where
  "exec F E path argv s = exec_body F E True path argv 1 s"

definition exec2 :: "'f fsops \<Rightarrow> 'f execops \<Rightarrow> string \<Rightarrow> byte list list \<Rightarrow> int \<Rightarrow> 'f lwp \<Rightarrow> (int \<times> 'f lwp) kres" where
  "exec2 F E path argv stacksize s =
     exec_body F E (0 < stacksize \<and> stacksize \<le> 100) path argv (word_of_int stacksize) s"

end
