(* ===== verification/Lwp_Ops.thy ===== *)
theory Lwp_Ops
  imports Lwp_Exec
begin

text \<open>
  Computation rules for the code of project 2 on one CPU: the process \<open>p\<close> runs outside every critical
  section (\<open>runs p s\<close>), or inside the one of \<open>ptable.lock\<close> (\<open>inside p s\<close>).  \<open>enter\<close> and \<open>leave\<close> are the
  two ends of that critical section.
\<close>

definition runs :: "nat \<Rightarrow> 'f lwp \<Rightarrow> bool" where
  "runs p s \<longleftrightarrow> kmem_ready s \<and> cproc (cpu s) = Some p \<and> ncli (cpu s) = 0 \<and> llocks s LkPtable = initlock"

definition inside :: "nat \<Rightarrow> 'f lwp \<Rightarrow> bool" where
  "inside p s \<longleftrightarrow> kmem_ready s \<and> cproc (cpu s) = Some p \<and> ncli (cpu s) = 1 \<and> llocks s LkPtable = taken (cpu s)"

definition enter :: "'f lwp \<Rightarrow> 'f lwp" where
  "enter s = s\<lparr>llocks := (llocks s)(LkPtable := taken (cpu s)), cpu := pushcli (cpu s)\<rparr>"

definition leave :: "'f lwp \<Rightarrow> 'f lwp" where
  "leave s = s\<lparr>llocks := (llocks s)(LkPtable := initlock),
     cpu := (cpu s)\<lparr>ncli := 0, ifl := intena (cpu s)\<rparr>\<rparr>"

definition touched :: "'a machine_scheme \<Rightarrow> 'a machine_scheme" where
  "touched s = s\<lparr>cpu := touch (cpu s)\<rparr>"

lemma updl_simps [simp]:
  "lprocs (updl p f s) = (lprocs s)(p := f (lprocs s p))" "cpu (updl p f s) = cpu s" "ram (updl p f s) = ram s"
  "kmem_lock (updl p f s) = kmem_lock s" "kmem_freelist (updl p f s) = kmem_freelist s" "kend (updl p f s) = kend s"
  "kmem_use_lock (updl p f s) = kmem_use_lock s" "llocks (updl p f s) = llocks s" "linit (updl p f s) = linit s"
  "lnexttid (updl p f s) = lnexttid s" "lnextpid (updl p f s) = lnextpid s" "lfs (updl p f s) = lfs s"
  "kmem_ready (updl p f s) = kmem_ready s" "runs q (updl p f s) = runs q s" "inside q (updl p f s) = inside q s"
  "ldata (updl p f s) = ldata s"
  by (simp_all add: updl_def kmem_ready_def runs_def inside_def)

lemma touched_simps [simp]:
  "lprocs (touched s) = lprocs s" "ram (touched s) = ram s" "cpu (touched s) = touch (cpu s)"
  "kmem_freelist (touched s) = kmem_freelist s" "llocks (touched s) = llocks s" "linit (touched s) = linit s"
  "runs q (touched s) = runs q s" "inside q (touched s) = inside q s"
  by (simp_all add: touched_def runs_def inside_def kmem_ready_def)

lemma enter_simps [simp]:
  "lprocs (enter s) = lprocs s" "ram (enter s) = ram s" "kmem_freelist (enter s) = kmem_freelist s" "linit (enter s) = linit s"
  "lnexttid (enter s) = lnexttid s" "kmem_lock (enter s) = kmem_lock s" "kend (enter s) = kend s"
  by (simp_all add: enter_def)

lemma leave_simps [simp]:
  "lprocs (leave s) = lprocs s" "ram (leave s) = ram s" "kmem_freelist (leave s) = kmem_freelist s" "linit (leave s) = linit s"
  "lnexttid (leave s) = lnexttid s" "kmem_lock (leave s) = kmem_lock s" "kend (leave s) = kend s"
  by (simp_all add: leave_def)

lemma acquire_enter: "runs p s \<Longrightarrow> acquire_l LkPtable s = Ok (enter s)"
  by (simp add: acquire_l_def runs_def enter_def kmem_ready_def)

lemma inside_enter: "runs p s \<Longrightarrow> inside p (enter s)"
  by (auto simp: runs_def inside_def enter_def kmem_ready_def)

lemma insideD:
  assumes "inside p s"
  shows "kmem_ready s" "cpu_wf (cpu s)" "cproc (cpu s) = Some p" "ncli (cpu s) = 1" "\<not> ifl (cpu s)" "llocks s LkPtable = taken (cpu s)"
  using assms by (auto simp: inside_def kmem_ready_def cpu_wf_def)

lemma acquire_inside: "inside p s \<Longrightarrow> acquire_l LkPtable s = Panic ''acquire''"
  using insideD [of p s] by (simp add: acquire_l_def acquire_held)

lemma release_leave: "inside p s \<Longrightarrow> release_l LkPtable s = Ok (leave s)"
proof -
  assume "inside p s"
  note i = insideD [OF this]
  have "release (taken (cpu s)) (cpu s) = Ok (initlock, (cpu s)\<lparr>ncli := 0, ifl := intena (cpu s)\<rparr>)"
    using release_held [OF holds_taken, of "cpu s"] i(4,5) by (simp add: taken_def initlock_def)
  then show ?thesis using i by (simp add: release_l_def leave_def)
qed

lemma runs_leave: "inside p s \<Longrightarrow> runs p (leave s)"
  by (simp add: inside_def runs_def leave_def kmem_ready_def cpu_wf_def)

lemma myproc_lwp_run: "cpu_wf (cpu s) \<Longrightarrow> cproc (cpu s) = Some p \<Longrightarrow> myproc_lwp s = Ok (Some p, touched s)"
  by (simp add: myproc_lwp_def mycpu_lwp_def popcli_pushcli_touch touched_def)

lemma with_lwp_run: "runs p s \<or> inside p s \<Longrightarrow> with_lwp s f = f p (touched s)"
  by (auto simp: with_lwp_def myproc_lwp_run runs_def inside_def kmem_ready_def)

lemma touched_inside: "inside p s \<Longrightarrow> touched s = s"
  by (simp add: touched_def inside_def touch_def)

lemma sched_lwp_run:
  assumes "inside p s" and "lstate (lprocs s p) \<noteq> RUNNING"
  shows "sched_lwp k s = Ok (updl p (\<lambda>r. r\<lparr>lkont := k, lkint := intena (cpu s)\<rparr>) s)"
  unfolding sched_lwp_def with_lwp_run [OF disjI2 [OF assms(1)]]
  using insideD [OF assms(1)] assms
  by (simp add: touched_inside holding_eq mycpu_lwp_def)

lemma switchuvm_run:
  assumes "cpu_wf (cpu s)"
  shows "switchuvm_lwp (Some p) s = (if lkstack (lprocs s p) = 0 then Panic ''switchuvm: no kstack''
     else if lpgdir (lprocs s p) = 0 then Panic ''switchuvm: no pgdir'' else Ok (touched s))"
  using assms by (simp add: switchuvm_lwp_def mycpu_lwp_def popcli_pushcli_touch touched_def)

section \<open>Frames\<close>

text \<open>Memory management leaves the process table, the locks and the running process alone.\<close>

lemma kframe_lwp:
  assumes "kframe s (t :: 'f lwp)"
  shows "lprocs t = lprocs s" "llocks t = llocks s" "linit t = linit s" "lnexttid t = lnexttid s" "lnextpid t = lnextpid s"
    "lfs t = lfs s" "ldata t = ldata s" "kend t = kend s" "kmem_ready s \<Longrightarrow> kmem_ready t" "runs p s \<Longrightarrow> runs p t" "inside p s \<Longrightarrow> inside p t"
proof -
  obtain r c f where t: "t = s\<lparr>ram := r, cpu := c, kmem_freelist := f\<rparr>" and c: "c = cpu s \<or> c = touch (cpu s)"
    using assms by (cases t) (auto simp: kframe_def)
  show "lprocs t = lprocs s" "llocks t = llocks s" "linit t = linit s" "lnexttid t = lnexttid s" "lnextpid t = lnextpid s"
    "lfs t = lfs s" "ldata t = ldata s" "kend t = kend s"
    by (simp_all add: t)
  show "kmem_ready s \<Longrightarrow> kmem_ready t" "runs p s \<Longrightarrow> runs p t" "inside p s \<Longrightarrow> inside p t"
    using c by (auto simp: t kmem_ready_def runs_def inside_def)
qed

lemma kpD: "kp s m \<Longrightarrow> kmem_ready s \<Longrightarrow> m = Ok (x, t) \<Longrightarrow> kframe s t"
  by (simp add: kp_def)

lemma kuD: "ku s m \<Longrightarrow> kmem_ready s \<Longrightarrow> m = Ok t \<Longrightarrow> kframe s t"
  by (simp add: ku_def)

text \<open>
  Without any assumption on the locks: the memory management code changes nothing but the machine.
  \<open>mm s m\<close> says so of a call with a result, \<open>mu s m\<close> of one without.
\<close>

definition mm :: "'a machine_scheme \<Rightarrow> ('b \<times> 'a machine_scheme) kres \<Rightarrow> bool" where
  "mm s m \<longleftrightarrow> (\<forall>x t. m = Ok (x, t) \<longrightarrow> machine.more t = machine.more s)"

definition mu :: "'a machine_scheme \<Rightarrow> 'a machine_scheme kres \<Rightarrow> bool" where
  "mu s m \<longleftrightarrow> (\<forall>t. m = Ok t \<longrightarrow> machine.more t = machine.more s)"

named_theorems mm_intros \<open>rules for code that leaves all but the machine alone\<close>

lemma mm_ret [mm_intros]:
  "machine.more t = machine.more s \<Longrightarrow> mm s (Ok (x, t))" "machine.more t = machine.more s \<Longrightarrow> mu s (Ok t)"
  "mm s (Panic msg)" "mu s (Panic msg)" "mm s Spin" "mu s Spin"
  by (simp_all add: mm_def mu_def)

lemma mm_bind [mm_intros]:
  "mm s m \<Longrightarrow> (\<And>x t. machine.more t = machine.more s \<Longrightarrow> mm s (f (x, t))) \<Longrightarrow> mm s (kbind m f)"
  "mm s m \<Longrightarrow> (\<And>x t. machine.more t = machine.more s \<Longrightarrow> mu s (g (x, t))) \<Longrightarrow> mu s (kbind m g)"
  "mu s n \<Longrightarrow> (\<And>t. machine.more t = machine.more s \<Longrightarrow> mm s (h t)) \<Longrightarrow> mm s (kbind n h)"
  "mu s n \<Longrightarrow> (\<And>t. machine.more t = machine.more s \<Longrightarrow> mu s (k t)) \<Longrightarrow> mu s (kbind n k)"
  unfolding mm_def mu_def kbind_eq_Ok_iff by (metis surj_pair, metis surj_pair, metis, metis)

lemma mm_shift:
  "mm t m \<Longrightarrow> machine.more t = machine.more s \<Longrightarrow> mm s m" "mu t n \<Longrightarrow> machine.more t = machine.more s \<Longrightarrow> mu s n"
  by (simp_all add: mm_def mu_def)

lemma more_setw [simp]: "machine.more (setw a v s) = machine.more s" "machine.more (memmove_ram d f n s) = machine.more s"
  by (simp_all add: setw_def memmove_ram_def)

lemma mm_kmem: "mu s (acquire_kmem s)" "mu s (release_kmem s)"
  by (auto simp: mu_def acquire_kmem_def release_kmem_def kbind_eq_Ok_iff)

lemmas mm_kmem_after = mm_kmem [THEN mm_shift(2)]

lemma mm_kalloc: "mm s (kalloc s)"
  unfolding kalloc_def Let_def by (auto intro!: mm_intros mm_kmem mm_kmem_after)

lemma mm_kfree: "mu s (kfree v s)"
  unfolding kfree_def Let_def by (auto intro!: mm_intros mm_kmem mm_kmem_after)

lemmas mm_page = mm_shift(1) [OF mm_kalloc] mm_shift(2) [OF mm_kfree]

lemma mm_walkpgdir: "mm s (walkpgdir dir va alloc s)"
  unfolding walkpgdir_def Let_def by (auto intro!: mm_intros mm_kalloc)

lemma mm_mappages: "mm s (mappages dir va sz pa perm s)"
proof -
  have "mm s (mappages_loop dir a pa perm n s)" for a pa n
  proof (induction n arbitrary: a pa s)
    case 0
    then show ?case by (subst mappages_loop.simps) (auto intro!: mm_intros mm_walkpgdir simp: Let_def)
  next
    case (Suc n)
    show ?case
      by (subst mappages_loop.simps) (auto intro!: mm_intros mm_walkpgdir mm_shift(1) [OF Suc] simp: Let_def)
  qed
  then show ?thesis by (simp add: mappages_def Let_def)
qed

lemma mu_deallocuvm_from: "mu s (deallocuvm_from dir a oldsz s)"
proof (induction a arbitrary: s rule: word_up_induct)
  case (up a)
  show ?case
    by (subst deallocuvm_from.simps)
       (auto intro!: mm_intros mm_walkpgdir mm_page mm_shift(2) [OF up] simp: Let_def)
qed

lemma mm_deallocuvm: "mm s (deallocuvm dir oldsz newsz s)"
  unfolding deallocuvm_def by (auto intro!: mm_intros mu_deallocuvm_from)

lemma mm_allocuvm_from: "mm s (allocuvm_from dir a oldsz newsz s)"
proof (induction a arbitrary: s rule: word_up_induct)
  case (up a)
  show ?case
    by (subst allocuvm_from.simps)
       (auto intro!: mm_intros mm_page mm_shift(1) [OF mm_deallocuvm] mm_shift(1) [OF mm_mappages] mm_shift(1) [OF up] simp: Let_def)
qed

lemma mm_allocuvm: "mm s (allocuvm dir oldsz newsz s)"
  unfolding allocuvm_def by (auto intro!: mm_intros mm_allocuvm_from)

lemma mu_freevm_tables: "mu s (freevm_tables dir i s)"
proof (induction "1024 - i" arbitrary: i s rule: less_induct)
  case less
  show ?case by (subst freevm_tables.simps) (auto intro!: mm_intros mm_page mm_shift(2) [OF less] simp: Let_def)
qed

lemma mm_freevm: "mu s (freevm dir s)"
  unfolding freevm_def by (auto intro!: mm_intros mm_deallocuvm mm_page mm_shift(2) [OF mu_freevm_tables])

lemma mm_setupkvm_loop: "mm s (setupkvm_loop dir ks s)"
proof (induction ks arbitrary: s)
  case (Cons k ks)
  show ?case
    by (cases k) (auto intro!: mm_intros mm_mappages mm_shift(2) [OF mm_freevm] mm_shift(1) [OF Cons])
qed (simp add: mm_intros)

lemma mm_setupkvm: "mm s (setupkvm data s)"
  unfolding setupkvm_def Let_def by (auto intro!: mm_intros mm_page mm_shift(1) [OF mm_setupkvm_loop])

lemma mm_copyuvm_bad: "mm s (copyuvm_bad d s)"
  unfolding copyuvm_bad_def by (intro mm_intros mm_freevm refl) simp

lemma mm_copyuvm_from: "mm s (copyuvm_from dir d i sz s)"
proof (induction i arbitrary: s rule: word_up_induct)
  case (up i)
  show ?case
    by (subst copyuvm_from.simps)
       (auto intro!: mm_intros mm_walkpgdir mm_page mm_shift(1) [OF mm_mappages] mm_shift(1) [OF mm_copyuvm_bad]
         mm_shift(1) [OF up] simp: Let_def)
qed

lemma mm_copyuvm: "mm s (copyuvm data dir sz s)"
  unfolding copyuvm_def by (auto intro!: mm_intros mm_setupkvm mm_shift(1) [OF mm_copyuvm_from])

lemma mm_uva2ka: "mm s (uva2ka dir va s)"
  unfolding uva2ka_def Let_def by (auto intro!: mm_intros mm_walkpgdir)

lemma mm_copyout: "mm s (copyout dir va f n s)"
  unfolding copyout_def
proof (induction n arbitrary: va f s rule: measure_induct_rule [of unat])
  case (less n)
  show ?case
    by (subst copyout_loop.simps)
       (auto intro!: mm_intros mm_uva2ka mm_shift(1) [OF less] simp: Let_def word_less_nat_alt unat_sub_if_size split: if_splits)
qed

lemma mm_clearpteu: "mu s (clearpteu dir va s)"
  unfolding clearpteu_def by (auto intro!: mm_intros mm_walkpgdir)

lemma mu_kfold:
  assumes "\<And>x s. mu s (f x s)"
  shows "mu s (kfold f xs s)"
  by (induction xs arbitrary: s) (auto intro!: mm_intros assms intro: mm_shift(2))

lemma mm_user_store32: "mu s (user_store32 dir va v s)"
  unfolding user_store32_def by (rule mu_kfold) (auto simp: mu_def kbind_eq_Ok_iff)

end
