(* ===== verification/Lwp_Inv.thy ===== *)
theory Lwp_Inv
  imports Lwp_Ops
begin

text \<open>
  The memory limit of project 2: no sequence of calls of \<open>proc.c\<close> makes a process larger than its limit.
  \<open>lk s m\<close>, \<open>lu s m\<close> and \<open>lr s m\<close> say that a call \<open>m\<close> in the state \<open>s\<close> keeps the invariant \<open>limit_ok\<close>, for
  calls that return a value, none, or may give up the CPU.
\<close>

definition limit_ok :: "'f lwp \<Rightarrow> bool" where
  "limit_ok s \<longleftrightarrow> (\<forall>p. let r = lprocs s p in lmain r = Some p \<longrightarrow> llimit r = 0 \<or> lsz r \<le> word_of_int (llimit r))"

definition same_size :: "'f lwp \<Rightarrow> 'f lwp \<Rightarrow> bool" where
  "same_size s t \<longleftrightarrow> (\<forall>p. let r = lprocs s p; q = lprocs t p in lmain q = lmain r \<and> llimit q = llimit r \<and> lsz q = lsz r)"

definition lk :: "'f lwp \<Rightarrow> ('b \<times> 'f lwp) kres \<Rightarrow> bool" where
  "lk s m \<longleftrightarrow> (\<forall>x t. m = Ok (x, t) \<longrightarrow> limit_ok s \<longrightarrow> limit_ok t)"

definition lu :: "'f lwp \<Rightarrow> 'f lwp kres \<Rightarrow> bool" where
  "lu s m \<longleftrightarrow> (\<forall>t. m = Ok t \<longrightarrow> limit_ok s \<longrightarrow> limit_ok t)"

definition run_state :: "('a, 's) run \<Rightarrow> 's" where
  "run_state r = (case r of Returned _ s \<Rightarrow> s | Switched s \<Rightarrow> s)"

lemma run_state_simps [simp]: "run_state (Returned x s) = s" "run_state (Switched s) = s"
  by (simp_all add: run_state_def)

definition lr :: "'f lwp \<Rightarrow> ('b, 'f lwp) run kres \<Rightarrow> bool" where
  "lr s m \<longleftrightarrow> (\<forall>r. m = Ok r \<longrightarrow> limit_ok s \<longrightarrow> limit_ok (run_state r))"

lemma limit_same: "same_size s t \<Longrightarrow> limit_ok s \<Longrightarrow> limit_ok t"
  by (simp add: limit_ok_def same_size_def Let_def)

lemma same_size_refl [simp]: "same_size s s"
  by (simp add: same_size_def)

lemma same_size_trans: "same_size s t \<Longrightarrow> same_size t u \<Longrightarrow> same_size s u"
  by (simp add: same_size_def Let_def)

lemma same_size_procs: "lprocs t = lprocs s \<Longrightarrow> same_size s t"
  by (simp add: same_size_def)

lemma more_procs: "machine.more (t :: 'f lwp) = machine.more s \<Longrightarrow> lprocs t = lprocs s \<and> lfs t = lfs s \<and> lnexttid t = lnexttid s"
  by (cases s; cases t; simp)

lemma same_size_updl:
  "same_size s t \<Longrightarrow> (\<And>r. lmain (f r) = lmain r \<and> llimit (f r) = llimit r \<and> lsz (f r) = lsz r) \<Longrightarrow> same_size s (updl p f t)"
  by (simp add: same_size_def Let_def)

named_theorems lk_intros \<open>rules for code that keeps the memory limit\<close>

lemma lk_ret [lk_intros]:
  "same_size s t \<Longrightarrow> lk s (Ok (x, t))" "same_size s t \<Longrightarrow> lu s (Ok t)" "same_size s t \<Longrightarrow> lr s (Ok (Returned y t))"
  "same_size s t \<Longrightarrow> lr s (Ok (Switched t))"
  "lk s (Panic msg)" "lu s (Panic msg)" "lr s (Panic msg)" "lk s Spin" "lu s Spin" "lr s Spin"
  "lk s (Asleep ch)" "lu s (Asleep ch)" "lr s (Asleep ch)"
  using limit_same by (auto simp: lk_def lu_def lr_def)

lemma lk_bind [lk_intros]:
  "lk s m \<Longrightarrow> (\<And>x t. lk t (f (x, t))) \<Longrightarrow> lk s (kbind m f)"
  "lk s m \<Longrightarrow> (\<And>x t. lu t (g (x, t))) \<Longrightarrow> lu s (kbind m g)"
  "lk s m \<Longrightarrow> (\<And>x t. lr t (h (x, t))) \<Longrightarrow> lr s (kbind m h)"
  "lu s n \<Longrightarrow> (\<And>t. lk t (i t)) \<Longrightarrow> lk s (kbind n i)"
  "lu s n \<Longrightarrow> (\<And>t. lu t (j t)) \<Longrightarrow> lu s (kbind n j)"
  "lu s n \<Longrightarrow> (\<And>t. lr t (k t)) \<Longrightarrow> lr s (kbind n k)"
  unfolding lk_def lu_def lr_def kbind_eq_Ok_iff by fastforce+

lemma lk_shift:
  "same_size s t \<Longrightarrow> lk t m \<Longrightarrow> lk s m" "same_size s t \<Longrightarrow> lu t n \<Longrightarrow> lu s n" "same_size s t \<Longrightarrow> lr t k \<Longrightarrow> lr s k"
  using limit_same by (auto simp: lk_def lu_def lr_def)

lemma lk_mm: "mm s m \<Longrightarrow> lk s m" "mu s n \<Longrightarrow> lu s n"
  using more_procs same_size_procs limit_same unfolding lk_def lu_def mm_def mu_def by blast+

text \<open>The pieces that every function is made of; each may be called in a state that differs from \<open>s\<close> in other fields.\<close>

lemma same_size_fields:
  "same_size s t \<Longrightarrow> same_size s (t\<lparr>llocks := l\<rparr>)" "same_size s t \<Longrightarrow> same_size s (t\<lparr>cpu := c\<rparr>)"
  "same_size s t \<Longrightarrow> same_size s (t\<lparr>lfs := x\<rparr>)" "same_size s t \<Longrightarrow> same_size s (t\<lparr>lfirst := b\<rparr>)"
  "same_size s t \<Longrightarrow> same_size s (setw a v t)" "same_size s t \<Longrightarrow> same_size s (memmove_ram a f n t)"
  "same_size s t \<Longrightarrow> same_size s (t\<lparr>ram := m\<rparr>)" "same_size s t \<Longrightarrow> same_size s (t\<lparr>linit := i\<rparr>)"
  "same_size s t \<Longrightarrow> same_size s (t\<lparr>lnextpid := k\<rparr>)" "same_size s t \<Longrightarrow> same_size s (t\<lparr>lnexttid := u\<rparr>)"
  by (simp_all add: same_size_def setw_def memmove_ram_def)

lemmas ss = same_size_fields same_size_updl same_size_refl

lemma lu_acquire: "lu s (acquire_l l s)"
  by (auto simp: lu_def acquire_l_def kbind_eq_Ok_iff elim!: limit_same [rotated] intro!: ss)

lemma lu_release: "lu s (release_l l s)"
  by (auto simp: lu_def release_l_def kbind_eq_Ok_iff elim!: limit_same [rotated] intro!: ss)

lemma lu_lift: "lu s (lift_lfs f s)"
  by (auto simp: lu_def lift_lfs_def kbind_eq_Ok_iff elim!: limit_same [rotated] intro!: ss)

lemma lk_myproc: "lk s (myproc_lwp s)"
proof (clarsimp simp: lk_def)
  fix p t assume m: "myproc_lwp s = Ok (p, t)" and l: "limit_ok s"
  then obtain c where "t = s\<lparr>cpu := c\<rparr>" by (auto simp: myproc_lwp_def mycpu_lwp_def kbind_eq_Ok_iff split: if_splits)
  then show "limit_ok t" using l limit_same [OF same_size_fields(2) [OF same_size_refl]] by blast
qed

lemma lk_with_lwp:
  assumes "\<And>p t. lk t (f p t)" and "\<And>p t. lu t (g p t)" and "\<And>p t. lr t (h p t)"
  shows "lk s (with_lwp s f)" "lu s (with_lwp s g)" "lr s (with_lwp s h)"
  unfolding with_lwp_def using assms by (auto intro!: lk_intros lk_myproc split: option.split)

lemma lu_switchuvm: "lu s (switchuvm_lwp p s)"
proof (clarsimp simp: lu_def)
  fix t assume m: "switchuvm_lwp p s = Ok t" and l: "limit_ok s"
  then obtain c where "t = s\<lparr>cpu := c\<rparr>"
    by (auto simp: switchuvm_lwp_def mycpu_lwp_def kbind_eq_Ok_iff Let_def split: if_splits option.splits)
  then show "limit_ok t" using l limit_same [OF same_size_fields(2) [OF same_size_refl]] by blast
qed

text \<open>A call after changes that do not matter.\<close>

lemmas lk_after [lk_intros] =
  lk_shift(2) [OF _ lu_acquire] lk_shift(2) [OF _ lu_release] lk_shift(2) [OF _ lu_lift] lk_shift(2) [OF _ lu_switchuvm]
  lk_shift(1) [OF _ lk_mm(1) [OF mm_kalloc]] lk_shift(2) [OF _ lk_mm(2) [OF mm_kfree]]
  lk_shift(1) [OF _ lk_mm(1) [OF mm_deallocuvm]] lk_shift(2) [OF _ lk_mm(2) [OF mm_freevm]]
  lk_shift(1) [OF _ lk_mm(1) [OF mm_copyuvm]] lk_shift(2) [OF _ lk_mm(2) [OF mm_user_store32]]
  lk_shift(1) [OF _ lk_myproc]

lemmas lk_with [lk_intros] =
  lk_shift(1) [OF _ lk_with_lwp(1)] lk_shift(2) [OF _ lk_with_lwp(2)] lk_shift(3) [OF _ lk_with_lwp(3)]

lemma lu_kfold:
  assumes "\<And>x s. lu s (f x s)"
  shows "lu s (kfold f xs s)"
proof (induction xs arbitrary: s)
  case (Cons x xs)
  show ?case using assms Cons by (auto intro!: lk_intros)
qed (auto intro!: lk_intros)

lemma same_size_fold:
  assumes "\<And>x s. same_size s (f x s)"
  shows "same_size s (fold f xs s)"
  by (induction xs arbitrary: s) (auto intro: same_size_trans [OF assms])

section \<open>The operations that do not change sizes\<close>

lemma wake_fields: "lmain (wake ch r) = lmain r \<and> llimit (wake ch r) = llimit r \<and> lsz (wake ch r) = lsz r"
  by (simp add: wake_def)

lemma same_size_wakeup1: "same_size s t \<Longrightarrow> same_size s (wakeup1_lwp ch t)"
  unfolding wakeup1_lwp_def by (rule same_size_trans, assumption) (intro same_size_fold ss wake_fields)

lemma same_size_reparent: "same_size s (reparent_lwp cp p s)"
  by (auto simp: reparent_lwp_def Let_def intro!: ss same_size_wakeup1)

lemma lu_sched: "lu s (sched_lwp k s)"
proof -
  have "lu s (kbind (holding (llocks s LkPtable) (cpu s)) (\<lambda>(r, c). f r (s\<lparr>cpu := c\<rparr>)))" if "\<And>r t. lu t (f r t)" for f and s :: "'a lwp"
    using lk_shift(2) [OF same_size_fields(2) [OF same_size_refl] that]
    by (cases "holding (llocks s LkPtable) (cpu s)") (auto intro!: lk_ret)
  note h = this [of "\<lambda>r s. if \<not> r then Panic ''sched ptable.lock'' else g s" for g]
  show ?thesis
    unfolding sched_lwp_def Let_def mycpu_lwp_def by (auto intro!: lk_intros h ss)
qed

lemmas lk_sched [lk_intros] = lk_shift(2) [OF _ lu_sched]

lemma lu_yield: "lu s (yield_lwp s)"
  unfolding yield_lwp_def by (auto intro!: lk_intros ss)

lemma lu_sleep: "lu s (sleep_lwp k ch l s)"
  unfolding sleep_lwp_def by (auto intro!: lk_intros ss split: option.split)

lemmas lk_sleep [lk_intros] = lk_shift(2) [OF _ lu_sleep]

lemma lu_sleep_return: "lu s (sleep_return_lwp p l s)"
  unfolding sleep_return_lwp_def sched_return_lwp_def Let_def by (auto intro!: lk_intros ss)

lemma lu_wakeup: "lu s (wakeup_lwp ch s)"
  unfolding wakeup_lwp_def by (auto intro!: lk_intros ss same_size_wakeup1)

lemma lk_kill: "lk s (kill_lwp k s)"
  unfolding kill_lwp_def Let_def by (auto intro!: lk_intros ss split: option.split)

lemma lk_scheduler_from: "lk s (scheduler_from k s)"
  unfolding scheduler_from_def by (auto intro!: lk_intros ss split: option.split)

lemma lk_scheduler: "lk s (scheduler_start s)" "lk s (scheduler_next p s)"
  unfolding scheduler_start_def scheduler_next_def
  by (auto intro!: lk_intros ss lk_scheduler_from lk_shift(1) [OF _ lk_scheduler_from])

lemma lu_forkret: "lu s (forkret_lwp F s)"
  unfolding forkret_lwp_def Let_def by (auto intro!: lk_intros ss)

lemma lu_exit_fs: "lu s (exit_fs_lwp F cp s)"
  unfolding exit_fs_lwp_def Let_def by (auto intro!: lk_intros ss lu_kfold)

lemma lu_cleanthread: "lu s (cleanthread p s)"
  unfolding cleanthread_def by (auto intro!: lk_intros ss simp: cleaned_def)

lemma lu_kill_threads: "lu s (kill_threads cp s)"
  unfolding kill_threads_def by (auto intro!: lu_kfold lk_intros ss lk_shift(2) [OF _ lu_cleanthread])

lemma lu_exit_sched: "lu s (exit_sched_lwp cp s)"
  unfolding exit_sched_lwp_def Let_def
  by (auto intro!: lk_intros ss lu_kill_threads same_size_trans [OF same_size_wakeup1 [OF same_size_refl] same_size_fold] same_size_reparent)

lemma lu_exit: "lu s (exit_lwp F s)"
  unfolding exit_lwp_def by (auto intro!: lk_intros ss lu_exit_fs lu_exit_sched)

lemma lr_wait_loop: "lr s (wait_loop_lwp cp s)"
  unfolding wait_loop_lwp_def Let_def by (auto intro!: lk_intros ss simp: reaped_def split: option.split)

lemma lr_wait: "lr s (wait_lwp s)"
  unfolding wait_lwp_def by (auto intro!: lk_intros ss lr_wait_loop)

lemma lk_showprocs: "lk s (showprocs s)"
  unfolding showprocs_def Let_def by (auto intro!: lk_intros ss)

lemma lu_cleanforexec: "lu s (cleanforexec s)"
  unfolding cleanforexec_def by (auto intro!: lk_intros ss lu_kill_threads)

lemma lu_thread_exit: "lu s (thread_exit F v s)"
proof -
  have "lu s (thread_exit_sched v cp s)" for cp and s :: "'a lwp"
    unfolding thread_exit_sched_def Let_def by (auto intro!: lk_intros ss same_size_wakeup1)
  then show ?thesis unfolding thread_exit_def by (auto intro!: lk_intros ss lu_exit_fs)
qed

lemma lr_join_loop: "lr s (join_loop thread rp cp s)"
  unfolding join_loop_def by (auto intro!: lk_intros ss lu_cleanthread split: option.split)

lemma lr_thread_join: "lr s (thread_join thread rp s)"
  unfolding thread_join_def by (auto intro!: lk_intros ss lr_join_loop)

lemma lr_sleep_loop: "lr s (sleep_loop_lwp t0 n cp s)"
  unfolding sleep_loop_lwp_def by (auto intro!: lk_intros ss)

lemma lr_resume: "lr s (resume_lwp F p s)"
  unfolding resume_lwp_def sched_return_lwp_def
  by (auto intro!: lk_intros ss lu_forkret lu_sleep_return lr_wait_loop lr_join_loop lr_sleep_loop split: lkont.split)

lemma lk_allocproc: "lk s (allocproc_lwp s)"
  unfolding allocproc_lwp_def claim_lwp_def kstack_lwp_def Let_def by (auto intro!: lk_intros ss split: option.split)

lemma lu_publish: "lu s (publish_lwp p s)"
  unfolding publish_lwp_def by (auto intro!: lk_intros ss)

section \<open>The operations that change sizes\<close>

lemma lu_dup_files: "lu s (dup_files F cp np s)"
  unfolding dup_files_def Let_def by (auto intro!: lk_intros ss lu_kfold)

text \<open>An entry without a limit, or that is not a main thread, may take any size.\<close>

lemma limit_updl:
  assumes "limit_ok s" and "let r = f (lprocs s p) in lmain r = Some p \<longrightarrow> llimit r = 0 \<or> lsz r \<le> word_of_int (llimit r)"
  shows "limit_ok (updl p f s)"
  using assms by (simp add: limit_ok_def Let_def)

lemma lu_fork_copy: "lu s (fork_copy_lwp F cp np s)"
proof (unfold lu_def, intro allI impI)
  fix t assume m: "fork_copy_lwp F cp np s = Ok t" and l: "limit_ok s"
  let ?s1 = "updl np (\<lambda>r. r\<lparr>lsz := lsz (lprocs s cp), lparent := Some cp\<rparr>) s"
  let ?s2 = "memmove_ram (ltf (lprocs ?s1 np)) (\<lambda>k. ram ?s1 (ltf (lprocs ?s1 cp) + k)) TF_SIZE ?s1"
  let ?s3 = "updl np (\<lambda>r. r\<lparr>lmain := Some np, lpid := lnextpid ?s2\<rparr>) ?s2"
  let ?s4 = "?s3\<lparr>lnextpid := lnextpid ?s3 + 1\<rparr>"
  let ?s5 = "updl np (\<lambda>r. r\<lparr>ltid := 0, lstksz := lstksz (lprocs ?s4 cp), llimit := 0\<rparr>) ?s4"
  let ?s6 = "setw (ltf (lprocs ?s1 np) + TF_EAX) 0 ?s5"
  have "limit_ok ?s6"
    using l by (auto simp: limit_ok_def Let_def setw_def memmove_ram_def updl_def)
  moreover have "lu ?s6 (fork_copy_lwp F cp np s)"
    unfolding fork_copy_lwp_def Let_def by (auto intro!: lk_intros ss lu_dup_files)
  ultimately show "limit_ok t" using m by (auto simp: lu_def)
qed

lemma lk_fork: "lk s (fork_lwp F s)"
  unfolding fork_lwp_def Let_def
  by (auto intro!: lk_intros ss lk_allocproc lk_shift(2) [OF _ lu_fork_copy] lu_publish split: option.split)

text \<open>What the size calculations of \<open>vm.c\<close> may return.\<close>

lemma allocuvm_size: "allocuvm dir old new s = Ok (r, t) \<Longrightarrow> r = 0 \<or> r = old \<and> new < old \<or> r = new"
proof -
  have "allocuvm_from dir a old new s = Ok (r, t) \<Longrightarrow> r = 0 \<or> r = new" for a
  proof (induction a arbitrary: s rule: word_up_induct)
    case (up a)
    then show ?case
      by (subst (asm) (2) allocuvm_from.simps) (auto simp: Let_def kbind_eq_Ok_iff split: if_splits)
  qed
  then show "allocuvm dir old new s = Ok (r, t) \<Longrightarrow> r = 0 \<or> r = old \<and> new < old \<or> r = new"
    by (auto simp: allocuvm_def split: if_splits)
qed

lemma deallocuvm_size: "deallocuvm dir old new s = Ok (r, t) \<Longrightarrow> r = old \<and> old \<le> new \<or> r = new"
  by (auto simp: deallocuvm_def kbind_eq_Ok_iff split: if_splits)

lemma resize_size:
  assumes "resize n dir sz s = Ok (r, t)"
  shows "r = 0 \<or> r = sz \<or> r = sz + word_of_int n"
  using assms by (auto simp: resize_def split: if_splits dest: allocuvm_size deallocuvm_size)

lemma mm_resize: "mm s (resize n dir sz s)"
  by (auto simp: resize_def intro: mm_allocuvm mm_deallocuvm mm_intros)

lemma lk_growproc: "lk s (growproc_lwp n s)"
proof -
  have grow: "lk u (kbind (resize n dir sz u) (\<lambda>(sz, u).
       if n \<noteq> 0 \<and> sz = 0 then Ok (-1::int, u)
       else kbind (release_l LkPtable (updl m (\<lambda>r. r\<lparr>lsz := sz\<rparr>) u)) (\<lambda>u. kbind (switchuvm_lwp (Some p) u) (\<lambda>u. Ok (0, u)))))"
    (is "lk u (kbind _ ?f)") if lim: "llimit (lprocs u m) = 0 \<or> sz + word_of_int n \<le> word_of_int (llimit (lprocs u m))" "sz = lsz (lprocs u m)"
    for u :: "'a lwp" and dir m p sz
  proof (unfold lk_def, intro allI impI)
    fix x t assume e: "kbind (resize n dir sz u) ?f = Ok (x, t)" and l: "limit_ok u"
    obtain z v where a: "resize n dir sz u = Ok (z, v)" "?f (z, v) = Ok (x, t)" using e by (auto simp: kbind_eq_Ok_iff)
    have pr: "lprocs v = lprocs u" using a(1) mm_resize more_procs unfolding mm_def by blast
    then have lv: "limit_ok v" using l limit_same same_size_procs by blast
    have "lmain (lprocs u m) = Some m \<longrightarrow> llimit (lprocs u m) = 0 \<or> sz \<le> word_of_int (llimit (lprocs u m))"
      using l lim(2) by (simp add: limit_ok_def Let_def)
    then have "limit_ok (updl m (\<lambda>r. r\<lparr>lsz := z\<rparr>) v)"
      using lv resize_size [OF a(1)] lim(1) by (intro limit_updl) (auto simp: pr)
    moreover have "lk w (kbind (release_l LkPtable w) (\<lambda>u. kbind (switchuvm_lwp (Some p) u) (\<lambda>u. Ok (0::int, u))))" for w :: "'a lwp"
      by (intro lk_intros ss)
    ultimately show "limit_ok t" using a(2) lv by (auto simp: lk_def split: if_splits)
  qed
  show ?thesis
    unfolding growproc_lwp_def Let_def by (auto intro!: lk_intros ss grow simp: not_less split: option.split)
qed

lemma lk_setmemorylimit: "lk s (setmemorylimit k limit s)"
proof -
  have "lk u (case find (\<lambda>p. lpid (lprocs u p) = k) [0..<NPROC] of
        None \<Rightarrow> kbind (release_l LkPtable u) (\<lambda>s. Ok (-1::int, s))
      | Some p \<Rightarrow>
          if word_of_int limit < lsz (lprocs u p) then kbind (release_l LkPtable u) (\<lambda>s. Ok (-1, s))
          else kbind (release_l LkPtable (updl p (\<lambda>r. r\<lparr>llimit := limit\<rparr>) u)) (\<lambda>s. Ok (0, s)))" (is "lk u ?m") for u :: "'a lwp"
  proof (unfold lk_def, intro allI impI)
    fix x t assume e: "?m = Ok (x, t)" and l: "limit_ok u"
    have r: "lu v (release_l LkPtable v)" for v :: "'a lwp" by (rule lu_release)
    show "limit_ok t"
    proof (cases "find (\<lambda>p. lpid (lprocs u p) = k) [0..<NPROC]")
      case None
      then show ?thesis using e l r by (auto simp: kbind_eq_Ok_iff lu_def)
    next
      case (Some p)
      have "\<not> word_of_int limit < lsz (lprocs u p) \<Longrightarrow> limit_ok (updl p (\<lambda>r. r\<lparr>llimit := limit\<rparr>) u)"
        using l by (intro limit_updl) (auto simp: not_less)
      then show ?thesis using e l r Some by (auto simp: kbind_eq_Ok_iff lu_def split: if_splits)
    qed
  qed
  then show ?thesis unfolding setmemorylimit_def by (auto intro!: lk_intros ss)
qed

text \<open>A thread is created in an unused entry, so not in that of a main thread that is alive.\<close>

lemma myproc_result: "myproc_lwp s = Ok (p, t) \<Longrightarrow> p = cproc (cpu s) \<and> lprocs t = lprocs s"
  by (auto simp: myproc_lwp_def mycpu_lwp_def kbind_eq_Ok_iff split: if_splits)

lemma acquire_procs: "acquire_l l s = Ok t \<Longrightarrow> lprocs t = lprocs s"
  by (auto simp: acquire_l_def kbind_eq_Ok_iff)

lemma allocproc_unused: "allocproc_lwp s = Ok (Some np, t) \<Longrightarrow> lstate (lprocs s np) = UNUSED"
proof -
  assume "allocproc_lwp s = Ok (Some np, t)"
  then obtain p u where "claim_lwp s = Ok (Some p, u)" "kstack_lwp p u = Ok (Some np, t)"
    by (auto simp: allocproc_lwp_def kbind_eq_Ok_iff split: option.splits)
  moreover from this(2) have "p = np" by (auto simp: kstack_lwp_def kbind_eq_Ok_iff Let_def split: if_splits)
  ultimately have "claim_lwp s = Ok (Some np, u)" by simp
  then obtain x where x: "acquire_l LkPtable s = Ok x" "find (\<lambda>p. lstate (lprocs x p) = UNUSED) [0..<NPROC] = Some np"
    by (auto simp: claim_lwp_def kbind_eq_Ok_iff split: option.splits)
  show ?thesis using find_Some_D [OF x(2)] acquire_procs [OF x(1)] by simp
qed

lemma thread_entry_limit:
  assumes "np \<noteq> m" and "limit_ok s"
  shows "limit_ok (thread_entry cp m np s)" "lmain (lprocs (thread_entry cp m np s) np) = Some m"
    "lsz (lprocs (thread_entry cp m np s) np) = lsz (lprocs (thread_entry cp m np s) m)"
  using assms by (simp_all add: thread_entry_def limit_ok_def Let_def memmove_ram_def updl_def)

lemma lk_thread_args: "lk s (thread_args np start arg s)"
  unfolding thread_args_def Let_def by (auto intro!: lk_intros ss lk_shift(1) [OF _ lk_mm(1) [OF mm_copyout]])

lemma lk_thread_pages:
  assumes "np \<noteq> m" and "lmain (lprocs s np) = Some m" and "lsz (lprocs s np) = lsz (lprocs s m)" and "\<not> thread_over m s"
  shows "lk s (thread_pages m np start arg s)"
proof (unfold lk_def, intro allI impI)
  fix x t assume e: "thread_pages m np start arg s = Ok (x, t)" and l: "limit_ok s"
  let ?sz = "lsz (lprocs s m)" and ?lim = "llimit (lprocs s m)"
  obtain z v where a: "allocuvm (lpgdir (lprocs s np)) ?sz (?sz + 2 * PGSIZE) s = Ok (z, v)"
    using e assms(3) by (auto simp: thread_pages_def kbind_eq_Ok_iff)
  have pr: "lprocs v = lprocs s" using a mm_allocuvm more_procs unfolding mm_def by blast
  have lv: "limit_ok v" using l limit_same same_size_procs pr by blast
  let ?w = "updl np (\<lambda>r. r\<lparr>lsz := z\<rparr>) v"
  have lw: "limit_ok ?w" using lv assms(1,2) by (intro limit_updl) (auto simp: pr Let_def)
  show "limit_ok t"
  proof (cases "z = 0")
    case True
    then show ?thesis using e assms(3) a lw by (simp add: thread_pages_def Let_def)
  next
    case nz: False
    obtain y where c: "clearpteu (lpgdir (lprocs s np)) (z - 2 * PGSIZE) ?w = Ok y"
      using e assms(3) a nz pr by (auto simp: thread_pages_def Let_def kbind_eq_Ok_iff)
    have py: "lprocs y = lprocs ?w" using c mm_clearpteu more_procs unfolding mu_def by blast
    let ?u = "updl m (\<lambda>r. r\<lparr>lsz := z\<rparr>) y"
    have "lmain (lprocs s m) = Some m \<longrightarrow> ?lim = 0 \<or> ?sz \<le> word_of_int ?lim" using l by (simp add: limit_ok_def Let_def)
    moreover have "z = ?sz \<or> z = ?sz + 2 * PGSIZE" using allocuvm_size [OF a] nz by auto
    ultimately have "limit_ok ?u"
      using limit_same [OF same_size_procs [OF py] lw] assms(1,4)
      by (intro limit_updl) (auto simp: thread_over_def py pr Let_def not_less)
    moreover have "lk ?u (thread_args np start arg ?u)" by (rule lk_thread_args)
    ultimately show ?thesis
      using e assms(1,3) a nz c pr py by (auto simp: thread_pages_def Let_def lk_def)
  qed
qed

lemma lk_thread_start: "lk s (thread_start F th cp m n s)"
  unfolding thread_start_def Let_def by (auto intro!: lk_intros ss lu_dup_files)

section \<open>Reachable states\<close>

text \<open>
  The calls of \<open>proc.c\<close>, with any arguments, by whatever process is on the CPU, with memory management and file
  system code in between (\<open>c_other\<close>).  \<open>exec\<close> and \<open>exec2\<close> are not among them: they give a process a new size
  without a test of the limit.
\<close>

inductive lwp_call :: "'f fsops \<Rightarrow> 'f lwp \<Rightarrow> 'f lwp \<Rightarrow> bool" for F and s where
  c_fork: "fork_lwp F s = Ok (r, t) \<Longrightarrow> lwp_call F s t"
| c_grow: "growproc_lwp n s = Ok (r, t) \<Longrightarrow> lwp_call F s t"
| c_limit: "setmemorylimit k limit s = Ok (r, t) \<Longrightarrow> lwp_call F s t"
| c_start: "thread_start F th cp m np s = Ok (r, t) \<Longrightarrow> lwp_call F s t"
| c_join: "thread_join th rp s = Ok q \<Longrightarrow> lwp_call F s (run_state q)"
| c_thread_exit: "thread_exit F v s = Ok t \<Longrightarrow> lwp_call F s t"
| c_exit: "exit_lwp F s = Ok t \<Longrightarrow> lwp_call F s t"
| c_wait: "wait_lwp s = Ok q \<Longrightarrow> lwp_call F s (run_state q)"
| c_kill: "kill_lwp k s = Ok (r, t) \<Longrightarrow> lwp_call F s t"
| c_yield: "yield_lwp s = Ok t \<Longrightarrow> lwp_call F s t"
| c_sleep: "sleep_lwp kn ch l s = Ok t \<Longrightarrow> lwp_call F s t"
| c_wakeup: "wakeup_lwp ch s = Ok t \<Longrightarrow> lwp_call F s t"
| c_sched: "scheduler_start s = Ok (p, t) \<Longrightarrow> lwp_call F s t"
| c_next: "scheduler_next k' s = Ok (p, t) \<Longrightarrow> lwp_call F s t"
| c_resume: "resume_lwp F q' s = Ok r' \<Longrightarrow> lwp_call F s (run_state r')"
| c_other: "lprocs t = lprocs s \<Longrightarrow> lwp_call F s t"

text \<open>
  \<open>thread_create\<close> holds no lock and can be preempted anywhere, so its parts are steps of their own, between which
  other processes run: the new entry, the test of the limit, the stack with the new size, and the rest
  (\<open>c_start\<close>).  \<open>T\<close> are the calls under way: the new entry, the main thread, and whether the test has
  been passed.  The restriction is \<open>undisturbed\<close>: no step changes the size or the limit of the two entries
  of a call under way, as a \<open>setmemorylimit\<close>, \<open>growproc\<close> or second \<open>thread_create\<close> for the same process would.
  The test and the update race with these in the code, and the limit is then lost.  The entry of the main thread
  must also be in use when the call begins, and not reaped.
\<close>

definition undisturbed :: "(nat \<times> nat \<times> bool) set \<Rightarrow> 'f lwp \<Rightarrow> 'f lwp \<Rightarrow> bool" where
  "undisturbed T s t \<longleftrightarrow> (\<forall>(np, m, b)\<in>T. \<forall>p\<in>{np, m}. lsz (lprocs t p) = lsz (lprocs s p)
     \<and> llimit (lprocs t p) = llimit (lprocs s p) \<and> lmain (lprocs t p) = lmain (lprocs s p))"

inductive lwp_reach :: "'f fsops \<Rightarrow> 'f lwp \<Rightarrow> 'f lwp \<Rightarrow> (nat \<times> nat \<times> bool) set \<Rightarrow> bool" for F and s0 where
  l_begin: "lwp_reach F s0 s0 {}"
| l_call: "lwp_reach F s0 s T \<Longrightarrow> lwp_call F s t \<Longrightarrow> undisturbed T s t \<Longrightarrow> lwp_reach F s0 t T"
| l_entry: "lwp_reach F s0 s T \<Longrightarrow> lmain (lprocs s cp) = Some m \<Longrightarrow> lstate (lprocs s m) \<noteq> UNUSED \<Longrightarrow>
    allocproc_lwp s = Ok (Some np, u) \<Longrightarrow> t = thread_entry cp m np u \<Longrightarrow> undisturbed T s t \<Longrightarrow>
    lwp_reach F s0 t (insert (np, m, False) T)"
| l_full: "lwp_reach F s0 s T \<Longrightarrow> allocproc_lwp s = Ok (None, t) \<Longrightarrow> undisturbed T s t \<Longrightarrow> lwp_reach F s0 t T"
| l_over: "lwp_reach F s0 s T \<Longrightarrow> (np, m, False) \<in> T \<Longrightarrow> thread_over m s \<Longrightarrow> lwp_reach F s0 s (T - {(np, m, False)})"
| l_under: "lwp_reach F s0 s T \<Longrightarrow> (np, m, False) \<in> T \<Longrightarrow> \<not> thread_over m s \<Longrightarrow>
    lwp_reach F s0 s (insert (np, m, True) (T - {(np, m, False)}))"
| l_pages: "lwp_reach F s0 s T \<Longrightarrow> (np, m, True) \<in> T \<Longrightarrow> thread_pages m np start arg s = Ok (r, t) \<Longrightarrow>
    undisturbed (T - {(np, m, True)}) s t \<Longrightarrow> lwp_reach F s0 t (T - {(np, m, True)})"

definition under_way :: "'f lwp \<Rightarrow> (nat \<times> nat \<times> bool) set \<Rightarrow> bool" where
  "under_way s T \<longleftrightarrow> (\<forall>(np, m, b)\<in>T. np \<noteq> m \<and> lmain (lprocs s np) = Some m \<and> lsz (lprocs s np) = lsz (lprocs s m)
     \<and> (b \<longrightarrow> \<not> thread_over m s))"

lemma under_way_keep: "under_way s T \<Longrightarrow> undisturbed T s t \<Longrightarrow> under_way t T"
  unfolding under_way_def undisturbed_def thread_over_def by fastforce

lemma under_way_mono: "under_way s T \<Longrightarrow> U \<subseteq> T \<Longrightarrow> under_way s U"
  unfolding under_way_def by blast

lemma under_way_insert: "np \<noteq> m \<Longrightarrow> lmain (lprocs s np) = Some m \<Longrightarrow> lsz (lprocs s np) = lsz (lprocs s m)
    \<Longrightarrow> (b \<Longrightarrow> \<not> thread_over m s) \<Longrightarrow> under_way s T \<Longrightarrow> under_way s (insert (np, m, b) T)"
  unfolding under_way_def by blast

lemma under_wayD:
  assumes "under_way s T" and "(np, m, b) \<in> T"
  shows "np \<noteq> m" "lmain (lprocs s np) = Some m" "lsz (lprocs s np) = lsz (lprocs s m)" "b \<Longrightarrow> \<not> thread_over m s"
  using assms unfolding under_way_def by blast+

lemmas limit_lk = lk_fork lk_growproc lk_setmemorylimit lk_kill lk_scheduler lk_thread_start lk_allocproc

lemmas limit_lu = lu_thread_exit lu_exit lu_yield lu_sleep lu_wakeup

lemmas limit_lr = lr_thread_join lr_wait lr_resume

lemmas limit_steps = limit_lk [unfolded lk_def, rule_format] limit_lu [unfolded lu_def, rule_format] limit_lr [unfolded lr_def, rule_format]

lemma lwp_call_limit: "lwp_call F s t \<Longrightarrow> limit_ok s \<Longrightarrow> limit_ok t"
proof (induction rule: lwp_call.induct)
  case (c_other t)
  then show ?case using limit_same same_size_procs by blast
qed (blast dest: limit_steps)+

lemma lwp_reach_limit: "lwp_reach F s0 s T \<Longrightarrow> limit_ok s0 \<Longrightarrow> limit_ok s \<and> under_way s T"
proof (induction rule: lwp_reach.induct)
  case l_begin
  then show ?case by (simp add: under_way_def)
next
  case (l_call s T t)
  then show ?case using lwp_call_limit under_way_keep by blast
next
  case (l_entry s T cp m np u t)
  have n: "np \<noteq> m" using allocproc_unused [OF l_entry.hyps(4)] l_entry.hyps(3) by auto
  have u: "limit_ok u" using lk_allocproc [of s] l_entry by (simp add: lk_def)
  note e = thread_entry_limit [OF n u, of cp]
  have "under_way t T" using l_entry under_way_keep by blast
  then show ?case using e n under_way_insert [of np m t False T] by (simp add: l_entry.hyps(5))
next
  case (l_full s T t)
  then have "limit_ok t" using lk_allocproc [of s] by (simp add: lk_def)
  then show ?case using l_full under_way_keep by blast
next
  case (l_over s T np m)
  then show ?case using under_way_mono by blast
next
  case (l_under s T np m)
  then have w: "under_way s T" by blast
  have "under_way s (insert (np, m, True) (T - {(np, m, False)}))"
    using under_wayD [OF w l_under.hyps(2)] l_under.hyps(3) under_way_mono [OF w, of "T - {(np, m, False)}"]
    by (intro under_way_insert) blast+
  then show ?case using l_under by blast
next
  case (l_pages s T np m start arg r t)
  then have w: "under_way s T" and l: "limit_ok s" by blast+
  note d = under_wayD [OF w l_pages.hyps(2)]
  have "limit_ok t" using lk_thread_pages [OF d(1-3) d(4) [OF TrueI]] l_pages.hyps(3) l by (simp add: lk_def)
  moreover have "under_way t (T - {(np, m, True)})"
    using under_way_keep [OF under_way_mono [OF w] l_pages.hyps(4)] by blast
  ultimately show ?case by blast
qed

end
