(* ===== verification/Lwp_Props.thy ===== *)
theory Lwp_Props
  imports Lwp_Inv
begin

text \<open>
  Properties of the processes and threads of project 2, and the concrete kernel they are tried on.
\<close>

section \<open>A concrete kernel\<close>

text \<open>
  Process 0 is \<open>init\<close>; process 1, with pid 2, runs, has a memory limit of five pages and a second thread in
  the entry 2; the other entries are unused.  Pages are handed out from one free page.
\<close>

definition no_proc :: lproc where
  "no_proc = \<lparr>lsz = 0, lpgdir = 0, lkstack = 0, lstate = UNUSED, lpid = 0, lparent = None, ltf = 0, lcontext = 0, lchan = NoChan,
     lkilled = False, lofile = (\<lambda>_. 0), lcwd = 0, lname = [], llimit = 0, lstksz = 0, lmain = None, ltid = 0, lretval = 0,
     lkont = LForkret, lkint = False\<rparr>"

definition demo_procs :: "nat \<Rightarrow> lproc" where
  "demo_procs = (\<lambda>_. no_proc)
     (0 := no_proc\<lparr>lsz := 4096, lpgdir := 0x80500000, lkstack := 0x80501000, lstate := SLEEPING, lpid := 1, lchan := ChProc 0\<rparr>,
      1 := no_proc\<lparr>lsz := 16384, lpgdir := 0x80510000, lkstack := 0x80511000, lstate := RUNNING, lpid := 2, lparent := Some 0,
             llimit := 20480, lmain := Some 1\<rparr>,
      2 := no_proc\<lparr>lsz := 16384, lpgdir := 0x80510000, lkstack := 0x80521000, lstate := RUNNABLE, lpid := 2, lparent := Some 0,
             lmain := Some 1, ltid := 1\<rparr>)"

definition demo_lwp :: "unit lwp" where
  "demo_lwp = \<lparr>cpu = \<lparr>cpuid = 0, ncli = 0, intena = False, ifl = True, cproc = Some 1\<rparr>, ram = (\<lambda>_. 0), kmem_lock = initlock,
     kmem_use_lock = True, kmem_freelist = 0x80400000, kend = 0x801154A8, llocks = (\<lambda>_. initlock), lprocs = demo_procs,
     linit = Some 0, lnextpid = 3, lnexttid = 2, lticks = 0, lfirst = False, ldata = 0x80108000, ltrapret = 0, lforkret = 0, lfs = ()\<rparr>"

lemma demo_lwp_simps [simp]:
  "lprocs demo_lwp = demo_procs" "llocks demo_lwp = (\<lambda>_. initlock)" "cpu demo_lwp = \<lparr>cpuid = 0, ncli = 0, intena = False, ifl = True, cproc = Some 1\<rparr>"
  "linit demo_lwp = Some 0" "ram demo_lwp = (\<lambda>_. 0)" "kmem_freelist demo_lwp = 0x80400000" "kend demo_lwp = 0x801154A8"
  "kmem_lock demo_lwp = initlock"
  by (simp_all add: demo_lwp_def)

lemma demo_runs: "runs 1 demo_lwp"
  by (simp add: runs_def kmem_ready_def cpu_wf_def)

lemma demo_limit: "limit_ok demo_lwp"
  by (simp add: limit_ok_def demo_procs_def no_proc_def Let_def)

section \<open>The scheduler is fair\<close>

text \<open>
  One dispatch while the process \<open>p\<close> waits: the scheduler of a CPU, to which the process \<open>q\<close> has just switched back,
  goes on with \<open>scheduler_next\<close> and switches to \<open>q'\<close>, in this round or, after the end of the table, in the next one
  (\<open>scheduler_start\<close>).  Between the rounds and between the dispatches the kernel may change anything else.
\<close>

inductive turn :: "nat \<Rightarrow> nat \<Rightarrow> 'f lwp \<Rightarrow> nat \<Rightarrow> 'f lwp \<Rightarrow> bool" for p q s q' t where
  turn_here: "lstate (lprocs s p) = RUNNABLE \<Longrightarrow> scheduler_next q s = Ok (Some q', t) \<Longrightarrow> turn p q s q' t"
| turn_round: "lstate (lprocs s p) = RUNNABLE \<Longrightarrow> scheduler_next q s = Ok (None, u) \<Longrightarrow> lstate (lprocs v p) = RUNNABLE \<Longrightarrow>
    scheduler_start v = Ok (Some q', t) \<Longrightarrow> turn p q s q' t"

definition distance :: "nat \<Rightarrow> nat \<Rightarrow> nat" where
  "distance p k = (if k \<le> p then p - k else NPROC - k + p)"

lemma scheduler_pick:
  assumes "scheduler_from k s = Ok (Some q, t)"
  shows "k \<le> q" "q < NPROC" "\<And>j. k \<le> j \<Longrightarrow> j < q \<Longrightarrow> lstate (lprocs s j) \<noteq> RUNNABLE"
proof -
  have f: "find (\<lambda>p. lstate (lprocs s p) = RUNNABLE) [k..<NPROC] = Some q"
    using assms by (auto simp: scheduler_from_def kbind_eq_Ok_iff split: option.splits)
  then obtain i where i: "i < NPROC - k" "q = k + i" "\<forall>j<i. lstate (lprocs s (k + j)) \<noteq> RUNNABLE"
    by (auto simp: find_Some_iff)
  then show "k \<le> q" "q < NPROC" by simp_all
  show "lstate (lprocs s j) \<noteq> RUNNABLE" if "k \<le> j" "j < q" for j
  proof -
    have "j - k < i" "k + (j - k) = j" using that i(2) by simp_all
    then show ?thesis using i(3) by metis
  qed
qed

lemma scheduler_none: "scheduler_from k s = Ok (None, t) \<Longrightarrow> k \<le> j \<Longrightarrow> j < NPROC \<Longrightarrow> lstate (lprocs s j) \<noteq> RUNNABLE"
  by (auto simp: scheduler_from_def kbind_eq_Ok_iff find_None_iff split: option.splits)

lemma scheduler_next_from: "scheduler_next q s = scheduler_from (Suc q) (s\<lparr>cpu := (cpu s)\<lparr>cproc := None\<rparr>\<rparr>)"
  by (simp add: scheduler_next_def)

lemma turn_closer:
  assumes t: "turn p q s q' t" and p: "p < NPROC" and ne: "q' \<noteq> p"
  shows "distance p (Suc q') < distance p (Suc q)"
  using t
proof cases
  case turn_here
  note f = scheduler_pick [OF turn_here(2) [unfolded scheduler_next_from], simplified]
  have "q' < p" if "Suc q \<le> p" using f(3) [of p] turn_here(1) that ne by (meson linorder_neqE_nat Suc_le_eq)
  then show ?thesis using f(1,2) p ne by (auto simp: distance_def)
next
  case (turn_round u v)
  have k: "\<not> Suc q \<le> p" using scheduler_none [OF turn_round(2) [unfolded scheduler_next_from], of p] turn_round(1) p by auto
  obtain w where w: "scheduler_from 0 w = Ok (Some q', t)" "lprocs w = lprocs v"
    using turn_round(4) by (auto simp: scheduler_start_def kbind_eq_Ok_iff dest: acquire_procs)
  note f = scheduler_pick [OF w(1)]
  have "q' < p" using f(3) [of p] turn_round(3) w(2) ne by (metis le0 linorder_neqE_nat)
  then show ?thesis using k by (auto simp: distance_def)
qed

text \<open>
  C25.  The scheduler is fair: while a runnable process \<open>p\<close> waits, no process is dispatched twice by the scheduler of a CPU.  In a
  sequence of \<open>n\<close> dispatches of other processes, \<open>q 1\<close>, ..., \<open>q n\<close>, after the process \<open>q 0\<close> that ran before, with
  \<open>p\<close> runnable at each of them and whatever else happens in between, all of \<open>q 0\<close>, ..., \<open>q n\<close> are different, and \<open>n\<close> is below the
  size of the table; and no round of the scheduler ends without a dispatch while \<open>p\<close> is runnable.
\<close>

theorem scheduler_fair:
  assumes "p < NPROC" and "\<And>i. i < n \<Longrightarrow> turn p (q i) (s i :: 'f lwp) (q (Suc i)) (t i) \<and> q (Suc i) \<noteq> p"
  shows "inj_on q {..n} \<and> n < NPROC \<and> (\<forall>u v. lstate (lprocs (u :: 'f lwp) p) = RUNNABLE \<longrightarrow> scheduler_start u \<noteq> Ok (None, v))"
proof -
  let ?d = "\<lambda>i. distance p (Suc (q i))"
  have step: "?d (Suc i) < ?d i" if "i < n" for i using turn_closer assms(1) assms(2) [OF that] by blast
  have less: "?d j + (j - i) \<le> ?d i" if "i \<le> j" "j \<le> n" for i j
    using that
  proof (induction j)
    case (Suc j)
    then show ?case using step [of j] by (cases "i = Suc j") (fastforce simp: Suc_diff_le)+
  qed simp
  have "inj_on q {..n}"
  proof (rule linorder_inj_onI)
    fix i j assume "i < j" "i \<in> {..n}" "j \<in> {..n}"
    then have "?d j < ?d i" using less [of i j] by simp
    then show "q i \<noteq> q j" by auto
  qed auto
  moreover have "n < NPROC"
  proof -
    have "?d 0 < NPROC" using assms(1) by (auto simp: distance_def)
    then show ?thesis using less [of 0 n] by simp
  qed
  moreover have "scheduler_start u \<noteq> Ok (None, v)" if "lstate (lprocs u p) = RUNNABLE" for u v :: "'f lwp"
  proof
    assume "scheduler_start u = Ok (None, v)"
    then obtain w where w: "scheduler_from 0 w = Ok (None, v)" "lprocs w = lprocs u"
      by (auto simp: scheduler_start_def kbind_eq_Ok_iff dest: acquire_procs)
    then show False using scheduler_none [OF w(1) le0 assms(1)] that by simp
  qed
  ultimately show ?thesis by blast
qed

lemma demo_pick: "\<exists>t. scheduler_next 1 (demo_lwp\<lparr>lprocs := demo_procs(5 := demo_procs 2)\<rparr>) = Ok (Some 2, t)"
proof -
  define s where "s = demo_lwp\<lparr>lprocs := demo_procs(5 := demo_procs 2), cpu := (cpu demo_lwp)\<lparr>cproc := None\<rparr>\<rparr>"
  have "find (\<lambda>p. lstate (lprocs s p) = RUNNABLE) [Suc 1..<NPROC] = Some 2"
    by (simp add: s_def NPROC_def upt_conv_Cons demo_procs_def no_proc_def)
  moreover have "\<exists>t. switchuvm_lwp (Some 2) (s\<lparr>cpu := (cpu s)\<lparr>cproc := Some 2\<rparr>\<rparr>) = Ok t"
    using switchuvm_run [of "s\<lparr>cpu := (cpu s)\<lparr>cproc := Some 2\<rparr>\<rparr>" 2]
    by (simp add: s_def cpu_wf_def demo_procs_def no_proc_def)
  ultimately have "\<exists>t. scheduler_from (Suc 1) s = Ok (Some 2, t)" by (auto simp: scheduler_from_def)
  then show ?thesis by (simp add: scheduler_next_def s_def)
qed

lemma scheduler_fair_witness:
  "\<exists>t. turn 5 1 (demo_lwp\<lparr>lprocs := demo_procs(5 := demo_procs 2)\<rparr>) 2 t \<and> (1::nat) < NPROC"
proof -
  let ?s = "demo_lwp\<lparr>lprocs := demo_procs(5 := demo_procs 2)\<rparr>"
  obtain t where "scheduler_next 1 ?s = Ok (Some 2, t)" using demo_pick by blast
  then have u: "turn 5 1 ?s 2 t" by (rule turn_here [rotated]) (simp add: demo_procs_def no_proc_def)
  then have "(1::nat) < NPROC"
    using scheduler_fair [of 5 1 "\<lambda>i. if i = 0 then 1 else 2" "\<lambda>_. ?s" "\<lambda>_. t"] by (simp add: NPROC_def)
  then show ?thesis using u by blast
qed

section \<open>The memory limit\<close>

text \<open>
  C24.  Whatever processes call from \<open>proc.c\<close>, a process with a memory limit is never larger than the limit,
  with the exceptions that \<open>lwp_reach\<close> makes.  \<open>thread_create\<close>, which holds no lock, is interleaved
  with the other calls at the points before and after its test of the limit, but while it is under way no other call changes
  the size or the limit of the same process (the code allows that, and the limit can then be exceeded: the test is not
  repeated when the size is stored); the entry of the main thread has not been reaped when it begins; and \<open>exec\<close> and
  \<open>exec2\<close>, which do not test the limit, are not called.
\<close>

theorem memory_limit_kept:
  assumes "lwp_reach F s0 s T" and "limit_ok s0" and "lmain (lprocs s p) = Some p" and "llimit (lprocs s p) \<noteq> 0"
  shows "lsz (lprocs s p) \<le> word_of_int (llimit (lprocs s p))"
  using lwp_reach_limit [OF assms(1,2)] assms(3,4) unfolding limit_ok_def Let_def by blast

text \<open>What \<open>growproc\<close> does on the CPU of a process \<open>p\<close> with the main thread \<open>m\<close>.\<close>

lemma growproc_run:
  assumes "runs p s" and "lmain (lprocs s p) = Some m"
  shows "growproc_lwp n s =
    (let u = enter (touched s); sz = lsz (lprocs s m); lim = llimit (lprocs s m) in
     if lim \<noteq> 0 \<and> word_of_int lim < sz + word_of_int n then Ok (-1, u)
     else kbind (resize n (lpgdir (lprocs s p)) sz u) (\<lambda>(sz, s).
       if n \<noteq> 0 \<and> sz = 0 then Ok (-1, s)
       else kbind (release_l LkPtable (updl m (\<lambda>r. r\<lparr>lsz := sz\<rparr>) s)) (\<lambda>s.
            kbind (switchuvm_lwp (Some p) s) (\<lambda>s. Ok (0, s)))))"
proof -
  have r: "runs p (touched s)" using assms(1) by simp
  show ?thesis
    unfolding growproc_lwp_def with_lwp_run [OF disjI1 [OF assms(1)]] acquire_enter [OF r] kbind_Ok Let_def touched_simps enter_simps
      assms(2) option.case
    by (rule refl)
qed

lemma resize_inside:
  assumes "inside p s" and "resize n dir sz s = Ok (z, t)"
  shows "inside p t" "lprocs t = lprocs s"
proof -
  have "kp s (resize n dir sz s)" by (simp add: resize_def kp_allocuvm kp_deallocuvm kp_ret)
  then have f: "kframe s t" by (rule kpD [OF _ insideD(1) [OF assms(1)] assms(2)])
  show "inside p t" "lprocs t = lprocs s" using kframe_lwp(1,11) [OF f] assms(1) by simp_all
qed

text \<open>
  The size that \<open>growproc\<close> makes of \<open>sz\<close>: \<open>sz + n\<close>, or \<open>sz\<close> where the sum wraps to the wrong side of \<open>sz\<close>, as
  \<open>allocuvm\<close> (for a growth) and \<open>deallocuvm\<close> (for a reduction) return it.
\<close>

definition new_size :: "int \<Rightarrow> u32 \<Rightarrow> u32" where
  "new_size n sz = (if 0 < n then (if sz + word_of_int n < sz then sz else sz + word_of_int n)
     else if n < 0 then (if sz \<le> sz + word_of_int n then sz else sz + word_of_int n) else sz)"

lemma resize_new_size:
  assumes "resize n dir sz s = Ok (r, t)" and "n = 0 \<or> r \<noteq> 0"
  shows "r = new_size n sz"
proof -
  have a: "r = (if new < sz then sz else new)" if "allocuvm dir sz new s = Ok (r, t)" "r \<noteq> 0" for new
  proof (cases "new < sz")
    case True
    then show ?thesis using that by (auto simp: allocuvm_def split: if_splits)
  next
    case False
    then show ?thesis using allocuvm_size [OF that(1)] that(2) by auto
  qed
  have d: "r = (if sz \<le> new then sz else new)" if "deallocuvm dir sz new s = Ok (r, t)" for new
    using that by (auto simp: deallocuvm_def kbind_eq_Ok_iff split: if_splits)
  show ?thesis
    using assms a [of "sz + word_of_int n"] d [of "sz + word_of_int n"] by (auto simp: resize_def new_size_def split: if_splits)
qed

text \<open>
  C26.  The outcomes of \<open>growproc\<close>.  It fails when the new size is above the memory limit of the process.  When it
  succeeds, the pages are as \<open>allocuvm\<close> or \<open>deallocuvm\<close> on the page table of the caller left them, the main thread has exactly the
  new size, nothing else of any entry has changed, and \<open>ptable.lock\<close> is free.  Otherwise it fails because of the
  limit or because the new size is 0 or could not be allocated; no size has changed then and the lock is still
  held, so that the next call on this CPU that takes it panics.
\<close>

theorem growproc_outcomes:
  assumes "runs p s" and "lmain (lprocs s p) = Some m"
  shows "(llimit (lprocs s m) \<noteq> 0 \<and> word_of_int (llimit (lprocs s m)) < lsz (lprocs s m) + word_of_int n
       \<longrightarrow> (\<exists>t. growproc_lwp n s = Ok (-1, t)))
    \<and> (\<forall>r t. growproc_lwp n s = Ok (r, t) \<longrightarrow>
        (if r = 0 then runs p t \<and> lprocs t = (lprocs s)(m := (lprocs s m)\<lparr>lsz := new_size n (lsz (lprocs s m))\<rparr>)
           \<and> (\<exists>v. resize n (lpgdir (lprocs s p)) (lsz (lprocs s m)) (enter (touched s)) = Ok (new_size n (lsz (lprocs s m)), v)
                \<and> ram t = ram v \<and> kmem_freelist t = kmem_freelist v)
         else r = -1 \<and> lprocs t = lprocs s \<and> acquire_l LkPtable t = Panic ''acquire''
           \<and> (llimit (lprocs s m) \<noteq> 0 \<and> word_of_int (llimit (lprocs s m)) < lsz (lprocs s m) + word_of_int n
              \<or> (n \<noteq> 0 \<and> resize n (lpgdir (lprocs s p)) (lsz (lprocs s m)) (enter (touched s)) = Ok (0, t)))))"
proof -
  let ?u = "enter (touched s)" and ?sz = "lsz (lprocs s m)"
  let ?over = "llimit (lprocs s m) \<noteq> 0 \<and> word_of_int (llimit (lprocs s m)) < ?sz + word_of_int n"
  have i: "inside p ?u" using assms(1) by (intro inside_enter) simp
  have "if r = 0 then runs p t \<and> lprocs t = (lprocs s)(m := (lprocs s m)\<lparr>lsz := new_size n ?sz\<rparr>)
        \<and> (\<exists>v. resize n (lpgdir (lprocs s p)) ?sz ?u = Ok (new_size n ?sz, v) \<and> ram t = ram v \<and> kmem_freelist t = kmem_freelist v)
      else r = -1 \<and> lprocs t = lprocs s \<and> acquire_l LkPtable t = Panic ''acquire''
        \<and> (?over \<or> (n \<noteq> 0 \<and> resize n (lpgdir (lprocs s p)) ?sz ?u = Ok (0, t)))"
    if e: "growproc_lwp n s = Ok (r, t)" for r t
  proof (cases ?over)
    case True
    then have "r = -1" "t = ?u" using e by (simp_all add: growproc_run [OF assms])
    then show ?thesis using acquire_inside [OF i] True by simp
  next
    case False
    then obtain z v where z: "resize n (lpgdir (lprocs s p)) ?sz ?u = Ok (z, v)"
        "(if n \<noteq> 0 \<and> z = 0 then Ok (-1, v) else kbind (release_l LkPtable (updl m (\<lambda>r. r\<lparr>lsz := z\<rparr>) v)) (\<lambda>s.
            kbind (switchuvm_lwp (Some p) s) (\<lambda>s. Ok (0, s)))) = Ok (r, t)"
      using e by (auto simp: growproc_run [OF assms] Let_def kbind_eq_Ok_iff)
    note v = resize_inside [OF i z(1)]
    show ?thesis
    proof (cases "n \<noteq> 0 \<and> z = 0")
      case True
      then have "r = -1" "t = v" using z(2) by simp_all
      then show ?thesis using z(1) v acquire_inside [OF v(1)] True by simp
    next
      case False
      let ?w = "leave (updl m (\<lambda>r. r\<lparr>lsz := z\<rparr>) v)"
      have n: "z = new_size n ?sz" using resize_new_size [OF z(1)] False by blast
      have w: "runs p ?w" by (rule runs_leave) (simp add: v(1))
      have rt: "r = 0 \<and> t = touched ?w"
        using z(2) False w release_leave [of p "updl m (\<lambda>r. r\<lparr>lsz := z\<rparr>) v"] v(1)
        by (auto simp: switchuvm_run runs_def kmem_ready_def split: if_splits)
      have "lprocs t = (lprocs s)(m := (lprocs s m)\<lparr>lsz := z\<rparr>)" using rt v(2) by simp
      moreover have "runs p t" using rt w by simp
      moreover have "ram t = ram v" "kmem_freelist t = kmem_freelist v" using rt by simp_all
      ultimately show ?thesis using z(1) rt unfolding n by auto
    qed
  qed
  moreover have "\<exists>t. growproc_lwp n s = Ok (-1, t)" if ?over
    using that by (simp add: growproc_run [OF assms])
  ultimately show ?thesis by blast
qed

lemma growproc_outcomes_witness:
  "\<exists>t. growproc_lwp 8192 demo_lwp = Ok (-1, t) \<and> acquire_l LkPtable t = Panic ''acquire''"
proof -
  have "lmain (lprocs demo_lwp 1) = Some 1" "llimit (demo_procs 1) = 20480" "lsz (demo_procs 1) = 16384" by (simp_all add: demo_procs_def)
  then show ?thesis using growproc_outcomes [OF demo_runs, of 1 8192] by auto
qed

lemma memory_limit_kept_witness:
  "\<exists>t. setmemorylimit 2 18000 demo_lwp = Ok (0, t) \<and> lsz (lprocs t 1) \<le> 18000"
proof -
  have f: "find (\<lambda>p. lpid (demo_procs p) = 2) [0..<NPROC] = Some 1"
    by (simp add: NPROC_def upt_conv_Cons demo_procs_def no_proc_def)
  have i: "inside 1 (updl 1 (\<lambda>r. r\<lparr>llimit := 18000\<rparr>) (enter demo_lwp))" using inside_enter [OF demo_runs] by simp
  have s: "setmemorylimit 2 18000 demo_lwp = Ok (0, leave (updl 1 (\<lambda>r. r\<lparr>llimit := 18000\<rparr>) (enter demo_lwp)))"
    using f release_leave [OF i] by (simp add: setmemorylimit_def acquire_enter [OF demo_runs] demo_procs_def no_proc_def)
  show ?thesis
    using s memory_limit_kept [OF l_call [OF l_begin c_limit [OF s]] demo_limit, of 1] by (auto simp: demo_procs_def undisturbed_def)
qed

section \<open>The end of a process\<close>

text \<open>The other threads of the process of \<open>cp\<close>, in table order.\<close>

definition siblings :: "'f lwp \<Rightarrow> nat \<Rightarrow> nat list" where
  "siblings s cp = filter (\<lambda>q. lpid (lprocs s q) = lpid (lprocs s cp) \<and> q \<noteq> cp) [0..<NPROC]"

text \<open>
  The kernel stacks of the threads are pages that are in use, each the stack of one thread only, and the
  address spaces end below the kernel.
\<close>

definition stacks_ok :: "'f lwp \<Rightarrow> nat list \<Rightarrow> u32 list \<Rightarrow> bool" where
  "stacks_ok s qs xs \<longleftrightarrow> kalloc_inv s xs \<and> distinct (map (\<lambda>q. lkstack (lprocs s q)) qs)
     \<and> (\<forall>q\<in>set qs. page_ok s (lkstack (lprocs s q)) \<and> lkstack (lprocs s q) \<notin> set xs \<and> lsz (lprocs s q) < KERNBASE)"

lemma kalloc_inv_updl [simp]: "kalloc_inv (updl p f s) xs = kalloc_inv s xs" "page_ok (updl p f s) = page_ok s"
  by (simp_all add: kalloc_inv_def page_ok_def fun_eq_iff)

lemma kalloc_inv_lwp: "kmem_ready t \<Longrightarrow> ram t = ram s \<Longrightarrow> kmem_freelist t = kmem_freelist s \<Longrightarrow> kend t = kend s \<Longrightarrow>
    kalloc_inv s xs \<Longrightarrow> kalloc_inv t xs" for s t :: "'f lwp"
  by (simp add: kalloc_inv_def page_ok_def)

lemma below_kernel: "sz < KERNBASE \<Longrightarrow> sz \<le> sz + 2 * PGSIZE"
  by (simp add: KERNBASE_def PGSIZE_def word_le_nat_alt word_less_nat_alt unat_word_ariths)

lemma cleanthread_run:
  assumes "stacks_ok s (q # qs) xs" and "inside cp s"
  shows "\<exists>t. cleanthread q (updl q (\<lambda>r. r\<lparr>lstate := ZOMBIE\<rparr>) s) = Ok t \<and> lprocs t = (lprocs s)(q := cleaned (lprocs s q))
    \<and> inside cp t \<and> kend t = kend s \<and> linit t = linit s \<and> kalloc_inv t (lkstack (lprocs s q) # xs)"
proof -
  let ?s = "updl q (\<lambda>r. r\<lparr>lstate := ZOMBIE\<rparr>) s" and ?k = "lkstack (lprocs s q)"
  have k: "kalloc_inv ?s xs" "page_ok ?s ?k" "?k \<notin> set xs" "lsz (lprocs s q) \<le> lsz (lprocs s q) + 2 * PGSIZE"
    using assms(1) below_kernel by (simp_all add: stacks_ok_def)
  obtain u where u: "kfree ?k ?s = Ok u" "kalloc_inv u (?k # xs)" "kend u = kend ?s" using kfree_inv [OF k(1-3)] by blast
  have f: "kframe ?s u" using kfree_kframe [OF _ u(1)] insideD(1) [OF assms(2)] by simp
  note g = kframe_lwp [OF f]
  let ?t = "updl q cleaned u"
  have "cleanthread q ?s = Ok ?t" using u(1) k(4) g(1) by (simp add: cleanthread_def deallocuvm_def)
  moreover have "lprocs ?t = (lprocs s)(q := cleaned (lprocs s q))" using g(1) by (simp add: cleaned_def)
  moreover have "inside cp ?t" using g(11) [of cp] assms(2) by simp
  ultimately show ?thesis using u(2) g(3,8) by auto
qed

lemma kill_threads_fold:
  assumes "inside cp s" and "stacks_ok s (filter P qs) xs" and "distinct qs" and "cp \<notin> set (filter P qs)"
    and "P = (\<lambda>q. lpid (lprocs s q) = lpid (lprocs s cp) \<and> q \<noteq> cp)"
  shows "\<exists>t. kfold (\<lambda>p s. if lpid (lprocs s p) = lpid (lprocs s cp) \<and> p \<noteq> cp
       then cleanthread p (updl p (\<lambda>r. r\<lparr>lstate := ZOMBIE\<rparr>) s) else Ok s) qs s = Ok t
    \<and> lprocs t = (\<lambda>q. if q \<in> set (filter P qs) then cleaned (lprocs s q) else lprocs s q)
    \<and> inside cp t \<and> linit t = linit s \<and> kalloc_inv t (rev (map (\<lambda>q. lkstack (lprocs s q)) (filter P qs)) @ xs)"
  using assms
proof (induction qs arbitrary: s xs P)
  case Nil
  then show ?case by (simp add: stacks_ok_def)
next
  case (Cons q qs)
  show ?case
  proof (cases "P q")
    case False
    have sk: "stacks_ok s (filter P qs) xs" "cp \<notin> set (filter P qs)" using Cons.prems(2,4) False by simp_all
    from Cons.IH [OF Cons.prems(1) sk(1) _ sk(2) Cons.prems(5)] show ?thesis
      using False Cons.prems(3,5) by auto
  next
    case True
    have st: "stacks_ok s (q # filter P qs) xs" using Cons.prems(2) True by simp
    obtain t where t: "cleanthread q (updl q (\<lambda>r. r\<lparr>lstate := ZOMBIE\<rparr>) s) = Ok t" "lprocs t = (lprocs s)(q := cleaned (lprocs s q))"
        "inside cp t" "kend t = kend s" "linit t = linit s" "kalloc_inv t (lkstack (lprocs s q) # xs)"
      using cleanthread_run [OF st Cons.prems(1)] by blast
    let ?P = "\<lambda>p. lpid (lprocs t p) = lpid (lprocs t cp) \<and> p \<noteq> cp"
    have nq: "q \<notin> set qs" "q \<noteq> cp" using Cons.prems(3,5) True by simp_all
    have f: "filter ?P qs = filter P qs" using nq Cons.prems(5) t(2) by (auto intro!: filter_cong)
    have k: "lkstack (lprocs t p) = lkstack (lprocs s p)" "lsz (lprocs t p) = lsz (lprocs s p)" if "p \<in> set qs" for p
      using that nq t(2) by auto
    have m: "map (\<lambda>q. lkstack (lprocs t q)) (filter P qs) = map (\<lambda>q. lkstack (lprocs s q)) (filter P qs)" using k by auto
    have "page_ok t = page_ok s" using t(4) by (simp add: page_ok_def fun_eq_iff)
    moreover have "lkstack (lprocs s p) \<noteq> lkstack (lprocs s q)" if "p \<in> set qs" "P p" for p
    proof -
      have "lkstack (lprocs s p) \<in> (\<lambda>q. lkstack (lprocs s q)) ` set (filter P qs)" using that by (intro imageI) simp
      moreover have "lkstack (lprocs s q) \<notin> (\<lambda>q. lkstack (lprocs s q)) ` set (filter P qs)" using st by (simp add: stacks_ok_def)
      ultimately show ?thesis by metis
    qed
    ultimately have "stacks_ok t (filter ?P qs) (lkstack (lprocs s q) # xs)"
      using st t(6) k unfolding stacks_ok_def f m by auto
    moreover have "cp \<notin> set (filter ?P qs)" by simp
    ultimately obtain u where u: "kfold (\<lambda>p s. if lpid (lprocs s p) = lpid (lprocs s cp) \<and> p \<noteq> cp
        then cleanthread p (updl p (\<lambda>r. r\<lparr>lstate := ZOMBIE\<rparr>) s) else Ok s) qs t = Ok u"
        "lprocs u = (\<lambda>q. if q \<in> set (filter ?P qs) then cleaned (lprocs t q) else lprocs t q)" "inside cp u" "linit u = linit t"
        "kalloc_inv u (rev (map (\<lambda>q. lkstack (lprocs t q)) (filter ?P qs)) @ lkstack (lprocs s q) # xs)"
      using Cons.IH [OF t(3), of ?P "lkstack (lprocs s q) # xs"] Cons.prems(3) by auto
    have "lprocs u = (\<lambda>p. if p \<in> set (filter P (q # qs)) then cleaned (lprocs s p) else lprocs s p)"
      using u(2) t(2) nq True unfolding f by (auto simp: fun_eq_iff)
    moreover have "kalloc_inv u (rev (map (\<lambda>q. lkstack (lprocs s q)) (filter P (q # qs))) @ xs)"
      using u(5) True unfolding f m by simp
    ultimately show ?thesis using u(1,3,4) t(1,5) True Cons.prems(5) nq(2) by auto
  qed
qed

lemma wakeup1_procs: "lprocs (wakeup1_lwp ch s) = (\<lambda>q. if q < NPROC then wake ch (lprocs s q) else lprocs s q)"
  "inside p (wakeup1_lwp ch s) = inside p s" "linit (wakeup1_lwp ch s) = linit s" "kalloc_inv (wakeup1_lwp ch s) xs = kalloc_inv s xs"
proof -
  have "lprocs (fold (\<lambda>p. updl p (wake ch)) qs s) = (\<lambda>q. if q \<in> set qs then wake ch (lprocs s q) else lprocs s q)" for qs
    by (induction qs arbitrary: s) (auto simp: fun_eq_iff wake_def)
  then show "lprocs (wakeup1_lwp ch s) = (\<lambda>q. if q < NPROC then wake ch (lprocs s q) else lprocs s q)" by (simp add: wakeup1_lwp_def)
  have "inside p (fold (\<lambda>p. updl p (wake ch)) qs s) = inside p s \<and> linit (fold (\<lambda>p. updl p (wake ch)) qs s) = linit s
      \<and> kalloc_inv (fold (\<lambda>p. updl p (wake ch)) qs s) xs = kalloc_inv s xs" for qs
    by (induction qs arbitrary: s) simp_all
  then show "inside p (wakeup1_lwp ch s) = inside p s" "linit (wakeup1_lwp ch s) = linit s" "kalloc_inv (wakeup1_lwp ch s) xs = kalloc_inv s xs"
    by (simp_all add: wakeup1_lwp_def)
qed

text \<open>
  What the reparenting loop does to an entry: the parent \<open>cp\<close> is replaced by \<open>init\<close>, which may be woken;
  nothing else changes.
\<close>

definition adopted :: "nat \<Rightarrow> nat option \<Rightarrow> bool \<Rightarrow> lproc \<Rightarrow> lproc \<Rightarrow> bool" where
  "adopted cp i done r r' \<longleftrightarrow>
     r' = r\<lparr>lparent := (if done \<and> lparent r = Some cp then i else lparent r), lstate := lstate r'\<rparr>
     \<and> (lstate r' = lstate r \<or> lstate r = SLEEPING \<and> lchan r = proc_chan i \<and> lstate r' = RUNNABLE)"

lemma adopted_trans: "adopted cp i a r r1 \<Longrightarrow> adopted cp i b r1 r2 \<Longrightarrow> i \<noteq> Some cp \<Longrightarrow> adopted cp i (a \<or> b) r r2"
  by (cases r; cases r1; cases r2) (auto simp: adopted_def)

lemma reparent_one: "adopted cp (linit s) (q = x) (lprocs s q) (lprocs (reparent_lwp cp x s) q)"
  "linit (reparent_lwp cp x s) = linit s" "inside p (reparent_lwp cp x s) = inside p s"
  "kalloc_inv (reparent_lwp cp x s) xs = kalloc_inv s xs"
  by (simp_all add: reparent_lwp_def Let_def wakeup1_procs adopted_def wake_def)

lemma reparent_lwp_fold:
  assumes "linit s \<noteq> Some cp"
  shows "adopted cp (linit s) (q \<in> set qs) (lprocs s q) (lprocs (fold (reparent_lwp cp) qs s) q)"
    "inside p (fold (reparent_lwp cp) qs s) = inside p s" "kalloc_inv (fold (reparent_lwp cp) qs s) xs = kalloc_inv s xs"
proof -
  have "adopted cp (linit s) (q \<in> set qs) (lprocs s q) (lprocs (fold (reparent_lwp cp) qs s) q)
      \<and> inside p (fold (reparent_lwp cp) qs s) = inside p s \<and> kalloc_inv (fold (reparent_lwp cp) qs s) xs = kalloc_inv s xs"
    using assms
  proof (induction qs arbitrary: s)
    case Nil
    then show ?case by (simp add: adopted_def)
  next
    case (Cons x qs)
    let ?t = "reparent_lwp cp x s"
    have IH: "adopted cp (linit s) (q \<in> set qs) (lprocs ?t q) (lprocs (fold (reparent_lwp cp) qs ?t) q)"
      using Cons.IH [of ?t] Cons.prems by (simp add: reparent_one)
    show ?case
      using Cons.IH [of ?t] Cons.prems adopted_trans [OF reparent_one(1) IH Cons.prems] by (simp add: reparent_one)
  qed
  then show "adopted cp (linit s) (q \<in> set qs) (lprocs s q) (lprocs (fold (reparent_lwp cp) qs s) q)"
    "inside p (fold (reparent_lwp cp) qs s) = inside p s" "kalloc_inv (fold (reparent_lwp cp) qs s) xs = kalloc_inv s xs"
    by simp_all
qed

lemma cleaned_simps [simp]: "lstate (cleaned r) = UNUSED" "lparent (cleaned r) = None" "lpid (cleaned r) = 0" "lkstack (cleaned r) = 0"
  "wake ch (cleaned r) = cleaned r"
  by (simp_all add: cleaned_def wake_def)

lemma adopted_cleaned: "adopted cp i d (cleaned r) r' \<Longrightarrow> r' = cleaned r"
  by (cases r') (auto simp: adopted_def cleaned_def)

lemma siblings_set: "q \<in> set (siblings s cp) \<Longrightarrow> q < NPROC \<and> q \<noteq> cp"
  by (simp add: siblings_def)

lemma kill_threads_run:
  assumes "inside cp s" and "stacks_ok s (siblings s cp) xs"
  shows "\<exists>t. kill_threads cp s = Ok t \<and> lprocs t = (\<lambda>q. if q \<in> set (siblings s cp) then cleaned (lprocs s q) else lprocs s q)
    \<and> inside cp t \<and> linit t = linit s \<and> kalloc_inv t (rev (map (\<lambda>q. lkstack (lprocs s q)) (siblings s cp)) @ xs)"
  unfolding kill_threads_def siblings_def
  by (rule kill_threads_fold) (use assms in \<open>simp_all add: siblings_def\<close>)

definition spared :: "nat \<Rightarrow> nat option \<Rightarrow> nat \<Rightarrow> lproc \<Rightarrow> lproc \<Rightarrow> bool" where
  "spared cp i q r r' \<longleftrightarrow> r' = r\<lparr>lparent := lparent r', lstate := lstate r'\<rparr>
     \<and> (q < NPROC \<longrightarrow> lparent r' = (if lparent r = Some cp then i else lparent r))
     \<and> (lstate r' = lstate r \<or> lstate r = SLEEPING \<and> lstate r' = RUNNABLE)"

lemma spared_adopted: "r1 = wake ch r \<or> r1 = r \<Longrightarrow> adopted cp i (q < NPROC) r1 r' \<Longrightarrow> spared cp i q r r'"
  by (cases r; cases r') (auto simp: spared_def adopted_def wake_def split: if_splits)

text \<open>
  C23.  \<open>exit\<close> of a thread, from the lock on, ends its whole process: every other thread of the process,
  whatever it was doing, is unused afterwards, its kernel stack is back on the free list, and the caller,
  a zombie, has given up the CPU with \<open>ptable.lock\<close> held.  An entry of another process keeps everything but
  its parent, which becomes \<open>init\<close> where it was the caller, and its sleep.
\<close>

theorem exit_kills_group:
  assumes "runs cp s" and "linit s \<noteq> Some cp" and "stacks_ok (enter s) (siblings s cp) xs"
  shows "\<exists>t. exit_sched_lwp cp s = Ok t \<and> inside cp t \<and> lstate (lprocs t cp) = ZOMBIE
    \<and> (\<forall>q. if q \<in> set (siblings s cp) then lprocs t q = cleaned (lprocs s q)
          else q \<noteq> cp \<longrightarrow> spared cp (linit s) q (lprocs s q) (lprocs t q))
    \<and> kalloc_inv t (rev (map (\<lambda>q. lkstack (lprocs s q)) (siblings s cp)) @ xs)"
proof -
  have g: "siblings (enter s) cp = siblings s cp" by (simp add: siblings_def)
  obtain u where u: "kill_threads cp (enter s) = Ok u"
      "lprocs u = (\<lambda>q. if q \<in> set (siblings s cp) then cleaned (lprocs s q) else lprocs s q)"
      "inside cp u" "linit u = linit s" "kalloc_inv u (rev (map (\<lambda>q. lkstack (lprocs s q)) (siblings s cp)) @ xs)"
    using kill_threads_run [OF inside_enter [OF assms(1)], of xs] assms(3) unfolding g enter_simps by blast
  let ?ch = "proc_chan (lparent (lprocs u cp))"
  let ?v = "wakeup1_lwp ?ch u"
  let ?w = "fold (reparent_lwp cp) [0..<NPROC] ?v"
  let ?x = "updl cp (\<lambda>r. r\<lparr>lstate := ZOMBIE\<rparr>) ?w"
  let ?t = "updl cp (\<lambda>r. r\<lparr>lkont := LExit, lkint := intena (cpu ?x)\<rparr>) ?x"
  have i: "linit ?v \<noteq> Some cp" "linit ?v = linit s" using assms(2) u(4) by (simp_all add: wakeup1_procs)
  have w: "adopted cp (linit s) (q < NPROC) (lprocs ?v q) (lprocs ?w q)" for q
    using reparent_lwp_fold(1) [OF i(1), of q "[0..<NPROC]"] i(2) by simp
  have x: "inside cp ?x" "lstate (lprocs ?x cp) \<noteq> RUNNING" using reparent_lwp_fold(2) [OF i(1)] u(3) by (simp_all add: wakeup1_procs)
  have "exit_sched_lwp cp s = sched_lwp LExit ?x"
    by (simp add: exit_sched_lwp_def acquire_enter [OF assms(1)] u(1) Let_def)
  also have "\<dots> = Ok ?t" by (rule sched_lwp_run [OF x])
  finally have e: "exit_sched_lwp cp s = Ok ?t" .
  have z: "inside cp ?t" "lstate (lprocs ?t cp) = ZOMBIE" using x(1) by simp_all
  have k: "kalloc_inv ?t (rev (map (\<lambda>q. lkstack (lprocs s q)) (siblings s cp)) @ xs)"
    using u(5) reparent_lwp_fold(3) [OF i(1)] by (simp add: wakeup1_procs)
  have c: "lprocs ?t q = cleaned (lprocs s q)" if "q \<in> set (siblings s cp)" for q
    using w [of q] that siblings_set [OF that] adopted_cleaned u(2) by (auto simp: wakeup1_procs)
  have o: "spared cp (linit s) q (lprocs s q) (lprocs ?t q)" if "q \<notin> set (siblings s cp)" "q \<noteq> cp" for q
  proof (rule spared_adopted)
    show "lprocs ?v q = wake ?ch (lprocs s q) \<or> lprocs ?v q = lprocs s q"
      using that u(2) by (simp add: wakeup1_procs)
    show "adopted cp (linit s) (q < NPROC) (lprocs ?v q) (lprocs ?t q)" using w [of q] that(2) by simp
  qed
  have "if q \<in> set (siblings s cp) then lprocs ?t q = cleaned (lprocs s q)
      else q \<noteq> cp \<longrightarrow> spared cp (linit s) q (lprocs s q) (lprocs ?t q)" for q
    using c [of q] o [of q] by argo
  then show ?thesis using e z k by blast
qed

lemma demo_siblings: "siblings demo_lwp (Suc 0) = [2]"
  by (simp add: siblings_def NPROC_def upt_conv_Cons demo_procs_def no_proc_def)

lemma demo_kalloc: "kalloc_inv (enter demo_lwp) [0x80400000]"
  using inside_enter [OF demo_runs] by (simp add: kalloc_inv_def insideD page_ok_def load32_def le_word_def
    PGSIZE_def V2P_def KERNBASE_def PHYSTOP_def)

lemma exit_kills_group_witness:
  "\<exists>t. exit_sched_lwp 1 demo_lwp = Ok t \<and> lprocs t 2 = cleaned (demo_procs 2) \<and> kalloc_inv t [0x80521000, 0x80400000]"
proof -
  have k: "lkstack (demo_procs 2) = 0x80521000" "lsz (demo_procs 2) = 16384" by (simp_all add: demo_procs_def)
  have "stacks_ok (enter demo_lwp) (siblings demo_lwp 1) [0x80400000]"
    using demo_kalloc by (simp add: stacks_ok_def demo_siblings k page_ok_def PGSIZE_def V2P_def KERNBASE_def PHYSTOP_def)
  from exit_kills_group [OF demo_runs _ this] show ?thesis by (auto simp: demo_siblings k)
qed

end
