(* ===== verification/Lwp_Trap.thy ===== *)
theory Lwp_Trap
  imports Lwp_Exec
begin

text \<open>
  Project 2: the table of system calls (\<open>syscall.c\<close>) and the trap handler (\<open>trap.c\<close>).  The calls of the
  file system, \<open>exec\<close> and \<open>exec2\<close> with their arguments, and the interrupt routines of the devices are
  parameters.  A handler that gives up the CPU ends there (\<open>Switched\<close>); when \<open>resume_lwp\<close> has returned a
  value for it, \<open>syscall_return\<close> is the rest of \<open>syscall\<close> and \<open>trap_return\<close> the rest of \<open>trap\<close>.
\<close>

section \<open>System calls\<close>

text \<open>The numbers of the table that belong to the file system and to \<open>exec\<close>.\<close>

definition file_calls :: "nat list" where
  "file_calls = [4, 5, 7, 8, 9, 10, 15, 16, 17, 18, 19, 20, 21, 23]"

definition syscalls :: "'f fsops \<Rightarrow> (nat \<Rightarrow> 'f lwp \<Rightarrow> (int, 'f lwp) run kres) \<Rightarrow> nat \<Rightarrow> ('f lwp \<Rightarrow> (int, 'f lwp) run kres) option" where
  "syscalls F file num =
     (if num = 1 then Some (sys_fork_lwp F)
      else if num = 2 then Some (sys_exit_lwp F)
      else if num = 3 then Some sys_wait_lwp
      else if num = 6 then Some sys_kill_lwp
      else if num = 11 then Some sys_getpid_lwp
      else if num = 12 then Some sys_sbrk_lwp
      else if num = 13 then Some sys_sleep_lwp
      else if num = 14 then Some sys_uptime_lwp
      else if num = 22 then Some sys_showprocs
      else if num = 24 then Some sys_setmemorylimit
      else if num = 25 then Some (sys_thread_create F)
      else if num = 26 then Some (sys_thread_exit F)
      else if num = 27 then Some sys_thread_join
      else if num \<in> set file_calls then Some (file num)
      else None)"

definition syscall_return :: "nat \<Rightarrow> int \<Rightarrow> 'f lwp \<Rightarrow> 'f lwp" where
  "syscall_return p r s = setw (ltf (lprocs s p) + TF_EAX) (word_of_int r) s"

definition syscall_lwp :: "'f fsops \<Rightarrow> (nat \<Rightarrow> 'f lwp \<Rightarrow> (int, 'f lwp) run kres) \<Rightarrow> 'f lwp \<Rightarrow> (unit, 'f lwp) run kres" where
  "syscall_lwp F file s = with_lwp s (\<lambda>p s.
     let num = sint (load32 (ram s) (ltf (lprocs s p) + TF_EAX)) in
     case (if 0 < num then syscalls F file (nat num) else None) of
       None \<Rightarrow> Ok (Returned () (syscall_return p (-1) s))
     | Some f \<Rightarrow> kbind (f s) (\<lambda>r. Ok (case r of Returned v s \<Rightarrow> Returned () (syscall_return p v s) | Switched s \<Rightarrow> Switched s)))"

section \<open>Traps\<close>

datatype ltrap = LtSyscall | LtTimer | LtDevice | LtSpurious | LtOther

definition timer_tick_lwp :: "'f lwp \<Rightarrow> 'f lwp kres" where
  "timer_tick_lwp s =
     kbind (acquire_l LkTicks s) (\<lambda>s.
     kbind (wakeup_lwp ChTicks (s\<lparr>lticks := lticks s + 1\<rparr>)) (release_l LkTicks))"

definition run_then :: "('a, 's) run kres \<Rightarrow> ('s \<Rightarrow> ('b, 's) run kres) \<Rightarrow> ('b, 's) run kres" where
  "run_then m f = kbind m (\<lambda>r. case r of Returned _ s \<Rightarrow> f s | Switched s \<Rightarrow> Ok (Switched s))"

text \<open>The test of \<open>killed\<close> after the switch; \<open>user\<close> is \<open>(tf->cs&3) == DPL_USER\<close>.\<close>

definition trap_killed_lwp :: "'f fsops \<Rightarrow> bool \<Rightarrow> 'f lwp \<Rightarrow> (unit, 'f lwp) run kres" where
  "trap_killed_lwp F user s = kbind (myproc_lwp s) (\<lambda>(p, s).
     if (case p of None \<Rightarrow> False | Some p \<Rightarrow> lkilled (lprocs s p)) \<and> user
     then kbind (exit_lwp F s) (\<lambda>s. Ok (Switched s)) else Ok (Returned () s))"

definition trap_yield_lwp :: "ltrap \<Rightarrow> 'f lwp \<Rightarrow> (unit, 'f lwp) run kres" where
  "trap_yield_lwp t s = kbind (myproc_lwp s) (\<lambda>(p, s).
     if (case p of None \<Rightarrow> False | Some p \<Rightarrow> lstate (lprocs s p) = RUNNING) \<and> t = LtTimer
     then kbind (yield_lwp s) (\<lambda>s. Ok (Switched s)) else Ok (Returned () s))"

definition trap_tail_lwp :: "'f fsops \<Rightarrow> bool \<Rightarrow> ltrap \<Rightarrow> 'f lwp \<Rightarrow> (unit, 'f lwp) run kres" where
  "trap_tail_lwp F user t s =
     run_then (trap_killed_lwp F user s) (\<lambda>s. run_then (trap_yield_lwp t s) (trap_killed_lwp F user))"

text \<open>The rest of a system call trap behind \<open>syscall\<close>.\<close>

definition trap_return :: "'f fsops \<Rightarrow> 'f lwp \<Rightarrow> (unit, 'f lwp) run kres" where
  "trap_return F s = with_lwp s (\<lambda>p s.
     if lkilled (lprocs s p) then kbind (exit_lwp F s) (\<lambda>s. Ok (Switched s)) else Ok (Returned () s))"

text \<open>
  \<open>tf\<close> is the address of the trap frame; \<open>device\<close> is the interrupt routine of the disk, the keyboard or
  the serial line.
\<close>

definition trap_lwp :: "'f fsops \<Rightarrow> (nat \<Rightarrow> 'f lwp \<Rightarrow> (int, 'f lwp) run kres) \<Rightarrow> ('f lwp \<Rightarrow> 'f lwp kres) \<Rightarrow>
    u32 \<Rightarrow> bool \<Rightarrow> ltrap \<Rightarrow> 'f lwp \<Rightarrow> (unit, 'f lwp) run kres" where
  "trap_lwp F file device tf user t s =
     (case t of
        LtSyscall \<Rightarrow> with_lwp s (\<lambda>p s.
          if lkilled (lprocs s p) then kbind (exit_lwp F s) (\<lambda>s. Ok (Switched s))
          else run_then (syscall_lwp F file (updl p (\<lambda>r. r\<lparr>ltf := tf\<rparr>) s)) (trap_return F))
      | LtTimer \<Rightarrow> kbind (mycpu_lwp s) (\<lambda>s. kbind (if cpuid (cpu s) = 0 then timer_tick_lwp s else Ok s) (trap_tail_lwp F user t))
      | LtDevice \<Rightarrow> kbind (device s) (trap_tail_lwp F user t)
      | LtSpurious \<Rightarrow> trap_tail_lwp F user t s
      | LtOther \<Rightarrow> kbind (myproc_lwp s) (\<lambda>(p, s).
          case p of None \<Rightarrow> Panic ''trap''
          | Some p \<Rightarrow> if \<not> user then Panic ''trap''
                      else trap_tail_lwp F user t (updl p (\<lambda>r. r\<lparr>lkilled := True\<rparr>) s)))"

end
