(* ===== verification/Vm_Map.thy ===== *)
theory Vm_Map
  imports Vm
begin

text \<open>
  What a page table means.  \<open>entry m d va\<close> is the page table entry for the address \<open>va\<close> in the address
  space with the page directory \<open>d\<close>, 0 where there is no page table; \<open>frame e\<close> is the page it refers to.
  The pages of an address space are its directory, its page tables and the frames of its user pages;
  \<open>space s d xs\<close> says that they are pages of the allocator, all different from each other and from the
  free pages \<open>xs\<close>.  The lemmas say what the two writes of \<open>walkpgdir\<close> and \<open>mappages\<close> do to the entries.
\<close>

section \<open>Indices and pages\<close>

lemma PDX_PTX_less [simp]: "PDX va < 1024" "PTX va < 1024"
proof -
  have "x AND 0x3FF < 1024" for x :: u32
    using word_and_le2 [of "0x3FF :: u32" x] by (simp add: word_le_nat_alt word_less_nat_alt and.commute)
  then show "PDX va < 1024" "PTX va < 1024" by (simp_all add: PDX_def PTX_def)
qed

lemma bit_PGROUNDDOWN: "bit (PGROUNDDOWN a) n \<longleftrightarrow> n < 32 \<and> 12 \<le> n \<and> bit a n"
proof -
  have "PGSIZE - 1 = (mask 12 :: u32)" by (simp add: PGSIZE_def mask_eq_exp_minus_1)
  then show ?thesis by (auto simp: PGROUNDDOWN_def bit_simps dest: bit_imp_le_length)
qed

lemma same_page: "PDX a = PDX b \<and> PTX a = PTX b \<longleftrightarrow> PGROUNDDOWN a = PGROUNDDOWN b"
proof -
  have m: "(0x3FF :: u32) = mask 10" by (simp add: mask_eq_exp_minus_1)
  have d: "bit (PDX x) n \<longleftrightarrow> n < 10 \<and> bit x (22 + n)" and t: "bit (PTX x) n \<longleftrightarrow> n < 10 \<and> bit x (12 + n)" for x n
    by (auto simp: PDX_def PTX_def m bit_simps)
  show ?thesis
  proof
    assume e: "PDX a = PDX b \<and> PTX a = PTX b"
    have "bit a n = bit b n" if "12 \<le> n" "n < 32" for n
    proof (cases "n < 22")
      case True
      then have "n - 12 < 10" "12 + (n - 12) = n" using that by linarith+
      then show ?thesis using e t [of a "n - 12"] t [of b "n - 12"] by simp
    next
      case False
      then have "n - 22 < 10" "22 + (n - 22) = n" using that by linarith+
      then show ?thesis using e d [of a "n - 22"] d [of b "n - 22"] by simp
    qed
    then show "PGROUNDDOWN a = PGROUNDDOWN b" by (intro bit_word_eqI) (auto simp: bit_PGROUNDDOWN)
  next
    assume e: "PGROUNDDOWN a = PGROUNDDOWN b"
    have b: "bit a n = bit b n" if "12 \<le> n" "n < 32" for n
      using that arg_cong [OF e, of "\<lambda>w. bit w n"] by (simp add: bit_PGROUNDDOWN)
    show "PDX a = PDX b \<and> PTX a = PTX b" by (auto intro!: bit_eqI simp: d t b)
  qed
qed

definition slot :: "u32 \<Rightarrow> u32 \<Rightarrow> u32" where
  "slot t i = t + 4 * i"

lemma slot_offset:
  assumes "i < 1024" and "x \<in> region (slot t i) 4"
  shows "unat (x - t) div 4 = unat i"
proof -
  define r where "r = x - slot t i"
  have r: "unat r < 4" "unat i < 1024" "x - t = r + 4 * i"
    using assms by (simp_all add: region_def slot_def r_def word_less_nat_alt)
  then have "unat (x - t) = unat r + 4 * unat i" by (simp add: unat_word_ariths)
  then show ?thesis using r(1) by simp
qed

lemma slot_page:
  assumes "i < 1024" and "x \<in> region (slot t i) 4"
  shows "x \<in> region t PGSIZE"
proof -
  have "unat (x - t) div 4 < 1024" using slot_offset [OF assms] assms(1) by (simp add: word_less_nat_alt)
  then have "unat (x - t) < 4096" by simp
  then show ?thesis by (simp add: region_def PGSIZE_def word_less_nat_alt)
qed

lemma slots_disjoint:
  "i < 1024 \<Longrightarrow> j < 1024 \<Longrightarrow> x \<in> region (slot t i) 4 \<Longrightarrow> x \<in> region (slot t j) 4 \<Longrightarrow> i = j"
  using slot_offset [of i x t] slot_offset [of j x t] by (simp add: word_unat_eq_iff)

lemma load32_slot:
  "i < 1024 \<Longrightarrow> (\<And>x. x \<in> region t PGSIZE \<Longrightarrow> m' x = m x) \<Longrightarrow> load32 m' (slot t i) = load32 m (slot t i)"
  by (rule load32_cong) (simp add: slot_page)

lemma load32_store_slot:
  assumes "i < 1024" and "j < 1024"
  shows "load32 (store32 m (slot t i) v) (slot t j) = (if i = j then v else load32 m (slot t j))"
proof (cases "i = j")
  case False
  then have "load32 (store32 m (slot t i) v) (slot t j) = load32 m (slot t j)"
    using slots_disjoint [OF assms] by (intro load32_cong store32_other) blast
  then show ?thesis using False by simp
qed simp

lemma store_slot_other: "i < 1024 \<Longrightarrow> x \<notin> region t PGSIZE \<Longrightarrow> store32 m (slot t i) v x = m x"
  by (rule store32_other) (use slot_page in blast)

section \<open>Entries\<close>

definition pde :: "memory \<Rightarrow> u32 \<Rightarrow> u32 \<Rightarrow> u32" where
  "pde m d i = load32 m (slot d i)"

definition frame :: "u32 \<Rightarrow> u32" where
  "frame e = P2V (PTE_ADDR e)"

definition entry :: "memory \<Rightarrow> u32 \<Rightarrow> u32 \<Rightarrow> u32" where
  "entry m d va = (if present (pde m d (PDX va)) then load32 m (slot (frame (pde m d (PDX va))) (PTX va)) else 0)"

lemma page_mod: "(a :: u32) mod PGSIZE = take_bit 12 a"
  by (simp add: take_bit_eq_mod PGSIZE_def)

lemma aligned_add:
  assumes "(a :: u32) mod PGSIZE = 0" and "b mod PGSIZE = 0"
  shows "(a + b) mod PGSIZE = 0"
proof -
  have "4096 dvd unat a + unat b" using page_unat [OF assms(1)] page_unat [OF assms(2)] by (simp add: dvd_eq_mod_eq_0 mod_add_eq [symmetric])
  then have "(unat a + unat b) mod 4294967296 mod 4096 = 0" by (simp add: mod_mod_cancel dvd_eq_mod_eq_0)
  then have "unat ((a + b) mod PGSIZE) = 0" by (simp add: unat_mod_distrib unat_word_ariths PGSIZE_def)
  then show ?thesis by (simp add: unat_eq_zero)
qed

lemma PTE_ADDR_eq: "PTE_ADDR e = PGROUNDDOWN e"
  by (simp add: PTE_ADDR_def PGROUNDDOWN_def PGSIZE_def)

lemma frame_aligned [simp]: "frame e mod PGSIZE = 0"
  unfolding frame_def P2V_def PTE_ADDR_eq by (rule aligned_add, rule PGROUNDDOWN_page) (simp add: KERNBASE_def PGSIZE_def)

text \<open>An entry made of the physical address of a page and flags refers to the page.\<close>

lemma frame_entry:
  assumes "p mod PGSIZE = 0" and "f < PGSIZE"
  shows "frame (V2P p OR f) = p"
proof -
  have "(V2P p) mod PGSIZE = 0"
    using aligned_add [of p "- KERNBASE"] assms(1) by (simp add: V2P_def KERNBASE_def PGSIZE_def)
  then have v: "take_bit 12 (V2P p) = 0" by (simp add: page_mod)
  have "take_bit 12 f = f" using assms(2) by (simp add: page_mod [symmetric] PGSIZE_def word_less_nat_alt word_unat_eq_iff unat_mod_distrib)
  then have f: "PGROUNDDOWN f = 0" using PGROUNDDOWN_take_bit [of f] by (metis add_cancel_left_left)
  have "PGROUNDDOWN (V2P p OR f) = PGROUNDDOWN (V2P p) OR PGROUNDDOWN f"
    by (rule bit_word_eqI) (auto simp: bit_PGROUNDDOWN bit_or_iff)
  also have "\<dots> = V2P p" using f v PGROUNDDOWN_take_bit [of "V2P p"] by simp
  finally show ?thesis by (simp add: frame_def PTE_ADDR_eq P2V_def V2P_def)
qed

lemma present_flag: "present (a OR b OR PTE_P)" "present (a OR PTE_P OR b)"
proof -
  have "bit ((a OR b OR PTE_P) AND PTE_P) 0" "bit ((a OR PTE_P OR b) AND PTE_P) 0" by (simp_all add: bit_simps PTE_P_def)
  then show "present (a OR b OR PTE_P)" "present (a OR PTE_P OR b)" unfolding present_def by (metis bit_0_eq bot_fun_def bot_bool_def)+
qed

section \<open>Address spaces\<close>

definition tabs :: "memory \<Rightarrow> u32 \<Rightarrow> u32 set" where
  "tabs m d = {frame (pde m d i) | i. i < 1024 \<and> present (pde m d i)}"

definition uframes :: "memory \<Rightarrow> u32 \<Rightarrow> u32 set" where
  "uframes m d = {frame (entry m d va) | va. va < KERNBASE \<and> present (entry m d va)}"

definition own :: "memory \<Rightarrow> u32 \<Rightarrow> u32 set" where
  "own m d = insert d (tabs m d \<union> uframes m d)"

definition tab_inj :: "memory \<Rightarrow> u32 \<Rightarrow> bool" where
  "tab_inj m d \<longleftrightarrow> (\<forall>i j. i < 1024 \<longrightarrow> j < 1024 \<longrightarrow> present (pde m d i) \<longrightarrow> present (pde m d j)
     \<longrightarrow> frame (pde m d i) = frame (pde m d j) \<longrightarrow> i = j)"

definition frame_inj :: "memory \<Rightarrow> u32 \<Rightarrow> bool" where
  "frame_inj m d \<longleftrightarrow> (\<forall>va vb. va < KERNBASE \<longrightarrow> vb < KERNBASE \<longrightarrow> present (entry m d va) \<longrightarrow> present (entry m d vb)
     \<longrightarrow> frame (entry m d va) = frame (entry m d vb) \<longrightarrow> PGROUNDDOWN va = PGROUNDDOWN vb)"

definition vspace :: "'a machine_scheme \<Rightarrow> u32 \<Rightarrow> bool" where
  "vspace s d \<longleftrightarrow> KERNBASE < kend s \<and> (\<forall>p\<in>own (ram s) d. page_ok s p)
     \<and> d \<notin> tabs (ram s) d \<and> d \<notin> uframes (ram s) d \<and> tabs (ram s) d \<inter> uframes (ram s) d = {}
     \<and> tab_inj (ram s) d \<and> frame_inj (ram s) d"

definition space :: "'a machine_scheme \<Rightarrow> u32 \<Rightarrow> u32 list \<Rightarrow> bool" where
  "space s d xs \<longleftrightarrow> kalloc_inv s xs \<and> vspace s d \<and> own (ram s) d \<inter> set xs = {}"

text \<open>\<open>touches P s t\<close>: from \<open>s\<close> to \<open>t\<close> the memory changes in the pages \<open>P\<close> only.\<close>

definition touches :: "u32 set \<Rightarrow> 'a machine_scheme \<Rightarrow> 'a machine_scheme \<Rightarrow> bool" where
  "touches P s t \<longleftrightarrow> kend t = kend s \<and> (\<forall>x. (\<forall>p\<in>P. x \<notin> region p PGSIZE) \<longrightarrow> ram t x = ram s x)"

lemma touches_refl [simp]: "touches P s s"
  by (simp add: touches_def)

lemma touches_trans: "touches P s t \<Longrightarrow> touches Q t u \<Longrightarrow> P \<subseteq> R \<Longrightarrow> Q \<subseteq> R \<Longrightarrow> touches R s u"
  unfolding touches_def by (metis subsetD)

lemma touches_mono: "touches P s t \<Longrightarrow> P \<subseteq> R \<Longrightarrow> touches R s t"
  by (auto simp: touches_def)

lemma touches_page_ok: "touches P s t \<Longrightarrow> page_ok t = page_ok s"
  by (simp add: touches_def page_ok_def fun_eq_iff)

text \<open>A page none of whose neighbours is written keeps its contents.\<close>

lemma touches_page:
  assumes "touches P s t" and "\<forall>p\<in>P. p mod PGSIZE = 0" and "q mod PGSIZE = 0" and "q \<notin> P" and "x \<in> region q PGSIZE"
  shows "ram t x = ram s x"
proof -
  have "x \<notin> region p PGSIZE" if "p \<in> P" for p
    using pages_disjoint [OF _ assms(3) _ assms(5), of p] assms(2,4) that by blast
  then show ?thesis using assms(1) by (simp add: touches_def)
qed

lemma pde_cong: "i < 1024 \<Longrightarrow> (\<And>x. x \<in> region d PGSIZE \<Longrightarrow> m' x = m x) \<Longrightarrow> pde m' d i = pde m d i"
  unfolding pde_def by (rule load32_slot)

lemma entry_cong:
  assumes "\<And>x. x \<in> region d PGSIZE \<Longrightarrow> m' x = m x"
    and "\<And>t x. t \<in> tabs m d \<Longrightarrow> x \<in> region t PGSIZE \<Longrightarrow> m' x = m x"
  shows "entry m' d va = entry m d va"
proof -
  have p: "pde m' d (PDX va) = pde m d (PDX va)" by (rule pde_cong [OF PDX_PTX_less(1) assms(1)])
  show ?thesis
  proof (cases "present (pde m d (PDX va))")
    case True
    then have "frame (pde m d (PDX va)) \<in> tabs m d" unfolding tabs_def using PDX_PTX_less(1) by blast
    then show ?thesis using p load32_slot [OF PDX_PTX_less(2) assms(2)] by (simp add: entry_def)
  qed (simp add: entry_def p)
qed

lemma view_cong:
  assumes "\<And>i. i < 1024 \<Longrightarrow> pde m' d i = pde m d i" and "\<And>va. entry m' d va = entry m d va"
  shows "tabs m' d = tabs m d" "uframes m' d = uframes m d" "own m' d = own m d"
proof -
  show t: "tabs m' d = tabs m d" unfolding tabs_def using assms(1) by (intro Collect_cong) metis
  show u: "uframes m' d = uframes m d" unfolding uframes_def by (simp add: assms(2))
  show "own m' d = own m d" by (simp add: own_def t u)
qed

lemma vspaceD:
  assumes "vspace s d"
  shows "KERNBASE < kend s" "p \<in> own (ram s) d \<Longrightarrow> page_ok s p" "p \<in> own (ram s) d \<Longrightarrow> p mod PGSIZE = 0"
    "d \<notin> tabs (ram s) d" "d \<notin> uframes (ram s) d" "tabs (ram s) d \<inter> uframes (ram s) d = {}"
    "tab_inj (ram s) d" "frame_inj (ram s) d"
    "d \<in> own (ram s) d" "tabs (ram s) d \<subseteq> own (ram s) d" "uframes (ram s) d \<subseteq> own (ram s) d"
proof -
  show "p \<in> own (ram s) d \<Longrightarrow> page_ok s p" using assms unfolding vspace_def by blast
  then show "p \<in> own (ram s) d \<Longrightarrow> p mod PGSIZE = 0" by (simp add: page_ok_def)
  show "d \<in> own (ram s) d" "tabs (ram s) d \<subseteq> own (ram s) d" "uframes (ram s) d \<subseteq> own (ram s) d" by (auto simp: own_def)
qed (use assms in \<open>simp_all add: vspace_def\<close>)

lemma tabsI: "i < 1024 \<Longrightarrow> present (pde m d i) \<Longrightarrow> frame (pde m d i) \<in> tabs m d"
  by (auto simp: tabs_def)

lemma uframesI: "va < KERNBASE \<Longrightarrow> present (entry m d va) \<Longrightarrow> frame (entry m d va) \<in> uframes m d"
  by (auto simp: uframes_def)

text \<open>Writing elsewhere.\<close>

lemma vspace_same:
  assumes "vspace s d" and "kend t = kend s" and "\<And>i. i < 1024 \<Longrightarrow> pde (ram t) d i = pde (ram s) d i" and "\<And>va. entry (ram t) d va = entry (ram s) d va"
  shows "vspace t d" "own (ram t) d = own (ram s) d"
proof -
  note v = view_cong [OF assms(3,4)]
  have "page_ok t = page_ok s" using assms(2) by (simp add: page_ok_def fun_eq_iff)
  moreover have "tab_inj (ram t) d = tab_inj (ram s) d" unfolding tab_inj_def using assms(3) by metis
  moreover have "frame_inj (ram t) d = frame_inj (ram s) d" by (simp add: frame_inj_def assms(4))
  ultimately show "vspace t d" using assms(1) by (simp add: vspace_def assms(2) v)
  show "own (ram t) d = own (ram s) d" by (rule v(3))
qed

lemma view_touches:
  assumes "vspace s d" and "touches P s t" and "\<forall>p\<in>P. p mod PGSIZE = 0" and "d \<notin> P" and "tabs (ram s) d \<inter> P = {}"
  shows "i < 1024 \<Longrightarrow> pde (ram t) d i = pde (ram s) d i" "entry (ram t) d va = entry (ram s) d va" "vspace t d" "own (ram t) d = own (ram s) d"
proof -
  note v = vspaceD [OF assms(1)]
  have d: "x \<in> region d PGSIZE \<Longrightarrow> ram t x = ram s x" for x
    using touches_page [OF assms(2,3) v(3) [OF v(9)] assms(4)] by blast
  have ts: "p \<in> tabs (ram s) d \<Longrightarrow> x \<in> region p PGSIZE \<Longrightarrow> ram t x = ram s x" for p x
    using touches_page [OF assms(2,3), of p x] v(3) v(10) assms(5) by blast
  show pe: "i < 1024 \<Longrightarrow> pde (ram t) d i = pde (ram s) d i" for i by (rule pde_cong [OF _ d])
  show en: "entry (ram t) d va = entry (ram s) d va" for va by (rule entry_cong [OF d ts])
  have "kend t = kend s" using assms(2) by (simp add: touches_def)
  from vspace_same [OF assms(1) this pe en] show "vspace t d" "own (ram t) d = own (ram s) d" by simp_all
qed

section \<open>A new page table\<close>

definition new_table :: "memory \<Rightarrow> u32 \<Rightarrow> u32 \<Rightarrow> u32 \<Rightarrow> memory" where
  "new_table m d p i = store32 (memset m p 0 PGSIZE) (slot d i) (V2P p OR PTE_P OR PTE_W OR PTE_U)"

lemma table_entry:
  assumes "p mod PGSIZE = 0"
  shows "frame (V2P p OR PTE_P OR PTE_W OR PTE_U) = p" "present (V2P p OR PTE_P OR PTE_W OR PTE_U)"
proof -
  have "V2P p OR PTE_P OR PTE_W OR PTE_U = V2P p OR 7" by (simp add: PTE_P_def PTE_W_def PTE_U_def or.assoc)
  then show "frame (V2P p OR PTE_P OR PTE_W OR PTE_U) = p" using frame_entry [OF assms, of 7] by (simp add: PGSIZE_def)
  show "present (V2P p OR PTE_P OR PTE_W OR PTE_U)"
    using present_flag(2) [of "V2P p" "PTE_W OR PTE_U"] by (simp add: or.assoc)
qed

lemma new_table_other: "i < 1024 \<Longrightarrow> x \<notin> region d PGSIZE \<Longrightarrow> x \<notin> region p PGSIZE \<Longrightarrow> new_table m d p i x = m x"
  by (simp add: new_table_def store_slot_other memset_other)

lemma new_table_view:
  assumes "d mod PGSIZE = 0" and "p mod PGSIZE = 0" and "p \<noteq> d" and "p \<notin> tabs m d" and "d \<notin> tabs m d"
    and "i < 1024" and "\<not> present (pde m d i)"
  shows "j < 1024 \<Longrightarrow> pde (new_table m d p i) d j = (if j = i then V2P p OR PTE_P OR PTE_W OR PTE_U else pde m d j)"
    "entry (new_table m d p i) d va = entry m d va"
proof -
  have md: "x \<in> region d PGSIZE \<Longrightarrow> memset m p 0 PGSIZE x = m x" for x
    using pages_disjoint [OF assms(1,2)] assms(3) by (intro memset_other) blast
  have q: "load32 (memset m p 0 PGSIZE) (slot d j) = load32 m (slot d j)" if "j < 1024" for j
    by (rule load32_slot [OF that md])
  show pd: "j < 1024 \<Longrightarrow> pde (new_table m d p i) d j = (if j = i then V2P p OR PTE_P OR PTE_W OR PTE_U else pde m d j)" for j
    using load32_store_slot [OF assms(6), of j] by (auto simp: pde_def new_table_def q)
  show "entry (new_table m d p i) d va = entry m d va"
  proof (cases "PDX va = i")
    case True
    have "new_table m d p i x = 0" if "x \<in> region p PGSIZE" for x
    proof -
      have "x \<notin> region d PGSIZE" using pages_disjoint [OF assms(1,2)] assms(3) that by blast
      then show ?thesis using that by (simp add: new_table_def store_slot_other [OF assms(6)] memset_def region_def)
    qed
    then have "load32 (new_table m d p i) (slot p (PTX va)) = load32 (\<lambda>_. 0) (slot p (PTX va))"
      by (intro load32_slot) auto
    then show ?thesis using True pd [of i] assms(6,7) table_entry [OF assms(2)]
      by (simp add: entry_def load32_def le_word_def)
  next
    case False
    then have e: "pde (new_table m d p i) d (PDX va) = pde m d (PDX va)" using pd by simp
    show ?thesis
    proof (cases "present (pde m d (PDX va))")
      case True
      let ?t = "frame (pde m d (PDX va))"
      have t: "?t \<in> tabs m d" using True by (simp add: tabsI)
      have "?t \<noteq> d" "?t \<noteq> p" using t assms(4,5) by auto
      then have "x \<in> region ?t PGSIZE \<Longrightarrow> new_table m d p i x = m x" for x
        using pages_disjoint [OF frame_aligned assms(1), of x] pages_disjoint [OF frame_aligned assms(2), of x]
        by (intro new_table_other [OF assms(6)]) blast+
      then have "load32 (new_table m d p i) (slot ?t (PTX va)) = load32 m (slot ?t (PTX va))"
        by (intro load32_slot [OF PDX_PTX_less(2)])
      then show ?thesis using True e by (simp add: entry_def)
    qed (simp add: entry_def e)
  qed
qed

section \<open>A new entry\<close>

definition set_entry :: "memory \<Rightarrow> u32 \<Rightarrow> u32 \<Rightarrow> u32 \<Rightarrow> memory" where
  "set_entry m d va e = store32 m (slot (frame (pde m d (PDX va))) (PTX va)) e"

lemma set_entry_other: "x \<notin> region (frame (pde m d (PDX va))) PGSIZE \<Longrightarrow> set_entry m d va e x = m x"
  by (simp add: set_entry_def store_slot_other)

lemma set_entry_view:
  assumes "d mod PGSIZE = 0" and "d \<notin> tabs m d" and "tab_inj m d" and "present (pde m d (PDX va))"
  shows "j < 1024 \<Longrightarrow> pde (set_entry m d va e) d j = pde m d j"
    "entry (set_entry m d va e) d vb = (if PGROUNDDOWN vb = PGROUNDDOWN va then e else entry m d vb)"
proof -
  let ?t = "frame (pde m d (PDX va))"
  have t: "?t \<in> tabs m d" using assms(4) by (simp add: tabsI)
  have "x \<in> region d PGSIZE \<Longrightarrow> set_entry m d va e x = m x" for x
    using pages_disjoint [OF assms(1) frame_aligned, of x "pde m d (PDX va)"] t assms(2) set_entry_other by metis
  then show pd: "j < 1024 \<Longrightarrow> pde (set_entry m d va e) d j = pde m d j" for j using pde_cong by blast
  let ?u = "frame (pde m d (PDX vb))"
  show "entry (set_entry m d va e) d vb = (if PGROUNDDOWN vb = PGROUNDDOWN va then e else entry m d vb)"
  proof (cases "present (pde m d (PDX vb))")
    case False
    then have "PGROUNDDOWN vb \<noteq> PGROUNDDOWN va" using assms(4) same_page [of vb va] by metis
    then show ?thesis using False by (simp add: entry_def pd)
  next
    case True
    show ?thesis
    proof (cases "PDX vb = PDX va")
      case True
      have "load32 (set_entry m d va e) (slot ?t (PTX vb)) = (if PTX va = PTX vb then e else load32 m (slot ?t (PTX vb)))"
        unfolding set_entry_def by (rule load32_store_slot) simp_all
      moreover have "PTX va = PTX vb \<longleftrightarrow> PGROUNDDOWN vb = PGROUNDDOWN va" using True same_page [of vb va] by auto
      ultimately show ?thesis using True assms(4) by (simp add: entry_def pd)
    next
      case False
      then have "?u \<noteq> ?t" using True assms(3,4) unfolding tab_inj_def by (meson PDX_PTX_less(1))
      then have "x \<in> region ?u PGSIZE \<Longrightarrow> set_entry m d va e x = m x" for x
        using pages_disjoint [OF frame_aligned frame_aligned, of x] by (intro set_entry_other) blast
      then have "load32 (set_entry m d va e) (slot ?u (PTX vb)) = load32 m (slot ?u (PTX vb))"
        by (intro load32_slot [OF PDX_PTX_less(2)])
      moreover have "PGROUNDDOWN vb \<noteq> PGROUNDDOWN va" using False same_page [of vb va] by metis
      ultimately show ?thesis using True by (simp add: entry_def pd)
    qed
  qed
qed

section \<open>Address spaces under the two writes\<close>

lemma kalloc_inv_touches:
  assumes "kalloc_inv s xs" and "touches P s t" and "\<forall>p\<in>P. p mod PGSIZE = 0" and "P \<inter> set xs = {}"
    and "kmem_ready t" and "kmem_freelist t = kmem_freelist s"
  shows "kalloc_inv t xs"
proof -
  have "load32 (ram t) x = load32 (ram s) x" if "x \<in> set xs" for x
  proof (rule load32_cong)
    have "x mod PGSIZE = 0" "x \<notin> P" using assms(1,4) that by (auto simp: kalloc_inv_def page_ok_def)
    then show "y \<in> region x 4 \<Longrightarrow> ram t y = ram s y" for y
      using touches_page [OF assms(2,3), of x y] region4_page by blast
  qed
  then have "fl (ram t) (kmem_freelist t) xs" using assms(1,6) fl_cong [of xs "ram t" "ram s"] by (simp add: kalloc_inv_def)
  then show ?thesis using assms(1,5) touches_page_ok [OF assms(2)] by (simp add: kalloc_inv_def)
qed

lemma ready_ram [simp]: "kmem_ready (s\<lparr>ram := m\<rparr>) = kmem_ready s"
  by (simp add: kmem_ready_def)

lemma same_page_user: "PGROUNDDOWN va = PGROUNDDOWN vb \<Longrightarrow> va < KERNBASE \<longleftrightarrow> vb < KERNBASE"
proof -
  assume "PGROUNDDOWN va = PGROUNDDOWN vb"
  then have "unat (PGROUNDDOWN va) = unat (PGROUNDDOWN vb)" by simp
  then have "unat va div 4096 = unat vb div 4096" by (simp add: unat_PGROUNDDOWN)
  moreover have "x < KERNBASE \<longleftrightarrow> unat x div 4096 < 524288" for x :: u32
    by (simp add: KERNBASE_def word_less_nat_alt div_less_iff_less_mult)
  ultimately show ?thesis by simp
qed

lemma spaceD:
  assumes "space s d xs"
  shows "kalloc_inv s xs" "vspace s d" "own (ram s) d \<inter> set xs = {}" "kmem_ready s"
  using assms by (simp_all add: space_def kalloc_inv_def)

lemma tabs_new_table:
  assumes "d mod PGSIZE = 0" and "p mod PGSIZE = 0" and "p \<noteq> d" and "p \<notin> tabs m d" and "d \<notin> tabs m d"
    and "i < 1024" and "\<not> present (pde m d i)"
  shows "tabs (new_table m d p i) d = insert p (tabs m d)" "uframes (new_table m d p i) d = uframes m d"
    "own (new_table m d p i) d = insert p (own m d)" "tab_inj m d \<Longrightarrow> tab_inj (new_table m d p i) d"
proof -
  note v = new_table_view [OF assms]
  have t: "x \<in> tabs (new_table m d p i) d \<longleftrightarrow> x \<in> insert p (tabs m d)" for x
  proof
    assume "x \<in> tabs (new_table m d p i) d"
    then obtain j where j: "j < 1024" "present (pde (new_table m d p i) d j)" "x = frame (pde (new_table m d p i) d j)"
      by (auto simp: tabs_def)
    then show "x \<in> insert p (tabs m d)" using v(1) [of j] table_entry [OF assms(2)] tabsI [of j m d] by (cases "j = i") simp_all
  next
    assume "x \<in> insert p (tabs m d)"
    then consider "x = p" | j where "j < 1024" "present (pde m d j)" "x = frame (pde m d j)" by (auto simp: tabs_def)
    then show "x \<in> tabs (new_table m d p i) d"
    proof cases
      case 1
      then show ?thesis using tabsI [of i "new_table m d p i" d] v(1) [of i] assms(6) table_entry [OF assms(2)] by simp
    next
      case 2
      then have "j \<noteq> i" using assms(7) by blast
      then show ?thesis using tabsI [of j "new_table m d p i" d] v(1) [of j] 2 by simp
    qed
  qed
  then show t': "tabs (new_table m d p i) d = insert p (tabs m d)" by blast
  show u: "uframes (new_table m d p i) d = uframes m d" by (simp add: uframes_def v(2))
  show "own (new_table m d p i) d = insert p (own m d)" by (auto simp: own_def t' u)
  assume inj: "tab_inj m d"
  show "tab_inj (new_table m d p i) d"
    unfolding tab_inj_def
  proof (intro allI impI)
    fix j k :: u32
    assume j: "j < 1024" "k < 1024" "present (pde (new_table m d p i) d j)" "present (pde (new_table m d p i) d k)"
      and e: "frame (pde (new_table m d p i) d j) = frame (pde (new_table m d p i) d k)"
    have n: "frame (pde m d l) \<noteq> p" if "l < 1024" "present (pde m d l)" for l using tabsI [OF that] assms(4) by metis
    show "j = k"
      using j e inj n v(1) table_entry [OF assms(2)] unfolding tab_inj_def by (cases "j = i"; cases "k = i") (simp_all, metis+)
  qed
qed

lemma space_new_table:
  assumes "space s d (p # ys)" and "kalloc_inv u ys" and "ram u = ram s" and "kend u = kend s" and "\<not> present (pde (ram s) d (PDX va))"
  defines "t \<equiv> u\<lparr>ram := new_table (ram u) d p (PDX va)\<rparr>"
  shows "space t d ys" "own (ram t) d = insert p (own (ram s) d)" "touches {d, p} s t"
    "entry (ram t) d vb = entry (ram s) d vb" "pde (ram t) d (PDX va) = V2P p OR PTE_P OR PTE_W OR PTE_U"
    "tabs (ram t) d = insert p (tabs (ram s) d)"
proof -
  note v = vspaceD [OF spaceD(2) [OF assms(1)]]
  have "distinct (p # ys)" "page_ok s p" using spaceD(1) [OF assms(1)] by (simp_all add: kalloc_inv_def)
  then have p: "p \<notin> own (ram s) d" "page_ok s p" "p mod PGSIZE = 0" "p \<notin> set ys" and d: "d \<notin> set ys"
    using spaceD(3) [OF assms(1)] v(9) by (auto simp: page_ok_def)
  have c: "d mod PGSIZE = 0" "p \<noteq> d" "p \<notin> tabs (ram s) d" "p \<notin> uframes (ram s) d" using v(3,9,10,11) p(1) by auto
  note n = new_table_view [OF c(1) p(3) c(2,3) v(4) PDX_PTX_less(1) assms(5)]
  note o = tabs_new_table [OF c(1) p(3) c(2,3) v(4) PDX_PTX_less(1) assms(5)]
  show t: "touches {d, p} s t" using assms(3,4) new_table_other [OF PDX_PTX_less(1)] by (simp add: touches_def t_def)
  show e: "entry (ram t) d vb = entry (ram s) d vb" for vb using n(2) assms(3) by (simp add: t_def)
  show "pde (ram t) d (PDX va) = V2P p OR PTE_P OR PTE_W OR PTE_U" using n(1) assms(3) by (simp add: t_def)
  show ow: "own (ram t) d = insert p (own (ram s) d)" using o(3) assms(3) by (simp add: t_def)
  show tb: "tabs (ram t) d = insert p (tabs (ram s) d)" using o(1) assms(3) by (simp add: t_def)
  have "frame_inj (ram t) d = frame_inj (ram s) d" by (simp add: frame_inj_def e)
  then have "frame_inj (ram t) d" using v(8) by simp
  moreover have "tab_inj (ram t) d" using o(4) v(7) assms(3) by (simp add: t_def)
  moreover have "uframes (ram t) d = uframes (ram s) d" using o(2) assms(3) by (simp add: t_def)
  moreover have "\<forall>q\<in>own (ram t) d. page_ok t q" using v(2) p(2) touches_page_ok [OF t] by (simp add: ow)
  moreover have "KERNBASE < kend t" using v(1) t by (simp add: touches_def)
  ultimately have "vspace t d" using v(4,5,6) c(2,4) by (simp add: vspace_def tb)
  moreover have "kalloc_inv t ys"
  proof (rule kalloc_inv_touches [OF assms(2)])
    show "touches {d, p} u t" using t assms(3,4) by (simp add: touches_def)
    show "kmem_ready t" using assms(2) by (simp add: t_def kalloc_inv_def)
  qed (use c(1) p(3,4) d in \<open>simp_all add: t_def\<close>)
  moreover have "own (ram t) d \<inter> set ys = {}" using spaceD(3) [OF assms(1)] p(4) by (auto simp: ow)
  ultimately show "space t d ys" by (simp add: space_def)
qed

text \<open>
  The entry of the page of \<open>va\<close> becomes \<open>e\<close>: a page outside the space is mapped, a page is unmapped, or
  only the flags change.
\<close>

definition entry_change :: "'a machine_scheme \<Rightarrow> u32 \<Rightarrow> u32 list \<Rightarrow> u32 \<Rightarrow> u32 \<Rightarrow> bool" where
  "entry_change s d xs va e \<longleftrightarrow> va < KERNBASE \<longrightarrow> present e \<longrightarrow>
     page_ok s (frame e) \<and> frame e \<notin> own (ram s) d \<union> set xs
     \<or> present (entry (ram s) d va) \<and> frame e = frame (entry (ram s) d va)"

lemma set_entry_frames:
  assumes "vspace s d" and "present (pde (ram s) d (PDX va))" and "entry_change s d xs va e"
  defines "m \<equiv> set_entry (ram s) d va e"
  shows "tabs m d = tabs (ram s) d" "tab_inj m d" "frame_inj m d"
    "uframes m d \<subseteq> uframes (ram s) d \<union> (if va < KERNBASE \<and> present e then {frame e} else {})"
    "va < KERNBASE \<Longrightarrow> \<not> present e \<Longrightarrow> present (entry (ram s) d va) \<Longrightarrow> frame (entry (ram s) d va) \<notin> uframes m d"
proof -
  note v = vspaceD [OF assms(1)]
  note n = set_entry_view [OF v(3) [OF v(9)] v(4,7) assms(2), folded m_def]
  show "tabs m d = tabs (ram s) d" unfolding tabs_def m_def using n(1) [unfolded m_def] by (intro Collect_cong) metis
  show "tab_inj m d" using v(7) n(1) unfolding tab_inj_def m_def by metis
  show "uframes m d \<subseteq> uframes (ram s) d \<union> (if va < KERNBASE \<and> present e then {frame e} else {})"
  proof
    fix x assume "x \<in> uframes m d"
    then obtain vb where b: "vb < KERNBASE" "present (entry m d vb)" "x = frame (entry m d vb)" by (auto simp: uframes_def)
    show "x \<in> uframes (ram s) d \<union> (if va < KERNBASE \<and> present e then {frame e} else {})"
      using b n(2) [of e vb] uframesI [of vb "ram s" d] same_page_user [of vb va]
      by (cases "PGROUNDDOWN vb = PGROUNDDOWN va") (simp_all add: m_def)
  qed
  have old: "frame e \<noteq> frame (entry (ram s) d vb)"
    if "va < KERNBASE" "present e" "vb < KERNBASE" "present (entry (ram s) d vb)" "PGROUNDDOWN vb \<noteq> PGROUNDDOWN va" for vb
  proof
    assume eq: "frame e = frame (entry (ram s) d vb)"
    then have "frame e \<in> own (ram s) d" using uframesI [OF that(3,4)] v(11) by auto
    then have "present (entry (ram s) d va)" "frame e = frame (entry (ram s) d va)"
      using assms(3) that(1,2) by (auto simp: entry_change_def)
    then show False using v(8) that eq unfolding frame_inj_def by metis
  qed
  have new: "present (entry m d vb) \<Longrightarrow> vb < KERNBASE \<Longrightarrow>
      (PGROUNDDOWN vb = PGROUNDDOWN va \<and> entry m d vb = e \<and> va < KERNBASE \<and> present e)
      \<or> (PGROUNDDOWN vb \<noteq> PGROUNDDOWN va \<and> entry m d vb = entry (ram s) d vb \<and> present (entry (ram s) d vb))" for vb
    using n(2) [of e vb] same_page_user [of vb va] by (simp add: m_def split: if_splits)
  show "frame_inj m d"
    unfolding frame_inj_def
  proof (intro allI impI)
    fix va' vb assume a: "va' < KERNBASE" "vb < KERNBASE" "present (entry m d va')" "present (entry m d vb)"
      and e: "frame (entry m d va') = frame (entry m d vb)"
    show "PGROUNDDOWN va' = PGROUNDDOWN vb"
      using new [OF a(3,1)] new [OF a(4,2)] old [of va'] old [of vb] a(1,2) e v(8) unfolding frame_inj_def by metis
  qed
  show "frame (entry (ram s) d va) \<notin> uframes m d"
    if a: "va < KERNBASE" "\<not> present e" "present (entry (ram s) d va)"
  proof
    assume "frame (entry (ram s) d va) \<in> uframes m d"
    then obtain vb where b: "vb < KERNBASE" "present (entry m d vb)" "frame (entry (ram s) d va) = frame (entry m d vb)"
      by (auto simp: uframes_def)
    show False using new [OF b(2,1)] b(1,3) a v(8) unfolding frame_inj_def by metis
  qed
qed

lemma vspace_set_entry:
  assumes "vspace s d" and "present (pde (ram s) d (PDX va))" and "entry_change s d xs va e"
  defines "t \<equiv> s\<lparr>ram := set_entry (ram s) d va e\<rparr>"
  shows "vspace t d" "touches (tabs (ram s) d) s t"
    "entry (ram t) d vb = (if PGROUNDDOWN vb = PGROUNDDOWN va then e else entry (ram s) d vb)"
    "own (ram t) d \<subseteq> own (ram s) d \<union> (if va < KERNBASE \<and> present e then {frame e} else {})"
    "j < 1024 \<Longrightarrow> pde (ram t) d j = pde (ram s) d j" "tabs (ram t) d = tabs (ram s) d"
    "va < KERNBASE \<Longrightarrow> \<not> present e \<Longrightarrow> present (entry (ram s) d va) \<Longrightarrow> frame (entry (ram s) d va) \<notin> own (ram t) d"
proof -
  note v = vspaceD [OF assms(1)]
  note f = set_entry_frames [OF assms(1-3)]
  note n = set_entry_view [OF v(3) [OF v(9)] v(4,7) assms(2)]
  have r: "ram t = set_entry (ram s) d va e" by (simp add: t_def)
  have tt: "frame (pde (ram s) d (PDX va)) \<in> tabs (ram s) d" using assms(2) by (simp add: tabsI)
  show tc: "touches (tabs (ram s) d) s t" using tt set_entry_other by (auto simp: touches_def t_def)
  show "entry (ram t) d vb = (if PGROUNDDOWN vb = PGROUNDDOWN va then e else entry (ram s) d vb)" using n(2) by (simp add: r)
  show "j < 1024 \<Longrightarrow> pde (ram t) d j = pde (ram s) d j" using n(1) by (simp add: r)
  show tb: "tabs (ram t) d = tabs (ram s) d" using f(1) by (simp add: r)
  show ow: "own (ram t) d \<subseteq> own (ram s) d \<union> (if va < KERNBASE \<and> present e then {frame e} else {})"
    using f(4) tb by (auto simp: own_def r)
  have ok: "page_ok s q" if "q \<in> own (ram t) d" for q
  proof -
    have "q \<in> own (ram s) d \<union> (if va < KERNBASE \<and> present e then {frame e} else {})" using ow that by blast
    then consider "q \<in> own (ram s) d" | "va < KERNBASE" "present e" "q = frame e" by (auto split: if_splits)
    then show ?thesis
    proof cases
      case 2
      then have "page_ok s q \<or> q \<in> uframes (ram s) d"
        using assms(3) uframesI [of va "ram s" d] by (auto simp: entry_change_def)
      then show ?thesis using v(2,11) by blast
    qed (rule v(2))
  qed
  have notd: "q \<noteq> d \<and> q \<notin> tabs (ram s) d" if "q \<in> uframes (ram t) d" for q
  proof -
    have "q \<in> uframes (ram s) d \<or> va < KERNBASE \<and> present e \<and> q = frame e" using f(4) that by (auto simp: r split: if_splits)
    then have "q \<in> uframes (ram s) d \<or> q \<notin> own (ram s) d" using assms(3) uframesI [of va "ram s" d] by (auto simp: entry_change_def)
    then show ?thesis using v(5,6,9,10) by blast
  qed
  show "vspace t d"
    unfolding vspace_def tb
    using v(1,4) ok notd f(2,3) [folded r] touches_page_ok [OF tc] tc by (auto simp: touches_def)
  show "va < KERNBASE \<Longrightarrow> \<not> present e \<Longrightarrow> present (entry (ram s) d va) \<Longrightarrow> frame (entry (ram s) d va) \<notin> own (ram t) d"
    using f(5) uframesI [of va "ram s" d] v(5,6) by (auto simp: own_def tb r [symmetric])
qed

lemma set_entry_gain:
  assumes "vspace s d" and "present (pde (ram s) d (PDX va))" and "entry_change s d xs va e" and "\<not> present (entry (ram s) d va)"
  shows "own (ram s) d \<subseteq> own (set_entry (ram s) d va e) d" "va < KERNBASE \<Longrightarrow> present e \<Longrightarrow> frame e \<in> own (set_entry (ram s) d va e) d"
proof -
  note n = vspace_set_entry [OF assms(1-3), simplified]
  have "uframes (ram s) d \<subseteq> uframes (set_entry (ram s) d va e) d"
  proof
    fix x assume "x \<in> uframes (ram s) d"
    then obtain vb where b: "vb < KERNBASE" "present (entry (ram s) d vb)" "x = frame (entry (ram s) d vb)" by (auto simp: uframes_def)
    have "entry (ram s) d vb = entry (ram s) d va" if "PGROUNDDOWN vb = PGROUNDDOWN va"
      using same_page [of vb va] that by (simp add: entry_def)
    then have "PGROUNDDOWN vb \<noteq> PGROUNDDOWN va" using b(2) assms(4) by metis
    then show "x \<in> uframes (set_entry (ram s) d va e) d" using b uframesI [of vb "set_entry (ram s) d va e" d] n(3) [of vb] by simp
  qed
  then show "own (ram s) d \<subseteq> own (set_entry (ram s) d va e) d" using n(6) by (auto simp: own_def)
  assume "va < KERNBASE" "present e"
  then show "frame e \<in> own (set_entry (ram s) d va e) d"
    using uframesI [of va "set_entry (ram s) d va e" d] n(3) [of va] by (simp add: own_def)
qed

lemma space_set_entry:
  assumes "space s d xs" and "present (pde (ram s) d (PDX va))" and "entry_change s d xs va e"
  defines "t \<equiv> s\<lparr>ram := set_entry (ram s) d va e\<rparr>"
  shows "space t d xs"
proof -
  note v = vspaceD [OF spaceD(2) [OF assms(1)]]
  note n = vspace_set_entry [OF spaceD(2) [OF assms(1)] assms(2,3), folded t_def]
  have "own (ram s) d \<inter> set xs = {}" using spaceD(3) [OF assms(1)] .
  moreover have "frame e \<notin> set xs" if "va < KERNBASE" "present e"
  proof -
    have "frame e \<notin> set xs \<or> frame e \<in> uframes (ram s) d" using assms(3) that uframesI [of va "ram s" d] by (auto simp: entry_change_def)
    then show ?thesis using spaceD(3) [OF assms(1)] v(11) by blast
  qed
  ultimately have "own (ram t) d \<inter> set xs = {}" using n(4) by (auto split: if_splits)
  moreover have "kalloc_inv t xs"
    by (rule kalloc_inv_touches [OF spaceD(1) [OF assms(1)] n(2)])
       (use v(3,10) spaceD(3,4) [OF assms(1)] in \<open>auto simp: t_def\<close>)
  ultimately show "space t d xs" using n(1) by (simp add: space_def)
qed

end
