(* ===== verification/Vm_Alloc.thy ===== *)
theory Vm_Alloc
  imports Vm_Map
begin

text \<open>
  Growing and shrinking a user address space.  \<open>grown s d xs t ys\<close> is what mapping pages may do to the
  rest of the machine: it works in the directory, the page tables and free pages only, and takes pages
  from the free list.
\<close>

lemma page_ok_kernel: "page_ok s p \<Longrightarrow> KERNBASE \<le> p"
proof -
  assume "page_ok s p"
  then have "p - 0x80000000 < 0xE000000" by (simp add: page_ok_def V2P_def KERNBASE_def PHYSTOP_def)
  then have "0x80000000 \<le> p"
    by (simp add: word_less_nat_alt word_le_nat_alt unat_sub_if_size word_size split: if_splits)
  then show ?thesis by (simp add: KERNBASE_def)
qed

lemma slot_nonzero:
  assumes "page_ok s t" and "i < 1024"
  shows "slot t i \<noteq> 0"
proof
  assume z: "slot t i = 0"
  have "slot t i \<in> region (slot t i) 4" by (simp add: region_def)
  then have "slot t i \<in> region t PGSIZE" using slot_page [OF assms(2)] by blast
  then have "unat t div 4096 = 0" using unat_page_region [of t 0] assms(1) z by (simp add: page_ok_def)
  then have "unat t < 4096" by simp
  moreover have "2147483648 \<le> unat t" using page_ok_kernel [OF assms(1)] by (simp add: KERNBASE_def word_le_nat_alt)
  ultimately show False by simp
qed

lemma walk_False: "walkpgdir d va False s =
    Ok (if present (pde (ram s) d (PDX va)) then slot (frame (pde (ram s) d (PDX va))) (PTX va) else 0, s)"
  by (simp add: walkpgdir_def pde_def slot_def frame_def Let_def)

lemma space_touches:
  assumes "space s d xs" and "touches P s t" and "\<forall>p\<in>P. p mod PGSIZE = 0" and "d \<notin> P" and "tabs (ram s) d \<inter> P = {}"
    and "kalloc_inv t ys" and "own (ram s) d \<inter> set ys = {}"
  shows "space t d ys" "i < 1024 \<Longrightarrow> pde (ram t) d i = pde (ram s) d i" "entry (ram t) d va = entry (ram s) d va"
    "own (ram t) d = own (ram s) d" "tabs (ram t) d = tabs (ram s) d"
proof -
  note v = view_touches [OF spaceD(2) [OF assms(1)] assms(2-5)]
  show "space t d ys" using v(3,4) assms(6,7) by (simp add: space_def)
  show "i < 1024 \<Longrightarrow> pde (ram t) d i = pde (ram s) d i" "entry (ram t) d va = entry (ram s) d va"
    "own (ram t) d = own (ram s) d" by (rule v(1,2,4), assumption?)+
  show "tabs (ram t) d = tabs (ram s) d" by (rule view_cong(1)) (rule v(1,2), assumption?)+
qed

definition grown :: "'a machine_scheme \<Rightarrow> u32 \<Rightarrow> u32 list \<Rightarrow> 'a machine_scheme \<Rightarrow> u32 list \<Rightarrow> bool" where
  "grown s d xs t ys \<longleftrightarrow> space t d ys \<and> touches (insert d (tabs (ram s) d \<union> set xs)) s t \<and> set ys \<subseteq> set xs
     \<and> tabs (ram t) d \<subseteq> tabs (ram s) d \<union> set xs \<and> own (ram t) d \<subseteq> own (ram s) d \<union> set xs"

text \<open>\<open>no_leak\<close>: the pages of the space and the free pages are together the same as before.\<close>

definition no_leak :: "'a machine_scheme \<Rightarrow> u32 \<Rightarrow> u32 list \<Rightarrow> 'a machine_scheme \<Rightarrow> u32 list \<Rightarrow> bool" where
  "no_leak s d xs t ys \<longleftrightarrow> own (ram t) d \<union> set ys = own (ram s) d \<union> set xs"

lemma no_leak_refl [simp]: "no_leak s d xs s xs"
  by (simp add: no_leak_def)

lemma no_leak_trans: "no_leak s d xs t ys \<Longrightarrow> no_leak t d ys u zs \<Longrightarrow> no_leak s d xs u zs"
  by (simp add: no_leak_def)

lemma grown_refl: "space s d xs \<Longrightarrow> grown s d xs s xs"
  by (auto simp: grown_def)

lemma grown_trans: "grown s d xs t ys \<Longrightarrow> grown t d ys u zs \<Longrightarrow> grown s d xs u zs"
proof -
  assume a: "grown s d xs t ys" "grown t d ys u zs"
  have "touches (insert d (tabs (ram s) d \<union> set xs)) s u"
    using a by (intro touches_trans [of _ s t _ u]) (auto simp: grown_def)
  then show ?thesis using a unfolding grown_def by blast
qed

section \<open>Mapping one page\<close>

text \<open>One round of the loop of \<open>mappages\<close>; it fails only when it needs a page table and there is no free page.\<close>

definition mapped :: "'a machine_scheme \<Rightarrow> u32 \<Rightarrow> u32 list \<Rightarrow> u32 \<Rightarrow> u32 \<Rightarrow> u32 \<Rightarrow> 'a machine_scheme \<Rightarrow> u32 list \<Rightarrow> bool" where
  "mapped s d xs va q e t ys \<longleftrightarrow> space t d ys \<and> touches (insert d (tabs (ram s) d \<union> set xs)) s t
     \<and> set ys \<subseteq> set xs \<and> length xs \<le> Suc (length ys) \<and> tabs (ram t) d \<subseteq> tabs (ram s) d \<union> set xs
     \<and> own (ram t) d \<union> set ys = own (ram s) d \<union> set xs \<union> (if va < KERNBASE then {q} else {})
     \<and> (\<forall>vb. entry (ram t) d vb = (if PGROUNDDOWN vb = PGROUNDDOWN va then e else entry (ram s) d vb))"

lemma walk_True:
  assumes "space s d xs"
  shows "(\<exists>t ys. walkpgdir d va True s = Ok (slot (frame (pde (ram t) d (PDX va))) (PTX va), t) \<and> space t d ys
      \<and> present (pde (ram t) d (PDX va)) \<and> touches (insert d (set xs)) s t \<and> set ys \<subseteq> set xs \<and> length xs \<le> Suc (length ys)
      \<and> tabs (ram t) d \<subseteq> tabs (ram s) d \<union> set xs \<and> own (ram t) d \<union> set ys = own (ram s) d \<union> set xs \<and> set ys \<inter> own (ram t) d = {}
      \<and> (\<forall>vb. entry (ram t) d vb = entry (ram s) d vb))
    \<or> (\<exists>t. walkpgdir d va True s = Ok (0, t) \<and> xs = [] \<and> space t d [] \<and> ram t = ram s \<and> kend t = kend s)"
proof (cases "present (pde (ram s) d (PDX va))")
  case True
  then have "walkpgdir d va True s = Ok (slot (frame (pde (ram s) d (PDX va))) (PTX va), s)"
    by (simp add: walkpgdir_def pde_def slot_def frame_def Let_def)
  then show ?thesis using True assms spaceD(3) [OF assms] by auto
next
  case False
  then have w: "walkpgdir d va True s = kbind (kalloc s) (\<lambda>(p, s). if p = 0 then Ok (0, s)
      else Ok (slot p (PTX va), s\<lparr>ram := new_table (ram s) d p (PDX va)\<rparr>))"
    by (simp add: walkpgdir_def pde_def slot_def new_table_def setw_def Let_def case_prod_beta' cong: if_cong)
  show ?thesis
  proof (cases xs)
    case Nil
    then obtain u where u: "kalloc s = Ok (0, u)" "kalloc_inv u []" "ram u = ram s" "kend u = kend s"
      using kalloc_inv_Nil spaceD(1) [OF assms] by blast
    have "space u d []"
      by (rule space_touches(1) [OF assms, of "{}"]) (use u in \<open>simp_all add: touches_def\<close>)
    then show ?thesis using u w Nil by simp
  next
    case (Cons p ys)
    then obtain u where u: "kalloc s = Ok (p, u)" "kalloc_inv u ys" "ram u = ram s" "kend u = kend s"
      using kalloc_inv_Cons spaceD(1) [OF assms] by blast
    have p: "p \<noteq> 0" "p mod PGSIZE = 0" using spaceD(1) [OF assms] Cons page_ok_nonzero by (auto simp: kalloc_inv_def page_ok_def)
    let ?t = "u\<lparr>ram := new_table (ram u) d p (PDX va)\<rparr>"
    note n = space_new_table [OF assms [unfolded Cons] u(2-4) False]
    have "walkpgdir d va True s = Ok (slot (frame (pde (ram ?t) d (PDX va))) (PTX va), ?t)"
      using w u(1) p n(5) table_entry(1) [OF p(2)] by simp
    moreover have "touches (insert d (set xs)) s ?t" by (rule touches_mono [OF n(3)]) (simp add: Cons)
    moreover have "present (pde (ram ?t) d (PDX va))" using n(5) table_entry(2) [OF p(2)] by simp
    moreover have "set ys \<inter> own (ram ?t) d = {}" using spaceD(3) [OF n(1)] by blast
    moreover have "tabs (ram ?t) d \<subseteq> tabs (ram s) d \<union> set xs" "own (ram ?t) d \<union> set ys = own (ram s) d \<union> set xs"
      using n(2,6) by (auto simp: Cons)
    ultimately show ?thesis
      using n(1,4) by (intro disjI1 exI [of _ ?t] exI [of _ ys]) (simp add: Cons subset_insertI)
  qed
qed

lemma map_step:
  assumes "space s d xs" and "\<not> present (entry (ram s) d va)" and "q mod PGSIZE = 0" and "perm OR PTE_P < PGSIZE"
    and "va < KERNBASE \<Longrightarrow> page_ok s q \<and> q \<notin> own (ram s) d \<union> set xs"
  shows "(\<exists>t ys. mapped s d xs va q (V2P q OR perm OR PTE_P) t ys \<and> (\<forall>n. mappages_loop d va (V2P q) perm n s =
        (case n of 0 \<Rightarrow> Ok (0, t) | Suc m \<Rightarrow> mappages_loop d (va + PGSIZE) (V2P q + PGSIZE) perm m t)))
    \<or> (\<exists>t. xs = [] \<and> space t d [] \<and> ram t = ram s \<and> kend t = kend s \<and> (\<forall>n. mappages_loop d va (V2P q) perm n s = Ok (-1, t)))"
  using walk_True [OF assms(1), of va]
proof (elim disjE exE conjE)
  fix t assume "walkpgdir d va True s = Ok (0, t)" "xs = []" "space t d []" "ram t = ram s" "kend t = kend s"
  then show ?thesis by (intro disjI2 exI [of _ t]) (simp add: mappages_loop.simps)
next
  fix t ys
  assume w: "walkpgdir d va True s = Ok (slot (frame (pde (ram t) d (PDX va))) (PTX va), t)"
    and t: "space t d ys" "present (pde (ram t) d (PDX va))" "touches (insert d (set xs)) s t" "set ys \<subseteq> set xs" "length xs \<le> Suc (length ys)"
      "tabs (ram t) d \<subseteq> tabs (ram s) d \<union> set xs" "own (ram t) d \<union> set ys = own (ram s) d \<union> set xs"
      "\<forall>vb. entry (ram t) d vb = entry (ram s) d vb"
  let ?e = "V2P q OR perm OR PTE_P"
  let ?u = "t\<lparr>ram := set_entry (ram t) d va ?e\<rparr>"
  have fe: "frame ?e = q" using frame_entry [OF assms(3,4)] by (simp add: or.assoc)
  have c: "entry_change t d ys va ?e"
    using assms(5) t(4,7) touches_page_ok [OF t(3)] by (auto simp: entry_change_def fe set_eq_iff)
  note n = space_set_entry [OF t(1,2) c] vspace_set_entry(2-6) [OF spaceD(2) [OF t(1)] t(2) c]
  have tt: "frame (pde (ram t) d (PDX va)) \<in> own (ram t) d"
    using tabsI [OF PDX_PTX_less(1) t(2)] vspaceD(10) [OF spaceD(2) [OF t(1)]] by blast
  have nz: "slot (frame (pde (ram t) d (PDX va))) (PTX va) \<noteq> 0"
    by (rule slot_nonzero [OF vspaceD(2) [OF spaceD(2) [OF t(1)] tt] PDX_PTX_less(2)])
  have np: "\<not> present (load32 (ram t) (slot (frame (pde (ram t) d (PDX va))) (PTX va)))"
  proof -
    have "\<not> present (entry (ram t) d va)" using assms(2) t(8) by simp
    then show ?thesis using t(2) by (simp add: entry_def)
  qed
  have "\<not> present (entry (ram t) d va)" using assms(2) t(8) by simp
  note gain = set_entry_gain [OF spaceD(2) [OF t(1)] t(2) c this]
  have "mappages_loop d va (V2P q) perm n s =
      (case n of 0 \<Rightarrow> Ok (0, ?u) | Suc m \<Rightarrow> mappages_loop d (va + PGSIZE) (V2P q + PGSIZE) perm m ?u)" for n
    by (cases n; subst mappages_loop.simps) (simp_all add: w nz np setw_def set_entry_def Let_def)
  moreover have "mapped s d xs va q ?e ?u ys"
    unfolding mapped_def
  proof (intro conjI allI)
    show "touches (insert d (tabs (ram s) d \<union> set xs)) s ?u"
      by (rule touches_trans [OF t(3) n(2)]) (use t(6) in auto)
    have "own (ram t) d \<subseteq> own (ram ?u) d" "va < KERNBASE \<Longrightarrow> q \<in> own (ram ?u) d"
      using gain present_flag(1) fe by simp_all
    then show "own (ram ?u) d \<union> set ys = own (ram s) d \<union> set xs \<union> (if va < KERNBASE then {q} else {})"
      using n(4) present_flag(1) unfolding t(7) [symmetric] by (auto simp: fe split: if_splits)
    show "entry (ram ?u) d vb = (if PGROUNDDOWN vb = PGROUNDDOWN va then ?e else entry (ram s) d vb)" for vb
      using n(3) [of vb] t(8) by simp
  qed (use n(1,6) t(4,5,6) in auto)
  ultimately show ?thesis by (intro disjI1 exI conjI allI) assumption+
qed

lemma mapped_other:
  assumes "mapped s d xs va q e t ys" and "space s d xs" and "r mod PGSIZE = 0" and "r \<notin> insert d (tabs (ram s) d \<union> set xs)" and "x \<in> region r PGSIZE"
  shows "ram t x = ram s x"
proof -
  note v = vspaceD [OF spaceD(2) [OF assms(2)]]
  have "p mod PGSIZE = 0" if "p \<in> insert d (tabs (ram s) d \<union> set xs)" for p
    using that v(3,9,10) spaceD(1) [OF assms(2)] by (auto simp: kalloc_inv_def page_ok_def)
  then show ?thesis using touches_page [OF _ _ assms(3,4,5)] assms(1) by (auto simp: mapped_def)
qed

lemma mappages_one: "va mod PGSIZE = 0 \<Longrightarrow> mappages d va PGSIZE pa perm s = mappages_loop d va pa perm 0 s"
proof -
  assume "va mod PGSIZE = 0"
  then obtain k where k: "unat va = 4096 * k" using page_unat [of va] by (auto simp: mod_eq_0_iff_dvd dvd_def)
  moreover have "unat va < 4294967296" using unsigned_less [of va] by simp
  ultimately have "k < 1048576" by linarith
  then have "unat (va + PGSIZE - 1) = 4096 * k + 4095" using k by (simp add: PGSIZE_def unat_word_ariths add_diff_eq [symmetric])
  then have "unat (PGROUNDDOWN (va + PGSIZE - 1)) = unat va" "unat (PGROUNDDOWN va) = unat va" using k by (simp_all add: unat_PGROUNDDOWN)
  then have "PGROUNDDOWN (va + PGSIZE - 1) = va" "PGROUNDDOWN va = va" by (simp_all add: word_unat_eq_iff)
  then show ?thesis by (simp add: mappages_def)
qed

section \<open>Unmapping a range\<close>

lemma PGROUNDDOWN_idem [simp]: "PGROUNDDOWN (PGROUNDDOWN a) = PGROUNDDOWN a"
  by (rule bit_word_eqI) (auto simp: bit_PGROUNDDOWN)

lemma aligned_id: "a mod PGSIZE = 0 \<Longrightarrow> PGROUNDDOWN a = a"
  using PGROUNDDOWN_take_bit [of a] by (simp add: page_mod)

lemma page_le_step:
  assumes "a mod PGSIZE = 0" and "p mod PGSIZE = 0" and "a < KERNBASE"
  shows "a + PGSIZE \<le> p \<longleftrightarrow> a < p"
proof -
  obtain j k where jk: "unat a = 4096 * j" "unat p = 4096 * k"
    using page_unat [OF assms(1)] page_unat [OF assms(2)] by (auto simp: mod_eq_0_iff_dvd dvd_def)
  then have "unat (a + PGSIZE) = 4096 * (j + 1)" using assms(3) by (simp add: PGSIZE_def KERNBASE_def word_less_nat_alt unat_word_ariths)
  then have "a + PGSIZE \<le> p \<longleftrightarrow> 4096 * (j + 1) \<le> 4096 * k" "a < p \<longleftrightarrow> 4096 * j < 4096 * k"
    using jk by (simp_all add: word_le_nat_alt word_less_nat_alt)
  moreover have "4096 * (j + 1) \<le> 4096 * k \<longleftrightarrow> 4096 * j < 4096 * k" by auto
  ultimately show ?thesis by simp
qed

lemma region_step:
  assumes "a mod PGSIZE = 0" and "a < KERNBASE"
  shows "a < next_region a + PGSIZE" "(next_region a + PGSIZE) mod PGSIZE = 0"
    "a \<le> x \<Longrightarrow> x < next_region a + PGSIZE \<Longrightarrow> PDX x = PDX a"
proof -
  have a: "unat a < 2147483648" using assms(2) by (simp add: KERNBASE_def word_less_nat_alt)
  have px: "unat (PDX y) = unat y div 4194304" for y
  proof -
    have "PDX y = take_bit 10 (drop_bit 22 y)" by (simp add: PDX_def take_bit_eq_mask mask_eq_exp_minus_1)
    then have "unat (PDX y) = take_bit 10 (unat (drop_bit 22 y))" by (simp add: unsigned_take_bit_eq)
    also have "\<dots> = unat y div 4194304 mod 1024"
    proof -
      have "unat (drop_bit 22 y) = unat y div 4194304" unfolding unat_drop_bit_eq by (simp add: drop_bit_eq_div)
      then show ?thesis by (simp add: take_bit_eq_mod)
    qed
    finally have "unat (PDX y) = unat y div 4194304 mod 1024" .
    moreover have "unat y < 4294967296" using unsigned_less [of y] by (rule order_less_le_trans) simp
    then have "unat y div 4194304 < 1024" by simp
    ultimately show ?thesis by simp
  qed
  have "unat (PDX a) < 512" using a px by simp
  then have "unat (PDX a + 1) = unat (PDX a) + 1" by (simp add: unat_word_ariths)
  then have u: "unat (next_region a + PGSIZE) = (unat a div 4194304 + 1) * 4194304"
    using a px by (simp add: next_region_def PGADDR_def push_bit_eq_mult unat_word_ariths)
  show "a < next_region a + PGSIZE" using u by (simp add: word_less_nat_alt)
  have "unat ((next_region a + PGSIZE) mod PGSIZE) = (unat a div 4194304 + 1) * 4194304 mod 4096"
    using u by (simp add: unat_mod_distrib PGSIZE_def)
  also have "\<dots> = (unat a div 4194304 + 1) * 1024 * 4096 mod 4096" by simp
  also have "\<dots> = 0" by (rule mod_mult_self2_is_0)
  finally show "(next_region a + PGSIZE) mod PGSIZE = 0" by (simp add: unat_eq_zero)
  assume "a \<le> x" "x < next_region a + PGSIZE"
  then have "unat a \<le> unat x" "unat x < (unat a div 4194304 + 1) * 4194304"
    using u by (simp_all add: word_le_nat_alt word_less_nat_alt)
  then have "unat a div 4194304 \<le> unat x div 4194304" "unat x div 4194304 < unat a div 4194304 + 1"
    using div_le_mono less_mult_imp_div_less by blast+
  then have "unat x div 4194304 = unat a div 4194304" by linarith
  then have "unat (PDX x) = unat (PDX a)" by (simp add: px)
  then show "PDX x = PDX a" by (simp add: word_unat_eq_iff)
qed

text \<open>The pages that \<open>deallocuvm\<close> frees.\<close>

definition user_range :: "u32 \<Rightarrow> u32 \<Rightarrow> u32 \<Rightarrow> bool" where
  "user_range a b va \<longleftrightarrow> a \<le> PGROUNDDOWN va \<and> PGROUNDDOWN va < b"

definition range_frames :: "memory \<Rightarrow> u32 \<Rightarrow> u32 \<Rightarrow> u32 \<Rightarrow> u32 set" where
  "range_frames m d a b = {frame (entry m d va) | va. user_range a b va \<and> present (entry m d va)}"

definition unmapped :: "'a machine_scheme \<Rightarrow> u32 \<Rightarrow> u32 list \<Rightarrow> u32 \<Rightarrow> u32 \<Rightarrow> 'a machine_scheme \<Rightarrow> u32 list \<Rightarrow> bool" where
  "unmapped s d xs a b t ys \<longleftrightarrow> space t d ys \<and> set ys = set xs \<union> range_frames (ram s) d a b
     \<and> touches (tabs (ram s) d \<union> range_frames (ram s) d a b) s t
     \<and> (\<forall>i<1024. pde (ram t) d i = pde (ram s) d i) \<and> own (ram t) d \<subseteq> own (ram s) d
     \<and> (\<forall>va. entry (ram t) d va = (if user_range a b va \<and> present (entry (ram s) d va) then 0 else entry (ram s) d va))"

lemma range_framesI: "user_range a b va \<Longrightarrow> present (entry m d va) \<Longrightarrow> frame (entry m d va) \<in> range_frames m d a b"
  by (auto simp: range_frames_def)

lemma unmapped_skip:
  assumes "unmapped s d xs a' b t ys" and "\<And>va. present (entry (ram s) d va) \<Longrightarrow> user_range a b va \<longleftrightarrow> user_range a' b va"
  shows "unmapped s d xs a b t ys"
proof -
  have "range_frames (ram s) d a b = range_frames (ram s) d a' b" using assms(2) by (auto simp: range_frames_def)
  moreover have "user_range a b va \<and> present (entry (ram s) d va) \<longleftrightarrow> user_range a' b va \<and> present (entry (ram s) d va)" for va
    using assms(2) by blast
  ultimately show ?thesis using assms(1) by (simp add: unmapped_def)
qed

lemma unmapped_empty: "space s d xs \<Longrightarrow> b \<le> a \<Longrightarrow> unmapped s d xs a b s xs"
proof -
  assume "space s d xs" "b \<le> a"
  moreover from \<open>b \<le> a\<close> have "\<not> user_range a b va" for va by (auto simp: user_range_def)
  ultimately show ?thesis by (simp add: unmapped_def range_frames_def)
qed

text \<open>One page of the range: its frame goes to the free list, then its entry is cleared.\<close>

definition drop_page :: "'a machine_scheme \<Rightarrow> u32 \<Rightarrow> u32 \<Rightarrow> 'a machine_scheme \<Rightarrow> u32 list \<Rightarrow> bool" where
  "drop_page s d a t ys \<longleftrightarrow> space t d ys \<and> touches (insert (frame (entry (ram s) d a)) (tabs (ram s) d)) s t
     \<and> (\<forall>i<1024. pde (ram t) d i = pde (ram s) d i) \<and> own (ram t) d \<subseteq> own (ram s) d
     \<and> (\<forall>va. entry (ram t) d va = (if PGROUNDDOWN va = PGROUNDDOWN a then 0 else entry (ram s) d va))"

lemma drop_one:
  assumes "space s d xs" and "a < KERNBASE" and "present (entry (ram s) d a)"
  shows "\<exists>t. kbind (kfree (frame (entry (ram s) d a)) s) (\<lambda>s'. Ok (setw (slot (frame (pde (ram s) d (PDX a))) (PTX a)) 0 s')) = Ok t
     \<and> drop_page s d a t (frame (entry (ram s) d a) # xs)"
proof -
  let ?q = "frame (entry (ram s) d a)"
  note v = vspaceD [OF spaceD(2) [OF assms(1)]]
  have q: "?q \<in> uframes (ram s) d" by (rule uframesI [OF assms(2,3)])
  then have qo: "page_ok s ?q" "?q \<notin> set xs" "?q \<noteq> d" "?q \<notin> tabs (ram s) d"
  proof -
    have o: "?q \<in> own (ram s) d" using q v(11) by blast
    show "page_ok s ?q" using v(2) [OF o] .
    show "?q \<notin> set xs" using spaceD(3) [OF assms(1)] o by blast
    show "?q \<noteq> d" using v(5) q by metis
    show "?q \<notin> tabs (ram s) d" using v(6) q by blast
  qed
  obtain u where u: "kfree ?q s = Ok u" "kalloc_inv u (?q # xs)" "kend u = kend s" "\<forall>x. x \<notin> region ?q PGSIZE \<longrightarrow> ram u x = ram s x"
    using kfree_inv [OF spaceD(1) [OF assms(1)] qo(1,2)] by blast
  have tu: "touches {?q} s u" using u(3,4) by (simp add: touches_def)
  note w = view_touches [OF spaceD(2) [OF assms(1)] tu, simplified]
  have wp: "pde (ram u) d i = pde (ram s) d i" if "i < 1024" for i using w(1) that qo(3,4) by auto
  have we: "entry (ram u) d va = entry (ram s) d va" for va using w(2) qo(3,4) by auto
  have wv: "vspace u d" "own (ram u) d = own (ram s) d" using w(3,4) qo(3,4) by auto
  have pp: "present (pde (ram u) d (PDX a))" using assms(3) wp [OF PDX_PTX_less(1)] by (auto simp: entry_def present_def split: if_splits)
  let ?t = "u\<lparr>ram := set_entry (ram u) d a 0\<rparr>"
  have ec: "entry_change u d [] a 0" by (simp add: entry_change_def present_def)
  note n = vspace_set_entry [OF wv(1) pp ec]
  have tb: "tabs (ram u) d = tabs (ram s) d" by (rule view_cong(1)) (rule wp, assumption, rule we)
  have np: "\<not> present 0" by (simp add: present_def)
  have nq: "?q \<notin> own (ram ?t) d" using n(7) [OF assms(2) np] assms(3) we by simp
  have al: "\<forall>p\<in>tabs (ram u) d. p mod PGSIZE = 0" using v(3,10) tb by blast
  have di: "tabs (ram u) d \<inter> set (?q # xs) = {}" using qo(4) v(10) spaceD(3) [OF assms(1)] tb by auto
  have "kalloc_inv ?t (?q # xs)"
    by (rule kalloc_inv_touches [OF u(2) n(2) al di]) (use u(2) in \<open>simp_all add: kalloc_inv_def\<close>)
  moreover have ow: "own (ram ?t) d \<subseteq> own (ram s) d" using n(4) wv(2) np by simp
  moreover have "own (ram ?t) d \<inter> set (?q # xs) = {}" using ow nq spaceD(3) [OF assms(1)] by auto
  ultimately have "space ?t d (?q # xs)" using n(1) by (simp add: space_def)
  moreover have "touches (insert ?q (tabs (ram s) d)) s ?t" by (rule touches_trans [OF tu n(2)]) (auto simp: tb)
  moreover have "entry (ram ?t) d va = (if PGROUNDDOWN va = PGROUNDDOWN a then 0 else entry (ram s) d va)" for va
    using n(3) [of va] we [of va] by simp
  moreover have "pde (ram ?t) d i = pde (ram s) d i" if "i < 1024" for i using n(5) [OF that] wp [OF that] by simp
  ultimately have "drop_page s d a ?t (?q # xs)" using ow unfolding drop_page_def by blast
  moreover have "setw (slot (frame (pde (ram s) d (PDX a))) (PTX a)) 0 u = ?t"
    using wp [OF PDX_PTX_less(1), of a] by (simp add: setw_def set_entry_def)
  ultimately show ?thesis using u(1) by auto
qed

lemma unmapped_drop:
  assumes "drop_page s d a t (frame (entry (ram s) d a) # xs)" and "unmapped t d (frame (entry (ram s) d a) # xs) (a + PGSIZE) b u ys"
    and "a mod PGSIZE = 0" and "a < b" and "b \<le> KERNBASE" and "present (entry (ram s) d a)"
  shows "unmapped s d xs a b u ys"
proof -
  let ?q = "frame (entry (ram s) d a)"
  have ak: "a < KERNBASE" using assms(4,5) by simp
  have ur: "user_range a b va \<longleftrightarrow> PGROUNDDOWN va = a \<or> user_range (a + PGSIZE) b va" for va
    using page_le_step [OF assms(3) PGROUNDDOWN_page ak, of va] assms(4) by (auto simp: user_range_def)
  have no: "\<not> user_range (a + PGSIZE) b va" if "PGROUNDDOWN va = a" for va
    using page_le_step [OF assms(3) PGROUNDDOWN_page ak, of va] that by (auto simp: user_range_def)
  have e: "entry (ram t) d va = (if PGROUNDDOWN va = a then 0 else entry (ram s) d va)" for va
    using assms(1) aligned_id [OF assms(3)] by (simp add: drop_page_def)
  have ea: "entry (ram s) d va = entry (ram s) d a" if "PGROUNDDOWN va = a" for va
    using same_page [of va a] that aligned_id [OF assms(3)] by (simp add: entry_def)
  have np: "\<not> present 0" by (simp add: present_def)
  have rf: "range_frames (ram s) d a b = insert ?q (range_frames (ram t) d (a + PGSIZE) b)"
  proof (intro equalityI subsetI)
    fix x assume "x \<in> range_frames (ram s) d a b"
    then obtain va where "user_range a b va" "present (entry (ram s) d va)" "x = frame (entry (ram s) d va)" by (auto simp: range_frames_def)
    then show "x \<in> insert ?q (range_frames (ram t) d (a + PGSIZE) b)"
      using ur [of va] ea [of va] e [of va] range_framesI [of "a + PGSIZE" b va "ram t" d]
      by (cases "PGROUNDDOWN va = a") simp_all
  next
    fix x assume "x \<in> insert ?q (range_frames (ram t) d (a + PGSIZE) b)"
    then consider "x = ?q" | va where "user_range (a + PGSIZE) b va" "present (entry (ram t) d va)" "x = frame (entry (ram t) d va)"
      by (auto simp: range_frames_def)
    then show "x \<in> range_frames (ram s) d a b"
    proof cases
      case 1
      moreover have "user_range a b a" using ur [of a] aligned_id [OF assms(3)] by simp
      ultimately show ?thesis using assms(6) by (auto simp: range_frames_def)
    next
      case 2
      then show ?thesis using ur [of va] e [of va] np by (auto simp: range_frames_def split: if_splits)
    qed
  qed
  have tb: "tabs (ram t) d = tabs (ram s) d"
    using assms(1) unfolding tabs_def drop_page_def by (intro Collect_cong) metis
  have d: "space u d ys" "set ys = set (?q # xs) \<union> range_frames (ram t) d (a + PGSIZE) b" "own (ram u) d \<subseteq> own (ram t) d"
      "touches (tabs (ram t) d \<union> range_frames (ram t) d (a + PGSIZE) b) t u" "\<forall>i<1024. pde (ram u) d i = pde (ram t) d i"
      "\<And>va. entry (ram u) d va = (if user_range (a + PGSIZE) b va \<and> present (entry (ram t) d va) then 0 else entry (ram t) d va)"
    using assms(2) by (simp_all add: unmapped_def)
  have p: "touches (insert ?q (tabs (ram s) d)) s t" "\<forall>i<1024. pde (ram t) d i = pde (ram s) d i" "own (ram t) d \<subseteq> own (ram s) d"
    using assms(1) by (simp_all add: drop_page_def)
  show ?thesis
    unfolding unmapped_def rf
  proof (intro conjI allI impI)
    show "touches (tabs (ram s) d \<union> insert ?q (range_frames (ram t) d (a + PGSIZE) b)) s u"
      by (rule touches_trans [OF p(1) d(4)]) (auto simp: tb)
    show "entry (ram u) d va = (if user_range a b va \<and> present (entry (ram s) d va) then 0 else entry (ram s) d va)" for va
      using d(6) [of va] e [of va] ur [of va] no [of va] ea [of va] assms(6) np by (cases "PGROUNDDOWN va = a") auto
  qed (use d p in auto)
qed

text \<open>No page is lost.\<close>

lemma unmapped_pages:
  assumes "unmapped s d xs a b t ys" and "b \<le> KERNBASE"
  shows "no_leak s d xs t ys"
proof -
  have e: "\<And>va. entry (ram t) d va = (if user_range a b va \<and> present (entry (ram s) d va) then 0 else entry (ram s) d va)"
    and ow: "own (ram t) d \<subseteq> own (ram s) d" and ys: "set ys = set xs \<union> range_frames (ram s) d a b"
    and p: "\<And>i. i < 1024 \<Longrightarrow> pde (ram t) d i = pde (ram s) d i"
    using assms(1) by (simp_all add: unmapped_def)
  have t: "tabs (ram t) d = tabs (ram s) d" unfolding tabs_def using p by (intro Collect_cong) metis
  have "uframes (ram s) d \<subseteq> uframes (ram t) d \<union> range_frames (ram s) d a b"
  proof
    fix x assume "x \<in> uframes (ram s) d"
    then obtain va where "va < KERNBASE" "present (entry (ram s) d va)" "x = frame (entry (ram s) d va)" by (auto simp: uframes_def)
    then show "x \<in> uframes (ram t) d \<union> range_frames (ram s) d a b"
      using uframesI [of va "ram t" d] e [of va] range_framesI [of a b va "ram s" d] by (cases "user_range a b va") simp_all
  qed
  moreover have "range_frames (ram s) d a b \<subseteq> own (ram s) d"
  proof
    fix x assume "x \<in> range_frames (ram s) d a b"
    then obtain va where "user_range a b va" "present (entry (ram s) d va)" "x = frame (entry (ram s) d va)" by (auto simp: range_frames_def)
    moreover from \<open>user_range a b va\<close> have "va < KERNBASE"
      using same_page_user [of "PGROUNDDOWN va" va] assms(2) by (auto simp: user_range_def)
    ultimately show "x \<in> own (ram s) d" using uframesI [of va "ram s" d] by (simp add: own_def)
  qed
  ultimately show ?thesis using ow ys t by (auto simp: no_leak_def own_def)
qed

end
