(* ===== verification/Vm_Grow.thy ===== *)
theory Vm_Grow
  imports Vm_Alloc
begin

text \<open>
  \<open>deallocuvm\<close> and \<open>allocuvm\<close> on an address space: the first unmaps the pages of the range and gives
  their frames back; the second maps every page of the range to a zeroed free page, or fails for lack
  of free pages and leaves the mapping as it was.
\<close>

section \<open>deallocuvm\<close>

lemma frame_nonzero: "page_ok s (frame e) \<Longrightarrow> KERNBASE < kend s \<Longrightarrow> PTE_ADDR e \<noteq> 0"
  by (auto simp: page_ok_def frame_def P2V_def)

lemma dealloc_step:
  assumes "space s d xs" and "a < b" and "b \<le> KERNBASE"
  shows "\<not> present (pde (ram s) d (PDX a)) \<Longrightarrow> a < next_region a + PGSIZE \<Longrightarrow>
      deallocuvm_from d a b s = deallocuvm_from d (next_region a + PGSIZE) b s"
    "present (pde (ram s) d (PDX a)) \<Longrightarrow> \<not> present (entry (ram s) d a) \<Longrightarrow>
      deallocuvm_from d a b s = deallocuvm_from d (a + PGSIZE) b s"
    "present (entry (ram s) d a) \<Longrightarrow> deallocuvm_from d a b s =
      kbind (kbind (kfree (frame (entry (ram s) d a)) s) (\<lambda>s'. Ok (setw (slot (frame (pde (ram s) d (PDX a))) (PTX a)) 0 s')))
        (deallocuvm_from d (a + PGSIZE) b)"
proof -
  note v = vspaceD [OF spaceD(2) [OF assms(1)]]
  have ak: "a < KERNBASE" using assms(2,3) by simp
  have w: "a < a + PGSIZE" by (rule no_wrap [OF assms(2,3)])
  have nz: "slot (frame (pde (ram s) d (PDX a))) (PTX a) \<noteq> 0" if "present (pde (ram s) d (PDX a))"
  proof -
    have "frame (pde (ram s) d (PDX a)) \<in> own (ram s) d" using tabsI [OF PDX_PTX_less(1) that] v(10) by blast
    then show ?thesis by (rule slot_nonzero [OF v(2) PDX_PTX_less(2)])
  qed
  show "\<not> present (pde (ram s) d (PDX a)) \<Longrightarrow> a < next_region a + PGSIZE \<Longrightarrow>
      deallocuvm_from d a b s = deallocuvm_from d (next_region a + PGSIZE) b s"
    using assms(2) by (subst deallocuvm_from.simps) (simp add: walk_False Let_def)
  show "present (pde (ram s) d (PDX a)) \<Longrightarrow> \<not> present (entry (ram s) d a) \<Longrightarrow>
      deallocuvm_from d a b s = deallocuvm_from d (a + PGSIZE) b s"
    using assms(2) nz w by (subst deallocuvm_from.simps) (simp add: walk_False Let_def entry_def)
  assume e: "present (entry (ram s) d a)"
  then have p: "present (pde (ram s) d (PDX a))" by (auto simp: entry_def present_def split: if_splits)
  have "frame (entry (ram s) d a) \<in> own (ram s) d" using uframesI [OF ak e] v(11) by blast
  then have z: "PTE_ADDR (entry (ram s) d a) \<noteq> 0" using frame_nonzero v(1,2) by blast
  have l: "load32 (ram s) (slot (frame (pde (ram s) d (PDX a))) (PTX a)) = entry (ram s) d a" using p by (simp add: entry_def)
  show "deallocuvm_from d a b s =
      kbind (kbind (kfree (frame (entry (ram s) d a)) s) (\<lambda>s'. Ok (setw (slot (frame (pde (ram s) d (PDX a))) (PTX a)) 0 s')))
        (deallocuvm_from d (a + PGSIZE) b)"
    using assms(2) w nz [OF p] p l e z by (subst deallocuvm_from.simps) (simp add: walk_False Let_def kbind_assoc flip: frame_def)
qed

lemma deallocuvm_from_ok:
  assumes "space s d xs" and "a mod PGSIZE = 0" and "b \<le> KERNBASE"
  shows "\<exists>t ys. deallocuvm_from d a b s = Ok t \<and> unmapped s d xs a b t ys"
  using assms
proof (induction a arbitrary: s xs rule: word_up_induct)
  case (up a)
  show ?case
  proof (cases "a < b")
    case False
    then show ?thesis using unmapped_empty [OF up.prems(1), of b a] by (subst deallocuvm_from.simps) (auto simp: not_less)
  next
    case True
    note ds = dealloc_step [OF up.prems(1) True up.prems(3)]
    have ak: "a < KERNBASE" using True up.prems(3) by simp
    have w: "a < a + PGSIZE" by (rule no_wrap [OF True up.prems(3)])
    note rs = region_step [OF up.prems(2) ak]
    note al = aligned_id [OF up.prems(2)]
    have nx: "present (entry (ram s) d va) \<Longrightarrow> PGROUNDDOWN va = a \<Longrightarrow> present (entry (ram s) d a)" for va
      using same_page [of va a] al by (auto simp: entry_def)
    consider "\<not> present (pde (ram s) d (PDX a))" | "present (pde (ram s) d (PDX a))" "\<not> present (entry (ram s) d a)"
      | "present (entry (ram s) d a)" by blast
    then show ?thesis
    proof cases
      case 1
      obtain t ys where t: "deallocuvm_from d (next_region a + PGSIZE) b s = Ok t" "unmapped s d xs (next_region a + PGSIZE) b t ys"
        using up.IH [OF rs(1) up.prems(1) rs(2) up.prems(3)] by blast
      have "unmapped s d xs a b t ys"
      proof (rule unmapped_skip [OF t(2)])
        fix va assume p: "present (entry (ram s) d va)"
        have "\<not> (a \<le> PGROUNDDOWN va \<and> PGROUNDDOWN va < next_region a + PGSIZE)"
        proof
          assume "a \<le> PGROUNDDOWN va \<and> PGROUNDDOWN va < next_region a + PGSIZE"
          then have "PDX va = PDX a" using rs(3) [of "PGROUNDDOWN va"] same_page [of va "PGROUNDDOWN va"] by simp
          then show False using p 1 by (simp add: entry_def present_def)
        qed
        then show "user_range a b va \<longleftrightarrow> user_range (next_region a + PGSIZE) b va" using rs(1) by (auto simp: user_range_def)
      qed
      then show ?thesis using ds(1) [OF 1 rs(1)] t(1) by auto
    next
      case 2
      obtain t ys where t: "deallocuvm_from d (a + PGSIZE) b s = Ok t" "unmapped s d xs (a + PGSIZE) b t ys"
        using up.IH [OF w up.prems(1) page_aligned_step [OF up.prems(2)] up.prems(3)] by blast
      have "unmapped s d xs a b t ys"
        by (rule unmapped_skip [OF t(2)])
           (use nx 2(2) page_le_step [OF up.prems(2) PGROUNDDOWN_page ak] in \<open>auto simp: user_range_def order_le_less\<close>)
      then show ?thesis using ds(2) [OF 2] t(1) by auto
    next
      case 3
      obtain u where u: "kbind (kfree (frame (entry (ram s) d a)) s) (\<lambda>s'. Ok (setw (slot (frame (pde (ram s) d (PDX a))) (PTX a)) 0 s')) = Ok u"
          "drop_page s d a u (frame (entry (ram s) d a) # xs)"
        using drop_one [OF up.prems(1) ak 3] by blast
      obtain t ys where t: "deallocuvm_from d (a + PGSIZE) b u = Ok t" "unmapped u d (frame (entry (ram s) d a) # xs) (a + PGSIZE) b t ys"
        using up.IH [OF w _ page_aligned_step [OF up.prems(2)] up.prems(3), of u "frame (entry (ram s) d a) # xs"] u(2)
        by (auto simp: drop_page_def)
      show ?thesis using ds(3) [OF 3] u(1) t(1) unmapped_drop [OF u(2) t(2) up.prems(2) True up.prems(3) 3] by auto
    qed
  qed
qed

section \<open>allocuvm\<close>

text \<open>
  What \<open>allocuvm\<close> has done when its loop is at the address \<open>a\<close>: the pages from \<open>a0\<close> to \<open>a\<close> are mapped to
  zeroed pages of the free list, and all else is as it was.
\<close>

definition user_entry :: "u32 \<Rightarrow> u32" where
  "user_entry q = V2P q OR (PTE_W OR PTE_U) OR PTE_P"

definition fresh_page :: "'a machine_scheme \<Rightarrow> u32 \<Rightarrow> u32 list \<Rightarrow> u32 \<Rightarrow> bool" where
  "fresh_page t d xs va \<longleftrightarrow> (\<exists>q\<in>set xs. entry (ram t) d va = user_entry q \<and> (\<forall>x\<in>region q PGSIZE. ram t x = 0))"

definition filled :: "'a machine_scheme \<Rightarrow> u32 \<Rightarrow> u32 list \<Rightarrow> u32 \<Rightarrow> u32 \<Rightarrow> u32 \<Rightarrow> 'a machine_scheme \<Rightarrow> u32 list \<Rightarrow> bool" where
  "filled s d xs a0 b a t ys \<longleftrightarrow> grown s d xs t ys
     \<and> (\<forall>va. if user_range a0 b va \<and> PGROUNDDOWN va < a then fresh_page t d xs va else entry (ram t) d va = entry (ram s) d va)"

lemma user_entry_facts:
  assumes "q mod PGSIZE = 0"
  shows "frame (user_entry q) = q" "present (user_entry q)"
proof -
  have "user_entry q = V2P q OR 7" by (simp add: user_entry_def PTE_W_def PTE_U_def PTE_P_def or.assoc)
  then show "frame (user_entry q) = q" using frame_entry [OF assms, of 7] by (simp add: PGSIZE_def)
  show "present (user_entry q)" unfolding user_entry_def by (rule present_flag(1))
qed

lemma space_page: "space s d xs \<Longrightarrow> x \<in> set xs \<Longrightarrow> page_ok s x \<and> x mod PGSIZE = 0"
  using spaceD(1) by (auto simp: kalloc_inv_def page_ok_def)

text \<open>A page of the free list, taken and filled with any contents.\<close>

lemma take_page:
  assumes "space s d (q # xs)" and "\<And>x. x \<notin> region q PGSIZE \<Longrightarrow> m x = ram s x"
  shows "\<exists>u. kalloc s = Ok (q, u) \<and> ram u = ram s \<and> space (u\<lparr>ram := m\<rparr>) d xs \<and> touches {q} s (u\<lparr>ram := m\<rparr>)
     \<and> (\<forall>va. entry m d va = entry (ram s) d va) \<and> own m d = own (ram s) d \<and> tabs m d = tabs (ram s) d
     \<and> q \<noteq> 0 \<and> page_ok s q \<and> q \<notin> own (ram s) d \<union> set xs"
proof -
  obtain u where u: "kalloc s = Ok (q, u)" "kalloc_inv u xs" "ram u = ram s" "kend u = kend s"
    using kalloc_inv_Cons spaceD(1) [OF assms(1)] by blast
  let ?v = "u\<lparr>ram := m\<rparr>"
  have q: "page_ok s q" "q mod PGSIZE = 0" "q \<notin> set xs" "q \<notin> own (ram s) d"
    using space_page [OF assms(1), of q] spaceD(1,3) [OF assms(1)] by (auto simp: kalloc_inv_def)
  have t: "touches {q} s ?v" "touches {q} u ?v" using u(3,4) assms(2) by (simp_all add: touches_def)
  have k: "kalloc_inv ?v xs"
    by (rule kalloc_inv_touches [OF u(2) t(2)]) (use q u(2) in \<open>simp_all add: kalloc_inv_def\<close>)
  have c: "\<forall>p\<in>{q}. p mod PGSIZE = 0" "d \<notin> {q}" "tabs (ram s) d \<inter> {q} = {}" "own (ram s) d \<inter> set xs = {}"
    using q vspaceD(9,10) [OF spaceD(2) [OF assms(1)]] spaceD(3) [OF assms(1)] by auto
  note sp = space_touches [OF assms(1) t(1) c(1-3) k c(4)]
  show ?thesis
    using u(1,3) t(1) sp(1,3,4,5) page_ok_nonzero [OF q(1)] q by (intro exI [of _ u]) simp
qed

text \<open>A zeroed free page, taken by \<open>kalloc\<close>.\<close>

lemma take_zeroed:
  assumes "space s d (q # xs)"
  shows "\<exists>u. kalloc s = Ok (q, u) \<and> (let v = u\<lparr>ram := memset (ram u) q 0 PGSIZE\<rparr> in space v d xs \<and> touches {q} s v
     \<and> (\<forall>va. entry (ram v) d va = entry (ram s) d va) \<and> own (ram v) d = own (ram s) d \<and> tabs (ram v) d = tabs (ram s) d
     \<and> (\<forall>x\<in>region q PGSIZE. ram v x = 0)) \<and> q \<noteq> 0 \<and> page_ok s q \<and> q \<notin> own (ram s) d \<union> set xs"
proof -
  let ?m = "memset (ram s) q 0 PGSIZE"
  obtain u where u: "kalloc s = Ok (q, u)" "ram u = ram s" "space (u\<lparr>ram := ?m\<rparr>) d xs" "touches {q} s (u\<lparr>ram := ?m\<rparr>)"
      "\<forall>va. entry ?m d va = entry (ram s) d va" "own ?m d = own (ram s) d" "tabs ?m d = tabs (ram s) d"
      "q \<noteq> 0" "page_ok s q" "q \<notin> own (ram s) d \<union> set xs"
    using take_page [OF assms, of ?m] memset_other by metis
  have "?m x = 0" if "x \<in> region q PGSIZE" for x using that by (simp add: memset_def region_def)
  then show ?thesis using u by (intro exI [of _ u]) (simp add: Let_def)
qed

lemma user_range_user: "user_range a0 b va \<Longrightarrow> b \<le> KERNBASE \<Longrightarrow> va < KERNBASE"
  using same_page_user [of "PGROUNDDOWN va" va] by (auto simp: user_range_def)

text \<open>A frame of user memory, seen through code that only works on page tables and free pages.\<close>

lemma user_frame_kept:
  assumes "space s d xs" and "va < KERNBASE" and "present (entry (ram s) d va)"
    and "touches P s t" and "P \<subseteq> insert d (tabs (ram s) d \<union> set xs)" and "x \<in> region (frame (entry (ram s) d va)) PGSIZE"
  shows "ram t x = ram s x"
proof (rule touches_page [OF assms(4) _ frame_aligned _ assms(6)])
  note v = vspaceD [OF spaceD(2) [OF assms(1)]]
  have u: "frame (entry (ram s) d va) \<in> uframes (ram s) d" by (rule uframesI [OF assms(2,3)])
  then have "frame (entry (ram s) d va) \<noteq> d" "frame (entry (ram s) d va) \<notin> tabs (ram s) d" "frame (entry (ram s) d va) \<notin> set xs"
    using v(5,6,11) spaceD(3) [OF assms(1)] by (metis, blast, blast)
  then show "frame (entry (ram s) d va) \<notin> P" using assms(5) by blast
  show "\<forall>p\<in>P. p mod PGSIZE = 0" using assms(5) v(3,9,10) space_page [OF assms(1)] by blast
qed

lemma filled_step:
  assumes "filled s d xs a0 b a t (q # zs)" and "mapped v d zs a q (user_entry q) u ws" and "space v d zs"
    and v: "touches {q} t v" "\<forall>va. entry (ram v) d va = entry (ram t) d va" "own (ram v) d = own (ram t) d" "tabs (ram v) d = tabs (ram t) d"
      "\<forall>x\<in>region q PGSIZE. ram v x = 0" "q \<notin> own (ram t) d \<union> set zs"
    and "a mod PGSIZE = 0" and "a0 \<le> a" and "a < b" and "b \<le> KERNBASE" and "space s d xs"
  shows "filled s d xs a0 b (a + PGSIZE) u ws" "no_leak t d (q # zs) u ws"
proof -
  have g: "grown s d xs t (q # zs)"
    and e: "\<And>va. if user_range a0 b va \<and> PGROUNDDOWN va < a then fresh_page t d xs va else entry (ram t) d va = entry (ram s) d va"
    using assms(1) by (simp_all add: filled_def)
  have ak: "a < KERNBASE" using assms(12,13) by simp
  have m: "space u d ws" "touches (insert d (tabs (ram v) d \<union> set zs)) v u" "set ws \<subseteq> set zs" "length zs \<le> Suc (length ws)"
      "tabs (ram u) d \<subseteq> tabs (ram v) d \<union> set zs" "own (ram u) d \<union> set ws = own (ram v) d \<union> set zs \<union> {q}"
      "\<And>va. entry (ram u) d va = (if PGROUNDDOWN va = PGROUNDDOWN a then user_entry q else entry (ram v) d va)"
    using assms(2) ak by (simp_all add: mapped_def)
  have xs: "set (q # zs) \<subseteq> set xs" using g by (simp add: grown_def)
  have al: "PGROUNDDOWN a = a" by (rule aligned_id [OF assms(10)])
  have st: "PGROUNDDOWN va < a + PGSIZE \<longleftrightarrow> PGROUNDDOWN va < a \<or> PGROUNDDOWN va = a" for va
    using page_le_step [OF assms(10) PGROUNDDOWN_page ak, of va] by (auto simp: not_less order_le_less)
  have "touches (insert d (tabs (ram t) d \<union> set (q # zs))) t u"
    by (rule touches_trans [OF v(1) m(2)]) (auto simp: v(4))
  moreover have "own (ram u) d \<subseteq> own (ram t) d \<union> set (q # zs)" using m(6) v(3) by auto
  ultimately have "grown t d (q # zs) u ws" using m(1,3,5) v(4) by (auto simp: grown_def)
  then have "grown s d xs u ws" by (rule grown_trans [OF g])
  moreover have "if user_range a0 b va \<and> PGROUNDDOWN va < a + PGSIZE then fresh_page u d xs va else entry (ram u) d va = entry (ram s) d va" for va
  proof (cases "PGROUNDDOWN va = a")
    case True
    have "ram u x = 0" if "x \<in> region q PGSIZE" for x
    proof -
      have "q \<notin> insert d (tabs (ram v) d \<union> set zs)" "q mod PGSIZE = 0"
        using v(3,4,6) vspaceD(9,10) [OF spaceD(2) [OF assms(3)]] space_page [of t d "q # zs" q] g by (auto simp: grown_def)
      then show ?thesis using mapped_other [OF assms(2,3) _ _ that] v(5) that by metis
    qed
    then have "fresh_page u d xs va" using m(7) [of va] True al xs by (auto simp: fresh_page_def)
    moreover have "user_range a0 b va \<and> PGROUNDDOWN va < a + PGSIZE" using st [of va] True assms(11,12) by (simp add: user_range_def)
    ultimately show ?thesis by simp
  next
    case False
    then have eu: "entry (ram u) d va = entry (ram t) d va" using m(7) [of va] v(2) al by simp
    show ?thesis
    proof (cases "user_range a0 b va \<and> PGROUNDDOWN va < a")
      case True
      then obtain r where r: "r \<in> set xs" "entry (ram t) d va = user_entry r" "\<forall>x\<in>region r PGSIZE. ram t x = 0"
        using e [of va] by (auto simp: fresh_page_def)
      have vk: "va < KERNBASE" using user_range_user True assms(13) by blast
      have sp: "space t d (q # zs)" using g by (simp add: grown_def)
      have ra: "r mod PGSIZE = 0" using space_page [OF assms(14) r(1)] by simp
      have fr: "frame (entry (ram t) d va) = r" "present (entry (ram t) d va)" using user_entry_facts [OF ra] r(2) by simp_all
      have "touches (insert d (tabs (ram t) d \<union> set (q # zs))) t u" by fact
      then have "ram u x = 0" if "x \<in> region r PGSIZE" for x
        using user_frame_kept [OF sp vk fr(2) _ _ that [folded fr(1)]] r(3) that by auto
      then have "fresh_page u d xs va" using eu r(1,2) by (auto simp: fresh_page_def)
      then show ?thesis using True st [of va] by simp
    next
      case False
      then show ?thesis using e [of va] eu st [of va] \<open>PGROUNDDOWN va \<noteq> a\<close> by auto
    qed
  qed
  ultimately show "filled s d xs a0 b (a + PGSIZE) u ws" by (simp add: filled_def)
  show "no_leak t d (q # zs) u ws" using m(6) v(3) by (simp add: no_leak_def)
qed

text \<open>
  The end of \<open>allocuvm\<close>.  \<open>unchanged\<close>: no page could be mapped, and the address space is the one before
  the call; only page tables may have been added.
\<close>

definition unchanged :: "'a machine_scheme \<Rightarrow> u32 \<Rightarrow> u32 list \<Rightarrow> 'a machine_scheme \<Rightarrow> u32 list \<Rightarrow> bool" where
  "unchanged s d xs t ys \<longleftrightarrow> grown s d xs t ys \<and> (\<forall>va. entry (ram t) d va = entry (ram s) d va)"

lemma filled_undo:
  assumes "filled s d xs (PGROUNDUP old) new a t ys" and "new < KERNBASE" and "old < new"
    and "\<And>va. user_range (PGROUNDUP old) new va \<Longrightarrow> entry (ram s) d va = 0" and "space s d xs"
  shows "\<exists>u zs. deallocuvm d new old t = Ok (old, u) \<and> unchanged s d xs u zs \<and> set ys \<subseteq> set zs \<and> own (ram u) d \<subseteq> own (ram t) d
    \<and> set zs \<subseteq> set ys \<union> range_frames (ram t) d (PGROUNDUP old) new \<and> no_leak t d ys u zs"
proof -
  have g: "grown s d xs t ys" and e: "\<And>va. if user_range (PGROUNDUP old) new va \<and> PGROUNDDOWN va < a
      then fresh_page t d xs va else entry (ram t) d va = entry (ram s) d va"
    using assms(1) by (simp_all add: filled_def)
  have t: "space t d ys" using g by (simp add: grown_def)
  have al: "PGROUNDUP old mod PGSIZE = 0" by (simp add: PGROUNDUP_eq)
  have nk: "new \<le> KERNBASE" using assms(2) by simp
  obtain u zs where u: "deallocuvm_from d (PGROUNDUP old) new t = Ok u" "unmapped t d ys (PGROUNDUP old) new u zs"
    using deallocuvm_from_ok [OF t al nk] by blast
  let ?R = "range_frames (ram t) d (PGROUNDUP old) new"
  have f: "space u d zs" "set zs = set ys \<union> ?R" "touches (tabs (ram t) d \<union> ?R) t u" "\<forall>i<1024. pde (ram u) d i = pde (ram t) d i"
      "own (ram u) d \<subseteq> own (ram t) d" "\<And>va. entry (ram u) d va =
        (if user_range (PGROUNDUP old) new va \<and> present (entry (ram t) d va) then 0 else entry (ram t) d va)"
    using u(2) by (simp_all add: unmapped_def)
  have R: "?R \<subseteq> set xs"
  proof
    fix x assume "x \<in> ?R"
    then obtain va where va: "user_range (PGROUNDUP old) new va" "present (entry (ram t) d va)" "x = frame (entry (ram t) d va)"
      by (auto simp: range_frames_def)
    then have "fresh_page t d xs va" using e [of va] assms(4) [OF va(1)] by (auto simp: present_def split: if_splits)
    then obtain q where "q \<in> set xs" "entry (ram t) d va = user_entry q" by (auto simp: fresh_page_def)
    then show "x \<in> set xs" using va(3) user_entry_facts [of q] space_page [OF assms(5)] by simp
  qed
  have "entry (ram u) d va = entry (ram s) d va" for va
  proof (cases "user_range (PGROUNDUP old) new va")
    case True
    then show ?thesis using f(6) [of va] e [of va] assms(4) [OF True] user_entry_facts space_page [OF assms(5)]
      by (auto simp: fresh_page_def present_def split: if_splits)
  qed (use f(6) e in auto)
  moreover have "grown s d xs u zs"
  proof -
    have tb: "tabs (ram u) d = tabs (ram t) d" unfolding tabs_def using f(4) by (intro Collect_cong) metis
    have gt: "touches (insert d (tabs (ram s) d \<union> set xs)) s t" "set ys \<subseteq> set xs" "tabs (ram t) d \<subseteq> tabs (ram s) d \<union> set xs"
        "own (ram t) d \<subseteq> own (ram s) d \<union> set xs"
      using g by (simp_all add: grown_def)
    have "touches (insert d (tabs (ram s) d \<union> set xs)) s u"
      by (rule touches_trans [OF gt(1) f(3)]) (use gt R in auto)
    then show ?thesis using f(1,2,5) gt R tb by (auto simp: grown_def)
  qed
  ultimately have "unchanged s d xs u zs" by (simp add: unchanged_def)
  moreover have "deallocuvm d new old t = Ok (old, u)" using u(1) assms(3) by (auto simp: deallocuvm_def)
  ultimately show ?thesis using f(2,5) unmapped_pages [OF u(2) nk] by auto
qed

definition range_pages :: "u32 \<Rightarrow> u32 \<Rightarrow> nat" where
  "range_pages a b = (unat b - unat a + 4095) div 4096"

definition alloc_result :: "'a machine_scheme \<Rightarrow> u32 \<Rightarrow> u32 list \<Rightarrow> u32 \<Rightarrow> u32 \<Rightarrow> (u32 \<times> 'a machine_scheme) kres \<Rightarrow> bool" where
  "alloc_result s d xs a0 new r \<longleftrightarrow>
     (\<exists>u zs. r = Ok (new, u) \<and> grown s d xs u zs \<and> no_leak s d xs u zs
        \<and> (\<forall>va. if user_range a0 new va then fresh_page u d xs va else entry (ram u) d va = entry (ram s) d va))
     \<or> (\<exists>u zs. r = Ok (0, u) \<and> unchanged s d xs u zs \<and> no_leak s d xs u zs \<and> length xs < 2 * range_pages a0 new)"

lemma give_back:
  assumes "space t d ys" and "page_ok t q" and "q \<notin> set ys" and "q \<notin> own (ram t) d"
  shows "\<exists>u. kfree q t = Ok u \<and> space u d (q # ys) \<and> touches {q} t u \<and> (\<forall>va. entry (ram u) d va = entry (ram t) d va)
    \<and> own (ram u) d = own (ram t) d \<and> tabs (ram u) d = tabs (ram t) d"
proof -
  obtain u where u: "kfree q t = Ok u" "kalloc_inv u (q # ys)" "kend u = kend t" "\<forall>x. x \<notin> region q PGSIZE \<longrightarrow> ram u x = ram t x"
    using kfree_inv [OF spaceD(1) [OF assms(1)] assms(2,3)] by blast
  have tu: "touches {q} t u" using u(3,4) by (simp add: touches_def)
  have c: "\<forall>p\<in>{q}. p mod PGSIZE = 0" "d \<notin> {q}" "tabs (ram t) d \<inter> {q} = {}" "own (ram t) d \<inter> set (q # ys) = {}"
    using assms(2,4) vspaceD(9,10) [OF spaceD(2) [OF assms(1)]] spaceD(3) [OF assms(1)] by (auto simp: page_ok_def)
  note sp = space_touches [OF assms(1) tu c(1-3) u(2) c(4)]
  show ?thesis using u(1) tu sp(1,3,4,5) by auto
qed

lemma next_pages:
  assumes "length xs \<le> Suc n + 2 * ((unat a - unat a0) div 4096)" and "n \<le> Suc m" and "a < KERNBASE" and "a0 \<le> a"
  shows "length xs \<le> m + 2 * ((unat (a + PGSIZE) - unat a0) div 4096)"
proof -
  have "unat (a + PGSIZE) = unat a + 4096" using assms(3) by (simp add: PGSIZE_def KERNBASE_def word_less_nat_alt unat_word_ariths)
  moreover have "unat a0 \<le> unat a" using assms(4) by (simp add: word_le_nat_alt)
  ultimately have "unat (a + PGSIZE) - unat a0 = (unat a - unat a0) + 4096" by simp
  then have "(unat (a + PGSIZE) - unat a0) div 4096 = (unat a - unat a0) div 4096 + 1" by simp
  then show ?thesis using assms(1,2) by simp
qed

lemma filled_keep:
  assumes "filled s d xs a0 b a t ys" and "grown t d ys u ws" and "\<And>va. entry (ram u) d va = entry (ram t) d va" and "space s d xs" and "b \<le> KERNBASE"
  shows "filled s d xs a0 b a u ws"
proof -
  have g: "grown s d xs t ys" and e: "\<And>va. if user_range a0 b va \<and> PGROUNDDOWN va < a then fresh_page t d xs va else entry (ram t) d va = entry (ram s) d va"
    using assms(1) by (simp_all add: filled_def)
  have "fresh_page u d xs va" if ur: "user_range a0 b va" and fp: "fresh_page t d xs va" for va
  proof -
    obtain q where q: "q \<in> set xs" "entry (ram t) d va = user_entry q" "\<forall>x\<in>region q PGSIZE. ram t x = 0"
      using fp by (auto simp: fresh_page_def)
    note f = user_entry_facts [of q, folded q(2)]
    have qa: "q mod PGSIZE = 0" using space_page [OF assms(4) q(1)] by simp
    have "ram u x = 0" if "x \<in> region q PGSIZE" for x
      using user_frame_kept [of t d ys va "insert d (tabs (ram t) d \<union> set ys)" u x] g assms(2) f [OF qa] that q(3)
        user_range_user [OF ur assms(5)] by (auto simp: grown_def)
    then show ?thesis using q(1,2) assms(3) by (auto simp: fresh_page_def)
  qed
  moreover have "grown s d xs u ws" by (rule grown_trans [OF g assms(2)])
  ultimately show ?thesis using e assms(3) unfolding filled_def by metis
qed

lemma few_pages:
  assumes "length xs \<le> n + 2 * ((unat a - unat a0) div 4096)" and "n \<le> 1" and "a < new" and "a0 \<le> a" and "a mod PGSIZE = 0" and "a0 mod PGSIZE = 0"
  shows "length xs < 2 * range_pages a0 new"
proof -
  obtain j k where j: "unat a = 4096 * j" "unat a0 = 4096 * k"
    using page_unat [OF assms(5)] page_unat [OF assms(6)] by (auto simp: mod_eq_0_iff_dvd dvd_def)
  have l: "4096 * j < unat new" "k \<le> j" using assms(3,4) j by (simp_all add: word_less_nat_alt word_le_nat_alt)
  then have "4096 * (j - k) + 4096 \<le> unat new - unat a0 + 4095" using j by linarith
  then have "(4096 * (j - k) + 4096) div 4096 \<le> range_pages a0 new" unfolding range_pages_def by (rule div_le_mono)
  then have "(j - k) + 1 \<le> range_pages a0 new" by simp
  moreover have "(unat a - unat a0) div 4096 = j - k" using j by (simp flip: diff_mult_distrib2)
  ultimately show ?thesis using assms(1,2) by linarith
qed

lemma allocuvm_from_ok:
  assumes "filled s d xs (PGROUNDUP old) new a t ys" and "space s d xs" and "new < KERNBASE" and "old < new"
    and "\<And>va. user_range (PGROUNDUP old) new va \<Longrightarrow> entry (ram s) d va = 0" and "a mod PGSIZE = 0" and "PGROUNDUP old \<le> a"
    and "length xs \<le> length ys + 2 * ((unat a - unat (PGROUNDUP old)) div 4096)" and "no_leak s d xs t ys"
  shows "alloc_result s d xs (PGROUNDUP old) new (allocuvm_from d a old new t)"
  using assms(1,6,7,8,9)
proof (induction a arbitrary: t ys rule: word_up_induct)
  case (up a)
  let ?a0 = "PGROUNDUP old"
  note fl = up.prems(1)
  have e: "\<And>va. if user_range ?a0 new va \<and> PGROUNDDOWN va < a then fresh_page t d xs va else entry (ram t) d va = entry (ram s) d va"
    and g: "grown s d xs t ys" and t: "space t d ys" using fl by (simp_all add: filled_def grown_def)
  show ?case
  proof (cases "a < new")
    case False
    then have "allocuvm_from d a old new t = Ok (new, t)" by (subst allocuvm_from.simps) simp
    moreover have "if user_range ?a0 new va then fresh_page t d xs va else entry (ram t) d va = entry (ram s) d va" for va
      using e [of va] False by (auto simp: user_range_def)
    ultimately show ?thesis using g up.prems(5) unfolding alloc_result_def by blast
  next
    case True
    have nk: "new \<le> KERNBASE" and ak: "a < KERNBASE" using True assms(3) by simp_all
    have al0: "?a0 mod PGSIZE = 0" by (simp add: PGROUNDUP_eq)
    note len = up.prems(4)
    have ur: "user_range ?a0 new a" using aligned_id [OF up.prems(2)] True up.prems(3) by (simp add: user_range_def)
    have en: "entry (ram t) d a = 0" using e [of a] aligned_id [OF up.prems(2)] assms(5) [OF ur] by simp
    show ?thesis
    proof (cases ys)
      case Nil
      then obtain u where u: "kalloc t = Ok (0, u)" "kalloc_inv u []" "ram u = ram t" "kend u = kend t"
        using kalloc_inv_Nil spaceD(1) [OF t] by blast
      have su: "space u d []" by (rule space_touches(1) [OF t, of "{}"]) (use u in \<open>simp_all add: touches_def\<close>)
      have tu: "touches {} t u" using u by (simp add: touches_def)
      have gu: "grown t d ys u []" using su u(3) by (auto simp: grown_def Nil intro: touches_mono [OF tu])
      have "filled s d xs ?a0 new a u []" by (rule filled_keep [OF fl gu _ assms(2) nk]) (simp add: u(3))
      then obtain v zs where v: "deallocuvm d new old u = Ok (old, v)" "unchanged s d xs v zs" "no_leak u d [] v zs"
        using filled_undo [OF _ assms(3,4,5,2)] by blast
      have "no_leak t d ys u []" by (simp add: no_leak_def u(3) Nil)
      then have nl: "no_leak s d xs v zs" using up.prems(5) v(3) by (meson no_leak_trans)
      have "length xs < 2 * range_pages ?a0 new"
        by (rule few_pages [OF _ _ True up.prems(3,2) al0, of _ 0]) (use len Nil in simp_all)
      moreover have "allocuvm_from d a old new t = Ok (0, v)"
        using True u(1) v(1) by (subst allocuvm_from.simps) simp
      ultimately show ?thesis using v(2) nl unfolding alloc_result_def by blast
    next
      case (Cons q zs)
      obtain u where ka: "kalloc t = Ok (q, u)" and q: "q \<noteq> 0" "page_ok t q" "q \<notin> own (ram t) d \<union> set zs"
        and v: "let v = u\<lparr>ram := memset (ram u) q 0 PGSIZE\<rparr> in space v d zs \<and> touches {q} t v
           \<and> (\<forall>va. entry (ram v) d va = entry (ram t) d va) \<and> own (ram v) d = own (ram t) d \<and> tabs (ram v) d = tabs (ram t) d
           \<and> (\<forall>x\<in>region q PGSIZE. ram v x = 0)"
        using take_zeroed [OF t [unfolded Cons]] by blast
      define w where "w = u\<lparr>ram := memset (ram u) q 0 PGSIZE\<rparr>"
      note w = v [folded w_def, unfolded Let_def]
      have q0: "q mod PGSIZE = 0" using q(2) by (simp add: page_ok_def)
      have pf: "(PTE_W OR PTE_U) OR PTE_P < PGSIZE" by (simp add: PTE_W_def PTE_U_def PTE_P_def PGSIZE_def)
      have npe: "\<not> present (entry (ram w) d a)" using w en by (simp add: present_def)
      have qw: "a < KERNBASE \<Longrightarrow> page_ok w q \<and> q \<notin> own (ram w) d \<union> set zs" using q w touches_page_ok [of "{q}" t w] by auto
      have am: "allocuvm_from d a old new t = kbind (mappages_loop d a (V2P q) (PTE_W OR PTE_U) 0 w) (\<lambda>(r, s).
          if r < 0 then kbind (deallocuvm d new old s) (\<lambda>(_, s). kbind (kfree q s) (\<lambda>s. Ok (0, s)))
          else allocuvm_from d (a + PGSIZE) old new s)"
        using True q(1) ka no_wrap [OF True nk]
        by (subst allocuvm_from.simps) (simp add: Let_def w_def mappages_one [OF up.prems(2)] cong: if_cong)
      from map_step [OF _ npe q0 pf qw] w
      consider x ws where "mapped w d zs a q (user_entry q) x ws" "mappages_loop d a (V2P q) (PTE_W OR PTE_U) 0 w = Ok (0, x)"
        | x where "zs = []" "space x d []" "ram x = ram w" "kend x = kend w" "mappages_loop d a (V2P q) (PTE_W OR PTE_U) 0 w = Ok (-1, x)"
        unfolding user_entry_def by (metis nat.case(1))
      then show ?thesis
      proof cases
        case 1
        have wc: "space w d zs" "touches {q} t w" "\<forall>va. entry (ram w) d va = entry (ram t) d va" "own (ram w) d = own (ram t) d"
            "tabs (ram w) d = tabs (ram t) d" "\<forall>x\<in>region q PGSIZE. ram w x = 0"
          using w by blast+
        note fx = filled_step [OF fl [unfolded Cons] 1(1) wc q(3) up.prems(2,3) True nk assms(2), folded Cons]
        have "?a0 \<le> a + PGSIZE" using no_wrap [OF True nk] up.prems(3) by simp
        then have "alloc_result s d xs ?a0 new (allocuvm_from d (a + PGSIZE) old new x)"
        proof (rule up.IH [OF no_wrap [OF True nk] fx(1) page_aligned_step [OF up.prems(2)]])
          show "no_leak s d xs x ws" by (rule no_leak_trans [OF up.prems(5) fx(2)])
          have "length zs \<le> Suc (length ws)" using 1(1) unfolding mapped_def by blast
          then show "length xs \<le> length ws + 2 * ((unat (a + PGSIZE) - unat ?a0) div 4096)"
            by (rule next_pages [rotated, OF _ ak up.prems(3)]) (use len Cons in simp)
        qed
        then show ?thesis using am 1(2) by simp
      next
        case 2
        have tx: "touches {q} t x" using w 2(3,4) by (simp add: touches_def)
        have xv: "entry (ram x) d va = entry (ram t) d va" "own (ram x) d = own (ram t) d" "tabs (ram x) d = tabs (ram t) d" for va
          using w 2(3) by simp_all
        have gx: "grown t d ys x []" using 2(2) xv by (auto simp: grown_def Cons intro: touches_mono [OF tx])
        have "filled s d xs ?a0 new a x []" by (rule filled_keep [OF fl gx xv(1) assms(2) nk])
        then obtain y rs where y: "deallocuvm d new old x = Ok (old, y)" "unchanged s d xs y rs" "own (ram y) d \<subseteq> own (ram x) d"
            "set rs \<subseteq> set [] \<union> range_frames (ram x) d ?a0 new" "no_leak x d [] y rs"
          using filled_undo [OF _ assms(3,4,5,2)] by blast
        have "range_frames (ram x) d ?a0 new \<subseteq> uframes (ram x) d"
          using user_range_user [OF _ nk] by (auto simp: range_frames_def uframes_def)
        then have qf: "q \<notin> set rs" "q \<notin> own (ram y) d" using y(3,4) q(3) xv(2) by (auto simp: own_def)
        have "page_ok y q" using q(2) touches_page_ok [OF tx] y(2) g touches_page_ok [of _ s y] touches_page_ok [of _ s t]
          by (auto simp: unchanged_def grown_def)
        moreover have "space y d rs" using y(2) by (simp add: unchanged_def grown_def)
        ultimately obtain z where z: "kfree q y = Ok z" "space z d (q # rs)" "touches {q} y z"
            "\<forall>va. entry (ram z) d va = entry (ram y) d va" "own (ram z) d = own (ram y) d" "tabs (ram z) d = tabs (ram y) d"
          using give_back qf by metis
        have gy: "grown s d xs y rs" and qx: "q \<in> set xs" using y(2) g by (auto simp: unchanged_def grown_def Cons)
        have "touches (insert d (tabs (ram s) d \<union> set xs)) s z"
          by (rule touches_trans [of "insert d (tabs (ram s) d \<union> set xs)" s y "{q}"]) (use gy z(3) qx in \<open>auto simp: grown_def\<close>)
        then have "unchanged s d xs z (q # rs)" using gy z(2,4,5,6) qx y(2) by (auto simp: unchanged_def grown_def)
        moreover have "no_leak s d xs z (q # rs)" using up.prems(5) y(5) z(5) xv(2) by (auto simp: no_leak_def Cons 2(1))
        moreover have "allocuvm_from d a old new t = Ok (0, z)" using am 2(5) y(1) z(1) by simp
        moreover have "length xs < 2 * range_pages ?a0 new"
          by (rule few_pages [OF _ _ True up.prems(3,2) al0, of _ 1]) (use len Cons 2(1) in simp_all)
        ultimately show ?thesis unfolding alloc_result_def by blast
      qed
    qed
  qed
qed

section \<open>The user's view\<close>

text \<open>The byte that a user program reads at \<open>va\<close>; \<open>None\<close> where it faults.\<close>

definition user_byte :: "memory \<Rightarrow> u32 \<Rightarrow> u32 \<Rightarrow> byte option" where
  "user_byte m d va = (let e = entry m d va in
     if va < KERNBASE \<and> present e \<and> e AND PTE_U \<noteq> 0 then Some (m (frame e + (va AND 0xFFF))) else None)"

lemma page_offset: "frame e + (va AND 0xFFF) \<in> region (frame e) PGSIZE"
proof -
  have "va AND 0xFFF \<le> 0xFFF" by (rule word_and_le1)
  then show ?thesis by (simp add: region_def PGSIZE_def word_le_nat_alt word_less_nat_alt)
qed

lemma user_byte_kept:
  assumes "space s d xs" and "entry (ram t) d va = entry (ram s) d va" and "touches P s t" and "P \<subseteq> insert d (tabs (ram s) d \<union> set xs)"
  shows "user_byte (ram t) d va = user_byte (ram s) d va"
proof -
  have "ram t (frame (entry (ram s) d va) + (va AND 0xFFF)) = ram s (frame (entry (ram s) d va) + (va AND 0xFFF))"
    if "va < KERNBASE" "present (entry (ram s) d va)"
    by (rule user_frame_kept [OF assms(1) that assms(3,4) page_offset])
  then show ?thesis by (auto simp: user_byte_def Let_def assms(2))
qed

text \<open>Another address space, whose pages are not touched.\<close>

lemma user_byte_other:
  assumes "vspace s d'" and "touches P s t" and "\<forall>p\<in>P. p mod PGSIZE = 0" and "own (ram s) d' \<inter> P = {}"
  shows "vspace t d'" "own (ram t) d' = own (ram s) d'" "user_byte (ram t) d' va = user_byte (ram s) d' va"
proof -
  note v = vspaceD [OF assms(1)]
  have c: "d' \<notin> P" "tabs (ram s) d' \<inter> P = {}" using v(9,10) assms(4) by blast+
  note w = view_touches [OF assms(1-3) c]
  show "vspace t d'" "own (ram t) d' = own (ram s) d'" by (rule w)+
  have "ram t (frame (entry (ram s) d' va) + (va AND 0xFFF)) = ram s (frame (entry (ram s) d' va) + (va AND 0xFFF))"
    if "va < KERNBASE" "present (entry (ram s) d' va)"
  proof (rule touches_page [OF assms(2,3) frame_aligned _ page_offset])
    show "frame (entry (ram s) d' va) \<notin> P" using uframesI [OF that] v(11) assms(4) by blast
  qed
  then show "user_byte (ram t) d' va = user_byte (ram s) d' va" by (auto simp: user_byte_def Let_def w(2))
qed

lemma grown_touches:
  assumes "grown s d xs t ys" and "space s d xs"
  shows "touches (insert d (tabs (ram s) d \<union> set xs)) s t" "\<forall>p\<in>insert d (tabs (ram s) d \<union> set xs). p mod PGSIZE = 0"
  using assms(1) vspaceD(3,9,10) [OF spaceD(2) [OF assms(2)]] space_page [OF assms(2)] by (auto simp: grown_def)

lemma allocuvm_run:
  assumes "space s d xs" and "new < KERNBASE" and "old \<le> new" and "\<And>va. user_range (PGROUNDUP old) new va \<Longrightarrow> entry (ram s) d va = 0"
  shows "alloc_result s d xs (PGROUNDUP old) new (allocuvm d old new s)"
proof -
  have a: "allocuvm d old new s = allocuvm_from d (PGROUNDUP old) old new s" using assms(2,3) by (auto simp: allocuvm_def)
  have al: "PGROUNDUP old mod PGSIZE = 0" by (simp add: PGROUNDUP_eq)
  have f: "filled s d xs (PGROUNDUP old) new (PGROUNDUP old) s xs" using grown_refl [OF assms(1)] by (auto simp: filled_def user_range_def)
  show ?thesis
  proof (cases "old < new")
    case True
    then show ?thesis unfolding a by (rule allocuvm_from_ok [OF f assms(1,2) _ assms(4) al]) simp_all
  next
    case False
    have "\<not> PGROUNDUP old < new"
    proof -
      have "unat old < 2147483648" using assms(2,3) by (simp add: KERNBASE_def word_less_nat_alt word_le_nat_alt)
      then have "unat old \<le> unat (PGROUNDUP old)" using unat_PGROUNDUP [of old] by simp
      then show ?thesis using False by (simp add: word_less_nat_alt)
    qed
    then have "allocuvm_from d (PGROUNDUP old) old new s = Ok (new, s)" by (subst allocuvm_from.simps) simp
    moreover have "\<not> user_range (PGROUNDUP old) new va" for va using \<open>\<not> PGROUNDUP old < new\<close> by (auto simp: user_range_def)
    ultimately show ?thesis using grown_refl [OF assms(1)] unfolding a alloc_result_def by auto
  qed
qed

end
