(* ===== verification/Vm_Props.thy ===== *)
theory Vm_Props
  imports Vm_Grow
begin

text \<open>
  What the user programs see of the memory management: growing an address space adds zero bytes and
  nothing else, copying to user space changes exactly the bytes asked for, and neither is noticed by any
  other address space.
\<close>

section \<open>allocuvm\<close>

lemma space_other:
  assumes "space s d' xs" and "space s d xs" and "grown s d xs t ys" and "own (ram s) d' \<inter> own (ram s) d = {}"
  shows "space t d' ys" "own (ram t) d' \<inter> own (ram t) d = {}" "user_byte (ram t) d' va = user_byte (ram s) d' va"
proof -
  have g: "space t d ys" "set ys \<subseteq> set xs" "own (ram t) d \<subseteq> own (ram s) d \<union> set xs" using assms(3) by (simp_all add: grown_def)
  have c: "own (ram s) d' \<inter> insert d (tabs (ram s) d \<union> set xs) = {}"
    using assms(4) spaceD(3) [OF assms(1)] vspaceD(9,10) [OF spaceD(2) [OF assms(2)]] by blast
  note o = user_byte_other [OF spaceD(2) [OF assms(1)] grown_touches [OF assms(3,2)] c]
  show "user_byte (ram t) d' va = user_byte (ram s) d' va" by (rule o(3))
  have n: "own (ram s) d' \<inter> set xs = {}" by (rule spaceD(3) [OF assms(1)])
  then have "own (ram t) d' \<inter> set ys = {}" using g(2) unfolding o(2) by blast
  then show "space t d' ys" using o(1) spaceD(1) [OF g(1)] by (simp add: space_def)
  show "own (ram t) d' \<inter> own (ram t) d = {}" using n g(3) assms(4) unfolding o(2) by blast
qed

lemma allocuvm_effect:
  assumes "space s d xs" and "new < KERNBASE" and "old \<le> new" and "\<And>va. user_range (PGROUNDUP old) new va \<Longrightarrow> entry (ram s) d va = 0"
    and "space s d' xs" and "own (ram s) d' \<inter> own (ram s) d = {}"
  shows "\<exists>r t ys. allocuvm d old new s = Ok (r, t) \<and> space t d ys \<and> space t d' ys \<and> own (ram t) d' \<inter> own (ram t) d = {}
    \<and> own (ram t) d \<union> set ys = own (ram s) d \<union> set xs
    \<and> (r = new \<or> r = 0 \<and> length xs < 2 * range_pages (PGROUNDUP old) new)
    \<and> (\<forall>va. user_byte (ram t) d va = (if r = new \<and> user_range (PGROUNDUP old) new va then Some 0 else user_byte (ram s) d va))
    \<and> (\<forall>va. user_byte (ram t) d' va = user_byte (ram s) d' va)"
proof -
  note other = space_other [OF assms(5,1) _ assms(6)]
  have kept: "user_byte (ram t) d va = user_byte (ram s) d va" if "grown s d xs t ys" "entry (ram t) d va = entry (ram s) d va" for t ys va
    by (rule user_byte_kept [OF assms(1) that(2) grown_touches(1) [OF that(1) assms(1)]]) simp
  from allocuvm_run [OF assms(1-4)]
  consider t ys where "allocuvm d old new s = Ok (new, t)" "grown s d xs t ys" "no_leak s d xs t ys"
      "\<And>va. if user_range (PGROUNDUP old) new va then fresh_page t d xs va else entry (ram t) d va = entry (ram s) d va"
    | t ys where "allocuvm d old new s = Ok (0, t)" "grown s d xs t ys" "no_leak s d xs t ys" "\<And>va. entry (ram t) d va = entry (ram s) d va"
      "length xs < 2 * range_pages (PGROUNDUP old) new"
    unfolding alloc_result_def unchanged_def by blast
  then show ?thesis
  proof cases
    case 1
    have "user_byte (ram t) d va = Some 0" if u: "user_range (PGROUNDUP old) new va" for va
    proof -
      obtain q where q: "q \<in> set xs" "entry (ram t) d va = user_entry q" "\<forall>x\<in>region q PGSIZE. ram t x = 0"
        using 1(4) [of va] u by (auto simp: fresh_page_def)
      have f: "frame (user_entry q) = q" "present (user_entry q)" using user_entry_facts space_page [OF assms(1) q(1)] by simp_all
      moreover have "user_entry q AND PTE_U \<noteq> 0"
      proof -
        have "bit (user_entry q AND PTE_U) 2" by (simp add: user_entry_def PTE_U_def bit_simps)
        then show ?thesis by auto
      qed
      moreover have "va < KERNBASE" using user_range_user [OF u] assms(2) by simp
      moreover have "ram t (q + (va AND 0xFFF)) = 0" using q(3) page_offset [of "user_entry q" va] f by simp
      ultimately show ?thesis using q(2) by (simp add: user_byte_def)
    qed
    then have "user_byte (ram t) d va = (if user_range (PGROUNDUP old) new va then Some 0 else user_byte (ram s) d va)" for va
      using 1(4) [of va] kept [OF 1(2)] by simp
    then show ?thesis using 1(1,2,3) other [OF 1(2)] by (intro exI [of _ new] exI [of _ t] exI [of _ ys]) (simp add: grown_def no_leak_def)
  next
    case 2
    have "\<not> (0 = new \<and> user_range (PGROUNDUP old) new va)" for va by (auto simp: user_range_def)
    then show ?thesis
      using 2 other [OF 2(2)] kept [OF 2(2,4)] by (intro exI [of _ 0] exI [of _ t] exI [of _ ys]) (auto simp: grown_def no_leak_def)
  qed
qed

text \<open>
  C14.  \<open>allocuvm\<close> is all or nothing.  Given an address space whose pages behind \<open>oldsz\<close> are not mapped, it
  either returns \<open>newsz\<close>, and every byte of the new pages reads as zero, or returns 0, which happens only
  when there are fewer than two free pages for each new page.  In both cases the user bytes outside the new
  pages, and all user bytes of any other address space, read as before, the page table is well formed,
  the free list is intact, and no page is lost: the pages of the space and the free pages are together the
  same as before.
\<close>

theorem allocuvm_all_or_nothing:
  assumes "space s d xs" and "new < KERNBASE" and "old \<le> new" and "\<And>va. user_range (PGROUNDUP old) new va \<Longrightarrow> entry (ram s) d va = 0"
    and "space s d' xs" and "own (ram s) d' \<inter> own (ram s) d = {}"
  shows "\<exists>r t ys. allocuvm d old new s = Ok (r, t) \<and> space t d ys \<and> space t d' ys \<and> own (ram t) d' \<inter> own (ram t) d = {}
    \<and> own (ram t) d \<union> set ys = own (ram s) d \<union> set xs
    \<and> (r = new \<or> r = 0 \<and> length xs < 2 * range_pages (PGROUNDUP old) new)
    \<and> (\<forall>va. user_byte (ram t) d va = (if r = new \<and> user_range (PGROUNDUP old) new va then Some 0 else user_byte (ram s) d va))
    \<and> (\<forall>va. user_byte (ram t) d' va = user_byte (ram s) d' va)"
  by (rule allocuvm_effect [OF assms])

section \<open>copyout\<close>

lemma page_split: "va = PGROUNDDOWN va + (va AND 0xFFF)"
  using PGROUNDDOWN_take_bit [of va] by (simp add: take_bit_eq_mask mask_eq_exp_minus_1)

lemma offset_less: "unat ((va :: u32) AND 0xFFF) < 4096"
  using word_and_le1 [of va "0xFFF"] by (simp add: word_le_nat_alt)

lemma near_page:
  assumes "a - va < n" and "unat (va AND 0xFFF) + unat n \<le> 4096"
  shows "PGROUNDDOWN a = PGROUNDDOWN va"
proof -
  define k where "k = (va AND 0xFFF) + (a - va)"
  have "unat (a - va) < unat n" using assms(1) by (simp add: word_less_nat_alt)
  then have k: "unat k < 4096" using assms(2) offset_less [of va] by (simp add: k_def unat_word_ariths)
  have a: "a = PGROUNDDOWN va + k" using page_split [of va] by (simp add: k_def algebra_simps)
  have "unat (PGROUNDDOWN va) mod 4096 = 0" "unat (PGROUNDDOWN va) < 4294967296"
    using page_unat [OF PGROUNDDOWN_page] unsigned_less [of "PGROUNDDOWN va"] by simp_all
  then obtain j where j: "unat (PGROUNDDOWN va) = 4096 * j" "j < 1048576" by (auto simp: mod_eq_0_iff_dvd dvd_def)
  then have "unat a = 4096 * j + unat k" using k unfolding a by (simp add: unat_word_ariths)
  then have "unat a div 4096 = unat (PGROUNDDOWN va) div 4096" using k j by simp
  then have "unat (PGROUNDDOWN a) = unat (PGROUNDDOWN (PGROUNDDOWN va))" by (simp add: unat_PGROUNDDOWN)
  then show ?thesis by (simp add: word_unat_eq_iff)
qed

lemma same_page_diff: "PGROUNDDOWN a = PGROUNDDOWN va \<Longrightarrow> a - va = (a AND 0xFFF) - (va AND 0xFFF)"
  using page_split [of a] page_split [of va] by (metis add_diff_cancel_left)

lemma entry_page: "PGROUNDDOWN a = PGROUNDDOWN b \<Longrightarrow> entry m d a = entry m d b"
  using same_page [of a b] by (simp add: entry_def)

text \<open>One copy of \<open>copyout\<close>, inside a page.\<close>

lemma copy_in_page:
  fixes buf :: "u32 \<Rightarrow> byte"
  assumes "space s d xs" and "user_byte (ram s) d va \<noteq> None" and "unat (va AND 0xFFF) + unat n \<le> 4096"
  defines "t \<equiv> memmove_ram (frame (entry (ram s) d va) + (va AND 0xFFF)) buf n s"
  shows "space t d xs" "touches {frame (entry (ram s) d va)} s t" "entry (ram t) d a = entry (ram s) d a"
    "user_byte (ram t) d a = (if a - va < n then Some (buf (a - va)) else user_byte (ram s) d a)"
    "i < 1024 \<Longrightarrow> pde (ram t) d i = pde (ram s) d i" "own (ram t) d = own (ram s) d"
proof -
  note v = vspaceD [OF spaceD(2) [OF assms(1)]]
  let ?e = "entry (ram s) d va"
  have va: "va < KERNBASE" "present ?e" "?e AND PTE_U \<noteq> 0" using assms(2) by (auto simp: user_byte_def Let_def split: if_splits)
  have f: "frame ?e \<in> uframes (ram s) d" by (rule uframesI [OF va(1,2)])
  have ch: "ram t x = (if x - (frame ?e + (va AND 0xFFF)) < n then buf (x - (frame ?e + (va AND 0xFFF))) else ram s x)" for x
    by (simp add: t_def memmove_ram_def)
  have inside: "x \<in> region (frame ?e) PGSIZE" if "x - (frame ?e + (va AND 0xFFF)) < n" for x
  proof -
    define r where "r = x - (frame ?e + (va AND 0xFFF))"
    have "unat r < unat n" using that by (simp add: r_def word_less_nat_alt)
    then have "unat (r + (va AND 0xFFF)) < 4096" using assms(3) offset_less [of va] by (simp add: unat_word_ariths)
    moreover have "r + (va AND 0xFFF) = x - frame ?e" by (simp add: r_def)
    ultimately show ?thesis by (simp add: region_def PGSIZE_def word_less_nat_alt)
  qed
  show tc: "touches {frame ?e} s t" using ch inside by (auto simp: touches_def t_def memmove_ram_def)
  have k: "kalloc_inv t xs"
    by (rule kalloc_inv_touches [OF spaceD(1) [OF assms(1)] tc])
       (use f v(11) spaceD(3,4) [OF assms(1)] in \<open>auto simp: t_def memmove_ram_def\<close>)
  have c: "\<forall>p\<in>{frame ?e}. p mod PGSIZE = 0" "d \<notin> {frame ?e}" "tabs (ram s) d \<inter> {frame ?e} = {}"
    using f v(5,6) by auto
  note sp = space_touches [OF assms(1) tc c k spaceD(3) [OF assms(1)]]
  show "space t d xs" "entry (ram t) d a = entry (ram s) d a" "i < 1024 \<Longrightarrow> pde (ram t) d i = pde (ram s) d i" "own (ram t) d = own (ram s) d"
    by (rule sp(1,3,2,4), assumption?)+
  show "user_byte (ram t) d a = (if a - va < n then Some (buf (a - va)) else user_byte (ram s) d a)"
  proof (cases "PGROUNDDOWN a = PGROUNDDOWN va")
    case True
    have a: "a < KERNBASE" "entry (ram s) d a = ?e" using same_page_user [OF True] va(1) entry_page [OF True] by auto
    have "frame ?e + (a AND 0xFFF) - (frame ?e + (va AND 0xFFF)) = a - va" using same_page_diff [OF True] by simp
    then show ?thesis using a va ch [of "frame ?e + (a AND 0xFFF)"] by (simp add: user_byte_def Let_def sp(3))
  next
    case False
    have n: "\<not> a - va < n" using near_page [OF _ assms(3)] False by blast
    have "ram t (frame (entry (ram s) d a) + (a AND 0xFFF)) = ram s (frame (entry (ram s) d a) + (a AND 0xFFF))"
      if "a < KERNBASE" "present (entry (ram s) d a)"
    proof (rule touches_page [OF tc c(1) frame_aligned _ page_offset])
      show "frame (entry (ram s) d a) \<notin> {frame ?e}" using v(8) that va(1,2) False unfolding frame_inj_def by blast
    qed
    then show ?thesis using n by (auto simp: user_byte_def Let_def sp(3))
  qed
qed

lemma uva2ka_run:
  assumes "space s d xs" and "present (pde (ram s) d (PDX va))" and "va < KERNBASE"
  shows "uva2ka d (PGROUNDDOWN va) s = Ok (if user_byte (ram s) d va = None then 0 else frame (entry (ram s) d va), s)"
proof -
  note v = vspaceD [OF spaceD(2) [OF assms(1)]]
  have x: "PDX (PGROUNDDOWN va) = PDX va" "PTX (PGROUNDDOWN va) = PTX va" using same_page [of "PGROUNDDOWN va" va] by simp_all
  have "load32 (ram s) (slot (frame (pde (ram s) d (PDX va))) (PTX va)) = entry (ram s) d va" using assms(2) by (simp add: entry_def)
  then show ?thesis using assms(2,3)
    by (auto simp: uva2ka_def walk_False x user_byte_def Let_def present_def frame_def)
qed

text \<open>\<open>in_buffer va len a\<close>: the byte at \<open>a\<close> is one of the \<open>len\<close> bytes from \<open>va\<close> on.\<close>

definition in_buffer :: "u32 \<Rightarrow> u32 \<Rightarrow> u32 \<Rightarrow> bool" where
  "in_buffer va len a \<longleftrightarrow> a - va < len"

lemma buffer_split:
  assumes "n \<le> len" and "unat va + unat len \<le> 2147483648"
  shows "in_buffer va len a \<longleftrightarrow> in_buffer va n a \<or> in_buffer (va + n) (len - n) a" "in_buffer (va + n) (len - n) a \<Longrightarrow> a - (va + n) + n = a - va"
    "in_buffer (va + n) (len - n) a \<Longrightarrow> \<not> in_buffer va n a"
proof -
  have nl: "unat n \<le> unat len" "unat (len - n) = unat len - unat n" using assms(1) by (simp_all add: word_le_nat_alt unat_sub)
  define x where "x = a - va"
  have d: "a - (va + n) = x - n" by (simp add: x_def)
  show "a - (va + n) + n = a - va" by simp
  show "in_buffer (va + n) (len - n) a \<Longrightarrow> \<not> in_buffer va n a"
    using assms nl unsigned_less [of x] unsigned_less [of n]
    by (auto simp: in_buffer_def d word_less_nat_alt unat_sub_if_size word_size simp flip: x_def split: if_splits)
  show "in_buffer va len a \<longleftrightarrow> in_buffer va n a \<or> in_buffer (va + n) (len - n) a"
    using assms nl unsigned_less [of x] unsigned_less [of n]
    by (auto simp: in_buffer_def d word_less_nat_alt unat_sub_if_size word_size simp flip: x_def split: if_splits)
qed

lemma user_byte_page: "PGROUNDDOWN a = PGROUNDDOWN b \<Longrightarrow> user_byte m d a = None \<longleftrightarrow> user_byte m d b = None"
  using same_page_user [of a b] entry_page [of a b m d] by (simp add: user_byte_def Let_def)

definition copied_out :: "'a machine_scheme \<Rightarrow> u32 \<Rightarrow> u32 list \<Rightarrow> u32 \<Rightarrow> (u32 \<Rightarrow> byte) \<Rightarrow> u32 \<Rightarrow> int \<Rightarrow> 'a machine_scheme \<Rightarrow> bool" where
  "copied_out s d xs va buf len r t \<longleftrightarrow> space t d xs \<and> touches (uframes (ram s) d) s t
     \<and> (if \<forall>a. in_buffer va len a \<longrightarrow> user_byte (ram s) d a \<noteq> None
        then r = 0 \<and> (\<forall>a. user_byte (ram t) d a = (if in_buffer va len a then Some (buf (a - va)) else user_byte (ram s) d a))
        else r = -1 \<and> (\<forall>a. \<not> in_buffer va len a \<longrightarrow> user_byte (ram t) d a = user_byte (ram s) d a))"

lemma copied_out_step:
  assumes "copied_out t d xs (va + n) (\<lambda>k. buf (k + n)) (len - n) r w" and "touches (uframes (ram s) d) s t"
    and "\<And>a. entry (ram t) d a = entry (ram s) d a" and "\<And>a. user_byte (ram t) d a = (if a - va < n then Some (buf (a - va)) else user_byte (ram s) d a)"
    and "\<And>a. in_buffer va n a \<Longrightarrow> user_byte (ram s) d a \<noteq> None"
    and "\<And>a. in_buffer va len a \<longleftrightarrow> in_buffer va n a \<or> in_buffer (va + n) (len - n) a"
    and "\<And>a. in_buffer (va + n) (len - n) a \<Longrightarrow> a - (va + n) + n = a - va" and "\<And>a. in_buffer (va + n) (len - n) a \<Longrightarrow> \<not> in_buffer va n a"
  shows "copied_out s d xs va buf len r w"
proof -
  have b: "user_byte (ram t) d a = (if in_buffer va n a then Some (buf (a - va)) else user_byte (ram s) d a)" for a
    using assms(4) by (simp add: in_buffer_def)
  have uf: "uframes (ram t) d = uframes (ram s) d" by (simp add: uframes_def assms(3))
  have tw: "touches (uframes (ram s) d) s w"
    by (rule touches_trans [OF assms(2)]) (use assms(1) in \<open>auto simp: copied_out_def uf\<close>)
  have all: "(\<forall>a. in_buffer (va + n) (len - n) a \<longrightarrow> user_byte (ram t) d a \<noteq> None) \<longleftrightarrow> (\<forall>a. in_buffer va len a \<longrightarrow> user_byte (ram s) d a \<noteq> None)"
    using b assms(5,6,8) by (metis option.distinct(1))
  show ?thesis
  proof (cases "\<forall>a. in_buffer va len a \<longrightarrow> user_byte (ram s) d a \<noteq> None")
    case True
    then have w: "space w d xs" "r = 0" "\<And>a. user_byte (ram w) d a = (if in_buffer (va + n) (len - n) a then Some (buf (a - (va + n) + n)) else user_byte (ram t) d a)"
      using assms(1) all unfolding copied_out_def by simp_all
    have "user_byte (ram w) d a = (if in_buffer va len a then Some (buf (a - va)) else user_byte (ram s) d a)" for a
      using w(3) [of a] b [of a] assms(6,7) [of a] by auto
    then show ?thesis using True w(1,2) tw unfolding copied_out_def by simp
  next
    case False
    then have w: "space w d xs" "r = -1" "\<And>a. \<not> in_buffer (va + n) (len - n) a \<Longrightarrow> user_byte (ram w) d a = user_byte (ram t) d a"
      using assms(1) all unfolding copied_out_def by auto
    have "\<not> in_buffer va len a \<Longrightarrow> user_byte (ram w) d a = user_byte (ram s) d a" for a
      using w(3) [of a] b [of a] assms(6) [of a] by auto
    then show ?thesis using False w(1,2) tw unfolding copied_out_def by auto
  qed
qed

lemma copyout_loop_ok:
  assumes "space s d xs" and "unat va + unat len \<le> 2147483648" and "\<And>a. in_buffer va len a \<Longrightarrow> present (pde (ram s) d (PDX a))"
  shows "\<exists>r t. copyout_loop d va buf len s = Ok (r, t) \<and> copied_out s d xs va buf len r t"
  using assms
proof (induction "unat len" arbitrary: va buf len s rule: less_induct)
  case less
  note sp = less.prems(1) and bd = less.prems(2) and pd = less.prems(3)
  show ?case
  proof (cases "len = 0")
    case True
    then show ?thesis using sp by (subst copyout_loop.simps) (simp add: copied_out_def in_buffer_def)
  next
    case False
    then have l0: "0 < unat len" "0 < len" by (simp_all add: unat_gt_0 word_neq_0_conv)
    have va: "va < KERNBASE" using bd l0(1) by (simp add: KERNBASE_def word_less_nat_alt)
    have iv: "in_buffer va len va" using l0(2) by (simp add: in_buffer_def)
    note uva = uva2ka_run [OF sp pd [OF iv] va]
    show ?thesis
    proof (cases "user_byte (ram s) d va = None")
      case True
      then have "copyout_loop d va buf len s = Ok (-1, s)" using uva l0(2) by (subst copyout_loop.simps) (simp add: Let_def)
      moreover have "copied_out s d xs va buf len (-1) s" using True iv sp unfolding copied_out_def by auto
      ultimately show ?thesis by blast
    next
      case False
      define e where "e = entry (ram s) d va"
      define n where "n = (if len < PGSIZE - (va AND 0xFFF) then len else PGSIZE - (va AND 0xFFF))"
      define t where "t = memmove_ram (frame e + (va AND 0xFFF)) buf n s"
      have ve: "present e" "va < KERNBASE" using False by (auto simp: user_byte_def e_def Let_def split: if_splits)
      have "frame e \<in> own (ram s) d" using uframesI [of va "ram s" d] ve vspaceD(11) [OF spaceD(2) [OF sp]] by (auto simp: e_def)
      then have fz: "frame e \<noteq> 0" using page_ok_nonzero vspaceD(2) [OF spaceD(2) [OF sp]] by blast
      have off: "unat (PGSIZE - (va AND 0xFFF)) = 4096 - unat (va AND 0xFFF)"
        using offset_less [of va] by (simp add: PGSIZE_def unat_sub word_le_nat_alt)
      have n: "unat (va AND 0xFFF) + unat n \<le> 4096" "n \<le> len" "0 < n" "n \<noteq> 0"
        using off offset_less [of va] l0 by (auto simp: n_def word_less_nat_alt word_le_nat_alt unat_eq_zero unat_gt_0)
      note c = copy_in_page [where buf = buf, OF sp False n(1), folded e_def, folded t_def]
      have vd: "va - PGROUNDDOWN va = va AND 0xFFF" using page_split [of va] by (metis add_diff_cancel_left')
      have run: "copyout_loop d va buf len s = copyout_loop d (PGROUNDDOWN va + PGSIZE) (\<lambda>k. buf (k + n)) (len - n) t"
        using uva l0(2) fz n(3) False by (subst copyout_loop.simps) (simp add: Let_def vd e_def t_def n_def)
      have nl: "unat (len - n) = unat len - unat n" "unat n \<le> unat len" using n(2) by (simp_all add: unat_sub word_le_nat_alt)
      have next_va: "PGROUNDDOWN va + PGSIZE = va + n" if "len \<noteq> n"
      proof -
        have "n = PGSIZE - (va AND 0xFFF)" using that by (auto simp: n_def split: if_splits)
        then show ?thesis using page_split [of va] by (metis add.assoc add_diff_eq add_diff_cancel_left')
      qed
      have near: "user_byte (ram s) d a \<noteq> None" if "in_buffer va n a" for a
        using near_page [OF _ n(1)] that user_byte_page [of a va] False by (simp add: in_buffer_def)
      have uf: "touches (uframes (ram s) d) s t"
        by (rule touches_mono [OF c(2)]) (use uframesI [of va "ram s" d] ve in \<open>auto simp: e_def\<close>)
      show ?thesis
      proof (cases "len = n")
        case True
        then have "copyout_loop d va buf len s = Ok (0, t)" using run by (simp add: copyout_loop.simps)
        moreover have "copied_out s d xs va buf len 0 t"
          using c(1,4) uf near True unfolding copied_out_def by (simp add: in_buffer_def)
        ultimately show ?thesis by blast
      next
        case neq: False
        note bs = buffer_split [OF n(2) bd]
        have "0 < unat n" using n(3) by (simp add: word_less_nat_alt)
        then have lt: "unat (len - n) < unat len" using nl by simp
        have u: "unat (va + n) = unat va + unat n" using bd nl(2) by (simp add: unat_word_ariths)
        have "\<exists>r u. copyout_loop d (va + n) (\<lambda>k. buf (k + n)) (len - n) t = Ok (r, u) \<and> copied_out t d xs (va + n) (\<lambda>k. buf (k + n)) (len - n) r u"
        proof (rule less.hyps [OF lt c(1)])
          show "unat (va + n) + unat (len - n) \<le> 2147483648" using u nl bd by simp
          show "in_buffer (va + n) (len - n) a \<Longrightarrow> present (pde (ram t) d (PDX a))" for a
            using pd bs(1) c(5) [OF PDX_PTX_less(1)] by simp
        qed
        then obtain r w where w: "copyout_loop d (va + n) (\<lambda>k. buf (k + n)) (len - n) t = Ok (r, w)"
            "copied_out t d xs (va + n) (\<lambda>k. buf (k + n)) (len - n) r w" by blast
        have "copied_out s d xs va buf len r w"
          by (rule copied_out_step [OF w(2) uf c(3,4) near bs])
        then show ?thesis using w(1) run next_va [OF neq] by auto
      qed
    qed
  qed
qed

text \<open>
  C15.  \<open>copyout\<close> to a range of user addresses that have page tables returns 0 exactly when the user may access
  every byte of the range, and then the user reads the buffer there; otherwise it returns -1 and may have
  written the bytes in front of the first page that is missing.  No byte outside the range and no byte of
  another address space changes.
\<close>

theorem copyout_exact:
  assumes "space s d xs" and "unat va + unat len \<le> 2147483648" and "\<And>a. in_buffer va len a \<Longrightarrow> present (pde (ram s) d (PDX a))"
    and "space s d' xs" and "own (ram s) d' \<inter> own (ram s) d = {}"
  shows "\<exists>r t. copyout d va buf len s = Ok (r, t) \<and> space t d xs
    \<and> r = (if \<forall>a. in_buffer va len a \<longrightarrow> user_byte (ram s) d a \<noteq> None then 0 else -1)
    \<and> (\<forall>a. in_buffer va len a \<longrightarrow> r = 0 \<longrightarrow> user_byte (ram t) d a = Some (buf (a - va)))
    \<and> (\<forall>a. \<not> in_buffer va len a \<longrightarrow> user_byte (ram t) d a = user_byte (ram s) d a)
    \<and> (\<forall>a. user_byte (ram t) d' a = user_byte (ram s) d' a)"
proof -
  obtain r t where t: "copyout d va buf len s = Ok (r, t)" "copied_out s d xs va buf len r t"
    using copyout_loop_ok [OF assms(1-3), of buf] unfolding copyout_def by blast
  note v = vspaceD [OF spaceD(2) [OF assms(1)]]
  have "user_byte (ram t) d' a = user_byte (ram s) d' a" for a
  proof (rule user_byte_other(3) [OF spaceD(2) [OF assms(4)], of "uframes (ram s) d"])
    show "touches (uframes (ram s) d) s t" using t(2) by (simp add: copied_out_def)
    show "\<forall>p\<in>uframes (ram s) d. p mod PGSIZE = 0" using v(3,11) by blast
    show "own (ram s) d' \<inter> uframes (ram s) d = {}" using assms(5) v(11) by blast
  qed
  then show ?thesis using t unfolding copied_out_def by (intro exI [of _ r] exI [of _ t]) (auto split: if_splits)
qed

section \<open>Concrete address spaces\<close>

text \<open>A page of zeros is an empty address space.\<close>

lemma zero_space:
  assumes "kalloc_inv s xs" and "page_ok s d" and "d \<notin> set xs" and "KERNBASE < kend s" and "\<And>x. x \<in> region d PGSIZE \<Longrightarrow> ram s x = 0"
  shows "space s d xs" "entry (ram s) d va = 0" "own (ram s) d = {d}" "tabs (ram s) d = {}" "user_byte (ram s) d va = None"
proof -
  have p: "pde (ram s) d i = 0" if "i < 1024" for i
  proof -
    have "load32 (ram s) (slot d i) = load32 (\<lambda>_. 0) (slot d i)" by (rule load32_slot [OF that]) (simp add: assms(5))
    then show ?thesis by (simp add: pde_def load32_def le_word_def)
  qed
  have e: "entry (ram s) d va = 0" for va using p [OF PDX_PTX_less(1)] by (simp add: entry_def present_def)
  then show "entry (ram s) d va = 0" .
  have u: "uframes (ram s) d = {}" by (simp add: uframes_def e present_def)
  show t: "tabs (ram s) d = {}" using p by (auto simp: tabs_def present_def)
  show o: "own (ram s) d = {d}" by (simp add: own_def t u)
  have "tab_inj (ram s) d" using p by (auto simp: tab_inj_def present_def)
  moreover have "frame_inj (ram s) d" by (simp add: frame_inj_def e present_def)
  ultimately show "space s d xs" using assms(1-4) by (simp add: space_def vspace_def o t u)
  show "user_byte (ram s) d va = None" by (simp add: user_byte_def e present_def)
qed

definition demo_machine :: machine where
  "demo_machine = \<lparr>cpu = \<lparr>cpuid = 0, ncli = 0, intena = False, ifl = True, cproc = None\<rparr>,
     ram = store32 (store32 (store32 (\<lambda>_. 0) 0x80400000 0x80401000) 0x80401000 0x80402000) 0x80402000 0x80403000,
     kmem_lock = initlock, kmem_use_lock = True, kmem_freelist = 0x80400000, kend = 0x801154A8\<rparr>"

lemma demo_pages: "kalloc_inv demo_machine [0x80400000, 0x80401000, 0x80402000, 0x80403000]"
  by (simp add: kalloc_inv_def demo_machine_def kmem_ready_def cpu_wf_def page_ok_def PGSIZE_def V2P_def KERNBASE_def PHYSTOP_def
      load32_def store32_def le_word_def word_byte_def)

lemma demo_zero: "x \<in> region 0x80500000 PGSIZE \<union> region 0x80600000 PGSIZE \<Longrightarrow> ram demo_machine x = 0"
proof -
  assume x: "x \<in> region 0x80500000 PGSIZE \<union> region 0x80600000 PGSIZE"
  have "x \<notin> region a 4" if "a = 0x80400000 \<or> a = 0x80401000 \<or> a = 0x80402000" for a :: u32
  proof
    assume "x \<in> region a 4"
    then have "x \<in> region a PGSIZE" by (rule region4_page)
    moreover have "a mod PGSIZE = 0" using that by (auto simp: PGSIZE_def)
    ultimately have "a = 0x80500000 \<or> a = 0x80600000"
      using x pages_disjoint [of a "0x80500000" x] pages_disjoint [of a "0x80600000" x] by (auto simp: PGSIZE_def)
    then show False using that by auto
  qed
  then show ?thesis by (simp add: demo_machine_def store32_other)
qed

lemma demo_spaces:
  assumes "d = 0x80500000 \<or> d = 0x80600000"
  shows "space demo_machine d [0x80400000, 0x80401000, 0x80402000, 0x80403000]" "entry (ram demo_machine) d va = 0"
    "own (ram demo_machine) d = {d}" "user_byte (ram demo_machine) d va = None"
proof -
  have k: "KERNBASE < kend demo_machine" "page_ok demo_machine d" "d \<notin> set [0x80400000, 0x80401000, 0x80402000, 0x80403000]"
    using assms by (auto simp: demo_machine_def page_ok_def PGSIZE_def V2P_def KERNBASE_def PHYSTOP_def)
  have z: "\<And>x. x \<in> region d PGSIZE \<Longrightarrow> ram demo_machine x = 0" using assms demo_zero by auto
  show "space demo_machine d [0x80400000, 0x80401000, 0x80402000, 0x80403000]" "entry (ram demo_machine) d va = 0"
    "own (ram demo_machine) d = {d}" "user_byte (ram demo_machine) d va = None"
    by (rule zero_space [OF demo_pages k(2,3,1) z], assumption)+
qed

lemma demo_range: "user_range (PGROUNDUP 0) 4096 va \<longleftrightarrow> PGROUNDDOWN va = 0" "range_pages (PGROUNDUP 0) 4096 = 1"
proof -
  have z: "PGROUNDUP 0 = 0" by (simp add: PGROUNDUP_eq PGROUNDDOWN_def PGSIZE_def)
  have "\<not> PGROUNDDOWN va < 4096 \<or> PGROUNDDOWN va = 0"
    using page_le_step [of 0 "PGROUNDDOWN va", OF _ PGROUNDDOWN_page] by (auto simp: PGSIZE_def KERNBASE_def word_neq_0_conv not_less)
  then show "user_range (PGROUNDUP 0) 4096 va \<longleftrightarrow> PGROUNDDOWN va = 0" by (auto simp: user_range_def z)
  show "range_pages (PGROUNDUP 0) 4096 = 1" by (simp add: range_pages_def z)
qed

lemma demo_first_page: "PGROUNDDOWN 12 = 0" "PGROUNDDOWN 0x7FFF0000 \<noteq> 0"
  by (simp_all add: PGROUNDDOWN_def PGSIZE_def)

lemma allocuvm_all_or_nothing_witness:
  "\<exists>t. allocuvm 0x80500000 0 4096 demo_machine = Ok (4096, t) \<and> user_byte (ram t) 0x80500000 12 = Some 0
     \<and> user_byte (ram t) 0x80600000 12 = None"
proof -
  note d = demo_spaces [of "0x80500000"] and d' = demo_spaces [of "0x80600000"]
  have "own (ram demo_machine) 0x80600000 \<inter> own (ram demo_machine) 0x80500000 = {}" using d(3) d'(3) by simp
  from allocuvm_all_or_nothing [OF d(1) _ _ d(2) d'(1) this, of 4096 0] show ?thesis
    using d'(4) [of 12] demo_range demo_first_page by (auto simp: KERNBASE_def)
qed

lemma demo_filled:
  "\<exists>t ys. allocuvm 0x80500000 0 4096 demo_machine = Ok (4096, t) \<and> space t 0x80500000 ys \<and> space t 0x80600000 ys
     \<and> own (ram t) 0x80600000 \<inter> own (ram t) 0x80500000 = {}
     \<and> (\<forall>va. user_byte (ram t) 0x80500000 va = (if PGROUNDDOWN va = 0 then Some 0 else None))"
proof -
  note d = demo_spaces [of "0x80500000"] and d' = demo_spaces [of "0x80600000"]
  have o: "own (ram demo_machine) 0x80600000 \<inter> own (ram demo_machine) 0x80500000 = {}" using d(3) d'(3) by simp
  have "(4096 :: u32) < KERNBASE" by (simp add: KERNBASE_def)
  from allocuvm_effect [OF d(1) this _ d(2) d'(1) o, of 0] show ?thesis
    by (auto simp: demo_range d(4))
qed

lemma near_start: "a - 12 < 20 \<Longrightarrow> PGROUNDDOWN a = 0" for a :: u32
  using near_page [of a 12 20] demo_first_page by simp

lemma copyout_exact_witness:
  "\<exists>s t. allocuvm 0x80500000 0 4096 demo_machine = Ok (4096, s) \<and> copyout 0x80500000 12 (\<lambda>k. ucast k + 7) 20 s = Ok (0, t)
     \<and> user_byte (ram t) 0x80500000 14 = Some 9 \<and> user_byte (ram t) 0x80500000 11 = Some 0"
proof -
  obtain s ys where s: "allocuvm 0x80500000 0 4096 demo_machine = Ok (4096, s)" "space s 0x80500000 ys" "space s 0x80600000 ys"
      "own (ram s) 0x80600000 \<inter> own (ram s) 0x80500000 = {}"
      "\<And>va. user_byte (ram s) 0x80500000 va = (if PGROUNDDOWN va = 0 then Some 0 else None)"
    using demo_filled by blast
  have acc: "user_byte (ram s) 0x80500000 a = Some 0" if "in_buffer 12 20 a" for a
    using that near_start [of a] s(5) by (simp add: in_buffer_def)
  have pd: "present (pde (ram s) 0x80500000 (PDX a))" if "in_buffer 12 20 a" for a
    using acc [OF that] by (auto simp: user_byte_def entry_def Let_def present_def split: if_splits)
  have 11: "PGROUNDDOWN 11 = 0" by (simp add: PGROUNDDOWN_def PGSIZE_def)
  have b: "unat (12 :: u32) + unat (20 :: u32) \<le> 2147483648" by simp
  obtain r t where t: "copyout 0x80500000 12 (\<lambda>k. ucast k + 7) 20 s = Ok (r, t)"
      "r = (if \<forall>a. in_buffer 12 20 a \<longrightarrow> user_byte (ram s) 0x80500000 a \<noteq> None then 0 else -1)"
      "\<forall>a. in_buffer 12 20 a \<longrightarrow> r = 0 \<longrightarrow> user_byte (ram t) 0x80500000 a = Some (ucast (a - 12) + 7)"
      "\<forall>a. \<not> in_buffer 12 20 a \<longrightarrow> user_byte (ram t) 0x80500000 a = user_byte (ram s) 0x80500000 a"
    using copyout_exact [OF s(2) b pd s(3,4), where buf = "\<lambda>k. ucast k + 7"] by blast
  have "r = 0" using t(2) acc by simp
  moreover have "in_buffer 12 20 14" "\<not> in_buffer 12 20 11" by (simp_all add: in_buffer_def)
  ultimately show ?thesis using t(1) t(3) [rule_format, of 14] t(4) [rule_format, of 11] s(1) s(5) [of 11] 11 by auto
qed

end
