(* ===== verification/Vm_Kernel.thy ===== *)
theory Vm_Kernel
  imports Vm_Props
begin

text \<open>
  Making and destroying address spaces: \<open>setupkvm\<close> maps the kernel half in a new page directory, \<open>freevm\<close>
  gives every page of a space back to the allocator.
\<close>

section \<open>freevm\<close>

lemma freevm_tables_ok:
  assumes "kalloc_inv s xs" and "d mod PGSIZE = 0" and "KERNBASE < kend s" and "tab_inj (ram s) d"
    and "\<And>j. j < 1024 \<Longrightarrow> i \<le> unat j \<Longrightarrow> present (pde (ram s) d j) \<Longrightarrow>
       page_ok s (frame (pde (ram s) d j)) \<and> frame (pde (ram s) d j) \<notin> insert d (set xs)"
  shows "\<exists>t ys. freevm_tables d i s = Ok t \<and> kalloc_inv t ys
     \<and> set ys = set xs \<union> {frame (pde (ram s) d j) | j. j < 1024 \<and> i \<le> unat j \<and> present (pde (ram s) d j)}
     \<and> touches (tabs (ram s) d) s t"
  using assms
proof (induction "1024 - i" arbitrary: i s xs rule: less_induct)
  case less
  let ?T = "\<lambda>i m. {frame (pde m d j) | j. j < 1024 \<and> i \<le> unat j \<and> present (pde m d j)}"
  show ?case
  proof (cases "i < 1024")
    case False
    then have "?T i (ram s) = {}" by (auto simp: word_less_nat_alt)
    then show ?thesis using False less.prems(1) by (subst freevm_tables.simps) auto
  next
    case True
    define w :: u32 where "w = of_nat i"
    have w: "w < 1024" "unat w = i" using True by (simp_all add: w_def word_less_nat_alt unat_of_nat)
    have ld: "load32 (ram s) (d + 4 * of_nat i) = pde (ram s) d w" by (simp add: pde_def slot_def w_def)
    have sp: "i \<le> unat j \<longleftrightarrow> j = w \<or> i + 1 \<le> unat j" for j using w(2) by (auto simp: word_unat_eq_iff)
    show ?thesis
    proof (cases "present (pde (ram s) d w)")
      case False
      then have T: "?T i (ram s) = ?T (i + 1) (ram s)" using sp by (intro Collect_cong) metis
      have lt: "1024 - (i + 1) < 1024 - i" using True by simp
      have nx: "\<And>j. j < 1024 \<Longrightarrow> i + 1 \<le> unat j \<Longrightarrow> present (pde (ram s) d j) \<Longrightarrow>
          page_ok s (frame (pde (ram s) d j)) \<and> frame (pde (ram s) d j) \<notin> insert d (set xs)" using less.prems(5) by simp
      from less.hyps [OF lt less.prems(1-4) nx]
      show ?thesis using True False unfolding T by (subst freevm_tables.simps) (simp add: ld)
    next
      case present: True
      let ?q = "frame (pde (ram s) d w)"
      have q: "page_ok s ?q" "?q \<notin> set xs" "?q \<noteq> d" using less.prems(5) [OF w(1) _ present] w(2) by auto
      obtain u where u: "kfree ?q s = Ok u" "kalloc_inv u (?q # xs)" "kend u = kend s" "\<forall>x. x \<notin> region ?q PGSIZE \<longrightarrow> ram u x = ram s x"
        using kfree_inv [OF less.prems(1) q(1,2)] by blast
      have tu: "touches {?q} s u" using u(3,4) by (simp add: touches_def)
      have pd: "pde (ram u) d j = pde (ram s) d j" if "j < 1024" for j
      proof (rule pde_cong [OF that])
        show "x \<in> region d PGSIZE \<Longrightarrow> ram u x = ram s x" for x
          by (rule touches_page [OF tu _ less.prems(2)]) (use q(3) in auto)
      qed
      have lt: "1024 - (i + 1) < 1024 - i" using True by simp
      have inj: "tab_inj (ram u) d" using less.prems(4) pd unfolding tab_inj_def by metis
      have po: "page_ok u = page_ok s" by (rule touches_page_ok [OF tu])
      have nx: "page_ok u (frame (pde (ram u) d j)) \<and> frame (pde (ram u) d j) \<notin> insert d (set (?q # xs))"
        if j: "j < 1024" "i + 1 \<le> unat j" "present (pde (ram u) d j)" for j
      proof -
        have "j \<noteq> w" using j(2) w(2) by auto
        then have "frame (pde (ram s) d j) \<noteq> ?q" using less.prems(4) j w(1) present pd [OF j(1)] unfolding tab_inj_def by metis
        then show ?thesis using less.prems(5) [of j] j pd [OF j(1)] po by auto
      qed
      have ke: "KERNBASE < kend u" using u(3) less.prems(3) by simp
      obtain t ys where t: "freevm_tables d (i + 1) u = Ok t" "kalloc_inv t ys" "set ys = set (?q # xs) \<union> ?T (i + 1) (ram u)" "touches (tabs (ram u) d) u t"
        using less.hyps [OF lt u(2) less.prems(2) ke inj nx] by blast
      have T: "?T (i + 1) (ram u) = ?T (i + 1) (ram s)" using pd by (intro Collect_cong) metis
      have tb: "tabs (ram u) d = tabs (ram s) d" unfolding tabs_def using pd by (intro Collect_cong) metis
      have T': "?T i (ram s) = insert ?q (?T (i + 1) (ram s))" using sp w(1) present by auto
      have "touches (tabs (ram s) d) s t"
        by (rule touches_trans [OF tu t(4)]) (use tabsI [OF w(1) present] tb in auto)
      moreover have "freevm_tables d i s = Ok t" using True present u(1) t(1) by (subst freevm_tables.simps) (simp add: ld flip: frame_def)
      ultimately show ?thesis using t(2,3) unfolding T T' by auto
    qed
  qed
qed

lemma freevm_ok:
  assumes "space s d xs"
  shows "\<exists>t ys. freevm d s = Ok t \<and> kalloc_inv t ys \<and> set ys = set xs \<union> own (ram s) d \<and> touches (own (ram s) d) s t"
proof -
  note v = vspaceD [OF spaceD(2) [OF assms]]
  obtain t ys where t: "deallocuvm_from d 0 KERNBASE s = Ok t" "unmapped s d xs 0 KERNBASE t ys"
    using deallocuvm_from_ok [OF assms, of 0 KERNBASE] by auto
  have ur: "user_range 0 KERNBASE va \<longleftrightarrow> va < KERNBASE" for va
    using same_page_user [of "PGROUNDDOWN va" va] by (simp add: user_range_def)
  have rf: "range_frames (ram s) d 0 KERNBASE = uframes (ram s) d" by (auto simp: range_frames_def uframes_def ur)
  have f: "space t d ys" "set ys = set xs \<union> uframes (ram s) d" "touches (tabs (ram s) d \<union> uframes (ram s) d) s t"
      "\<And>i. i < 1024 \<Longrightarrow> pde (ram t) d i = pde (ram s) d i"
    using t(2) by (simp_all add: unmapped_def rf)
  have tb: "tabs (ram t) d = tabs (ram s) d" unfolding tabs_def using f(4) by (intro Collect_cong) metis
  note w = vspaceD [OF spaceD(2) [OF f(1)]]
  have d: "d mod PGSIZE = 0" by (rule v(3) [OF v(9)])
  have "page_ok t (frame (pde (ram t) d j)) \<and> frame (pde (ram t) d j) \<notin> insert d (set ys)"
    if "j < 1024" "present (pde (ram t) d j)" for j
    using tabsI [OF that] w(2,4,10) spaceD(3) [OF f(1)] by (metis Int_iff empty_iff insert_iff subsetD)
  then obtain u zs where u: "freevm_tables d 0 t = Ok u" "kalloc_inv u zs"
      "set zs = set ys \<union> {frame (pde (ram t) d j) | j. j < 1024 \<and> 0 \<le> unat j \<and> present (pde (ram t) d j)}" "touches (tabs (ram t) d) t u"
    using freevm_tables_ok [OF spaceD(1) [OF f(1)] d w(1,7), of 0] by blast
  have zs: "set zs = set xs \<union> uframes (ram s) d \<union> tabs (ram s) d" using u(3) f(2) tb by (simp add: tabs_def)
  have tu: "touches (own (ram s) d) s u" by (rule touches_trans [OF f(3) u(4)]) (use v(10,11) tb in auto)
  have "d \<notin> set zs" using zs v(4,5,9) spaceD(3) [OF assms] by auto
  moreover have "page_ok u d" using touches_page_ok [OF tu] v(2) [OF v(9)] by simp
  ultimately obtain x where x: "kfree d u = Ok x" "kalloc_inv x (d # zs)" "kend x = kend u" "\<forall>a. a \<notin> region d PGSIZE \<longrightarrow> ram x a = ram u a"
    using kfree_inv [OF u(2)] by blast
  have "touches {d} u x" using x(3,4) by (simp add: touches_def)
  then have "touches (own (ram s) d) s x" by (rule touches_trans [OF tu]) (use v(9) in auto)
  moreover have "freevm d s = Ok x"
  proof -
    have "d \<noteq> 0" using page_ok_nonzero v(2) [OF v(9)] by blast
    moreover have "PGROUNDUP 0 = 0" by (simp add: PGROUNDUP_eq PGROUNDDOWN_def PGSIZE_def)
    moreover have "\<not> KERNBASE \<le> 0" by (simp add: KERNBASE_def)
    ultimately show ?thesis using t(1) u(1) x(1) by (simp add: freevm_def deallocuvm_def)
  qed
  moreover have "set (d # zs) = set xs \<union> own (ram s) d" using zs by (auto simp: own_def)
  ultimately show ?thesis using x(2) by blast
qed

section \<open>Mapping the kernel\<close>

definition in_pages :: "u32 \<Rightarrow> nat \<Rightarrow> u32 \<Rightarrow> bool" where
  "in_pages a n va \<longleftrightarrow> unat a \<le> unat (PGROUNDDOWN va) \<and> unat (PGROUNDDOWN va) \<le> unat a + 4096 * n"

definition kmapped :: "'a machine_scheme \<Rightarrow> u32 \<Rightarrow> u32 list \<Rightarrow> u32 \<Rightarrow> nat \<Rightarrow> 'a machine_scheme \<Rightarrow> u32 list \<Rightarrow> bool" where
  "kmapped s d xs a n t ys \<longleftrightarrow> grown s d xs t ys \<and> no_leak s d xs t ys \<and> (\<forall>va. \<not> in_pages a n va \<longrightarrow> entry (ram t) d va = entry (ram s) d va)"

lemma aligned_dvd: "a mod PGSIZE = 0 \<Longrightarrow> \<exists>k. unat a = 4096 * k"
  using page_unat [of a] by (auto simp: mod_eq_0_iff_dvd dvd_def)

lemma in_pages_Suc:
  assumes "a mod PGSIZE = 0" and "unat a + 4096 * Suc n < 4294967296"
  shows "in_pages a (Suc n) va \<longleftrightarrow> PGROUNDDOWN va = a \<or> in_pages (a + PGSIZE) n va" "unat (a + PGSIZE) = unat a + 4096"
    "in_pages (a + PGSIZE) n va \<Longrightarrow> PGROUNDDOWN va \<noteq> a"
proof -
  show u: "unat (a + PGSIZE) = unat a + 4096" using assms(2) by (simp add: PGSIZE_def unat_word_ariths)
  obtain j k where j: "unat a = 4096 * j" "unat (PGROUNDDOWN va) = 4096 * k"
    using aligned_dvd [OF assms(1)] aligned_dvd [OF PGROUNDDOWN_page] by blast
  have "PGROUNDDOWN va = a \<longleftrightarrow> k = j" using j by (simp add: word_unat_eq_iff)
  moreover have "4096 * j \<le> 4096 * k \<longleftrightarrow> j \<le> k" "4096 * j + 4096 \<le> 4096 * k \<longleftrightarrow> j < k" by linarith+
  ultimately show "in_pages a (Suc n) va \<longleftrightarrow> PGROUNDDOWN va = a \<or> in_pages (a + PGSIZE) n va"
    "in_pages (a + PGSIZE) n va \<Longrightarrow> PGROUNDDOWN va \<noteq> a"
    by (auto simp: in_pages_def u j)
qed

lemma mapped_grown:
  assumes "mapped s d xs va q e t ys" and "KERNBASE \<le> va"
  shows "grown s d xs t ys" "no_leak s d xs t ys"
  using assms by (auto simp: mapped_def grown_def no_leak_def not_less [symmetric])

lemma map_kernel:
  assumes "space s d xs" and "a mod PGSIZE = 0" and "KERNBASE \<le> a" and "unat a + 4096 * n < 4294967296" and "pa mod PGSIZE = 0"
    and "perm OR PTE_P < PGSIZE" and "\<And>va. in_pages a n va \<Longrightarrow> \<not> present (entry (ram s) d va)"
  shows "\<exists>r t ys. mappages_loop d a pa perm n s = Ok (r, t) \<and> (r = 0 \<or> r = -1 \<and> ys = []) \<and> kmapped s d xs a n t ys"
  using assms
proof (induction n arbitrary: a pa s xs)
  case 0
  have q: "(P2V pa) mod PGSIZE = 0" unfolding P2V_def by (rule aligned_add [OF "0.prems"(5)]) (simp add: KERNBASE_def PGSIZE_def)
  have v: "V2P (P2V pa) = pa" by (simp add: V2P_def P2V_def)
  have ip: "in_pages a 0 va \<longleftrightarrow> PGROUNDDOWN va = a" for va by (auto simp: in_pages_def word_unat_eq_iff)
  have "\<not> present (entry (ram s) d a)" using "0.prems"(7) ip aligned_id [OF "0.prems"(2)] by simp
  from map_step [OF "0.prems"(1) this q "0.prems"(6)] "0.prems"(3)
  consider t ys where "mapped s d xs a (P2V pa) (pa OR perm OR PTE_P) t ys" "mappages_loop d a pa perm 0 s = Ok (0, t)"
    | t where "xs = []" "space t d []" "ram t = ram s" "kend t = kend s" "mappages_loop d a pa perm 0 s = Ok (-1, t)"
    unfolding v by (metis nat.case(1) not_less)
  then show ?case
  proof cases
    case 1
    then have "kmapped s d xs a 0 t ys"
      using mapped_grown [OF 1(1) "0.prems"(3)] aligned_id [OF "0.prems"(2)] by (auto simp: kmapped_def ip mapped_def)
    then show ?thesis using 1(2) by blast
  next
    case 2
    then have "kmapped s d xs a 0 t []" by (auto simp: kmapped_def grown_def no_leak_def touches_def)
    then show ?thesis using 2(5) by blast
  qed
next
  case (Suc n)
  have q: "(P2V pa) mod PGSIZE = 0" unfolding P2V_def by (rule aligned_add [OF Suc.prems(5)]) (simp add: KERNBASE_def PGSIZE_def)
  have v: "V2P (P2V pa) = pa" by (simp add: V2P_def P2V_def)
  note ip = in_pages_Suc [OF Suc.prems(2,4)]
  have "\<not> present (entry (ram s) d a)" using Suc.prems(7) ip(1) aligned_id [OF Suc.prems(2)] by simp
  from map_step [OF Suc.prems(1) this q Suc.prems(6)] Suc.prems(3)
  consider t ys where "mapped s d xs a (P2V pa) (pa OR perm OR PTE_P) t ys"
      "mappages_loop d a pa perm (Suc n) s = mappages_loop d (a + PGSIZE) (pa + PGSIZE) perm n t"
    | t where "xs = []" "space t d []" "ram t = ram s" "kend t = kend s" "mappages_loop d a pa perm (Suc n) s = Ok (-1, t)"
    unfolding v by (metis nat.case(2) not_less)
  then show ?case
  proof cases
    case 1
    have e: "entry (ram t) d va = entry (ram s) d va" if "PGROUNDDOWN va \<noteq> a" for va
      using 1(1) that aligned_id [OF Suc.prems(2)] by (simp add: mapped_def)
    have sp: "space t d ys" using 1(1) by (simp add: mapped_def)
    have al: "(a + PGSIZE) mod PGSIZE = 0" "(pa + PGSIZE) mod PGSIZE = 0" using page_aligned_step Suc.prems(2,5) by blast+
    have kb: "KERNBASE \<le> a + PGSIZE" using Suc.prems(3) ip(2) by (simp add: word_le_nat_alt)
    have bd: "unat (a + PGSIZE) + 4096 * n < 4294967296" using ip(2) Suc.prems(4) by simp
    have np: "in_pages (a + PGSIZE) n va \<Longrightarrow> \<not> present (entry (ram t) d va)" for va
      using Suc.prems(7) ip(1,3) e by metis
    obtain r u zs where u: "mappages_loop d (a + PGSIZE) (pa + PGSIZE) perm n t = Ok (r, u)" "r = 0 \<or> r = -1 \<and> zs = []"
        "kmapped t d ys (a + PGSIZE) n u zs"
      using Suc.IH [OF sp al(1) kb bd al(2) Suc.prems(6) np] by blast
    have "kmapped s d xs a (Suc n) u zs"
      using grown_trans [OF mapped_grown(1) [OF 1(1) Suc.prems(3)]] no_leak_trans [OF mapped_grown(2) [OF 1(1) Suc.prems(3)]] u(3) e ip(1)
      by (simp add: kmapped_def)
    then show ?thesis using 1(2) u(1,2) by auto
  next
    case 2
    then have "kmapped s d xs a (Suc n) t []" by (auto simp: kmapped_def grown_def no_leak_def touches_def)
    then show ?thesis using 2(5) by blast
  qed
qed

text \<open>A whole call of \<open>mappages\<close> on kernel addresses.\<close>

lemma mappages_kernel:
  assumes "space s d xs" and "va mod PGSIZE = 0" and "sz mod PGSIZE = 0" and "0 < unat sz" and "KERNBASE \<le> va" and "unat va + unat sz \<le> 4294967296"
    and "pa mod PGSIZE = 0" and "perm OR PTE_P < PGSIZE"
    and "\<And>a. unat va \<le> unat a \<Longrightarrow> unat a < unat va + unat sz \<Longrightarrow> \<not> present (entry (ram s) d a)"
  shows "\<exists>r t ys. mappages d va sz pa perm s = Ok (r, t) \<and> (r = 0 \<or> r = -1 \<and> ys = []) \<and> grown s d xs t ys \<and> no_leak s d xs t ys
    \<and> (\<forall>a. unat a < unat va \<or> unat va + unat sz \<le> unat a \<longrightarrow> entry (ram t) d a = entry (ram s) d a)"
proof -
  obtain j k where jk: "unat va = 4096 * j" "unat sz = 4096 * k" using aligned_dvd [OF assms(2)] aligned_dvd [OF assms(3)] by blast
  obtain n where n: "k = Suc n" using assms(4) jk(2) by (cases k) auto
  have "unat (va + (sz - 1)) = unat va + (unat sz - 1)"
  proof -
    have "unat (sz - 1) = unat sz - 1" using assms(4) by (metis unat_gt_0 unat_minus_one)
    then show ?thesis using assms(4,6) by (simp add: unat_word_ariths)
  qed
  then have "unat (PGROUNDDOWN (va + sz - 1)) = 4096 * (j + n)"
    using jk n by (simp add: unat_PGROUNDDOWN add_diff_eq [symmetric])
  moreover have "PGROUNDDOWN va = va" by (rule aligned_id [OF assms(2)])
  ultimately have cnt: "unat (PGROUNDDOWN (va + sz - 1) - PGROUNDDOWN va) div 4096 = n"
    using jk(1) by (simp add: unat_sub word_le_nat_alt)
  have ip: "in_pages va n a \<longleftrightarrow> unat va \<le> unat a \<and> unat a < unat va + unat sz" for a
  proof -
    define q r where "q = unat a div 4096" and "r = unat a mod 4096"
    have x: "unat a = 4096 * q + r" "r < 4096" unfolding q_def r_def by simp_all
    have "4096 * j \<le> 4096 * q \<longleftrightarrow> 4096 * j \<le> 4096 * q + r" "4096 * q \<le> 4096 * (j + n) \<longleftrightarrow> 4096 * q + r < 4096 * (j + n + 1)"
      using x(2) by (cases "j \<le> q", simp_all) (cases "q \<le> j + n", simp_all)
    moreover have "unat (PGROUNDDOWN a) = 4096 * q" by (simp add: unat_PGROUNDDOWN q_def)
    ultimately show ?thesis using jk n x(1) by (simp add: in_pages_def ac_simps)
  qed
  have "unat va + 4096 * n < 4294967296" using assms(6) jk n by simp
  from map_kernel [OF assms(1,2,5) this assms(7,8)] assms(9) ip
  obtain r t ys where "mappages_loop d va pa perm n s = Ok (r, t)" "r = 0 \<or> r = -1 \<and> ys = []" "kmapped s d xs va n t ys" by blast
  moreover have "mappages d va sz pa perm s = mappages_loop d va pa perm n s"
    unfolding mappages_def Let_def unfolding cnt unfolding aligned_id [OF assms(2)] by (rule refl)
  ultimately show ?thesis using ip by (auto simp: kmapped_def)
qed
section \<open>setupkvm\<close>

text \<open>The ranges of \<open>kmap\<close>: whole pages above \<open>KERNBASE\<close>, one after the other.\<close>

definition krange :: "u32 \<times> u32 \<times> u32 \<times> u32 \<Rightarrow> bool" where
  "krange k = (case k of (virt, phys_start, phys_end, perm) \<Rightarrow>
     virt mod PGSIZE = 0 \<and> (phys_end - phys_start) mod PGSIZE = 0 \<and> 0 < unat (phys_end - phys_start) \<and> KERNBASE \<le> virt
     \<and> unat virt + unat (phys_end - phys_start) \<le> 4294967296 \<and> phys_start mod PGSIZE = 0 \<and> perm OR PTE_P < PGSIZE)"

definition kbefore :: "u32 \<times> u32 \<times> u32 \<times> u32 \<Rightarrow> u32 \<times> u32 \<times> u32 \<times> u32 \<Rightarrow> bool" where
  "kbefore k l = (case k of (virt, phys_start, phys_end, perm) \<Rightarrow> unat virt + unat (phys_end - phys_start) \<le> unat (fst l))"

lemma card_own: "card (own m d) \<le> 1025 + card (uframes m d)"
proof -
  have "tabs m d \<subseteq> (\<lambda>i. frame (pde m d (of_nat i))) ` {..<1024}"
  proof
    fix x assume "x \<in> tabs m d"
    then obtain i where i: "i < 1024" "x = frame (pde m d i)" by (auto simp: tabs_def)
    then have "i = of_nat (unat i)" "unat i < 1024" by (simp_all add: word_less_nat_alt)
    then show "x \<in> (\<lambda>i. frame (pde m d (of_nat i))) ` {..<1024}" using i(2) by (metis imageI lessThan_iff)
  qed
  then have "card (tabs m d) \<le> card ((\<lambda>i. frame (pde m d (of_nat i))) ` {..<1024})" by (intro card_mono) simp_all
  also have "\<dots> \<le> card {..<1024 :: nat}" by (intro card_image_le) simp
  finally have t: "card (tabs m d) \<le> 1024" by simp
  have "card (own m d) \<le> Suc (card (tabs m d \<union> uframes m d))" unfolding own_def by (simp add: card_insert_if finite_subset)
  also have "\<dots> \<le> Suc (card (tabs m d) + card (uframes m d))" using card_Un_le [of "tabs m d" "uframes m d"] by simp
  finally show ?thesis using t by simp
qed

lemma setupkvm_loop_ok:
  assumes "space s d xs" and "\<forall>k\<in>set ks. krange k" and "sorted_wrt kbefore ks"
    and "\<And>a. ks \<noteq> [] \<Longrightarrow> unat (fst (hd ks)) \<le> unat a \<Longrightarrow> \<not> present (entry (ram s) d a)" and "uframes (ram s) d = {}"
  shows "\<exists>t ys. setupkvm_loop d ks s = Ok (d, t) \<and> grown s d xs t ys \<and> no_leak s d xs t ys
       \<and> (\<forall>va<KERNBASE. entry (ram t) d va = entry (ram s) d va)
     \<or> setupkvm_loop d ks s = Ok (0, t) \<and> kalloc_inv t ys \<and> set ys = own (ram s) d \<union> set xs
       \<and> touches (own (ram s) d \<union> set xs) s t \<and> card (own (ram s) d \<union> set xs) \<le> 1025"
  using assms
proof (induction ks arbitrary: s xs)
  case Nil
  then show ?case using grown_refl by fastforce
next
  case (Cons k ks)
  obtain virt ps pe perm where k: "k = (virt, ps, pe, perm)" by (cases k)
  have kr: "virt mod PGSIZE = 0" "(pe - ps) mod PGSIZE = 0" "0 < unat (pe - ps)" "KERNBASE \<le> virt" "unat virt + unat (pe - ps) \<le> 4294967296"
      "ps mod PGSIZE = 0" "perm OR PTE_P < PGSIZE"
    using Cons.prems(2) by (simp_all add: k krange_def)
  obtain r t ys where m: "mappages d virt (pe - ps) ps perm s = Ok (r, t)" "r = 0 \<or> r = -1 \<and> ys = []" "grown s d xs t ys" "no_leak s d xs t ys"
      "\<And>a. unat a < unat virt \<or> unat virt + unat (pe - ps) \<le> unat a \<Longrightarrow> entry (ram t) d a = entry (ram s) d a"
    using mappages_kernel [OF Cons.prems(1) kr] Cons.prems(4) by (fastforce simp: k)
  have t: "space t d ys" using m(3) by (simp add: grown_def)
  have lo: "entry (ram t) d va = entry (ram s) d va" if "va < KERNBASE" for va
    using m(5) [of va] that kr(4) by (simp add: word_less_nat_alt word_le_nat_alt)
  have eq: "own (ram t) d \<union> set ys = own (ram s) d \<union> set xs" using m(4) by (simp add: no_leak_def)
  have "uframes (ram t) d = uframes (ram s) d" unfolding uframes_def using lo by (intro Collect_cong) metis
  then have uf: "uframes (ram t) d = {}" using Cons.prems(5) by simp
  have tc: "touches (own (ram s) d \<union> set xs) s t"
    using m(3) vspaceD(9,10) [OF spaceD(2) [OF Cons.prems(1)]] by (auto simp: grown_def intro: touches_mono)
  show ?case
  proof (cases "r = 0")
    case True
    have np: "\<not> present (entry (ram t) d a)" if "ks \<noteq> []" "unat (fst (hd ks)) \<le> unat a" for a
    proof -
      have "kbefore k (hd ks)" using Cons.prems(3) that(1) by simp
      then have "unat virt + unat (pe - ps) \<le> unat a" using that(2) by (simp add: kbefore_def k)
      then show ?thesis using m(5) [of a] Cons.prems(4) [of a] by (simp add: k)
    qed
    have "\<forall>k\<in>set ks. krange k" "sorted_wrt kbefore ks" using Cons.prems(2,3) by simp_all
    from Cons.IH [OF t this np uf]
    obtain u zs where "setupkvm_loop d ks t = Ok (d, u) \<and> grown t d ys u zs \<and> no_leak t d ys u zs
         \<and> (\<forall>va<KERNBASE. entry (ram u) d va = entry (ram t) d va)
       \<or> setupkvm_loop d ks t = Ok (0, u) \<and> kalloc_inv u zs \<and> set zs = own (ram t) d \<union> set ys
         \<and> touches (own (ram t) d \<union> set ys) t u \<and> card (own (ram t) d \<union> set ys) \<le> 1025"
      by blast
    moreover have "setupkvm_loop d (k # ks) s = setupkvm_loop d ks t" using m(1) True by (simp add: k)
    ultimately show ?thesis
      using grown_trans [OF m(3)] no_leak_trans [OF m(4)] lo eq touches_trans [OF tc] by (intro exI [of _ u] exI [of _ zs]) auto
  next
    case False
    then have r: "r = -1" "ys = []" using m(2) by simp_all
    have cd: "card (own (ram s) d \<union> set xs) \<le> 1025" using eq card_own [of "ram t" d] by (simp add: r(2) uf)
    obtain u zs where u: "freevm d t = Ok u" "kalloc_inv u zs" "set zs = set ys \<union> own (ram t) d" "touches (own (ram t) d) t u"
      using freevm_ok [OF t] by blast
    have "setupkvm_loop d (k # ks) s = Ok (0, u)" using m(1) r(1) u(1) by (simp add: k)
    moreover have "touches (own (ram s) d \<union> set xs) s u" by (rule touches_trans [OF tc u(4)]) (use eq in auto)
    moreover have "set zs = own (ram s) d \<union> set xs" using u(3) eq by auto
    ultimately show ?thesis using u(2) cd by blast
  qed
qed

text \<open>
  The linker puts \<open>data\<close> at a page boundary behind the kernel's code; \<open>kernel_layout\<close> is what the kernel
  relies on.
\<close>

definition kernel_layout :: "u32 \<Rightarrow> bool" where
  "kernel_layout data \<longleftrightarrow> data mod PGSIZE = 0 \<and> KERNLINK < data \<and> data < P2V PHYSTOP"

lemma kmap_ranges:
  assumes "kernel_layout data"
  shows "\<forall>k\<in>set (kmap data). krange k" "sorted_wrt kbefore (kmap data)"
proof -
  obtain k where k: "unat data = 4096 * k" using assms aligned_dvd by (auto simp: kernel_layout_def)
  have lt: "2148532224 < unat data" "unat data < 2382364672"
    using assms by (simp_all add: kernel_layout_def KERNLINK_def EXTMEM_def KERNBASE_def P2V_def PHYSTOP_def word_less_nat_alt)
  define p where "p = V2P data"
  have d: "data = p + 0x80000000" by (simp add: p_def V2P_def KERNBASE_def)
  have p: "unat p = unat data - 2147483648" unfolding p_def V2P_def KERNBASE_def using lt by (simp add: unat_sub_if_size word_size)
  have pm: "p mod PGSIZE = 0" "data mod PGSIZE = 0"
    using aligned_add [of data "- KERNBASE"] assms by (simp_all add: p_def V2P_def kernel_layout_def KERNBASE_def PGSIZE_def)
  have sz: "unat (p - 0x100000) = unat data - 2148532224" "unat (0xE000000 - p) = 2382364672 - unat data"
    using p lt by (simp_all add: unat_sub_if_size word_size)
  have szm: "(p - 0x100000) mod PGSIZE = 0" "(0xE000000 - p) mod PGSIZE = 0"
  proof -
    show "(p - 0x100000) mod PGSIZE = 0" using aligned_add [OF pm(1), of "- 0x100000"] by (simp add: PGSIZE_def)
    have "unat (0xE000000 - p) = 4096 * (581632 - k)" using sz(2) k by simp
    then have "unat ((0xE000000 - p) mod PGSIZE) = 0" by (simp add: unat_mod_distrib PGSIZE_def)
    then show "(0xE000000 - p) mod PGSIZE = 0" by (simp add: unat_eq_zero)
  qed
  have km: "kmap data = [(0x80000000, 0, 0x100000, 2), (0x80100000, 0x100000, p, 0), (data, p, 0xE000000, 2), (0xFE000000, 0xFE000000, 0, 2)]"
    by (simp add: kmap_def p_def KERNBASE_def EXTMEM_def PTE_W_def KERNLINK_def V2P_def PHYSTOP_def DEVSPACE_def)
  have kb: "KERNBASE \<le> data" using lt by (simp add: KERNBASE_def word_le_nat_alt)
  show "\<forall>k\<in>set (kmap data). krange k"
    using sz szm pm lt kb by (simp add: km krange_def PTE_P_def) (simp add: PGSIZE_def KERNBASE_def)
  show "sorted_wrt kbefore (kmap data)" using sz lt by (simp add: km kbefore_def)
qed

lemma setupkvm_ok:
  assumes "kalloc_inv s xs" and "KERNBASE < kend s" and "kernel_layout data"
  shows "\<exists>r t ys. setupkvm data s = Ok (r, t) \<and> touches (set xs) s t
    \<and> (r \<noteq> 0 \<and> space t r ys \<and> own (ram t) r \<union> set ys = set xs \<and> (\<forall>va<KERNBASE. entry (ram t) r va = 0)
       \<or> r = 0 \<and> kalloc_inv t ys \<and> set ys = set xs \<and> length xs \<le> 1025)"
proof (cases xs)
  case Nil
  then obtain u where u: "kalloc s = Ok (0, u)" "kalloc_inv u []" "ram u = ram s" "kend u = kend s"
    using kalloc_inv_Nil assms(1) by blast
  then have "setupkvm data s = Ok (0, u)" "touches (set xs) s u" by (simp_all add: setupkvm_def touches_def)
  then show ?thesis using u(2) Nil by auto
next
  case (Cons d ys)
  then obtain u where u: "kalloc s = Ok (d, u)" "kalloc_inv u ys" "ram u = ram s" "kend u = kend s"
    using kalloc_inv_Cons assms(1) by blast
  define v where "v = u\<lparr>ram := memset (ram u) d 0 PGSIZE\<rparr>"
  have d: "page_ok s d" "d mod PGSIZE = 0" "d \<notin> set ys" "d \<noteq> 0"
    using assms(1) Cons page_ok_nonzero by (auto simp: kalloc_inv_def page_ok_def)
  have tv: "touches {d} u v" "touches {d} s v" using u(3,4) by (simp_all add: v_def touches_def memset_other)
  have k: "kalloc_inv v ys"
    by (rule kalloc_inv_touches [OF u(2) tv(1)]) (use d u(2) in \<open>simp_all add: v_def kalloc_inv_def\<close>)
  have z: "\<And>x. x \<in> region d PGSIZE \<Longrightarrow> ram v x = 0" by (simp add: v_def memset_def region_def)
  have pv: "page_ok v d" using touches_page_ok [OF tv(2)] d(1) by simp
  have kv: "KERNBASE < kend v" using assms(2) u(4) by (simp add: v_def)
  note sp = zero_space [OF k pv d(3) kv z]
  have np: "\<not> present (entry (ram v) d a)" for a using sp(2) [of a] by (simp add: present_def)
  have uf: "uframes (ram v) d = {}" using np by (simp add: uframes_def)
  have s: "setupkvm data s = setupkvm_loop d (kmap data) v"
    using d(4) by (simp add: setupkvm_def u(1) Let_def v_def DEVSPACE_def P2V_def PHYSTOP_def KERNBASE_def)
  have dx: "distinct xs" using assms(1) by (simp add: kalloc_inv_def)
  have ow: "own (ram v) d \<union> set ys = set xs" by (simp add: sp(3) Cons)
  from setupkvm_loop_ok [OF sp(1) kmap_ranges [OF assms(3)] np uf]
  obtain t zs where t: "setupkvm_loop d (kmap data) v = Ok (d, t) \<and> grown v d ys t zs \<and> no_leak v d ys t zs
       \<and> (\<forall>va<KERNBASE. entry (ram t) d va = entry (ram v) d va)
     \<or> setupkvm_loop d (kmap data) v = Ok (0, t) \<and> kalloc_inv t zs \<and> set zs = set xs
       \<and> touches (set xs) v t \<and> length xs \<le> 1025"
    unfolding ow distinct_card [OF dx] by blast
  have tt: "touches (set xs) s t" if "touches (insert d (set ys)) v t" by (rule touches_trans [OF tv(2) that]) (auto simp: Cons)
  from t show ?thesis
  proof (elim disjE conjE)
    assume a: "setupkvm_loop d (kmap data) v = Ok (d, t)" "grown v d ys t zs" "no_leak v d ys t zs"
      and e: "\<forall>va<KERNBASE. entry (ram t) d va = entry (ram v) d va"
    have "touches (set xs) s t" using a(2) by (intro tt) (simp add: grown_def sp(4))
    moreover have "\<forall>va<KERNBASE. entry (ram t) d va = 0" using e sp(2) by simp
    moreover have "own (ram t) d \<union> set zs = set xs" using a(3) ow by (simp add: no_leak_def)
    moreover have "space t d zs" using a(2) by (simp add: grown_def)
    ultimately show ?thesis using s a(1) d(4) by auto
  next
    assume a: "setupkvm_loop d (kmap data) v = Ok (0, t)" "kalloc_inv t zs" "set zs = set xs" "touches (set xs) v t" "length xs \<le> 1025"
    have "touches (set xs) s t" using a(4) by (intro tt) (simp add: Cons)
    then show ?thesis using s a by auto
  qed
qed

end
