(* ===== verification/Vm_Copy.thy ===== *)
theory Vm_Copy
  imports Vm_Kernel
begin

text \<open>
  Copying an address space, as \<open>fork\<close> does: \<open>copyuvm\<close> gives the child its own copy of every user page.
\<close>

section \<open>One page\<close>

text \<open>\<open>page_copy m d m' p va\<close>: in \<open>m\<close> the space \<open>d\<close> has, at \<open>va\<close>, a copy of the page of the space \<open>p\<close> in \<open>m'\<close>.\<close>

definition page_copy :: "memory \<Rightarrow> u32 \<Rightarrow> memory \<Rightarrow> u32 \<Rightarrow> u32 \<Rightarrow> bool" where
  "page_copy m d m' p va \<longleftrightarrow> present (entry m d va) \<and> PTE_FLAGS (entry m d va) = PTE_FLAGS (entry m' p va)
     \<and> (\<forall>k<PGSIZE. m (frame (entry m d va) + k) = m' (frame (entry m' p va) + k))"

lemma copy_entry:
  assumes "q mod PGSIZE = 0" and "present e"
  shows "PTE_FLAGS e OR PTE_P < PGSIZE" "frame (V2P q OR PTE_FLAGS e OR PTE_P) = q" "present (V2P q OR PTE_FLAGS e OR PTE_P)"
    "PTE_FLAGS (V2P q OR PTE_FLAGS e OR PTE_P) = PTE_FLAGS e"
proof -
  have m: "(0xFFF :: u32) = mask 12" by (simp add: mask_eq_exp_minus_1)
  have b: "bit e 0" using assms(2) by (simp add: present_def PTE_P_def and_one_eq odd_iff_mod_2_eq_one bit_0 split: if_splits)
  have f: "PTE_FLAGS e OR PTE_P = PTE_FLAGS e"
  proof (rule bit_word_eqI)
    fix n assume "n < LENGTH(32)"
    show "bit (PTE_FLAGS e OR PTE_P) n = bit (PTE_FLAGS e) n" using b by (cases n) (auto simp: PTE_FLAGS_def PTE_P_def m bit_simps)
  qed
  have lt: "PTE_FLAGS e < PGSIZE"
    using word_and_le1 [of e "0xFFF"] by (simp add: PTE_FLAGS_def PGSIZE_def word_le_nat_alt word_less_nat_alt)
  show "PTE_FLAGS e OR PTE_P < PGSIZE" using lt f by simp
  then show "frame (V2P q OR PTE_FLAGS e OR PTE_P) = q" using frame_entry [OF assms(1)] by (simp add: or.assoc)
  show "present (V2P q OR PTE_FLAGS e OR PTE_P)" by (rule present_flag(1))
  have "(V2P q) mod PGSIZE = 0"
    using aligned_add [of q "- KERNBASE"] assms(1) by (simp add: V2P_def KERNBASE_def PGSIZE_def)
  then have "take_bit 12 (V2P q) = 0" by (simp add: page_mod)
  then have v: "n < 12 \<Longrightarrow> \<not> bit (V2P q) n" for n using bit_take_bit_iff [of 12 "V2P q" n] by simp
  show "PTE_FLAGS (V2P q OR PTE_FLAGS e OR PTE_P) = PTE_FLAGS e"
    unfolding or.assoc f by (rule bit_word_eqI) (auto simp: PTE_FLAGS_def m bit_simps v)
qed
section \<open>The loop\<close>

text \<open>
  What \<open>copyuvm\<close> has done when its loop is at the address \<open>i\<close>: the pages below \<open>i\<close> are copied, no other
  user page is mapped, and the child is made of pages that were free.
\<close>

definition copying :: "'a machine_scheme \<Rightarrow> u32 \<Rightarrow> u32 list \<Rightarrow> u32 \<Rightarrow> u32 \<Rightarrow> u32 \<Rightarrow> 'a machine_scheme \<Rightarrow> u32 list \<Rightarrow> bool" where
  "copying s p xs d sz i t ys \<longleftrightarrow> space t d ys \<and> own (ram t) d \<union> set ys = set xs \<and> touches (set xs) s t
     \<and> (\<forall>va<KERNBASE. if PGROUNDDOWN va < i \<and> PGROUNDDOWN va < sz then page_copy (ram t) d (ram s) p va else entry (ram t) d va = 0)"

lemma parent_view:
  assumes "space s p xs" and "touches (set xs) s t"
  shows "i < 1024 \<Longrightarrow> pde (ram t) p i = pde (ram s) p i" "entry (ram t) p va = entry (ram s) p va" "vspace t p" "own (ram t) p = own (ram s) p"
    "va < KERNBASE \<Longrightarrow> present (entry (ram s) p va) \<Longrightarrow> x \<in> region (frame (entry (ram s) p va)) PGSIZE \<Longrightarrow> ram t x = ram s x"
proof -
  note v = vspaceD [OF spaceD(2) [OF assms(1)]]
  have al: "\<forall>q\<in>set xs. q mod PGSIZE = 0" using space_page [OF assms(1)] by blast
  have c: "p \<notin> set xs" "tabs (ram s) p \<inter> set xs = {}" using v(9,10) spaceD(3) [OF assms(1)] by blast+
  note w = view_touches [OF spaceD(2) [OF assms(1)] assms(2) al c]
  show "i < 1024 \<Longrightarrow> pde (ram t) p i = pde (ram s) p i" "entry (ram t) p va = entry (ram s) p va" "vspace t p" "own (ram t) p = own (ram s) p"
    by (rule w, assumption?)+
  assume a: "va < KERNBASE" "present (entry (ram s) p va)" "x \<in> region (frame (entry (ram s) p va)) PGSIZE"
  have "frame (entry (ram s) p va) \<notin> set xs" using uframesI [OF a(1,2)] v(11) spaceD(3) [OF assms(1)] by blast
  then show "ram t x = ram s x" by (rule touches_page [OF assms(2) al frame_aligned _ a(3)])
qed

lemma offset_region: "k < PGSIZE \<Longrightarrow> q + k \<in> region q PGSIZE"
  by (simp add: region_def)

lemma copy_step:
  fixes t :: "'a machine_scheme"
  assumes "copying s p xs d sz i t (q # zs)" and "space s p xs" and "i mod PGSIZE = 0" and "i < sz" and "sz \<le> KERNBASE"
    and "present (entry (ram s) p i)"
    and v: "space v d zs" "touches {q} t v" "\<forall>va. entry (ram v) d va = entry (ram t) d va" "own (ram v) d = own (ram t) d"
      "tabs (ram v) d = tabs (ram t) d" "q \<notin> own (ram t) d \<union> set zs"
      "\<forall>k<PGSIZE. ram v (q + k) = ram t (frame (entry (ram s) p i) + k)"
    and "mapped v d zs i q (V2P q OR PTE_FLAGS (entry (ram s) p i) OR PTE_P) u ws"
  shows "copying s p xs d sz (i + PGSIZE) u ws"
proof -
  let ?e = "V2P q OR PTE_FLAGS (entry (ram s) p i) OR PTE_P"
  have ik: "i < KERNBASE" using assms(4,5) by simp
  have t: "space t d (q # zs)" "own (ram t) d \<union> set (q # zs) = set xs" "touches (set xs) s t"
      "\<And>va. va < KERNBASE \<Longrightarrow> if PGROUNDDOWN va < i \<and> PGROUNDDOWN va < sz then page_copy (ram t) d (ram s) p va else entry (ram t) d va = 0"
    using assms(1) by (simp_all add: copying_def)
  have m: "space u d ws" "touches (insert d (tabs (ram v) d \<union> set zs)) v u" "own (ram u) d \<union> set ws = own (ram v) d \<union> set zs \<union> {q}"
      "\<And>va. entry (ram u) d va = (if PGROUNDDOWN va = PGROUNDDOWN i then ?e else entry (ram v) d va)"
    using assms(14) ik by (simp_all add: mapped_def)
  have al: "PGROUNDDOWN i = i" by (rule aligned_id [OF assms(3)])
  have q0: "q mod PGSIZE = 0" using space_page [OF t(1)] by simp
  note ce = copy_entry [OF q0 assms(6)]
  note pv = parent_view [OF assms(2) t(3)]
  have st: "PGROUNDDOWN va < i + PGSIZE \<longleftrightarrow> PGROUNDDOWN va < i \<or> PGROUNDDOWN va = i" for va
    using page_le_step [OF assms(3) PGROUNDDOWN_page ik, of va] by (auto simp: not_less order_le_less)
  have tu: "touches (insert d (tabs (ram t) d \<union> set (q # zs))) t u"
    by (rule touches_trans [OF v(2) m(2)]) (auto simp: v(5))
  have "insert d (tabs (ram t) d \<union> set (q # zs)) \<subseteq> set xs"
    using t(2) vspaceD(9,10) [OF spaceD(2) [OF t(1)]] by blast
  then have "touches (set xs) s u" by (intro touches_trans [OF t(3) tu]) simp_all
  moreover have "own (ram u) d \<union> set ws = set xs" using m(3) v(4) t(2) by auto
  moreover have "if PGROUNDDOWN va < i + PGSIZE \<and> PGROUNDDOWN va < sz then page_copy (ram u) d (ram s) p va else entry (ram u) d va = 0"
    if vk: "va < KERNBASE" for va
  proof (cases "PGROUNDDOWN va = i")
    case True
    have eu: "entry (ram u) d va = ?e" using m(4) [of va] True al by simp
    have es: "entry (ram s) p va = entry (ram s) p i" by (rule entry_page) (simp add: True al)
    have "ram u (q + k) = ram s (frame (entry (ram s) p i) + k)" if "k < PGSIZE" for k
    proof -
      have "q \<notin> insert d (tabs (ram v) d \<union> set zs)"
        using v(4,5,6) vspaceD(9,10) [OF spaceD(2) [OF v(1)]] by auto
      then have "ram u (q + k) = ram v (q + k)" by (rule mapped_other [OF assms(14) v(1) q0 _ offset_region [OF that]])
      then show ?thesis using v(7) that pv(5) [OF ik assms(6) offset_region [OF that]] by simp
    qed
    then have "page_copy (ram u) d (ram s) p va" using ce by (simp add: page_copy_def eu es)
    then show ?thesis using st [of va] True assms(4) by simp
  next
    case False
    have eu: "entry (ram u) d va = entry (ram t) d va" using m(4) [of va] False al v(3) by simp
    show ?thesis
    proof (cases "PGROUNDDOWN va < i \<and> PGROUNDDOWN va < sz")
      case True
      then have pc: "page_copy (ram t) d (ram s) p va" using t(4) [OF vk] by simp
      then have pr: "present (entry (ram t) d va)" by (simp add: page_copy_def)
      have "ram u (frame (entry (ram t) d va) + k) = ram t (frame (entry (ram t) d va) + k)" if "k < PGSIZE" for k
        by (rule user_frame_kept [OF t(1) vk pr tu _ offset_region [OF that]]) simp
      then have "page_copy (ram u) d (ram s) p va" using pc by (simp add: page_copy_def eu)
      then show ?thesis using True st [of va] by simp
    next
      case False
      then have "entry (ram t) d va = 0" using t(4) [OF vk] by simp
      then show ?thesis using False st [of va] \<open>PGROUNDDOWN va \<noteq> i\<close> eu by auto
    qed
  qed
  ultimately show ?thesis using m(1) by (simp add: copying_def)
qed

text \<open>How many free pages a copy needs at most.\<close>

lemma copying_pages:
  assumes "copying s p xs d sz i t ys" and "distinct xs" and "sz \<le> KERNBASE"
  shows "length xs \<le> 1025 + (unat sz + 4095) div 4096 + length ys"
proof -
  let ?n = "(unat sz + 4095) div 4096"
  have t: "own (ram t) d \<union> set ys = set xs"
      "\<And>va. va < KERNBASE \<Longrightarrow> if PGROUNDDOWN va < i \<and> PGROUNDDOWN va < sz then page_copy (ram t) d (ram s) p va else entry (ram t) d va = 0"
    using assms(1) by (simp_all add: copying_def)
  have "uframes (ram t) d \<subseteq> (\<lambda>k. frame (entry (ram t) d (of_nat (4096 * k)))) ` {..<?n}"
  proof
    fix x assume "x \<in> uframes (ram t) d"
    then obtain va where va: "va < KERNBASE" "present (entry (ram t) d va)" "x = frame (entry (ram t) d va)" by (auto simp: uframes_def)
    then have lt: "PGROUNDDOWN va < sz" using t(2) [OF va(1)] by (auto simp: present_def split: if_splits)
    obtain k where k: "unat (PGROUNDDOWN va) = 4096 * k" using aligned_dvd [OF PGROUNDDOWN_page] by blast
    have "4096 * k < unat sz" using lt k by (simp add: word_less_nat_alt)
    then have "4096 * k + 4096 \<le> unat sz + 4095" by simp
    then have "(4096 * k + 4096) div 4096 \<le> ?n" by (rule div_le_mono)
    then have kn: "k < ?n" by simp
    have "entry (ram t) d va = entry (ram t) d (PGROUNDDOWN va)" by (rule entry_page) simp
    also have "PGROUNDDOWN va = of_nat (unat (PGROUNDDOWN va))" by simp
    also have "\<dots> = of_nat (4096 * k)" using k by simp
    finally show "x \<in> (\<lambda>k. frame (entry (ram t) d (of_nat (4096 * k)))) ` {..<?n}" using kn va(3) by (intro image_eqI [of _ _ k]) simp_all
  qed
  then have "card (uframes (ram t) d) \<le> card ((\<lambda>k. frame (entry (ram t) d (of_nat (4096 * k)))) ` {..<?n})" by (intro card_mono) simp_all
  also have "\<dots> \<le> card {..<?n}" by (intro card_image_le) simp
  finally have u: "card (uframes (ram t) d) \<le> ?n" by simp
  have "length xs = card (own (ram t) d \<union> set ys)" using t(1) distinct_card [OF assms(2)] by simp
  also have "\<dots> \<le> card (own (ram t) d) + card (set ys)" by (rule card_Un_le)
  finally show ?thesis using card_own [of "ram t" d] card_length [of ys] u by simp
qed
text \<open>The child is given up: all pages are free again.\<close>

definition given_up :: "'a machine_scheme \<Rightarrow> u32 list \<Rightarrow> 'a machine_scheme \<Rightarrow> bool" where
  "given_up s xs t \<longleftrightarrow> touches (set xs) s t \<and> (\<exists>ys. kalloc_inv t ys \<and> set ys = set xs)"

lemma copyuvm_bad_ok:
  assumes "space t d ys" and "own (ram t) d \<union> set ys = set xs" and "touches (set xs) s t"
  shows "\<exists>u. copyuvm_bad d t = Ok (0, u) \<and> given_up s xs u"
proof -
  obtain u zs where u: "freevm d t = Ok u" "kalloc_inv u zs" "set zs = set ys \<union> own (ram t) d" "touches (own (ram t) d) t u"
    using freevm_ok [OF assms(1)] by blast
  have "touches (set xs) s u" by (rule touches_trans [OF assms(3) u(4)]) (use assms(2) in auto)
  moreover have "set zs = set xs" using u(3) assms(2) by auto
  ultimately have "given_up s xs u" using u(2) by (auto simp: given_up_def)
  then show ?thesis using u(1) by (simp add: copyuvm_bad_def)
qed

definition copy_result :: "'a machine_scheme \<Rightarrow> u32 \<Rightarrow> u32 list \<Rightarrow> u32 \<Rightarrow> u32 \<Rightarrow> (u32 \<times> 'a machine_scheme) kres \<Rightarrow> bool" where
  "copy_result s p xs d sz r \<longleftrightarrow> (\<exists>u zs. r = Ok (d, u) \<and> copying s p xs d sz sz u zs)
     \<or> (\<exists>u. r = Ok (0, u) \<and> given_up s xs u \<and> length xs \<le> 1026 + (unat sz + 4095) div 4096)"

lemma copyuvm_from_step:
  assumes "space s p xs" and "touches (set xs) s t" and "i < sz" and "sz \<le> KERNBASE" and "i mod PGSIZE = 0"
    and "present (entry (ram s) p i)"
  shows "copyuvm_from p d i sz t = kbind (kalloc t) (\<lambda>(mem, u). if mem = 0 then copyuvm_bad d u
     else kbind (mappages_loop d i (V2P mem) (PTE_FLAGS (entry (ram s) p i)) 0
            (memmove_ram mem (\<lambda>k. ram u (frame (entry (ram s) p i) + k)) PGSIZE u)) (\<lambda>(r, w).
          if r < 0 then kbind (kfree mem w) (copyuvm_bad d) else copyuvm_from p d (i + PGSIZE) sz w))"
proof -
  note pv = parent_view [OF assms(1,2)]
  have e: "entry (ram t) p i = entry (ram s) p i" by (rule pv(2))
  have pp: "present (pde (ram t) p (PDX i))" using assms(6) e by (auto simp: entry_def present_def split: if_splits)
  let ?pte = "slot (frame (pde (ram t) p (PDX i))) (PTX i)"
  have "frame (pde (ram t) p (PDX i)) \<in> own (ram t) p"
    using tabsI [OF PDX_PTX_less(1) pp] vspaceD(10) [OF pv(3)] by blast
  then have nz: "?pte \<noteq> 0" using slot_nonzero [OF vspaceD(2) [OF pv(3)] PDX_PTX_less(2)] by blast
  have w: "walkpgdir p i False t = Ok (?pte, t)" using pp by (simp add: walk_False)
  have ld: "load32 (ram t) ?pte = entry (ram s) p i" using pp e by (simp add: entry_def)
  show ?thesis
    by (subst copyuvm_from.simps)
       (use assms(3,6) no_wrap [OF assms(3,4)] in \<open>simp add: w nz ld Let_def mappages_one [OF assms(5)] flip: frame_def cong: if_cong\<close>)
qed

lemma copyuvm_from_ok:
  assumes "copying s p xs d sz i t ys" and "space s p xs" and "sz \<le> KERNBASE" and "i mod PGSIZE = 0"
    and "\<And>va. PGROUNDDOWN va < sz \<Longrightarrow> present (entry (ram s) p va)"
  shows "copy_result s p xs d sz (copyuvm_from p d i sz t)"
  using assms(1,4)
proof (induction i arbitrary: t ys rule: word_up_induct)
  case (up i)
  have c: "space t d ys" "own (ram t) d \<union> set ys = set xs" "touches (set xs) s t"
      "\<And>va. va < KERNBASE \<Longrightarrow> if PGROUNDDOWN va < i \<and> PGROUNDDOWN va < sz then page_copy (ram t) d (ram s) p va else entry (ram t) d va = 0"
    using up.prems(1) by (simp_all add: copying_def)
  have dx: "distinct xs" using spaceD(1) [OF assms(2)] by (simp add: kalloc_inv_def)
  show ?case
  proof (cases "i < sz")
    case False
    then have "copyuvm_from p d i sz t = Ok (d, t)" by (subst copyuvm_from.simps) simp
    moreover have "copying s p xs d sz sz t ys"
      unfolding copying_def using c False by (auto simp: not_less)
    ultimately show ?thesis by (auto simp: copy_result_def)
  next
    case True
    have al: "PGROUNDDOWN i = i" by (rule aligned_id [OF up.prems(2)])
    have ik: "i < KERNBASE" using True assms(3) by simp
    have pr: "present (entry (ram s) p i)" by (rule assms(5)) (simp add: al True)
    let ?E = "entry (ram s) p i"
    note step = copyuvm_from_step [OF assms(2) c(3) True assms(3) up.prems(2) pr, of d]
    have few: "length ys \<le> 1 \<Longrightarrow> length xs \<le> 1026 + (unat sz + 4095) div 4096"
      using copying_pages [OF up.prems(1) dx assms(3)] by simp
    show ?thesis
    proof (cases ys)
      case Nil
      then obtain u where u: "kalloc t = Ok (0, u)" "kalloc_inv u []" "ram u = ram t" "kend u = kend t"
        using kalloc_inv_Nil spaceD(1) [OF c(1)] by blast
      have su: "space u d []" by (rule space_touches(1) [OF c(1), of "{}"]) (use u in \<open>simp_all add: touches_def\<close>)
      have "touches (set xs) s u" using c(3) u(3,4) by (simp add: touches_def)
      moreover have "own (ram u) d \<union> set [] = set xs" using c(2) u(3) Nil by simp
      ultimately obtain w where "copyuvm_bad d u = Ok (0, w)" "given_up s xs w" using copyuvm_bad_ok [OF su] by blast
      then have "copyuvm_from p d i sz t = Ok (0, w)" "given_up s xs w" by (simp_all add: step u(1))
      then show ?thesis using few Nil by (simp add: copy_result_def)
    next
      case (Cons q zs)
      let ?m = "\<lambda>a. if a - q < PGSIZE then ram t (frame ?E + (a - q)) else ram t a"
      obtain u where u: "kalloc t = Ok (q, u)" "ram u = ram t" and v: "space (u\<lparr>ram := ?m\<rparr>) d zs" "touches {q} t (u\<lparr>ram := ?m\<rparr>)"
          "\<forall>va. entry ?m d va = entry (ram t) d va" "own ?m d = own (ram t) d" "tabs ?m d = tabs (ram t) d"
        and q: "q \<noteq> 0" "page_ok t q" "q \<notin> own (ram t) d \<union> set zs"
        using take_page [OF c(1) [unfolded Cons], of ?m] by (auto simp: region_def)
      define w where "w = u\<lparr>ram := ?m\<rparr>"
      have mv: "memmove_ram q (\<lambda>k. ram u (frame ?E + k)) PGSIZE u = w" by (simp add: memmove_ram_def w_def u(2) cong: if_cong)
      have wv: "space w d zs" "touches {q} t w" "\<forall>va. entry (ram w) d va = entry (ram t) d va" "own (ram w) d = own (ram t) d"
          "tabs (ram w) d = tabs (ram t) d" "\<forall>k<PGSIZE. ram w (q + k) = ram t (frame ?E + k)"
        using v by (simp_all add: w_def)
      have q0: "q mod PGSIZE = 0" using q(2) by (simp add: page_ok_def)
      have "entry (ram t) d i = 0" using c(4) [OF ik] by (simp add: al)
      then have np: "\<not> present (entry (ram w) d i)" using wv(3) by (simp add: present_def)
      have qw: "i < KERNBASE \<Longrightarrow> page_ok w q \<and> q \<notin> own (ram w) d \<union> set zs"
        using q touches_page_ok [OF wv(2)] wv(4) by simp
      from map_step [OF wv(1) np q0 copy_entry(1) [OF q0 pr] qw]
      consider x ws where "mapped w d zs i q (V2P q OR PTE_FLAGS ?E OR PTE_P) x ws" "mappages_loop d i (V2P q) (PTE_FLAGS ?E) 0 w = Ok (0, x)"
        | x where "zs = []" "space x d []" "ram x = ram w" "kend x = kend w" "mappages_loop d i (V2P q) (PTE_FLAGS ?E) 0 w = Ok (-1, x)"
        by (metis nat.case(1))
      then show ?thesis
      proof cases
        case 1
        have "copying s p xs d sz (i + PGSIZE) x ws"
          by (rule copy_step [OF up.prems(1) [unfolded Cons] assms(2) up.prems(2) True assms(3) pr wv(1-5) q(3) wv(6) 1(1)])
        from up.IH [OF no_wrap [OF True assms(3)] this page_aligned_step [OF up.prems(2)]]
        show ?thesis using step u(1) q(1) mv 1(2) by simp
      next
        case 2
        have xw: "own (ram x) d = own (ram t) d" using 2(3) wv(4) by simp
        have tx: "touches {q} t x" using wv(2) 2(3,4) by (simp add: touches_def)
        have "page_ok x q" "q \<notin> set []" "q \<notin> own (ram x) d" using touches_page_ok [OF tx] q(2,3) xw by simp_all
        then obtain z where z: "kfree q x = Ok z" "space z d [q]" "touches {q} x z" "own (ram z) d = own (ram x) d"
          using give_back [OF 2(2)] by blast
        have eq: "own (ram z) d \<union> set [q] = set xs" using z(4) xw c(2) Cons 2(1) by simp
        have qx: "q \<in> set xs" using c(2) Cons by auto
        have "touches (set xs) s x" by (rule touches_trans [OF c(3) tx]) (use qx in simp_all)
        then have "touches (set xs) s z" by (rule touches_trans [OF _ z(3)]) (use qx in simp_all)
        then obtain y where "copyuvm_bad d z = Ok (0, y)" "given_up s xs y" using copyuvm_bad_ok [OF z(2) eq] by blast
        then have "copyuvm_from p d i sz t = Ok (0, y)" "given_up s xs y" using step u(1) q(1) mv 2(5) z(1) by simp_all
        then show ?thesis using few Cons 2(1) by (simp add: copy_result_def)
      qed
    qed
  qed
qed
section \<open>The whole copy\<close>

lemma page_copy_byte:
  assumes "page_copy m d m' p va"  and "present (entry m' p va)"
  shows "user_byte m d va = user_byte m' p va"
proof -
  let ?e = "entry m d va" and ?f = "entry m' p va"
  have pc: "present ?e" "PTE_FLAGS ?e = PTE_FLAGS ?f" "\<forall>k<PGSIZE. m (frame ?e + k) = m' (frame ?f + k)"
    using assms(1) by (simp_all add: page_copy_def)
  have u: "x AND PTE_U = PTE_FLAGS x AND PTE_U" for x by (simp add: PTE_FLAGS_def PTE_U_def and.assoc)
  have k: "va AND 0xFFF < PGSIZE" using page_offset [of ?e va] by (simp add: region_def)
  show ?thesis using pc assms(2) k u [of ?e] u [of ?f] by (simp add: user_byte_def Let_def)
qed

lemma copyuvm_run:
  assumes "space s p xs" and "kernel_layout data" and "sz \<le> KERNBASE" and "\<And>va. PGROUNDDOWN va < sz \<Longrightarrow> present (entry (ram s) p va)"
  shows "\<exists>r t ys. copyuvm data p sz s = Ok (r, t) \<and> touches (set xs) s t \<and> kalloc_inv t ys
    \<and> (r \<noteq> 0 \<and> copying s p xs r sz sz t ys \<or> r = 0 \<and> set ys = set xs \<and> length xs \<le> 1026 + (unat sz + 4095) div 4096)"
proof -
  have kb: "KERNBASE < kend s" by (rule vspaceD(1) [OF spaceD(2) [OF assms(1)]])
  obtain d t ys where t: "setupkvm data s = Ok (d, t)" "touches (set xs) s t"
      "d \<noteq> 0 \<and> space t d ys \<and> own (ram t) d \<union> set ys = set xs \<and> (\<forall>va<KERNBASE. entry (ram t) d va = 0)
       \<or> d = 0 \<and> kalloc_inv t ys \<and> set ys = set xs \<and> length xs \<le> 1025"
    using setupkvm_ok [OF spaceD(1) [OF assms(1)] kb assms(2)] by blast
  show ?thesis
  proof (cases "d = 0")
    case True
    then have "copyuvm data p sz s = Ok (0, t)" using t(1) by (simp add: copyuvm_def)
    then show ?thesis using t(2,3) True by (intro exI [of _ 0] exI [of _ t] exI [of _ ys]) auto
  next
    case False
    then have c: "copyuvm data p sz s = copyuvm_from p d 0 sz t" using t(1) by (simp add: copyuvm_def)
    have "copying s p xs d sz 0 t ys" using t(2,3) False by (simp add: copying_def)
    moreover have "(0 :: u32) mod PGSIZE = 0" by simp
    ultimately have "copy_result s p xs d sz (copyuvm_from p d 0 sz t)" by (rule copyuvm_from_ok [OF _ assms(1,3) _ assms(4)])
    then consider u zs where "copyuvm data p sz s = Ok (d, u)" "copying s p xs d sz sz u zs"
      | u zs where "copyuvm data p sz s = Ok (0, u)" "touches (set xs) s u" "kalloc_inv u zs" "set zs = set xs"
          "length xs \<le> 1026 + (unat sz + 4095) div 4096"
      unfolding copy_result_def given_up_def c by blast
    then show ?thesis
    proof cases
      case 1
      moreover have "touches (set xs) s u" "kalloc_inv u zs" using 1(2) by (simp_all add: copying_def space_def)
      ultimately show ?thesis using False by blast
    qed blast
  qed
qed

text \<open>
  C13.  \<open>fork\<close> copies.  \<open>copyuvm\<close> either returns a new address space whose pages all come from the free
  list, in which every byte below \<open>sz\<close> reads as in the parent and every other user address faults, or
  returns 0 with all pages free again, and that happens only when there are no more free pages than a
  directory, its page tables and the copied pages can take.  In both cases the parent's space is the one it
  was, and shares no page with the child's.
\<close>

theorem copyuvm_copies:
  assumes "space s p xs" and "kernel_layout data" and "sz \<le> KERNBASE" and "\<And>va. PGROUNDDOWN va < sz \<Longrightarrow> present (entry (ram s) p va)"
  shows "\<exists>r t ys. copyuvm data p sz s = Ok (r, t) \<and> space t p ys \<and> (\<forall>va. user_byte (ram t) p va = user_byte (ram s) p va)
    \<and> (if r = 0 then set ys = set xs \<and> length xs \<le> 1026 + (unat sz + 4095) div 4096
       else space t r ys \<and> own (ram t) r \<union> set ys = set xs \<and> own (ram t) r \<inter> own (ram t) p = {}
         \<and> (\<forall>va. user_byte (ram t) r va = (if PGROUNDDOWN va < sz then user_byte (ram s) p va else None)))"
proof -
  obtain r t ys where t: "copyuvm data p sz s = Ok (r, t)" "touches (set xs) s t" "kalloc_inv t ys"
      "r \<noteq> 0 \<and> copying s p xs r sz sz t ys \<or> r = 0 \<and> set ys = set xs \<and> length xs \<le> 1026 + (unat sz + 4095) div 4096"
    using copyuvm_run [OF assms] by blast
  note pv = parent_view [OF assms(1) t(2)]
  have di: "own (ram s) p \<inter> set xs = {}" by (rule spaceD(3) [OF assms(1)])
  have al: "\<forall>q\<in>set xs. q mod PGSIZE = 0" using space_page [OF assms(1)] by blast
  have par: "user_byte (ram t) p va = user_byte (ram s) p va" for va
    by (rule user_byte_other(3) [OF spaceD(2) [OF assms(1)] t(2) al di])
  have ys: "set ys \<subseteq> set xs" using t(4) by (auto simp: copying_def)
  then have sp: "space t p ys" using t(3) pv(3) di by (auto simp: space_def pv(4))
  show ?thesis
  proof (cases "r = 0")
    case True
    then show ?thesis using t(1,4) par sp by (intro exI [of _ r] exI [of _ t] exI [of _ ys]) simp
  next
    case False
    then have c: "space t r ys" "own (ram t) r \<union> set ys = set xs"
        "\<And>va. va < KERNBASE \<Longrightarrow> if PGROUNDDOWN va < sz then page_copy (ram t) r (ram s) p va else entry (ram t) r va = 0"
      using t(4) by (simp_all add: copying_def)
    have "user_byte (ram t) r va = (if PGROUNDDOWN va < sz then user_byte (ram s) p va else None)" for va
    proof (cases "va < KERNBASE")
      case True
      show ?thesis
      proof (cases "PGROUNDDOWN va < sz")
        case copied: True
        then show ?thesis using page_copy_byte [OF _ assms(4) [OF copied]] c(3) [OF True] by simp
      next
        case False
        then show ?thesis using c(3) [OF True] by (simp add: user_byte_def present_def)
      qed
    qed (simp add: user_byte_def)
    moreover have "own (ram t) r \<inter> own (ram t) p = {}" using di c(2) unfolding pv(4) by blast
    ultimately show ?thesis using t(1) par sp c(1,2) False by (intro exI [of _ r] exI [of _ t] exI [of _ ys]) simp
  qed
qed

section \<open>A fork with enough memory\<close>

primrec demo_free :: "nat \<Rightarrow> u32 list" where
  "demo_free 0 = []"
| "demo_free (Suc n) = (0x80700000 + 4096 * of_nat n) # demo_free n"

lemma unat_demo_page: "n \<le> 4000 \<Longrightarrow> unat (0x80700000 + 4096 * of_nat n :: u32) = 2154823680 + 4096 * n"
  by (simp add: unat_word_ariths unat_of_nat)

lemma demo_free_bounds: "n \<le> 4000 \<Longrightarrow> x \<in> set (demo_free n) \<Longrightarrow> 2154823680 \<le> unat x \<and> unat x < 2154823680 + 4096 * n"
  by (induction n) (auto simp: unat_demo_page)

lemma demo_many:
  "n \<le> 4000 \<Longrightarrow> \<exists>s :: machine. kalloc_inv s (demo_free n) \<and> kend s = 0x801154A8
     \<and> (\<forall>x. x \<in> region 0x80500000 PGSIZE \<union> region 0x80600000 PGSIZE \<longrightarrow> ram s x = 0)"
proof (induction n)
  case 0
  show ?case
    by (rule exI [of _ "demo_machine\<lparr>kmem_freelist := 0, ram := \<lambda>_. 0\<rparr>"])
       (simp add: kalloc_inv_def demo_machine_def kmem_ready_def cpu_wf_def)
next
  case (Suc n)
  then obtain s :: machine where s: "kalloc_inv s (demo_free n)" "kend s = 0x801154A8"
      "\<forall>x. x \<in> region 0x80500000 PGSIZE \<union> region 0x80600000 PGSIZE \<longrightarrow> ram s x = 0" by auto
  define q :: u32 where "q = 0x80700000 + 4096 * of_nat n"
  have u: "unat q = 2154823680 + 4096 * n" using unat_demo_page Suc.prems by (simp add: q_def)
  have al: "q mod PGSIZE = 0"
  proof -
    have "unat (q mod PGSIZE) = (2154823680 + 4096 * n) mod 4096" by (simp add: unat_mod_distrib u PGSIZE_def)
    also have "\<dots> = 0" by presburger
    finally show ?thesis by (simp add: unat_eq_zero)
  qed
  have "unat (0x700000 + 4096 * of_nat n :: u32) = 7340032 + 4096 * n"
    using Suc.prems by (simp add: unat_word_ariths unat_of_nat)
  then have "V2P q < PHYSTOP" using Suc.prems by (simp add: q_def V2P_def KERNBASE_def PHYSTOP_def word_less_nat_alt)
  then have "page_ok s q" using al s(2) u Suc.prems by (simp add: page_ok_def word_le_nat_alt)
  moreover have "q \<notin> set (demo_free n)" using demo_free_bounds [of n q] u Suc.prems by auto
  ultimately obtain t where t: "kfree q s = Ok t" "kalloc_inv t (q # demo_free n)" "kend t = kend s"
      "\<forall>x. x \<notin> region q PGSIZE \<longrightarrow> ram t x = ram s x"
    using kfree_inv [OF s(1)] by blast
  have "x \<notin> region q PGSIZE" if "x \<in> region 0x80500000 PGSIZE \<union> region 0x80600000 PGSIZE" for x
  proof
    assume "x \<in> region q PGSIZE"
    then have "q = 0x80500000 \<or> q = 0x80600000"
      using that pages_disjoint [OF al, of "0x80500000" x] pages_disjoint [OF al, of "0x80600000" x] by (auto simp: PGSIZE_def)
    then have "unat q = 2152726528 \<or> unat q = 2153775104" by auto
    then show False using u by simp
  qed
  then have "\<forall>x. x \<in> region 0x80500000 PGSIZE \<union> region 0x80600000 PGSIZE \<longrightarrow> ram t x = 0" using t(4) s(3) by simp
  then show ?case using t(2,3) s(2) by (auto simp: q_def)
qed

lemma length_demo_free: "length (demo_free n) = n"
  by (induction n) simp_all

text \<open>A parent with one page of user memory and thousands of free pages.\<close>

lemma demo_parent:
  "\<exists>(s :: machine) xs. space s 0x80500000 xs \<and> 2000 < length xs \<and> present (entry (ram s) 0x80500000 0)
     \<and> user_byte (ram s) 0x80500000 12 = Some 0"
proof -
  obtain s0 :: machine where s0: "kalloc_inv s0 (demo_free 4000)" "kend s0 = 0x801154A8"
      "\<forall>x. x \<in> region 0x80500000 PGSIZE \<union> region 0x80600000 PGSIZE \<longrightarrow> ram s0 x = 0"
    using demo_many [of 4000] by auto
  let ?d = "0x80500000 :: u32"
  have z: "\<And>x. x \<in> region ?d PGSIZE \<Longrightarrow> ram s0 x = 0" "\<And>x. x \<in> region 0x80600000 PGSIZE \<Longrightarrow> ram s0 x = 0" using s0(3) by auto
  have "\<not> 2154823680 \<le> unat ?d" "\<not> 2154823680 \<le> unat (0x80600000 :: u32)" by simp_all
  then have nf: "?d \<notin> set (demo_free 4000)" "0x80600000 \<notin> set (demo_free 4000)" using demo_free_bounds [of 4000] by blast+
  have pk: "page_ok s0 ?d" "page_ok s0 0x80600000" "KERNBASE < kend s0"
    using s0(2) by (simp_all add: page_ok_def PGSIZE_def V2P_def KERNBASE_def PHYSTOP_def)
  note d = zero_space [OF s0(1) pk(1) nf(1) pk(3) z(1)] and d' = zero_space [OF s0(1) pk(2) nf(2) pk(3) z(2)]
  have b: "(4096 :: u32) < KERNBASE" "(0 :: u32) \<le> 4096" by (simp_all add: KERNBASE_def)
  have di: "own (ram s0) 0x80600000 \<inter> own (ram s0) ?d = {}" by (simp add: d(3) d'(3))
  from allocuvm_run [OF d(1) b d(2)] length_demo_free [of 4000]
  obtain t ys where t: "grown s0 ?d (demo_free 4000) t ys" "no_leak s0 ?d (demo_free 4000) t ys"
      "\<And>va. if user_range (PGROUNDUP 0) 4096 va then fresh_page t ?d (demo_free 4000) va else entry (ram t) ?d va = entry (ram s0) ?d va"
    unfolding alloc_result_def by (auto simp: demo_range)
  have sp: "space t ?d ys" using t(1) by (simp add: grown_def)
  obtain q where q: "q \<in> set (demo_free 4000)" "entry (ram t) ?d 0 = user_entry q" "\<forall>x\<in>region q PGSIZE. ram t x = 0"
    using t(3) [of 0] aligned_id [of 0] by (auto simp: demo_range fresh_page_def)
  have q0: "q mod PGSIZE = 0" using space_page [OF d(1) q(1)] by simp
  note f = user_entry_facts [OF q0]
  have "uframes (ram t) ?d \<subseteq> {q}"
  proof
    fix x assume "x \<in> uframes (ram t) ?d"
    then obtain va where va: "present (entry (ram t) ?d va)" "x = frame (entry (ram t) ?d va)" by (auto simp: uframes_def)
    then have "PGROUNDDOWN va = 0" using t(3) [of va] d(2) [of va] by (auto simp: demo_range present_def split: if_splits)
    then have "entry (ram t) ?d va = entry (ram t) ?d 0" using aligned_id [of 0] by (intro entry_page) simp
    then show "x \<in> {q}" using va(2) q(2) f(1) by simp
  qed
  then have "card (uframes (ram t) ?d) \<le> card {q}" by (intro card_mono) simp_all
  then have c1: "card (own (ram t) ?d) \<le> 1026" using card_own [of "ram t" ?d] by simp
  have dx: "distinct (demo_free 4000)" "distinct ys" using spaceD(1) [OF d(1)] spaceD(1) [OF sp] by (simp_all add: kalloc_inv_def)
  have fin: "finite (own (ram t) ?d \<union> set ys)" using t(2) by (simp add: no_leak_def d(3))
  have "4000 = card (set (demo_free 4000))" using distinct_card [OF dx(1)] length_demo_free [of 4000] by simp
  also have "\<dots> \<le> card (own (ram t) ?d \<union> set ys)" using t(2) by (intro card_mono [OF fin]) (simp add: no_leak_def)
  also have "\<dots> \<le> card (own (ram t) ?d) + length ys" using card_Un_le [of "own (ram t) ?d" "set ys"] distinct_card [OF dx(2)] by simp
  finally have "2000 < length ys" using c1 by simp
  moreover have "present (entry (ram t) ?d 0)" using q(2) f(2) by simp
  moreover have "user_byte (ram t) ?d 12 = Some 0"
  proof -
    have "entry (ram t) ?d 12 = entry (ram t) ?d 0" using demo_first_page(1) aligned_id [of 0] by (intro entry_page) simp
    moreover have "user_entry q AND PTE_U \<noteq> 0"
    proof -
      have "bit (user_entry q AND PTE_U) 2" by (simp add: user_entry_def PTE_U_def bit_simps)
      then show ?thesis by auto
    qed
    moreover have "q + 12 \<in> region q PGSIZE" by (rule offset_region) (simp add: PGSIZE_def)
    ultimately show ?thesis using q(2,3) f by (simp add: user_byte_def KERNBASE_def)
  qed
  ultimately show ?thesis using sp by blast
qed

lemma copyuvm_copies_witness:
  "\<exists>(s :: machine) r t. user_byte (ram s) 0x80500000 12 = Some 0 \<and> copyuvm 0x80109000 0x80500000 4096 s = Ok (r, t)
     \<and> r \<noteq> 0 \<and> user_byte (ram t) r 12 = Some 0 \<and> user_byte (ram t) r 4096 = None"
proof -
  obtain s :: machine and xs where s: "space s 0x80500000 xs" "2000 < length xs" "present (entry (ram s) 0x80500000 0)"
      "user_byte (ram s) 0x80500000 12 = Some 0"
    using demo_parent by blast
  have k: "kernel_layout 0x80109000"
    by (simp add: kernel_layout_def PGSIZE_def KERNLINK_def EXTMEM_def KERNBASE_def P2V_def PHYSTOP_def)
  have b: "(4096 :: u32) \<le> KERNBASE" by (simp add: KERNBASE_def)
  have z: "PGROUNDDOWN va < 4096 \<longleftrightarrow> PGROUNDDOWN va = 0" for va
    using demo_range(1) [of va] by (simp add: user_range_def PGROUNDUP_eq PGROUNDDOWN_def PGSIZE_def)
  have pr: "present (entry (ram s) 0x80500000 va)" if "PGROUNDDOWN va < 4096" for va
    using entry_page [of va 0 "ram s" "0x80500000"] that z [of va] aligned_id [of 0] s(3) by simp
  have n: "\<not> PGROUNDDOWN 4096 < 4096" by (simp add: PGROUNDDOWN_def PGSIZE_def)
  from copyuvm_copies [OF s(1) k b pr] s(2) show ?thesis
    using s(4) z [of 12] demo_first_page(1) n by (intro exI [of _ s]) (fastforce split: if_splits)
qed
section \<open>Giving a space back\<close>

text \<open>
  C27.  \<open>freevm\<close> frees every page of an address space, the directory, the page tables and the user pages,
  and nothing else: the free pages afterwards are the ones before and the pages of the space, and another
  space stays well formed with all its user bytes.
\<close>

theorem freevm_returns_pages:
  assumes "space s d xs" and "space s d' xs" and "own (ram s) d' \<inter> own (ram s) d = {}"
  shows "\<exists>t ys. freevm d s = Ok t \<and> space t d' ys \<and> set ys = set xs \<union> own (ram s) d \<and> own (ram t) d' = own (ram s) d'
    \<and> (\<forall>va. user_byte (ram t) d' va = user_byte (ram s) d' va)"
proof -
  obtain t ys where t: "freevm d s = Ok t" "kalloc_inv t ys" "set ys = set xs \<union> own (ram s) d" "touches (own (ram s) d) s t"
    using freevm_ok [OF assms(1)] by blast
  have al: "\<forall>p\<in>own (ram s) d. p mod PGSIZE = 0" using vspaceD(3) [OF spaceD(2) [OF assms(1)]] by blast
  note b = user_byte_other [OF spaceD(2) [OF assms(2)] t(4) al assms(3)]
  have "own (ram t) d' \<inter> set ys = {}" using b(2) t(3) assms(3) spaceD(3) [OF assms(2)] by auto
  then have "space t d' ys" using b(1) t(2) by (simp add: space_def)
  then show ?thesis using t(1,3) b(2,3) by blast
qed

lemma freevm_returns_pages_witness:
  "\<exists>s t ys. allocuvm 0x80500000 0 4096 demo_machine = Ok (4096, s) \<and> freevm 0x80500000 s = Ok t \<and> kalloc_inv t ys
     \<and> 0x80500000 \<in> set ys"
proof -
  obtain s ys where s: "allocuvm 0x80500000 0 4096 demo_machine = Ok (4096, s)" "space s 0x80500000 ys" "space s 0x80600000 ys"
      "own (ram s) 0x80600000 \<inter> own (ram s) 0x80500000 = {}"
    using demo_filled by blast
  obtain t zs where "freevm 0x80500000 s = Ok t" "space t 0x80600000 zs" "set zs = set ys \<union> own (ram s) 0x80500000"
    using freevm_returns_pages [OF s(2,3,4)] by blast
  moreover from this have "kalloc_inv t zs" "0x80500000 \<in> set zs" by (simp_all add: space_def own_def)
  ultimately show ?thesis using s(1) by blast
qed

end
