(* ===== verification/Umalloc.thy ===== *)
theory Umalloc
  imports Kalloc
begin

text \<open>
  \<open>umalloc.c\<close>, the memory allocator of the user programs (the same file in all three projects): the
  first-fit allocator of Kernighan and Ritchie, with a circular list of free blocks in the order of their
  addresses.  A \<open>Header *\<close> is an address of the byte-addressed user memory \<open>umem\<close>; a header is 8 bytes, \<open>s.ptr\<close> at
  offset 0 and \<open>s.size\<close> at offset 4, and \<open>p + n\<close> on header pointers is \<open>p + 8 * n\<close>.  \<open>ubase\<close> is the address
  of the static \<open>base\<close>, \<open>ufreep\<close> the variable \<open>freep\<close>, \<open>ubrk\<close> the size of the process, which the system
  call \<open>sbrk\<close> changes; \<open>sbrk\<close> is an argument.  The two loops follow pointers and end only if the list is well
  formed: they are partial functions, and \<open>None\<close> means that they run on forever.
\<close>

section \<open>The code\<close>

record uheap =
  umem :: memory
  ufreep :: u32
  ubase :: u32
  ubrk :: u32

definition h_ptr :: "memory \<Rightarrow> u32 \<Rightarrow> u32" where "h_ptr m a = load32 m a"
definition h_size :: "memory \<Rightarrow> u32 \<Rightarrow> u32" where "h_size m a = load32 m (a + 4)"
definition set_ptr :: "memory \<Rightarrow> u32 \<Rightarrow> u32 \<Rightarrow> memory" where "set_ptr m a v = store32 m a v"
definition set_size :: "memory \<Rightarrow> u32 \<Rightarrow> u32 \<Rightarrow> memory" where "set_size m a v = store32 m (a + 4) v"

text \<open>The loop of \<open>free\<close>.\<close>

partial_function (option) free_spot :: "memory \<Rightarrow> u32 \<Rightarrow> u32 \<Rightarrow> u32 option" where
  "free_spot m bp p =
     (if p < bp \<and> bp < h_ptr m p then Some p
      else if h_ptr m p \<le> p \<and> (p < bp \<or> bp < h_ptr m p) then Some p
      else free_spot m bp (h_ptr m p))"

definition join_upper :: "memory \<Rightarrow> u32 \<Rightarrow> u32 \<Rightarrow> memory" where
  "join_upper m bp p =
     (if bp + 8 * h_size m bp = h_ptr m p
      then let m = set_size m bp (h_size m bp + h_size m (h_ptr m p)) in set_ptr m bp (h_ptr m (h_ptr m p))
      else set_ptr m bp (h_ptr m p))"

definition join_lower :: "memory \<Rightarrow> u32 \<Rightarrow> u32 \<Rightarrow> memory" where
  "join_lower m bp p =
     (if p + 8 * h_size m p = bp
      then let m = set_size m p (h_size m p + h_size m bp) in set_ptr m p (h_ptr m bp)
      else set_ptr m p bp)"

definition ufree :: "u32 \<Rightarrow> uheap \<Rightarrow> uheap option" where
  "ufree ap s =
     (let bp = ap - 8 in
      map_option (\<lambda>p. s\<lparr>umem := join_lower (join_upper (umem s) bp p) bp p, ufreep := p\<rparr>)
        (free_spot (umem s) bp (ufreep s)))"

definition morecore :: "(u32 \<Rightarrow> uheap \<Rightarrow> u32 \<times> uheap) \<Rightarrow> u32 \<Rightarrow> uheap \<Rightarrow> (u32 \<times> uheap) option" where
  "morecore sbrk nu s =
     (let nu = (if nu < 4096 then 4096 else nu); (p, s) = sbrk (nu * 8) s in
      if p = -1 then Some (0, s)
      else map_option (\<lambda>s. (ufreep s, s)) (ufree (p + 8) (s\<lparr>umem := set_size (umem s) p nu\<rparr>)))"

text \<open>Taking \<open>n\<close> units from the block \<open>p\<close> behind \<open>prevp\<close>: all of it, or its tail end.\<close>

definition take_block :: "u32 \<Rightarrow> u32 \<Rightarrow> u32 \<Rightarrow> uheap \<Rightarrow> u32 \<times> uheap" where
  "take_block n prevp p s =
     (let m = umem s in
      if h_size m p = n then (p + 8, s\<lparr>umem := set_ptr m prevp (h_ptr m p), ufreep := prevp\<rparr>)
      else let m = set_size m p (h_size m p - n); p = p + 8 * h_size m p
           in (p + 8, s\<lparr>umem := set_size m p n, ufreep := prevp\<rparr>))"

partial_function (option) malloc_loop ::
  "(u32 \<Rightarrow> uheap \<Rightarrow> u32 \<times> uheap) \<Rightarrow> u32 \<Rightarrow> u32 \<Rightarrow> u32 \<Rightarrow> uheap \<Rightarrow> (u32 \<times> uheap) option" where
  "malloc_loop sbrk n prevp p s =
     (if n \<le> h_size (umem s) p then Some (take_block n prevp p s)
      else if p = ufreep s then
        Option.bind (morecore sbrk n s) (\<lambda>(p, s).
          if p = 0 then Some (0, s) else malloc_loop sbrk n p (h_ptr (umem s) p) s)
      else malloc_loop sbrk n p (h_ptr (umem s) p) s)"

definition malloc :: "(u32 \<Rightarrow> uheap \<Rightarrow> u32 \<times> uheap) \<Rightarrow> u32 \<Rightarrow> uheap \<Rightarrow> (u32 \<times> uheap) option" where
  "malloc sbrk nbytes s =
     (let n = (nbytes + 8 - 1) div 8 + 1;
          s = (if ufreep s = 0
               then s\<lparr>umem := set_size (set_ptr (umem s) (ubase s) (ubase s)) (ubase s) 0, ufreep := ubase s\<rparr> else s)
      in malloc_loop sbrk n (ufreep s) (h_ptr (umem s) (ufreep s)) s)"

section \<open>Headers\<close>

text \<open>\<open>hsep a b\<close>: the headers at \<open>a\<close> and \<open>b\<close> do not overlap, and neither wraps around.\<close>

definition hsep :: "u32 \<Rightarrow> u32 \<Rightarrow> bool" where
  "hsep a b \<longleftrightarrow> (unat a + 8 \<le> unat b \<or> unat b + 8 \<le> unat a) \<and> unat a + 8 \<le> 4294967296 \<and> unat b + 8 \<le> 4294967296"

lemma header_bytes:
  assumes "unat a + 8 \<le> 4294967296" and "x \<in> region a 4 \<or> x \<in> region (a + 4) 4"
  shows "unat a \<le> unat x \<and> unat x < unat a + 8"
proof -
  have l: "unat q < 4" if "q < 4" for q :: u32 using that unat_mono [OF that] by simp
  have "\<exists>r. x = a + r \<and> unat r < 8"
  proof (cases "x \<in> region a 4")
    case True
    then show ?thesis using l [of "x - a"] by (intro exI [of _ "x - a"]) (simp add: region_def)
  next
    case False
    define q where "q = x - (a + 4)"
    have "unat q < 4" using assms(2) False l [of q] by (simp add: region_def q_def)
    then have "unat (4 + q) < 8" by (simp add: unat_word_ariths)
    then show ?thesis by (intro exI [of _ "4 + q"]) (simp add: q_def)
  qed
  then obtain r where r: "x = a + r" "unat r < 8" by blast
  then have "unat x = unat a + unat r" using assms(1) by (simp add: unat_word_ariths)
  then show ?thesis using r(2) by simp
qed

lemma set_other:
  assumes "unat a + 8 \<le> 4294967296" and "\<not> (unat a \<le> unat x \<and> unat x < unat a + 8)"
  shows "set_ptr m a v x = m x" "set_size m a v x = m x"
  using header_bytes [OF assms(1), of x] assms(2) by (auto simp: set_ptr_def set_size_def intro: store32_other)

lemma header_cong:
  assumes "unat a + 8 \<le> 4294967296" and "\<And>x. unat a \<le> unat x \<Longrightarrow> unat x < unat a + 8 \<Longrightarrow> m' x = m x"
  shows "h_ptr m' a = h_ptr m a" "h_size m' a = h_size m a"
  using header_bytes [OF assms(1)] assms(2) by (auto simp: h_ptr_def h_size_def intro!: load32_cong)

lemma set_get [simp]:
  "h_ptr (set_ptr m a v) a = v" "h_size (set_size m a v) a = v"
  "h_size (set_ptr m a v) a = h_size m a" "h_ptr (set_size m a v) a = h_ptr m a"
proof -
  have d: "x - (a + 4) < 4 \<Longrightarrow> \<not> x - a < 4" for x
  proof -
    define q where "q = x - (a + 4)"
    have x: "x - a = 4 + q" by (simp add: q_def)
    assume "x - (a + 4) < 4"
    then have "unat q < 4" using unat_mono [of q 4] by (simp add: q_def)
    then have "unat (4 + q) = 4 + unat q" by (simp add: unat_word_ariths)
    then have "\<not> 4 + q < 4" using unat_mono [of "4 + q" 4] by auto
    then show "\<not> x - a < 4" by (simp add: x)
  qed
  show "h_size (set_ptr m a v) a = h_size m a" "h_ptr (set_size m a v) a = h_ptr m a"
    unfolding h_size_def h_ptr_def set_ptr_def set_size_def
    by (rule load32_cong, rule store32_other, use d in \<open>auto simp: region_def\<close>)+
qed (simp_all add: h_ptr_def h_size_def set_ptr_def set_size_def)

lemma set_get_other:
  assumes "hsep a b"
  shows "h_ptr (set_ptr m a v) b = h_ptr m b" "h_size (set_ptr m a v) b = h_size m b"
    "h_ptr (set_size m a v) b = h_ptr m b" "h_size (set_size m a v) b = h_size m b"
  using assms by (auto simp: hsep_def set_other intro!: header_cong)

section \<open>Blocks\<close>

text \<open>A block is its address and its number of units; the static \<open>base\<close> counts 0 units and takes the 8 bytes of its header.\<close>

type_synonym blk = "u32 \<times> u32"

definition bend :: "blk \<Rightarrow> nat" where
  "bend x = unat (fst x) + 8 * (if snd x = 0 then 1 else unat (snd x))"

definition before :: "blk \<Rightarrow> blk \<Rightarrow> bool" where "before x y \<longleftrightarrow> bend x \<le> unat (fst y)"
definition apart :: "blk \<Rightarrow> blk \<Rightarrow> bool" where "apart x y \<longleftrightarrow> before x y \<or> before y x"
definition gap :: "blk \<Rightarrow> blk \<Rightarrow> bool" where "gap x y \<longleftrightarrow> before x y \<and> (snd x \<noteq> 0 \<longrightarrow> bend x \<noteq> unat (fst y))"
definition inside :: "blk \<Rightarrow> u32 \<Rightarrow> bool" where "inside x a \<longleftrightarrow> unat (fst x) \<le> unat a \<and> unat a < bend x"

lemma bend_pos: "unat (fst x) + 8 \<le> bend x"
proof (cases "snd x = 0")
  case False
  then have "unat (snd x) \<noteq> 0" by (simp add: unat_eq_zero)
  then show ?thesis using False by (simp add: bend_def)
qed (simp add: bend_def)

lemma before_trans: "before x y \<Longrightarrow> before y z \<Longrightarrow> before x z"
  using bend_pos [of y] by (simp add: before_def)

lemma before_less: "before x y \<Longrightarrow> fst x < fst y"
  using bend_pos [of x] by (simp add: before_def word_less_nat_alt)

lemma apart_sym: "apart x y \<longleftrightarrow> apart y x"
  by (auto simp: apart_def)

lemma apart_hsep: "apart x y \<Longrightarrow> bend x \<le> 4294967296 \<Longrightarrow> bend y \<le> 4294967296 \<Longrightarrow> hsep (fst x) (fst y)"
  using bend_pos [of x] bend_pos [of y] by (auto simp: apart_def before_def hsep_def)

lemma gap_apart: "gap x y \<Longrightarrow> apart x y" "gap x y \<Longrightarrow> before x y"
  by (simp_all add: gap_def apart_def)

lemma apart_not_self: "\<not> apart x x" "apart x y \<Longrightarrow> fst x \<noteq> fst y"
  using bend_pos [of x] bend_pos [of y] by (auto simp: apart_def before_def)

section \<open>The circular list\<close>

definition first :: "blk list \<Rightarrow> u32 \<Rightarrow> u32" where
  "first xs z = (case xs of [] \<Rightarrow> z | x # _ \<Rightarrow> fst x)"

lemma first_simps [simp]: "first [] z = z" "first (x # xs) z = fst x" "first (xs @ ys) z = first xs (first ys z)"
  by (simp_all add: first_def split: list.split)

primrec chain :: "memory \<Rightarrow> blk list \<Rightarrow> u32 \<Rightarrow> bool" where
  "chain m [] z \<longleftrightarrow> True"
| "chain m (x # xs) z \<longleftrightarrow> h_size m (fst x) = snd x \<and> h_ptr m (fst x) = first xs z \<and> chain m xs z"

lemma ulist_append: "chain m (xs @ ys) z \<longleftrightarrow> chain m xs (first ys z) \<and> chain m ys z"
  by (induction xs) auto

lemma ulist_cong:
  "(\<And>x. x \<in> set xs \<Longrightarrow> h_ptr m' (fst x) = h_ptr m (fst x) \<and> h_size m' (fst x) = h_size m (fst x)) \<Longrightarrow> chain m' xs z = chain m xs z"
  by (induction xs) simp_all

lemma chain_set:
  assumes "\<And>x. x \<in> set xs \<Longrightarrow> hsep a (fst x)"
  shows "chain (set_ptr m a v) xs z = chain m xs z" "chain (set_size m a v) xs z = chain m xs z"
  using assms by (auto intro!: ulist_cong simp: set_get_other)

lemma sorted_split:
  assumes "sorted_wrt gap fs" and "fs \<noteq> []" and "\<forall>y\<in>set fs. apart x y" and "before (hd fs) x"
  shows "\<exists>ls p rs. fs = ls @ p # rs \<and> (\<forall>y\<in>set (ls @ [p]). before y x) \<and> (\<forall>y\<in>set rs. before x y)"
  using assms
proof (induction fs)
  case (Cons y ys)
  show ?case
  proof (cases "ys = [] \<or> before x (hd ys)")
    case True
    have "before x z" if "z \<in> set ys" for z
    proof (cases ys)
      case (Cons w ws)
      then have "z = w \<or> gap w z" using that Cons.prems(1) by auto
      then have "z = w \<or> before w z" using gap_apart(2) by blast
      moreover have "before x w" using True Cons by simp
      ultimately show ?thesis using before_trans by blast
    qed (use that in simp)
    then show ?thesis using Cons.prems(4) by (intro exI [of _ "[]"] exI [of _ y] exI [of _ ys]) simp
  next
    case False
    then have "before (hd ys) x" using Cons.prems(3) by (cases ys) (auto simp: apart_def)
    then obtain ls p rs where "ys = ls @ p # rs" "\<forall>y\<in>set (ls @ [p]). before y x" "\<forall>y\<in>set rs. before x y"
      using Cons.IH Cons.prems False by auto
    then show ?thesis using Cons.prems(4) by (intro exI [of _ "y # ls"] exI [of _ p] exI [of _ rs]) auto
  qed
qed simp
section \<open>The loop of free\<close>

lemma gap_less: "gap x y \<Longrightarrow> fst x < fst y"
  by (rule before_less [OF gap_apart(2)])

lemma hd_least:
  assumes "sorted_wrt gap fs" and "y \<in> set fs"
  shows "fst (hd fs) \<le> fst y"
proof (cases fs)
  case (Cons x xs)
  then have "y = x \<or> gap x y" using assms by auto
  then show ?thesis using Cons gap_less [of x y] by auto
qed (use assms(2) in simp)

text \<open>The loop stops at the last block of the list in front of \<open>bp\<close>, wherever it starts.\<close>

lemma spot_lower:
  assumes "chain m (ls @ p # rs) base" and "sorted_wrt gap (ls @ p # rs)" and "fst (hd (ls @ p # rs)) = base"
    and "\<forall>y\<in>set (ls @ [p]). before y x" and "\<forall>y\<in>set rs. before x y"
  shows "ls @ [p] = pre @ us \<Longrightarrow> us \<noteq> [] \<Longrightarrow> free_spot m (fst x) (first us 0) = Some (fst p)"
proof (induction us arbitrary: pre)
  case (Cons u us)
  have c: "h_ptr m (fst u) = first (us @ rs) base"
  proof -
    have "ls @ p # rs = pre @ u # us @ rs" using Cons.prems(1) by simp
    from assms(1) [unfolded this] show ?thesis by (simp add: ulist_append)
  qed
  have ux: "fst u < fst x" using assms(4) Cons.prems(1) before_less by (metis in_set_conv_decomp)
  show ?case
  proof (cases us)
    case Nil
    then have u: "u = p" using Cons.prems(1) by simp
    show ?thesis
    proof (cases rs)
      case Nil
      have "base \<le> fst p" using hd_least [OF assms(2), of p] assms(3) by simp
      then show ?thesis using c ux u Nil \<open>us = []\<close> by (subst free_spot.simps) simp
    next
      case (Cons r rs')
      then have "fst x < fst r" using assms(5) before_less by simp
      then show ?thesis using c ux u Cons \<open>us = []\<close> by (subst free_spot.simps) simp
    qed
  next
    case (Cons v vs)
    have "v \<in> set (ls @ [p])" using Cons.prems(1) Cons by simp
    then have vx: "fst v < fst x" using assms(4) before_less by blast
    have "ls @ p # rs = pre @ u # v # vs @ rs" using Cons.prems(1) Cons by simp
    from assms(2) [unfolded this] have uv: "fst u < fst v" using gap_less [of u v] by (simp add: sorted_wrt_append)
    have "free_spot m (fst x) (first us 0) = Some (fst p)" using Cons.IH [of "pre @ [u]"] Cons.prems(1) Cons by simp
    moreover have "\<not> fst x < fst v" "\<not> fst v \<le> fst u" using vx uv by auto
    ultimately show ?thesis using c Cons by (subst free_spot.simps) simp
  qed
qed simp

lemma spot_upper:
  assumes "chain m (ls @ p # rs) base" and "sorted_wrt gap (ls @ p # rs)" and "fst (hd (ls @ p # rs)) = base"
    and "\<forall>y\<in>set (ls @ [p]). before y x" and "\<forall>y\<in>set rs. before x y"
  shows "rs = pre @ us \<Longrightarrow> us \<noteq> [] \<Longrightarrow> free_spot m (fst x) (first us 0) = Some (fst p)"
proof (induction us arbitrary: pre)
  case (Cons u us)
  have c: "h_ptr m (fst u) = first us base" using assms(1) Cons.prems(1) by (simp add: ulist_append)
  have ux: "fst x < fst u" using assms(5) Cons.prems(1) before_less by (metis in_set_conv_decomp)
  show ?case
  proof (cases us)
    case Nil
    obtain w ws where w: "ls @ [p] = w # ws" by (cases "ls @ [p]") auto
    then have b: "fst w = base" using assms(3) by (cases ls) auto
    have "before w x" using assms(4) w by simp
    then have bx: "base < fst x" using before_less b by blast
    have "free_spot m (fst x) (first (ls @ [p]) 0) = Some (fst p)" by (rule spot_lower [OF assms, of "[]"]) simp_all
    then have "free_spot m (fst x) base = Some (fst p)" using w b by simp
    then show ?thesis using c ux bx less_trans [OF bx ux] Nil by (subst free_spot.simps) (simp add: less_imp_le less_not_sym)
  next
    case (Cons v vs)
    have uv: "fst u < fst v"
      using assms(2) Cons.prems(1) Cons gap_less [of u v] by (simp add: sorted_wrt_append)
    have "free_spot m (fst x) (first us 0) = Some (fst p)" using Cons.IH [of "pre @ [u]"] Cons.prems(1) Cons by simp
    moreover have "\<not> fst u < fst x" "\<not> fst v \<le> fst u" using ux uv by auto
    ultimately show ?thesis using c Cons by (subst free_spot.simps) simp
  qed
qed simp

lemma free_spot_ok:
  assumes "chain m (ls @ p # rs) base" and "sorted_wrt gap (ls @ p # rs)" and "fst (hd (ls @ p # rs)) = base"
    and "\<forall>y\<in>set (ls @ [p]). before y x" and "\<forall>y\<in>set rs. before x y" and "q \<in> set (ls @ p # rs)"
  shows "free_spot m (fst x) (fst q) = Some (fst p)"
proof -
  consider "q \<in> set (ls @ [p])" | "q \<in> set rs" using assms(6) by auto
  then show ?thesis
  proof cases
    case 1
    then obtain pre us where "ls @ [p] = pre @ q # us" by (meson split_list)
    then show ?thesis using spot_lower [OF assms(1-5), of pre "q # us"] by simp
  next
    case 2
    then obtain pre us where "rs = pre @ q # us" by (meson split_list)
    then show ?thesis using spot_upper [OF assms(1-5), of pre "q # us"] by simp
  qed
qed

section \<open>Joining blocks\<close>

lemma unat_end:
  assumes "snd x \<noteq> 0" and "bend x < 4294967296"
  shows "unat (fst x + 8 * snd x) = bend x"
proof -
  have b: "bend x = unat (fst x) + 8 * unat (snd x)" using assms(1) by (simp add: bend_def)
  then have "8 * unat (snd x) < 4294967296" using assms(2) by simp
  then have "unat (8 * snd x) = 8 * unat (snd x)" by (simp add: unat_word_ariths)
  then show ?thesis using b assms(2) by (simp add: unat_word_ariths)
qed

lemma unat_join:
  assumes "bend x = unat (fst y)" and "snd x \<noteq> 0" and "snd y \<noteq> 0" and "bend y \<le> 4294967296"
  shows "unat (snd x + snd y) = unat (snd x) + unat (snd y)" "snd x + snd y \<noteq> 0" "bend (fst x, snd x + snd y) = bend y"
proof -
  have b: "bend x = unat (fst x) + 8 * unat (snd x)" "bend y = unat (fst y) + 8 * unat (snd y)" using assms(2,3) by (simp_all add: bend_def)
  then have "unat (snd x) + unat (snd y) < 4294967296" using assms(1,4) by linarith
  then show u: "unat (snd x + snd y) = unat (snd x) + unat (snd y)" by (simp add: unat_word_ariths)
  have "unat (snd x) \<noteq> 0" using assms(2) by (simp add: unat_eq_zero)
  then have "unat (snd x + snd y) \<noteq> 0" using u by simp
  then show n: "snd x + snd y \<noteq> 0" by auto
  show "bend (fst x, snd x + snd y) = bend y" using b assms(1) n by (simp add: bend_def u)
qed

text \<open>The list after \<open>free\<close> has put the block \<open>x\<close> behind \<open>p\<close>.\<close>

definition upper :: "blk \<Rightarrow> blk list \<Rightarrow> blk list" where
  "upper x rs = (case rs of [] \<Rightarrow> [x]
     | r # rs' \<Rightarrow> if bend x = unat (fst r) then (fst x, snd x + snd r) # rs' else x # rs)"

definition lower :: "blk \<Rightarrow> blk list \<Rightarrow> blk list" where
  "lower p xs = (if snd p \<noteq> 0 \<and> bend p = unat (fst (hd xs)) then (fst p, snd p + snd (hd xs)) # tl xs else p # xs)"

lemma join_upper_ok:
  assumes "chain m rs base" and "h_ptr m p = first rs base" and "h_size m (fst x) = snd x" and "snd x \<noteq> 0"
    and "\<forall>r\<in>set rs. before x r \<and> bend r < 4294967296" and "sorted_wrt gap rs" and "base < fst x" and "bend x < 4294967296" and "hsep (fst x) p"
  defines "m' \<equiv> join_upper m (fst x) p"
  shows "chain m' (upper x rs) base"
    "\<And>a. unat a + 8 \<le> unat (fst x) \<or> unat (fst x) + 8 \<le> unat a \<and> unat a + 8 \<le> 4294967296 \<Longrightarrow> h_ptr m' a = h_ptr m a \<and> h_size m' a = h_size m a"
    "\<And>a. \<not> (unat (fst x) \<le> unat a \<and> unat a < unat (fst x) + 8) \<Longrightarrow> m' a = m a"
proof -
  have w: "unat (fst x) + 8 \<le> 4294967296" using bend_pos [of x] assms(8) by simp
  show o: "m' a = m a" if "\<not> (unat (fst x) \<le> unat a \<and> unat a < unat (fst x) + 8)" for a
    using set_other [OF w that] by (simp add: m'_def join_upper_def Let_def)
  show f: "h_ptr m' a = h_ptr m a \<and> h_size m' a = h_size m a"
    if "unat a + 8 \<le> unat (fst x) \<or> unat (fst x) + 8 \<le> unat a \<and> unat a + 8 \<le> 4294967296" for a
    using header_cong [of a m' m] o that w by auto
  have e: "unat (fst x + 8 * snd x) = bend x" by (rule unat_end [OF assms(4,8)])
  have fr: "h_ptr m' (fst r) = h_ptr m (fst r) \<and> h_size m' (fst r) = h_size m (fst r)" if "r \<in> set rs" for r
  proof (rule f)
    have "before x r" "bend r < 4294967296" using assms(5) that by auto
    then show "unat (fst r) + 8 \<le> unat (fst x) \<or> unat (fst x) + 8 \<le> unat (fst r) \<and> unat (fst r) + 8 \<le> 4294967296"
      using bend_pos [of x] bend_pos [of r] by (auto simp: before_def)
  qed
  show "chain m' (upper x rs) base"
  proof (cases rs)
    case Nil
    have "fst x + 8 * snd x \<noteq> base"
      using e assms(7) bend_pos [of x] by (auto simp: word_less_nat_alt)
    then show ?thesis using Nil assms(2,3) by (simp add: upper_def m'_def join_upper_def)
  next
    case (Cons r rs')
    have c: "chain m' rs base" using ulist_cong [of rs m' m base] fr assms(1) by blast
    have eq: "fst x + 8 * snd x = fst r \<longleftrightarrow> bend x = unat (fst r)" using e by (simp add: word_unat_eq_iff)
    have sr: "hsep (fst x) (fst r)" using assms(5,8) Cons by (intro apart_hsep) (auto simp: apart_def)
    show ?thesis
    proof (cases "bend x = unat (fst r)")
      case True
      then have "m' = set_ptr (set_size m (fst x) (snd x + snd r)) (fst x) (first rs' base)"
        using assms(1,2,3) Cons eq set_get_other [OF sr] set_get_other [OF assms(9)] by (simp add: m'_def join_upper_def Let_def)
      then show ?thesis using True Cons c by (simp add: upper_def)
    next
      case False
      then have "m' = set_ptr m (fst x) (fst r)" using assms(2,3) Cons eq by (simp add: m'_def join_upper_def)
      then show ?thesis using False Cons c assms(3) by (simp add: upper_def)
    qed
  qed
qed
lemma join_lower_ok:
  assumes "chain m xs base" and "xs \<noteq> []" and "h_size m (fst p) = snd p" and "\<forall>y\<in>set xs. before p y \<and> bend y < 4294967296"
    and "bend p < 4294967296"
  defines "m' \<equiv> join_lower m (fst (hd xs)) (fst p)"
  shows "chain m' (lower p xs) base" "\<And>a. \<not> (unat (fst p) \<le> unat a \<and> unat a < unat (fst p) + 8) \<Longrightarrow> m' a = m a"
proof -
  have w: "unat (fst p) + 8 \<le> 4294967296" using bend_pos [of p] assms(5) by simp
  show "m' a = m a" if "\<not> (unat (fst p) \<le> unat a \<and> unat a < unat (fst p) + 8)" for a
    using set_other [OF w that] by (simp add: m'_def join_lower_def Let_def)
  obtain y ys where xs: "xs = y # ys" using assms(2) by (cases xs) auto
  have s: "hsep (fst p) (fst z)" if "z \<in> set xs" for z
    using assms(4,5) that by (intro apart_hsep) (auto simp: apart_def)
  have py: "fst p < fst y" using assms(4) xs before_less by simp
  have eq: "fst p + 8 * snd p = fst y \<longleftrightarrow> snd p \<noteq> 0 \<and> bend p = unat (fst y)"
  proof (cases "snd p = 0")
    case True
    then have "fst p + 8 * snd p = fst p" by simp
    then show ?thesis using True py by simp
  next
    case False
    then show ?thesis using unat_end [OF False assms(5)] by (simp add: word_unat_eq_iff)
  qed
  have sy: "hsep (fst p) (fst y)" using s xs by simp
  have fy: "h_size m (fst y) = snd y" "h_ptr m (fst y) = first ys base" using assms(1) xs by simp_all
  show "chain m' (lower p xs) base"
  proof (cases "fst p + 8 * snd p = fst y")
    case True
    then have m': "m' = set_ptr (set_size m (fst p) (snd p + snd y)) (fst p) (first ys base)"
      using assms(3) xs fy set_get_other [OF sy] by (simp add: m'_def join_lower_def Let_def)
    have "chain m' ys base = chain m ys base" unfolding m' using s xs by (subst chain_set; simp)+
    then show ?thesis using True eq xs assms(1) by (simp add: lower_def m')
  next
    case False
    then have m': "m' = set_ptr m (fst p) (fst y)" using assms(3) xs by (simp add: m'_def join_lower_def)
    have "chain m' xs base = chain m xs base" unfolding m' by (rule chain_set(1)) (rule s)
    then show ?thesis using False eq xs assms(1,3) by (auto simp: lower_def m')
  qed
qed

section \<open>The free list after free\<close>

definition adjoins :: "blk \<Rightarrow> blk \<Rightarrow> bool" where
  "adjoins x y \<longleftrightarrow> bend x = unat (fst y) \<and> snd x \<noteq> 0 \<and> snd y \<noteq> 0 \<and> bend y \<le> 4294967296"

definition join :: "blk \<Rightarrow> blk \<Rightarrow> blk" where "join x y = (fst x, snd x + snd y)"

lemma join_facts:
  assumes "adjoins x y"
  shows "fst (join x y) = fst x" "bend (join x y) = bend y" "snd (join x y) \<noteq> 0" "unat (snd x) \<le> unat (snd (join x y))"
    "unat (snd y) \<le> unat (snd (join x y))" "inside (join x y) a \<longleftrightarrow> inside x a \<or> inside y a"
    "apart z x \<Longrightarrow> apart z y \<Longrightarrow> apart z (join x y)" "gap y z \<Longrightarrow> gap (join x y) z"
proof -
  have a: "bend x = unat (fst y)" "snd x \<noteq> 0" "snd y \<noteq> 0" "bend y \<le> 4294967296" using assms by (simp_all add: adjoins_def)
  note j = unat_join [OF a]
  show f: "fst (join x y) = fst x" by (simp add: join_def)
  show b: "bend (join x y) = bend y" using j(3) by (simp add: join_def)
  show n: "snd (join x y) \<noteq> 0" using j(2) by (simp add: join_def)
  show "unat (snd x) \<le> unat (snd (join x y))" "unat (snd y) \<le> unat (snd (join x y))" using j(1) by (simp_all add: join_def)
  show "inside (join x y) a \<longleftrightarrow> inside x a \<or> inside y a" using a(1) bend_pos [of x] bend_pos [of y] by (auto simp: inside_def f b)
  show "apart z x \<Longrightarrow> apart z y \<Longrightarrow> apart z (join x y)" using a(1) bend_pos [of z] by (auto simp: apart_def before_def f b)
  show "gap y z \<Longrightarrow> gap (join x y) z" using a(3) n by (simp add: gap_def before_def b)
qed

lemma gap_trans: "gap x y \<Longrightarrow> gap y z \<Longrightarrow> gap x z"
  using before_trans [of x y z] gap_less [of y z] by (auto simp: gap_def before_def word_less_nat_alt)

lemma upper_eq: "upper x rs = (case rs of [] \<Rightarrow> [x] | r # rs' \<Rightarrow> if bend x = unat (fst r) then join x r # rs' else x # rs)"
  by (simp add: upper_def join_def split: list.split)

lemma lower_eq: "lower p xs = (if snd p \<noteq> 0 \<and> bend p = unat (fst (hd xs)) then join p (hd xs) # tl xs else p # xs)"
  by (simp add: lower_def join_def)

lemma upper_facts:
  assumes "sorted_wrt gap rs" and "snd x \<noteq> 0" and "\<forall>r\<in>set rs. before x r \<and> snd r \<noteq> 0 \<and> bend r \<le> B" and "bend x \<le> B" and "B \<le> 4294967296"
  shows "upper x rs \<noteq> []" "fst (hd (upper x rs)) = fst x" "sorted_wrt gap (upper x rs)"
    "\<forall>y\<in>set (upper x rs). snd y \<noteq> 0 \<and> bend y \<le> B \<and> fst x \<le> fst y"
    "(\<exists>y\<in>set (upper x rs). inside y a) \<longleftrightarrow> inside x a \<or> (\<exists>y\<in>set rs. inside y a)"
    "\<exists>y\<in>set (upper x rs). unat (snd x) \<le> unat (snd y)"
    "apart z x \<Longrightarrow> \<forall>r\<in>set rs. apart z r \<Longrightarrow> y \<in> set (upper x rs) \<Longrightarrow> apart z y"
proof -
  consider (no) "\<forall>r\<in>set rs. gap x r" "upper x rs = x # rs"
    | (joined) r rs' where "rs = r # rs'" "adjoins x r" "upper x rs = join x r # rs'" "\<forall>y\<in>set rs'. gap (join x r) y"
  proof (cases rs)
    case Nil
    then show ?thesis using no by (simp add: upper_eq)
  next
    case (Cons r rs')
    have gr: "\<forall>y\<in>set rs'. gap r y" using assms(1) Cons by simp
    show ?thesis
    proof (cases "bend x = unat (fst r)")
      case True
      then have ad: "adjoins x r" using assms Cons by (auto simp: adjoins_def)
      have "\<forall>y\<in>set rs'. gap (join x r) y" using gr join_facts(8) [OF ad] by blast
      then show ?thesis using Cons True by (intro joined [OF Cons ad]) (simp_all add: upper_eq)
    next
      case False
      then have g: "gap x r" using assms(3) Cons by (simp add: gap_def)
      then have "\<forall>y\<in>set rs. gap x y" using gr gap_trans Cons by auto
      then show ?thesis using no False Cons by (simp add: upper_eq)
    qed
  qed note cs = this
  show "upper x rs \<noteq> []" "fst (hd (upper x rs)) = fst x" by (cases rule: cs; simp add: join_def)+
  show "sorted_wrt gap (upper x rs)" using assms(1) by (cases rule: cs) auto
  show "\<forall>y\<in>set (upper x rs). snd y \<noteq> 0 \<and> bend y \<le> B \<and> fst x \<le> fst y"
  proof -
    have le: "fst x \<le> fst y" if "y \<in> set rs" for y using before_less [of x y] assms(3) that by auto
    show ?thesis
    proof (cases rule: cs)
      case no
      then show ?thesis using assms(2,3,4) le by simp
    next
      case (joined r rs')
      then show ?thesis using assms(3) join_facts(1,2,3) [OF joined(2)] le by auto
    qed
  qed
  show "(\<exists>y\<in>set (upper x rs). inside y a) \<longleftrightarrow> inside x a \<or> (\<exists>y\<in>set rs. inside y a)"
    by (cases rule: cs) (auto simp: join_facts(6))
  show "\<exists>y\<in>set (upper x rs). unat (snd x) \<le> unat (snd y)" by (cases rule: cs) (auto simp: join_facts(4))
  show "apart z x \<Longrightarrow> \<forall>r\<in>set rs. apart z r \<Longrightarrow> y \<in> set (upper x rs) \<Longrightarrow> apart z y"
    by (cases rule: cs) (auto simp: join_facts(7))
qed

lemma lower_facts:
  assumes "sorted_wrt gap xs" and "xs \<noteq> []" and "before p (hd xs)" and "\<forall>y\<in>set xs. snd y \<noteq> 0 \<and> bend y \<le> B" and "bend p \<le> B" and "B \<le> 4294967296"
  shows "lower p xs \<noteq> []" "fst (hd (lower p xs)) = fst p" "sorted_wrt gap (lower p xs)" "snd p = 0 \<Longrightarrow> lower p xs = p # xs"
    "\<forall>y\<in>set (lower p xs). bend y \<le> B \<and> (snd p \<noteq> 0 \<longrightarrow> snd y \<noteq> 0)"
    "(\<exists>y\<in>set (lower p xs). inside y a) \<longleftrightarrow> inside p a \<or> (\<exists>y\<in>set xs. inside y a)"
    "\<exists>y\<in>set xs. k \<le> unat (snd y) \<Longrightarrow> \<exists>y\<in>set (lower p xs). k \<le> unat (snd y)"
    "apart z p \<Longrightarrow> \<forall>r\<in>set xs. apart z r \<Longrightarrow> y \<in> set (lower p xs) \<Longrightarrow> apart z y"
proof -
  obtain x xs' where xs: "xs = x # xs'" using assms(2) by (cases xs) auto
  have gx: "\<forall>y\<in>set xs'. gap x y" using assms(1) xs by simp
  consider (no) "\<forall>y\<in>set xs. gap p y" "lower p xs = p # xs"
    | (joined) "adjoins p x" "lower p xs = join p x # xs'" "\<forall>y\<in>set xs'. gap (join p x) y"
  proof (cases "snd p \<noteq> 0 \<and> bend p = unat (fst x)")
    case True
    then have ad: "adjoins p x" using assms(4,6) xs by (auto simp: adjoins_def)
    have "\<forall>y\<in>set xs'. gap (join p x) y" using gx join_facts(8) [OF ad] by blast
    then show ?thesis using xs True by (intro joined [OF ad]) (simp_all add: lower_eq)
  next
    case False
    then have "gap p x" using assms(3) xs by (auto simp: gap_def)
    then have "\<forall>y\<in>set xs. gap p y" using gx gap_trans xs by auto
    then show ?thesis using no False xs by (auto simp: lower_eq)
  qed note cs = this
  show "lower p xs \<noteq> []" "fst (hd (lower p xs)) = fst p" by (cases rule: cs; simp add: join_def)+
  show "sorted_wrt gap (lower p xs)" using assms(1) xs by (cases rule: cs) auto
  show "snd p = 0 \<Longrightarrow> lower p xs = p # xs" by (simp add: lower_eq)
  show "\<forall>y\<in>set (lower p xs). bend y \<le> B \<and> (snd p \<noteq> 0 \<longrightarrow> snd y \<noteq> 0)"
    using assms(4,5) xs by (cases rule: cs) (auto simp: join_facts(2,3))
  show "(\<exists>y\<in>set (lower p xs). inside y a) \<longleftrightarrow> inside p a \<or> (\<exists>y\<in>set xs. inside y a)"
    using xs by (cases rule: cs) (auto simp: join_facts(6))
  show "\<exists>y\<in>set xs. k \<le> unat (snd y) \<Longrightarrow> \<exists>y\<in>set (lower p xs). k \<le> unat (snd y)"
    using xs by (cases rule: cs) (auto intro: order_trans [OF _ join_facts(5)])
  show "apart z p \<Longrightarrow> \<forall>r\<in>set xs. apart z r \<Longrightarrow> y \<in> set (lower p xs) \<Longrightarrow> apart z y"
    using xs by (cases rule: cs) (auto simp: join_facts(7))
qed

end
