(* ===== verification/Umalloc_Props.thy ===== *)
theory Umalloc_Props
  imports Umalloc
begin

text \<open>
  The allocator of the user programs keeps its blocks apart.  \<open>uheap_inv s fs A\<close>: the circular list is \<open>fs\<close>,
  whose first element is the static \<open>base\<close>, and \<open>A\<close> are the blocks that the program holds.
\<close>

section \<open>The invariant\<close>

definition uheap_inv :: "uheap \<Rightarrow> blk list \<Rightarrow> blk set \<Rightarrow> bool" where
  "uheap_inv s fs A \<longleftrightarrow> fs \<noteq> [] \<and> hd fs = (ubase s, 0) \<and> 0 < unat (ubase s) \<and> chain (umem s) fs (ubase s)
     \<and> ufreep s \<in> fst ` set fs \<and> sorted_wrt gap fs \<and> (\<forall>x\<in>set (tl fs) \<union> A. snd x \<noteq> 0)
     \<and> (\<forall>x\<in>A. h_size (umem s) (fst x) = snd x \<and> before (hd fs) x)
     \<and> (\<forall>x\<in>A. \<forall>y\<in>A. x \<noteq> y \<longrightarrow> apart x y) \<and> (\<forall>x\<in>A. \<forall>y\<in>set fs. apart x y)
     \<and> (\<forall>x\<in>set fs \<union> A. bend x \<le> unat (ubrk s)) \<and> unat (ubrk s) \<le> 2147483648"

lemma uheap_invD:
  assumes "uheap_inv s fs A"
  shows "fs \<noteq> []" "hd fs = (ubase s, 0)" "0 < unat (ubase s)" "chain (umem s) fs (ubase s)" "ufreep s \<in> fst ` set fs" "sorted_wrt gap fs"
    "x \<in> set (tl fs) \<union> A \<Longrightarrow> snd x \<noteq> 0" "x \<in> A \<Longrightarrow> h_size (umem s) (fst x) = snd x" "x \<in> A \<Longrightarrow> before (hd fs) x"
    "x \<in> A \<Longrightarrow> y \<in> A \<Longrightarrow> x \<noteq> y \<Longrightarrow> apart x y" "x \<in> A \<Longrightarrow> y \<in> set fs \<Longrightarrow> apart x y" "x \<in> set fs \<union> A \<Longrightarrow> bend x \<le> unat (ubrk s)"
    "unat (ubrk s) \<le> 2147483648"
  using assms unfolding uheap_inv_def by (blast+)

text \<open>What a call leaves alone: every byte of the blocks \<open>A\<close>.\<close>

definition keeps :: "uheap \<Rightarrow> blk set \<Rightarrow> uheap \<Rightarrow> bool" where
  "keeps s A t \<longleftrightarrow> ubase t = ubase s \<and> (\<forall>x\<in>A. \<forall>a. inside x a \<longrightarrow> umem t a = umem s a)"

lemma keeps_size: "keeps s A t \<Longrightarrow> x \<in> A \<Longrightarrow> bend x \<le> 4294967296 \<Longrightarrow> h_size (umem t) (fst x) = h_size (umem s) (fst x)"
  using bend_pos [of x] by (intro header_cong(2)) (auto simp: keeps_def inside_def)

lemma inside_apart: "inside x a \<Longrightarrow> apart x y \<Longrightarrow> \<not> (unat (fst y) \<le> unat a \<and> unat a < unat (fst y) + 8)"
  using bend_pos [of y] by (auto simp: inside_def apart_def before_def)

section \<open>free\<close>

definition freed :: "uheap \<Rightarrow> blk list \<Rightarrow> blk set \<Rightarrow> blk \<Rightarrow> uheap \<Rightarrow> blk list \<Rightarrow> bool" where
  "freed s fs A x t gs \<longleftrightarrow> uheap_inv t gs (A - {x}) \<and> keeps s (A - {x}) t \<and> ubrk t = ubrk s
     \<and> (\<forall>a. (\<exists>y\<in>set gs. inside y a) \<longleftrightarrow> inside x a \<or> (\<exists>y\<in>set fs. inside y a)) \<and> (\<exists>y\<in>set gs. unat (snd x) \<le> unat (snd y))"

lemma ufree_ok:
  assumes "uheap_inv s fs A" and "x \<in> A"
  shows "\<exists>t gs. ufree (fst x + 8) s = Some t \<and> freed s fs A x t gs"
proof -
  note i = uheap_invD [OF assms(1)]
  have ax: "\<forall>y\<in>set fs. apart x y" "before (hd fs) x" using i(9,11) assms(2) by blast+
  obtain ls p rs where fs: "fs = ls @ p # rs" and bl: "\<forall>y\<in>set (ls @ [p]). before y x" and br: "\<forall>y\<in>set rs. before x y"
    using sorted_split [OF i(6) i(1) ax] by blast
  let ?B = "unat (ubrk s)"
  have be: "y \<in> set fs \<Longrightarrow> bend y \<le> ?B" "bend x \<le> ?B" for y using i(12) assms(2) by blast+
  have lt: "?B < 4294967296" "?B \<le> 4294967296" using i(13) by simp_all
  have hb: "fst (hd fs) = ubase s" using i(2) by simp
  have bx: "ubase s < fst x" using before_less [OF ax(2)] hb by simp
  have nz: "snd x \<noteq> 0" using i(7) assms(2) by blast
  have tl: "y \<in> set fs \<Longrightarrow> y \<noteq> hd fs \<Longrightarrow> snd y \<noteq> 0" for y using i(1,7) by (cases fs) auto
  have hd_neq: "y \<noteq> hd fs" if "y \<in> set rs" for y
  proof
    assume "y = hd fs"
    then have "before x (hd fs)" using br that by blast
    then show False using before_less [OF ax(2)] before_less by (meson less_asym)
  qed
  have rs: "sorted_wrt gap rs" "\<forall>r\<in>set rs. before x r \<and> snd r \<noteq> 0 \<and> bend r \<le> ?B"
    using i(6) br tl be(1) hd_neq by (auto simp: fs sorted_wrt_append)
  note U = upper_facts [OF rs(1) nz rs(2) be(2) lt(2)]
  have px: "before p x" using bl by simp
  have pB: "bend p \<le> ?B" using be(1) fs by simp
  have pu: "before p (hd (upper x rs))" using px U(2) by (simp add: before_def)
  have xsB: "\<forall>y\<in>set (upper x rs). snd y \<noteq> 0 \<and> bend y \<le> ?B" using U(4) by blast
  note L = lower_facts [OF U(3,1) pu xsB pB lt(2)]
  have ch: "chain (umem s) ls (fst p)" "h_size (umem s) (fst p) = snd p" "h_ptr (umem s) (fst p) = first rs (ubase s)" "chain (umem s) rs (ubase s)"
    using i(4) by (simp_all add: fs ulist_append)
  have sep: "hsep (fst x) (fst p)" using px be(2) pB lt by (intro apart_hsep) (auto simp: apart_def)
  have xl: "bend x < 4294967296" using be(2) lt(1) by simp
  define m1 where "m1 = join_upper (umem s) (fst x) (fst p)"
  define m2 where "m2 = join_lower m1 (fst x) (fst p)"
  have "\<forall>r\<in>set rs. before x r \<and> bend r < 4294967296" using rs(2) lt(1) by auto
  note ju = join_upper_ok [OF ch(4,3) i(8) [OF assms(2)] nz this rs(1) bx xl sep, folded m1_def]
  have hp: "h_size m1 (fst p) = snd p" using ju(2) [of "fst p"] sep ch(2) by (auto simp: hsep_def)
  have pl: "\<forall>y\<in>set (upper x rs). before p y \<and> bend y < 4294967296" "bend p < 4294967296"
    using U(4) px pB lt(1) by (auto simp: before_def word_le_nat_alt)
  note jl = join_lower_ok [OF ju(1) U(1) hp pl, unfolded U(2), folded m2_def]
  let ?t = "s\<lparr>umem := m2, ufreep := fst p\<rparr>" and ?gs = "ls @ lower p (upper x rs)"
  obtain q where q: "q \<in> set fs" "ufreep s = fst q" using i(5) by auto
  have "free_spot (umem s) (fst x) (fst q) = Some (fst p)"
    by (rule free_spot_ok [of _ ls p rs "ubase s"]) (use i(4,6) hb bl br q(1) fs in auto)
  then have run: "ufree (fst x + 8) s = Some ?t" by (simp add: ufree_def Let_def q(2) m1_def m2_def)
  have out: "m2 a = umem s a" if "\<not> (unat (fst x) \<le> unat a \<and> unat a < unat (fst x) + 8)" "\<not> (unat (fst p) \<le> unat a \<and> unat a < unat (fst p) + 8)" for a
    using jl(2) [OF that(2)] ju(3) [OF that(1)] by simp
  have kp: "keeps s (A - {x}) ?t"
    unfolding keeps_def
  proof (intro conjI ballI allI impI)
    fix y a assume y: "y \<in> A - {x}" and a: "inside y a"
    have "apart y x" "apart y p" using y assms(2) i(10,11) fs by auto
    then show "umem ?t a = umem s a" using out inside_apart [OF a] by simp
  qed simp
  have ls: "chain m2 ls (fst p) = chain (umem s) ls (fst p)"
  proof (rule ulist_cong)
    fix y assume y: "y \<in> set ls"
    have g: "gap y p" using i(6) y by (simp add: fs sorted_wrt_append)
    have "before y x" "before y p" using bl y gap_apart(2) [OF g] by auto
    then show "h_ptr m2 (fst y) = h_ptr (umem s) (fst y) \<and> h_size m2 (fst y) = h_size (umem s) (fst y)"
      using bend_pos [of y] be(1) [of y] lt(1) y fs out by (auto simp: before_def intro!: header_cong)
  qed
  have inv: "uheap_inv ?t ?gs (A - {x})"
    unfolding uheap_inv_def
  proof (intro conjI)
    have L2: "first (lower p (upper x rs)) (ubase s) = fst p" using L(1,2) by (cases "lower p (upper x rs)") simp_all
    show "?gs \<noteq> []" using L(1) by simp
    show "hd ?gs = (ubase ?t, 0)"
    proof (cases ls)
      case Nil
      then have p: "p = (ubase s, 0)" using i(2) fs by simp
      then show ?thesis using Nil L(4) by simp
    qed (use i(2) fs in simp)
    then have h: "hd ?gs = hd fs" using i(2) by simp
    show "0 < unat (ubase ?t)" using i(3) by simp
    show "chain (umem ?t) ?gs (ubase ?t)" using jl(1) ls ch(1) L2 by (simp add: ulist_append)
    show "ufreep ?t \<in> fst ` set ?gs" using L(1,2) hd_in_set [OF L(1)] by (metis Un_iff image_eqI set_append select_convs(2) surjective update_convs(2))
    show "sorted_wrt gap ?gs"
      unfolding sorted_wrt_append
    proof (intro conjI ballI)
      show "sorted_wrt gap ls" using i(6) by (simp add: fs sorted_wrt_append)
      show "sorted_wrt gap (lower p (upper x rs))" by (rule L(3))
      fix l y assume l: "l \<in> set ls" and y: "y \<in> set (lower p (upper x rs))"
      have "gap l p" using i(6) l by (simp add: fs sorted_wrt_append)
      then have gh: "gap l (hd (lower p (upper x rs)))" using L(2) by (simp add: gap_def before_def)
      have "y = hd (lower p (upper x rs)) \<or> gap (hd (lower p (upper x rs))) y"
        using L(3) y by (cases "lower p (upper x rs)") auto
      then show "gap l y" using gh gap_trans by blast
    qed
    show "\<forall>y\<in>set (tl ?gs) \<union> (A - {x}). snd y \<noteq> 0"
    proof
      fix y assume y: "y \<in> set (tl ?gs) \<union> (A - {x})"
      show "snd y \<noteq> 0"
      proof (cases ls)
        case Nil
        then have p: "p = (ubase s, 0)" using i(2) fs by simp
        then show ?thesis using y Nil L(4) xsB i(7) [of y] by auto
      next
        case (Cons l ls')
        have pn: "snd p \<noteq> 0" using i(7) [of p] fs Cons by simp
        then have "\<forall>y\<in>set (lower p (upper x rs)). snd y \<noteq> 0" using L(5) by blast
        moreover have "\<forall>y\<in>set ls'. snd y \<noteq> 0"
        proof
          fix z assume "z \<in> set ls'"
          then show "snd z \<noteq> 0" using i(7) [of z] fs Cons by simp
        qed
        ultimately show ?thesis using y Cons i(7) [of y] by auto
      qed
    qed
    show "\<forall>y\<in>A - {x}. h_size (umem ?t) (fst y) = snd y \<and> before (hd ?gs) y"
    proof
      fix y assume y: "y \<in> A - {x}"
      have "bend y \<le> 4294967296" using i(12) [of y] y lt by auto
      then have "h_size (umem ?t) (fst y) = h_size (umem s) (fst y)" using keeps_size [OF kp y] by blast
      then show "h_size (umem ?t) (fst y) = snd y \<and> before (hd ?gs) y" using i(8,9) y h by simp
    qed
    show "\<forall>y\<in>A - {x}. \<forall>z\<in>A - {x}. y \<noteq> z \<longrightarrow> apart y z" using i(10) by blast
    show "\<forall>y\<in>A - {x}. \<forall>z\<in>set ?gs. apart y z"
    proof (intro ballI)
      fix y z assume y: "y \<in> A - {x}" and z: "z \<in> set ?gs"
      have yx: "apart y x" using i(10) y assms(2) by blast
      have yf: "\<forall>r\<in>set fs. apart y r" using i(11) y by blast
      have "\<forall>r\<in>set rs. apart y r" using yf fs by simp
      then have "\<forall>r\<in>set (upper x rs). apart y r" using U(7) [OF yx] by blast
      moreover have yp: "apart y p" using yf fs by simp
      ultimately have lo: "r \<in> set (lower p (upper x rs)) \<Longrightarrow> apart y r" for r using L(8) by blast
      have "z \<in> set ls \<or> z \<in> set (lower p (upper x rs))" using z by simp
      then show "apart y z" using lo [of z] yf fs by auto
    qed
    show "\<forall>y\<in>set ?gs \<union> (A - {x}). bend y \<le> unat (ubrk ?t)"
    proof
      fix y assume y: "y \<in> set ?gs \<union> (A - {x})"
      show "bend y \<le> unat (ubrk ?t)" using y L(5) be(1) [of y] i(12) [of y] fs by auto
    qed
    show "unat (ubrk ?t) \<le> 2147483648" using i(13) by simp
  qed
  have "(\<exists>y\<in>set ?gs. inside y a) \<longleftrightarrow> inside x a \<or> (\<exists>y\<in>set fs. inside y a)" for a
    using L(6) [of a] U(5) [of a] fs by auto
  moreover have "\<exists>y\<in>set ?gs. unat (snd x) \<le> unat (snd y)" using L(7) [OF U(6)] by auto
  ultimately have "freed s fs A x ?t ?gs" using inv kp by (simp add: freed_def)
  then show ?thesis using run by blast
qed
section \<open>Taking a block\<close>

definition allocated :: "uheap \<Rightarrow> blk list \<Rightarrow> blk set \<Rightarrow> u32 \<Rightarrow> u32 \<Rightarrow> uheap \<Rightarrow> blk list \<Rightarrow> bool" where
  "allocated s fs A n a t gs \<longleftrightarrow> (a - 8, n) \<notin> A \<and> uheap_inv t gs (insert (a - 8, n) A) \<and> keeps s A t \<and> ubrk t = ubrk s
     \<and> (\<forall>c. (\<exists>y\<in>set fs. inside y c) \<longleftrightarrow> inside (a - 8, n) c \<or> (\<exists>y\<in>set gs. inside y c))"

lemma split_block:
  assumes "n < snd r" and "n \<noteq> 0" and "bend r < 4294967296"
  defines "r' \<equiv> (fst r, snd r - n)" and "x \<equiv> (fst r + 8 * (snd r - n), n)"
  shows "snd r' \<noteq> 0" "bend r' = unat (fst x)" "bend x = bend r" "bend r' < bend r"
    "inside r c \<longleftrightarrow> inside x c \<or> inside r' c" "apart z r \<Longrightarrow> apart z r' \<and> apart z x" "gap z r \<Longrightarrow> gap z r'" "gap r z \<Longrightarrow> gap r' z"
    "before z r \<Longrightarrow> before z x"
proof -
  have u: "unat (snd r - n) = unat (snd r) - unat n" using assms(1) by (simp add: unat_sub less_imp_le)
  have nu: "unat n < unat (snd r)" "unat n \<noteq> 0" using assms(1,2) by (simp_all add: word_less_nat_alt unat_eq_zero)
  show n0: "snd r' \<noteq> 0" using u nu unfolding r'_def by (metis diff_is_0_eq not_le snd_conv unat_0)
  have rb: "bend r = unat (fst r) + 8 * unat (snd r)" using nu by (auto simp: bend_def)
  have r'b: "bend r' = unat (fst r) + 8 * (unat (snd r) - unat n)" using n0 u by (simp add: bend_def r'_def)
  then show lt: "bend r' < bend r" using rb nu by simp
  have "bend r' < 4294967296" using lt assms(3) by simp
  from unat_end [OF n0 this] show e: "bend r' = unat (fst x)" by (simp add: r'_def x_def)
  have "bend x = unat (fst x) + 8 * unat n" using assms(2) by (simp add: bend_def x_def)
  then show b: "bend x = bend r" using e r'b rb nu by simp
  have f: "fst r' = fst r" "snd x = n" by (simp_all add: r'_def x_def)
  show "inside r c \<longleftrightarrow> inside x c \<or> inside r' c" using e b lt bend_pos [of r'] by (auto simp: inside_def f)
  show "apart z r \<Longrightarrow> apart z r' \<and> apart z x" using e b lt bend_pos [of r'] by (auto simp: apart_def before_def f)
  show "gap z r \<Longrightarrow> gap z r'" by (simp add: gap_def before_def f)
  show "gap r z \<Longrightarrow> gap r' z" using lt by (auto simp: gap_def before_def)
  show "before z r \<Longrightarrow> before z x" using e lt bend_pos [of r'] by (auto simp: before_def f)
qed

text \<open>A block of the list other than \<open>base\<close>, with its place in the list.\<close>

lemma find_block:
  assumes "uheap_inv s fs A" and "prev \<in> fst ` set fs" and "h_ptr (umem s) prev = p" and "p \<noteq> ubase s"
  shows "\<exists>ls q r rs. fs = ls @ q # r # rs \<and> fst q = prev \<and> fst r = p \<and> h_size (umem s) p = snd r \<and> snd r \<noteq> 0
    \<and> h_ptr (umem s) p = first rs (ubase s)"
proof -
  note i = uheap_invD [OF assms(1)]
  obtain q where q: "q \<in> set fs" "fst q = prev" using assms(2) by auto
  then obtain ls rest where fs: "fs = ls @ q # rest" by (meson split_list)
  have "first rest (ubase s) = p" using i(4) assms(3) q(2) by (simp add: fs ulist_append)
  then obtain r rs where r: "rest = r # rs" "fst r = p" using assms(4) by (cases rest) auto
  have "r \<in> set (tl fs)" using fs r(1) by (cases ls) auto
  then have "snd r \<noteq> 0" using i(7) by blast
  moreover have "h_size (umem s) p = snd r" "h_ptr (umem s) p = first rs (ubase s)" using i(4) r by (auto simp: fs ulist_append)
  ultimately show ?thesis using fs r q(2) by blast
qed

text \<open>The invariant after a change of the list from \<open>fs\<close> to \<open>gs\<close> that hands the block \<open>x\<close> to the program.\<close>

lemma hand_out:
  assumes "uheap_inv s fs A" and "chain m gs (ubase s)" and "f \<in> fst ` set gs" and "sorted_wrt gap gs" and "hd gs = hd fs" and "gs \<noteq> []"
    and "\<forall>y\<in>set (tl gs). snd y \<noteq> 0" and "snd x \<noteq> 0" and "h_size m (fst x) = snd x" and "before (hd fs) x" and "bend x \<le> unat (ubrk s)"
    and "\<forall>y\<in>set gs. apart x y \<and> bend y \<le> unat (ubrk s) \<and> (\<forall>z\<in>A. apart z y)" and "\<forall>z\<in>A. apart z x"
    and "\<And>y c. y \<in> A \<Longrightarrow> inside y c \<Longrightarrow> m c = umem s c"
  shows "uheap_inv (s\<lparr>umem := m, ufreep := f\<rparr>) gs (insert x A)" "keeps s A (s\<lparr>umem := m, ufreep := f\<rparr>)" "x \<notin> A"
proof -
  let ?t = "s\<lparr>umem := m, ufreep := f\<rparr>"
  note i = uheap_invD [OF assms(1)]
  show k: "keeps s A ?t" using assms(14) by (simp add: keeps_def)
  show "x \<notin> A" using assms(13) apart_not_self(1) by blast
  have sz: "h_size m (fst y) = snd y" if y: "y \<in> A" for y
  proof -
    have "bend y \<le> unat (ubrk s)" using i(12) [of y] y by simp
    then have "bend y \<le> 4294967296" using i(13) by simp
    then show ?thesis using keeps_size [OF k y] i(8) [OF y] by simp
  qed
  have sy: "apart y x \<Longrightarrow> apart x y" for y using apart_sym by blast
  show "uheap_inv ?t gs (insert x A)"
    unfolding uheap_inv_def
  proof (intro conjI)
    show "\<forall>y\<in>set (tl gs) \<union> insert x A. snd y \<noteq> 0" using assms(7,8) i(7) by blast
    show "\<forall>y\<in>insert x A. h_size (umem ?t) (fst y) = snd y \<and> before (hd gs) y" using sz assms(5,9,10) i(9) by simp
    show "\<forall>y\<in>insert x A. \<forall>z\<in>insert x A. y \<noteq> z \<longrightarrow> apart y z" using i(10) assms(13) sy by blast
    show "\<forall>y\<in>insert x A. \<forall>z\<in>set gs. apart y z" using assms(12) by blast
    show "\<forall>y\<in>set gs \<union> insert x A. bend y \<le> unat (ubrk ?t)"
    proof
      fix y assume "y \<in> set gs \<union> insert x A"
      then show "bend y \<le> unat (ubrk ?t)" using assms(11,12) i(12) [of y] by auto
    qed
  qed (use assms(2-6) i(2,3,13) in simp_all)
qed

lemma take_ok:
  assumes "uheap_inv s fs A" and "prev \<in> fst ` set fs" and "h_ptr (umem s) prev = p" and "p \<noteq> ubase s" and "n \<le> h_size (umem s) p" and "n \<noteq> 0"
  shows "\<exists>a t gs. take_block n prev p s = (a, t) \<and> allocated s fs A n a t gs"
proof -
  note i = uheap_invD [OF assms(1)]
  obtain ls q r rs where fs: "fs = ls @ q # r # rs" and q: "fst q = prev" and r: "fst r = p" "h_size (umem s) p = snd r" "snd r \<noteq> 0"
      "h_ptr (umem s) p = first rs (ubase s)"
    using find_block [OF assms(1-4)] by blast
  have so: "sorted_wrt gap (ls @ q # r # rs)" using i(6) by (simp add: fs)
  have bd: "y \<in> set fs \<Longrightarrow> bend y \<le> unat (ubrk s)" for y using i(12) by blast
  have lt: "unat (ubrk s) < 4294967296" using i(13) by simp
  have rb: "bend r \<le> unat (ubrk s)" using bd [of r] by (simp add: fs)
  have hq: "hd fs = q \<or> hd fs \<in> set ls" by (cases ls) (simp_all add: fs)
  have hr: "gap (hd fs) r" using so hq by (auto simp: sorted_wrt_append)
  have tl: "y \<in> set fs \<Longrightarrow> y \<noteq> hd fs \<Longrightarrow> snd y \<noteq> 0" for y using i(1,7) by (cases fs) auto
  have sep: "hsep (fst y) (fst z)" if "y \<in> set fs" "z \<in> set fs" "gap y z \<or> gap z y" for y z
  proof -
    have "apart y z" using that(3) gap_apart(1) apart_sym by blast
    then show ?thesis using apart_hsep [of y z] bd [OF that(1)] bd [OF that(2)] lt by simp
  qed
  have ra: "\<forall>z\<in>A. apart z r" using i(11) by (simp add: fs)
  have oth: "apart r y" if "y \<in> set (ls @ q # rs)" for y
  proof -
    have "gap r y \<or> gap y r" using so that by (auto simp: sorted_wrt_append)
    then show ?thesis using gap_apart(1) apart_sym by blast
  qed
  show ?thesis
  proof (cases "snd r = n")
    case True
    let ?m = "set_ptr (umem s) prev (first rs (ubase s))" and ?gs = "ls @ q # rs"
    have tb: "take_block n prev p s = (p + 8, s\<lparr>umem := ?m, ufreep := prev\<rparr>)" using r(2,4) True by (simp add: take_block_def)
    have qf: "q \<in> set fs" "unat (fst q) + 8 \<le> 4294967296" using bd [of q] bend_pos [of q] lt by (simp_all add: fs)
    have ch: "chain ?m ?gs (ubase s)"
    proof -
      have "\<And>y. y \<in> set ls \<Longrightarrow> hsep prev (fst y)" "\<And>y. y \<in> set rs \<Longrightarrow> hsep prev (fst y)"
        using sep [of q] so q by (auto simp: fs sorted_wrt_append)
      then have "chain ?m ls (fst q)" "chain ?m rs (ubase s)" using i(4) chain_set(1) [of ls prev] chain_set(1) [of rs prev] q
        by (auto simp: fs ulist_append)
      moreover have "h_size (umem s) (fst q) = snd q" using i(4) by (simp add: fs ulist_append)
      ultimately show ?thesis by (simp add: ulist_append q)
    qed
    have "hsep prev (fst r)" using sep [of q r] so q by (simp add: fs sorted_wrt_append)
    then have szr: "h_size ?m (fst r) = snd r" using set_get_other(2) r by simp
    have kp: "?m c = umem s c" if "y \<in> A" "inside y c" for y c
      using set_other(1) [OF qf(2), of c] inside_apart [OF that(2), of q] i(11) [OF that(1) qf(1)] q by simp
    have g: "prev \<in> fst ` set ?gs" "sorted_wrt gap ?gs" "hd ?gs = hd fs" "?gs \<noteq> []" "\<forall>y\<in>set (tl ?gs). snd y \<noteq> 0"
        "\<forall>y\<in>set ?gs. apart r y \<and> bend y \<le> unat (ubrk s) \<and> (\<forall>z\<in>A. apart z y)"
    proof -
      show "prev \<in> fst ` set ?gs" using q by auto
      show "sorted_wrt gap ?gs" using so by (simp add: sorted_wrt_append)
      show "hd ?gs = hd fs" by (cases ls) (simp_all add: fs)
      show "\<forall>y\<in>set (tl ?gs). snd y \<noteq> 0"
      proof
        fix y assume "y \<in> set (tl ?gs)"
        then show "snd y \<noteq> 0" using i(7) [of y] by (cases ls) (auto simp: fs)
      qed
      show "\<forall>y\<in>set ?gs. apart r y \<and> bend y \<le> unat (ubrk s) \<and> (\<forall>z\<in>A. apart z y)"
        using oth bd i(11) by (simp add: fs)
    qed simp
    note hand_out [OF assms(1) ch g(1-5) r(3) szr gap_apart(2) [OF hr] rb g(6) ra kp]
    moreover have "(p + 8 - 8, n) = r" using True r(1) by (cases r) simp
    ultimately have "allocated s fs A n (p + 8) (s\<lparr>umem := ?m, ufreep := prev\<rparr>) ?gs"
      unfolding allocated_def by (auto simp: fs)
    then show ?thesis using tb by blast
  next
    case False
    then have nl: "n < snd r" using assms(5) r(2) by simp
    have rl: "bend r < 4294967296" using rb lt by simp
    let ?r = "(fst r, snd r - n)" and ?x = "(fst r + 8 * (snd r - n), n)"
    note sp = split_block [OF nl assms(6) rl]
    let ?m1 = "set_size (umem s) p (snd r - n)" and ?m = "set_size (set_size (umem s) p (snd r - n)) (fst ?x) n" and ?gs = "ls @ q # ?r # rs"
    have tb: "take_block n prev p s = (fst ?x + 8, s\<lparr>umem := ?m, ufreep := prev\<rparr>)"
      using r(1,2) False by (simp add: take_block_def Let_def)
    have w: "unat p + 8 \<le> 4294967296" "unat (fst ?x) + 8 \<le> 4294967296" using bend_pos [of r] bend_pos [of ?x] sp(3) rl r(1) by simp_all
    have out: "?m c = umem s c" if "\<not> inside r c" for c
    proof -
      have "\<not> inside ?x c" "\<not> inside ?r c" using sp(5) that by auto
      then have "\<not> (unat (fst ?x) \<le> unat c \<and> unat c < unat (fst ?x) + 8)" "\<not> (unat p \<le> unat c \<and> unat c < unat p + 8)"
        using bend_pos [of ?x] bend_pos [of ?r] r(1) by (auto simp: inside_def)
      then show ?thesis using set_other(2) [OF w(2)] set_other(2) [OF w(1)] by simp
    qed
    have same: "h_ptr ?m (fst y) = h_ptr (umem s) (fst y) \<and> h_size ?m (fst y) = h_size (umem s) (fst y)" if "y \<in> set (ls @ q # rs)" for y
    proof -
      have yr: "apart r y" "unat (fst y) + 8 \<le> 4294967296" using oth [OF that] bd [of y] that bend_pos [of y] lt by (auto simp: fs)
      have "\<not> inside r c" if "unat (fst y) \<le> unat c" "unat c < unat (fst y) + 8" for c
        using inside_apart [of r c y] yr(1) that by blast
      then show ?thesis using header_cong [OF yr(2), of ?m "umem s"] out by blast
    qed
    have xr: "hsep (fst ?x) p"
      using apart_hsep [of ?r ?x] sp(2,3,4) rl bend_pos [of ?r] r(1) by (auto simp: apart_def before_def hsep_def)
    have hm: "h_size ?m p = snd r - n" "h_ptr ?m p = first rs (ubase s)" "h_size ?m (fst ?x) = n"
      using set_get_other [OF xr] r(4) by simp_all
    have ch: "chain ?m ?gs (ubase s)"
    proof -
      have "chain ?m ls (fst q) = chain (umem s) ls (fst q)" "chain ?m rs (ubase s) = chain (umem s) rs (ubase s)"
        by (rule ulist_cong, use same in simp)+
      moreover have "h_ptr ?m (fst q) = h_ptr (umem s) (fst q)" "h_size ?m (fst q) = h_size (umem s) (fst q)" using same [of q] by simp_all
      ultimately show ?thesis using i(4) hm(1,2) r(1) by (simp add: fs ulist_append)
    qed
    have xn: "snd ?x \<noteq> 0" "h_size ?m (fst ?x) = snd ?x" using assms(6) hm(3) by simp_all
    have bx: "bend ?x \<le> unat (ubrk s)" using sp(3) rb by simp
    have ax: "\<forall>z\<in>A. apart z ?x" using sp(6) ra by blast
    have kp: "?m c = umem s c" if "y \<in> A" "inside y c" for y c
      by (rule out) (use that(2) ra that(1) bend_pos [of r] in \<open>auto simp: inside_def apart_def before_def\<close>)
    have g: "prev \<in> fst ` set ?gs" "sorted_wrt gap ?gs" "hd ?gs = hd fs" "?gs \<noteq> []" "\<forall>y\<in>set (tl ?gs). snd y \<noteq> 0"
        "\<forall>y\<in>set ?gs. apart ?x y \<and> bend y \<le> unat (ubrk s) \<and> (\<forall>z\<in>A. apart z y)"
    proof -
      show "prev \<in> fst ` set ?gs" using q by auto
      show "sorted_wrt gap ?gs" using so sp(7,8) by (auto simp: sorted_wrt_append)
      show "hd ?gs = hd fs" by (cases ls) (simp_all add: fs)
      show "\<forall>y\<in>set (tl ?gs). snd y \<noteq> 0"
      proof
        fix y assume "y \<in> set (tl ?gs)"
        then have "y = ?r \<or> y \<in> set (tl fs)" by (cases ls) (auto simp: fs)
        then show "snd y \<noteq> 0" using i(7) [of y] sp(1) by blast
      qed
      show "\<forall>y\<in>set ?gs. apart ?x y \<and> bend y \<le> unat (ubrk s) \<and> (\<forall>z\<in>A. apart z y)"
      proof
        fix y assume "y \<in> set ?gs"
        then consider "y = ?r" | "y \<in> set (ls @ q # rs)" by auto
        then show "apart ?x y \<and> bend y \<le> unat (ubrk s) \<and> (\<forall>z\<in>A. apart z y)"
        proof cases
          case 1
          then show ?thesis using sp(2,4,6) rb ra by (auto simp: apart_def before_def)
        next
          case 2
          have "apart y r" using oth [OF 2] apart_sym by blast
          then have "apart y ?x" using sp(6) by blast
          then have "apart ?x y" using apart_sym by blast
          moreover have "y \<in> set fs" using 2 by (auto simp: fs)
          ultimately show ?thesis using bd i(11) by blast
        qed
      qed
    qed simp
    note hand_out [OF assms(1) ch g(1-5) xn sp(9) [OF gap_apart(2) [OF hr]] bx g(6) ax kp]
    moreover have "(fst ?x + 8 - 8, n) = ?x" by simp
    moreover have "(\<exists>y\<in>set fs. inside y c) \<longleftrightarrow> inside ?x c \<or> (\<exists>y\<in>set ?gs. inside y c)" for c
      using sp(5) [of c] by (auto simp: fs)
    ultimately have "allocated s fs A n (fst ?x + 8) (s\<lparr>umem := ?m, ufreep := prev\<rparr>) ?gs"
      unfolding allocated_def by simp
    then show ?thesis using tb by blast
  qed
qed
section \<open>The loop of malloc\<close>

definition more_then :: "(u32 \<Rightarrow> uheap \<Rightarrow> u32 \<times> uheap) \<Rightarrow> u32 \<Rightarrow> uheap \<Rightarrow> (u32 \<times> uheap) option" where
  "more_then sbrk n s = Option.bind (morecore sbrk n s) (\<lambda>(p, s).
     if p = 0 then Some (0, s) else malloc_loop sbrk n p (h_ptr (umem s) p) s)"

lemma malloc_path:
  assumes "chain (umem s) (q # ys) (ufreep s)" and "\<forall>y\<in>set ys. fst y \<noteq> ufreep s"
  shows "(\<exists>us p vs. ys = us @ p # vs \<and> n \<le> snd p
      \<and> malloc_loop sbrk n (fst q) (first ys (ufreep s)) s = Some (take_block n (fst (last (q # us))) (fst p) s))
    \<or> (\<forall>y\<in>set ys. snd y < n)
      \<and> malloc_loop sbrk n (fst q) (first ys (ufreep s)) s = malloc_loop sbrk n (fst (last (q # ys))) (ufreep s) s"
  using assms
proof (induction ys arbitrary: q)
  case (Cons y ys)
  have c: "h_size (umem s) (fst y) = snd y" "h_ptr (umem s) (fst y) = first ys (ufreep s)" using Cons.prems(1) by simp_all
  show ?case
  proof (cases "n \<le> snd y")
    case True
    then have "malloc_loop sbrk n (fst q) (fst y) s = Some (take_block n (fst q) (fst y) s)"
      using c by (subst malloc_loop.simps) simp
    then show ?thesis using True by (intro disjI1 exI [of _ "[]"] exI [of _ y] exI [of _ ys]) simp
  next
    case False
    then have st: "malloc_loop sbrk n (fst q) (fst y) s = malloc_loop sbrk n (fst y) (first ys (ufreep s)) s"
      using c Cons.prems(2) by (subst malloc_loop.simps) simp
    have "chain (umem s) (y # ys) (ufreep s)" "\<forall>y\<in>set ys. fst y \<noteq> ufreep s" using Cons.prems by simp_all
    from Cons.IH [OF this] show ?thesis
    proof (elim disjE exE conjE)
      fix us p vs
      assume "ys = us @ p # vs" "n \<le> snd p" "malloc_loop sbrk n (fst y) (first ys (ufreep s)) s = Some (take_block n (fst (last (y # us))) (fst p) s)"
      then show ?thesis using st by (intro disjI1 exI [of _ "y # us"] exI [of _ p] exI [of _ vs]) simp
    next
      assume "\<forall>y\<in>set ys. snd y < n" "malloc_loop sbrk n (fst y) (first ys (ufreep s)) s = malloc_loop sbrk n (fst (last (y # ys))) (ufreep s) s"
      then show ?thesis using st False by (intro disjI2) simp
    qed
  qed
qed simp

text \<open>The search goes once around the list: it takes a block that is large enough if there is one, and asks for more memory otherwise.\<close>

lemma malloc_search:
  assumes "uheap_inv s fs A" and "n \<noteq> 0"
  shows "(\<exists>prev p. prev \<in> fst ` set fs \<and> h_ptr (umem s) prev = p \<and> p \<noteq> ubase s \<and> n \<le> h_size (umem s) p
      \<and> malloc_loop sbrk n (ufreep s) (h_ptr (umem s) (ufreep s)) s = Some (take_block n prev p s))
    \<or> (\<forall>y\<in>set fs. snd y < n) \<and> malloc_loop sbrk n (ufreep s) (h_ptr (umem s) (ufreep s)) s = more_then sbrk n s"
proof -
  note i = uheap_invD [OF assms(1)]
  obtain f where f: "f \<in> set fs" "fst f = ufreep s" using i(5) by auto
  then obtain xs ys where fs: "fs = xs @ f # ys" by (meson split_list)
  have fx: "first xs (ufreep s) = ubase s"
  proof (cases xs)
    case Nil
    then show ?thesis using i(2) f(2) by (simp add: fs)
  next
    case (Cons x xs')
    then show ?thesis using i(2) by (simp add: fs)
  qed
  have ch: "chain (umem s) (f # ys @ xs) (ufreep s)"
    using i(4) f(2) fx by (simp add: fs ulist_append)
  have so: "sorted_wrt gap (xs @ f # ys)" using i(6) by (simp add: fs)
  have nf: "\<forall>y\<in>set (ys @ xs). fst y \<noteq> ufreep s"
  proof
    fix y assume "y \<in> set (ys @ xs)"
    then have "gap f y \<or> gap y f" using so by (auto simp: sorted_wrt_append)
    then show "fst y \<noteq> ufreep s" using gap_less [of f y] gap_less [of y f] f(2) by auto
  qed
  have st: "h_ptr (umem s) (ufreep s) = first (ys @ xs) (ufreep s)" using ch f(2) by simp
  have node: "h_size (umem s) (fst y) = snd y" if y: "y \<in> set fs" for y
  proof -
    obtain as bs where "fs = as @ y # bs" using y by (meson split_list)
    then show ?thesis using i(4) by (simp add: ulist_append)
  qed
  have fit: "p \<noteq> ubase s" if "n \<le> h_size (umem s) p" for p
  proof
    assume "p = ubase s"
    moreover have "h_size (umem s) (fst (hd fs)) = snd (hd fs)" using node i(1) by simp
    ultimately have "n \<le> 0" using that i(2) by simp
    then show False using assms(2) by simp
  qed
  have lastn: "fst (last (f # us)) \<in> fst ` set fs" if "set us \<subseteq> set (ys @ xs)" for us
    using that last_in_set [of "f # us"] by (auto simp: fs)
  from malloc_path [OF ch nf, of n sbrk] show ?thesis
  proof (elim disjE exE conjE)
    fix us p vs
    assume p: "ys @ xs = us @ p # vs" "n \<le> snd p"
      and run: "malloc_loop sbrk n (fst f) (first (ys @ xs) (ufreep s)) s = Some (take_block n (fst (last (f # us))) (fst p) s)"
    have ps: "p \<in> set fs" using p(1) by (metis Un_iff fs in_set_conv_decomp list.set_intros(2) set_append)
    have "f # ys @ xs = butlast (f # us) @ last (f # us) # p # vs"
      unfolding p(1) by (metis append_Cons append_butlast_last_id append_assoc append_Nil list.distinct(1))
    then have "h_ptr (umem s) (fst (last (f # us))) = fst p" using ch by (metis chain.simps(2) ulist_append first_simps(2))
    moreover have "set us \<subseteq> set (ys @ xs)" unfolding p(1) by auto
    ultimately show ?thesis using lastn [of us] node [OF ps] p(2) fit run st f(2)
      by (intro disjI1 exI [of _ "fst (last (f # us))"] exI [of _ "fst p"]) simp
  next
    assume no: "\<forall>y\<in>set (ys @ xs). snd y < n"
      and run: "malloc_loop sbrk n (fst f) (first (ys @ xs) (ufreep s)) s = malloc_loop sbrk n (fst (last (f # ys @ xs))) (ufreep s) s"
    let ?l = "fst (last (f # ys @ xs))"
    have pl: "h_ptr (umem s) ?l = ufreep s"
    proof -
      have "f # ys @ xs = butlast (f # ys @ xs) @ [last (f # ys @ xs)]" by simp
      then show ?thesis using ch by (metis chain.simps(2) ulist_append first_simps(1))
    qed
    have sf: "h_size (umem s) (ufreep s) = snd f" using node [OF f(1)] f(2) by simp
    show ?thesis
    proof (cases "n \<le> snd f")
      case True
      then have "malloc_loop sbrk n ?l (ufreep s) s = Some (take_block n ?l (ufreep s) s)"
        using sf by (subst malloc_loop.simps) simp
      then show ?thesis using run st f(2) pl sf True fit lastn [of "ys @ xs"]
        by (intro disjI1 exI [of _ ?l] exI [of _ "ufreep s"]) simp
    next
      case False
      then have "malloc_loop sbrk n ?l (ufreep s) s = more_then sbrk n s"
        using sf by (subst malloc_loop.simps) (simp add: more_then_def)
      moreover have "\<forall>y\<in>set fs. snd y < n" using no False by (auto simp: fs)
      ultimately show ?thesis using run st f(2) by simp
    qed
  qed
qed

section \<open>More memory\<close>

text \<open>
  What the allocator relies on of the system call \<open>sbrk\<close>: a positive request either fails and returns \<open>-1\<close>, or moves
  the end of the process and returns where it was; memory below it is untouched, and a process does not
  reach the kernel's half of the address space.
\<close>

definition sbrk_spec :: "(u32 \<Rightarrow> uheap \<Rightarrow> u32 \<times> uheap) \<Rightarrow> bool" where
  "sbrk_spec sbrk \<longleftrightarrow> (\<forall>n s. 0 < sint n \<longrightarrow>
     (\<exists>m r. sbrk n s = (r, s\<lparr>umem := m, ubrk := (if r = -1 then ubrk s else ubrk s + n)\<rparr>)
        \<and> (\<forall>a. unat a < unat (ubrk s) \<longrightarrow> m a = umem s a)
        \<and> (r = -1 \<or> r = ubrk s \<and> unat (ubrk s) + unat n \<le> 2147483648)))"

lemma below_brk:
  assumes "uheap_inv s fs A" and "\<And>a. unat a < unat (ubrk s) \<Longrightarrow> m a = umem s a" and "unat (ubrk s) \<le> unat b" and "unat b \<le> 2147483648"
  shows "uheap_inv (s\<lparr>umem := m, ubrk := b\<rparr>) fs A" "keeps s A (s\<lparr>umem := m, ubrk := b\<rparr>)"
proof -
  note i = uheap_invD [OF assms(1)]
  have h: "h_ptr m (fst x) = h_ptr (umem s) (fst x) \<and> h_size m (fst x) = h_size (umem s) (fst x)" if "x \<in> set fs \<union> A" for x
  proof -
    have b: "bend x \<le> unat (ubrk s)" using i(12) that by blast
    have "unat (fst x) + 8 \<le> 4294967296" using b bend_pos [of x] i(13) by simp
    moreover have "m a = umem s a" if "unat (fst x) \<le> unat a" "unat a < unat (fst x) + 8" for a
      using assms(2) [of a] that b bend_pos [of x] by simp
    ultimately show ?thesis using header_cong by blast
  qed
  have ch: "chain m fs (ubase s)" using ulist_cong [of fs m "umem s"] h i(4) by blast
  have be: "bend x \<le> unat b" if "x \<in> set fs \<union> A" for x using i(12) [OF that] assms(3) by simp
  show "uheap_inv (s\<lparr>umem := m, ubrk := b\<rparr>) fs A"
    unfolding uheap_inv_def
  proof (intro conjI)
    show "\<forall>x\<in>A. h_size (umem (s\<lparr>umem := m, ubrk := b\<rparr>)) (fst x) = snd x \<and> before (hd fs) x" using h i(8,9) by simp
    show "\<forall>x\<in>set fs \<union> A. bend x \<le> unat (ubrk (s\<lparr>umem := m, ubrk := b\<rparr>))" using be by simp
    show "\<forall>x\<in>set (tl fs) \<union> A. snd x \<noteq> 0" using i(7) by blast
    show "\<forall>x\<in>A. \<forall>y\<in>A. x \<noteq> y \<longrightarrow> apart x y" using i(10) by blast
    show "\<forall>x\<in>A. \<forall>y\<in>set fs. apart x y" using i(11) by blast
  qed (use i(1-6) ch assms(4) in simp_all)
  show "keeps s A (s\<lparr>umem := m, ubrk := b\<rparr>)"
    unfolding keeps_def
  proof (intro conjI ballI allI impI)
    fix x a assume "x \<in> A" "inside x a"
    then show "umem (s\<lparr>umem := m, ubrk := b\<rparr>) a = umem s a" using assms(2) [of a] i(12) [of x] by (auto simp: inside_def)
  qed simp
qed

definition units_ok :: "u32 \<Rightarrow> bool" where
  "units_ok n \<longleftrightarrow> 0 < unat n \<and> unat n < 268435456"

lemma morecore_ok:
  assumes "uheap_inv s fs A" and "sbrk_spec sbrk" and "units_ok n"
  shows "(\<exists>t. morecore sbrk n s = Some (0, t) \<and> uheap_inv t fs A \<and> keeps s A t)
    \<or> (\<exists>t gs. morecore sbrk n s = Some (ufreep t, t) \<and> ufreep t \<noteq> 0 \<and> uheap_inv t gs A \<and> keeps s A t \<and> (\<exists>y\<in>set gs. n \<le> snd y))"
proof -
  note i = uheap_invD [OF assms(1)]
  define k where "k = (if n < 4096 then 4096 else n)"
  have k: "unat n \<le> unat k" "0 < unat k" "unat k < 268435456"
    using assms(3) by (auto simp: k_def units_ok_def word_less_nat_alt)
  have k8: "unat (k * 8) = 8 * unat k" using k(3) by (simp add: unat_word_ariths)
  have "sint (k * 8) = int (8 * unat k)"
  proof -
    have small: "signed_take_bit 31 (int x) = int x" if "x < 2147483648" for x :: nat
      by (rule signed_take_bit_int_eq_self) (use that in simp_all)
    have "sint (k * 8) = signed_take_bit 31 (int (unat (k * 8)))" by (simp add: sint_uint)
    also have "\<dots> = int (unat (k * 8))" by (rule small) (use k(3) k8 in simp)
    finally show ?thesis by (simp add: k8)
  qed
  moreover have "0 < int (8 * unat k)" using k(2) by presburger
  ultimately have "0 < sint (k * 8)" by linarith
  then obtain m r where r: "sbrk (k * 8) s = (r, s\<lparr>umem := m, ubrk := (if r = -1 then ubrk s else ubrk s + k * 8)\<rparr>)"
      "\<And>a. unat a < unat (ubrk s) \<Longrightarrow> m a = umem s a" "r = -1 \<or> r = ubrk s \<and> unat (ubrk s) + unat (k * 8) \<le> 2147483648"
    using assms(2) unfolding sbrk_spec_def by blast
  show ?thesis
  proof (cases "r = -1")
    case True
    let ?t = "s\<lparr>umem := m, ubrk := ubrk s\<rparr>"
    have "morecore sbrk n s = Some (0, ?t)" using r(1) True by (simp add: morecore_def Let_def flip: k_def)
    then show ?thesis using below_brk [OF assms(1) r(2) order_refl i(13)] by blast
  next
    case False
    then have b: "r = ubrk s" "unat (ubrk s) + 8 * unat k \<le> 2147483648" using r(3) k8 by auto
    let ?b = "ubrk s + k * 8" and ?x = "(ubrk s, k)"
    have ub: "unat ?b = unat (ubrk s) + 8 * unat k" using b(2) k8 by (simp add: unat_word_ariths)
    let ?m = "set_size m (ubrk s) k"
    have w: "unat (ubrk s) + 8 \<le> 4294967296" using b(2) by simp
    have bm: "?m a = umem s a" if "unat a < unat (ubrk s)" for a using set_other(2) [OF w] r(2) [OF that] that by simp
    let ?t = "s\<lparr>umem := ?m, ubrk := ?b\<rparr>"
    have lb: "unat (ubrk s) \<le> unat ?b" "unat ?b \<le> 2147483648" using ub b(2) by simp_all
    note bl = below_brk [OF assms(1) bm lb]
    have bx: "bend ?x = unat ?b" using k(2) ub by (auto simp: bend_def)
    have bef: "before y ?x" if "y \<in> set fs \<union> A" for y using i(12) [OF that] by (simp add: before_def)
    then have xa: "apart ?x y" "apart y ?x" if "y \<in> set fs \<union> A" for y using that by (auto simp: apart_def)
    have xn: "?x \<notin> A" using xa(1) [of ?x] apart_not_self(1) by blast
    have inv: "uheap_inv ?t fs (insert ?x A)"
    proof -
      have "snd ?x \<noteq> 0" "h_size ?m (fst ?x) = snd ?x" "bend ?x \<le> unat (ubrk ?t)" "before (hd fs) ?x"
        using k(2) bx bef [of "hd fs"] i(1) by (auto simp: unat_gt_0)
      note x = this and j = uheap_invD [OF bl(1)]
      show ?thesis
        unfolding uheap_inv_def
      proof (intro conjI)
        show "\<forall>y\<in>insert ?x A. h_size (umem ?t) (fst y) = snd y \<and> before (hd fs) y" using x(2,4) j(8,9) by simp
        show "\<forall>y\<in>set fs \<union> insert ?x A. bend y \<le> unat (ubrk ?t)" using x(3) j(12) by blast
        show "\<forall>y\<in>set (tl fs) \<union> insert ?x A. snd y \<noteq> 0" using x(1) j(7) by blast
        show "\<forall>y\<in>insert ?x A. \<forall>z\<in>insert ?x A. y \<noteq> z \<longrightarrow> apart y z" using xa j(10) by blast
        show "\<forall>y\<in>insert ?x A. \<forall>z\<in>set fs. apart y z" using xa j(11) by blast
      qed (use j(1-6,13) in simp_all)
    qed
    obtain u gs where u: "ufree (fst ?x + 8) ?t = Some u" "freed ?t fs (insert ?x A) ?x u gs" using ufree_ok [OF inv, of ?x] by auto
    have dA: "insert ?x A - {?x} = A" using xn by blast
    have f: "uheap_inv u gs A" "keeps ?t A u" "\<exists>y\<in>set gs. unat k \<le> unat (snd y)" using u(2) unfolding freed_def dA by simp_all
    have "ufreep u \<noteq> 0"
    proof -
      note j = uheap_invD [OF f(1)]
      obtain q where "q \<in> set gs" "ufreep u = fst q" using j(5) by auto
      then have "ubase u \<le> ufreep u" using hd_least [OF j(6)] j(2) by simp
      then show ?thesis using j(3) by auto
    qed
    moreover have "morecore sbrk n s = Some (ufreep u, u)"
    proof -
      have sw: "s\<lparr>ubrk := ?b, umem := ?m\<rparr> = ?t" by (cases s) simp
      have "ufree (ubrk s + 8) (s\<lparr>ubrk := ?b, umem := ?m\<rparr>) = Some u" unfolding sw using u(1) by simp
      then show ?thesis using r(1) False b(1) by (simp add: morecore_def Let_def flip: k_def)
    qed
    moreover have "keeps s A u" using bl(2) f(2) by (simp add: keeps_def)
    moreover have "\<exists>y\<in>set gs. n \<le> snd y" using f(3) k(1) order_trans [OF k(1)] by (meson word_le_nat_alt)
    ultimately show ?thesis using f(1) by blast
  qed
qed
section \<open>malloc\<close>

lemma no_allocs: "(\<forall>y\<in>set fs. snd y < n) \<longleftrightarrow> \<not> (\<exists>y\<in>set fs. n \<le> snd (y :: blk))"
  by (auto simp: not_le)

lemma malloc_loop_ok:
  assumes "uheap_inv s fs A" and "sbrk_spec sbrk" and "units_ok n"
  shows "(\<exists>t. malloc_loop sbrk n (ufreep s) (h_ptr (umem s) (ufreep s)) s = Some (0, t) \<and> uheap_inv t fs A \<and> keeps s A t)
    \<or> (\<exists>a t gs. malloc_loop sbrk n (ufreep s) (h_ptr (umem s) (ufreep s)) s = Some (a, t) \<and> (a - 8, n) \<notin> A
         \<and> uheap_inv t gs (insert (a - 8, n) A) \<and> keeps s A t)"
proof -
  have n: "n \<noteq> 0" using assms(3) by (auto simp: units_ok_def)
  have found: "\<exists>a t gs. malloc_loop sbrk n (ufreep u) (h_ptr (umem u) (ufreep u)) u = Some (a, t) \<and> (a - 8, n) \<notin> A
         \<and> uheap_inv t gs (insert (a - 8, n) A) \<and> keeps u A t"
    if u: "uheap_inv u hs A" and p: "prev \<in> fst ` set hs" "h_ptr (umem u) prev = p" "p \<noteq> ubase u" "n \<le> h_size (umem u) p"
      "malloc_loop sbrk n (ufreep u) (h_ptr (umem u) (ufreep u)) u = Some (take_block n prev p u)" for u hs prev p
    using take_ok [OF u p(1-4) n] p(5) by (auto simp: allocated_def)
  from malloc_search [OF assms(1) n, of sbrk] show ?thesis
  proof (elim disjE exE conjE)
    fix prev p
    assume "prev \<in> fst ` set fs" "h_ptr (umem s) prev = p" "p \<noteq> ubase s" "n \<le> h_size (umem s) p"
      "malloc_loop sbrk n (ufreep s) (h_ptr (umem s) (ufreep s)) s = Some (take_block n prev p s)"
    from found [OF assms(1) this] show ?thesis by blast
  next
    assume m: "malloc_loop sbrk n (ufreep s) (h_ptr (umem s) (ufreep s)) s = more_then sbrk n s"
    from morecore_ok [OF assms] show ?thesis
    proof (elim disjE exE conjE)
      fix t assume "morecore sbrk n s = Some (0, t)" "uheap_inv t fs A" "keeps s A t"
      then show ?thesis using m by (simp add: more_then_def)
    next
      fix t gs assume t: "morecore sbrk n s = Some (ufreep t, t)" "ufreep t \<noteq> 0" "uheap_inv t gs A" "keeps s A t" "\<exists>y\<in>set gs. n \<le> snd y"
      have e: "more_then sbrk n s = malloc_loop sbrk n (ufreep t) (h_ptr (umem t) (ufreep t)) t" using t(1,2) by (simp add: more_then_def)
      from malloc_search [OF t(3) n, of sbrk] t(5) obtain prev p where
        "prev \<in> fst ` set gs" "h_ptr (umem t) prev = p" "p \<noteq> ubase t" "n \<le> h_size (umem t) p"
        "malloc_loop sbrk n (ufreep t) (h_ptr (umem t) (ufreep t)) t = Some (take_block n prev p t)"
        unfolding no_allocs by blast
      from found [OF t(3) this] obtain a v hs where v: "malloc_loop sbrk n (ufreep t) (h_ptr (umem t) (ufreep t)) t = Some (a, v)"
          "(a - 8, n) \<notin> A" "uheap_inv v hs (insert (a - 8, n) A)" "keeps t A v" by blast
      have "keeps s A v" using t(4) v(4) by (simp add: keeps_def)
      then show ?thesis using m e v(1-3) by auto
    qed
  qed
qed

text \<open>The units of a request; the header counts as one.\<close>

definition units :: "u32 \<Rightarrow> u32" where
  "units nbytes = (nbytes + 8 - 1) div 8 + 1"

lemma units_facts:
  assumes "unat nbytes < 2147483632"
  shows "units_ok (units nbytes)" "unat nbytes \<le> 8 * (unat (units nbytes) - 1)"
proof -
  have a: "unat (nbytes + 8 - 1) = unat nbytes + 7"
  proof -
    have "nbytes + 8 - 1 = nbytes + 7" by simp
    then show ?thesis using assms by (simp add: unat_word_ariths)
  qed
  then have d: "unat ((nbytes + 8 - 1) div 8) = (unat nbytes + 7) div 8" unfolding unat_div by simp
  have l: "(unat nbytes + 7) div 8 \<le> 268435454" using assms by simp
  then have "unat (units nbytes) = (unat nbytes + 7) div 8 + 1" using d by (simp add: units_def unat_word_ariths)
  then show "units_ok (units nbytes)" "unat nbytes \<le> 8 * (unat (units nbytes) - 1)" using l by (simp_all add: units_ok_def)
qed

text \<open>The states of a program: at the start there is no list.\<close>

definition fresh_heap :: "uheap \<Rightarrow> bool" where
  "fresh_heap s \<longleftrightarrow> ufreep s = 0 \<and> 0 < unat (ubase s) \<and> unat (ubase s) + 8 \<le> unat (ubrk s) \<and> unat (ubrk s) \<le> 2147483648"

definition uheap_ok :: "uheap \<Rightarrow> blk set \<Rightarrow> bool" where
  "uheap_ok s A \<longleftrightarrow> fresh_heap s \<and> A = {} \<or> (\<exists>fs. uheap_inv s fs A)"

lemma malloc_ok:
  assumes "uheap_ok s A" and "sbrk_spec sbrk" and "unat nbytes < 2147483632"
  shows "\<exists>a t. malloc sbrk nbytes s = Some (a, t) \<and> keeps s A t
    \<and> (a = 0 \<and> uheap_ok t A \<or> (a - 8, units nbytes) \<notin> A \<and> uheap_ok t (insert (a - 8, units nbytes) A))"
proof -
  note u = units_facts [OF assms(3)]
  have run: "\<exists>a t. malloc_loop sbrk (units nbytes) (ufreep v) (h_ptr (umem v) (ufreep v)) v = Some (a, t) \<and> keeps v A t
    \<and> (a = 0 \<and> uheap_ok t A \<or> (a - 8, units nbytes) \<notin> A \<and> uheap_ok t (insert (a - 8, units nbytes) A))" if "uheap_inv v fs A" for v fs
    using malloc_loop_ok [OF that assms(2) u(1)] unfolding uheap_ok_def by blast
  consider (start) "fresh_heap s" "A = {}" | (later) fs where "uheap_inv s fs A" using assms(1) by (auto simp: uheap_ok_def)
  then show ?thesis
  proof cases
    case start
    let ?v = "s\<lparr>umem := set_size (set_ptr (umem s) (ubase s) (ubase s)) (ubase s) 0, ufreep := ubase s\<rparr>"
    have f: "ufreep s = 0" "0 < unat (ubase s)" "unat (ubase s) + 8 \<le> unat (ubrk s)" "unat (ubrk s) \<le> 2147483648"
      using start(1) by (simp_all add: fresh_heap_def)
    have "uheap_inv ?v [(ubase s, 0)] A" using f start(2) by (simp add: uheap_inv_def bend_def)
    from run [OF this] have "\<exists>a t. malloc sbrk nbytes s = Some (a, t) \<and> keeps ?v A t
        \<and> (a = 0 \<and> uheap_ok t A \<or> (a - 8, units nbytes) \<notin> A \<and> uheap_ok t (insert (a - 8, units nbytes) A))"
      using f(1) by (simp add: malloc_def Let_def units_def)
    moreover have "keeps ?v A t = keeps s A t" for t using start(2) by (simp add: keeps_def)
    ultimately show ?thesis by simp
  next
    case later
    have "ufreep s \<noteq> 0"
    proof -
      note j = uheap_invD [OF later]
      obtain q where "q \<in> set fs" "ufreep s = fst q" using j(5) by auto
      then have "ubase s \<le> ufreep s" using hd_least [OF j(6)] j(2) by simp
      then show ?thesis using j(3) by auto
    qed
    then show ?thesis using run [OF later] by (simp add: malloc_def Let_def units_def)
  qed
qed

section \<open>Programs\<close>

text \<open>
  \<open>program sbrk s A\<close>: a program has called \<open>malloc\<close> and \<open>free\<close>, and written its blocks behind their headers, and
  holds the blocks \<open>A\<close>.
\<close>

inductive program :: "(u32 \<Rightarrow> uheap \<Rightarrow> u32 \<times> uheap) \<Rightarrow> uheap \<Rightarrow> blk set \<Rightarrow> bool" for sbrk where
  p_start: "fresh_heap s \<Longrightarrow> program sbrk s {}"
| p_malloc: "program sbrk s A \<Longrightarrow> unat nbytes < 2147483632 \<Longrightarrow> malloc sbrk nbytes s = Some (a, t) \<Longrightarrow> a \<noteq> 0
    \<Longrightarrow> program sbrk t (insert (a - 8, units nbytes) A)"
| p_failed: "program sbrk s A \<Longrightarrow> unat nbytes < 2147483632 \<Longrightarrow> malloc sbrk nbytes s = Some (0, t) \<Longrightarrow> program sbrk t A"
| p_free: "program sbrk s A \<Longrightarrow> x \<in> A \<Longrightarrow> ufree (fst x + 8) s = Some t \<Longrightarrow> program sbrk t (A - {x})"
| p_write: "program sbrk s A \<Longrightarrow> x \<in> A \<Longrightarrow> inside x a \<Longrightarrow> unat (fst x) + 8 \<le> unat a \<Longrightarrow> program sbrk (s\<lparr>umem := (umem s)(a := v)\<rparr>) A"

lemma held_inv: "uheap_ok s A \<Longrightarrow> x \<in> A \<Longrightarrow> \<exists>fs. uheap_inv s fs A"
  by (auto simp: uheap_ok_def)

lemma write_ok:
  assumes "uheap_inv s fs A" and "x \<in> A" and "inside x a" and "unat (fst x) + 8 \<le> unat a"
  shows "uheap_inv (s\<lparr>umem := (umem s)(a := v)\<rparr>) fs A"
proof -
  note i = uheap_invD [OF assms(1)]
  let ?m = "(umem s)(a := v)"
  have h: "h_ptr ?m (fst y) = h_ptr (umem s) (fst y) \<and> h_size ?m (fst y) = h_size (umem s) (fst y)" if y: "y \<in> set fs \<union> A" for y
  proof -
    have "\<not> (unat (fst y) \<le> unat a \<and> unat a < unat (fst y) + 8)"
    proof (cases "y = x")
      case False
      then have "apart x y" using i(10,11) assms(2) y by blast
      then show ?thesis by (rule inside_apart [OF assms(3)])
    qed (use assms(4) in simp)
    then have out: "?m c = umem s c" if "unat (fst y) \<le> unat c" "unat c < unat (fst y) + 8" for c using that by auto
    have "unat (fst y) + 8 \<le> 4294967296" using i(12) [OF y] i(13) bend_pos [of y] by simp
    from header_cong [OF this, of ?m "umem s"] out show ?thesis by blast
  qed
  show ?thesis
    unfolding uheap_inv_def
  proof (intro conjI)
    show "chain (umem (s\<lparr>umem := ?m\<rparr>)) fs (ubase (s\<lparr>umem := ?m\<rparr>))" using ulist_cong [of fs ?m "umem s"] h i(4) by simp
    show "\<forall>x\<in>A. h_size (umem (s\<lparr>umem := ?m\<rparr>)) (fst x) = snd x \<and> before (hd fs) x" using h i(8,9) by simp
    show "\<forall>x\<in>set (tl fs) \<union> A. snd x \<noteq> 0" using i(7) by blast
    show "\<forall>x\<in>A. \<forall>y\<in>A. x \<noteq> y \<longrightarrow> apart x y" using i(10) by blast
    show "\<forall>x\<in>A. \<forall>y\<in>set fs. apart x y" using i(11) by blast
    show "\<forall>x\<in>set fs \<union> A. bend x \<le> unat (ubrk (s\<lparr>umem := ?m\<rparr>))" using i(12) by simp
  qed (use i(1-3,5,6,13) in simp_all)
qed

lemma program_ok:
  assumes "sbrk_spec sbrk" and "program sbrk s A"
  shows "uheap_ok s A"
  using assms(2)
proof induction
  case (p_start s)
  then show ?case by (simp add: uheap_ok_def)
next
  case (p_malloc s A nbytes a t)
  then show ?case using malloc_ok [OF p_malloc.IH assms(1) p_malloc.hyps(2)] by auto
next
  case (p_failed s A nbytes t)
  have "uheap_ok t A" if "uheap_ok t (insert (0 - 8, units nbytes) A)"
  proof -
    let ?x = "(0 - 8, units nbytes) :: blk"
    have "\<exists>fs. uheap_inv t fs (insert ?x A)" using held_inv [OF that, of ?x] by blast
    then obtain fs where v: "uheap_inv t fs (insert ?x A)" by blast
    note i = uheap_invD [OF v]
    have "bend ?x \<le> unat (ubrk t)" using i(12) [of ?x] by simp
    then show ?thesis using i(13) bend_pos [of ?x] by simp
  qed
  then show ?case using malloc_ok [OF p_failed.IH assms(1) p_failed.hyps(2)] p_failed.hyps(3) by auto
next
  case (p_free s A x t)
  obtain fs where "uheap_inv s fs A" using held_inv [OF p_free.IH p_free.hyps(2)] by blast
  from ufree_ok [OF this p_free.hyps(2)] show ?case using p_free.hyps(3) by (auto simp: freed_def uheap_ok_def)
next
  case (p_write s A x a v)
  obtain fs where "uheap_inv s fs A" using held_inv [OF p_write.IH p_write.hyps(2)] by blast
  from write_ok [OF this p_write.hyps(2-4)] show ?case by (auto simp: uheap_ok_def)
qed

text \<open>What the blocks of a program are good for: no two of them share a byte, and the next calls do what they should.\<close>

lemma held_apart:
  assumes "sbrk_spec sbrk" and "program sbrk s A" and "x \<in> A" and "y \<in> A" and "x \<noteq> y"
  shows "apart x y"
proof -
  obtain fs where "uheap_inv s fs A" using held_inv [OF program_ok [OF assms(1,2)] assms(3)] by blast
  then show ?thesis using uheap_invD(10) assms(3-5) by blast
qed

lemma malloc_of_program:
  assumes "sbrk_spec sbrk" and "program sbrk s A" and "unat nbytes < 2147483632"
  shows "\<exists>a t. malloc sbrk nbytes s = Some (a, t) \<and> keeps s A t
    \<and> (a = 0 \<or> unat nbytes \<le> 8 * (unat (units nbytes) - 1) \<and> (\<forall>x\<in>A. apart (a - 8, units nbytes) x))"
proof -
  obtain a t where m: "malloc sbrk nbytes s = Some (a, t)" "keeps s A t"
      "a = 0 \<and> uheap_ok t A \<or> (a - 8, units nbytes) \<notin> A \<and> uheap_ok t (insert (a - 8, units nbytes) A)"
    using malloc_ok [OF program_ok [OF assms(1,2)] assms(1,3)] by blast
  have "apart (a - 8, units nbytes) x" if a: "a \<noteq> 0" and x: "x \<in> A" for x
  proof -
    let ?y = "(a - 8, units nbytes)"
    have "program sbrk t (insert ?y A)" using p_malloc [OF assms(2,3) m(1) a] .
    from held_apart [OF assms(1) this, of ?y x] show ?thesis using m(3) a x by blast
  qed
  then show ?thesis using m(1,2) units_facts(2) [OF assms(3)] by blast
qed

lemma free_of_program:
  assumes "sbrk_spec sbrk" and "program sbrk s A" and "x \<in> A"
  shows "\<exists>t. ufree (fst x + 8) s = Some t \<and> keeps s (A - {x}) t"
proof -
  obtain fs where "uheap_inv s fs A" using held_inv [OF program_ok [OF assms(1,2)] assms(3)] by blast
  from ufree_ok [OF this assms(3)] show ?thesis by (auto simp: freed_def)
qed

text \<open>
  An \<open>sbrk\<close> that keeps the specification: the process may grow up to the kernel's half of the address space.
\<close>

definition grow_brk :: "u32 \<Rightarrow> uheap \<Rightarrow> u32 \<times> uheap" where
  "grow_brk n s = (if unat (ubrk s) + unat n \<le> 2147483648 then (ubrk s, s\<lparr>ubrk := ubrk s + n\<rparr>) else (-1, s))"

lemma grow_brk_spec: "sbrk_spec grow_brk"
proof -
  have "\<exists>m r. grow_brk n s = (r, s\<lparr>umem := m, ubrk := (if r = -1 then ubrk s else ubrk s + n)\<rparr>)
      \<and> (\<forall>a. unat a < unat (ubrk s) \<longrightarrow> m a = umem s a) \<and> (r = -1 \<or> r = ubrk s \<and> unat (ubrk s) + unat n \<le> 2147483648)" for n s
  proof (cases "unat (ubrk s) + unat n \<le> 2147483648")
    case True
    moreover have "unat (-1 :: u32) = 4294967295" by (simp add: unsigned_minus_1_eq_mask mask_eq_exp_minus_1)
    ultimately have "ubrk s \<noteq> -1" by auto
    then show ?thesis using True by (intro exI [of _ "umem s"] exI [of _ "ubrk s"]) (simp add: grow_brk_def)
  next
    case False
    then show ?thesis by (intro exI [of _ "umem s"] exI [of _ "-1"]) (simp add: grow_brk_def)
  qed
  then show ?thesis by (simp add: sbrk_spec_def)
qed

text \<open>
  C5.  A program that calls \<open>malloc\<close> and \<open>free\<close> in any order, writes only behind the headers of its blocks and frees
  only blocks that it holds: no two of its blocks share a byte; \<open>malloc\<close> returns (it does not run around the list
  forever) with 0 or with room for \<open>nbytes\<close> bytes that lies apart from every block held, and touches no byte of
  them; and \<open>free\<close> of a block returns and touches no byte of the others.
\<close>

theorem malloc_blocks_apart:
  assumes "sbrk_spec sbrk" and "program sbrk s A" and "unat nbytes < 2147483632"
  shows "(\<forall>x\<in>A. \<forall>y\<in>A. x \<noteq> y \<longrightarrow> apart x y)
    \<and> (\<exists>a t. malloc sbrk nbytes s = Some (a, t) \<and> keeps s A t
         \<and> (a = 0 \<or> unat nbytes \<le> 8 * (unat (units nbytes) - 1) \<and> (\<forall>x\<in>A. apart (a - 8, units nbytes) x)))
    \<and> (\<forall>x\<in>A. \<exists>t. ufree (fst x + 8) s = Some t \<and> keeps s (A - {x}) t)"
  using held_apart [OF assms(1,2)] malloc_of_program [OF assms] free_of_program [OF assms(1,2)] by blast

text \<open>One block is held: the first call of \<open>malloc\<close> has fetched 4096 units and cut 14 from their end.\<close>

definition start_heap :: uheap where
  "start_heap = \<lparr>umem = (\<lambda>_. 0), ufreep = 0, ubase = 0x1000, ubrk = 0x2000\<rparr>"

lemma start_malloc: "\<exists>s. malloc grow_brk 100 start_heap = Some (0x9F98, s)"
  unfolding malloc_def start_heap_def
  apply (simp add: Let_def)
  apply (subst malloc_loop.simps)
  apply (simp add: morecore_def grow_brk_def Let_def ufree_def)
  apply (subst free_spot.simps)
  apply (simp add: set_get_other hsep_def join_upper_def join_lower_def Let_def)
  apply (subst malloc_loop.simps)
  apply (simp add: set_get_other hsep_def take_block_def Let_def)
  done

theorem malloc_blocks_apart_witness:
  "\<exists>s. malloc grow_brk 100 start_heap = Some (0x9F98, s)
    \<and> (\<exists>b t. malloc grow_brk 200 s = Some (b, t) \<and> keeps s {(0x9F90, 14)} t \<and> (b = 0 \<or> apart (b - 8, 26) (0x9F90, 14)))"
proof -
  obtain s where s: "malloc grow_brk 100 start_heap = Some (0x9F98, s)" using start_malloc by blast
  have "fresh_heap start_heap" by (simp add: fresh_heap_def start_heap_def)
  from p_malloc [OF p_start [OF this] _ s] have "program grow_brk s {(0x9F90, 14)}" by (simp add: units_def)
  from malloc_blocks_apart [OF grow_brk_spec this, of 200] obtain b t where "malloc grow_brk 200 s = Some (b, t)"
      "keeps s {(0x9F90, 14)} t" "b = 0 \<or> (\<forall>x\<in>{(0x9F90, 14)}. apart (b - 8, units 200) x)" by auto
  moreover have "units 200 = 26" by (simp add: units_def)
  ultimately show ?thesis using s by auto
qed

end
