(* ===== verification/Sh.thy ===== *)
theory Sh
  imports Cstring Sysfile
begin

text \<open>
  \<open>sh.c\<close>, the shell (the same file in the three projects): the parser of command lines and the program that
  runs a command.

  The line is the list \<open>l\<close> of the bytes between \<open>buf\<close> and \<open>es\<close>; a \<open>char *\<close> into it is its offset, and the byte
  at \<open>es\<close> is the NUL (\<open>at\<close>).  The parsing functions take the value of \<open>*ps\<close> and return the new one.  The four
  functions \<open>parseline\<close>, \<open>parsepipe\<close>, \<open>parseexec\<close> and \<open>parseblock\<close> call each other; their first argument bounds
  the depth of the calls, \<open>Deep\<close> means that the bound was too small, and \<open>parsecmd\<close> passes one that always suffices.

  The commands run in processes of their own, so \<open>runcmd\<close> gives the program that the process executes: a
  tree whose nodes are system calls and whose branches are their results.
\<close>

section \<open>Commands\<close>

text \<open>A word of the line is given by its first byte and by the byte behind it (\<open>argv\<close>, \<open>eargv\<close>; \<open>file\<close>, \<open>efile\<close>).\<close>

datatype cmd =
    EXEC "(nat \<times> nat) list"
  | REDIR cmd nat nat u32 nat
  | PIPE cmd cmd
  | LIST cmd cmd
  | BACK cmd

definition MAXARGS :: nat where "MAXARGS = 10"

text \<open>What a function that may call the shell's \<open>panic\<close>, which prints the message and exits, does.\<close>

datatype 'a sh = Return 'a | Exits string | Deep

definition sbind :: "'a sh \<Rightarrow> ('a \<Rightarrow> 'b sh) \<Rightarrow> 'b sh" where
  "sbind r f = (case r of Return x \<Rightarrow> f x | Exits msg \<Rightarrow> Exits msg | Deep \<Rightarrow> Deep)"

section \<open>Tokens\<close>

text \<open>
  The codes of the characters: \<open>\<^bold>&\<close> is 38, \<open>(\<close> is 40, \<open>)\<close> is 41, \<open>;\<close> is 59, \<open><\<close> is 60, \<open>>\<close> is 62, \<open>|\<close> is 124; the
  token \<open>>>\<close> is \<open>+\<close>, 43, and a word is \<open>a\<close>, 97.
\<close>

definition cstring :: "byte list \<Rightarrow> bytes" where
  "cstring s i = (if i < length s then s ! i else 0)"

definition whitespace :: "byte list" where "whitespace = [32, 9, 13, 10, 11]"
definition symbols :: "byte list" where "symbols = [60, 124, 62, 38, 59, 40, 41]"

definition has :: "byte list \<Rightarrow> byte \<Rightarrow> bool" where
  "has toks c = (case strchr (cstring toks) c of Some (Some _) \<Rightarrow> True | _ \<Rightarrow> False)"

abbreviation at :: "byte list \<Rightarrow> nat \<Rightarrow> byte" where "at l s \<equiv> cstring l s"

function skip_white :: "byte list \<Rightarrow> nat \<Rightarrow> nat" where
  "skip_white l s = (if s < length l \<and> has whitespace (at l s) then skip_white l (Suc s) else s)"
  by pat_completeness auto
termination by (relation "measure (\<lambda>(l, s). length l - s)") auto

function word_end :: "byte list \<Rightarrow> nat \<Rightarrow> nat" where
  "word_end l s =
     (if s < length l \<and> \<not> has whitespace (at l s) \<and> \<not> has symbols (at l s) then word_end l (Suc s) else s)"
  by pat_completeness auto
termination by (relation "measure (\<lambda>(l, s). length l - s)") auto

declare skip_white.simps [simp del] word_end.simps [simp del]

text \<open>\<open>gettoken\<close> returns the token, where it begins and ends, and \<open>*ps\<close>.\<close>

definition gettoken :: "byte list \<Rightarrow> nat \<Rightarrow> byte \<times> nat \<times> nat \<times> nat" where
  "gettoken l s =
     (let q = skip_white l s;
          (ret, eq) =
            (if at l q = 0 then (0, q)
             else if at l q \<in> {124, 40, 41, 59, 38, 60} then (at l q, q + 1)
             else if at l q = 62 then (if at l (q + 1) = 62 then (43, q + 2) else (62, q + 1))
             else (97, word_end l q))
      in (ret, q, eq, skip_white l eq))"

definition peek :: "byte list \<Rightarrow> nat \<Rightarrow> byte list \<Rightarrow> nat \<times> bool" where
  "peek l s toks = (let s = skip_white l s in (s, at l s \<noteq> 0 \<and> has toks (at l s)))"

lemma cstring_nth [simp]: "i < length s \<Longrightarrow> cstring s i = s ! i" "length s \<le> i \<Longrightarrow> cstring s i = 0"
  by (simp_all add: cstring_def)

lemma strchr_from_cstring:
  assumes "0 \<notin> set s"
  shows "i \<le> length s \<Longrightarrow> \<exists>r. strchr_from (cstring s) c i = Some r \<and> (r = None \<longleftrightarrow> c \<notin> set (drop i s))"
proof (induction "length s - i" arbitrary: i)
  case 0
  then show ?case using strchr_from.simps [of "cstring s" c i] by simp
next
  case (Suc n)
  then have i: "i < length s" by simp
  then have z: "s ! i \<noteq> 0" using assms nth_mem by metis
  have d: "drop i s = s ! i # drop (Suc i) s" using i by (simp add: Cons_nth_drop_Suc)
  have "n = length s - Suc i" "Suc i \<le> length s" using Suc.hyps(2) i by simp_all
  from Suc.hyps(1) [OF this] obtain r
    where "strchr_from (cstring s) c (Suc i) = Some r" "r = None \<longleftrightarrow> c \<notin> set (drop (Suc i) s)" by blast
  then show ?case using strchr_from.simps [of "cstring s" c i] i z by (auto simp: d)
qed

lemma has_iff: "0 \<notin> set toks \<Longrightarrow> has toks c \<longleftrightarrow> c \<in> set toks"
  using strchr_from_cstring [of toks 0 c] by (auto simp: has_def strchr_def split: option.splits)

lemma has_classes [simp]:
  "has whitespace c \<longleftrightarrow> c \<in> set whitespace" "has symbols c \<longleftrightarrow> c \<in> set symbols"
  by (rule has_iff; simp add: whitespace_def symbols_def)+

lemma at_end: "at l s \<noteq> 0 \<Longrightarrow> s < length l"
  by (rule ccontr) simp

lemma skip_white_ge: "s \<le> skip_white l s"
  by (induction l s rule: skip_white.induct) (subst skip_white.simps, auto)

lemma word_end_ge: "s \<le> word_end l s"
  by (induction l s rule: word_end.induct) (subst word_end.simps, auto)

lemma gettoken_ge: "gettoken l s = (tok, q, eq, s') \<Longrightarrow> s \<le> q \<and> q \<le> eq \<and> eq \<le> s'"
  using skip_white_ge [of s l] word_end_ge [of "skip_white l s" l] skip_white_ge [of eq l]
  by (auto simp: gettoken_def Let_def split: if_splits prod.splits)

lemma skip_white_stop: "at l (skip_white l s) \<notin> set whitespace"
proof (induction l s rule: skip_white.induct)
  case (1 l s)
  have "0 \<notin> set whitespace" by (simp add: whitespace_def)
  then show ?case using 1 skip_white.simps [of l s] by (cases "s < length l") (auto simp del: cstring_nth(1))
qed

text \<open>A token that is not the end of the line has at least one byte.\<close>

lemma gettoken_grows:
  assumes "gettoken l s = (tok, q, eq, s')" and "tok \<noteq> 0"
  shows "s < s'" "q < eq" "q < length l"
proof -
  have q: "q = skip_white l s" using assms(1) by (auto simp: gettoken_def Let_def split: prod.splits)
  have nz: "at l q \<noteq> 0" using assms by (auto simp: gettoken_def Let_def split: prod.splits if_splits)
  then show len: "q < length l" by (rule at_end)
  have w: "at l q \<notin> set whitespace" using skip_white_stop q by simp
  have "q < word_end l q" if "at l q \<notin> set symbols"
    using word_end.simps [of l q] word_end_ge [of "Suc q" l] len w that by simp
  moreover have "at l q \<in> set symbols \<longleftrightarrow> at l q \<in> {124, 40, 41, 59, 38, 60} \<or> at l q = 62" by (auto simp: symbols_def)
  ultimately show qe: "q < eq" using assms(1) nz q by (auto simp: gettoken_def Let_def split: prod.splits if_splits)
  show "s < s'" using gettoken_ge [OF assms(1)] qe by simp
qed

lemma peek_token:
  assumes "peek l s toks = (s', True)"
  shows "s \<le> s'" "s' < length l" "fst (gettoken l s') \<noteq> 0"
proof -
  have s: "s' = skip_white l s" "at l s' \<noteq> 0" using assms by (auto simp: peek_def Let_def)
  show "s \<le> s'" using skip_white_ge s(1) by simp
  show len: "s' < length l" using s(2) by (rule at_end)
  have "skip_white l s' = s'" using skip_white.simps [of l s'] skip_white_stop [of l s] s(1) by simp
  then show "fst (gettoken l s') \<noteq> 0" using s(2) by (simp add: gettoken_def Let_def split: prod.splits if_splits)
qed

lemma token_shrinks:
  assumes "(s0, True) = peek l s toks" and "(tok, q, eq, s1) = gettoken l s0"
  shows "length l - s1 < length l - s"
proof -
  have pk: "peek l s toks = (s0, True)" and t: "gettoken l s0 = (tok, q, eq, s1)" using assms by simp_all
  have "s0 < s1" using gettoken_grows(1) [OF t] peek_token(3) [OF pk] t by simp
  then show ?thesis using peek_token(1,2) [OF pk] by linarith
qed

lemma redir_shrinks:
  assumes "(s0, True) = peek l s toks" and "(tok, q, eq, s1) = gettoken l s0" and "(tok2, q2, eq2, s2) = gettoken l s1"
  shows "length l - s2 < length l - s"
proof -
  have "s1 \<le> s2" using gettoken_ge [OF assms(3) [symmetric]] by linarith
  then show ?thesis using token_shrinks [OF assms(1,2)] by linarith
qed

section \<open>The parser\<close>

text \<open>\<open>redircmd\<close> as the \<open>switch\<close> of \<open>parseredirs\<close> calls it for the token \<open>tok\<close>.\<close>

definition redir_for :: "byte \<Rightarrow> cmd \<Rightarrow> nat \<Rightarrow> nat \<Rightarrow> cmd" where
  "redir_for tok c q eq =
     (if tok = 60 then REDIR c q eq O_RDONLY 0
      else if tok = 62 then REDIR c q eq (O_WRONLY OR O_CREATE) 1
      else if tok = 43 then REDIR c q eq (O_WRONLY OR O_CREATE) 1
      else c)"

function parseredirs :: "byte list \<Rightarrow> cmd \<Rightarrow> nat \<Rightarrow> (cmd \<times> nat) sh" where
  "parseredirs l c s =
     (case peek l s [60, 62] of (s, p) \<Rightarrow>
        if p then
          case gettoken l s of (tok, _, _, s) \<Rightarrow>
          case gettoken l s of (tok2, q, eq, s) \<Rightarrow>
            if tok2 \<noteq> 97 then Exits ''missing file for redirection'' else parseredirs l (redir_for tok c q eq) s
        else Return (c, s))"
  by pat_completeness auto
termination
  by (relation "measure (\<lambda>(l, c, s). length l - s)") (auto dest: redir_shrinks)

declare parseredirs.simps [simp del]

text \<open>\<open>cmd->argv[argc] = q\<close>: the \<open>EXEC\<close> command that \<open>cmd\<close> points to lies below the redirections of \<open>ret\<close>.\<close>

fun add_arg :: "nat \<Rightarrow> nat \<Rightarrow> cmd \<Rightarrow> cmd" where
  "add_arg q eq (EXEC as) = EXEC (as @ [(q, eq)])"
| "add_arg q eq (REDIR c file efile mode fd) = REDIR (add_arg q eq c) file efile mode fd"
| "add_arg q eq c = c"

text \<open>The loop of \<open>parseexec\<close>.\<close>

function parseargs :: "byte list \<Rightarrow> cmd \<Rightarrow> nat \<Rightarrow> nat \<Rightarrow> (cmd \<times> nat) sh" where
  "parseargs l ret argc s =
     (case peek l s [124, 41, 38, 59] of (s, p) \<Rightarrow>
        if p then Return (ret, s)
        else case gettoken l s of (tok, q, eq, s) \<Rightarrow>
          if tok = 0 then Return (ret, s)
          else if tok \<noteq> 97 then Exits ''syntax''
          else if argc + 1 \<ge> MAXARGS then Exits ''too many args''
          else (case parseredirs l (add_arg q eq ret) s of
              Return (ret, s) \<Rightarrow> parseargs l ret (argc + 1) s
            | Exits msg \<Rightarrow> Exits msg
            | Deep \<Rightarrow> Deep))"
  by pat_completeness auto
termination by (relation "measure (\<lambda>(l, ret, argc, s). MAXARGS - argc)") auto

declare parseargs.simps [simp del]

text \<open>The loop of \<open>parseline\<close> for \<open>\<^bold>&\<close>.\<close>

function parseback :: "byte list \<Rightarrow> cmd \<Rightarrow> nat \<Rightarrow> cmd \<times> nat" where
  "parseback l c s =
     (case peek l s [38] of (s, p) \<Rightarrow>
        if p then case gettoken l s of (_, _, _, s) \<Rightarrow> parseback l (BACK c) s else (c, s))"
  by pat_completeness auto
termination
  by (relation "measure (\<lambda>(l, c, s). length l - s)") (auto dest: token_shrinks)

declare parseback.simps [simp del]

fun parseline :: "nat \<Rightarrow> byte list \<Rightarrow> nat \<Rightarrow> (cmd \<times> nat) sh"
  and parsepipe :: "nat \<Rightarrow> byte list \<Rightarrow> nat \<Rightarrow> (cmd \<times> nat) sh"
  and parseexec :: "nat \<Rightarrow> byte list \<Rightarrow> nat \<Rightarrow> (cmd \<times> nat) sh"
  and parseblock :: "nat \<Rightarrow> byte list \<Rightarrow> nat \<Rightarrow> (cmd \<times> nat) sh" where
  "parseline 0 l s = Deep"
| "parseline (Suc n) l s =
     sbind (parsepipe n l s) (\<lambda>(c, s).
       case parseback l c s of (c, s) \<Rightarrow>
       case peek l s [59] of (s, p) \<Rightarrow>
         if p then case gettoken l s of (_, _, _, s) \<Rightarrow>
           sbind (parseline n l s) (\<lambda>(right, s). Return (LIST c right, s))
         else Return (c, s))"
| "parsepipe 0 l s = Deep"
| "parsepipe (Suc n) l s =
     sbind (parseexec n l s) (\<lambda>(c, s).
       case peek l s [124] of (s, p) \<Rightarrow>
         if p then case gettoken l s of (_, _, _, s) \<Rightarrow>
           sbind (parsepipe n l s) (\<lambda>(right, s). Return (PIPE c right, s))
         else Return (c, s))"
| "parseexec 0 l s = Deep"
| "parseexec (Suc n) l s =
     (case peek l s [40] of (s, p) \<Rightarrow>
        if p then parseblock n l s
        else sbind (parseredirs l (EXEC []) s) (\<lambda>(ret, s). parseargs l ret 0 s))"
| "parseblock 0 l s = Deep"
| "parseblock (Suc n) l s =
     (case peek l s [40] of (s, p) \<Rightarrow>
        if \<not> p then Exits ''parseblock''
        else case gettoken l s of (_, _, _, s) \<Rightarrow>
          sbind (parseline n l s) (\<lambda>(c, s).
            case peek l s [41] of (s, p) \<Rightarrow>
              if \<not> p then Exits ''syntax - missing )''
              else case gettoken l s of (_, _, _, s) \<Rightarrow> parseredirs l c s))"

primrec nulterminate :: "cmd \<Rightarrow> bytes \<Rightarrow> bytes" where
  "nulterminate (EXEC as) b = fold (\<lambda>(q, eq) b. b(eq := 0)) as b"
| "nulterminate (REDIR c file efile mode fd) b = (nulterminate c b)(efile := 0)"
| "nulterminate (PIPE left right) b = nulterminate right (nulterminate left b)"
| "nulterminate (LIST left right) b = nulterminate right (nulterminate left b)"
| "nulterminate (BACK c) b = nulterminate c b"

text \<open>The depth of the calls is at most four for every byte of the line.\<close>

definition parsecmd :: "bytes \<Rightarrow> (cmd \<times> bytes) sh option" where
  "parsecmd b = map_option (\<lambda>n.
     let l = map b [0..<n] in
     sbind (parseline (4 * n + 4) l 0) (\<lambda>(c, s).
       case peek l s [] of (s, _) \<Rightarrow> if s \<noteq> n then Exits ''syntax'' else Return (c, nulterminate c b))) (strlen b)"

section \<open>Running a command\<close>

text \<open>
  The program of a process: each constructor is a system call (\<open>Sprint\<close> is \<open>printf\<close> on descriptor 2) with what
  follows it.  \<open>Sexec\<close> goes on only if it fails; \<open>Sopen\<close> and \<open>Spipe\<close> have a continuation for success and one for
  failure; \<open>Sfork\<close> has the child, the parent and the failure.  Strings are offsets into the line.
\<close>

datatype prog =
    Sexit
  | Sexec nat "nat list" prog
  | Sclose nat prog
  | Sopen nat u32 prog prog
  | Sfork prog prog prog
  | Swait prog
  | Spipe "nat \<Rightarrow> nat \<Rightarrow> prog" prog
  | Sdup nat prog
  | Sprint string "nat list" prog

definition panic :: "string \<Rightarrow> prog" where "panic msg = Sprint msg [] Sexit"

definition fork1 :: "prog \<Rightarrow> prog \<Rightarrow> prog" where
  "fork1 child parent = Sfork child parent (panic ''fork'')"

primrec runcmd :: "cmd \<Rightarrow> prog" where
  "runcmd (EXEC as) =
     (case as of [] \<Rightarrow> Sexit | (q, _) # _ \<Rightarrow> Sexec q (map fst as) (Sprint ''exec %s failed'' [q] Sexit))"
| "runcmd (REDIR c file efile mode fd) =
     Sclose fd (Sopen file mode (runcmd c) (Sprint ''open %s failed'' [file] Sexit))"
| "runcmd (LIST left right) = fork1 (runcmd left) (Swait (runcmd right))"
| "runcmd (PIPE left right) =
     Spipe (\<lambda>p0 p1.
         fork1 (Sclose 1 (Sdup p1 (Sclose p0 (Sclose p1 (runcmd left)))))
           (fork1 (Sclose 0 (Sdup p0 (Sclose p0 (Sclose p1 (runcmd right)))))
             (Sclose p0 (Sclose p1 (Swait (Swait Sexit))))))
       (panic ''pipe'')"
| "runcmd (BACK c) = fork1 (runcmd c) Sexit"

text \<open>
  The loop of \<open>main\<close>.  For each line it either changes the directory or starts a child and waits for it; the
  child parses the line and runs the command, or prints the message and exits.
\<close>

datatype action = Chdir bytes | Child "(prog \<times> bytes) sh option"

definition getcmd :: "byte list \<Rightarrow> (bytes \<times> byte list) option" where
  "getcmd inp = (let (line, inp) = gets 100 inp; buf = cstring line in if buf 0 = 0 then None else Some (buf, inp))"

definition shell_line :: "bytes \<Rightarrow> action" where
  "shell_line buf =
     (if buf 0 = 99 \<and> buf 1 = 100 \<and> buf 2 = 32
      then let buf = (case strlen buf of Some n \<Rightarrow> buf(n - 1 := 0) | None \<Rightarrow> buf) in Chdir (\<lambda>i. buf (i + 3))
      else Child (map_option (\<lambda>r. sbind r (\<lambda>(c, buf). Return (runcmd c, buf))) (parsecmd buf)))"

lemma gets_from_rest: "gets_from n inp = (line, rest) \<Longrightarrow> line \<noteq> [] \<Longrightarrow> length rest < length inp"
proof (induction n inp arbitrary: line rest rule: gets_from.induct)
  case (3 n c inp)
  then show ?case
  proof (cases "c = 10 \<or> c = 13")
    case False
    obtain l r where lr: "gets_from n inp = (l, r)" by (cases "gets_from n inp")
    have "length r \<le> length inp"
    proof (cases "l = []")
      case True
      then show ?thesis using lr by (cases "(n, inp)" rule: gets_from.cases) (auto split: if_splits prod.splits)
    qed (use 3(1) [OF False lr] in simp)
    then show ?thesis using False lr 3(2) by simp
  qed auto
qed auto

lemma getcmd_rest: "getcmd inp = Some (buf, rest) \<Longrightarrow> length rest < length inp"
  by (auto simp: getcmd_def gets_def cstring_def split: prod.splits if_splits intro: gets_from_rest)

function main_loop :: "byte list \<Rightarrow> action list" where
  "main_loop inp = (case getcmd inp of None \<Rightarrow> [] | Some (buf, inp) \<Rightarrow> shell_line buf # main_loop inp)"
  by pat_completeness auto
termination by (relation "measure length") (auto dest: getcmd_rest)

declare main_loop.simps [simp del]

end
