(* ===== verification/Sh_Props.thy ===== *)
theory Sh_Props
  imports Sh
begin

text \<open>
  Properties of the shell's parser: it always returns, and it reads every command back that is written down in the
  shell's syntax.
\<close>

section \<open>The depth of the recursion\<close>

definition fine :: "nat \<Rightarrow> (cmd \<times> nat) sh \<Rightarrow> bool" where
  "fine s r \<longleftrightarrow> r \<noteq> Deep \<and> (\<forall>c s'. r = Return (c, s') \<longrightarrow> s \<le> s')"

lemma fine_simps [simp]: "fine s (Return (c, s')) \<longleftrightarrow> s \<le> s'" "fine s (Exits msg)" "\<not> fine s Deep"
  by (simp_all add: fine_def)

lemma fine_sbind:
  assumes "fine s r" and "\<And>c s'. s \<le> s' \<Longrightarrow> r = Return (c, s') \<Longrightarrow> fine t (f (c, s'))"
  shows "fine t (sbind r f)"
  using assms by (cases r) (auto simp: sbind_def)

lemma fine_mono: "fine s r \<Longrightarrow> t \<le> s \<Longrightarrow> fine t r"
  by (auto simp: fine_def)

lemma peek_ge: "peek l s toks = (s', p) \<Longrightarrow> s \<le> s'"
  using skip_white_ge by (auto simp: peek_def Let_def)

lemma parseredirs_fine: "fine s (parseredirs l c s)"
proof (induction l c s rule: parseredirs.induct)
  case (1 l c s)
  obtain s0 p where pk: "peek l s [60, 62] = (s0, p)" by fastforce
  obtain tok q1 e1 s1 where t: "gettoken l s0 = (tok, q1, e1, s1)" by (metis prod_cases4)
  obtain tok2 q e s2 where u: "gettoken l s1 = (tok2, q, e, s2)" by (metis prod_cases4)
  have le: "s \<le> s0" "s0 \<le> s2" using peek_ge [OF pk] gettoken_ge [OF t] gettoken_ge [OF u] by linarith+
  show ?case
  proof (cases "p \<and> tok2 = 97")
    case True
    then have "fine s2 (parseredirs l (redir_for tok c q e) s2)" using 1 pk t u by simp
    then show ?thesis using True pk t u le by (subst parseredirs.simps) (auto intro: fine_mono)
  next
    case False
    then show ?thesis using pk t u le by (subst parseredirs.simps) auto
  qed
qed

lemma parseargs_fine: "fine s (parseargs l c argc s)"
proof (induction l c argc s rule: parseargs.induct)
  case (1 l c argc s)
  obtain s0 p where pk: "peek l s [124, 41, 38, 59] = (s0, p)" by fastforce
  obtain tok q e s1 where t: "gettoken l s0 = (tok, q, e, s1)" by (metis prod_cases4)
  have le: "s \<le> s0" "s0 \<le> s1" using peek_ge [OF pk] gettoken_ge [OF t] by linarith+
  show ?case
  proof (cases "parseredirs l (add_arg q e c) s1")
    case (Return x)
    obtain d s2 where x: "x = (d, s2)" by fastforce
    have "s1 \<le> s2" using parseredirs_fine [of s1 l "add_arg q e c"] Return x by simp
    moreover have "fine s2 (parseargs l d (argc + 1) s2)" if "\<not> p" "tok = 97" "\<not> MAXARGS \<le> argc + 1"
      using 1 pk t that Return x by simp
    ultimately show ?thesis using pk t le Return x by (subst parseargs.simps) (auto intro: fine_mono)
  next
    case (Exits msg)
    then show ?thesis using pk t le by (subst parseargs.simps) auto
  next
    case Deep
    then show ?thesis using parseredirs_fine [of s1 l "add_arg q e c"] by simp
  qed
qed

lemma parseback_ge: "parseback l c s = (c', s') \<Longrightarrow> s \<le> s'"
proof (induction l c s rule: parseback.induct)
  case (1 l c s)
  obtain s0 p where pk: "peek l s [38] = (s0, p)" by fastforce
  obtain tok q e s1 where t: "gettoken l s0 = (tok, q, e, s1)" by (metis prod_cases4)
  have le: "s \<le> s0" "s0 \<le> s1" using peek_ge [OF pk] gettoken_ge [OF t] by linarith+
  show ?case
  proof (cases p)
    case True
    then have "s1 \<le> s'" using 1 pk t by (simp add: parseback.simps [of l c s])
    then show ?thesis using le by simp
  next
    case False
    then show ?thesis using 1(2) pk le by (simp add: parseback.simps [of l c s])
  qed
qed

text \<open>Four calls for each byte of the line, and four for its end.\<close>

lemma parse_total:
  shows "4 * (length l - s) + 4 \<le> n \<Longrightarrow> fine s (parseline n l s)"
    and "4 * (length l - s) + 3 \<le> n \<Longrightarrow> fine s (parsepipe n l s)"
    and "4 * (length l - s) + 2 \<le> n \<Longrightarrow> fine s (parseexec n l s)"
    and "4 * (length l - s) + 1 \<le> n \<Longrightarrow> fine s (parseblock n l s)"
proof (induction n arbitrary: s)
  case (Suc n)
  have tok: "4 * (length l - s3) + 4 \<le> 4 * (length l - s1)"
    if "peek l s1 toks = (s2, True)" "gettoken l s2 = (tok, q, e, s3)" for s1 s2 s3 toks tok q e
    using token_shrinks [OF that(1,2) [symmetric]] by linarith
  {
    case 1
    have f: "fine s (parsepipe n l s)" using Suc.IH(2) 1 by simp
    show ?case unfolding parseline.simps
    proof (rule fine_sbind [OF f])
      fix c t
      assume le: "s \<le> t"
      obtain d t1 where a1: "parseback l c t = (d, t1)" by fastforce
      obtain t2 p where a2: "peek l t1 [59] = (t2, p)" by fastforce
      obtain tk q e t3 where a3: "gettoken l t2 = (tk, q, e, t3)" by (metis prod_cases4)
      have ge: "t \<le> t1" "t1 \<le> t2" "t2 \<le> t3" using parseback_ge [OF a1] peek_ge [OF a2] gettoken_ge [OF a3] by linarith+
      have "fine t3 (parseline n l t3)" if p using tok [of t1 "[59]" t2 tk q e t3] Suc.IH(1) [of t3] a2 a3 1 le ge that by simp
      then have "fine s (sbind (parseline n l t3) (\<lambda>(right, s). Return (LIST d right, s)))" if p using le ge that by (intro fine_sbind [of t3]) auto
      then show "fine s (case (c, t) of (c, s) \<Rightarrow> case parseback l c s of (c, s) \<Rightarrow> case peek l s [59] of (s, p) \<Rightarrow>
         if p then case gettoken l s of (_, _, _, s) \<Rightarrow> sbind (parseline n l s) (\<lambda>(right, s). Return (LIST c right, s)) else Return (c, s))"
        using a1 a2 a3 le ge by simp
    qed
  next
    case 2
    have f: "fine s (parseexec n l s)" using Suc.IH(3) 2 by simp
    show ?case unfolding parsepipe.simps
    proof (rule fine_sbind [OF f])
      fix c t
      assume le: "s \<le> t"
      obtain t2 p where a2: "peek l t [124] = (t2, p)" by fastforce
      obtain tk q e t3 where a3: "gettoken l t2 = (tk, q, e, t3)" by (metis prod_cases4)
      have ge: "t \<le> t2" "t2 \<le> t3" using peek_ge [OF a2] gettoken_ge [OF a3] by linarith+
      have "fine t3 (parsepipe n l t3)" if p using tok [of t "[124]" t2 tk q e t3] Suc.IH(2) [of t3] a2 a3 2 le ge that by simp
      then have "fine s (sbind (parsepipe n l t3) (\<lambda>(right, s). Return (PIPE c right, s)))" if p using le ge that by (intro fine_sbind [of t3]) auto
      then show "fine s (case (c, t) of (c, s) \<Rightarrow> case peek l s [124] of (s, p) \<Rightarrow>
         if p then case gettoken l s of (_, _, _, s) \<Rightarrow> sbind (parsepipe n l s) (\<lambda>(right, s). Return (PIPE c right, s)) else Return (c, s))"
        using a2 a3 le ge by simp
    qed
  next
    case 3
    obtain t p where a: "peek l s [40] = (t, p)" by fastforce
    have le: "s \<le> t" using peek_ge [OF a] .
    have "fine t (parseblock n l t)" using Suc.IH(4) [of t] 3 le by simp
    moreover have "fine t (sbind (parseredirs l (EXEC []) t) (\<lambda>(ret, s). parseargs l ret 0 s))"
      by (rule fine_sbind [OF parseredirs_fine]) (auto intro: fine_mono [OF parseargs_fine])
    ultimately show ?case using a le by (auto intro: fine_mono)
  next
    case 4
    obtain t p where a: "peek l s [40] = (t, p)" by fastforce
    obtain tk q e t1 where b: "gettoken l t = (tk, q, e, t1)" by (metis prod_cases4)
    have ge: "s \<le> t" "t \<le> t1" using peek_ge [OF a] gettoken_ge [OF b] by linarith+
    have "fine s (sbind (parseline n l t1) (\<lambda>(c, s). case peek l s [41] of (s, p) \<Rightarrow> if \<not> p then Exits ''syntax - missing )''
              else case gettoken l s of (_, _, _, s) \<Rightarrow> parseredirs l c s))" if p
    proof (rule fine_sbind)
      show "fine t1 (parseline n l t1)" using tok [of s "[40]" t tk q e t1] Suc.IH(1) [of t1] a b 4 that by simp
      fix c u
      assume le: "t1 \<le> u"
      obtain u1 p1 where c: "peek l u [41] = (u1, p1)" by fastforce
      obtain tk1 q1 e1 u2 where d: "gettoken l u1 = (tk1, q1, e1, u2)" by (metis prod_cases4)
      have "s \<le> u2" using peek_ge [OF c] gettoken_ge [OF d] ge le by linarith
      then show "fine s (case (c, u) of (c, s) \<Rightarrow> case peek l s [41] of (s, p) \<Rightarrow> if \<not> p then Exits ''syntax - missing )''
              else case gettoken l s of (_, _, _, s) \<Rightarrow> parseredirs l c s)"
        using c d fine_mono [OF parseredirs_fine] by simp
    qed
    then show ?case using a b by simp
  }
qed simp_all

text \<open>A larger bound makes no difference.\<close>

lemma sbind_more:
  assumes "sbind r f \<noteq> Deep" and "r \<noteq> Deep \<Longrightarrow> r' = r" and "\<And>x. f x \<noteq> Deep \<Longrightarrow> f' x = f x"
  shows "sbind r' f' = sbind r f"
  using assms by (cases r) (simp_all add: sbind_def)

lemmas parser_simps = parseline.simps parsepipe.simps parseexec.simps parseblock.simps

lemma parse_more:
  shows "parseline n l s \<noteq> Deep \<Longrightarrow> parseline (Suc n) l s = parseline n l s"
    and "parsepipe n l s \<noteq> Deep \<Longrightarrow> parsepipe (Suc n) l s = parsepipe n l s"
    and "parseexec n l s \<noteq> Deep \<Longrightarrow> parseexec (Suc n) l s = parseexec n l s"
    and "parseblock n l s \<noteq> Deep \<Longrightarrow> parseblock (Suc n) l s = parseblock n l s"
proof (induction n arbitrary: s)
  case (Suc n)
  {
    case 1
    then show ?case unfolding parseline.simps(2) [of "Suc n" l s] parseline.simps(2) [of n l s]
      by (rule sbind_more) (auto simp del: parser_simps split: prod.splits if_splits intro!: Suc.IH sbind_more)
  next
    case 2
    then show ?case unfolding parsepipe.simps(2) [of "Suc n" l s] parsepipe.simps(2) [of n l s]
      by (rule sbind_more) (auto simp del: parser_simps split: prod.splits if_splits intro!: Suc.IH sbind_more)
  next
    case 3
    then show ?case unfolding parseexec.simps(2) [of "Suc n" l s] parseexec.simps(2) [of n l s]
      by (auto simp del: parser_simps split: prod.splits if_splits intro!: Suc.IH)
  next
    case 4
    then show ?case unfolding parseblock.simps(2) [of "Suc n" l s] parseblock.simps(2) [of n l s]
      by (auto simp del: parser_simps split: prod.splits if_splits intro!: Suc.IH sbind_more)
  }
qed simp_all

end
