(* ===== verification/Sh_Round.thy ===== *)
theory Sh_Round
  imports Sh_Props
begin

text \<open>
  Commands as trees of words, how they are written down, and the proof that the parser reads them back.
\<close>

section \<open>Tokens of a line\<close>

definition hd0 :: "byte list \<Rightarrow> byte" where "hd0 xs = (case xs of [] \<Rightarrow> 0 | c # _ \<Rightarrow> c)"

lemma hd0_simps [simp]: "hd0 [] = 0" "hd0 (c # xs) = c" "hd0 (xs @ ys) = (if xs = [] then hd0 ys else hd0 xs)"
  by (simp_all add: hd0_def split: list.split)

lemma at_drop: "at l s = hd0 (drop s l)"
  by (cases "s < length l") (simp_all add: Cons_nth_drop_Suc [symmetric])

lemma drop_append: "drop s l = x @ y \<Longrightarrow> drop (s + length x) l = y"
  by (metis add.commute append_eq_conv_conj drop_drop)

definition wchar :: "byte \<Rightarrow> bool" where "wchar c \<longleftrightarrow> c \<noteq> 0 \<and> c \<notin> set whitespace \<and> c \<notin> set symbols"
definition word :: "byte list \<Rightarrow> bool" where "word w \<longleftrightarrow> w \<noteq> [] \<and> (\<forall>c\<in>set w. wchar c)"

lemma word_hd: "word w \<Longrightarrow> wchar (hd0 w)"
  by (cases w) (simp_all add: word_def)

lemma zero_no_class [simp]: "0 \<notin> set whitespace" "0 \<notin> set symbols" "\<not> wchar 0"
  by (simp_all add: whitespace_def symbols_def wchar_def)

lemma wchar_no_symbol: "wchar c \<Longrightarrow> c \<notin> {124, 40, 41, 59, 38, 60, 62}" "wchar c \<Longrightarrow> c \<noteq> 0" "wchar c \<Longrightarrow> c \<notin> set whitespace"
  by (auto simp: wchar_def symbols_def)

lemma symbol_no_white: "c \<in> {124, 40, 41, 59, 38, 60, 62} \<Longrightarrow> c \<notin> set whitespace \<and> c \<noteq> 0 \<and> \<not> wchar c"
  by (auto simp: whitespace_def wchar_def symbols_def)

lemma skip_drop: "hd0 (drop s l) \<notin> set whitespace \<Longrightarrow> skip_white l s = s"
  using skip_white.simps [of l s] at_drop [of l s] by simp

lemma peek_drop:
  assumes "hd0 (drop s l) \<notin> set whitespace" and "0 \<notin> set toks"
  shows "peek l s toks = (s, hd0 (drop s l) \<in> set toks)"
  using skip_drop [OF assms(1)] assms(2) has_iff [OF assms(2)] by (auto simp: peek_def at_drop)

definition stops :: "byte set \<Rightarrow> byte list \<Rightarrow> bool" where "stops C x \<longleftrightarrow> x = [] \<or> hd0 x \<in> C"

abbreviation delim :: "byte list \<Rightarrow> bool" where "delim \<equiv> stops (set whitespace \<union> set symbols)"

lemma delim_no_wchar: "delim x \<Longrightarrow> \<not> wchar (hd0 x)"
  by (auto simp: stops_def wchar_def)

lemma word_end_drop: "drop s l = w @ x \<Longrightarrow> \<forall>c\<in>set w. wchar c \<Longrightarrow> delim x \<Longrightarrow> word_end l s = s + length w"
proof (induction w arbitrary: s)
  case Nil
  then show ?case using word_end.simps [of l s] at_drop [of l s] by (auto simp: stops_def)
next
  case (Cons c w)
  have s: "s < length l" using Cons.prems(1) by (metis append_is_Nil_conv drop_all leI list.discI)
  have "at l s = c" using Cons.prems(1) at_drop [of l s] by simp
  moreover have "drop (Suc s) l = w @ x" using drop_append [of s l "[c]"] Cons.prems(1) by simp
  ultimately show ?case using Cons.IH [of "Suc s"] Cons.prems(2,3) s word_end.simps [of l s] by (simp add: wchar_def)
qed

lemma gettoken_word:
  assumes "drop s l = w @ x" and "word w" and "delim x"
  shows "gettoken l s = (97, s, s + length w, skip_white l (s + length w))"
proof -
  have h: "wchar (at l s)" using assms(1,2) word_hd by (simp add: at_drop word_def)
  then have "skip_white l s = s" using wchar_no_symbol(3) by (intro skip_drop) (simp add: at_drop)
  moreover have "word_end l s = s + length w" using word_end_drop [OF assms(1) _ assms(3)] assms(2) by (simp add: word_def)
  ultimately show ?thesis using wchar_no_symbol(1,2) [OF h] by (simp add: gettoken_def Let_def)
qed

lemma gettoken_symbol:
  assumes "drop s l = c # x" and "c \<in> {124, 40, 41, 59, 38, 60}" and "hd0 x \<notin> set whitespace"
  shows "gettoken l s = (c, s, s + 1, s + 1)"
proof -
  have c: "at l s = c" "c \<notin> set whitespace" "c \<noteq> 0" using assms(1,2) symbol_no_white [of c] by (auto simp: at_drop)
  have "skip_white l s = s" using c by (intro skip_drop) (simp add: assms(1))
  moreover have "skip_white l (s + 1) = s + 1" using assms(3) drop_append [of s l "[c]" x] assms(1) by (intro skip_drop) simp
  ultimately show ?thesis using c assms(2) by (simp add: gettoken_def Let_def)
qed

section \<open>Commands as trees\<close>

datatype direction = From | To | Append

datatype script =
    Words "byte list list"
  | Redirect script direction "byte list"
  | Piped script script
  | Seq script script
  | Background script

primrec arrow :: "direction \<Rightarrow> byte list" where
  "arrow From = [60]"
| "arrow To = [62]"
| "arrow Append = [62, 62]"

text \<open>\<open>>\<close> and \<open>>>\<close> mean the same: the file is created if it does not exist, and written from its beginning.\<close>

primrec opens :: "direction \<Rightarrow> u32 \<times> nat" where
  "opens From = (O_RDONLY, 0)"
| "opens To = (O_WRONLY OR O_CREATE, 1)"
| "opens Append = (O_WRONLY OR O_CREATE, 1)"

fun spaced :: "byte list list \<Rightarrow> byte list" where
  "spaced [] = []"
| "spaced [w] = w"
| "spaced (w # v # ws) = w @ 32 # spaced (v # ws)"

text \<open>
  How a command is written: \<open>written t 0\<close> as a whole line, \<open>written t 1\<close> in front of \<open>&\<close> or \<open>;\<close>, \<open>written t 2\<close> behind \<open>|\<close>,
  \<open>written t 3\<close> in front of it; with parentheses where the syntax needs them.
\<close>

definition parens :: "bool \<Rightarrow> byte list \<Rightarrow> byte list" where "parens p x = (if p then 40 # x @ [41] else x)"

primrec written :: "script \<Rightarrow> nat \<Rightarrow> byte list" where
  "written (Words ws) k = spaced ws"
| "written (Redirect t d f) k = written t 3 @ arrow d @ f"
| "written (Piped t u) k = parens (2 < k) (written t 3 @ 124 # written u 2)"
| "written (Background t) k = parens (1 < k) (written t 1 @ [38])"
| "written (Seq t u) k = parens (0 < k) (written t 1 @ 59 # written u 0)"

primrec well_formed :: "script \<Rightarrow> bool" where
  "well_formed (Words ws) \<longleftrightarrow> length ws < MAXARGS \<and> (\<forall>w\<in>set ws. word w)"
| "well_formed (Redirect t d f) \<longleftrightarrow> well_formed t \<and> word f"
| "well_formed (Piped t u) \<longleftrightarrow> well_formed t \<and> well_formed u"
| "well_formed (Background t) \<longleftrightarrow> well_formed t"
| "well_formed (Seq t u) \<longleftrightarrow> well_formed t \<and> well_formed u"

text \<open>\<open>denotes P c t\<close>: the command \<open>c\<close> is the tree \<open>t\<close>, where \<open>P\<close> says which word a pair of offsets stands for.\<close>

fun denotes :: "(nat \<times> nat \<Rightarrow> byte list \<Rightarrow> bool) \<Rightarrow> cmd \<Rightarrow> script \<Rightarrow> bool" where
  "denotes P (EXEC as) (Words ws) \<longleftrightarrow> list_all2 P as ws"
| "denotes P (REDIR c q eq mode fd) (Redirect t d f) \<longleftrightarrow> denotes P c t \<and> P (q, eq) f \<and> (mode, fd) = opens d"
| "denotes P (PIPE c d) (Piped t u) \<longleftrightarrow> denotes P c t \<and> denotes P d u"
| "denotes P (LIST c d) (Seq t u) \<longleftrightarrow> denotes P c t \<and> denotes P d u"
| "denotes P (BACK c) (Background t) \<longleftrightarrow> denotes P c t"
| "denotes P c t \<longleftrightarrow> False"

text \<open>In the line, a word ends in front of a byte that belongs to no word.\<close>

definition span :: "byte list \<Rightarrow> nat \<times> nat \<Rightarrow> byte list \<Rightarrow> bool" where
  "span l x w \<longleftrightarrow> word w \<and> take (length w) (drop (fst x) l) = w \<and> snd x = fst x + length w \<and> \<not> wchar (at l (snd x))"

text \<open>In memory, it ends in front of a NUL.\<close>

definition string_at :: "bytes \<Rightarrow> nat \<times> nat \<Rightarrow> byte list \<Rightarrow> bool" where
  "string_at b x w \<longleftrightarrow> (\<forall>i<length w. b (fst x + i) = w ! i) \<and> b (fst x + length w) = 0"

lemma spanI: "drop s l = w @ x \<Longrightarrow> word w \<Longrightarrow> delim x \<Longrightarrow> span l (s, s + length w) w"
  using drop_append [of s l w x] delim_no_wchar [of x] by (simp add: span_def at_drop)

section \<open>Redirections and words\<close>

definition redirs :: "(direction \<times> byte list) list \<Rightarrow> byte list" where
  "redirs rs = concat (map (\<lambda>(d, f). arrow d @ f) rs)"

definition redirect :: "script \<Rightarrow> (direction \<times> byte list) list \<Rightarrow> script" where
  "redirect t rs = foldl (\<lambda>t (d, f). Redirect t d f) t rs"

lemma redirs_simps [simp]:
  "redirs [] = []" "redirs ((d, f) # rs) = arrow d @ f @ redirs rs" "redirect t [] = t" "redirect t ((d, f) # rs) = redirect (Redirect t d f) rs"
  by (simp_all add: redirs_def redirect_def)

lemma arrow_hd [simp]: "hd0 (arrow d) = (case d of From \<Rightarrow> 60 | _ \<Rightarrow> 62)" "arrow d \<noteq> []"
  by (cases d; simp)+

lemma redirs_stops: "stops {124, 41, 38, 59} suf \<Longrightarrow> stops {60, 62, 124, 41, 38, 59} (redirs rs @ suf)"
  by (cases rs) (auto simp: stops_def split: direction.split)

lemma stops_delim: "stops {60, 62, 124, 41, 38, 59} x \<Longrightarrow> delim x \<and> hd0 x \<notin> set whitespace"
  by (auto simp: stops_def symbols_def whitespace_def)

lemma stops_mono: "stops C x \<Longrightarrow> C \<subseteq> D \<Longrightarrow> stops D x"
  by (auto simp: stops_def)

lemma parseredirs_none:
  assumes "hd0 (drop s l) \<notin> set whitespace" and "hd0 (drop s l) \<notin> {60, 62}"
  shows "parseredirs l c s = Return (c, s)"
  using peek_drop [OF assms(1), of "[60, 62]"] assms(2) by (subst parseredirs.simps) simp

lemma gettoken_arrow:
  assumes "drop s l = arrow d @ x" and "wchar (hd0 x)"
  shows "\<exists>tok. gettoken l s = (tok, s, s + length (arrow d), s + length (arrow d))
    \<and> (\<forall>c q e. redir_for tok c q e = REDIR c q e (fst (opens d)) (snd (opens d)))"
proof -
  note x = wchar_no_symbol [OF assms(2)]
  have d: "drop (s + length (arrow d)) l = x" using drop_append [OF assms(1)] .
  have e: "skip_white l (s + length (arrow d)) = s + length (arrow d)" using x(3) by (intro skip_drop) (simp add: d)
  have a: "at l s = hd0 (arrow d)" using assms(1) by (simp add: at_drop)
  have "skip_white l s = s" using symbol_no_white [of "hd0 (arrow d)"] assms(1)
    by (intro skip_drop) (cases d; simp add: whitespace_def)
  moreover have "at l (s + 1) = hd0 (tl (arrow d) @ x)" using drop_append [of s l "[hd (arrow d)]"] assms(1)
    by (simp add: at_drop) (cases d; simp)
  ultimately show ?thesis using e a x(1) assms(2)
    by (cases d) (auto simp: gettoken_def Let_def redir_for_def)
qed

lemma parseredirs_written:
  "drop s l = redirs rs @ suf \<Longrightarrow> \<forall>(d, f)\<in>set rs. word f \<Longrightarrow> stops {124, 41, 38, 59} suf \<Longrightarrow>
   \<exists>d. parseredirs l c s = Return (d, s + length (redirs rs)) \<and> (\<forall>t. denotes (span l) c t \<longrightarrow> denotes (span l) d (redirect t rs))"
proof (induction rs arbitrary: c s)
  case Nil
  then have "hd0 (drop s l) \<notin> set whitespace" "hd0 (drop s l) \<notin> {60, 62}" by (auto simp: stops_def whitespace_def)
  from parseredirs_none [OF this] show ?case by simp
next
  case (Cons r rs)
  obtain d f where r: "r = (d, f)" by fastforce
  have f: "word f" "wchar (hd0 (f @ redirs rs @ suf))" using Cons.prems(2) r word_hd [of f] by (auto simp: word_def)
  have dr: "drop s l = arrow d @ f @ redirs rs @ suf" using Cons.prems(1) r by simp
  let ?s1 = "s + length (arrow d)"
  have d1: "drop ?s1 l = f @ redirs rs @ suf" using drop_append [OF dr] .
  have d2: "drop (?s1 + length f) l = redirs rs @ suf" using drop_append [OF d1] .
  have st: "delim (redirs rs @ suf)" "hd0 (redirs rs @ suf) \<notin> set whitespace"
    using stops_delim [OF redirs_stops [OF Cons.prems(3)]] by simp_all
  obtain tok where t: "gettoken l s = (tok, s, ?s1, ?s1)" "\<And>c q e. redir_for tok c q e = REDIR c q e (fst (opens d)) (snd (opens d))"
    using gettoken_arrow [OF dr f(2)] by blast
  have pk: "peek l s [60, 62] = (s, True)" using dr by (subst peek_drop) (auto simp: whitespace_def split: direction.split)
  have sk: "skip_white l (?s1 + length f) = ?s1 + length f" using st(2) by (intro skip_drop) (simp add: d2)
  have g: "gettoken l ?s1 = (97, ?s1, ?s1 + length f, ?s1 + length f)" using gettoken_word [OF d1 f(1) st(1)] by (simp only: sk)
  have eq: "parseredirs l c s = parseredirs l (REDIR c ?s1 (?s1 + length f) (fst (opens d)) (snd (opens d))) (?s1 + length f)"
    by (subst parseredirs.simps) (simp add: pk t g)
  have sp: "span l (?s1, ?s1 + length f) f" using spanI [OF d1 f(1) st(1)] .
  from Cons.IH [OF d2 _ Cons.prems(3), of "REDIR c ?s1 (?s1 + length f) (fst (opens d)) (snd (opens d))"] Cons.prems(2)
  obtain e where e: "parseredirs l c s = Return (e, ?s1 + length f + length (redirs rs))"
      "\<And>t. denotes (span l) (REDIR c ?s1 (?s1 + length f) (fst (opens d)) (snd (opens d))) t \<Longrightarrow> denotes (span l) e (redirect t rs)"
    unfolding eq by auto
  have "denotes (span l) e (redirect t (r # rs))" if "denotes (span l) c t" for t
    using e(2) [of "Redirect t d f"] that sp r by simp
  then show ?case using e(1) r by (intro exI [of _ e]) (simp add: add.assoc)
qed

lemma blank_white: "(32 :: byte) \<in> set whitespace"
  by (simp add: whitespace_def)

lemma parseargs_end:
  assumes "stops {124, 41, 38, 59} (drop s l)"
  shows "parseargs l c argc s = Return (c, s)"
proof -
  have w: "hd0 (drop s l) \<notin> set whitespace" using assms by (auto simp: stops_def whitespace_def)
  have pk: "peek l s [124, 41, 38, 59] = (s, hd0 (drop s l) \<in> {124, 41, 38, 59})" using peek_drop [OF w, of "[124, 41, 38, 59]"] by simp
  show ?thesis
  proof (cases "drop s l = []")
    case True
    then have "gettoken l s = (0, s, s, s)" using skip_drop [OF w] by (simp add: gettoken_def Let_def at_drop)
    then show ?thesis using pk by (subst parseargs.simps) simp
  next
    case False
    then show ?thesis using pk assms by (subst parseargs.simps) (simp add: stops_def)
  qed
qed

lemma parseargs_written:
  "drop s l = spaced ws @ redirs rs @ suf \<Longrightarrow> ws \<noteq> [] \<Longrightarrow> \<forall>w\<in>set ws. word w \<Longrightarrow> \<forall>(d, f)\<in>set rs. word f \<Longrightarrow> stops {124, 41, 38, 59} suf
   \<Longrightarrow> argc + length ws < MAXARGS \<Longrightarrow> list_all2 (span l) as vs
   \<Longrightarrow> \<exists>d. parseargs l (EXEC as) argc s = Return (d, s + length (spaced ws @ redirs rs)) \<and> denotes (span l) d (redirect (Words (vs @ ws)) rs)"
proof (induction ws arbitrary: s argc as vs rule: spaced.induct)
  case (2 w)
  have w: "word w" "wchar (hd0 (w @ redirs rs @ suf))" using 2(3) word_hd [of w] by (auto simp: word_def)
  have dr: "drop s l = w @ redirs rs @ suf" using 2(1) by simp
  have d2: "drop (s + length w) l = redirs rs @ suf" using drop_append [OF dr] .
  have st: "delim (redirs rs @ suf)" "hd0 (redirs rs @ suf) \<notin> set whitespace"
    using stops_delim [OF redirs_stops [OF 2(5)]] by simp_all
  have pk: "peek l s [124, 41, 38, 59] = (s, False)" using dr w wchar_no_symbol [OF w(2)] by (subst peek_drop) auto
  have sk: "skip_white l (s + length w) = s + length w" using st(2) by (intro skip_drop) (simp add: d2)
  have g: "gettoken l s = (97, s, s + length w, s + length w)" using gettoken_word [OF dr w(1) st(1)] by (simp only: sk)
  obtain d where d: "parseredirs l (EXEC (as @ [(s, s + length w)])) (s + length w) = Return (d, s + length w + length (redirs rs))"
      "\<And>t. denotes (span l) (EXEC (as @ [(s, s + length w)])) t \<Longrightarrow> denotes (span l) d (redirect t rs)"
    using parseredirs_written [OF d2 2(4,5)] by blast
  have "drop (s + length w + length (redirs rs)) l = suf" using drop_append [OF d2] .
  then have e: "parseargs l d (argc + 1) (s + length w + length (redirs rs)) = Return (d, s + length w + length (redirs rs))"
    using parseargs_end 2(5) by simp
  have "parseargs l (EXEC as) argc s = Return (d, s + length w + length (redirs rs))"
    using 2(6) by (subst parseargs.simps) (simp add: pk g d(1) e [simplified])
  moreover have "denotes (span l) d (redirect (Words (vs @ [w])) rs)"
    using d(2) [of "Words (vs @ [w])"] spanI [OF dr w(1) st(1)] 2(7) by (simp add: list_all2_appendI)
  ultimately show ?case by (simp add: add.assoc)
next
  case (3 w v ws)
  have w: "word w" "word v" using 3(4) by simp_all
  have dr: "drop s l = w @ 32 # spaced (v # ws) @ redirs rs @ suf" using 3(2) by simp
  have h: "wchar (hd0 (spaced (v # ws) @ redirs rs @ suf))" "wchar (hd0 (drop s l))" using w word_hd dr by (cases ws; auto simp: word_def)+
  have d1: "drop (s + length w) l = 32 # spaced (v # ws) @ redirs rs @ suf" using drop_append [OF dr] .
  have d2: "drop (s + length w + 1) l = spaced (v # ws) @ redirs rs @ suf" using drop_append [of _ _ "[32]"] d1 by simp
  have st: "delim (32 # spaced (v # ws) @ redirs rs @ suf)" by (simp add: stops_def whitespace_def)
  have pk: "peek l s [124, 41, 38, 59] = (s, False)" using wchar_no_symbol [OF h(2)] by (subst peek_drop) auto
  have h2: "wchar (hd0 (drop (s + length w + 1) l))" using h(1) unfolding d2 .
  have "skip_white l (s + length w + 1) = s + length w + 1" by (rule skip_drop [OF wchar_no_symbol(3) [OF h2]])
  moreover have "s + length w < length l" using d1 by (metis drop_all leI list.discI)
  moreover have "at l (s + length w) = 32" using d1 by (simp add: at_drop)
  ultimately have sk: "skip_white l (s + length w) = s + length w + 1"
    using skip_white.simps [of l "s + length w"] blank_white by simp
  have g: "gettoken l s = (97, s, s + length w, s + length w + 1)" using gettoken_word [OF dr w(1) st] by (simp only: sk)
  have n: "parseredirs l (EXEC (as @ [(s, s + length w)])) (s + length w + 1) = Return (EXEC (as @ [(s, s + length w)]), s + length w + 1)"
    using wchar_no_symbol(1) [OF h2] by (intro parseredirs_none [OF wchar_no_symbol(3) [OF h2]]) blast
  have "list_all2 (span l) (as @ [(s, s + length w)]) (vs @ [w])" using spanI [OF dr w(1) st] 3(8) by (simp add: list_all2_appendI)
  from 3(1) [OF d2 _ _ 3(5,6) _ this, of "argc + 1"] 3(4,7) obtain d
    where "parseargs l (EXEC (as @ [(s, s + length w)])) (argc + 1) (s + length w + 1) = Return (d, s + length w + 1 + length (spaced (v # ws) @ redirs rs))"
      "denotes (span l) d (redirect (Words ((vs @ [w]) @ v # ws)) rs)" by auto
  moreover have "parseargs l (EXEC as) argc s = parseargs l (EXEC (as @ [(s, s + length w)])) (argc + 1) (s + length w + 1)"
    using 3(7) by (subst parseargs.simps) (simp add: pk g n [simplified])
  ultimately show ?case by (simp add: add.assoc)
qed simp

section \<open>The parser reads back what is written\<close>

lemma parse_upto:
  assumes "n \<le> m"
  shows "parseline n l s \<noteq> Deep \<Longrightarrow> parseline m l s = parseline n l s" "parsepipe n l s \<noteq> Deep \<Longrightarrow> parsepipe m l s = parsepipe n l s"
    "parseexec n l s \<noteq> Deep \<Longrightarrow> parseexec m l s = parseexec n l s"
proof -
  have u: "parseline (n + k) l s = parseline n l s" if "parseline n l s \<noteq> Deep" for k
    using that parse_more(1) [of "n + _" l s] by (induction k) (simp_all del: parser_simps)
  have v: "parsepipe (n + k) l s = parsepipe n l s" if "parsepipe n l s \<noteq> Deep" for k
    using that parse_more(2) [of "n + _" l s] by (induction k) (simp_all del: parser_simps)
  have w: "parseexec (n + k) l s = parseexec n l s" if "parseexec n l s \<noteq> Deep" for k
    using that parse_more(3) [of "n + _" l s] by (induction k) (simp_all del: parser_simps)
  have "m = n + (m - n)" using assms by simp
  then show "parseline n l s \<noteq> Deep \<Longrightarrow> parseline m l s = parseline n l s" "parsepipe n l s \<noteq> Deep \<Longrightarrow> parsepipe m l s = parsepipe n l s"
    "parseexec n l s \<noteq> Deep \<Longrightarrow> parseexec m l s = parseexec n l s" using u v w by metis+
qed

text \<open>
  What each function has to do with the tree \<open>t\<close> where it is written at its level, with the redirections or the
  ampersands that may follow, and before anything at which it stops.
\<close>

definition exec_reads :: "byte list \<Rightarrow> script \<Rightarrow> bool" where
  "exec_reads l t \<longleftrightarrow> (\<forall>rs suf s. drop s l = written t 3 @ redirs rs @ suf \<longrightarrow> (\<forall>(d, f)\<in>set rs. word f) \<longrightarrow> stops {124, 41, 38, 59} suf \<longrightarrow>
     (\<exists>n c. parseexec n l s = Return (c, s + length (written t 3 @ redirs rs)) \<and> denotes (span l) c (redirect t rs)))"

definition pipe_reads :: "byte list \<Rightarrow> script \<Rightarrow> bool" where
  "pipe_reads l t \<longleftrightarrow> (\<forall>suf s. drop s l = written t 2 @ suf \<longrightarrow> stops {41, 38, 59} suf \<longrightarrow>
     (\<exists>n c. parsepipe n l s = Return (c, s + length (written t 2)) \<and> denotes (span l) c t))"

definition back_reads :: "byte list \<Rightarrow> script \<Rightarrow> bool" where
  "back_reads l t \<longleftrightarrow> (\<forall>k suf s. drop s l = written t 1 @ replicate k 38 @ suf \<longrightarrow> stops {41, 59} suf \<longrightarrow>
     (\<exists>n c0 s0 c. parsepipe n l s = Return (c0, s0) \<and> parseback l c0 s0 = (c, s + length (written t 1) + k)
        \<and> denotes (span l) c ((Background ^^ k) t)))"

definition line_reads :: "byte list \<Rightarrow> script \<Rightarrow> bool" where
  "line_reads l t \<longleftrightarrow> (\<forall>suf s. drop s l = written t 0 @ suf \<longrightarrow> stops {41} suf \<longrightarrow>
     (\<exists>n c. parseline n l s = Return (c, s + length (written t 0)) \<and> denotes (span l) c t))"

lemma stops_white: "stops C x \<Longrightarrow> C \<subseteq> {124, 40, 41, 59, 38, 60, 62} \<Longrightarrow> hd0 x \<notin> set whitespace"
  by (auto simp: stops_def whitespace_def)

lemma peek_stops:
  assumes "drop s l = x" and "stops C x" and "C \<subseteq> {124, 40, 41, 59, 38, 60, 62}" and "0 \<notin> set toks" and "hd0 x \<notin> set toks"
  shows "peek l s toks = (s, False)"
  using peek_drop [of s l toks] stops_white [OF assms(2,3)] assms by simp

lemma stops_other: "stops C x \<Longrightarrow> c \<notin> C \<Longrightarrow> c \<noteq> 0 \<Longrightarrow> hd0 x \<noteq> c"
  by (auto simp: stops_def)

lemma exec_pipe:
  assumes "exec_reads l t" and "written t 2 = written t 3"
  shows "pipe_reads l t"
  unfolding pipe_reads_def
proof (intro allI impI)
  fix suf s
  assume d: "drop s l = written t 2 @ suf" and st: "stops {41, 38, 59} suf"
  have "stops {124, 41, 38, 59} suf" using st by (rule stops_mono) simp
  then obtain n c where e: "parseexec n l s = Return (c, s + length (written t 3))" "denotes (span l) c t"
    using assms d by (fastforce simp: exec_reads_def dest: spec [of _ "[]"])
  have d2: "drop (s + length (written t 3)) l = suf" using drop_append [of s l "written t 3" suf] d assms(2) by simp
  have "peek l (s + length (written t 3)) [124] = (s + length (written t 3), False)"
    using stops_white [OF st] st by (subst peek_drop) (auto simp: d2 stops_def)
  then have "parsepipe (Suc n) l s = Return (c, s + length (written t 2))" using e(1) assms(2) by (simp add: sbind_def)
  then show "\<exists>n c. parsepipe n l s = Return (c, s + length (written t 2)) \<and> denotes (span l) c t" using e(2) by blast
qed

lemma parseback_written:
  "drop s l = replicate k 38 @ suf \<Longrightarrow> stops {41, 59} suf \<Longrightarrow> denotes P c t \<Longrightarrow>
   \<exists>d. parseback l c s = (d, s + k) \<and> denotes P d ((Background ^^ k) t)"
proof (induction k arbitrary: s c t)
  case 0
  then have "peek l s [38] = (s, False)" using stops_white [OF 0(2)] by (subst peek_drop) (auto simp: stops_def)
  then show ?case using 0(3) by (subst parseback.simps) simp
next
  case (Suc k)
  have w: "hd0 (replicate k 38 @ suf) \<notin> set whitespace" using stops_white [OF Suc.prems(2)] by (cases k) (auto simp: whitespace_def)
  have d: "drop s l = 38 # replicate k 38 @ suf" using Suc.prems(1) by simp
  have "peek l s [38] = (s, True)" using d by (subst peek_drop) (auto simp: whitespace_def)
  moreover have "gettoken l s = (38, s, s + 1, s + 1)" using gettoken_symbol [OF d _ w] by simp
  moreover have "drop (s + 1) l = replicate k 38 @ suf" using drop_append [of s l "[38]"] d by simp
  ultimately show ?case using Suc.IH [of "s + 1" "BACK c" "Background t"] Suc.prems(2,3)
    by (subst parseback.simps) (simp add: funpow_swap1)
qed

lemma pipe_back:
  assumes "pipe_reads l t" and "written t 1 = written t 2"
  shows "back_reads l t"
  unfolding back_reads_def
proof (intro allI impI)
  fix k suf s
  assume d: "drop s l = written t 1 @ replicate k 38 @ suf" and st: "stops {41, 59} suf"
  have "stops {41, 38, 59} (replicate k 38 @ suf)" using st by (cases k) (auto simp: stops_def)
  then obtain n c where e: "parsepipe n l s = Return (c, s + length (written t 1))" "denotes (span l) c t"
    using assms d unfolding pipe_reads_def by metis
  have d2: "drop (s + length (written t 1)) l = replicate k 38 @ suf" using drop_append [OF d] .
  from parseback_written [OF d2 st e(2)] e(1)
  show "\<exists>n c0 s0 c. parsepipe n l s = Return (c0, s0) \<and> parseback l c0 s0 = (c, s + length (written t 1) + k)
        \<and> denotes (span l) c ((Background ^^ k) t)" by blast
qed

lemma back_line:
  assumes "back_reads l t" and "written t 0 = written t 1"
  shows "line_reads l t"
  unfolding line_reads_def
proof (intro allI impI)
  fix suf s
  assume d: "drop s l = written t 0 @ suf" and st: "stops {41} suf"
  have "stops {41, 59} suf" using st by (rule stops_mono) simp
  moreover have "drop s l = written t 1 @ replicate 0 38 @ suf" using d assms(2) by simp
  ultimately obtain n c0 s0 c where e: "parsepipe n l s = Return (c0, s0)" "parseback l c0 s0 = (c, s + length (written t 1) + 0)"
      "denotes (span l) c ((Background ^^ 0) t)"
    using assms(1) unfolding back_reads_def by blast
  have d2: "drop (s + length (written t 1)) l = suf" using drop_append [of s l "written t 1" suf] d assms(2) by simp
  have "peek l (s + length (written t 1)) [59] = (s + length (written t 1), False)"
    using st by (intro peek_stops [OF d2 st]) (auto simp: stops_def)
  then have "parseline (Suc n) l s = Return (c, s + length (written t 0))" using e(1,2) assms(2) by (simp add: sbind_def)
  moreover have "denotes (span l) c t" using e(3) by simp
  ultimately show "\<exists>n c. parseline n l s = Return (c, s + length (written t 0)) \<and> denotes (span l) c t" by blast
qed

text \<open>A line in parentheses.\<close>

lemma written_hd: "well_formed t \<Longrightarrow> written t k \<noteq> [] \<Longrightarrow> hd0 (written t k) \<notin> set whitespace"
proof (induction t arbitrary: k)
  case (Words ws)
  then obtain w vs where "ws = w # vs" by (cases ws) auto
  then have "hd0 (spaced ws) = hd0 w" "word w" using Words.prems by (cases vs; auto simp: word_def)+
  then show ?case using wchar_no_symbol(3) [OF word_hd [of w]] by simp
next
  case (Redirect t d f)
  then show ?case by (cases "written t 3 = []") (auto simp: whitespace_def split: direction.split)
next
  case (Piped t u)
  then show ?case by (cases "written t 3 = []") (auto simp: parens_def whitespace_def)
next
  case (Seq t u)
  then show ?case by (cases "written t 1 = []") (auto simp: parens_def whitespace_def)
next
  case (Background t)
  then show ?case by (cases "written t 1 = []") (auto simp: parens_def whitespace_def)
qed

lemma line_exec:
  assumes "line_reads l t" and "written t 3 = 40 # written t 0 @ [41]" and "well_formed t"
  shows "exec_reads l t"
  unfolding exec_reads_def
proof (intro allI impI)
  fix rs suf s
  assume d: "drop s l = written t 3 @ redirs rs @ suf" and f: "\<forall>(d, f)\<in>set rs. word f" and st: "stops {124, 41, 38, 59} suf"
  have d0: "drop s l = 40 # written t 0 @ 41 # redirs rs @ suf" using d assms(2) by simp
  have d1: "drop (s + 1) l = written t 0 @ 41 # redirs rs @ suf" using drop_append [of s l "[40]"] d0 by simp
  have w: "hd0 (written t 0 @ 41 # redirs rs @ suf) \<notin> set whitespace"
    using written_hd [OF assms(3), of 0] by (cases "written t 0 = []") (auto simp: whitespace_def)
  have pk: "peek l s [40] = (s, True)" using d0 by (subst peek_drop) (auto simp: whitespace_def)
  have g: "gettoken l s = (40, s, s + 1, s + 1)" using gettoken_symbol [OF d0 _ w] by simp
  have "stops {41} (41 # redirs rs @ suf)" by (simp add: stops_def)
  then obtain n c where e: "parseline n l (s + 1) = Return (c, s + 1 + length (written t 0))" "denotes (span l) c t"
    using assms(1) d1 unfolding line_reads_def by blast
  let ?s = "s + 1 + length (written t 0)"
  have d2: "drop ?s l = 41 # redirs rs @ suf" using drop_append [OF d1] .
  have d3: "drop (?s + 1) l = redirs rs @ suf" using drop_append [of ?s l "[41]"] d2 by simp
  have w3: "hd0 (redirs rs @ suf) \<notin> set whitespace" using stops_delim [OF redirs_stops [OF st]] by simp
  have pk2: "peek l ?s [41] = (?s, True)" using d2 by (subst peek_drop) (auto simp: whitespace_def)
  have g2: "gettoken l ?s = (41, ?s, ?s + 1, ?s + 1)" using gettoken_symbol [OF d2 _ w3] by simp
  obtain x where x: "parseredirs l c (?s + 1) = Return (x, ?s + 1 + length (redirs rs))" "denotes (span l) x (redirect t rs)"
    using parseredirs_written [OF d3 f st] e(2) by blast
  have "parseexec (Suc (Suc n)) l s = Return (x, ?s + 1 + length (redirs rs))"
    by (simp add: pk g e(1) [simplified] pk2 [simplified] g2 [simplified] x(1) [simplified] sbind_def)
  then show "\<exists>n c. parseexec n l s = Return (c, s + length (written t 3 @ redirs rs)) \<and> denotes (span l) c (redirect t rs)"
    using x(2) assms(2) by (intro exI [of _ "Suc (Suc n)"] exI [of _ x]) (simp add: add_ac)
qed

text \<open>The five kinds of commands.\<close>

lemma words_read:
  assumes "well_formed (Words ws)"
  shows "exec_reads l (Words ws)"
  unfolding exec_reads_def
proof (intro allI impI)
  fix rs suf s
  assume d: "drop s l = written (Words ws) 3 @ redirs rs @ suf" and f: "\<forall>(d, f)\<in>set rs. word f" and st: "stops {124, 41, 38, 59} suf"
  have d0: "drop s l = spaced ws @ redirs rs @ suf" using d by simp
  have words: "\<forall>w\<in>set ws. word w" "length ws < MAXARGS" using assms by simp_all
  have "\<exists>c. parseexec 1 l s = Return (c, s + length (spaced ws @ redirs rs)) \<and> denotes (span l) c (redirect (Words ws) rs)"
  proof (cases "ws = []")
    case True
    have dr: "drop s l = redirs rs @ suf" using d0 True by simp
    note w = stops_delim [OF redirs_stops [OF st, of rs]]
    note sr = redirs_stops [OF st, of rs]
    have "hd0 (redirs rs @ suf) \<noteq> 40" by (rule stops_other [OF sr]) simp_all
    then have "peek l s [40] = (s, False)" by (intro peek_stops [OF dr sr]) auto
    moreover obtain c where c: "parseredirs l (EXEC []) s = Return (c, s + length (redirs rs))" "denotes (span l) c (redirect (Words []) rs)"
      using parseredirs_written [OF dr f st, of "EXEC []"] by fastforce
    moreover have "parseargs l c 0 (s + length (redirs rs)) = Return (c, s + length (redirs rs))"
      using drop_append [OF dr] st by (intro parseargs_end) simp
    ultimately show ?thesis using True by (simp add: sbind_def One_nat_def [symmetric] del: One_nat_def) (simp add: sbind_def)
  next
    case False
    then obtain w vs where ws: "ws = w # vs" by (cases ws) auto
    have h: "wchar (hd0 (drop s l))" using d0 words(1) ws word_hd [of w] by (cases vs) (auto simp: word_def)
    note x = wchar_no_symbol [OF h]
    have "peek l s [40] = (s, False)" using x by (subst peek_drop) auto
    moreover have "parseredirs l (EXEC []) s = Return (EXEC [], s)" using x(1) by (intro parseredirs_none [OF x(3)]) blast
    moreover obtain c where "parseargs l (EXEC []) 0 s = Return (c, s + length (spaced ws @ redirs rs))" "denotes (span l) c (redirect (Words ([] @ ws)) rs)"
      using parseargs_written [OF d0 False words(1) f st, of 0 "[]" "[]"] words(2) by auto
    ultimately show ?thesis by (simp add: sbind_def)
  qed
  then show "\<exists>n c. parseexec n l s = Return (c, s + length (written (Words ws) 3 @ redirs rs)) \<and> denotes (span l) c (redirect (Words ws) rs)"
    unfolding written.simps by blast
qed

lemma redirect_read:
  assumes "exec_reads l t" and "word f"
  shows "exec_reads l (Redirect t d f)"
  unfolding exec_reads_def
proof (intro allI impI)
  fix rs suf s
  assume "drop s l = written (Redirect t d f) 3 @ redirs rs @ suf" and "\<forall>(d, f)\<in>set rs. word f" and st: "stops {124, 41, 38, 59} suf"
  then have "drop s l = written t 3 @ redirs ((d, f) # rs) @ suf" "\<forall>(d, f)\<in>set ((d, f) # rs). word f" using assms(2) by simp_all
  with assms(1) st obtain n c where "parseexec n l s = Return (c, s + length (written t 3 @ redirs ((d, f) # rs)))"
      "denotes (span l) c (redirect t ((d, f) # rs))"
    unfolding exec_reads_def by blast
  then show "\<exists>n c. parseexec n l s = Return (c, s + length (written (Redirect t d f) 3 @ redirs rs)) \<and> denotes (span l) c (redirect (Redirect t d f) rs)"
    by (intro exI [of _ n] exI [of _ c]) simp
qed

lemma written_hd_append: "well_formed t \<Longrightarrow> stops C x \<Longrightarrow> C \<subseteq> {124, 40, 41, 59, 38, 60, 62} \<Longrightarrow> hd0 (written t k @ x) \<notin> set whitespace"
  using written_hd [of t k] stops_white [of C x] by auto

lemma piped_read:
  assumes "exec_reads l t" and "pipe_reads l u" and "well_formed u"
  shows "pipe_reads l (Piped t u)"
  unfolding pipe_reads_def
proof (intro allI impI)
  fix suf s
  assume d: "drop s l = written (Piped t u) 2 @ suf" and st: "stops {41, 38, 59} suf"
  have d0: "drop s l = written t 3 @ redirs [] @ 124 # written u 2 @ suf" using d by (simp add: parens_def)
  have "stops {124, 41, 38, 59} (124 # written u 2 @ suf)" by (simp add: stops_def)
  then obtain n c where e: "parseexec n l s = Return (c, s + length (written t 3))" "denotes (span l) c t"
    using assms(1) d0 by (fastforce simp: exec_reads_def dest: spec [of _ "[]"])
  let ?s = "s + length (written t 3)"
  have d1: "drop ?s l = 124 # written u 2 @ suf" using drop_append [of s l "written t 3"] d0 by simp
  have d2: "drop (?s + 1) l = written u 2 @ suf" using drop_append [of ?s l "[124]"] d1 by simp
  have w: "hd0 (written u 2 @ suf) \<notin> set whitespace" using written_hd_append [OF assms(3) st] by simp
  have pk: "peek l ?s [124] = (?s, True)" using d1 by (subst peek_drop) (auto simp: whitespace_def)
  have g: "gettoken l ?s = (124, ?s, ?s + 1, ?s + 1)" using gettoken_symbol [OF d1 _ w] by simp
  obtain m x where x: "parsepipe m l (?s + 1) = Return (x, ?s + 1 + length (written u 2))" "denotes (span l) x u"
    using assms(2) d2 st unfolding pipe_reads_def by blast
  define k where "k = max n m"
  have k: "parseexec k l s = parseexec n l s" "parsepipe k l (?s + 1) = parsepipe m l (?s + 1)"
    using parse_upto(3) [of n k l s] parse_upto(2) [of m k l "?s + 1"] e(1) x(1) by (simp_all add: k_def)
  have "parsepipe (Suc k) l s = Return (PIPE c x, ?s + 1 + length (written u 2))"
    by (simp add: k(1) e(1) pk g k(2) [simplified] x(1) [simplified] sbind_def)
  then show "\<exists>n c. parsepipe n l s = Return (c, s + length (written (Piped t u) 2)) \<and> denotes (span l) c (Piped t u)"
    using e(2) x(2) by (intro exI [of _ "Suc k"] exI [of _ "PIPE c x"]) (simp add: parens_def del: parser_simps)
qed

lemma background_read:
  assumes "back_reads l t"
  shows "back_reads l (Background t)"
  unfolding back_reads_def
proof (intro allI impI)
  fix k suf s
  assume "drop s l = written (Background t) 1 @ replicate k 38 @ suf" and st: "stops {41, 59} suf"
  then have "drop s l = written t 1 @ replicate (Suc k) 38 @ suf" by (simp add: parens_def)
  with assms st obtain n c0 s0 c where "parsepipe n l s = Return (c0, s0)" "parseback l c0 s0 = (c, s + length (written t 1) + Suc k)"
      "denotes (span l) c ((Background ^^ Suc k) t)"
    unfolding back_reads_def by blast
  then show "\<exists>n c0 s0 c. parsepipe n l s = Return (c0, s0) \<and> parseback l c0 s0 = (c, s + length (written (Background t) 1) + k)
        \<and> denotes (span l) c ((Background ^^ k) (Background t))"
    by (intro exI [of _ n] exI [of _ c0] exI [of _ s0] exI [of _ c]) (simp add: parens_def funpow_swap1)
qed

lemma seq_read:
  assumes "back_reads l t" and "line_reads l u" and "well_formed u"
  shows "line_reads l (Seq t u)"
  unfolding line_reads_def
proof (intro allI impI)
  fix suf s
  assume d: "drop s l = written (Seq t u) 0 @ suf" and st: "stops {41} suf"
  have d0: "drop s l = written t 1 @ replicate 0 38 @ 59 # written u 0 @ suf" using d by (simp add: parens_def)
  have "stops {41, 59} (59 # written u 0 @ suf)" by (simp add: stops_def)
  then obtain n c0 s0 c where e: "parsepipe n l s = Return (c0, s0)" "parseback l c0 s0 = (c, s + length (written t 1) + 0)"
      "denotes (span l) c ((Background ^^ 0) t)"
    using assms(1) d0 unfolding back_reads_def by blast
  define a where "a = s + length (written t 1)"
  have e2: "parseback l c0 s0 = (c, a)" using e(2) by (simp add: a_def)
  have d1: "drop a l = 59 # written u 0 @ suf" using drop_append [OF d0] by (simp add: a_def)
  have d2: "drop (a + 1) l = written u 0 @ suf" using drop_append [of a l "[59]"] d1 by simp
  have w: "hd0 (written u 0 @ suf) \<notin> set whitespace" using written_hd_append [OF assms(3) st] by simp
  have pk: "peek l a [59] = (a, True)" using d1 by (subst peek_drop) (auto simp: whitespace_def)
  have g: "gettoken l a = (59, a, a + 1, a + 1)" using gettoken_symbol [OF d1 _ w] by simp
  obtain m x where x: "parseline m l (a + 1) = Return (x, a + 1 + length (written u 0))" "denotes (span l) x u"
    using assms(2) d2 st unfolding line_reads_def by blast
  define k where "k = max n m"
  have k: "parsepipe k l s = parsepipe n l s" "parseline k l (a + 1) = parseline m l (a + 1)"
    using parse_upto(2) [of n k l s] parse_upto(1) [of m k l "a + 1"] e(1) x(1) by (simp_all add: k_def)
  have r: "parseline (Suc k) l s = Return (LIST c x, a + 1 + length (written u 0))"
    by (simp add: k(1) e(1) e2 pk g k(2) [simplified] x(1) [simplified] sbind_def)
  have "a + 1 + length (written u 0) = s + length (written (Seq t u) 0)" by (simp add: a_def parens_def)
  moreover have "denotes (span l) (LIST c x) (Seq t u)" using e(3) x(2) by simp
  ultimately show "\<exists>n c. parseline n l s = Return (c, s + length (written (Seq t u) 0)) \<and> denotes (span l) c (Seq t u)"
    using r by metis
qed

lemma all_read:
  "well_formed t \<Longrightarrow> exec_reads l t \<and> pipe_reads l t \<and> back_reads l t \<and> line_reads l t"
proof (induction t)
  case (Words ws)
  have e: "exec_reads l (Words ws)" using words_read [OF Words] .
  have p: "pipe_reads l (Words ws)" by (rule exec_pipe [OF e]) simp
  have b: "back_reads l (Words ws)" by (rule pipe_back [OF p]) simp
  show ?case using e p b back_line [OF b] by simp
next
  case (Redirect t d f)
  have e: "exec_reads l (Redirect t d f)" using redirect_read Redirect by simp
  have p: "pipe_reads l (Redirect t d f)" by (rule exec_pipe [OF e]) simp
  have b: "back_reads l (Redirect t d f)" by (rule pipe_back [OF p]) simp
  show ?case using e p b back_line [OF b] by simp
next
  case (Piped t u)
  have p: "pipe_reads l (Piped t u)" using piped_read Piped by simp
  have b: "back_reads l (Piped t u)" by (rule pipe_back [OF p]) (simp add: parens_def)
  have n: "line_reads l (Piped t u)" by (rule back_line [OF b]) (simp add: parens_def)
  have "exec_reads l (Piped t u)" by (rule line_exec [OF n]) (use Piped.prems in \<open>simp_all add: parens_def\<close>)
  then show ?case using p b n by simp
next
  case (Background t)
  have b: "back_reads l (Background t)" using background_read Background by simp
  have n: "line_reads l (Background t)" by (rule back_line [OF b]) (simp add: parens_def)
  have e: "exec_reads l (Background t)" by (rule line_exec [OF n]) (use Background.prems in \<open>simp_all add: parens_def\<close>)
  then have "pipe_reads l (Background t)" by (rule exec_pipe) (simp add: parens_def)
  then show ?case using e b n by simp
next
  case (Seq t u)
  have n: "line_reads l (Seq t u)" using seq_read Seq by simp
  have e: "exec_reads l (Seq t u)" by (rule line_exec [OF n]) (use Seq.prems in \<open>simp_all add: parens_def\<close>)
  then have p: "pipe_reads l (Seq t u)" by (rule exec_pipe) (simp add: parens_def)
  then have "back_reads l (Seq t u)" by (rule pipe_back) (simp add: parens_def)
  then show ?case using e p n by simp
qed

end
