(* ===== verification/Sh_Line.thy ===== *)
theory Sh_Line
  imports Sh_Round Cstring_Props
begin

text \<open>
  The line as it is typed, with its newline, and the line in memory after \<open>nulterminate\<close>: the theorems about \<open>parsecmd\<close>.
\<close>

section \<open>The newline at the end\<close>

text \<open>
  A line as it is typed ends with a newline.  It makes no difference: the parser takes the same steps, and where
  it would be at the end of the line, it has skipped the newline.
\<close>

definition nl :: "byte list \<Rightarrow> nat \<Rightarrow> nat" where "nl l s = (if s = length l then s + 1 else s)"

definition nl_res :: "byte list \<Rightarrow> (cmd \<times> nat) sh \<Rightarrow> (cmd \<times> nat) sh" where
  "nl_res l r = sbind r (\<lambda>(c, s). Return (c, nl l s))"

lemma nl_res_simps [simp]:
  "nl_res l (Return (c, s)) = Return (c, nl l s)" "nl_res l (Exits msg) = Exits msg" "nl_res l Deep = Deep"
  by (simp_all add: nl_res_def sbind_def)

definition near :: "byte list \<Rightarrow> nat \<Rightarrow> nat \<Rightarrow> bool" where "near l s s' \<longleftrightarrow> s \<le> length l \<and> (s' = s \<or> s' = nl l s)"

lemma nearI: "s \<le> length l \<Longrightarrow> near l s s" "s \<le> length l \<Longrightarrow> near l s (nl l s)"
  by (simp_all add: near_def)

lemma newline_white: "(10 :: byte) \<in> set whitespace" "at (l @ [10]) (length l) = 10"
  by (simp_all add: whitespace_def cstring_def)

lemma at_newline: "s < length l \<Longrightarrow> at (l @ [10]) s = at l s" "at (l @ [10]) (Suc (length l)) = 0"
  by (simp_all add: cstring_def nth_append)

lemma skip_white_le: "s \<le> length l \<Longrightarrow> skip_white l s \<le> length l"
proof (induction l s rule: skip_white.induct)
  case (1 l s)
  then show ?case using skip_white.simps [of l s] by auto
qed

lemma word_end_le: "s \<le> length l \<Longrightarrow> word_end l s \<le> length l"
proof (induction l s rule: word_end.induct)
  case (1 l s)
  then show ?case using word_end.simps [of l s] by auto
qed

lemma skip_newline: "skip_white (l @ [10]) (Suc (length l)) = Suc (length l)" "skip_white (l @ [10]) (length l) = Suc (length l)"
proof -
  show a: "skip_white (l @ [10]) (Suc (length l)) = Suc (length l)" using skip_white.simps [of "l @ [10]" "Suc (length l)"] by simp
  show "skip_white (l @ [10]) (length l) = Suc (length l)"
    using a newline_white skip_white.simps [of "l @ [10]" "length l"] by simp
qed

lemma skip_nl_aux: "s \<le> length l \<Longrightarrow> skip_white (l @ [10]) s = nl l (skip_white l s)"
proof (induction l s rule: skip_white.induct)
  case (1 l s)
  show ?case
  proof (cases "s = length l")
    case True
    then show ?thesis using skip_newline(2) [of l] skip_white.simps [of l s] by (simp add: nl_def)
  next
    case False
    then have s: "s < length l" using 1(2) by simp
    then show ?thesis using 1 skip_white.simps [of l s] skip_white.simps [of "l @ [10]" s] at_newline(1) [OF s]
      by (auto simp: nl_def simp del: cstring_nth(1))
  qed
qed

lemma skip_nl: "near l s s' \<Longrightarrow> skip_white (l @ [10]) s' = nl l (skip_white l s)"
  using skip_nl_aux [of s l] skip_newline(1) [of l] skip_white.simps [of l "length l"] by (auto simp: near_def nl_def)

lemma word_end_nl: "s \<le> length l \<Longrightarrow> word_end (l @ [10]) s = word_end l s"
proof (induction l s rule: word_end.induct)
  case (1 l s)
  show ?case
  proof (cases "s = length l")
    case True
    then show ?thesis using newline_white word_end.simps [of "l @ [10]" s] word_end.simps [of l s] by simp
  next
    case False
    then have s: "s < length l" using 1(2) by simp
    then show ?thesis using 1 word_end.simps [of l s] word_end.simps [of "l @ [10]" s] at_newline(1) [OF s]
      by (auto simp del: cstring_nth(1))
  qed
qed

lemma at_nl: "s \<le> length l \<Longrightarrow> at (l @ [10]) (nl l s) = at l s"
  using at_newline(1) [of s l] at_newline(2) [of l] by (auto simp: nl_def simp del: cstring_nth(1))

lemma peek_nl:
  assumes "near l s s'" and "peek l s toks = (t, p)"
  shows "peek (l @ [10]) s' toks = (nl l t, p)" "t \<le> length l" "near l t (nl l t)"
proof -
  have "s \<le> length l" using assms(1) by (simp add: near_def)
  from skip_white_le [OF this] show t: "t \<le> length l" using assms(2) by (simp add: peek_def Let_def)
  show "peek (l @ [10]) s' toks = (nl l t, p)" using skip_nl [OF assms(1)] assms(2) t at_nl [OF t] by (auto simp: peek_def Let_def)
  show "near l t (nl l t)" using nearI(2) [OF t] .
qed

lemma gettoken_nl:
  assumes "near l s s'" and "gettoken l s = (tok, q, eq, t)"
  shows "\<exists>q' eq'. gettoken (l @ [10]) s' = (tok, q', eq', nl l t) \<and> (tok \<noteq> 0 \<longrightarrow> q' = q \<and> eq' = eq)" "t \<le> length l" "near l t (nl l t)"
proof -
  have s: "s \<le> length l" using assms(1) by (simp add: near_def)
  let ?q = "skip_white l s"
  have q: "?q \<le> length l" using skip_white_le [OF s] .
  have sk: "skip_white (l @ [10]) s' = nl l ?q" using skip_nl [OF assms(1)] .
  have e: "skip_white (l @ [10]) x = nl l (skip_white l x)" if "x \<le> length l" for x using skip_nl [OF nearI(1) [OF that]] .
  consider (none) "at l ?q = 0" | (some) "at l ?q \<noteq> 0" "?q < length l" using at_end by blast
  then have "(\<exists>q' eq'. gettoken (l @ [10]) s' = (tok, q', eq', nl l t) \<and> (tok \<noteq> 0 \<longrightarrow> q' = q \<and> eq' = eq)) \<and> t \<le> length l"
  proof cases
    case none
    then have "tok = 0" "t = skip_white l ?q" using assms(2) by (auto simp: gettoken_def Let_def)
    moreover have "skip_white (l @ [10]) (nl l ?q) = nl l (skip_white l ?q)" using skip_nl [OF nearI(2) [OF q]] .
    ultimately show ?thesis using none sk at_nl [OF q] skip_white_le [OF q] by (simp add: gettoken_def Let_def)
  next
    case some
    have n: "nl l ?q = ?q" using some(2) by (simp add: nl_def)
    have a: "at (l @ [10]) ?q = at l ?q" using at_newline(1) [OF some(2)] .
    have b: "at (l @ [10]) (?q + 1) = 62 \<longleftrightarrow> at l (?q + 1) = 62"
      using some(2) at_newline(1) [of "?q + 1" l] newline_white(2) [of l] by (cases "?q + 1 = length l") (auto simp del: cstring_nth(1))
    have d: "?q + 2 \<le> length l" if "at l (?q + 1) = 62" using at_end [of l "?q + 1"] that by simp
    have w: "word_end (l @ [10]) ?q = word_end l ?q" "word_end l ?q \<le> length l" using word_end_nl [OF q] word_end_le [OF q] by simp_all
    define R where "R k = (if at k ?q = 0 then (0, ?q) else if at k ?q \<in> {124, 40, 41, 59, 38, 60} then (at k ?q, ?q + 1)
      else if at k ?q = 62 then (if at k (?q + 1) = 62 then (43, ?q + 2) else (62, ?q + 1)) else (97, word_end k ?q))" for k
    have g: "gettoken k x = (fst (R k), ?q, snd (R k), skip_white k (snd (R k)))" if "skip_white k x = ?q" for k x
      unfolding gettoken_def Let_def that R_def by (simp only: split_def)
    have R: "R (l @ [10]) = R l" by (simp only: R_def a b w(1))
    have le: "snd (R l) \<le> length l" using some(2) d w(2) by (simp add: R_def)
    have "gettoken (l @ [10]) s' = (fst (R l), ?q, snd (R l), nl l (skip_white l (snd (R l))))"
      using g [of "l @ [10]" s'] sk n e [OF le] by (simp only: R)
    then have "gettoken (l @ [10]) s' = (tok, q, eq, nl l t) \<and> t \<le> length l"
      using g [OF refl] assms(2) skip_white_le [OF le] by simp
    then show ?thesis by blast
  qed
  then show "\<exists>q' eq'. gettoken (l @ [10]) s' = (tok, q', eq', nl l t) \<and> (tok \<noteq> 0 \<longrightarrow> q' = q \<and> eq' = eq)" "t \<le> length l" "near l t (nl l t)"
    using nearI(2) by blast+
qed

lemma parseredirs_nl: "near l s s' \<Longrightarrow> parseredirs (l @ [10]) c s' = nl_res l (parseredirs l c s) \<and> (\<forall>d t. parseredirs l c s = Return (d, t) \<longrightarrow> t \<le> length l)"
proof (induction l c s arbitrary: s' rule: parseredirs.induct)
  case (1 l c s)
  obtain s0 p where pk: "peek l s [60, 62] = (s0, p)" by fastforce
  obtain tok q1 e1 s1 where t: "gettoken l s0 = (tok, q1, e1, s1)" by (metis prod_cases4)
  obtain tok2 q e s2 where u: "gettoken l s1 = (tok2, q, e, s2)" by (metis prod_cases4)
  note pk' = peek_nl [OF 1(2) pk]
  note t' = gettoken_nl [OF pk'(3) t]
  note u' = gettoken_nl [OF t'(3) u]
  obtain a b where t2: "gettoken (l @ [10]) (nl l s0) = (tok, a, b, nl l s1)" using t'(1) by blast
  obtain a' b' where u2: "gettoken (l @ [10]) (nl l s1) = (tok2, a', b', nl l s2)" "tok2 \<noteq> 0 \<longrightarrow> a' = q \<and> b' = e" using u'(1) by blast
  show ?case
  proof (cases "p \<and> tok2 = 97")
    case True
    then have "parseredirs (l @ [10]) (redir_for tok c q e) (nl l s2) = nl_res l (parseredirs l (redir_for tok c q e) s2)
        \<and> (\<forall>d t. parseredirs l (redir_for tok c q e) s2 = Return (d, t) \<longrightarrow> t \<le> length l)"
      using 1(1) pk t u u'(3) by simp
    then show ?thesis using True pk pk'(1) t t2 u u2 by (simp add: parseredirs.simps [of l c s] parseredirs.simps [of "l @ [10]" c s'])
  next
    case False
    then show ?thesis using pk pk'(1,2) t t2 u u2 by (auto simp: parseredirs.simps [of l c s] parseredirs.simps [of "l @ [10]" c s'])
  qed
qed

lemma parseargs_nl: "near l s s' \<Longrightarrow> parseargs (l @ [10]) c argc s' = nl_res l (parseargs l c argc s) \<and> (\<forall>d t. parseargs l c argc s = Return (d, t) \<longrightarrow> t \<le> length l)"
proof (induction l c argc s arbitrary: s' rule: parseargs.induct)
  case (1 l c argc s)
  obtain s0 p where pk: "peek l s [124, 41, 38, 59] = (s0, p)" by fastforce
  obtain tok q e s1 where t: "gettoken l s0 = (tok, q, e, s1)" by (metis prod_cases4)
  note pk' = peek_nl [OF 1(2) pk]
  note t' = gettoken_nl [OF pk'(3) t]
  obtain a b where t2: "gettoken (l @ [10]) (nl l s0) = (tok, a, b, nl l s1)" "tok \<noteq> 0 \<longrightarrow> a = q \<and> b = e" using t'(1) by blast
  note eqs = parseargs.simps [of l c argc s] parseargs.simps [of "l @ [10]" c argc s']
  show ?case
  proof (cases "\<not> p \<and> tok = 97 \<and> \<not> argc + 1 \<ge> MAXARGS")
    case True
    note r = parseredirs_nl [OF t'(3), of "add_arg q e c"]
    show ?thesis
    proof (cases "parseredirs l (add_arg q e c) s1")
      case (Return x)
      obtain d s2 where x: "x = (d, s2)" by fastforce
      have nx: "near l s2 (nl l s2)" using r Return x nearI(2) by simp
      have "parseargs (l @ [10]) d (argc + 1) (nl l s2) = nl_res l (parseargs l d (argc + 1) s2)
          \<and> (\<forall>e t. parseargs l d (argc + 1) s2 = Return (e, t) \<longrightarrow> t \<le> length l)"
        by (rule 1(1) [OF pk [symmetric]]) (use t True Return x nx in simp_all)
      then show ?thesis using True pk pk'(1) t t2 r Return x by (simp add: eqs)
    qed (use True pk pk'(1) t t2 r in \<open>simp_all add: eqs\<close>)
  next
    case False
    then show ?thesis using pk pk'(1,2) t t2 t'(2) by (auto simp: eqs)
  qed
qed

lemma parseback_nl: "near l s s' \<Longrightarrow> parseback l c s = (d, t) \<Longrightarrow> parseback (l @ [10]) c s' = (d, nl l t) \<and> t \<le> length l"
proof (induction l c s arbitrary: s' rule: parseback.induct)
  case (1 l c s)
  obtain s0 p where pk: "peek l s [38] = (s0, p)" by fastforce
  obtain tok q e s1 where t: "gettoken l s0 = (tok, q, e, s1)" by (metis prod_cases4)
  note pk' = peek_nl [OF 1(2) pk]
  note t' = gettoken_nl [OF pk'(3) t]
  obtain a b where t2: "gettoken (l @ [10]) (nl l s0) = (tok, a, b, nl l s1)" using t'(1) by blast
  note eqs = parseback.simps [of l c s] parseback.simps [of "l @ [10]" c s']
  show ?case
  proof (cases p)
    case True
    then have "parseback l (BACK c) s1 = (d, t)" using 1(3) pk t by (simp add: eqs)
    then have "parseback (l @ [10]) (BACK c) (nl l s1) = (d, nl l t) \<and> t \<le> length l" using 1(1) pk t True t'(3) by simp
    then show ?thesis using True pk'(1) t2 by (simp add: eqs)
  next
    case False
    then have "d = c" "t = s0" using 1(3) pk by (simp_all add: eqs(1))
    then show ?thesis using False pk'(1,2) by (simp add: eqs(2))
  qed
qed

definition same_but_nl :: "byte list \<Rightarrow> (cmd \<times> nat) sh \<Rightarrow> (cmd \<times> nat) sh \<Rightarrow> bool" where
  "same_but_nl l r r' \<longleftrightarrow> r' = nl_res l r \<and> (\<forall>c t. r = Return (c, t) \<longrightarrow> t \<le> length l)"

lemma same_simps [simp]:
  "same_but_nl l (Return (c, t)) r' \<longleftrightarrow> r' = Return (c, nl l t) \<and> t \<le> length l" "same_but_nl l (Exits msg) r' \<longleftrightarrow> r' = Exits msg"
  "same_but_nl l Deep r' \<longleftrightarrow> r' = Deep"
  by (auto simp: same_but_nl_def)

lemma same_sbind:
  assumes "same_but_nl l r r'" and "\<And>c t. r = Return (c, t) \<Longrightarrow> near l t (nl l t) \<Longrightarrow> same_but_nl l (f (c, t)) (f' (c, nl l t))"
  shows "same_but_nl l (sbind r f) (sbind r' f')"
  using assms nearI(2) [of _ l] by (cases r) (auto simp: sbind_def)

lemma same_redirs: "near l s s' \<Longrightarrow> same_but_nl l (parseredirs l c s) (parseredirs (l @ [10]) c s')"
  and same_args: "near l s s' \<Longrightarrow> same_but_nl l (parseargs l c k s) (parseargs (l @ [10]) c k s')"
  using parseredirs_nl parseargs_nl by (simp_all add: same_but_nl_def)

lemma parse_nl:
  shows "near l s s' \<Longrightarrow> same_but_nl l (parseline n l s) (parseline n (l @ [10]) s')"
    and "near l s s' \<Longrightarrow> same_but_nl l (parsepipe n l s) (parsepipe n (l @ [10]) s')"
    and "near l s s' \<Longrightarrow> same_but_nl l (parseexec n l s) (parseexec n (l @ [10]) s')"
    and "near l s s' \<Longrightarrow> same_but_nl l (parseblock n l s) (parseblock n (l @ [10]) s')"
proof (induction n arbitrary: s s')
  case (Suc n)
  {
    case 1
    show ?case unfolding parseline.simps
    proof (rule same_sbind [OF Suc.IH(2) [OF 1]])
      fix c t
      assume nt: "near l t (nl l t)"
      obtain d t1 where a1: "parseback l c t = (d, t1)" by fastforce
      obtain t2 p where a2: "peek l t1 [59] = (t2, p)" by fastforce
      obtain tk q e t3 where a3: "gettoken l t2 = (tk, q, e, t3)" by (metis prod_cases4)
      have b1: "parseback (l @ [10]) c (nl l t) = (d, nl l t1)" "near l t1 (nl l t1)" using parseback_nl [OF nt a1] nearI(2) by simp_all
      note b2 = peek_nl [OF b1(2) a2]
      note b3 = gettoken_nl [OF b2(3) a3]
      then obtain a b where b4: "gettoken (l @ [10]) (nl l t2) = (tk, a, b, nl l t3)" by blast
      have "same_but_nl l (sbind (parseline n l t3) (\<lambda>(right, s). Return (LIST d right, s))) (sbind (parseline n (l @ [10]) (nl l t3)) (\<lambda>(right, s). Return (LIST d right, s)))"
        by (rule same_sbind [OF Suc.IH(1) [OF b3(3)]]) (simp add: near_def)
      then show "same_but_nl l (case (c, t) of (c, s) \<Rightarrow> case parseback l c s of (c, s) \<Rightarrow> case peek l s [59] of (s, p) \<Rightarrow>
           if p then case gettoken l s of (_, _, _, s) \<Rightarrow> sbind (parseline n l s) (\<lambda>(right, s). Return (LIST c right, s)) else Return (c, s))
         (case (c, nl l t) of (c, s) \<Rightarrow> case parseback (l @ [10]) c s of (c, s) \<Rightarrow> case peek (l @ [10]) s [59] of (s, p) \<Rightarrow>
           if p then case gettoken (l @ [10]) s of (_, _, _, s) \<Rightarrow> sbind (parseline n (l @ [10]) s) (\<lambda>(right, s). Return (LIST c right, s)) else Return (c, s))"
        using a1 a2 a3 b1(1) b2(1,2) b4 by simp
    qed
  next
    case 2
    show ?case unfolding parsepipe.simps
    proof (rule same_sbind [OF Suc.IH(3) [OF 2]])
      fix c t
      assume nt: "near l t (nl l t)"
      obtain t2 p where a2: "peek l t [124] = (t2, p)" by fastforce
      obtain tk q e t3 where a3: "gettoken l t2 = (tk, q, e, t3)" by (metis prod_cases4)
      note b2 = peek_nl [OF nt a2]
      note b3 = gettoken_nl [OF b2(3) a3]
      then obtain a b where b4: "gettoken (l @ [10]) (nl l t2) = (tk, a, b, nl l t3)" by blast
      have "same_but_nl l (sbind (parsepipe n l t3) (\<lambda>(right, s). Return (PIPE c right, s))) (sbind (parsepipe n (l @ [10]) (nl l t3)) (\<lambda>(right, s). Return (PIPE c right, s)))"
        by (rule same_sbind [OF Suc.IH(2) [OF b3(3)]]) (simp add: near_def)
      then show "same_but_nl l (case (c, t) of (c, s) \<Rightarrow> case peek l s [124] of (s, p) \<Rightarrow>
           if p then case gettoken l s of (_, _, _, s) \<Rightarrow> sbind (parsepipe n l s) (\<lambda>(right, s). Return (PIPE c right, s)) else Return (c, s))
         (case (c, nl l t) of (c, s) \<Rightarrow> case peek (l @ [10]) s [124] of (s, p) \<Rightarrow>
           if p then case gettoken (l @ [10]) s of (_, _, _, s) \<Rightarrow> sbind (parsepipe n (l @ [10]) s) (\<lambda>(right, s). Return (PIPE c right, s)) else Return (c, s))"
        using a2 a3 b2(1,2) b4 by simp
    qed
  next
    case 3
    obtain t p where a: "peek l s [40] = (t, p)" by fastforce
    note b = peek_nl [OF 3 a]
    have "same_but_nl l (sbind (parseredirs l (EXEC []) t) (\<lambda>(ret, s). parseargs l ret 0 s))
        (sbind (parseredirs (l @ [10]) (EXEC []) (nl l t)) (\<lambda>(ret, s). parseargs (l @ [10]) ret 0 s))"
      by (rule same_sbind [OF same_redirs [OF b(3)]]) (simp add: same_args)
    then show ?case using a b(1) Suc.IH(4) [OF b(3)] by simp
  next
    case 4
    obtain t p where a: "peek l s [40] = (t, p)" by fastforce
    note b = peek_nl [OF 4 a]
    obtain tk q e t1 where g: "gettoken l t = (tk, q, e, t1)" by (metis prod_cases4)
    note h = gettoken_nl [OF b(3) g]
    then obtain a' b' where h4: "gettoken (l @ [10]) (nl l t) = (tk, a', b', nl l t1)" by blast
    have "same_but_nl l (sbind (parseline n l t1) (\<lambda>(c, s). case peek l s [41] of (s, p) \<Rightarrow> if \<not> p then Exits ''syntax - missing )''
              else case gettoken l s of (_, _, _, s) \<Rightarrow> parseredirs l c s))
        (sbind (parseline n (l @ [10]) (nl l t1)) (\<lambda>(c, s). case peek (l @ [10]) s [41] of (s, p) \<Rightarrow> if \<not> p then Exits ''syntax - missing )''
              else case gettoken (l @ [10]) s of (_, _, _, s) \<Rightarrow> parseredirs (l @ [10]) c s))"
    proof (rule same_sbind [OF Suc.IH(1) [OF h(3)]])
      fix c u
      assume nu: "near l u (nl l u)"
      obtain u1 p1 where x: "peek l u [41] = (u1, p1)" by fastforce
      note y = peek_nl [OF nu x]
      obtain tk1 q1 e1 u2 where z: "gettoken l u1 = (tk1, q1, e1, u2)" by (metis prod_cases4)
      note w = gettoken_nl [OF y(3) z]
      then obtain a' b' where w4: "gettoken (l @ [10]) (nl l u1) = (tk1, a', b', nl l u2)" by blast
      show "same_but_nl l (case (c, u) of (c, s) \<Rightarrow> case peek l s [41] of (s, p) \<Rightarrow> if \<not> p then Exits ''syntax - missing )''
              else case gettoken l s of (_, _, _, s) \<Rightarrow> parseredirs l c s)
           (case (c, nl l u) of (c, s) \<Rightarrow> case peek (l @ [10]) s [41] of (s, p) \<Rightarrow> if \<not> p then Exits ''syntax - missing )''
              else case gettoken (l @ [10]) s of (_, _, _, s) \<Rightarrow> parseredirs (l @ [10]) c s)"
        using x y(1) z w4 same_redirs [OF w(3)] by simp
    qed
    then show ?case using a b(1) g h4 by simp
  }
qed simp_all

section \<open>The words in memory\<close>

primrec ends :: "cmd \<Rightarrow> nat set" where
  "ends (EXEC as) = snd ` set as"
| "ends (REDIR c file efile mode fd) = insert efile (ends c)"
| "ends (PIPE c d) = ends c \<union> ends d"
| "ends (LIST c d) = ends c \<union> ends d"
| "ends (BACK c) = ends c"

lemma nulterminate_eq: "nulterminate c b = (\<lambda>i. if i \<in> ends c then 0 else b i)"
proof (induction c arbitrary: b)
  case (EXEC as)
  have "fold (\<lambda>(q, eq) b. b(eq := 0)) as b = (\<lambda>i. if i \<in> snd ` set as then 0 else b i)"
    by (induction as arbitrary: b) (auto simp: fun_eq_iff)
  then show ?case by simp
qed (auto simp: fun_eq_iff)

lemma span_end: "span l x w \<Longrightarrow> \<not> wchar (at l (snd x))"
  unfolding span_def by blast

lemma denotes_end: "denotes (span l) c t \<Longrightarrow> e \<in> ends c \<Longrightarrow> \<not> wchar (at l e)"
proof (induction "span l" c t rule: denotes.induct)
  case (1 as ws)
  from 1(2) obtain i where "i < length as" "e = snd (as ! i)" by (auto simp: in_set_conv_nth)
  moreover have "list_all2 (span l) as ws" using 1(1) by simp
  ultimately show ?case using span_end [of l "as ! i" "ws ! i"] list_all2_nthD [of "span l" as ws i] by blast
next
  case (2 c q eq mode fd t d f)
  then show ?case using span_end [of l "(q, eq)" f] by auto
qed auto

lemma span_string:
  assumes "span l x w" and "snd x \<in> E" and "\<And>e. e \<in> E \<Longrightarrow> \<not> wchar (at l e)"
  shows "string_at (\<lambda>i. if i \<in> E then 0 else cstring (l @ [10]) i) x w"
proof -
  have w: "\<forall>c\<in>set w. wchar c" "take (length w) (drop (fst x) l) = w" "snd x = fst x + length w"
    using assms(1) by (simp_all add: span_def word_def)
  have "cstring (l @ [10]) (fst x + i) = w ! i \<and> fst x + i \<notin> E" if i: "i < length w" for i
  proof -
    have "length w = min (length w) (length l - fst x)" using arg_cong [OF w(2), of length] by simp
    then have len: "length w \<le> length l - fst x" by simp
    have "w ! i = take (length w) (drop (fst x) l) ! i" by (simp only: w(2))
    then have "w ! i = l ! (fst x + i)" using i len by simp
    moreover have lt: "fst x + i < length l" using len i by simp
    ultimately have a: "at l (fst x + i) = w ! i" by simp
    then have "wchar (at l (fst x + i))" using w(1) i by simp
    then have "fst x + i \<notin> E" using assms(3) by blast
    moreover have "cstring (l @ [10]) (fst x + i) = w ! i" using a at_newline(1) [OF lt] by simp
    ultimately show ?thesis by blast
  qed
  then show ?thesis using assms(2) w(3) by (simp add: string_at_def)
qed

lemma denotes_strings:
  assumes "\<And>e. e \<in> E \<Longrightarrow> \<not> wchar (at l e)"
  shows "denotes (span l) c t \<Longrightarrow> ends c \<subseteq> E \<Longrightarrow> denotes (string_at (\<lambda>i. if i \<in> E then 0 else cstring (l @ [10]) i)) c t"
proof (induction "span l" c t rule: denotes.induct)
  case (1 as ws)
  then show ?case using span_string [OF _ _ assms] by (auto simp: list_all2_conv_all_nth subset_iff)
next
  case (2 c q eq mode fd t d f)
  then show ?case using span_string [OF _ _ assms, of "(q, eq)" f] by auto
qed auto

lemma strlen_cstring: "0 \<notin> set l \<Longrightarrow> strlen (cstring l) = Some (length l)"
proof -
  assume z: "0 \<notin> set l"
  have "i \<le> length l \<Longrightarrow> strlen_from (cstring l) i = Some (length l)" for i
  proof (induction "length l - i" arbitrary: i)
    case 0
    then show ?case using strlen_from.simps [of "cstring l" i] by simp
  next
    case (Suc n)
    then have i: "i < length l" by simp
    then have "l ! i \<noteq> 0" using z nth_mem by metis
    moreover have "strlen_from (cstring l) (Suc i) = Some (length l)" using Suc.hyps(1) [of "Suc i"] Suc.hyps(2) i by simp
    ultimately show ?case using strlen_from.simps [of "cstring l" i] i by simp
  qed
  then show ?thesis by (simp add: strlen_def)
qed

lemma map_cstring: "map (cstring l) [0..<length l] = l"
  by (rule nth_equalityI) simp_all

lemma written_no_nul: "well_formed t \<Longrightarrow> 0 \<notin> set (written t k)"
proof (induction t arbitrary: k)
  case (Words ws)
  have "0 \<notin> set w" if "word w" for w using that by (auto simp: word_def wchar_def)
  then have "\<forall>w\<in>set ws. 0 \<notin> set w" using Words by simp
  then have "0 \<notin> set (spaced ws)" by (induction ws rule: spaced.induct) auto
  then show ?case by simp
next
  case (Redirect t d f)
  then show ?case by (cases d) (auto simp: word_def wchar_def)
qed (auto simp: parens_def)

lemma line_read_back:
  assumes "well_formed t"
  shows "\<exists>c b. parsecmd (cstring (written t 0 @ [10])) = Some (Return (c, b)) \<and> denotes (string_at b) c t"
proof -
  let ?l = "written t 0"
  let ?n = "length ?l + 1"
  have "drop 0 ?l = ?l @ []" "stops {41} []" by (simp_all add: stops_def)
  with all_read [OF assms] obtain k c where r: "parseline k ?l 0 = Return (c, length ?l)" "denotes (span ?l) c t"
    unfolding line_reads_def by fastforce
  let ?m = "4 * ?n + 4"
  have "fine 0 (parseline ?m ?l 0)" by (rule parse_total(1)) simp
  then have "parseline ?m ?l 0 = Return (c, length ?l)"
    using r(1) parse_upto(1) [of k ?m ?l 0] parse_upto(1) [of ?m k ?l 0] by (cases "k \<le> ?m") (auto simp: fine_def)
  moreover have "same_but_nl ?l (parseline ?m ?l 0) (parseline ?m (?l @ [10]) 0)" by (rule parse_nl(1)) (simp add: near_def)
  ultimately have p: "parseline ?m (?l @ [10]) 0 = Return (c, ?n)" by (simp add: nl_def)
  have s: "strlen (cstring (?l @ [10])) = Some ?n" using strlen_cstring [of "?l @ [10]"] written_no_nul [OF assms] by simp
  have m: "map (cstring (?l @ [10])) [0..<?n] = ?l @ [10]" using map_cstring [of "?l @ [10]"] by simp
  have "peek (?l @ [10]) ?n [] = (?n, False)" using peek_drop [of ?n "?l @ [10]" "[]"] by simp
  then have "parsecmd (cstring (?l @ [10])) = Some (Return (c, nulterminate c (cstring (?l @ [10]))))"
    using s m p by (simp add: parsecmd_def Let_def sbind_def del: parser_simps upt_Suc)
  moreover have "denotes (string_at (nulterminate c (cstring (?l @ [10])))) c t"
    unfolding nulterminate_eq using denotes_strings [OF _ r(2) subset_refl] denotes_end [OF r(2)] by blast
  ultimately show ?thesis by blast
qed

section \<open>What any line leads to\<close>

text \<open>The offsets of a command lie in the line, and \<open>argv\<close> has room for its null pointer.\<close>

primrec cmd_ok :: "nat \<Rightarrow> cmd \<Rightarrow> bool" where
  "cmd_ok n (EXEC as) \<longleftrightarrow> length as < MAXARGS \<and> (\<forall>x\<in>set as. fst x < snd x \<and> snd x \<le> n)"
| "cmd_ok n (REDIR c q eq mode fd) \<longleftrightarrow> cmd_ok n c \<and> q < eq \<and> eq \<le> n \<and> fd < 2"
| "cmd_ok n (PIPE c d) \<longleftrightarrow> cmd_ok n c \<and> cmd_ok n d"
| "cmd_ok n (LIST c d) \<longleftrightarrow> cmd_ok n c \<and> cmd_ok n d"
| "cmd_ok n (BACK c) \<longleftrightarrow> cmd_ok n c"

definition messages :: "string set" where
  "messages = {''syntax'', ''too many args'', ''missing file for redirection'', ''parseblock'', ''syntax - missing )''}"

definition res_ok :: "nat \<Rightarrow> (cmd \<times> nat) sh \<Rightarrow> bool" where
  "res_ok n r \<longleftrightarrow> (\<forall>c s. r = Return (c, s) \<longrightarrow> cmd_ok n c) \<and> (\<forall>msg. r = Exits msg \<longrightarrow> msg \<in> messages)"

lemma res_ok_simps [simp]:
  "res_ok n (Return (c, s)) \<longleftrightarrow> cmd_ok n c" "res_ok n (Exits msg) \<longleftrightarrow> msg \<in> messages" "res_ok n Deep"
  by (simp_all add: res_ok_def)

lemma res_ok_sbind: "res_ok n r \<Longrightarrow> (\<And>c s. cmd_ok n c \<Longrightarrow> res_ok n (f (c, s))) \<Longrightarrow> res_ok n (sbind r f)"
  by (cases r) (auto simp: sbind_def)

lemma gettoken_inside:
  assumes "gettoken l s = (97, q, eq, s')"
  shows "q < eq" "eq \<le> length l"
proof -
  show "q < eq" using gettoken_grows(2) [OF assms] by simp
  have q: "q < length l" using gettoken_grows(3) [OF assms] by simp
  show "eq \<le> length l"
  proof (cases "at l q = 97")
    case True
    then have "eq = word_end l q" using assms by (auto simp: gettoken_def Let_def split: if_splits)
    then show ?thesis using word_end_le q by simp
  next
    case False
    then have "eq = word_end l q" using assms by (auto simp: gettoken_def Let_def split: if_splits)
    then show ?thesis using word_end_le q by simp
  qed
qed

text \<open>How many words the \<open>EXEC\<close> command below the redirections has.\<close>

fun nargs :: "cmd \<Rightarrow> nat" where
  "nargs (EXEC as) = length as"
| "nargs (REDIR c q eq mode fd) = nargs c"
| "nargs c = 0"

lemma redir_for_ok: "cmd_ok n c \<Longrightarrow> q < eq \<Longrightarrow> eq \<le> n \<Longrightarrow> cmd_ok n (redir_for tok c q eq) \<and> nargs (redir_for tok c q eq) = nargs c"
  by (simp add: redir_for_def)

lemma add_arg_ok: "cmd_ok n c \<Longrightarrow> nargs c + 1 < MAXARGS \<Longrightarrow> q < eq \<Longrightarrow> eq \<le> n \<Longrightarrow> cmd_ok n (add_arg q eq c) \<and> nargs (add_arg q eq c) \<le> nargs c + 1"
  by (induction q eq c rule: add_arg.induct) auto

lemma parseredirs_ok:
  "cmd_ok (length l) c \<Longrightarrow> res_ok (length l) (parseredirs l c s) \<and> (\<forall>d t. parseredirs l c s = Return (d, t) \<longrightarrow> nargs d = nargs c)"
proof (induction l c s rule: parseredirs.induct)
  case (1 l c s)
  obtain s0 p where pk: "peek l s [60, 62] = (s0, p)" by fastforce
  obtain tok q1 e1 s1 where t: "gettoken l s0 = (tok, q1, e1, s1)" by (metis prod_cases4)
  obtain tok2 q e s2 where u: "gettoken l s1 = (tok2, q, e, s2)" by (metis prod_cases4)
  note eqs = parseredirs.simps [of l c s]
  show ?case
  proof (cases "p \<and> tok2 = 97")
    case True
    then have "q < e" "e \<le> length l" using gettoken_inside u by blast+
    from redir_for_ok [OF 1(2) this, of tok] have k: "cmd_ok (length l) (redir_for tok c q e)" "nargs (redir_for tok c q e) = nargs c" by simp_all
    have "res_ok (length l) (parseredirs l (redir_for tok c q e) s2)
        \<and> (\<forall>d t. parseredirs l (redir_for tok c q e) s2 = Return (d, t) \<longrightarrow> nargs d = nargs (redir_for tok c q e))"
      by (rule 1(1) [OF pk [symmetric] _ t [symmetric] refl refl u [symmetric]]) (use True k in simp_all)
    then show ?thesis using True pk t u k(2) by (simp add: eqs)
  next
    case False
    then show ?thesis using pk t u 1(2) by (auto simp: eqs messages_def)
  qed
qed

lemma parseargs_ok: "cmd_ok (length l) c \<Longrightarrow> nargs c \<le> argc \<Longrightarrow> res_ok (length l) (parseargs l c argc s)"
proof (induction l c argc s rule: parseargs.induct)
  case (1 l c argc s)
  obtain s0 p where pk: "peek l s [124, 41, 38, 59] = (s0, p)" by fastforce
  obtain tok q e s1 where t: "gettoken l s0 = (tok, q, e, s1)" by (metis prod_cases4)
  note eqs = parseargs.simps [of l c argc s]
  show ?case
  proof (cases "\<not> p \<and> tok = 97 \<and> \<not> argc + 1 \<ge> MAXARGS")
    case True
    then have "q < e" "e \<le> length l" using gettoken_inside t by blast+
    from add_arg_ok [OF 1(2) _ this] True 1(3) have a: "cmd_ok (length l) (add_arg q e c)" "nargs (add_arg q e c) \<le> argc + 1" by simp_all
    note r = parseredirs_ok [OF a(1), of s1]
    show ?thesis
    proof (cases "parseredirs l (add_arg q e c) s1")
      case (Return x)
      obtain d s2 where x: "x = (d, s2)" by fastforce
      have d: "cmd_ok (length l) d" "nargs d \<le> argc + 1" using r Return x a(2) by simp_all
      have "res_ok (length l) (parseargs l d (argc + 1) s2)"
        by (rule 1(1) [OF pk [symmetric]]) (use t True Return x d in simp_all)
      then show ?thesis using True pk t Return x by (simp add: eqs)
    qed (use True pk t r in \<open>simp_all add: eqs\<close>)
  next
    case False
    then show ?thesis using pk t 1(2) by (auto simp: eqs messages_def)
  qed
qed

lemma parseback_ok: "cmd_ok n c \<Longrightarrow> cmd_ok n (fst (parseback l c s))"
proof (induction l c s rule: parseback.induct)
  case (1 l c s)
  obtain s0 p where pk: "peek l s [38] = (s0, p)" by fastforce
  obtain tok q e s1 where t: "gettoken l s0 = (tok, q, e, s1)" by (metis prod_cases4)
  show ?case
  proof (cases p)
    case True
    have "cmd_ok n (fst (parseback l (BACK c) s1))" by (rule 1(1) [OF pk [symmetric]]) (use True t 1(2) in simp_all)
    then show ?thesis using True pk t by (simp add: parseback.simps [of l c s])
  next
    case False
    then show ?thesis using pk 1(2) by (simp add: parseback.simps [of l c s])
  qed
qed

lemma parse_ok:
  "res_ok (length l) (parseline n l s)" "res_ok (length l) (parsepipe n l s)" "res_ok (length l) (parseexec n l s)" "res_ok (length l) (parseblock n l s)"
proof (induction n arbitrary: s)
  case (Suc n)
  {
    case 1
    show ?case unfolding parseline.simps
    proof (rule res_ok_sbind [OF Suc.IH(2)])
      fix c t
      assume c: "cmd_ok (length l) c"
      obtain d t1 where a1: "parseback l c t = (d, t1)" by fastforce
      obtain t2 p where a2: "peek l t1 [59] = (t2, p)" by fastforce
      obtain tk q e t3 where a3: "gettoken l t2 = (tk, q, e, t3)" by (metis prod_cases4)
      have d: "cmd_ok (length l) d" using parseback_ok [OF c, of l t] a1 by simp
      have "res_ok (length l) (sbind (parseline n l t3) (\<lambda>(right, s). Return (LIST d right, s)))" using d by (intro res_ok_sbind [OF Suc.IH(1)]) simp
      then show "res_ok (length l) (case (c, t) of (c, s) \<Rightarrow> case parseback l c s of (c, s) \<Rightarrow> case peek l s [59] of (s, p) \<Rightarrow>
         if p then case gettoken l s of (_, _, _, s) \<Rightarrow> sbind (parseline n l s) (\<lambda>(right, s). Return (LIST c right, s)) else Return (c, s))"
        using a1 a2 a3 d by simp
    qed
  next
    case 2
    show ?case unfolding parsepipe.simps
    proof (rule res_ok_sbind [OF Suc.IH(3)])
      fix c t
      assume c: "cmd_ok (length l) c"
      obtain t2 p where a2: "peek l t [124] = (t2, p)" by fastforce
      obtain tk q e t3 where a3: "gettoken l t2 = (tk, q, e, t3)" by (metis prod_cases4)
      have "res_ok (length l) (sbind (parsepipe n l t3) (\<lambda>(right, s). Return (PIPE c right, s)))" using c by (intro res_ok_sbind [OF Suc.IH(2)]) simp
      then show "res_ok (length l) (case (c, t) of (c, s) \<Rightarrow> case peek l s [124] of (s, p) \<Rightarrow>
         if p then case gettoken l s of (_, _, _, s) \<Rightarrow> sbind (parsepipe n l s) (\<lambda>(right, s). Return (PIPE c right, s)) else Return (c, s))"
        using a2 a3 c by simp
    qed
  next
    case 3
    obtain t p where a: "peek l s [40] = (t, p)" by fastforce
    note r = parseredirs_ok [of l "EXEC []" t]
    have "res_ok (length l) (sbind (parseredirs l (EXEC []) t) (\<lambda>(ret, s). parseargs l ret 0 s))"
    proof (cases "parseredirs l (EXEC []) t")
      case (Return x)
      then show ?thesis using r parseargs_ok [of l "fst x" 0 "snd x"] by (cases x) (simp add: sbind_def MAXARGS_def)
    qed (use r in \<open>simp_all add: sbind_def MAXARGS_def\<close>)
    then show ?case using a Suc.IH(4) by simp
  next
    case 4
    obtain t p where a: "peek l s [40] = (t, p)" by fastforce
    obtain tk q e t1 where g: "gettoken l t = (tk, q, e, t1)" by (metis prod_cases4)
    have "res_ok (length l) (sbind (parseline n l t1) (\<lambda>(c, s). case peek l s [41] of (s, p) \<Rightarrow> if \<not> p then Exits ''syntax - missing )''
              else case gettoken l s of (_, _, _, s) \<Rightarrow> parseredirs l c s))"
    proof (rule res_ok_sbind [OF Suc.IH(1)])
      fix c u
      assume c: "cmd_ok (length l) c"
      obtain u1 p1 where x: "peek l u [41] = (u1, p1)" by fastforce
      obtain tk1 q1 e1 u2 where z: "gettoken l u1 = (tk1, q1, e1, u2)" by (metis prod_cases4)
      show "res_ok (length l) (case (c, u) of (c, s) \<Rightarrow> case peek l s [41] of (s, p) \<Rightarrow> if \<not> p then Exits ''syntax - missing )''
              else case gettoken l s of (_, _, _, s) \<Rightarrow> parseredirs l c s)"
        using x z parseredirs_ok [OF c, of u2] by (simp add: messages_def)
    qed
    then show ?case using a g by (simp add: messages_def)
  }
qed simp_all

lemma ends_inside: "cmd_ok n c \<Longrightarrow> e \<in> ends c \<Longrightarrow> e \<le> n"
  by (induction c) auto

lemma parsecmd_outcome:
  assumes "strlen b = Some n"
  shows "(\<exists>c b'. parsecmd b = Some (Return (c, b')) \<and> cmd_ok n c \<and> (\<forall>i>n. b' i = b i)) \<or> (\<exists>msg\<in>messages. parsecmd b = Some (Exits msg))"
proof -
  define l where "l = map b [0..<n]"
  have len: "length l = n" by (simp add: l_def)
  have f: "fine 0 (parseline (4 * n + 4) l 0)" by (rule parse_total(1)) (simp add: len)
  note k = parse_ok(1) [of l "4 * n + 4" 0]
  have eq: "parsecmd b = Some (sbind (parseline (4 * n + 4) l 0) (\<lambda>(c, s).
       case peek l s [] of (s, _) \<Rightarrow> if s \<noteq> n then Exits ''syntax'' else Return (c, nulterminate c b)))"
    using assms by (simp add: parsecmd_def Let_def l_def del: parser_simps upt_Suc)
  show ?thesis
  proof (cases "parseline (4 * n + 4) l 0")
    case (Return x)
    obtain c s where x: "x = (c, s)" by fastforce
    have c: "cmd_ok n c" using k Return x len by simp
    have "\<forall>i>n. nulterminate c b i = b i" using ends_inside [OF c] by (metis nulterminate_eq linorder_not_less)
    then show ?thesis using c eq Return x by (cases "peek l s []") (auto simp: sbind_def messages_def)
  next
    case (Exits msg)
    then show ?thesis using k eq by (simp add: sbind_def)
  qed (use f in simp)
qed

section \<open>The descriptors of the programs that are started\<close>

text \<open>
  The kernel's part: \<open>open\<close>, \<open>dup\<close> and \<open>pipe\<close> take the lowest free descriptors of the process, a child starts with
  those of its parent.  A pipe is named after the point of the program where it is made.
\<close>

datatype opened = Inherited nat | Opened nat u32 | Read_end "nat list" | Write_end "nat list"

definition lowest :: "(nat \<Rightarrow> opened option) \<Rightarrow> nat option" where
  "lowest fds = find (\<lambda>i. fds i = None) [0..<16]"

definition put_low :: "opened option \<Rightarrow> (nat \<Rightarrow> opened option) \<Rightarrow> nat \<Rightarrow> opened option" where
  "put_low x fds = (case lowest fds of Some i \<Rightarrow> fds(i := x) | None \<Rightarrow> fds)"

text \<open>The programs that a process and its children start, when every system call succeeds, with their arguments and descriptors.\<close>

primrec started :: "prog \<Rightarrow> nat list \<Rightarrow> (nat \<Rightarrow> opened option) \<Rightarrow> (nat list \<times> (nat \<Rightarrow> opened option)) list" where
  "started Sexit p fds = []"
| "started (Sexec q args k) p fds = [(args, fds)]"
| "started (Sclose fd k) p fds = started k p (fds(fd := None))"
| "started (Sopen q mode k k') p fds = started k p (put_low (Some (Opened q mode)) fds)"
| "started (Sfork child k k') p fds = started child (0 # p) fds @ started k (1 # p) fds"
| "started (Swait k) p fds = started k p fds"
| "started (Spipe k k') p fds =
     (case lowest fds of None \<Rightarrow> []
      | Some i \<Rightarrow> let fds = fds(i \<mapsto> Read_end p) in
          (case lowest fds of None \<Rightarrow> [] | Some j \<Rightarrow> started (k i j) (2 # p) (fds(j \<mapsto> Write_end p))))"
| "started (Sdup fd k) p fds = started k p (put_low (fds fd) fds)"
| "started (Sprint msg args k) p fds = started k p fds"

text \<open>What the shell promises: a pipeline connects output 1 to input 0, a redirection replaces one of them.\<close>

primrec plumbing :: "cmd \<Rightarrow> nat list \<Rightarrow> (nat \<Rightarrow> opened option) \<Rightarrow> (nat list \<times> (nat \<Rightarrow> opened option)) list" where
  "plumbing (EXEC as) p fds = (if as = [] then [] else [(map fst as, fds)])"
| "plumbing (REDIR c file efile mode fd) p fds = plumbing c p (fds(fd \<mapsto> Opened file mode))"
| "plumbing (PIPE c d) p fds = plumbing c (0 # 2 # p) (fds(1 \<mapsto> Write_end p)) @ plumbing d (0 # 1 # 2 # p) (fds(0 \<mapsto> Read_end p))"
| "plumbing (LIST c d) p fds = plumbing c (0 # p) fds @ plumbing d (1 # p) fds"
| "plumbing (BACK c) p fds = plumbing c (0 # p) fds"

text \<open>Descriptors 0, 1 and 2 are open and no others, as \<open>main\<close> sees to.\<close>

definition standard :: "(nat \<Rightarrow> opened option) \<Rightarrow> bool" where "standard fds \<longleftrightarrow> dom fds = {0, 1, 2}"

lemma standard_iff: "standard fds \<longleftrightarrow> (\<forall>i. fds i = None \<longleftrightarrow> 2 < i)"
proof -
  have e: "i \<in> {0, 1, 2} \<longleftrightarrow> i \<le> 2" for i :: nat unfolding insert_iff empty_iff by arith
  have "standard fds \<longleftrightarrow> (\<forall>i. i \<in> dom fds \<longleftrightarrow> i \<in> {0, 1, 2})" by (simp only: standard_def set_eq_iff)
  also have "\<dots> \<longleftrightarrow> (\<forall>i. fds i \<noteq> None \<longleftrightarrow> i \<le> 2)" by (simp only: domIff e)
  also have "\<dots> \<longleftrightarrow> (\<forall>i. fds i = None \<longleftrightarrow> 2 < i)"
  proof -
    have "(fds i \<noteq> None \<longleftrightarrow> i \<le> 2) \<longleftrightarrow> (fds i = None \<longleftrightarrow> 2 < i)" for i by (cases "fds i") auto
    then show ?thesis by (simp only:)
  qed
  finally show ?thesis .
qed

lemma find_least: "\<not> P i \<Longrightarrow> (\<forall>j<i. P j) \<Longrightarrow> i < n \<Longrightarrow> find (\<lambda>i. \<not> P i) [0..<n] = Some i"
  unfolding find_Some_iff by (intro exI [of _ i]) simp

lemma lowest_at: "fds i = None \<Longrightarrow> (\<And>j. j < i \<Longrightarrow> fds j \<noteq> None) \<Longrightarrow> i < 16 \<Longrightarrow> lowest fds = Some i"
  using find_least [of "\<lambda>i. fds i \<noteq> None" i 16] by (simp add: lowest_def)

lemma standard_upd: "standard fds \<Longrightarrow> i < 3 \<Longrightarrow> standard (fds(i \<mapsto> x))"
  by (auto simp: standard_iff)

lemma runcmd_plumbing: "cmd_ok n c \<Longrightarrow> standard fds \<Longrightarrow> started (runcmd c) p fds = plumbing c p fds"
proof (induction c arbitrary: p fds)
  case (EXEC as)
  then show ?case by (auto split: list.split)
next
  case (REDIR c f ef mode fd)
  have "lowest (fds(fd := None)) = Some fd" using REDIR.prems by (intro lowest_at) (auto simp: standard_iff)
  moreover have "started (runcmd c) p (fds(fd \<mapsto> Opened f mode)) = plumbing c p (fds(fd \<mapsto> Opened f mode))"
    using REDIR.prems by (intro REDIR.IH standard_upd) simp_all
  ultimately show ?case by (simp add: put_low_def)
next
  case (PIPE c d)
  have std: "fds i = None \<longleftrightarrow> 2 < i" for i using PIPE.prems(2) by (simp add: standard_iff)
  have l1: "lowest fds = Some 3" by (intro lowest_at) (auto simp: std)
  have l2: "lowest (fds(3 \<mapsto> Read_end p)) = Some 4"
  proof (rule lowest_at)
    fix j :: nat assume "j < 4"
    then have "j \<le> 2 \<or> j = 3" by linarith
    then show "(fds(3 \<mapsto> Read_end p)) j \<noteq> None" using std [of j] by auto
  qed (simp_all add: std)
  let ?f = "fds(3 \<mapsto> Read_end p, 4 \<mapsto> Write_end p)"
  have l3: "lowest (?f(1 := None)) = Some 1" "lowest (?f(0 := None)) = Some 0" by (intro lowest_at; auto simp: std)+
  have a: "(put_low (Some (Write_end p)) (?f(1 := None)))(3 := None, 4 := None) = fds(1 \<mapsto> Write_end p)"
    "(put_low (Some (Read_end p)) (?f(0 := None)))(3 := None, 4 := None) = fds(0 \<mapsto> Read_end p)"
    using std [of 3] std [of 4] unfolding put_low_def l3 by (auto simp: fun_eq_iff)
  have "started (runcmd (PIPE c d)) p fds = started (runcmd c) (0 # 2 # p) (fds(1 \<mapsto> Write_end p)) @ started (runcmd d) (0 # 1 # 2 # p) (fds(0 \<mapsto> Read_end p))"
    using a by (simp add: l1 l2 fork1_def)
  moreover have "started (runcmd c) (0 # 2 # p) (fds(1 \<mapsto> Write_end p)) = plumbing c (0 # 2 # p) (fds(1 \<mapsto> Write_end p))"
    "started (runcmd d) (0 # 1 # 2 # p) (fds(0 \<mapsto> Read_end p)) = plumbing d (0 # 1 # 2 # p) (fds(0 \<mapsto> Read_end p))"
    using PIPE.prems by (intro PIPE.IH standard_upd; simp)+
  ultimately show ?case by (simp only: plumbing.simps)
qed (simp_all add: fork1_def)

section \<open>The properties of the shell\<close>

text \<open>
  C6.  A command that is written in the shell's syntax and typed with its newline is read back: \<open>parsecmd\<close> returns
  the same tree of pipelines, lists, background commands and redirections, and in the line that it leaves in
  memory each argument and each file name is the word that was written, ended by a NUL.
\<close>

theorem parsecmd_reads_back:
  assumes "well_formed t"
  shows "\<exists>c b. parsecmd (cstring (written t 0 @ [10])) = Some (Return (c, b)) \<and> denotes (string_at b) c t"
  by (rule line_read_back [OF assms])

text \<open>The line is \<open>a<f|b>>g&;(a;b)>f\<close>.\<close>

definition script_example :: script where
  "script_example = Seq (Background (Piped (Redirect (Words [[97]]) From [102]) (Redirect (Words [[98], [99]]) Append [103])))
     (Redirect (Seq (Words [[97]]) (Words [[98]])) To [102])"

theorem parsecmd_reads_back_witness:
  "well_formed script_example \<and> written script_example 0 = [97, 60, 102, 124, 98, 32, 99, 62, 62, 103, 38, 59, 40, 97, 59, 98, 41, 62, 102]
    \<and> (\<exists>c b. parsecmd (cstring (written script_example 0 @ [10])) = Some (Return (c, b)) \<and> denotes (string_at b) c script_example)"
proof -
  have "well_formed script_example"
    by (simp add: script_example_def MAXARGS_def word_def wchar_def whitespace_def symbols_def)
  moreover have "written script_example 0 = [97, 60, 102, 124, 98, 32, 99, 62, 62, 103, 38, 59, 40, 97, 59, 98, 41, 62, 102]"
    by (simp add: script_example_def parens_def)
  ultimately show ?thesis using parsecmd_reads_back by blast
qed

text \<open>
  C7.  The parser returns for every line that ends with a NUL: either with a command whose words lie in the line and
  fit into \<open>argv\<close>, and then no byte behind the line has changed, or through one of the five messages.
\<close>

theorem parsecmd_returns:
  assumes "strlen b = Some n"
  shows "(\<exists>c b'. parsecmd b = Some (Return (c, b')) \<and> cmd_ok n c \<and> (\<forall>i>n. b' i = b i)) \<or> (\<exists>msg\<in>messages. parsecmd b = Some (Exits msg))"
  by (rule parsecmd_outcome [OF assms])

theorem parsecmd_returns_witness:
  "(\<exists>c b'. parsecmd (cstring [97, 62]) = Some (Return (c, b')) \<and> cmd_ok 2 c \<and> (\<forall>i>2. b' i = cstring [97, 62] i))
    \<or> (\<exists>msg\<in>messages. parsecmd (cstring [97, 62]) = Some (Exits msg))"
proof -
  have "strlen (cstring [97, 62]) = Some 2" using strlen_cstring [of "[97, 62]"] by simp
  then show ?thesis by (rule parsecmd_returns)
qed

text \<open>
  C8.  However the commands of a line are nested, every program that is started has exactly the descriptors 0, 1 and
  2, and they are what the line says: no process keeps an end of a pipe that it does not use, so a reader
  sees the end of its input when the writers are done.
\<close>

theorem shell_plumbing:
  assumes "cmd_ok n c" and "standard fds"
  shows "started (runcmd c) p fds = plumbing c p fds \<and> (\<forall>x\<in>set (started (runcmd c) p fds). standard (snd x))"
proof -
  have "\<forall>x\<in>set (plumbing c p fds). standard (snd x)"
    using assms
  proof (induction c arbitrary: p fds)
    case (REDIR c f ef mode fd)
    have "\<forall>x\<in>set (plumbing c p (fds(fd \<mapsto> Opened f mode))). standard (snd x)"
      using REDIR.prems by (intro REDIR.IH standard_upd) simp_all
    then show ?case by simp
  next
    case (PIPE c d)
    have "\<forall>x\<in>set (plumbing c (0 # 2 # p) (fds(1 \<mapsto> Write_end p))). standard (snd x)"
      "\<forall>x\<in>set (plumbing d (0 # 1 # 2 # p) (fds(0 \<mapsto> Read_end p))). standard (snd x)"
      using PIPE.prems by (intro PIPE.IH standard_upd; simp)+
    then show ?case by auto
  next
    case (LIST c d)
    then show ?case by (simp add: ball_Un)
  qed auto
  then show ?thesis using runcmd_plumbing [OF assms] by simp
qed

theorem shell_plumbing_witness:
  "standard (map_of [(0, Inherited 0), (1, Inherited 1), (2, Inherited 2)])
    \<and> started (runcmd (PIPE (EXEC [(0, 1)]) (REDIR (EXEC [(2, 3)]) 4 5 O_WRONLY 1))) [] (map_of [(0, Inherited 0), (1, Inherited 1), (2, Inherited 2)])
      = [([0], map_of [(0, Inherited 0), (1, Write_end []), (2, Inherited 2)]), ([2], map_of [(0, Read_end []), (1, Opened 4 O_WRONLY), (2, Inherited 2)])]"
proof -
  let ?f = "map_of [(0, Inherited 0), (1, Inherited 1), (2, Inherited 2)]"
  have s: "standard ?f" by (auto simp: standard_iff)
  have "cmd_ok 5 (PIPE (EXEC [(0, 1)]) (REDIR (EXEC [(2, 3)]) 4 5 O_WRONLY 1))" by (simp add: MAXARGS_def)
  from shell_plumbing [OF this s, of "[]"] s show ?thesis by (auto simp: fun_eq_iff)
qed

end
