(* ===== verification/Console.thy ===== *)
theory Console
  imports File Cstring
begin

text \<open>
  \<open>console.c\<close>, \<open>uart.c\<close> and \<open>kbd.c\<close> (the same files in the three projects): output to the screen and the serial
  line, the keyboard, and the input buffer with its line editing.

  The devices are modelled as far as the code relies on them: the cursor registers 14 and 15 of the CRT
  controller keep what is written to them (\<open>crt_hi\<close>, \<open>crt_lo\<close>), the screen memory \<open>crt\<close> is an array of 16-bit cells,
  and a byte sent to the serial port is appended to \<open>uart_out\<close>.  \<open>getc\<close> is given by the list of the characters
  that it returns before it returns a negative number.  \<open>cons.lock\<close> is held through every function, which is
  therefore one step; \<open>procdump\<close> is counted in \<open>procdumps\<close>.
\<close>

section \<open>The state\<close>

definition INPUT_BUF :: nat where "INPUT_BUF = 128"

record cons = fproc +
  in_buf :: "nat \<Rightarrow> byte"
  in_r :: u32
  in_w :: u32
  in_e :: u32
  crt :: "nat \<Rightarrow> u16"
  crt_hi :: byte
  crt_lo :: byte
  uart :: bool
  uart_out :: "byte list"
  panicked :: bool
  procdumps :: nat

definition BACKSPACE :: int where "BACKSPACE = 0x100"

section \<open>Output\<close>

definition uartputc :: "int \<Rightarrow> 'a cons_scheme \<Rightarrow> 'a cons_scheme" where
  "uartputc c s = (if uart s then s\<lparr>uart_out := uart_out s @ [word_of_int c]\<rparr> else s)"

text \<open>Moving the screen up by a line: \<open>memmove(crt, crt+80, 23*80 cells)\<close>, and clearing from \<open>pos\<close> to the end of line 24.\<close>

definition scroll :: "(nat \<Rightarrow> u16) \<Rightarrow> nat \<Rightarrow> (nat \<Rightarrow> u16)" where
  "scroll m pos = (let m = (\<lambda>i. if i < 23 * 80 then m (i + 80) else m i) in (\<lambda>i. if pos \<le> i \<and> i < 24 * 80 then 0 else m i))"

text \<open>Where the cursor goes, and what is written on the screen.\<close>

definition cga_char :: "int \<Rightarrow> int \<Rightarrow> (nat \<Rightarrow> u16) \<Rightarrow> int \<times> (nat \<Rightarrow> u16)" where
  "cga_char c pos m =
     (if c = 10 then (pos + (80 - pos mod 80), m)
      else if c = BACKSPACE then (if pos > 0 then pos - 1 else pos, m)
      else (pos + 1, m(nat pos := (word_of_int c AND 0xFF) OR 0x0700)))"

definition cgaputc :: "int \<Rightarrow> 'a cons_scheme \<Rightarrow> 'a cons_scheme kres" where
  "cgaputc c s =
     (case cga_char c (uint (crt_hi s) * 256 + uint (crt_lo s)) (crt s) of (pos, m) \<Rightarrow>
        if pos < 0 \<or> pos > 25 * 80 then Panic ''pos under/overflow''
        else case (if pos div 80 \<ge> 24 then (pos - 80, scroll m (nat (pos - 80))) else (pos, m)) of (pos, m) \<Rightarrow>
          Ok (s\<lparr>crt := m(nat pos := 0x20 OR 0x0700), crt_hi := word_of_int (pos div 256), crt_lo := word_of_int pos\<rparr>))"

definition consputc :: "int \<Rightarrow> 'a cons_scheme \<Rightarrow> 'a cons_scheme kres" where
  "consputc c s =
     (if panicked s then Spin
      else cgaputc c (if c = BACKSPACE then uartputc 8 (uartputc 32 (uartputc 8 s)) else uartputc c s))"

definition consolewrite :: "nat \<Rightarrow> byte list \<Rightarrow> 'a cons_scheme \<Rightarrow> (int \<times> 'a cons_scheme) kres" where
  "consolewrite ip src s =
     kbind (iunlock ip s) (\<lambda>s.
     kbind (kfold (\<lambda>c. consputc (uint c)) src s) (\<lambda>s.
     kbind (ilock ip s) (\<lambda>s. Ok (int (length src), s))))"

text \<open>
  \<open>cprintf\<close>: \<open>ap\<close> is the stack from the first argument on, \<open>str a\<close> the characters of the string at the address \<open>a\<close>; the
  flag says that the last character was a percent sign.  The digits are those of \<open>printint\<close> in \<open>console.c\<close>, with
  small letters.
\<close>

definition cdigit :: "u32 \<Rightarrow> byte" where
  "cdigit d = (if d < 10 then 48 + ucast d else 87 + ucast d)"

function cdigits :: "u32 \<Rightarrow> u32 \<Rightarrow> byte list" where
  "cdigits base x = (if x div base \<noteq> 0 \<and> 1 < base then cdigit (x mod base) # cdigits base (x div base) else [cdigit (x mod base)])"
  by pat_completeness auto
termination
proof (relation "measure (\<lambda>(b, x). unat x)", simp_all)
  fix b x :: u32 assume "x div b \<noteq> 0 \<and> 1 < b"
  then have "x div b < x" by (intro word_div_less) auto
  then show "unat (x div b) < unat x" by (simp add: word_less_nat_alt)
qed

declare cdigits.simps [simp del]

definition cprintint :: "u32 \<Rightarrow> u32 \<Rightarrow> bool \<Rightarrow> byte list" where
  "cprintint xx base sg =
     (let neg = (sg \<and> xx <s 0); x = (if neg then - xx else xx); buf = cdigits base x
      in rev (if neg then buf @ [45] else buf))"

fun cprintf_chars :: "(u32 \<Rightarrow> byte list) \<Rightarrow> (nat \<Rightarrow> u32) \<Rightarrow> byte list \<Rightarrow> bool \<Rightarrow> int list" where
  "cprintf_chars str ap [] st = []"
| "cprintf_chars str ap (c # fmt) False =
     (if c = 37 then cprintf_chars str ap fmt True else uint c # cprintf_chars str ap fmt False)"
| "cprintf_chars str ap (c # fmt) True =
     (if c = 100 then map uint (cprintint (ap 0) 10 True) @ cprintf_chars str (\<lambda>i. ap (Suc i)) fmt False
      else if c = 120 \<or> c = 112 then map uint (cprintint (ap 0) 16 False) @ cprintf_chars str (\<lambda>i. ap (Suc i)) fmt False
      else if c = 115 then map sint (if ap 0 = 0 then [40, 110, 117, 108, 108, 41] else str (ap 0)) @ cprintf_chars str (\<lambda>i. ap (Suc i)) fmt False
      else if c = 37 then 37 # cprintf_chars str ap fmt False
      else 37 # uint c # cprintf_chars str ap fmt False)"

definition cprintf :: "(u32 \<Rightarrow> byte list) \<Rightarrow> byte list \<Rightarrow> (nat \<Rightarrow> u32) \<Rightarrow> 'a cons_scheme \<Rightarrow> 'a cons_scheme kres" where
  "cprintf str fmt ap s = kfold consputc (cprintf_chars str ap fmt False) s"

section \<open>Input\<close>

text \<open>The control characters are \<open>C('D')\<close> = 4, \<open>C('H')\<close> = 8, \<open>C('P')\<close> = 16 and \<open>C('U')\<close> = 21.\<close>

definition in_at :: "'a cons_scheme \<Rightarrow> u32 \<Rightarrow> byte" where
  "in_at s i = in_buf s (unat i mod INPUT_BUF)"

lemma cgaputc_form: "cgaputc c s = Ok t \<Longrightarrow> \<exists>m h l. t = s\<lparr>crt := m, crt_hi := h, crt_lo := l\<rparr>"
  by (auto simp: cgaputc_def split: prod.splits if_splits)

lemma uartputc_form: "\<exists>u. uartputc c s = s\<lparr>uart_out := u\<rparr>"
proof (cases "uart s")
  case False
  then have "uartputc c s = s\<lparr>uart_out := uart_out s\<rparr>" by (simp add: uartputc_def)
  then show ?thesis by blast
qed (auto simp: uartputc_def)

lemma consputc_form:
  assumes "consputc c s = Ok t"
  shows "\<exists>m h l u. t = s\<lparr>uart_out := u, crt := m, crt_hi := h, crt_lo := l\<rparr>"
proof -
  obtain u1 where u1: "uartputc 8 s = s\<lparr>uart_out := u1\<rparr>" using uartputc_form by blast
  obtain u2 where u2: "uartputc 32 (s\<lparr>uart_out := u1\<rparr>) = s\<lparr>uart_out := u2\<rparr>" using uartputc_form [of 32 "s\<lparr>uart_out := u1\<rparr>"] by auto
  obtain u3 where u3: "uartputc 8 (s\<lparr>uart_out := u2\<rparr>) = s\<lparr>uart_out := u3\<rparr>" using uartputc_form [of 8 "s\<lparr>uart_out := u2\<rparr>"] by auto
  obtain u4 where u4: "uartputc c s = s\<lparr>uart_out := u4\<rparr>" using uartputc_form by blast
  have "\<exists>u. cgaputc c (s\<lparr>uart_out := u\<rparr>) = Ok t"
    using assms by (auto simp: consputc_def u1 u2 u3 u4 split: if_splits)
  then obtain u where "cgaputc c (s\<lparr>uart_out := u\<rparr>) = Ok t" by blast
  from cgaputc_form [OF this] show ?thesis by blast
qed

lemma consputc_input:
  assumes "consputc c s = Ok t"
  shows "in_buf t = in_buf s" "in_r t = in_r s" "in_w t = in_w s" "in_e t = in_e s" "wakes t = wakes s" "procdumps t = procdumps s"
    "panicked t = panicked s" "killed t = killed s"
  using consputc_form [OF assms] by auto

function kill_line :: "'a cons_scheme \<Rightarrow> 'a cons_scheme kres" where
  "kill_line s =
     (if in_e s \<noteq> in_w s \<and> in_at s (in_e s - 1) \<noteq> 10
      then kbind (consputc BACKSPACE (s\<lparr>in_e := in_e s - 1\<rparr>)) kill_line else Ok s)"
  by pat_completeness auto
termination
proof (relation "measure (\<lambda>s. unat (in_e s - in_w s))")
  fix s t :: "'a cons_scheme"
  assume a: "in_e s \<noteq> in_w s \<and> in_at s (in_e s - 1) \<noteq> 10" and t: "consputc BACKSPACE (s\<lparr>in_e := in_e s - 1\<rparr>) = Ok t"
  define d where "d = in_e s - in_w s"
  have "d \<noteq> 0" using a by (simp add: d_def)
  then have "unat (d - 1) < unat d" by (metis measure_unat)
  moreover have "in_e t - in_w t = d - 1" using consputc_input [OF t] by (simp add: d_def)
  ultimately show "(t, s) \<in> measure (\<lambda>s. unat (in_e s - in_w s))" by (simp add: d_def)
qed simp

declare kill_line.simps [simp del]

definition consoleintr_char :: "int \<Rightarrow> 'a cons_scheme \<Rightarrow> 'a cons_scheme kres" where
  "consoleintr_char c s =
     (if c = 21 then kill_line s
      else if c = 8 \<or> c = 127 then
        (if in_e s \<noteq> in_w s then consputc BACKSPACE (s\<lparr>in_e := in_e s - 1\<rparr>) else Ok s)
      else if c \<noteq> 0 \<and> in_e s - in_r s < of_nat INPUT_BUF then
        let c = (if c = 13 then 10 else c);
            s = s\<lparr>in_buf := (in_buf s)(unat (in_e s) mod INPUT_BUF := word_of_int c), in_e := in_e s + 1\<rparr>
        in kbind (consputc c s) (\<lambda>s.
           Ok (if c = 10 \<or> c = 4 \<or> in_e s = in_r s + of_nat INPUT_BUF then wake ChConsole (s\<lparr>in_w := in_e s\<rparr>) else s))
      else Ok s)"

fun consoleintr_loop :: "int list \<Rightarrow> bool \<Rightarrow> 'a cons_scheme \<Rightarrow> (bool \<times> 'a cons_scheme) kres" where
  "consoleintr_loop [] doprocdump s = Ok (doprocdump, s)"
| "consoleintr_loop (c # cs) doprocdump s =
     (if c = 16 then consoleintr_loop cs True s
      else kbind (consoleintr_char c s) (consoleintr_loop cs doprocdump))"

definition consoleintr :: "int list \<Rightarrow> 'a cons_scheme \<Rightarrow> 'a cons_scheme kres" where
  "consoleintr cs s =
     kbind (consoleintr_loop cs False s) (\<lambda>(d, s). Ok (if d then s\<lparr>procdumps := procdumps s + 1\<rparr> else s))"

text \<open>
  \<open>consoleread\<close> may sleep with some bytes already copied; \<open>Waits got\<close> says that it does, and it goes on with
  \<open>consoleread_loop\<close> for the remaining count.
\<close>

datatype cread = Got "byte list" | Killed | Waits "byte list"

fun consoleread_loop :: "nat \<Rightarrow> byte list \<Rightarrow> 'a cons_scheme \<Rightarrow> cread \<times> 'a cons_scheme" where
  "consoleread_loop 0 got s = (Got got, s)"
| "consoleread_loop (Suc n) got s =
     (if in_r s = in_w s then (if killed s then Killed else Waits got, s)
      else let c = in_at s (in_r s); s = s\<lparr>in_r := in_r s + 1\<rparr> in
        if c = 4 then (Got got, if got \<noteq> [] then s\<lparr>in_r := in_r s - 1\<rparr> else s)
        else if c = 10 then (Got (got @ [c]), s)
        else consoleread_loop n (got @ [c]) s)"

definition consoleread_end :: "nat \<Rightarrow> cread \<times> 'a cons_scheme \<Rightarrow> (cread \<times> 'a cons_scheme) kres" where
  "consoleread_end ip = (\<lambda>(r, s). case r of Waits got \<Rightarrow> Ok (Waits got, s) | _ \<Rightarrow> kbind (ilock ip s) (\<lambda>s. Ok (r, s)))"

definition consoleread :: "nat \<Rightarrow> int \<Rightarrow> 'a cons_scheme \<Rightarrow> (cread \<times> 'a cons_scheme) kres" where
  "consoleread ip n s = kbind (iunlock ip s) (\<lambda>s. consoleread_end ip (consoleread_loop (nat n) [] s))"

section \<open>The keyboard\<close>

text \<open>
  The bits of \<open>shift\<close>: \<open>SHIFT\<close> 1, \<open>CTL\<close> 2, \<open>ALT\<close> 4, \<open>CAPSLOCK\<close> 8, \<open>NUMLOCK\<close> 16, \<open>SCROLLLOCK\<close> 32, \<open>E0ESC\<close> 64.  The tables of
  \<open>kbd.h\<close> are lists for the scan codes from 0 on, and pairs for the others; what they leave out is \<open>NO\<close>, 0.
\<close>

definition shiftcode :: "u32 \<Rightarrow> u32" where
  "shiftcode d = (if d = 0x1D \<or> d = 0x9D then 2 else if d = 0x2A \<or> d = 0x36 then 1 else if d = 0x38 \<or> d = 0xB8 then 4 else 0)"

definition togglecode :: "u32 \<Rightarrow> u32" where
  "togglecode d = (if d = 0x3A then 8 else if d = 0x45 then 16 else if d = 0x46 then 32 else 0)"

definition special_keys :: "(nat \<times> u32) list" where
  "special_keys = [(0xC8, 0xE2), (0xD0, 0xE3), (0xC9, 0xE6), (0xD1, 0xE7), (0xCB, 0xE4), (0xCD, 0xE5), (0x97, 0xE0), (0xCF, 0xE1),
     (0xD2, 0xE8), (0xD3, 0xE9)]"

definition normal_keys :: "u32 list" where
  "normal_keys = [0, 27, 49, 50, 51, 52, 53, 54, 55, 56, 57, 48, 45, 61, 8, 9,
     113, 119, 101, 114, 116, 121, 117, 105, 111, 112, 91, 93, 10, 0, 97, 115,
     100, 102, 103, 104, 106, 107, 108, 59, 39, 96, 0, 92, 122, 120, 99, 118,
     98, 110, 109, 44, 46, 47, 0, 42, 0, 32, 0, 0, 0, 0, 0, 0,
     0, 0, 0, 0, 0, 0, 0, 55, 56, 57, 45, 52, 53, 54, 43, 49, 50, 51, 48, 46, 0, 0, 0, 0]"

definition shift_keys :: "u32 list" where
  "shift_keys = [0, 27, 33, 64, 35, 36, 37, 94, 38, 42, 40, 41, 95, 43, 8, 9,
     81, 87, 69, 82, 84, 89, 85, 73, 79, 80, 123, 125, 10, 0, 65, 83,
     68, 70, 71, 72, 74, 75, 76, 58, 34, 126, 0, 124, 90, 88, 67, 86,
     66, 78, 77, 60, 62, 63, 0, 42, 0, 32, 0, 0, 0, 0, 0, 0,
     0, 0, 0, 0, 0, 0, 0, 55, 56, 57, 45, 52, 53, 54, 43, 49, 50, 51, 48, 46, 0, 0, 0, 0]"

text \<open>\<open>C(x)\<close> is \<open>x - '@'\<close>; \<open>C('/')\<close> is negative and becomes the byte 239.\<close>

definition ctl_keys :: "u32 list" where
  "ctl_keys = [0, 0, 0, 0, 0, 0, 0, 0, 0, 0, 0, 0, 0, 0, 0, 0,
     17, 23, 5, 18, 20, 25, 21, 9, 15, 16, 0, 0, 13, 0, 1, 19,
     4, 6, 7, 8, 10, 11, 12, 0, 0, 0, 0, 28, 26, 24, 3, 22,
     2, 14, 13, 0, 0, 239, 0, 0]"

definition key :: "u32 list \<Rightarrow> (nat \<times> u32) list \<Rightarrow> u32 \<Rightarrow> u32" where
  "key xs ps d = (if unat d < length xs then xs ! unat d else case map_of (ps @ special_keys) (unat d) of Some c \<Rightarrow> c | None \<Rightarrow> 0)"

definition charcode :: "u32 \<Rightarrow> u32 \<Rightarrow> u32" where
  "charcode k d =
     (if k = 0 then key normal_keys [(0x9C, 10), (0xB5, 47)] d
      else if k = 1 then key shift_keys [(0x9C, 10), (0xB5, 47)] d
      else key ctl_keys [(0x9C, 13), (0xB5, 239)] d)"

text \<open>\<open>kbdgetc\<close> for the byte in the keyboard's buffer, \<open>None\<close> if it is empty: the result and the new value of \<open>shift\<close>.\<close>

definition kbdgetc :: "byte option \<Rightarrow> u32 \<Rightarrow> int \<times> u32" where
  "kbdgetc inp shift = (case inp of None \<Rightarrow> (-1, shift) | Some b \<Rightarrow>
     let data = ucast b :: u32 in
     if data = 0xE0 then (0, shift OR 64)
     else if data AND 0x80 \<noteq> 0 then
       let data = (if shift AND 64 \<noteq> 0 then data else data AND 0x7F) in (0, shift AND NOT (shiftcode data OR 64))
     else
       let (data, shift) = (if shift AND 64 \<noteq> 0 then (data OR 0x80, shift AND NOT 64) else (data, shift));
           shift = shift OR shiftcode data;
           shift = shift XOR togglecode data;
           c = charcode (shift AND 3) data
       in (uint (if shift AND 8 \<noteq> 0
                 then if 97 \<le> c \<and> c \<le> 122 then c - 32 else if 65 \<le> c \<and> c \<le> 90 then c + 32 else c
                 else c), shift))"

text \<open>\<open>kbdintr\<close> handles what the keyboard holds: \<open>kbdgetc\<close> until it returns -1.\<close>

fun kbd_codes :: "byte list \<Rightarrow> u32 \<Rightarrow> int list \<times> u32" where
  "kbd_codes [] shift = ([], snd (kbdgetc None shift))"
| "kbd_codes (b # bs) shift = (case kbdgetc (Some b) shift of (c, shift) \<Rightarrow> case kbd_codes bs shift of (cs, shift) \<Rightarrow> (c # cs, shift))"

definition kbdintr :: "byte list \<Rightarrow> u32 \<Rightarrow> 'a cons_scheme \<Rightarrow> (u32 \<times> 'a cons_scheme) kres" where
  "kbdintr bs shift s = (case kbd_codes bs shift of (cs, shift) \<Rightarrow> kbind (consoleintr cs s) (\<lambda>s. Ok (shift, s)))"

end
