(* ===== verification/Console_Props.thy ===== *)
theory Console_Props
  imports Console Fs_Alloc
begin

text \<open>
  The console: output never leaves the screen, and the input buffer behaves as a queue of finished lines and a
  line that is being edited.
\<close>

section \<open>The screen\<close>

definition cursor :: "'a cons_scheme \<Rightarrow> int" where "cursor s = uint (crt_hi s) * 256 + uint (crt_lo s)"

definition screen_ok :: "'a cons_scheme \<Rightarrow> bool" where "screen_ok s \<longleftrightarrow> cursor s < 24 * 80 \<and> \<not> panicked s"

lemma cursor_nonneg: "0 \<le> cursor s"
  by (simp add: cursor_def)

lemma cursor_set: "0 \<le> pos \<Longrightarrow> pos < 65536 \<Longrightarrow> uint (word_of_int (pos div 256) :: byte) * 256 + uint (word_of_int pos :: byte) = pos"
proof -
  assume "0 \<le> pos" "pos < 65536"
  then have "pos div 256 mod 256 = pos div 256" by (intro mod_pos_pos_trivial) auto
  then show ?thesis by (simp add: uint_word_of_int)
qed

lemma cga_char_range: "0 \<le> pos \<Longrightarrow> pos < 24 * 80 \<Longrightarrow> cga_char c pos m = (p, m') \<Longrightarrow> 0 \<le> p \<and> p \<le> 24 * 80"
  by (auto simp: cga_char_def split: if_splits) presburger+

lemma cgaputc_ok:
  assumes "screen_ok s"
  shows "\<exists>t. cgaputc c s = Ok t \<and> screen_ok t \<and> (\<forall>i\<ge>24 * 80. crt t i = crt s i)"
proof -
  obtain p m where pm: "cga_char c (cursor s) (crt s) = (p, m)" by fastforce
  have p: "0 \<le> p" "p \<le> 24 * 80" using cga_char_range [OF cursor_nonneg _ pm] assms by (simp_all add: screen_ok_def)
  have "nat (cursor s) < 24 * 80" using assms cursor_nonneg [of s] by (simp add: screen_ok_def nat_less_iff)
  then have m: "\<forall>i\<ge>24 * 80. m i = crt s i" using pm by (auto simp: cga_char_def split: if_splits)
  define q where "q = (if p div 80 \<ge> 24 then p - 80 else p)"
  define n where "n = (if p div 80 \<ge> 24 then scroll m (nat (p - 80)) else m)"
  have q: "0 \<le> q" "q < 24 * 80" using p by (auto simp: q_def)
  have n: "\<forall>i\<ge>24 * 80. n i = crt s i" using m by (simp add: n_def scroll_def Let_def)
  let ?t = "s\<lparr>crt := n(nat q := 0x20 OR 0x0700), crt_hi := word_of_int (q div 256), crt_lo := word_of_int q\<rparr>"
  have "cgaputc c s = Ok ?t" using pm p by (simp add: cgaputc_def cursor_def q_def n_def)
  moreover have "cursor ?t = q" using cursor_set [of q] q by (simp add: cursor_def)
  ultimately show ?thesis using q n assms by (auto simp: screen_ok_def nat_less_iff)
qed

lemma uartputc_screen: "screen_ok s \<Longrightarrow> screen_ok (uartputc c s)" "crt (uartputc c s) = crt s"
  by (simp_all add: uartputc_def screen_ok_def cursor_def)

lemma consputc_ok:
  assumes "screen_ok s"
  shows "\<exists>t. consputc c s = Ok t \<and> screen_ok t \<and> (\<forall>i\<ge>24 * 80. crt t i = crt s i)"
proof -
  show ?thesis
  proof (cases "c = BACKSPACE")
    case True
    let ?u = "uartputc 8 (uartputc 32 (uartputc 8 s))"
    have "screen_ok ?u" "crt ?u = crt s" using assms by (simp_all add: uartputc_screen)
    then show ?thesis using cgaputc_ok [of ?u BACKSPACE] assms True by (simp add: consputc_def screen_ok_def)
  next
    case False
    have "screen_ok (uartputc c s)" "crt (uartputc c s) = crt s" using assms by (simp_all add: uartputc_screen)
    then show ?thesis using cgaputc_ok [of "uartputc c s" c] assms False by (simp add: consputc_def screen_ok_def)
  qed
qed

text \<open>Whatever is printed, the screen keeps it: no panic, and no cell outside of the 24 lines is written.\<close>

lemma output_ok:
  "screen_ok s \<Longrightarrow> \<exists>t. kfold consputc cs s = Ok t \<and> screen_ok t \<and> (\<forall>i\<ge>24 * 80. crt t i = crt s i)"
proof (induction cs arbitrary: s)
  case (Cons c cs)
  from consputc_ok [OF Cons.prems, of c] obtain u where u: "consputc c s = Ok u" "screen_ok u" "\<forall>i\<ge>24 * 80. crt u i = crt s i" by blast
  from Cons.IH [OF u(2)] show ?case using u(1,3) by auto
qed simp

lemma cprintf_ok: "screen_ok s \<Longrightarrow> \<exists>t. cprintf str fmt ap s = Ok t \<and> screen_ok t \<and> (\<forall>i\<ge>24 * 80. crt t i = crt s i)"
  unfolding cprintf_def by (rule output_ok)

section \<open>The input buffer\<close>

text \<open>The bytes between two indices of the ring.\<close>

definition ring :: "'a cons_scheme \<Rightarrow> u32 \<Rightarrow> nat \<Rightarrow> byte list" where
  "ring s i n = map (\<lambda>k. in_at s (i + of_nat k)) [0..<n]"

text \<open>\<open>finished\<close> is what readers get, \<open>editing\<close> the line being typed.\<close>

definition finished :: "'a cons_scheme \<Rightarrow> byte list" where "finished s = ring s (in_r s) (unat (in_w s - in_r s))"
definition editing :: "'a cons_scheme \<Rightarrow> byte list" where "editing s = ring s (in_w s) (unat (in_e s - in_w s))"

definition input_ok :: "'a cons_scheme \<Rightarrow> bool" where
  "input_ok s \<longleftrightarrow> unat (in_w s - in_r s) + unat (in_e s - in_w s) \<le> INPUT_BUF \<and> 10 \<notin> set (editing s)"

lemma con_ring_index: "unat (x + of_nat k :: u32) mod INPUT_BUF = (unat x + k) mod INPUT_BUF"
proof -
  have "unat (x + of_nat k :: u32) mod INPUT_BUF = (unat x + k) mod 2 ^ 32 mod 2 ^ 7"
    by (simp add: unat_word_ariths(1) unsigned_of_nat take_bit_eq_mod INPUT_BUF_def mod_add_right_eq)
  also have "\<dots> = (unat x + k) mod 2 ^ 7" by (rule mod_mod_cancel) (simp add: le_imp_power_dvd)
  finally show ?thesis by (simp add: INPUT_BUF_def)
qed

lemma con_ring_inj:
  assumes "i < INPUT_BUF" and "j < INPUT_BUF"
  shows "unat (x + of_nat i :: u32) mod INPUT_BUF = unat (x + of_nat j) mod INPUT_BUF \<longleftrightarrow> i = j"
proof -
  have le: "i = j" if "(a + i) mod INPUT_BUF = (a + j) mod INPUT_BUF" "i \<le> j" "j < INPUT_BUF" for i j a :: nat
  proof -
    have "INPUT_BUF dvd (a + j) - (a + i)" using that by (subst mod_eq_dvd_iff_nat [symmetric]) auto
    then have "INPUT_BUF dvd j - i" by simp
    then show ?thesis using that by (auto dest: dvd_imp_le)
  qed
  show ?thesis unfolding con_ring_index using le [of "unat x" i j] le [of "unat x" j i] assms by (metis nat_le_linear)
qed

lemma ring_length [simp]: "length (ring s i n) = n"
  by (simp add: ring_def)

lemma ring_append: "ring s i (m + n) = ring s i m @ ring s (i + of_nat m) n"
  by (rule nth_equalityI) (auto simp: ring_def nth_append add.assoc simp flip: of_nat_add)

lemma ring_Suc: "ring s i (Suc n) = ring s i n @ [in_at s (i + of_nat n)]" "ring s i (Suc n) = in_at s i # ring s (i + 1) n"
  using ring_append [of s i n 1] ring_append [of s i 1 n] by (simp_all add: ring_def)

lemma ring_cong: "in_buf t = in_buf s \<Longrightarrow> ring t i n = ring s i n"
  by (simp add: ring_def in_at_def)

text \<open>Writing behind the ring leaves it alone.\<close>

lemma ring_write:
  assumes "n < INPUT_BUF" and "in_buf t = (in_buf s)(unat (i + of_nat n) mod INPUT_BUF := c)"
  shows "m \<le> n \<Longrightarrow> ring t i m = ring s i m" "in_at t (i + of_nat n) = c"
proof -
  show "in_at t (i + of_nat n) = c" using assms(2) by (simp add: in_at_def)
  assume m: "m \<le> n"
  have "in_at t (i + of_nat k) = in_at s (i + of_nat k)" if "k < m" for k
    using con_ring_inj [of k n i] that m assms by (simp add: in_at_def)
  then show "ring t i m = ring s i m" by (simp add: ring_def)
qed

lemma contents:
  assumes "input_ok s"
  shows "finished s @ editing s = ring s (in_r s) (unat (in_e s - in_r s))" "unat (in_e s - in_r s) = length (finished s) + length (editing s)"
    "length (finished s) = unat (in_w s - in_r s)" "length (editing s) = unat (in_e s - in_w s)"
proof -
  define x y where "x = in_w s - in_r s" and "y = in_e s - in_w s"
  have xy: "unat x + unat y \<le> 128" using assms by (simp add: input_ok_def x_def y_def INPUT_BUF_def)
  have "in_e s - in_r s = x + y" by (simp add: x_def y_def)
  then have u: "unat (in_e s - in_r s) = unat x + unat y" using xy by (simp add: unat_word_ariths)
  then show "unat (in_e s - in_r s) = length (finished s) + length (editing s)" by (simp add: finished_def editing_def x_def y_def)
  have "in_r s + of_nat (unat x) = in_w s" by (simp add: x_def)
  then show "finished s @ editing s = ring s (in_r s) (unat (in_e s - in_r s))"
    unfolding u by (simp add: ring_append finished_def editing_def x_def y_def)
qed (simp_all add: finished_def editing_def)

section \<open>Typing\<close>

text \<open>What a key does to the finished lines, the line being edited, and the number of times the readers are woken.\<close>

definition type_char :: "int \<Rightarrow> byte list \<times> byte list \<times> nat \<Rightarrow> byte list \<times> byte list \<times> nat" where
  "type_char c = (\<lambda>(F, L, n).
     if c = 16 then (F, L, n)
     else if c = 21 then (F, [], n)
     else if c = 8 \<or> c = 127 then (F, butlast L, n)
     else if c = 0 \<or> length F + length L = INPUT_BUF then (F, L, n)
     else let c = (if c = 13 then 10 else c); L = L @ [word_of_int c]
          in if c = 10 \<or> c = 4 \<or> length F + length L = INPUT_BUF then (F @ L, [], n + 1) else (F, L, n))"

definition con_is :: "'a cons_scheme \<Rightarrow> byte list \<times> byte list \<times> nat \<Rightarrow> 'a cons_scheme \<Rightarrow> bool" where
  "con_is s x t \<longleftrightarrow> screen_ok t \<and> input_ok t \<and> finished t = fst x \<and> editing t = fst (snd x) \<and> wakes t = wakes s @ replicate (snd (snd x)) ChConsole
     \<and> killed t = killed s"

lemma after_consputc:
  assumes "screen_ok s"
  shows "\<exists>t. consputc c s = Ok t \<and> screen_ok t \<and> in_buf t = in_buf s \<and> in_r t = in_r s \<and> in_w t = in_w s \<and> in_e t = in_e s
    \<and> wakes t = wakes s \<and> killed t = killed s"
  using consputc_ok [OF assms, of c] consputc_input [of c s] by blast

lemma same_input: "in_buf t = in_buf s \<Longrightarrow> in_r t = in_r s \<Longrightarrow> in_w t = in_w s \<Longrightarrow> in_e t = in_e s
  \<Longrightarrow> finished t = finished s \<and> editing t = editing s \<and> input_ok t = input_ok s"
  by (simp add: finished_def editing_def input_ok_def ring_cong [of t s])

text \<open>Taking the last byte of the edited line back.\<close>

lemma erase_last:
  assumes "input_ok s" and "in_e s \<noteq> in_w s" and "in_buf t = in_buf s" "in_r t = in_r s" "in_w t = in_w s" "in_e t = in_e s - 1"
  shows "input_ok t \<and> finished t = finished s \<and> editing t = butlast (editing s)"
proof -
  define d where "d = in_e s - in_w s"
  have "d \<noteq> 0" using assms(2) by (simp add: d_def)
  then have d: "unat d = Suc (unat (d - 1))" by (simp add: unat_minus_one unat_gt_0)
  have t: "in_e t - in_w t = d - 1" using assms by (simp add: d_def)
  have e: "editing t = butlast (editing s)" using d by (simp add: editing_def t [unfolded assms(5)] assms(5) ring_cong [OF assms(3)] d_def [symmetric] ring_Suc(1))
  have f: "finished t = finished s" using assms by (simp add: finished_def ring_cong [of t s])
  have "10 \<notin> set (butlast (editing s))" using assms(1) by (auto simp: input_ok_def dest: in_set_butlastD)
  moreover have "unat (in_w t - in_r t) + unat (in_e t - in_w t) \<le> INPUT_BUF" using assms(1) d by (simp add: input_ok_def t [unfolded assms(5)] assms(4,5) d_def [symmetric])
  ultimately show ?thesis using e f by (simp add: input_ok_def)
qed

lemma kill_line_ok:
  "screen_ok s \<Longrightarrow> input_ok s \<Longrightarrow> \<exists>t. kill_line s = Ok t \<and> con_is s (finished s, [], 0) t"
proof (induction s rule: kill_line.induct)
  case (1 s)
  note c = contents [OF 1(3)]
  show ?case
  proof (cases "in_e s = in_w s")
    case True
    then have "editing s = []" by (simp add: editing_def ring_def)
    then show ?thesis using True 1(2,3) by (subst kill_line.simps) (simp add: con_is_def)
  next
    case False
    define d where "d = in_e s - in_w s"
    have "d \<noteq> 0" using False by (simp add: d_def)
    then have d: "unat d = Suc (unat (d - 1))" by (simp add: unat_minus_one unat_gt_0)
    have "in_at s (in_w s + of_nat (unat (d - 1))) \<in> set (editing s)" using d by (simp add: editing_def d_def [symmetric] ring_Suc(1))
    moreover have "in_w s + of_nat (unat (d - 1)) = in_e s - 1" by (simp add: d_def)
    ultimately have n: "in_at s (in_e s - 1) \<noteq> 10" using 1(3) by (metis input_ok_def)
    let ?s = "s\<lparr>in_e := in_e s - 1\<rparr>"
    have "screen_ok ?s" using 1(2) by (simp add: screen_ok_def cursor_def)
    then obtain u where u: "consputc BACKSPACE ?s = Ok u" "screen_ok u" "in_buf u = in_buf s" "in_r u = in_r s" "in_w u = in_w s"
        "in_e u = in_e s - 1" "wakes u = wakes s" "killed u = killed s"
      using after_consputc [of ?s BACKSPACE] by auto
    from erase_last [OF 1(3) False u(3-6)] have v: "input_ok u" "finished u = finished s" by simp_all
    obtain t where "kill_line u = Ok t" "con_is u (finished u, [], 0) t" using 1(1) [OF _ u(1) u(2) v(1)] False n by blast
    then show ?thesis using False n u v by (subst kill_line.simps) (simp add: con_is_def)
  qed
qed

lemma guard_iff: "input_ok s \<Longrightarrow> in_e s - in_r s < of_nat INPUT_BUF \<longleftrightarrow> length (finished s) + length (editing s) < INPUT_BUF"
  using contents(2) [of s] by (simp add: word_less_nat_alt INPUT_BUF_def)

lemma full_iff: "input_ok s \<Longrightarrow> in_e s = in_r s + of_nat INPUT_BUF \<longleftrightarrow> length (finished s) + length (editing s) = INPUT_BUF"
proof -
  assume a: "input_ok s"
  have "in_e s = in_r s + of_nat INPUT_BUF \<longleftrightarrow> in_e s - in_r s = of_nat INPUT_BUF" by (auto simp: algebra_simps)
  also have "\<dots> \<longleftrightarrow> unat (in_e s - in_r s) = INPUT_BUF" by (simp add: word_unat_eq_iff INPUT_BUF_def)
  finally show ?thesis using contents(2) [OF a] by simp
qed

lemma put_char:
  assumes "input_ok s" and "length (finished s) + length (editing s) < INPUT_BUF"
    and "in_buf t = (in_buf s)(unat (in_e s) mod INPUT_BUF := c)" "in_r t = in_r s" "in_w t = in_w s" "in_e t = in_e s + 1"
  shows "finished t = finished s" "editing t = editing s @ [c]" "unat (in_w t - in_r t) + unat (in_e t - in_w t) \<le> INPUT_BUF"
proof -
  note k = contents [OF assms(1)]
  define x y where "x = in_w s - in_r s" and "y = in_e s - in_w s"
  have xy: "unat x + unat y < 128" using assms(2) k(3,4) by (simp add: x_def y_def INPUT_BUF_def)
  have e: "in_e s = in_r s + of_nat (unat x + unat y)" "in_e s = in_w s + of_nat (unat y)" by (simp_all add: x_def y_def)
  have y1: "in_e t - in_w t = y + 1" using assms by (simp add: y_def)
  have u: "unat (y + 1) = Suc (unat y)" using xy by (simp add: unat_word_ariths)
  have b1: "in_buf t = (in_buf s)(unat (in_r s + of_nat (unat x + unat y)) mod INPUT_BUF := c)" using assms(3) e(1) by simp
  have b2: "in_buf t = (in_buf s)(unat (in_w s + of_nat (unat y)) mod INPUT_BUF := c)" using assms(3) e(2) by simp
  show "finished t = finished s" using ring_write(1) [OF _ b1, of "unat x"] xy assms(4,5) by (simp add: finished_def x_def INPUT_BUF_def)
  have "ring t (in_w s) (unat y) = ring s (in_w s) (unat y)" "in_at t (in_w s + of_nat (unat y)) = c"
    using ring_write [OF _ b2] xy by (simp_all add: INPUT_BUF_def)
  then show "editing t = editing s @ [c]" using y1 u assms(5) by (simp add: editing_def ring_Suc(1) y_def [symmetric])
  show "unat (in_w t - in_r t) + unat (in_e t - in_w t) \<le> INPUT_BUF" using y1 u xy assms(4,5) by (simp add: x_def INPUT_BUF_def)
qed

text \<open>Handing the line over to the readers.\<close>

lemma commit_line:
  assumes "unat (in_w s - in_r s) + unat (in_e s - in_w s) \<le> INPUT_BUF"
    and "in_buf t = in_buf s" "in_r t = in_r s" "in_w t = in_e s" "in_e t = in_e s"
  shows "finished t = finished s @ editing s \<and> editing t = [] \<and> input_ok t"
proof -
  define x y where "x = in_w s - in_r s" and "y = in_e s - in_w s"
  have xy: "unat x + unat y \<le> 128" using assms(1) by (simp add: x_def y_def INPUT_BUF_def)
  have "in_e s - in_r s = x + y" by (simp add: x_def y_def)
  then have u: "unat (in_e s - in_r s) = unat x + unat y" using xy by (simp add: unat_word_ariths)
  have "in_r s + of_nat (unat x) = in_w s" by (simp add: x_def)
  then have "finished t = finished s @ editing s" using assms u by (simp add: finished_def editing_def ring_cong [OF assms(2)] ring_append x_def y_def)
  moreover have "editing t = []" using assms by (simp add: editing_def ring_def)
  ultimately show ?thesis using assms u xy by (simp add: input_ok_def INPUT_BUF_def)
qed

lemma char_ok:
  assumes "screen_ok s" and "input_ok s" and "0 \<le> c" "c < 256" "c \<noteq> 16"
  shows "\<exists>t. consoleintr_char c s = Ok t \<and> con_is s (type_char c (finished s, editing s, 0)) t"
proof -
  have wl: "length (finished s) + length (editing s) \<le> INPUT_BUF" using assms(2) contents(3,4) [OF assms(2)] by (simp add: input_ok_def)
  consider (kill) "c = 21" | (erase) "c = 8 \<or> c = 127" | (skip) "c \<notin> {21, 8, 127}" "c = 0 \<or> length (finished s) + length (editing s) = INPUT_BUF"
    | (put) "c \<notin> {21, 8, 127}" "c \<noteq> 0" "length (finished s) + length (editing s) < INPUT_BUF"
    using wl by fastforce
  then show ?thesis
  proof cases
    case kill
    then show ?thesis using kill_line_ok [OF assms(1,2)] by (simp add: consoleintr_char_def type_char_def)
  next
    case erase
    show ?thesis
    proof (cases "in_e s = in_w s")
      case True
      then have "editing s = []" by (simp add: editing_def ring_def)
      then show ?thesis using True erase assms by (auto simp: consoleintr_char_def type_char_def con_is_def)
    next
      case False
      let ?s = "s\<lparr>in_e := in_e s - 1\<rparr>"
      have "screen_ok ?s" using assms(1) by (simp add: screen_ok_def cursor_def)
      then obtain u where u: "consputc BACKSPACE ?s = Ok u" "screen_ok u" "in_buf u = in_buf s" "in_r u = in_r s" "in_w u = in_w s"
          "in_e u = in_e s - 1" "wakes u = wakes s" "killed u = killed s"
        using after_consputc [of ?s BACKSPACE] by auto
      from erase_last [OF assms(2) False u(3-6)] show ?thesis using False u erase by (auto simp: consoleintr_char_def type_char_def con_is_def)
    qed
  next
    case skip
    then show ?thesis using assms guard_iff [OF assms(2)] by (auto simp: consoleintr_char_def type_char_def con_is_def)
  next
    case put
    define d where "d = (if c = 13 then 10 else c)"
    let ?s = "s\<lparr>in_buf := (in_buf s)(unat (in_e s) mod INPUT_BUF := word_of_int d), in_e := in_e s + 1\<rparr>"
    have "screen_ok ?s" using assms(1) by (simp add: screen_ok_def cursor_def)
    then obtain u where u: "consputc d ?s = Ok u" "screen_ok u" "in_buf u = (in_buf s)(unat (in_e s) mod INPUT_BUF := word_of_int d)" "in_r u = in_r s"
        "in_w u = in_w s" "in_e u = in_e s + 1" "wakes u = wakes s" "killed u = killed s"
      using after_consputc [of ?s d] by auto
    note p = put_char [OF assms(2) put(3) u(3-6)]
    have len: "length (editing u) = length (editing s) + 1" using p(2) by simp
    define ready where "ready \<longleftrightarrow> d = 10 \<or> d = 4 \<or> length (finished s) + length (editing s) + 1 = INPUT_BUF"
    have full: "in_e u = in_r u + of_nat INPUT_BUF \<longleftrightarrow> length (finished s) + length (editing s) + 1 = INPUT_BUF"
    proof -
      have "in_e u = in_r u + of_nat INPUT_BUF \<longleftrightarrow> in_e u - in_r u = of_nat INPUT_BUF" by (auto simp: algebra_simps)
      also have "\<dots> \<longleftrightarrow> unat (in_e u - in_r u) = INPUT_BUF" by (simp add: word_unat_eq_iff INPUT_BUF_def)
      also have "in_e u - in_r u = (in_e s - in_r s) + 1" using u(4,6) by simp
      also have "unat ((in_e s - in_r s) + 1) = unat (in_e s - in_r s) + 1"
        using contents(2) [OF assms(2)] put(3) by (simp add: unat_word_ariths(1) INPUT_BUF_def)
      finally show ?thesis using contents(2) [OF assms(2)] by simp
    qed
    have eq: "consoleintr_char c s = Ok (if ready then wake ChConsole (u\<lparr>in_w := in_e u\<rparr>) else u)"
      using put guard_iff [OF assms(2)] u(1) full by (simp add: consoleintr_char_def d_def [symmetric] Let_def ready_def)
    have tc: "type_char c (finished s, editing s, 0)
        = (if ready then (finished s @ editing s @ [word_of_int d], [], 1) else (finished s, editing s @ [word_of_int d], 0))"
      using put assms(5) by (auto simp: type_char_def Let_def d_def [symmetric] ready_def)
    show ?thesis
    proof (cases ready)
      case True
      let ?t = "wake ChConsole (u\<lparr>in_w := in_e u\<rparr>)"
      have "finished ?t = finished u @ editing u \<and> editing ?t = [] \<and> input_ok ?t" by (rule commit_line [OF p(3)]) (simp_all add: wake_def)
      moreover have "screen_ok ?t" using u(2) by (simp add: screen_ok_def cursor_def wake_def)
      ultimately show ?thesis using True eq tc p(1,2) u(7,8) by (simp add: con_is_def wake_def)
    next
      case False
      have "(word_of_int d :: byte) \<noteq> 10"
      proof
        assume "(word_of_int d :: byte) = 10"
        then have "uint (word_of_int d :: byte) = uint (10 :: byte)" by simp
        then have "d mod 256 = 10" by (simp add: uint_word_of_int)
        moreover have "0 \<le> d" "d < 256" using assms(3,4) by (auto simp: d_def)
        ultimately show False using False by (simp add: ready_def)
      qed
      then have "10 \<notin> set (editing u)" using p(2) assms(2) by (auto simp: input_ok_def)
      then show ?thesis using False eq tc p u(2,7,8) by (simp add: con_is_def input_ok_def)
    qed
  qed
qed

definition type_all :: "int list \<Rightarrow> byte list \<times> byte list \<times> nat \<Rightarrow> byte list \<times> byte list \<times> nat" where
  "type_all cs x = fold type_char cs x"

lemma type_char_count: "type_char c (F, L, n) = (case type_char c (F, L, 0) of (F, L, k) \<Rightarrow> (F, L, n + k))"
  by (auto simp: type_char_def Let_def)

lemma type_all_count: "type_all cs (F, L, n) = (case type_all cs (F, L, 0) of (F, L, k) \<Rightarrow> (F, L, n + k))"
proof (induction cs arbitrary: F L n)
  case (Cons c cs)
  obtain F' L' k where k: "type_char c (F, L, 0) = (F', L', k)" by (metis prod_cases3)
  then have "type_char c (F, L, n) = (F', L', n + k)" by (simp add: type_char_count [of c F L n])
  then show ?case using k Cons [of F' L' "n + k"] Cons [of F' L' k] by (simp add: type_all_def split: prod.splits)
qed (simp add: type_all_def)

lemma loop_ok:
  "screen_ok s \<Longrightarrow> input_ok s \<Longrightarrow> \<forall>c\<in>set cs. 0 \<le> c \<and> c < 256
   \<Longrightarrow> \<exists>d t. consoleintr_loop cs p s = Ok (d, t) \<and> con_is s (type_all cs (finished s, editing s, 0)) t"
proof (induction cs arbitrary: p s)
  case Nil
  then show ?case by (simp add: con_is_def type_all_def)
next
  case (Cons c cs)
  show ?case
  proof (cases "c = 16")
    case True
    then show ?thesis using Cons by (simp add: type_all_def type_char_def)
  next
    case False
    then obtain u where u: "consoleintr_char c s = Ok u" "con_is s (type_char c (finished s, editing s, 0)) u"
      using char_ok [OF Cons.prems(1,2), of c] Cons.prems(3) by auto
    obtain F L k where k: "type_char c (finished s, editing s, 0) = (F, L, k)" by (metis prod_cases3)
    have v: "screen_ok u" "input_ok u" "finished u = F" "editing u = L" "wakes u = wakes s @ replicate k ChConsole" "killed u = killed s"
      using u(2) by (simp_all add: con_is_def k)
    obtain d t where t: "consoleintr_loop cs p u = Ok (d, t)" "con_is u (type_all cs (F, L, 0)) t"
      using Cons.IH [OF v(1,2), of p] Cons.prems(3) v(3,4) by auto
    obtain F' L' m where m: "type_all cs (F, L, 0) = (F', L', m)" by (metis prod_cases3)
    have "type_all (c # cs) (finished s, editing s, 0) = (F', L', k + m)"
      using k m type_all_count [of cs F L k] by (simp add: type_all_def)
    then show ?thesis using False u(1) t v(5,6) m by (simp add: con_is_def replicate_add)
  qed
qed

lemma consoleintr_ok:
  assumes "screen_ok s" and "input_ok s" and "\<forall>c\<in>set cs. 0 \<le> c \<and> c < 256"
  shows "\<exists>t. consoleintr cs s = Ok t \<and> con_is s (type_all cs (finished s, editing s, 0)) t"
proof -
  obtain d t where t: "consoleintr_loop cs False s = Ok (d, t)" "con_is s (type_all cs (finished s, editing s, 0)) t"
    using loop_ok [OF assms, of False] by blast
  let ?t = "t\<lparr>procdumps := procdumps t + 1\<rparr>"
  have "finished ?t = finished t \<and> editing ?t = editing t \<and> input_ok ?t = input_ok t" by (rule same_input) simp_all
  moreover have "screen_ok ?t = screen_ok t" by (simp add: screen_ok_def cursor_def)
  ultimately have "con_is s (type_all cs (finished s, editing s, 0)) ?t" using t(2) by (simp add: con_is_def)
  then show ?thesis using t by (simp add: consoleintr_def)
qed

section \<open>Reading\<close>

text \<open>What a reader of at most \<open>n\<close> more bytes gets of the finished lines \<open>F\<close>, after \<open>got\<close>.\<close>

fun deliver :: "nat \<Rightarrow> byte list \<Rightarrow> byte list \<Rightarrow> cread \<times> byte list" where
  "deliver 0 got F = (Got got, F)"
| "deliver (Suc n) got [] = (Waits got, [])"
| "deliver (Suc n) got (c # F) =
     (if c = 4 then (Got got, if got \<noteq> [] then c # F else F)
      else if c = 10 then (Got (got @ [c]), F) else deliver n (got @ [c]) F)"

lemma finished_cases:
  assumes "input_ok s"
  obtains "in_r s = in_w s" "finished s = []"
  | "in_r s \<noteq> in_w s" "finished s = in_at s (in_r s) # finished (s\<lparr>in_r := in_r s + 1\<rparr>)" "input_ok (s\<lparr>in_r := in_r s + 1\<rparr>)"
    "editing (s\<lparr>in_r := in_r s + 1\<rparr>) = editing s"
proof (cases "in_r s = in_w s")
  case True
  then show ?thesis using that(1) by (simp add: finished_def ring_def)
next
  case False
  define x where "x = in_w s - in_r s"
  have "x \<noteq> 0" using False by (simp add: x_def)
  then have x: "unat x = Suc (unat (x - 1))" by (simp add: unat_minus_one unat_gt_0)
  let ?t = "s\<lparr>in_r := in_r s + 1\<rparr>"
  have b: "in_buf ?t = in_buf s" by simp
  have d: "in_w s - (in_r s + 1) = x - 1" by (simp add: x_def)
  have f: "finished s = in_at s (in_r s) # finished ?t" using x by (simp add: finished_def ring_cong [OF b] d x_def [symmetric] ring_Suc(2))
  have e: "editing ?t = editing s" by (simp add: editing_def ring_cong [OF b])
  have "input_ok ?t" using assms e x by (simp add: input_ok_def d x_def [symmetric])
  then show ?thesis using that(2) [OF False f _ e] by blast
qed

lemma read_ok:
  "input_ok s \<Longrightarrow> \<not> killed s \<Longrightarrow> \<exists>r t. consoleread_loop n got s = (r, t) \<and> input_ok t \<and> editing t = editing s \<and> (r, finished t) = deliver n got (finished s)"
proof (induction n arbitrary: got s)
  case (Suc n)
  show ?case
  proof (rule finished_cases [OF Suc.prems(1)])
    assume "in_r s = in_w s" "finished s = []"
    then show ?thesis using Suc.prems by simp
  next
    let ?t = "s\<lparr>in_r := in_r s + 1\<rparr>"
    assume a: "in_r s \<noteq> in_w s" "finished s = in_at s (in_r s) # finished ?t" "input_ok ?t" "editing ?t = editing s"
    have "s\<lparr>in_r := in_r s\<rparr> = s" by simp
    then show ?thesis
      using a Suc.prems Suc.IH [OF a(3), of "got @ [in_at s (in_r s)]"] by (cases "got = []") (simp_all add: Let_def)
  qed
qed simp

section \<open>The properties of the console\<close>

text \<open>
  C11.  Whatever is typed, the console interrupt handler returns, and the ring buffer with its three wrapping
  indices behaves as the finished lines and a line being edited: backspace takes the last byte of the edited line,
  control-U all of it, newline, control-D and a full buffer hand it to the readers and wake them, and a byte for
  which there is no room is dropped.
\<close>

theorem console_line_editing:
  assumes "screen_ok s" and "input_ok s" and "\<forall>c\<in>set cs. 0 \<le> c \<and> c < 256"
  shows "\<exists>t. consoleintr cs s = Ok t \<and> screen_ok t \<and> input_ok t
    \<and> (finished t, editing t, length (wakes t)) = type_all cs (finished s, editing s, length (wakes s))"
proof -
  obtain t where t: "consoleintr cs s = Ok t" "con_is s (type_all cs (finished s, editing s, 0)) t" using consoleintr_ok [OF assms] by blast
  obtain F L k where "type_all cs (finished s, editing s, 0) = (F, L, k)" by (metis prod_cases3)
  then show ?thesis using t type_all_count [of cs "finished s" "editing s" "length (wakes s)"] by (simp add: con_is_def)
qed

text \<open>
  C12.  A reader gets exactly the bytes that were handed over, in order and once: up to a newline, up to the
  count, or up to a control-D, which ends the input once and is kept for the next call when there are
  bytes before it; when they run out before that, it waits for more.
\<close>

theorem console_reads_in_order:
  assumes "input_ok s" and "\<not> killed s"
  shows "\<exists>r t. consoleread_loop n got s = (r, t) \<and> input_ok t \<and> editing t = editing s \<and> (r, finished t) = deliver n got (finished s)"
  by (rule read_ok [OF assms])

text \<open>A console on which nothing was typed.\<close>

definition blank_console :: cons where
  "blank_console = fproc.extend (fsys.extend demo_fs (fproc.fields
     (\<lambda>_. \<lparr>f_type = FD_NONE, f_ref = 0, f_readable = False, f_writable = False, f_pipe = 0, f_ip = 0, f_off = 0\<rparr>)
     (\<lambda>_. None) False (\<lambda>_. 0) 0 0 (\<lambda>_. pipe_new (\<lambda>_. 0)) [] []))
     (cons.fields (\<lambda>_. 0) 0 0 0 (\<lambda>_. 0) 0 0 True [] False 0)"

lemma blank_console_simps [simp]:
  "in_buf blank_console = (\<lambda>_. 0)" "in_r blank_console = 0" "in_w blank_console = 0" "in_e blank_console = 0" "crt_hi blank_console = 0"
  "crt_lo blank_console = 0" "panicked blank_console = False" "wakes blank_console = []" "killed blank_console = False"
  by (simp_all add: blank_console_def fsys.extend_def fproc.extend_def fproc.fields_def cons.fields_def)

lemma blank_console_ok: "screen_ok blank_console" "input_ok blank_console" "finished blank_console = []" "editing blank_console = []"
  by (simp_all add: screen_ok_def input_ok_def cursor_def finished_def editing_def ring_def)

text \<open>\<open>lx\<close>, backspace, \<open>s\<close>, return.\<close>

theorem console_line_editing_witness:
  "\<exists>t. consoleintr [108, 120, 8, 115, 13] blank_console = Ok t \<and> finished t = [108, 115, 10] \<and> editing t = [] \<and> length (wakes t) = 1"
proof -
  have "\<forall>c\<in>set [108, 120, 8, 115, 13 :: int]. 0 \<le> c \<and> c < 256" by simp
  from console_line_editing [OF blank_console_ok(1,2) this] obtain t where "consoleintr [108, 120, 8, 115, 13] blank_console = Ok t"
      "(finished t, editing t, length (wakes t)) = type_all [108, 120, 8, 115, 13] ([], [], 0)"
    by (auto simp: blank_console_ok)
  moreover have "type_all [108, 120, 8, 115, 13] ([], [], 0) = ([108, 115, 10], [], 1)"
    by (simp add: type_all_def type_char_def INPUT_BUF_def)
  ultimately show ?thesis by simp
qed

theorem console_reads_in_order_witness:
  "\<exists>t. consoleread_loop 2 [] (blank_console\<lparr>in_buf := (\<lambda>i. if i = 0 then 108 else if i = 1 then 115 else 10), in_w := 3, in_e := 3\<rparr>) = (Got [108, 115], t) \<and> finished t = [10]"
proof -
  let ?s = "blank_console\<lparr>in_buf := (\<lambda>i. if i = 0 then 108 else if i = 1 then 115 else 10), in_w := 3, in_e := 3\<rparr>"
  have f: "finished ?s = [108, 115, 10]" by (simp add: finished_def ring_def in_at_def INPUT_BUF_def upt_rec unat_word_ariths)
  have i: "input_ok ?s" by (simp add: input_ok_def editing_def ring_def INPUT_BUF_def)
  have "\<not> killed ?s" by simp
  from console_reads_in_order [OF i this, of 2 "[]"] obtain r t where "consoleread_loop 2 [] ?s = (r, t)" "(r, finished t) = deliver 2 [] (finished ?s)"
    by blast
  moreover have "deliver (Suc (Suc 0)) [] [108, 115, 10] = (Got [108, 115], [10])" by simp
  then have "deliver 2 [] [108, 115, 10] = (Got [108, 115], [10])" by (simp only: numeral_2_eq_2)
  ultimately show ?thesis unfolding f by simp
qed

text \<open>The characters that the keyboard sends are bytes.\<close>

lemma charcode_byte: "charcode k d < 256"
proof -
  have k: "key xs ps d < 256" if "\<forall>c\<in>set xs. c < 256" "\<forall>x\<in>set ps. snd x < 256" for xs ps
  proof (cases "unat d < length xs")
    case True
    then show ?thesis using that(1) by (simp add: key_def)
  next
    case False
    have sp: "\<forall>x\<in>set (ps @ special_keys). snd x < 256" using that(2) by (simp add: special_keys_def)
    show ?thesis
    proof (cases "map_of (ps @ special_keys) (unat d)")
      case None
      then have "key xs ps d = 0" using False unfolding key_def by (simp del: map_of_append)
      then show ?thesis by simp
    next
      case (Some y)
      then have "key xs ps d = y" using False unfolding key_def by (simp del: map_of_append)
      moreover have "snd (unat d, y) < 256" using sp map_of_SomeD [OF Some] by blast
      ultimately show ?thesis by simp
    qed
  qed
  show ?thesis unfolding charcode_def
    by (auto intro!: k simp: normal_keys_def shift_keys_def ctl_keys_def)
qed

lemma kbdgetc_byte: "0 \<le> fst (kbdgetc (Some b) shift) \<and> fst (kbdgetc (Some b) shift) < 256"
proof -
  have c: "uint (if p then if 97 \<le> x \<and> x \<le> 122 then x - 32 else if 65 \<le> x \<and> x \<le> 90 then x + 32 else x else x) < 256"
    if "x < 256" for p and x :: u32
  proof -
    have u: "uint x < 256" using that by (simp add: word_less_def)
    have "uint (x - 32) < 256" if "97 \<le> x" "x \<le> 122"
    proof -
      have "uint (x - 32) = (uint x - 32) mod 2 ^ 32" by (simp add: uint_word_ariths)
      then have "uint (x - 32) = uint x - 32" using that u by (simp add: word_le_def)
      then show ?thesis using u by simp
    qed
    moreover have "uint (x + 32) < 256" if "x \<le> 90" using that u by (simp add: word_le_def uint_word_ariths)
    ultimately show ?thesis using u by simp
  qed
  show ?thesis using c [OF charcode_byte] by (simp add: kbdgetc_def Let_def split: prod.splits)
qed

lemma kbd_codes_bytes: "\<forall>c\<in>set (fst (kbd_codes bs shift)). 0 \<le> c \<and> c < 256"
proof (induction bs arbitrary: shift)
  case (Cons b bs)
  obtain c sh where c: "kbdgetc (Some b) shift = (c, sh)" by fastforce
  obtain cs sh' where "kbd_codes bs sh = (cs, sh')" by fastforce
  then show ?case using c Cons [of sh] kbdgetc_byte [of b shift] by simp
qed simp

text \<open>So whatever bytes the keyboard sends, its interrupt handler edits the line by the characters that they stand for.\<close>

lemma keyboard_line_editing:
  assumes "screen_ok s" and "input_ok s"
  shows "\<exists>t. kbdintr bs shift s = Ok (snd (kbd_codes bs shift), t) \<and> con_is s (type_all (fst (kbd_codes bs shift)) (finished s, editing s, 0)) t"
proof -
  obtain cs sh where k: "kbd_codes bs shift = (cs, sh)" by fastforce
  have "\<forall>c\<in>set cs. 0 \<le> c \<and> c < 256" using kbd_codes_bytes [of bs shift] k by simp
  from consoleintr_ok [OF assms this] show ?thesis by (auto simp: kbdintr_def k)
qed

end
