(* ===== verification/Pmanager.thy ===== *)
theory Pmanager
  imports Sh Cstring_Props
begin

text \<open>
  \<open>pmanager.c\<close> of project 2, the program with which a user lists, starts and kills processes and limits their
  memory: how it reads its commands, and that it does what the line says.

  \<open>buf\<close>, \<open>cmd\<close>, \<open>arg0\<close> and \<open>arg1\<close> are strings as functions; the last three are variables of \<open>main\<close> and keep what
  the line before left in them (\<open>pm\<close>).  For an empty line \<open>getword\<close> returns the null pointer and \<open>main\<close> goes on with
  it; a user program is loaded at address 0, so the next word is then read from its text (\<open>prg\<close>).  The calls
  of the system are the result (\<open>pact\<close>); \<open>Execute path n\<close> stands for the two nested forks after which the
  grandchild calls \<open>exec2(path, argv, n)\<close> and the
  process in between ends, and the messages about the outcome of a call are left out.  \<open>None\<close> means that a loop
  over a string without NUL does not end.
\<close>

section \<open>The program\<close>

record pm =
  pm_cmd :: bytes
  pm_arg0 :: bytes
  pm_arg1 :: bytes

datatype pact =
    Show_procs
  | Kill u32
  | Execute bytes u32
  | Set_limit u32 u32
  | Terminate
  | Say string

datatype ptr = Buf nat | Text nat

definition pm_getcmd :: "byte list \<Rightarrow> (bytes \<times> byte list) option" where
  "pm_getcmd inp =
     (let (line, inp) = gets 100 inp; buf = cstr line in
      if buf 0 = 0 then None
      else if buf 99 \<noteq> 0 then None
      else case strlen buf of None \<Rightarrow> None | Some n \<Rightarrow> Some (buf(n - 1 := 0), inp))"

text \<open>\<open>bufp = getword(bufp, word, sizeof(word))\<close>; the inner \<open>None\<close> is the null pointer, and then \<open>word\<close> is unchanged.\<close>

definition next_word :: "bytes \<Rightarrow> bytes \<Rightarrow> ptr \<Rightarrow> bytes \<Rightarrow> (ptr \<times> bytes) option option" where
  "next_word prg buf p word =
     (case p of Buf i \<Rightarrow> map_option (map_option (\<lambda>(j, w). (Buf j, w))) (getword buf i word 100)
      | Text i \<Rightarrow> map_option (map_option (\<lambda>(j, w). (Text j, w))) (getword prg i word 100))"

definition pm_kill :: "bytes \<Rightarrow> bytes \<Rightarrow> ptr \<Rightarrow> pm \<Rightarrow> (pact \<times> pm) option" where
  "pm_kill prg buf p st =
     Option.bind (next_word prg buf p (pm_arg0 st)) (\<lambda>r. case r of
       None \<Rightarrow> Some (Say ''invalid pid'', st)
     | Some (p, w) \<Rightarrow>
         let st = st\<lparr>pm_arg0 := w\<rparr> in
         Option.bind (stoi w) (\<lambda>pid. Some (case pid of None \<Rightarrow> Say ''invalid pid'' | Some n \<Rightarrow> Kill n, st)))"

text \<open>The two arguments of \<open>execute\<close> and \<open>memlim\<close>: \<open>f\<close> goes on with the state when both are there.\<close>

definition two_args :: "bytes \<Rightarrow> bytes \<Rightarrow> ptr \<Rightarrow> pm \<Rightarrow> (pm \<Rightarrow> (pact \<times> pm) option) \<Rightarrow> (pact \<times> pm) option" where
  "two_args prg buf p st f =
     Option.bind (next_word prg buf p (pm_arg0 st)) (\<lambda>r. case r of
       None \<Rightarrow> Some (Say ''invalid option'', st)
     | Some (p, w) \<Rightarrow>
         let st = st\<lparr>pm_arg0 := w\<rparr> in
         Option.bind (next_word prg buf p (pm_arg1 st)) (\<lambda>r. case r of
           None \<Rightarrow> Some (Say ''invalid option'', st)
         | Some (p, w) \<Rightarrow> f (st\<lparr>pm_arg1 := w\<rparr>)))"

definition pm_execute :: "bytes \<Rightarrow> bytes \<Rightarrow> ptr \<Rightarrow> pm \<Rightarrow> (pact \<times> pm) option" where
  "pm_execute prg buf p st = two_args prg buf p st (\<lambda>st.
     Option.bind (stoi (pm_arg1 st)) (\<lambda>n. Some (case n of None \<Rightarrow> Say ''invalid stacksize'' | Some n \<Rightarrow> Execute (pm_arg0 st) n, st)))"

definition pm_memlim :: "bytes \<Rightarrow> bytes \<Rightarrow> ptr \<Rightarrow> pm \<Rightarrow> (pact \<times> pm) option" where
  "pm_memlim prg buf p st = two_args prg buf p st (\<lambda>st.
     Option.bind (stoi (pm_arg0 st)) (\<lambda>pid. case pid of
       None \<Rightarrow> Some (Say ''invalid option'', st)
     | Some pid \<Rightarrow> Option.bind (stoi (pm_arg1 st)) (\<lambda>limit. Some (case limit of None \<Rightarrow> Say ''invalid option'' | Some limit \<Rightarrow> Set_limit pid limit, st))))"

definition is_cmd :: "bytes \<Rightarrow> byte list \<Rightarrow> bool option" where
  "is_cmd w s = map_option (\<lambda>r. r = 0) (strcmp w (cstr s))"

text \<open>The words \<open>list\<close>, \<open>kill\<close>, \<open>execute\<close>, \<open>memlim\<close> and \<open>exit\<close>.\<close>

definition s_list :: "byte list" where "s_list = [108, 105, 115, 116]"
definition s_kill :: "byte list" where "s_kill = [107, 105, 108, 108]"
definition s_execute :: "byte list" where "s_execute = [101, 120, 101, 99, 117, 116, 101]"
definition s_memlim :: "byte list" where "s_memlim = [109, 101, 109, 108, 105, 109]"
definition s_exit :: "byte list" where "s_exit = [101, 120, 105, 116]"

definition pm_line :: "bytes \<Rightarrow> bytes \<Rightarrow> pm \<Rightarrow> (pact \<times> pm) option" where
  "pm_line prg buf st =
     Option.bind (next_word prg buf (Buf 0) (pm_cmd st)) (\<lambda>r.
     let (p, st) = (case r of None \<Rightarrow> (Text 0, st) | Some (p, w) \<Rightarrow> (p, st\<lparr>pm_cmd := w\<rparr>)) in
     Option.bind (is_cmd (pm_cmd st) s_list) (\<lambda>b. if b then Some (Show_procs, st) else
     Option.bind (is_cmd (pm_cmd st) s_kill) (\<lambda>b. if b then pm_kill prg buf p st else
     Option.bind (is_cmd (pm_cmd st) s_execute) (\<lambda>b. if b then pm_execute prg buf p st else
     Option.bind (is_cmd (pm_cmd st) s_memlim) (\<lambda>b. if b then pm_memlim prg buf p st else
     Option.bind (is_cmd (pm_cmd st) s_exit) (\<lambda>b. Some (if b then Terminate else Say ''undefined command'', st)))))))"

lemma pm_getcmd_rest: "pm_getcmd inp = Some (buf, rest) \<Longrightarrow> length rest < length inp"
  by (auto simp: pm_getcmd_def gets_def cstr_def Let_def split: prod.splits if_splits option.splits intro: gets_from_rest)

function pm_main :: "bytes \<Rightarrow> byte list \<Rightarrow> pm \<Rightarrow> pact list option" where
  "pm_main prg inp st =
     (case pm_getcmd inp of None \<Rightarrow> Some []
      | Some (buf, inp) \<Rightarrow>
          Option.bind (pm_line prg buf st) (\<lambda>(a, st).
            if a = Terminate then Some [a] else map_option ((#) a) (pm_main prg inp st)))"
  by pat_completeness auto
termination by (relation "measure (\<lambda>(prg, inp, st). length inp)") (auto dest: pm_getcmd_rest)

declare pm_main.simps [simp del]

section \<open>What a line means\<close>

definition split_word :: "byte list \<Rightarrow> byte list \<times> byte list" where
  "split_word l = (takeWhile (\<lambda>c. c \<noteq> 32) l, tl (dropWhile (\<lambda>c. c \<noteq> 32) l))"

definition number :: "byte list \<Rightarrow> u32 option" where
  "number w = (if \<forall>c\<in>set w. digit c then Some (foldl (\<lambda>r c. r * 10 + digit_val c) 0 w) else None)"

datatype meaning = M_list | M_kill u32 | M_execute "byte list" u32 | M_memlim u32 u32 | M_exit | M_say string

definition meaning_of :: "byte list \<Rightarrow> meaning" where
  "meaning_of l =
     (let (c, r) = split_word l; (a, r') = split_word r; b = fst (split_word r') in
      if c = s_list then M_list
      else if c = s_kill then
        (if r = [] then M_say ''invalid pid'' else case number a of None \<Rightarrow> M_say ''invalid pid'' | Some n \<Rightarrow> M_kill n)
      else if c = s_execute then
        (if r = [] \<or> r' = [] then M_say ''invalid option''
         else case number b of None \<Rightarrow> M_say ''invalid stacksize'' | Some n \<Rightarrow> M_execute a n)
      else if c = s_memlim then
        (if r = [] \<or> r' = [] then M_say ''invalid option''
         else case (number a, number b) of (Some x, Some y) \<Rightarrow> M_memlim x y | _ \<Rightarrow> M_say ''invalid option'')
      else if c = s_exit then M_exit
      else M_say ''undefined command'')"

definition starts :: "bytes \<Rightarrow> byte list \<Rightarrow> bool" where
  "starts b w \<longleftrightarrow> (\<forall>i<length w. b i = w ! i) \<and> b (length w) = 0"

fun does :: "pact \<Rightarrow> meaning \<Rightarrow> bool" where
  "does Show_procs m \<longleftrightarrow> m = M_list"
| "does (Kill n) m \<longleftrightarrow> m = M_kill n"
| "does (Execute b n) m \<longleftrightarrow> (\<exists>w. m = M_execute w n \<and> starts b w)"
| "does (Set_limit x y) m \<longleftrightarrow> m = M_memlim x y"
| "does Terminate m \<longleftrightarrow> m = M_exit"
| "does (Say s) m \<longleftrightarrow> m = M_say s"

section \<open>The loops over strings\<close>

lemma starts_cstr: "starts (cstr w) w"
  by (simp add: starts_def cstr_def)

text \<open>A string that starts with a word without NUL behaves as the word does.\<close>

lemma stoi_starts:
  assumes "starts b w" and "0 \<notin> set w"
  shows "stoi b = Some (number w)"
proof -
  have "i \<le> length w \<Longrightarrow> stoi_from b i r = Some (if \<forall>c\<in>set (drop i w). digit c then Some (foldl (\<lambda>r c. r * 10 + digit_val c) r (drop i w)) else None)" for i r
  proof (induction "length w - i" arbitrary: i r)
    case 0
    then show ?case using assms(1) stoi_from.simps [of b i r] by (simp add: starts_def)
  next
    case (Suc n)
    then have i: "i < length w" by simp
    have d: "drop i w = w ! i # drop (Suc i) w" using i by (simp add: Cons_nth_drop_Suc)
    have c: "b i = w ! i" "w ! i \<noteq> 0" using i assms nth_mem by (fastforce simp: starts_def)+
    have "n = length w - Suc i" "Suc i \<le> length w" using Suc.hyps(2) i by simp_all
    from Suc.hyps(1) [OF this] show ?case using c stoi_from.simps [of b i r] by (simp add: d)
  qed
  from this [of 0 0] show ?thesis by (simp add: stoi_def number_def)
qed

lemma is_cmd_starts:
  assumes "starts b w" and "0 \<notin> set w" and "0 \<notin> set s"
  shows "is_cmd b s = Some (w = s)"
proof -
  have z: "w ! i \<noteq> 0" if "i < length w" for i using assms(2) nth_mem that by metis
  have zs: "s ! i \<noteq> 0" if "i < length s" for i using assms(3) nth_mem that by metis
  have "i \<le> length w \<Longrightarrow> i \<le> length s \<Longrightarrow> take i w = take i s \<Longrightarrow> \<exists>r. strcmp_from b (cstr s) i = Some r \<and> (r = 0 \<longleftrightarrow> w = s)" for i
  proof (induction "length w - i" arbitrary: i)
    case 0
    then have "b i = 0" "i = length w" using assms(1) by (simp_all add: starts_def)
    moreover have "cstr s i = 0 \<longleftrightarrow> i = length s" using zs 0 by (auto simp: cstr_def)
    moreover have "w = s \<longleftrightarrow> i = length s" using 0 \<open>i = length w\<close> by auto
    ultimately show ?case using strcmp_from.simps [of b "cstr s" i] by (auto simp: unsigned_eq_0_iff)
  next
    case (Suc n)
    then have i: "i < length w" by simp
    have bi: "b i = w ! i" using assms(1) i by (simp add: starts_def)
    show ?case
    proof (cases "i < length s \<and> w ! i = s ! i")
      case True
      have "take (Suc i) w = take (Suc i) s" using Suc.prems(3) True i by (simp add: take_Suc_conv_app_nth)
      moreover have "n = length w - Suc i" "Suc i \<le> length w" "Suc i \<le> length s" using Suc.hyps(2) i True by simp_all
      ultimately obtain r where "strcmp_from b (cstr s) (Suc i) = Some r" "r = 0 \<longleftrightarrow> w = s" using Suc.hyps(1) by blast
      then show ?thesis using bi True z [OF i] strcmp_from.simps [of b "cstr s" i] by (simp add: cstr_def)
    next
      case False
      have ne: "cstr s i \<noteq> w ! i" using False z [OF i] by (auto simp: cstr_def)
      have "w \<noteq> s" using False i by auto
      moreover have "uint (w ! i) \<noteq> uint (cstr s i)" using ne by (simp add: word_uint_eq_iff)
      ultimately show ?thesis using bi ne strcmp_from.simps [of b "cstr s" i] by auto
    qed
  qed
  from this [of 0] obtain r where "strcmp b (cstr s) = Some r" "r = 0 \<longleftrightarrow> w = s" by (auto simp: strcmp_def)
  then show ?thesis by (simp add: is_cmd_def)
qed

lemma split_word_nul: "0 \<notin> set l \<Longrightarrow> 0 \<notin> set (fst (split_word l)) \<and> 0 \<notin> set (snd (split_word l))"
proof -
  assume z: "0 \<notin> set l"
  have "x \<in> set (tl d) \<Longrightarrow> x \<in> set d" for x :: byte and d by (cases d) auto
  then show ?thesis using z by (auto simp: split_word_def dest: set_takeWhileD set_dropWhileD)
qed

lemma split_word_Cons: "split_word (c # l) = (if c = 32 then ([], l) else (c # fst (split_word l), snd (split_word l)))"
  by (simp add: split_word_def)

lemma getword_from_list:
  assumes "0 \<notin> set L"
  shows "i \<le> length L \<Longrightarrow> \<exists>v. getword_from (cstr L) i k w = Some (length L - length (snd (split_word (drop i L))), v)
    \<and> (\<forall>j<k. v j = w j) \<and> starts (\<lambda>j. v (k + j)) (fst (split_word (drop i L)))
    \<and> drop (length L - length (snd (split_word (drop i L)))) L = snd (split_word (drop i L))"
proof (induction "length L - i" arbitrary: i k w)
  case 0
  then have "drop i L = []" "cstr L i = 0" by (simp_all add: cstr_def)
  then show ?case using 0 getword_from.simps [of "cstr L" i k w] by (simp add: split_word_def starts_def)
next
  case (Suc n)
  then have i: "i < length L" by simp
  have d: "drop i L = L ! i # drop (Suc i) L" using i by (simp add: Cons_nth_drop_Suc)
  have c: "cstr L i = L ! i" "L ! i \<noteq> 0" using i assms nth_mem by (fastforce simp: cstr_def)+
  show ?case
  proof (cases "L ! i = 32")
    case True
    then show ?thesis using c i getword_from.simps [of "cstr L" i k w] by (simp add: d split_word_Cons starts_def)
  next
    case False
    have "n = length L - Suc i" "Suc i \<le> length L" using Suc.hyps(2) i by simp_all
    from Suc.hyps(1) [OF this, of "Suc k" "w(k := L ! i)"] obtain v
      where v: "getword_from (cstr L) (Suc i) (Suc k) (w(k := L ! i)) = Some (length L - length (snd (split_word (drop (Suc i) L))), v)"
        "\<forall>j<Suc k. v j = (w(k := L ! i)) j" "starts (\<lambda>j. v (Suc k + j)) (fst (split_word (drop (Suc i) L)))"
        "drop (length L - length (snd (split_word (drop (Suc i) L)))) L = snd (split_word (drop (Suc i) L))" by blast
    have "starts (\<lambda>j. v (k + j)) (L ! i # fst (split_word (drop (Suc i) L)))"
      unfolding starts_def
    proof (intro conjI allI impI)
      fix j assume "j < length (L ! i # fst (split_word (drop (Suc i) L)))"
      then show "v (k + j) = (L ! i # fst (split_word (drop (Suc i) L))) ! j" using v(2,3) by (cases j) (auto simp: starts_def)
    qed (use v(3) in \<open>simp add: starts_def\<close>)
    then show ?thesis using False c v getword_from.simps [of "cstr L" i k w] by (simp add: d split_word_Cons)
  qed
qed

lemma next_word_list:
  assumes "0 \<notin> set L" and "i \<le> length L"
  shows "drop i L = [] \<Longrightarrow> next_word prg (cstr L) (Buf i) w = Some None"
    "drop i L \<noteq> [] \<Longrightarrow> \<exists>j v. next_word prg (cstr L) (Buf i) w = Some (Some (Buf j, v)) \<and> starts v (fst (split_word (drop i L)))
       \<and> drop j L = snd (split_word (drop i L)) \<and> j \<le> length L"
proof -
  show "drop i L = [] \<Longrightarrow> next_word prg (cstr L) (Buf i) w = Some None"
    by (simp add: next_word_def getword_def cstr_def)
  assume d: "drop i L \<noteq> []"
  then have "i < length L" by simp
  then have z: "cstr L i \<noteq> 0" using assms(1) nth_mem by (fastforce simp: cstr_def)
  from getword_from_list [OF assms, of 0] obtain v
    where "getword_from (cstr L) i 0 (\<lambda>k. if k < 100 then 0 else w k) = Some (length L - length (snd (split_word (drop i L))), v)"
      "starts v (fst (split_word (drop i L)))" "drop (length L - length (snd (split_word (drop i L)))) L = snd (split_word (drop i L))" by auto
  then show "\<exists>j v. next_word prg (cstr L) (Buf i) w = Some (Some (Buf j, v)) \<and> starts v (fst (split_word (drop i L)))
       \<and> drop j L = snd (split_word (drop i L)) \<and> j \<le> length L"
    using z by (intro exI [of _ "length L - length (snd (split_word (drop i L)))"]) (simp add: next_word_def getword_def)
qed

section \<open>A line does what it means\<close>

lemma two_args_list:
  assumes "0 \<notin> set L" and "i \<le> length L" and "drop i L = r"
  shows "r = [] \<or> snd (split_word r) = [] \<Longrightarrow> \<exists>st'. two_args prg (cstr L) (Buf i) st f = Some (Say ''invalid option'', st')"
    "r \<noteq> [] \<Longrightarrow> snd (split_word r) \<noteq> [] \<Longrightarrow> \<exists>st'. two_args prg (cstr L) (Buf i) st f = f st'
       \<and> starts (pm_arg0 st') (fst (split_word r)) \<and> starts (pm_arg1 st') (fst (split_word (snd (split_word r))))"
proof -
  note n = next_word_list [OF assms(1,2)]
  have a: "\<exists>j v. next_word prg (cstr L) (Buf i) (pm_arg0 st) = Some (Some (Buf j, v)) \<and> starts v (fst (split_word r)) \<and> drop j L = snd (split_word r) \<and> j \<le> length L"
    if "r \<noteq> []" using n(2) [of prg "pm_arg0 st"] that assms(3) by simp
  show "\<exists>st'. two_args prg (cstr L) (Buf i) st f = Some (Say ''invalid option'', st')" if e: "r = [] \<or> snd (split_word r) = []"
  proof (cases "r = []")
    case True
    then show ?thesis using n(1) [of prg "pm_arg0 st"] assms(3) by (simp add: two_args_def)
  next
    case False
    then obtain j v where "next_word prg (cstr L) (Buf i) (pm_arg0 st) = Some (Some (Buf j, v))" "drop j L = []" "j \<le> length L"
      using a e by auto
    then show ?thesis using next_word_list(1) [OF assms(1), of j prg "pm_arg1 st"] by (simp add: two_args_def Let_def)
  qed
  assume "r \<noteq> []" "snd (split_word r) \<noteq> []"
  then obtain j v where j: "next_word prg (cstr L) (Buf i) (pm_arg0 st) = Some (Some (Buf j, v))" "starts v (fst (split_word r))"
      "drop j L = snd (split_word r)" "j \<le> length L" using a by blast
  obtain j' v' where "next_word prg (cstr L) (Buf j) (pm_arg1 st) = Some (Some (Buf j', v'))" "starts v' (fst (split_word (snd (split_word r))))"
    using next_word_list(2) [OF assms(1) j(4), of prg "pm_arg1 st"] j(3) \<open>snd (split_word r) \<noteq> []\<close> by auto
  then show "\<exists>st'. two_args prg (cstr L) (Buf i) st f = f st' \<and> starts (pm_arg0 st') (fst (split_word r)) \<and> starts (pm_arg1 st') (fst (split_word (snd (split_word r))))"
    using j(1,2) by (intro exI [of _ "st\<lparr>pm_arg0 := v, pm_arg1 := v'\<rparr>"]) (simp add: two_args_def Let_def)
qed

lemma cmd_words: "0 \<notin> set s_list" "0 \<notin> set s_kill" "0 \<notin> set s_execute" "0 \<notin> set s_memlim" "0 \<notin> set s_exit"
  "distinct [s_list, s_kill, s_execute, s_memlim, s_exit]"
  by (simp_all add: s_list_def s_kill_def s_execute_def s_memlim_def s_exit_def)

lemma line_does:
  assumes "L \<noteq> []" and "0 \<notin> set L"
  shows "\<exists>a st'. pm_line prg (cstr L) st = Some (a, st') \<and> does a (meaning_of L)"
proof -
  obtain c r where cr: "split_word L = (c, r)" by fastforce
  obtain a r' where ar: "split_word r = (a, r')" by fastforce
  obtain b r'' where br: "split_word r' = (b, r'')" by fastforce
  have nul: "0 \<notin> set c" "0 \<notin> set r" "0 \<notin> set a" "0 \<notin> set r'" "0 \<notin> set b"
    using split_word_nul [OF assms(2)] split_word_nul [of r] split_word_nul [of r'] cr ar br by auto
  obtain j v where j: "next_word prg (cstr L) (Buf 0) (pm_cmd st) = Some (Some (Buf j, v))" "starts v c" "drop j L = r" "j \<le> length L"
    using next_word_list(2) [OF assms(2), of 0 prg "pm_cmd st"] assms(1) cr by auto
  define st1 where "st1 = st\<lparr>pm_cmd := v\<rparr>"
  have is_c: "is_cmd v s = Some (c = s)" if "0 \<notin> set s" for s using is_cmd_starts [OF j(2) nul(1) that] .
  have line: "pm_line prg (cstr L) st =
     (if c = s_list then Some (Show_procs, st1) else if c = s_kill then pm_kill prg (cstr L) (Buf j) st1
      else if c = s_execute then pm_execute prg (cstr L) (Buf j) st1 else if c = s_memlim then pm_memlim prg (cstr L) (Buf j) st1
      else Some (if c = s_exit then Terminate else Say ''undefined command'', st1))"
    using j(1) is_c cmd_words by (simp add: pm_line_def st1_def)
  have mean: "meaning_of L =
     (if c = s_list then M_list
      else if c = s_kill then
        (if r = [] then M_say ''invalid pid'' else case number a of None \<Rightarrow> M_say ''invalid pid'' | Some n \<Rightarrow> M_kill n)
      else if c = s_execute then
        (if r = [] \<or> r' = [] then M_say ''invalid option''
         else case number b of None \<Rightarrow> M_say ''invalid stacksize'' | Some n \<Rightarrow> M_execute a n)
      else if c = s_memlim then
        (if r = [] \<or> r' = [] then M_say ''invalid option''
         else case (number a, number b) of (Some x, Some y) \<Rightarrow> M_memlim x y | _ \<Rightarrow> M_say ''invalid option'')
      else if c = s_exit then M_exit
      else M_say ''undefined command'')"
    using cr ar br by (simp add: meaning_of_def)
  have kill: "\<exists>x st'. pm_kill prg (cstr L) (Buf j) st1 = Some (x, st')
      \<and> does x (if r = [] then M_say ''invalid pid'' else case number a of None \<Rightarrow> M_say ''invalid pid'' | Some n \<Rightarrow> M_kill n)"
  proof (cases "r = []")
    case True
    then show ?thesis using next_word_list(1) [OF assms(2) j(4), of prg "pm_arg0 st1"] j(3) by (simp add: pm_kill_def)
  next
    case False
    then obtain k w where "next_word prg (cstr L) (Buf j) (pm_arg0 st1) = Some (Some (Buf k, w))" "starts w a"
      using next_word_list(2) [OF assms(2) j(4), of prg "pm_arg0 st1"] j(3) ar by auto
    then show ?thesis using False stoi_starts [of w a] nul(3) by (simp add: pm_kill_def Let_def split: option.split)
  qed
  have exe: "\<exists>x st'. pm_execute prg (cstr L) (Buf j) st1 = Some (x, st')
      \<and> does x (if r = [] \<or> r' = [] then M_say ''invalid option'' else case number b of None \<Rightarrow> M_say ''invalid stacksize'' | Some n \<Rightarrow> M_execute a n)"
  proof (cases "r = [] \<or> r' = []")
    case True
    then show ?thesis using two_args_list(1) [OF assms(2) j(4,3)] ar by (fastforce simp: pm_execute_def)
  next
    case False
    then obtain u where "pm_execute prg (cstr L) (Buf j) st1 = Option.bind (stoi (pm_arg1 u)) (\<lambda>n. Some (case n of None \<Rightarrow> Say ''invalid stacksize'' | Some n \<Rightarrow> Execute (pm_arg0 u) n, u))"
        "starts (pm_arg0 u) a" "starts (pm_arg1 u) b"
      using two_args_list(2) [OF assms(2) j(4,3)] ar br unfolding pm_execute_def by fastforce
    then show ?thesis using False stoi_starts [of "pm_arg1 u" b] nul(5) by (simp split: option.split)
  qed
  have mem: "\<exists>x st'. pm_memlim prg (cstr L) (Buf j) st1 = Some (x, st')
      \<and> does x (if r = [] \<or> r' = [] then M_say ''invalid option'' else case (number a, number b) of (Some x, Some y) \<Rightarrow> M_memlim x y | _ \<Rightarrow> M_say ''invalid option'')"
  proof (cases "r = [] \<or> r' = []")
    case True
    then show ?thesis using two_args_list(1) [OF assms(2) j(4,3)] ar by (fastforce simp: pm_memlim_def)
  next
    case False
    then obtain u where "pm_memlim prg (cstr L) (Buf j) st1 = Option.bind (stoi (pm_arg0 u)) (\<lambda>pid. case pid of
         None \<Rightarrow> Some (Say ''invalid option'', u)
       | Some pid \<Rightarrow> Option.bind (stoi (pm_arg1 u)) (\<lambda>limit. Some (case limit of None \<Rightarrow> Say ''invalid option'' | Some limit \<Rightarrow> Set_limit pid limit, u)))"
        "starts (pm_arg0 u) a" "starts (pm_arg1 u) b"
      using two_args_list(2) [OF assms(2) j(4,3)] ar br unfolding pm_memlim_def by fastforce
    then show ?thesis using False stoi_starts [of "pm_arg1 u" b] stoi_starts [of "pm_arg0 u" a] nul(3,5) by (simp split: option.split)
  qed
  show ?thesis unfolding line mean using kill exe mem cmd_words(6) by auto
qed

section \<open>A session\<close>

lemma strlen_starts:
  assumes "starts b w" and "0 \<notin> set w"
  shows "strlen b = Some (length w)"
proof -
  have "i \<le> length w \<Longrightarrow> strlen_from b i = Some (length w)" for i
  proof (induction "length w - i" arbitrary: i)
    case 0
    then show ?case using assms(1) strlen_from.simps [of b i] by (simp add: starts_def)
  next
    case (Suc n)
    then have i: "i < length w" by simp
    have "b i \<noteq> 0" using i assms nth_mem by (fastforce simp: starts_def)
    moreover have "n = length w - Suc i" "Suc i \<le> length w" using Suc.hyps(2) i by simp_all
    ultimately show ?case using Suc.hyps(1) strlen_from.simps [of b i] by simp
  qed
  then show ?thesis by (simp add: strlen_def)
qed

lemma gets_line: "10 \<notin> set l \<Longrightarrow> 13 \<notin> set l \<Longrightarrow> length l < n \<Longrightarrow> gets_from n (l @ 10 # r) = (l @ [10], r)"
proof (induction l arbitrary: n)
  case Nil
  then show ?case by (cases n) auto
next
  case (Cons c l)
  then show ?case by (cases n) auto
qed

definition line_ok :: "byte list \<Rightarrow> bool" where
  "line_ok l \<longleftrightarrow> l \<noteq> [] \<and> length l < 99 \<and> set l \<inter> {0, 10, 13} = {}"

lemma pm_getcmd_line:
  assumes "line_ok l"
  shows "pm_getcmd (l @ 10 # r) = Some (cstr l, r)"
proof -
  have l: "length l < 99" "0 \<notin> set l" "10 \<notin> set l" "13 \<notin> set l" "l \<noteq> []" using assms by (auto simp: line_ok_def)
  have g: "gets 100 (l @ 10 # r) = (l @ [10], r)" using gets_line [of l 99 r] l by (simp add: gets_def)
  have n: "strlen (cstr (l @ [10])) = Some (Suc (length l))"
    using strlen_starts [OF starts_cstr, of "l @ [10]"] l(2) by simp
  have "cstr (l @ [10]) 0 \<noteq> 0" using l(2,5) by (cases l) (auto simp: cstr_def)
  moreover have "cstr (l @ [10]) 99 = 0" using l(1) by (simp add: cstr_def)
  moreover have "(cstr (l @ [10]))(length l := 0) = cstr l" by (auto simp: cstr_def nth_append fun_eq_iff)
  ultimately show ?thesis using g n by (simp add: pm_getcmd_def)
qed

lemma pm_getcmd_end: "pm_getcmd [] = None"
  by (simp add: pm_getcmd_def gets_def cstr_def eval_nat_numeral)

lemma does_exit: "does a m \<Longrightarrow> a = Terminate \<longleftrightarrow> m = M_exit"
  by (cases a) auto

fun until_exit :: "meaning list \<Rightarrow> meaning list" where
  "until_exit [] = []"
| "until_exit (m # ms) = (if m = M_exit then [m] else m # until_exit ms)"

text \<open>
  C10.  The process manager does what its input says: for any sequence of lines that are not empty and fit the
  buffer, \<open>main\<close> ends and has made, for the lines in order and up to the first \<open>exit\<close>, exactly the call the line
  means: the words of the line are what its spaces separate (two spaces in a row enclose an empty word), the
  numbers are decimal modulo \<open>2 ^ 32\<close>, a missing or wrong argument gives the message of its command and no call,
  and words behind the last argument are ignored.  What earlier lines left in the variables never matters.
\<close>

theorem pmanager_does_lines:
  assumes "\<forall>l\<in>set ls. line_ok l"
  shows "\<exists>as. pm_main prg (concat (map (\<lambda>l. l @ [10]) ls)) st = Some as \<and> list_all2 does as (until_exit (map meaning_of ls))"
  using assms
proof (induction ls arbitrary: st)
  case Nil
  then show ?case by (simp add: pm_main.simps pm_getcmd_end)
next
  case (Cons l ls)
  define rest where "rest = concat (map (\<lambda>l. l @ [10]) ls)"
  have l: "l \<noteq> []" "0 \<notin> set l" "line_ok l" using Cons.prems by (auto simp: line_ok_def)
  obtain a st' where a: "pm_line prg (cstr l) st = Some (a, st')" "does a (meaning_of l)"
    using line_does [OF l(1,2)] by blast
  obtain as where as: "pm_main prg rest st' = Some as" "list_all2 does as (until_exit (map meaning_of ls))"
    using Cons.IH [of st'] Cons.prems by (auto simp: rest_def)
  have "pm_main prg (l @ 10 # rest) st = (if a = Terminate then Some [a] else Some (a # as))"
    using pm_getcmd_line [OF l(3), of rest] a(1) as(1) by (simp add: pm_main.simps [of prg "l @ 10 # rest"])
  then show ?case using a(2) as(2) does_exit [OF a(2)]
    by (cases "meaning_of l = M_exit") (simp_all add: rest_def)
qed

lemma pmanager_does_lines_witness:
  "\<exists>as. pm_main (\<lambda>_. 0) (concat (map (\<lambda>l. l @ [10]) [[107, 105, 108, 108, 32, 49, 50], s_exit, s_list])) \<lparr>pm_cmd = \<lambda>_. 0, pm_arg0 = \<lambda>_. 0, pm_arg1 = \<lambda>_. 0\<rparr> = Some as
     \<and> list_all2 does as [M_kill 12, M_exit]"
proof -
  have m: "until_exit (map meaning_of [[107, 105, 108, 108, 32, 49, 50], s_exit, s_list]) = [M_kill 12, M_exit]"
    by (simp add: meaning_of_def split_word_def number_def digit_def digit_val_def s_list_def s_kill_def s_execute_def s_memlim_def s_exit_def)
  have "\<forall>l\<in>set [[107, 105, 108, 108, 32, 49, 50], s_exit, s_list]. line_ok l"
    by (simp add: line_ok_def s_exit_def s_list_def)
  from pmanager_does_lines [OF this, unfolded m] show ?thesis .
qed

end
