(* ===== verification/Grep.thy ===== *)
theory Grep
  imports Cstring_Props
begin

text \<open>
  \<open>grep.c\<close>: the matcher of Kernighan and Pike for patterns of \<open>^ . * $\<close> and characters, and the loop that cuts the
  input into lines.  The matcher decides exactly whether the line contains a string of the language of the
  pattern, and a file of lines that fit the buffer is filtered by it.

  A pointer into a string that is only read is the rest of the string from there on, a list of bytes that ends
  before the NUL; \<open>cstr s i\<close> is \<open>s[i]\<close>.
\<close>

section \<open>The program\<close>

function matchhere :: "byte list \<Rightarrow> byte list \<Rightarrow> bool"
  and matchstar :: "byte \<Rightarrow> byte list \<Rightarrow> byte list \<Rightarrow> bool" where
  "matchhere re t =
     (if cstr re 0 = 0 then True
      else if cstr re 1 = 42 then matchstar (cstr re 0) (drop 2 re) t
      else if cstr re 0 = 36 \<and> cstr re 1 = 0 then cstr t 0 = 0
      else if cstr t 0 \<noteq> 0 \<and> (cstr re 0 = 46 \<or> cstr re 0 = cstr t 0) then matchhere (drop 1 re) (drop 1 t)
      else False)"
| "matchstar c re t =
     (if matchhere re t then True
      else if cstr t 0 \<noteq> 0 \<and> (cstr t 0 = c \<or> c = 46) then matchstar c re (drop 1 t)
      else False)"
  by pat_completeness auto
termination
  by (relation "inv_image (less_than <*lex*> less_than <*lex*> less_than)
        (\<lambda>x. case x of Inl (re, t) \<Rightarrow> (length re, length t, 0) | Inr (c, re, t) \<Rightarrow> (length re, length t, 1 :: nat))")
    (auto simp: cstr_def split: if_splits)

declare matchhere.simps [simp del] matchstar.simps [simp del]

text \<open>The loop of \<open>match\<close> tries the text from every byte on and, last, the empty rest.\<close>

fun match_from :: "byte list \<Rightarrow> byte list \<Rightarrow> bool" where
  "match_from re [] = matchhere re []"
| "match_from re (c # t) = (if matchhere re (c # t) then True else if c \<noteq> 0 then match_from re t else False)"

definition match :: "byte list \<Rightarrow> byte list \<Rightarrow> bool" where
  "match re t = (if cstr re 0 = 94 then matchhere (drop 1 re) t else match_from re t)"

lemma strchr_from_found: "strchr_from s c i = Some (Some k) \<Longrightarrow> s k = c \<and> s k \<noteq> 0"
proof -
  assume a: "strchr_from s c i = Some (Some k)"
  have "\<forall>k'. Some k = Some k' \<longrightarrow> s k' = c \<and> s k' \<noteq> 0"
    by (rule strchr_from.raw_induct [where P = "\<lambda>s c i r. \<forall>k. r = Some k \<longrightarrow> s k = c \<and> s k \<noteq> 0", OF _ a])
      (auto split: if_splits)
  then show ?thesis by blast
qed

lemma strchr_found: "strchr (cstr s) c = Some (Some k) \<Longrightarrow> k < length s"
  using strchr_from_found [of "cstr s" c 0 k] by (auto simp: strchr_def cstr_def split: if_splits)

text \<open>
  The loop over the lines in \<open>buf\<close> (\<open>d\<close>, in front of its NUL): from \<open>p\<close> on to the next newline, as long as
  \<open>strchr\<close> finds one.  The result is what is written to the standard output, and the final \<open>p\<close>.
\<close>

function grep_lines :: "byte list \<Rightarrow> byte list \<Rightarrow> nat \<Rightarrow> byte list \<times> nat" where
  "grep_lines pat d p =
     (case strchr (cstr (drop p d)) 10 of
        Some (Some k) \<Rightarrow>
          let (out, p') = grep_lines pat d (p + k + 1) in
          ((if match pat (take k (drop p d)) then take (k + 1) (drop p d) else []) @ out, p')
      | _ \<Rightarrow> ([], p))"
  by pat_completeness auto
termination by (relation "measure (\<lambda>(pat, d, p). length d - p)") (auto dest: strchr_found)

declare grep_lines.simps [simp del]

text \<open>
  \<open>h\<close> is what the last round left in \<open>buf\<close> (its length is \<open>m\<close>).  The list \<open>src\<close> is what \<open>read\<close> will find, piece by
  piece: a call returns at most the count it asks for, of the first piece (a file that is open for reading is one
  piece; a pipe or the console has several); the count 0, an empty piece and the end of the list end the loop.
\<close>

function grep_loop :: "byte list \<Rightarrow> byte list \<Rightarrow> byte list list \<Rightarrow> byte list" where
  "grep_loop pat h src =
     (case src of [] \<Rightarrow> []
      | c # cs \<Rightarrow>
          let n = min (1024 - length h - 1) (length c) in
          if n = 0 then []
          else
            let d = h @ take n c; (out, p) = grep_lines pat d 0;
                h = (if p = 0 then [] else drop p d);
                src = (if n < length c then drop n c # cs else cs) in
            out @ grep_loop pat h src)"
  by pat_completeness auto
termination by (relation "measure (\<lambda>(pat, h, src). length (concat src))") auto

declare grep_loop.simps [simp del]

definition grep :: "byte list \<Rightarrow> byte list list \<Rightarrow> byte list" where
  "grep pat src = grep_loop pat [] src"

text \<open>\<open>main\<close>: the files are what \<open>open\<close> finds, and \<open>None\<close> when it fails; the second part of the result is the name
  that cannot be opened.\<close>

fun grep_files :: "(byte list \<Rightarrow> byte list list option) \<Rightarrow> byte list \<Rightarrow> byte list list \<Rightarrow> byte list \<times> byte list option" where
  "grep_files opens pat [] = ([], None)"
| "grep_files opens pat (f # fs) =
     (case opens f of None \<Rightarrow> ([], Some f)
      | Some src \<Rightarrow> let (out, e) = grep_files opens pat fs in (grep pat src @ out, e))"

definition grep_main :: "(byte list \<Rightarrow> byte list list option) \<Rightarrow> byte list list \<Rightarrow> byte list list \<Rightarrow> (byte list \<times> byte list option) option" where
  "grep_main opens stdin args =
     (case args of [] \<Rightarrow> None
      | [pat] \<Rightarrow> Some (grep pat stdin, None)
      | pat # fs \<Rightarrow> Some (grep_files opens pat fs))"

section \<open>The language of a pattern\<close>

datatype item = One byte | Many byte

definition fits :: "byte \<Rightarrow> byte \<Rightarrow> bool" where
  "fits c x \<longleftrightarrow> c = 46 \<or> c = x"

fun lang :: "item list \<Rightarrow> byte list set" where
  "lang [] = {[]}"
| "lang (One c # r) = {x # w |x w. fits c x \<and> w \<in> lang r}"
| "lang (Many c # r) = {u @ w |u w. (\<forall>x\<in>set u. fits c x) \<and> w \<in> lang r}"

text \<open>How a pattern is read: the items, and whether it is tied to the end of the line.  A \<open>*\<close> is special behind a
  character, whatever the character is, and \<open>$\<close> only as the last one.\<close>

fun items :: "byte list \<Rightarrow> item list \<times> bool" where
  "items [] = ([], False)"
| "items [c] = (if c = 36 then ([], True) else ([One c], False))"
| "items (c # d # r) = (if d = 42 then apfst ((#) (Many c)) (items r) else apfst ((#) (One c)) (items (d # r)))"

definition begins :: "byte list \<Rightarrow> byte list \<Rightarrow> bool" where
  "begins re t \<longleftrightarrow> (\<exists>w v. t = w @ v \<and> w \<in> lang (fst (items re)) \<and> (snd (items re) \<longrightarrow> v = []))"

definition contains :: "byte list \<Rightarrow> byte list \<Rightarrow> bool" where
  "contains re t \<longleftrightarrow>
     (if re \<noteq> [] \<and> hd re = 94 then begins (tl re) t else \<exists>u t'. t = u @ t' \<and> begins re t')"

section \<open>The matcher decides the language\<close>

lemma begins_Nil: "begins [] t"
  by (simp add: begins_def)

lemma begins_last: "begins [c] t \<longleftrightarrow> (if c = 36 then t = [] else \<exists>x t'. t = x # t' \<and> fits c x)"
proof (cases "c = 36")
  case False
  have "begins [c] t \<longleftrightarrow> (\<exists>w v. t = w @ v \<and> (\<exists>x. w = [x] \<and> fits c x))" using False by (auto simp: begins_def)
  also have "\<dots> \<longleftrightarrow> (\<exists>x t'. t = x # t' \<and> fits c x)" by (metis append_Cons append_Nil)
  finally show ?thesis using False by simp
qed (simp add: begins_def)

lemma begins_many: "begins (c # 42 # r) t \<longleftrightarrow> (\<exists>u t'. t = u @ t' \<and> (\<forall>x\<in>set u. fits c x) \<and> begins r t')" (is "?L \<longleftrightarrow> ?R")
proof
  assume ?L
  then obtain u w v where "t = (u @ w) @ v" "\<forall>x\<in>set u. fits c x" "w \<in> lang (fst (items r))" "snd (items r) \<longrightarrow> v = []"
    unfolding begins_def by auto blast
  then have "t = u @ (w @ v)" "\<forall>x\<in>set u. fits c x" "w \<in> lang (fst (items r))" "snd (items r) \<longrightarrow> v = []" by simp_all
  then show ?R unfolding begins_def by blast
next
  assume ?R
  then obtain u w v where t: "t = (u @ w) @ v" and "\<forall>x\<in>set u. fits c x" "w \<in> lang (fst (items r))" "snd (items r) \<longrightarrow> v = []"
    unfolding begins_def by auto
  then have "u @ w \<in> lang (fst (items (c # 42 # r)))" "snd (items (c # 42 # r)) \<longrightarrow> v = []" by auto
  then show ?L unfolding begins_def using t by blast
qed

lemma begins_one:
  assumes "d \<noteq> 42"
  shows "begins (c # d # r) t \<longleftrightarrow> (\<exists>x t'. t = x # t' \<and> fits c x \<and> begins (d # r) t')" (is "?L \<longleftrightarrow> ?R")
proof
  assume ?L
  then obtain x w v where "t = x # (w @ v)" "fits c x" "w \<in> lang (fst (items (d # r)))" "snd (items (d # r)) \<longrightarrow> v = []"
    using assms unfolding begins_def by auto blast
  then show ?R unfolding begins_def by blast
next
  assume ?R
  then obtain x w v where t: "t = (x # w) @ v" and "fits c x" "w \<in> lang (fst (items (d # r)))" "snd (items (d # r)) \<longrightarrow> v = []"
    unfolding begins_def by auto
  then have "x # w \<in> lang (fst (items (c # d # r)))" "snd (items (c # d # r)) \<longrightarrow> v = []" using assms by auto
  then show ?L unfolding begins_def using t by blast
qed

lemmas begins_simps = begins_Nil begins_last begins_many begins_one

lemma begins_many_Cons:
  "(\<exists>u t'. t = u @ t' \<and> (\<forall>x\<in>set u. fits c x) \<and> P t') \<longleftrightarrow>
     P t \<or> (\<exists>x r. t = x # r \<and> fits c x \<and> (\<exists>u t'. r = u @ t' \<and> (\<forall>x\<in>set u. fits c x) \<and> P t'))"
  (is "?L \<longleftrightarrow> ?R")
proof
  assume ?L
  then obtain u t' where "t = u @ t'" "\<forall>x\<in>set u. fits c x" "P t'" by blast
  then show ?R by (cases u) auto
next
  assume ?R
  then show ?L
  proof
    assume "P t"
    then have "t = [] @ t \<and> (\<forall>x\<in>set []. fits c x) \<and> P t" by simp
    then show ?L by blast
  next
    assume "\<exists>x r. t = x # r \<and> fits c x \<and> (\<exists>u t'. r = u @ t' \<and> (\<forall>x\<in>set u. fits c x) \<and> P t')"
    then obtain x u t' where "t = (x # u) @ t'" "fits c x" "\<forall>x\<in>set u. fits c x" "P t'" by auto
    then have "t = (x # u) @ t' \<and> (\<forall>x\<in>set (x # u). fits c x) \<and> P t'" by simp
    then show ?L by blast
  qed
qed

lemma matchhere_begins:
  "0 \<notin> set re \<Longrightarrow> 0 \<notin> set t \<Longrightarrow> matchhere re t \<longleftrightarrow> begins re t"
  "0 \<notin> set re \<Longrightarrow> 0 \<notin> set t \<Longrightarrow> matchstar c re t \<longleftrightarrow> (\<exists>u t'. t = u @ t' \<and> (\<forall>x\<in>set u. fits c x) \<and> begins re t')"
proof (induction re t and c re t rule: matchhere_matchstar.induct)
  case (1 re t)
  note ih = "1.IH" and z = "1.prems"
  show ?case
  proof (cases re)
    case Nil
    then show ?thesis by (simp add: matchhere.simps [of "[]"] begins_simps cstr_def)
  next
    case re: (Cons c r)
    show ?thesis
    proof (cases r)
      case Nil
      show ?thesis unfolding re Nil matchhere.simps [of "[c]"]
        using z re Nil by (cases t) (auto simp: matchhere.simps [of "[]"] begins_simps cstr_def fits_def)
    next
      case r: (Cons d r')
      show ?thesis
      proof (cases "d = 42")
        case True
        show ?thesis unfolding re r matchhere.simps [of "c # d # r'"]
          using ih(1) z re r True by (simp add: begins_simps cstr_def)
      next
        case False
        show ?thesis unfolding re r matchhere.simps [of "c # d # r'"]
          using ih(2) z re r False by (cases t) (auto simp: begins_simps cstr_def fits_def)
      qed
    qed
  qed
next
  case (2 c re t)
  have z: "0 \<notin> set (drop 1 t)" using "2.prems"(2) by (auto dest: in_set_dropD)
  show ?case
    unfolding begins_many_Cons [of t c "begins re"] matchstar.simps [of c re t]
    using "2.IH" "2.prems" z by (cases t) (auto simp: cstr_def fits_def)
qed

lemma match_from_contains: "0 \<notin> set re \<Longrightarrow> 0 \<notin> set t \<Longrightarrow> match_from re t \<longleftrightarrow> (\<exists>u t'. t = u @ t' \<and> begins re t')"
proof (induction t)
  case Nil
  then show ?case by (simp add: matchhere_begins)
next
  case (Cons c t)
  then show ?case using begins_many_Cons [of "c # t" 46 "begins re"] by (auto simp: matchhere_begins fits_def)
qed

lemma match_contains:
  assumes "0 \<notin> set re" and "0 \<notin> set t"
  shows "match re t \<longleftrightarrow> contains re t"
proof (cases re)
  case Nil
  then show ?thesis using match_from_contains [OF assms] by (simp add: match_def contains_def cstr_def)
next
  case (Cons c r)
  then show ?thesis using match_from_contains [OF assms] assms matchhere_begins(1) [of r t]
    by (simp add: match_def contains_def cstr_def)
qed

section \<open>A file is filtered line by line\<close>

abbreviation lines_of :: "byte list list \<Rightarrow> byte list" where
  "lines_of ls \<equiv> concat (map (\<lambda>l. l @ [10]) ls)"

definition fitting :: "byte list \<Rightarrow> bool" where
  "fitting l \<longleftrightarrow> length l < 1023 \<and> 0 \<notin> set l \<and> 10 \<notin> set l"

lemma strchr_from_first:
  "(\<And>j. j < n \<Longrightarrow> s (i + j) \<noteq> 0 \<and> s (i + j) \<noteq> c) \<Longrightarrow> s (i + n) = 0 \<or> s (i + n) = c
   \<Longrightarrow> strchr_from s c i = Some (if s (i + n) = 0 then None else Some (i + n))"
proof (induction n arbitrary: i)
  case 0
  then show ?case using strchr_from.simps [of s c i] by auto
next
  case (Suc n)
  have "s i \<noteq> 0 \<and> s i \<noteq> c" using Suc.prems(1) [of 0] by simp
  moreover have "strchr_from s c (Suc i) = Some (if s (Suc i + n) = 0 then None else Some (Suc i + n))"
  proof (rule Suc.IH)
    show "s (Suc i + j) \<noteq> 0 \<and> s (Suc i + j) \<noteq> c" if "j < n" for j using Suc.prems(1) [of "Suc j"] that by simp
  qed (use Suc.prems(2) in simp)
  ultimately show ?case using strchr_from.simps [of s c i] by simp
qed

lemma strchr_line:
  assumes "0 \<notin> set l" and "10 \<notin> set l"
  shows "strchr (cstr (l @ 10 # r)) 10 = Some (Some (length l))" and "strchr (cstr l) 10 = Some None"
proof -
  have l: "l ! j \<noteq> 0 \<and> l ! j \<noteq> 10" if "j < length l" for j using assms nth_mem [OF that] by metis
  show "strchr (cstr (l @ 10 # r)) 10 = Some (Some (length l))"
    using strchr_from_first [of "length l" "cstr (l @ 10 # r)" 0 10] l by (simp add: strchr_def cstr_def nth_append)
  show "strchr (cstr l) 10 = Some None"
    using strchr_from_first [of "length l" "cstr l" 0 10] l by (simp add: strchr_def cstr_def)
qed

lemma grep_lines_list:
  assumes "\<forall>l\<in>set ls. fitting l" and "0 \<notin> set g" and "10 \<notin> set g"
  shows "drop p d = lines_of ls @ g \<Longrightarrow> grep_lines pat d p = (lines_of (filter (match pat) ls), p + length (lines_of ls))"
  using assms(1)
proof (induction ls arbitrary: p)
  case Nil
  then show ?case using strchr_line(2) [OF assms(2,3)] by (simp add: grep_lines.simps [of pat d p])
next
  case (Cons l ls)
  have l: "0 \<notin> set l" "10 \<notin> set l" using Cons.prems(2) by (auto simp: fitting_def)
  have d: "drop p d = l @ 10 # lines_of ls @ g" using Cons.prems(1) by simp
  have "drop (p + length l + 1) d = drop (Suc (length l)) (drop p d)" by (simp add: add.commute)
  then have "drop (p + length l + 1) d = lines_of ls @ g" unfolding d by simp
  then have "grep_lines pat d (p + length l + 1) = (lines_of (filter (match pat) ls), p + length l + 1 + length (lines_of ls))"
    using Cons.IH Cons.prems(2) by simp
  then show ?case using strchr_line(1) [OF l] by (simp add: grep_lines.simps [of pat d p] d)
qed

lemma prefix_of_lines:
  "lines_of ls = d @ r \<Longrightarrow> \<forall>l\<in>set ls. 10 \<notin> set l \<Longrightarrow>
     \<exists>ls1 ls2 g. ls = ls1 @ ls2 \<and> d = lines_of ls1 @ g \<and> 10 \<notin> set g \<and> g @ r = lines_of ls2"
proof (induction ls arbitrary: d)
  case Nil
  then show ?case by (intro exI [of _ "[]"]) simp
next
  case (Cons l ls)
  have eq: "(l @ [10]) @ lines_of ls = d @ r" using Cons.prems(1) by simp
  show ?case
  proof (cases "length d \<le> length l")
    case True
    then have "d = take (length d) l" using eq by (simp add: append_eq_append_conv_if split: if_splits)
    then have "10 \<notin> set d" using Cons.prems(2) by (metis in_set_takeD list.set_intros(1))
    then show ?thesis using Cons.prems(1) by (intro exI [of _ "[]"] exI [of _ "l # ls"] exI [of _ d]) simp
  next
    case False
    then obtain d' where d': "d = (l @ [10]) @ d'" "lines_of ls = d' @ r"
      using eq by (auto simp: append_eq_append_conv2 append_eq_Cons_conv Cons_eq_append_conv)
    obtain ls1 ls2 g where "ls = ls1 @ ls2" "d' = lines_of ls1 @ g" "10 \<notin> set g" "g @ r = lines_of ls2"
      using Cons.IH [OF d'(2)] Cons.prems(2) by auto
    then show ?thesis using d'(1) by (intro exI [of _ "l # ls1"] exI [of _ ls2] exI [of _ g]) simp
  qed
qed

lemma grep_loop_step:
  assumes "n = min (1024 - length h - 1) (length c)" and "n \<noteq> 0" and "grep_lines pat (h @ take n c) 0 = (out, p)"
  shows "grep_loop pat h [c] = out @ grep_loop pat (if p = 0 then [] else drop p (h @ take n c)) (if n < length c then [drop n c] else [])"
  by (subst grep_loop.simps) (use assms in \<open>simp only: list.case Let_def assms(1) [symmetric] if_False prod.case\<close>)

lemma grep_loop_end: "grep_loop pat h [] = []"
  by (subst grep_loop.simps) simp

lemma before_newline: "d @ r = l @ c # x \<Longrightarrow> c \<notin> set d \<Longrightarrow> length d \<le> length l"
  by (auto simp: append_eq_append_conv2 append_eq_Cons_conv)

lemma lines_of_no_newline: "10 \<notin> set (lines_of ls) \<Longrightarrow> ls = []"
  by (cases ls) auto

lemma grep_loop_lines:
  assumes "h @ c = lines_of ls" and "10 \<notin> set h" and "\<forall>l\<in>set ls. fitting l"
  shows "grep_loop pat h [c] = lines_of (filter (match pat) ls)"
  using assms
proof (induction "length c" arbitrary: h c ls rule: less_induct)
  case less
  show ?case
  proof (cases ls)
    case Nil
    then show ?thesis using less.prems(1) by (simp add: grep_loop.simps [of pat "[]" "[[]]"])
  next
    case (Cons l ls')
    have l: "length l < 1023" "h @ c = l @ 10 # lines_of ls'" using less.prems Cons by (auto simp: fitting_def)
    have hl: "length h \<le> length l" using before_newline [OF l(2) less.prems(2)] .
    define n where "n = min (1024 - length h - 1) (length c)"
    have c: "c \<noteq> []" using l(2) less.prems(2) by auto
    have n: "n \<noteq> 0" using c hl l(1) by (simp add: n_def)
    have all: "lines_of ls = (h @ take n c) @ drop n c" using less.prems(1) by simp
    obtain ls1 ls2 g where s: "ls = ls1 @ ls2" "h @ take n c = lines_of ls1 @ g" "10 \<notin> set g" "g @ drop n c = lines_of ls2"
      using prefix_of_lines [OF all] less.prems(3) by (auto simp: fitting_def)
    have "0 \<notin> set (lines_of ls)" using less.prems(3) by (auto simp: fitting_def)
    then have z: "0 \<notin> set g" using all s(2) by auto
    have ne: "ls1 \<noteq> []"
    proof
      assume e: "ls1 = []"
      then have "(h @ take n c) @ drop n c = l @ 10 # lines_of ls'" "10 \<notin> set (h @ take n c)"
        using less.prems(1) Cons s(2,3) unfolding append_assoc append_take_drop_id by simp_all
      then have "length (h @ take n c) \<le> length l" by (rule before_newline)
      moreover have "length (h @ take n c) = length h + n" by (simp add: n_def)
      ultimately have "n = length c" using l(1) by (auto simp: n_def)
      then have "10 \<in> set g" using all s(2) e Cons by auto
      then show False using s(3) by simp
    qed
    have f: "\<forall>l\<in>set ls1. fitting l" "\<forall>l\<in>set ls2. fitting l" using less.prems(3) s(1) by auto
    have g: "grep_lines pat (h @ take n c) 0 = (lines_of (filter (match pat) ls1), length (lines_of ls1))"
      using grep_lines_list [OF f(1) z s(3), of 0 "h @ take n c" pat] s(2) by simp
    have rest: "grep_loop pat g (if n < length c then [drop n c] else []) = lines_of (filter (match pat) ls2)"
    proof (cases "n < length c")
      case True
      have "length (drop n c) < length c" using True n by simp
      from less.hyps [OF this s(4,3) f(2)] show ?thesis using True by (simp only: if_True)
    next
      case False
      then have "drop n c = []" by simp
      then have "g = lines_of ls2" using s(4) by (metis append_Nil2)
      then have "ls2 = []" using s(3) lines_of_no_newline by metis
      then show ?thesis using False grep_loop_end by simp
    qed
    have p: "length (lines_of ls1) \<noteq> 0" using ne by (cases ls1) auto
    have dr: "drop (length (lines_of ls1)) (h @ take n c) = g" unfolding s(2) by simp
    have "grep_loop pat h [c] = lines_of (filter (match pat) ls1) @ grep_loop pat g (if n < length c then [drop n c] else [])"
      using grep_loop_step [OF n_def n g] unfolding dr if_not_P [OF p] .
    then show ?thesis unfolding rest using s(1) by simp
  qed
qed

lemma grep_files_lines:
  assumes "\<forall>f. opens f = Some [lines_of (ls f)]" and "\<forall>f. \<forall>l\<in>set (ls f). fitting l" and "0 \<notin> set pat"
  shows "grep_files opens pat fs = (lines_of (concat (map (\<lambda>f. filter (contains pat) (ls f)) fs)), None)"
proof (induction fs)
  case (Cons f fs)
  have "filter (match pat) (ls f) = filter (contains pat) (ls f)"
    using assms(2,3) match_contains by (intro filter_cong) (auto simp: fitting_def)
  then have "grep pat [lines_of (ls f)] = lines_of (filter (contains pat) (ls f))"
    using grep_loop_lines [of "[]" "lines_of (ls f)" "ls f" pat] assms(2) by (simp add: grep_def)
  then show ?case using Cons assms(1) by simp
qed simp

text \<open>
  C9.  \<open>grep pattern files\<close> prints, file by file and in order, exactly the lines that contain a string of the
  language of the pattern: from the start of the line on if the pattern begins with \<open>^\<close>, up to its end if it ends
  with \<open>$\<close>, where \<open>.\<close> stands for any character and \<open>c*\<close> for any number of what \<open>c\<close> stands for.  This holds for
  files of any length, although the buffer cuts them at arbitrary places, as long as each line ends with a newline
  and has at most 1022 bytes in front of it.
\<close>

theorem grep_prints_matches:
  assumes "\<forall>f. opens f = Some [lines_of (ls f)]" and "\<forall>f. \<forall>l\<in>set (ls f). fitting l" and "0 \<notin> set pat" and "fs \<noteq> []"
  shows "grep_main opens stdin (pat # fs) = Some (lines_of (concat (map (\<lambda>f. filter (contains pat) (ls f)) fs)), None)"
  using grep_files_lines [OF assms(1-3), of fs] assms(4) by (cases fs) (simp_all add: grep_main_def)

lemma grep_prints_matches_witness:
  "grep_main (\<lambda>f. Some [lines_of [[97, 98], [99], [98, 97]]]) [] [[94, 97, 46, 42], [102]]
     = Some (lines_of (filter (contains [94, 97, 46, 42]) [[97, 98], [99], [98, 97]]), None) \<and> contains [94, 97, 46, 42] [97, 98]"
proof -
  have f: "\<forall>f :: byte list. \<forall>l\<in>set [[97, 98], [99], [98, 97]]. fitting l" by (simp add: fitting_def)
  have "begins [97, 46, 42] [97, 98]"
  proof -
    have "begins [46, 42] [98]"
      unfolding begins_many by (intro exI [of _ "[98]"] exI [of _ "[]"]) (simp add: fits_def begins_Nil)
    then show ?thesis by (simp add: begins_one fits_def)
  qed
  then show ?thesis
    using grep_prints_matches [of "\<lambda>f. Some [lines_of [[97, 98], [99], [98, 97]]]" "\<lambda>f. [[97, 98], [99], [98, 97]]" "[94, 97, 46, 42]" "[[102]]" "[]"] f
    by (simp add: contains_def)
qed

end
