(* ===== verification/Ide.thy ===== *)
theory Ide
  imports Bio
begin

unbundle bit_operations_syntax

text \<open>
  \<open>ide.c\<close> of project 3, the driver of the disk that the kernel is linked with (the memory disk of theory Bio takes
  its place in a second kernel of the Makefile): buffers wait in a queue, the controller works on the first of them,
  and its interrupt ends the request and starts the next.  The driver does one request after the other, in
  the order of the calls, and each has the effect it has on the memory disk.

  The controller is hardware.  What it receives is \<open>port_log\<close>, the bytes sent to its ports in order; what it answers
  is an argument: the list of status bytes that the reads of port \<open>0x1f7\<close> return, and the block that \<open>insl\<close> reads.  A
  status list that ends means that the device never becomes ready (\<open>Spin\<close>).  \<open>idequeue\<close> and \<open>qnext\<close>
  are pointers to buffers, \<open>None\<close> is the null pointer.  \<open>sleeping\<close> has the channel that each process (by its pid) sleeps
  on in \<open>iderw\<close>, and \<open>inside\<close> the buffer of each process that has called \<open>iderw\<close> and not returned, which the
  code has on the kernel stack of the process.  The section between \<open>acquire\<close> and \<open>release\<close> of \<open>idelock\<close> is one step.
\<close>

section \<open>The driver\<close>

definition FSSIZE :: u32 where "FSSIZE = 100000"
definition SECTOR_SIZE :: nat where "SECTOR_SIZE = 512"
definition IDE_BSY :: byte where "IDE_BSY = 0x80"
definition IDE_DRDY :: byte where "IDE_DRDY = 0x40"
definition IDE_DF :: byte where "IDE_DF = 0x20"
definition IDE_ERR :: byte where "IDE_ERR = 0x01"
definition IDE_CMD_READ :: byte where "IDE_CMD_READ = 0x20"
definition IDE_CMD_WRITE :: byte where "IDE_CMD_WRITE = 0x30"
definition IDE_CMD_RDMUL :: byte where "IDE_CMD_RDMUL = 0xc4"
definition IDE_CMD_WRMUL :: byte where "IDE_CMD_WRMUL = 0xc5"

datatype io = Outb nat byte | Outsl nat block

record ide = bcache +
  idequeue :: "nat option"
  qnext :: "nat \<Rightarrow> nat option"
  havedisk1 :: bool
  sleeping :: "int \<Rightarrow> chan option"
  inside :: "int \<Rightarrow> nat option"
  port_log :: "io list"

definition out :: "io list \<Rightarrow> 'a ide_scheme \<Rightarrow> 'a ide_scheme" where
  "out xs s = s\<lparr>port_log := port_log s @ xs\<rparr>"

text \<open>The result is true for 0 and false for -1, with the status bytes not read yet.\<close>

fun idewait :: "bool \<Rightarrow> byte list \<Rightarrow> (bool \<times> byte list) kres" where
  "idewait checkerr [] = Spin"
| "idewait checkerr (r # st) =
     (if r AND (IDE_BSY OR IDE_DRDY) \<noteq> IDE_DRDY then idewait checkerr st
      else Ok (\<not> (checkerr \<and> r AND (IDE_DF OR IDE_ERR) \<noteq> 0), st))"

definition ideinit :: "byte list \<Rightarrow> 'a ide_scheme \<Rightarrow> 'a ide_scheme kres" where
  "ideinit st s =
     kbind (idewait False st) (\<lambda>(_, st).
       let s = out [Outb 0x1f6 (0xe0 OR push_bit 4 1)] s;
           s = s\<lparr>havedisk1 := (if \<exists>r\<in>set (take 1000 st). r \<noteq> 0 then True else havedisk1 s)\<rparr>
       in Ok (out [Outb 0x1f6 (0xe0 OR push_bit 4 0)] s))"

definition idestart :: "nat option \<Rightarrow> byte list \<Rightarrow> 'a ide_scheme \<Rightarrow> 'a ide_scheme kres" where
  "idestart b st s =
     (case b of None \<Rightarrow> Panic ''idestart''
      | Some b \<Rightarrow>
          let r = bufs s b in
          if FSSIZE \<le> bblockno r then Panic ''incorrect blockno''
          else
            let sector_per_block = BSIZE div SECTOR_SIZE;
                sector = bblockno r * of_nat sector_per_block;
                read_cmd = (if sector_per_block = 1 then IDE_CMD_READ else IDE_CMD_RDMUL);
                write_cmd = (if sector_per_block = 1 then IDE_CMD_WRITE else IDE_CMD_WRMUL) in
            if 7 < sector_per_block then Panic ''idestart''
            else kbind (idewait False st) (\<lambda>_.
              let s = out [Outb 0x3f6 0, Outb 0x1f2 (of_nat sector_per_block),
                           Outb 0x1f3 (ucast (sector AND 0xff)),
                           Outb 0x1f4 (ucast (drop_bit 8 sector AND 0xff)),
                           Outb 0x1f5 (ucast (drop_bit 16 sector AND 0xff)),
                           Outb 0x1f6 (ucast (0xe0 OR push_bit 4 (bdev r AND 1) OR (drop_bit 24 sector AND 0x0f)))] s
              in Ok (if bdirty r then out [Outb 0x1f7 write_cmd, Outsl 0x1f0 (bdata r)] s
                     else out [Outb 0x1f7 read_cmd] s)))"

text \<open>\<open>wakeup\<close>, seen from the processes that sleep in \<open>iderw\<close>.\<close>

definition wakeup_on :: "chan \<Rightarrow> 'a ide_scheme \<Rightarrow> 'a ide_scheme" where
  "wakeup_on ch s = s\<lparr>sleeping := (\<lambda>p. if sleeping s p = Some ch then None else sleeping s p)\<rparr>"

text \<open>The interrupt handler; \<open>d\<close> is what \<open>insl\<close> would read.\<close>

definition ideintr :: "byte list \<Rightarrow> block \<Rightarrow> 'a ide_scheme \<Rightarrow> 'a ide_scheme kres" where
  "ideintr st d s =
     (case idequeue s of None \<Rightarrow> Ok s
      | Some b \<Rightarrow>
          let s = s\<lparr>idequeue := qnext s b\<rparr> in
          kbind (if bdirty (bufs s b) then Ok (False, st) else idewait True st) (\<lambda>(ok, st).
            let s = (if ok then setdata b d s else s);
                s = updb b (bvalid_update (\<lambda>_. True)) s;
                s = updb b (bdirty_update (\<lambda>_. False)) s;
                s = wakeup_on (ChBuf b) s
            in if idequeue s \<noteq> None then idestart (idequeue s) st s else Ok s))"

text \<open>The loop that looks for the end of the queue does not end when the queue is circular.\<close>

partial_function (option) queue_end :: "(nat \<Rightarrow> nat option) \<Rightarrow> nat \<Rightarrow> nat option" where
  "queue_end nx b = (case nx b of None \<Rightarrow> Some b | Some c \<Rightarrow> queue_end nx c)"

definition append_queue :: "nat \<Rightarrow> 'a ide_scheme \<Rightarrow> 'a ide_scheme kres" where
  "append_queue b s =
     (let s = s\<lparr>qnext := (qnext s)(b := None)\<rparr> in
      case idequeue s of None \<Rightarrow> Ok (s\<lparr>idequeue := Some b\<rparr>)
      | Some h \<Rightarrow> (case queue_end (qnext s) h of None \<Rightarrow> Spin | Some e \<Rightarrow> Ok (s\<lparr>qnext := (qnext s)(e := Some b)\<rparr>)))"

text \<open>
  \<open>iderw\<close> up to its wait, and the loop of the wait: the test, which ends the loop with the result true, and the
  sleep, from which the process comes back to the test when it is woken.
\<close>

definition ide_request :: "nat \<Rightarrow> byte list \<Rightarrow> 'a ide_scheme \<Rightarrow> 'a ide_scheme kres" where
  "ide_request b st s =
     (if \<not> holdingsleep (fpid s) (blk (bufs s b)) then Panic ''iderw: buf not locked''
      else if bvalid (bufs s b) \<and> \<not> bdirty (bufs s b) then Panic ''iderw: nothing to do''
      else if bdev (bufs s b) \<noteq> 0 \<and> \<not> havedisk1 s then Panic ''iderw: ide disk 1 not present''
      else kbind (append_queue b s) (\<lambda>s. if idequeue s = Some b then idestart (Some b) st s else Ok s))"

definition ide_wait :: "nat \<Rightarrow> 'a ide_scheme \<Rightarrow> (bool \<times> 'a ide_scheme) kres" where
  "ide_wait b s =
     (if bvalid (bufs s b) \<and> \<not> bdirty (bufs s b) then Ok (True, s)
      else Ok (False, s\<lparr>sleeping := (sleeping s)(fpid s := Some (ChBuf b))\<rparr>))"

text \<open>The call as the process sees it: when the loop ends, it returns.\<close>

definition ide_loop :: "nat \<Rightarrow> 'a ide_scheme \<Rightarrow> 'a ide_scheme kres" where
  "ide_loop b s = kbind (ide_wait b s) (\<lambda>(fin, s).
     Ok (s\<lparr>inside := (inside s)(fpid s := if fin then None else Some b)\<rparr>))"

section \<open>What the controller is asked to do\<close>

datatype command = Rd bool nat | Wr bool nat block

record ata =
  ata_reg :: "nat \<Rightarrow> byte"
  ata_sent :: "command list"

text \<open>
  The registers of the controller: \<open>0x1f3\<close> to \<open>0x1f5\<close> and the low half of \<open>0x1f6\<close> hold the sector, bit 4 of \<open>0x1f6\<close>
  the drive; a read command acts when it is sent, a write command when its data arrives.
\<close>

definition ata_drive :: "(nat \<Rightarrow> byte) \<Rightarrow> bool" where
  "ata_drive r \<longleftrightarrow> bit (r 0x1f6) 4"

definition ata_sector :: "(nat \<Rightarrow> byte) \<Rightarrow> nat" where
  "ata_sector r = unat (r 0x1f3) + 2 ^ 8 * unat (r 0x1f4) + 2 ^ 16 * unat (r 0x1f5) + 2 ^ 24 * unat (r 0x1f6 AND 0x0f)"

fun ata_step :: "io \<Rightarrow> ata \<Rightarrow> ata" where
  "ata_step (Outb p v) a =
     (let r = (ata_reg a)(p := v) in
      \<lparr>ata_reg = r, ata_sent = ata_sent a @ (if p = 0x1f7 \<and> v = 0x20 then [Rd (ata_drive r) (ata_sector r)] else [])\<rparr>)"
| "ata_step (Outsl p d) a =
     a\<lparr>ata_sent := ata_sent a @
        (if p = 0x1f0 \<and> ata_reg a 0x1f7 = 0x30 then [Wr (ata_drive (ata_reg a)) (ata_sector (ata_reg a)) d] else [])\<rparr>"

definition commands :: "io list \<Rightarrow> command list" where
  "commands xs = ata_sent (fold ata_step xs \<lparr>ata_reg = \<lambda>_. 0, ata_sent = []\<rparr>)"

definition request_of :: "buf \<Rightarrow> command" where
  "request_of r = (if bdirty r then Wr (bit (bdev r) 0) (unat (bblockno r)) (bdata r) else Rd (bit (bdev r) 0) (unat (bblockno r)))"

lemma sector_bytes:
  fixes w :: u32
  assumes "w < 100000"
  shows "unat (ucast (w AND 0xff) :: byte) + 2 ^ 8 * unat (ucast (drop_bit 8 w AND 0xff) :: byte) + 2 ^ 16 * unat (ucast (drop_bit 16 w AND 0xff) :: byte) = unat w"
    and "drop_bit 24 w AND 0x0f = 0"
proof -
  have lt: "unat w < 100000" using assms by (simp add: word_less_nat_alt)
  have b: "unat (ucast (x AND 0xff) :: byte) = unat x mod 256" for x :: u32
  proof -
    have "(0xff :: u32) = mask 8" by (simp add: mask_eq_exp_minus_1)
    then have "x AND 0xff = take_bit 8 x" by (simp add: take_bit_eq_mask)
    then show ?thesis by (simp add: unsigned_ucast_eq unat_mod take_bit_eq_mod)
  qed
  have d: "unat (drop_bit n w) = unat w div 2 ^ n" for n unfolding unat_drop_bit_eq by (rule drop_bit_eq_div)
  show "unat (ucast (w AND 0xff) :: byte) + 2 ^ 8 * unat (ucast (drop_bit 8 w AND 0xff) :: byte) + 2 ^ 16 * unat (ucast (drop_bit 16 w AND 0xff) :: byte) = unat w"
  proof -
    have "n mod 256 + 256 * (n div 256 mod 256) + 65536 * (n div 65536) = n" if "n < 100000" for n :: nat
    proof -
      have "n = 256 * (n div 256) + n mod 256" "n div 256 = 256 * (n div 256 div 256) + n div 256 mod 256"
        using div_mult_mod_eq [of n 256] div_mult_mod_eq [of "n div 256" 256] by linarith+
      moreover have "n div 256 div 256 = n div 65536" by (simp add: div_mult2_eq [symmetric])
      ultimately show ?thesis by linarith
    qed
    moreover have "unat w div 65536 mod 256 = unat w div 65536" using lt by simp
    ultimately show ?thesis unfolding b d using lt by simp
  qed
  have "unat (drop_bit 24 w) = 0" unfolding d using lt by simp
  then show "drop_bit 24 w AND 0x0f = 0" by (simp add: unat_eq_zero)
qed

lemma drive_byte:
  fixes d :: u32
  shows "bit (ucast (0xe0 OR push_bit 4 (d AND 1) OR 0) :: byte) 4 \<longleftrightarrow> bit d 0"
    and "(ucast (0xe0 OR push_bit 4 (d AND 1) OR 0) :: byte) AND 0x0f = 0"
proof -
  consider (even) "d AND 1 = 0" "\<not> bit d 0" | (odd) "d AND 1 = 1" "bit d 0"
    by (cases "even d") (simp_all add: and_one_eq odd_iff_mod_2_eq_one bit_0 even_iff_mod_2_eq_zero)
  note c = this
  show "bit (ucast (0xe0 OR push_bit 4 (d AND 1) OR 0) :: byte) 4 \<longleftrightarrow> bit d 0"
  proof (cases rule: c)
    case even
    show ?thesis unfolding even(1) using even(2) by (simp add: bit_ucast_iff)
  next
    case odd
    show ?thesis unfolding odd(1) using odd(2) by (simp add: bit_ucast_iff)
  qed
  show "(ucast (0xe0 OR push_bit 4 (d AND 1) OR 0) :: byte) AND 0x0f = 0"
  proof (cases rule: c)
    case even
    show ?thesis unfolding even(1) by simp
  next
    case odd
    show ?thesis unfolding odd(1) by simp
  qed
qed

lemma idestart_Ok:
  assumes "idestart (Some b) st s = Ok s'"
  obtains xs where "s' = s\<lparr>port_log := port_log s @ xs\<rparr>" and "commands (port_log s @ xs) = commands (port_log s) @ [request_of (bufs s b)]"
proof -
  define r where "r = bufs s b"
  have n: "bblockno r < 100000" using assms by (auto simp: idestart_def r_def FSSIZE_def Let_def split: if_splits)
  define w where "w = bblockno r"
  define xs where "xs = [Outb 0x3f6 0, Outb 0x1f2 1, Outb 0x1f3 (ucast (w AND 0xff)), Outb 0x1f4 (ucast (drop_bit 8 w AND 0xff)),
     Outb 0x1f5 (ucast (drop_bit 16 w AND 0xff)), Outb 0x1f6 (ucast (0xe0 OR push_bit 4 (bdev r AND 1) OR 0))]
     @ (if bdirty r then [Outb 0x1f7 0x30, Outsl 0x1f0 (bdata r)] else [Outb 0x1f7 0x20])"
  have sec: "drop_bit 24 w AND 0x0f = 0" "unat (ucast (w AND 0xff) :: byte) + 2 ^ 8 * unat (ucast (drop_bit 8 w AND 0xff) :: byte)
      + 2 ^ 16 * unat (ucast (drop_bit 16 w AND 0xff) :: byte) = unat w"
    using sector_bytes n w_def by auto
  have "s' = s\<lparr>port_log := port_log s @ xs\<rparr>"
    using assms sec(1)
    by (auto simp: idestart_def Let_def out_def xs_def w_def r_def BSIZE_def SECTOR_SIZE_def IDE_CMD_READ_def IDE_CMD_WRITE_def
        split: if_splits)
  moreover have "commands (port_log s @ xs) = commands (port_log s) @ [request_of r]"
    using sec(2) drive_byte [of "bdev r"]
    by (simp add: commands_def xs_def request_of_def ata_sector_def ata_drive_def w_def)
  ultimately show thesis using that by (simp add: r_def)
qed

section \<open>The queue\<close>

fun queued :: "(nat \<Rightarrow> nat option) \<Rightarrow> nat option \<Rightarrow> nat list \<Rightarrow> bool" where
  "queued nx p [] \<longleftrightarrow> p = None"
| "queued nx p (b # q) \<longleftrightarrow> p = Some b \<and> queued nx (nx b) q"

lemma queued_upd: "b \<notin> set q \<Longrightarrow> queued (nx(b := x)) p q \<longleftrightarrow> queued nx p q"
  by (induction q arbitrary: p) auto

lemma queued_append: "queued nx p (q @ c # r) \<Longrightarrow> distinct (q @ c # r) \<Longrightarrow> b \<notin> set (q @ [c]) \<Longrightarrow> nx b = None \<Longrightarrow> r = []
  \<Longrightarrow> queued (nx(c := Some b)) p (q @ [c, b])"
  by (induction q arbitrary: p) auto

lemma queue_end_last: "queued nx (Some h) (q @ [e]) \<Longrightarrow> queue_end nx h = Some e"
proof (induction q arbitrary: h)
  case Nil
  then show ?case using queue_end.simps [of nx h] by simp
next
  case (Cons c q)
  then obtain h' where h': "nx h = Some h'" "queued nx (Some h') (q @ [e])" by (cases q) auto
  then show ?case using Cons.IH queue_end.simps [of nx h] by simp
qed

lemma append_queue_Ok:
  assumes "append_queue b s = Ok s'" and "queued (qnext s) (idequeue s) q" and "distinct q" and "b \<notin> set q"
  shows "queued (qnext s') (idequeue s') (q @ [b]) \<and> (\<exists>nx h. s' = s\<lparr>qnext := nx, idequeue := h\<rparr>)"
proof (cases q rule: rev_cases)
  case Nil
  then show ?thesis using assms by (auto simp: append_queue_def)
next
  case (snoc q0 e)
  define nx where "nx = (qnext s)(b := None)"
  have qn: "queued nx (idequeue s) (q0 @ [e])" using assms(2,4) snoc by (simp add: nx_def queued_upd)
  then obtain h where h: "idequeue s = Some h" by (cases q0) auto
  have "queue_end nx h = Some e" using queue_end_last qn h by simp
  then have s': "s' = s\<lparr>qnext := nx(e := Some b)\<rparr>" using assms(1) h by (simp add: append_queue_def nx_def Let_def)
  have "queued (nx(e := Some b)) (idequeue s) (q0 @ [e, b])"
    by (rule queued_append [of nx "idequeue s" q0 e "[]"]) (use qn assms(3,4) snoc in \<open>simp_all add: nx_def\<close>)
  then show ?thesis unfolding s' snoc by (auto intro!: exI [of _ "nx(e := Some b)"] exI [of _ "idequeue s"])
qed

section \<open>Requests are served in order\<close>

type_synonym platters = "bool \<Rightarrow> nat \<Rightarrow> block"

fun perform :: "command \<Rightarrow> platters \<Rightarrow> platters" where
  "perform (Rd v n) D = D"
| "perform (Wr v n d) D = D(v := (D v)(n := d))"

text \<open>What serving a request makes of its buffer when the disk is \<open>D\<close>.\<close>

definition serve :: "platters \<Rightarrow> buf \<Rightarrow> buf" where
  "serve D r = (if bdirty r then r else r\<lparr>bdata := D (bit (bdev r) 0) (unat (bblockno r))\<rparr>)\<lparr>bvalid := True, bdirty := False\<rparr>"

datatype event = Request nat | Interrupt | Client nat buf | Run_process int | Resume nat

text \<open>
  The specification: a list of waiting buffers, of which an interrupt serves the first.  \<open>S\<close> are the commands done
  so far, \<open>D\<close> is the disk at the start; the cache may change the buffers that do not wait.
\<close>

fun spec :: "platters \<Rightarrow> event \<Rightarrow> (nat \<Rightarrow> buf) \<times> command list \<times> nat list \<Rightarrow> (nat \<Rightarrow> buf) \<times> command list \<times> nat list" where
  "spec D (Request b) (B, S, q) = (B, S, q @ [b])"
| "spec D Interrupt (B, S, []) = (B, S, [])"
| "spec D Interrupt (B, S, b # q) = (B(b := serve (fold perform S D) (B b)), S @ [request_of (B b)], q)"
| "spec D (Client b r) (B, S, q) = (B(b := r), S, q)"
| "spec D (Run_process p) (B, S, q) = (B, S, q)"
| "spec D (Resume b) (B, S, q) = (B, S, q)"

text \<open>
  The steps of the system.  The running process \<open>fpid\<close>, which does not sleep, calls \<open>iderw\<close>, or comes back to the
  test of the loop in a call it has made; the cache changes a buffer for which no process is in \<open>iderw\<close> (it is
  locked otherwise); another process that does not sleep gets the CPU.  The device: when it interrupts after a
  read, it becomes ready without an error bit, and gives what the commands it received have left in the sector.
\<close>

inductive ide_step :: "platters \<Rightarrow> event \<Rightarrow> ide \<Rightarrow> ide \<Rightarrow> bool" for D where
  request: "sleeping s (fpid s) = None \<Longrightarrow> inside s (fpid s) = None \<Longrightarrow> ide_request b st s = Ok u \<Longrightarrow> ide_loop b u = Ok s'
    \<Longrightarrow> ide_step D (Request b) s s'"
| resume: "sleeping s (fpid s) = None \<Longrightarrow> inside s (fpid s) = Some b \<Longrightarrow> ide_loop b s = Ok s' \<Longrightarrow> ide_step D (Resume b) s s'"
| interrupt: "(\<And>b. idequeue s = Some b \<Longrightarrow> \<not> bdirty (bufs s b) \<Longrightarrow> (\<exists>st'. idewait True st = Ok (True, st'))
      \<and> d = fold perform (commands (port_log s)) D (bit (bdev (bufs s b)) 0) (unat (bblockno (bufs s b))))
    \<Longrightarrow> ideintr st d s = Ok s' \<Longrightarrow> ide_step D Interrupt s s'"
| client: "(\<And>p. inside s p \<noteq> Some b) \<Longrightarrow> ide_step D (Client b r) s (s\<lparr>bufs := (bufs s)(b := r)\<rparr>)"
| run_process: "sleeping s p = None \<Longrightarrow> ide_step D (Run_process p) s (s\<lparr>fpid := p\<rparr>)"

inductive ide_run :: "platters \<Rightarrow> ide \<Rightarrow> event list \<Rightarrow> ide \<Rightarrow> bool" for D s where
  start: "ide_run D s [] s"
| more: "ide_run D s es u \<Longrightarrow> ide_step D e u v \<Longrightarrow> ide_run D s (es @ [e]) v"

definition in_flight :: "(nat \<Rightarrow> buf) \<Rightarrow> nat list \<Rightarrow> command list" where
  "in_flight B q = (case q of [] \<Rightarrow> [] | b # _ \<Rightarrow> [request_of (B b)])"

definition ide_ok :: "platters \<Rightarrow> ide \<Rightarrow> command list \<Rightarrow> nat list \<Rightarrow> bool" where
  "ide_ok D s S q \<longleftrightarrow> queued (qnext s) (idequeue s) q \<and> distinct q \<and> commands (port_log s) = S @ in_flight (bufs s) q
     \<and> (\<forall>b\<in>set q. \<not> (bvalid (bufs s b) \<and> \<not> bdirty (bufs s b)))"

text \<open>
  The processes: the one that asked for a waiting buffer sleeps on it and holds its lock; one whose request has been
  served does not sleep, and its buffer is valid and clean; every waiting buffer has its process.
\<close>

definition callers :: "(nat \<Rightarrow> buf) \<Rightarrow> (int \<Rightarrow> chan option) \<Rightarrow> (int \<Rightarrow> nat option) \<Rightarrow> nat list \<Rightarrow> bool" where
  "callers B sl ins q \<longleftrightarrow> (\<forall>p b. ins p = Some b \<longrightarrow> sl_pid (blk (B b)) = p
       \<and> (if b \<in> set q then sl p = Some (ChBuf b) else sl p = None \<and> bvalid (B b) \<and> \<not> bdirty (B b)))
     \<and> (\<forall>p. ins p = None \<longrightarrow> sl p = None) \<and> (\<forall>b\<in>set q. \<exists>p. ins p = Some b)"

definition callers_ok :: "ide \<Rightarrow> nat list \<Rightarrow> bool" where
  "callers_ok s q = callers (bufs s) (sleeping s) (inside s) q"

lemma callersD:
  assumes "callers B sl ins q"
  shows "ins p = Some b \<Longrightarrow> sl_pid (blk (B b)) = p"
    "ins p = Some b \<Longrightarrow> b \<in> set q \<Longrightarrow> sl p = Some (ChBuf b)"
    "ins p = Some b \<Longrightarrow> b \<notin> set q \<Longrightarrow> sl p = None \<and> bvalid (B b) \<and> \<not> bdirty (B b)"
    "ins p = None \<Longrightarrow> sl p = None" "b \<in> set q \<Longrightarrow> \<exists>p. ins p = Some b"
  using assms by (auto simp: callers_def)

lemma callersI:
  assumes "\<And>p b. ins p = Some b \<Longrightarrow> sl_pid (blk (B b)) = p"
    and "\<And>p b. ins p = Some b \<Longrightarrow> b \<in> set q \<Longrightarrow> sl p = Some (ChBuf b)"
    and "\<And>p b. ins p = Some b \<Longrightarrow> b \<notin> set q \<Longrightarrow> sl p = None \<and> bvalid (B b) \<and> \<not> bdirty (B b)"
    and "\<And>p. ins p = None \<Longrightarrow> sl p = None" and "\<And>b. b \<in> set q \<Longrightarrow> \<exists>p. ins p = Some b"
  shows "callers B sl ins q"
  using assms by (auto simp: callers_def)

lemma callers_waits: "callers B sl ins q \<Longrightarrow> (\<And>p. ins p \<noteq> Some b) \<Longrightarrow> b \<notin> set q"
  using callersD(5) by fastforce

definition finish :: "block \<Rightarrow> nat \<Rightarrow> bool \<Rightarrow> ide \<Rightarrow> ide" where
  "finish d b ok s = wakeup_on (ChBuf b)
     (updb b (bdirty_update (\<lambda>_. False)) (updb b (bvalid_update (\<lambda>_. True)) (if ok then setdata b d s else s)))"

definition start_next :: "byte list \<Rightarrow> ide \<Rightarrow> ide kres" where
  "start_next st s = (if idequeue s \<noteq> None then idestart (idequeue s) st s else Ok s)"

lemma ideintr_Some:
  "idequeue s = Some b \<Longrightarrow> ideintr st d s =
     kbind (if bdirty (bufs s b) then Ok (False, st) else idewait True st) (\<lambda>(ok, st). start_next st (finish d b ok (s\<lparr>idequeue := qnext s b\<rparr>)))"
  unfolding ideintr_def finish_def start_next_def Let_def by (simp only: option.case) simp

lemma finish_False: "finish d b False s = wakeup_on (ChBuf b) (s\<lparr>bufs := (bufs s)(b := (bufs s b)\<lparr>bvalid := True, bdirty := False\<rparr>)\<rparr>)"
  by (simp add: finish_def updb_def)

lemma finish_True: "finish d b True s = wakeup_on (ChBuf b) (s\<lparr>bufs := (bufs s)(b := (bufs s b)\<lparr>bdata := d, bvalid := True, bdirty := False\<rparr>)\<rparr>)"
  by (simp add: finish_def updb_def setdata_def)

lemma ideintr_ok:
  assumes ok: "ide_ok D s S (b # q)" and i: "ideintr st d s = Ok s'"
    and dev: "\<not> bdirty (bufs s b) \<Longrightarrow> (\<exists>st'. idewait True st = Ok (True, st')) \<and> d = fold perform (commands (port_log s)) D (bit (bdev (bufs s b)) 0) (unat (bblockno (bufs s b)))"
  shows "ide_ok D s' (S @ [request_of (bufs s b)]) q \<and> bufs s' = (bufs s)(b := serve (fold perform S D) (bufs s b))
    \<and> inside s' = inside s \<and> fpid s' = fpid s \<and> sleeping s' = sleeping (wakeup_on (ChBuf b) s)"
proof -
  let ?r = "bufs s b" and ?B = "(bufs s)(b := serve (fold perform S D) (bufs s b))"
  have q: "idequeue s = Some b" "queued (qnext s) (qnext s b) q" "b \<notin> set q" "distinct q"
    and log: "commands (port_log s) = S @ [request_of ?r]"
    and w: "\<forall>b\<in>set q. \<not> (bvalid (bufs s b) \<and> \<not> bdirty (bufs s b))"
    using ok by (auto simp: ide_ok_def in_flight_def)
  define u where "u = wakeup_on (ChBuf b) (s\<lparr>idequeue := qnext s b, bufs := ?B\<rparr>)"
  obtain st' where st': "start_next st' u = Ok s'"
  proof (cases "bdirty ?r")
    case True
    then have "u = finish d b False (s\<lparr>idequeue := qnext s b\<rparr>)" unfolding finish_False u_def serve_def by simp
    then show thesis using i that [of st] True by (simp add: ideintr_Some [OF q(1)])
  next
    case False
    then obtain st' where w: "idewait True st = Ok (True, st')" and d: "d = fold perform S D (bit (bdev ?r) 0) (unat (bblockno ?r))"
      using dev log by (auto simp: request_of_def)
    have "u = finish d b True (s\<lparr>idequeue := qnext s b\<rparr>)" unfolding finish_True u_def serve_def using False d by simp
    then show thesis using i that [of st'] False w by (simp add: ideintr_Some [OF q(1)])
  qed
  note st'' = st' [unfolded start_next_def]
  show ?thesis
  proof (cases q)
    case Nil
    then show ?thesis using st'' q log by (auto simp: u_def ide_ok_def in_flight_def wakeup_on_def)
  next
    case (Cons c q')
    then have "idestart (Some c) st' u = Ok s'" using st'' q(2) by (simp add: u_def wakeup_on_def)
    then obtain xs where "s' = u\<lparr>port_log := port_log u @ xs\<rparr>" "commands (port_log u @ xs) = commands (port_log u) @ [request_of (bufs u c)]"
      by (rule idestart_Ok)
    then show ?thesis using q log w Cons by (auto simp: u_def ide_ok_def in_flight_def wakeup_on_def)
  qed
qed

lemma ide_request_ok:
  assumes ok: "ide_ok D s S q" and b: "b \<notin> set q" and r: "ide_request b st s = Ok s'"
  shows "ide_ok D s' S (q @ [b]) \<and> bufs s' = bufs s \<and> inside s' = inside s \<and> sleeping s' = sleeping s \<and> fpid s' = fpid s"
proof -
  have q: "queued (qnext s) (idequeue s) q" "distinct q" "commands (port_log s) = S @ in_flight (bufs s) q"
    and w: "\<forall>b\<in>set q. \<not> (bvalid (bufs s b) \<and> \<not> bdirty (bufs s b))"
    using ok by (auto simp: ide_ok_def)
  obtain u where nb: "\<not> (bvalid (bufs s b) \<and> \<not> bdirty (bufs s b))" and a: "append_queue b s = Ok u"
    and u: "(if idequeue u = Some b then idestart (Some b) st u else Ok u) = Ok s'"
    using r by (auto simp: ide_request_def  split: if_splits)
  have qu: "queued (qnext u) (idequeue u) (q @ [b])" and same: "\<exists>nx h. u = s\<lparr>qnext := nx, idequeue := h\<rparr>"
    using append_queue_Ok [OF a q(1,2) b] by auto
  then have fl: "bufs u = bufs s" "port_log u = port_log s" "inside u = inside s" "sleeping u = sleeping s" "fpid u = fpid s" by auto
  show ?thesis
  proof (cases q)
    case Nil
    then have "idestart (Some b) st u = Ok s'" using u qu by simp
    then obtain xs where "s' = u\<lparr>port_log := port_log u @ xs\<rparr>" "commands (port_log u @ xs) = commands (port_log u) @ [request_of (bufs u b)]"
      by (rule idestart_Ok)
    then show ?thesis using Nil q(3) qu fl nb by (simp add: ide_ok_def in_flight_def)
  next
    case (Cons c q')
    then have "idequeue u = Some c" "c \<noteq> b" using qu b by auto
    then have "s' = u" using u by simp
    then show ?thesis using Cons q qu fl nb w b by (auto simp: ide_ok_def in_flight_def)
  qed
qed

lemma ide_ok_procs [simp]:
  "ide_ok D (s\<lparr>sleeping := f\<rparr>) S q = ide_ok D s S q" "ide_ok D (s\<lparr>inside := g\<rparr>) S q = ide_ok D s S q"
  "ide_ok D (s\<lparr>fpid := p\<rparr>) S q = ide_ok D s S q"
  by (simp_all add: ide_ok_def)

text \<open>The loop of a caller: it returns when its buffer has been served and sleeps otherwise.\<close>

lemma ide_loop_Ok:
  assumes "ide_loop b u = Ok s'"
  shows "s' = (if bvalid (bufs u b) \<and> \<not> bdirty (bufs u b) then u\<lparr>inside := (inside u)(fpid u := None)\<rparr>
    else u\<lparr>sleeping := (sleeping u)(fpid u := Some (ChBuf b)), inside := (inside u)(fpid u := Some b)\<rparr>)"
  using assms by (auto simp: ide_loop_def ide_wait_def split: if_splits)

lemma callers_request:
  assumes c: "callers B sl ins q" and i: "ins p = None" and h: "sl_pid (blk (B b)) = p"
  shows "b \<notin> set q" "callers B (sl(p := Some (ChBuf b))) (ins(p := Some b)) (q @ [b])"
proof -
  have n: "ins x \<noteq> Some b" for x
  proof
    assume x: "ins x = Some b"
    then have "x = p" using callersD(1) [OF c x] h by simp
    then show False using x i by simp
  qed
  then show nq: "b \<notin> set q" by (rule callers_waits [OF c])
  show "callers B (sl(p := Some (ChBuf b))) (ins(p := Some b)) (q @ [b])"
  proof (rule callersI)
    fix x y assume x: "(ins(p := Some b)) x = Some y"
    show "sl_pid (blk (B y)) = x" using x h callersD(1) [OF c] by (auto split: if_splits)
    show "y \<in> set (q @ [b]) \<Longrightarrow> (sl(p := Some (ChBuf b))) x = Some (ChBuf y)"
      using x n callersD(2) [OF c] by (auto split: if_splits)
    show "y \<notin> set (q @ [b]) \<Longrightarrow> (sl(p := Some (ChBuf b))) x = None \<and> bvalid (B y) \<and> \<not> bdirty (B y)"
      using x callersD(3) [OF c] by (auto split: if_splits)
  next
    fix x assume "(ins(p := Some b)) x = None"
    then show "(sl(p := Some (ChBuf b))) x = None" using callersD(4) [OF c] by (auto split: if_splits)
  next
    fix y assume "y \<in> set (q @ [b])"
    then consider "y = b" | "y \<in> set q" by auto
    then show "\<exists>x. (ins(p := Some b)) x = Some y"
    proof cases
      case 2
      then obtain x where "ins x = Some y" using callersD(5) [OF c] by blast
      moreover from this have "x \<noteq> p" using i by auto
      ultimately show ?thesis by auto
    qed auto
  qed
qed

lemma callers_return:
  assumes c: "callers B sl ins q" and i: "ins p = Some b" and b: "b \<notin> set q"
  shows "callers B sl (ins(p := None)) q"
proof (rule callersI)
  fix x y assume "(ins(p := None)) x = Some y"
  then have x: "ins x = Some y" by (simp split: if_splits)
  show "sl_pid (blk (B y)) = x" by (rule callersD(1) [OF c x])
  show "y \<in> set q \<Longrightarrow> sl x = Some (ChBuf y)" by (rule callersD(2) [OF c x])
  show "y \<notin> set q \<Longrightarrow> sl x = None \<and> bvalid (B y) \<and> \<not> bdirty (B y)" by (rule callersD(3) [OF c x])
next
  fix x assume "(ins(p := None)) x = None"
  then show "sl x = None" using callersD(3) [OF c i b] callersD(4) [OF c] by (cases "x = p") auto
next
  fix y assume y: "y \<in> set q"
  then obtain x where x: "ins x = Some y" using callersD(5) [OF c] by blast
  then have "x \<noteq> p" using i b y by auto
  then show "\<exists>x. (ins(p := None)) x = Some y" using x by auto
qed

lemma callers_served:
  assumes c: "callers B sl ins (b # q)" and d: "b \<notin> set q"
  shows "callers (B(b := serve D (B b))) (\<lambda>p. if sl p = Some (ChBuf b) then None else sl p) ins q"
proof (rule callersI)
  have r: "blk (serve D (B b)) = blk (B b)" "bvalid (serve D (B b))" "\<not> bdirty (serve D (B b))"
    by (simp_all add: serve_def)
  fix x y assume x: "ins x = Some y"
  show "sl_pid (blk ((B(b := serve D (B b))) y)) = x" using callersD(1) [OF c x] r by auto
  show "y \<in> set q \<Longrightarrow> (if sl x = Some (ChBuf b) then None else sl x) = Some (ChBuf y)"
    using callersD(2) [OF c x] d by auto
  show "y \<notin> set q \<Longrightarrow> (if sl x = Some (ChBuf b) then None else sl x) = None
      \<and> bvalid ((B(b := serve D (B b))) y) \<and> \<not> bdirty ((B(b := serve D (B b))) y)"
    using callersD(2,3) [OF c x] r by (cases "y = b") auto
next
  fix x assume "ins x = None"
  then show "(if sl x = Some (ChBuf b) then None else sl x) = None" using callersD(4) [OF c] by simp
next
  fix y assume "y \<in> set q"
  then show "\<exists>x. ins x = Some y" using callersD(5) [OF c, of y] by simp
qed

lemma callers_client: "callers B sl ins q \<Longrightarrow> (\<And>p. ins p \<noteq> Some b) \<Longrightarrow> callers (B(b := r)) sl ins q"
  by (rule callersI) (auto dest: callersD)

lemma ide_step_ok:
  assumes "ide_step D e s s'" and ok: "ide_ok D s S q" and co: "callers_ok s q"
  shows "\<exists>S' q'. spec D e (bufs s, S, q) = (bufs s', S', q') \<and> ide_ok D s' S' q' \<and> callers_ok s' q'"
  using assms(1)
proof cases
  note c = co [unfolded callers_ok_def]
  {
    case (request b st u)
    have h: "sl_pid (blk (bufs s b)) = fpid s" and nb: "\<not> (bvalid (bufs s b) \<and> \<not> bdirty (bufs s b))"
      using request(4) by (auto simp: ide_request_def holdingsleep_def split: if_splits)
    note cr = callers_request [OF c request(3) h]
    have u: "ide_ok D u S (q @ [b])" "bufs u = bufs s" "inside u = inside s" "sleeping u = sleeping s" "fpid u = fpid s"
      using ide_request_ok [OF ok cr(1) request(4)] by blast+
    have s': "s' = u\<lparr>sleeping := (sleeping u)(fpid u := Some (ChBuf b)), inside := (inside u)(fpid u := Some b)\<rparr>"
      using ide_loop_Ok [OF request(5)] u(2) nb by simp
    have "callers_ok s' (q @ [b])" unfolding s' callers_ok_def using cr(2) by (simp add: u)
    then show ?thesis using request(1) u by (simp add: s')
  next
    case (resume b)
    have nq: "b \<notin> set q" using callersD(2) [OF c resume(3)] resume(2) by auto
    then have "s' = s\<lparr>inside := (inside s)(fpid s := None)\<rparr>"
      using ide_loop_Ok [OF resume(4)] callersD(3) [OF c resume(3)] by simp
    moreover have "callers_ok (s\<lparr>inside := (inside s)(fpid s := None)\<rparr>) q"
      unfolding callers_ok_def using callers_return [OF c resume(3) nq] by simp
    ultimately show ?thesis using resume(1) ok by simp
  next
    case (interrupt st d)
    show ?thesis
    proof (cases q)
      case Nil
      then have "s' = s" using interrupt ok by (auto simp: ideintr_def ide_ok_def)
      then show ?thesis using interrupt(1) Nil ok co by simp
    next
      case (Cons b r)
      then have q: "idequeue s = Some b" "b \<notin> set r" using ok by (auto simp: ide_ok_def)
      have i: "ide_ok D s' (S @ [request_of (bufs s b)]) r" "bufs s' = (bufs s)(b := serve (fold perform S D) (bufs s b))"
          "inside s' = inside s" "sleeping s' = sleeping (wakeup_on (ChBuf b) s)"
        using interrupt ideintr_ok [of D s S b r st d s'] ok Cons q by simp_all
      have "callers_ok s' r" unfolding callers_ok_def i
        using callers_served [OF c [unfolded Cons] q(2)] by (simp add: wakeup_on_def)
      then show ?thesis using i interrupt(1) Cons by simp
    qed
  next
    case (client b r)
    have nq: "b \<notin> set q" by (rule callers_waits [OF c client(3)])
    then have "in_flight ((bufs s)(b := r)) q = in_flight (bufs s) q" by (auto simp: in_flight_def split: list.split)
    then have "ide_ok D s' S q" using client(2) ok nq by (auto simp: ide_ok_def)
    moreover have "callers_ok s' q" unfolding callers_ok_def using callers_client [OF c client(3)] client(2) by simp
    ultimately show ?thesis using client(1,2) by simp
  next
    case (run_process p)
    then show ?thesis using ok co by (simp add: callers_ok_def)
  }
qed

lemma ide_run_ok:
  assumes "ide_run D s es s'" and "ide_ok D s [] []" and "callers_ok s []"
  shows "\<exists>S q. fold (spec D) es (bufs s, [], []) = (bufs s', S, q) \<and> ide_ok D s' S q \<and> callers_ok s' q"
  using assms(1)
proof induction
  case start
  then show ?case using assms(2,3) by simp
next
  case (more es u e v)
  then obtain S q where "fold (spec D) es (bufs s, [], []) = (bufs u, S, q)" "ide_ok D u S q" "callers_ok u q" by blast
  then show ?case using ide_step_ok [OF more.hyps(2), of S q] by auto
qed

lemma ide_ok_start: "idequeue s = None \<Longrightarrow> commands (port_log s) = [] \<Longrightarrow> ide_ok D s [] []"
  by (simp add: ide_ok_def in_flight_def)

text \<open>Served by this driver a request has the effect it has on the memory disk.\<close>

lemma serve_as_memide:
  assumes "iderw b s = Ok s'" and "memdisk s = D (bit (bdev (bufs s b)) 0) \<circ> unat"
  shows "bufs s' b = serve D (bufs s b)"
    and "memdisk s' = perform (request_of (bufs s b)) D (bit (bdev (bufs s b)) 0) \<circ> unat"
proof -
  have u: "unat x = unat y \<longleftrightarrow> x = y" for x y :: u32 by (rule word_unat_eq_iff [symmetric])
  show "bufs s' b = serve D (bufs s b)"
    "memdisk s' = perform (request_of (bufs s b)) D (bit (bdev (bufs s b)) 0) \<circ> unat"
    using assms by (auto simp: iderw_def serve_def request_of_def updb_def setdata_def Let_def fun_eq_iff u split: if_splits)
qed

lemma ideinit_idle:
  assumes "ideinit st s = Ok s'" and "port_log s = []"
  shows "commands (port_log s') = [] \<and> idequeue s' = idequeue s"
  using assms by (auto simp: ideinit_def out_def commands_def Let_def )

text \<open>
  C29.  The disk driver serves its requests one at a time and in the order in which they were made.  From the start
  on, for every sequence of calls of \<open>iderw\<close>, interrupts, and changes the cache makes to other buffers: the buffers
  are those of a list of waiting requests of which each interrupt serves the first (\<open>spec\<close>): a dirty
  buffer is written to its sector and a clean one gets the bytes that the requests before it left in its
  sector, and both end valid and clean, as with the memory disk.  The controller has received exactly
  the commands of the served requests, in order, and that of the first waiting one, with the right drive,
  sector and data.  A process in \<open>iderw\<close> sleeps as long as its buffer waits; once the buffer is served
  the process is awake, and the next time it runs \<open>iderw\<close> returns: no wake-up is lost.
\<close>

theorem ide_serves_in_order:
  assumes "ide_run D s es s'" and "idequeue s = None" and "commands (port_log s) = []"
    and "inside s = (\<lambda>_. None)" and "sleeping s = (\<lambda>_. None)"
  shows "\<exists>S q. fold (spec D) es (bufs s, [], []) = (bufs s', S, q) \<and> queued (qnext s') (idequeue s') q \<and> distinct q
    \<and> commands (port_log s') = S @ (case q of [] \<Rightarrow> [] | b # _ \<Rightarrow> [request_of (bufs s' b)])
    \<and> (\<forall>b\<in>set q. \<exists>p. inside s' p = Some b)
    \<and> (\<forall>p b. inside s' p = Some b \<longrightarrow>
         (if b \<in> set q then sleeping s' p = Some (ChBuf b)
          else sleeping s' p = None \<and> ide_wait b (s'\<lparr>fpid := p\<rparr>) = Ok (True, s'\<lparr>fpid := p\<rparr>)))"
proof -
  have "callers_ok s []" using assms(4,5) by (simp add: callers_ok_def callers_def)
  then obtain S q where "fold (spec D) es (bufs s, [], []) = (bufs s', S, q)" "ide_ok D s' S q" "callers_ok s' q"
    using ide_run_ok [OF assms(1) ide_ok_start [OF assms(2,3)]] by blast
  then show ?thesis by (intro exI [of _ S] exI [of _ q]) (simp add: ide_ok_def callers_ok_def callers_def in_flight_def ide_wait_def)
qed

definition ide_boot :: ide where
  "ide_boot = \<lparr>fpid = 7, bufs = \<lambda>i. \<lparr>bvalid = False, bdirty = i = 1, bdev = 1, bblockno = of_nat i,
      blk = \<lparr>sl_locked = True, sl_pid = if i = 1 then 7 else 8\<rparr>,
      brefcnt = 1, bprev = 0, bnext = 0, bdata = \<lambda>_. 42\<rparr>, memdisk = \<lambda>_ _. 0, disksize = 0, dwrites = [],
     idequeue = None, qnext = \<lambda>_. None, havedisk1 = True, sleeping = \<lambda>_. None, inside = \<lambda>_. None, port_log = []\<rparr>"

lemma idestart_runs:
  "bblockno (bufs s b) < 100000 \<Longrightarrow> \<exists>xs. idestart (Some b) [0x40] s = Ok (s\<lparr>port_log := port_log s @ xs\<rparr>)"
proof -
  assume "bblockno (bufs s b) < 100000"
  then have "\<exists>u. idestart (Some b) [0x40] s = Ok u"
    by (simp add: idestart_def FSSIZE_def BSIZE_def SECTOR_SIZE_def IDE_DRDY_def IDE_BSY_def Let_def not_le)
  then obtain u where "idestart (Some b) [0x40] s = Ok u" by blast
  moreover from this obtain xs where "u = s\<lparr>port_log := port_log s @ xs\<rparr>" by (rule idestart_Ok)
  ultimately show ?thesis by blast
qed

lemma ide_loop_sleeps:
  "\<not> bvalid (bufs u b) \<Longrightarrow> ide_loop b u
     = Ok (u\<lparr>sleeping := (sleeping u)(fpid u := Some (ChBuf b)), inside := (inside u)(fpid u := Some b)\<rparr>)"
  by (simp add: ide_loop_def ide_wait_def)

lemma ide_serves_in_order_witness:
  "\<exists>s' S q. ide_run (\<lambda>_ _ _. 5) ide_boot [Request 1, Run_process 8, Request 2, Interrupt] s'
    \<and> fold (spec (\<lambda>_ _ _. 5)) [Request 1, Run_process 8, Request 2, Interrupt] (bufs ide_boot, [], []) = (bufs s', S, q)
    \<and> S = [Wr True 1 (\<lambda>_. 42)] \<and> q = [2] \<and> commands (port_log s') = [Wr True 1 (\<lambda>_. 42), Rd True 2]
    \<and> sleeping s' 7 = None \<and> sleeping s' 8 = Some (ChBuf 2)"
proof -
  let ?D = "\<lambda>_ _ _. 5"
  have e: "queue_end (\<lambda>_. None) 1 = Some 1" using queue_end.simps [of "\<lambda>_. None" 1] by simp
  have ok0: "ide_ok ?D ide_boot [] []" "callers_ok ide_boot []"
    by (simp_all add: ide_ok_def in_flight_def callers_ok_def callers_def ide_boot_def commands_def)
  obtain xs where u1: "ide_request 1 [0x40] ide_boot = Ok (ide_boot\<lparr>idequeue := Some 1, port_log := xs\<rparr>)"
    using idestart_runs [of "ide_boot\<lparr>idequeue := Some 1\<rparr>" 1]
    by (auto simp: ide_request_def append_queue_def holdingsleep_def ide_boot_def fun_upd_idem)
  let ?u1 = "ide_boot\<lparr>idequeue := Some 1, port_log := xs\<rparr>"
  define s1 where "s1 = ?u1\<lparr>sleeping := (\<lambda>_. None)(7 := Some (ChBuf 1)), inside := (\<lambda>_. None)(7 := Some 1)\<rparr>"
  have l1: "ide_loop 1 ?u1 = Ok s1" using ide_loop_sleeps [of ?u1 1] by (simp add: s1_def ide_boot_def)
  have r1: "ide_step ?D (Request 1) ide_boot s1" by (rule request [OF _ _ u1 l1]) (simp_all add: ide_boot_def)
  define s2 where "s2 = s1\<lparr>fpid := 8\<rparr>"
  have r2: "ide_step ?D (Run_process 8) s1 s2" unfolding s2_def by (rule run_process) (simp add: s1_def)
  have f2: "fpid s2 = 8" "bufs s2 = bufs ide_boot" "qnext s2 = (\<lambda>_. None)" "idequeue s2 = Some 1" "havedisk1 s2"
      "sleeping s2 = (\<lambda>_. None)(7 := Some (ChBuf 1))" "inside s2 = (\<lambda>_. None)(7 := Some 1)"
    by (simp_all add: s2_def s1_def ide_boot_def)
  have run2: "ide_run ?D ide_boot [Request 1, Run_process 8] s2" using more [OF more [OF start r1] r2] by simp
  obtain S2 q2 where "fold (spec ?D) [Request 1, Run_process 8] (bufs ide_boot, [], []) = (bufs s2, S2, q2)"
      "ide_ok ?D s2 S2 q2" "callers_ok s2 q2"
    using ide_run_ok [OF run2 ok0] by blast
  then have ok2: "ide_ok ?D s2 [] [1]" "callers_ok s2 [1]" by auto
  obtain u3 where u3: "ide_request 2 [] s2 = Ok u3"
    using f2 e by (simp add: ide_request_def append_queue_def holdingsleep_def ide_boot_def Let_def fun_upd_idem)
  note v3 = ide_request_ok [OF ok2(1) _ u3, simplified]
  let ?s3 = "u3\<lparr>sleeping := (sleeping u3)(8 := Some (ChBuf 2)), inside := (inside u3)(8 := Some 2)\<rparr>"
  have l3: "ide_loop 2 u3 = Ok ?s3"
    using ide_loop_sleeps [of u3 2] v3 f2 by (simp add: ide_boot_def)
  have r3: "ide_step ?D (Request 2) s2 ?s3" by (rule request [OF _ _ u3 l3]) (simp_all add: f2)
  have ok3: "ide_ok ?D ?s3 [] [1, 2]" "bufs ?s3 = bufs ide_boot" using v3 f2 by simp_all
  have h3: "idequeue ?s3 = Some 1" "qnext ?s3 1 = Some 2" using ok3(1) by (auto simp: ide_ok_def)
  obtain s4 where s4: "ideintr [0x40] (\<lambda>_. 0) ?s3 = Ok s4"
    using h3 ok3(2) idestart_runs [of "finish (\<lambda>_. 0) 1 False (?s3\<lparr>idequeue := Some 2\<rparr>)" 2]
    by (auto simp: ideintr_Some start_next_def finish_False wakeup_on_def ide_boot_def)
  have r4: "ide_step ?D Interrupt ?s3 s4"
    using s4 h3 ok3(2) by (intro interrupt [of ?s3 "[0x40]" "\<lambda>_. 0"]) (auto simp: ide_boot_def)
  have "inside s4 = inside ?s3"
    using ideintr_ok [OF ok3(1) s4] ok3(2) by (simp add: ide_boot_def)
  then have in4: "inside s4 7 = Some 1" "inside s4 8 = Some 2" using v3 f2 by simp_all
  have run: "ide_run ?D ide_boot [Request 1, Run_process 8, Request 2, Interrupt] s4"
    using more [OF more [OF run2 r3] r4] by simp
  have b: "idequeue ide_boot = None" "commands (port_log ide_boot) = []" "inside ide_boot = (\<lambda>_. None)" "sleeping ide_boot = (\<lambda>_. None)"
    by (simp_all add: ide_boot_def commands_def)
  from ide_serves_in_order [OF run b] obtain S q
    where f: "fold (spec ?D) [Request 1, Run_process 8, Request 2, Interrupt] (bufs ide_boot, [], []) = (bufs s4, S, q)"
      and c: "commands (port_log s4) = S @ (case q of [] \<Rightarrow> [] | b # _ \<Rightarrow> [request_of (bufs s4 b)])"
      and w: "\<forall>p b. inside s4 p = Some b \<longrightarrow> (if b \<in> set q then sleeping s4 p = Some (ChBuf b)
          else sleeping s4 p = None \<and> ide_wait b (s4\<lparr>fpid := p\<rparr>) = Ok (True, s4\<lparr>fpid := p\<rparr>))"
    by blast
  have v: "S = [Wr True 1 (\<lambda>_. 42)]" "q = [2]" "bufs s4 = (bufs ide_boot)(1 := serve ?D (bufs ide_boot 1))"
    using f by (simp_all add: ide_boot_def request_of_def bit_0)
  have "commands (port_log s4) = [Wr True 1 (\<lambda>_. 42), Rd True 2]"
    using c v by (simp add: request_of_def ide_boot_def bit_0)
  moreover have "sleeping s4 7 = None" "sleeping s4 8 = Some (ChBuf 2)" using w in4 v(2) by fastforce+
  ultimately show ?thesis using run f v by blast
qed

end
