(* ===== verification/Spec2Isabelle.thy ===== *)
theory Spec2Isabelle
  imports Mlfq_Props Log_Props Cstring_Props Sysfile Fs_Write Fs_Inode Lwp_Props Lwp_Trap Vm_Copy Umalloc_Props Sh_Line Console_Props Pmanager Grep Ide
begin

text \<open>
  A verification library for the three xv6 kernels of the repository: \<open>src/project1\<close> replaces the
  scheduler of xv6 by a multi-level feedback queue (MLFQ), \<open>src/project2\<close> adds a process manager with
  memory limits, a second \<open>exec\<close> and light-weight processes (LWP), \<open>src/project3\<close> extends the file system by
  double and triple indirect blocks, symbolic links and a \<open>sync\<close> that commits on demand.  Each project is a
  complete kernel; files that the projects do not change are the same in all three and are modelled once.

  \<^bold>\<open>Conventions.\<close>  Machine integers keep their width: pointers, \<open>uint\<close> and disk addresses are 32-bit words,
  bytes are 8-bit words, and arithmetic wraps; signed values that the code only compares or counts are
  \<open>int\<close> or \<open>nat\<close>.  A pointer into a static array is the index of the entry, a null pointer that the code tests
  is \<open>None\<close>; a pointer to memory of the page allocator is its address.  A piece of kernel code has a result of
  type \<open>kres\<close> (theory Prelude): \<open>Ok\<close>, \<open>Panic\<close> with the message, or \<open>Spin\<close>, a wait that nothing on this
  processor can end; \<open>kbind\<close> is sequencing.  Code that gives up the processor ends there; what is left to do
  is kept as the continuation of the process (\<open>kont\<close>), and a function of its own (\<open>sleep_return\<close>,
  \<open>join_loop\<close>, \<open>syscall_return\<close>) goes on from it.  A loop is a recursive function over what is left to do;
  where it need not end it is a \<open>partial_function\<close> with \<open>None\<close> for running on forever (strings without a NUL,
  cycles of symbolic links).  The loops over addresses and blocks end because the address or the count moves, and
  their termination is proved.  Only the four mutually recursive functions of the shell's parser have a bound on
  their depth; \<open>parsecmd\<close> passes four for each byte of the line and four for its end, which always suffices
  (\<open>parse_total\<close>).

  \<^bold>\<open>Locks, memory and page tables (all projects).\<close>
  \<^item> Spinlock: \<open>spinlock.c\<close>.  A set of processors takes and gives back locks in any order, by the single stores and
    exchanges of \<open>acquire\<close> and \<open>release\<close>, so that a processor that spins is a state of the model; mutual exclusion,
    interrupts off while a lock is held, and the nesting of \<open>pushcli\<close> and \<open>popcli\<close>.  The other theories use
    \<open>acquire\<close> and \<open>release\<close> as a whole: a critical section is one step there.
  \<^item> Kalloc: \<open>kalloc.c\<close>.  The record \<open>machine\<close> is the processor, the memory \<open>ram\<close> and \<open>kmem\<close>; the free list runs
    through the free pages.  \<open>kalloc_inv s xs\<close>: the free list is \<open>xs\<close>.  The locale \<open>page_pool\<close> is what its
    clients may rely on.
  \<^item> Vm: \<open>vm.c\<close>, every function on page tables, executable down to the words of the tables.  Vm_Map says what
    a page table means: \<open>entry\<close>, the pages an address space owns (\<open>own\<close>), and the invariant \<open>space s d xs\<close>.
    Vm_Alloc and Vm_Grow relate \<open>mappages\<close>, \<open>deallocuvm\<close> and \<open>allocuvm\<close> to it, Vm_Kernel \<open>freevm\<close> and
    \<open>setupkvm\<close>.  Vm_Props and Vm_Copy hold the theorems in terms of \<open>user_byte\<close>, the byte that a user program
    reads: growing, copying out, copying a whole space for \<open>fork\<close>, and freeing one.  They also say that no page is lost,
    how much free memory is enough, and that other spaces notice nothing.

  \<^bold>\<open>The MLFQ scheduler (project 1).\<close>
  \<^item> Mlfq_Queue: \<open>struct queue\<close> with \<open>enqueue\<close>, \<open>dequeue\<close>, \<open>remove\<close> and \<open>insertqueue\<close>, as an implementation of
    bounded lists (locales \<open>sched_queue\<close> and \<open>keyed_queue\<close>).
  \<^item> Mlfq_Proc: \<open>proc.c\<close>, the timer case of \<open>trap.c\<close> and \<open>sysproc.c\<close>; the record \<open>mlfq\<close> adds \<open>ptable\<close>, the tick
    counters and the lock of the scheduler to the machine.
  \<^item> Mlfq_Inv, Mlfq_Sched, Mlfq_Boost: the invariant, the choice of the next process and the exact effect of
    a boost.  Mlfq_Steps: the kernel on any number of processors as a step relation whose steps are the critical
    sections (the invariant \<open>rest R\<close> of one processor has the processes \<open>R\<close> that run on the others).
    Mlfq_Props: the invariant of the states reached before a boost strands the holder of the scheduler lock, when it is lost,
    and the properties of each operation, among them how \<open>priorityboosting\<close> differs from the documented one.

  \<^bold>\<open>Processes and threads (project 2).\<close>
  \<^item> Lwp: \<open>proc.c\<close>; every thread is an entry of \<open>ptable\<close> (record \<open>lproc\<close>), \<open>mainthread\<close> points to the entry
    with the size and the memory limit of the process.  Lwp_Threads: \<open>setmemorylimit\<close>, \<open>showprocs\<close>,
    \<open>thread_create\<close>, \<open>thread_exit\<close>, \<open>thread_join\<close> and the system calls of \<open>sysproc.c\<close>.  Lwp_Exec: \<open>exec.c\<close>.
    Lwp_Trap: the table of system calls and \<open>trap.c\<close>.
  \<^item> Lwp_Ops: computation rules for critical sections.  Lwp_Inv: no call makes a process larger than its
    limit; the parts of \<open>thread_create\<close>, which holds no lock, are interleaved with the other calls, but those that change the size
    or limit of the same process in the meantime, which the code does not prevent, are excluded (\<open>undisturbed\<close>), and so is
    \<open>exec\<close>.  Lwp_Props: \<open>exit\<close> ends the whole group of threads, the limit under these conditions, fairness of
    the scheduler, and the outcomes of \<open>growproc\<close>.

  \<^bold>\<open>The file system (project 3).\<close>
  \<^item> Bio: the buffer cache \<open>bio.c\<close> with its circular list, \<open>sleeplock.c\<close>, and the memory disk \<open>memide.c\<close>.  Bcache: its
    invariant and the interface \<open>block_cache\<close> on which everything above rests; Bcache_Props: all outcomes.
  \<^item> Ide: the disk driver \<open>ide.c\<close>, with the bytes it sends to the controller and the controller's answers as arguments;
    it serves its queue in order, each request has the effect it has on the memory disk, and no process sleeps on
    after its request.
  \<^item> Log: \<open>log.c\<close>; the header is encoded in the bytes of its block.  Log_Ops and Log_Crash: the disk writes of
    a commit in order, and a boot from any prefix of them; the log is \<open>LOGSIZE\<close> blocks (\<open>log_region\<close>), as \<open>mkfs\<close> makes it.  Log_Props: transactions of clients and the
    theorem that a crash at any point loses all of a commit or nothing.
  \<^item> Fs, Fs_Data, Fs_Dir: \<open>fs.c\<close>, that is the bitmap, inodes, the block map with three levels of indirection,
    truncation, reading, writing, directories and paths.  Fs_Enc: formats of inodes, directory entries and
    paths.  Fs_Ops: file system code inside a transaction.  Fs_Alloc, Fs_Inode, Fs_File, Fs_Write: the block allocator,
    storing and loading inodes, the contents of files, and writing in place.
  \<^item> Pipe, File, Sysfile: \<open>pipe.c\<close>, \<open>file.c\<close>, the fetching of system call arguments in \<open>syscall.c\<close>, and
    \<open>sysfile.c\<close> with symbolic links.

  \<^bold>\<open>Strings.\<close>  Cstring and Cstring_Props: \<open>string.c\<close>, \<open>ulib.c\<close>, \<open>printf.c\<close> and the parsing functions of
  \<open>pmanager.c\<close>.

  \<^bold>\<open>The console.\<close>  Console: \<open>console.c\<close>, \<open>uartputc\<close>, and \<open>kbd.c\<close> with its tables; the screen memory and the cursor
  registers keep what is written to them.  Console_Props: output stays on the screen, and the input buffer
  with its three wrapping indices implements finished lines and a line being edited, for typing and for reading.

  \<^bold>\<open>User programs.\<close>
  \<^item> Umalloc: \<open>umalloc.c\<close>, the heap of a process, on the bytes of its memory; \<open>sbrk\<close> is an argument.  Umalloc_Props:
    the invariant \<open>uheap_inv s fs A\<close> (the circular list holds the free blocks \<open>fs\<close>, the program the blocks \<open>A\<close>),
    that \<open>free\<close>, \<open>morecore\<close> and \<open>malloc\<close> keep it, and what follows for every program (\<open>program\<close>).
  \<^item> Sh: \<open>sh.c\<close>, the parser of command lines over offsets into the line, and \<open>runcmd\<close> as a tree of system calls.
    Sh_Props: the recursion of the parser ends.  Sh_Round: commands as trees of words (\<open>script\<close>), how they are
    written, and that the parser reads them back.  Sh_Line: the same for the line in memory with its newline, what
    happens on any other line, and the descriptors of the programs that the shell starts.
  \<^item> Pmanager: the loop of \<open>pmanager.c\<close>, and that each line makes the call it means.
  \<^item> Grep: \<open>grep.c\<close>; the matcher decides the language of the pattern, and files are filtered by it line by line.

  \<^bold>\<open>Bounds.\<close>  \<open>allocuvm\<close> fails only with fewer than two free pages for each new one (the page and perhaps a page
  table).  \<open>copyuvm\<close> fails only when the free pages are at most 1026 (a directory, 1024 page tables and the
  page being copied) and the pages to be copied.  \<open>copyout\<close> is stated for buffers below \<open>KERNBASE\<close>, whose
  directory entries are present: for other addresses the code reads through a null pointer, which the
  definition of \<open>uva2ka\<close> has and the theorem excludes.  \<open>setupkvm\<close> relies on the linker script, which puts the symbol
  \<open>data\<close> at a page boundary between the kernel's code and the end of memory (\<open>kernel_layout\<close>).

  \<^bold>\<open>Not modelled.\<close>  The drivers that program device ports (the set-up of \<open>uart.c\<close>,
  \<open>lapic.c\<close>, \<open>ioapic.c\<close>, \<open>picirq.c\<close>, \<open>mp.c\<close>), the boot code and the assembly: their effect is on
  hardware that the sources do not describe.  \<open>swtch\<close> is the change of the continuation.  Loading segment registers,
  the TSS and \<open>%cr3\<close> (\<open>seginit\<close>, \<open>switchkvm\<close>, \<open>kvmalloc\<close>) changes no state that the code reads back.  The calls
  of \<open>cprintf\<close> in other files, \<open>panic\<close> (a result of its own) and \<open>procdump\<close> are left out.  \<open>mkfs.c\<close>, the other user programs and the tests are not modelled, and
  neither are the processes of project 3, which are those of unmodified xv6.  Compiler optimisations and
  memory ordering between processors are outside the model.
\<close>

end
